(* ===== verification/Prelude.thy ===== *)
theory Prelude
  imports Main "HOL-Library.Word" "HOL-Library.Monad_Syntax"
begin

text \<open>
  Shared vocabulary of the development: the C integer types of \<^verbatim>\<open>include/rtdef.h\<close> as
  words, the error codes, assertions as the option monad (\<^const>\<open>None\<close> is a call that
  never returns: \<^verbatim>\<open>rt_assert_handler\<close> spins for ever), and the generic lemmas on
  lists, options and words that the components share.
\<close>

unbundle bit_operations_syntax

named_theorems rt_defs "definitions of the modelled operations, for unfolding"
named_theorems rt_frame "what an operation leaves unchanged"
named_theorems rt_inv "an operation keeps an invariant"
named_theorems stat_simps "masking of the thread status byte"

type_synonym u8 = "8 word"
type_synonym u16 = "16 word"
type_synonym u32 = "32 word"
type_synonym u64 = "64 word"
type_synonym rt_err_t = int

section \<open>Error codes and assertions\<close>

abbreviation RT_EOK :: rt_err_t where "RT_EOK \<equiv> 0"
abbreviation RT_ERROR :: rt_err_t where "RT_ERROR \<equiv> 1"
abbreviation RT_ETIMEOUT :: rt_err_t where "RT_ETIMEOUT \<equiv> 2"
abbreviation RT_EFULL :: rt_err_t where "RT_EFULL \<equiv> 3"
abbreviation RT_EINTR :: rt_err_t where "RT_EINTR \<equiv> 9"
abbreviation RT_EINVAL :: rt_err_t where "RT_EINVAL \<equiv> 10"

definition RT_ASSERT :: "bool \<Rightarrow> unit option" where
  "RT_ASSERT ex = (if ex then Some () else None)"

lemma RT_ASSERT_simps [simp]:
  "RT_ASSERT True = Some ()" "RT_ASSERT False = None"
  by (simp_all add: RT_ASSERT_def)

lemma RT_ASSERT_eq_Some [simp]: "RT_ASSERT b = Some u \<longleftrightarrow> b"
  by (simp add: RT_ASSERT_def)

lemma bind_RT_ASSERT_eq_Some [simp]:
  "Option.bind (RT_ASSERT b) f = Some r \<longleftrightarrow> b \<and> f () = Some r"
  by (cases b) simp_all

definition RT_ALIGN :: "u64 \<Rightarrow> u64 \<Rightarrow> u64" where
  "RT_ALIGN sz align = ((sz + align - 1) AND NOT (align - 1))"

section \<open>Words\<close>

lemma unat_and_not_mask: "unat (x AND NOT (mask n) :: 'a :: len word) = unat x div 2 ^ n * 2 ^ n"
proof -
  have "x - (x AND mask n) = x AND NOT (x AND mask n)" by (rule disjunctive_diff_eq_and_not) (simp flip: and.assoc)
  also have "\<dots> = x AND NOT (mask n)" by (auto simp: bit_eq_iff bit_simps)
  finally have "x AND NOT (mask n) = x - take_bit n x" by (simp only: take_bit_eq_mask)
  moreover have t: "unat (take_bit n x) = unat x mod 2 ^ n" unfolding unsigned_take_bit_eq by (rule take_bit_eq_mod)
  moreover have "take_bit n x \<le> x" by (simp add: word_le_nat_alt t)
  ultimately have "unat (x AND NOT (mask n)) = unat x - unat x mod 2 ^ n" by (simp add: unat_sub)
  then show ?thesis by (simp add: minus_mod_eq_div_mult)
qed

section \<open>Lists\<close>

lemma removeAll_notin [simp]: "x \<notin> set xs \<Longrightarrow> removeAll x xs = xs"
  by (rule removeAll_id)

lemma removeAll_distinct_split:
  "distinct (us @ x # vs) \<Longrightarrow> removeAll x (us @ x # vs) = us @ vs"
  by simp

lemma removeAll_hd: "distinct xs \<Longrightarrow> xs \<noteq> [] \<Longrightarrow> removeAll (hd xs) xs = tl xs"
  by (cases xs) auto

lemma removeAll_eq_Nil_iff: "removeAll x xs = [] \<longleftrightarrow> set xs \<subseteq> {x}"
  by (induction xs) auto

section \<open>Words\<close>

lemma word_masked_or_field:
  fixes s x m :: "'a::len word"
  assumes "s AND m = s"
  shows "(s OR (x AND NOT m)) AND m = s"
proof -
  have "(s OR (x AND NOT m)) AND m = s AND m"
    by (rule bit_word_eqI) (auto simp: bit_simps)
  with assms show ?thesis by simp
qed

lemma word_masked_or_rest:
  fixes s x m r :: "'a::len word"
  assumes "s AND m = s" "r AND m = 0"
  shows "(s OR (x AND NOT m)) AND r = x AND r"
proof -
  have s: "bit m n" if "bit s n" for n
    using assms(1) that by (metis bit_and_iff)
  have r: "\<not> bit m n" if "bit r n" for n
    using assms(2) that by (metis bit_and_iff bit_0_eq bot_apply bot_bool_def)
  show ?thesis
    by (rule bit_word_eqI) (auto simp: bit_simps dest: s r)
qed

lemma bit_two_power [simp]:
  "n < LENGTH('a) \<Longrightarrow> bit ((2::'a::len word) ^ m) n \<longleftrightarrow> n = m"
  by (auto simp: bit_exp_iff)

lemma word_eq_0_iff_bits: "(w::'a::len word) = 0 \<longleftrightarrow> (\<forall>n < LENGTH('a). \<not> bit w n)"
  by (auto intro: bit_word_eqI)

lemma unat_u8_less_32: "x < (32::u8) \<longleftrightarrow> unat x < 32"
  by (simp add: word_less_nat_alt)

lemma unat_u16_less: "unat (x::u16) < 65536"
  using unsigned_less [of x, where 'a = nat] by simp

lemma add_mod_inj:
  fixes a i j n :: nat
  assumes "i < n" "j < n" "(a + i) mod n = (a + j) mod n" shows "i = j"
proof (rule ccontr)
  assume "i \<noteq> j"
  then have "n dvd i - j \<and> j < i \<or> n dvd j - i \<and> i < j"
    using assms(3) mod_eq_dvd_iff_nat [of "a + j" "a + i" n] mod_eq_dvd_iff_nat [of "a + i" "a + j" n]
    by (cases "i < j") auto
  with assms(1,2) show False by (auto dest: dvd_imp_le)
qed

lemma u16_less_max: "(x::u16) < 0xffff \<longleftrightarrow> x \<noteq> 0xffff"
proof -
  have "unat x < 2 ^ 16" using unsigned_less [of x] by simp
  moreover have "x = 0xffff \<longleftrightarrow> unat x = 65535" by (simp add: word_unat_eq_iff)
  ultimately show ?thesis by (auto simp: word_less_nat_alt)
qed

lemma u16_Suc: "(x::u16) \<noteq> 0xffff \<Longrightarrow> unat (x + 1) = unat x + 1"
  using u16_less_max [of x] by (simp add: word_less_nat_alt unat_word_ariths)

end
