(* ===== verification/Rtlist.thy ===== *)
theory Rtlist
  imports Prelude
begin

text \<open>
  \<^verbatim>\<open>include/rtservice.h\<close>: the intrusive circular doubly linked list \<^verbatim>\<open>rt_list_t\<close>. The
  operations work on a heap of \<open>next\<close> and \<open>prev\<close> fields exactly as the C does, one
  assignment after the other; \<open>ring h l xs\<close> says that the nodes \<open>xs\<close> hang on the head \<open>l\<close>
  in this order. Every kernel component keeps its threads, timers and objects on such
  lists; the kernel model works on the abstract lists, which the lemmas here justify.
\<close>

section \<open>The operations\<close>

record 'a list_heap =
  nxt :: "'a \<Rightarrow> 'a"
  prv :: "'a \<Rightarrow> 'a"

definition set_next :: "'a \<Rightarrow> 'a \<Rightarrow> 'a list_heap \<Rightarrow> 'a list_heap" where
  "set_next a b h = h\<lparr>nxt := (nxt h)(a := b)\<rparr>"

definition set_prev :: "'a \<Rightarrow> 'a \<Rightarrow> 'a list_heap \<Rightarrow> 'a list_heap" where
  "set_prev a b h = h\<lparr>prv := (prv h)(a := b)\<rparr>"

definition rt_list_init :: "'a \<Rightarrow> 'a list_heap \<Rightarrow> 'a list_heap" where
  "rt_list_init l h = set_next l l (set_prev l l h)"

definition rt_list_insert_after :: "'a \<Rightarrow> 'a \<Rightarrow> 'a list_heap \<Rightarrow> 'a list_heap" where
  "rt_list_insert_after l n h =
    (let h = set_prev (nxt h l) n h;
         h = set_next n (nxt h l) h;
         h = set_next l n h
     in set_prev n l h)"

definition rt_list_insert_before :: "'a \<Rightarrow> 'a \<Rightarrow> 'a list_heap \<Rightarrow> 'a list_heap" where
  "rt_list_insert_before l n h =
    (let h = set_next (prv h l) n h;
         h = set_prev n (prv h l) h;
         h = set_prev l n h
     in set_next n l h)"

definition rt_list_remove :: "'a \<Rightarrow> 'a list_heap \<Rightarrow> 'a list_heap" where
  "rt_list_remove n h =
    (let h = set_prev (nxt h n) (prv h n) h;
         h = set_next (prv h n) (nxt h n) h;
         h = set_prev n n h
     in set_next n n h)"

definition rt_list_isempty :: "'a \<Rightarrow> 'a list_heap \<Rightarrow> bool" where
  "rt_list_isempty l h \<longleftrightarrow> nxt h l = l"

partial_function (option) rt_list_len_from :: "'a list_heap \<Rightarrow> 'a \<Rightarrow> 'a \<Rightarrow> u32 \<Rightarrow> u32 option" where
  "rt_list_len_from h l p len =
    (if nxt h p = l then Some len else rt_list_len_from h l (nxt h p) (len + 1))"

definition rt_list_len :: "'a \<Rightarrow> 'a list_heap \<Rightarrow> u32 option" where
  "rt_list_len l h = rt_list_len_from h l l 0"

section \<open>Rings\<close>

fun linked :: "'a list_heap \<Rightarrow> 'a list \<Rightarrow> bool" where
  "linked h (a # b # r) \<longleftrightarrow> nxt h a = b \<and> prv h b = a \<and> linked h (b # r)"
| "linked h _ \<longleftrightarrow> True"

definition ring :: "'a list_heap \<Rightarrow> 'a \<Rightarrow> 'a list \<Rightarrow> bool" where
  "ring h l xs \<longleftrightarrow> distinct (l # xs) \<and> linked h (l # xs @ [l])"

lemmas list_op_defs = rt_list_init_def rt_list_insert_after_def rt_list_insert_before_def
  rt_list_remove_def rt_list_isempty_def set_next_def set_prev_def

lemma linked_append:
  "linked h (us @ a # vs) \<longleftrightarrow> linked h (us @ [a]) \<and> linked h (a # vs)"
proof (induction us)
  case (Cons u us)
  then show ?case by (cases us) auto
qed simp

lemma linked_cong:
  assumes "linked h xs"
    and "\<And>a. a \<in> set (butlast xs) \<Longrightarrow> nxt h' a = nxt h a"
    and "\<And>a. a \<in> set (tl xs) \<Longrightarrow> prv h' a = prv h a"
  shows "linked h' xs"
  using assms by (induction h xs rule: linked.induct) auto

lemma ring_Nil: "ring h l [] \<longleftrightarrow> nxt h l = l \<and> prv h l = l"
  by (auto simp: ring_def)

lemma ring_rotate:
  "ring h l (us @ a # vs) \<longleftrightarrow> ring h a (vs @ l # us)"
proof -
  have "linked h (l # (us @ a # vs) @ [l]) \<longleftrightarrow> linked h (l # us @ [a]) \<and> linked h (a # vs @ [l])"
    using linked_append [of h "l # us" a "vs @ [l]"] by simp
  also have "\<dots> \<longleftrightarrow> linked h (a # (vs @ l # us) @ [a])"
    using linked_append [of h "a # vs" l "us @ [a]"] by auto
  finally show ?thesis by (auto simp: ring_def)
qed

lemma ring_frame:
  assumes "ring h l xs" and "\<And>a. a \<in> set (l # xs) \<Longrightarrow> nxt h' a = nxt h a \<and> prv h' a = prv h a"
  shows "ring h' l xs"
  using assms unfolding ring_def
  by (auto intro: linked_cong [of h] simp: butlast_append)

section \<open>What the operations do to a ring\<close>

lemma rt_list_init_ring: "ring (rt_list_init l h) l []"
  by (simp add: ring_Nil list_op_defs)

lemma insert_after_ring:
  assumes "ring h l xs" "n \<notin> set (l # xs)"
  shows "ring (rt_list_insert_after l n h) l (n # xs)"
proof (cases xs)
  case Nil
  with assms show ?thesis by (auto simp: ring_def list_op_defs)
next
  case (Cons x ys)
  have "linked (rt_list_insert_after l n h) (x # ys @ [l])"
    by (rule linked_cong [of h])
      (use assms Cons in \<open>auto simp: ring_def list_op_defs butlast_append\<close>)
  with assms Cons show ?thesis by (auto simp: ring_def list_op_defs)
qed

lemma insert_before_ring:
  assumes "ring h l xs" "n \<notin> set (l # xs)"
  shows "ring (rt_list_insert_before l n h) l (xs @ [n])"
proof (cases xs rule: rev_cases)
  case Nil
  with assms show ?thesis by (auto simp: ring_def list_op_defs)
next
  case (snoc ys y)
  have "linked h (l # ys @ [y])" and yl: "nxt h y = l" "prv h l = y"
    using assms(1) linked_append [of h "l # ys" y "[l]"] by (auto simp: ring_def snoc)
  then have "linked (rt_list_insert_before l n h) (l # ys @ [y])"
    by (rule_tac linked_cong [of h])
      (use assms snoc in \<open>auto simp: ring_def list_op_defs butlast_append\<close>)
  with assms yl show ?thesis
    using linked_append [of "rt_list_insert_before l n h" "l # ys" y "[n, l]"]
    by (auto simp: ring_def snoc list_op_defs)
qed

lemma remove_first_ring:
  assumes "ring h l (n # xs)"
  shows "ring (rt_list_remove n h) l xs \<and> ring (rt_list_remove n h) n []"
proof (cases xs)
  case Nil
  with assms show ?thesis by (auto simp: ring_def list_op_defs)
next
  case (Cons x ys)
  have "linked (rt_list_remove n h) (x # ys @ [l])"
    by (rule linked_cong [of h])
      (use assms Cons in \<open>auto simp: ring_def list_op_defs butlast_append\<close>)
  with assms Cons show ?thesis by (auto simp: ring_def list_op_defs)
qed

text \<open>Removal and insertion anywhere in the ring, by rotating it.\<close>

lemma remove_ring:
  assumes "ring h l (us @ n # vs)"
  shows "ring (rt_list_remove n h) l (us @ vs) \<and> ring (rt_list_remove n h) n []"
proof (cases us rule: rev_cases)
  case Nil
  with assms remove_first_ring show ?thesis by simp
next
  case (snoc ws w)
  then have "ring h w (n # vs @ l # ws)"
    using assms ring_rotate [of h l ws w "n # vs"] by simp
  then have "ring (rt_list_remove n h) w (vs @ l # ws) \<and> ring (rt_list_remove n h) n []"
    by (rule remove_first_ring)
  then show ?thesis
    using ring_rotate [of "rt_list_remove n h" l ws w vs] by (simp add: snoc)
qed

lemma insert_before_node_ring:
  assumes "ring h l (us @ a # vs)" "n \<notin> set (l # us @ a # vs)"
  shows "ring (rt_list_insert_before a n h) l (us @ n # a # vs)"
proof -
  have "ring (rt_list_insert_before a n h) a ((vs @ l # us) @ [n])"
    using assms ring_rotate [of h l us a vs] by (intro insert_before_ring) auto
  then show ?thesis
    using ring_rotate [of "rt_list_insert_before a n h" l "us @ [n]" a vs] by simp
qed

lemma insert_after_node_ring:
  assumes "ring h l (us @ a # vs)" "n \<notin> set (l # us @ a # vs)"
  shows "ring (rt_list_insert_after a n h) l (us @ a # n # vs)"
proof -
  have "ring (rt_list_insert_after a n h) a (n # vs @ l # us)"
    using assms ring_rotate [of h l us a vs] by (intro insert_after_ring) auto
  then show ?thesis
    using ring_rotate [of "rt_list_insert_after a n h" l us a "n # vs"] by simp
qed

lemma isempty_ring: "ring h l xs \<Longrightarrow> rt_list_isempty l h \<longleftrightarrow> xs = []"
  by (cases xs) (auto simp: ring_def list_op_defs)

lemma first_ring: "ring h l (x # xs) \<Longrightarrow> nxt h l = x"
  by (simp add: ring_def)

lemma len_from_ring:
  "linked h (p # xs @ [l]) \<Longrightarrow> l \<notin> set xs \<Longrightarrow>
   rt_list_len_from h l p len = Some (len + of_nat (length xs))"
proof (induction xs arbitrary: p len)
  case (Cons x xs)
  then show ?case
    by (subst rt_list_len_from.simps) (auto simp: algebra_simps)
qed (simp add: rt_list_len_from.simps)

lemma len_ring: "ring h l xs \<Longrightarrow> rt_list_len l h = Some (of_nat (length xs))"
  using len_from_ring [of h l xs l 0] by (simp add: rt_list_len_def ring_def)


section \<open>Other rings are untouched\<close>

lemma ring_at_member:
  assumes "ring h l xs" "a \<in> set (l # xs)"
  shows "\<exists>ys. ring h a ys \<and> set (a # ys) = set (l # xs)"
proof (cases "a = l")
  case False
  with assms(2) obtain us vs where "xs = us @ a # vs" by (auto simp: in_set_conv_decomp)
  with assms(1) ring_rotate [of h l us a vs] show ?thesis
    by (intro exI [of _ "vs @ l # us"]) auto
qed (use assms in auto)

lemma ring_neighbours:
  assumes "ring h l xs" "a \<in> set (l # xs)"
  shows "nxt h a \<in> set (l # xs)" "prv h a \<in> set (l # xs)"
proof -
  obtain ys where r: "ring h a ys" and eq: "set (a # ys) = set (l # xs)"
    using ring_at_member [OF assms] by blast
  have "nxt h a \<in> set (a # ys)"
    using r by (cases ys) (auto simp: ring_def)
  with eq show "nxt h a \<in> set (l # xs)" by simp
  have "prv h a \<in> set (a # ys)"
    using r linked_append [of h "a # butlast ys" "last ys" "[a]"]
    by (cases ys rule: rev_cases) (auto simp: ring_def)
  with eq show "prv h a \<in> set (l # xs)" by simp
qed

lemma op_frame:
  "b \<noteq> a \<Longrightarrow> b \<noteq> prv h a \<Longrightarrow> b \<noteq> n \<Longrightarrow>
    nxt (rt_list_insert_before a n h) b = nxt h b \<and> prv (rt_list_insert_before a n h) b = prv h b"
  "b \<noteq> a \<Longrightarrow> b \<noteq> nxt h a \<Longrightarrow> b \<noteq> n \<Longrightarrow>
    nxt (rt_list_insert_after a n h) b = nxt h b \<and> prv (rt_list_insert_after a n h) b = prv h b"
  "b \<noteq> a \<Longrightarrow> b \<noteq> nxt h a \<Longrightarrow> b \<noteq> prv h a \<Longrightarrow>
    nxt (rt_list_remove a h) b = nxt h b \<and> prv (rt_list_remove a h) b = prv h b"
  by (simp_all add: list_op_defs)

lemma other_ring:
  assumes "ring h l xs" "a \<in> set (l # xs)" "ring h l' ys"
    and "set (l # xs) \<inter> set (l' # ys) = {}"
  shows "n \<notin> set (l' # ys) \<Longrightarrow> ring (rt_list_insert_before a n h) l' ys"
    and "n \<notin> set (l' # ys) \<Longrightarrow> ring (rt_list_insert_after a n h) l' ys"
    and "ring (rt_list_remove a h) l' ys"
proof -
  have apart: "b \<noteq> a \<and> b \<noteq> nxt h a \<and> b \<noteq> prv h a" if "b \<in> set (l' # ys)" for b
    using ring_neighbours [OF assms(1,2)] assms(2,4) that by blast
  show "n \<notin> set (l' # ys) \<Longrightarrow> ring (rt_list_insert_before a n h) l' ys"
    by (rule ring_frame [OF assms(3)], rule op_frame(1)) (use apart in blast)+
  show "n \<notin> set (l' # ys) \<Longrightarrow> ring (rt_list_insert_after a n h) l' ys"
    by (rule ring_frame [OF assms(3)], rule op_frame(2)) (use apart in blast)+
  show "ring (rt_list_remove a h) l' ys"
    by (rule ring_frame [OF assms(3)], rule op_frame(3)) (use apart in blast)+
qed

section \<open>A family of queues\<close>

text \<open>
  The interface the kernel relies on: a family of queues, indexed by \<open>'q\<close>, of nodes of which
  each is on one queue at most. \<open>rep\<close> relates an implementation state to the queues it
  stands for; the laws are those of the operations the kernel calls.
\<close>

definition separate :: "('q \<Rightarrow> 'n list) \<Rightarrow> bool" where
  "separate Q \<longleftrightarrow> (\<forall>q. distinct (Q q)) \<and> (\<forall>q q'. q \<noteq> q' \<longrightarrow> set (Q q) \<inter> set (Q q') = {})"

locale link_queues =
  fixes rep :: "'h \<Rightarrow> ('q \<Rightarrow> 'n list) \<Rightarrow> bool"
    and push_back :: "'q \<Rightarrow> 'n \<Rightarrow> 'h \<Rightarrow> 'h"
    and push_front :: "'q \<Rightarrow> 'n \<Rightarrow> 'h \<Rightarrow> 'h"
    and push_before :: "'n \<Rightarrow> 'n \<Rightarrow> 'h \<Rightarrow> 'h"
    and unlink :: "'n \<Rightarrow> 'h \<Rightarrow> 'h"
    and is_empty :: "'q \<Rightarrow> 'h \<Rightarrow> bool"
  assumes rep_separate: "rep h Q \<Longrightarrow> separate Q"
    and rep_push_back:
      "rep h Q \<Longrightarrow> (\<And>q'. n \<notin> set (Q q')) \<Longrightarrow> rep (push_back q n h) (Q(q := Q q @ [n]))"
    and rep_push_front:
      "rep h Q \<Longrightarrow> (\<And>q'. n \<notin> set (Q q')) \<Longrightarrow> rep (push_front q n h) (Q(q := n # Q q))"
    and rep_push_before:
      "rep h Q \<Longrightarrow> (\<And>q'. n \<notin> set (Q q')) \<Longrightarrow> Q q = us @ a # vs \<Longrightarrow>
        rep (push_before a n h) (Q(q := us @ n # a # vs))"
    and rep_unlink: "rep h Q \<Longrightarrow> rep (unlink n h) (\<lambda>q. removeAll n (Q q))"
    and rep_is_empty: "rep h Q \<Longrightarrow> is_empty q h \<longleftrightarrow> Q q = []"
begin

text \<open>Moving a node, as the scheduler does with a preempted or yielding thread.\<close>

lemma rep_move:
  assumes "rep h Q"
  shows "rep (push_back q n (unlink n h)) ((\<lambda>q. removeAll n (Q q))(q := removeAll n (Q q) @ [n]))"
  by (rule rep_push_back [OF rep_unlink [OF assms]]) simp

lemma rep_rotate:
  assumes "rep h Q" "Q q = n # ns"
  shows "rep (push_back q n (unlink n h)) (Q(q := ns @ [n]))"
proof -
  have sep: "separate Q" using assms(1) by (rule rep_separate)
  have "removeAll n (Q q') = Q q'" if "q' \<noteq> q" for q'
    using sep assms(2) that unfolding separate_def by (metis disjoint_iff list.set_intros(1) removeAll_id)
  moreover have "removeAll n (Q q) = ns"
    using sep assms(2) unfolding separate_def by (metis distinct.simps(2) removeAll.simps(2) removeAll_id)
  ultimately have "(\<lambda>q. removeAll n (Q q))(q := removeAll n (Q q) @ [n]) = Q(q := ns @ [n])"
    by auto
  with rep_move [OF assms(1), of q n] show ?thesis by simp
qed

lemma rep_push_unlink:
  assumes "rep h Q" "\<And>q'. n \<notin> set (Q q')"
  shows "rep (unlink n (push_back q n h)) Q"
proof -
  have "(\<lambda>q'. removeAll n ((Q(q := Q q @ [n])) q')) = Q"
    using assms(2) by auto
  then show ?thesis
    using rep_unlink [OF rep_push_back [OF assms, of q], of n] by simp
qed

end

subsection \<open>The pointer implementation\<close>

text \<open>Queue heads and thread nodes are different objects in memory.\<close>

datatype ('q, 'n) link = Head 'q | Node 'n

definition represents :: "('q, 'n) link list_heap \<Rightarrow> ('q \<Rightarrow> 'n list) \<Rightarrow> bool" where
  "represents h Q \<longleftrightarrow> separate Q \<and> (\<forall>q. ring h (Head q) (map Node (Q q))) \<and>
     (\<forall>n. (\<forall>q. n \<notin> set (Q q)) \<longrightarrow> ring h (Node n) [])"

lemma separate_insert:
  assumes "separate Q" "\<And>q'. n \<notin> set (Q q')" "set xs = insert n (set (Q q))" "distinct xs"
  shows "separate (Q(q := xs))"
  using assms unfolding separate_def by (auto; blast)

lemma separate_removeAll: "separate Q \<Longrightarrow> separate (\<lambda>q. removeAll n (Q q))"
  unfolding separate_def by (auto simp: distinct_removeAll; blast)

lemma represents_D:
  assumes "represents h Q"
  shows "separate Q" "ring h (Head q) (map Node (Q q))"
    "(\<And>q. n \<notin> set (Q q)) \<Longrightarrow> ring h (Node n) []"
  using assms by (auto simp: represents_def)

lemma disjoint_heads:
  "separate Q \<Longrightarrow> q \<noteq> q' \<Longrightarrow>
   set (Head q # map Node (Q q)) \<inter> set (Head q' # map Node (Q q')) = {}"
  by (auto simp: separate_def)

lemma represents_insert:
  assumes rep: "represents h Q" and new: "\<And>q'. n \<notin> set (Q q')"
    and xs: "ring h' (Head q) (map Node xs)" "set xs = insert n (set (Q q))" "distinct xs"
    and other: "\<And>l' ys. ring h l' ys \<Longrightarrow> set (Head q # map Node (Q q)) \<inter> set (l' # ys) = {} \<Longrightarrow>
      Node n \<notin> set (l' # ys) \<Longrightarrow> ring h' l' ys"
  shows "represents h' (Q(q := xs))"
  unfolding represents_def
proof (intro conjI allI impI)
  note sep = represents_D(1) [OF rep]
  show "separate (Q(q := xs))" by (rule separate_insert [OF sep new xs(2,3)])
  show "ring h' (Head q') (map Node ((Q(q := xs)) q'))" for q'
  proof (cases "q' = q")
    case False
    have "ring h' (Head q') (map Node (Q q'))"
      by (rule other [OF represents_D(2) [OF rep]]) (use disjoint_heads [OF sep, of q q'] False new in auto)
    with False show ?thesis by simp
  qed (use xs in simp)
  show "ring h' (Node m) []" if "\<forall>q'. m \<notin> set ((Q(q := xs)) q')" for m
  proof -
    have m: "m \<noteq> n" "\<And>q'. m \<notin> set (Q q')"
      using that xs(2) by (metis fun_upd_same insertI1) (use that xs(2) in \<open>metis fun_upd_apply insertI2\<close>)
    show ?thesis
      by (rule other [OF represents_D(3) [OF rep]]) (use m in auto)
  qed
qed

lemma represents_unlink:
  assumes rep: "represents h Q"
  shows "represents (rt_list_remove (Node n) h) (\<lambda>q. removeAll n (Q q))"
proof -
  let ?h = "rt_list_remove (Node n) h"
  note sep = represents_D(1) [OF rep]
  obtain l xs where l: "ring h l xs" "Node n \<in> set (l # xs)"
      "(l = Node n \<and> xs = [] \<and> (\<forall>q. n \<notin> set (Q q))) \<or>
       (\<exists>q. l = Head q \<and> xs = map Node (Q q) \<and> n \<in> set (Q q))"
    using represents_D(2,3) [OF rep] by (cases "\<exists>q. n \<in> set (Q q)") fastforce+
  have heads: "ring ?h (Head q) (map Node (removeAll n (Q q)))" for q
  proof (cases "n \<in> set (Q q)")
    case True
    then obtain us vs where Q: "Q q = us @ n # vs" by (auto simp: in_set_conv_decomp)
    moreover have "distinct (Q q)" using sep by (simp add: separate_def)
    ultimately show ?thesis
      using remove_ring [of h "Head q" "map Node us" "Node n" "map Node vs"] represents_D(2) [OF rep, of q]
      by simp
  next
    case False
    have "set (l # xs) \<inter> set (Head q # map Node (Q q)) = {}"
      using l(3) False disjoint_heads [OF sep] by (metis (no_types, lifting) Int_emptyI empty_iff imageE
        insertE link.distinct(1) link.inject(2) list.set(1,2) set_map)
    with other_ring(3) [OF l(1,2) represents_D(2) [OF rep]] False show ?thesis by simp
  qed
  have nodes: "ring ?h (Node m) []" if "\<And>q. m \<notin> set (removeAll n (Q q))" for m
  proof (cases "m = n")
    case True
    with l obtain us vs where "l = Node n \<and> xs = [] \<or> xs = us @ Node n # vs"
      by (metis in_set_conv_decomp link.distinct(1) set_ConsD)
    with l(1) True remove_ring [of h l us "Node n" vs] show ?thesis
      by (auto simp: ring_Nil list_op_defs)
  next
    case False
    with that have m: "\<And>q. m \<notin> set (Q q)" by simp
    with False l(3) have "set (l # xs) \<inter> set [Node m] = {}" by auto
    with other_ring(3) [OF l(1,2) represents_D(3) [OF rep m]] show ?thesis by simp
  qed
  show ?thesis
    unfolding represents_def using separate_removeAll [OF sep] heads nodes by blast
qed

interpretation rtl: link_queues represents
  "\<lambda>q n. rt_list_insert_before (Head q) (Node n)"
  "\<lambda>q n. rt_list_insert_after (Head q) (Node n)"
  "\<lambda>a n. rt_list_insert_before (Node a) (Node n)"
  "\<lambda>n. rt_list_remove (Node n)"
  "\<lambda>q. rt_list_isempty (Head q)"
proof unfold_locales
  fix h :: "('q, 'n) link list_heap" and Q :: "'q \<Rightarrow> 'n list" and n q us a vs
  assume rep: "represents h Q"
  note r = represents_D(2) [OF rep, of q]
  have d: "distinct (Q q)" using represents_D(1) [OF rep] by (simp add: separate_def)
  show "separate Q" by (rule represents_D(1) [OF rep])
  show "represents (rt_list_remove (Node n) h) (\<lambda>q. removeAll n (Q q))"
    by (rule represents_unlink [OF rep])
  show "rt_list_isempty (Head q) h \<longleftrightarrow> Q q = []"
    using isempty_ring [OF r] by simp
  assume new: "\<And>q'. n \<notin> set (Q q')"
  then have n: "Node n \<notin> set (Head q # map Node (Q q))" by auto
  show "represents (rt_list_insert_before (Head q) (Node n) h) (Q(q := Q q @ [n]))"
    by (rule represents_insert [OF rep new])
      (use insert_before_ring [OF r n] d new other_ring(1) [OF r, of "Head q"] in auto)
  show "represents (rt_list_insert_after (Head q) (Node n) h) (Q(q := n # Q q))"
    by (rule represents_insert [OF rep new])
      (use insert_after_ring [OF r n] d new other_ring(2) [OF r, of "Head q"] in auto)
  assume Q: "Q q = us @ a # vs"
  then have r': "ring h (Head q) (map Node us @ Node a # map Node vs)" using r by simp
  show "represents (rt_list_insert_before (Node a) (Node n) h) (Q(q := us @ n # a # vs))"
    by (rule represents_insert [OF rep new])
      (use insert_before_node_ring [OF r', of "Node n"] Q d n new other_ring(1) [OF r, of "Node a"] in auto)
qed

subsection \<open>The functional implementation\<close>

text \<open>
  The kernel model keeps the queues as a function from queue names to lists. It satisfies
  the same laws, so what the clients prove of the functional queues holds of the pointer
  structure that represents them.
\<close>

definition q_push_back :: "'q \<Rightarrow> 'n \<Rightarrow> ('q \<Rightarrow> 'n list) \<Rightarrow> 'q \<Rightarrow> 'n list" where
  "q_push_back q n Q = Q(q := Q q @ [n])"

definition q_push_front :: "'q \<Rightarrow> 'n \<Rightarrow> ('q \<Rightarrow> 'n list) \<Rightarrow> 'q \<Rightarrow> 'n list" where
  "q_push_front q n Q = Q(q := n # Q q)"

definition q_unlink :: "'n \<Rightarrow> ('q \<Rightarrow> 'n list) \<Rightarrow> 'q \<Rightarrow> 'n list" where
  "q_unlink n Q = (\<lambda>q. removeAll n (Q q))"

primrec insert_before_in :: "'n \<Rightarrow> 'n \<Rightarrow> 'n list \<Rightarrow> 'n list" where
  "insert_before_in a n [] = []"
| "insert_before_in a n (x # xs) = (if x = a then n # x # xs else x # insert_before_in a n xs)"

definition q_push_before :: "'n \<Rightarrow> 'n \<Rightarrow> ('q \<Rightarrow> 'n list) \<Rightarrow> 'q \<Rightarrow> 'n list" where
  "q_push_before a n Q = (\<lambda>q. insert_before_in a n (Q q))"

lemma insert_before_in_split:
  "a \<notin> set us \<Longrightarrow> insert_before_in a n (us @ a # vs) = us @ n # a # vs"
  by (induction us) auto

lemma insert_before_in_notin [simp]: "a \<notin> set xs \<Longrightarrow> insert_before_in a n xs = xs"
  by (induction xs) auto

interpretation fq: link_queues "\<lambda>Q Q'. Q = Q' \<and> separate Q"
  q_push_back q_push_front q_push_before q_unlink "\<lambda>q Q. Q q = []"
proof (unfold_locales; clarsimp)
  fix Q :: "'q \<Rightarrow> 'n list" and n q us a vs
  assume sep: "separate Q"
  show "q_unlink n Q = (\<lambda>q. removeAll n (Q q)) \<and> separate (q_unlink n Q)"
    using separate_removeAll [OF sep] by (simp add: q_unlink_def)
  assume new: "\<And>q'. n \<notin> set (Q q')"
  have d: "distinct (Q q)" using sep by (simp add: separate_def)
  show "q_push_back q n Q = Q(q := Q q @ [n]) \<and> separate (q_push_back q n Q)"
    using separate_insert [OF sep new, of "Q q @ [n]" q] d new by (simp add: q_push_back_def)
  show "q_push_front q n Q = Q(q := n # Q q) \<and> separate (q_push_front q n Q)"
    using separate_insert [OF sep new, of "n # Q q" q] d new by (simp add: q_push_front_def)
  assume Q: "Q q = us @ a # vs"
  have "q_push_before a n Q = Q(q := us @ n # a # vs)"
  proof
    fix q'
    have "a \<notin> set us" using d Q by auto
    moreover have "a \<notin> set (Q q')" if "q' \<noteq> q" using sep Q that unfolding separate_def
      by (metis disjoint_iff in_set_conv_decomp)
    ultimately show "q_push_before a n Q q' = (Q(q := us @ n # a # vs)) q'"
      using Q by (simp add: q_push_before_def insert_before_in_split)
  qed
  moreover have "separate (Q(q := us @ n # a # vs))"
  proof (rule separate_insert [OF sep new])
    show "set (us @ n # a # vs) = insert n (set (Q q))" using Q by auto
    show "distinct (us @ n # a # vs)" using Q d new [of q] by auto
  qed
  ultimately show "q_push_before a n Q = Q(q := us @ n # a # vs) \<and> separate (q_push_before a n Q)"
    by simp
qed

section \<open>Properties\<close>

lemma push_before_eq:
  assumes "separate Q" "Q q = us @ a # vs"
  shows "q_push_before a n Q = Q(q := us @ n # a # vs)"
proof
  fix q'
  have "a \<notin> set us" using assms by (metis distinct_append not_distinct_conv_prefix separate_def
        append.assoc append_Cons append_Nil distinct.simps(2) in_set_conv_decomp)
  moreover have "a \<notin> set (Q q')" if "q' \<noteq> q"
    using assms that unfolding separate_def by (metis disjoint_iff in_set_conv_decomp)
  ultimately show "q_push_before a n Q q' = (Q(q := us @ n # a # vs)) q'"
    using assms(2) by (simp add: q_push_before_def insert_before_in_split)
qed

text \<open>Every list node points to itself: the heap after \<open>rt_list_init\<close> of every node.\<close>

lemma represents_initial: "represents \<lparr>nxt = id, prv = id\<rparr> (\<lambda>_. [])"
  by (simp add: represents_def separate_def ring_Nil)

text \<open>C39: The pointer operations of \<open>rt_list_t\<close> refine the operations on a family of disjoint
  queues: if the heap represents the queues \<open>Q\<close> and the node \<open>n\<close> is on none of them, then
  inserting \<open>n\<close> before a head appends it to that queue, inserting it after the head puts it in
  front, inserting it before a member puts it there, removing any node takes it off whatever
  queue it is on, all other queues staying as they were, and \<open>rt_list_isempty\<close> tells whether
  the queue is empty.\<close>

theorem list_ops_refine:
  assumes "represents h Q" "\<And>q'. n \<notin> set (Q q')"
  shows "represents (rt_list_insert_before (Head q) (Node n) h) (q_push_back q n Q) \<and>
    represents (rt_list_insert_after (Head q) (Node n) h) (q_push_front q n Q) \<and>
    (\<forall>a \<in> set (Q q). represents (rt_list_insert_before (Node a) (Node n) h) (q_push_before a n Q)) \<and>
    (\<forall>m. represents (rt_list_remove (Node m) h) (q_unlink m Q)) \<and>
    (rt_list_isempty (Head q) h \<longleftrightarrow> Q q = [])"
proof (intro conjI ballI allI)
  show "represents (rt_list_insert_before (Head q) (Node n) h) (q_push_back q n Q)"
    unfolding q_push_back_def by (rule rtl.rep_push_back [OF assms])
  show "represents (rt_list_insert_after (Head q) (Node n) h) (q_push_front q n Q)"
    unfolding q_push_front_def by (rule rtl.rep_push_front [OF assms])
  show "represents (rt_list_remove (Node m) h) (q_unlink m Q)" for m
    unfolding q_unlink_def by (rule rtl.rep_unlink [OF assms(1)])
  show "rt_list_isempty (Head q) h \<longleftrightarrow> Q q = []"
    by (rule rtl.rep_is_empty [OF assms(1)])
  fix a assume "a \<in> set (Q q)"
  then obtain us vs where Q: "Q q = us @ a # vs" by (auto simp: in_set_conv_decomp)
  with push_before_eq [OF rtl.rep_separate [OF assms(1)] Q]
  show "represents (rt_list_insert_before (Node a) (Node n) h) (q_push_before a n Q)"
    using rtl.rep_push_before [OF assms Q] by simp
qed

theorem list_ops_refine_witness:
  "represents (rt_list_insert_before (Head True) (Node (7::nat)) \<lparr>nxt = id, prv = id\<rparr>)
    (q_push_back True 7 (\<lambda>_. []))"
  using list_ops_refine [OF represents_initial, of "7::nat" True] by simp

text \<open>\<open>rt_list_len\<close> terminates on every queue the heap represents and returns its
  length (modulo the width of the counter).\<close>

theorem list_len_correct:
  assumes "represents h Q"
  shows "rt_list_len (Head q) h = Some (of_nat (length (Q q)))"
  using len_ring [OF represents_D(2) [OF assms]] by simp

theorem list_len_correct_witness:
  "rt_list_len (Head True) (rt_list_insert_before (Head True) (Node (7::nat)) \<lparr>nxt = id, prv = id\<rparr>) = Some 1"
  using list_len_correct [OF rtl.rep_push_back [OF represents_initial, of "7::nat" True], of True] by simp

end
