(* ===== verification/Kservice.thy ===== *)
theory Kservice
  imports Prelude
begin

text \<open>
  \<^verbatim>\<open>src/kservice.c\<close>: the find-first-set routine \<^verbatim>\<open>__rt_ffs\<close> with its 256-entry table
  \<^verbatim>\<open>__lowest_bit_bitmap\<close>, against the least set bit of the word. The scheduler
  uses it to turn the ready bitmap into the highest ready priority.
\<close>

definition lowest_bit_bitmap :: "nat list" where
  "lowest_bit_bitmap =
    [0, 0, 1, 0, 2, 0, 1, 0, 3, 0, 1, 0, 2, 0, 1, 0,
     4, 0, 1, 0, 2, 0, 1, 0, 3, 0, 1, 0, 2, 0, 1, 0,
     5, 0, 1, 0, 2, 0, 1, 0, 3, 0, 1, 0, 2, 0, 1, 0,
     4, 0, 1, 0, 2, 0, 1, 0, 3, 0, 1, 0, 2, 0, 1, 0,
     6, 0, 1, 0, 2, 0, 1, 0, 3, 0, 1, 0, 2, 0, 1, 0,
     4, 0, 1, 0, 2, 0, 1, 0, 3, 0, 1, 0, 2, 0, 1, 0,
     5, 0, 1, 0, 2, 0, 1, 0, 3, 0, 1, 0, 2, 0, 1, 0,
     4, 0, 1, 0, 2, 0, 1, 0, 3, 0, 1, 0, 2, 0, 1, 0,
     7, 0, 1, 0, 2, 0, 1, 0, 3, 0, 1, 0, 2, 0, 1, 0,
     4, 0, 1, 0, 2, 0, 1, 0, 3, 0, 1, 0, 2, 0, 1, 0,
     5, 0, 1, 0, 2, 0, 1, 0, 3, 0, 1, 0, 2, 0, 1, 0,
     4, 0, 1, 0, 2, 0, 1, 0, 3, 0, 1, 0, 2, 0, 1, 0,
     6, 0, 1, 0, 2, 0, 1, 0, 3, 0, 1, 0, 2, 0, 1, 0,
     4, 0, 1, 0, 2, 0, 1, 0, 3, 0, 1, 0, 2, 0, 1, 0,
     5, 0, 1, 0, 2, 0, 1, 0, 3, 0, 1, 0, 2, 0, 1, 0,
     4, 0, 1, 0, 2, 0, 1, 0, 3, 0, 1, 0, 2, 0, 1, 0]"

definition rt_ffs :: "u32 \<Rightarrow> nat" where
  "rt_ffs v =
    (if v = 0 then 0
     else if v AND 0xff \<noteq> 0
     then lowest_bit_bitmap ! unat (v AND 0xff) + 1
     else if v AND 0xff00 \<noteq> 0
     then lowest_bit_bitmap ! unat (drop_bit 8 (v AND 0xff00)) + 9
     else if v AND 0xff0000 \<noteq> 0
     then lowest_bit_bitmap ! unat (drop_bit 16 (v AND 0xff0000)) + 17
     else lowest_bit_bitmap ! unat (drop_bit 24 (v AND 0xff000000)) + 25)"

subsection \<open>The table\<close>

text \<open>
  The table is the ruler sequence: the second half repeats the first, with the new
  top bit in place of the first entry.
\<close>

fun ruler :: "nat \<Rightarrow> nat list" where
  "ruler 0 = [0]"
| "ruler (Suc n) = ruler n @ (ruler n)[0 := n]"

lemma length_ruler [simp]: "length (ruler n) = 2 ^ n"
  by (induction n) simp_all

lemma lowest_bit_bitmap_ruler: "lowest_bit_bitmap = ruler 8"
  by (simp add: lowest_bit_bitmap_def numeral_eq_Suc)

text \<open>What an entry has to be: the position of the least set bit of the index.\<close>

definition lowest_set :: "nat \<Rightarrow> nat \<Rightarrow> bool" where
  "lowest_set b i \<longleftrightarrow> odd (b div 2 ^ i) \<and> (\<forall>j < i. even (b div 2 ^ j))"

lemma add_power_div: "j \<le> n \<Longrightarrow> (2 ^ n + c) div 2 ^ j = 2 ^ (n - j) + c div (2::nat) ^ j"
  by (subst div_plus_div_distrib_dvd_left) (simp_all add: le_imp_power_dvd power_diff)

lemma lowest_set_add_power:
  assumes "i < n" "lowest_set c i"
  shows "lowest_set (2 ^ n + c) i"
  using assms by (auto simp: lowest_set_def add_power_div)

lemma ruler_lowest:
  "0 < b \<Longrightarrow> b < 2 ^ n \<Longrightarrow> ruler n ! b < n \<and> lowest_set b (ruler n ! b)"
proof (induction n arbitrary: b)
  case 0
  then show ?case by simp
next
  case (Suc n)
  consider (low) "b < 2 ^ n" | (top) "b = 2 ^ n" | (high) c where "b = 2 ^ n + c" "0 < c" "c < 2 ^ n"
    using Suc.prems by (metis add_diff_inverse_nat add_less_cancel_left mult_2 nat_neq_iff power_Suc zero_less_diff)
  then show ?case
  proof cases
    case low
    with Suc.prems Suc.IH [of b] show ?thesis by (simp add: nth_append)
  next
    case top
    then show ?thesis by (simp add: nth_append lowest_set_def power_diff [symmetric])
  next
    case high
    with Suc.IH [of c] show ?thesis by (simp add: nth_append lowest_set_add_power)
  qed
qed

lemma lowest_bit_entry:
  "0 < b \<Longrightarrow> b < 256 \<Longrightarrow> lowest_bit_bitmap ! b < 8 \<and> lowest_set b (lowest_bit_bitmap ! b)"
  using ruler_lowest [of b 8] by (simp add: lowest_bit_bitmap_ruler)

subsection \<open>A byte of the word\<close>

definition byte_at :: "nat \<Rightarrow> u32 \<Rightarrow> nat" where
  "byte_at s v = unat (drop_bit s v AND 0xff)"

lemma byte_at_less: "byte_at s v < 256"
proof -
  have "drop_bit s v AND 0xff \<le> (0xff :: u32)" by (rule word_and_le1)
  then show ?thesis by (simp add: byte_at_def word_le_nat_alt)
qed

lemma odd_byte_at: "i < 8 \<Longrightarrow> odd (byte_at s v div 2 ^ i) \<longleftrightarrow> bit v (s + i)"
proof -
  assume i: "i < 8"
  have "odd (byte_at s v div 2 ^ i) \<longleftrightarrow> bit (byte_at s v) i"
    by (simp add: bit_iff_odd)
  also have "\<dots> \<longleftrightarrow> bit (drop_bit s v AND 0xff) i"
    by (simp add: byte_at_def bit_unsigned_iff)
  also have "\<dots> \<longleftrightarrow> bit v (s + i)"
  proof -
    have "(0xff :: u32) = mask 8" by (simp add: mask_eq_exp_minus_1)
    with i show ?thesis by (simp only: bit_and_iff bit_mask_iff) (simp add: bit_drop_bit_eq)
  qed
  finally show ?thesis .
qed

lemma byte_at_eq_0: "byte_at s v = 0 \<longleftrightarrow> (\<forall>i < 8. \<not> bit v (s + i))"
proof
  assume z: "byte_at s v = 0"
  show "\<forall>i < 8. \<not> bit v (s + i)"
    using odd_byte_at [of _ s v] z by auto
next
  assume *: "\<forall>i < 8. \<not> bit v (s + i)"
  have "drop_bit s v AND mask 8 = 0"
    by (rule bit_word_eqI) (use * in \<open>auto simp: bit_simps\<close>)
  moreover have "(0xff :: u32) = mask 8" by (simp add: mask_eq_exp_minus_1)
  ultimately show "byte_at s v = 0" by (simp add: byte_at_def)
qed

text \<open>The table, applied to the byte at position \<open>s\<close>, finds the least set bit of that byte.\<close>

lemma lowest_bit_of_byte:
  assumes "byte_at s v \<noteq> 0" and i: "i = lowest_bit_bitmap ! byte_at s v"
  shows "i < 8 \<and> bit v (s + i) \<and> (\<forall>j < i. \<not> bit v (s + j))"
proof -
  have "i < 8" and l: "lowest_set (byte_at s v) i"
    using lowest_bit_entry [of "byte_at s v"] byte_at_less [of s v] assms by simp_all
  then show ?thesis by (auto simp: lowest_set_def simp flip: odd_byte_at)
qed

lemma rt_ffs_bytes:
  "rt_ffs v =
    (if v = 0 then 0
     else if byte_at 0 v \<noteq> 0 then lowest_bit_bitmap ! byte_at 0 v + 1
     else if byte_at 8 v \<noteq> 0 then lowest_bit_bitmap ! byte_at 8 v + 9
     else if byte_at 16 v \<noteq> 0 then lowest_bit_bitmap ! byte_at 16 v + 17
     else lowest_bit_bitmap ! byte_at 24 v + 25)"
proof -
  have b: "drop_bit s (v AND push_bit s (mask 8)) = drop_bit s v AND mask 8"
    if "s \<le> 24" for s
    by (rule bit_word_eqI) (use that in \<open>auto simp: bit_simps\<close>)
  have z: "v AND push_bit s (mask 8) = 0 \<longleftrightarrow> drop_bit s v AND mask 8 = 0"
    if "s \<le> 24" for s
  proof -
    have "v AND push_bit s (mask 8) = push_bit s (drop_bit s v AND mask 8)"
      by (rule bit_word_eqI) (auto simp: bit_simps)
    moreover have "drop_bit s v AND mask 8 = drop_bit s (v AND push_bit s (mask 8))"
      using b [OF that] by simp
    ultimately show ?thesis by (metis drop_bit_of_0 push_bit_of_0)
  qed
  have m: "(0xff :: u32) = mask 8" "(0xff00 :: u32) = push_bit 8 (mask 8)"
    "(0xff0000 :: u32) = push_bit 16 (mask 8)" "(0xff000000 :: u32) = push_bit 24 (mask 8)"
    by (simp_all add: mask_eq_exp_minus_1 push_bit_eq_mult)
  show ?thesis
    unfolding rt_ffs_def byte_at_def m
    by (simp only: b z unat_eq_0 drop_bit_0 id_apply order_refl numeral_le_iff semiring_norm)
qed

lemma byte_zero_bits: "byte_at s v = 0 \<Longrightarrow> s \<le> m \<Longrightarrow> m < s + 8 \<Longrightarrow> \<not> bit v m"
  using byte_at_eq_0 [of s v] by (metis add_diff_inverse_nat add_less_cancel_left not_less)

lemma ffs_at_byte:
  assumes "byte_at s v \<noteq> 0" "s \<le> 24" "\<forall>m < s. \<not> bit v m"
  shows "\<exists>n. lowest_bit_bitmap ! byte_at s v + Suc s = Suc n \<and> n < 32 \<and> bit v n \<and> (\<forall>m < n. \<not> bit v m)"
proof -
  define i where "i = lowest_bit_bitmap ! byte_at s v"
  have i: "i < 8" "bit v (s + i)" "\<forall>j < i. \<not> bit v (s + j)"
    using lowest_bit_of_byte [OF assms(1) i_def] by simp_all
  have "\<not> bit v m" if "m < s + i" for m
  proof (cases "m < s")
    case False
    with that i(3) show ?thesis by (metis add_diff_inverse_nat add_less_cancel_left)
  qed (use assms(3) in simp)
  with i assms(2) show ?thesis by (intro exI [of _ "s + i"]) (simp add: i_def)
qed

lemma rt_ffs_nonzero:
  assumes nz: "v \<noteq> 0"
  shows "\<exists>n. rt_ffs v = Suc n \<and> n < 32 \<and> bit v n \<and> (\<forall>m < n. \<not> bit v m)"
proof -
  have top: "byte_at 24 v \<noteq> 0" if "byte_at 0 v = 0" "byte_at 8 v = 0" "byte_at 16 v = 0"
  proof
    assume "byte_at 24 v = 0"
    then have "\<not> bit v m" if "m < 32" for m
      using byte_zero_bits [of 0 v m] byte_zero_bits [of 8 v m] byte_zero_bits [of 16 v m]
        byte_zero_bits [of 24 v m] that \<open>byte_at 0 v = 0\<close> \<open>byte_at 8 v = 0\<close> \<open>byte_at 16 v = 0\<close>
      by linarith
    with nz show False by (simp add: word_eq_0_iff_bits)
  qed
  consider "byte_at 0 v \<noteq> 0" | "byte_at 0 v = 0" "byte_at 8 v \<noteq> 0"
    | "byte_at 0 v = 0" "byte_at 8 v = 0" "byte_at 16 v \<noteq> 0"
    | "byte_at 0 v = 0" "byte_at 8 v = 0" "byte_at 16 v = 0" "byte_at 24 v \<noteq> 0"
    using top by blast
  then show ?thesis
  proof cases
    case 1
    with ffs_at_byte [of 0 v] nz show ?thesis by (simp add: rt_ffs_bytes)
  next
    case 2
    with ffs_at_byte [of 8 v] byte_zero_bits [of 0 v] nz show ?thesis
      by (simp add: rt_ffs_bytes)
  next
    case 3
    have "\<not> bit v m" if "m < 16" for m
      using byte_zero_bits [of 0 v m] byte_zero_bits [of 8 v m] 3 that by linarith
    with 3 ffs_at_byte [of 16 v] nz show ?thesis by (simp add: rt_ffs_bytes)
  next
    case 4
    have "\<not> bit v m" if "m < 24" for m
      using byte_zero_bits [of 0 v m] byte_zero_bits [of 8 v m] byte_zero_bits [of 16 v m] 4 that
      by linarith
    with 4 ffs_at_byte [of 24 v] nz show ?thesis by (simp add: rt_ffs_bytes)
  qed
qed

text \<open>
  C40: \<open>__rt_ffs\<close> is the reference find-first-set on every 32-bit word: it returns 0 exactly
  on 0 and otherwise one more than the position of the least set bit, although it is
  computed by four byte tests and a table.
\<close>

theorem rt_ffs_correct:
  "(v = 0 \<and> rt_ffs v = 0) \<or>
   (\<exists>n. rt_ffs v = Suc n \<and> n < 32 \<and> bit v n \<and> (\<forall>m < n. \<not> bit v m))"
  using rt_ffs_nonzero [of v] by (cases "v = 0") (simp_all add: rt_ffs_def)

theorem rt_ffs_correct_witness:
  "\<exists>n. rt_ffs 0x28000 = Suc n \<and> n < 32 \<and> bit (0x28000::u32) n \<and> (\<forall>m < n. \<not> bit (0x28000::u32) m)"
  using rt_ffs_correct [of "0x28000"] by simp

end
