(* ===== verification/Kernel.thy ===== *)
theory Kernel
  imports Rtlist Kservice
begin

text \<open>
  The kernel state: the structures of \<^verbatim>\<open>include/rtdef.h\<close> as records, and the global
  variables of \<^verbatim>\<open>src/scheduler.c\<close>, \<^verbatim>\<open>src/clock.c\<close>, \<^verbatim>\<open>src/irq.c\<close>, \<^verbatim>\<open>src/timer.c\<close>,
  \<^verbatim>\<open>src/idle.c\<close> and \<^verbatim>\<open>src/object.c\<close> in one record \<open>kernel\<close>. A pointer to a structure is
  a name of the object, the structures live in total maps (\<open>k_thread\<close>, \<open>k_timer\<close>,
  \<dots>), and every \<^verbatim>\<open>rt_list_t\<close> is an entry of a family of queues (see \<open>Rtlist\<close>).
  The configuration is the one of \<^verbatim>\<open>f133/rtconfig.h\<close>: one CPU, 32 priorities, 64-bit.
\<close>

section \<open>Names of objects\<close>

type_synonym tid = nat

datatype timer_ref = T_thread tid | T_user nat

datatype objref =
    O_thread tid | O_timer timer_ref | O_sem nat | O_mutex nat | O_event nat | O_mb nat | O_mq nat

text \<open>The lists a thread node \<open>tlist\<close> can hang on: a ready list, the suspend list of an IPC
  object, or the list of dead threads.\<close>

datatype waitq =
    Sem_q nat | Mutex_q nat | Event_q nat | Mb_recv_q nat | Mb_send_q nat
  | Mq_recv_q nat | Mq_send_q nat

datatype qid = Ready nat | Wait waitq | Defunct

section \<open>Structures\<close>

record rt_object =
  obj_name :: string
  obj_type :: u8
  obj_flag :: u8

datatype timeout_fn = Rt_thread_timeout | User_timeout nat

record rt_timer =
  timeout_func :: timeout_fn
  parameter :: nat
  init_tick :: u32
  timeout_tick :: u32

record rt_thread =
  th_error :: rt_err_t
  th_stat :: u8
  th_current_priority :: u8
  th_init_priority :: u8
  th_number_mask :: u32
  th_event_set :: u32
  th_event_info :: u8
  th_init_tick :: u64
  th_remaining_tick :: u64
  th_cleanup :: "nat option"
  th_wakeup_func :: "nat option"
  th_signal :: u64
  th_lwp :: "nat option"

record rt_mutex =
  mx_value :: u16
  mx_original_priority :: u8
  mx_hold :: u8
  mx_owner :: "tid option"

record rt_mailbox =
  mb_msg_pool :: "u64 list"
  mb_size :: u16
  mb_entry :: u16
  mb_in_offset :: u16
  mb_out_offset :: u16

text \<open>A message block of a message queue: the link and the payload that follows it.\<close>

record rt_mq_message =
  msg_next :: "nat option"
  msg_data :: "u8 list"

record rt_messagequeue =
  mq_msg_pool :: "nat \<Rightarrow> rt_mq_message"
  mq_msg_size :: u16
  mq_max_msgs :: u16
  mq_entry :: u16
  mq_head :: "nat option"
  mq_tail :: "nat option"
  mq_free :: "nat option"

record kernel =
  k_obj :: "objref \<Rightarrow> rt_object"
  k_object_list :: "u8 \<Rightarrow> objref list"
  k_thread :: "tid \<Rightarrow> rt_thread"
  k_timer :: "timer_ref \<Rightarrow> rt_timer"
  k_queue :: "qid \<Rightarrow> tid list"
  k_ready_group :: u32
  k_lock_nest :: u16
  k_current :: "tid option"
  k_current_priority :: u8
  k_interrupt_nest :: u8
  k_tick :: u32
  k_timer_list :: "timer_ref list"
  k_soft_timer_list :: "timer_ref list"
  k_firing :: "timer_ref list"
  k_soft_firing :: "timer_ref list"
  k_soft_timer_status :: u8
  k_sem :: "nat \<Rightarrow> u16"
  k_mutex :: "nat \<Rightarrow> rt_mutex"
  k_event :: "nat \<Rightarrow> u32"
  k_mb :: "nat \<Rightarrow> rt_mailbox"
  k_mq :: "nat \<Rightarrow> rt_messagequeue"
  k_lwp_signal :: "nat \<Rightarrow> u64"

section \<open>Constants\<close>

abbreviation RT_THREAD_PRIORITY_MAX :: nat where "RT_THREAD_PRIORITY_MAX \<equiv> 32"

abbreviation RT_THREAD_INIT :: u8 where "RT_THREAD_INIT \<equiv> 0x00"
abbreviation RT_THREAD_CLOSE :: u8 where "RT_THREAD_CLOSE \<equiv> 0x01"
abbreviation RT_THREAD_READY :: u8 where "RT_THREAD_READY \<equiv> 0x02"
abbreviation RT_THREAD_RUNNING :: u8 where "RT_THREAD_RUNNING \<equiv> 0x03"
abbreviation RT_THREAD_SUSPEND_MASK :: u8 where "RT_THREAD_SUSPEND_MASK \<equiv> 0x04"
abbreviation RT_THREAD_SUSPEND_INTERRUPTIBLE :: u8 where "RT_THREAD_SUSPEND_INTERRUPTIBLE \<equiv> 0x04"
abbreviation RT_THREAD_SUSPEND_KILLABLE :: u8 where "RT_THREAD_SUSPEND_KILLABLE \<equiv> 0x06"
abbreviation RT_THREAD_SUSPEND_UNINTERRUPTIBLE :: u8 where "RT_THREAD_SUSPEND_UNINTERRUPTIBLE \<equiv> 0x07"
abbreviation RT_THREAD_STAT_MASK :: u8 where "RT_THREAD_STAT_MASK \<equiv> 0x07"
abbreviation RT_THREAD_STAT_YIELD :: u8 where "RT_THREAD_STAT_YIELD \<equiv> 0x08"

datatype suspend_flag = RT_INTERRUPTIBLE | RT_KILLABLE | RT_UNINTERRUPTIBLE

abbreviation RT_Object_Class_Thread :: u8 where "RT_Object_Class_Thread \<equiv> 0x01"
abbreviation RT_Object_Class_Semaphore :: u8 where "RT_Object_Class_Semaphore \<equiv> 0x02"
abbreviation RT_Object_Class_Mutex :: u8 where "RT_Object_Class_Mutex \<equiv> 0x03"
abbreviation RT_Object_Class_Event :: u8 where "RT_Object_Class_Event \<equiv> 0x04"
abbreviation RT_Object_Class_MailBox :: u8 where "RT_Object_Class_MailBox \<equiv> 0x05"
abbreviation RT_Object_Class_MessageQueue :: u8 where "RT_Object_Class_MessageQueue \<equiv> 0x06"
abbreviation RT_Object_Class_Timer :: u8 where "RT_Object_Class_Timer \<equiv> 0x0a"
abbreviation RT_Object_Class_Static :: u8 where "RT_Object_Class_Static \<equiv> 0x80"

abbreviation RT_TICK_MAX :: u32 where "RT_TICK_MAX \<equiv> 0xffffffff"
abbreviation RT_TICK_HALF :: u32 where "RT_TICK_HALF \<equiv> 0x7fffffff"

lemma RT_TICK_HALF_eq: "RT_TICK_HALF = RT_TICK_MAX div 2"
  by simp

section \<open>Field access\<close>

abbreviation stat :: "tid \<Rightarrow> kernel \<Rightarrow> u8" where "stat t k \<equiv> th_stat (k_thread k t)"
abbreviation prio :: "tid \<Rightarrow> kernel \<Rightarrow> u8" where "prio t k \<equiv> th_current_priority (k_thread k t)"

definition upd_thread :: "tid \<Rightarrow> (rt_thread \<Rightarrow> rt_thread) \<Rightarrow> kernel \<Rightarrow> kernel" where
  "upd_thread t f k = k\<lparr>k_thread := (k_thread k)(t := f (k_thread k t))\<rparr>"

definition set_stat :: "tid \<Rightarrow> u8 \<Rightarrow> kernel \<Rightarrow> kernel" where
  "set_stat t s k = upd_thread t (th_stat_update (\<lambda>_. s)) k"

definition set_error :: "tid \<Rightarrow> rt_err_t \<Rightarrow> kernel \<Rightarrow> kernel" where
  "set_error t e k = upd_thread t (th_error_update (\<lambda>_. e)) k"

definition upd_timer :: "timer_ref \<Rightarrow> (rt_timer \<Rightarrow> rt_timer) \<Rightarrow> kernel \<Rightarrow> kernel" where
  "upd_timer m f k = k\<lparr>k_timer := (k_timer k)(m := f (k_timer k m))\<rparr>"

definition upd_obj :: "objref \<Rightarrow> (rt_object \<Rightarrow> rt_object) \<Rightarrow> kernel \<Rightarrow> kernel" where
  "upd_obj r f k = k\<lparr>k_obj := (k_obj k)(r := f (k_obj k r))\<rparr>"

text \<open>\<open>rt_list_insert_before (head, &(thread->tlist))\<close>, \<open>rt_list_insert_after\<close> and
  \<open>rt_list_remove (&(thread->tlist))\<close> on the queues of threads.\<close>

definition tlist_insert_before :: "qid \<Rightarrow> tid \<Rightarrow> kernel \<Rightarrow> kernel" where
  "tlist_insert_before q t k = k\<lparr>k_queue := q_push_back q t (k_queue k)\<rparr>"

definition tlist_insert_after :: "qid \<Rightarrow> tid \<Rightarrow> kernel \<Rightarrow> kernel" where
  "tlist_insert_after q t k = k\<lparr>k_queue := q_push_front q t (k_queue k)\<rparr>"

definition tlist_insert_before_node :: "tid \<Rightarrow> tid \<Rightarrow> kernel \<Rightarrow> kernel" where
  "tlist_insert_before_node a t k = k\<lparr>k_queue := q_push_before a t (k_queue k)\<rparr>"

definition tlist_remove :: "tid \<Rightarrow> kernel \<Rightarrow> kernel" where
  "tlist_remove t k = k\<lparr>k_queue := q_unlink t (k_queue k)\<rparr>"

lemmas k_upd_defs = upd_thread_def set_stat_def set_error_def upd_timer_def upd_obj_def
  tlist_insert_before_def tlist_insert_after_def tlist_insert_before_node_def tlist_remove_def
  q_push_back_def q_push_front_def q_push_before_def q_unlink_def

section \<open>The state before start-up\<close>

text \<open>Every variable of the kernel is zero, every list empty.\<close>

definition thread0 :: rt_thread where
  "thread0 = \<lparr>th_error = 0, th_stat = RT_THREAD_INIT, th_current_priority = 0, th_init_priority = 0,
     th_number_mask = 0, th_event_set = 0, th_event_info = 0, th_init_tick = 0,
     th_remaining_tick = 0, th_cleanup = None, th_wakeup_func = None, th_signal = 0, th_lwp = None\<rparr>"

definition kernel0 :: kernel where
  "kernel0 = \<lparr>k_obj = (\<lambda>_. \<lparr>obj_name = [], obj_type = 0, obj_flag = 0\<rparr>), k_object_list = (\<lambda>_. []),
     k_thread = (\<lambda>_. thread0),
     k_timer = (\<lambda>_. \<lparr>timeout_func = User_timeout 0, parameter = 0, init_tick = 0, timeout_tick = 0\<rparr>),
     k_queue = (\<lambda>_. []), k_ready_group = 0, k_lock_nest = 0, k_current = None,
     k_current_priority = 0, k_interrupt_nest = 0, k_tick = 0, k_timer_list = [],
     k_soft_timer_list = [], k_firing = [], k_soft_firing = [], k_soft_timer_status = 1,
     k_sem = (\<lambda>_. 0),
     k_mutex = (\<lambda>_. \<lparr>mx_value = 0, mx_original_priority = 0, mx_hold = 0, mx_owner = None\<rparr>),
     k_event = (\<lambda>_. 0),
     k_mb = (\<lambda>_. \<lparr>mb_msg_pool = [], mb_size = 0, mb_entry = 0, mb_in_offset = 0, mb_out_offset = 0\<rparr>),
     k_mq = (\<lambda>_. \<lparr>mq_msg_pool = (\<lambda>_. \<lparr>msg_next = None, msg_data = []\<rparr>), mq_msg_size = 0,
       mq_max_msgs = 0, mq_entry = 0, mq_head = None, mq_tail = None, mq_free = None\<rparr>),
     k_lwp_signal = (\<lambda>_. 0)\<rparr>"

section \<open>The status byte\<close>

definition running :: "u8 \<Rightarrow> bool" where
  "running s \<longleftrightarrow> s AND RT_THREAD_STAT_MASK = RT_THREAD_RUNNING"

definition ready :: "u8 \<Rightarrow> bool" where
  "ready s \<longleftrightarrow> s AND RT_THREAD_STAT_MASK = RT_THREAD_READY"

definition suspended :: "u8 \<Rightarrow> bool" where
  "suspended s \<longleftrightarrow> s AND RT_THREAD_SUSPEND_MASK = RT_THREAD_SUSPEND_MASK"

text \<open>\<open>thread->stat = s | (thread->stat & ~RT_THREAD_STAT_MASK)\<close>\<close>

definition with_stat :: "u8 \<Rightarrow> u8 \<Rightarrow> u8" where
  "with_stat s x = s OR (x AND NOT RT_THREAD_STAT_MASK)"

lemma with_stat_mask [simp]:
  "s AND RT_THREAD_STAT_MASK = s \<Longrightarrow> with_stat s x AND RT_THREAD_STAT_MASK = s"
  unfolding with_stat_def by (rule word_masked_or_field)

lemma with_stat_yield [simp]:
  "s AND RT_THREAD_STAT_MASK = s \<Longrightarrow> with_stat s x AND RT_THREAD_STAT_YIELD = x AND RT_THREAD_STAT_YIELD"
  unfolding with_stat_def by (rule word_masked_or_rest) simp_all

lemma suspended_mask: "suspended s \<longleftrightarrow> suspended (s AND RT_THREAD_STAT_MASK)"
  by (simp add: suspended_def and.assoc)

lemma with_stat_simps [simp, stat_simps]:
  "running (with_stat RT_THREAD_RUNNING x)" "\<not> ready (with_stat RT_THREAD_RUNNING x)"
  "\<not> suspended (with_stat RT_THREAD_RUNNING x)"
  "ready (with_stat RT_THREAD_READY x)" "\<not> running (with_stat RT_THREAD_READY x)"
  "\<not> suspended (with_stat RT_THREAD_READY x)"
  by (simp_all add: running_def ready_def suspended_mask [of "with_stat _ _"])
    (simp_all add: suspended_def)

lemma with_stat_suspend [simp, stat_simps]:
  assumes "s \<in> {RT_THREAD_SUSPEND_INTERRUPTIBLE, RT_THREAD_SUSPEND_KILLABLE, RT_THREAD_SUSPEND_UNINTERRUPTIBLE}"
  shows "suspended (with_stat s x)" "\<not> ready (with_stat s x)" "\<not> running (with_stat s x)"
  using assms
  by (auto simp: running_def ready_def suspended_mask [of "with_stat _ _"]) (simp_all add: suspended_def)

lemma stat_exclusive [stat_simps]:
  "running s \<Longrightarrow> \<not> suspended s" "ready s \<Longrightarrow> \<not> suspended s" "running s \<Longrightarrow> \<not> ready s"
  unfolding suspended_mask [of s] by (simp_all add: running_def ready_def suspended_def)

text \<open>\<open>thread->stat &= ~RT_THREAD_STAT_YIELD_MASK\<close>\<close>

definition clear_yield :: "u8 \<Rightarrow> u8" where
  "clear_yield s = s AND NOT RT_THREAD_STAT_YIELD"

lemma clear_yield_simps [simp, stat_simps]:
  "running (clear_yield s) \<longleftrightarrow> running s"
  "ready (clear_yield s) \<longleftrightarrow> ready s"
  "suspended (clear_yield s) \<longleftrightarrow> suspended s"
  "clear_yield s AND RT_THREAD_STAT_YIELD = 0"
proof -
  have m: "clear_yield s AND RT_THREAD_STAT_MASK = s AND RT_THREAD_STAT_MASK"
    by (simp add: clear_yield_def and.assoc)
  then show "running (clear_yield s) \<longleftrightarrow> running s" "ready (clear_yield s) \<longleftrightarrow> ready s"
    by (simp_all add: running_def ready_def)
  show "suspended (clear_yield s) \<longleftrightarrow> suspended s"
    using suspended_mask [of "clear_yield s"] suspended_mask [of s] m by simp
  show "clear_yield s AND RT_THREAD_STAT_YIELD = 0"
    by (simp add: clear_yield_def and.assoc)
qed

lemma set_yield [simp, stat_simps]:
  "running (s OR RT_THREAD_STAT_YIELD) \<longleftrightarrow> running s"
  "ready (s OR RT_THREAD_STAT_YIELD) \<longleftrightarrow> ready s"
  "suspended (s OR RT_THREAD_STAT_YIELD) \<longleftrightarrow> suspended s"
proof -
  have "(s OR RT_THREAD_STAT_YIELD) AND RT_THREAD_STAT_MASK = s AND RT_THREAD_STAT_MASK"
    by (simp add: bit.conj_disj_distrib2)
  then show "running (s OR RT_THREAD_STAT_YIELD) \<longleftrightarrow> running s"
    "ready (s OR RT_THREAD_STAT_YIELD) \<longleftrightarrow> ready s"
    "suspended (s OR RT_THREAD_STAT_YIELD) \<longleftrightarrow> suspended s"
    by (simp_all add: running_def ready_def suspended_mask [of "s OR _"] suspended_mask [of s])
qed

end
