(* ===== verification/Scheduler.thy ===== *)
theory Scheduler
  imports Kernel
begin

text \<open>
  \<^verbatim>\<open>src/scheduler.c\<close> on one CPU with at most 32 priorities: the ready lists, the ready
  bitmap, the choice of the next thread and the scheduler lock. The invariant \<open>sched_ok\<close>
  ties the thread status to the queue it hangs on and the bitmap to the ready lists.
\<close>

section \<open>The operations\<close>

definition get_highest_priority_thread :: "kernel \<Rightarrow> (tid \<times> nat) option" where
  "get_highest_priority_thread k =
    (if k_ready_group k = 0 then None
     else let highest_ready_priority = rt_ffs (k_ready_group k) - 1
          in case k_queue k (Ready highest_ready_priority) of
               [] \<Rightarrow> None
             | t # _ \<Rightarrow> Some (t, highest_ready_priority))"

definition rt_system_scheduler_init :: "kernel \<Rightarrow> kernel" where
  "rt_system_scheduler_init k =
    k\<lparr>k_lock_nest := 0,
      k_queue := (\<lambda>q. case q of Ready p \<Rightarrow> if p < RT_THREAD_PRIORITY_MAX then [] else k_queue k q
                              | _ \<Rightarrow> k_queue k q),
      k_ready_group := 0\<rparr>"

definition rt_schedule_insert_thread :: "tid \<Rightarrow> kernel \<Rightarrow> kernel" where
  "rt_schedule_insert_thread t k =
    (if k_current k = Some t
     then set_stat t (with_stat RT_THREAD_RUNNING (stat t k)) k
     else let k = set_stat t (with_stat RT_THREAD_READY (stat t k)) k;
              k = tlist_insert_before (Ready (unat (prio t k))) t k
          in k\<lparr>k_ready_group := k_ready_group k OR th_number_mask (k_thread k t)\<rparr>)"

definition rt_schedule_remove_thread :: "tid \<Rightarrow> kernel \<Rightarrow> kernel" where
  "rt_schedule_remove_thread t k =
    (let k = tlist_remove t k
     in if k_queue k (Ready (unat (prio t k))) = []
        then k\<lparr>k_ready_group := k_ready_group k AND NOT (th_number_mask (k_thread k t))\<rparr>
        else k)"

definition rt_system_scheduler_start :: "kernel \<Rightarrow> kernel option" where
  "rt_system_scheduler_start k = do {
    (to_thread, highest_ready_priority) \<leftarrow> get_highest_priority_thread k;
    let k = k\<lparr>k_current := Some to_thread\<rparr>;
    let k = rt_schedule_remove_thread to_thread k;
    Some (set_stat to_thread RT_THREAD_RUNNING k)
  }"

definition rt_schedule :: "kernel \<Rightarrow> kernel option" where
  "rt_schedule k =
    (if k_lock_nest k = 0 \<and> k_ready_group k \<noteq> 0 then do {
       (highest, highest_ready_priority) \<leftarrow> get_highest_priority_thread k;
       cur \<leftarrow> k_current k;
       let is_running = (stat cur k AND RT_THREAD_STAT_MASK = RT_THREAD_RUNNING);
       let keep = is_running \<and>
         (unat (prio cur k) < highest_ready_priority \<or>
          unat (prio cur k) = highest_ready_priority \<and> stat cur k AND RT_THREAD_STAT_YIELD = 0);
       let to_thread = (if keep then cur else highest);
       let need_insert_from_thread = (is_running \<and> \<not> keep);
       let k = (if is_running then set_stat cur (clear_yield (stat cur k)) k else k);
       if to_thread \<noteq> cur
       then let k = k\<lparr>k_current_priority := of_nat highest_ready_priority,
                      k_current := Some to_thread\<rparr>;
                k = (if need_insert_from_thread then rt_schedule_insert_thread cur k else k);
                k = rt_schedule_remove_thread to_thread k
            in Some (set_stat to_thread (with_stat RT_THREAD_RUNNING (stat to_thread k)) k)
       else let k = rt_schedule_remove_thread cur k
            in Some (set_stat cur (with_stat RT_THREAD_RUNNING (stat cur k)) k)
     }
     else Some k)"

definition rt_enter_critical :: "kernel \<Rightarrow> kernel" where
  "rt_enter_critical k = k\<lparr>k_lock_nest := k_lock_nest k + 1\<rparr>"

definition rt_exit_critical :: "kernel \<Rightarrow> kernel option" where
  "rt_exit_critical k =
    (let k = k\<lparr>k_lock_nest := k_lock_nest k - 1\<rparr>
     in if sint (k_lock_nest k) \<le> 0
        then let k = k\<lparr>k_lock_nest := 0\<rparr>
             in (if k_current k \<noteq> None then rt_schedule k else Some k)
        else Some k)"

definition rt_critical_level :: "kernel \<Rightarrow> u16" where
  "rt_critical_level k = k_lock_nest k"

lemmas sched_defs = get_highest_priority_thread_def rt_schedule_insert_thread_def
  rt_schedule_remove_thread_def rt_schedule_def

section \<open>The invariant\<close>

definition started :: "u8 \<Rightarrow> bool" where
  "started s \<longleftrightarrow> s AND RT_THREAD_STAT_MASK \<noteq> RT_THREAD_INIT"

definition closed :: "u8 \<Rightarrow> bool" where
  "closed s \<longleftrightarrow> s AND RT_THREAD_STAT_MASK = RT_THREAD_CLOSE"

definition prio_ok :: "tid \<Rightarrow> kernel \<Rightarrow> bool" where
  "prio_ok t k \<longleftrightarrow> unat (prio t k) < RT_THREAD_PRIORITY_MAX \<and>
     th_number_mask (k_thread k t) = 2 ^ unat (prio t k)"

definition thread_ok :: "tid \<Rightarrow> kernel \<Rightarrow> bool" where
  "thread_ok t k \<longleftrightarrow>
     (\<forall>p. t \<in> set (k_queue k (Ready p)) \<longleftrightarrow> ready (stat t k) \<and> p = unat (prio t k)) \<and>
     (\<forall>w. t \<in> set (k_queue k (Wait w)) \<longrightarrow> suspended (stat t k)) \<and>
     (t \<in> set (k_queue k Defunct) \<longrightarrow> closed (stat t k)) \<and>
     (started (stat t k) \<longrightarrow> prio_ok t k) \<and>
     (running (stat t k) \<longrightarrow> k_current k = Some t) \<and>
     (ready (stat t k) \<longrightarrow> k_current k \<noteq> Some t)"

definition bitmap_ok :: "kernel \<Rightarrow> bool" where
  "bitmap_ok k \<longleftrightarrow> (\<forall>p < RT_THREAD_PRIORITY_MAX. bit (k_ready_group k) p \<longleftrightarrow> k_queue k (Ready p) \<noteq> [])"

text \<open>The threads of \<open>X\<close> are in transit: their status does not yet agree with their queue.\<close>

definition sched_ok :: "tid set \<Rightarrow> kernel \<Rightarrow> bool" where
  "sched_ok X k \<longleftrightarrow> separate (k_queue k) \<and> bitmap_ok k \<and> (\<forall>t. t \<notin> X \<longrightarrow> thread_ok t k)"

definition off_queue :: "tid \<Rightarrow> kernel \<Rightarrow> bool" where
  "off_queue t k \<longleftrightarrow> (\<forall>q. t \<notin> set (k_queue k q))"

lemma sched_okD:
  assumes "sched_ok X k"
  shows "separate (k_queue k)" "bitmap_ok k" "t \<notin> X \<Longrightarrow> thread_ok t k"
  using assms by (auto simp: sched_ok_def)

lemma sched_ok_mono: "sched_ok X k \<Longrightarrow> X \<subseteq> Y \<Longrightarrow> sched_ok Y k"
  by (auto simp: sched_ok_def)

lemma thread_ok_off_queue:
  assumes "thread_ok t k" "\<not> ready (stat t k)" "\<not> suspended (stat t k)" "\<not> closed (stat t k)"
  shows "off_queue t k"
  unfolding off_queue_def
proof
  fix q show "t \<notin> set (k_queue k q)"
    using assms by (cases q) (auto simp: thread_ok_def)
qed

lemma started_simps [simp, stat_simps]:
  "running s \<Longrightarrow> started s" "ready s \<Longrightarrow> started s" "suspended s \<Longrightarrow> started s"
  "closed s \<Longrightarrow> started s"
  "started (clear_yield s) \<longleftrightarrow> started s" "closed (clear_yield s) \<longleftrightarrow> closed s"
proof -
  have "clear_yield s AND RT_THREAD_STAT_MASK = s AND RT_THREAD_STAT_MASK"
    by (simp add: clear_yield_def and.assoc)
  then show "started (clear_yield s) \<longleftrightarrow> started s" "closed (clear_yield s) \<longleftrightarrow> closed s"
    by (simp_all add: started_def closed_def)
  show "suspended s \<Longrightarrow> started s"
    using suspended_mask [of s] by (auto simp: started_def suspended_def)
qed (auto simp: running_def ready_def started_def closed_def)

lemma closed_exclusive [stat_simps]:
  "closed s \<Longrightarrow> \<not> ready s" "closed s \<Longrightarrow> \<not> running s" "closed s \<Longrightarrow> \<not> suspended s"
  using suspended_mask [of s] by (auto simp: running_def ready_def closed_def suspended_def)

section \<open>Each operation keeps it\<close>

lemma remove_thread_queue:
  "k_queue (rt_schedule_remove_thread t k) = (\<lambda>q. removeAll t (k_queue k q))"
  by (simp add: rt_schedule_remove_thread_def k_upd_defs Let_def)

lemma remove_thread_frame [rt_frame]:
  "k_thread (rt_schedule_remove_thread t k) = k_thread k"
  "k_current (rt_schedule_remove_thread t k) = k_current k"
  "k_lock_nest (rt_schedule_remove_thread t k) = k_lock_nest k"
  by (simp_all add: rt_schedule_remove_thread_def k_upd_defs Let_def)

lemma bitmap_ok_remove:
  assumes "separate (k_queue k)" "bitmap_ok k" "prio_ok t k"
    and "\<And>p. t \<in> set (k_queue k (Ready p)) \<Longrightarrow> p = unat (prio t k)"
  shows "bitmap_ok (rt_schedule_remove_thread t k)"
proof -
  let ?p = "unat (prio t k)"
  have m: "th_number_mask (k_thread k t) = 2 ^ ?p" using assms(3) by (simp add: prio_ok_def)
  have other: "removeAll t (k_queue k (Ready p)) = k_queue k (Ready p)" if "p \<noteq> ?p" for p
    using assms(4) [of p] that by (intro removeAll_id) auto
  show ?thesis
    unfolding bitmap_ok_def
  proof (intro allI impI)
    fix p :: nat assume "p < 32"
    show "bit (k_ready_group (rt_schedule_remove_thread t k)) p \<longleftrightarrow>
        k_queue (rt_schedule_remove_thread t k) (Ready p) \<noteq> []"
    proof (cases "p = ?p")
      case True
      with \<open>p < 32\<close> assms(2) m show ?thesis
        by (auto simp: rt_schedule_remove_thread_def k_upd_defs Let_def bitmap_ok_def bit_simps)
    next
      case False
      with \<open>p < 32\<close> assms(2) other [OF False] m show ?thesis
        by (simp add: rt_schedule_remove_thread_def k_upd_defs Let_def bitmap_ok_def bit_simps)
    qed
  qed
qed

lemma remove_thread_ok:
  assumes "sched_ok X k" "prio_ok t k"
    and "t \<in> X \<Longrightarrow> \<forall>p. t \<in> set (k_queue k (Ready p)) \<longrightarrow> p = unat (prio t k)"
  shows "sched_ok (insert t X) (rt_schedule_remove_thread t k)"
proof -
  note D = sched_okD [OF assms(1)]
  have "p = unat (prio t k)" if "t \<in> set (k_queue k (Ready p))" for p
    using D(3) [of t] assms(3) that by (cases "t \<in> X") (auto simp: thread_ok_def)
  then have "bitmap_ok (rt_schedule_remove_thread t k)"
    by (intro bitmap_ok_remove D assms(2))
  moreover have "thread_ok u (rt_schedule_remove_thread t k)" if "u \<notin> insert t X" for u
    using D(3) [of u] that
    by (simp add: thread_ok_def remove_thread_queue remove_thread_frame prio_ok_def)
  ultimately show ?thesis
    using separate_removeAll [OF D(1), of t]
    by (auto simp: sched_ok_def remove_thread_queue)
qed

lemma remove_thread_off_queue [simp]: "off_queue t (rt_schedule_remove_thread t k)"
  by (simp add: off_queue_def remove_thread_queue)

lemma settle_thread_ok:
  assumes "sched_ok (insert t X) k" "off_queue t k" "\<not> ready s" "started s \<Longrightarrow> prio_ok t k"
    and "running s \<Longrightarrow> k_current k = Some t"
  shows "sched_ok (X - {t}) (set_stat t s k)"
proof -
  note D = sched_okD [OF assms(1)]
  have "thread_ok u (set_stat t s k)" if "u \<notin> X - {t}" for u
  proof (cases "u = t")
    case True
    with assms show ?thesis by (simp add: thread_ok_def off_queue_def k_upd_defs prio_ok_def)
  next
    case False
    with D(3) [of u] that show ?thesis by (simp add: thread_ok_def k_upd_defs prio_ok_def)
  qed
  with D(1,2) show ?thesis
    by (simp add: sched_ok_def k_upd_defs bitmap_ok_def)
qed

lemma insert_thread_current:
  "k_current k = Some t \<Longrightarrow>
   rt_schedule_insert_thread t k = set_stat t (with_stat RT_THREAD_RUNNING (stat t k)) k"
  by (simp add: rt_schedule_insert_thread_def)

lemma insert_thread_queue:
  "k_current k \<noteq> Some t \<Longrightarrow> k_queue (rt_schedule_insert_thread t k) =
    (k_queue k)(Ready (unat (prio t k)) := k_queue k (Ready (unat (prio t k))) @ [t])"
  by (simp add: rt_schedule_insert_thread_def k_upd_defs Let_def)

lemma insert_thread_thread:
  "k_current k \<noteq> Some t \<Longrightarrow> k_thread (rt_schedule_insert_thread t k) =
    (k_thread k)(t := (k_thread k t)\<lparr>th_stat := with_stat RT_THREAD_READY (stat t k)\<rparr>)"
  by (simp add: rt_schedule_insert_thread_def k_upd_defs Let_def)

lemma insert_thread_frame [rt_frame]:
  "k_current (rt_schedule_insert_thread t k) = k_current k"
  "k_lock_nest (rt_schedule_insert_thread t k) = k_lock_nest k"
  by (simp_all add: rt_schedule_insert_thread_def k_upd_defs Let_def)

lemma insert_thread_ready_ok:
  assumes ok: "sched_ok (insert t X) k" and "off_queue t k" "prio_ok t k" "k_current k \<noteq> Some t"
  shows "sched_ok (X - {t}) (rt_schedule_insert_thread t k)"
proof -
  let ?k = "rt_schedule_insert_thread t k" and ?p = "unat (prio t k)"
  note D = sched_okD [OF ok]
  note E = insert_thread_queue [OF assms(4)] insert_thread_thread [OF assms(4)] insert_thread_frame
  have new: "t \<notin> set (k_queue k q)" for q using assms(2) by (simp add: off_queue_def)
  have "separate (k_queue ?k)"
    unfolding E using D(1) new by (intro separate_insert) (auto simp: separate_def)
  moreover have "bitmap_ok ?k"
  proof -
    have "k_ready_group ?k = k_ready_group k OR 2 ^ ?p"
      using assms(3,4) by (simp add: rt_schedule_insert_thread_def k_upd_defs Let_def prio_ok_def)
    with D(2) show ?thesis by (auto simp: bitmap_ok_def E bit_simps)
  qed
  moreover have "thread_ok u ?k" if "u \<notin> X - {t}" for u
  proof (cases "u = t")
    case True
    with new assms(3,4) show ?thesis by (auto simp: thread_ok_def E prio_ok_def stat_simps)
  next
    case False
    with D(3) [of u] that show ?thesis by (auto simp: thread_ok_def E prio_ok_def)
  qed
  ultimately show ?thesis by (simp add: sched_ok_def)
qed

lemma insert_thread_ok:
  assumes "sched_ok (insert t X) k" "off_queue t k" "prio_ok t k"
  shows "sched_ok (X - {t}) (rt_schedule_insert_thread t k)"
proof (cases "k_current k = Some t")
  case True
  with assms show ?thesis
    by (simp add: insert_thread_current settle_thread_ok)
next
  case False
  with assms show ?thesis by (rule insert_thread_ready_ok)
qed

section \<open>Choosing the next thread\<close>

lemma get_highest_Some:
  assumes "sched_ok X k" "k_ready_group k \<noteq> 0"
  shows "\<exists>t ts p. get_highest_priority_thread k = Some (t, p) \<and> p < 32 \<and>
    k_queue k (Ready p) = t # ts \<and> (\<forall>q < p. k_queue k (Ready q) = [])"
proof -
  note B = sched_okD(2) [OF assms(1)]
  obtain p where p: "rt_ffs (k_ready_group k) = Suc p" "p < 32" "bit (k_ready_group k) p"
      "\<forall>m < p. \<not> bit (k_ready_group k) m"
    using rt_ffs_nonzero [OF assms(2)] by blast
  with B have "k_queue k (Ready p) \<noteq> []" "\<forall>q < p. k_queue k (Ready q) = []"
    by (auto simp: bitmap_ok_def)
  then obtain t ts where "k_queue k (Ready p) = t # ts" by (cases "k_queue k (Ready p)") auto
  with p \<open>\<forall>q < p. k_queue k (Ready q) = []\<close> assms(2) show ?thesis
    by (simp add: get_highest_priority_thread_def)
qed

lemma no_ready_group:
  assumes "sched_ok {} k" "k_ready_group k = 0" shows "\<not> ready (stat t k)"
proof
  assume "ready (stat t k)"
  moreover have "thread_ok t k" using assms(1) by (simp add: sched_ok_def)
  ultimately have "t \<in> set (k_queue k (Ready (unat (prio t k))))" "unat (prio t k) < 32"
    by (auto simp: thread_ok_def prio_ok_def)
  with sched_okD(2) [OF assms(1)] assms(2) show False
    by (force simp: bitmap_ok_def)
qed

text \<open>
  The part of the state the scheduler never touches: everything but status, thread queues,
  bitmap and the choice of the current thread.
\<close>

definition k_core :: "kernel \<Rightarrow> kernel" where
  "k_core k = k\<lparr>k_thread := (\<lambda>t. (k_thread k t)\<lparr>th_stat := 0\<rparr>), k_queue := (\<lambda>_. []),
     k_ready_group := 0, k_current_priority := 0, k_current := None\<rparr>"

lemma k_core_fields:
  assumes "k_core k' = k_core k"
  shows "k_obj k' = k_obj k" "k_timer k' = k_timer k" "k_lock_nest k' = k_lock_nest k"
    "k_tick k' = k_tick k" "k_timer_list k' = k_timer_list k" "k_soft_timer_list k' = k_soft_timer_list k"
    "k_sem k' = k_sem k" "k_mutex k' = k_mutex k" "k_event k' = k_event k" "k_mb k' = k_mb k"
    "k_mq k' = k_mq k" "k_interrupt_nest k' = k_interrupt_nest k" "k_firing k' = k_firing k"
    "k_lwp_signal k' = k_lwp_signal k"
  using assms [THEN arg_cong, of k_obj] assms [THEN arg_cong, of k_timer]
    assms [THEN arg_cong, of k_lock_nest] assms [THEN arg_cong, of k_tick]
    assms [THEN arg_cong, of k_timer_list] assms [THEN arg_cong, of k_soft_timer_list]
    assms [THEN arg_cong, of k_sem] assms [THEN arg_cong, of k_mutex] assms [THEN arg_cong, of k_event]
    assms [THEN arg_cong, of k_mb] assms [THEN arg_cong, of k_mq] assms [THEN arg_cong, of k_interrupt_nest]
    assms [THEN arg_cong, of k_firing] assms [THEN arg_cong, of k_lwp_signal]
  by (simp_all add: k_core_def)

lemma k_core_thread:
  assumes "k_core k' = k_core k"
  shows "th_current_priority (k_thread k' t) = th_current_priority (k_thread k t)"
    "th_init_priority (k_thread k' t) = th_init_priority (k_thread k t)"
    "th_number_mask (k_thread k' t) = th_number_mask (k_thread k t)"
    "th_error (k_thread k' t) = th_error (k_thread k t)"
    "th_event_set (k_thread k' t) = th_event_set (k_thread k t)"
    "th_event_info (k_thread k' t) = th_event_info (k_thread k t)"
    "th_signal (k_thread k' t) = th_signal (k_thread k t)" "th_lwp (k_thread k' t) = th_lwp (k_thread k t)"
proof -
  have "(k_thread k' t)\<lparr>th_stat := 0\<rparr> = (k_thread k t)\<lparr>th_stat := 0\<rparr>"
    using assms [THEN arg_cong, of "\<lambda>k. k_thread k t"] by (simp add: k_core_def)
  note e = arg_cong [OF this]
  show "th_current_priority (k_thread k' t) = th_current_priority (k_thread k t)"
    "th_init_priority (k_thread k' t) = th_init_priority (k_thread k t)"
    "th_number_mask (k_thread k' t) = th_number_mask (k_thread k t)"
    "th_error (k_thread k' t) = th_error (k_thread k t)"
    "th_event_set (k_thread k' t) = th_event_set (k_thread k t)"
    "th_event_info (k_thread k' t) = th_event_info (k_thread k t)"
    "th_signal (k_thread k' t) = th_signal (k_thread k t)" "th_lwp (k_thread k' t) = th_lwp (k_thread k t)"
    using e [of th_current_priority] e [of th_init_priority] e [of th_number_mask] e [of th_error]
      e [of th_event_set] e [of th_event_info] e [of th_signal] e [of th_lwp]
    by simp_all
qed

lemma k_core_ops [simp]:
  "k_core (set_stat t s k) = k_core k" "k_core (tlist_remove t k) = k_core k"
  "k_core (tlist_insert_before q t k) = k_core k"
  "k_core (k\<lparr>k_current := c\<rparr>) = k_core k" "k_core (k\<lparr>k_current_priority := p\<rparr>) = k_core k"
  "k_core (k\<lparr>k_ready_group := g\<rparr>) = k_core k"
  by (simp_all add: k_core_def k_upd_defs fun_eq_iff)

lemma k_core_sched [simp]:
  "k_core (rt_schedule_remove_thread t k) = k_core k"
  "k_core (rt_schedule_insert_thread t k) = k_core k"
  by (simp_all add: rt_schedule_remove_thread_def rt_schedule_insert_thread_def Let_def)

lemma rt_schedule_core: "rt_schedule k = Some k' \<Longrightarrow> k_core k' = k_core k"
  by (auto simp: rt_schedule_def Let_def bind_eq_Some_conv split: if_splits prod.splits)

section \<open>What rt_schedule does\<close>

definition keeps_cpu :: "tid \<Rightarrow> nat \<Rightarrow> kernel \<Rightarrow> bool" where
  "keeps_cpu c p k \<longleftrightarrow> running (stat c k) \<and>
     (unat (prio c k) < p \<or> unat (prio c k) = p \<and> stat c k AND RT_THREAD_STAT_YIELD = 0)"

definition unyield :: "tid \<Rightarrow> kernel \<Rightarrow> kernel" where
  "unyield c k = (if running (stat c k) then set_stat c (clear_yield (stat c k)) k else k)"

lemma rt_schedule_noop:
  "k_lock_nest k \<noteq> 0 \<or> k_ready_group k = 0 \<Longrightarrow> rt_schedule k = Some k"
  by (auto simp: rt_schedule_def)

lemma rt_schedule_keep:
  assumes "k_lock_nest k = 0" "k_ready_group k \<noteq> 0" "k_current k = Some c"
    and "get_highest_priority_thread k = Some (t, p)" "keeps_cpu c p k"
  shows "rt_schedule k = (let k = rt_schedule_remove_thread c (unyield c k)
    in Some (set_stat c (with_stat RT_THREAD_RUNNING (stat c k)) k))"
  using assms by (simp add: rt_schedule_def keeps_cpu_def running_def unyield_def Let_def)

lemma rt_schedule_switch:
  assumes "k_lock_nest k = 0" "k_ready_group k \<noteq> 0" "k_current k = Some c"
    and "get_highest_priority_thread k = Some (t, p)" "\<not> keeps_cpu c p k" "t \<noteq> c"
  shows "rt_schedule k = (let k' = (unyield c k)\<lparr>k_current_priority := of_nat p, k_current := Some t\<rparr>;
      k' = (if running (stat c k) then rt_schedule_insert_thread c k' else k');
      k' = rt_schedule_remove_thread t k'
    in Some (set_stat t (with_stat RT_THREAD_RUNNING (stat t k')) k'))"
  using assms by (auto simp: rt_schedule_def keeps_cpu_def running_def unyield_def Let_def)

lemma unyield_ok: "sched_ok X k \<Longrightarrow> sched_ok X (unyield c k)"
  by (auto simp: unyield_def sched_ok_def bitmap_ok_def thread_ok_def k_upd_defs prio_ok_def)

lemma unyield_frame [simp]:
  "k_queue (unyield c k) = k_queue k" "k_current (unyield c k) = k_current k"
  "running (stat u (unyield c k)) = running (stat u k)" "ready (stat u (unyield c k)) = ready (stat u k)"
  "prio u (unyield c k) = prio u k" "prio_ok u (unyield c k) = prio_ok u k"
  "th_number_mask (k_thread (unyield c k) u) = th_number_mask (k_thread k u)"
  "off_queue u (unyield c k) = off_queue u k"
  by (auto simp: unyield_def k_upd_defs prio_ok_def off_queue_def)

lemma change_current_ok:
  assumes "sched_ok X k" "\<And>u. running (stat u k) \<Longrightarrow> u \<in> X" "t \<in> X"
  shows "sched_ok X (k\<lparr>k_current_priority := cp, k_current := Some t\<rparr>)"
  using assms by (auto simp: sched_ok_def bitmap_ok_def thread_ok_def prio_ok_def)

lemma running_off_queue: "thread_ok t k \<Longrightarrow> running (stat t k) \<Longrightarrow> off_queue t k"
  by (rule thread_ok_off_queue) (auto simp: stat_simps dest: stat_exclusive closed_exclusive)

lemma keep_ok:
  assumes "sched_ok {} k" "k_current k = Some c" "running (stat c k)"
    and k': "k' = rt_schedule_remove_thread c (unyield c k)"
  shows "sched_ok {} (set_stat c (with_stat RT_THREAD_RUNNING (stat c k')) k')"
    "k_queue (set_stat c (with_stat RT_THREAD_RUNNING (stat c k')) k') = k_queue k"
proof -
  have t: "thread_ok c k" using assms(1) by (rule sched_okD) simp
  then have p: "prio_ok c k" and off: "off_queue c k"
    using assms(3) running_off_queue by (auto simp: thread_ok_def)
  have "sched_ok {c} k'"
    unfolding k' by (rule remove_thread_ok [OF unyield_ok [OF assms(1)]]) (simp_all add: p)
  moreover have "off_queue c k'" "k_current k' = Some c" "prio_ok c k'"
    using p assms(2) by (simp_all add: k' remove_thread_frame prio_ok_def)
  ultimately show "sched_ok {} (set_stat c (with_stat RT_THREAD_RUNNING (stat c k')) k')"
    using settle_thread_ok [of c "{}" k' "with_stat RT_THREAD_RUNNING (stat c k')"] by simp
  show "k_queue (set_stat c (with_stat RT_THREAD_RUNNING (stat c k')) k') = k_queue k"
    using off by (simp add: k' set_stat_def upd_thread_def remove_thread_queue off_queue_def)
qed

lemma switch_ok:
  assumes ok: "sched_ok {} k" and c: "k_current k = Some c"
    and t: "k_queue k (Ready p) = t # ts"
    and k2: "k2 = (unyield c k)\<lparr>k_current_priority := cp, k_current := Some t\<rparr>"
    and k3: "k3 = (if running (stat c k) then rt_schedule_insert_thread c k2 else k2)"
    and k4: "k4 = rt_schedule_remove_thread t k3"
  shows "sched_ok {} (set_stat t (with_stat RT_THREAD_RUNNING (stat t k4)) k4)" (is ?ok)
    and "t \<noteq> c" and "unat (prio t k) = p"
    and "k_queue (set_stat t (with_stat RT_THREAD_RUNNING (stat t k4)) k4) =
      (let Q = q_unlink t (k_queue k)
       in if running (stat c k) then q_push_back (Ready (unat (prio c k))) c Q else Q)" (is ?q)
proof -
  note D = sched_okD [OF ok]
  have tok: "thread_ok t k" and cok: "thread_ok c k" using D(3) by simp_all
  have "t \<in> set (k_queue k (Ready p))" using t by simp
  with tok have rt: "ready (stat t k)" and p: "unat (prio t k) = p" and pt: "prio_ok t k"
    by (auto simp: thread_ok_def)
  show ne: "t \<noteq> c" using tok rt c by (auto simp: thread_ok_def)
  show "unat (prio t k) = p" by (rule p)
  have only: "u = c" if "running (stat u k)" for u
    using D(3) [of u] that c by (auto simp: thread_ok_def)
  have k1: "sched_ok {} (unyield c k)" by (rule unyield_ok [OF ok])
  have k3ok: "sched_ok {t} k3 \<and> k_queue k3 = (if running (stat c k)
      then q_push_back (Ready (unat (prio c k))) c (k_queue k) else k_queue k)"
  proof (cases "running (stat c k)")
    case True
    have "sched_ok {c, t} k2"
      unfolding k2 by (rule change_current_ok [OF sched_ok_mono [OF k1]]) (use only in auto)
    moreover have "off_queue c k2" "prio_ok c k2" "k_current k2 \<noteq> Some c"
      using running_off_queue [OF cok True] cok True ne
      by (auto simp: k2 off_queue_def prio_ok_def thread_ok_def unyield_def k_upd_defs)
    ultimately have "sched_ok {t} (rt_schedule_insert_thread c k2)"
      using insert_thread_ok [of c "{t}" k2] ne by simp
    moreover have "k_queue (rt_schedule_insert_thread c k2) = q_push_back (Ready (unat (prio c k))) c (k_queue k)"
      using insert_thread_queue [OF \<open>k_current k2 \<noteq> Some c\<close>] by (simp add: k2 q_push_back_def)
    ultimately show ?thesis using True by (simp add: k3)
  next
    case False
    have "sched_ok {t} k2"
      unfolding k2 by (rule change_current_ok [OF sched_ok_mono [OF k1]]) (use only False in auto)
    with False show ?thesis by (simp add: k3 k2)
  qed
  have th3: "k_thread k3 t = k_thread k t" and c3: "k_current k3 = Some t"
    using ne by (auto simp: k3 k2 rt_schedule_insert_thread_def unyield_def k_upd_defs Let_def)
  have "\<forall>q. t \<in> set (k_queue k3 (Ready q)) \<longrightarrow> q = unat (prio t k3)"
    using k3ok tok ne th3 by (auto simp: thread_ok_def q_push_back_def split: if_splits)
  moreover have "prio_ok t k3" using pt th3 by (simp add: prio_ok_def)
  ultimately have "sched_ok {t} k4"
    using remove_thread_ok [of "{t}" k3 t] k3ok by (simp add: k4)
  moreover have "off_queue t k4" "prio_ok t k4" "k_current k4 = Some t"
    using pt th3 c3 by (simp_all add: k4 prio_ok_def remove_thread_frame)
  ultimately show ?ok
    using settle_thread_ok [of t "{}" k4 "with_stat RT_THREAD_RUNNING (stat t k4)"] by simp
  show ?q
    using k3ok ne
    by (auto simp: k4 set_stat_def upd_thread_def remove_thread_queue q_unlink_def q_push_back_def
      Let_def fun_eq_iff)
qed

text \<open>The outcome of a call in one lemma: who runs afterwards, and how the queues moved.\<close>

lemma rt_schedule_outcome:
  assumes ok: "sched_ok {} k" and lock: "k_lock_nest k = 0" and c: "k_current k = Some c"
    and can: "running (stat c k) \<or> k_ready_group k \<noteq> 0"
  shows "\<exists>k' r. rt_schedule k = Some k' \<and> sched_ok {} k' \<and> k_core k' = k_core k \<and>
    k_current k' = Some r \<and> running (stat r k') \<and>
    (\<forall>t. ready (stat t k') \<longrightarrow> prio r k' \<le> prio t k') \<and>
    (r = c \<and> k_queue k' = k_queue k \<or>
     r \<noteq> c \<and> (\<exists>ts. k_queue k (Ready (unat (prio r k))) = r # ts) \<and>
     k_queue k' = (let Q = q_unlink r (k_queue k)
       in if running (stat c k) then q_push_back (Ready (unat (prio c k))) c Q else Q))"
proof (cases "k_ready_group k = 0")
  case True
  with can have "running (stat c k)" by simp
  with True ok c no_ready_group [OF ok True] show ?thesis
    by (intro exI [of _ k] exI [of _ c]) (auto simp: rt_schedule_noop)
next
  case False
  obtain t ts p where h: "get_highest_priority_thread k = Some (t, p)" "p < 32"
      "k_queue k (Ready p) = t # ts" "\<forall>q < p. k_queue k (Ready q) = []"
    using get_highest_Some [OF ok False] by blast
  have low: "p \<le> unat (prio u k)" if "u \<in> set (k_queue k (Ready (unat (prio u k))))" for u
    using h(4) that by (metis list.set(1) empty_iff not_le)
  show ?thesis
  proof (cases "keeps_cpu c p k")
    case True
    then have r: "running (stat c k)" and le: "unat (prio c k) \<le> p"
      by (auto simp: keeps_cpu_def)
    define k1 where "k1 = rt_schedule_remove_thread c (unyield c k)"
    define k' where "k' = set_stat c (with_stat RT_THREAD_RUNNING (stat c k1)) k1"
    have s: "rt_schedule k = Some k'"
      using rt_schedule_keep [OF lock False c h(1) True] by (simp add: k'_def k1_def Let_def)
    note core = rt_schedule_core [OF s]
    have ok': "sched_ok {} k'" "k_queue k' = k_queue k"
      using keep_ok [OF ok c r k1_def] by (simp_all add: k'_def)
    have "prio c k' \<le> prio u k'" if "ready (stat u k')" for u
      using sched_okD(3) [OF ok'(1), of u] that ok'(2) low [of u] le k_core_thread(1) [OF core]
      by (simp add: thread_ok_def word_le_nat_alt)
    moreover have "running (stat c k')" "k_current k' = Some c"
      using c by (simp_all add: k'_def k1_def k_upd_defs remove_thread_frame)
    ultimately show ?thesis using s ok' core by blast
  next
    case False
    define k2 where "k2 = (unyield c k)\<lparr>k_current_priority := of_nat p, k_current := Some t\<rparr>"
    define k3 where "k3 = (if running (stat c k) then rt_schedule_insert_thread c k2 else k2)"
    define k4 where "k4 = rt_schedule_remove_thread t k3"
    define k' where "k' = set_stat t (with_stat RT_THREAD_RUNNING (stat t k4)) k4"
    note S = switch_ok [OF ok c h(3) k2_def k3_def k4_def, folded k'_def]
    have s: "rt_schedule k = Some k'"
      using rt_schedule_switch [OF lock \<open>k_ready_group k \<noteq> 0\<close> c h(1) False S(2)]
      by (simp add: k'_def k4_def k3_def k2_def Let_def)
    note core = rt_schedule_core [OF s]
    have ge: "p \<le> unat (prio c k)" if "running (stat c k)"
      using False that by (auto simp: keeps_cpu_def)
    have "prio t k' \<le> prio u k'" if "ready (stat u k')" for u
    proof -
      have "u \<in> set (k_queue k' (Ready (unat (prio u k))))"
        using sched_okD(3) [OF S(1), of u] that k_core_thread(1) [OF core] by (simp add: thread_ok_def)
      then have "u \<in> set (k_queue k (Ready (unat (prio u k)))) \<or> u = c \<and> running (stat c k)"
        unfolding S(4) by (auto simp: q_unlink_def q_push_back_def Let_def split: if_splits)
      then have "p \<le> unat (prio u k)" using low ge by blast
      with S(3) k_core_thread(1) [OF core] show ?thesis by (simp add: word_le_nat_alt)
    qed
    moreover have "running (stat t k')" "k_current k' = Some t"
      by (simp_all add: k'_def k4_def k3_def k2_def k_upd_defs remove_thread_frame insert_thread_frame)
    ultimately show ?thesis
      using s S core h(3) by (intro exI [of _ k'] exI [of _ t]) auto
  qed
qed

lemma ready_queue_ready:
  assumes "sched_ok {} k" "t \<in> set (k_queue k (Ready p))"
  shows "ready (stat t k) \<and> unat (prio t k) = p"
  using sched_okD(3) [OF assms(1), of t] assms(2) by (simp add: thread_ok_def)

text \<open>The scheduler moves threads between ready and running only.\<close>

lemma rt_schedule_stat:
  assumes ok: "sched_ok {} k" and s: "rt_schedule k = Some k'"
  shows "suspended (stat t k') = suspended (stat t k)" "closed (stat t k') = closed (stat t k)"
    "started (stat t k') = started (stat t k)"
    "ready (stat t k') \<or> running (stat t k') \<longleftrightarrow> ready (stat t k) \<or> running (stat t k)"
proof -
  let ?same = "\<lambda>t. (ready (stat t k) \<or> running (stat t k)) \<and> (ready (stat t k') \<or> running (stat t k'))"
  have "k_thread k' t = k_thread k t \<or> ?same t"
  proof (cases "k_lock_nest k \<noteq> 0 \<or> k_ready_group k = 0")
    case True
    with rt_schedule_noop [OF True] s show ?thesis by auto
  next
    case False
    obtain h p ts where h: "get_highest_priority_thread k = Some (h, p)" "k_queue k (Ready p) = h # ts"
      using get_highest_Some [OF ok] False by blast
    then have rh: "ready (stat h k)"
      using ready_queue_ready [OF ok, of h p] by simp
    from s False h(1) obtain c where c: "k_current k = Some c"
      by (auto simp: rt_schedule_def bind_eq_Some_conv)
    show ?thesis
    proof (cases "keeps_cpu c p k")
      case True
      with s rt_schedule_keep [OF _ _ c h(1) True] False show ?thesis
        by (auto simp: keeps_cpu_def unyield_def k_upd_defs rt_schedule_remove_thread_def Let_def)
    next
      case nk: False
      have ne: "h \<noteq> c" using sched_okD(3) [OF ok, of h] rh c by (auto simp: thread_ok_def)
      with s rt_schedule_switch [OF _ _ c h(1) nk ne] False rh show ?thesis
        by (auto simp: unyield_def k_upd_defs rt_schedule_remove_thread_def
          rt_schedule_insert_thread_def Let_def split: if_splits)
    qed
  qed
  then show "suspended (stat t k') = suspended (stat t k)" "closed (stat t k') = closed (stat t k)"
    "started (stat t k') = started (stat t k)"
    "ready (stat t k') \<or> running (stat t k') \<longleftrightarrow> ready (stat t k) \<or> running (stat t k)"
    by (auto simp: stat_simps dest: stat_exclusive closed_exclusive)
qed

section \<open>Properties\<close>

text \<open>Round robin: a yielding thread makes room for the first ready thread of its priority.\<close>

lemma yield_switch:
  assumes ok: "sched_ok {} k" and lock: "k_lock_nest k = 0" and c: "k_current k = Some c"
    and c': "running (stat c k)" "stat c k AND RT_THREAD_STAT_YIELD \<noteq> 0"
    and q: "k_queue k (Ready (unat (prio c k))) = t # ts"
    and top: "\<forall>p < unat (prio c k). k_queue k (Ready p) = []"
  shows "\<exists>k'. rt_schedule k = Some k' \<and> k_current k' = Some t \<and>
    k_queue k' (Ready (unat (prio c k))) = ts @ [c] \<and>
    (\<forall>p. p \<noteq> Ready (unat (prio c k)) \<longrightarrow> k_queue k' p = k_queue k p)"
proof -
  let ?p = "unat (prio c k)"
  have p32: "?p < 32"
    using sched_okD(3) [OF ok, of c] c'(1) by (auto simp: thread_ok_def prio_ok_def)
  have g: "k_ready_group k \<noteq> 0"
    using sched_okD(2) [OF ok] q p32 by (auto simp: bitmap_ok_def)
  obtain t' ts' p where h: "get_highest_priority_thread k = Some (t', p)" "k_queue k (Ready p) = t' # ts'"
      "\<forall>q < p. k_queue k (Ready q) = []"
    using get_highest_Some [OF ok g] by blast
  with top q have "p = ?p" by (metis linorder_neqE_nat list.distinct(1))
  with h q have t: "get_highest_priority_thread k = Some (t, ?p)" by simp
  have nk: "\<not> keeps_cpu c ?p k" using c' by (simp add: keeps_cpu_def)
  define k2 where "k2 = (unyield c k)\<lparr>k_current_priority := of_nat ?p, k_current := Some t\<rparr>"
  define k3 where "k3 = (if running (stat c k) then rt_schedule_insert_thread c k2 else k2)"
  define k4 where "k4 = rt_schedule_remove_thread t k3"
  define k' where "k' = set_stat t (with_stat RT_THREAD_RUNNING (stat t k4)) k4"
  note S = switch_ok [OF ok c q k2_def k3_def k4_def, folded k'_def]
  have s: "rt_schedule k = Some k'"
    using rt_schedule_switch [OF lock g c t nk S(2)]
    by (simp add: k'_def k4_def k3_def k2_def Let_def)
  have cur: "k_current k' = Some t"
    by (simp add: k'_def k4_def k3_def k2_def k_upd_defs remove_thread_frame insert_thread_frame)
  note sep = sched_okD(1) [OF ok]
  have "removeAll t (k_queue k x) = k_queue k x" if "x \<noteq> Ready ?p" for x
    using sep q that unfolding separate_def by (metis disjoint_iff list.set_intros(1) removeAll_id)
  moreover have "removeAll t (k_queue k (Ready ?p)) = ts"
    using sep q unfolding separate_def by (metis distinct.simps(2) removeAll.simps(2) removeAll_id)
  ultimately show ?thesis
    using s cur S(4) c'(1) by (auto simp: q_unlink_def q_push_back_def Let_def)
qed

text \<open>A concrete state: thread 0 runs at priority 5, threads 1 and 2 are ready at priority 5,
  thread 3 at priority 7.\<close>

definition sample_thread :: "u8 \<Rightarrow> u8 \<Rightarrow> rt_thread" where
  "sample_thread s p = thread0\<lparr>th_stat := s, th_current_priority := p, th_init_priority := p,
     th_number_mask := 2 ^ unat p, th_init_tick := 10, th_remaining_tick := 10\<rparr>"

definition sample_kernel :: "u8 \<Rightarrow> kernel" where
  "sample_kernel s = kernel0\<lparr>
     k_thread := (\<lambda>_. thread0)(0 := sample_thread s 5, 1 := sample_thread RT_THREAD_READY 5,
       2 := sample_thread RT_THREAD_READY 5, 3 := sample_thread RT_THREAD_READY 7),
     k_queue := (\<lambda>_. [])(Ready 5 := [1, 2], Ready 7 := [3]),
     k_ready_group := 2 ^ 5 OR 2 ^ 7, k_current := Some 0\<rparr>"

lemma less_32_cases: "n < (32::nat) \<longleftrightarrow> n \<in> set [0..<32]"
  by auto

lemma sample_ready_group: "bitmap_ok (sample_kernel s)"
  unfolding bitmap_ok_def
proof (intro allI impI)
  fix p :: nat assume p: "p < 32"
  show "bit (k_ready_group (sample_kernel s)) p \<longleftrightarrow> k_queue (sample_kernel s) (Ready p) \<noteq> []"
  proof -
    have "bit (2 ^ 5 OR 2 ^ 7 :: u32) p \<longleftrightarrow> p = 5 \<or> p = 7"
      unfolding bit_or_iff using p bit_two_power [where 'a = 32, of p 5] bit_two_power [where 'a = 32, of p 7]
      by simp
    then show ?thesis by (simp add: sample_kernel_def)
  qed
qed

lemma stat_consts [simp]:
  "running 3" "running 11" "\<not> ready 3" "\<not> ready 11" "ready 2" "\<not> running 2" "\<not> closed 2" "\<not> closed 3"
  "\<not> closed 11" "\<not> suspended 2" "\<not> suspended 3" "\<not> suspended 11" "\<not> started 0" "\<not> ready 0"
  "\<not> running 0" "\<not> suspended 0" "\<not> closed 0" "suspended 4" "\<not> ready 4" "\<not> running 4" "\<not> closed 4"
  by (simp_all add: running_def ready_def closed_def suspended_def started_def)

lemma sample_ok: "s \<in> {3, 11} \<Longrightarrow> sched_ok {} (sample_kernel s)"
  unfolding sched_ok_def
  by (auto simp: sample_ready_group)
    (auto simp: sample_kernel_def sample_thread_def separate_def thread_ok_def prio_ok_def kernel0_def
      thread0_def)

text \<open>C17: With the scheduler unlocked, \<open>rt_schedule\<close> always returns, keeps the scheduler
  invariant, and afterwards the current thread is running and no ready thread has a higher
  priority (a smaller number) than it.\<close>

theorem schedule_runs_highest:
  assumes "sched_ok {} k" "k_lock_nest k = 0" "k_current k = Some c"
    and "running (stat c k) \<or> k_ready_group k \<noteq> 0"
  shows "\<exists>k' r. rt_schedule k = Some k' \<and> sched_ok {} k' \<and> k_current k' = Some r \<and>
    running (stat r k') \<and> (\<forall>t. ready (stat t k') \<longrightarrow> prio r k' \<le> prio t k')"
  using rt_schedule_outcome [OF assms] by blast

theorem schedule_runs_highest_witness:
  "\<exists>k' r. rt_schedule (sample_kernel 3) = Some k' \<and> sched_ok {} k' \<and> k_current k' = Some r \<and>
    running (stat r k') \<and> (\<forall>t. ready (stat t k') \<longrightarrow> prio r k' \<le> prio t k')"
  by (rule schedule_runs_highest [where c = 0])
    (simp_all add: sample_ok, simp_all add: sample_kernel_def sample_thread_def kernel0_def)

text \<open>C18: Round robin: when the running thread has used up its time slice (its yield bit is
  set) and the ready list of its priority is \<open>t # ts\<close>, with no ready thread of a higher
  priority, \<open>rt_schedule\<close> switches to \<open>t\<close> and appends the preempted thread at the end of that
  list; no other list changes.\<close>

theorem schedule_round_robin:
  assumes "sched_ok {} k" "k_lock_nest k = 0" "k_current k = Some c"
    and "running (stat c k)" "stat c k AND RT_THREAD_STAT_YIELD \<noteq> 0"
    and "k_queue k (Ready (unat (prio c k))) = t # ts"
    and "\<forall>p < unat (prio c k). k_queue k (Ready p) = []"
  shows "\<exists>k'. rt_schedule k = Some k' \<and> k_current k' = Some t \<and>
    k_queue k' (Ready (unat (prio c k))) = ts @ [c] \<and>
    (\<forall>p. p \<noteq> Ready (unat (prio c k)) \<longrightarrow> k_queue k' p = k_queue k p)"
  by (rule yield_switch [OF assms])

theorem schedule_round_robin_witness:
  "\<exists>k'. rt_schedule (sample_kernel 11) = Some k' \<and> k_current k' = Some 1 \<and>
    k_queue k' (Ready 5) = [2, 0] \<and> (\<forall>p. p \<noteq> Ready 5 \<longrightarrow> k_queue k' p = k_queue (sample_kernel 11) p)"
proof -
  have u: "unat (prio 0 (sample_kernel 11)) = 5"
    by (simp add: sample_kernel_def sample_thread_def)
  show ?thesis
    using schedule_round_robin [of "sample_kernel 11" 0 1 "[2]", unfolded u]
    by (simp add: sample_ok) (simp add: sample_kernel_def sample_thread_def kernel0_def)
qed

text \<open>The scheduler lock: while it is held \<open>rt_schedule\<close> changes nothing, an inner
  enter/exit pair has no effect, and the outermost \<open>rt_exit_critical\<close> performs the
  rescheduling that was held back. The nesting counter is 16 bits wide and read as a signed
  number, so this holds up to 32766 levels.\<close>

theorem critical_section:
  assumes "k_lock_nest k < 0x7fff" "k_current k = Some c"
  shows "rt_schedule (rt_enter_critical k) = Some (rt_enter_critical k) \<and>
    rt_exit_critical (rt_enter_critical k) = (if k_lock_nest k = 0 then rt_schedule k else Some k)"
proof -
  let ?n = "k_lock_nest k"
  have "?n \<noteq> - 1" using assms(1) by auto
  then have "?n + 1 \<noteq> 0" by (metis add.commute eq_neg_iff_add_eq_0)
  then have "rt_schedule (rt_enter_critical k) = Some (rt_enter_critical k)"
    by (simp add: rt_schedule_noop rt_enter_critical_def)
  moreover have "sint ?n \<le> 0 \<longleftrightarrow> ?n = 0"
  proof -
    have "uint ?n < 2 ^ 15" using assms(1) by (simp add: word_less_alt)
    moreover have "- (2 ^ 15) \<le> uint ?n" by (rule order_trans [OF _ uint_ge_0]) simp
    ultimately have "sint ?n = uint ?n" by (simp add: sint_uint signed_take_bit_int_eq_self_iff)
    then show ?thesis by (simp add: uint_0_iff)
  qed
  moreover have "rt_schedule (k\<lparr>k_lock_nest := 0\<rparr>) = rt_schedule k" if "?n = 0"
    using that by (metis (no_types) kernel.surjective kernel.update_convs(7))
  ultimately show ?thesis
    using assms(2) by (auto simp: rt_exit_critical_def rt_enter_critical_def Let_def)
qed

theorem critical_section_witness:
  "rt_schedule (rt_enter_critical (sample_kernel 11)) = Some (rt_enter_critical (sample_kernel 11)) \<and>
   rt_exit_critical (rt_enter_critical (sample_kernel 11)) = rt_schedule (sample_kernel 11)"
  using critical_section [of "sample_kernel 11" 0] by (simp add: sample_kernel_def kernel0_def)

end
