(* ===== verification/Object.thy ===== *)
theory Object
  imports Scheduler
begin

text \<open>
  \<^verbatim>\<open>src/object.c\<close>: the registry of kernel objects. Every object has a header (name, type
  with the static bit, flag) and is linked on the list of its class. Memory for a dynamic
  object comes from \<^verbatim>\<open>rt_malloc\<close>: the argument \<open>mem\<close> is what that call returned.
\<close>

section \<open>The operations\<close>

abbreviation RT_NAME_MAX :: nat where "RT_NAME_MAX \<equiv> 20"

definition rt_object_container :: "u8 list" where
  "rt_object_container = [RT_Object_Class_Thread, RT_Object_Class_Semaphore, RT_Object_Class_Mutex,
     RT_Object_Class_Event, RT_Object_Class_MailBox, RT_Object_Class_MessageQueue, 0x08, 0x09,
     RT_Object_Class_Timer, 0x0c, 0x0d]"

definition rt_object_get_information :: "u8 \<Rightarrow> u8 option" where
  "rt_object_get_information type = List.find (\<lambda>t. t = type) rt_object_container"

definition rt_object_get_length :: "u8 \<Rightarrow> kernel \<Rightarrow> nat" where
  "rt_object_get_length type k =
    (case rt_object_get_information type of None \<Rightarrow> 0 | Some c \<Rightarrow> length (k_object_list k c))"

fun copy_pointers :: "objref list \<Rightarrow> nat \<Rightarrow> int \<Rightarrow> objref list" where
  "copy_pointers [] index maxlen = []"
| "copy_pointers (x # xs) index maxlen =
     x # (if int (index + 1) \<ge> maxlen then [] else copy_pointers xs (index + 1) maxlen)"

definition rt_object_get_pointers :: "u8 \<Rightarrow> int \<Rightarrow> kernel \<Rightarrow> objref list" where
  "rt_object_get_pointers type maxlen k =
    (if maxlen \<le> 0 then []
     else case rt_object_get_information type of
       None \<Rightarrow> []
     | Some c \<Rightarrow> copy_pointers (k_object_list k c) 0 maxlen)"

definition rt_object_init :: "objref \<Rightarrow> u8 \<Rightarrow> string \<Rightarrow> kernel \<Rightarrow> kernel option" where
  "rt_object_init object type name k = do {
    information \<leftarrow> rt_object_get_information type;
    let k = rt_enter_critical k;
    RT_ASSERT (object \<notin> set (k_object_list k information));
    k \<leftarrow> rt_exit_critical k;
    let k = upd_obj object (\<lambda>ob. ob\<lparr>obj_type := type OR RT_Object_Class_Static,
                                    obj_name := take RT_NAME_MAX name\<rparr>) k;
    Some (k\<lparr>k_object_list := q_push_front information object (k_object_list k)\<rparr>)
  }"

definition rt_object_detach :: "objref \<Rightarrow> kernel \<Rightarrow> kernel" where
  "rt_object_detach object k =
    (let k = upd_obj object (obj_type_update (\<lambda>_. 0)) k
     in k\<lparr>k_object_list := q_unlink object (k_object_list k)\<rparr>)"

definition RT_DEBUG_NOT_IN_INTERRUPT :: "kernel \<Rightarrow> unit option" where
  "RT_DEBUG_NOT_IN_INTERRUPT k = RT_ASSERT (k_interrupt_nest k = 0)"

definition RT_DEBUG_IN_THREAD_CONTEXT :: "kernel \<Rightarrow> unit option" where
  "RT_DEBUG_IN_THREAD_CONTEXT k = RT_ASSERT (k_current k \<noteq> None \<and> k_interrupt_nest k = 0)"

definition rt_object_allocate ::
    "u8 \<Rightarrow> string \<Rightarrow> objref option \<Rightarrow> kernel \<Rightarrow> (objref option \<times> kernel) option" where
  "rt_object_allocate type name mem k = do {
    RT_DEBUG_NOT_IN_INTERRUPT k;
    information \<leftarrow> rt_object_get_information type;
    case mem of
      None \<Rightarrow> Some (None, k)
    | Some object \<Rightarrow>
        let k = upd_obj object (\<lambda>_. \<lparr>obj_name = take RT_NAME_MAX name, obj_type = type, obj_flag = 0\<rparr>) k
        in Some (Some object, k\<lparr>k_object_list := q_push_front information object (k_object_list k)\<rparr>)
  }"

definition rt_object_is_systemobject :: "objref \<Rightarrow> kernel \<Rightarrow> bool" where
  "rt_object_is_systemobject object k \<longleftrightarrow> obj_type (k_obj k object) AND RT_Object_Class_Static \<noteq> 0"

definition rt_object_get_type :: "objref \<Rightarrow> kernel \<Rightarrow> u8" where
  "rt_object_get_type object k = obj_type (k_obj k object) AND NOT RT_Object_Class_Static"

definition rt_object_delete :: "objref \<Rightarrow> kernel \<Rightarrow> kernel option" where
  "rt_object_delete object k = do {
    RT_ASSERT (obj_type (k_obj k object) AND RT_Object_Class_Static = 0);
    let k = upd_obj object (obj_type_update (\<lambda>_. 0)) k;
    Some (k\<lparr>k_object_list := q_unlink object (k_object_list k)\<rparr>)
  }"

text \<open>\<open>rt_strncmp (a, b, RT_NAME_MAX) == 0\<close> on NUL-terminated strings.\<close>

definition same_name :: "string \<Rightarrow> string \<Rightarrow> bool" where
  "same_name a b \<longleftrightarrow> take RT_NAME_MAX a = take RT_NAME_MAX b"

definition rt_object_find :: "string \<Rightarrow> u8 \<Rightarrow> kernel \<Rightarrow> (objref option \<times> kernel) option" where
  "rt_object_find name type k =
    (case rt_object_get_information type of
       None \<Rightarrow> Some (None, k)
     | Some information \<Rightarrow> do {
         RT_DEBUG_NOT_IN_INTERRUPT k;
         let k = rt_enter_critical k;
         let found = List.find (\<lambda>object. same_name (obj_name (k_obj k object)) name)
                       (k_object_list k information);
         k \<leftarrow> rt_exit_critical k;
         Some (found, k)
       })"

lemmas object_defs = rt_object_detach_def rt_object_is_systemobject_def rt_object_get_type_def

section \<open>Frame\<close>

lemma detach_queue [simp]:
  "k_queue (rt_object_detach r k) = k_queue k" "k_thread (rt_object_detach r k) = k_thread k"
  "k_current (rt_object_detach r k) = k_current k" "k_ready_group (rt_object_detach r k) = k_ready_group k"
  by (simp_all add: object_defs k_upd_defs Let_def)

end
