(* ===== verification/Timer.thy ===== *)
theory Timer
  imports Object "HOL-Library.Sublist"
begin

text \<open>
  \<^verbatim>\<open>src/timer.c\<close>, the part that does not call back into the thread layer: initialisation,
  removal, stop, control, and the insertion into the sorted timer list with modular tick
  comparison. \<^verbatim>\<open>RT_TIMER_SKIP_LIST_LEVEL\<close> is 1, so a timer has one list node. The list
  local to \<^verbatim>\<open>rt_timer_check\<close> (and to \<^verbatim>\<open>rt_soft_timer_check\<close>), on which the timer that
  fires is parked, is the field \<open>k_firing\<close> (\<open>k_soft_firing\<close>) of the state.
\<close>

section \<open>The operations\<close>

abbreviation RT_TIMER_FLAG_ACTIVATED :: u8 where "RT_TIMER_FLAG_ACTIVATED \<equiv> 0x1"
abbreviation RT_TIMER_FLAG_PERIODIC :: u8 where "RT_TIMER_FLAG_PERIODIC \<equiv> 0x2"
abbreviation RT_TIMER_FLAG_SOFT_TIMER :: u8 where "RT_TIMER_FLAG_SOFT_TIMER \<equiv> 0x4"

abbreviation timer_flag :: "timer_ref \<Rightarrow> kernel \<Rightarrow> u8" where
  "timer_flag m k \<equiv> obj_flag (k_obj k (O_timer m))"

text \<open>\<open>flag &= ~RT_TIMER_FLAG_ACTIVATED\<close> and \<open>flag |= RT_TIMER_FLAG_ACTIVATED\<close>\<close>

definition flag_deactivate :: "u8 \<Rightarrow> u8" where
  "flag_deactivate f = f AND NOT RT_TIMER_FLAG_ACTIVATED"

definition flag_activate :: "u8 \<Rightarrow> u8" where
  "flag_activate f = f OR RT_TIMER_FLAG_ACTIVATED"

lemma timer_flag_simps [simp]:
  "flag_deactivate f AND RT_TIMER_FLAG_ACTIVATED = 0" "flag_activate f AND RT_TIMER_FLAG_ACTIVATED = 1"
  "flag_deactivate f AND RT_TIMER_FLAG_PERIODIC = f AND RT_TIMER_FLAG_PERIODIC"
  "flag_activate f AND RT_TIMER_FLAG_PERIODIC = f AND RT_TIMER_FLAG_PERIODIC"
  "flag_deactivate f AND RT_TIMER_FLAG_SOFT_TIMER = f AND RT_TIMER_FLAG_SOFT_TIMER"
  "flag_activate f AND RT_TIMER_FLAG_SOFT_TIMER = f AND RT_TIMER_FLAG_SOFT_TIMER"
  by (simp_all add: flag_deactivate_def flag_activate_def and.assoc bit.conj_disj_distrib2)

definition clear_activated :: "timer_ref \<Rightarrow> kernel \<Rightarrow> kernel" where
  "clear_activated m k = upd_obj (O_timer m) (obj_flag_update flag_deactivate) k"

definition set_activated :: "timer_ref \<Rightarrow> kernel \<Rightarrow> kernel" where
  "set_activated m k = upd_obj (O_timer m) (obj_flag_update flag_activate) k"

definition timer_remove :: "timer_ref \<Rightarrow> kernel \<Rightarrow> kernel" where
  "timer_remove m k =
    k\<lparr>k_timer_list := removeAll m (k_timer_list k), k_soft_timer_list := removeAll m (k_soft_timer_list k),
      k_firing := removeAll m (k_firing k), k_soft_firing := removeAll m (k_soft_firing k)\<rparr>"

definition timer_init :: "timer_ref \<Rightarrow> timeout_fn \<Rightarrow> nat \<Rightarrow> u32 \<Rightarrow> u8 \<Rightarrow> kernel \<Rightarrow> kernel" where
  "timer_init m timeout param time flag k =
    (let k = upd_obj (O_timer m) (obj_flag_update (\<lambda>_. flag)) k;
         k = clear_activated m k
     in upd_timer m (\<lambda>_. \<lparr>timeout_func = timeout, parameter = param,
                              init_tick = time, timeout_tick = 0\<rparr>) k)"

definition rt_timer_init ::
    "timer_ref \<Rightarrow> string \<Rightarrow> timeout_fn \<Rightarrow> nat \<Rightarrow> u32 \<Rightarrow> u8 \<Rightarrow> kernel \<Rightarrow> kernel option" where
  "rt_timer_init m name timeout param time flag k = do {
    k \<leftarrow> rt_object_init (O_timer m) RT_Object_Class_Timer name k;
    Some (timer_init m timeout param time flag k)
  }"

definition rt_timer_list_next_timeout :: "timer_ref list \<Rightarrow> kernel \<Rightarrow> u32" where
  "rt_timer_list_next_timeout timer_list k =
    (case timer_list of [] \<Rightarrow> RT_TICK_MAX | m # _ \<Rightarrow> timeout_tick (k_timer k m))"

definition rt_timer_next_timeout_tick :: "kernel \<Rightarrow> u32" where
  "rt_timer_next_timeout_tick k = rt_timer_list_next_timeout (k_timer_list k) k"

definition is_timer :: "timer_ref \<Rightarrow> kernel \<Rightarrow> bool" where
  "is_timer m k \<longleftrightarrow> rt_object_get_type (O_timer m) k = RT_Object_Class_Timer"

definition rt_timer_detach :: "timer_ref \<Rightarrow> kernel \<Rightarrow> (rt_err_t \<times> kernel) option" where
  "rt_timer_detach m k = do {
    RT_ASSERT (is_timer m k);
    RT_ASSERT (rt_object_is_systemobject (O_timer m) k);
    let k = clear_activated m (timer_remove m k);
    Some (RT_EOK, rt_object_detach (O_timer m) k)
  }"

definition rt_timer_create ::
    "string \<Rightarrow> timeout_fn \<Rightarrow> nat \<Rightarrow> u32 \<Rightarrow> u8 \<Rightarrow> timer_ref option \<Rightarrow> kernel \<Rightarrow> (timer_ref option \<times> kernel) option" where
  "rt_timer_create name timeout param time flag mem k = do {
    (object, k) \<leftarrow> rt_object_allocate RT_Object_Class_Timer name (map_option O_timer mem) k;
    case object of
      Some (O_timer m) \<Rightarrow> Some (Some m, timer_init m timeout param time flag k)
    | _ \<Rightarrow> Some (None, k)
  }"

definition rt_timer_delete :: "timer_ref \<Rightarrow> kernel \<Rightarrow> (rt_err_t \<times> kernel) option" where
  "rt_timer_delete m k = do {
    RT_ASSERT (is_timer m k);
    RT_ASSERT (\<not> rt_object_is_systemobject (O_timer m) k);
    let k = clear_activated m (timer_remove m k);
    k \<leftarrow> rt_object_delete (O_timer m) k;
    Some (RT_EOK, k)
  }"

definition rt_timer_stop :: "timer_ref \<Rightarrow> kernel \<Rightarrow> (rt_err_t \<times> kernel) option" where
  "rt_timer_stop m k = do {
    RT_ASSERT (is_timer m k);
    if timer_flag m k AND RT_TIMER_FLAG_ACTIVATED = 0
    then Some (- RT_ERROR, k)
    else Some (RT_EOK, clear_activated m (timer_remove m k))
  }"

text \<open>The commands of \<open>rt_timer_control\<close>, with what the pointer argument carries in or out.\<close>

datatype timer_cmd =
    RT_TIMER_CTRL_SET_TIME u32 | RT_TIMER_CTRL_GET_TIME | RT_TIMER_CTRL_SET_ONESHOT
  | RT_TIMER_CTRL_SET_PERIODIC | RT_TIMER_CTRL_GET_STATE | RT_TIMER_CTRL_GET_FUNC
  | RT_TIMER_CTRL_SET_FUNC timeout_fn | RT_TIMER_CTRL_GET_PARM | RT_TIMER_CTRL_SET_PARM nat
  | RT_TIMER_CTRL_OTHER

datatype timer_out = No_out | Tick_out u32 | Func_out timeout_fn | Parm_out nat

definition rt_timer_control :: "timer_ref \<Rightarrow> timer_cmd \<Rightarrow> kernel \<Rightarrow> (timer_out \<times> kernel) option" where
  "rt_timer_control m cmd k = do {
    RT_ASSERT (is_timer m k);
    Some (case cmd of
      RT_TIMER_CTRL_GET_TIME \<Rightarrow> (Tick_out (init_tick (k_timer k m)), k)
    | RT_TIMER_CTRL_SET_TIME time \<Rightarrow> (No_out, upd_timer m (init_tick_update (\<lambda>_. time)) k)
    | RT_TIMER_CTRL_SET_ONESHOT \<Rightarrow>
        (No_out, upd_obj (O_timer m) (obj_flag_update (\<lambda>f. f AND NOT RT_TIMER_FLAG_PERIODIC)) k)
    | RT_TIMER_CTRL_SET_PERIODIC \<Rightarrow>
        (No_out, upd_obj (O_timer m) (obj_flag_update (\<lambda>f. f OR RT_TIMER_FLAG_PERIODIC)) k)
    | RT_TIMER_CTRL_GET_STATE \<Rightarrow>
        (Tick_out (if timer_flag m k AND RT_TIMER_FLAG_ACTIVATED \<noteq> 0 then 1 else 0), k)
    | RT_TIMER_CTRL_GET_FUNC \<Rightarrow> (Func_out (timeout_func (k_timer k m)), k)
    | RT_TIMER_CTRL_SET_FUNC f \<Rightarrow> (No_out, upd_timer m (timeout_func_update (\<lambda>_. f)) k)
    | RT_TIMER_CTRL_GET_PARM \<Rightarrow> (Parm_out (parameter (k_timer k m)), k)
    | RT_TIMER_CTRL_SET_PARM p \<Rightarrow> (No_out, upd_timer m (parameter_update (\<lambda>_. p)) k)
    | RT_TIMER_CTRL_OTHER \<Rightarrow> (No_out, k))
  }"

text \<open>
  The search loop of \<open>rt_timer_start\<close>: walk past the timers that expire at the same tick or
  earlier and link the new timer before the first one that expires later.
\<close>

fun timer_list_insert :: "(timer_ref \<Rightarrow> u32) \<Rightarrow> timer_ref \<Rightarrow> timer_ref list \<Rightarrow> timer_ref list" where
  "timer_list_insert tk m [] = [m]"
| "timer_list_insert tk m (t # ts) =
    (if tk t - tk m = 0 then t # timer_list_insert tk m ts
     else if tk t - tk m < RT_TICK_HALF then m # t # ts
     else t # timer_list_insert tk m ts)"

lemmas timer_defs = clear_activated_def set_activated_def timer_remove_def is_timer_def
  rt_timer_stop_def

section \<open>The order of the timer list\<close>

text \<open>How far a tick lies after a base tick, modulo the wrap-around of the counter.\<close>

definition ticks_after :: "u32 \<Rightarrow> u32 \<Rightarrow> nat" where
  "ticks_after base x = unat (x - base)"

text \<open>The timers of a list are in the order of their expiry and none is more than \<open>n\<close> ticks
  after the base.\<close>

definition tick_sorted :: "nat \<Rightarrow> u32 \<Rightarrow> (timer_ref \<Rightarrow> u32) \<Rightarrow> timer_ref list \<Rightarrow> bool" where
  "tick_sorted n base tk ts \<longleftrightarrow> sorted (map (\<lambda>m. ticks_after base (tk m)) ts) \<and>
     (\<forall>m \<in> set ts. ticks_after base (tk m) \<le> n)"

abbreviation half :: nat where "half \<equiv> unat RT_TICK_HALF"

lemma half_eq: "half = 2147483647"
  by simp

lemma tick_diff_cases:
  assumes "ticks_after base x < half + ticks_after base y" "ticks_after base y \<le> half + ticks_after base x"
  shows "x - y = 0 \<longleftrightarrow> ticks_after base x = ticks_after base y"
    and "x - y < RT_TICK_HALF \<longleftrightarrow> ticks_after base y \<le> ticks_after base x"
proof -
  define a b where "a = x - base" and "b = y - base"
  have d: "x - y = a - b" by (simp add: a_def b_def)
  have ab: "unat a < 2147483647 + unat b" "unat b \<le> 2147483647 + unat a"
    using assms by (simp_all add: ticks_after_def a_def b_def)
  show "x - y = 0 \<longleftrightarrow> ticks_after base x = ticks_after base y"
    unfolding d ticks_after_def a_def [symmetric] b_def [symmetric]
    using word_unat_eq_iff [of a b] by simp
  show "x - y < RT_TICK_HALF \<longleftrightarrow> ticks_after base y \<le> ticks_after base x"
    unfolding d ticks_after_def a_def [symmetric] b_def [symmetric]
    using ab by (auto simp: word_less_nat_alt unat_sub_if')
qed

lemma set_timer_list_insert [simp]: "set (timer_list_insert tk m ts) = insert m (set ts)"
  by (induction ts) auto

lemma distinct_timer_list_insert [simp]:
  "distinct (timer_list_insert tk m ts) \<longleftrightarrow> m \<notin> set ts \<and> distinct ts"
  by (induction ts) auto

lemma timer_list_insert_cong:
  "(\<And>x. x \<in> insert m (set ts) \<Longrightarrow> tk x = tk' x) \<Longrightarrow> timer_list_insert tk m ts = timer_list_insert tk' m ts"
  by (induction ts) auto

lemma tick_sorted_cong:
  "(\<And>x. x \<in> set ts \<Longrightarrow> tk x = tk' x) \<Longrightarrow> tick_sorted n base tk ts \<longleftrightarrow> tick_sorted n base tk' ts"
  by (auto simp: tick_sorted_def cong: map_cong)

text \<open>The position the search loop finds is the one behind the timers that expire no later.\<close>

lemma timer_list_insert_eq:
  assumes "tick_sorted n base tk ts" "ticks_after base (tk m) \<le> n"
    and "n \<le> half" "n < half + ticks_after base (tk m)"
  shows "timer_list_insert tk m ts =
    filter (\<lambda>t. ticks_after base (tk t) \<le> ticks_after base (tk m)) ts @ m #
    filter (\<lambda>t. ticks_after base (tk m) < ticks_after base (tk t)) ts"
  using assms(1)
proof (induction ts)
  case (Cons t ts)
  then have IH: "timer_list_insert tk m ts =
      filter (\<lambda>t. ticks_after base (tk t) \<le> ticks_after base (tk m)) ts @ m #
      filter (\<lambda>t. ticks_after base (tk m) < ticks_after base (tk t)) ts"
    and t: "ticks_after base (tk t) \<le> n" "\<forall>x \<in> set ts. ticks_after base (tk t) \<le> ticks_after base (tk x)"
    by (auto simp: tick_sorted_def)
  then have d: "ticks_after base (tk t) < half + ticks_after base (tk m)"
      "ticks_after base (tk m) \<le> half + ticks_after base (tk t)"
    using assms(2-4) by linarith+
  show ?case
  proof (cases "ticks_after base (tk m) < ticks_after base (tk t)")
    case True
    with t(2) have "filter (\<lambda>t. ticks_after base (tk t) \<le> ticks_after base (tk m)) ts = []"
      "filter (\<lambda>t. ticks_after base (tk m) < ticks_after base (tk t)) ts = ts"
      by (auto simp: filter_empty_conv filter_id_conv)
    with True tick_diff_cases [OF d] show ?thesis by auto
  next
    case False
    with tick_diff_cases [OF d] IH show ?thesis by auto
  qed
qed simp

lemma timer_list_insert_sorted:
  assumes "tick_sorted n base tk ts" "ticks_after base (tk m) \<le> n"
    and "n \<le> half" "n < half + ticks_after base (tk m)"
  shows "tick_sorted n base tk (timer_list_insert tk m ts)"
  using assms(1,2) sorted_filter unfolding timer_list_insert_eq [OF assms]
  by (auto simp: tick_sorted_def sorted_append)

lemma subseq_set: "subseq us ts \<Longrightarrow> set us \<subseteq> set ts"
  by (induction rule: list_emb.induct) auto

lemma sorted_subseq: "subseq us ts \<Longrightarrow> sorted ts \<Longrightarrow> sorted us"
  by (induction rule: list_emb.induct) (auto dest: subseq_set)

lemma distinct_subseq: "subseq us ts \<Longrightarrow> distinct ts \<Longrightarrow> distinct us"
  by (induction rule: list_emb.induct) (auto dest: subseq_set)

lemma tick_sorted_subseq:
  assumes "tick_sorted n base tk ts" "subseq us ts"
  shows "tick_sorted n base tk us"
  using assms sorted_subseq [OF subseq_map [OF assms(2)]] subseq_set [OF assms(2)]
  by (auto simp: tick_sorted_def)

lemma subseq_removeAll [simp, intro]: "subseq (removeAll m ts) ts"
  by (simp add: removeAll_filter_not_eq)

end
