(* ===== verification/Thread.thy ===== *)
theory Thread
  imports Timer
begin

text \<open>
  \<^verbatim>\<open>src/thread.c\<close> (suspend, resume, timeout, priority change, startup, detach, delete,
  exit, yield), the dead-thread list of \<^verbatim>\<open>src/idle.c\<close>, and the signal test
  \<^verbatim>\<open>lwp_suspend_sigcheck\<close> of \<^verbatim>\<open>components/lwp/lwp_signal.c\<close> that a suspension consults.
  The calls that arm the thread timer are in \<open>Clock\<close>.
\<close>

section \<open>Pending signals\<close>

definition lwp_sigisemptyset :: "u64 \<Rightarrow> bool" where
  "lwp_sigisemptyset sset = (sset = 0)"

definition lwp_sigismember :: "u64 \<Rightarrow> nat \<Rightarrow> bool" where
  "lwp_sigismember sset sig \<longleftrightarrow> 1 AND drop_bit (sig - 1) sset \<noteq> (0::u64)"

abbreviation SIGKILL :: nat where "SIGKILL \<equiv> 9"

definition lwp_suspend_sigcheck :: "tid \<Rightarrow> suspend_flag \<Rightarrow> kernel \<Rightarrow> bool" where
  "lwp_suspend_sigcheck t suspend_flag k =
    (let thread = k_thread k t in
     case suspend_flag of
       RT_INTERRUPTIBLE \<Rightarrow>
         lwp_sigisemptyset (th_signal thread) \<and>
         (case th_lwp thread of None \<Rightarrow> True | Some lwp \<Rightarrow> lwp_sigisemptyset (k_lwp_signal k lwp))
     | RT_KILLABLE \<Rightarrow>
         \<not> lwp_sigismember (th_signal thread) SIGKILL \<and>
         (case th_lwp thread of None \<Rightarrow> True | Some lwp \<Rightarrow> \<not> lwp_sigismember (k_lwp_signal k lwp) SIGKILL)
     | RT_UNINTERRUPTIBLE \<Rightarrow> True)"

section \<open>The operations\<close>

definition is_thread :: "tid \<Rightarrow> kernel \<Rightarrow> bool" where
  "is_thread t k \<longleftrightarrow> rt_object_get_type (O_thread t) k = RT_Object_Class_Thread"

definition rt_thread_self :: "kernel \<Rightarrow> tid option" where
  "rt_thread_self k = k_current k"

definition rt_thread_set_suspend_state :: "tid \<Rightarrow> suspend_flag \<Rightarrow> kernel \<Rightarrow> kernel" where
  "rt_thread_set_suspend_state t suspend_flag k =
    (let s = (case suspend_flag of
                RT_INTERRUPTIBLE \<Rightarrow> RT_THREAD_SUSPEND_INTERRUPTIBLE
              | RT_KILLABLE \<Rightarrow> RT_THREAD_SUSPEND_KILLABLE
              | RT_UNINTERRUPTIBLE \<Rightarrow> RT_THREAD_SUSPEND_UNINTERRUPTIBLE)
     in set_stat t (with_stat s (stat t k)) k)"

definition rt_thread_suspend_with_flag :: "tid \<Rightarrow> suspend_flag \<Rightarrow> kernel \<Rightarrow> (rt_err_t \<times> kernel) option" where
  "rt_thread_suspend_with_flag t suspend_flag k = do {
    RT_ASSERT (is_thread t k);
    let s = stat t k AND RT_THREAD_STAT_MASK;
    if s \<noteq> RT_THREAD_READY \<and> s \<noteq> RT_THREAD_RUNNING then Some (- RT_ERROR, k)
    else do {
      RT_ASSERT (s = RT_THREAD_RUNNING \<longrightarrow> rt_thread_self k = Some t);
      if \<not> lwp_suspend_sigcheck t suspend_flag k then Some (- RT_EINTR, k)
      else do {
        let k = rt_schedule_remove_thread t k;
        let k = rt_thread_set_suspend_state t suspend_flag k;
        (_, k) \<leftarrow> rt_timer_stop (T_thread t) k;
        Some (RT_EOK, k)
      }
    }
  }"

definition rt_thread_suspend :: "tid \<Rightarrow> kernel \<Rightarrow> (rt_err_t \<times> kernel) option" where
  "rt_thread_suspend t k = rt_thread_suspend_with_flag t RT_UNINTERRUPTIBLE k"

definition rt_thread_resume :: "tid \<Rightarrow> kernel \<Rightarrow> (rt_err_t \<times> kernel) option" where
  "rt_thread_resume t k = do {
    RT_ASSERT (is_thread t k);
    if stat t k AND RT_THREAD_SUSPEND_MASK \<noteq> RT_THREAD_SUSPEND_MASK then Some (- RT_ERROR, k)
    else do {
      let k = tlist_remove t k;
      (_, k) \<leftarrow> rt_timer_stop (T_thread t) k;
      let k = upd_thread t (th_wakeup_func_update (\<lambda>_. None)) k;
      Some (RT_EOK, rt_schedule_insert_thread t k)
    }
  }"

text \<open>A wakeup function is code of another component: \<open>call\<close> runs the one with the given name.\<close>

definition rt_thread_wakeup ::
    "(nat \<Rightarrow> tid \<Rightarrow> kernel \<Rightarrow> (rt_err_t \<times> kernel) option) \<Rightarrow> tid \<Rightarrow> kernel \<Rightarrow> (rt_err_t \<times> kernel) option" where
  "rt_thread_wakeup call t k = do {
    RT_ASSERT (is_thread t k);
    case th_wakeup_func (k_thread k t) of
      Some f \<Rightarrow> do {
        (ret, k) \<leftarrow> call f t k;
        Some (ret, upd_thread t (th_wakeup_func_update (\<lambda>_. None)) k)
      }
    | None \<Rightarrow> rt_thread_resume t k
  }"

definition rt_thread_wakeup_set :: "tid \<Rightarrow> nat option \<Rightarrow> kernel \<Rightarrow> kernel option" where
  "rt_thread_wakeup_set t func k = do {
    RT_ASSERT (is_thread t k);
    Some (upd_thread t (th_wakeup_func_update (\<lambda>_. func)) k)
  }"

definition rt_thread_timeout :: "tid \<Rightarrow> kernel \<Rightarrow> kernel option" where
  "rt_thread_timeout t k = do {
    RT_ASSERT (stat t k AND RT_THREAD_SUSPEND_MASK = RT_THREAD_SUSPEND_MASK);
    RT_ASSERT (is_thread t k);
    let k = set_error t (- RT_ETIMEOUT) k;
    let k = tlist_remove t k;
    let k = rt_schedule_insert_thread t k;
    rt_schedule k
  }"

definition rt_thread_startup :: "tid \<Rightarrow> kernel \<Rightarrow> (rt_err_t \<times> kernel) option" where
  "rt_thread_startup t k = do {
    RT_ASSERT (stat t k AND RT_THREAD_STAT_MASK = RT_THREAD_INIT);
    RT_ASSERT (is_thread t k);
    let k = upd_thread t (\<lambda>th. th\<lparr>th_current_priority := th_init_priority th\<rparr>) k;
    let k = upd_thread t (\<lambda>th. th\<lparr>th_number_mask := push_bit (unat (th_current_priority th)) 1\<rparr>) k;
    let k = set_stat t RT_THREAD_SUSPEND_INTERRUPTIBLE k;
    (_, k) \<leftarrow> rt_thread_resume t k;
    k \<leftarrow> (if rt_thread_self k \<noteq> None then rt_schedule k else Some k);
    Some (RT_EOK, k)
  }"

definition rt_thread_defunct_enqueue :: "tid \<Rightarrow> kernel \<Rightarrow> kernel" where
  "rt_thread_defunct_enqueue t k = tlist_insert_after Defunct t k"

definition rt_thread_defunct_dequeue :: "kernel \<Rightarrow> tid option \<times> kernel" where
  "rt_thread_defunct_dequeue k =
    (case k_queue k Defunct of [] \<Rightarrow> (None, k) | t # _ \<Rightarrow> (Some t, tlist_remove t k))"

definition rt_thread_exit :: "kernel \<Rightarrow> kernel option" where
  "rt_thread_exit k = do {
    t \<leftarrow> rt_thread_self k;
    let k = rt_schedule_remove_thread t k;
    let k = set_stat t RT_THREAD_CLOSE k;
    (_, k) \<leftarrow> rt_timer_detach (T_thread t) k;
    let k = (if rt_object_is_systemobject (O_thread t) k \<and> th_cleanup (k_thread k t) = None
             then rt_object_detach (O_thread t) k
             else rt_thread_defunct_enqueue t k);
    rt_schedule k
  }"

definition rt_thread_detach :: "tid \<Rightarrow> kernel \<Rightarrow> (rt_err_t \<times> kernel) option" where
  "rt_thread_detach t k = do {
    RT_ASSERT (is_thread t k);
    RT_ASSERT (rt_object_is_systemobject (O_thread t) k);
    if stat t k AND RT_THREAD_STAT_MASK = RT_THREAD_CLOSE then Some (RT_EOK, k)
    else do {
      let k = (if stat t k AND RT_THREAD_STAT_MASK \<noteq> RT_THREAD_INIT
               then rt_schedule_remove_thread t k else k);
      (_, k) \<leftarrow> rt_timer_detach (T_thread t) k;
      let k = set_stat t RT_THREAD_CLOSE k;
      let k = (if rt_object_is_systemobject (O_thread t) k \<and> th_cleanup (k_thread k t) = None
               then rt_object_detach (O_thread t) k
               else rt_thread_defunct_enqueue t k);
      Some (RT_EOK, k)
    }
  }"

definition rt_thread_delete :: "tid \<Rightarrow> kernel \<Rightarrow> (rt_err_t \<times> kernel) option" where
  "rt_thread_delete t k = do {
    RT_ASSERT (is_thread t k);
    RT_ASSERT (\<not> rt_object_is_systemobject (O_thread t) k);
    if stat t k AND RT_THREAD_STAT_MASK = RT_THREAD_CLOSE then Some (RT_EOK, k)
    else do {
      let k = (if stat t k AND RT_THREAD_STAT_MASK \<noteq> RT_THREAD_INIT
               then rt_schedule_remove_thread t k else k);
      (_, k) \<leftarrow> rt_timer_detach (T_thread t) k;
      let k = set_stat t RT_THREAD_CLOSE k;
      Some (RT_EOK, rt_thread_defunct_enqueue t k)
    }
  }"

definition rt_thread_yield :: "kernel \<Rightarrow> (rt_err_t \<times> kernel) option" where
  "rt_thread_yield k = do {
    t \<leftarrow> rt_thread_self k;
    let k = upd_thread t (\<lambda>th. th\<lparr>th_remaining_tick := th_init_tick th\<rparr>) k;
    let k = set_stat t (stat t k OR RT_THREAD_STAT_YIELD) k;
    k \<leftarrow> rt_schedule k;
    Some (RT_EOK, k)
  }"

datatype thread_cmd =
    RT_THREAD_CTRL_CHANGE_PRIORITY u8 | RT_THREAD_CTRL_STARTUP | RT_THREAD_CTRL_CLOSE
  | RT_THREAD_CTRL_OTHER

definition set_priority :: "tid \<Rightarrow> u8 \<Rightarrow> kernel \<Rightarrow> kernel" where
  "set_priority t p k = upd_thread t (\<lambda>th. th\<lparr>th_current_priority := p,
     th_number_mask := push_bit (unat p) 1\<rparr>) k"

definition rt_thread_control :: "tid \<Rightarrow> thread_cmd \<Rightarrow> kernel \<Rightarrow> (rt_err_t \<times> kernel) option" where
  "rt_thread_control t cmd k = do {
    RT_ASSERT (is_thread t k);
    case cmd of
      RT_THREAD_CTRL_CHANGE_PRIORITY p \<Rightarrow>
        if stat t k AND RT_THREAD_STAT_MASK = RT_THREAD_READY
        then let k = rt_schedule_remove_thread t k;
                 k = set_priority t p k
             in Some (RT_EOK, rt_schedule_insert_thread t k)
        else Some (RT_EOK, set_priority t p k)
    | RT_THREAD_CTRL_STARTUP \<Rightarrow> rt_thread_startup t k
    | RT_THREAD_CTRL_CLOSE \<Rightarrow>
        if rt_object_is_systemobject (O_thread t) k then rt_thread_detach t k else rt_thread_delete t k
    | RT_THREAD_CTRL_OTHER \<Rightarrow> Some (RT_EOK, k)
  }"

text \<open>
  The body of the idle thread's clean-up loop; \<open>cleanup\<close> runs the thread's clean-up
  function. The loop ends because every round takes a thread off the list of dead threads.
\<close>

partial_function (option) rt_defunct_execute ::
    "(nat \<Rightarrow> tid \<Rightarrow> kernel \<Rightarrow> kernel option) \<Rightarrow> kernel \<Rightarrow> kernel option" where
  "rt_defunct_execute cleanup k = do {
    RT_DEBUG_NOT_IN_INTERRUPT k;
    (case rt_thread_defunct_dequeue k of
       (None, k) \<Rightarrow> Some k
     | (Some t, k) \<Rightarrow> do {
         k \<leftarrow> (case th_cleanup (k_thread k t) of None \<Rightarrow> Some k | Some f \<Rightarrow> cleanup f t k);
         k \<leftarrow> (if rt_object_is_systemobject (O_thread t) k
              then Some (rt_object_detach (O_thread t) k)
              else rt_object_delete (O_thread t) k);
         rt_defunct_execute cleanup k
       })
  }"

end
