(* ===== verification/Clock.thy ===== *)
theory Clock
  imports Thread
begin

text \<open>
  Time: \<^verbatim>\<open>src/clock.c\<close>, \<^verbatim>\<open>src/irq.c\<close>, the part of \<^verbatim>\<open>src/timer.c\<close> that starts timers and
  fires them, and the calls of \<^verbatim>\<open>src/thread.c\<close> that arm the thread timer (initialisation,
  sleep, delay). A timeout function other than \<^verbatim>\<open>rt_thread_timeout\<close> is code of a client:
  the parameter \<open>cb\<close> gives what the function with a given name does.
\<close>

section \<open>Ticks and interrupts\<close>

abbreviation RT_TICK_PER_SECOND :: u32 where "RT_TICK_PER_SECOND \<equiv> 100"

definition rt_tick_get :: "kernel \<Rightarrow> u32" where
  "rt_tick_get k = k_tick k"

definition rt_tick_set :: "u32 \<Rightarrow> kernel \<Rightarrow> kernel" where
  "rt_tick_set tick k = k\<lparr>k_tick := tick\<rparr>"

definition rt_tick_from_millisecond :: "int \<Rightarrow> u32" where
  "rt_tick_from_millisecond ms =
    (if ms < 0 then RT_TICK_MAX
     else let tick = RT_TICK_PER_SECOND * word_of_int (ms div 1000)
          in tick + (RT_TICK_PER_SECOND * word_of_int (ms mod 1000) + 999) div 1000)"

definition rt_interrupt_enter :: "kernel \<Rightarrow> kernel" where
  "rt_interrupt_enter k = k\<lparr>k_interrupt_nest := k_interrupt_nest k + 1\<rparr>"

definition rt_interrupt_leave :: "kernel \<Rightarrow> kernel" where
  "rt_interrupt_leave k = k\<lparr>k_interrupt_nest := k_interrupt_nest k - 1\<rparr>"

definition rt_interrupt_get_nest :: "kernel \<Rightarrow> u8" where
  "rt_interrupt_get_nest k = k_interrupt_nest k"

section \<open>Starting and firing timers\<close>

abbreviation RT_SOFT_TIMER_IDLE :: u8 where "RT_SOFT_TIMER_IDLE \<equiv> 1"
abbreviation RT_SOFT_TIMER_BUSY :: u8 where "RT_SOFT_TIMER_BUSY \<equiv> 0"

text \<open>The static thread objects: the idle thread and the thread of the soft timers.\<close>

abbreviation idle_thread :: tid where "idle_thread \<equiv> 0"
abbreviation timer_thread :: tid where "timer_thread \<equiv> 1"

abbreviation timeout_of :: "kernel \<Rightarrow> timer_ref \<Rightarrow> u32" where
  "timeout_of k m \<equiv> timeout_tick (k_timer k m)"

definition timer_link :: "timer_ref \<Rightarrow> kernel \<Rightarrow> kernel" where
  "timer_link m k =
    (if timer_flag m k AND RT_TIMER_FLAG_SOFT_TIMER \<noteq> 0
     then k\<lparr>k_soft_timer_list := timer_list_insert (timeout_of k) m (k_soft_timer_list k)\<rparr>
     else k\<lparr>k_timer_list := timer_list_insert (timeout_of k) m (k_timer_list k)\<rparr>)"

definition rt_timer_start :: "timer_ref \<Rightarrow> kernel \<Rightarrow> (rt_err_t \<times> kernel) option" where
  "rt_timer_start m k = do {
    RT_ASSERT (is_timer m k);
    let k = clear_activated m (timer_remove m k);
    RT_ASSERT (init_tick (k_timer k m) < RT_TICK_HALF);
    let k = upd_timer m (\<lambda>tm. tm\<lparr>timeout_tick := rt_tick_get k + init_tick tm\<rparr>) k;
    let k = set_activated m (timer_link m k);
    if timer_flag m k AND RT_TIMER_FLAG_SOFT_TIMER \<noteq> 0 \<and>
       k_soft_timer_status k = RT_SOFT_TIMER_IDLE \<and>
       stat timer_thread k AND RT_THREAD_SUSPEND_MASK = RT_THREAD_SUSPEND_MASK
    then do {
      (_, k) \<leftarrow> rt_thread_resume timer_thread k;
      k \<leftarrow> rt_schedule k;
      Some (RT_EOK, k)
    }
    else Some (RT_EOK, k)
  }"

type_synonym callbacks = "nat \<Rightarrow> nat \<Rightarrow> kernel \<Rightarrow> kernel option"

definition run_timeout :: "callbacks \<Rightarrow> timer_ref \<Rightarrow> kernel \<Rightarrow> kernel option" where
  "run_timeout cb m k =
    (case timeout_func (k_timer k m) of
       Rt_thread_timeout \<Rightarrow> rt_thread_timeout (parameter (k_timer k m)) k
     | User_timeout f \<Rightarrow> cb f (parameter (k_timer k m)) k)"

definition timer_expired :: "u32 \<Rightarrow> timer_ref \<Rightarrow> kernel \<Rightarrow> bool" where
  "timer_expired current_tick m k \<longleftrightarrow> current_tick - timeout_of k m < RT_TICK_HALF"

text \<open>The part of the loop body after the timeout function returned.\<close>

definition timer_rearm :: "timer_ref \<Rightarrow> kernel \<Rightarrow> kernel option" where
  "timer_rearm m k =
    (let k = timer_remove m k
     in if timer_flag m k AND RT_TIMER_FLAG_PERIODIC \<noteq> 0 \<and> timer_flag m k AND RT_TIMER_FLAG_ACTIVATED \<noteq> 0
        then map_option snd (rt_timer_start m (clear_activated m k))
        else Some k)"

definition timer_unlink_fired :: "timer_ref \<Rightarrow> kernel \<Rightarrow> kernel" where
  "timer_unlink_fired m k =
    (let k = timer_remove m k
     in if timer_flag m k AND RT_TIMER_FLAG_PERIODIC = 0 then clear_activated m k else k)"

partial_function (option) timer_check_loop :: "callbacks \<Rightarrow> u32 \<Rightarrow> kernel \<Rightarrow> kernel option" where
  "timer_check_loop cb current_tick k =
    (case k_timer_list k of
       [] \<Rightarrow> Some k
     | m # _ \<Rightarrow>
         if timer_expired current_tick m k then do {
           let k = timer_unlink_fired m k;
           let k = k\<lparr>k_firing := m # k_firing k\<rparr>;
           k \<leftarrow> run_timeout cb m k;
           let current_tick = rt_tick_get k;
           if k_firing k = [] then timer_check_loop cb current_tick k
           else do {
             k \<leftarrow> timer_rearm m k;
             timer_check_loop cb current_tick k
           }
         }
         else Some k)"

definition rt_timer_check :: "callbacks \<Rightarrow> kernel \<Rightarrow> kernel option" where
  "rt_timer_check cb k = timer_check_loop cb (rt_tick_get k) (k\<lparr>k_firing := []\<rparr>)"

partial_function (option) soft_timer_check_loop :: "callbacks \<Rightarrow> kernel \<Rightarrow> kernel option" where
  "soft_timer_check_loop cb k =
    (case k_soft_timer_list k of
       [] \<Rightarrow> Some k
     | m # _ \<Rightarrow>
         if timer_expired (rt_tick_get k) m k then do {
           let k = timer_unlink_fired m k;
           let k = k\<lparr>k_soft_firing := m # k_soft_firing k, k_soft_timer_status := RT_SOFT_TIMER_BUSY\<rparr>;
           k \<leftarrow> run_timeout cb m k;
           let k = k\<lparr>k_soft_timer_status := RT_SOFT_TIMER_IDLE\<rparr>;
           if k_soft_firing k = [] then soft_timer_check_loop cb k
           else do {
             k \<leftarrow> timer_rearm m k;
             soft_timer_check_loop cb k
           }
         }
         else Some k)"

definition rt_soft_timer_check :: "callbacks \<Rightarrow> kernel \<Rightarrow> kernel option" where
  "rt_soft_timer_check cb k = soft_timer_check_loop cb (k\<lparr>k_soft_firing := []\<rparr>)"

definition rt_system_timer_init :: "kernel \<Rightarrow> kernel" where
  "rt_system_timer_init k = k\<lparr>k_timer_list := []\<rparr>"

text \<open>The time slice of the running thread, then the timers.\<close>

definition rt_tick_increase :: "callbacks \<Rightarrow> kernel \<Rightarrow> kernel option" where
  "rt_tick_increase cb k = do {
    let k = k\<lparr>k_tick := k_tick k + 1\<rparr>;
    t \<leftarrow> rt_thread_self k;
    let k = upd_thread t (th_remaining_tick_update (\<lambda>r. r - 1)) k;
    k \<leftarrow> (if th_remaining_tick (k_thread k t) = 0
         then let k = upd_thread t (\<lambda>th. th\<lparr>th_remaining_tick := th_init_tick th\<rparr>) k;
                  k = set_stat t (stat t k OR RT_THREAD_STAT_YIELD) k
              in rt_schedule k
         else Some k);
    rt_timer_check cb k
  }"

section \<open>Threads and their timers\<close>

definition thread_init :: "tid \<Rightarrow> string \<Rightarrow> u8 \<Rightarrow> u32 \<Rightarrow> kernel \<Rightarrow> (rt_err_t \<times> kernel) option" where
  "thread_init t name priority tick k = do {
    let k = tlist_remove t k;
    RT_ASSERT (unat priority < RT_THREAD_PRIORITY_MAX);
    let k = upd_thread t (\<lambda>th. th\<lparr>th_wakeup_func := None, th_init_priority := priority,
        th_current_priority := priority, th_number_mask := 0,
        th_init_tick := ucast tick, th_remaining_tick := ucast tick,
        th_error := RT_EOK, th_stat := RT_THREAD_INIT, th_cleanup := None\<rparr>) k;
    k \<leftarrow> rt_timer_init (T_thread t) name Rt_thread_timeout t 0 0 k;
    Some (RT_EOK, upd_thread t (\<lambda>th. th\<lparr>th_lwp := None, th_signal := 0\<rparr>) k)
  }"

definition rt_thread_init :: "tid \<Rightarrow> string \<Rightarrow> u8 \<Rightarrow> u32 \<Rightarrow> kernel \<Rightarrow> (rt_err_t \<times> kernel) option" where
  "rt_thread_init t name priority tick k = do {
    k \<leftarrow> rt_object_init (O_thread t) RT_Object_Class_Thread name k;
    thread_init t name priority tick k
  }"

text \<open>\<open>mem\<close> is the memory block for the object, \<open>stack\<close> whether the stack could be allocated.\<close>

definition rt_thread_create ::
    "string \<Rightarrow> u8 \<Rightarrow> u32 \<Rightarrow> tid option \<Rightarrow> bool \<Rightarrow> kernel \<Rightarrow> (tid option \<times> kernel) option" where
  "rt_thread_create name priority tick mem stack k = do {
    (object, k) \<leftarrow> rt_object_allocate RT_Object_Class_Thread name (map_option O_thread mem) k;
    case object of
      Some (O_thread t) \<Rightarrow>
        if \<not> stack then map_option (\<lambda>k. (None, k)) (rt_object_delete (O_thread t) k)
        else do {
          (_, k) \<leftarrow> thread_init t name priority tick k;
          Some (Some t, k)
        }
    | _ \<Rightarrow> Some (None, k)
  }"

definition rt_system_timer_thread_init :: "kernel \<Rightarrow> (rt_err_t \<times> kernel) option" where
  "rt_system_timer_thread_init k = do {
    let k = k\<lparr>k_soft_timer_list := []\<rparr>;
    (_, k) \<leftarrow> rt_thread_init timer_thread ''timer'' 4 10 k;
    rt_thread_startup timer_thread k
  }"

text \<open>
  A critical section of a call ends with a return value, or at the call of \<open>rt_schedule\<close>, or
  with interrupts enabled in the middle of the call. In the second case the rest of the call is a continuation, run when the
  thread is on the CPU again; in the third the thread goes on with it at once, but interrupts, and with them other threads, may come first.
\<close>

datatype ('r, 'c) outcome = Return 'r | gives_up: Reschedule 'c | Continue 'c

text \<open>\<open>rt_timer_control (&(thread->thread_timer), RT_TIMER_CTRL_SET_TIME, &timeout)\<close> and
  \<open>rt_timer_start (&(thread->thread_timer))\<close>.\<close>

definition arm_thread_timer :: "tid \<Rightarrow> u32 \<Rightarrow> kernel \<Rightarrow> kernel option" where
  "arm_thread_timer t tick k = do {
    (_, k) \<leftarrow> rt_timer_control (T_thread t) (RT_TIMER_CTRL_SET_TIME tick) k;
    (_, k) \<leftarrow> rt_timer_start (T_thread t) k;
    Some k
  }"

definition rt_thread_sleep :: "u32 \<Rightarrow> kernel \<Rightarrow> ((rt_err_t, unit) outcome \<times> kernel) option" where
  "rt_thread_sleep tick k = do {
    t \<leftarrow> rt_thread_self k;
    RT_ASSERT (is_thread t k);
    (_, k) \<leftarrow> rt_thread_suspend_with_flag t RT_INTERRUPTIBLE k;
    k \<leftarrow> arm_thread_timer t tick k;
    Some (Reschedule (), k)
  }"

definition sleep_resume :: "tid \<Rightarrow> kernel \<Rightarrow> rt_err_t \<times> kernel" where
  "sleep_resume t k =
    (RT_EOK, if th_error (k_thread k t) = - RT_ETIMEOUT then set_error t RT_EOK k else k)"

definition rt_thread_delay :: "u32 \<Rightarrow> kernel \<Rightarrow> ((rt_err_t, unit) outcome \<times> kernel) option" where
  "rt_thread_delay tick k = rt_thread_sleep tick k"

definition rt_thread_mdelay :: "int \<Rightarrow> kernel \<Rightarrow> ((rt_err_t, unit) outcome \<times> kernel) option" where
  "rt_thread_mdelay ms k = rt_thread_sleep (rt_tick_from_millisecond ms) k"

text \<open>The result of \<open>rt_thread_delay_until\<close> carries the value left in \<open>*tick\<close>.\<close>

definition rt_thread_delay_until ::
    "u32 \<Rightarrow> u32 \<Rightarrow> kernel \<Rightarrow> ((rt_err_t \<times> u32, unit) outcome \<times> kernel) option" where
  "rt_thread_delay_until tick inc_tick k = do {
    t \<leftarrow> rt_thread_self k;
    RT_ASSERT (is_thread t k);
    if rt_tick_get k - tick < inc_tick
    then do {
      let tick = tick + inc_tick - rt_tick_get k;
      (_, k) \<leftarrow> rt_thread_suspend_with_flag t RT_UNINTERRUPTIBLE k;
      k \<leftarrow> arm_thread_timer t tick k;
      Some (Reschedule (), k)
    }
    else Some (Return (RT_EOK, rt_tick_get k), k)
  }"

definition delay_until_resume :: "tid \<Rightarrow> kernel \<Rightarrow> (rt_err_t \<times> u32) \<times> kernel" where
  "delay_until_resume t k =
    (let k = (if th_error (k_thread k t) = - RT_ETIMEOUT then set_error t RT_EOK k else k)
     in ((RT_EOK, rt_tick_get k), k))"

text \<open>One round of the soft timer thread up to its next rescheduling point.\<close>

definition timer_entry_round :: "kernel \<Rightarrow> ((unit, unit) outcome \<times> kernel) option" where
  "timer_entry_round k =
    (let next_timeout = rt_timer_list_next_timeout (k_soft_timer_list k) k
     in if next_timeout = RT_TICK_MAX
        then do {
          t \<leftarrow> rt_thread_self k;
          (_, k) \<leftarrow> rt_thread_suspend_with_flag t RT_UNINTERRUPTIBLE k;
          Some (Reschedule (), k)
        }
        else if next_timeout - rt_tick_get k < RT_TICK_HALF
        then do {
          (_, k) \<leftarrow> rt_thread_delay (next_timeout - rt_tick_get k) k;
          Some (Reschedule (), k)
        }
        else Some (Return (), k))"

end
