(* ===== verification/Invariant.thy ===== *)
theory Invariant
  imports Clock
begin

text \<open>
  The invariant of the kernel at rest, and that the thread layer keeps it: the scheduler
  invariant, the order and the bounds of the timer list, the thread timers (a running timer
  belongs to a suspended thread, whose timeout handler it runs), and the idle thread, which
  is always able to run. Each lemma is about one call of \<^verbatim>\<open>src/thread.c\<close> or
  \<^verbatim>\<open>src/timer.c\<close>; the IPC theories compose them.
\<close>

section \<open>Timers\<close>

definition activated :: "timer_ref \<Rightarrow> kernel \<Rightarrow> bool" where
  "activated m k \<longleftrightarrow> timer_flag m k AND RT_TIMER_FLAG_ACTIVATED \<noteq> 0"

definition periodic :: "timer_ref \<Rightarrow> kernel \<Rightarrow> bool" where
  "periodic m k \<longleftrightarrow> timer_flag m k AND RT_TIMER_FLAG_PERIODIC \<noteq> 0"

definition soft :: "timer_ref \<Rightarrow> kernel \<Rightarrow> bool" where
  "soft m k \<longleftrightarrow> timer_flag m k AND RT_TIMER_FLAG_SOFT_TIMER \<noteq> 0"

text \<open>The state after \<open>rt_timer_stop\<close>, whatever it returns.\<close>

definition stop_timer :: "timer_ref \<Rightarrow> kernel \<Rightarrow> kernel" where
  "stop_timer m k = (if activated m k then clear_activated m (timer_remove m k) else k)"

lemma rt_timer_stop_eq:
  "is_timer m k \<Longrightarrow>
   rt_timer_stop m k = Some (if activated m k then RT_EOK else - RT_ERROR, stop_timer m k)"
  by (simp add: rt_timer_stop_def stop_timer_def activated_def)

lemma stop_timer_frame [simp, rt_frame]:
  "k_queue (stop_timer m k) = k_queue k" "k_thread (stop_timer m k) = k_thread k"
  "k_ready_group (stop_timer m k) = k_ready_group k" "k_current (stop_timer m k) = k_current k"
  "k_lock_nest (stop_timer m k) = k_lock_nest k" "k_timer (stop_timer m k) = k_timer k"
  "k_tick (stop_timer m k) = k_tick k" "k_interrupt_nest (stop_timer m k) = k_interrupt_nest k"
  "k_sem (stop_timer m k) = k_sem k" "k_mutex (stop_timer m k) = k_mutex k"
  "k_event (stop_timer m k) = k_event k" "k_mb (stop_timer m k) = k_mb k"
  "k_mq (stop_timer m k) = k_mq k" "k_lwp_signal (stop_timer m k) = k_lwp_signal k"
  "obj_type (k_obj (stop_timer m k) r) = obj_type (k_obj k r)"
  "k_object_list (stop_timer m k) = k_object_list k"
  by (simp_all add: stop_timer_def clear_activated_def timer_remove_def upd_obj_def)

lemma stop_timer_flags [simp]:
  "activated m' (stop_timer m k) \<longleftrightarrow> activated m' k \<and> m' \<noteq> m"
  "periodic m' (stop_timer m k) \<longleftrightarrow> periodic m' k" "soft m' (stop_timer m k) \<longleftrightarrow> soft m' k"
  "r \<noteq> O_timer m \<Longrightarrow> k_obj (stop_timer m k) r = k_obj k r"
  by (auto simp: activated_def periodic_def soft_def stop_timer_def clear_activated_def
    timer_remove_def upd_obj_def)

lemma stop_timer_list:
  "(m \<in> set (k_timer_list k) \<Longrightarrow> activated m k) \<Longrightarrow>
   k_timer_list (stop_timer m k) = removeAll m (k_timer_list k)"
  by (cases "m \<in> set (k_timer_list k)")
    (auto simp: stop_timer_def clear_activated_def timer_remove_def upd_obj_def)

section \<open>The invariant\<close>

definition live :: "u8 \<Rightarrow> bool" where
  "live s \<longleftrightarrow> started s \<and> \<not> closed s"

definition thread_timer_ok :: "tid \<Rightarrow> kernel \<Rightarrow> bool" where
  "thread_timer_ok t k \<longleftrightarrow> is_thread t k \<and> is_timer (T_thread t) k \<and>
     timeout_func (k_timer k (T_thread t)) = Rt_thread_timeout \<and> parameter (k_timer k (T_thread t)) = t \<and>
     \<not> periodic (T_thread t) k \<and> \<not> soft (T_thread t) k"

definition timer_ok :: "timer_ref \<Rightarrow> kernel \<Rightarrow> bool" where
  "timer_ok m k \<longleftrightarrow> is_timer m k \<and> activated m k \<and> \<not> soft m k \<and>
     (case m of
        T_thread t \<Rightarrow> suspended (stat t k)
      | T_user n \<Rightarrow> timeout_func (k_timer k m) \<noteq> Rt_thread_timeout \<and>
          (periodic m k \<longrightarrow> 0 < init_tick (k_timer k m) \<and> init_tick (k_timer k m) < RT_TICK_HALF))"

definition cpu_ok :: "kernel \<Rightarrow> bool" where
  "cpu_ok k \<longleftrightarrow> k_current k \<noteq> None \<and> (ready (stat idle_thread k) \<or> running (stat idle_thread k))"

text \<open>\<open>n\<close> and \<open>base\<close> bound the timer list; at rest the base is the current tick.\<close>

definition kernel_inv :: "nat \<Rightarrow> u32 \<Rightarrow> kernel \<Rightarrow> bool" where
  "kernel_inv n base k \<longleftrightarrow> sched_ok {} k \<and> cpu_ok k \<and>
     distinct (k_timer_list k) \<and> tick_sorted n base (timeout_of k) (k_timer_list k) \<and>
     (\<forall>m \<in> set (k_timer_list k). timer_ok m k) \<and>
     (\<forall>t. live (stat t k) \<longrightarrow> thread_timer_ok t k)"

definition kernel_ok :: "kernel \<Rightarrow> bool" where
  "kernel_ok k \<longleftrightarrow> kernel_inv (half - 1) (k_tick k) k"

lemma kernel_invD:
  assumes "kernel_inv n base k"
  shows "sched_ok {} k" "cpu_ok k" "distinct (k_timer_list k)"
    "tick_sorted n base (timeout_of k) (k_timer_list k)"
    "m \<in> set (k_timer_list k) \<Longrightarrow> timer_ok m k" "live (stat t k) \<Longrightarrow> thread_timer_ok t k"
  using assms by (auto simp: kernel_inv_def)

lemma live_simps [simp]:
  "running s \<Longrightarrow> live s" "ready s \<Longrightarrow> live s" "suspended s \<Longrightarrow> live s"
  by (auto simp: live_def dest: closed_exclusive stat_exclusive)

lemma inv_is_timer:
  assumes "kernel_inv n base k" "live (stat t k)"
  shows "is_thread t k" "is_timer (T_thread t) k" "\<not> soft (T_thread t) k" "\<not> periodic (T_thread t) k"
  using kernel_invD(6) [OF assms(1), of t] assms(2) by (auto simp: thread_timer_ok_def)

lemma inv_activated: "kernel_inv n base k \<Longrightarrow> m \<in> set (k_timer_list k) \<Longrightarrow> activated m k"
  by (auto simp: kernel_inv_def timer_ok_def)

text \<open>A step that starts no timer, wakes no thread whose timer runs, and creates no thread.\<close>

definition timers_from :: "kernel \<Rightarrow> kernel \<Rightarrow> bool" where
  "timers_from k k' \<longleftrightarrow> subseq (k_timer_list k') (k_timer_list k) \<and> k_timer k' = k_timer k \<and>
     (\<forall>r. obj_type (k_obj k' r) = obj_type (k_obj k r)) \<and>
     (\<forall>m. soft m k' = soft m k \<and> periodic m k' = periodic m k) \<and>
     (\<forall>m \<in> set (k_timer_list k'). activated m k' = activated m k)"

lemma timers_from_refl [simp]: "timers_from k k"
  by (simp add: timers_from_def)

lemma timers_from_trans: "timers_from k k' \<Longrightarrow> timers_from k' k'' \<Longrightarrow> timers_from k k''"
  unfolding timers_from_def
  by (intro conjI) (auto intro: subseq_order.trans; meson subseq_set subsetD)+

lemma kernel_inv_step:
  assumes inv: "kernel_inv n base k" and fr: "timers_from k k'" and "sched_ok {} k'" "cpu_ok k'"
    and susp: "\<And>t. T_thread t \<in> set (k_timer_list k') \<Longrightarrow> suspended (stat t k')"
    and live: "\<And>t. live (stat t k') \<Longrightarrow> live (stat t k)"
  shows "kernel_inv n base k'"
proof -
  have sub: "subseq (k_timer_list k') (k_timer_list k)" and ty: "\<And>r. obj_type (k_obj k' r) = obj_type (k_obj k r)"
    and tm: "k_timer k' = k_timer k"
    and fl: "\<And>m. soft m k' = soft m k" "\<And>m. periodic m k' = periodic m k"
    and act: "\<And>m. m \<in> set (k_timer_list k') \<Longrightarrow> activated m k' = activated m k"
    using fr by (auto simp: timers_from_def)
  have isx: "is_timer m k' = is_timer m k" "is_thread t k' = is_thread t k" for m t
    by (simp_all add: is_timer_def is_thread_def rt_object_get_type_def ty)
  have "timer_ok m k'" if "m \<in> set (k_timer_list k')" for m
    using kernel_invD(5) [OF inv, of m] subseq_set [OF sub] that susp act [OF that]
    by (cases m) (auto simp: timer_ok_def isx fl tm)
  moreover have "thread_timer_ok t k'" if "live (stat t k')" for t
    using kernel_invD(6) [OF inv live [OF that]] by (simp add: thread_timer_ok_def isx fl tm)
  ultimately show ?thesis
    using assms(3,4) distinct_subseq [OF sub kernel_invD(3) [OF inv]]
      tick_sorted_subseq [OF kernel_invD(4) [OF inv] sub]
    by (simp add: kernel_inv_def tm)
qed

lemma stop_timer_from:
  assumes "kernel_inv n base k" shows "timers_from k (stop_timer m k)"
proof -
  have "k_timer_list (stop_timer m k) = removeAll m (k_timer_list k)"
    using inv_activated [OF assms] by (rule stop_timer_list)
  then show ?thesis by (auto simp: timers_from_def)
qed

section \<open>Suspending\<close>

text \<open>The state after a successful suspension.\<close>

definition suspend_state :: "tid \<Rightarrow> suspend_flag \<Rightarrow> kernel \<Rightarrow> kernel" where
  "suspend_state t f k =
    stop_timer (T_thread t) (rt_thread_set_suspend_state t f (rt_schedule_remove_thread t k))"

lemma remove_thread_obj [simp]:
  "k_obj (rt_schedule_remove_thread t k) = k_obj k" "k_timer (rt_schedule_remove_thread t k) = k_timer k"
  "k_timer_list (rt_schedule_remove_thread t k) = k_timer_list k"
  by (simp_all add: rt_schedule_remove_thread_def tlist_remove_def Let_def)

lemma set_suspend_frame [simp]:
  "k_obj (rt_thread_set_suspend_state t f k) = k_obj k" "k_timer (rt_thread_set_suspend_state t f k) = k_timer k"
  "k_timer_list (rt_thread_set_suspend_state t f k) = k_timer_list k"
  "k_queue (rt_thread_set_suspend_state t f k) = k_queue k"
  "k_current (rt_thread_set_suspend_state t f k) = k_current k"
  "u \<noteq> t \<Longrightarrow> k_thread (rt_thread_set_suspend_state t f k) u = k_thread k u"
  "prio u (rt_thread_set_suspend_state t f k) = prio u k"
  by (simp_all add: rt_thread_set_suspend_state_def k_upd_defs)

lemma set_suspend_stat [simp]:
  "suspended (stat t (rt_thread_set_suspend_state t f k))"
  "\<not> ready (stat t (rt_thread_set_suspend_state t f k))"
  "\<not> running (stat t (rt_thread_set_suspend_state t f k))"
  by (cases f; simp add: rt_thread_set_suspend_state_def k_upd_defs)+

lemma suspend_with_flag_eq:
  assumes inv: "kernel_inv n base k" and "ready (stat t k) \<or> running (stat t k)"
    and "lwp_suspend_sigcheck t f k"
  shows "rt_thread_suspend_with_flag t f k = Some (RT_EOK, suspend_state t f k)"
proof -
  have th: "is_thread t k" "is_timer (T_thread t) k" using inv_is_timer [OF inv, of t] assms(2) by auto
  have cur: "k_current k = Some t" if "running (stat t k)"
    using sched_okD(3) [OF kernel_invD(1) [OF inv], of t] that by (simp add: thread_ok_def)
  let ?k = "rt_thread_set_suspend_state t f (rt_schedule_remove_thread t k)"
  have "is_timer (T_thread t) ?k"
    using th(2) by (simp add: is_timer_def rt_object_get_type_def)
  with th assms(2,3) cur show ?thesis
    by (auto simp: rt_thread_suspend_with_flag_def ready_def running_def rt_thread_self_def
      rt_timer_stop_eq suspend_state_def)
qed

lemma suspend_fails:
  assumes "is_thread t k" "ready (stat t k) \<or> running (stat t k)" "running (stat t k) \<Longrightarrow> k_current k = Some t"
    and "\<not> lwp_suspend_sigcheck t f k"
  shows "rt_thread_suspend_with_flag t f k = Some (- RT_EINTR, k)"
  using assms by (auto simp: rt_thread_suspend_with_flag_def ready_def running_def rt_thread_self_def)

lemma suspend_uninterruptible [simp]: "lwp_suspend_sigcheck t RT_UNINTERRUPTIBLE k"
  by (simp add: lwp_suspend_sigcheck_def)

lemma suspend_state_queue: "k_queue (suspend_state t f k) = (\<lambda>q. removeAll t (k_queue k q))"
  by (simp add: suspend_state_def remove_thread_queue)

lemma suspend_state_frame [simp]:
  "off_queue t (suspend_state t f k)" "k_current (suspend_state t f k) = k_current k"
  "u \<noteq> t \<Longrightarrow> k_thread (suspend_state t f k) u = k_thread k u"
  "prio u (suspend_state t f k) = prio u k"
  "suspended (stat t (suspend_state t f k))"
  "obj_type (k_obj (suspend_state t f k) r) = obj_type (k_obj k r)"
  "r \<noteq> O_timer (T_thread t) \<Longrightarrow> k_obj (suspend_state t f k) r = k_obj k r"
  "k_timer (suspend_state t f k) = k_timer k"
  by (simp_all add: suspend_state_def off_queue_def remove_thread_queue remove_thread_frame)

lemma suspend_state_core [simp]:
  "k_tick (suspend_state t f k) = k_tick k" "k_lock_nest (suspend_state t f k) = k_lock_nest k"
  "k_interrupt_nest (suspend_state t f k) = k_interrupt_nest k"
  "k_sem (suspend_state t f k) = k_sem k" "k_mutex (suspend_state t f k) = k_mutex k"
  "k_event (suspend_state t f k) = k_event k" "k_mb (suspend_state t f k) = k_mb k"
  "k_mq (suspend_state t f k) = k_mq k" "th_error (k_thread (suspend_state t f k) u) = th_error (k_thread k u)"
  "th_event_set (k_thread (suspend_state t f k) u) = th_event_set (k_thread k u)"
  "th_event_info (k_thread (suspend_state t f k) u) = th_event_info (k_thread k u)"
  by (simp_all add: suspend_state_def rt_thread_set_suspend_state_def rt_schedule_remove_thread_def
    k_upd_defs Let_def)

lemma suspend_state_sched:
  assumes inv: "kernel_inv n base k" and t: "ready (stat t k) \<or> running (stat t k)"
  shows "sched_ok {} (suspend_state t f k)"
proof -
  note ok = kernel_invD(1) [OF inv]
  let ?k = "rt_schedule_remove_thread t k"
  have p: "prio_ok t k" using sched_okD(3) [OF ok, of t] t by (auto simp: thread_ok_def)
  have r: "sched_ok {t} ?k" using remove_thread_ok [OF ok p] by simp
  have "prio_ok t ?k" using p by (simp add: prio_ok_def remove_thread_frame)
  then have "sched_ok {} (rt_thread_set_suspend_state t f ?k)"
    unfolding rt_thread_set_suspend_state_def Let_def
    using r by (cases f) (auto intro!: settle_thread_ok [of t "{}" ?k, simplified])
  then show ?thesis
    by (simp add: suspend_state_def sched_ok_def bitmap_ok_def thread_ok_def prio_ok_def)
qed

lemma suspend_state_from:
  assumes "kernel_inv n base k"
  shows "timers_from k (suspend_state t f k)" "T_thread t \<notin> set (k_timer_list (suspend_state t f k))"
    "k_timer_list (suspend_state t f k) = removeAll (T_thread t) (k_timer_list k)"
proof -
  let ?k = "rt_thread_set_suspend_state t f (rt_schedule_remove_thread t k)"
  have act: "activated m ?k = activated m k" "soft m ?k = soft m k" "periodic m ?k = periodic m k" for m
    by (simp_all add: activated_def soft_def periodic_def)
  have "k_timer_list (stop_timer (T_thread t) ?k) = removeAll (T_thread t) (k_timer_list ?k)"
    by (rule stop_timer_list) (use inv_activated [OF assms] act in simp)
  then show l: "k_timer_list (suspend_state t f k) = removeAll (T_thread t) (k_timer_list k)"
    by (simp add: suspend_state_def)
  then show "T_thread t \<notin> set (k_timer_list (suspend_state t f k))" by simp
  show "timers_from k (suspend_state t f k)"
    using l by (auto simp: timers_from_def suspend_state_def act)
qed

lemma suspend_state_inv:
  assumes inv: "kernel_inv n base k" and t: "ready (stat t k) \<or> running (stat t k)" "t \<noteq> idle_thread"
  shows "kernel_inv n base (suspend_state t f k)"
proof (rule kernel_inv_step [OF inv suspend_state_from(1) [OF inv] suspend_state_sched [OF inv t(1)]])
  show "cpu_ok (suspend_state t f k)"
    using kernel_invD(2) [OF inv] t(2) by (simp add: cpu_ok_def)
  fix u
  show "suspended (stat u (suspend_state t f k))" if "T_thread u \<in> set (k_timer_list (suspend_state t f k))"
    using that kernel_invD(5) [OF inv, of "T_thread u"]
    by (cases "u = t") (auto simp: suspend_state_from(3) [OF inv] timer_ok_def)
  show "live (stat u k)" if "live (stat u (suspend_state t f k))"
    using that t(1) by (cases "u = t") auto
qed

section \<open>Resuming\<close>

definition resume_state :: "tid \<Rightarrow> kernel \<Rightarrow> kernel" where
  "resume_state t k = rt_schedule_insert_thread t
    (upd_thread t (th_wakeup_func_update (\<lambda>_. None)) (stop_timer (T_thread t) (tlist_remove t k)))"

lemma tlist_remove_frame [simp]:
  "k_obj (tlist_remove t k) = k_obj k" "k_timer (tlist_remove t k) = k_timer k"
  "k_timer_list (tlist_remove t k) = k_timer_list k" "k_thread (tlist_remove t k) = k_thread k"
  "k_current (tlist_remove t k) = k_current k" "k_ready_group (tlist_remove t k) = k_ready_group k"
  "k_queue (tlist_remove t k) = (\<lambda>q. removeAll t (k_queue k q))" "off_queue t (tlist_remove t k)"
  "activated m (tlist_remove t k) = activated m k" "soft m (tlist_remove t k) = soft m k"
  "periodic m (tlist_remove t k) = periodic m k"
  by (simp_all add: tlist_remove_def q_unlink_def off_queue_def activated_def soft_def periodic_def)

lemma tlist_remove_ok:
  assumes "sched_ok {} k" "\<not> ready (stat t k)"
  shows "sched_ok {t} (tlist_remove t k)"
proof -
  note D = sched_okD [OF assms(1)]
  have "t \<notin> set (k_queue k (Ready p))" for p
    using ready_queue_ready [OF assms(1), of t p] assms(2) by blast
  then have "bitmap_ok (tlist_remove t k)" using D(2) by (simp add: bitmap_ok_def)
  moreover have "thread_ok u (tlist_remove t k)" if "u \<noteq> t" for u
    using D(3) [of u] that by (simp add: thread_ok_def prio_ok_def)
  ultimately show ?thesis using separate_removeAll [OF D(1)] by (simp add: sched_ok_def)
qed

text \<open>The scheduler invariant does not look at the other fields.\<close>

lemma sched_ok_cong:
  assumes "k_queue k' = k_queue k" "k_ready_group k' = k_ready_group k" "k_current k' = k_current k"
    and "\<And>t. stat t k' = stat t k \<and> prio t k' = prio t k \<and>
      th_number_mask (k_thread k' t) = th_number_mask (k_thread k t)"
  shows "sched_ok X k' \<longleftrightarrow> sched_ok X k"
  using assms by (simp add: sched_ok_def bitmap_ok_def thread_ok_def prio_ok_def)

lemma resume_eq:
  assumes "kernel_inv n base k" "suspended (stat t k)"
  shows "rt_thread_resume t k = Some (RT_EOK, resume_state t k)"
proof -
  have "is_thread t k" "is_timer (T_thread t) (tlist_remove t k)"
    using inv_is_timer [OF assms(1), of t] assms(2) by (simp_all add: is_timer_def rt_object_get_type_def)
  with assms(2) show ?thesis
    by (simp add: rt_thread_resume_def suspended_def rt_timer_stop_eq resume_state_def)
qed

lemma resume_not_suspended:
  "is_thread t k \<Longrightarrow> \<not> suspended (stat t k) \<Longrightarrow> rt_thread_resume t k = Some (- RT_ERROR, k)"
  by (simp add: rt_thread_resume_def suspended_def)

lemma insert_thread_fields [simp]:
  "k_obj (rt_schedule_insert_thread t k) = k_obj k" "k_timer (rt_schedule_insert_thread t k) = k_timer k"
  "k_timer_list (rt_schedule_insert_thread t k) = k_timer_list k"
  "k_tick (rt_schedule_insert_thread t k) = k_tick k"
  "k_interrupt_nest (rt_schedule_insert_thread t k) = k_interrupt_nest k"
  "k_sem (rt_schedule_insert_thread t k) = k_sem k" "k_mutex (rt_schedule_insert_thread t k) = k_mutex k"
  "k_event (rt_schedule_insert_thread t k) = k_event k" "k_mb (rt_schedule_insert_thread t k) = k_mb k"
  "k_mq (rt_schedule_insert_thread t k) = k_mq k"
  "k_lwp_signal (rt_schedule_insert_thread t k) = k_lwp_signal k"
  "u \<noteq> t \<Longrightarrow> k_thread (rt_schedule_insert_thread t k) u = k_thread k u"
  "prio u (rt_schedule_insert_thread t k) = prio u k"
  "th_error (k_thread (rt_schedule_insert_thread t k) u) = th_error (k_thread k u)"
  "th_event_set (k_thread (rt_schedule_insert_thread t k) u) = th_event_set (k_thread k u)"
  "th_event_info (k_thread (rt_schedule_insert_thread t k) u) = th_event_info (k_thread k u)"
  "th_number_mask (k_thread (rt_schedule_insert_thread t k) u) = th_number_mask (k_thread k u)"
  "ready (stat t (rt_schedule_insert_thread t k)) \<or> running (stat t (rt_schedule_insert_thread t k))"
  "\<not> suspended (stat t (rt_schedule_insert_thread t k))"
  by (simp_all add: rt_schedule_insert_thread_def k_upd_defs Let_def)

lemma resume_state_frame [simp]:
  "k_current (resume_state t k) = k_current k" "u \<noteq> t \<Longrightarrow> k_thread (resume_state t k) u = k_thread k u"
  "prio u (resume_state t k) = prio u k"
  "ready (stat t (resume_state t k)) \<or> running (stat t (resume_state t k))"
  "\<not> suspended (stat t (resume_state t k))"
  "obj_type (k_obj (resume_state t k) r) = obj_type (k_obj k r)"
  "r \<noteq> O_timer (T_thread t) \<Longrightarrow> k_obj (resume_state t k) r = k_obj k r"
  "k_timer (resume_state t k) = k_timer k" "k_tick (resume_state t k) = k_tick k"
  "k_lock_nest (resume_state t k) = k_lock_nest k" "k_interrupt_nest (resume_state t k) = k_interrupt_nest k"
  "k_sem (resume_state t k) = k_sem k" "k_mutex (resume_state t k) = k_mutex k"
  "k_event (resume_state t k) = k_event k" "k_mb (resume_state t k) = k_mb k" "k_mq (resume_state t k) = k_mq k"
  "th_error (k_thread (resume_state t k) u) = th_error (k_thread k u)"
  "th_event_set (k_thread (resume_state t k) u) = th_event_set (k_thread k u)"
  "th_event_info (k_thread (resume_state t k) u) = th_event_info (k_thread k u)"
  by (simp_all add: resume_state_def insert_thread_frame)
    (simp_all add: upd_thread_def tlist_remove_def)

lemma resume_state_wait_queue:
  "k_queue (resume_state t k) (Wait w) = removeAll t (k_queue k (Wait w))"
  by (simp add: resume_state_def rt_schedule_insert_thread_def k_upd_defs Let_def)

lemma resume_state_sched:
  assumes "sched_ok {} k" "suspended (stat t k)"
  shows "sched_ok {} (resume_state t k)"
proof -
  let ?k = "upd_thread t (th_wakeup_func_update (\<lambda>_. None)) (stop_timer (T_thread t) (tlist_remove t k))"
  have "sched_ok {t} (tlist_remove t k)"
    using assms by (intro tlist_remove_ok) (auto dest: stat_exclusive)
  then have "sched_ok {t} ?k"
    by (subst sched_ok_cong [of _ "tlist_remove t k"]) (simp_all add: upd_thread_def)
  moreover have "off_queue t ?k" by (simp add: off_queue_def upd_thread_def)
  moreover have "prio_ok t ?k"
    using sched_okD(3) [OF assms(1), of t] assms(2) by (simp add: thread_ok_def prio_ok_def upd_thread_def)
  ultimately show ?thesis
    unfolding resume_state_def using insert_thread_ok [of t "{}" ?k] by simp
qed

lemma resume_state_from:
  assumes "kernel_inv n base k"
  shows "timers_from k (resume_state t k)" "k_timer_list (resume_state t k) = removeAll (T_thread t) (k_timer_list k)"
proof -
  have "k_timer_list (stop_timer (T_thread t) (tlist_remove t k)) = removeAll (T_thread t) (k_timer_list (tlist_remove t k))"
    by (rule stop_timer_list) (use inv_activated [OF assms] in simp)
  then show l: "k_timer_list (resume_state t k) = removeAll (T_thread t) (k_timer_list k)"
    by (simp add: resume_state_def) (simp add: upd_thread_def)
  have "activated m (resume_state t k) = (activated m k \<and> m \<noteq> T_thread t)" "soft m (resume_state t k) = soft m k"
    "periodic m (resume_state t k) = periodic m k" for m
  proof -
    let ?k = "stop_timer (T_thread t) (tlist_remove t k)"
    have "k_obj (resume_state t k) = k_obj ?k" by (simp add: resume_state_def) (simp add: upd_thread_def)
    then have "activated m (resume_state t k) = activated m ?k" "soft m (resume_state t k) = soft m ?k"
      "periodic m (resume_state t k) = periodic m ?k"
      by (simp_all only: activated_def soft_def periodic_def)
    then show "activated m (resume_state t k) = (activated m k \<and> m \<noteq> T_thread t)" "soft m (resume_state t k) = soft m k"
      "periodic m (resume_state t k) = periodic m k" by simp_all
  qed
  then show "timers_from k (resume_state t k)" using l by (auto simp: timers_from_def)
qed

lemma resume_state_inv:
  assumes inv: "kernel_inv n base k" and t: "suspended (stat t k)"
  shows "kernel_inv n base (resume_state t k)"
proof (rule kernel_inv_step [OF inv resume_state_from(1) [OF inv] resume_state_sched [OF kernel_invD(1) [OF inv] t]])
  have "t \<noteq> idle_thread" using kernel_invD(2) [OF inv] t unfolding cpu_ok_def by (metis stat_exclusive(1,2))
  then show "cpu_ok (resume_state t k)" using kernel_invD(2) [OF inv] by (simp add: cpu_ok_def)
  fix u
  show "suspended (stat u (resume_state t k))" if "T_thread u \<in> set (k_timer_list (resume_state t k))"
    using that kernel_invD(5) [OF inv, of "T_thread u"]
    by (cases "u = t") (auto simp: resume_state_from(2) [OF inv] timer_ok_def)
  show "live (stat u k)" if "live (stat u (resume_state t k))"
    using that t by (cases "u = t") auto
qed

section \<open>Fields the invariant does not look at\<close>

lemma kernel_inv_cong:
  assumes "k_queue k' = k_queue k" "k_ready_group k' = k_ready_group k" "k_current k' = k_current k"
    and "\<And>t. stat t k' = stat t k \<and> prio t k' = prio t k \<and>
      th_number_mask (k_thread k' t) = th_number_mask (k_thread k t)"
    and "k_obj k' = k_obj k" "k_timer k' = k_timer k" "k_timer_list k' = k_timer_list k"
  shows "kernel_inv n base k' \<longleftrightarrow> kernel_inv n base k"
proof -
  have "sched_ok {} k' = sched_ok {} k" using assms(1-4) by (rule sched_ok_cong)
  moreover have "timer_ok m k' = timer_ok m k" for m
    using assms(4-) by (cases m) (simp_all add: timer_ok_def is_timer_def rt_object_get_type_def
        activated_def soft_def periodic_def)
  moreover have "thread_timer_ok t k' = thread_timer_ok t k" for t
    using assms(4-) by (simp add: thread_timer_ok_def is_timer_def is_thread_def rt_object_get_type_def
        soft_def periodic_def)
  ultimately show ?thesis using assms by (simp add: kernel_inv_def cpu_ok_def)
qed

lemma kernel_inv_upd [simp, rt_inv]:
  "kernel_inv n base (set_error t e k) \<longleftrightarrow> kernel_inv n base k"
  "kernel_inv n base (upd_thread t (th_wakeup_func_update (\<lambda>_. w)) k) \<longleftrightarrow> kernel_inv n base k"
  "kernel_inv n base (upd_thread t (\<lambda>th. th\<lparr>th_event_set := es, th_event_info := ei\<rparr>) k) \<longleftrightarrow> kernel_inv n base k"
  "kernel_inv n base (upd_thread t (th_event_set_update (\<lambda>_. es)) k) \<longleftrightarrow> kernel_inv n base k"
  "kernel_inv n base (upd_thread t (th_remaining_tick_update fr) k) \<longleftrightarrow> kernel_inv n base k"
  "kernel_inv n base (upd_thread t (\<lambda>th. th\<lparr>th_remaining_tick := th_init_tick th\<rparr>) k) \<longleftrightarrow> kernel_inv n base k"
  "kernel_inv n base (k\<lparr>k_sem := se\<rparr>) \<longleftrightarrow> kernel_inv n base k"
  "kernel_inv n base (k\<lparr>k_mutex := mx\<rparr>) \<longleftrightarrow> kernel_inv n base k"
  "kernel_inv n base (k\<lparr>k_event := ev\<rparr>) \<longleftrightarrow> kernel_inv n base k"
  "kernel_inv n base (k\<lparr>k_mb := mb\<rparr>) \<longleftrightarrow> kernel_inv n base k"
  "kernel_inv n base (k\<lparr>k_mq := mq\<rparr>) \<longleftrightarrow> kernel_inv n base k"
  "kernel_inv n base (k\<lparr>k_tick := tk\<rparr>) \<longleftrightarrow> kernel_inv n base k"
  "kernel_inv n base (k\<lparr>k_firing := fi\<rparr>) \<longleftrightarrow> kernel_inv n base k"
  "kernel_inv n base (k\<lparr>k_lock_nest := ln\<rparr>) \<longleftrightarrow> kernel_inv n base k"
  "kernel_inv n base (k\<lparr>k_interrupt_nest := i\<rparr>) \<longleftrightarrow> kernel_inv n base k"
  by (rule kernel_inv_cong; simp add: upd_thread_def set_error_def)+

lemma set_error_frame [simp]:
  "k_queue (set_error t e k) = k_queue k" "k_current (set_error t e k) = k_current k"
  "stat u (set_error t e k) = stat u k" "prio u (set_error t e k) = prio u k"
  "th_error (k_thread (set_error t e k) u) = (if u = t then e else th_error (k_thread k u))"
  "th_event_set (k_thread (set_error t e k) u) = th_event_set (k_thread k u)"
  "th_event_info (k_thread (set_error t e k) u) = th_event_info (k_thread k u)"
  "th_signal (k_thread (set_error t e k) u) = th_signal (k_thread k u)"
  "th_lwp (k_thread (set_error t e k) u) = th_lwp (k_thread k u)"
  "k_obj (set_error t e k) = k_obj k" "k_timer (set_error t e k) = k_timer k"
  "k_timer_list (set_error t e k) = k_timer_list k" "k_tick (set_error t e k) = k_tick k"
  "k_lock_nest (set_error t e k) = k_lock_nest k" "k_interrupt_nest (set_error t e k) = k_interrupt_nest k"
  "k_ready_group (set_error t e k) = k_ready_group k" "k_sem (set_error t e k) = k_sem k"
  "k_mutex (set_error t e k) = k_mutex k" "k_event (set_error t e k) = k_event k"
  "k_mb (set_error t e k) = k_mb k" "k_mq (set_error t e k) = k_mq k"
  "k_lwp_signal (set_error t e k) = k_lwp_signal k" "is_thread u (set_error t e k) = is_thread u k"
  by (simp_all add: set_error_def upd_thread_def is_thread_def rt_object_get_type_def)

lemma sigcheck_set_error [simp]: "lwp_suspend_sigcheck t f (set_error u e k) = lwp_suspend_sigcheck t f k"
  by (cases f) (simp_all add: lwp_suspend_sigcheck_def Let_def split: option.splits)

section \<open>Scheduling\<close>

lemma cpu_ok_can_schedule:
  assumes "sched_ok {} k" "cpu_ok k" "k_current k = Some c"
  shows "running (stat c k) \<or> k_ready_group k \<noteq> 0"
proof (cases "running (stat idle_thread k)")
  case True
  then have "k_current k = Some idle_thread"
    using sched_okD(3) [OF assms(1), of idle_thread] by (simp add: thread_ok_def)
  with True assms(3) show ?thesis by simp
next
  case False
  with assms(2) have "ready (stat idle_thread k)" by (simp add: cpu_ok_def)
  with no_ready_group [OF assms(1)] show ?thesis by blast
qed

lemma k_core_timers_from: "k_core k' = k_core k \<Longrightarrow> timers_from k k'"
  using k_core_fields [of k' k] by (simp add: timers_from_def activated_def soft_def periodic_def)

lemma schedule_inv:
  assumes inv: "kernel_inv n base k"
  shows "\<exists>k'. rt_schedule k = Some k' \<and> kernel_inv n base k' \<and> k_core k' = k_core k \<and>
    (\<forall>w. k_queue k' (Wait w) = k_queue k (Wait w)) \<and>
    (k_lock_nest k = 0 \<longrightarrow> (\<exists>r. k_current k' = Some r \<and> running (stat r k') \<and>
      (\<forall>t. ready (stat t k') \<longrightarrow> prio r k' \<le> prio t k')))"
proof (cases "k_lock_nest k = 0")
  case True
  note ok = kernel_invD(1) [OF inv] and cpu = kernel_invD(2) [OF inv]
  obtain c where c: "k_current k = Some c" using cpu by (auto simp: cpu_ok_def)
  obtain k' r where k': "rt_schedule k = Some k'" "sched_ok {} k'" "k_core k' = k_core k"
      "k_current k' = Some r" "running (stat r k')" "\<forall>t. ready (stat t k') \<longrightarrow> prio r k' \<le> prio t k'"
    and q: "r = c \<and> k_queue k' = k_queue k \<or>
      r \<noteq> c \<and> (\<exists>ts. k_queue k (Ready (unat (prio r k))) = r # ts) \<and>
      k_queue k' = (let Q = q_unlink r (k_queue k)
        in if running (stat c k) then q_push_back (Ready (unat (prio c k))) c Q else Q)"
    using rt_schedule_outcome [OF ok True c cpu_ok_can_schedule [OF ok cpu c]] by blast
  note st = rt_schedule_stat [OF ok k'(1)]
  have "kernel_inv n base k'"
  proof (rule kernel_inv_step [OF inv k_core_timers_from [OF k'(3)] k'(2)])
    show "cpu_ok k'" using cpu k'(4) st(4) by (simp add: cpu_ok_def)
    show "suspended (stat t k')" if "T_thread t \<in> set (k_timer_list k')" for t
      using that kernel_invD(5) [OF inv, of "T_thread t"] st(1) k_core_fields(5) [OF k'(3)]
      by (simp add: timer_ok_def)
    show "live (stat t k') \<Longrightarrow> live (stat t k)" for t
      using st(2,3) by (simp add: live_def)
  qed
  moreover have "k_queue k' (Wait w) = k_queue k (Wait w)" for w
  proof (cases "r = c")
    case False
    with q obtain ts where "k_queue k (Ready (unat (prio r k))) = r # ts" by blast
    then have "r \<notin> set (k_queue k (Wait w))"
      using sched_okD(1) [OF ok] unfolding separate_def
      by (metis disjoint_iff list.set_intros(1) qid.distinct(1))
    with q False show ?thesis by (auto simp: q_unlink_def q_push_back_def Let_def)
  qed (use q in auto)
  ultimately show ?thesis using k' by blast
next
  case False
  with inv show ?thesis by (simp add: rt_schedule_noop)
qed

section \<open>Arming a timer\<close>

text \<open>The state after \<open>rt_timer_start\<close> of a timer of the hard list.\<close>

definition start_state :: "timer_ref \<Rightarrow> kernel \<Rightarrow> kernel" where
  "start_state m k = (let k = clear_activated m (timer_remove m k);
       k = upd_timer m (\<lambda>tm. tm\<lparr>timeout_tick := rt_tick_get k + init_tick tm\<rparr>) k
     in set_activated m (timer_link m k))"

lemmas timer_op_defs = clear_activated_def set_activated_def timer_remove_def timer_link_def
  upd_timer_def upd_obj_def rt_tick_get_def

lemma start_state_frame [simp]:
  "k_queue (start_state m k) = k_queue k" "k_thread (start_state m k) = k_thread k"
  "k_ready_group (start_state m k) = k_ready_group k" "k_current (start_state m k) = k_current k"
  "k_lock_nest (start_state m k) = k_lock_nest k" "k_tick (start_state m k) = k_tick k"
  "k_interrupt_nest (start_state m k) = k_interrupt_nest k"
  "k_sem (start_state m k) = k_sem k" "k_mutex (start_state m k) = k_mutex k"
  "k_event (start_state m k) = k_event k" "k_mb (start_state m k) = k_mb k"
  "k_mq (start_state m k) = k_mq k" "k_lwp_signal (start_state m k) = k_lwp_signal k"
  "obj_type (k_obj (start_state m k) r) = obj_type (k_obj k r)"
  "activated m' (start_state m k) \<longleftrightarrow> activated m' k \<or> m' = m"
  "periodic m' (start_state m k) \<longleftrightarrow> periodic m' k" "soft m' (start_state m k) \<longleftrightarrow> soft m' k"
  "k_timer (start_state m k) = (k_timer k)(m := (k_timer k m)\<lparr>timeout_tick := k_tick k + init_tick (k_timer k m)\<rparr>)"
  by (simp_all add: start_state_def timer_op_defs activated_def periodic_def soft_def Let_def)

lemma start_state_list:
  "\<not> soft m k \<Longrightarrow> k_timer_list (start_state m k) =
    timer_list_insert (timeout_of (start_state m k)) m (removeAll m (k_timer_list k))"
  by (simp add: start_state_def timer_op_defs soft_def Let_def)

lemma timer_start_eq:
  assumes "is_timer m k" "init_tick (k_timer k m) < RT_TICK_HALF" "\<not> soft m k"
  shows "rt_timer_start m k = Some (RT_EOK, start_state m k)"
  using assms
  by (simp add: rt_timer_start_def start_state_def timer_op_defs soft_def Let_def RT_ASSERT_def)

lemma is_frame:
  assumes "\<And>r. obj_type (k_obj k' r) = obj_type (k_obj k r)"
  shows "is_timer m k' = is_timer m k" "is_thread t k' = is_thread t k"
  using assms by (simp_all add: is_timer_def is_thread_def rt_object_get_type_def)

lemma start_state_inv:
  assumes inv: "kernel_inv n base k" and m: "is_timer m k" "\<not> soft m k"
    and fn: "case m of T_thread t \<Rightarrow> suspended (stat t k)
      | T_user _ \<Rightarrow> timeout_func (k_timer k m) \<noteq> Rt_thread_timeout \<and>
          (periodic m k \<longrightarrow> 0 < init_tick (k_timer k m))"
    and tick: "init_tick (k_timer k m) < RT_TICK_HALF"
    and off: "n \<le> half" "ticks_after base (k_tick k + init_tick (k_timer k m)) \<le> n"
      "n < half + ticks_after base (k_tick k + init_tick (k_timer k m))"
  shows "kernel_inv n base (start_state m k)"
proof -
  let ?k = "start_state m k"
  note isx = is_frame [of ?k k, simplified]
  have sched: "sched_ok {} ?k"
    using kernel_invD(1) [OF inv] by (subst sched_ok_cong [of _ k]) simp_all
  have tok: "timer_ok x ?k" if "x \<in> set (k_timer_list ?k)" for x
  proof (cases "x = m")
    case True
    with m fn tick show ?thesis by (auto simp: timer_ok_def isx split: timer_ref.splits)
  next
    case False
    with that start_state_list [OF m(2)] have "x \<in> set (k_timer_list k)" by simp
    from kernel_invD(5) [OF inv this] False show ?thesis by (cases x) (simp_all add: timer_ok_def isx)
  qed
  have "tick_sorted n base (timeout_of k) (removeAll m (k_timer_list k))"
    by (rule tick_sorted_subseq [OF kernel_invD(4) [OF inv]]) simp
  then have "tick_sorted n base (timeout_of ?k) (removeAll m (k_timer_list k))"
    by (subst tick_sorted_cong [of _ _ "timeout_of k"]) simp_all
  then have "tick_sorted n base (timeout_of ?k) (k_timer_list ?k)"
    unfolding start_state_list [OF m(2)] using off by (intro timer_list_insert_sorted) simp_all
  moreover have "distinct (k_timer_list ?k)"
    using kernel_invD(3) [OF inv] by (simp add: start_state_list [OF m(2)] distinct_removeAll)
  moreover have "thread_timer_ok t ?k" if "live (stat t ?k)" for t
    using kernel_invD(6) [OF inv, of t] that by (auto simp: thread_timer_ok_def isx)
  ultimately show ?thesis
    using sched kernel_invD(2) [OF inv] tok by (simp add: kernel_inv_def cpu_ok_def)
qed

definition arm_state :: "tid \<Rightarrow> u32 \<Rightarrow> kernel \<Rightarrow> kernel" where
  "arm_state t tick k = start_state (T_thread t) (upd_timer (T_thread t) (init_tick_update (\<lambda>_. tick)) k)"

lemma set_time_inv:
  assumes inv: "kernel_inv n base k"
  shows "kernel_inv n base (upd_timer (T_thread t) (init_tick_update (\<lambda>_. tick)) k)"
proof -
  let ?k = "upd_timer (T_thread t) (init_tick_update (\<lambda>_. tick)) k"
  have f: "k_obj ?k = k_obj k" "k_thread ?k = k_thread k" "k_timer_list ?k = k_timer_list k"
    by (simp_all add: upd_timer_def)
  then have isx: "is_timer m ?k = is_timer m k" "is_thread u ?k = is_thread u k"
      "activated m ?k = activated m k" "soft m ?k = soft m k" "periodic m ?k = periodic m k" for m u
    by (simp_all add: is_timer_def is_thread_def rt_object_get_type_def activated_def soft_def periodic_def)
  have "timeout_of ?k = timeout_of k" by (auto simp: upd_timer_def)
  moreover have "timer_ok m ?k = timer_ok m k" for m
    by (cases m) (simp_all add: timer_ok_def isx f, simp_all add: upd_timer_def)
  moreover have "thread_timer_ok u ?k = thread_timer_ok u k" for u
    by (simp add: thread_timer_ok_def isx) (simp add: upd_timer_def)
  moreover have "sched_ok {} ?k = sched_ok {} k" by (rule sched_ok_cong) (simp_all add: upd_timer_def)
  ultimately show ?thesis
    using inv by (simp add: kernel_inv_def cpu_ok_def f) (simp add: upd_timer_def)
qed

lemma arm_eq:
  assumes "kernel_inv n base k" "suspended (stat t k)" "tick < RT_TICK_HALF"
  shows "arm_thread_timer t tick k = Some (arm_state t tick k)"
proof -
  let ?k = "upd_timer (T_thread t) (init_tick_update (\<lambda>_. tick)) k"
  note T = inv_is_timer [OF assms(1), of t]
  have "is_timer (T_thread t) ?k" "\<not> soft (T_thread t) ?k"
    using T assms(2) by (simp_all add: is_timer_def rt_object_get_type_def soft_def upd_timer_def)
  then have "rt_timer_start (T_thread t) ?k = Some (RT_EOK, start_state (T_thread t) ?k)"
    using assms(3) by (intro timer_start_eq) (simp_all add: upd_timer_def)
  with T(2) assms(2) show ?thesis
    by (simp add: arm_thread_timer_def rt_timer_control_def arm_state_def RT_ASSERT_def)
qed

lemma arm_state_inv:
  assumes inv: "kernel_inv n base k" and t: "suspended (stat t k)" and tick: "tick < RT_TICK_HALF"
    and off: "n \<le> half" "ticks_after base (k_tick k + tick) \<le> n" "n < half + ticks_after base (k_tick k + tick)"
  shows "kernel_inv n base (arm_state t tick k)"
  unfolding arm_state_def
proof (rule start_state_inv [OF set_time_inv [OF inv]])
  note T = inv_is_timer [OF inv, of t]
  show "is_timer (T_thread t) (upd_timer (T_thread t) (init_tick_update (\<lambda>_. tick)) k)"
    "\<not> soft (T_thread t) (upd_timer (T_thread t) (init_tick_update (\<lambda>_. tick)) k)"
    using T t by (simp_all add: is_timer_def rt_object_get_type_def soft_def upd_timer_def)
qed (use t tick off in \<open>simp_all add: upd_timer_def\<close>)

lemma ticks_after_self: "ticks_after b (b + x) = unat x"
  by (simp add: ticks_after_def)

lemma arm_state_ok:
  assumes "kernel_ok k" "suspended (stat t k)" "tick < RT_TICK_HALF"
  shows "kernel_ok (arm_state t tick k)"
proof -
  have "unat tick \<le> half - 1" using assms(3) by (simp add: word_less_nat_alt)
  then have "kernel_inv (half - 1) (k_tick k) (arm_state t tick k)"
    using assms by (intro arm_state_inv) (simp_all add: kernel_ok_def ticks_after_self)
  then show ?thesis by (simp add: kernel_ok_def arm_state_def upd_timer_def)
qed

lemma arm_state_frame [simp]:
  "k_queue (arm_state t tick k) = k_queue k" "k_thread (arm_state t tick k) = k_thread k"
  "k_ready_group (arm_state t tick k) = k_ready_group k" "k_current (arm_state t tick k) = k_current k"
  "k_lock_nest (arm_state t tick k) = k_lock_nest k" "k_tick (arm_state t tick k) = k_tick k"
  "k_interrupt_nest (arm_state t tick k) = k_interrupt_nest k"
  "k_sem (arm_state t tick k) = k_sem k" "k_mutex (arm_state t tick k) = k_mutex k"
  "k_event (arm_state t tick k) = k_event k" "k_mb (arm_state t tick k) = k_mb k"
  "k_mq (arm_state t tick k) = k_mq k" "obj_type (k_obj (arm_state t tick k) r) = obj_type (k_obj k r)"
  by (simp_all add: arm_state_def upd_timer_def)

section \<open>Changing a priority\<close>

definition prio_state :: "tid \<Rightarrow> u8 \<Rightarrow> kernel \<Rightarrow> kernel" where
  "prio_state t p k = (if ready (stat t k)
     then rt_schedule_insert_thread t (set_priority t p (rt_schedule_remove_thread t k))
     else set_priority t p k)"

lemma change_priority_eq:
  "is_thread t k \<Longrightarrow>
   rt_thread_control t (RT_THREAD_CTRL_CHANGE_PRIORITY p) k = Some (RT_EOK, prio_state t p k)"
  by (simp add: rt_thread_control_def prio_state_def ready_def Let_def)

lemma set_priority_frame [simp]:
  "k_queue (set_priority t p k) = k_queue k" "k_current (set_priority t p k) = k_current k"
  "k_ready_group (set_priority t p k) = k_ready_group k" "stat u (set_priority t p k) = stat u k"
  "k_obj (set_priority t p k) = k_obj k" "k_timer (set_priority t p k) = k_timer k"
  "k_timer_list (set_priority t p k) = k_timer_list k"
  "prio u (set_priority t p k) = (if u = t then p else prio u k)"
  "u \<noteq> t \<Longrightarrow> k_thread (set_priority t p k) u = k_thread k u"
  "unat p < 32 \<Longrightarrow> prio_ok t (set_priority t p k)"
  "off_queue u (set_priority t p k) = off_queue u k"
  by (simp_all add: set_priority_def upd_thread_def prio_ok_def off_queue_def)

lemma set_priority_sched:
  assumes "sched_ok X k" "unat p < 32" "t \<notin> X \<Longrightarrow> \<not> ready (stat t k)"
  shows "sched_ok X (set_priority t p k)"
proof -
  note D = sched_okD [OF assms(1)]
  have "thread_ok u (set_priority t p k)" if "u \<notin> X" for u
  proof (cases "u = t")
    case True
    with D(3) [OF that] assms(2,3) that show ?thesis by (simp add: thread_ok_def)
  next
    case False
    with D(3) [OF that] show ?thesis by (simp add: thread_ok_def prio_ok_def)
  qed
  with D(1,2) show ?thesis by (simp add: sched_ok_def bitmap_ok_def)
qed

lemma prio_state_sched:
  assumes ok: "sched_ok {} k" and p: "unat p < 32"
  shows "sched_ok {} (prio_state t p k)"
proof (cases "ready (stat t k)")
  case True
  let ?k = "rt_schedule_remove_thread t k"
  have "prio_ok t k" using sched_okD(3) [OF ok, of t] True by (simp add: thread_ok_def)
  then have "sched_ok {t} ?k" using remove_thread_ok [OF ok] by simp
  then have "sched_ok {t} (set_priority t p ?k)" by (rule set_priority_sched) (use p in auto)
  then show ?thesis
    using insert_thread_ok [of t "{}" "set_priority t p ?k"] p True by (simp add: prio_state_def)
qed (use set_priority_sched [OF ok p, of t] in \<open>simp add: prio_state_def\<close>)

lemma prio_state_frame [simp]:
  "k_current (prio_state t p k) = k_current k" "k_obj (prio_state t p k) = k_obj k"
  "k_timer (prio_state t p k) = k_timer k" "k_timer_list (prio_state t p k) = k_timer_list k"
  "u \<noteq> t \<Longrightarrow> k_thread (prio_state t p k) u = k_thread k u"
  "prio u (prio_state t p k) = (if u = t then p else prio u k)"
  "k_tick (prio_state t p k) = k_tick k" "k_lock_nest (prio_state t p k) = k_lock_nest k"
  "k_interrupt_nest (prio_state t p k) = k_interrupt_nest k"
  "k_sem (prio_state t p k) = k_sem k" "k_mutex (prio_state t p k) = k_mutex k"
  "k_event (prio_state t p k) = k_event k" "k_mb (prio_state t p k) = k_mb k"
  "k_mq (prio_state t p k) = k_mq k"
  "th_error (k_thread (prio_state t p k) u) = th_error (k_thread k u)"
  "th_signal (k_thread (prio_state t p k) u) = th_signal (k_thread k u)"
  "th_lwp (k_thread (prio_state t p k) u) = th_lwp (k_thread k u)"
  "k_lwp_signal (prio_state t p k) = k_lwp_signal k"
  by (simp_all add: prio_state_def set_priority_def rt_schedule_insert_thread_def rt_schedule_remove_thread_def
    k_upd_defs Let_def)

lemma sigcheck_prio_state [simp]: "lwp_suspend_sigcheck t f (prio_state u p k) = lwp_suspend_sigcheck t f k"
  by (cases f) (simp_all add: lwp_suspend_sigcheck_def Let_def split: option.splits)

lemma prio_state_stat:
  assumes "sched_ok {} k"
  shows "ready (stat u (prio_state t p k)) = ready (stat u k)" "running (stat u (prio_state t p k)) = running (stat u k)"
    "suspended (stat u (prio_state t p k)) = suspended (stat u k)" "live (stat u (prio_state t p k)) = live (stat u k)"
proof -
  have "k_current k \<noteq> Some t" if "ready (stat t k)"
    using sched_okD(3) [OF assms, of t] that by (simp add: thread_ok_def)
  then have "stat u (prio_state t p k) = stat u k \<or> ready (stat u k) \<and> ready (stat u (prio_state t p k))"
    by (auto simp: prio_state_def set_priority_def rt_schedule_insert_thread_def rt_schedule_remove_thread_def
        k_upd_defs Let_def)
  then show "ready (stat u (prio_state t p k)) = ready (stat u k)" "running (stat u (prio_state t p k)) = running (stat u k)"
    "suspended (stat u (prio_state t p k)) = suspended (stat u k)" "live (stat u (prio_state t p k)) = live (stat u k)"
    by (auto dest: stat_exclusive)
qed

lemma prio_state_wait_queue:
  assumes "sched_ok {} k"
  shows "k_queue (prio_state t p k) (Wait w) = k_queue k (Wait w)"
proof -
  have "t \<notin> set (k_queue k (Wait w))" if "ready (stat t k)"
    using sched_okD(3) [OF assms, of t] that by (auto simp: thread_ok_def dest: stat_exclusive)
  then show ?thesis
    by (auto simp: prio_state_def set_priority_def rt_schedule_insert_thread_def rt_schedule_remove_thread_def
        k_upd_defs Let_def)
qed

lemma prio_state_inv:
  assumes inv: "kernel_inv n base k" and p: "unat p < 32"
  shows "kernel_inv n base (prio_state t p k)"
proof (rule kernel_inv_step [OF inv])
  note ok = kernel_invD(1) [OF inv]
  note st = prio_state_stat [OF ok, where t = t and p = p]
  show "timers_from k (prio_state t p k)"
    by (simp add: timers_from_def activated_def soft_def periodic_def)
  show "sched_ok {} (prio_state t p k)" by (rule prio_state_sched [OF ok p])
  show "cpu_ok (prio_state t p k)" using kernel_invD(2) [OF inv] by (simp add: cpu_ok_def st)
  show "suspended (stat u (prio_state t p k))" if "T_thread u \<in> set (k_timer_list (prio_state t p k))" for u
    using that kernel_invD(5) [OF inv, of "T_thread u"] by (simp add: timer_ok_def st)
  show "live (stat u (prio_state t p k)) \<Longrightarrow> live (stat u k)" for u by (simp add: st)
qed

end
