(* ===== verification/Ipc.thy ===== *)
theory Ipc
  imports Invariant
begin

text \<open>
  The wait lists of \<^verbatim>\<open>src/ipc.c\<close> that semaphores, mutexes, events, mailboxes and message
  queues share: suspending the current thread on a list in arrival or priority order,
  resuming the first waiter, resuming all of them.
\<close>

section \<open>The operations\<close>

abbreviation RT_IPC_FLAG_FIFO :: u8 where "RT_IPC_FLAG_FIFO \<equiv> 0x00"
abbreviation RT_IPC_FLAG_PRIO :: u8 where "RT_IPC_FLAG_PRIO \<equiv> 0x01"

datatype ipc_cmd = RT_IPC_CMD_RESET u64 | RT_IPC_CMD_OTHER

definition rt_ipc_object_init :: "waitq \<Rightarrow> kernel \<Rightarrow> kernel" where
  "rt_ipc_object_init w k = k\<lparr>k_queue := (k_queue k)(Wait w := [])\<rparr>"

definition rt_ipc_list_suspend ::
    "waitq \<Rightarrow> tid \<Rightarrow> u8 \<Rightarrow> suspend_flag \<Rightarrow> kernel \<Rightarrow> (rt_err_t \<times> kernel) option" where
  "rt_ipc_list_suspend w t flag suspend_flag k = do {
    (ret, k) \<leftarrow> rt_thread_suspend_with_flag t suspend_flag k;
    if ret \<noteq> RT_EOK then Some (ret, k)
    else if flag = RT_IPC_FLAG_FIFO then Some (RT_EOK, tlist_insert_before (Wait w) t k)
    else if flag = RT_IPC_FLAG_PRIO
    then (case List.find (\<lambda>sthread. prio t k < prio sthread k) (k_queue k (Wait w)) of
            Some sthread \<Rightarrow> Some (RT_EOK, tlist_insert_before_node sthread t k)
          | None \<Rightarrow> Some (RT_EOK, tlist_insert_before (Wait w) t k))
    else Some (RT_EOK, k)
  }"

text \<open>The callers test that the list is not empty: the first node of an empty list is no thread.\<close>

definition rt_ipc_list_resume :: "waitq \<Rightarrow> kernel \<Rightarrow> (rt_err_t \<times> kernel) option" where
  "rt_ipc_list_resume w k =
    (case k_queue k (Wait w) of
       [] \<Rightarrow> None
     | t # _ \<Rightarrow> do {
         let k = set_error t RT_EOK k;
         (_, k) \<leftarrow> rt_thread_resume t k;
         Some (RT_EOK, k)
       })"

partial_function (option) rt_ipc_list_resume_all :: "waitq \<Rightarrow> kernel \<Rightarrow> (rt_err_t \<times> kernel) option" where
  "rt_ipc_list_resume_all w k =
    (case k_queue k (Wait w) of
       [] \<Rightarrow> Some (RT_EOK, k)
     | t # _ \<Rightarrow> do {
         let k = set_error t (- RT_ERROR) k;
         (_, k) \<leftarrow> rt_thread_resume t k;
         rt_ipc_list_resume_all w k
       })"

text \<open>What is left of a call after its \<open>rt_schedule\<close>: return a fixed code, or return the
  error field of the thread, which the waker set.\<close>

datatype ipc_kont = K_return rt_err_t | K_wait

definition ipc_kont_run :: "ipc_kont \<Rightarrow> tid \<Rightarrow> kernel \<Rightarrow> rt_err_t" where
  "ipc_kont_run c t k =
    (case c of K_return e \<Rightarrow> e
     | K_wait \<Rightarrow> if th_error (k_thread k t) \<noteq> RT_EOK then th_error (k_thread k t) else RT_EOK)"

text \<open>Start the thread timer when there is a waiting time; \<open>time\<close> is a signed 32-bit number.\<close>

definition arm_if_positive :: "tid \<Rightarrow> u32 \<Rightarrow> kernel \<Rightarrow> kernel option" where
  "arm_if_positive t time k = (if 0 < sint time then arm_thread_timer t time k else Some k)"

section \<open>Where a thread is put\<close>

definition wait_insert :: "u8 \<Rightarrow> tid \<Rightarrow> kernel \<Rightarrow> tid list \<Rightarrow> tid list" where
  "wait_insert flag t k ws =
    (if flag = RT_IPC_FLAG_FIFO then ws @ [t]
     else takeWhile (\<lambda>u. prio u k \<le> prio t k) ws @ t # dropWhile (\<lambda>u. prio u k \<le> prio t k) ws)"

definition park :: "waitq \<Rightarrow> u8 \<Rightarrow> tid \<Rightarrow> kernel \<Rightarrow> kernel" where
  "park w flag t k = k\<lparr>k_queue := (k_queue k)(Wait w := wait_insert flag t k (k_queue k (Wait w)))\<rparr>"

lemma set_wait_insert [simp]: "set (wait_insert flag t k ws) = insert t (set ws)"
proof -
  have "set ws = set (takeWhile (\<lambda>u. prio u k \<le> prio t k) ws) \<union> set (dropWhile (\<lambda>u. prio u k \<le> prio t k) ws)"
    by (metis set_append takeWhile_dropWhile_id)
  then show ?thesis by (auto simp: wait_insert_def)
qed

lemma distinct_wait_insert: "distinct ws \<Longrightarrow> t \<notin> set ws \<Longrightarrow> distinct (wait_insert flag t k ws)"
proof -
  let ?P = "\<lambda>u. prio u k \<le> prio t k"
  assume "distinct ws" "t \<notin> set ws"
  moreover have "distinct (takeWhile ?P ws @ dropWhile ?P ws)" using \<open>distinct ws\<close> by simp
  ultimately show ?thesis
    by (auto simp: wait_insert_def simp del: takeWhile_dropWhile_id dest: set_takeWhileD set_dropWhileD)
qed

lemma find_split:
  "List.find P ws = Some x \<Longrightarrow>
   \<exists>vs. ws = takeWhile (\<lambda>u. \<not> P u) ws @ x # vs \<and> dropWhile (\<lambda>u. \<not> P u) ws = x # vs"
  by (induction ws) (auto split: if_splits)

lemma find_prio_position:
  assumes sep: "separate Q" and ws: "Q q = ws" and f: "List.find (\<lambda>u. prio t k < prio u k) ws = Some s"
  shows "q_push_before s t Q = Q(q := takeWhile (\<lambda>u. prio u k \<le> prio t k) ws @ t #
    dropWhile (\<lambda>u. prio u k \<le> prio t k) ws)"
proof -
  obtain vs where v: "Q q = takeWhile (\<lambda>u. \<not> prio t k < prio u k) ws @ s # vs"
      "dropWhile (\<lambda>u. \<not> prio t k < prio u k) ws = s # vs"
    using find_split [OF f] ws by auto
  with push_before_eq [OF sep v(1), of t] show ?thesis by (simp add: not_less)
qed

lemma park_eq:
  assumes "separate (k_queue k)" "flag \<in> {RT_IPC_FLAG_FIFO, RT_IPC_FLAG_PRIO}"
  shows "(if flag = RT_IPC_FLAG_FIFO then Some (RT_EOK, tlist_insert_before (Wait w) t k)
    else if flag = RT_IPC_FLAG_PRIO
    then (case List.find (\<lambda>sthread. prio t k < prio sthread k) (k_queue k (Wait w)) of
            Some sthread \<Rightarrow> Some (RT_EOK, tlist_insert_before_node sthread t k)
          | None \<Rightarrow> Some (RT_EOK, tlist_insert_before (Wait w) t k))
    else Some (RT_EOK, k)) = Some (RT_EOK, park w flag t k)"
proof (cases "flag = RT_IPC_FLAG_FIFO")
  case True
  then show ?thesis by (simp add: park_def wait_insert_def tlist_insert_before_def q_push_back_def)
next
  case False
  show ?thesis
  proof (cases "List.find (\<lambda>u. prio t k < prio u k) (k_queue k (Wait w))")
    case None
    then have "\<forall>u \<in> set (k_queue k (Wait w)). prio u k \<le> prio t k"
      by (auto simp: find_None_iff not_less)
    then have "takeWhile (\<lambda>u. prio u k \<le> prio t k) (k_queue k (Wait w)) = k_queue k (Wait w)"
      "dropWhile (\<lambda>u. prio u k \<le> prio t k) (k_queue k (Wait w)) = []"
      by auto
    then have "wait_insert flag t k (k_queue k (Wait w)) = k_queue k (Wait w) @ [t]"
      unfolding wait_insert_def by metis
    with None False assms(2) show ?thesis
      by (simp add: park_def tlist_insert_before_def q_push_back_def)
  next
    case (Some s)
    with False assms(2) find_prio_position [OF assms(1) refl Some] show ?thesis
      by (simp add: park_def wait_insert_def tlist_insert_before_node_def)
  qed
qed

section \<open>The invariant\<close>

lemma park_frame [simp]:
  "k_thread (park w flag t k) = k_thread k" "k_obj (park w flag t k) = k_obj k"
  "k_timer (park w flag t k) = k_timer k" "k_timer_list (park w flag t k) = k_timer_list k"
  "k_current (park w flag t k) = k_current k" "k_ready_group (park w flag t k) = k_ready_group k"
  "k_tick (park w flag t k) = k_tick k" "k_lock_nest (park w flag t k) = k_lock_nest k"
  "k_interrupt_nest (park w flag t k) = k_interrupt_nest k"
  "k_sem (park w flag t k) = k_sem k" "k_mutex (park w flag t k) = k_mutex k"
  "k_event (park w flag t k) = k_event k" "k_mb (park w flag t k) = k_mb k" "k_mq (park w flag t k) = k_mq k"
  "k_queue (park w flag t k) = (k_queue k)(Wait w := wait_insert flag t k (k_queue k (Wait w)))"
  by (simp_all add: park_def)

lemma park_inv:
  assumes inv: "kernel_inv n base k" and t: "suspended (stat t k)" "off_queue t k"
  shows "kernel_inv n base (park w flag t k)"
proof -
  note ok = kernel_invD(1) [OF inv]
  have new: "\<And>q. t \<notin> set (k_queue k q)" using t(2) by (simp add: off_queue_def)
  have d: "distinct (k_queue k (Wait w))" using sched_okD(1) [OF ok] by (simp add: separate_def)
  have "separate (k_queue (park w flag t k))"
    using separate_insert [OF sched_okD(1) [OF ok] new] distinct_wait_insert [OF d new] by simp
  moreover have "bitmap_ok (park w flag t k)" using sched_okD(2) [OF ok] by (simp add: bitmap_ok_def)
  moreover have "thread_ok u (park w flag t k)" for u
    using sched_okD(3) [OF ok, of u] t(1) by (auto simp: thread_ok_def prio_ok_def)
  ultimately have "sched_ok {} (park w flag t k)" by (simp add: sched_ok_def)
  then show ?thesis
  proof (rule kernel_inv_step [OF inv, rotated])
    show "timers_from k (park w flag t k)"
      by (simp add: timers_from_def activated_def soft_def periodic_def)
    show "cpu_ok (park w flag t k)" using kernel_invD(2) [OF inv] by (simp add: cpu_ok_def)
    show "suspended (stat u (park w flag t k))" if "T_thread u \<in> set (k_timer_list (park w flag t k))" for u
      using that kernel_invD(5) [OF inv, of "T_thread u"] by (simp add: timer_ok_def)
  qed simp
qed

text \<open>Suspending on a wait list, in one equation.\<close>

definition block_state :: "waitq \<Rightarrow> u8 \<Rightarrow> tid \<Rightarrow> suspend_flag \<Rightarrow> kernel \<Rightarrow> kernel" where
  "block_state w flag t sf k = park w flag t (suspend_state t sf k)"

lemma ipc_list_suspend_eq:
  assumes inv: "kernel_inv n base k" and t: "ready (stat t k) \<or> running (stat t k)"
    and flag: "flag \<in> {RT_IPC_FLAG_FIFO, RT_IPC_FLAG_PRIO}"
  shows "rt_ipc_list_suspend w t flag sf k =
    Some (if lwp_suspend_sigcheck t sf k then (RT_EOK, block_state w flag t sf k) else (- RT_EINTR, k))"
proof (cases "lwp_suspend_sigcheck t sf k")
  case True
  have "separate (k_queue (suspend_state t sf k))"
    by (rule sched_okD(1) [OF suspend_state_sched [OF inv t]])
  with suspend_with_flag_eq [OF inv t True] True park_eq [OF _ flag] show ?thesis
    by (simp add: rt_ipc_list_suspend_def block_state_def)
next
  case False
  have "rt_thread_suspend_with_flag t sf k = Some (- RT_EINTR, k)"
  proof (rule suspend_fails [OF _ t _ False])
    show "is_thread t k" using inv_is_timer(1) [OF inv, of t] t by auto
    show "running (stat t k) \<Longrightarrow> k_current k = Some t"
      using sched_okD(3) [OF kernel_invD(1) [OF inv], of t] by (simp add: thread_ok_def)
  qed
  with False show ?thesis by (simp add: rt_ipc_list_suspend_def)
qed

lemma block_state_inv:
  assumes "kernel_inv n base k" "ready (stat t k) \<or> running (stat t k)" "t \<noteq> idle_thread"
  shows "kernel_inv n base (block_state w flag t sf k)"
  unfolding block_state_def by (rule park_inv [OF suspend_state_inv [OF assms]]) simp_all

lemma block_state_frame [simp]:
  "k_current (block_state w flag t sf k) = k_current k" "suspended (stat t (block_state w flag t sf k))"
  "u \<noteq> t \<Longrightarrow> k_thread (block_state w flag t sf k) u = k_thread k u"
  "prio u (block_state w flag t sf k) = prio u k"
  "obj_type (k_obj (block_state w flag t sf k) r) = obj_type (k_obj k r)"
  "r \<noteq> O_timer (T_thread t) \<Longrightarrow> k_obj (block_state w flag t sf k) r = k_obj k r"
  "k_tick (block_state w flag t sf k) = k_tick k" "k_lock_nest (block_state w flag t sf k) = k_lock_nest k"
  "k_interrupt_nest (block_state w flag t sf k) = k_interrupt_nest k"
  "k_sem (block_state w flag t sf k) = k_sem k" "k_mutex (block_state w flag t sf k) = k_mutex k"
  "k_event (block_state w flag t sf k) = k_event k" "k_mb (block_state w flag t sf k) = k_mb k"
  "k_mq (block_state w flag t sf k) = k_mq k"
  "th_error (k_thread (block_state w flag t sf k) u) = th_error (k_thread k u)"
  "th_event_set (k_thread (block_state w flag t sf k) u) = th_event_set (k_thread k u)"
  "th_event_info (k_thread (block_state w flag t sf k) u) = th_event_info (k_thread k u)"
  "k_queue (block_state w flag t sf k) = (\<lambda>q. removeAll t (k_queue k q))
     (Wait w := wait_insert flag t k (removeAll t (k_queue k (Wait w))))"
  by (simp_all add: block_state_def suspend_state_queue) (simp add: wait_insert_def)

lemma wait_queue_suspended:
  assumes "kernel_inv n base k" "t \<in> set (k_queue k (Wait w))"
  shows "suspended (stat t k)"
  using sched_okD(3) [OF kernel_invD(1) [OF assms(1)], of t] assms(2) by (auto simp: thread_ok_def)

lemma ipc_list_resume_eq:
  assumes "kernel_inv n base k" "k_queue k (Wait w) = t # ts"
  shows "rt_ipc_list_resume w k = Some (RT_EOK, resume_state t (set_error t RT_EOK k))"
    "kernel_inv n base (resume_state t (set_error t RT_EOK k))"
proof -
  have s: "suspended (stat t (set_error t RT_EOK k))"
    using wait_queue_suspended [OF assms(1), of t w] assms(2) by simp
  have i: "kernel_inv n base (set_error t RT_EOK k)" using assms(1) by simp
  show "rt_ipc_list_resume w k = Some (RT_EOK, resume_state t (set_error t RT_EOK k))"
    using resume_eq [OF i s] assms(2) by (simp add: rt_ipc_list_resume_def)
  show "kernel_inv n base (resume_state t (set_error t RT_EOK k))" by (rule resume_state_inv [OF i s])
qed

text \<open>Waking all waiters ends, because each round takes the first waiter off the list.\<close>

definition all_woken :: "waitq \<Rightarrow> kernel \<Rightarrow> kernel \<Rightarrow> bool" where
  "all_woken w k k' \<longleftrightarrow> k_queue k' (Wait w) = [] \<and>
    (\<forall>v. v \<noteq> w \<longrightarrow> k_queue k' (Wait v) = k_queue k (Wait v)) \<and>
    (\<forall>t \<in> set (k_queue k (Wait w)). th_error (k_thread k' t) = - RT_ERROR \<and>
      (ready (stat t k') \<or> running (stat t k'))) \<and>
    (\<forall>t. t \<notin> set (k_queue k (Wait w)) \<longrightarrow> k_thread k' t = k_thread k t) \<and>
    k_current k' = k_current k \<and> k_tick k' = k_tick k \<and> k_lock_nest k' = k_lock_nest k \<and>
    k_interrupt_nest k' = k_interrupt_nest k \<and> k_sem k' = k_sem k \<and> k_mutex k' = k_mutex k \<and>
    k_event k' = k_event k \<and> k_mb k' = k_mb k \<and> k_mq k' = k_mq k \<and>
    (\<forall>r. obj_type (k_obj k' r) = obj_type (k_obj k r))"

lemma all_woken_step:
  assumes inv: "kernel_inv n base k" and q: "k_queue k (Wait w) = t # ts"
    and w: "all_woken w (resume_state t (set_error t (- RT_ERROR) k)) k'"
  shows "k_queue (resume_state t (set_error t (- RT_ERROR) k)) (Wait w) = ts" "all_woken w k k'"
proof -
  let ?k = "resume_state t (set_error t (- RT_ERROR) k)"
  note sep = sched_okD(1) [OF kernel_invD(1) [OF inv]]
  have t: "t \<notin> set ts" using sep q unfolding separate_def by (metis distinct.simps(2))
  have tv: "t \<notin> set (k_queue k (Wait v))" if "v \<noteq> w" for v
    using sep q that unfolding separate_def by (metis disjoint_iff list.set_intros(1) qid.inject(2))
  have qv: "k_queue ?k (Wait v) = (if v = w then ts else k_queue k (Wait v))" for v
    using t tv q by (simp add: resume_state_wait_queue)
  then show "k_queue ?k (Wait w) = ts" by simp
  have other: "k_thread k' u = k_thread ?k u" if "u \<notin> set ts" for u
    using w that unfolding all_woken_def by (simp add: qv)
  have ts: "th_error (k_thread k' u) = - RT_ERROR \<and> (ready (stat u k') \<or> running (stat u k'))"
    if "u \<in> set ts" for u
    using w that unfolding all_woken_def by (simp add: qv)
  have "th_error (k_thread k' u) = - RT_ERROR \<and> (ready (stat u k') \<or> running (stat u k'))"
    if "u \<in> set (k_queue k (Wait w))" for u
    using that q ts other [OF t] by (cases "u = t") auto
  moreover have "k_thread k' u = k_thread k u" if "u \<notin> set (k_queue k (Wait w))" for u
    using that q other [of u] by (simp add: set_error_def upd_thread_def)
  ultimately show "all_woken w k k'"
    using w unfolding all_woken_def by (simp add: qv)
qed

lemma ipc_resume_all:
  assumes "kernel_inv n base k"
  shows "\<exists>k'. rt_ipc_list_resume_all w k = Some (RT_EOK, k') \<and> kernel_inv n base k' \<and> all_woken w k k'"
  using assms
proof (induction "length (k_queue k (Wait w))" arbitrary: k)
  case 0
  then show ?case by (subst rt_ipc_list_resume_all.simps) (simp add: all_woken_def)
next
  case (Suc l)
  then obtain t ts where q: "k_queue k (Wait w) = t # ts" "l = length ts" by (cases "k_queue k (Wait w)") auto
  let ?k = "resume_state t (set_error t (- RT_ERROR) k)"
  have i: "kernel_inv n base (set_error t (- RT_ERROR) k)" using Suc.prems by simp
  have s: "suspended (stat t (set_error t (- RT_ERROR) k))"
    using wait_queue_suspended [OF Suc.prems, of t w] q by simp
  have "t \<notin> set ts"
    using sched_okD(1) [OF kernel_invD(1) [OF Suc.prems]] q(1) unfolding separate_def by (metis distinct.simps(2))
  then have "k_queue ?k (Wait w) = ts" using q by (simp add: resume_state_wait_queue)
  then obtain k' where k': "rt_ipc_list_resume_all w ?k = Some (RT_EOK, k')" "kernel_inv n base k'" "all_woken w ?k k'"
    using Suc.hyps(1) [of ?k] q(2) resume_state_inv [OF i s] by auto
  have "rt_ipc_list_resume_all w k = Some (RT_EOK, k')"
    using q k'(1) resume_eq [OF i s] by (subst rt_ipc_list_resume_all.simps) simp
  with k'(2) all_woken_step(2) [OF Suc.prems q(1) k'(3)] show ?case by blast
qed

section \<open>Blocking with a timeout\<close>

lemma positive_time:
  fixes time :: u32
  assumes "0 < sint time" "sint time < 0x7fffffff"
  shows "time < RT_TICK_HALF"
proof -
  have "take_bit 32 (sint time) = sint time"
    using assms by (simp add: take_bit_int_eq_self_iff)
  then have "uint time = sint time" using uint_sint [of time] by simp
  with assms(2) show ?thesis by (simp add: word_less_alt)
qed

text \<open>
  The waiting time of a call: negative waits for ever; the thread timer takes no more than
  \<open>RT_TICK_MAX / 2 - 1\<close> ticks.
\<close>

definition wait_time :: "u32 \<Rightarrow> bool" where
  "wait_time time \<longleftrightarrow> time \<noteq> 0 \<and> sint time < 0x7fffffff"

definition can_block :: "tid \<Rightarrow> kernel \<Rightarrow> bool" where
  "can_block c k \<longleftrightarrow> k_current k = Some c \<and> running (stat c k) \<and> c \<noteq> idle_thread \<and> k_interrupt_nest k = 0"

text \<open>The effect of blocking thread \<open>c\<close> on the wait list \<open>w\<close>.\<close>

definition blocked :: "waitq \<Rightarrow> u8 \<Rightarrow> tid \<Rightarrow> kernel \<Rightarrow> kernel \<Rightarrow> bool" where
  "blocked w flag c k k' \<longleftrightarrow> suspended (stat c k') \<and>
     k_queue k' (Wait w) = wait_insert flag c k (k_queue k (Wait w)) \<and>
     (\<forall>v. v \<noteq> w \<longrightarrow> k_queue k' (Wait v) = k_queue k (Wait v)) \<and>
     (\<forall>u. u \<noteq> c \<longrightarrow> k_thread k' u = k_thread k u) \<and> (\<forall>u. prio u k' = prio u k) \<and>
     (\<forall>u. th_error (k_thread k' u) = th_error (k_thread k u)) \<and>
     (\<forall>u. th_event_set (k_thread k' u) = th_event_set (k_thread k u) \<and>
       th_event_info (k_thread k' u) = th_event_info (k_thread k u)) \<and>
     k_current k' = k_current k \<and> k_tick k' = k_tick k \<and> k_lock_nest k' = k_lock_nest k \<and>
     k_interrupt_nest k' = k_interrupt_nest k \<and> k_sem k' = k_sem k \<and> k_mutex k' = k_mutex k \<and>
     k_event k' = k_event k \<and> k_mb k' = k_mb k \<and> k_mq k' = k_mq k \<and>
     (\<forall>r. obj_type (k_obj k' r) = obj_type (k_obj k r))"

lemma running_not_waiting:
  assumes "kernel_inv n base k" "running (stat c k)"
  shows "c \<notin> set (k_queue k (Wait w))"
  using wait_queue_suspended [OF assms(1), of c w] assms(2) by (blast dest: stat_exclusive(1))

lemma block_state_blocked:
  assumes "kernel_inv n base k" "running (stat c k)"
  shows "blocked w flag c k (block_state w flag c sf k)"
  using running_not_waiting [OF assms] by (simp add: blocked_def)

lemma block_arm:
  assumes ok: "kernel_ok k" and c: "can_block c k" and flag: "flag \<in> {RT_IPC_FLAG_FIFO, RT_IPC_FLAG_PRIO}"
    and sig: "lwp_suspend_sigcheck c sf k" and time: "wait_time time"
  shows "\<exists>k2 k'. rt_ipc_list_suspend w c flag sf k = Some (RT_EOK, k2) \<and>
    arm_if_positive c time k2 = Some k' \<and> kernel_ok k' \<and> blocked w flag c k k'"
proof -
  let ?k = "block_state w flag c sf k"
  have inv: "kernel_inv (half - 1) (k_tick k) k" using ok by (simp add: kernel_ok_def)
  have r: "running (stat c k)" "c \<noteq> idle_thread" using c by (simp_all add: can_block_def)
  have s: "rt_ipc_list_suspend w c flag sf k = Some (RT_EOK, ?k)"
    using ipc_list_suspend_eq [OF inv _ flag, of c w sf] r sig by simp
  have ok2: "kernel_ok ?k" using block_state_inv [OF inv] r by (simp add: kernel_ok_def)
  have b: "blocked w flag c k ?k" by (rule block_state_blocked [OF inv r(1)])
  show ?thesis
  proof (cases "0 < sint time")
    case True
    then have th: "time < RT_TICK_HALF" using time positive_time by (simp add: wait_time_def)
    have "arm_thread_timer c time ?k = Some (arm_state c time ?k)"
      using arm_eq [of _ _ ?k c time] ok2 th unfolding kernel_ok_def by simp
    moreover have "kernel_ok (arm_state c time ?k)" using arm_state_ok [OF ok2] th by simp
    moreover have "blocked w flag c k (arm_state c time ?k)" using b by (simp add: blocked_def)
    ultimately show ?thesis using s True by (simp add: arm_if_positive_def)
  next
    case False
    with s ok2 b show ?thesis by (simp add: arm_if_positive_def)
  qed
qed

end
