(* ===== verification/Sample.thy ===== *)
theory Sample
  imports Ipc
begin

text \<open>
  A concrete kernel state on which the properties of the IPC objects are instantiated: the
  idle thread is ready at priority 31, thread 2 runs at priority 10, thread 3 of priority 5
  waits on a given list, thread 4 of priority 10 is ready. Every object is initialised and
  static, every IPC object is in FIFO mode, no timer runs.
\<close>

definition class_of :: "objref \<Rightarrow> u8" where
  "class_of r = (case r of O_thread _ \<Rightarrow> RT_Object_Class_Thread | O_timer _ \<Rightarrow> RT_Object_Class_Timer
     | O_sem _ \<Rightarrow> RT_Object_Class_Semaphore | O_mutex _ \<Rightarrow> RT_Object_Class_Mutex
     | O_event _ \<Rightarrow> RT_Object_Class_Event | O_mb _ \<Rightarrow> RT_Object_Class_MailBox
     | O_mq _ \<Rightarrow> RT_Object_Class_MessageQueue)"

definition sample_timer :: "timer_ref \<Rightarrow> rt_timer" where
  "sample_timer m = (case m of
     T_thread t \<Rightarrow> \<lparr>timeout_func = Rt_thread_timeout, parameter = t, init_tick = 0, timeout_tick = 0\<rparr>
   | T_user n \<Rightarrow> \<lparr>timeout_func = User_timeout n, parameter = 0, init_tick = 10, timeout_tick = 0\<rparr>)"

definition waiting_kernel :: "waitq \<Rightarrow> kernel" where
  "waiting_kernel w = kernel0\<lparr>
     k_obj := (\<lambda>r. \<lparr>obj_name = [], obj_type = class_of r OR RT_Object_Class_Static, obj_flag = 0\<rparr>),
     k_timer := sample_timer,
     k_thread := (\<lambda>_. thread0)(0 := sample_thread RT_THREAD_READY 31, 2 := sample_thread RT_THREAD_RUNNING 10,
       3 := sample_thread RT_THREAD_SUSPEND_UNINTERRUPTIBLE 5, 4 := sample_thread RT_THREAD_READY 10),
     k_queue := (\<lambda>_. [])(Ready 31 := [0], Ready 10 := [4], Wait w := [3]),
     k_ready_group := 2 ^ 31 OR 2 ^ 10, k_current := Some 2\<rparr>"

lemma sample_bits: "p < 32 \<Longrightarrow> bit (2 ^ 31 OR 2 ^ 10 :: u32) p \<longleftrightarrow> p = 31 \<or> p = 10"
  unfolding bit_or_iff using bit_two_power [where 'a = 32, of p 31] bit_two_power [where 'a = 32, of p 10]
  by simp

lemma class_simps [simp]:
  "(class_of r OR RT_Object_Class_Static) AND NOT RT_Object_Class_Static = class_of r"
  by (cases r) (simp_all add: class_of_def)

lemma stat7 [simp]: "suspended 7" "\<not> ready 7" "\<not> running 7" "\<not> closed 7" "started 7"
  by (simp_all add: running_def ready_def closed_def suspended_def started_def)

lemma waiting_kernel_sched: "sched_ok {} (waiting_kernel w)"
proof -
  have "bitmap_ok (waiting_kernel w)"
    unfolding bitmap_ok_def using sample_bits by (auto simp: waiting_kernel_def)
  moreover have "separate (k_queue (waiting_kernel w))"
    by (auto simp: separate_def waiting_kernel_def)
  moreover have "thread_ok t (waiting_kernel w)" for t
    by (auto simp: thread_ok_def waiting_kernel_def sample_thread_def prio_ok_def thread0_def)
  ultimately show ?thesis by (simp add: sched_ok_def)
qed

lemma waiting_kernel_ok: "kernel_ok (waiting_kernel w)"
proof -
  have "thread_timer_ok t (waiting_kernel w)" for t
    by (simp add: thread_timer_ok_def is_thread_def is_timer_def rt_object_get_type_def waiting_kernel_def
        sample_timer_def soft_def periodic_def del: class_simps)
      (simp add: class_of_def)
  moreover have "cpu_ok (waiting_kernel w)"
    by (simp add: cpu_ok_def waiting_kernel_def sample_thread_def)
  moreover have "k_timer_list (waiting_kernel w) = []" by (simp add: waiting_kernel_def kernel0_def)
  ultimately show ?thesis
    using waiting_kernel_sched [of w] by (simp add: kernel_ok_def kernel_inv_def tick_sorted_def)
qed

lemma waiting_kernel_sel [simp]:
  "k_current (waiting_kernel w) = Some 2" "k_interrupt_nest (waiting_kernel w) = 0"
  "k_lock_nest (waiting_kernel w) = 0" "k_tick (waiting_kernel w) = 0"
  "k_queue (waiting_kernel w) (Wait v) = (if v = w then [3] else [])"
  "obj_flag (k_obj (waiting_kernel w) r) = 0"
  "rt_object_get_type r (waiting_kernel w) = class_of r"
  "stat 2 (waiting_kernel w) = 3" "stat 3 (waiting_kernel w) = 7" "stat 4 (waiting_kernel w) = 2"
  "prio 2 (waiting_kernel w) = 10" "prio 3 (waiting_kernel w) = 5" "prio 4 (waiting_kernel w) = 10"
  "th_signal (k_thread (waiting_kernel w) t) = 0" "th_lwp (k_thread (waiting_kernel w) t) = None"
  "th_event_set (k_thread (waiting_kernel w) t) = 0" "th_event_info (k_thread (waiting_kernel w) t) = 0"
  "k_sem (waiting_kernel w) x = 0" "k_event (waiting_kernel w) x = 0"
proof -
  show "rt_object_get_type r (waiting_kernel w) = class_of r"
    unfolding rt_object_get_type_def waiting_kernel_def by (cases r) (simp_all add: class_of_def)
qed (simp_all add: waiting_kernel_def kernel0_def sample_thread_def thread0_def)

lemma waiting_kernel_sig [simp]: "lwp_suspend_sigcheck t f (waiting_kernel w)"
  by (cases f) (simp_all add: lwp_suspend_sigcheck_def lwp_sigisemptyset_def lwp_sigismember_def)

lemma waiting_kernel_block [simp]: "can_block 2 (waiting_kernel w)"
  by (simp add: can_block_def)

end
