(* ===== verification/Sem.thy ===== *)
theory Sem
  imports Sample
begin

text \<open>
  The counting semaphore of \<^verbatim>\<open>src/ipc.c\<close>. A semaphore has a 16-bit value and a wait list.
  The abstract semaphore at the end is a number of free units and the list of waiters.
\<close>

section \<open>The operations\<close>

abbreviation RT_SEM_VALUE_MAX :: u16 where "RT_SEM_VALUE_MAX \<equiv> 0xffff"

definition is_sem :: "nat \<Rightarrow> kernel \<Rightarrow> bool" where
  "is_sem s k \<longleftrightarrow> rt_object_get_type (O_sem s) k = RT_Object_Class_Semaphore"

definition set_sem_value :: "nat \<Rightarrow> u16 \<Rightarrow> kernel \<Rightarrow> kernel" where
  "set_sem_value s v k = k\<lparr>k_sem := (k_sem k)(s := v)\<rparr>"

definition sem_setup :: "nat \<Rightarrow> u32 \<Rightarrow> u8 \<Rightarrow> kernel \<Rightarrow> kernel" where
  "sem_setup s v flag k =
    (let k = rt_ipc_object_init (Sem_q s) k;
         k = set_sem_value s (ucast v) k
     in upd_obj (O_sem s) (obj_flag_update (\<lambda>_. flag)) k)"

definition rt_sem_init :: "nat \<Rightarrow> string \<Rightarrow> u32 \<Rightarrow> u8 \<Rightarrow> kernel \<Rightarrow> (rt_err_t \<times> kernel) option" where
  "rt_sem_init s name v flag k = do {
    RT_ASSERT (v < 0x10000);
    k \<leftarrow> rt_object_init (O_sem s) RT_Object_Class_Semaphore name k;
    Some (RT_EOK, sem_setup s v flag k)
  }"

definition rt_sem_detach :: "nat \<Rightarrow> kernel \<Rightarrow> (rt_err_t \<times> kernel) option" where
  "rt_sem_detach s k = do {
    RT_ASSERT (is_sem s k);
    RT_ASSERT (rt_object_is_systemobject (O_sem s) k);
    (_, k) \<leftarrow> rt_ipc_list_resume_all (Sem_q s) k;
    Some (RT_EOK, rt_object_detach (O_sem s) k)
  }"

definition rt_sem_create ::
    "string \<Rightarrow> u32 \<Rightarrow> u8 \<Rightarrow> nat option \<Rightarrow> kernel \<Rightarrow> (nat option \<times> kernel) option" where
  "rt_sem_create name v flag mem k = do {
    RT_DEBUG_NOT_IN_INTERRUPT k;
    RT_ASSERT (v < 0x10000);
    (object, k) \<leftarrow> rt_object_allocate RT_Object_Class_Semaphore name (map_option O_sem mem) k;
    case object of
      Some (O_sem s) \<Rightarrow> Some (Some s, sem_setup s v flag k)
    | _ \<Rightarrow> Some (None, k)
  }"

definition rt_sem_delete :: "nat \<Rightarrow> kernel \<Rightarrow> (rt_err_t \<times> kernel) option" where
  "rt_sem_delete s k = do {
    RT_DEBUG_NOT_IN_INTERRUPT k;
    RT_ASSERT (is_sem s k);
    RT_ASSERT (\<not> rt_object_is_systemobject (O_sem s) k);
    (_, k) \<leftarrow> rt_ipc_list_resume_all (Sem_q s) k;
    k \<leftarrow> rt_object_delete (O_sem s) k;
    Some (RT_EOK, k)
  }"

definition sem_take :: "nat \<Rightarrow> u32 \<Rightarrow> suspend_flag \<Rightarrow> kernel \<Rightarrow> ((rt_err_t, ipc_kont) outcome \<times> kernel) option" where
  "sem_take s time suspend_flag k = do {
    RT_ASSERT (is_sem s k);
    if k_sem k s > 0 then Some (Return RT_EOK, set_sem_value s (k_sem k s - 1) k)
    else if time = 0 then Some (Return (- RT_ETIMEOUT), k)
    else do {
      RT_DEBUG_IN_THREAD_CONTEXT k;
      t \<leftarrow> rt_thread_self k;
      let k = set_error t (- RT_EINTR) k;
      (ret, k) \<leftarrow> rt_ipc_list_suspend (Sem_q s) t (obj_flag (k_obj k (O_sem s))) suspend_flag k;
      if ret \<noteq> RT_EOK then Some (Return ret, k)
      else do {
        k \<leftarrow> arm_if_positive t time k;
        Some (Reschedule K_wait, k)
      }
    }
  }"

definition rt_sem_take :: "nat \<Rightarrow> u32 \<Rightarrow> kernel \<Rightarrow> ((rt_err_t, ipc_kont) outcome \<times> kernel) option" where
  "rt_sem_take s time k = sem_take s time RT_UNINTERRUPTIBLE k"

definition rt_sem_take_interruptible :: "nat \<Rightarrow> u32 \<Rightarrow> kernel \<Rightarrow> ((rt_err_t, ipc_kont) outcome \<times> kernel) option" where
  "rt_sem_take_interruptible s time k = sem_take s time RT_INTERRUPTIBLE k"

definition rt_sem_take_killable :: "nat \<Rightarrow> u32 \<Rightarrow> kernel \<Rightarrow> ((rt_err_t, ipc_kont) outcome \<times> kernel) option" where
  "rt_sem_take_killable s time k = sem_take s time RT_KILLABLE k"

definition rt_sem_trytake :: "nat \<Rightarrow> kernel \<Rightarrow> ((rt_err_t, ipc_kont) outcome \<times> kernel) option" where
  "rt_sem_trytake s k = rt_sem_take s 0 k"

definition rt_sem_release :: "nat \<Rightarrow> kernel \<Rightarrow> ((rt_err_t, ipc_kont) outcome \<times> kernel) option" where
  "rt_sem_release s k = do {
    RT_ASSERT (is_sem s k);
    if k_queue k (Wait (Sem_q s)) \<noteq> []
    then do {
      (_, k) \<leftarrow> rt_ipc_list_resume (Sem_q s) k;
      Some (Reschedule (K_return RT_EOK), k)
    }
    else if k_sem k s < RT_SEM_VALUE_MAX
    then Some (Return RT_EOK, set_sem_value s (k_sem k s + 1) k)
    else Some (Return (- RT_EFULL), k)
  }"

definition rt_sem_control :: "nat \<Rightarrow> ipc_cmd \<Rightarrow> kernel \<Rightarrow> ((rt_err_t, ipc_kont) outcome \<times> kernel) option" where
  "rt_sem_control s cmd k = do {
    RT_ASSERT (is_sem s k);
    case cmd of
      RT_IPC_CMD_RESET v \<Rightarrow> do {
        (_, k) \<leftarrow> rt_ipc_list_resume_all (Sem_q s) k;
        Some (Reschedule (K_return RT_EOK), set_sem_value s (ucast v) k)
      }
    | RT_IPC_CMD_OTHER \<Rightarrow> Some (Return (- RT_ERROR), k)
  }"

section \<open>The abstract semaphore\<close>

definition abs_sem :: "nat \<Rightarrow> kernel \<Rightarrow> nat \<times> tid list" where
  "abs_sem s k = (unat (k_sem k s), k_queue k (Wait (Sem_q s)))"

text \<open>Units are free only while nobody waits.\<close>

definition sem_inv :: "nat \<Rightarrow> kernel \<Rightarrow> bool" where
  "sem_inv s k \<longleftrightarrow> k_sem k s = 0 \<or> k_queue k (Wait (Sem_q s)) = []"

definition sem_flag_ok :: "nat \<Rightarrow> kernel \<Rightarrow> bool" where
  "sem_flag_ok s k \<longleftrightarrow> obj_flag (k_obj k (O_sem s)) \<in> {RT_IPC_FLAG_FIFO, RT_IPC_FLAG_PRIO}"

definition release_spec :: "nat \<times> tid list \<Rightarrow> nat \<times> tid list" where
  "release_spec = (\<lambda>(v, ws). case ws of [] \<Rightarrow> (min (v + 1) (unat RT_SEM_VALUE_MAX), []) | t # ts \<Rightarrow> (v, ts))"

definition take_spec :: "(tid list \<Rightarrow> tid list) \<Rightarrow> nat \<times> tid list \<Rightarrow> nat \<times> tid list" where
  "take_spec ins = (\<lambda>(v, ws). if v > 0 then (v - 1, ws) else (0, ins ws))"

lemma set_sem_value_frame [simp]:
  "k_queue (set_sem_value s v k) = k_queue k" "k_sem (set_sem_value s v k) s = v"
  "k_tick (set_sem_value s v k) = k_tick k" "kernel_inv n base (set_sem_value s v k) = kernel_inv n base k"
  by (simp_all add: set_sem_value_def)

lemma kernel_ok_inv: "kernel_ok k \<Longrightarrow> k_tick k' = k_tick k \<Longrightarrow> kernel_inv (half - 1) (k_tick k) k' \<Longrightarrow> kernel_ok k'"
  by (simp add: kernel_ok_def)

lemma kernel_ok_set_error [simp]: "kernel_ok (set_error t e k) = kernel_ok k"
  by (simp add: kernel_ok_def)

lemma sem_take_blocks:
  assumes ok: "kernel_ok k" and s: "is_sem s k" "sem_flag_ok s k" and v: "k_sem k s = 0"
    and time: "wait_time time" and c: "can_block c k" and sig: "lwp_suspend_sigcheck c sf k"
  shows "\<exists>k'. sem_take s time sf k = Some (Reschedule K_wait, k') \<and> kernel_ok k' \<and>
    blocked (Sem_q s) (obj_flag (k_obj k (O_sem s))) c (set_error c (- RT_EINTR) k) k'"
proof -
  let ?f = "obj_flag (k_obj k (O_sem s))" and ?k = "set_error c (- RT_EINTR) k"
  obtain k2 k' where k': "rt_ipc_list_suspend (Sem_q s) c ?f sf ?k = Some (RT_EOK, k2)"
      "arm_if_positive c time k2 = Some k'" "kernel_ok k'" "blocked (Sem_q s) ?f c ?k k'"
    using block_arm [of ?k c ?f sf time "Sem_q s"] ok c s(2) sig time
    by (auto simp: can_block_def sem_flag_ok_def)
  then show ?thesis
    using s(1) v time c
    by (simp add: sem_take_def RT_DEBUG_IN_THREAD_CONTEXT_def rt_thread_self_def can_block_def wait_time_def)
qed

lemma sem_release_wakes:
  assumes ok: "kernel_ok k" and s: "is_sem s k" and q: "k_queue k (Wait (Sem_q s)) = t # ts"
  shows "rt_sem_release s k = Some (Reschedule (K_return RT_EOK), resume_state t (set_error t RT_EOK k)) \<and>
    kernel_ok (resume_state t (set_error t RT_EOK k)) \<and>
    k_queue (resume_state t (set_error t RT_EOK k)) (Wait (Sem_q s)) = ts"
proof -
  have inv: "kernel_inv (half - 1) (k_tick k) k" using ok by (simp add: kernel_ok_def)
  have "t \<notin> set ts"
    using sched_okD(1) [OF kernel_invD(1) [OF inv]] q unfolding separate_def by (metis distinct.simps(2))
  with ipc_list_resume_eq [OF inv q] s q show ?thesis
    by (simp add: rt_sem_release_def kernel_ok_def resume_state_wait_queue)
qed

section \<open>Properties\<close>

text \<open>C21: Taking a semaphore with a waiting time refines the abstract semaphore and keeps the
  kernel invariant: it returns \<open>RT_EOK\<close> and uses up a unit when one is free; otherwise the
  calling thread is suspended, put on the wait list in the order of the semaphore's flag with
  its error field set to \<open>-RT_EINTR\<close>, and the call goes on to reschedule.\<close>

theorem sem_take_refines:
  assumes "kernel_ok k" "is_sem s k" "sem_flag_ok s k" "sem_inv s k"
    and "wait_time time" "can_block c k" "lwp_suspend_sigcheck c sf k"
  shows "\<exists>r k'. sem_take s time sf k = Some (r, k') \<and> kernel_ok k' \<and> sem_inv s k' \<and>
    abs_sem s k' = take_spec (wait_insert (obj_flag (k_obj k (O_sem s))) c k) (abs_sem s k) \<and>
    (if k_sem k s > 0 then r = Return RT_EOK
     else r = Reschedule K_wait \<and> suspended (stat c k') \<and> th_error (k_thread k' c) = - RT_EINTR)"
proof (cases "k_sem k s = 0")
  case True
  obtain k' where "sem_take s time sf k = Some (Reschedule K_wait, k')" "kernel_ok k'"
      "blocked (Sem_q s) (obj_flag (k_obj k (O_sem s))) c (set_error c (- RT_EINTR) k) k'"
    using sem_take_blocks [OF assms(1-3) True assms(5-7)] by blast
  with True show ?thesis
    by (simp add: blocked_def sem_inv_def abs_sem_def take_spec_def wait_insert_def)
next
  case False
  then have v: "k_sem k s > 0" by (simp add: word_gt_0)
  then have "unat (k_sem k s - 1) = unat (k_sem k s) - 1" by (simp add: unat_minus_one word_gt_0)
  with v assms show ?thesis
    by (auto simp: sem_take_def kernel_ok_def sem_inv_def abs_sem_def take_spec_def word_gt_0 unat_gt_0)
qed

theorem sem_take_refines_witness:
  "\<exists>r k'. sem_take 0 5 RT_INTERRUPTIBLE (waiting_kernel (Sem_q 0)) = Some (r, k') \<and> kernel_ok k' \<and>
    r = Reschedule K_wait \<and> abs_sem 0 k' = (0, [3, 2])"
proof -
  let ?k = "waiting_kernel (Sem_q 0)"
  have "is_sem 0 ?k"
    by (simp add: is_sem_def class_of_def)
  moreover have "sem_flag_ok 0 ?k" "sem_inv 0 ?k" "wait_time 5" "can_block 2 ?k"
      "lwp_suspend_sigcheck 2 RT_INTERRUPTIBLE ?k"
    by (simp_all add: sem_flag_ok_def sem_inv_def wait_time_def can_block_def lwp_suspend_sigcheck_def
        waiting_kernel_def kernel0_def sample_thread_def thread0_def lwp_sigisemptyset_def)
  ultimately show ?thesis
    using sem_take_refines [OF waiting_kernel_ok, of 0 "Sem_q 0" 5 2 RT_INTERRUPTIBLE]
    by (auto simp: abs_sem_def take_spec_def waiting_kernel_def kernel0_def wait_insert_def)
qed

text \<open>C22: Releasing a semaphore refines the abstract semaphore and keeps the kernel invariant: the
  first waiter, if there is one, is made ready with its error field \<open>RT_EOK\<close> and the unit goes to
  it; without waiters the value is increased, and at 65535 the call fails with \<open>-RT_EFULL\<close> and
  changes nothing.\<close>

theorem sem_release_refines:
  assumes "kernel_ok k" "is_sem s k" "sem_inv s k"
  shows "\<exists>r k'. rt_sem_release s k = Some (r, k') \<and> kernel_ok k' \<and> sem_inv s k' \<and>
    abs_sem s k' = release_spec (abs_sem s k) \<and>
    (case k_queue k (Wait (Sem_q s)) of
       [] \<Rightarrow> if k_sem k s = RT_SEM_VALUE_MAX then r = Return (- RT_EFULL) \<and> k' = k else r = Return RT_EOK
     | t # ts \<Rightarrow> r = Reschedule (K_return RT_EOK) \<and> th_error (k_thread k' t) = RT_EOK \<and>
         (ready (stat t k') \<or> running (stat t k')))"
proof (cases "k_queue k (Wait (Sem_q s))")
  case Nil
  have "unat (k_sem k s) < 65535" if "k_sem k s \<noteq> RT_SEM_VALUE_MAX"
    using that u16_less_max [of "k_sem k s"] by (simp add: word_less_nat_alt)
  then show ?thesis
    using Nil assms by (auto simp: u16_less_max u16_Suc rt_sem_release_def kernel_ok_def sem_inv_def abs_sem_def release_spec_def)
next
  case (Cons t ts)
  with sem_release_wakes [OF assms(1,2) Cons] assms(3) show ?thesis
    by (auto simp: sem_inv_def abs_sem_def release_spec_def)
qed

theorem sem_release_refines_witness:
  "\<exists>r k'. rt_sem_release 0 (waiting_kernel (Sem_q 0)) = Some (r, k') \<and> kernel_ok k' \<and>
    abs_sem 0 k' = (0, []) \<and> r = Reschedule (K_return RT_EOK)"
proof -
  let ?k = "waiting_kernel (Sem_q 0)"
  have "is_sem 0 ?k"
    by (simp add: is_sem_def class_of_def)
  moreover have "sem_inv 0 ?k" by (simp add: sem_inv_def waiting_kernel_def kernel0_def)
  ultimately show ?thesis
    using sem_release_refines [OF waiting_kernel_ok, of 0 "Sem_q 0"]
    by (auto simp: abs_sem_def release_spec_def waiting_kernel_def kernel0_def)
qed

text \<open>In priority mode a wait list that is sorted by priority stays sorted: the new waiter goes
  behind all threads of the same or a higher priority (a smaller or equal number) and in front
  of all threads of a lower one, so equal priorities are served in arrival order.\<close>

theorem wait_list_prio_order:
  assumes "kernel_ok k" "can_block c k" "lwp_suspend_sigcheck c sf k"
    and "sorted (map (\<lambda>t. prio t k) (k_queue k (Wait w)))"
  shows "\<exists>k' us vs. rt_ipc_list_suspend w c RT_IPC_FLAG_PRIO sf k = Some (RT_EOK, k') \<and>
    k_queue k (Wait w) = us @ vs \<and> k_queue k' (Wait w) = us @ c # vs \<and>
    (\<forall>u \<in> set us. prio u k \<le> prio c k) \<and> (\<forall>v \<in> set vs. prio c k < prio v k) \<and>
    sorted (map (\<lambda>t. prio t k') (k_queue k' (Wait w)))"
proof -
  have inv: "kernel_inv (half - 1) (k_tick k) k" using assms(1) by (simp add: kernel_ok_def)
  have r: "running (stat c k)" using assms(2) by (simp add: can_block_def)
  let ?P = "\<lambda>u. prio u k \<le> prio c k" and ?q = "k_queue k (Wait w)"
  let ?k = "block_state w RT_IPC_FLAG_PRIO c sf k"
  define us vs where "us = takeWhile ?P ?q" and "vs = dropWhile ?P ?q"
  have call: "rt_ipc_list_suspend w c RT_IPC_FLAG_PRIO sf k = Some (RT_EOK, ?k)"
    using ipc_list_suspend_eq [OF inv, of c RT_IPC_FLAG_PRIO w sf] r assms(3) by simp
  have q: "k_queue ?k (Wait w) = us @ c # vs" "?q = us @ vs"
    using running_not_waiting [OF inv r, of w] by (simp_all add: wait_insert_def us_def vs_def)
  have us: "\<forall>u \<in> set us. ?P u" by (auto simp: us_def dest: set_takeWhileD)
  have so: "sorted (map (\<lambda>t. prio t k) (us @ vs))" using assms(4) q(2) by simp
  have hd: "prio c k < prio v k" if "vs = v # vs'" for v vs'
    using that dropWhile_eq_Cons_conv [of ?P ?q v vs'] by (simp add: not_le vs_def)
  have vs: "\<forall>v \<in> set vs. prio c k < prio v k"
    using so hd by (cases vs) (auto simp: sorted_append intro: less_le_trans)
  have "sorted (map (\<lambda>t. prio t ?k) (k_queue ?k (Wait w)))"
    using so us vs unfolding q by (auto simp: sorted_append)
  with call q us vs show ?thesis
    by (intro exI [of _ ?k] exI [of _ us] exI [of _ vs]) simp
qed

theorem wait_list_prio_order_witness:
  "\<exists>k' us vs. rt_ipc_list_suspend (Sem_q 0) 2 RT_IPC_FLAG_PRIO RT_KILLABLE (waiting_kernel (Sem_q 0)) =
      Some (RT_EOK, k') \<and> [3] = us @ vs \<and> k_queue k' (Wait (Sem_q 0)) = us @ 2 # vs"
proof -
  let ?k = "waiting_kernel (Sem_q 0)"
  have "can_block 2 ?k" "lwp_suspend_sigcheck 2 RT_KILLABLE ?k" "k_queue ?k (Wait (Sem_q 0)) = [3]"
    by (simp_all add: can_block_def lwp_suspend_sigcheck_def waiting_kernel_def kernel0_def sample_thread_def
        thread0_def lwp_sigismember_def)
  then show ?thesis
    using wait_list_prio_order [OF waiting_kernel_ok, of 2 "Sem_q 0" RT_KILLABLE "Sem_q 0"] by auto
qed

text \<open>Resetting a semaphore returns for any number of waiters, wakes every one of them with
  the error \<open>-RT_ERROR\<close>, leaves the wait list empty, and sets the value to the low 16 bits of
  the argument.\<close>

theorem sem_reset_wakes_all:
  assumes "kernel_ok k" "is_sem s k"
  shows "\<exists>k'. rt_sem_control s (RT_IPC_CMD_RESET v) k = Some (Reschedule (K_return RT_EOK), k') \<and>
    kernel_ok k' \<and> k_queue k' (Wait (Sem_q s)) = [] \<and> k_sem k' s = ucast v \<and>
    (\<forall>t \<in> set (k_queue k (Wait (Sem_q s))). th_error (k_thread k' t) = - RT_ERROR \<and>
      (ready (stat t k') \<or> running (stat t k')))"
proof -
  obtain k' where k': "rt_ipc_list_resume_all (Sem_q s) k = Some (RT_EOK, k')"
      "kernel_inv (half - 1) (k_tick k) k'" "all_woken (Sem_q s) k k'"
    using ipc_resume_all [of "half - 1" "k_tick k" k "Sem_q s"] assms(1) unfolding kernel_ok_def by blast
  let ?k = "set_sem_value s (ucast v) k'"
  have "k_thread ?k = k_thread k'" by (simp add: set_sem_value_def)
  moreover have "kernel_ok ?k" using k'(2,3) by (simp add: kernel_ok_def all_woken_def)
  ultimately show ?thesis
    using k'(1,3) assms(2) by (simp add: rt_sem_control_def all_woken_def)
qed

theorem sem_reset_wakes_all_witness:
  "\<exists>k'. rt_sem_control 0 (RT_IPC_CMD_RESET 4) (waiting_kernel (Sem_q 0)) = Some (Reschedule (K_return RT_EOK), k') \<and>
    k_sem k' 0 = 4 \<and> th_error (k_thread k' 3) = - RT_ERROR"
proof -
  let ?k = "waiting_kernel (Sem_q 0)"
  have "is_sem 0 ?k"
    by (simp add: is_sem_def class_of_def)
  moreover have "3 \<in> set (k_queue ?k (Wait (Sem_q 0)))" by (simp add: waiting_kernel_def)
  ultimately show ?thesis
    using sem_reset_wakes_all [OF waiting_kernel_ok, of 0 "Sem_q 0" 4] by fastforce
qed

end
