(* ===== verification/Mutex.thy ===== *)
theory Mutex
  imports Sem
begin

text \<open>
  The mutex of \<^verbatim>\<open>src/ipc.c\<close>: recursive, owned by a thread, with priority inheritance (a thread
  that blocks lends its priority to the owner) and direct hand-over to the first waiter.
\<close>

section \<open>The operations\<close>

abbreviation RT_MUTEX_VALUE_MAX :: u16 where "RT_MUTEX_VALUE_MAX \<equiv> 0xffff"
abbreviation RT_MUTEX_HOLD_MAX :: u8 where "RT_MUTEX_HOLD_MAX \<equiv> 0xff"

definition is_mutex :: "nat \<Rightarrow> kernel \<Rightarrow> bool" where
  "is_mutex m k \<longleftrightarrow> rt_object_get_type (O_mutex m) k = RT_Object_Class_Mutex"

definition upd_mutex :: "nat \<Rightarrow> (rt_mutex \<Rightarrow> rt_mutex) \<Rightarrow> kernel \<Rightarrow> kernel" where
  "upd_mutex m f k = k\<lparr>k_mutex := (k_mutex k)(m := f (k_mutex k m))\<rparr>"

definition mutex_setup :: "nat \<Rightarrow> u8 \<Rightarrow> kernel \<Rightarrow> kernel" where
  "mutex_setup m flag k =
    (let k = rt_ipc_object_init (Mutex_q m) k;
         k = upd_mutex m (\<lambda>_. \<lparr>mx_value = 1, mx_original_priority = 0xff, mx_hold = 0, mx_owner = None\<rparr>) k
     in upd_obj (O_mutex m) (obj_flag_update (\<lambda>_. flag)) k)"

definition rt_mutex_init :: "nat \<Rightarrow> string \<Rightarrow> u8 \<Rightarrow> kernel \<Rightarrow> (rt_err_t \<times> kernel) option" where
  "rt_mutex_init m name flag k = do {
    k \<leftarrow> rt_object_init (O_mutex m) RT_Object_Class_Mutex name k;
    Some (RT_EOK, mutex_setup m flag k)
  }"

definition rt_mutex_detach :: "nat \<Rightarrow> kernel \<Rightarrow> (rt_err_t \<times> kernel) option" where
  "rt_mutex_detach m k = do {
    RT_ASSERT (is_mutex m k);
    RT_ASSERT (rt_object_is_systemobject (O_mutex m) k);
    (_, k) \<leftarrow> rt_ipc_list_resume_all (Mutex_q m) k;
    Some (RT_EOK, rt_object_detach (O_mutex m) k)
  }"

definition rt_mutex_create :: "string \<Rightarrow> u8 \<Rightarrow> nat option \<Rightarrow> kernel \<Rightarrow> (nat option \<times> kernel) option" where
  "rt_mutex_create name flag mem k = do {
    RT_DEBUG_NOT_IN_INTERRUPT k;
    (object, k) \<leftarrow> rt_object_allocate RT_Object_Class_Mutex name (map_option O_mutex mem) k;
    case object of
      Some (O_mutex m) \<Rightarrow> Some (Some m, mutex_setup m flag k)
    | _ \<Rightarrow> Some (None, k)
  }"

definition rt_mutex_delete :: "nat \<Rightarrow> kernel \<Rightarrow> (rt_err_t \<times> kernel) option" where
  "rt_mutex_delete m k = do {
    RT_DEBUG_NOT_IN_INTERRUPT k;
    RT_ASSERT (is_mutex m k);
    RT_ASSERT (\<not> rt_object_is_systemobject (O_mutex m) k);
    (_, k) \<leftarrow> rt_ipc_list_resume_all (Mutex_q m) k;
    k \<leftarrow> rt_object_delete (O_mutex m) k;
    Some (RT_EOK, k)
  }"

definition mutex_take :: "nat \<Rightarrow> u32 \<Rightarrow> suspend_flag \<Rightarrow> kernel \<Rightarrow> ((rt_err_t, ipc_kont) outcome \<times> kernel) option" where
  "mutex_take m time suspend_flag k = do {
    RT_DEBUG_IN_THREAD_CONTEXT k;
    RT_ASSERT (is_mutex m k);
    t \<leftarrow> rt_thread_self k;
    let k = set_error t (- RT_EINTR) k;
    let mutex = k_mutex k m;
    if mx_owner mutex = Some t
    then (if mx_hold mutex < RT_MUTEX_HOLD_MAX
          then Some (Return RT_EOK, upd_mutex m (\<lambda>x. x\<lparr>mx_hold := mx_hold x + 1\<rparr>) k)
          else Some (Return (- RT_EFULL), k))
    else if mx_value mutex > 0
    then (let k = upd_mutex m (\<lambda>x. x\<lparr>mx_value := mx_value x - 1, mx_owner := Some t,
                                mx_original_priority := prio t k\<rparr>) k
          in if mx_hold (k_mutex k m) < RT_MUTEX_HOLD_MAX
             then Some (Return RT_EOK, upd_mutex m (\<lambda>x. x\<lparr>mx_hold := mx_hold x + 1\<rparr>) k)
             else Some (Return (- RT_EFULL), k))
    else if time = 0 then Some (Return (- RT_ETIMEOUT), set_error t (- RT_ETIMEOUT) k)
    else do {
      owner \<leftarrow> mx_owner mutex;
      k \<leftarrow> (if prio t k < prio owner k
           then map_option snd (rt_thread_control owner (RT_THREAD_CTRL_CHANGE_PRIORITY (prio t k)) k)
           else Some k);
      (ret, k) \<leftarrow> rt_ipc_list_suspend (Mutex_q m) t (obj_flag (k_obj k (O_mutex m))) suspend_flag k;
      if ret \<noteq> RT_EOK then Some (Return ret, k)
      else do {
        k \<leftarrow> arm_if_positive t time k;
        Some (Reschedule K_wait, k)
      }
    }
  }"

definition rt_mutex_take :: "nat \<Rightarrow> u32 \<Rightarrow> kernel \<Rightarrow> ((rt_err_t, ipc_kont) outcome \<times> kernel) option" where
  "rt_mutex_take m time k = mutex_take m time RT_UNINTERRUPTIBLE k"

definition rt_mutex_take_interruptible :: "nat \<Rightarrow> u32 \<Rightarrow> kernel \<Rightarrow> ((rt_err_t, ipc_kont) outcome \<times> kernel) option" where
  "rt_mutex_take_interruptible m time k = mutex_take m time RT_INTERRUPTIBLE k"

definition rt_mutex_take_killable :: "nat \<Rightarrow> u32 \<Rightarrow> kernel \<Rightarrow> ((rt_err_t, ipc_kont) outcome \<times> kernel) option" where
  "rt_mutex_take_killable m time k = mutex_take m time RT_KILLABLE k"

text \<open>The part of \<open>rt_mutex_release\<close> after the last hold is gone: hand the mutex to the first
  waiter or free it.\<close>

definition mutex_hand_over :: "nat \<Rightarrow> kernel \<Rightarrow> ((rt_err_t, ipc_kont) outcome \<times> kernel) option" where
  "mutex_hand_over m k =
    (case k_queue k (Wait (Mutex_q m)) of
       t # _ \<Rightarrow>
         (let k = upd_mutex m (\<lambda>x. x\<lparr>mx_owner := Some t, mx_original_priority := prio t k\<rparr>) k
          in if mx_hold (k_mutex k m) < RT_MUTEX_HOLD_MAX
             then do {
               let k = upd_mutex m (\<lambda>x. x\<lparr>mx_hold := mx_hold x + 1\<rparr>) k;
               (_, k) \<leftarrow> rt_ipc_list_resume (Mutex_q m) k;
               Some (Reschedule (K_return RT_EOK), k)
             }
             else Some (Return (- RT_EFULL), k))
     | [] \<Rightarrow>
         if mx_value (k_mutex k m) < RT_MUTEX_VALUE_MAX
         then Some (Return RT_EOK, upd_mutex m (\<lambda>x. x\<lparr>mx_value := mx_value x + 1, mx_owner := None,
                                                    mx_original_priority := 0xff\<rparr>) k)
         else Some (Return (- RT_EFULL), k))"

definition rt_mutex_release :: "nat \<Rightarrow> kernel \<Rightarrow> ((rt_err_t, ipc_kont) outcome \<times> kernel) option" where
  "rt_mutex_release m k = do {
    RT_ASSERT (is_mutex m k);
    RT_DEBUG_IN_THREAD_CONTEXT k;
    t \<leftarrow> rt_thread_self k;
    if mx_owner (k_mutex k m) \<noteq> Some t then Some (Return (- RT_ERROR), set_error t (- RT_ERROR) k)
    else do {
      let k = upd_mutex m (\<lambda>x. x\<lparr>mx_hold := mx_hold x - 1\<rparr>) k;
      if mx_hold (k_mutex k m) = 0
      then do {
        k \<leftarrow> (if mx_original_priority (k_mutex k m) \<noteq> prio t k
             then map_option snd (rt_thread_control t
               (RT_THREAD_CTRL_CHANGE_PRIORITY (mx_original_priority (k_mutex k m))) k)
             else Some k);
        mutex_hand_over m k
      }
      else Some (Return RT_EOK, k)
    }
  }"

definition rt_mutex_control :: "nat \<Rightarrow> kernel \<Rightarrow> (rt_err_t \<times> kernel) option" where
  "rt_mutex_control m k = do {
    RT_ASSERT (is_mutex m k);
    Some (- RT_ERROR, k)
  }"

section \<open>The invariant of a mutex\<close>

definition mutex_inv :: "nat \<Rightarrow> kernel \<Rightarrow> bool" where
  "mutex_inv m k \<longleftrightarrow>
    (case mx_owner (k_mutex k m) of
       None \<Rightarrow> mx_value (k_mutex k m) = 1 \<and> mx_hold (k_mutex k m) = 0 \<and> k_queue k (Wait (Mutex_q m)) = []
     | Some t \<Rightarrow> mx_value (k_mutex k m) = 0 \<and> mx_hold (k_mutex k m) \<noteq> 0 \<and>
         unat (mx_original_priority (k_mutex k m)) < 32 \<and> live (stat t k) \<and>
         t \<notin> set (k_queue k (Wait (Mutex_q m))))"

definition mutex_flag_ok :: "nat \<Rightarrow> kernel \<Rightarrow> bool" where
  "mutex_flag_ok m k \<longleftrightarrow> obj_flag (k_obj k (O_mutex m)) \<in> {RT_IPC_FLAG_FIFO, RT_IPC_FLAG_PRIO}"

lemma upd_mutex_frame [simp]:
  "k_queue (upd_mutex m f k) = k_queue k" "k_thread (upd_mutex m f k) = k_thread k"
  "k_mutex (upd_mutex m f k) m = f (k_mutex k m)" "k_current (upd_mutex m f k) = k_current k"
  "k_tick (upd_mutex m f k) = k_tick k" "k_obj (upd_mutex m f k) = k_obj k"
  "k_interrupt_nest (upd_mutex m f k) = k_interrupt_nest k"
  "kernel_inv n base (upd_mutex m f k) = kernel_inv n base k" "kernel_ok (upd_mutex m f k) = kernel_ok k"
  "m' \<noteq> m \<Longrightarrow> k_mutex (upd_mutex m f k) m' = k_mutex k m'"
  "is_mutex m' (upd_mutex m f k) = is_mutex m' k" "is_thread t (upd_mutex m f k) = is_thread t k"
  by (simp_all add: upd_mutex_def kernel_ok_def is_mutex_def is_thread_def rt_object_get_type_def)

lemma u8_less_max: "(x::u8) < 0xff \<longleftrightarrow> x \<noteq> 0xff"
proof -
  have "unat x < 2 ^ 8" using unsigned_less [of x] by simp
  moreover have "x = 0xff \<longleftrightarrow> unat x = 255" by (simp add: word_unat_eq_iff)
  ultimately show ?thesis by (auto simp: word_less_nat_alt)
qed

lemma u8_Suc_nonzero: "(x::u8) \<noteq> 0xff \<Longrightarrow> x + 1 \<noteq> 0"
  using eq_neg_iff_add_eq_0 [of x 1] by auto

lemma wait_insert_cong:
  assumes "\<And>u. u \<in> insert t (set ws) \<Longrightarrow> prio u k' = prio u k"
  shows "wait_insert f t k' ws = wait_insert f t k ws"
proof -
  have "takeWhile (\<lambda>u. prio u k' \<le> prio t k') ws = takeWhile (\<lambda>u. prio u k \<le> prio t k) ws"
    "dropWhile (\<lambda>u. prio u k' \<le> prio t k') ws = dropWhile (\<lambda>u. prio u k \<le> prio t k) ws"
    using assms by (auto intro: takeWhile_cong dropWhile_cong)
  then show ?thesis by (simp add: wait_insert_def)
qed

lemma current_prio:
  assumes "kernel_inv n base k" "live (stat t k)" shows "unat (prio t k) < 32"
  using sched_okD(3) [OF kernel_invD(1) [OF assms(1)], of t] assms(2)
  by (auto simp: thread_ok_def prio_ok_def live_def)

text \<open>Lending a priority to the owner.\<close>

definition lend_state :: "tid \<Rightarrow> tid \<Rightarrow> kernel \<Rightarrow> kernel" where
  "lend_state t owner k = (if prio t k < prio owner k then prio_state owner (prio t k) k else k)"

lemma lend_eq:
  assumes "is_thread owner k"
  shows "(if prio t k < prio owner k
      then map_option snd (rt_thread_control owner (RT_THREAD_CTRL_CHANGE_PRIORITY (prio t k)) k)
      else Some k) = Some (lend_state t owner k)"
  using change_priority_eq [OF assms] by (simp add: lend_state_def)

lemma lend_state_frame [simp]:
  "k_current (lend_state t owner k) = k_current k" "k_obj (lend_state t owner k) = k_obj k"
  "k_tick (lend_state t owner k) = k_tick k" "k_interrupt_nest (lend_state t owner k) = k_interrupt_nest k"
  "k_mutex (lend_state t owner k) = k_mutex k"
  "u \<noteq> owner \<Longrightarrow> k_thread (lend_state t owner k) u = k_thread k u"
  "prio u (lend_state t owner k) = (if u = owner then min (prio owner k) (prio t k) else prio u k)"
  "th_error (k_thread (lend_state t owner k) u) = th_error (k_thread k u)"
  "lwp_suspend_sigcheck u sf (lend_state t owner k) = lwp_suspend_sigcheck u sf k"
  by (auto simp: lend_state_def min_def)

lemma lend_state_inv:
  assumes inv: "kernel_inv n base k" and "live (stat t k)"
  shows "kernel_inv n base (lend_state t owner k)"
  using prio_state_inv [OF inv current_prio [OF assms]] inv by (simp add: lend_state_def)

lemma lend_state_sched:
  assumes "sched_ok {} k"
  shows "live (stat u (lend_state t owner k)) = live (stat u k)"
    "k_queue (lend_state t owner k) (Wait w) = k_queue k (Wait w)"
  using prio_state_stat(4) [OF assms] prio_state_wait_queue [OF assms] by (simp_all add: lend_state_def)

lemma mutex_take_blocks:
  assumes ok: "kernel_ok k" and m: "is_mutex m k" "mutex_flag_ok m k" "mutex_inv m k"
    and w: "mx_owner (k_mutex k m) = Some w" "w \<noteq> c"
    and time: "wait_time time" and c: "can_block c k" and sig: "lwp_suspend_sigcheck c sf k"
  shows "\<exists>k'. mutex_take m time sf k = Some (Reschedule K_wait, k') \<and> kernel_ok k' \<and>
    blocked (Mutex_q m) (obj_flag (k_obj k (O_mutex m))) c
      (lend_state c w (set_error c (- RT_EINTR) k)) k'"
proof -
  let ?f = "obj_flag (k_obj k (O_mutex m))" and ?k1 = "set_error c (- RT_EINTR) k"
  let ?k2 = "lend_state c w ?k1"
  have inv: "kernel_inv (half - 1) (k_tick k) k" using ok by (simp add: kernel_ok_def)
  have live: "live (stat w k)" "live (stat c k)"
    using m(3) w c by (simp_all add: mutex_inv_def can_block_def)
  have t: "is_thread w ?k1" using inv_is_timer(1) [OF inv live(1)] by simp
  have ok2: "kernel_ok ?k2" using lend_state_inv [of _ _ ?k1 c w] inv live(2) by (simp add: kernel_ok_def)
  have c2: "can_block c ?k2" using c w(2) by (simp add: can_block_def)
  obtain k3 k' where k': "rt_ipc_list_suspend (Mutex_q m) c ?f sf ?k2 = Some (RT_EOK, k3)"
      "arm_if_positive c time k3 = Some k'" "kernel_ok k'" "blocked (Mutex_q m) ?f c ?k2 k'"
    using block_arm [OF ok2 c2, of ?f sf time "Mutex_q m"] m(2) sig time by (auto simp: mutex_flag_ok_def)
  have "mx_value (k_mutex k m) = 0" using m(3) w by (simp add: mutex_inv_def)
  then show ?thesis
    using m(1) w time c k' lend_eq [OF t, of c] unfolding can_block_def wait_time_def
    by (simp add: mutex_take_def RT_DEBUG_IN_THREAD_CONTEXT_def rt_thread_self_def)
qed

text \<open>The last release of the owner: its priority goes back to the one it had when it took the
  mutex.\<close>

definition restore_state :: "tid \<Rightarrow> u8 \<Rightarrow> kernel \<Rightarrow> kernel" where
  "restore_state t p k = (if p \<noteq> prio t k then prio_state t p k else k)"

lemma restore_eq:
  assumes "is_thread t k"
  shows "(if p \<noteq> prio t k then map_option snd (rt_thread_control t (RT_THREAD_CTRL_CHANGE_PRIORITY p) k)
     else Some k) = Some (restore_state t p k)"
  using change_priority_eq [OF assms] by (simp add: restore_state_def)

lemma restore_state_frame [simp]:
  "k_current (restore_state t p k) = k_current k" "k_obj (restore_state t p k) = k_obj k"
  "k_tick (restore_state t p k) = k_tick k" "k_interrupt_nest (restore_state t p k) = k_interrupt_nest k"
  "k_mutex (restore_state t p k) = k_mutex k"
  "u \<noteq> t \<Longrightarrow> k_thread (restore_state t p k) u = k_thread k u"
  "prio u (restore_state t p k) = (if u = t then p else prio u k)"
  by (auto simp: restore_state_def)

lemma restore_state_inv:
  "kernel_inv n base k \<Longrightarrow> unat p < 32 \<Longrightarrow> kernel_inv n base (restore_state t p k)"
  by (simp add: restore_state_def prio_state_inv)

lemma restore_state_sched:
  assumes "sched_ok {} k"
  shows "live (stat u (restore_state t p k)) = live (stat u k)"
    "running (stat u (restore_state t p k)) = running (stat u k)"
    "k_queue (restore_state t p k) (Wait w) = k_queue k (Wait w)"
  using prio_state_stat [OF assms] prio_state_wait_queue [OF assms] by (simp_all add: restore_state_def)

definition k_obj_types :: "kernel \<Rightarrow> objref \<Rightarrow> u8" where
  "k_obj_types k r = obj_type (k_obj k r)"

lemma is_mutex_types: "k_obj_types k' = k_obj_types k \<Longrightarrow> is_mutex m k' = is_mutex m k"
  by (drule fun_cong [where x = "O_mutex m"]) (simp add: k_obj_types_def is_mutex_def rt_object_get_type_def)

lemma hand_over_eq:
  assumes ok: "kernel_ok k" and h: "mx_hold (k_mutex k m) = 0" "mx_value (k_mutex k m) = 0"
    and m: "mx_owner (k_mutex k m) = Some c" "live (stat c k)"
  shows "\<exists>r k'. mutex_hand_over m k = Some (r, k') \<and> kernel_ok k' \<and> mutex_inv m k' \<and>
    (\<forall>u. prio u k' = prio u k) \<and> k_obj_types k' = k_obj_types k \<and>
    (\<forall>m'. m' \<noteq> m \<longrightarrow> k_mutex k' m' = k_mutex k m') \<and>
    (k_queue k (Wait (Mutex_q m)) = [] \<longrightarrow> k_thread k' = k_thread k \<and> k_queue k' = k_queue k \<and>
      k_current k' = k_current k \<and> k_interrupt_nest k' = k_interrupt_nest k) \<and>
    (case k_queue k (Wait (Mutex_q m)) of
       [] \<Rightarrow> r = Return RT_EOK \<and> mx_owner (k_mutex k' m) = None
     | t # ts \<Rightarrow> r = Reschedule (K_return RT_EOK) \<and> mx_owner (k_mutex k' m) = Some t \<and>
         mx_hold (k_mutex k' m) = 1 \<and> mx_original_priority (k_mutex k' m) = prio t k \<and>
         k_queue k' (Wait (Mutex_q m)) = ts \<and> th_error (k_thread k' t) = RT_EOK \<and>
         (ready (stat t k') \<or> running (stat t k')))"
proof (cases "k_queue k (Wait (Mutex_q m))")
  case Nil
  then show ?thesis
    using ok h by (simp add: mutex_hand_over_def mutex_inv_def k_obj_types_def fun_eq_iff)
next
  case (Cons t ts)
  define k1 where "k1 = upd_mutex m (\<lambda>x. x\<lparr>mx_hold := mx_hold x + 1\<rparr>)
    (upd_mutex m (\<lambda>x. x\<lparr>mx_owner := Some t, mx_original_priority := prio t k\<rparr>) k)"
  let ?k = "resume_state t (set_error t RT_EOK k1)"
  have inv: "kernel_inv (half - 1) (k_tick k) k1" using ok by (simp add: k1_def kernel_ok_def)
  have q: "k_queue k1 (Wait (Mutex_q m)) = t # ts" using Cons by (simp add: k1_def)
  note R = ipc_list_resume_eq [OF inv q]
  have "unat (prio t k) < 32"
    using current_prio [OF inv, of t] wait_queue_suspended [OF inv, of t "Mutex_q m"] q by (simp add: k1_def)
  moreover have d: "t \<notin> set ts"
    using sched_okD(1) [OF kernel_invD(1) [OF inv]] q unfolding separate_def by (metis distinct.simps(2))
  moreover have "live (stat t ?k)" by (metis live_simps(1,2) resume_state_frame(4))
  moreover have "kernel_ok ?k" using R(2) by (simp add: kernel_ok_def k1_def)
  moreover have "mutex_hand_over m k = Some (Reschedule (K_return RT_EOK), ?k)"
    using Cons h(1) R(1) by (simp add: mutex_hand_over_def k1_def)
  moreover have "k_queue ?k (Wait (Mutex_q m)) = ts" using q d by (simp add: resume_state_wait_queue)
  moreover have "k_mutex ?k m = (k_mutex k m)\<lparr>mx_owner := Some t, mx_original_priority := prio t k, mx_hold := 1\<rparr>"
    using h(1) by (simp add: k1_def)
  moreover have "\<forall>u. prio u ?k = prio u k" "k_obj_types ?k = k_obj_types k"
    "\<forall>m'. m' \<noteq> m \<longrightarrow> k_mutex ?k m' = k_mutex k m'"
    by (simp_all add: k1_def k_obj_types_def fun_eq_iff)
  ultimately show ?thesis
    using Cons h(2) by (intro exI [of _ "Reschedule (K_return RT_EOK)"] exI [of _ ?k]) (simp add: mutex_inv_def)
qed

section \<open>Properties\<close>

lemma is_mutex_waiting: "is_mutex m (waiting_kernel w)"
  by (simp add: is_mutex_def class_of_def)

text \<open>Mutex 0 is owned by the ready thread 4, and thread 3 waits on the given list.\<close>

definition held_kernel :: "waitq \<Rightarrow> tid \<Rightarrow> u8 \<Rightarrow> kernel" where
  "held_kernel w t h = upd_mutex 0 (\<lambda>_. \<lparr>mx_value = 0, mx_original_priority = 20, mx_hold = h, mx_owner = Some t\<rparr>)
     (waiting_kernel w)"

lemma held_kernel_facts:
  "kernel_ok (held_kernel w t h)" "is_mutex m (held_kernel w t h)" "mutex_flag_ok m (held_kernel w t h)"
  "can_block 2 (held_kernel w t h)" "lwp_suspend_sigcheck u f (held_kernel w t h)"
  "h \<noteq> 0 \<Longrightarrow> t \<in> {2, 4} \<Longrightarrow> mutex_inv 0 (held_kernel w t h)"
proof -
  show "kernel_ok (held_kernel w t h)" "is_mutex m (held_kernel w t h)"
    by (simp_all add: held_kernel_def waiting_kernel_ok is_mutex_waiting)
  show "mutex_flag_ok m (held_kernel w t h)" "can_block 2 (held_kernel w t h)"
    "h \<noteq> 0 \<Longrightarrow> t \<in> {2, 4} \<Longrightarrow> mutex_inv 0 (held_kernel w t h)"
    by (auto simp: held_kernel_def mutex_flag_ok_def can_block_def mutex_inv_def)
  show "lwp_suspend_sigcheck u f (held_kernel w t h)"
    using waiting_kernel_sig [of u f w]
    by (cases f) (simp_all add: lwp_suspend_sigcheck_def held_kernel_def)
qed

text \<open>The branches of a thread that finds the mutex taken by another one.\<close>

lemma mutex_take_waits:
  assumes "kernel_ok k" "is_mutex m k" "mutex_flag_ok m k" "mutex_inv m k" "mx_owner (k_mutex k m) = Some w" "w \<noteq> c"
    and "wait_time time" "can_block c k" "lwp_suspend_sigcheck c sf k"
  shows "\<exists>k'. mutex_take m time sf k = Some (Reschedule K_wait, k') \<and> kernel_ok k' \<and> mutex_inv m k' \<and> k_mutex k' m = k_mutex k m \<and>
    suspended (stat c k') \<and> prio w k' = min (prio w k) (prio c k) \<and>
    k_queue k' (Wait (Mutex_q m)) = wait_insert (obj_flag (k_obj k (O_mutex m))) c k (k_queue k (Wait (Mutex_q m)))"
proof -
  have inv: "kernel_inv (half - 1) (k_tick k) k" using assms(1) by (simp add: kernel_ok_def)
  let ?k2 = "lend_state c w (set_error c (- RT_EINTR) k)"
  obtain k' where k': "mutex_take m time sf k = Some (Reschedule K_wait, k')" "kernel_ok k'"
      "blocked (Mutex_q m) (obj_flag (k_obj k (O_mutex m))) c ?k2 k'"
    using mutex_take_blocks [OF assms] by blast
  have w: "w \<notin> set (k_queue k (Wait (Mutex_q m)))" "live (stat w k)"
    using assms(4,5) by (simp_all add: mutex_inv_def)
  have "sched_ok {} (set_error c (- RT_EINTR) k)"
    using kernel_invD(1) [of _ _ "set_error c (- RT_EINTR) k"] inv by simp
  note L = lend_state_sched [OF this]
  have "wait_insert f c ?k2 (k_queue k (Wait (Mutex_q m))) = wait_insert f c k (k_queue k (Wait (Mutex_q m)))" for f
    using w(1) assms(6) by (intro wait_insert_cong) auto
  with k'(3) assms(6) L have "k_queue k' (Wait (Mutex_q m)) =
      wait_insert (obj_flag (k_obj k (O_mutex m))) c k (k_queue k (Wait (Mutex_q m)))"
    "live (stat w k')" "k_mutex k' m = k_mutex k m" "prio w k' = min (prio w k) (prio c k)"
    "suspended (stat c k')"
    using w(2) by (simp_all add: blocked_def)
  with k' assms(4-6) w show ?thesis by (simp add: mutex_inv_def)
qed

lemma mutex_take_refused:
  assumes ok: "kernel_ok k" and m: "is_mutex m k" "mutex_flag_ok m k" "mutex_inv m k" and w: "mx_owner (k_mutex k m) = Some w" "w \<noteq> c"
    and time: "time \<noteq> 0" and c: "can_block c k" and sig: "\<not> lwp_suspend_sigcheck c sf k"
  shows "\<exists>k'. mutex_take m time sf k = Some (Return (- RT_EINTR), k') \<and> kernel_ok k' \<and> mutex_inv m k' \<and> k_mutex k' = k_mutex k \<and>
    running (stat c k') \<and> prio w k' = min (prio w k) (prio c k) \<and> k_queue k' (Wait (Mutex_q m)) = k_queue k (Wait (Mutex_q m))"
proof -
  let ?k1 = "set_error c (- RT_EINTR) k" and ?f = "obj_flag (k_obj k (O_mutex m))"
  let ?k2 = "lend_state c w ?k1"
  have inv: "kernel_inv (half - 1) (k_tick k) ?k1" using ok by (simp add: kernel_ok_def)
  have live: "live (stat w k)" "live (stat c k)" and cc: "running (stat c k)" "k_current k = Some c" "k_interrupt_nest k = 0"
    using m(3) w c by (simp_all add: mutex_inv_def can_block_def)
  have t: "is_thread w ?k1" using inv_is_timer(1) [OF inv] live(1) by simp
  have inv2: "kernel_inv (half - 1) (k_tick k) ?k2" using lend_state_inv [OF inv] live(2) by simp
  note L = lend_state_sched [OF kernel_invD(1) [OF inv]]
  have run: "running (stat c ?k2)" using cc(1) w(2) by simp
  have "rt_ipc_list_suspend (Mutex_q m) c ?f sf ?k2 = Some (- RT_EINTR, ?k2)"
    using ipc_list_suspend_eq [OF inv2, of c ?f "Mutex_q m" sf] run m(2) sig by (simp add: mutex_flag_ok_def)
  moreover have "mx_value (k_mutex k m) = 0" using m(3) w by (simp add: mutex_inv_def)
  ultimately have "mutex_take m time sf k = Some (Return (- RT_EINTR), ?k2)"
    using m(1) w time cc lend_eq [OF t, of c] by (simp add: mutex_take_def RT_DEBUG_IN_THREAD_CONTEXT_def rt_thread_self_def)
  moreover have "mutex_inv m ?k2" using m(3) w(1) L by (simp add: mutex_inv_def)
  moreover have "kernel_ok ?k2" using inv2 by (simp add: kernel_ok_def)
  ultimately show ?thesis using run w(2) L(2) by (intro exI [of _ ?k2]) simp
qed

text \<open>C19: Taking a mutex, on every branch: a free mutex is acquired with one hold and the
  caller's priority recorded; the owner may take it again, up to 255 holds, beyond which the call
  fails with \<open>-RT_EFULL\<close> and the mutex is unchanged. If another thread owns it, a caller that does not wait (time 0) gets \<open>-RT_ETIMEOUT\<close> and
  nothing else changes; a caller that would wait raises the owner to the higher of its own and the caller's priority (priority inheritance) and then
  blocks in the order of the mutex's flag, ownership staying as it is, or, when a signal that ends this kind of wait is pending, gets
  \<open>-RT_EINTR\<close> at once and does not wait, the owner keeping the higher priority all the same. The kernel invariant and the mutex invariant are kept throughout.
  Waiting times are below \<open>0x7fffffff\<close> ticks.\<close>

theorem mutex_take_correct:
  assumes "kernel_ok k" "is_mutex m k" "mutex_flag_ok m k" "mutex_inv m k" "sint time < 0x7fffffff" "can_block c k"
  shows "\<exists>r k'. mutex_take m time sf k = Some (r, k') \<and> kernel_ok k' \<and> mutex_inv m k' \<and>
    (case mx_owner (k_mutex k m) of
       None \<Rightarrow> r = Return RT_EOK \<and> mx_owner (k_mutex k' m) = Some c \<and> mx_hold (k_mutex k' m) = 1 \<and>
         mx_original_priority (k_mutex k' m) = prio c k
     | Some w \<Rightarrow>
         if w = c then
           (if mx_hold (k_mutex k m) = RT_MUTEX_HOLD_MAX
            then r = Return (- RT_EFULL) \<and> k_mutex k' m = k_mutex k m
            else r = Return RT_EOK \<and> k_mutex k' m = (k_mutex k m)\<lparr>mx_hold := mx_hold (k_mutex k m) + 1\<rparr>)
         else if time = 0 then r = Return (- RT_ETIMEOUT) \<and> k' = set_error c (- RT_ETIMEOUT) k
         else k_mutex k' m = k_mutex k m \<and> prio w k' = min (prio w k) (prio c k) \<and>
           (if lwp_suspend_sigcheck c sf k
            then r = Reschedule K_wait \<and> suspended (stat c k') \<and>
              k_queue k' (Wait (Mutex_q m)) = wait_insert (obj_flag (k_obj k (O_mutex m))) c k (k_queue k (Wait (Mutex_q m)))
            else r = Return (- RT_EINTR) \<and> running (stat c k') \<and> k_queue k' (Wait (Mutex_q m)) = k_queue k (Wait (Mutex_q m))))"
proof -
  have inv: "kernel_inv (half - 1) (k_tick k) k" using assms(1) by (simp add: kernel_ok_def)
  have c: "k_current k = Some c" "running (stat c k)" "k_interrupt_nest k = 0"
    using assms(6) by (simp_all add: can_block_def)
  have p: "unat (prio c k) < 32" using current_prio [OF inv, of c] c by simp
  note D = mutex_take_def RT_DEBUG_IN_THREAD_CONTEXT_def rt_thread_self_def
  consider (free) "mx_owner (k_mutex k m) = None" | (own) "mx_owner (k_mutex k m) = Some c"
    | (other) w where "mx_owner (k_mutex k m) = Some w" "w \<noteq> c" by (cases "mx_owner (k_mutex k m)") auto
  then show ?thesis
  proof cases
    case free
    then show ?thesis using assms(1,2,4) c p by (simp add: D mutex_inv_def)
  next
    case own
    then show ?thesis
      using assms(1,2,4) c
      by (cases "mx_hold (k_mutex k m) = RT_MUTEX_HOLD_MAX")
        (simp_all add: D mutex_inv_def u8_less_max u8_Suc_nonzero)
  next
    case (other w)
    have v: "mx_value (k_mutex k m) = 0" using assms(4) other(1) by (simp add: mutex_inv_def)
    show ?thesis
    proof (cases "time = 0")
      case True
      have e: "set_error c x (set_error c y k) = set_error c x k" for x y by (simp add: set_error_def upd_thread_def)
      have "mutex_inv m (set_error c (- RT_ETIMEOUT) k)" using assms(4) other(1) by (simp add: mutex_inv_def)
      then show ?thesis using True other v assms(1,2) c by (simp add: D e)
    next
      case False
      then have "wait_time time" using assms(5) by (simp add: wait_time_def)
      note W = mutex_take_waits [OF assms(1-4) other this assms(6), of sf] and R = mutex_take_refused [OF assms(1-4) other False assms(6), of sf]
      show ?thesis
      proof (cases "lwp_suspend_sigcheck c sf k")
        case True
        with W other False show ?thesis by force
      next
        case False
        with R other \<open>time \<noteq> 0\<close> show ?thesis by force
      qed
    qed
  qed
qed

theorem mutex_take_correct_witness:
  "\<exists>r k'. mutex_take 0 7 RT_KILLABLE (held_kernel (Mutex_q 0) 4 1) = Some (r, k') \<and> kernel_ok k' \<and>
    r = Reschedule K_wait \<and> k_queue k' (Wait (Mutex_q 0)) = [3, 2] \<and> prio 4 k' = 10"
proof -
  have "mx_owner (k_mutex (held_kernel (Mutex_q 0) 4 1) 0) = Some 4"
    "k_queue (held_kernel (Mutex_q 0) 4 1) (Wait (Mutex_q 0)) = [3]"
    "obj_flag (k_obj (held_kernel (Mutex_q 0) 4 1) (O_mutex 0)) = 0"
    "prio 4 (held_kernel (Mutex_q 0) 4 1) = 10" "prio 2 (held_kernel (Mutex_q 0) 4 1) = 10"
    by (simp_all add: held_kernel_def)
  then show ?thesis
    using mutex_take_correct [of "held_kernel (Mutex_q 0) 4 1" 0 7 2 RT_KILLABLE] held_kernel_facts
    by (auto simp: wait_time_def wait_insert_def)
qed

text \<open>Releasing, with what it leaves alone.\<close>

lemma mutex_release_cases:
  assumes "kernel_ok k" "is_mutex m k" "mutex_inv m k" "can_block c k"
  shows "\<exists>r k'. rt_mutex_release m k = Some (r, k') \<and> kernel_ok k' \<and> mutex_inv m k' \<and>
    k_obj_types k' = k_obj_types k \<and> (\<forall>m'. m' \<noteq> m \<longrightarrow> k_mutex k' m' = k_mutex k m') \<and>
    (if mx_owner (k_mutex k m) \<noteq> Some c then r = Return (- RT_ERROR) \<and> k_mutex k' = k_mutex k
     else if mx_hold (k_mutex k m) \<noteq> 1
     then r = Return RT_EOK \<and> k_mutex k' m = (k_mutex k m)\<lparr>mx_hold := mx_hold (k_mutex k m) - 1\<rparr>
     else prio c k' = mx_original_priority (k_mutex k m) \<and>
       (case k_queue k (Wait (Mutex_q m)) of
          [] \<Rightarrow> r = Return RT_EOK \<and> mx_owner (k_mutex k' m) = None \<and> can_block c k' \<and>
            (\<forall>w. k_queue k' (Wait w) = k_queue k (Wait w))
        | t # ts \<Rightarrow> r = Reschedule (K_return RT_EOK) \<and> mx_owner (k_mutex k' m) = Some t \<and>
            mx_hold (k_mutex k' m) = 1 \<and> mx_original_priority (k_mutex k' m) = prio t k \<and>
            k_queue k' (Wait (Mutex_q m)) = ts \<and> th_error (k_thread k' t) = RT_EOK \<and>
            (ready (stat t k') \<or> running (stat t k'))))"
proof -
  have inv: "kernel_inv (half - 1) (k_tick k) k" using assms(1) by (simp add: kernel_ok_def)
  have c: "k_current k = Some c" "running (stat c k)" "k_interrupt_nest k = 0" "c \<noteq> idle_thread"
    using assms(4) by (simp_all add: can_block_def)
  let ?k1 = "upd_mutex m (\<lambda>x. x\<lparr>mx_hold := mx_hold x - 1\<rparr>) k"
  note D = rt_mutex_release_def RT_DEBUG_IN_THREAD_CONTEXT_def rt_thread_self_def
  consider (other) "mx_owner (k_mutex k m) \<noteq> Some c"
    | (more) "mx_owner (k_mutex k m) = Some c" "mx_hold (k_mutex k m) \<noteq> 1"
    | (last) "mx_owner (k_mutex k m) = Some c" "mx_hold (k_mutex k m) = 1" by blast
  then show ?thesis
  proof cases
    case other
    with assms(1-3) c show ?thesis
      by (simp add: D mutex_inv_def k_obj_types_def fun_eq_iff split: option.splits)
  next
    case more
    then have "mx_hold (k_mutex k m) - 1 \<noteq> 0" using assms(3) by (simp add: mutex_inv_def)
    with more assms(1-3) c show ?thesis
      by (simp add: D mutex_inv_def k_obj_types_def fun_eq_iff)
  next
    case last
    let ?p = "mx_original_priority (k_mutex k m)" and ?k2 = "restore_state c (mx_original_priority (k_mutex k m)) ?k1"
    have m: "unat ?p < 32" "mx_value (k_mutex k m) = 0" "c \<notin> set (k_queue k (Wait (Mutex_q m)))"
      using assms(3) last by (simp_all add: mutex_inv_def)
    have ok1: "sched_ok {} ?k1" using kernel_invD(1) [of _ _ ?k1] inv by simp
    note R = restore_state_sched [OF ok1, where t = c and p = ?p]
    have "is_thread c ?k1" using inv_is_timer(1) [OF inv, of c] c by simp
    note E = restore_eq [OF this, of ?p]
    have ok2: "kernel_ok ?k2" using restore_state_inv [of _ _ ?k1] inv m(1) by (simp add: kernel_ok_def)
    obtain r k' where k': "mutex_hand_over m ?k2 = Some (r, k')" "kernel_ok k'" "mutex_inv m k'"
        "\<forall>u. prio u k' = prio u ?k2" "k_obj_types k' = k_obj_types ?k2"
        "\<forall>m'. m' \<noteq> m \<longrightarrow> k_mutex k' m' = k_mutex ?k2 m'"
        "k_queue ?k2 (Wait (Mutex_q m)) = [] \<longrightarrow> k_thread k' = k_thread ?k2 \<and> k_queue k' = k_queue ?k2 \<and>
          k_current k' = k_current ?k2 \<and> k_interrupt_nest k' = k_interrupt_nest ?k2"
        "case k_queue ?k2 (Wait (Mutex_q m)) of
           [] \<Rightarrow> r = Return RT_EOK \<and> mx_owner (k_mutex k' m) = None
         | t # ts \<Rightarrow> r = Reschedule (K_return RT_EOK) \<and> mx_owner (k_mutex k' m) = Some t \<and>
             mx_hold (k_mutex k' m) = 1 \<and> mx_original_priority (k_mutex k' m) = prio t ?k2 \<and>
             k_queue k' (Wait (Mutex_q m)) = ts \<and> th_error (k_thread k' t) = RT_EOK \<and>
             (ready (stat t k') \<or> running (stat t k'))"
      using hand_over_eq [OF ok2, of m c] last m(2) R(1) [of c] c(2) by auto
    have "rt_mutex_release m k = Some (r, k')"
      using assms(2) c last E k'(1)
      by (cases "?p = prio c k") (auto simp: D Let_def)
    moreover have "k_obj_types k' = k_obj_types k" using k'(5) by (simp add: k_obj_types_def fun_eq_iff)
    moreover have "can_block c k'" "\<forall>w. k_queue k' (Wait w) = k_queue k (Wait w)"
      if "k_queue k (Wait (Mutex_q m)) = []"
      using k'(7) that R c by (simp_all add: can_block_def)
    ultimately show ?thesis
      using last k'(2-6,8) R(3) m(3)
      by (intro exI [of _ r] exI [of _ k']) (auto split: list.splits)
  qed
qed

text \<open>C20: Releasing a mutex, on every branch: a thread that is not the owner gets \<open>-RT_ERROR\<close> and
  no mutex changes; the owner of several holds gives one back; the last release sets the owner
  back to the priority recorded when it took the mutex and either frees the mutex or hands it to
  the first waiter, which becomes the owner with one hold and is made ready with error \<open>RT_EOK\<close>,
  so no third thread can take the mutex in between. The kernel and mutex invariants are kept.\<close>

theorem mutex_release_correct:
  assumes "kernel_ok k" "is_mutex m k" "mutex_inv m k" "can_block c k"
  shows "\<exists>r k'. rt_mutex_release m k = Some (r, k') \<and> kernel_ok k' \<and> mutex_inv m k' \<and>
    (if mx_owner (k_mutex k m) \<noteq> Some c then r = Return (- RT_ERROR) \<and> k_mutex k' = k_mutex k
     else if mx_hold (k_mutex k m) \<noteq> 1
     then r = Return RT_EOK \<and> k_mutex k' m = (k_mutex k m)\<lparr>mx_hold := mx_hold (k_mutex k m) - 1\<rparr>
     else prio c k' = mx_original_priority (k_mutex k m) \<and>
       (case k_queue k (Wait (Mutex_q m)) of
          [] \<Rightarrow> r = Return RT_EOK \<and> mx_owner (k_mutex k' m) = None
        | t # ts \<Rightarrow> r = Reschedule (K_return RT_EOK) \<and> mx_owner (k_mutex k' m) = Some t \<and>
            mx_hold (k_mutex k' m) = 1 \<and> mx_original_priority (k_mutex k' m) = prio t k \<and>
            k_queue k' (Wait (Mutex_q m)) = ts \<and> th_error (k_thread k' t) = RT_EOK \<and>
            (ready (stat t k') \<or> running (stat t k'))))"
  using mutex_release_cases [OF assms] by (fastforce split: list.splits)

theorem mutex_release_correct_witness:
  "\<exists>r k'. rt_mutex_release 0 (held_kernel (Mutex_q 0) 2 1) = Some (r, k') \<and> kernel_ok k' \<and>
    r = Reschedule (K_return RT_EOK) \<and> mx_owner (k_mutex k' 0) = Some 3 \<and> prio 2 k' = 20"
proof -
  have "mx_owner (k_mutex (held_kernel (Mutex_q 0) 2 1) 0) = Some 2" "mx_hold (k_mutex (held_kernel (Mutex_q 0) 2 1) 0) = 1"
    "mx_original_priority (k_mutex (held_kernel (Mutex_q 0) 2 1) 0) = 20"
    "k_queue (held_kernel (Mutex_q 0) 2 1) (Wait (Mutex_q 0)) = [3]"
    by (simp_all add: held_kernel_def)
  then show ?thesis
    using mutex_release_correct [of "held_kernel (Mutex_q 0) 2 1" 0 2] held_kernel_facts by auto
qed

text \<open>C37: Nested mutexes defeat the restoration of priorities: a thread whose priority is raised
  while it holds \<open>m1\<close> and which then takes a second mutex \<open>m2\<close> and releases \<open>m1\<close> before \<open>m2\<close>
  first falls back to its own priority and is then set to the raised priority for good, although it
  holds no mutex any more: \<open>m2\<close> recorded the raised priority as the original one.\<close>

theorem mutex_nested_priority_leak:
  assumes "kernel_ok k" "is_mutex m1 k" "is_mutex m2 k" "m1 \<noteq> m2" "can_block c k"
    and "mutex_inv m1 k" "mutex_inv m2 k"
    and "mx_owner (k_mutex k m1) = Some c" "mx_hold (k_mutex k m1) = 1" "mx_owner (k_mutex k m2) = None"
    and "k_queue k (Wait (Mutex_q m1)) = []"
  shows "\<exists>k1 k2 k3. rt_mutex_take m2 (- 1) k = Some (Return RT_EOK, k1) \<and>
    rt_mutex_release m1 k1 = Some (Return RT_EOK, k2) \<and> rt_mutex_release m2 k2 = Some (Return RT_EOK, k3) \<and>
    mx_owner (k_mutex k3 m1) = None \<and> mx_owner (k_mutex k3 m2) = None \<and>
    prio c k2 = mx_original_priority (k_mutex k m1) \<and> prio c k3 = prio c k"
proof -
  have c: "k_current k = Some c" "running (stat c k)" "k_interrupt_nest k = 0" "c \<noteq> idle_thread"
    using assms(5) by (simp_all add: can_block_def)
  define k1 where "k1 = upd_mutex m2 (\<lambda>x. x\<lparr>mx_value := 0, mx_owner := Some c, mx_original_priority := prio c k,
    mx_hold := 1\<rparr>) (set_error c (- RT_EINTR) k)"
  have t: "rt_mutex_take m2 (- 1) k = Some (Return RT_EOK, k1)"
    using assms(3,7,10) c
    by (simp add: rt_mutex_take_def mutex_take_def RT_DEBUG_IN_THREAD_CONTEXT_def rt_thread_self_def
        mutex_inv_def k1_def upd_mutex_def)
  have inv: "kernel_inv (half - 1) (k_tick k) k" using assms(1) by (simp add: kernel_ok_def)
  have p: "unat (prio c k) < 32" using current_prio [OF inv, of c] c by simp
  have q2: "k_queue k (Wait (Mutex_q m2)) = []" using assms(7,10) by (simp add: mutex_inv_def)
  have k1: "kernel_ok k1" "is_mutex m1 k1" "mutex_inv m1 k1" "can_block c k1"
    using assms c by (simp_all add: k1_def mutex_inv_def can_block_def) (simp add: is_mutex_def rt_object_get_type_def)
  obtain k2 where k2: "rt_mutex_release m1 k1 = Some (Return RT_EOK, k2)" "kernel_ok k2"
      "k_obj_types k2 = k_obj_types k1" "k_mutex k2 m2 = k_mutex k1 m2" "mx_owner (k_mutex k2 m1) = None"
      "prio c k2 = mx_original_priority (k_mutex k m1)" "can_block c k2"
      "\<forall>w. k_queue k2 (Wait w) = k_queue k1 (Wait w)"
    using mutex_release_cases [OF k1] assms(4,8,9,11) by (auto simp: k1_def)
  have "is_mutex m2 k2"
    unfolding is_mutex_types [OF k2(3)] using assms(3) by (simp add: k1_def is_mutex_def rt_object_get_type_def)
  moreover have m2: "mx_value (k_mutex k2 m2) = 0" "mx_original_priority (k_mutex k2 m2) = prio c k"
    "mx_hold (k_mutex k2 m2) = 1" "mx_owner (k_mutex k2 m2) = Some c"
    using k2(4) by (simp_all add: k1_def)
  moreover have "mutex_inv m2 k2" using m2 p k2(7,8) q2 by (simp add: mutex_inv_def can_block_def k1_def)
  ultimately obtain k3 where "rt_mutex_release m2 k2 = Some (Return RT_EOK, k3)" "prio c k3 = prio c k"
      "mx_owner (k_mutex k3 m2) = None" "k_mutex k3 m1 = k_mutex k2 m1"
    using mutex_release_cases [OF k2(2) _ _ k2(7), of m2] k2(8) q2 assms(4) by (auto simp: k1_def)
  with t k2 show ?thesis by (intro exI [of _ k1] exI [of _ k2] exI [of _ k3]) simp
qed

text \<open>Thread 2 of priority 20 holds mutex 0 and was raised to priority 10.\<close>

definition nested_kernel :: kernel where
  "nested_kernel = upd_mutex 1 (\<lambda>_. \<lparr>mx_value = 1, mx_original_priority = 0xff, mx_hold = 0, mx_owner = None\<rparr>)
     (held_kernel (Sem_q 0) 2 1)"

theorem mutex_nested_priority_leak_witness:
  "\<exists>k1 k2 k3. rt_mutex_take 1 (- 1) nested_kernel = Some (Return RT_EOK, k1) \<and>
    rt_mutex_release 0 k1 = Some (Return RT_EOK, k2) \<and> rt_mutex_release 1 k2 = Some (Return RT_EOK, k3) \<and>
    prio 2 k2 = 20 \<and> prio 2 k3 = 10"
proof -
  have "kernel_ok nested_kernel" "is_mutex 0 nested_kernel" "is_mutex 1 nested_kernel" "can_block 2 nested_kernel"
    using held_kernel_facts by (simp_all add: nested_kernel_def can_block_def)
  moreover have "mutex_inv 0 nested_kernel" "mutex_inv 1 nested_kernel"
    using held_kernel_facts(6) [of 1 2 "Sem_q 0"] by (simp_all add: nested_kernel_def mutex_inv_def held_kernel_def)
  moreover have "mx_owner (k_mutex nested_kernel 0) = Some 2" "mx_hold (k_mutex nested_kernel 0) = 1"
    "mx_original_priority (k_mutex nested_kernel 0) = 20" "prio 2 nested_kernel = 10"
    "mx_owner (k_mutex nested_kernel 1) = None" "k_queue nested_kernel (Wait (Mutex_q 0)) = []"
    by (simp_all add: nested_kernel_def held_kernel_def)
  ultimately show ?thesis
    using mutex_nested_priority_leak [of nested_kernel 0 1 2] by auto
qed

end
