(* ===== verification/Event.thy ===== *)
theory Event
  imports Mutex
begin

text \<open>
  The event object of \<^verbatim>\<open>src/ipc.c\<close>: a 32-bit set of flags; a thread waits for all (AND) or any
  (OR) of a set of flags and may clear them when it is woken.
\<close>

section \<open>The operations\<close>

abbreviation RT_EVENT_FLAG_AND :: u8 where "RT_EVENT_FLAG_AND \<equiv> 0x01"
abbreviation RT_EVENT_FLAG_OR :: u8 where "RT_EVENT_FLAG_OR \<equiv> 0x02"
abbreviation RT_EVENT_FLAG_CLEAR :: u8 where "RT_EVENT_FLAG_CLEAR \<equiv> 0x04"

definition is_event :: "nat \<Rightarrow> kernel \<Rightarrow> bool" where
  "is_event e k \<longleftrightarrow> rt_object_get_type (O_event e) k = RT_Object_Class_Event"

definition set_event :: "nat \<Rightarrow> u32 \<Rightarrow> kernel \<Rightarrow> kernel" where
  "set_event e s k = k\<lparr>k_event := (k_event k)(e := s)\<rparr>"

definition event_setup :: "nat \<Rightarrow> u8 \<Rightarrow> kernel \<Rightarrow> kernel" where
  "event_setup e flag k =
    (let k = upd_obj (O_event e) (obj_flag_update (\<lambda>_. flag)) k;
         k = rt_ipc_object_init (Event_q e) k
     in set_event e 0 k)"

definition rt_event_init :: "nat \<Rightarrow> string \<Rightarrow> u8 \<Rightarrow> kernel \<Rightarrow> (rt_err_t \<times> kernel) option" where
  "rt_event_init e name flag k = do {
    k \<leftarrow> rt_object_init (O_event e) RT_Object_Class_Event name k;
    Some (RT_EOK, event_setup e flag k)
  }"

definition rt_event_detach :: "nat \<Rightarrow> kernel \<Rightarrow> (rt_err_t \<times> kernel) option" where
  "rt_event_detach e k = do {
    RT_ASSERT (is_event e k);
    RT_ASSERT (rt_object_is_systemobject (O_event e) k);
    (_, k) \<leftarrow> rt_ipc_list_resume_all (Event_q e) k;
    Some (RT_EOK, rt_object_detach (O_event e) k)
  }"

definition rt_event_create :: "string \<Rightarrow> u8 \<Rightarrow> nat option \<Rightarrow> kernel \<Rightarrow> (nat option \<times> kernel) option" where
  "rt_event_create name flag mem k = do {
    RT_DEBUG_NOT_IN_INTERRUPT k;
    (object, k) \<leftarrow> rt_object_allocate RT_Object_Class_Event name (map_option O_event mem) k;
    case object of
      Some (O_event e) \<Rightarrow> Some (Some e, event_setup e flag k)
    | _ \<Rightarrow> Some (None, k)
  }"

definition rt_event_delete :: "nat \<Rightarrow> kernel \<Rightarrow> (rt_err_t \<times> kernel) option" where
  "rt_event_delete e k = do {
    RT_ASSERT (is_event e k);
    RT_ASSERT (\<not> rt_object_is_systemobject (O_event e) k);
    RT_DEBUG_NOT_IN_INTERRUPT k;
    (_, k) \<leftarrow> rt_ipc_list_resume_all (Event_q e) k;
    k \<leftarrow> rt_object_delete (O_event e) k;
    Some (RT_EOK, k)
  }"

text \<open>
  The walk over the suspended threads in \<open>rt_event_send\<close>. The list is the one found at the
  start: a resumed thread leaves it only after the walk has moved on to its successor.
\<close>

definition event_clear :: "nat \<Rightarrow> tid \<Rightarrow> kernel \<Rightarrow> kernel" where
  "event_clear e t k =
    (if th_event_info (k_thread k t) AND RT_EVENT_FLAG_CLEAR \<noteq> 0
     then set_event e (k_event k e AND NOT (th_event_set (k_thread k t))) k else k)"

primrec event_scan :: "nat \<Rightarrow> tid list \<Rightarrow> bool \<Rightarrow> kernel \<Rightarrow> ((rt_err_t, ipc_kont) outcome \<times> kernel) option" where
  "event_scan e [] need_schedule k =
    Some (if need_schedule then Reschedule (K_return RT_EOK) else Return RT_EOK, k)"
| "event_scan e (t # ts) need_schedule k =
    (let info = th_event_info (k_thread k t); es = th_event_set (k_thread k t)
     in if info AND RT_EVENT_FLAG_AND \<noteq> 0
        then (if es AND k_event k e = es
              then do {
                (_, k) \<leftarrow> rt_thread_resume t (event_clear e t k);
                event_scan e ts True (set_error t RT_EOK k)
              }
              else event_scan e ts need_schedule k)
        else if info AND RT_EVENT_FLAG_OR \<noteq> 0
        then (if es AND k_event k e \<noteq> 0
              then do {
                let k = upd_thread t (th_event_set_update (\<lambda>_. es AND k_event k e)) k;
                (_, k) \<leftarrow> rt_thread_resume t (event_clear e t k);
                event_scan e ts True (set_error t RT_EOK k)
              }
              else event_scan e ts need_schedule k)
        else Some (Return (- RT_EINVAL), k))"

definition rt_event_send :: "nat \<Rightarrow> u32 \<Rightarrow> kernel \<Rightarrow> ((rt_err_t, ipc_kont) outcome \<times> kernel) option" where
  "rt_event_send e sset k = do {
    RT_ASSERT (is_event e k);
    if sset = 0 then Some (Return (- RT_ERROR), k)
    else let k = set_event e (k_event k e OR sset) k
         in event_scan e (k_queue k (Wait (Event_q e))) False k
  }"

text \<open>The result carries what the call stores in \<open>*recved\<close>, if it stores anything.\<close>

datatype event_kont = K_event

definition event_recv ::
    "nat \<Rightarrow> u32 \<Rightarrow> u8 \<Rightarrow> u32 \<Rightarrow> suspend_flag \<Rightarrow> kernel \<Rightarrow>
     ((rt_err_t \<times> u32 option, event_kont) outcome \<times> kernel) option" where
  "event_recv e sset opt timeout suspend_flag k = do {
    RT_DEBUG_IN_THREAD_CONTEXT k;
    RT_ASSERT (is_event e k);
    if sset = 0 then Some (Return (- RT_ERROR, None), k)
    else do {
      t \<leftarrow> rt_thread_self k;
      let k = set_error t (- RT_EINTR) k;
      RT_ASSERT (opt AND RT_EVENT_FLAG_AND \<noteq> 0 \<or> opt AND RT_EVENT_FLAG_OR \<noteq> 0);
      if (if opt AND RT_EVENT_FLAG_AND \<noteq> 0 then k_event k e AND sset = sset else k_event k e AND sset \<noteq> 0)
      then do {
        let k = set_error t RT_EOK k;
        let recved = k_event k e AND sset;
        let k = upd_thread t (\<lambda>th. th\<lparr>th_event_set := recved, th_event_info := opt\<rparr>) k;
        let k = (if opt AND RT_EVENT_FLAG_CLEAR \<noteq> 0 then set_event e (k_event k e AND NOT sset) k else k);
        Some (Return (RT_EOK, Some recved), k)
      }
      else if timeout = 0 then Some (Return (- RT_ETIMEOUT, None), set_error t (- RT_ETIMEOUT) k)
      else do {
        let k = upd_thread t (\<lambda>th. th\<lparr>th_event_set := sset, th_event_info := opt\<rparr>) k;
        (ret, k) \<leftarrow> rt_ipc_list_suspend (Event_q e) t (obj_flag (k_obj k (O_event e))) suspend_flag k;
        if ret \<noteq> RT_EOK then Some (Return (ret, None), k)
        else do {
          k \<leftarrow> arm_if_positive t timeout k;
          Some (Reschedule K_event, k)
        }
      }
    }
  }"

text \<open>After the thread is scheduled again.\<close>

definition event_resume :: "tid \<Rightarrow> kernel \<Rightarrow> rt_err_t \<times> u32 option" where
  "event_resume t k =
    (if th_error (k_thread k t) \<noteq> RT_EOK then (th_error (k_thread k t), None)
     else (th_error (k_thread k t), Some (th_event_set (k_thread k t))))"

definition rt_event_recv ::
    "nat \<Rightarrow> u32 \<Rightarrow> u8 \<Rightarrow> u32 \<Rightarrow> kernel \<Rightarrow>
     ((rt_err_t \<times> u32 option, event_kont) outcome \<times> kernel) option" where
  "rt_event_recv e sset opt timeout k = event_recv e sset opt timeout RT_UNINTERRUPTIBLE k"

definition rt_event_recv_interruptible ::
    "nat \<Rightarrow> u32 \<Rightarrow> u8 \<Rightarrow> u32 \<Rightarrow> kernel \<Rightarrow>
     ((rt_err_t \<times> u32 option, event_kont) outcome \<times> kernel) option" where
  "rt_event_recv_interruptible e sset opt timeout k = event_recv e sset opt timeout RT_INTERRUPTIBLE k"

definition rt_event_recv_killable ::
    "nat \<Rightarrow> u32 \<Rightarrow> u8 \<Rightarrow> u32 \<Rightarrow> kernel \<Rightarrow>
     ((rt_err_t \<times> u32 option, event_kont) outcome \<times> kernel) option" where
  "rt_event_recv_killable e sset opt timeout k = event_recv e sset opt timeout RT_KILLABLE k"

definition rt_event_control :: "nat \<Rightarrow> ipc_cmd \<Rightarrow> kernel \<Rightarrow> ((rt_err_t, ipc_kont) outcome \<times> kernel) option" where
  "rt_event_control e cmd k = do {
    RT_ASSERT (is_event e k);
    case cmd of
      RT_IPC_CMD_RESET _ \<Rightarrow> do {
        (_, k) \<leftarrow> rt_ipc_list_resume_all (Event_q e) k;
        Some (Reschedule (K_return RT_EOK), set_event e 0 k)
      }
    | RT_IPC_CMD_OTHER \<Rightarrow> Some (Return (- RT_ERROR), k)
  }"

section \<open>Waiting for flags\<close>

definition satisfied :: "u8 \<Rightarrow> u32 \<Rightarrow> u32 \<Rightarrow> bool" where
  "satisfied info es ev = (if info AND RT_EVENT_FLAG_AND \<noteq> 0 then es AND ev = es else es AND ev \<noteq> 0)"

definition valid_info :: "u8 \<Rightarrow> bool" where
  "valid_info info \<longleftrightarrow> info AND RT_EVENT_FLAG_AND \<noteq> 0 \<or> info AND RT_EVENT_FLAG_OR \<noteq> 0"

text \<open>Nobody waits for flags that are already there.\<close>

definition event_inv :: "nat \<Rightarrow> kernel \<Rightarrow> bool" where
  "event_inv e k \<longleftrightarrow> (\<forall>t \<in> set (k_queue k (Wait (Event_q e))).
     valid_info (th_event_info (k_thread k t)) \<and>
     \<not> satisfied (th_event_info (k_thread k t)) (th_event_set (k_thread k t)) (k_event k e))"

definition event_flag_ok :: "nat \<Rightarrow> kernel \<Rightarrow> bool" where
  "event_flag_ok e k \<longleftrightarrow> obj_flag (k_obj k (O_event e)) \<in> {RT_IPC_FLAG_FIFO, RT_IPC_FLAG_PRIO}"

text \<open>The flags of one set are all in another.\<close>

definition flags_le :: "u32 \<Rightarrow> u32 \<Rightarrow> bool" where
  "flags_le a b \<longleftrightarrow> a AND b = a"

lemma flags_le_bits: "flags_le a b \<longleftrightarrow> (\<forall>n. bit a n \<longrightarrow> bit b n)"
proof
  assume "flags_le a b"
  then show "\<forall>n. bit a n \<longrightarrow> bit b n" unfolding flags_le_def by (metis bit_and_iff)
qed (auto simp: flags_le_def bit_and_iff intro: bit_word_eqI)

lemma flags_le_refl [simp]: "flags_le a a"
  by (simp add: flags_le_def)

lemma flags_le_trans: "flags_le a b \<Longrightarrow> flags_le b c \<Longrightarrow> flags_le a c"
  by (auto simp: flags_le_bits)

lemma flags_le_clear [simp]: "flags_le (a AND NOT b) a"
  by (auto simp: flags_le_bits bit_simps)

lemma satisfied_mono:
  assumes "satisfied info es ev" "flags_le ev ev'" shows "satisfied info es ev'"
proof (cases "info AND RT_EVENT_FLAG_AND \<noteq> 0")
  case True
  with assms show ?thesis
    using flags_le_trans [of es ev ev'] by (simp add: satisfied_def flags_le_def)
next
  case False
  with assms(1) have "es AND ev \<noteq> 0" by (simp add: satisfied_def)
  then obtain n where "bit es n" "bit ev n" by (auto simp: word_eq_0_iff_bits bit_and_iff)
  with assms(2) have "bit (es AND ev') n" by (simp add: flags_le_bits bit_and_iff)
  with False show ?thesis by (auto simp: satisfied_def)
qed

section \<open>The walk of rt_event_send\<close>

lemma set_event_frame [simp]:
  "k_queue (set_event e s k) = k_queue k" "k_thread (set_event e s k) = k_thread k"
  "k_event (set_event e s k) e = s" "k_tick (set_event e s k) = k_tick k"
  "k_current (set_event e s k) = k_current k" "k_obj (set_event e s k) = k_obj k"
  "kernel_inv n base (set_event e s k) = kernel_inv n base k" "kernel_ok (set_event e s k) = kernel_ok k"
  by (simp_all add: set_event_def kernel_ok_def)

lemma event_clear_frame [simp]:
  "k_queue (event_clear e t k) = k_queue k" "k_thread (event_clear e t k) = k_thread k"
  "k_tick (event_clear e t k) = k_tick k" "k_current (event_clear e t k) = k_current k"
  "kernel_inv n base (event_clear e t k) = kernel_inv n base k" "flags_le (k_event (event_clear e t k) e) (k_event k e)"
  "th_event_info (k_thread k t) AND RT_EVENT_FLAG_CLEAR = 0 \<Longrightarrow> k_event (event_clear e t k) e = k_event k e"
  by (simp_all add: event_clear_def)

text \<open>The state after one waiter was served.\<close>

definition serve_state :: "nat \<Rightarrow> tid \<Rightarrow> kernel \<Rightarrow> kernel" where
  "serve_state e t k =
    (let k = (if th_event_info (k_thread k t) AND RT_EVENT_FLAG_AND \<noteq> 0 then k
              else upd_thread t (th_event_set_update (\<lambda>_. th_event_set (k_thread k t) AND k_event k e)) k)
     in set_error t RT_EOK (resume_state t (event_clear e t k)))"

lemma event_scan_Cons:
  assumes inv: "kernel_inv n base k" and t: "t \<in> set (k_queue k (Wait (Event_q e)))"
    and v: "valid_info (th_event_info (k_thread k t))"
  shows "event_scan e (t # ts) need k =
    (if satisfied (th_event_info (k_thread k t)) (th_event_set (k_thread k t)) (k_event k e)
     then event_scan e ts True (serve_state e t k) else event_scan e ts need k)"
proof -
  have s: "suspended (stat t k)" by (rule wait_queue_suspended [OF inv t])
  let ?k = "upd_thread t (th_event_set_update (\<lambda>_. th_event_set (k_thread k t) AND k_event k e)) k"
  have "rt_thread_resume t (event_clear e t k) = Some (RT_EOK, resume_state t (event_clear e t k))"
    by (rule resume_eq [of n base]) (use inv s in simp_all)
  moreover have "rt_thread_resume t (event_clear e t ?k) = Some (RT_EOK, resume_state t (event_clear e t ?k))"
    by (rule resume_eq [of n base]) (use inv s in \<open>simp_all add: upd_thread_def\<close>, simp add: upd_thread_def [symmetric])
  ultimately show ?thesis
    using v by (auto simp: satisfied_def valid_info_def serve_state_def Let_def)
qed

lemma serve_state_facts:
  assumes inv: "kernel_inv n base k" and q: "k_queue k (Wait (Event_q e)) = us @ t # ts"
  shows "kernel_inv n base (serve_state e t k)" "k_queue (serve_state e t k) (Wait (Event_q e)) = us @ ts"
    "k_tick (serve_state e t k) = k_tick k" "u \<noteq> t \<Longrightarrow> k_thread (serve_state e t k) u = k_thread k u"
    "th_error (k_thread (serve_state e t k) t) = RT_EOK"
    "ready (stat t (serve_state e t k)) \<or> running (stat t (serve_state e t k))"
    "flags_le (k_event (serve_state e t k) e) (k_event k e)"
    "th_event_info (k_thread k t) AND RT_EVENT_FLAG_CLEAR = 0 \<Longrightarrow> k_event (serve_state e t k) e = k_event k e"
proof -
  define k1 where "k1 = (if th_event_info (k_thread k t) AND RT_EVENT_FLAG_AND \<noteq> 0 then k
    else upd_thread t (th_event_set_update (\<lambda>_. th_event_set (k_thread k t) AND k_event k e)) k)"
  have k1: "kernel_inv n base k1" "k_queue k1 = k_queue k" "k_tick k1 = k_tick k" "k_event k1 = k_event k"
      "\<And>u. stat u k1 = stat u k" "\<And>u. u \<noteq> t \<Longrightarrow> k_thread k1 u = k_thread k u"
      "th_event_info (k_thread k1 t) = th_event_info (k_thread k t)"
    using inv by (simp_all add: k1_def) (simp_all add: upd_thread_def)
  have eq: "serve_state e t k = set_error t RT_EOK (resume_state t (event_clear e t k1))"
    by (simp add: serve_state_def k1_def)
  have "suspended (stat t k1)" using wait_queue_suspended [OF inv, of t "Event_q e"] q k1(5) by simp
  then show "kernel_inv n base (serve_state e t k)"
    unfolding eq using resume_state_inv [of n base "event_clear e t k1"] k1(1) by simp
  have "distinct (us @ t # ts)"
    using sched_okD(1) [OF kernel_invD(1) [OF inv]] q unfolding separate_def by metis
  then show "k_queue (serve_state e t k) (Wait (Event_q e)) = us @ ts"
    by (simp add: eq resume_state_wait_queue k1(2) q)
  show "flags_le (k_event (serve_state e t k) e) (k_event k e)"
    using event_clear_frame(6) [of e t k1] k1(4) by (simp add: eq)
  show "th_event_info (k_thread k t) AND RT_EVENT_FLAG_CLEAR = 0 \<Longrightarrow> k_event (serve_state e t k) e = k_event k e"
    using event_clear_frame(7) [of k1 t e] k1(4,7) by (simp add: eq)
qed (simp_all add: serve_state_def Let_def, simp_all add: set_error_def upd_thread_def)

text \<open>What the walk over the waiters \<open>ts\<close> does, when the waiters \<open>us\<close> have been passed over.\<close>

definition scanned :: "nat \<Rightarrow> tid list \<Rightarrow> tid list \<Rightarrow> tid list \<Rightarrow> kernel \<Rightarrow> kernel \<Rightarrow> bool" where
  "scanned e us ts vs k k' \<longleftrightarrow> subseq vs ts \<and> k_queue k' (Wait (Event_q e)) = us @ vs \<and>
     k_tick k' = k_tick k \<and> flags_le (k_event k' e) (k_event k e) \<and>
     (\<forall>t. t \<notin> set ts \<or> t \<in> set vs \<longrightarrow> k_thread k' t = k_thread k t) \<and>
     (\<forall>t \<in> set vs. \<not> satisfied (th_event_info (k_thread k t)) (th_event_set (k_thread k t)) (k_event k' e)) \<and>
     (\<forall>t \<in> set ts - set vs. satisfied (th_event_info (k_thread k t)) (th_event_set (k_thread k t)) (k_event k e) \<and>
        th_error (k_thread k' t) = RT_EOK \<and> (ready (stat t k') \<or> running (stat t k'))) \<and>
     ((\<forall>t \<in> set ts. th_event_info (k_thread k t) AND RT_EVENT_FLAG_CLEAR = 0) \<longrightarrow> k_event k' e = k_event k e)"

lemma scannedD:
  assumes "scanned e us ts vs k k'"
  shows "subseq vs ts" "k_queue k' (Wait (Event_q e)) = us @ vs" "k_tick k' = k_tick k"
    "flags_le (k_event k' e) (k_event k e)"
    "t \<notin> set ts \<or> t \<in> set vs \<Longrightarrow> k_thread k' t = k_thread k t"
    "t \<in> set vs \<Longrightarrow> \<not> satisfied (th_event_info (k_thread k t)) (th_event_set (k_thread k t)) (k_event k' e)"
    "t \<in> set ts - set vs \<Longrightarrow>
       satisfied (th_event_info (k_thread k t)) (th_event_set (k_thread k t)) (k_event k e) \<and>
       th_error (k_thread k' t) = RT_EOK \<and> (ready (stat t k') \<or> running (stat t k'))"
    "(\<And>t. t \<in> set ts \<Longrightarrow> th_event_info (k_thread k t) AND RT_EVENT_FLAG_CLEAR = 0) \<Longrightarrow> k_event k' e = k_event k e"
  using assms unfolding scanned_def by blast+

lemma scanned_skip:
  assumes "scanned e (us @ [t]) ts vs k k'" "t \<notin> set ts"
    and "\<not> satisfied (th_event_info (k_thread k t)) (th_event_set (k_thread k t)) (k_event k e)"
  shows "scanned e us (t # ts) (t # vs) k k'"
  using assms satisfied_mono [of _ _ "k_event k' e" "k_event k e"] unfolding scanned_def by auto

lemma scanned_serve:
  assumes inv: "kernel_inv n base k" and q: "k_queue k (Wait (Event_q e)) = us @ t # ts" and d: "t \<notin> set ts"
    and s: "scanned e us ts vs (serve_state e t k) k'"
    and sat: "satisfied (th_event_info (k_thread k t)) (th_event_set (k_thread k t)) (k_event k e)"
  shows "scanned e us (t # ts) vs k k'"
proof -
  note F = serve_state_facts [OF inv q]
  have vs: "set vs \<subseteq> set ts" using s subseq_set by (auto simp: scanned_def)
  have th: "k_thread (serve_state e t k) u = k_thread k u" if "u \<in> set ts" for u
    using F(4) that d by metis
  have kt: "k_thread k' t = k_thread (serve_state e t k) t" using s d by (auto simp: scanned_def)
  have "flags_le (k_event k' e) (k_event k e)"
    using s F(7) flags_le_trans by (auto simp: scanned_def)
  moreover have "k_thread k' u = k_thread k u" if "u \<notin> set (t # ts) \<or> u \<in> set vs" for u
    using s that F(4) [of u] vs th d by (auto simp: scanned_def)
  moreover have "satisfied (th_event_info (k_thread k u)) (th_event_set (k_thread k u)) (k_event k e) \<and>
      th_error (k_thread k' u) = RT_EOK \<and> (ready (stat u k') \<or> running (stat u k'))"
    if "u \<in> set (t # ts) - set vs" for u
  proof (cases "u = t")
    case True
    with sat kt F(5,6) show ?thesis by simp
  next
    case False
    with that have u: "u \<in> set ts - set vs" by simp
    with scannedD(7) [OF s u] th [of u] satisfied_mono F(7) show ?thesis by auto
  qed
  moreover have "\<not> satisfied (th_event_info (k_thread k u)) (th_event_set (k_thread k u)) (k_event k' e)"
    if "u \<in> set vs" for u
    using scannedD(6) [OF s that] th [of u] vs that by auto
  moreover have "k_event k' e = k_event k e"
    if "\<forall>u \<in> set (t # ts). th_event_info (k_thread k u) AND RT_EVENT_FLAG_CLEAR = 0"
    using scannedD(8) [OF s] that th F(8) by auto
  ultimately show ?thesis
    using scannedD(1-3) [OF s] F(3) unfolding scanned_def by auto
qed

lemma event_scan_ok:
  assumes "kernel_inv n base k" "k_queue k (Wait (Event_q e)) = us @ ts"
    and "\<forall>t \<in> set ts. valid_info (th_event_info (k_thread k t))"
  shows "\<exists>r k' vs. event_scan e ts need k = Some (r, k') \<and> kernel_inv n base k' \<and> scanned e us ts vs k k' \<and>
    r = (if need \<or> vs \<noteq> ts then Reschedule (K_return RT_EOK) else Return RT_EOK)"
  using assms
proof (induction ts arbitrary: us need k)
  case Nil
  then show ?case by (auto simp: scanned_def)
next
  case (Cons t ts)
  have d: "distinct (us @ t # ts)"
    using sched_okD(1) [OF kernel_invD(1) [OF Cons.prems(1)]] Cons.prems(2) unfolding separate_def by metis
  have C: "event_scan e (t # ts) need k =
    (if satisfied (th_event_info (k_thread k t)) (th_event_set (k_thread k t)) (k_event k e)
     then event_scan e ts True (serve_state e t k) else event_scan e ts need k)"
    by (rule event_scan_Cons [OF Cons.prems(1)]) (use Cons.prems in auto)
  show ?case
  proof (cases "satisfied (th_event_info (k_thread k t)) (th_event_set (k_thread k t)) (k_event k e)")
    case True
    note F = serve_state_facts [OF Cons.prems(1,2)]
    have "\<forall>u \<in> set ts. valid_info (th_event_info (k_thread (serve_state e t k) u))"
      using Cons.prems(3) F(4) d by (metis list.set_intros(2) distinct_append distinct.simps(2))
    then obtain r k' vs where s: "event_scan e ts True (serve_state e t k) = Some (r, k')" "kernel_inv n base k'"
        "scanned e us ts vs (serve_state e t k) k'" "r = Reschedule (K_return RT_EOK)"
      using Cons.IH [OF F(1,2), of True] by auto
    have "set vs \<subseteq> set ts" using s(3) subseq_set by (auto simp: scanned_def)
    then have "vs \<noteq> t # ts" using d by auto
    with C True s scanned_serve [OF Cons.prems(1,2) _ s(3) True] d show ?thesis by auto
  next
    case False
    obtain r k' vs where s: "event_scan e ts need k = Some (r, k')" "kernel_inv n base k'"
        "scanned e (us @ [t]) ts vs k k'" "r = (if need \<or> vs \<noteq> ts then Reschedule (K_return RT_EOK) else Return RT_EOK)"
      using Cons.IH [OF Cons.prems(1), of "us @ [t]" need] Cons.prems(2,3) by auto
    with C False scanned_skip [OF s(3) _ False] d show ?thesis by auto
  qed
qed

section \<open>Serving the waiters in order\<close>

text \<open>What \<open>rt_event_send\<close> promises, on the requests alone: the waiters are asked in the order of the list. A waiter whose condition
  holds for the flags that are there at its turn is served with the flags it waits for (AND) or the ones of them that are there (OR), which are then taken
  away if it asked for that; the others go on waiting. The result is the served waiters with their flags, the rest, and the flags left over.\<close>

fun serve_waiters :: "(tid \<times> u8 \<times> u32) list \<Rightarrow> u32 \<Rightarrow> (tid \<times> u32) list \<times> tid list \<times> u32" where
  "serve_waiters [] ev = ([], [], ev)"
| "serve_waiters ((t, info, es) # rs) ev =
    (if satisfied info es ev
     then let got = (if info AND RT_EVENT_FLAG_AND \<noteq> 0 then es else es AND ev);
              (served, rest, left) = serve_waiters rs (if info AND RT_EVENT_FLAG_CLEAR \<noteq> 0 then ev AND NOT got else ev)
          in ((t, got) # served, rest, left)
     else let (served, rest, left) = serve_waiters rs ev in (served, t # rest, left))"

definition requests :: "kernel \<Rightarrow> tid list \<Rightarrow> (tid \<times> u8 \<times> u32) list" where
  "requests k ts = map (\<lambda>t. (t, th_event_info (k_thread k t), th_event_set (k_thread k t))) ts"

lemma serve_state_exact:
  fixes e t k
  defines "got \<equiv> (if th_event_info (k_thread k t) AND RT_EVENT_FLAG_AND \<noteq> 0 then th_event_set (k_thread k t)
    else th_event_set (k_thread k t) AND k_event k e)"
  shows "k_event (serve_state e t k) e = (if th_event_info (k_thread k t) AND RT_EVENT_FLAG_CLEAR \<noteq> 0 then k_event k e AND NOT got else k_event k e)"
    "th_event_set (k_thread (serve_state e t k) t) = got"
  by (simp_all add: serve_state_def got_def Let_def event_clear_def) (simp_all add: upd_thread_def set_event_def)

definition served_ok :: "kernel \<Rightarrow> tid \<times> u32 \<Rightarrow> bool" where
  "served_ok k' = (\<lambda>(t, got). th_event_set (k_thread k' t) = got \<and> th_error (k_thread k' t) = RT_EOK \<and> (ready (stat t k') \<or> running (stat t k')))"

lemma event_scan_serves:
  assumes "kernel_inv n base k" "k_queue k (Wait (Event_q e)) = us @ ts"
    and "\<forall>t \<in> set ts. valid_info (th_event_info (k_thread k t))"
    and "serve_waiters (requests k ts) (k_event k e) = (served, rest, left)"
  shows "\<exists>k'. event_scan e ts need k = Some (if need \<or> served \<noteq> [] then Reschedule (K_return RT_EOK) else Return RT_EOK, k') \<and>
    kernel_inv n base k' \<and> k_tick k' = k_tick k \<and> k_event k' e = left \<and> k_queue k' (Wait (Event_q e)) = us @ rest \<and>
    fst ` set served \<subseteq> set ts \<and> set rest \<subseteq> set ts \<and>
    (\<forall>x \<in> set served. served_ok k' x) \<and> (\<forall>t. t \<notin> fst ` set served \<longrightarrow> k_thread k' t = k_thread k t)"
  using assms
proof (induction ts arbitrary: us need k served rest left)
  case Nil
  then show ?case by (simp add: requests_def)
next
  case (Cons t ts)
  have d: "distinct (us @ t # ts)"
    using sched_okD(1) [OF kernel_invD(1) [OF Cons.prems(1)]] Cons.prems(2) unfolding separate_def by metis
  let ?info = "th_event_info (k_thread k t)" and ?es = "th_event_set (k_thread k t)"
  have C: "event_scan e (t # ts) need k =
    (if satisfied ?info ?es (k_event k e) then event_scan e ts True (serve_state e t k) else event_scan e ts need k)"
    by (rule event_scan_Cons [OF Cons.prems(1)]) (use Cons.prems in auto)
  show ?case
  proof (cases "satisfied ?info ?es (k_event k e)")
    case True
    note F = serve_state_facts [OF Cons.prems(1,2)] and X = serve_state_exact [of e t k]
    have th: "k_thread (serve_state e t k) u = k_thread k u" if "u \<in> set ts" for u using F(4) [of u] that d by (cases "u = t") auto
    have rq: "requests (serve_state e t k) ts = requests k ts" using th by (simp add: requests_def)
    let ?got = "if ?info AND RT_EVENT_FLAG_AND \<noteq> 0 then ?es else ?es AND k_event k e"
    obtain sv where sv: "served = (t, ?got) # sv" "serve_waiters (requests (serve_state e t k) ts) (k_event (serve_state e t k) e) = (sv, rest, left)"
      using Cons.prems(4) True unfolding rq X(1) by (auto simp: requests_def Let_def split: prod.splits)
    have "\<forall>u \<in> set ts. valid_info (th_event_info (k_thread (serve_state e t k) u))" using Cons.prems(3) th by simp
    from Cons.IH [OF F(1,2) this sv(2), of True] obtain k' where
      s: "event_scan e ts True (serve_state e t k) = Some (Reschedule (K_return RT_EOK), k')" "kernel_inv n base k'"
        "k_tick k' = k_tick (serve_state e t k)" "k_event k' e = left" "k_queue k' (Wait (Event_q e)) = us @ rest"
        "fst ` set sv \<subseteq> set ts" "set rest \<subseteq> set ts" "\<forall>x \<in> set sv. served_ok k' x"
        "\<And>u. u \<notin> fst ` set sv \<Longrightarrow> k_thread k' u = k_thread (serve_state e t k) u" by auto
    have "t \<notin> fst ` set sv" using s(6) d by auto
    from s(9) [OF this] have "k_thread k' t = k_thread (serve_state e t k) t" .
    then have "served_ok k' (t, ?got)" using F(5,6) X(2) by (simp add: served_ok_def)
    moreover have "k_thread k' u = k_thread k u" if "u \<notin> fst ` set served" for u using that sv(1) s(9) F(4) [of u] by auto
    ultimately show ?thesis using C True s sv(1) F(3) by (intro exI [of _ k']) auto
  next
    case False
    obtain rs where rs: "rest = t # rs" "serve_waiters (requests k ts) (k_event k e) = (served, rs, left)"
      using Cons.prems(4) False by (auto simp: requests_def Let_def split: prod.splits)
    from Cons.IH [OF Cons.prems(1), of "us @ [t]" served rs left need] Cons.prems(2,3) rs(2) obtain k' where
      "event_scan e ts need k = Some (if need \<or> served \<noteq> [] then Reschedule (K_return RT_EOK) else Return RT_EOK, k')" "kernel_inv n base k'"
        "k_tick k' = k_tick k" "k_event k' e = left" "k_queue k' (Wait (Event_q e)) = (us @ [t]) @ rs"
        "fst ` set served \<subseteq> set ts" "set rs \<subseteq> set ts" "\<forall>x \<in> set served. served_ok k' x"
        "\<And>u. u \<notin> fst ` set served \<Longrightarrow> k_thread k' u = k_thread k u" by auto
    with C False rs(1) show ?thesis by (intro exI [of _ k']) auto
  qed
qed

section \<open>Receiving\<close>

lemma event_inv_shrink:
  assumes "event_inv e k" "k_queue k' (Wait (Event_q e)) = k_queue k (Wait (Event_q e))"
    and "\<And>t. t \<in> set (k_queue k (Wait (Event_q e))) \<Longrightarrow> k_thread k' t = k_thread k t"
    and "flags_le (k_event k' e) (k_event k e)"
  shows "event_inv e k'"
  using assms satisfied_mono [OF _ assms(4)] by (fastforce simp: event_inv_def)

lemma satisfied_recv:
  "(if opt AND RT_EVENT_FLAG_AND \<noteq> 0 then ev AND sset = sset else ev AND sset \<noteq> 0) = satisfied opt sset ev"
  by (simp add: satisfied_def and.commute)

lemma fill_info_frame [simp]:
  "k_queue (upd_thread t (\<lambda>th. th\<lparr>th_event_set := s, th_event_info := i\<rparr>) k) = k_queue k"
  "k_event (upd_thread t (\<lambda>th. th\<lparr>th_event_set := s, th_event_info := i\<rparr>) k) = k_event k"
  "k_obj (upd_thread t (\<lambda>th. th\<lparr>th_event_set := s, th_event_info := i\<rparr>) k) = k_obj k"
  "kernel_ok (upd_thread t (\<lambda>th. th\<lparr>th_event_set := s, th_event_info := i\<rparr>) k) = kernel_ok k"
  "can_block u (upd_thread t (\<lambda>th. th\<lparr>th_event_set := s, th_event_info := i\<rparr>) k) = can_block u k"
  "u \<noteq> t \<Longrightarrow> k_thread (upd_thread t (\<lambda>th. th\<lparr>th_event_set := s, th_event_info := i\<rparr>) k) u = k_thread k u"
  "th_event_set (k_thread (upd_thread t (\<lambda>th. th\<lparr>th_event_set := s, th_event_info := i\<rparr>) k) t) = s"
  "th_event_info (k_thread (upd_thread t (\<lambda>th. th\<lparr>th_event_set := s, th_event_info := i\<rparr>) k) t) = i"
  "prio u (upd_thread t (\<lambda>th. th\<lparr>th_event_set := s, th_event_info := i\<rparr>) k) = prio u k"
  "lwp_suspend_sigcheck u sf (upd_thread t (\<lambda>th. th\<lparr>th_event_set := s, th_event_info := i\<rparr>) k) =
     lwp_suspend_sigcheck u sf k"
  by (simp_all add: kernel_ok_def) (simp_all add: upd_thread_def can_block_def lwp_suspend_sigcheck_def Let_def
      split: suspend_flag.splits option.splits)

lemma can_block_set_error [simp]: "can_block c (set_error t e k) = can_block c k"
  by (simp add: can_block_def)

lemma event_recv_blocks:
  assumes ok: "kernel_ok k" and e: "is_event e k" "event_flag_ok e k" and c: "can_block c k"
    and opt: "valid_info opt" "sset \<noteq> 0" "\<not> satisfied opt sset (k_event k e)"
    and time: "wait_time timeout" and sig: "lwp_suspend_sigcheck c sf k"
  shows "\<exists>k'. event_recv e sset opt timeout sf k = Some (Reschedule K_event, k') \<and> kernel_ok k' \<and>
    blocked (Event_q e) (obj_flag (k_obj k (O_event e))) c
      (upd_thread c (\<lambda>th. th\<lparr>th_event_set := sset, th_event_info := opt\<rparr>) (set_error c (- RT_EINTR) k)) k'"
proof -
  let ?k = "upd_thread c (\<lambda>th. th\<lparr>th_event_set := sset, th_event_info := opt\<rparr>) (set_error c (- RT_EINTR) k)"
  let ?f = "obj_flag (k_obj k (O_event e))"
  have "kernel_ok ?k" "can_block c ?k" "lwp_suspend_sigcheck c sf ?k"
    using ok c sig by simp_all
  then obtain k2 k' where k': "rt_ipc_list_suspend (Event_q e) c ?f sf ?k = Some (RT_EOK, k2)"
      "arm_if_positive c timeout k2 = Some k'" "kernel_ok k'" "blocked (Event_q e) ?f c ?k k'"
    using block_arm [of ?k c ?f sf timeout "Event_q e"] e(2) time by (auto simp: event_flag_ok_def)
  have "k_current k = Some c" "k_interrupt_nest k = 0" using c by (simp_all add: can_block_def)
  then show ?thesis
    using e(1) opt time k' unfolding wait_time_def
    by (simp add: event_recv_def RT_DEBUG_IN_THREAD_CONTEXT_def rt_thread_self_def satisfied_recv)
      (auto simp: valid_info_def)
qed

section \<open>Properties\<close>

text \<open>C23: Sending flags serves the waiting threads completely and in order, as \<open>serve_waiters\<close> says: each waiter at its turn is served exactly
  if its AND or OR condition holds for the flags present then, it is given the flags that met it, and these are taken away at once if it asked to
  clear them, so that later waiters do not see them. After \<open>rt_event_send\<close> the served threads are ready with error \<open>RT_EOK\<close> and their flags recorded,
  the others wait in their old order and are not changed, the flags are the ones left over, and the call reschedules exactly if a thread was served. No thread
  is left waiting for flags that are there, the kernel invariant is kept and the call returns.\<close>

theorem event_send_serves:
  assumes "kernel_ok k" "is_event e k" "event_inv e k" "sset \<noteq> 0"
    and "serve_waiters (requests k (k_queue k (Wait (Event_q e)))) (k_event k e OR sset) = (served, rest, left)"
  shows "\<exists>k'. rt_event_send e sset k = Some (if served = [] then Return RT_EOK else Reschedule (K_return RT_EOK), k') \<and>
    kernel_ok k' \<and> event_inv e k' \<and> k_event k' e = left \<and> k_queue k' (Wait (Event_q e)) = rest \<and>
    (\<forall>(t, got) \<in> set served. th_event_set (k_thread k' t) = got \<and> th_error (k_thread k' t) = RT_EOK \<and> (ready (stat t k') \<or> running (stat t k'))) \<and>
    (\<forall>t. t \<notin> fst ` set served \<longrightarrow> k_thread k' t = k_thread k t)"
proof -
  let ?k = "set_event e (k_event k e OR sset) k" and ?q = "k_queue k (Wait (Event_q e))"
  have inv: "kernel_inv (half - 1) (k_tick k) ?k" using assms(1) by (simp add: kernel_ok_def)
  have v: "\<forall>t \<in> set ?q. valid_info (th_event_info (k_thread ?k t))" using assms(3) by (simp add: event_inv_def)
  have rq: "serve_waiters (requests ?k ?q) (k_event ?k e) = (served, rest, left)" using assms(5) by (simp add: requests_def)
  from event_scan_serves [OF inv _ v rq, of "[]" False] obtain k' where
    s: "event_scan e ?q False ?k = Some (if served \<noteq> [] then Reschedule (K_return RT_EOK) else Return RT_EOK, k')"
      "kernel_inv (half - 1) (k_tick k) k'" "k_tick k' = k_tick k" "k_event k' e = left" "k_queue k' (Wait (Event_q e)) = rest"
      "\<forall>x \<in> set served. served_ok k' x" "\<forall>t. t \<notin> fst ` set served \<longrightarrow> k_thread k' t = k_thread k t" by auto
  from event_scan_ok [OF inv _ v, of e "[]" False] s(1) obtain vs where sc: "scanned e [] ?q vs ?k k'" by auto
  note D = scannedD [OF sc]
  have vs: "vs = rest" using D(2) s(5) by simp
  have "event_inv e k'"
    using assms(3) D(5,6) s(5) subseq_set [OF D(1)] unfolding vs by (auto simp: event_inv_def)
  moreover have "rt_event_send e sset k = Some (if served = [] then Return RT_EOK else Reschedule (K_return RT_EOK), k')"
    using assms(2,4) s(1) by (simp add: rt_event_send_def)
  ultimately show ?thesis using s unfolding served_ok_def kernel_ok_def by (intro exI [of _ k']) auto
qed

text \<open>Thread 3 waits for the flags 1 and 4 of event 0, and clears them.\<close>

definition event_kernel :: kernel where
  "event_kernel = upd_thread 3 (\<lambda>th. th\<lparr>th_event_set := 5, th_event_info := 5\<rparr>) (waiting_kernel (Event_q 0))"

lemma event_kernel_facts:
  "kernel_ok event_kernel" "is_event 0 event_kernel" "event_inv 0 event_kernel" "event_flag_ok 0 event_kernel"
  "can_block 2 event_kernel" "lwp_suspend_sigcheck 2 RT_UNINTERRUPTIBLE event_kernel"
  "k_queue event_kernel (Wait (Event_q 0)) = [3]" "k_event event_kernel 0 = 0"
proof -
  have "rt_object_get_type (O_event 0) event_kernel = RT_Object_Class_Event"
    using waiting_kernel_sel(7) [of "O_event 0" "Event_q 0"]
    by (simp add: rt_object_get_type_def event_kernel_def class_of_def)
  then show "is_event 0 event_kernel" by (simp add: is_event_def)
qed (simp_all add: event_kernel_def waiting_kernel_ok event_inv_def event_flag_ok_def valid_info_def satisfied_def)

text \<open>The flags 1, 2 and 4 are sent: thread 3 takes 1 and 4, and 2 is left.\<close>

theorem event_send_serves_witness:
  "\<exists>k'. rt_event_send 0 7 event_kernel = Some (Reschedule (K_return RT_EOK), k') \<and> kernel_ok k' \<and> event_inv 0 k' \<and>
    k_event k' 0 = 2 \<and> k_queue k' (Wait (Event_q 0)) = [] \<and> th_event_set (k_thread k' 3) = 5"
proof -
  have "th_event_info (k_thread event_kernel 3) = 5" "th_event_set (k_thread event_kernel 3) = 5"
    by (simp_all add: event_kernel_def upd_thread_def)
  then have "serve_waiters (requests event_kernel (k_queue event_kernel (Wait (Event_q 0)))) (k_event event_kernel 0 OR 7) = ([(3, 5)], [], 2)"
    by (simp add: event_kernel_facts(7,8) requests_def satisfied_def)
  from event_send_serves [OF event_kernel_facts(1-3) _ this] show ?thesis by auto
qed

text \<open>C24: Receiving flags with a waiting time: if the condition holds the call returns the flags
  that matched and clears the whole requested set only on request; otherwise the thread is
  suspended with its request recorded. Either way nobody is left waiting for flags that are there,
  and the kernel invariant is kept.\<close>

theorem event_recv_correct:
  assumes "kernel_ok k" "is_event e k" "event_flag_ok e k" "event_inv e k" "can_block c k"
    and "valid_info opt" "sset \<noteq> 0" "wait_time timeout" "lwp_suspend_sigcheck c sf k"
  shows "\<exists>r k'. event_recv e sset opt timeout sf k = Some (r, k') \<and> kernel_ok k' \<and> event_inv e k' \<and>
    (if satisfied opt sset (k_event k e)
     then r = Return (RT_EOK, Some (k_event k e AND sset)) \<and>
       k_event k' e = (if opt AND RT_EVENT_FLAG_CLEAR \<noteq> 0 then k_event k e AND NOT sset else k_event k e)
     else r = Reschedule K_event \<and> suspended (stat c k') \<and> k_event k' e = k_event k e \<and>
       th_event_set (k_thread k' c) = sset \<and> th_event_info (k_thread k' c) = opt \<and>
       k_queue k' (Wait (Event_q e)) =
         wait_insert (obj_flag (k_obj k (O_event e))) c k (k_queue k (Wait (Event_q e))))"
proof (cases "satisfied opt sset (k_event k e)")
  case True
  let ?k1 = "upd_thread c (\<lambda>th. th\<lparr>th_event_set := k_event k e AND sset, th_event_info := opt\<rparr>)
    (set_error c RT_EOK (set_error c (- RT_EINTR) k))"
  let ?k = "if opt AND RT_EVENT_FLAG_CLEAR \<noteq> 0 then set_event e (k_event k e AND NOT sset) ?k1 else ?k1"
  have c: "k_current k = Some c" "running (stat c k)" "k_interrupt_nest k = 0"
    using assms(5) by (simp_all add: can_block_def)
  have call: "event_recv e sset opt timeout sf k = Some (Return (RT_EOK, Some (k_event k e AND sset)), ?k)"
    using assms(2,6,7) c True
    by (simp add: event_recv_def RT_DEBUG_IN_THREAD_CONTEXT_def rt_thread_self_def satisfied_recv Let_def)
      (auto simp: valid_info_def)
  have "c \<notin> set (k_queue k (Wait (Event_q e)))"
    using running_not_waiting [of _ _ k c] assms(1) c(2) unfolding kernel_ok_def by blast
  then have "k_thread ?k t = k_thread k t" if "t \<in> set (k_queue k (Wait (Event_q e)))" for t
    using that by (auto simp: upd_thread_def set_error_def)
  then have "event_inv e ?k"
    by (intro event_inv_shrink [OF assms(4)]) auto
  with call True assms(1) show ?thesis by (intro exI [of _ "Return (RT_EOK, Some (k_event k e AND sset))"] exI [of _ ?k]) simp
next
  case False
  obtain k' where k': "event_recv e sset opt timeout sf k = Some (Reschedule K_event, k')" "kernel_ok k'"
      "blocked (Event_q e) (obj_flag (k_obj k (O_event e))) c
        (upd_thread c (\<lambda>th. th\<lparr>th_event_set := sset, th_event_info := opt\<rparr>) (set_error c (- RT_EINTR) k)) k'"
    using event_recv_blocks [OF assms(1-3,5-7) False assms(8,9)] by blast
  let ?k1 = "upd_thread c (\<lambda>th. th\<lparr>th_event_set := sset, th_event_info := opt\<rparr>) (set_error c (- RT_EINTR) k)"
  have b: "suspended (stat c k')" "k_event k' = k_event k" "th_event_set (k_thread k' c) = sset"
    "th_event_info (k_thread k' c) = opt" "\<And>u. u \<noteq> c \<Longrightarrow> k_thread k' u = k_thread ?k1 u"
    "k_queue k' (Wait (Event_q e)) =
       wait_insert (obj_flag (k_obj k (O_event e))) c ?k1 (k_queue k (Wait (Event_q e)))"
    using k'(3) by (simp_all add: blocked_def)
  have w: "wait_insert f c ?k1 ws = wait_insert f c k ws" for f ws by (rule wait_insert_cong) simp
  have "event_inv e k'"
    unfolding event_inv_def
  proof
    fix t assume "t \<in> set (k_queue k' (Wait (Event_q e)))"
    then have t: "t = c \<or> t \<in> set (k_queue k (Wait (Event_q e)))" unfolding b(6) by simp
    have same: "k_thread k' t = k_thread k t" if "t \<noteq> c"
      using b(5) [OF that] that by (simp add: set_error_def upd_thread_def)
    show "valid_info (th_event_info (k_thread k' t)) \<and>
      \<not> satisfied (th_event_info (k_thread k' t)) (th_event_set (k_thread k' t)) (k_event k' e)"
      using t b(2-4) False assms(4,6) same by (cases "t = c") (auto simp: event_inv_def)
  qed
  with k' b False w show ?thesis by simp
qed

theorem event_recv_correct_witness:
  "\<exists>r k'. event_recv 0 2 RT_EVENT_FLAG_OR 3 RT_UNINTERRUPTIBLE event_kernel = Some (r, k') \<and> kernel_ok k' \<and>
    event_inv 0 k' \<and> r = Reschedule K_event"
  using event_recv_correct [of event_kernel 0 2 RT_EVENT_FLAG_OR 2 3 RT_UNINTERRUPTIBLE] event_kernel_facts
  by (auto simp: valid_info_def wait_time_def satisfied_def)

end
