(* ===== verification/Fifo.thy ===== *)
theory Fifo
  imports Prelude
begin

text \<open>
  The contract of a bounded first-in first-out queue, which the mailbox and the message queue of
  \<^verbatim>\<open>src/ipc.c\<close> implement: \<open>put\<close> appends while there is room, \<open>get\<close> takes the oldest element. What
  a client relies on, that a sequence of elements comes out as it went in, is proved from the
  contract.
\<close>

primrec put_list :: "('a \<Rightarrow> 'q \<Rightarrow> 'q option) \<Rightarrow> 'a list \<Rightarrow> 'q \<Rightarrow> 'q option" where
  "put_list put [] q = Some q"
| "put_list put (x # xs) q = Option.bind (put x q) (put_list put xs)"

primrec get_list :: "('q \<Rightarrow> ('a \<times> 'q) option) \<Rightarrow> nat \<Rightarrow> 'q \<Rightarrow> ('a list \<times> 'q) option" where
  "get_list get 0 q = Some ([], q)"
| "get_list get (Suc n) q =
    Option.bind (get q) (\<lambda>(x, q). Option.bind (get_list get n q) (\<lambda>(xs, q). Some (x # xs, q)))"

locale bounded_fifo =
  fixes wf :: "'q \<Rightarrow> bool"
    and contents :: "'q \<Rightarrow> 'a list"
    and capacity :: "'q \<Rightarrow> nat"
    and put :: "'a \<Rightarrow> 'q \<Rightarrow> 'q option"
    and get :: "'q \<Rightarrow> ('a \<times> 'q) option"
    and fits :: "'a \<Rightarrow> 'q \<Rightarrow> bool"
  assumes bound: "wf q \<Longrightarrow> length (contents q) \<le> capacity q"
    and put_room: "wf q \<Longrightarrow> length (contents q) < capacity q \<Longrightarrow> fits x q \<Longrightarrow>
      \<exists>q'. put x q = Some q' \<and> wf q' \<and> contents q' = contents q @ [x] \<and> capacity q' = capacity q \<and>
        (\<forall>y. fits y q' = fits y q)"
    and get_oldest: "wf q \<Longrightarrow> contents q = x # xs \<Longrightarrow>
      \<exists>q'. get q = Some (x, q') \<and> wf q' \<and> contents q' = xs \<and> capacity q' = capacity q \<and>
        (\<forall>y. fits y q' = fits y q)"
begin

lemma put_list_contents:
  assumes "wf q" "length (contents q) + length xs \<le> capacity q" "\<forall>x \<in> set xs. fits x q"
  shows "\<exists>q'. put_list put xs q = Some q' \<and> wf q' \<and> contents q' = contents q @ xs \<and> capacity q' = capacity q"
  using assms
proof (induction xs arbitrary: q)
  case (Cons x xs)
  then obtain q1 where q1: "put x q = Some q1" "wf q1" "contents q1 = contents q @ [x]" "capacity q1 = capacity q"
      "\<forall>y. fits y q1 = fits y q"
    using put_room [of q x] by auto
  with Cons.IH [of q1] Cons.prems show ?case by auto
qed simp

lemma get_list_contents:
  assumes "wf q" "contents q = xs @ ys"
  shows "\<exists>q'. get_list get (length xs) q = Some (xs, q') \<and> wf q' \<and> contents q' = ys \<and> capacity q' = capacity q"
  using assms
proof (induction xs arbitrary: q)
  case (Cons x xs)
  then obtain q1 where q1: "get q = Some (x, q1)" "wf q1" "contents q1 = xs @ ys" "capacity q1 = capacity q"
    using get_oldest [of q x "xs @ ys"] by auto
  with Cons.IH [of q1] show ?case by auto
qed simp

text \<open>First in, first out: what was there, then what was put.\<close>

lemma fifo:
  assumes "wf q" "length (contents q) + length xs \<le> capacity q" "\<forall>x \<in> set xs. fits x q"
  shows "\<exists>q1 q2. put_list put xs q = Some q1 \<and>
    get_list get (length (contents q) + length xs) q1 = Some (contents q @ xs, q2) \<and>
    wf q2 \<and> contents q2 = [] \<and> capacity q2 = capacity q"
proof -
  obtain q1 where q1: "put_list put xs q = Some q1" "wf q1" "contents q1 = contents q @ xs" "capacity q1 = capacity q"
    using put_list_contents [OF assms] by blast
  with get_list_contents [of q1 "contents q @ xs" "[]"] show ?thesis by auto
qed

end

end
