(* ===== verification/Mailbox.thy ===== *)
theory Mailbox
  imports Event Fifo
begin

text \<open>
  The mailbox of \<^verbatim>\<open>src/ipc.c\<close>: a ring of machine words with an entry count and two offsets, a list
  of waiting receivers and a list of waiting senders. A call that blocks loops: when the thread
  runs again it tests the mailbox anew with what is left of its waiting time.
\<close>

section \<open>The ring\<close>

abbreviation RT_MB_ENTRY_MAX :: u16 where "RT_MB_ENTRY_MAX \<equiv> 0xffff"

definition next_offset :: "u16 \<Rightarrow> u16 \<Rightarrow> u16" where
  "next_offset i sz = (if i + 1 \<ge> sz then 0 else i + 1)"

text \<open>\<open>mb->msg_pool[mb->in_offset] = value\<close> and the step of the offset; a write outside the pool
  has no defined result.\<close>

definition mb_store :: "u64 \<Rightarrow> rt_mailbox \<Rightarrow> rt_mailbox option" where
  "mb_store v mb =
    (if unat (mb_in_offset mb) < length (mb_msg_pool mb)
     then Some (mb\<lparr>mb_msg_pool := (mb_msg_pool mb)[unat (mb_in_offset mb) := v],
                   mb_in_offset := next_offset (mb_in_offset mb) (mb_size mb)\<rparr>)
     else None)"

definition mb_fetch :: "rt_mailbox \<Rightarrow> (u64 \<times> rt_mailbox) option" where
  "mb_fetch mb =
    (if unat (mb_out_offset mb) < length (mb_msg_pool mb)
     then Some (mb_msg_pool mb ! unat (mb_out_offset mb),
                mb\<lparr>mb_out_offset := next_offset (mb_out_offset mb) (mb_size mb),
                   mb_entry := mb_entry mb - 1\<rparr>)
     else None)"

section \<open>The operations\<close>

definition is_mb :: "nat \<Rightarrow> kernel \<Rightarrow> bool" where
  "is_mb m k \<longleftrightarrow> rt_object_get_type (O_mb m) k = RT_Object_Class_MailBox"

definition set_mb :: "nat \<Rightarrow> rt_mailbox \<Rightarrow> kernel \<Rightarrow> kernel" where
  "set_mb m mb k = k\<lparr>k_mb := (k_mb k)(m := mb)\<rparr>"

definition mb_setup :: "nat \<Rightarrow> u64 list \<Rightarrow> u64 \<Rightarrow> u8 \<Rightarrow> kernel \<Rightarrow> kernel" where
  "mb_setup m msgpool sz flag k =
    (let k = upd_obj (O_mb m) (obj_flag_update (\<lambda>_. flag)) k;
         k = rt_ipc_object_init (Mb_recv_q m) k;
         k = set_mb m \<lparr>mb_msg_pool = msgpool, mb_size = ucast sz, mb_entry = 0, mb_in_offset = 0,
                        mb_out_offset = 0\<rparr> k
     in rt_ipc_object_init (Mb_send_q m) k)"

definition rt_mb_init :: "nat \<Rightarrow> string \<Rightarrow> u64 list \<Rightarrow> u64 \<Rightarrow> u8 \<Rightarrow> kernel \<Rightarrow> (rt_err_t \<times> kernel) option" where
  "rt_mb_init m name msgpool sz flag k = do {
    k \<leftarrow> rt_object_init (O_mb m) RT_Object_Class_MailBox name k;
    Some (RT_EOK, mb_setup m msgpool sz flag k)
  }"

definition rt_mb_detach :: "nat \<Rightarrow> kernel \<Rightarrow> (rt_err_t \<times> kernel) option" where
  "rt_mb_detach m k = do {
    RT_ASSERT (is_mb m k);
    RT_ASSERT (rt_object_is_systemobject (O_mb m) k);
    (_, k) \<leftarrow> rt_ipc_list_resume_all (Mb_recv_q m) k;
    (_, k) \<leftarrow> rt_ipc_list_resume_all (Mb_send_q m) k;
    Some (RT_EOK, rt_object_detach (O_mb m) k)
  }"

text \<open>\<open>mem\<close> is the object memory and \<open>pool\<close> the message pool that the allocator returned.\<close>

definition rt_mb_create ::
    "string \<Rightarrow> u64 \<Rightarrow> u8 \<Rightarrow> nat option \<Rightarrow> u64 list option \<Rightarrow> kernel \<Rightarrow> (nat option \<times> kernel) option" where
  "rt_mb_create name sz flag mem pool k = do {
    RT_DEBUG_NOT_IN_INTERRUPT k;
    (object, k) \<leftarrow> rt_object_allocate RT_Object_Class_MailBox name (map_option O_mb mem) k;
    case object of
      Some (O_mb m) \<Rightarrow>
        (case pool of
           None \<Rightarrow> map_option (\<lambda>k. (None, k)) (rt_object_delete (O_mb m)
             (rt_ipc_object_init (Mb_recv_q m) (upd_obj (O_mb m) (obj_flag_update (\<lambda>_. flag)) k)))
         | Some msgpool \<Rightarrow> Some (Some m, mb_setup m msgpool sz flag k))
    | _ \<Rightarrow> Some (None, k)
  }"

definition rt_mb_delete :: "nat \<Rightarrow> kernel \<Rightarrow> (rt_err_t \<times> kernel) option" where
  "rt_mb_delete m k = do {
    RT_DEBUG_NOT_IN_INTERRUPT k;
    RT_ASSERT (is_mb m k);
    RT_ASSERT (\<not> rt_object_is_systemobject (O_mb m) k);
    (_, k) \<leftarrow> rt_ipc_list_resume_all (Mb_recv_q m) k;
    (_, k) \<leftarrow> rt_ipc_list_resume_all (Mb_send_q m) k;
    k \<leftarrow> rt_object_delete (O_mb m) k;
    Some (RT_EOK, k)
  }"

text \<open>Where a blocked call goes on; the message, the waiting time, the tick at which the wait
  began and the suspend flag are its local variables.\<close>

datatype mb_kont =
    K_mb_return rt_err_t "u64 option"
  | K_mb_send nat u64 u32 u32 suspend_flag
  | K_mb_recv nat u32 u32 suspend_flag

text \<open>The waiting time that is left: \<open>tick_delta = rt_tick_get () - tick_delta; timeout -= tick_delta\<close>.\<close>

definition timeout_left :: "u32 \<Rightarrow> u32 \<Rightarrow> u32 \<Rightarrow> u32" where
  "timeout_left timeout tick_delta now =
    (if 0 < sint timeout
     then let timeout = timeout - (now - tick_delta) in if sint timeout < 0 then 0 else timeout
     else timeout)"

definition mb_send_commit :: "nat \<Rightarrow> u64 \<Rightarrow> kernel \<Rightarrow> ((rt_err_t \<times> u64 option, mb_kont) outcome \<times> kernel) option" where
  "mb_send_commit m v k = do {
    mb \<leftarrow> mb_store v (k_mb k m);
    let k = set_mb m mb k;
    if mb_entry mb < RT_MB_ENTRY_MAX
    then do {
      let k = set_mb m (mb\<lparr>mb_entry := mb_entry mb + 1\<rparr>) k;
      if k_queue k (Wait (Mb_recv_q m)) \<noteq> []
      then do {
        (_, k) \<leftarrow> rt_ipc_list_resume (Mb_recv_q m) k;
        Some (Reschedule (K_mb_return RT_EOK None), k)
      }
      else Some (Return (RT_EOK, None), k)
    }
    else Some (Return (- RT_EFULL, None), k)
  }"

text \<open>From the test of the loop in \<open>_rt_mb_send_wait\<close> on.\<close>

definition mb_send_loop ::
    "nat \<Rightarrow> u64 \<Rightarrow> u32 \<Rightarrow> u32 \<Rightarrow> suspend_flag \<Rightarrow> kernel \<Rightarrow>
     ((rt_err_t \<times> u64 option, mb_kont) outcome \<times> kernel) option" where
  "mb_send_loop m v timeout tick_delta suspend_flag k =
    (if mb_entry (k_mb k m) = mb_size (k_mb k m)
     then do {
       t \<leftarrow> rt_thread_self k;
       let k = set_error t (- RT_EINTR) k;
       if timeout = 0 then Some (Return (- RT_EFULL, None), k)
       else do {
         RT_DEBUG_IN_THREAD_CONTEXT k;
         (ret, k) \<leftarrow> rt_ipc_list_suspend (Mb_send_q m) t (obj_flag (k_obj k (O_mb m))) suspend_flag k;
         if ret \<noteq> RT_EOK then Some (Return (ret, None), k)
         else do {
           let tick_delta = (if 0 < sint timeout then rt_tick_get k else tick_delta);
           k \<leftarrow> arm_if_positive t timeout k;
           Some (Reschedule (K_mb_send m v timeout tick_delta suspend_flag), k)
         }
       }
     }
     else mb_send_commit m v k)"

definition mb_send_wait ::
    "nat \<Rightarrow> u64 \<Rightarrow> u32 \<Rightarrow> suspend_flag \<Rightarrow> kernel \<Rightarrow>
     ((rt_err_t \<times> u64 option, mb_kont) outcome \<times> kernel) option" where
  "mb_send_wait m v timeout suspend_flag k = do {
    RT_ASSERT (is_mb m k);
    if mb_entry (k_mb k m) = mb_size (k_mb k m) \<and> timeout = 0 then Some (Return (- RT_EFULL, None), k)
    else mb_send_loop m v timeout 0 suspend_flag k
  }"

definition mb_recv_commit :: "nat \<Rightarrow> kernel \<Rightarrow> ((rt_err_t \<times> u64 option, mb_kont) outcome \<times> kernel) option" where
  "mb_recv_commit m k = do {
    (v, mb) \<leftarrow> mb_fetch (k_mb k m);
    let k = set_mb m mb k;
    if k_queue k (Wait (Mb_send_q m)) \<noteq> []
    then do {
      (_, k) \<leftarrow> rt_ipc_list_resume (Mb_send_q m) k;
      Some (Reschedule (K_mb_return RT_EOK (Some v)), k)
    }
    else Some (Return (RT_EOK, Some v), k)
  }"

definition mb_recv_loop ::
    "nat \<Rightarrow> u32 \<Rightarrow> u32 \<Rightarrow> suspend_flag \<Rightarrow> kernel \<Rightarrow>
     ((rt_err_t \<times> u64 option, mb_kont) outcome \<times> kernel) option" where
  "mb_recv_loop m timeout tick_delta suspend_flag k =
    (if mb_entry (k_mb k m) = 0
     then do {
       t \<leftarrow> rt_thread_self k;
       let k = set_error t (- RT_EINTR) k;
       if timeout = 0 then Some (Return (- RT_ETIMEOUT, None), set_error t (- RT_ETIMEOUT) k)
       else do {
         RT_DEBUG_IN_THREAD_CONTEXT k;
         (ret, k) \<leftarrow> rt_ipc_list_suspend (Mb_recv_q m) t (obj_flag (k_obj k (O_mb m))) suspend_flag k;
         if ret \<noteq> RT_EOK then Some (Return (ret, None), k)
         else do {
           let tick_delta = (if 0 < sint timeout then rt_tick_get k else tick_delta);
           k \<leftarrow> arm_if_positive t timeout k;
           Some (Reschedule (K_mb_recv m timeout tick_delta suspend_flag), k)
         }
       }
     }
     else mb_recv_commit m k)"

definition mb_recv ::
    "nat \<Rightarrow> u32 \<Rightarrow> suspend_flag \<Rightarrow> kernel \<Rightarrow> ((rt_err_t \<times> u64 option, mb_kont) outcome \<times> kernel) option" where
  "mb_recv m timeout suspend_flag k = do {
    RT_ASSERT (is_mb m k);
    if mb_entry (k_mb k m) = 0 \<and> timeout = 0 then Some (Return (- RT_ETIMEOUT, None), k)
    else mb_recv_loop m timeout 0 suspend_flag k
  }"

text \<open>The rest of a call when its thread runs again.\<close>

definition mb_kont_run ::
    "mb_kont \<Rightarrow> tid \<Rightarrow> kernel \<Rightarrow> ((rt_err_t \<times> u64 option, mb_kont) outcome \<times> kernel) option" where
  "mb_kont_run c t k =
    (case c of
       K_mb_return e v \<Rightarrow> Some (Return (e, v), k)
     | K_mb_send m v timeout tick_delta suspend_flag \<Rightarrow>
         if th_error (k_thread k t) \<noteq> RT_EOK then Some (Return (th_error (k_thread k t), None), k)
         else mb_send_loop m v (timeout_left timeout tick_delta (rt_tick_get k))
                (if 0 < sint timeout then rt_tick_get k - tick_delta else tick_delta) suspend_flag k
     | K_mb_recv m timeout tick_delta suspend_flag \<Rightarrow>
         if th_error (k_thread k t) \<noteq> RT_EOK then Some (Return (th_error (k_thread k t), None), k)
         else mb_recv_loop m (timeout_left timeout tick_delta (rt_tick_get k))
                (if 0 < sint timeout then rt_tick_get k - tick_delta else tick_delta) suspend_flag k)"

type_synonym mb_result = "((rt_err_t \<times> u64 option, mb_kont) outcome \<times> kernel) option"

definition rt_mb_send_wait :: "nat \<Rightarrow> u64 \<Rightarrow> u32 \<Rightarrow> kernel \<Rightarrow> mb_result" where
  "rt_mb_send_wait m v timeout k = mb_send_wait m v timeout RT_UNINTERRUPTIBLE k"

definition rt_mb_send_wait_interruptible :: "nat \<Rightarrow> u64 \<Rightarrow> u32 \<Rightarrow> kernel \<Rightarrow> mb_result" where
  "rt_mb_send_wait_interruptible m v timeout k = mb_send_wait m v timeout RT_INTERRUPTIBLE k"

definition rt_mb_send_wait_killable :: "nat \<Rightarrow> u64 \<Rightarrow> u32 \<Rightarrow> kernel \<Rightarrow> mb_result" where
  "rt_mb_send_wait_killable m v timeout k = mb_send_wait m v timeout RT_KILLABLE k"

definition rt_mb_send :: "nat \<Rightarrow> u64 \<Rightarrow> kernel \<Rightarrow> mb_result" where
  "rt_mb_send m v k = rt_mb_send_wait m v 0 k"

definition rt_mb_send_interruptible :: "nat \<Rightarrow> u64 \<Rightarrow> kernel \<Rightarrow> mb_result" where
  "rt_mb_send_interruptible m v k = rt_mb_send_wait_interruptible m v 0 k"

definition rt_mb_send_killable :: "nat \<Rightarrow> u64 \<Rightarrow> kernel \<Rightarrow> mb_result" where
  "rt_mb_send_killable m v k = rt_mb_send_wait_killable m v 0 k"

definition rt_mb_recv :: "nat \<Rightarrow> u32 \<Rightarrow> kernel \<Rightarrow> mb_result" where
  "rt_mb_recv m timeout k = mb_recv m timeout RT_UNINTERRUPTIBLE k"

definition rt_mb_recv_interruptibale :: "nat \<Rightarrow> u32 \<Rightarrow> kernel \<Rightarrow> mb_result" where
  "rt_mb_recv_interruptibale m timeout k = mb_recv m timeout RT_INTERRUPTIBLE k"

definition rt_mb_recv_killable :: "nat \<Rightarrow> u32 \<Rightarrow> kernel \<Rightarrow> mb_result" where
  "rt_mb_recv_killable m timeout k = mb_recv m timeout RT_KILLABLE k"

definition rt_mb_control :: "nat \<Rightarrow> ipc_cmd \<Rightarrow> kernel \<Rightarrow> ((rt_err_t, ipc_kont) outcome \<times> kernel) option" where
  "rt_mb_control m cmd k = do {
    RT_ASSERT (is_mb m k);
    case cmd of
      RT_IPC_CMD_RESET _ \<Rightarrow> do {
        (_, k) \<leftarrow> rt_ipc_list_resume_all (Mb_recv_q m) k;
        (_, k) \<leftarrow> rt_ipc_list_resume_all (Mb_send_q m) k;
        Some (Reschedule (K_return RT_EOK),
          set_mb m ((k_mb k m)\<lparr>mb_entry := 0, mb_in_offset := 0, mb_out_offset := 0\<rparr>) k)
      }
    | RT_IPC_CMD_OTHER \<Rightarrow> Some (Return (- RT_ERROR), k)
  }"

section \<open>The ring is a bounded queue\<close>

definition mb_wf :: "rt_mailbox \<Rightarrow> bool" where
  "mb_wf mb \<longleftrightarrow> mb_size mb \<noteq> 0 \<and> length (mb_msg_pool mb) = unat (mb_size mb) \<and>
     unat (mb_out_offset mb) < unat (mb_size mb) \<and> unat (mb_entry mb) \<le> unat (mb_size mb) \<and>
     unat (mb_in_offset mb) = (unat (mb_out_offset mb) + unat (mb_entry mb)) mod unat (mb_size mb)"

definition mb_contents :: "rt_mailbox \<Rightarrow> u64 list" where
  "mb_contents mb = map (\<lambda>i. mb_msg_pool mb ! ((unat (mb_out_offset mb) + i) mod unat (mb_size mb)))
     [0..<unat (mb_entry mb)]"

text \<open>What a send and a receive do to the ring when there is room, or a message.\<close>

definition mb_put :: "u64 \<Rightarrow> rt_mailbox \<Rightarrow> rt_mailbox option" where
  "mb_put v mb = (if mb_entry mb = mb_size mb then None
     else map_option (mb_entry_update (\<lambda>n. n + 1)) (mb_store v mb))"

definition mb_get :: "rt_mailbox \<Rightarrow> (u64 \<times> rt_mailbox) option" where
  "mb_get mb = (if mb_entry mb = 0 then None else mb_fetch mb)"

lemma next_offset_mod:
  assumes "unat i < unat sz"
  shows "unat (next_offset i sz) = (unat i + 1) mod unat sz"
proof -
  have "unat i + 1 < 2 ^ 16" using assms unat_u16_less [of sz] by simp
  then have i1: "unat (i + 1) = unat i + 1" by (simp add: unat_word_ariths)
  show ?thesis
  proof (cases "i + 1 \<ge> sz")
    case True
    then have "unat i + 1 = unat sz" using assms i1 by (simp add: word_le_nat_alt)
    with True show ?thesis by (simp add: next_offset_def)
  next
    case False
    with assms i1 show ?thesis by (simp add: next_offset_def word_le_nat_alt)
  qed
qed

lemma mb_put_contents:
  assumes wf: "mb_wf mb" and room: "length (mb_contents mb) < unat (mb_size mb)"
  shows "\<exists>mb'. mb_put v mb = Some mb' \<and> mb_wf mb' \<and> mb_contents mb' = mb_contents mb @ [v] \<and>
    mb_size mb' = mb_size mb"
proof -
  let ?n = "unat (mb_size mb)" and ?o = "unat (mb_out_offset mb)" and ?e = "unat (mb_entry mb)"
  let ?mb = "mb\<lparr>mb_msg_pool := (mb_msg_pool mb)[unat (mb_in_offset mb) := v],
    mb_in_offset := next_offset (mb_in_offset mb) (mb_size mb), mb_entry := mb_entry mb + 1\<rparr>"
  have e: "?e < ?n" using room by (simp add: mb_contents_def)
  have n: "?n < 65536" by (rule unat_u16_less)
  have e1: "unat (mb_entry mb + 1) = ?e + 1" using e n by (simp add: unat_word_ariths)
  have i: "unat (mb_in_offset mb) = (?o + ?e) mod ?n" using wf by (simp add: mb_wf_def)
  then have i': "unat (mb_in_offset mb) < ?n" using e by simp
  have len: "length (mb_msg_pool mb) = ?n" using wf by (simp add: mb_wf_def)
  have put: "mb_put v mb = Some ?mb"
    using e i' len by (auto simp: mb_put_def mb_store_def)
  have "mb_wf ?mb"
    using wf e e1 next_offset_mod [OF i'] i by (simp add: mb_wf_def mod_simps)
  moreover have "mb_contents ?mb = mb_contents mb @ [v]"
  proof (rule nth_equalityI)
    fix j assume "j < length (mb_contents ?mb)"
    then have j: "j \<le> ?e" using e1 by (simp add: mb_contents_def)
    show "mb_contents ?mb ! j = (mb_contents mb @ [v]) ! j"
    proof (cases "j = ?e")
      case True
      then show ?thesis using e1 i i' len by (simp add: mb_contents_def nth_append)
    next
      case False
      then have "(?o + j) mod ?n \<noteq> (?o + ?e) mod ?n" using add_mod_inj [of j ?n ?e ?o] j e by auto
      with False j e1 i e len show ?thesis by (simp add: mb_contents_def nth_append)
    qed
  qed (simp add: mb_contents_def e1)
  ultimately show ?thesis using put by auto
qed

lemma mb_get_contents:
  assumes wf: "mb_wf mb" and c: "mb_contents mb = x # xs"
  shows "\<exists>mb'. mb_get mb = Some (x, mb') \<and> mb_wf mb' \<and> mb_contents mb' = xs \<and> mb_size mb' = mb_size mb"
proof -
  let ?n = "unat (mb_size mb)" and ?o = "unat (mb_out_offset mb)" and ?e = "unat (mb_entry mb)"
  let ?mb = "mb\<lparr>mb_out_offset := next_offset (mb_out_offset mb) (mb_size mb), mb_entry := mb_entry mb - 1\<rparr>"
  have l: "?e = length (x # xs)" unfolding c [symmetric] by (simp add: mb_contents_def)
  have ne: "mb_entry mb \<noteq> 0" using l by auto
  have o: "?o < ?n" "length (mb_msg_pool mb) = ?n" using wf by (simp_all add: mb_wf_def)
  have e1: "unat (mb_entry mb - 1) = ?e - 1" using ne by (simp add: unat_minus_one)
  have o1: "unat (next_offset (mb_out_offset mb) (mb_size mb)) = (?o + 1) mod ?n" by (rule next_offset_mod [OF o(1)])
  have "mb_contents mb ! 0 = mb_msg_pool mb ! ((?o + 0) mod ?n)"
    using l unfolding mb_contents_def by (subst nth_map) (simp_all del: upt_Suc)
  then have "mb_msg_pool mb ! ((?o + 0) mod ?n) = x" using c by simp
  then have get: "mb_get mb = Some (x, ?mb)" using ne o by (simp add: mb_get_def mb_fetch_def)
  have "unat (mb_in_offset mb) = ((?o + 1) mod ?n + (?e - 1)) mod ?n"
    using wf l by (simp add: mb_wf_def mod_simps)
  moreover have "?e - 1 \<le> ?n" using wf by (auto simp: mb_wf_def)
  ultimately have "mb_wf ?mb" using wf e1 o1 o by (simp add: mb_wf_def)
  moreover have "mb_contents ?mb = xs"
  proof (rule nth_equalityI)
    show "length (mb_contents ?mb) = length xs" using l e1 by (simp add: mb_contents_def)
    fix j assume "j < length (mb_contents ?mb)"
    then have j: "j < length xs" using l e1 by (simp add: mb_contents_def)
    then have "xs ! j = mb_contents mb ! Suc j" using c by simp
    also have "\<dots> = mb_msg_pool mb ! ((?o + Suc j) mod ?n)" using j l by (simp add: mb_contents_def del: upt_Suc)
    finally show "mb_contents ?mb ! j = xs ! j" using j l e1 o1 by (simp add: mb_contents_def mod_simps)
  qed
  ultimately show ?thesis using get by auto
qed

interpretation mbq: bounded_fifo mb_wf mb_contents "\<lambda>mb. unat (mb_size mb)" mb_put mb_get "\<lambda>_ _. True"
proof unfold_locales
  fix mb :: rt_mailbox and x xs
  assume wf: "mb_wf mb"
  then show "length (mb_contents mb) \<le> unat (mb_size mb)" by (simp add: mb_contents_def mb_wf_def)
  show "\<exists>mb'. mb_put x mb = Some mb' \<and> mb_wf mb' \<and> mb_contents mb' = mb_contents mb @ [x] \<and>
      unat (mb_size mb') = unat (mb_size mb) \<and> (\<forall>y::u64. True = True)"
    if "length (mb_contents mb) < unat (mb_size mb)"
    using mb_put_contents [OF wf that, of x] by auto
  show "\<exists>mb'. mb_get mb = Some (x, mb') \<and> mb_wf mb' \<and> mb_contents mb' = xs \<and>
      unat (mb_size mb') = unat (mb_size mb) \<and> (\<forall>y::u64. True = True)"
    if "mb_contents mb = x # xs"
    using mb_get_contents [OF wf that] by auto
qed

section \<open>Sending and receiving\<close>

definition mb_flag_ok :: "nat \<Rightarrow> kernel \<Rightarrow> bool" where
  "mb_flag_ok m k \<longleftrightarrow> obj_flag (k_obj k (O_mb m)) \<in> {RT_IPC_FLAG_FIFO, RT_IPC_FLAG_PRIO}"

lemma set_mb_frame [simp]:
  "k_queue (set_mb m mb k) = k_queue k" "k_thread (set_mb m mb k) = k_thread k" "k_mb (set_mb m mb k) m = mb"
  "k_tick (set_mb m mb k) = k_tick k" "k_current (set_mb m mb k) = k_current k" "k_obj (set_mb m mb k) = k_obj k"
  "kernel_inv n base (set_mb m mb k) = kernel_inv n base k" "kernel_ok (set_mb m mb k) = kernel_ok k"
  "set_mb m mb (set_mb m mb' k) = set_mb m mb k"
  by (simp_all add: set_mb_def kernel_ok_def)

text \<open>A message goes in, or comes out, and the first thread waiting on the other side is woken.\<close>

definition woken_first :: "waitq \<Rightarrow> kernel \<Rightarrow> kernel \<Rightarrow> bool" where
  "woken_first w k k' \<longleftrightarrow>
    (case k_queue k (Wait w) of
       [] \<Rightarrow> k_queue k' = k_queue k \<and> k_thread k' = k_thread k
     | t # ts \<Rightarrow> k_queue k' (Wait w) = ts \<and> th_error (k_thread k' t) = RT_EOK \<and>
         (ready (stat t k') \<or> running (stat t k')))"

lemma wake_first:
  assumes ok: "kernel_ok k" and q: "k_queue k (Wait w) = t # ts"
  shows "\<exists>k'. rt_ipc_list_resume w k = Some (RT_EOK, k') \<and> kernel_ok k' \<and> woken_first w k k' \<and>
    k_mb k' = k_mb k \<and> k_mq k' = k_mq k"
proof -
  have inv: "kernel_inv (half - 1) (k_tick k) k" using ok by (simp add: kernel_ok_def)
  have "t \<notin> set ts"
    using sched_okD(1) [OF kernel_invD(1) [OF inv]] q unfolding separate_def by (metis distinct.simps(2))
  with ipc_list_resume_eq [OF inv q] q show ?thesis
    by (auto simp: kernel_ok_def woken_first_def resume_state_wait_queue)
qed

lemma mb_send_commit_ok:
  assumes ok: "kernel_ok k" and wf: "mb_wf (k_mb k m)" and room: "mb_entry (k_mb k m) \<noteq> mb_size (k_mb k m)"
  shows "\<exists>r k'. mb_send_commit m v k = Some (r, k') \<and> kernel_ok k' \<and> mb_wf (k_mb k' m) \<and>
    mb_contents (k_mb k' m) = mb_contents (k_mb k m) @ [v] \<and> woken_first (Mb_recv_q m) k k' \<and>
    r = (if k_queue k (Wait (Mb_recv_q m)) = [] then Return (RT_EOK, None) else Reschedule (K_mb_return RT_EOK None))"
proof -
  have "unat (mb_entry (k_mb k m)) < unat (mb_size (k_mb k m))"
    using wf room by (auto simp: mb_wf_def word_unat_eq_iff)
  then have e: "mb_entry (k_mb k m) < RT_MB_ENTRY_MAX" and l: "length (mb_contents (k_mb k m)) < unat (mb_size (k_mb k m))"
    using unat_u16_less [of "mb_size (k_mb k m)"] by (simp_all add: word_less_nat_alt mb_contents_def)
  obtain mb where mb: "mb_put v (k_mb k m) = Some mb" "mb_wf mb" "mb_contents mb = mb_contents (k_mb k m) @ [v]"
    using mb_put_contents [OF wf l] by blast
  then obtain mb0 where mb0: "mb_store v (k_mb k m) = Some mb0" "mb = mb0\<lparr>mb_entry := mb_entry mb0 + 1\<rparr>"
    using room by (auto simp: mb_put_def)
  then have e0: "mb_entry mb0 = mb_entry (k_mb k m)" by (auto simp: mb_store_def split: if_splits)
  let ?k = "set_mb m mb k"
  have call: "mb_send_commit m v k =
    (if k_queue ?k (Wait (Mb_recv_q m)) \<noteq> []
     then do { (_, k) \<leftarrow> rt_ipc_list_resume (Mb_recv_q m) ?k; Some (Reschedule (K_mb_return RT_EOK None), k) }
     else Some (Return (RT_EOK, None), ?k))"
    using mb0 e0 e by (simp add: mb_send_commit_def)
  show ?thesis
  proof (cases "k_queue k (Wait (Mb_recv_q m))")
    case Nil
    with call mb ok show ?thesis by (simp add: woken_first_def)
  next
    case (Cons t ts)
    then obtain k' where "rt_ipc_list_resume (Mb_recv_q m) ?k = Some (RT_EOK, k')" "kernel_ok k'"
        "woken_first (Mb_recv_q m) ?k k'" "k_mb k' = k_mb ?k"
      using wake_first [of ?k "Mb_recv_q m" t ts] ok by auto
    with call mb Cons show ?thesis by (simp add: woken_first_def)
  qed
qed

lemma mb_recv_commit_ok:
  assumes ok: "kernel_ok k" and wf: "mb_wf (k_mb k m)" and c: "mb_contents (k_mb k m) = v # vs"
  shows "\<exists>r k'. mb_recv_commit m k = Some (r, k') \<and> kernel_ok k' \<and> mb_wf (k_mb k' m) \<and>
    mb_contents (k_mb k' m) = vs \<and> woken_first (Mb_send_q m) k k' \<and>
    r = (if k_queue k (Wait (Mb_send_q m)) = [] then Return (RT_EOK, Some v)
         else Reschedule (K_mb_return RT_EOK (Some v)))"
proof -
  obtain mb where mb: "mb_get (k_mb k m) = Some (v, mb)" "mb_wf mb" "mb_contents mb = vs"
    using mb_get_contents [OF wf c] by blast
  then have f: "mb_fetch (k_mb k m) = Some (v, mb)" by (simp add: mb_get_def split: if_splits)
  let ?k = "set_mb m mb k"
  show ?thesis
  proof (cases "k_queue k (Wait (Mb_send_q m))")
    case Nil
    with f mb ok show ?thesis by (simp add: mb_recv_commit_def woken_first_def)
  next
    case (Cons t ts)
    then obtain k' where "rt_ipc_list_resume (Mb_send_q m) ?k = Some (RT_EOK, k')" "kernel_ok k'"
        "woken_first (Mb_send_q m) ?k k'" "k_mb k' = k_mb ?k"
      using wake_first [of ?k "Mb_send_q m" t ts] ok by auto
    with f mb Cons show ?thesis by (simp add: mb_recv_commit_def woken_first_def)
  qed
qed

lemma mb_send_blocks:
  assumes ok: "kernel_ok k" and mb: "mb_flag_ok m k" "mb_entry (k_mb k m) = mb_size (k_mb k m)"
    and time: "wait_time timeout" and c: "can_block c k" and sig: "lwp_suspend_sigcheck c sf k"
  shows "\<exists>k'. mb_send_loop m v timeout d sf k =
      Some (Reschedule (K_mb_send m v timeout (if 0 < sint timeout then k_tick k else d) sf), k') \<and> kernel_ok k' \<and>
    blocked (Mb_send_q m) (obj_flag (k_obj k (O_mb m))) c (set_error c (- RT_EINTR) k) k'"
proof -
  let ?f = "obj_flag (k_obj k (O_mb m))" and ?k = "set_error c (- RT_EINTR) k"
  obtain k2 k' where k': "rt_ipc_list_suspend (Mb_send_q m) c ?f sf ?k = Some (RT_EOK, k2)"
      "arm_if_positive c timeout k2 = Some k'" "kernel_ok k'" "blocked (Mb_send_q m) ?f c ?k k'"
    using block_arm [of ?k c ?f sf timeout "Mb_send_q m"] ok c mb(1) sig time by (auto simp: mb_flag_ok_def)
  moreover have "k_tick k2 = k_tick k"
    using k'(1) ipc_list_suspend_eq [of "half - 1" "k_tick k" ?k c ?f "Mb_send_q m" sf] ok mb(1) c sig
    by (simp add: kernel_ok_def can_block_def mb_flag_ok_def)
  ultimately show ?thesis
    using mb(2) time c unfolding can_block_def wait_time_def
    by (simp add: mb_send_loop_def RT_DEBUG_IN_THREAD_CONTEXT_def rt_thread_self_def rt_tick_get_def)
qed

lemma mb_recv_blocks:
  assumes ok: "kernel_ok k" and mb: "mb_flag_ok m k" "mb_entry (k_mb k m) = 0"
    and time: "wait_time timeout" and c: "can_block c k" and sig: "lwp_suspend_sigcheck c sf k"
  shows "\<exists>k'. mb_recv_loop m timeout d sf k =
      Some (Reschedule (K_mb_recv m timeout (if 0 < sint timeout then k_tick k else d) sf), k') \<and> kernel_ok k' \<and>
    blocked (Mb_recv_q m) (obj_flag (k_obj k (O_mb m))) c (set_error c (- RT_EINTR) k) k'"
proof -
  let ?f = "obj_flag (k_obj k (O_mb m))" and ?k = "set_error c (- RT_EINTR) k"
  obtain k2 k' where k': "rt_ipc_list_suspend (Mb_recv_q m) c ?f sf ?k = Some (RT_EOK, k2)"
      "arm_if_positive c timeout k2 = Some k'" "kernel_ok k'" "blocked (Mb_recv_q m) ?f c ?k k'"
    using block_arm [of ?k c ?f sf timeout "Mb_recv_q m"] ok c mb(1) sig time by (auto simp: mb_flag_ok_def)
  moreover have "k_tick k2 = k_tick k"
    using k'(1) ipc_list_suspend_eq [of "half - 1" "k_tick k" ?k c ?f "Mb_recv_q m" sf] ok mb(1) c sig
    by (simp add: kernel_ok_def can_block_def mb_flag_ok_def)
  ultimately show ?thesis
    using mb(2) time c unfolding can_block_def wait_time_def
    by (simp add: mb_recv_loop_def RT_DEBUG_IN_THREAD_CONTEXT_def rt_thread_self_def rt_tick_get_def)
qed

section \<open>Properties\<close>

lemma contents_length: "length (mb_contents mb) = unat (mb_entry mb)"
  by (simp add: mb_contents_def)

text \<open>A mailbox of two words, empty or full, and thread 3 waiting on a given list.\<close>

definition mb_kernel :: "waitq \<Rightarrow> u16 \<Rightarrow> kernel" where
  "mb_kernel w n = set_mb 0 \<lparr>mb_msg_pool = [11, 22], mb_size = 2, mb_entry = n, mb_in_offset = 0, mb_out_offset = 0\<rparr>
     (waiting_kernel w)"

lemma mb_kernel_facts:
  "kernel_ok (mb_kernel w n)" "is_mb 0 (mb_kernel w n)" "mb_flag_ok 0 (mb_kernel w n)"
  "can_block 2 (mb_kernel w n)" "lwp_suspend_sigcheck 2 sf (mb_kernel w n)" "n \<in> {0, 2} \<Longrightarrow> mb_wf (k_mb (mb_kernel w n) 0)"
  "k_queue (mb_kernel w n) (Wait v) = (if v = w then [3] else [])"
proof -
  show "is_mb 0 (mb_kernel w n)"
    using waiting_kernel_sel(7) [of "O_mb 0" w]
    by (simp add: is_mb_def rt_object_get_type_def mb_kernel_def class_of_def)
  show "lwp_suspend_sigcheck 2 sf (mb_kernel w n)"
    using waiting_kernel_sig [of 2 sf w] by (cases sf) (simp_all add: lwp_suspend_sigcheck_def mb_kernel_def set_mb_def)
  show "can_block 2 (mb_kernel w n)" by (simp add: can_block_def mb_kernel_def) (simp add: set_mb_def)
qed (auto simp: mb_kernel_def waiting_kernel_ok mb_flag_ok_def mb_wf_def)

text \<open>The ring buffer of a mailbox is a bounded first-in first-out queue: from any well-formed
  ring, storing a sequence of words that fits and then fetching as many as there are returns the old
  contents followed by the stored words in order and leaves the ring empty, whatever the offsets
  are and however often they wrap around.\<close>

theorem mailbox_ring_fifo:
  assumes "mb_wf mb" "length (mb_contents mb) + length xs \<le> unat (mb_size mb)"
  shows "\<exists>mb1 mb2. put_list mb_put xs mb = Some mb1 \<and>
    get_list mb_get (length (mb_contents mb) + length xs) mb1 = Some (mb_contents mb @ xs, mb2) \<and>
    mb_wf mb2 \<and> mb_contents mb2 = []"
  using mbq.fifo [OF assms] by auto

theorem mailbox_ring_fifo_witness:
  "\<exists>mb1 mb2. put_list mb_put [7, 8] (k_mb (mb_kernel (Mb_recv_q 0) 0) 0) = Some mb1 \<and>
    get_list mb_get (Suc (Suc 0)) mb1 = Some ([7, 8], mb2) \<and> mb_wf mb2 \<and> mb_contents mb2 = []"
proof -
  have "mb_contents (k_mb (mb_kernel (Mb_recv_q 0) 0) 0) = []" "unat (mb_size (k_mb (mb_kernel (Mb_recv_q 0) 0) 0)) = 2"
    by (simp_all add: mb_kernel_def mb_contents_def)
  then show ?thesis
    using mailbox_ring_fifo [OF mb_kernel_facts(6) [of 0 "Mb_recv_q 0"], of "[7, 8]"] by simp
qed

text \<open>C25: Sending to a mailbox with a waiting time: with room the word is appended to the contents and
  the first waiting receiver, if any, is made ready; when the mailbox is full its contents stay, and
  the sender is suspended on the sender list and remembers when its wait began. The invariants
  of kernel and mailbox are kept, and the counter never overflows.\<close>

theorem mb_send_refines:
  assumes "kernel_ok k" "is_mb m k" "mb_flag_ok m k" "mb_wf (k_mb k m)"
    and "wait_time timeout" "can_block c k" "lwp_suspend_sigcheck c sf k"
  shows "\<exists>r k'. mb_send_wait m v timeout sf k = Some (r, k') \<and> kernel_ok k' \<and> mb_wf (k_mb k' m) \<and>
    (if length (mb_contents (k_mb k m)) < unat (mb_size (k_mb k m))
     then mb_contents (k_mb k' m) = mb_contents (k_mb k m) @ [v] \<and> woken_first (Mb_recv_q m) k k' \<and>
       r = (if k_queue k (Wait (Mb_recv_q m)) = [] then Return (RT_EOK, None)
            else Reschedule (K_mb_return RT_EOK None))
     else k_mb k' m = k_mb k m \<and> suspended (stat c k') \<and>
       r = Reschedule (K_mb_send m v timeout (if 0 < sint timeout then k_tick k else 0) sf) \<and>
       k_queue k' (Wait (Mb_send_q m)) =
         wait_insert (obj_flag (k_obj k (O_mb m))) c k (k_queue k (Wait (Mb_send_q m))))"
proof (cases "mb_entry (k_mb k m) = mb_size (k_mb k m)")
  case True
  obtain k' where k': "mb_send_loop m v timeout 0 sf k =
        Some (Reschedule (K_mb_send m v timeout (if 0 < sint timeout then k_tick k else 0) sf), k')"
      "kernel_ok k'" "blocked (Mb_send_q m) (obj_flag (k_obj k (O_mb m))) c (set_error c (- RT_EINTR) k) k'"
    using mb_send_blocks [OF assms(1,3) True assms(5-7)] by blast
  have w: "wait_insert f c (set_error c (- RT_EINTR) k) ws = wait_insert f c k ws" for f ws
    by (rule wait_insert_cong) simp
  have "mb_send_wait m v timeout sf k = mb_send_loop m v timeout 0 sf k"
    using assms(2,5) by (simp add: mb_send_wait_def wait_time_def)
  with k' True assms(4) w show ?thesis by (simp add: blocked_def contents_length)
next
  case False
  then have "length (mb_contents (k_mb k m)) < unat (mb_size (k_mb k m))"
    using assms(4) by (auto simp: contents_length mb_wf_def word_unat_eq_iff)
  moreover have "mb_send_wait m v timeout sf k = mb_send_commit m v k"
    using assms(2) False by (simp add: mb_send_wait_def mb_send_loop_def)
  ultimately show ?thesis using mb_send_commit_ok [OF assms(1,4) False, of v] by auto
qed

theorem mb_send_refines_witness:
  "\<exists>r k'. mb_send_wait 0 9 4 RT_KILLABLE (mb_kernel (Mb_recv_q 0) 0) = Some (r, k') \<and> kernel_ok k' \<and>
    mb_contents (k_mb k' 0) = [9] \<and> r = Reschedule (K_mb_return RT_EOK None)"
proof -
  have "mb_contents (k_mb (mb_kernel (Mb_recv_q 0) 0) 0) = []" "unat (mb_size (k_mb (mb_kernel (Mb_recv_q 0) 0) 0)) = 2"
    by (simp_all add: mb_kernel_def mb_contents_def)
  then show ?thesis
    using mb_send_refines [of "mb_kernel (Mb_recv_q 0) 0" 0 4 2 RT_KILLABLE 9] mb_kernel_facts
    by (auto simp: wait_time_def)
qed

text \<open>C26: Receiving from a mailbox with a waiting time: the oldest word is returned and removed and the
  first waiting sender, if any, is made ready; when the mailbox is empty the receiver is suspended
  on the receiver list. The invariants of kernel and mailbox are kept.\<close>

theorem mb_recv_refines:
  assumes "kernel_ok k" "is_mb m k" "mb_flag_ok m k" "mb_wf (k_mb k m)"
    and "wait_time timeout" "can_block c k" "lwp_suspend_sigcheck c sf k"
  shows "\<exists>r k'. mb_recv m timeout sf k = Some (r, k') \<and> kernel_ok k' \<and> mb_wf (k_mb k' m) \<and>
    (case mb_contents (k_mb k m) of
       v # vs \<Rightarrow> mb_contents (k_mb k' m) = vs \<and> woken_first (Mb_send_q m) k k' \<and>
         r = (if k_queue k (Wait (Mb_send_q m)) = [] then Return (RT_EOK, Some v)
              else Reschedule (K_mb_return RT_EOK (Some v)))
     | [] \<Rightarrow> k_mb k' m = k_mb k m \<and> suspended (stat c k') \<and>
         r = Reschedule (K_mb_recv m timeout (if 0 < sint timeout then k_tick k else 0) sf) \<and>
         k_queue k' (Wait (Mb_recv_q m)) =
           wait_insert (obj_flag (k_obj k (O_mb m))) c k (k_queue k (Wait (Mb_recv_q m))))"
proof (cases "mb_contents (k_mb k m)")
  case Nil
  then have e: "mb_entry (k_mb k m) = 0" using contents_length [of "k_mb k m"] by (simp add: unat_eq_0)
  obtain k' where k': "mb_recv_loop m timeout 0 sf k =
        Some (Reschedule (K_mb_recv m timeout (if 0 < sint timeout then k_tick k else 0) sf), k')"
      "kernel_ok k'" "blocked (Mb_recv_q m) (obj_flag (k_obj k (O_mb m))) c (set_error c (- RT_EINTR) k) k'"
    using mb_recv_blocks [OF assms(1,3) e assms(5-7)] by blast
  have w: "wait_insert f c (set_error c (- RT_EINTR) k) ws = wait_insert f c k ws" for f ws
    by (rule wait_insert_cong) simp
  have "mb_recv m timeout sf k = mb_recv_loop m timeout 0 sf k"
    using assms(2,5) by (simp add: mb_recv_def wait_time_def)
  with k' Nil assms(4) w show ?thesis by (simp add: blocked_def)
next
  case (Cons v vs)
  then have "mb_entry (k_mb k m) \<noteq> 0" using contents_length [of "k_mb k m"] by auto
  then have "mb_recv m timeout sf k = mb_recv_commit m k"
    using assms(2) by (simp add: mb_recv_def mb_recv_loop_def)
  with Cons mb_recv_commit_ok [OF assms(1,4) Cons] show ?thesis by auto
qed

theorem mb_recv_refines_witness:
  "\<exists>r k'. mb_recv 0 4 RT_KILLABLE (mb_kernel (Mb_send_q 0) 2) = Some (r, k') \<and> kernel_ok k' \<and>
    mb_contents (k_mb k' 0) = [22] \<and> r = Reschedule (K_mb_return RT_EOK (Some 11))"
proof -
  have "mb_contents (k_mb (mb_kernel (Mb_send_q 0) 2) 0) = [11, 22]"
    by (simp add: mb_kernel_def mb_contents_def upt_rec)
  then show ?thesis
    using mb_recv_refines [of "mb_kernel (Mb_send_q 0) 2" 0 4 2 RT_KILLABLE] mb_kernel_facts
    by (auto simp: wait_time_def)
qed

text \<open>The waiting time of a blocked call shrinks by exactly the ticks that have passed since the
  wait began, also when the tick counter wrapped around in between, and never below zero, so a
  call that has to wait again does not wait longer than its budget.\<close>

theorem timeout_left_correct:
  assumes "0 < sint timeout" "now - tick_delta \<le> 0x80000000"
  shows "sint (timeout_left timeout tick_delta now) = max 0 (sint timeout - uint (now - tick_delta))"
proof -
  let ?d = "now - tick_delta"
  have d: "0 \<le> uint ?d" "uint ?d \<le> 2 ^ 31" using assms(2) by (simp_all add: word_le_def)
  have t: "sint timeout < 2 ^ 31" using sint_lt [of timeout] by simp
  have "timeout - ?d = word_of_int (sint timeout - uint ?d)" by (simp add: word_of_int_minus)
  then have "sint (timeout - ?d) = signed_take_bit 31 (sint timeout - uint ?d)"
    using sint_sbintrunc' [of "sint timeout - uint ?d", where 'a = 32] by simp
  also have "\<dots> = sint timeout - uint ?d"
    using d t assms(1) by (intro signed_take_bit_int_eq_self) linarith+
  finally show ?thesis using assms(1) by (simp add: timeout_left_def Let_def)
qed

theorem timeout_left_correct_witness:
  "sint (timeout_left 10 (- 2) 3) = 5"
  using timeout_left_correct [of 10 3 "- 2"] by simp

end
