(* ===== verification/Msgqueue.thy ===== *)
theory Msgqueue
  imports Mailbox
begin

text \<open>
  The message queue of \<^verbatim>\<open>src/ipc.c\<close>: fixed-size message blocks in a pool, linked either on the list
  of free blocks or on the queue. A block is identified by its number in the pool. Sending and
  receiving leave the critical section while they copy a message, so a block can be on neither
  list for a while: each call has two critical sections, which are separate definitions with a continuation between them, and the invariant
  has the blocks being copied as a parameter.
\<close>

section \<open>The block lists\<close>

abbreviation RT_MQ_ENTRY_MAX :: u16 where "RT_MQ_ENTRY_MAX \<equiv> 0xffff"
abbreviation RT_ALIGN_SIZE :: u64 where "RT_ALIGN_SIZE \<equiv> 8"
abbreviation sizeof_mq_message :: nat where "sizeof_mq_message \<equiv> 8"

definition upd_msg :: "nat \<Rightarrow> (rt_mq_message \<Rightarrow> rt_mq_message) \<Rightarrow> rt_messagequeue \<Rightarrow> rt_messagequeue" where
  "upd_msg i f mq = mq\<lparr>mq_msg_pool := (mq_msg_pool mq)(i := f (mq_msg_pool mq i))\<rparr>"

text \<open>Take a block off the free list.\<close>

definition mq_alloc :: "rt_messagequeue \<Rightarrow> (nat \<times> rt_messagequeue) option" where
  "mq_alloc mq = (case mq_free mq of
     None \<Rightarrow> None
   | Some msg \<Rightarrow> Some (msg, mq\<lparr>mq_free := msg_next (mq_msg_pool mq msg)\<rparr>))"

text \<open>\<open>rt_memcpy (msg + 1, buffer, size)\<close>\<close>

definition mq_copy_in :: "nat \<Rightarrow> u8 list \<Rightarrow> rt_messagequeue \<Rightarrow> rt_messagequeue" where
  "mq_copy_in msg buffer mq =
    upd_msg msg (\<lambda>b. b\<lparr>msg_data := buffer @ drop (length buffer) (msg_data b)\<rparr>) mq"

definition mq_link_tail :: "nat \<Rightarrow> rt_messagequeue \<Rightarrow> rt_messagequeue" where
  "mq_link_tail msg mq =
    (let mq = (case mq_tail mq of
                 Some last_msg \<Rightarrow> upd_msg last_msg (msg_next_update (\<lambda>_. Some msg)) mq | None \<Rightarrow> mq);
         mq = mq\<lparr>mq_tail := Some msg\<rparr>
     in if mq_head mq = None then mq\<lparr>mq_head := Some msg\<rparr> else mq)"

definition mq_link_head :: "nat \<Rightarrow> rt_messagequeue \<Rightarrow> rt_messagequeue" where
  "mq_link_head msg mq =
    (let mq = upd_msg msg (msg_next_update (\<lambda>_. mq_head mq)) mq;
         mq = mq\<lparr>mq_head := Some msg\<rparr>
     in if mq_tail mq = None then mq\<lparr>mq_tail := Some msg\<rparr> else mq)"

text \<open>Take the first block off the queue.\<close>

definition mq_unlink_head :: "rt_messagequeue \<Rightarrow> (nat \<times> rt_messagequeue) option" where
  "mq_unlink_head mq = (case mq_head mq of
     None \<Rightarrow> None
   | Some msg \<Rightarrow>
       let mq = mq\<lparr>mq_head := msg_next (mq_msg_pool mq msg)\<rparr>
       in Some (msg, if mq_tail mq = Some msg then mq\<lparr>mq_tail := None\<rparr> else mq))"

definition mq_release :: "nat \<Rightarrow> rt_messagequeue \<Rightarrow> rt_messagequeue" where
  "mq_release msg mq = (upd_msg msg (msg_next_update (\<lambda>_. mq_free mq)) mq)\<lparr>mq_free := Some msg\<rparr>"

section \<open>The operations\<close>

definition is_mq :: "nat \<Rightarrow> kernel \<Rightarrow> bool" where
  "is_mq m k \<longleftrightarrow> rt_object_get_type (O_mq m) k = RT_Object_Class_MessageQueue"

definition set_mq :: "nat \<Rightarrow> rt_messagequeue \<Rightarrow> kernel \<Rightarrow> kernel" where
  "set_mq m mq k = k\<lparr>k_mq := (k_mq k)(m := mq)\<rparr>"

text \<open>The loop that threads all blocks on the free list.\<close>

primrec mq_init_free :: "nat \<Rightarrow> nat \<Rightarrow> rt_messagequeue \<Rightarrow> rt_messagequeue" where
  "mq_init_free 0 temp mq = mq"
| "mq_init_free (Suc n) temp mq = mq_init_free n (Suc temp) (mq_release temp mq)"

definition mq_build :: "(nat \<Rightarrow> rt_mq_message) \<Rightarrow> u16 \<Rightarrow> u16 \<Rightarrow> rt_messagequeue" where
  "mq_build pool msg_size max_msgs =
    (mq_init_free (unat max_msgs) 0 \<lparr>mq_msg_pool = pool, mq_msg_size = msg_size, mq_max_msgs = max_msgs,
       mq_entry = 0, mq_head = None, mq_tail = None, mq_free = None\<rparr>)\<lparr>mq_entry := 0\<rparr>"

definition mq_setup :: "nat \<Rightarrow> rt_messagequeue \<Rightarrow> u8 \<Rightarrow> kernel \<Rightarrow> kernel" where
  "mq_setup m mq flag k =
    (let k = upd_obj (O_mq m) (obj_flag_update (\<lambda>_. flag)) k;
         k = rt_ipc_object_init (Mq_recv_q m) k;
         k = set_mq m mq k
     in rt_ipc_object_init (Mq_send_q m) k)"

definition rt_mq_init ::
    "nat \<Rightarrow> string \<Rightarrow> (nat \<Rightarrow> rt_mq_message) \<Rightarrow> u64 \<Rightarrow> u64 \<Rightarrow> u8 \<Rightarrow> kernel \<Rightarrow> (rt_err_t \<times> kernel) option" where
  "rt_mq_init m name msgpool msg_size pool_size flag k = do {
    k \<leftarrow> rt_object_init (O_mq m) RT_Object_Class_MessageQueue name k;
    let sz = (ucast (RT_ALIGN msg_size RT_ALIGN_SIZE) :: u16);
    let max_msgs = (ucast (pool_size div (ucast sz + of_nat sizeof_mq_message)) :: u16);
    Some (RT_EOK, mq_setup m (mq_build msgpool sz max_msgs) flag k)
  }"

definition rt_mq_detach :: "nat \<Rightarrow> kernel \<Rightarrow> (rt_err_t \<times> kernel) option" where
  "rt_mq_detach m k = do {
    RT_ASSERT (is_mq m k);
    RT_ASSERT (rt_object_is_systemobject (O_mq m) k);
    (_, k) \<leftarrow> rt_ipc_list_resume_all (Mq_recv_q m) k;
    (_, k) \<leftarrow> rt_ipc_list_resume_all (Mq_send_q m) k;
    Some (RT_EOK, rt_object_detach (O_mq m) k)
  }"

definition rt_mq_create ::
    "string \<Rightarrow> u64 \<Rightarrow> u64 \<Rightarrow> u8 \<Rightarrow> nat option \<Rightarrow> (nat \<Rightarrow> rt_mq_message) option \<Rightarrow> kernel \<Rightarrow>
     (nat option \<times> kernel) option" where
  "rt_mq_create name msg_size max_msgs flag mem pool k = do {
    RT_DEBUG_NOT_IN_INTERRUPT k;
    (object, k) \<leftarrow> rt_object_allocate RT_Object_Class_MessageQueue name (map_option O_mq mem) k;
    case object of
      Some (O_mq m) \<Rightarrow>
        (case pool of
           None \<Rightarrow> map_option (\<lambda>k. (None, k)) (rt_object_delete (O_mq m)
             (rt_ipc_object_init (Mq_recv_q m) (upd_obj (O_mq m) (obj_flag_update (\<lambda>_. flag)) k)))
         | Some msgpool \<Rightarrow>
             let sz = (ucast (RT_ALIGN msg_size RT_ALIGN_SIZE) :: u16)
             in Some (Some m, mq_setup m (mq_build msgpool sz (ucast max_msgs)) flag k))
    | _ \<Rightarrow> Some (None, k)
  }"

definition rt_mq_delete :: "nat \<Rightarrow> kernel \<Rightarrow> (rt_err_t \<times> kernel) option" where
  "rt_mq_delete m k = do {
    RT_DEBUG_NOT_IN_INTERRUPT k;
    RT_ASSERT (is_mq m k);
    RT_ASSERT (\<not> rt_object_is_systemobject (O_mq m) k);
    (_, k) \<leftarrow> rt_ipc_list_resume_all (Mq_recv_q m) k;
    (_, k) \<leftarrow> rt_ipc_list_resume_all (Mq_send_q m) k;
    k \<leftarrow> rt_object_delete (O_mq m) k;
    Some (RT_EOK, k)
  }"

datatype mq_kont =
    K_mq_return rt_err_t "u8 list option"
  | K_mq_send nat "u8 list" u32 u32 suspend_flag
  | K_mq_recv nat nat u32 u32 suspend_flag
  | K_mq_link_tail nat nat "u8 list"
  | K_mq_link_head nat nat "u8 list"
  | K_mq_put_back nat nat nat

type_synonym mq_result = "((rt_err_t \<times> u8 list option, mq_kont) outcome \<times> kernel) option"

text \<open>Count the message and wake a receiver: the end of \<open>_rt_mq_send_wait\<close> and \<open>rt_mq_urgent\<close>.\<close>

definition mq_count_and_wake :: "nat \<Rightarrow> kernel \<Rightarrow> mq_result" where
  "mq_count_and_wake m k =
    (if mq_entry (k_mq k m) < RT_MQ_ENTRY_MAX
     then do {
       let k = set_mq m ((k_mq k m)\<lparr>mq_entry := mq_entry (k_mq k m) + 1\<rparr>) k;
       if k_queue k (Wait (Mq_recv_q m)) \<noteq> []
       then do {
         (_, k) \<leftarrow> rt_ipc_list_resume (Mq_recv_q m) k;
         Some (Reschedule (K_mq_return RT_EOK None), k)
       }
       else Some (Return (RT_EOK, None), k)
     }
     else Some (Return (- RT_EFULL, None), k))"

text \<open>The block is taken off the free list in one critical section and linked to the queue in the next one. Interrupts are enabled in between, while the
  message is copied into the block, which nobody else can reach.\<close>

definition mq_send_commit :: "nat \<Rightarrow> u8 list \<Rightarrow> kernel \<Rightarrow> mq_result" where
  "mq_send_commit m buffer k = do {
    (msg, mq) \<leftarrow> mq_alloc (k_mq k m);
    Some (Continue (K_mq_link_tail m msg buffer), set_mq m mq k)
  }"

definition mq_send_link :: "nat \<Rightarrow> nat \<Rightarrow> u8 list \<Rightarrow> kernel \<Rightarrow> mq_result" where
  "mq_send_link m msg buffer k =
    (let mq = upd_msg msg (msg_next_update (\<lambda>_. None)) (k_mq k m);
         mq = mq_copy_in msg buffer mq;
         mq = mq_link_tail msg mq
     in mq_count_and_wake m (set_mq m mq k))"

definition mq_send_loop :: "nat \<Rightarrow> u8 list \<Rightarrow> u32 \<Rightarrow> u32 \<Rightarrow> suspend_flag \<Rightarrow> kernel \<Rightarrow> mq_result" where
  "mq_send_loop m buffer timeout tick_delta suspend_flag k =
    (if mq_free (k_mq k m) = None
     then do {
       t \<leftarrow> rt_thread_self k;
       let k = set_error t (- RT_EINTR) k;
       if timeout = 0 then Some (Return (- RT_EFULL, None), k)
       else do {
         RT_DEBUG_IN_THREAD_CONTEXT k;
         (ret, k) \<leftarrow> rt_ipc_list_suspend (Mq_send_q m) t (obj_flag (k_obj k (O_mq m))) suspend_flag k;
         if ret \<noteq> RT_EOK then Some (Return (ret, None), k)
         else do {
           let tick_delta = (if 0 < sint timeout then rt_tick_get k else tick_delta);
           k \<leftarrow> arm_if_positive t timeout k;
           Some (Reschedule (K_mq_send m buffer timeout tick_delta suspend_flag), k)
         }
       }
     }
     else mq_send_commit m buffer k)"

definition mq_send_wait :: "nat \<Rightarrow> u8 list \<Rightarrow> u32 \<Rightarrow> suspend_flag \<Rightarrow> kernel \<Rightarrow> mq_result" where
  "mq_send_wait m buffer timeout suspend_flag k = do {
    RT_ASSERT (is_mq m k);
    RT_ASSERT (length buffer \<noteq> 0);
    if length buffer > unat (mq_msg_size (k_mq k m)) then Some (Return (- RT_ERROR, None), k)
    else if mq_free (k_mq k m) = None \<and> timeout = 0 then Some (Return (- RT_EFULL, None), k)
    else mq_send_loop m buffer timeout 0 suspend_flag k
  }"

definition rt_mq_urgent :: "nat \<Rightarrow> u8 list \<Rightarrow> kernel \<Rightarrow> mq_result" where
  "rt_mq_urgent m buffer k = do {
    RT_ASSERT (is_mq m k);
    RT_ASSERT (length buffer \<noteq> 0);
    if length buffer > unat (mq_msg_size (k_mq k m)) then Some (Return (- RT_ERROR, None), k)
    else case mq_alloc (k_mq k m) of
      None \<Rightarrow> Some (Return (- RT_EFULL, None), k)
    | Some (msg, mq) \<Rightarrow> Some (Continue (K_mq_link_head m msg buffer), set_mq m mq k)
  }"

definition mq_urgent_link :: "nat \<Rightarrow> nat \<Rightarrow> u8 list \<Rightarrow> kernel \<Rightarrow> mq_result" where
  "mq_urgent_link m msg buffer k =
    (let mq = mq_copy_in msg buffer (k_mq k m);
         mq = mq_link_head msg mq
     in mq_count_and_wake m (set_mq m mq k))"

text \<open>The first block is taken off the queue in one critical section and given back in the next one; the message is copied in between.\<close>

definition mq_recv_commit :: "nat \<Rightarrow> nat \<Rightarrow> kernel \<Rightarrow> mq_result" where
  "mq_recv_commit m sz k = do {
    (msg, mq) \<leftarrow> mq_unlink_head (k_mq k m);
    let mq = mq\<lparr>mq_entry := mq_entry mq - 1\<rparr>;
    Some (Continue (K_mq_put_back m msg sz), set_mq m mq k)
  }"

definition mq_recv_put_back :: "nat \<Rightarrow> nat \<Rightarrow> nat \<Rightarrow> kernel \<Rightarrow> mq_result" where
  "mq_recv_put_back m msg sz k = do {
    let mq = k_mq k m;
    let buffer = take (if sz > unat (mq_msg_size mq) then unat (mq_msg_size mq) else sz) (msg_data (mq_msg_pool mq msg));
    let k = set_mq m (mq_release msg mq) k;
    if k_queue k (Wait (Mq_send_q m)) \<noteq> []
    then do {
      (_, k) \<leftarrow> rt_ipc_list_resume (Mq_send_q m) k;
      Some (Reschedule (K_mq_return RT_EOK (Some buffer)), k)
    }
    else Some (Return (RT_EOK, Some buffer), k)
  }"

definition mq_recv_loop :: "nat \<Rightarrow> nat \<Rightarrow> u32 \<Rightarrow> u32 \<Rightarrow> suspend_flag \<Rightarrow> kernel \<Rightarrow> mq_result" where
  "mq_recv_loop m sz timeout tick_delta suspend_flag k =
    (if mq_entry (k_mq k m) = 0
     then do {
       RT_DEBUG_IN_THREAD_CONTEXT k;
       t \<leftarrow> rt_thread_self k;
       let k = set_error t (- RT_EINTR) k;
       if timeout = 0 then Some (Return (- RT_ETIMEOUT, None), set_error t (- RT_ETIMEOUT) k)
       else do {
         (ret, k) \<leftarrow> rt_ipc_list_suspend (Mq_recv_q m) t (obj_flag (k_obj k (O_mq m))) suspend_flag k;
         if ret \<noteq> RT_EOK then Some (Return (ret, None), k)
         else do {
           let tick_delta = (if 0 < sint timeout then rt_tick_get k else tick_delta);
           k \<leftarrow> arm_if_positive t timeout k;
           Some (Reschedule (K_mq_recv m sz timeout tick_delta suspend_flag), k)
         }
       }
     }
     else mq_recv_commit m sz k)"

definition mq_recv :: "nat \<Rightarrow> nat \<Rightarrow> u32 \<Rightarrow> suspend_flag \<Rightarrow> kernel \<Rightarrow> mq_result" where
  "mq_recv m sz timeout suspend_flag k = do {
    RT_ASSERT (is_mq m k);
    RT_ASSERT (sz \<noteq> 0);
    if mq_entry (k_mq k m) = 0 \<and> timeout = 0 then Some (Return (- RT_ETIMEOUT, None), k)
    else mq_recv_loop m sz timeout 0 suspend_flag k
  }"

definition mq_kont_run :: "mq_kont \<Rightarrow> tid \<Rightarrow> kernel \<Rightarrow> mq_result" where
  "mq_kont_run c t k =
    (case c of
       K_mq_return e v \<Rightarrow> Some (Return (e, v), k)
     | K_mq_send m buffer timeout tick_delta suspend_flag \<Rightarrow>
         if th_error (k_thread k t) \<noteq> RT_EOK then Some (Return (th_error (k_thread k t), None), k)
         else mq_send_loop m buffer (timeout_left timeout tick_delta (rt_tick_get k))
                (if 0 < sint timeout then rt_tick_get k - tick_delta else tick_delta) suspend_flag k
     | K_mq_recv m sz timeout tick_delta suspend_flag \<Rightarrow>
         if th_error (k_thread k t) \<noteq> RT_EOK then Some (Return (th_error (k_thread k t), None), k)
         else mq_recv_loop m sz (timeout_left timeout tick_delta (rt_tick_get k))
                (if 0 < sint timeout then rt_tick_get k - tick_delta else tick_delta) suspend_flag k
     | K_mq_link_tail m msg buffer \<Rightarrow> mq_send_link m msg buffer k
     | K_mq_link_head m msg buffer \<Rightarrow> mq_urgent_link m msg buffer k
     | K_mq_put_back m msg sz \<Rightarrow> mq_recv_put_back m msg sz k)"

text \<open>A call of thread \<open>t\<close> that is not interrupted between its critical sections.\<close>

definition mq_through :: "tid \<Rightarrow> mq_result \<Rightarrow> mq_result" where
  "mq_through t res = do {
    (r, k) \<leftarrow> res;
    case r of Continue c \<Rightarrow> mq_kont_run c t k | _ \<Rightarrow> Some (r, k)
  }"

definition rt_mq_send_wait :: "nat \<Rightarrow> u8 list \<Rightarrow> u32 \<Rightarrow> kernel \<Rightarrow> mq_result" where
  "rt_mq_send_wait m buffer timeout k = mq_send_wait m buffer timeout RT_UNINTERRUPTIBLE k"

definition rt_mq_send_wait_interruptible :: "nat \<Rightarrow> u8 list \<Rightarrow> u32 \<Rightarrow> kernel \<Rightarrow> mq_result" where
  "rt_mq_send_wait_interruptible m buffer timeout k = mq_send_wait m buffer timeout RT_INTERRUPTIBLE k"

definition rt_mq_send_wait_killable :: "nat \<Rightarrow> u8 list \<Rightarrow> u32 \<Rightarrow> kernel \<Rightarrow> mq_result" where
  "rt_mq_send_wait_killable m buffer timeout k = mq_send_wait m buffer timeout RT_KILLABLE k"

definition rt_mq_send :: "nat \<Rightarrow> u8 list \<Rightarrow> kernel \<Rightarrow> mq_result" where
  "rt_mq_send m buffer k = rt_mq_send_wait m buffer 0 k"

definition rt_mq_send_interrupt :: "nat \<Rightarrow> u8 list \<Rightarrow> kernel \<Rightarrow> mq_result" where
  "rt_mq_send_interrupt m buffer k = rt_mq_send_wait_interruptible m buffer 0 k"

definition rt_mq_send_killable :: "nat \<Rightarrow> u8 list \<Rightarrow> kernel \<Rightarrow> mq_result" where
  "rt_mq_send_killable m buffer k = rt_mq_send_wait_killable m buffer 0 k"

definition rt_mq_recv :: "nat \<Rightarrow> nat \<Rightarrow> u32 \<Rightarrow> kernel \<Rightarrow> mq_result" where
  "rt_mq_recv m sz timeout k = mq_recv m sz timeout RT_UNINTERRUPTIBLE k"

definition rt_mq_recv_interruptible :: "nat \<Rightarrow> nat \<Rightarrow> u32 \<Rightarrow> kernel \<Rightarrow> mq_result" where
  "rt_mq_recv_interruptible m sz timeout k = mq_recv m sz timeout RT_INTERRUPTIBLE k"

definition rt_mq_recv_killable :: "nat \<Rightarrow> nat \<Rightarrow> u32 \<Rightarrow> kernel \<Rightarrow> mq_result" where
  "rt_mq_recv_killable m sz timeout k = mq_recv m sz timeout RT_KILLABLE k"

text \<open>The loop of \<open>rt_mq_control\<close> that frees all messages.\<close>

partial_function (option) mq_release_all :: "rt_messagequeue \<Rightarrow> rt_messagequeue option" where
  "mq_release_all mq =
    (case mq_unlink_head mq of
       None \<Rightarrow> Some mq
     | Some (msg, mq) \<Rightarrow> mq_release_all (mq_release msg mq))"

definition rt_mq_control :: "nat \<Rightarrow> ipc_cmd \<Rightarrow> kernel \<Rightarrow> ((rt_err_t, ipc_kont) outcome \<times> kernel) option" where
  "rt_mq_control m cmd k = do {
    RT_ASSERT (is_mq m k);
    case cmd of
      RT_IPC_CMD_RESET _ \<Rightarrow> do {
        (_, k) \<leftarrow> rt_ipc_list_resume_all (Mq_recv_q m) k;
        (_, k) \<leftarrow> rt_ipc_list_resume_all (Mq_send_q m) k;
        mq \<leftarrow> mq_release_all (k_mq k m);
        Some (Reschedule (K_return RT_EOK), set_mq m (mq\<lparr>mq_entry := 0\<rparr>) k)
      }
    | RT_IPC_CMD_OTHER \<Rightarrow> Some (Return (- RT_ERROR), k)
  }"

lemma unat_ucast_u16: "unat (ucast (x :: u16) :: u64) = unat x"
  using unat_u16_less [of x] by (simp add: unsigned_ucast_eq take_bit_nat_eq_self_iff)

lemma unat_ucast_u16_add8: "unat (ucast (x :: u16) + 8 :: u64) = unat x + 8"
  using unat_u16_less [of x] by (simp add: unat_word_ariths unat_ucast_u16)

lemma blocks_in_pool:
  fixes n d :: u64
  assumes "unat d = e"
  shows "unat (ucast (n div d) :: u16) * e \<le> unat n"
proof -
  have "unat (ucast (n div d) :: u16) \<le> unat (n div d)" by (simp add: unsigned_ucast_eq take_bit_nat_less_eq_self)
  also have "unat (n div d) = unat n div e" using assms by (simp add: unat_div)
  finally have "unat (ucast (n div d) :: u16) * e \<le> (unat n div e) * e" by (rule mult_le_mono1)
  also have "\<dots> \<le> unat n" by (rule div_times_less_eq_dividend)
  finally show ?thesis .
qed

section \<open>The invariant of the lists\<close>

fun chain :: "(nat \<Rightarrow> rt_mq_message) \<Rightarrow> nat option \<Rightarrow> nat list \<Rightarrow> bool" where
  "chain p s [] \<longleftrightarrow> s = None"
| "chain p s (i # is) \<longleftrightarrow> s = Some i \<and> chain p (msg_next (p i)) is"

text \<open>\<open>qs\<close> are the blocks of the queue, \<open>fs\<close> the free ones, \<open>X\<close> those being copied.\<close>

definition mq_repr :: "nat set \<Rightarrow> nat list \<Rightarrow> nat list \<Rightarrow> rt_messagequeue \<Rightarrow> bool" where
  "mq_repr X qs fs mq \<longleftrightarrow> chain (mq_msg_pool mq) (mq_head mq) qs \<and> chain (mq_msg_pool mq) (mq_free mq) fs \<and>
     distinct (qs @ fs) \<and> (set qs \<union> set fs) \<inter> X = {} \<and> set qs \<union> set fs \<union> X = {..<unat (mq_max_msgs mq)} \<and>
     mq_tail mq = (if qs = [] then None else Some (last qs)) \<and> unat (mq_entry mq) = length qs \<and>
     (\<forall>i < unat (mq_max_msgs mq). length (msg_data (mq_msg_pool mq i)) = unat (mq_msg_size mq))"

lemma chain_upd [simp]: "i \<notin> set is \<Longrightarrow> chain (p(i := b)) s is = chain p s is"
  by (induction "is" arbitrary: s) auto

lemma chain_link:
  assumes "chain p s (ys @ [l])" "distinct (ys @ [l])" "m \<notin> set (ys @ [l])" "msg_next (p m) = None"
  shows "chain (p(l := (p l)\<lparr>msg_next := Some m\<rparr>)) s (ys @ [l, m])"
  using assms by (induction ys arbitrary: s) auto

lemma mq_repr_alloc:
  assumes "mq_repr X qs (f # fs) mq"
  shows "mq_alloc mq = Some (f, mq\<lparr>mq_free := msg_next (mq_msg_pool mq f)\<rparr>)"
    "mq_repr (insert f X) qs fs (mq\<lparr>mq_free := msg_next (mq_msg_pool mq f)\<rparr>)"
  using assms by (auto simp: mq_repr_def mq_alloc_def)

lemma mq_repr_full: "mq_repr X qs [] mq \<Longrightarrow> mq_free mq = None"
  by (simp add: mq_repr_def)

lemma mq_repr_upd:
  assumes "mq_repr X qs fs mq" "i \<in> X" "length (msg_data (f (mq_msg_pool mq i))) = length (msg_data (mq_msg_pool mq i))"
  shows "mq_repr X qs fs (upd_msg i f mq)"
proof -
  have "i \<notin> set qs" "i \<notin> set fs" using assms(1,2) by (auto simp: mq_repr_def)
  with assms show ?thesis by (auto simp: mq_repr_def upd_msg_def)
qed

lemma mq_entry_Suc:
  assumes "mq_repr X qs fs mq" "i \<in> X"
  shows "unat (mq_entry mq + 1) = length qs + 1" "mq_entry mq < RT_MQ_ENTRY_MAX"
proof -
  have i: "i \<notin> set qs" "insert i (set qs) \<subseteq> {..<unat (mq_max_msgs mq)}" "distinct qs" and e: "unat (mq_entry mq) = length qs"
    using assms by (auto simp: mq_repr_def)
  then have "card (insert i (set qs)) = length qs + 1" by (simp add: distinct_card)
  then have "length qs + 1 \<le> unat (mq_max_msgs mq)" using card_mono [OF _ i(2)] by simp
  then have "unat (mq_entry mq) + 1 < 65536" using unat_u16_less [of "mq_max_msgs mq"] e by simp
  with e show "unat (mq_entry mq + 1) = length qs + 1" "mq_entry mq < RT_MQ_ENTRY_MAX"
    by (simp_all add: unat_word_ariths word_less_nat_alt)
qed

lemma mq_repr_link_tail:
  assumes r: "mq_repr X qs fs mq" and i: "i \<in> X" "msg_next (mq_msg_pool mq i) = None"
  shows "mq_repr (X - {i}) (qs @ [i]) fs ((mq_link_tail i mq)\<lparr>mq_entry := mq_entry mq + 1\<rparr>)"
    "mq_entry (mq_link_tail i mq) = mq_entry mq"
proof -
  have n: "i \<notin> set qs" "i \<notin> set fs" using r i(1) by (auto simp: mq_repr_def)
  note e = mq_entry_Suc [OF r i(1)]
  show "mq_repr (X - {i}) (qs @ [i]) fs ((mq_link_tail i mq)\<lparr>mq_entry := mq_entry mq + 1\<rparr>)"
  proof (cases qs rule: rev_cases)
    case Nil
    with r i n e show ?thesis
      by (auto simp: mq_repr_def mq_link_tail_def upd_msg_def Let_def)
  next
    case (snoc ys l)
    have "chain ((mq_msg_pool mq)(l := (mq_msg_pool mq l)\<lparr>msg_next := Some i\<rparr>)) (mq_head mq) (ys @ [l, i])"
      using r n i snoc by (intro chain_link) (auto simp: mq_repr_def)
    moreover have "l \<notin> set fs" "mq_head mq \<noteq> None" using r snoc by (cases ys; auto simp: mq_repr_def)+
    ultimately show ?thesis
      using r i n e snoc by (auto simp: mq_repr_def mq_link_tail_def upd_msg_def Let_def)
  qed
  show "mq_entry (mq_link_tail i mq) = mq_entry mq"
    by (simp add: mq_link_tail_def upd_msg_def Let_def split: option.splits)
qed

lemma mq_repr_link_head:
  assumes r: "mq_repr X qs fs mq" and i: "i \<in> X"
  shows "mq_repr (X - {i}) (i # qs) fs ((mq_link_head i mq)\<lparr>mq_entry := mq_entry mq + 1\<rparr>)"
    "mq_entry (mq_link_head i mq) = mq_entry mq"
proof -
  have n: "i \<notin> set qs" "i \<notin> set fs" using r i(1) by (auto simp: mq_repr_def)
  with r i mq_entry_Suc [OF r i(1)]
  show "mq_repr (X - {i}) (i # qs) fs ((mq_link_head i mq)\<lparr>mq_entry := mq_entry mq + 1\<rparr>)"
    by (auto simp: mq_repr_def mq_link_head_def upd_msg_def Let_def)
  show "mq_entry (mq_link_head i mq) = mq_entry mq"
    by (simp add: mq_link_head_def upd_msg_def Let_def)
qed

lemma mq_repr_unlink_head:
  assumes "mq_repr X (q # qs) fs mq"
  shows "\<exists>mq'. mq_unlink_head mq = Some (q, mq') \<and> mq_repr (insert q X) qs fs (mq'\<lparr>mq_entry := mq_entry mq - 1\<rparr>) \<and>
    mq_entry mq' = mq_entry mq \<and> mq_msg_pool mq' = mq_msg_pool mq \<and> mq_msg_size mq' = mq_msg_size mq \<and>
    mq_max_msgs mq' = mq_max_msgs mq"
proof -
  have "mq_entry mq \<noteq> 0" using assms by (auto simp: mq_repr_def)
  then have "unat (mq_entry mq - 1) = unat (mq_entry mq) - 1" by (simp add: unat_minus_one)
  moreover have "mq_tail mq = Some q \<longleftrightarrow> qs = []" using assms by (auto simp: mq_repr_def)
  ultimately show ?thesis
    using assms by (auto simp: mq_repr_def mq_unlink_head_def Let_def)
qed

lemma mq_repr_release:
  assumes "mq_repr X qs fs mq" "i \<in> X"
  shows "mq_repr (X - {i}) qs (i # fs) (mq_release i mq)"
proof -
  have n: "i \<notin> set qs" "i \<notin> set fs" using assms by (auto simp: mq_repr_def)
  with assms show ?thesis by (auto simp: mq_repr_def mq_release_def upd_msg_def)
qed

section \<open>The queue of blocks is a bounded queue\<close>

primrec chain_list :: "(nat \<Rightarrow> rt_mq_message) \<Rightarrow> nat option \<Rightarrow> nat \<Rightarrow> nat list" where
  "chain_list p s 0 = []"
| "chain_list p s (Suc n) = (case s of None \<Rightarrow> [] | Some i \<Rightarrow> i # chain_list p (msg_next (p i)) n)"

definition mq_contents :: "rt_messagequeue \<Rightarrow> u8 list list" where
  "mq_contents mq = map (\<lambda>i. msg_data (mq_msg_pool mq i)) (chain_list (mq_msg_pool mq) (mq_head mq) (unat (mq_entry mq)))"

text \<open>The invariant of a queue while the blocks \<open>X\<close> are being copied, and of a queue at rest.\<close>

definition mq_ok :: "nat set \<Rightarrow> rt_messagequeue \<Rightarrow> bool" where
  "mq_ok X mq \<longleftrightarrow> (\<exists>qs fs. mq_repr X qs fs mq)"

definition mq_wf :: "rt_messagequeue \<Rightarrow> bool" where
  "mq_wf mq \<longleftrightarrow> (\<exists>qs fs. mq_repr {} qs fs mq)"

lemma mq_wf_ok: "mq_wf mq = mq_ok {} mq"
  by (simp add: mq_wf_def mq_ok_def)

text \<open>What a send, an urgent send and a receive do to the structure when there is a free block, or a
  message. A block has a fixed size: a shorter message leaves the rest of its block as it was.\<close>

definition mq_put :: "u8 list \<Rightarrow> rt_messagequeue \<Rightarrow> rt_messagequeue option" where
  "mq_put buffer mq = do {
    (msg, mq) \<leftarrow> mq_alloc mq;
    let mq = mq_link_tail msg (mq_copy_in msg buffer (upd_msg msg (msg_next_update (\<lambda>_. None)) mq));
    Some (mq\<lparr>mq_entry := mq_entry mq + 1\<rparr>)
  }"

definition mq_put_urgent :: "u8 list \<Rightarrow> rt_messagequeue \<Rightarrow> rt_messagequeue option" where
  "mq_put_urgent buffer mq = do {
    (msg, mq) \<leftarrow> mq_alloc mq;
    let mq = mq_link_head msg (mq_copy_in msg buffer mq);
    Some (mq\<lparr>mq_entry := mq_entry mq + 1\<rparr>)
  }"

definition mq_get :: "rt_messagequeue \<Rightarrow> (u8 list \<times> rt_messagequeue) option" where
  "mq_get mq = do {
    (msg, mq) \<leftarrow> mq_unlink_head mq;
    let mq = mq\<lparr>mq_entry := mq_entry mq - 1\<rparr>;
    Some (msg_data (mq_msg_pool mq msg), mq_release msg mq)
  }"

lemma chain_list_eq: "chain p s qs \<Longrightarrow> chain_list p s (length qs) = qs"
  by (induction qs arbitrary: s) auto

lemma mq_contents_repr:
  "mq_repr X qs fs mq \<Longrightarrow> mq_contents mq = map (\<lambda>i. msg_data (mq_msg_pool mq i)) qs"
  by (simp add: mq_repr_def mq_contents_def chain_list_eq)

lemma mq_repr_length: "mq_repr {} qs fs mq \<Longrightarrow> length qs + length fs = unat (mq_max_msgs mq)"
  using distinct_card [of "qs @ fs"] by (simp add: mq_repr_def)

lemma mq_contents_length:
  "mq_wf mq \<Longrightarrow> length (mq_contents mq) = unat (mq_entry mq) \<and> unat (mq_entry mq) \<le> unat (mq_max_msgs mq)"
proof -
  assume "mq_wf mq"
  then obtain qs fs where r: "mq_repr {} qs fs mq" by (auto simp: mq_wf_def)
  then show ?thesis using mq_repr_length [OF r] mq_contents_repr [OF r] by (simp add: mq_repr_def)
qed

lemma link_data [simp]:
  "msg_data (mq_msg_pool (mq_link_tail i mq) j) = msg_data (mq_msg_pool mq j)"
  "msg_data (mq_msg_pool (mq_link_head i mq) j) = msg_data (mq_msg_pool mq j)"
  "msg_data (mq_msg_pool (mq_release i mq) j) = msg_data (mq_msg_pool mq j)"
  by (auto simp: mq_link_tail_def mq_link_head_def mq_release_def upd_msg_def Let_def split: option.splits)

lemma link_sizes [simp]:
  "mq_max_msgs (mq_link_tail i mq) = mq_max_msgs mq" "mq_msg_size (mq_link_tail i mq) = mq_msg_size mq"
  "mq_max_msgs (mq_link_head i mq) = mq_max_msgs mq" "mq_msg_size (mq_link_head i mq) = mq_msg_size mq"
  "mq_max_msgs (mq_release i mq) = mq_max_msgs mq" "mq_msg_size (mq_release i mq) = mq_msg_size mq"
  "mq_max_msgs (mq_copy_in i b mq) = mq_max_msgs mq" "mq_msg_size (mq_copy_in i b mq) = mq_msg_size mq"
  "mq_max_msgs (upd_msg i f mq) = mq_max_msgs mq" "mq_msg_size (upd_msg i f mq) = mq_msg_size mq"
  by (auto simp: mq_link_tail_def mq_link_head_def mq_release_def mq_copy_in_def upd_msg_def Let_def split: option.splits)

lemma mq_copy_data:
  "msg_data (mq_msg_pool (mq_copy_in i b mq) j) =
     (if j = i then b @ drop (length b) (msg_data (mq_msg_pool mq i)) else msg_data (mq_msg_pool mq j))"
  "msg_next (mq_msg_pool (mq_copy_in i b mq) j) = msg_next (mq_msg_pool mq j)"
  "mq_entry (mq_copy_in i b mq) = mq_entry mq" "mq_entry (upd_msg i f mq) = mq_entry mq"
  by (simp_all add: mq_copy_in_def upd_msg_def)

lemma mq_repr_copy:
  assumes "mq_repr X qs fs mq" "i \<in> X" "length b \<le> unat (mq_msg_size mq)"
  shows "mq_repr X qs fs (mq_copy_in i b mq)"
proof -
  have "i < unat (mq_max_msgs mq)" using assms(1,2) unfolding mq_repr_def by blast
  then have "length (msg_data (mq_msg_pool mq i)) = unat (mq_msg_size mq)" using assms(1) by (simp add: mq_repr_def)
  with assms show ?thesis unfolding mq_copy_in_def by (intro mq_repr_upd) simp_all
qed

text \<open>The message is stored in a block, in front of what the block held before.\<close>

definition stored :: "u8 list \<Rightarrow> rt_messagequeue \<Rightarrow> u8 list \<Rightarrow> bool" where
  "stored b mq x \<longleftrightarrow> take (length b) x = b \<and> length x = unat (mq_msg_size mq)"

lemma mq_put_contents:
  assumes wf: "mq_wf mq" and room: "length (mq_contents mq) < unat (mq_max_msgs mq)"
    and b: "length b \<le> unat (mq_msg_size mq)"
  shows "\<exists>mq' x. mq_put b mq = Some mq' \<and> mq_wf mq' \<and> mq_contents mq' = mq_contents mq @ [x] \<and> stored b mq x \<and>
    mq_max_msgs mq' = mq_max_msgs mq \<and> mq_msg_size mq' = mq_msg_size mq"
proof -
  obtain qs f fs where r: "mq_repr {} qs (f # fs) mq"
    using wf room unfolding mq_wf_def
    by (metis (no_types) add.right_neutral length_map less_irrefl list.exhaust list.size(3) mq_contents_repr mq_repr_length)
  note a = mq_repr_alloc [OF r]
  let ?m1 = "upd_msg f (msg_next_update (\<lambda>_. None)) (mq\<lparr>mq_free := msg_next (mq_msg_pool mq f)\<rparr>)"
  let ?m2 = "mq_copy_in f b ?m1"
  have "mq_repr {f} qs fs ?m1" using a(2) by (intro mq_repr_upd) simp_all
  then have r2: "mq_repr {f} qs fs ?m2" by (rule mq_repr_copy) (simp_all add: b)
  have n: "msg_next (mq_msg_pool ?m2 f) = None" by (simp add: mq_copy_data upd_msg_def)
  let ?m3 = "(mq_link_tail f ?m2)\<lparr>mq_entry := mq_entry ?m2 + 1\<rparr>"
  have r3: "mq_repr {} (qs @ [f]) fs ?m3" "mq_entry (mq_link_tail f ?m2) = mq_entry ?m2"
    using mq_repr_link_tail [OF r2 _ n] by simp_all
  have "f \<notin> set qs" "length (msg_data (mq_msg_pool mq f)) = unat (mq_msg_size mq)"
    using r by (auto simp: mq_repr_def)
  then have "mq_contents ?m3 = mq_contents mq @ [b @ drop (length b) (msg_data (mq_msg_pool mq f))]"
      "stored b mq (b @ drop (length b) (msg_data (mq_msg_pool mq f)))"
    using b unfolding mq_contents_repr [OF r3(1)] mq_contents_repr [OF r]
    by (auto simp: mq_copy_data upd_msg_def stored_def)
  moreover have "mq_put b mq = Some ?m3" using a(1) r3(2) by (simp add: mq_put_def)
  ultimately show ?thesis using r3(1) by (auto simp: mq_wf_def)
qed

lemma mq_put_urgent_contents:
  assumes wf: "mq_wf mq" and room: "length (mq_contents mq) < unat (mq_max_msgs mq)"
    and b: "length b \<le> unat (mq_msg_size mq)"
  shows "\<exists>mq' x. mq_put_urgent b mq = Some mq' \<and> mq_wf mq' \<and> mq_contents mq' = x # mq_contents mq \<and> stored b mq x \<and>
    mq_max_msgs mq' = mq_max_msgs mq \<and> mq_msg_size mq' = mq_msg_size mq"
proof -
  obtain qs f fs where r: "mq_repr {} qs (f # fs) mq"
    using wf room unfolding mq_wf_def
    by (metis (no_types) add.right_neutral length_map less_irrefl list.exhaust list.size(3) mq_contents_repr mq_repr_length)
  note a = mq_repr_alloc [OF r]
  let ?m2 = "mq_copy_in f b (mq\<lparr>mq_free := msg_next (mq_msg_pool mq f)\<rparr>)"
  have r2: "mq_repr {f} qs fs ?m2" using a(2) by (intro mq_repr_copy) (simp_all add: b)
  let ?m3 = "(mq_link_head f ?m2)\<lparr>mq_entry := mq_entry ?m2 + 1\<rparr>"
  have r3: "mq_repr {} (f # qs) fs ?m3" "mq_entry (mq_link_head f ?m2) = mq_entry ?m2"
    using mq_repr_link_head [OF r2] by simp_all
  have "f \<notin> set qs" "length (msg_data (mq_msg_pool mq f)) = unat (mq_msg_size mq)"
    using r by (auto simp: mq_repr_def)
  then have "mq_contents ?m3 = (b @ drop (length b) (msg_data (mq_msg_pool mq f))) # mq_contents mq"
      "stored b mq (b @ drop (length b) (msg_data (mq_msg_pool mq f)))"
    using b unfolding mq_contents_repr [OF r3(1)] mq_contents_repr [OF r]
    by (auto simp: mq_copy_data stored_def)
  moreover have "mq_put_urgent b mq = Some ?m3" using a(1) r3(2) by (simp add: mq_put_urgent_def)
  ultimately show ?thesis using r3(1) by (auto simp: mq_wf_def)
qed

lemma mq_get_contents:
  assumes wf: "mq_wf mq" and c: "mq_contents mq = x # xs"
  shows "\<exists>mq'. mq_get mq = Some (x, mq') \<and> mq_wf mq' \<and> mq_contents mq' = xs \<and>
    mq_max_msgs mq' = mq_max_msgs mq \<and> mq_msg_size mq' = mq_msg_size mq"
proof -
  obtain q qs fs where r: "mq_repr {} (q # qs) fs mq"
    using wf c unfolding mq_wf_def by (metis (no_types) list.distinct(1) list.exhaust list.map_disc_iff mq_contents_repr)
  obtain m1 where m1: "mq_unlink_head mq = Some (q, m1)" "mq_repr {q} qs fs (m1\<lparr>mq_entry := mq_entry mq - 1\<rparr>)"
      "mq_entry m1 = mq_entry mq" "mq_msg_pool m1 = mq_msg_pool mq" "mq_msg_size m1 = mq_msg_size mq" "mq_max_msgs m1 = mq_max_msgs mq"
    using mq_repr_unlink_head [OF r] by blast
  let ?m2 = "mq_release q (m1\<lparr>mq_entry := mq_entry mq - 1\<rparr>)"
  have r2: "mq_repr {} qs (q # fs) ?m2" using mq_repr_release [OF m1(2)] by simp
  have x: "x = msg_data (mq_msg_pool mq q)" "xs = map (\<lambda>i. msg_data (mq_msg_pool mq i)) qs"
    using c by (simp_all add: mq_contents_repr [OF r])
  have "mq_contents ?m2 = xs" by (simp add: mq_contents_repr [OF r2] x m1(4))
  moreover have "mq_get mq = Some (x, ?m2)" using m1 x by (simp add: mq_get_def)
  ultimately show ?thesis using r2 m1(5,6) by (auto simp: mq_wf_def)
qed

interpretation mqq: bounded_fifo mq_wf mq_contents "\<lambda>mq. unat (mq_max_msgs mq)" mq_put mq_get
  "\<lambda>x mq. length x = unat (mq_msg_size mq)"
proof
  show "length (mq_contents mq) \<le> unat (mq_max_msgs mq)" if "mq_wf mq" for mq
    using mq_contents_length [OF that] by simp
  show "\<exists>q'. mq_put x mq = Some q' \<and> mq_wf q' \<and> mq_contents q' = mq_contents mq @ [x] \<and>
      unat (mq_max_msgs q') = unat (mq_max_msgs mq) \<and>
      (\<forall>y. (length y = unat (mq_msg_size q')) = (length y = unat (mq_msg_size mq)))"
    if "mq_wf mq" "length (mq_contents mq) < unat (mq_max_msgs mq)" "length x = unat (mq_msg_size mq)" for mq and x :: "u8 list"
  proof -
    have "stored x mq y \<Longrightarrow> y = x" for y using that(3) by (auto simp: stored_def)
    then show ?thesis using mq_put_contents [OF that(1,2), of x] that(3) by force
  qed
  show "\<exists>q'. mq_get mq = Some (x, q') \<and> mq_wf q' \<and> mq_contents q' = xs \<and>
      unat (mq_max_msgs q') = unat (mq_max_msgs mq) \<and>
      (\<forall>y. (length y = unat (mq_msg_size q')) = (length y = unat (mq_msg_size mq)))"
    if "mq_wf mq" "mq_contents mq = x # xs" for mq x xs
    using mq_get_contents [OF that] by force
qed

section \<open>The critical sections keep the invariant\<close>

lemma mq_alloc_ok:
  assumes "mq_ok X mq" "mq_free mq \<noteq> None"
  shows "\<exists>i mq'. mq_alloc mq = Some (i, mq') \<and> mq_ok (insert i X) mq' \<and> i \<notin> X \<and> mq_msg_size mq' = mq_msg_size mq"
proof -
  obtain qs f fs where r: "mq_repr X qs (f # fs) mq"
    using assms mq_repr_full unfolding mq_ok_def by (metis list.exhaust)
  then have "f \<notin> X" by (auto simp: mq_repr_def)
  with mq_repr_alloc [OF r] show ?thesis unfolding mq_ok_def by auto
qed

lemma mq_tail_ok:
  fixes i b mq
  defines "mq' \<equiv> mq_link_tail i (mq_copy_in i b (upd_msg i (msg_next_update (\<lambda>_. None)) mq))"
  assumes "mq_ok X mq" "i \<in> X" "length b \<le> unat (mq_msg_size mq)"
  shows "mq_ok (X - {i}) (mq'\<lparr>mq_entry := mq_entry mq' + 1\<rparr>)" "mq_entry mq' < RT_MQ_ENTRY_MAX" "mq_msg_size mq' = mq_msg_size mq"
proof -
  obtain qs fs where r: "mq_repr X qs fs mq" using assms(2) by (auto simp: mq_ok_def)
  let ?m1 = "upd_msg i (msg_next_update (\<lambda>_. None)) mq"
  have "mq_repr X qs fs ?m1" using r assms(3) by (intro mq_repr_upd) simp_all
  then have r2: "mq_repr X qs fs (mq_copy_in i b ?m1)" by (rule mq_repr_copy) (simp_all add: assms(3,4))
  have "msg_next (mq_msg_pool (mq_copy_in i b ?m1) i) = None" by (simp add: mq_copy_data upd_msg_def)
  from mq_repr_link_tail [OF r2 assms(3) this] mq_entry_Suc(2) [OF r2 assms(3)]
  show "mq_ok (X - {i}) (mq'\<lparr>mq_entry := mq_entry mq' + 1\<rparr>)" "mq_entry mq' < RT_MQ_ENTRY_MAX"
    unfolding mq_ok_def mq'_def by auto
qed (simp add: mq'_def)

lemma mq_head_ok:
  fixes i b mq
  defines "mq' \<equiv> mq_link_head i (mq_copy_in i b mq)"
  assumes "mq_ok X mq" "i \<in> X" "length b \<le> unat (mq_msg_size mq)"
  shows "mq_ok (X - {i}) (mq'\<lparr>mq_entry := mq_entry mq' + 1\<rparr>)" "mq_entry mq' < RT_MQ_ENTRY_MAX" "mq_msg_size mq' = mq_msg_size mq"
proof -
  obtain qs fs where "mq_repr X qs fs mq" using assms(2) by (auto simp: mq_ok_def)
  then have r: "mq_repr X qs fs (mq_copy_in i b mq)" by (rule mq_repr_copy) (simp_all add: assms(3,4))
  from mq_repr_link_head [OF r assms(3)] mq_entry_Suc(2) [OF r assms(3)]
  show "mq_ok (X - {i}) (mq'\<lparr>mq_entry := mq_entry mq' + 1\<rparr>)" "mq_entry mq' < RT_MQ_ENTRY_MAX"
    unfolding mq_ok_def mq'_def by auto
qed (simp add: mq'_def)

lemma mq_unlink_ok:
  assumes "mq_ok X mq" "mq_entry mq \<noteq> 0"
  shows "\<exists>i mq'. mq_unlink_head mq = Some (i, mq') \<and> mq_ok (insert i X) (mq'\<lparr>mq_entry := mq_entry mq' - 1\<rparr>) \<and> i \<notin> X \<and>
    mq_msg_size mq' = mq_msg_size mq"
proof -
  obtain qs fs where q: "mq_repr X qs fs mq" using assms(1) by (auto simp: mq_ok_def)
  then have "unat (mq_entry mq) = length qs" by (simp add: mq_repr_def)
  with assms(2) obtain i qs' where "qs = i # qs'" by (cases qs) (simp_all add: unat_eq_0)
  with q have r: "mq_repr X (i # qs') fs mq" by simp
  then have "i \<notin> X" by (auto simp: mq_repr_def)
  with mq_repr_unlink_head [OF r] show ?thesis unfolding mq_ok_def by fastforce
qed

lemma mq_put_back_ok: "mq_ok X mq \<Longrightarrow> i \<in> X \<Longrightarrow> mq_ok (X - {i}) (mq_release i mq)"
  using mq_repr_release unfolding mq_ok_def by blast

section \<open>Sending and receiving\<close>

lemma mq_free_full:
  assumes "mq_wf mq"
  shows "mq_free mq = None \<longleftrightarrow> \<not> length (mq_contents mq) < unat (mq_max_msgs mq)"
proof -
  obtain qs fs where r: "mq_repr {} qs fs mq" using assms by (auto simp: mq_wf_def)
  with mq_repr_length [OF r] show ?thesis
    by (cases fs) (auto simp: mq_contents_repr [OF r], auto simp: mq_repr_def)
qed

lemma mq_entry_bound:
  assumes "mq_wf mq" "length (mq_contents mq) < unat (mq_max_msgs mq)"
  shows "mq_entry mq < RT_MQ_ENTRY_MAX"
  using mq_contents_length [OF assms(1)] assms(2) unat_u16_less [of "mq_max_msgs mq"] by (simp add: word_less_nat_alt)

definition mq_flag_ok :: "nat \<Rightarrow> kernel \<Rightarrow> bool" where
  "mq_flag_ok m k \<longleftrightarrow> obj_flag (k_obj k (O_mq m)) \<in> {RT_IPC_FLAG_FIFO, RT_IPC_FLAG_PRIO}"

lemma set_mq_frame [simp]:
  "k_queue (set_mq m mq k) = k_queue k" "k_thread (set_mq m mq k) = k_thread k" "k_mq (set_mq m mq k) m = mq"
  "k_tick (set_mq m mq k) = k_tick k" "k_current (set_mq m mq k) = k_current k" "k_obj (set_mq m mq k) = k_obj k"
  "kernel_inv n base (set_mq m mq k) = kernel_inv n base k" "kernel_ok (set_mq m mq k) = kernel_ok k"
  "set_mq m mq (set_mq m mq' k) = set_mq m mq k"
  by (simp_all add: set_mq_def kernel_ok_def)

lemma woken_first_set_mq [simp]: "woken_first w (set_mq m mq k) k' = woken_first w k k'"
  by (simp add: woken_first_def split: list.split)

lemma mq_count_and_wake_ok:
  assumes ok: "kernel_ok k" and e: "mq_entry (k_mq k m) < RT_MQ_ENTRY_MAX"
  shows "\<exists>r k'. mq_count_and_wake m k = Some (r, k') \<and> kernel_ok k' \<and> woken_first (Mq_recv_q m) k k' \<and>
    k_mq k' m = (k_mq k m)\<lparr>mq_entry := mq_entry (k_mq k m) + 1\<rparr> \<and>
    r = (if k_queue k (Wait (Mq_recv_q m)) = [] then Return (RT_EOK, None) else Reschedule (K_mq_return RT_EOK None))"
proof -
  let ?k = "set_mq m ((k_mq k m)\<lparr>mq_entry := mq_entry (k_mq k m) + 1\<rparr>) k"
  show ?thesis
  proof (cases "k_queue k (Wait (Mq_recv_q m))")
    case Nil
    with e ok show ?thesis by (simp add: mq_count_and_wake_def woken_first_def)
  next
    case (Cons t ts)
    then obtain k' where "rt_ipc_list_resume (Mq_recv_q m) ?k = Some (RT_EOK, k')" "kernel_ok k'"
        "woken_first (Mq_recv_q m) ?k k'" "k_mq k' = k_mq ?k"
      using wake_first [of ?k "Mq_recv_q m" t ts] ok by auto
    with e Cons show ?thesis by (simp add: mq_count_and_wake_def)
  qed
qed

lemma link_entry [simp]:
  "mq_entry (mq_link_tail i mq) = mq_entry mq" "mq_entry (mq_link_head i mq) = mq_entry mq"
  by (simp_all add: mq_link_tail_def mq_link_head_def upd_msg_def Let_def split: option.splits)

lemma mq_send_commit_ok:
  assumes ok: "kernel_ok k" and wf: "mq_wf (k_mq k m)" and b: "length b \<le> unat (mq_msg_size (k_mq k m))"
    and room: "length (mq_contents (k_mq k m)) < unat (mq_max_msgs (k_mq k m))"
  shows "\<exists>r k' x. mq_through t (mq_send_commit m b k) = Some (r, k') \<and> kernel_ok k' \<and> mq_wf (k_mq k' m) \<and>
    mq_contents (k_mq k' m) = mq_contents (k_mq k m) @ [x] \<and> stored b (k_mq k m) x \<and> woken_first (Mq_recv_q m) k k' \<and>
    r = (if k_queue k (Wait (Mq_recv_q m)) = [] then Return (RT_EOK, None) else Reschedule (K_mq_return RT_EOK None))"
proof -
  obtain f m0 where a: "mq_alloc (k_mq k m) = Some (f, m0)"
    using room mq_free_full [OF wf] by (auto simp: mq_alloc_def)
  let ?mq = "mq_link_tail f (mq_copy_in f b (upd_msg f (msg_next_update (\<lambda>_. None)) m0))"
  obtain mq' x where put: "mq_put b (k_mq k m) = Some mq'" "mq_wf mq'" "mq_contents mq' = mq_contents (k_mq k m) @ [x]"
      "stored b (k_mq k m) x"
    using mq_put_contents [OF wf room b] by blast
  then have mq': "mq' = ?mq\<lparr>mq_entry := mq_entry ?mq + 1\<rparr>" using a by (simp add: mq_put_def)
  have "mq_entry m0 = mq_entry (k_mq k m)" using a by (auto simp: mq_alloc_def split: option.splits)
  then have e: "mq_entry ?mq < RT_MQ_ENTRY_MAX" using mq_entry_bound [OF wf room] by (simp add: mq_copy_data)
  have "mq_through t (mq_send_commit m b k) = mq_count_and_wake m (set_mq m ?mq k)"
    using a by (simp add: mq_send_commit_def mq_send_link_def mq_through_def mq_kont_run_def)
  with mq_count_and_wake_ok [of "set_mq m ?mq k" m] ok e put(2-4) mq' show ?thesis
    by (simp only: set_mq_frame woken_first_set_mq) metis
qed

lemma mq_urgent_commit_ok:
  assumes ok: "kernel_ok k" and wf: "mq_wf (k_mq k m)" and b: "length b \<le> unat (mq_msg_size (k_mq k m))"
    and room: "length (mq_contents (k_mq k m)) < unat (mq_max_msgs (k_mq k m))" and ty: "is_mq m k" "b \<noteq> []"
  shows "\<exists>r k' x. mq_through t (rt_mq_urgent m b k) = Some (r, k') \<and> kernel_ok k' \<and> mq_wf (k_mq k' m) \<and>
    mq_contents (k_mq k' m) = x # mq_contents (k_mq k m) \<and> stored b (k_mq k m) x \<and> woken_first (Mq_recv_q m) k k' \<and>
    r = (if k_queue k (Wait (Mq_recv_q m)) = [] then Return (RT_EOK, None) else Reschedule (K_mq_return RT_EOK None))"
proof -
  obtain f m0 where a: "mq_alloc (k_mq k m) = Some (f, m0)"
    using room mq_free_full [OF wf] by (auto simp: mq_alloc_def)
  let ?mq = "mq_link_head f (mq_copy_in f b m0)"
  obtain mq' x where put: "mq_put_urgent b (k_mq k m) = Some mq'" "mq_wf mq'" "mq_contents mq' = x # mq_contents (k_mq k m)"
      "stored b (k_mq k m) x"
    using mq_put_urgent_contents [OF wf room b] by blast
  then have mq': "mq' = ?mq\<lparr>mq_entry := mq_entry ?mq + 1\<rparr>" using a by (simp add: mq_put_urgent_def)
  have "mq_entry m0 = mq_entry (k_mq k m)" using a by (auto simp: mq_alloc_def split: option.splits)
  then have e: "mq_entry ?mq < RT_MQ_ENTRY_MAX" using mq_entry_bound [OF wf room] by (simp add: mq_copy_data)
  have "mq_through t (rt_mq_urgent m b k) = mq_count_and_wake m (set_mq m ?mq k)"
    using a b ty by (simp add: rt_mq_urgent_def mq_urgent_link_def mq_through_def mq_kont_run_def)
  with mq_count_and_wake_ok [of "set_mq m ?mq k" m] ok e put(2-4) mq' show ?thesis
    by (simp only: set_mq_frame woken_first_set_mq) metis
qed

lemma mq_recv_commit_ok:
  assumes ok: "kernel_ok k" and wf: "mq_wf (k_mq k m)" and c: "mq_contents (k_mq k m) = x # xs"
  shows "\<exists>r k'. mq_through t (mq_recv_commit m sz k) = Some (r, k') \<and> kernel_ok k' \<and> mq_wf (k_mq k' m) \<and>
    mq_contents (k_mq k' m) = xs \<and> woken_first (Mq_send_q m) k k' \<and>
    r = (if k_queue k (Wait (Mq_send_q m)) = [] then Return (RT_EOK, Some (take (min sz (unat (mq_msg_size (k_mq k m)))) x))
         else Reschedule (K_mq_return RT_EOK (Some (take (min sz (unat (mq_msg_size (k_mq k m)))) x))))"
proof -
  obtain mq where mq: "mq_get (k_mq k m) = Some (x, mq)" "mq_wf mq" "mq_contents mq = xs"
    using mq_get_contents [OF wf c] by blast
  then obtain i m0 where u: "mq_unlink_head (k_mq k m) = Some (i, m0)" "x = msg_data (mq_msg_pool m0 i)"
      "mq = mq_release i (m0\<lparr>mq_entry := mq_entry m0 - 1\<rparr>)"
    by (auto simp: mq_get_def bind_eq_Some_conv)
  have sz: "mq_msg_size m0 = mq_msg_size (k_mq k m)"
    using u(1) by (auto simp: mq_unlink_head_def Let_def split: option.splits if_splits)
  let ?b = "take (min sz (unat (mq_msg_size (k_mq k m)))) x" and ?k = "set_mq m mq k"
  have "(if sz > unat (mq_msg_size m0) then unat (mq_msg_size m0) else sz) = min sz (unat (mq_msg_size (k_mq k m)))"
    using sz by simp
  then have call: "mq_through t (mq_recv_commit m sz k) =
    (if k_queue ?k (Wait (Mq_send_q m)) \<noteq> []
     then do { (_, k) \<leftarrow> rt_ipc_list_resume (Mq_send_q m) ?k; Some (Reschedule (K_mq_return RT_EOK (Some ?b)), k) }
     else Some (Return (RT_EOK, Some ?b), ?k))"
    using u sz by (simp add: mq_recv_commit_def mq_recv_put_back_def mq_through_def mq_kont_run_def Let_def)
  show ?thesis
  proof (cases "k_queue k (Wait (Mq_send_q m))")
    case Nil
    with call mq ok show ?thesis by (simp add: woken_first_def)
  next
    case (Cons t ts)
    then obtain k' where "rt_ipc_list_resume (Mq_send_q m) ?k = Some (RT_EOK, k')" "kernel_ok k'"
        "woken_first (Mq_send_q m) ?k k'" "k_mq k' = k_mq ?k"
      using wake_first [of ?k "Mq_send_q m" t ts] ok by auto
    with call mq Cons show ?thesis by simp
  qed
qed

lemma mq_send_blocks:
  assumes ok: "kernel_ok k" and mq: "mq_flag_ok m k" "mq_free (k_mq k m) = None"
    and time: "wait_time timeout" and c: "can_block c k" and sig: "lwp_suspend_sigcheck c sf k"
  shows "\<exists>k'. mq_send_loop m b timeout d sf k =
      Some (Reschedule (K_mq_send m b timeout (if 0 < sint timeout then k_tick k else d) sf), k') \<and> kernel_ok k' \<and>
    blocked (Mq_send_q m) (obj_flag (k_obj k (O_mq m))) c (set_error c (- RT_EINTR) k) k'"
proof -
  let ?f = "obj_flag (k_obj k (O_mq m))" and ?k = "set_error c (- RT_EINTR) k"
  obtain k2 k' where k': "rt_ipc_list_suspend (Mq_send_q m) c ?f sf ?k = Some (RT_EOK, k2)"
      "arm_if_positive c timeout k2 = Some k'" "kernel_ok k'" "blocked (Mq_send_q m) ?f c ?k k'"
    using block_arm [of ?k c ?f sf timeout "Mq_send_q m"] ok c mq(1) sig time by (auto simp: mq_flag_ok_def)
  moreover have "k_tick k2 = k_tick k"
    using k'(1) ipc_list_suspend_eq [of "half - 1" "k_tick k" ?k c ?f "Mq_send_q m" sf] ok mq(1) c sig
    by (simp add: kernel_ok_def can_block_def mq_flag_ok_def)
  ultimately show ?thesis
    using mq(2) time c unfolding can_block_def wait_time_def
    by (simp add: mq_send_loop_def RT_DEBUG_IN_THREAD_CONTEXT_def rt_thread_self_def rt_tick_get_def)
qed

lemma mq_recv_blocks:
  assumes ok: "kernel_ok k" and mq: "mq_flag_ok m k" "mq_entry (k_mq k m) = 0"
    and time: "wait_time timeout" and c: "can_block c k" and sig: "lwp_suspend_sigcheck c sf k"
  shows "\<exists>k'. mq_recv_loop m sz timeout d sf k =
      Some (Reschedule (K_mq_recv m sz timeout (if 0 < sint timeout then k_tick k else d) sf), k') \<and> kernel_ok k' \<and>
    blocked (Mq_recv_q m) (obj_flag (k_obj k (O_mq m))) c (set_error c (- RT_EINTR) k) k'"
proof -
  let ?f = "obj_flag (k_obj k (O_mq m))" and ?k = "set_error c (- RT_EINTR) k"
  obtain k2 k' where k': "rt_ipc_list_suspend (Mq_recv_q m) c ?f sf ?k = Some (RT_EOK, k2)"
      "arm_if_positive c timeout k2 = Some k'" "kernel_ok k'" "blocked (Mq_recv_q m) ?f c ?k k'"
    using block_arm [of ?k c ?f sf timeout "Mq_recv_q m"] ok c mq(1) sig time by (auto simp: mq_flag_ok_def)
  moreover have "k_tick k2 = k_tick k"
    using k'(1) ipc_list_suspend_eq [of "half - 1" "k_tick k" ?k c ?f "Mq_recv_q m" sf] ok mq(1) c sig
    by (simp add: kernel_ok_def can_block_def mq_flag_ok_def)
  ultimately show ?thesis
    using mq(2) time c unfolding can_block_def wait_time_def
    by (simp add: mq_recv_loop_def RT_DEBUG_IN_THREAD_CONTEXT_def rt_thread_self_def rt_tick_get_def)
qed

section \<open>Initialising and emptying the queue\<close>

lemma mq_init_free_repr:
  assumes "mq_repr {temp..<temp + n} [] fs mq" "unat (mq_max_msgs mq) = temp + n"
  shows "\<exists>fs'. mq_repr {} [] fs' (mq_init_free n temp mq)"
  using assms
proof (induction n arbitrary: temp mq fs)
  case (Suc n)
  have "{temp..<temp + Suc n} - {temp} = {Suc temp..<Suc temp + n}" by auto
  then have "mq_repr {Suc temp..<Suc temp + n} [] (temp # fs) (mq_release temp mq)"
    using mq_repr_release [OF Suc.prems(1), of temp] by simp
  then show ?case using Suc.IH [of "Suc temp" "temp # fs" "mq_release temp mq"] Suc.prems(2) by simp
qed auto

lemma mq_init_free_frame:
  "mq_entry (mq_init_free n temp mq) = mq_entry mq" "mq_max_msgs (mq_init_free n temp mq) = mq_max_msgs mq"
  "mq_msg_size (mq_init_free n temp mq) = mq_msg_size mq"
  by (induction n arbitrary: temp mq) (simp_all add: mq_release_def upd_msg_def)

lemma mq_build_wf:
  assumes "\<forall>i < unat max_msgs. length (msg_data (pool i)) = unat sz"
  shows "mq_wf (mq_build pool sz max_msgs)" "mq_contents (mq_build pool sz max_msgs) = []"
    "mq_max_msgs (mq_build pool sz max_msgs) = max_msgs" "mq_msg_size (mq_build pool sz max_msgs) = sz"
proof -
  let ?mq = "\<lparr>mq_msg_pool = pool, mq_msg_size = sz, mq_max_msgs = max_msgs,
       mq_entry = 0, mq_head = None, mq_tail = None, mq_free = None\<rparr>"
  have "mq_repr {0..<0 + unat max_msgs} [] [] ?mq" using assms by (auto simp: mq_repr_def)
  then obtain fs where r: "mq_repr {} [] fs (mq_init_free (unat max_msgs) 0 ?mq)"
    using mq_init_free_repr [of 0 "unat max_msgs" "[]" ?mq] by auto
  moreover have e: "mq_build pool sz max_msgs = mq_init_free (unat max_msgs) 0 ?mq"
    using mq_init_free_frame(1) [of "unat max_msgs" 0 ?mq] by (simp add: mq_build_def)
  ultimately show "mq_wf (mq_build pool sz max_msgs)" "mq_contents (mq_build pool sz max_msgs) = []"
    by (auto simp: mq_wf_def mq_contents_repr [OF r])
  show "mq_max_msgs (mq_build pool sz max_msgs) = max_msgs" "mq_msg_size (mq_build pool sz max_msgs) = sz"
    by (simp_all add: e mq_init_free_frame)
qed

lemma mq_release_all_ok:
  assumes "mq_repr X qs fs (mq\<lparr>mq_entry := e\<rparr>)"
  shows "\<exists>mq' fs'. mq_release_all mq = Some mq' \<and> mq_repr X [] fs' (mq'\<lparr>mq_entry := 0\<rparr>) \<and>
    mq_max_msgs mq' = mq_max_msgs mq \<and> mq_msg_size mq' = mq_msg_size mq"
  using assms
proof (induction qs arbitrary: mq e fs)
  case Nil
  then have "mq_unlink_head mq = None" by (simp add: mq_repr_def mq_unlink_head_def)
  then show ?case using Nil by (subst mq_release_all.simps) (auto simp: mq_repr_def)
next
  case (Cons q qs)
  obtain m1 where m1: "mq_unlink_head (mq\<lparr>mq_entry := e\<rparr>) = Some (q, m1)" "mq_repr (insert q X) qs fs (m1\<lparr>mq_entry := e - 1\<rparr>)"
    using mq_repr_unlink_head [OF Cons.prems] by auto
  obtain m2 where m2: "mq_unlink_head mq = Some (q, m2)" "m2\<lparr>mq_entry := e\<rparr> = m1" "mq_max_msgs m2 = mq_max_msgs mq"
      "mq_msg_size m2 = mq_msg_size mq"
    using m1(1) by (auto simp: mq_unlink_head_def Let_def split: option.splits if_splits)
  have q: "insert q X - {q} = X" using Cons.prems by (auto simp: mq_repr_def)
  have "mq_repr (insert q X) qs fs (m2\<lparr>mq_entry := e - 1\<rparr>)" using m1(2) m2(2) by auto
  then have "mq_repr X qs (q # fs) (mq_release q (m2\<lparr>mq_entry := e - 1\<rparr>))"
    using mq_repr_release [of "insert q X" qs fs _ q] q by simp
  moreover have "mq_release q (m2\<lparr>mq_entry := e - 1\<rparr>) = (mq_release q m2)\<lparr>mq_entry := e - 1\<rparr>"
    by (simp add: mq_release_def upd_msg_def)
  ultimately have "mq_repr X qs (q # fs) ((mq_release q m2)\<lparr>mq_entry := e - 1\<rparr>)" by simp
  with Cons.IH [of "q # fs" "e - 1" "mq_release q m2"] m2(1,3,4) show ?case
    by (subst mq_release_all.simps) simp
qed

section \<open>Properties\<close>

text \<open>A queue of two blocks of eight bytes, and thread 3 waiting on a given list; \<open>full\<close> has two messages in it.\<close>

definition mq_kernel :: "waitq \<Rightarrow> kernel" where
  "mq_kernel w = set_mq 0 (mq_build (\<lambda>_. \<lparr>msg_next = None, msg_data = [0, 0, 0, 0, 0, 0, 0, 0]\<rparr>) 8 2) (waiting_kernel w)"

definition mq_full_kernel :: "waitq \<Rightarrow> kernel" where
  "mq_full_kernel w = set_mq 0 (the (put_list mq_put [[1, 1, 1, 1, 1, 1, 1, 1], [2, 2, 2, 2, 2, 2, 2, 2]]
     (k_mq (mq_kernel w) 0))) (waiting_kernel w)"

lemma mq_kernel_mq:
  "mq_wf (k_mq (mq_kernel w) 0)" "mq_contents (k_mq (mq_kernel w) 0) = []"
  "mq_max_msgs (k_mq (mq_kernel w) 0) = 2" "mq_msg_size (k_mq (mq_kernel w) 0) = 8"
  by (simp_all add: mq_kernel_def mq_build_wf)

lemma mq_full_kernel_mq:
  "mq_wf (k_mq (mq_full_kernel w) 0)"
  "mq_contents (k_mq (mq_full_kernel w) 0) = [[1, 1, 1, 1, 1, 1, 1, 1], [2, 2, 2, 2, 2, 2, 2, 2]]"
  using mqq.put_list_contents [OF mq_kernel_mq(1) [of w], of "[[1, 1, 1, 1, 1, 1, 1, 1], [2, 2, 2, 2, 2, 2, 2, 2]]"]
    mq_kernel_mq [of w]
  by (auto simp: mq_full_kernel_def)

lemma mq_kernel_facts:
  assumes "k \<in> {mq_kernel w, mq_full_kernel w}"
  shows "kernel_ok k" "is_mq 0 k" "mq_flag_ok 0 k" "can_block 2 k" "lwp_suspend_sigcheck 2 sf k"
    "k_queue k (Wait v) = (if v = w then [3] else [])"
proof -
  obtain mq where k: "k = set_mq 0 mq (waiting_kernel w)" using assms by (auto simp: mq_kernel_def mq_full_kernel_def)
  show "is_mq 0 k" using waiting_kernel_sel(7) [of "O_mq 0" w]
    by (simp add: is_mq_def rt_object_get_type_def k class_of_def)
  show "lwp_suspend_sigcheck 2 sf k"
    using waiting_kernel_sig [of 2 sf w] by (cases sf) (simp_all add: lwp_suspend_sigcheck_def k set_mq_def)
  show "can_block 2 k" by (simp add: can_block_def k) (simp add: set_mq_def)
qed (use assms in \<open>auto simp: mq_kernel_def mq_full_kernel_def waiting_kernel_ok mq_flag_ok_def\<close>)

text \<open>The blocks of a message queue form a bounded first-in first-out queue: from any well-formed
  queue, storing a sequence of messages of the block size that fits and then taking as many as there
  are returns the old contents followed by the stored messages in order; no block is lost, so the
  emptied queue is well formed with the same capacity.\<close>

theorem mq_blocks_fifo:
  assumes "mq_wf mq" "length (mq_contents mq) + length xs \<le> unat (mq_max_msgs mq)"
    "\<forall>x \<in> set xs. length x = unat (mq_msg_size mq)"
  shows "\<exists>mq1 mq2. put_list mq_put xs mq = Some mq1 \<and>
    get_list mq_get (length (mq_contents mq) + length xs) mq1 = Some (mq_contents mq @ xs, mq2) \<and>
    mq_wf mq2 \<and> mq_contents mq2 = [] \<and> mq_max_msgs mq2 = mq_max_msgs mq"
  using mqq.fifo [OF assms] by (simp add: word_unat_eq_iff)

theorem mq_blocks_fifo_witness:
  "\<exists>mq1 mq2. put_list mq_put [[1, 2, 3, 4, 5, 6, 7, 8]] (k_mq (mq_kernel (Mq_recv_q 0)) 0) = Some mq1 \<and>
    get_list mq_get 1 mq1 = Some ([[1, 2, 3, 4, 5, 6, 7, 8]], mq2) \<and> mq_wf mq2"
  using mq_blocks_fifo [OF mq_kernel_mq(1) [of "Mq_recv_q 0"], of "[[1, 2, 3, 4, 5, 6, 7, 8]]"] mq_kernel_mq [of "Mq_recv_q 0"]
  by auto

text \<open>Initialising a message queue object threads every block of the pool on the free list: the
  queue is well formed and empty, and all its blocks with their headers lie inside the pool the
  caller gave.\<close>

theorem mq_init_wf:
  assumes "rt_object_init (O_mq m) RT_Object_Class_MessageQueue name k = Some k0"
    and "\<forall>i. length (msg_data (pool i)) = unat (ucast (RT_ALIGN msg_size RT_ALIGN_SIZE) :: u16)"
  shows "\<exists>k'. rt_mq_init m name pool msg_size pool_size flag k = Some (RT_EOK, k') \<and>
    mq_wf (k_mq k' m) \<and> mq_contents (k_mq k' m) = [] \<and>
    k_queue k' (Wait (Mq_recv_q m)) = [] \<and> k_queue k' (Wait (Mq_send_q m)) = [] \<and>
    unat (mq_max_msgs (k_mq k' m)) * (unat (mq_msg_size (k_mq k' m)) + sizeof_mq_message) \<le> unat pool_size"
proof -
  let ?sz = "ucast (RT_ALIGN msg_size RT_ALIGN_SIZE) :: u16"
  let ?d = "ucast ?sz + 8 :: u64"
  let ?n = "ucast (pool_size div ?d) :: u16"
  let ?k = "mq_setup m (mq_build pool ?sz ?n) flag k0"
  have k: "rt_mq_init m name pool msg_size pool_size flag k = Some (RT_EOK, ?k)"
    using assms(1) by (simp add: rt_mq_init_def Let_def)
  have s: "k_mq ?k m = mq_build pool ?sz ?n" "k_queue ?k (Wait (Mq_recv_q m)) = []" "k_queue ?k (Wait (Mq_send_q m)) = []"
    by (simp_all add: Let_def mq_setup_def rt_ipc_object_init_def set_mq_def)
  have "unat ?n * (unat ?sz + 8) \<le> unat pool_size"
    by (rule blocks_in_pool [OF unat_ucast_u16_add8])
  with k s show ?thesis using mq_build_wf [of ?n pool ?sz] assms(2) by simp
qed

theorem mq_init_wf_witness:
  "\<exists>k'. rt_mq_init 0 ''mq'' (\<lambda>_. \<lparr>msg_next = None, msg_data = [0, 0, 0, 0, 0, 0, 0, 0]\<rparr>) 5 40 0 kernel0 = Some (RT_EOK, k') \<and>
    mq_wf (k_mq k' 0)"
proof -
  have "\<exists>k0. rt_object_init (O_mq 0) RT_Object_Class_MessageQueue ''mq'' kernel0 = Some k0"
    by (simp add: rt_object_init_def rt_object_get_information_def rt_object_container_def rt_enter_critical_def
        rt_exit_critical_def kernel0_def Let_def)
  then show ?thesis
    using mq_init_wf [of 0 "''mq''" kernel0 _ "\<lambda>_. \<lparr>msg_next = None, msg_data = [0, 0, 0, 0, 0, 0, 0, 0]\<rparr>" 5 40 0]
    by (auto simp: RT_ALIGN_def)
qed

text \<open>C27: Sending to a message queue with a waiting time, when nothing interrupts the copying: with a free block the message is queued
  behind all others and the first waiting receiver, if any, is made ready; without one the queue
  stays as it is and the sender is suspended on the sender list. The invariants of kernel
  and queue are kept: no block is lost or linked twice, and the counter never overflows.\<close>

theorem mq_send_refines:
  assumes "kernel_ok k" "is_mq m k" "mq_flag_ok m k" "mq_wf (k_mq k m)"
    and "buffer \<noteq> []" "length buffer \<le> unat (mq_msg_size (k_mq k m))"
    and "wait_time timeout" "can_block c k" "lwp_suspend_sigcheck c sf k"
  shows "\<exists>r k'. mq_through c (mq_send_wait m buffer timeout sf k) = Some (r, k') \<and> kernel_ok k' \<and> mq_wf (k_mq k' m) \<and>
    (if length (mq_contents (k_mq k m)) < unat (mq_max_msgs (k_mq k m))
     then (\<exists>x. mq_contents (k_mq k' m) = mq_contents (k_mq k m) @ [x] \<and> stored buffer (k_mq k m) x) \<and>
       woken_first (Mq_recv_q m) k k' \<and>
       r = (if k_queue k (Wait (Mq_recv_q m)) = [] then Return (RT_EOK, None)
            else Reschedule (K_mq_return RT_EOK None))
     else k_mq k' m = k_mq k m \<and> suspended (stat c k') \<and>
       r = Reschedule (K_mq_send m buffer timeout (if 0 < sint timeout then k_tick k else 0) sf) \<and>
       k_queue k' (Wait (Mq_send_q m)) =
         wait_insert (obj_flag (k_obj k (O_mq m))) c k (k_queue k (Wait (Mq_send_q m))))"
proof (cases "length (mq_contents (k_mq k m)) < unat (mq_max_msgs (k_mq k m))")
  case True
  have "mq_send_wait m buffer timeout sf k = mq_send_commit m buffer k"
    using assms(2,5,6) mq_free_full [OF assms(4)] True by (auto simp: mq_send_wait_def mq_send_loop_def)
  with mq_send_commit_ok [OF assms(1,4,6) True] True show ?thesis by fastforce
next
  case False
  then have full: "mq_free (k_mq k m) = None" using mq_free_full [OF assms(4)] by simp
  obtain k' where k': "mq_send_loop m buffer timeout 0 sf k =
        Some (Reschedule (K_mq_send m buffer timeout (if 0 < sint timeout then k_tick k else 0) sf), k')"
      "kernel_ok k'" "blocked (Mq_send_q m) (obj_flag (k_obj k (O_mq m))) c (set_error c (- RT_EINTR) k) k'"
    using mq_send_blocks [OF assms(1,3) full assms(7-9)] by blast
  have w: "wait_insert f c (set_error c (- RT_EINTR) k) ws = wait_insert f c k ws" for f ws
    by (rule wait_insert_cong) simp
  have "mq_send_wait m buffer timeout sf k = mq_send_loop m buffer timeout 0 sf k"
    using assms(2,5-7) by (simp add: mq_send_wait_def wait_time_def)
  with k' False assms(4) w show ?thesis by (simp add: blocked_def mq_through_def)
qed

theorem mq_send_refines_witness:
  "\<exists>r k'. mq_through 2 (mq_send_wait 0 [7, 8] 4 RT_KILLABLE (mq_kernel (Mq_recv_q 0))) = Some (r, k') \<and> kernel_ok k' \<and>
    (\<exists>x. mq_contents (k_mq k' 0) = [x] \<and> take (Suc (Suc 0)) x = [7, 8]) \<and> r = Reschedule (K_mq_return RT_EOK None)"
proof -
  let ?k = "mq_kernel (Mq_recv_q 0)"
  have "k_queue ?k (Wait (Mq_recv_q 0)) = [3]" by (simp add: mq_kernel_facts(6) [of _ "Mq_recv_q 0"])
  then show ?thesis
    using mq_send_refines [of ?k 0 "[7, 8]" 4 2 RT_KILLABLE] mq_kernel_facts(1-5) [of ?k "Mq_recv_q 0"]
      mq_kernel_mq [of "Mq_recv_q 0"]
    by (auto simp: wait_time_def stored_def)
qed

text \<open>An urgent message overtakes: it is queued in front of all messages, the first waiting
  receiver, if any, is made ready, and a queue without a free block rejects it with \<open>-RT_EFULL\<close>
  and no change of the kernel state.\<close>

theorem mq_urgent_first:
  assumes "kernel_ok k" "is_mq m k" "mq_wf (k_mq k m)"
    and "buffer \<noteq> []" "length buffer \<le> unat (mq_msg_size (k_mq k m))"
  shows "if length (mq_contents (k_mq k m)) < unat (mq_max_msgs (k_mq k m))
    then \<exists>r k' x. mq_through t (rt_mq_urgent m buffer k) = Some (r, k') \<and> kernel_ok k' \<and> mq_wf (k_mq k' m) \<and>
       mq_contents (k_mq k' m) = x # mq_contents (k_mq k m) \<and> stored buffer (k_mq k m) x \<and>
       woken_first (Mq_recv_q m) k k' \<and>
       r = (if k_queue k (Wait (Mq_recv_q m)) = [] then Return (RT_EOK, None) else Reschedule (K_mq_return RT_EOK None))
    else rt_mq_urgent m buffer k = Some (Return (- RT_EFULL, None), k)"
proof (cases "length (mq_contents (k_mq k m)) < unat (mq_max_msgs (k_mq k m))")
  case True
  then show ?thesis using mq_urgent_commit_ok [OF assms(1,3,5) True assms(2,4)] by presburger
next
  case False
  then have "mq_alloc (k_mq k m) = None" using mq_free_full [OF assms(3)] by (simp add: mq_alloc_def)
  with False assms(2,4,5) show ?thesis by (simp add: rt_mq_urgent_def)
qed

theorem mq_urgent_first_witness:
  "\<exists>r k' x. mq_through 2 (rt_mq_urgent 0 [9] (mq_kernel (Mq_recv_q 0))) = Some (r, k') \<and> kernel_ok k' \<and>
    mq_contents (k_mq k' 0) = [x] \<and> take 1 x = [9]"
  using mq_urgent_first [of "mq_kernel (Mq_recv_q 0)" 0 "[9]" 2] mq_kernel_facts(1-2) [of "mq_kernel (Mq_recv_q 0)" "Mq_recv_q 0"]
    mq_kernel_mq [of "Mq_recv_q 0"]
  by (auto simp: stored_def)

text \<open>C28: Receiving from a message queue with a waiting time, when nothing interrupts the copying: the first message is copied, cut to the
  size of the caller's buffer, its block becomes free and the first waiting sender, if any, is made
  ready; when the queue is empty the receiver is suspended on the receiver list. The invariants
  of kernel and queue are kept.\<close>

theorem mq_recv_refines:
  assumes "kernel_ok k" "is_mq m k" "mq_flag_ok m k" "mq_wf (k_mq k m)" "0 < sz"
    and "wait_time timeout" "can_block c k" "lwp_suspend_sigcheck c sf k"
  shows "\<exists>r k'. mq_through c (mq_recv m sz timeout sf k) = Some (r, k') \<and> kernel_ok k' \<and> mq_wf (k_mq k' m) \<and>
    (case mq_contents (k_mq k m) of
       x # xs \<Rightarrow> mq_contents (k_mq k' m) = xs \<and> woken_first (Mq_send_q m) k k' \<and>
         (let b = take (min sz (unat (mq_msg_size (k_mq k m)))) x
          in r = (if k_queue k (Wait (Mq_send_q m)) = [] then Return (RT_EOK, Some b)
                  else Reschedule (K_mq_return RT_EOK (Some b))))
     | [] \<Rightarrow> k_mq k' m = k_mq k m \<and> suspended (stat c k') \<and>
         r = Reschedule (K_mq_recv m sz timeout (if 0 < sint timeout then k_tick k else 0) sf) \<and>
         k_queue k' (Wait (Mq_recv_q m)) =
           wait_insert (obj_flag (k_obj k (O_mq m))) c k (k_queue k (Wait (Mq_recv_q m))))"
proof (cases "mq_contents (k_mq k m)")
  case Nil
  then have e: "mq_entry (k_mq k m) = 0" using mq_contents_length [OF assms(4)] by (simp add: unat_eq_0)
  obtain k' where k': "mq_recv_loop m sz timeout 0 sf k =
        Some (Reschedule (K_mq_recv m sz timeout (if 0 < sint timeout then k_tick k else 0) sf), k')"
      "kernel_ok k'" "blocked (Mq_recv_q m) (obj_flag (k_obj k (O_mq m))) c (set_error c (- RT_EINTR) k) k'"
    using mq_recv_blocks [OF assms(1,3) e assms(6-8)] by blast
  have w: "wait_insert f c (set_error c (- RT_EINTR) k) ws = wait_insert f c k ws" for f ws
    by (rule wait_insert_cong) simp
  have "mq_recv m sz timeout sf k = mq_recv_loop m sz timeout 0 sf k"
    using assms(2,5,6) by (simp add: mq_recv_def wait_time_def)
  with k' Nil assms(4) w show ?thesis by (simp add: blocked_def mq_through_def)
next
  case (Cons x xs)
  then have "mq_entry (k_mq k m) \<noteq> 0" using mq_contents_length [OF assms(4)] by auto
  then have "mq_recv m sz timeout sf k = mq_recv_commit m sz k"
    using assms(2,5) by (simp add: mq_recv_def mq_recv_loop_def)
  with Cons mq_recv_commit_ok [OF assms(1,4) Cons, of c sz] show ?thesis by (simp add: Let_def)
qed

theorem mq_recv_refines_witness:
  "\<exists>r k'. mq_through 2 (mq_recv 0 3 4 RT_KILLABLE (mq_full_kernel (Mq_send_q 0))) = Some (r, k') \<and> kernel_ok k' \<and>
    mq_contents (k_mq k' 0) = [[2, 2, 2, 2, 2, 2, 2, 2]]"
  using mq_recv_refines [of "mq_full_kernel (Mq_send_q 0)" 0 3 4 2 RT_KILLABLE]
    mq_kernel_facts(1-5) [of "mq_full_kernel (Mq_send_q 0)" "Mq_send_q 0"] mq_full_kernel_mq [of "Mq_send_q 0"]
  by (auto simp: wait_time_def)

text \<open>C36: Resetting a message queue returns for any number of messages and waiters: every waiting
  sender and receiver is made ready with the error \<open>-RT_ERROR\<close>, both wait lists are empty,
  and every block is back on the free list.\<close>

theorem mq_reset_empties:
  assumes "kernel_ok k" "is_mq m k" "mq_wf (k_mq k m)"
  shows "\<exists>k'. rt_mq_control m (RT_IPC_CMD_RESET v) k = Some (Reschedule (K_return RT_EOK), k') \<and>
    kernel_ok k' \<and> mq_wf (k_mq k' m) \<and> mq_contents (k_mq k' m) = [] \<and> mq_max_msgs (k_mq k' m) = mq_max_msgs (k_mq k m) \<and>
    k_queue k' (Wait (Mq_recv_q m)) = [] \<and> k_queue k' (Wait (Mq_send_q m)) = [] \<and>
    (\<forall>t \<in> set (k_queue k (Wait (Mq_recv_q m))) \<union> set (k_queue k (Wait (Mq_send_q m))).
      th_error (k_thread k' t) = - RT_ERROR \<and> (ready (stat t k') \<or> running (stat t k')))"
proof -
  obtain k1 where k1: "rt_ipc_list_resume_all (Mq_recv_q m) k = Some (RT_EOK, k1)"
      "kernel_inv (half - 1) (k_tick k) k1" "all_woken (Mq_recv_q m) k k1"
    using ipc_resume_all [of "half - 1" "k_tick k" k "Mq_recv_q m"] assms(1) unfolding kernel_ok_def by blast
  obtain k2 where k2: "rt_ipc_list_resume_all (Mq_send_q m) k1 = Some (RT_EOK, k2)"
      "kernel_inv (half - 1) (k_tick k) k2" "all_woken (Mq_send_q m) k1 k2"
    using ipc_resume_all [OF k1(2), of "Mq_send_q m"] by blast
  obtain qs fs where "mq_repr {} qs fs (k_mq k m)" using assms(3) by (auto simp: mq_wf_def)
  then obtain mq fs' where mq: "mq_release_all (k_mq k m) = Some mq" "mq_repr {} [] fs' (mq\<lparr>mq_entry := 0\<rparr>)"
      "mq_max_msgs mq = mq_max_msgs (k_mq k m)"
    using mq_release_all_ok [of "{}" qs fs "mq_entry (k_mq k m)" "k_mq k m"] by auto
  let ?k = "set_mq m (mq\<lparr>mq_entry := 0\<rparr>) k2"
  have "k_mq k2 = k_mq k" "k_tick k2 = k_tick k" using k1(3) k2(3) by (simp_all add: all_woken_def)
  then have call: "rt_mq_control m (RT_IPC_CMD_RESET v) k = Some (Reschedule (K_return RT_EOK), ?k)" "kernel_ok ?k"
    using assms(2) k1(1) k2(1,2) mq(1) by (simp_all add: rt_mq_control_def kernel_ok_def)
  have q: "k_queue k1 (Wait (Mq_send_q m)) = k_queue k (Wait (Mq_send_q m))" "k_queue k1 (Wait (Mq_recv_q m)) = []"
    using k1(3) by (simp_all add: all_woken_def)
  then have q2: "k_queue k2 (Wait (Mq_recv_q m)) = []" "k_queue k2 (Wait (Mq_send_q m)) = []"
    using k2(3) by (simp_all add: all_woken_def)
  have w: "th_error (k_thread k2 t) = - RT_ERROR \<and> (ready (stat t k2) \<or> running (stat t k2))"
    if "t \<in> set (k_queue k (Wait (Mq_recv_q m))) \<union> set (k_queue k (Wait (Mq_send_q m)))" for t
    using that k1(3) k2(3) q unfolding all_woken_def by (metis Un_iff)
  show ?thesis
    using call q2 w mq(3) mq_contents_repr [OF mq(2)] mq(2)
    by (intro exI [of _ ?k]) (auto simp: mq_wf_def)
qed

theorem mq_reset_empties_witness:
  "\<exists>k'. rt_mq_control 0 (RT_IPC_CMD_RESET 0) (mq_full_kernel (Mq_send_q 0)) = Some (Reschedule (K_return RT_EOK), k') \<and>
    mq_contents (k_mq k' 0) = [] \<and> th_error (k_thread k' 3) = - RT_ERROR"
  using mq_reset_empties [of "mq_full_kernel (Mq_send_q 0)" 0 0]
    mq_kernel_facts [of "mq_full_kernel (Mq_send_q 0)" "Mq_send_q 0"] mq_full_kernel_mq [of "Mq_send_q 0"]
  by auto

end
