(* ===== verification/Ticks.thy ===== *)
theory Ticks
  imports Sample
begin

text \<open>
  The tick interrupt: \<^verbatim>\<open>rt_tick_increase\<close> of \<^verbatim>\<open>src/clock.c\<close> with \<^verbatim>\<open>rt_timer_check\<close> of
  \<^verbatim>\<open>src/timer.c\<close> and \<^verbatim>\<open>rt_thread_timeout\<close> of \<^verbatim>\<open>src/thread.c\<close>, and the sleeping calls that
  rely on it. The loop of \<^verbatim>\<open>rt_timer_check\<close> ends because every round takes a due timer off the
  list and a periodic timer comes back later than the current tick.
\<close>

section \<open>Due timers\<close>

definition due :: "kernel \<Rightarrow> timer_ref list" where
  "due k = filter (\<lambda>m. timer_expired (k_tick k) m k) (k_timer_list k)"

text \<open>Seen from the tick before the current one, the due timers are those at most one tick away.\<close>

lemma expired_iff:
  assumes "k_tick k = base + 1" "ticks_after base (timeout_of k m) \<le> half"
  shows "timer_expired (k_tick k) m k \<longleftrightarrow> ticks_after base (timeout_of k m) \<le> 1"
proof -
  define a where "a = timeout_of k m - base"
  have d: "k_tick k - timeout_of k m = 1 - a" using assms(1) by (simp add: a_def)
  have "unat a \<le> 2147483647" using assms(2) by (simp add: ticks_after_def a_def)
  then show ?thesis
    unfolding timer_expired_def d ticks_after_def a_def [symmetric]
    by (auto simp: word_less_nat_alt unat_sub_if')
qed

lemma due_split:
  assumes "kernel_inv half base k" "k_tick k = base + 1" "k_timer_list k = m # ms"
  shows "timer_expired (k_tick k) m k \<longleftrightarrow> due k \<noteq> []"
proof -
  have b: "ticks_after base (timeout_of k x) \<le> half" if "x \<in> set (m # ms)" for x
    using kernel_invD(4) [OF assms(1)] that assms(3) by (auto simp: tick_sorted_def)
  have le: "ticks_after base (timeout_of k m) \<le> ticks_after base (timeout_of k x)" if "x \<in> set ms" for x
    using kernel_invD(4) [OF assms(1)] that assms(3) by (simp add: tick_sorted_def)
  have "timer_expired (k_tick k) m k" if "x \<in> set ms" "timer_expired (k_tick k) x k" for x
    using that le [OF that(1)] expired_iff [OF assms(2) b, of x] expired_iff [OF assms(2) b, of m] by simp
  then show ?thesis by (auto simp: due_def assms(3) filter_empty_conv)
qed

text \<open>When no timer is due the list is bounded from the current tick on.\<close>

lemma no_due_ok:
  assumes inv: "kernel_inv half base k" and t: "k_tick k = base + 1" and d: "due k = []"
  shows "kernel_ok k"
proof -
  note s = kernel_invD(4) [OF inv]
  have later: "ticks_after (k_tick k) (timeout_of k m) = ticks_after base (timeout_of k m) - 1 \<and>
      1 < ticks_after base (timeout_of k m) \<and> ticks_after base (timeout_of k m) \<le> half"
    if m: "m \<in> set (k_timer_list k)" for m
  proof -
    have b: "ticks_after base (timeout_of k m) \<le> half" using s m by (simp add: tick_sorted_def)
    have "\<not> timer_expired (k_tick k) m k" using d m by (auto simp: due_def filter_empty_conv)
    then have g: "1 < ticks_after base (timeout_of k m)" using expired_iff [OF t b] by simp
    define a where "a = timeout_of k m - base"
    have "timeout_of k m - k_tick k = a - 1" "a \<noteq> 0" using t g by (auto simp: a_def ticks_after_def)
    then have "ticks_after (k_tick k) (timeout_of k m) = ticks_after base (timeout_of k m) - 1"
      by (simp add: ticks_after_def unat_minus_one a_def [symmetric])
    with b g show ?thesis by simp
  qed
  have "sorted (map (\<lambda>m. ticks_after base (timeout_of k m) - 1) (k_timer_list k))"
    using s by (auto simp: tick_sorted_def sorted_map intro: sorted_wrt_mono_rel [rotated] diff_le_mono)
  moreover have "map (\<lambda>m. ticks_after (k_tick k) (timeout_of k m)) (k_timer_list k) =
      map (\<lambda>m. ticks_after base (timeout_of k m) - 1) (k_timer_list k)"
    using later by simp
  ultimately have "tick_sorted (half - 1) (k_tick k) (timeout_of k) (k_timer_list k)"
    unfolding tick_sorted_def using later by (metis diff_le_mono)
  then show ?thesis using inv by (simp add: kernel_ok_def kernel_inv_def)
qed

lemma kernel_inv_weaken:
  assumes "kernel_inv n base k" "n \<le> n'" shows "kernel_inv n' base k"
  using assms by (auto simp: kernel_inv_def tick_sorted_def intro: order_trans)

section \<open>One round of the timer check\<close>

text \<open>A fired timer that may be started again: what \<^const>\<open>kernel_inv\<close> says of a linked one.\<close>

definition rearmable :: "timer_ref \<Rightarrow> kernel \<Rightarrow> bool" where
  "rearmable m k \<longleftrightarrow> is_timer m k \<and> \<not> soft m k \<and>
     (case m of
        T_thread t \<Rightarrow> \<not> periodic m k
      | T_user n \<Rightarrow> timeout_func (k_timer k m) \<noteq> Rt_thread_timeout \<and>
          (periodic m k \<longrightarrow> 0 < init_tick (k_timer k m) \<and> init_tick (k_timer k m) < RT_TICK_HALF))"

definition fire_state :: "timer_ref \<Rightarrow> kernel \<Rightarrow> kernel" where
  "fire_state m k = (timer_unlink_fired m k)\<lparr>k_firing := m # k_firing (timer_unlink_fired m k)\<rparr>"

lemma fire_state_frame [simp]:
  "k_queue (fire_state m k) = k_queue k" "k_thread (fire_state m k) = k_thread k"
  "k_ready_group (fire_state m k) = k_ready_group k" "k_current (fire_state m k) = k_current k"
  "k_tick (fire_state m k) = k_tick k" "k_timer (fire_state m k) = k_timer k"
  "k_lock_nest (fire_state m k) = k_lock_nest k"
  "k_timer_list (fire_state m k) = removeAll m (k_timer_list k)"
  "k_firing (fire_state m k) = m # removeAll m (k_firing k)"
  "obj_type (k_obj (fire_state m k) r) = obj_type (k_obj k r)"
  "soft x (fire_state m k) = soft x k" "periodic x (fire_state m k) = periodic x k"
  "x \<noteq> m \<Longrightarrow> activated x (fire_state m k) = activated x k"
  by (auto simp: fire_state_def timer_unlink_fired_def timer_op_defs soft_def periodic_def activated_def Let_def)

lemma fire_state_inv:
  assumes inv: "kernel_inv n base k" and m: "m \<in> set (k_timer_list k)"
  shows "kernel_inv n base (fire_state m k)" "rearmable m (fire_state m k)"
proof -
  note isx = is_frame [of "fire_state m k" k, simplified]
  show "kernel_inv n base (fire_state m k)"
  proof (rule kernel_inv_step [OF inv])
    show "timers_from k (fire_state m k)" by (auto simp: timers_from_def)
    show "sched_ok {} (fire_state m k)"
      using kernel_invD(1) [OF inv] by (subst sched_ok_cong [of _ k]) simp_all
    show "cpu_ok (fire_state m k)" using kernel_invD(2) [OF inv] by (simp add: cpu_ok_def)
    show "suspended (stat t (fire_state m k))" if "T_thread t \<in> set (k_timer_list (fire_state m k))" for t
      using that kernel_invD(5) [OF inv, of "T_thread t"] by (simp add: timer_ok_def)
  qed simp
  have "thread_timer_ok t k" if "m = T_thread t" for t
    using kernel_invD(5) [OF inv m] kernel_invD(6) [OF inv, of t] that by (auto simp: timer_ok_def)
  then show "rearmable m (fire_state m k)"
    using kernel_invD(5) [OF inv m] isx(1) [of m] by (cases m) (auto simp: rearmable_def timer_ok_def thread_timer_ok_def)
qed

text \<open>The state before the scheduling point of \<open>rt_thread_timeout\<close>.\<close>

definition wake_state :: "tid \<Rightarrow> kernel \<Rightarrow> kernel" where
  "wake_state t k = rt_schedule_insert_thread t (tlist_remove t (set_error t (- RT_ETIMEOUT) k))"

lemma wake_state_frame [simp]:
  "k_obj (wake_state t k) = k_obj k" "k_timer (wake_state t k) = k_timer k"
  "k_timer_list (wake_state t k) = k_timer_list k" "k_tick (wake_state t k) = k_tick k"
  "k_current (wake_state t k) = k_current k" "k_firing (wake_state t k) = k_firing k"
  "u \<noteq> t \<Longrightarrow> k_thread (wake_state t k) u = k_thread k u"
  "th_error (k_thread (wake_state t k) u) = (if u = t then - RT_ETIMEOUT else th_error (k_thread k u))"
  "\<not> suspended (stat t (wake_state t k))"
  "ready (stat t (wake_state t k)) \<or> running (stat t (wake_state t k))"
  by (simp_all add: wake_state_def insert_thread_frame)
    (simp_all add: rt_schedule_insert_thread_def k_upd_defs set_error_def Let_def tlist_remove_def)

lemma wake_state_inv:
  assumes inv: "kernel_inv n base k" and t: "suspended (stat t k)" "T_thread t \<notin> set (k_timer_list k)"
  shows "kernel_inv n base (wake_state t k)"
proof (rule kernel_inv_step [OF inv])
  let ?k = "set_error t (- RT_ETIMEOUT) k"
  note ok = kernel_invD(1) [OF inv]
  show "timers_from k (wake_state t k)"
    by (simp add: timers_from_def activated_def soft_def periodic_def)
  have "sched_ok {} ?k" using ok by (subst sched_ok_cong [of _ k]) (simp_all add: set_error_def upd_thread_def)
  then have "sched_ok {t} (tlist_remove t ?k)"
    using t(1) by (intro tlist_remove_ok) (auto dest: stat_exclusive)
  moreover have "prio_ok t (tlist_remove t ?k)"
    using sched_okD(3) [OF ok, of t] t(1) by (simp add: thread_ok_def prio_ok_def set_error_def upd_thread_def)
  ultimately show "sched_ok {} (wake_state t k)"
    unfolding wake_state_def using insert_thread_ok [of t "{}" "tlist_remove t ?k"] by simp
  have "t \<noteq> idle_thread" using kernel_invD(2) [OF inv] t(1) unfolding cpu_ok_def by (metis stat_exclusive(1,2))
  then show "cpu_ok (wake_state t k)" using kernel_invD(2) [OF inv] by (simp add: cpu_ok_def)
  show "suspended (stat u (wake_state t k))" if "T_thread u \<in> set (k_timer_list (wake_state t k))" for u
    using that t(2) kernel_invD(5) [OF inv, of "T_thread u"] by (cases "u = t") (auto simp: timer_ok_def)
  show "live (stat u k)" if "live (stat u (wake_state t k))" for u
    using that t(1) by (cases "u = t") auto
qed

lemma thread_timeout_ok:
  assumes inv: "kernel_inv n base k" and t: "suspended (stat t k)" "T_thread t \<notin> set (k_timer_list k)"
  shows "\<exists>k'. rt_thread_timeout t k = Some k' \<and> kernel_inv n base k' \<and> k_core k' = k_core (wake_state t k) \<and>
    (\<forall>u. suspended (stat u k') = suspended (stat u (wake_state t k)) \<and>
      (ready (stat u k') \<or> running (stat u k')) = (ready (stat u (wake_state t k)) \<or> running (stat u (wake_state t k))))"
proof -
  note w = wake_state_inv [OF assms]
  obtain k' where k': "rt_schedule (wake_state t k) = Some k'" "kernel_inv n base k'" "k_core k' = k_core (wake_state t k)"
    using schedule_inv [OF w] by blast
  have "is_thread t (set_error t (- RT_ETIMEOUT) k)" using inv_is_timer(1) [OF inv, of t] t(1) by simp
  then have "rt_thread_timeout t k = rt_schedule (wake_state t k)"
    using t(1) inv_is_timer(1) [OF inv, of t] by (simp add: rt_thread_timeout_def wake_state_def suspended_def)
  then show ?thesis
    using k' rt_schedule_stat(1,4) [OF kernel_invD(1) [OF w] k'(1)] by auto
qed

text \<open>
  The contract of a user timeout function, called from the tick interrupt: it returns, keeps the
  invariant, starts no timer that is due at once, and either leaves the fired timer alone or stops it
  (or starts it itself, which also takes it off the list of the firing timer).
\<close>

definition callbacks_ok :: "callbacks \<Rightarrow> bool" where
  "callbacks_ok cb \<longleftrightarrow> (\<forall>f p k base. kernel_inv half base k \<and> k_tick k = base + 1 \<and> (\<exists>m. k_firing k = [m]) \<longrightarrow>
     (\<exists>k'. cb f p k = Some k' \<and> kernel_inv half base k' \<and> k_tick k' = k_tick k \<and> set (due k') \<subseteq> set (due k) \<and>
       (k_firing k' = [] \<or> k_firing k' = k_firing k \<and> (\<forall>m. rearmable m k \<longrightarrow> rearmable m k'))))"

lemma due_cong:
  "k_tick k' = k_tick k \<Longrightarrow> k_timer k' = k_timer k \<Longrightarrow> k_timer_list k' = k_timer_list k \<Longrightarrow> due k' = due k"
  by (simp add: due_def timer_expired_def)

lemma timeout_step:
  assumes cb: "callbacks_ok cb" and inv: "kernel_inv half base k" and t: "k_tick k = base + 1"
    and m: "m \<in> set (k_timer_list k)" and f: "k_firing k = []"
  shows "\<exists>k'. run_timeout cb m (fire_state m k) = Some k' \<and> kernel_inv half base k' \<and> k_tick k' = k_tick k \<and>
    set (due k') \<subseteq> set (due k) - {m} \<and> (k_firing k' = [] \<or> k_firing k' = [m] \<and> rearmable m k')"
proof -
  let ?k = "fire_state m k"
  note fi = fire_state_inv [OF inv m]
  have d: "set (due ?k) = set (due k) - {m}" by (auto simp: due_def timer_expired_def)
  show ?thesis
  proof (cases "timeout_func (k_timer k m)")
    case Rt_thread_timeout
    then obtain u where u: "m = T_thread u" "suspended (stat u k)"
      using kernel_invD(5) [OF inv m] by (cases m) (auto simp: timer_ok_def)
    then have p: "parameter (k_timer k m) = u" using kernel_invD(6) [OF inv, of u] by (simp add: thread_timer_ok_def)
    have "suspended (stat u ?k)" "T_thread u \<notin> set (k_timer_list ?k)" using u by simp_all
    from thread_timeout_ok [OF fi(1) this] obtain k' where
      k': "rt_thread_timeout u ?k = Some k'" "kernel_inv half base k'" "k_core k' = k_core (wake_state u ?k)"
      by blast
    note c = k_core_fields [OF k'(3), simplified]
    have "due k' = due ?k" using c by (intro due_cong) simp_all
    moreover have "rearmable m k'" using fi(2) c is_frame [of k' ?k]
      by (simp add: rearmable_def u(1) soft_def periodic_def)
    moreover have "run_timeout cb m ?k = Some k'" using Rt_thread_timeout p k'(1) by (simp add: run_timeout_def)
    ultimately show ?thesis using k'(2) d c f by auto
  next
    case (User_timeout x)
    have fr: "\<exists>m. k_firing ?k = [m]" using f by simp
    have "k_tick ?k = base + 1" using t by simp
    then obtain k' where "cb x (parameter (k_timer k m)) ?k = Some k'" "kernel_inv half base k'" "k_tick k' = k_tick ?k"
        "set (due k') \<subseteq> set (due ?k)" "k_firing k' = [] \<or> k_firing k' = k_firing ?k \<and> (\<forall>m. rearmable m ?k \<longrightarrow> rearmable m k')"
      using cb fi(1) fr unfolding callbacks_ok_def by blast
    with User_timeout d f fi(2) show ?thesis by (auto simp: run_timeout_def)
  qed
qed

lemma timer_remove_frame [simp]:
  "k_queue (timer_remove m k) = k_queue k" "k_thread (timer_remove m k) = k_thread k"
  "k_ready_group (timer_remove m k) = k_ready_group k" "k_current (timer_remove m k) = k_current k"
  "k_tick (timer_remove m k) = k_tick k" "k_timer (timer_remove m k) = k_timer k" "k_obj (timer_remove m k) = k_obj k"
  "k_timer_list (timer_remove m k) = removeAll m (k_timer_list k)"
  "k_firing (timer_remove m k) = removeAll m (k_firing k)"
  by (simp_all add: timer_remove_def)

lemma timer_remove_inv:
  assumes inv: "kernel_inv n base k"
  shows "kernel_inv n base (timer_remove m k)"
proof (rule kernel_inv_step [OF inv])
  show "timers_from k (timer_remove m k)"
    by (simp add: timers_from_def activated_def soft_def periodic_def)
  show "sched_ok {} (timer_remove m k)"
    using kernel_invD(1) [OF inv] by (subst sched_ok_cong [of _ k]) simp_all
  show "cpu_ok (timer_remove m k)" using kernel_invD(2) [OF inv] by (simp add: cpu_ok_def)
  show "suspended (stat t (timer_remove m k))" if "T_thread t \<in> set (k_timer_list (timer_remove m k))" for t
    using that kernel_invD(5) [OF inv, of "T_thread t"] by (simp add: timer_ok_def)
qed simp

lemma clear_activated_frame [simp]:
  "k_queue (clear_activated m k) = k_queue k" "k_thread (clear_activated m k) = k_thread k"
  "k_ready_group (clear_activated m k) = k_ready_group k" "k_current (clear_activated m k) = k_current k"
  "k_tick (clear_activated m k) = k_tick k" "k_timer (clear_activated m k) = k_timer k"
  "k_timer_list (clear_activated m k) = k_timer_list k" "k_firing (clear_activated m k) = k_firing k"
  "obj_type (k_obj (clear_activated m k) r) = obj_type (k_obj k r)"
  "soft x (clear_activated m k) = soft x k" "periodic x (clear_activated m k) = periodic x k"
  "activated x (clear_activated m k) = (activated x k \<and> x \<noteq> m)"
  by (auto simp: clear_activated_def upd_obj_def soft_def periodic_def activated_def)

lemma clear_activated_inv:
  assumes inv: "kernel_inv n base k" and m: "m \<notin> set (k_timer_list k)"
  shows "kernel_inv n base (clear_activated m k)"
proof (rule kernel_inv_step [OF inv])
  show "timers_from k (clear_activated m k)" using m by (auto simp: timers_from_def)
  show "sched_ok {} (clear_activated m k)"
    using kernel_invD(1) [OF inv] by (subst sched_ok_cong [of _ k]) simp_all
  show "cpu_ok (clear_activated m k)" using kernel_invD(2) [OF inv] by (simp add: cpu_ok_def)
  show "suspended (stat t (clear_activated m k))" if "T_thread t \<in> set (k_timer_list (clear_activated m k))" for t
    using that kernel_invD(5) [OF inv, of "T_thread t"] by (simp add: timer_ok_def)
qed simp

lemma later_tick:
  fixes x base :: u32
  assumes "x < RT_TICK_HALF"
  shows "ticks_after base (base + 1 + x) = unat x + 1"
proof -
  have "unat (1 + x) = unat x + 1" using assms by (simp add: unat_word_ariths word_less_nat_alt)
  then show ?thesis by (simp add: ticks_after_def algebra_simps)
qed

lemma rearm_ok:
  assumes inv: "kernel_inv half base k" and t: "k_tick k = base + 1" and r: "rearmable m k"
  shows "\<exists>k'. timer_rearm m k = Some k' \<and> kernel_inv half base k' \<and> k_tick k' = k_tick k \<and>
    set (due k') \<subseteq> set (due k) \<and> k_firing k' = removeAll m (k_firing k)"
proof -
  let ?k = "timer_remove m k"
  have i: "kernel_inv half base ?k" by (rule timer_remove_inv [OF inv])
  have fl: "periodic m ?k = periodic m k" "activated m ?k = activated m k" "soft m ?k = soft m k"
    by (simp_all add: periodic_def activated_def soft_def)
  show ?thesis
  proof (cases "periodic m k \<and> activated m k")
    case False
    then have "timer_rearm m k = Some ?k" by (auto simp: timer_rearm_def periodic_def activated_def)
    with i show ?thesis by (auto simp: due_def timer_expired_def)
  next
    case True
    let ?k1 = "clear_activated m ?k" and ?i = "init_tick (k_timer k m)"
    obtain x where m: "m = T_user x" using True r by (cases m) (auto simp: rearmable_def)
    have ini: "0 < ?i" "?i < RT_TICK_HALF" and ty: "is_timer m k" "\<not> soft m k" "timeout_func (k_timer k m) \<noteq> Rt_thread_timeout"
      using True r by (auto simp: rearmable_def m)
    note isx = is_frame [of ?k1 k, simplified]
    have i1: "kernel_inv half base ?k1" by (rule clear_activated_inv [OF i]) simp
    have ta: "ticks_after base (k_tick ?k1 + ?i) = unat ?i + 1" using later_tick [OF ini(2), of base] t by simp
    have u: "0 < unat ?i" "unat ?i < half" using ini by (auto simp: word_less_nat_alt)
    have st: "rt_timer_start m ?k1 = Some (RT_EOK, start_state m ?k1)"
      using ini ty fl by (intro timer_start_eq) (simp_all add: isx)
    have i2: "kernel_inv half base (start_state m ?k1)"
      by (rule start_state_inv [OF i1]) (use ini ty fl ta u isx(1) [of m] in \<open>simp_all add: m\<close>)
    have b: "ticks_after base (timeout_of (start_state m ?k1) m) = unat ?i + 1" using ta by simp
    have "\<not> timer_expired (k_tick (start_state m ?k1)) m (start_state m ?k1)"
      by (subst expired_iff [where base = base]) (use b u t in simp_all)
    then have "set (due (start_state m ?k1)) \<subseteq> set (due k)"
      using start_state_list [of m ?k1] ty fl by (auto simp: due_def timer_expired_def)
    moreover have "timer_rearm m k = Some (start_state m ?k1)"
      using True st fl by (simp add: timer_rearm_def periodic_def activated_def)
    moreover have "k_firing (start_state m ?k1) = removeAll m (k_firing k)"
      by (simp add: start_state_def timer_op_defs Let_def)
    ultimately show ?thesis using i2 by simp
  qed
qed

section \<open>The tick\<close>

lemma yield_stat [simp]:
  "running (s OR RT_THREAD_STAT_YIELD) = running s" "ready (s OR RT_THREAD_STAT_YIELD) = ready s"
  "suspended (s OR RT_THREAD_STAT_YIELD) = suspended s" "closed (s OR RT_THREAD_STAT_YIELD) = closed s"
  "started (s OR RT_THREAD_STAT_YIELD) = started s"
proof -
  have "(s OR RT_THREAD_STAT_YIELD) AND RT_THREAD_STAT_MASK = s AND RT_THREAD_STAT_MASK"
    "(s OR RT_THREAD_STAT_YIELD) AND RT_THREAD_SUSPEND_MASK = s AND RT_THREAD_SUSPEND_MASK"
    by (simp_all add: bit.conj_disj_distrib2)
  then show "running (s OR RT_THREAD_STAT_YIELD) = running s" "ready (s OR RT_THREAD_STAT_YIELD) = ready s"
    "suspended (s OR RT_THREAD_STAT_YIELD) = suspended s" "closed (s OR RT_THREAD_STAT_YIELD) = closed s"
    "started (s OR RT_THREAD_STAT_YIELD) = started s"
    by (simp_all only: running_def ready_def suspended_def closed_def started_def)
qed

lemma yield_inv:
  assumes inv: "kernel_inv n base k"
  shows "kernel_inv n base (set_stat t (stat t k OR RT_THREAD_STAT_YIELD) k)"
proof (rule kernel_inv_step [OF inv])
  let ?k = "set_stat t (stat t k OR RT_THREAD_STAT_YIELD) k"
  show "timers_from k ?k" by (simp add: timers_from_def k_upd_defs activated_def soft_def periodic_def)
  show "sched_ok {} ?k"
    using kernel_invD(1) [OF inv] by (auto simp: sched_ok_def bitmap_ok_def thread_ok_def k_upd_defs prio_ok_def)
  show "cpu_ok ?k" using kernel_invD(2) [OF inv] by (auto simp: cpu_ok_def k_upd_defs)
  show "suspended (stat u ?k)" if "T_thread u \<in> set (k_timer_list ?k)" for u
    using that kernel_invD(5) [OF inv, of "T_thread u"] by (auto simp: timer_ok_def k_upd_defs)
  show "live (stat u ?k) \<Longrightarrow> live (stat u k)" for u
    by (auto simp: live_def k_upd_defs split: if_splits)
qed

text \<open>The part of \<open>rt_tick_increase\<close> before the timer check.\<close>

definition tick_slice :: "kernel \<Rightarrow> kernel option" where
  "tick_slice k = do {
    let k = k\<lparr>k_tick := k_tick k + 1\<rparr>;
    t \<leftarrow> rt_thread_self k;
    let k = upd_thread t (th_remaining_tick_update (\<lambda>r. r - 1)) k;
    if th_remaining_tick (k_thread k t) = 0
    then let k = upd_thread t (\<lambda>th. th\<lparr>th_remaining_tick := th_init_tick th\<rparr>) k;
             k = set_stat t (stat t k OR RT_THREAD_STAT_YIELD) k
         in rt_schedule k
    else Some k
  }"

lemma tick_increase_eq: "rt_tick_increase cb k = Option.bind (tick_slice k) (rt_timer_check cb)"
  by (simp add: rt_tick_increase_def tick_slice_def Let_def bind_assoc)

lemma tick_slice_ok:
  assumes "kernel_inv n base k"
  shows "\<exists>k'. tick_slice k = Some k' \<and> kernel_inv n base k' \<and> k_tick k' = k_tick k + 1 \<and> k_timer k' = k_timer k \<and>
    k_timer_list k' = k_timer_list k \<and> (\<forall>u. suspended (stat u k') = suspended (stat u k) \<and>
      th_error (k_thread k' u) = th_error (k_thread k u))"
proof -
  obtain c where c: "k_current k = Some c" using kernel_invD(2) [OF assms] by (auto simp: cpu_ok_def)
  let ?k1 = "upd_thread c (th_remaining_tick_update (\<lambda>r. r - 1)) (k\<lparr>k_tick := k_tick k + 1\<rparr>)"
  let ?k2 = "upd_thread c (\<lambda>th. th\<lparr>th_remaining_tick := th_init_tick th\<rparr>) ?k1"
  let ?k3 = "set_stat c (stat c ?k2 OR RT_THREAD_STAT_YIELD) ?k2"
  have i: "kernel_inv n base ?k1" "kernel_inv n base ?k3" using assms by (simp_all add: yield_inv)
  have f1: "k_tick ?k1 = k_tick k + 1" "k_timer ?k1 = k_timer k" "k_timer_list ?k1 = k_timer_list k"
      "suspended (stat u ?k1) = suspended (stat u k)" "th_error (k_thread ?k1 u) = th_error (k_thread k u)" for u
    by (simp_all add: upd_thread_def)
  have f3: "k_tick ?k3 = k_tick k + 1" "k_timer ?k3 = k_timer k" "k_timer_list ?k3 = k_timer_list k"
      "suspended (stat u ?k3) = suspended (stat u k)" "th_error (k_thread ?k3 u) = th_error (k_thread k u)" for u
    by (simp_all add: upd_thread_def set_stat_def)
  show ?thesis
  proof (cases "th_remaining_tick (k_thread ?k1 c) = 0")
    case False
    then have "tick_slice k = Some ?k1" using c by (simp add: tick_slice_def rt_thread_self_def)
    with i(1) f1 show ?thesis by blast
  next
    case True
    obtain k' where k': "rt_schedule ?k3 = Some k'" "kernel_inv n base k'" "k_core k' = k_core ?k3"
      using schedule_inv [OF i(2)] by blast
    have "tick_slice k = Some k'" using c True k'(1) by (simp add: tick_slice_def rt_thread_self_def Let_def)
    with k'(2) k_core_fields [OF k'(3)] k_core_thread(4) [OF k'(3)] f3
      rt_schedule_stat(1) [OF kernel_invD(1) [OF i(2)] k'(1)]
    show ?thesis by simp
  qed
qed

text \<open>What holds without the timer part of the invariant.\<close>

lemma tick_slice_frame:
  assumes "tick_slice k = Some k'" "sched_ok {} k"
  shows "k_tick k' = k_tick k + 1" "k_timer k' = k_timer k" "k_timer_list k' = k_timer_list k"
    "suspended (stat u k') = suspended (stat u k)"
proof -
  obtain c where c: "k_current k = Some c" using assms(1) by (auto simp: tick_slice_def rt_thread_self_def bind_eq_Some_conv)
  let ?k1 = "upd_thread c (th_remaining_tick_update (\<lambda>r. r - 1)) (k\<lparr>k_tick := k_tick k + 1\<rparr>)"
  let ?k2 = "upd_thread c (\<lambda>th. th\<lparr>th_remaining_tick := th_init_tick th\<rparr>) ?k1"
  let ?k3 = "set_stat c (stat c ?k2 OR RT_THREAD_STAT_YIELD) ?k2"
  have s3: "sched_ok {} ?k3"
    using assms(2) by (auto simp: sched_ok_def bitmap_ok_def thread_ok_def k_upd_defs prio_ok_def)
  have "k' = ?k1 \<or> rt_schedule ?k3 = Some k'"
    using assms(1) c by (auto simp: tick_slice_def rt_thread_self_def Let_def split: if_splits)
  then show "k_tick k' = k_tick k + 1" "k_timer k' = k_timer k" "k_timer_list k' = k_timer_list k"
    "suspended (stat u k') = suspended (stat u k)"
    using k_core_fields [OF rt_schedule_core, of ?k3 k'] rt_schedule_stat(1) [OF s3, of k' u]
    by (auto simp: k_upd_defs split: if_splits)
qed

section \<open>The timers and their clients\<close>

text \<open>
  The interface between the tick interrupt and the code it calls: the user timeout functions keep their
  contract, and a property \<open>P\<close> of the rest of the kernel survives each step the interrupt
  takes. Then the interrupt keeps the kernel invariant and \<open>P\<close>.
\<close>

locale timer_clients =
  fixes cb :: callbacks
    and P :: "kernel \<Rightarrow> bool"
  assumes cb_ok: "callbacks_ok cb"
    and keep_firing: "P (k\<lparr>k_firing := fs\<rparr>) = P k"
    and keep_fire: "P k \<Longrightarrow> P (fire_state m k)"
    and keep_rearm: "rearmable m k \<Longrightarrow> P k \<Longrightarrow> timer_rearm m k = Some k' \<Longrightarrow> P k'"
    and keep_timeout: "kernel_inv n base k \<Longrightarrow> suspended (stat t k) \<Longrightarrow> T_thread t \<notin> set (k_timer_list k) \<Longrightarrow>
      P k \<Longrightarrow> rt_thread_timeout t k = Some k' \<Longrightarrow> P k'"
    and keep_callback: "kernel_inv half base k \<Longrightarrow> k_tick k = base + 1 \<Longrightarrow> P k \<Longrightarrow> cb f p k = Some k' \<Longrightarrow> P k'"
    and keep_slice: "kernel_inv n base k \<Longrightarrow> P k \<Longrightarrow> tick_slice k = Some k' \<Longrightarrow> P k'"
begin

lemma keep_run:
  assumes inv: "kernel_inv half base k" and t: "k_tick k = base + 1" and m: "m \<in> set (k_timer_list k)" and P: "P k"
    and r: "run_timeout cb m (fire_state m k) = Some k'"
  shows "P k'"
proof (cases "timeout_func (k_timer k m)")
  case Rt_thread_timeout
  then obtain u where u: "m = T_thread u" "suspended (stat u k)"
    using kernel_invD(5) [OF inv m] by (cases m) (auto simp: timer_ok_def)
  then have "parameter (k_timer k m) = u" using kernel_invD(6) [OF inv, of u] by (simp add: thread_timer_ok_def)
  then have "rt_thread_timeout u (fire_state m k) = Some k'" using r Rt_thread_timeout by (simp add: run_timeout_def)
  with keep_timeout [OF fire_state_inv(1) [OF inv m] _ _ keep_fire [OF P]] u show ?thesis by simp
next
  case (User_timeout x)
  with r have "cb x (parameter (k_timer k m)) (fire_state m k) = Some k'" by (simp add: run_timeout_def)
  with keep_callback [OF fire_state_inv(1) [OF inv m] _ keep_fire [OF P]] t show ?thesis by simp
qed

text \<open>The loop ends with no timer due.\<close>

lemma check_loop:
  assumes "kernel_inv half base k" "k_tick k = base + 1" "k_firing k = []" "P k"
  shows "\<exists>k'. timer_check_loop cb (k_tick k) k = Some k' \<and> kernel_inv half base k' \<and> k_tick k' = k_tick k \<and>
    due k' = [] \<and> P k'"
  using assms
proof (induction "card (set (due k))" arbitrary: k rule: less_induct)
  case less
  show ?case
  proof (cases "due k = []")
    case True
    have "timer_check_loop cb (k_tick k) k = Some k"
      using due_split [OF less.prems(1,2)] True by (subst timer_check_loop.simps) (auto split: list.split)
    with less.prems(1,4) True show ?thesis by blast
  next
    case False
    then obtain m ms where l: "k_timer_list k = m # ms" by (cases "k_timer_list k") (auto simp: due_def)
    have e: "timer_expired (k_tick k) m k" using due_split [OF less.prems(1,2) l] False by simp
    then have md: "m \<in> set (due k)" by (simp add: due_def l)
    obtain k1 where k1: "run_timeout cb m (fire_state m k) = Some k1" "kernel_inv half base k1" "k_tick k1 = k_tick k"
        "set (due k1) \<subseteq> set (due k) - {m}" "k_firing k1 = [] \<or> k_firing k1 = [m] \<and> rearmable m k1"
      using timeout_step [OF cb_ok less.prems(1,2) _ less.prems(3), of m] l by auto
    have P1: "P k1" using keep_run [OF less.prems(1,2) _ less.prems(4) k1(1)] l by simp
    have fs: "(timer_unlink_fired m k)\<lparr>k_firing := m # k_firing (timer_unlink_fired m k)\<rparr> = fire_state m k"
      by (simp add: fire_state_def)
    have step: "timer_check_loop cb (k_tick k) k =
        (if k_firing k1 = [] then timer_check_loop cb (k_tick k1) k1
         else Option.bind (timer_rearm m k1) (timer_check_loop cb (k_tick k1)))"
      using l e k1(1) by (subst timer_check_loop.simps) (simp add: fs rt_tick_get_def)
    have small: "card (set (due k')) < card (set (due k))" if "set (due k') \<subseteq> set (due k) - {m}" for k'
      using that md by (intro psubset_card_mono) auto
    show ?thesis
    proof (cases "k_firing k1 = []")
      case True
      with step k1 P1 less.hyps [OF small [OF k1(4)] k1(2)] less.prems show ?thesis by auto
    next
      case False
      then have f: "k_firing k1 = [m]" "rearmable m k1" using k1(5) by auto
      obtain k2 where k2: "timer_rearm m k1 = Some k2" "kernel_inv half base k2" "k_tick k2 = k_tick k1"
          "set (due k2) \<subseteq> set (due k1)" "k_firing k2 = []"
        using rearm_ok [OF k1(2) _ f(2)] k1(3) less.prems(2) f(1) by auto
      have "set (due k2) \<subseteq> set (due k) - {m}" using k2(4) k1(4) by blast
      with step k1(3) k2 False less.hyps [OF small k2(2)] less.prems keep_rearm [OF f(2) P1 k2(1)] show ?thesis by auto
    qed
  qed
qed

lemma tick:
  assumes "kernel_ok k" "P k"
  shows "\<exists>k'. rt_tick_increase cb k = Some k' \<and> kernel_ok k' \<and> P k' \<and> k_tick k' = k_tick k + 1 \<and> due k' = []"
proof -
  have inv: "kernel_inv half (k_tick k) k" using assms(1) by (auto simp: kernel_ok_def intro: kernel_inv_weaken)
  then obtain k1 where k1: "tick_slice k = Some k1" "kernel_inv half (k_tick k) k1" "k_tick k1 = k_tick k + 1"
    using tick_slice_ok by blast
  let ?k = "k1\<lparr>k_firing := []\<rparr>"
  have "P ?k" using keep_slice [OF inv assms(2) k1(1)] by (simp add: keep_firing)
  then obtain k' where k': "timer_check_loop cb (k_tick ?k) ?k = Some k'" "kernel_inv half (k_tick k) k'" "k_tick k' = k_tick ?k"
      "due k' = []" "P k'"
    using check_loop [of "k_tick k" ?k] k1(2,3) by auto
  have "rt_tick_increase cb k = Some k'"
    using k1(1,3) k'(1) by (simp add: tick_increase_eq rt_timer_check_def rt_tick_get_def)
  moreover have "kernel_ok k'" using no_due_ok [OF k'(2)] k'(3,4) k1(3) by simp
  ultimately show ?thesis using k'(3-5) k1(3) by auto
qed

end

lemma any_clients: "callbacks_ok cb \<Longrightarrow> timer_clients cb (\<lambda>_. True)"
  by unfold_locales simp_all

section \<open>Sleeping threads\<close>

text \<open>A state whose running timers are all thread timers, as in a system without user timers.\<close>

definition thread_timers :: "kernel \<Rightarrow> bool" where
  "thread_timers k \<longleftrightarrow> (\<forall>m \<in> set (k_timer_list k). \<exists>t. m = T_thread t)"

definition woken :: "tid \<Rightarrow> kernel \<Rightarrow> bool" where
  "woken t k \<longleftrightarrow> th_error (k_thread k t) = - RT_ETIMEOUT \<and> (ready (stat t k) \<or> running (stat t k))"

definition same_sleep :: "tid \<Rightarrow> kernel \<Rightarrow> kernel \<Rightarrow> bool" where
  "same_sleep t k k' \<longleftrightarrow> th_error (k_thread k' t) = th_error (k_thread k t) \<and>
     suspended (stat t k') = suspended (stat t k) \<and>
     (ready (stat t k') \<or> running (stat t k')) = (ready (stat t k) \<or> running (stat t k))"

lemma woken_same: "same_sleep t k k' \<Longrightarrow> woken t k \<Longrightarrow> woken t k'"
  by (simp add: woken_def same_sleep_def)

lemma thread_timer_step:
  assumes inv: "kernel_inv half base k" and l: "k_timer_list k = T_thread t # ms" and f: "k_firing k = []"
    and e: "timer_expired (k_tick k) (T_thread t) k"
  shows "\<exists>k'. timer_check_loop cb (k_tick k) k = timer_check_loop cb (k_tick k') k' \<and> kernel_inv half base k' \<and>
    k_tick k' = k_tick k \<and> k_timer k' = k_timer k \<and> k_timer_list k' = ms \<and> k_firing k' = [] \<and>
    woken t k' \<and> (\<forall>u. u \<noteq> t \<longrightarrow> same_sleep u k k')"
proof -
  let ?m = "T_thread t" and ?k = "fire_state (T_thread t) k"
  have m: "?m \<in> set (k_timer_list k)" using l by simp
  note fi = fire_state_inv [OF inv m]
  have new: "?m \<notin> set ms" using kernel_invD(3) [OF inv] l by simp
  have st: "suspended (stat t k)" using kernel_invD(5) [OF inv m] by (simp add: timer_ok_def)
  then have p: "timeout_func (k_timer k ?m) = Rt_thread_timeout" "parameter (k_timer k ?m) = t" "\<not> periodic ?m k"
    using kernel_invD(6) [OF inv, of t] by (simp_all add: thread_timer_ok_def)
  have "suspended (stat t ?k)" "T_thread t \<notin> set (k_timer_list ?k)" using st by simp_all
  from thread_timeout_ok [OF fi(1) this] obtain k1 where
    k1: "rt_thread_timeout t ?k = Some k1" "kernel_inv half base k1" "k_core k1 = k_core (wake_state t ?k)"
      and s1: "\<And>u. suspended (stat u k1) = suspended (stat u (wake_state t ?k))"
        "\<And>u. (ready (stat u k1) \<or> running (stat u k1)) =
          (ready (stat u (wake_state t ?k)) \<or> running (stat u (wake_state t ?k)))"
    by blast
  note c = k_core_fields [OF k1(3), simplified]
  let ?k2 = "timer_remove ?m k1"
  have fs: "(timer_unlink_fired ?m k)\<lparr>k_firing := ?m # k_firing (timer_unlink_fired ?m k)\<rparr> = ?k" by (simp add: fire_state_def)
  have run: "run_timeout cb ?m ?k = Some k1" using p k1(1) by (simp add: run_timeout_def)
  have "\<not> periodic ?m k1" using p(3) fire_state_frame(12) [of ?m ?m k] c(1) by (simp add: periodic_def)
  then have re: "timer_rearm ?m k1 = Some ?k2" by (simp add: timer_rearm_def periodic_def)
  have "timer_check_loop cb (k_tick k) k = timer_check_loop cb (k_tick ?k2) ?k2"
    using l e run re c(13) by (subst timer_check_loop.simps) (simp add: fs rt_tick_get_def)
  moreover have "kernel_inv half base ?k2" by (rule timer_remove_inv [OF k1(2)])
  moreover have "k_tick ?k2 = k_tick k" "k_timer ?k2 = k_timer k" "k_timer_list ?k2 = ms" "k_firing ?k2 = []"
    using c l f new by simp_all
  moreover have "woken t ?k2"
    using k_core_thread(4) [OF k1(3), of t] s1(2) [of t] wake_state_frame(10) [of t ?k] by (auto simp: woken_def)
  moreover have "same_sleep u k ?k2" if "u \<noteq> t" for u
    using k_core_thread(4) [OF k1(3), of u] s1 [of u] that by (simp add: same_sleep_def)
  ultimately show ?thesis by blast
qed

lemma thread_timers_loop:
  assumes "kernel_inv half base k" "k_tick k = base + 1" "k_firing k = []" "thread_timers k"
  shows "\<exists>k'. timer_check_loop cb (k_tick k) k = Some k' \<and> kernel_inv half base k' \<and> k_tick k' = k_tick k \<and>
    k_timer k' = k_timer k \<and> k_timer_list k' = filter (\<lambda>m. \<not> timer_expired (k_tick k) m k) (k_timer_list k) \<and>
    (\<forall>t. if T_thread t \<in> set (due k) then woken t k' else same_sleep t k k')"
  using assms
proof (induction "k_timer_list k" arbitrary: k)
  case Nil
  then have "timer_check_loop cb (k_tick k) k = Some k" by (subst timer_check_loop.simps) (simp split: list.split)
  with Nil show ?case by (auto simp: due_def same_sleep_def)
next
  case (Cons m ms)
  note l = Cons.hyps(2) [symmetric]
  obtain t where m: "m = T_thread t" using Cons.prems(4) l by (auto simp: thread_timers_def)
  have new: "m \<notin> set ms" using kernel_invD(3) [OF Cons.prems(1)] l by simp
  show ?case
  proof (cases "timer_expired (k_tick k) m k")
    case False
    then have d: "due k = []" using due_split [OF Cons.prems(1,2) l] by simp
    then have "\<forall>x \<in> set (k_timer_list k). \<not> timer_expired (k_tick k) x k" by (simp add: due_def filter_empty_conv)
    then have "filter (\<lambda>m. \<not> timer_expired (k_tick k) m k) (k_timer_list k) = k_timer_list k" by simp
    moreover have "timer_check_loop cb (k_tick k) k = Some k"
      using False l by (subst timer_check_loop.simps) simp
    ultimately show ?thesis using Cons.prems(1) d by (auto simp: same_sleep_def)
  next
    case True
    obtain k1 where k1: "timer_check_loop cb (k_tick k) k = timer_check_loop cb (k_tick k1) k1" "kernel_inv half base k1"
        "k_tick k1 = k_tick k" "k_timer k1 = k_timer k" "k_timer_list k1 = ms" "k_firing k1 = []"
        "woken t k1" "\<forall>u. u \<noteq> t \<longrightarrow> same_sleep u k k1"
      using thread_timer_step [OF Cons.prems(1) l [unfolded m] Cons.prems(3) True [unfolded m]] by metis
    have ex: "timer_expired (k_tick k1) x k1 = timer_expired (k_tick k) x k" for x
      using k1(3,4) by (simp add: timer_expired_def)
    have "thread_timers k1" using Cons.prems(4) l k1(5) by (simp add: thread_timers_def)
    with Cons.hyps(1) [of k1] k1 Cons.prems(2) obtain k' where
      k': "timer_check_loop cb (k_tick k1) k1 = Some k'" "kernel_inv half base k'" "k_tick k' = k_tick k"
        "k_timer k' = k_timer k" "k_timer_list k' = filter (\<lambda>m. \<not> timer_expired (k_tick k1) m k1) ms"
      and w: "\<forall>t. if T_thread t \<in> set (due k1) then woken t k' else same_sleep t k1 k'"
      by (metis (no_types, lifting))
    have d: "T_thread u \<in> set (due k) \<longleftrightarrow> u = t \<or> T_thread u \<in> set (due k1)" for u
      using True l m k1(5) by (auto simp: due_def ex)
    have "if T_thread u \<in> set (due k) then woken u k' else same_sleep u k k'" for u
    proof (cases "T_thread u \<in> set (due k1)")
      case True
      then show ?thesis using w [rule_format, of u] by (simp add: d)
    next
      case False
      then have s: "same_sleep u k1 k'" using w [rule_format, of u] by simp
      show ?thesis
      proof (cases "u = t")
        case True
        with d woken_same [OF s] k1(7) show ?thesis by simp
      next
        case False
        with \<open>T_thread u \<notin> set (due k1)\<close> d s k1(8) show ?thesis by (simp add: same_sleep_def)
      qed
    qed
    moreover have "k_timer_list k' = filter (\<lambda>m. \<not> timer_expired (k_tick k) m k) (k_timer_list k)"
      using k'(5) True l ex by simp
    ultimately show ?thesis using k' k1(1) by metis
  qed
qed

lemma tick_thread_timers:
  assumes ok: "kernel_ok k" and tt: "thread_timers k"
  shows "\<exists>k'. rt_tick_increase cb k = Some k' \<and> kernel_ok k' \<and> thread_timers k' \<and> k_tick k' = k_tick k + 1 \<and>
    k_timer k' = k_timer k \<and>
    k_timer_list k' = filter (\<lambda>m. 1 < ticks_after (k_tick k) (timeout_of k m)) (k_timer_list k) \<and>
    (\<forall>t. if T_thread t \<in> set (k_timer_list k) \<and> ticks_after (k_tick k) (timeout_of k (T_thread t)) \<le> 1
         then woken t k' else suspended (stat t k') = suspended (stat t k) \<and> th_error (k_thread k' t) = th_error (k_thread k t))"
proof -
  have inv: "kernel_inv half (k_tick k) k"
    using ok by (auto simp: kernel_ok_def intro: kernel_inv_weaken)
  obtain k1 where k1: "tick_slice k = Some k1" "kernel_inv half (k_tick k) k1" "k_tick k1 = k_tick k + 1"
      "k_timer k1 = k_timer k" "k_timer_list k1 = k_timer_list k"
      "\<forall>u. suspended (stat u k1) = suspended (stat u k) \<and> th_error (k_thread k1 u) = th_error (k_thread k u)"
    using tick_slice_ok [OF inv] by blast
  let ?k = "k1\<lparr>k_firing := []\<rparr>"
  have i: "kernel_inv half (k_tick k) ?k" "thread_timers ?k" using k1 tt by (simp_all add: thread_timers_def)
  obtain k' where k': "timer_check_loop cb (k_tick ?k) ?k = Some k'" "kernel_inv half (k_tick k) k'" "k_tick k' = k_tick ?k"
      "k_timer k' = k_timer ?k" "k_timer_list k' = filter (\<lambda>m. \<not> timer_expired (k_tick ?k) m ?k) (k_timer_list ?k)"
      "\<forall>t. if T_thread t \<in> set (due ?k) then woken t k' else same_sleep t ?k k'"
    using thread_timers_loop [OF i(1) _ _ i(2), of cb] k1(3) by auto
  have ex: "timer_expired (k_tick ?k) m ?k \<longleftrightarrow> ticks_after (k_tick k) (timeout_of k m) \<le> 1" if "m \<in> set (k_timer_list k)" for m
  proof -
    have "ticks_after (k_tick k) (timeout_of ?k m) \<le> half"
      using kernel_invD(4) [OF inv] that k1(4) by (auto simp: tick_sorted_def)
    then show ?thesis using expired_iff [of ?k "k_tick k" m] k1(3,4) by simp
  qed
  have "due k' = []" using k'(3-5) by (auto simp: due_def timer_expired_def)
  then have "kernel_ok k'" using no_due_ok [OF k'(2)] k'(3) k1(3) by simp
  moreover have "rt_tick_increase cb k = Some k'"
    using k1(1,3) k'(1) by (simp add: tick_increase_eq rt_timer_check_def rt_tick_get_def)
  moreover have "k_timer_list k' = filter (\<lambda>m. 1 < ticks_after (k_tick k) (timeout_of k m)) (k_timer_list k)"
    using k'(5) ex k1(5) by (auto simp: not_le intro: filter_cong)
  moreover have "if T_thread t \<in> set (k_timer_list k) \<and> ticks_after (k_tick k) (timeout_of k (T_thread t)) \<le> 1
      then woken t k' else suspended (stat t k') = suspended (stat t k) \<and> th_error (k_thread k' t) = th_error (k_thread k t)" for t
  proof -
    have "T_thread t \<in> set (due ?k) \<longleftrightarrow>
        T_thread t \<in> set (k_timer_list k) \<and> ticks_after (k_tick k) (timeout_of k (T_thread t)) \<le> 1"
      using ex [of "T_thread t"] k1(5) by (auto simp: due_def)
    moreover have "same_sleep t ?k k' \<Longrightarrow>
        suspended (stat t k') = suspended (stat t k) \<and> th_error (k_thread k' t) = th_error (k_thread k t)"
      using k1(6) by (simp add: same_sleep_def)
    ultimately show ?thesis using k'(6) [rule_format, of t] by meson
  qed
  moreover have "thread_timers k'" using k'(5) i(2) by (auto simp: thread_timers_def)
  ultimately show ?thesis using k'(3,4) k1(3,4) by auto
qed

primrec rt_ticks :: "callbacks \<Rightarrow> nat \<Rightarrow> kernel \<Rightarrow> kernel option" where
  "rt_ticks cb 0 k = Some k"
| "rt_ticks cb (Suc n) k = Option.bind (rt_ticks cb n k) (rt_tick_increase cb)"

text \<open>A thread whose timer is \<open>d\<close> ticks away sleeps for \<open>d\<close> ticks (one, when \<open>d\<close> is 0).\<close>

lemma sleeping_until:
  assumes "kernel_ok k" "thread_timers k" "T_thread c \<in> set (k_timer_list k)"
    and "n < max 1 (ticks_after (k_tick k) (timeout_of k (T_thread c)))"
  shows "\<exists>k'. rt_ticks cb n k = Some k' \<and> kernel_ok k' \<and> thread_timers k' \<and> k_timer k' = k_timer k \<and>
    T_thread c \<in> set (k_timer_list k') \<and> k_tick k' = k_tick k + of_nat n"
  using assms(4)
proof (induction n)
  case 0
  with assms(1-3) show ?case by simp
next
  case (Suc n)
  then have "n < max 1 (ticks_after (k_tick k) (timeout_of k (T_thread c)))" by linarith
  with Suc.IH obtain k1 where k1: "rt_ticks cb n k = Some k1" "kernel_ok k1" "thread_timers k1" "k_timer k1 = k_timer k"
      "T_thread c \<in> set (k_timer_list k1)" "k_tick k1 = k_tick k + of_nat n"
    by blast
  let ?d = "ticks_after (k_tick k) (timeout_of k (T_thread c))"
  have "ticks_after (k_tick k1) (timeout_of k1 (T_thread c)) = ?d - n"
  proof -
    define a where "a = timeout_of k (T_thread c) - k_tick k"
    have "n < unat a" using Suc.prems by (auto simp: a_def ticks_after_def max_def split: if_splits)
    then have "unat (of_nat n :: u32) = n" using unsigned_less [where 'a = nat and w = a] by (simp add: unat_of_nat)
    with \<open>n < unat a\<close> have "unat (a - of_nat n) = unat a - n" by (simp add: unat_sub word_le_nat_alt)
    then show ?thesis by (simp add: ticks_after_def k1(4,6) a_def algebra_simps)
  qed
  then have far: "1 < ticks_after (k_tick k1) (timeout_of k1 (T_thread c))" using Suc.prems by simp
  obtain k2 where k2: "rt_tick_increase cb k1 = Some k2" "kernel_ok k2" "thread_timers k2" "k_tick k2 = k_tick k1 + 1"
      "k_timer k2 = k_timer k1"
      "k_timer_list k2 = filter (\<lambda>m. 1 < ticks_after (k_tick k1) (timeout_of k1 m)) (k_timer_list k1)"
    using tick_thread_timers [OF k1(2,3), of cb] by blast
  have "T_thread c \<in> set (k_timer_list k2)" using k2(6) k1(5) far by simp
  moreover have "k_tick k2 = k_tick k + of_nat (Suc n)" using k2(4) k1(6) by simp
  ultimately show ?case using k1(1,4) k2(1-3,5) by simp
qed

lemma wakes_at:
  assumes "kernel_ok k" "thread_timers k" "T_thread c \<in> set (k_timer_list k)"
    and "d = ticks_after (k_tick k) (timeout_of k (T_thread c))"
  shows "\<exists>k'. rt_ticks cb (max 1 d) k = Some k' \<and> kernel_ok k' \<and> woken c k'"
proof -
  obtain n where n: "max 1 d = Suc n" by (cases "max 1 d") auto
  then obtain k1 where k1: "rt_ticks cb n k = Some k1" "kernel_ok k1" "thread_timers k1" "k_timer k1 = k_timer k"
      "T_thread c \<in> set (k_timer_list k1)" "k_tick k1 = k_tick k + of_nat n"
    using sleeping_until [OF assms(1-3), of n cb] assms(4) by auto
  have "ticks_after (k_tick k1) (timeout_of k1 (T_thread c)) \<le> 1"
  proof (cases "d \<le> 1")
    case True
    with n have "n = 0" by simp
    with True k1(4,6) assms(4) show ?thesis by simp
  next
    case False
    define a where "a = timeout_of k (T_thread c) - k_tick k"
    have "Suc n = unat a" using n False assms(4) by (simp add: a_def ticks_after_def)
    then have "a = of_nat (Suc n)" by simp
    then have "a - of_nat n = 1" by simp
    then show ?thesis by (simp add: ticks_after_def k1(4,6) a_def algebra_simps)
  qed
  with tick_thread_timers [OF k1(2,3), of cb] k1(1,5) n show ?thesis by auto
qed

lemma thread_sleep_eq:
  assumes ok: "kernel_ok k" and c: "can_block c k" "lwp_suspend_sigcheck c RT_INTERRUPTIBLE k" and t: "tick < RT_TICK_HALF"
  shows "rt_thread_sleep tick k = Some (Reschedule (), arm_state c tick (suspend_state c RT_INTERRUPTIBLE k))"
    "kernel_ok (arm_state c tick (suspend_state c RT_INTERRUPTIBLE k))"
proof -
  have inv: "kernel_inv (half - 1) (k_tick k) k" using ok by (simp add: kernel_ok_def)
  have r: "running (stat c k)" "k_current k = Some c" "c \<noteq> idle_thread" using c(1) by (simp_all add: can_block_def)
  let ?k = "suspend_state c RT_INTERRUPTIBLE k"
  have s: "rt_thread_suspend_with_flag c RT_INTERRUPTIBLE k = Some (RT_EOK, ?k)"
    using suspend_with_flag_eq [OF inv _ c(2)] r by simp
  have ok2: "kernel_ok ?k" using suspend_state_inv [OF inv] r by (simp add: kernel_ok_def)
  have "arm_thread_timer c tick ?k = Some (arm_state c tick ?k)"
    using arm_eq [of _ _ ?k c tick] ok2 t unfolding kernel_ok_def by simp
  then show "rt_thread_sleep tick k = Some (Reschedule (), arm_state c tick ?k)"
    using s r inv_is_timer(1) [OF inv, of c] by (simp add: rt_thread_sleep_def rt_thread_self_def)
  show "kernel_ok (arm_state c tick ?k)" using arm_state_ok [OF ok2] t by simp
qed

lemma arm_state_list:
  assumes "\<not> soft (T_thread c) k"
  shows "T_thread c \<in> set (k_timer_list (arm_state c tick k))"
    "set (k_timer_list (arm_state c tick k)) \<subseteq> insert (T_thread c) (set (k_timer_list k))"
    "timeout_of (arm_state c tick k) (T_thread c) = k_tick k + tick"
proof -
  let ?k = "upd_timer (T_thread c) (init_tick_update (\<lambda>_. tick)) k"
  have "\<not> soft (T_thread c) ?k" using assms by (simp add: soft_def upd_timer_def)
  from start_state_list [OF this]
  show "T_thread c \<in> set (k_timer_list (arm_state c tick k))"
    "set (k_timer_list (arm_state c tick k)) \<subseteq> insert (T_thread c) (set (k_timer_list k))"
    unfolding arm_state_def by (auto simp: upd_timer_def)
  show "timeout_of (arm_state c tick k) (T_thread c) = k_tick k + tick"
    by (simp add: arm_state_def) (simp add: upd_timer_def)
qed

lemma ceil_tenth: "100 * (ms div 1000) + (100 * (ms mod 1000) + 999) div 1000 = (ms + 9) div (10 :: int)"
proof -
  have "(100 * r + 999) div 1000 = (r + 9) div (10 :: int)" for r
    using zdiv_zmult2_eq [of 10 "100 * r + 999" 100] by simp
  moreover have "(ms + 9) div 10 = 100 * (ms div 1000) + (ms mod 1000 + 9) div 10"
    using div_mult_self1 [of 10 "ms mod 1000 + 9" "100 * (ms div 1000)"] div_mult_mod_eq [of ms 1000]
    by (simp add: algebra_simps)
  ultimately show ?thesis by simp
qed

section \<open>Properties\<close>

text \<open>C3: A tick interrupt keeps the kernel invariant: if the user timeout functions keep their
  contract, \<open>rt_tick_increase\<close> returns, no assertion fails and no timer is left due, although the
  counter wraps around and periodic timers are started again on the way.\<close>

theorem tick_keeps_invariant:
  assumes "callbacks_ok cb" "kernel_ok k"
  shows "\<exists>k'. rt_tick_increase cb k = Some k' \<and> kernel_ok k' \<and> k_tick k' = k_tick k + 1 \<and> due k' = []"
  using timer_clients.tick [OF any_clients [OF assms(1)] assms(2)] by simp

text \<open>A timeout function that sets a bit of an event.\<close>

definition set_bit_callback :: callbacks where
  "set_bit_callback f p k = Some (k\<lparr>k_event := (k_event k)(p := k_event k p OR 1)\<rparr>)"

lemma set_bit_callback_ok: "callbacks_ok set_bit_callback"
proof -
  have "rearmable m (k\<lparr>k_event := e\<rparr>) = rearmable m k" "due (k\<lparr>k_event := e\<rparr>) = due k" for m k e
    by (simp_all add: rearmable_def is_timer_def rt_object_get_type_def soft_def periodic_def due_def timer_expired_def
        cong: timer_ref.case_cong)
  then show ?thesis by (simp add: callbacks_ok_def set_bit_callback_def)
qed

theorem tick_keeps_invariant_witness:
  "\<exists>k'. rt_tick_increase set_bit_callback (waiting_kernel (Sem_q 0)) = Some k' \<and> kernel_ok k' \<and> k_tick k' = 1"
  using tick_keeps_invariant [OF set_bit_callback_ok waiting_kernel_ok, of "Sem_q 0"] by auto

text \<open>C4: A sleeping thread wakes up exactly on time, if nothing but tick interrupts happens after the switch. A
  thread without a pending signal calls \<open>rt_thread_sleep (tick)\<close> for less than \<open>2^31\<close> ticks, the scheduler is not locked, and every timer that is
  running is the timer of a thread (no timeout function of a user timer can wake it early). The scheduler
  switches away; for fewer than \<open>tick\<close> ticks (fewer than one when \<open>tick\<close> is 0) the thread stays
  suspended, and after that many it is ready or running with the error \<open>-RT_ETIMEOUT\<close>, also when the tick
  counter wraps around. The kernel invariant holds throughout.\<close>

theorem sleep_wakes_on_time:
  assumes "kernel_ok k" "thread_timers k" "can_block c k" "k_lock_nest k = 0"
    and "lwp_suspend_sigcheck c RT_INTERRUPTIBLE k" "tick < RT_TICK_HALF"
  shows "\<exists>k1 k2. rt_thread_sleep tick k = Some (Reschedule (), k1) \<and> rt_schedule k1 = Some k2 \<and>
    k_current k2 \<noteq> Some c \<and>
    (\<forall>n < max 1 (unat tick). \<exists>k'. rt_ticks cb n k2 = Some k' \<and> kernel_ok k' \<and> suspended (stat c k')) \<and>
    (\<exists>k'. rt_ticks cb (max 1 (unat tick)) k2 = Some k' \<and> kernel_ok k' \<and> woken c k')"
proof -
  let ?s = "suspend_state c RT_INTERRUPTIBLE k"
  let ?k1 = "arm_state c tick ?s"
  note sl = thread_sleep_eq [OF assms(1,3,5,6)]
  have inv: "kernel_inv (half - 1) (k_tick k) k" using assms(1) by (simp add: kernel_ok_def)
  have r: "running (stat c k)" using assms(3) by (simp add: can_block_def)
  have "\<not> soft (T_thread c) k" using inv_is_timer(3) [OF inv, of c] r by simp
  then have "\<not> soft (T_thread c) ?s" using suspend_state_from(1) [OF inv, of c] by (simp add: timers_from_def)
  note al = arm_state_list [OF this, of tick]
  obtain k2 where k2: "rt_schedule ?k1 = Some k2" "kernel_inv (half - 1) (k_tick ?k1) k2" "k_core k2 = k_core ?k1"
      "\<exists>x. k_current k2 = Some x \<and> running (stat x k2)"
    using schedule_inv [of "half - 1" "k_tick ?k1" ?k1] sl(2) assms(4)
    unfolding kernel_ok_def by (metis arm_state_frame(5) suspend_state_core(2))
  note co = k_core_fields [OF k2(3)]
  have s2: "suspended (stat c k2)"
    using rt_schedule_stat(1) [OF kernel_invD(1) k2(1), of _ _ c] sl(2) unfolding kernel_ok_def by auto
  have ok2: "kernel_ok k2" using k2(2) co(4) by (simp add: kernel_ok_def)
  have tt: "thread_timers k2" using al(2) assms(2) subseq_set [of "k_timer_list ?s" "k_timer_list k"]
    suspend_state_from(1) [OF inv, of c] by (auto simp: thread_timers_def co timers_from_def)
  have m: "T_thread c \<in> set (k_timer_list k2)" using al(1) co by simp
  have d: "ticks_after (k_tick k2) (timeout_of k2 (T_thread c)) = unat tick"
    using al(3) co by (simp add: ticks_after_self)
  have "\<exists>k'. rt_ticks cb n k2 = Some k' \<and> kernel_ok k' \<and> suspended (stat c k')" if early: "n < max 1 (unat tick)" for n
  proof -
    obtain k' where k': "rt_ticks cb n k2 = Some k'" "kernel_ok k'" "T_thread c \<in> set (k_timer_list k')"
      using sleeping_until [OF ok2 tt m, of n cb] early unfolding d by blast
    then have "suspended (stat c k')"
      using kernel_invD(5) [of "half - 1" "k_tick k'" k' "T_thread c"] by (simp add: kernel_ok_def timer_ok_def)
    with k' show ?thesis by blast
  qed
  moreover have "k_current k2 \<noteq> Some c" using k2(4) s2 by (auto dest: stat_exclusive)
  ultimately show ?thesis using sl(1) k2(1) wakes_at [OF ok2 tt m d [symmetric], of cb] by blast
qed

theorem sleep_wakes_on_time_witness:
  "\<exists>k1 k2. rt_thread_sleep 5 (waiting_kernel (Sem_q 0)) = Some (Reschedule (), k1) \<and> rt_schedule k1 = Some k2 \<and>
    (\<exists>k'. rt_ticks set_bit_callback 4 k2 = Some k' \<and> suspended (stat 2 k')) \<and>
    (\<exists>k'. rt_ticks set_bit_callback 5 k2 = Some k' \<and> woken 2 k')"
proof -
  let ?k = "waiting_kernel (Sem_q 0)"
  have "thread_timers ?k" by (simp add: thread_timers_def waiting_kernel_def kernel0_def)
  moreover have m: "max 1 (unat (5 :: u32)) = 5" by simp
  ultimately obtain k1 k2 where "rt_thread_sleep 5 ?k = Some (Reschedule (), k1)" "rt_schedule k1 = Some k2"
      and b: "\<forall>n < 5. \<exists>k'. rt_ticks set_bit_callback n k2 = Some k' \<and> kernel_ok k' \<and> suspended (stat 2 k')"
      and w: "\<exists>k'. rt_ticks set_bit_callback 5 k2 = Some k' \<and> kernel_ok k' \<and> woken 2 k'"
    using sleep_wakes_on_time [OF waiting_kernel_ok, of "Sem_q 0" 2 5 set_bit_callback, unfolded m] by auto
  moreover have "\<exists>k'. rt_ticks set_bit_callback 4 k2 = Some k' \<and> suspended (stat 2 k')"
    using b [THEN spec, of 4] by simp blast
  ultimately show ?thesis by blast
qed

text \<open>C38: A sleep of one tick with a signal pending halts the system, if no timer is running and the next tick interrupt comes
  before anything else happens, that is, when \<open>rt_thread_sleep\<close> enables interrupts before its \<open>rt_schedule\<close>. The suspension fails with
  \<open>-RT_EINTR\<close>, which \<open>rt_thread_sleep\<close> ignores: it starts the thread timer although the thread keeps
  running, so when the timer fires the assertion in \<open>rt_thread_timeout\<close> that the thread is suspended
  fails.\<close>

theorem sleep_pending_signal_halts:
  assumes "kernel_ok k" "can_block c k" "\<not> lwp_suspend_sigcheck c RT_INTERRUPTIBLE k" "k_timer_list k = []"
  shows "\<exists>k'. rt_thread_sleep 1 k = Some (Reschedule (), k') \<and> running (stat c k') \<and> rt_tick_increase cb k' = None"
proof -
  have inv: "kernel_inv (half - 1) (k_tick k) k" using assms(1) by (simp add: kernel_ok_def)
  have r: "running (stat c k)" "k_current k = Some c" using assms(2) by (simp_all add: can_block_def)
  note T = inv_is_timer [OF inv, of c]
  have th: "thread_timer_ok c k" using kernel_invD(6) [OF inv, of c] r by simp
  let ?m = "T_thread c" and ?k = "arm_state c 1 k"
  let ?ks = "upd_timer ?m (init_tick_update (\<lambda>_. 1)) k"
  have "rt_thread_suspend_with_flag c RT_INTERRUPTIBLE k = Some (- RT_EINTR, k)"
    using suspend_fails [of c k RT_INTERRUPTIBLE] T(1) r assms(3) by simp
  moreover have "rt_timer_start ?m ?ks = Some (RT_EOK, start_state ?m ?ks)"
    using T r by (intro timer_start_eq)
      (simp_all add: upd_timer_def is_timer_def rt_object_get_type_def soft_def)
  ultimately have sleep: "rt_thread_sleep 1 k = Some (Reschedule (), ?k)"
    using r T(1,2) by (simp add: rt_thread_sleep_def rt_thread_self_def arm_thread_timer_def rt_timer_control_def arm_state_def)
  have "\<not> soft ?m k" using T r by simp
  note al = arm_state_list [OF this, of 1]
  have "k_timer_list ?k \<noteq> []" "set (k_timer_list ?k) \<subseteq> {?m}" using al(1,2) assms(4) by auto
  then obtain ms where l: "k_timer_list ?k = ?m # ms" by (cases "k_timer_list ?k") auto
  have tf: "timeout_func (k_timer ?k ?m) = Rt_thread_timeout" "parameter (k_timer ?k ?m) = c"
    using th by (simp_all add: thread_timer_ok_def arm_state_def) (simp_all add: upd_timer_def)
  have "rt_tick_increase cb ?k = None"
  proof (cases "tick_slice ?k")
    case (Some k1)
    have sch: "sched_ok {} ?k" using kernel_invD(1) [OF inv] by (subst sched_ok_cong [of _ k]) simp_all
    have f: "k_tick k1 = k_tick k + 1" "k_timer k1 = k_timer ?k" "k_timer_list k1 = k_timer_list ?k" "\<not> suspended (stat c k1)"
      using tick_slice_frame(1-3) [OF Some sch] tick_slice_frame(4) [OF Some sch, of c] r by (auto dest: stat_exclusive)
    have "timer_expired (k_tick k1) ?m (k1\<lparr>k_firing := []\<rparr>)"
      using f al(3) by (simp add: timer_expired_def)
    moreover have "run_timeout cb ?m (fire_state ?m (k1\<lparr>k_firing := []\<rparr>)) = None"
      using f(2,4) tf by (simp add: run_timeout_def rt_thread_timeout_def suspended_def)
    moreover have "(timer_unlink_fired ?m k)\<lparr>k_firing := ?m # k_firing (timer_unlink_fired ?m k)\<rparr> = fire_state ?m k" for k
      by (simp add: fire_state_def)
    ultimately have "timer_check_loop cb (k_tick k1) (k1\<lparr>k_firing := []\<rparr>) = None"
      using f(3) l by (subst timer_check_loop.simps) (simp add: Let_def)
    with Some show ?thesis by (simp add: tick_increase_eq rt_timer_check_def rt_tick_get_def)
  qed (simp add: tick_increase_eq)
  with sleep r show ?thesis by auto
qed

theorem sleep_pending_signal_halts_witness:
  "\<exists>k'. rt_thread_sleep 1 (upd_thread 2 (th_signal_update (\<lambda>_. 1)) (waiting_kernel (Sem_q 0))) = Some (Reschedule (), k') \<and>
    rt_tick_increase set_bit_callback k' = None"
proof -
  let ?k = "upd_thread 2 (th_signal_update (\<lambda>_. 1)) (waiting_kernel (Sem_q 0))"
  have "kernel_inv n base ?k = kernel_inv n base (waiting_kernel (Sem_q 0))" for n base
    by (rule kernel_inv_cong) (simp_all add: upd_thread_def)
  then have "kernel_ok ?k" using waiting_kernel_ok [of "Sem_q 0"] by (simp add: kernel_ok_def upd_thread_def)
  moreover have "can_block 2 ?k" by (simp add: can_block_def upd_thread_def)
  moreover have "\<not> lwp_suspend_sigcheck 2 RT_INTERRUPTIBLE ?k" "k_timer_list ?k = []"
    by (simp_all add: lwp_suspend_sigcheck_def lwp_sigisemptyset_def upd_thread_def)
      (simp add: waiting_kernel_def kernel0_def)
  ultimately show ?thesis using sleep_pending_signal_halts [of ?k 2 set_bit_callback] by blast
qed

text \<open>\<open>rt_tick_from_millisecond\<close> rounds up to whole ticks of 10 ms without overflow, for the whole
  documented range of its argument.\<close>

theorem tick_from_millisecond_correct:
  assumes "0 \<le> ms" "ms \<le> 0x7fffffff"
  shows "uint (rt_tick_from_millisecond ms) = (ms + 9) div 10"
proof -
  have q: "0 \<le> ms div 1000" "ms div 1000 \<le> 2147483" "0 \<le> ms mod 1000" "ms mod 1000 < 1000"
    using assms by (auto simp: div_le_mono)
  let ?a = "RT_TICK_PER_SECOND * word_of_int (ms div 1000)" and ?b = "RT_TICK_PER_SECOND * word_of_int (ms mod 1000) + 999 :: u32"
  have a: "uint ?a = 100 * (ms div 1000)" and b: "uint ?b = 100 * (ms mod 1000) + 999"
    using q by (simp_all add: uint_word_ariths uint_word_of_int)
  have "uint (?b div 1000) = (100 * (ms mod 1000) + 999) div 1000" using b by (simp add: uint_div)
  moreover have "(100 * (ms mod 1000) + 999) div 1000 \<le> 100" using q by simp
  ultimately have "uint (?a + ?b div 1000) = 100 * (ms div 1000) + (100 * (ms mod 1000) + 999) div 1000"
    using a q by (subst uint_plus_if') (simp add: b)
  also have "\<dots> = (ms + 9) div 10" by (rule ceil_tenth)
  finally show ?thesis using assms(1) by (simp add: rt_tick_from_millisecond_def Let_def)
qed

theorem tick_from_millisecond_correct_witness: "uint (rt_tick_from_millisecond 25) = 3"
  using tick_from_millisecond_correct [of 25] by simp

text \<open>A negative delay halts the system: the comment on \<open>rt_tick_from_millisecond\<close> reads a negative
  number as waiting for ever, but \<open>rt_thread_mdelay\<close> passes the result on as a timer period, which
  \<open>rt_timer_start\<close> rejects with a failed assertion.\<close>

theorem mdelay_negative_halts:
  assumes "kernel_ok k" "can_block c k" "lwp_suspend_sigcheck c RT_INTERRUPTIBLE k" "ms < 0"
  shows "rt_thread_mdelay ms k = None"
proof -
  have inv: "kernel_inv (half - 1) (k_tick k) k" using assms(1) by (simp add: kernel_ok_def)
  have r: "running (stat c k)" "k_current k = Some c" using assms(2) by (simp_all add: can_block_def)
  let ?k = "suspend_state c RT_INTERRUPTIBLE k"
  have s: "rt_thread_suspend_with_flag c RT_INTERRUPTIBLE k = Some (RT_EOK, ?k)"
    using suspend_with_flag_eq [OF inv _ assms(3)] r by simp
  have "rt_timer_start (T_thread c) (upd_timer (T_thread c) (init_tick_update (\<lambda>_. RT_TICK_MAX)) ?k) = None"
    by (simp add: rt_timer_start_def timer_op_defs Let_def RT_ASSERT_def)
  then show ?thesis
    using s r assms(4)
    by (simp add: rt_thread_mdelay_def rt_thread_sleep_def rt_thread_self_def arm_thread_timer_def rt_timer_control_def
        rt_tick_from_millisecond_def RT_ASSERT_def)
qed

theorem mdelay_negative_halts_witness: "rt_thread_mdelay (- 1) (waiting_kernel (Sem_q 0)) = None"
  using mdelay_negative_halts [OF waiting_kernel_ok, of 2 "Sem_q 0" "- 1"] by simp

end
