(* ===== verification/Frame.thy ===== *)
theory Frame
  imports Msgqueue Ticks
begin

text \<open>
  What the kernel calls leave alone. Every call of \<^verbatim>\<open>src/ipc.c\<close> works on one object and its
  wait lists; on the rest of the kernel it only takes threads off wait lists, makes
  threads ready, and sets error fields. The lemmas hold for every state in which the
  call returns, without the invariant.
\<close>

section \<open>The frame\<close>

text \<open>\<open>frame c W k k'\<close>: the step from \<open>k\<close> to \<open>k'\<close>, done by thread \<open>c\<close>, touches no object but those
  with a wait list in \<open>W\<close>.\<close>

definition frame :: "tid \<Rightarrow> waitq set \<Rightarrow> kernel \<Rightarrow> kernel \<Rightarrow> bool" where
  "frame c W k k' \<longleftrightarrow>
    (\<forall>r. obj_type (k_obj k' r) = obj_type (k_obj k r)) \<and>
    (\<forall>r. (\<forall>m. r \<noteq> O_timer m) \<longrightarrow> obj_flag (k_obj k' r) = obj_flag (k_obj k r)) \<and>
    (\<forall>v. v \<notin> W \<longrightarrow> set (k_queue k' (Wait v)) \<subseteq> set (k_queue k (Wait v))) \<and>
    (\<forall>e t. Event_q e \<notin> W \<longrightarrow> t \<noteq> c \<longrightarrow> t \<in> set (k_queue k' (Wait (Event_q e))) \<longrightarrow>
      th_event_set (k_thread k' t) = th_event_set (k_thread k t) \<and>
      th_event_info (k_thread k' t) = th_event_info (k_thread k t)) \<and>
    (\<forall>t. live (stat t k) \<longrightarrow> live (stat t k')) \<and>
    (\<forall>s. Sem_q s \<notin> W \<longrightarrow> k_sem k' s = k_sem k s) \<and> (\<forall>m. Mutex_q m \<notin> W \<longrightarrow> k_mutex k' m = k_mutex k m) \<and>
    (\<forall>e. Event_q e \<notin> W \<longrightarrow> k_event k' e = k_event k e) \<and> (\<forall>m. Mb_recv_q m \<notin> W \<longrightarrow> k_mb k' m = k_mb k m) \<and>
    (\<forall>m. Mq_recv_q m \<notin> W \<longrightarrow> k_mq k' m = k_mq k m) \<and> (\<forall>m. mq_msg_size (k_mq k' m) = mq_msg_size (k_mq k m)) \<and>
    k_lock_nest k' = k_lock_nest k \<and> k_interrupt_nest k' = k_interrupt_nest k"

lemma frame_refl [simp]: "frame c W k k"
  by (simp add: frame_def)

lemma frameD:
  assumes "frame c W k k'"
  shows "obj_type (k_obj k' r) = obj_type (k_obj k r)"
    "(\<And>m. r \<noteq> O_timer m) \<Longrightarrow> obj_flag (k_obj k' r) = obj_flag (k_obj k r)"
    "v \<notin> W \<Longrightarrow> set (k_queue k' (Wait v)) \<subseteq> set (k_queue k (Wait v))"
    "Event_q e \<notin> W \<Longrightarrow> t \<noteq> c \<Longrightarrow> t \<in> set (k_queue k' (Wait (Event_q e))) \<Longrightarrow>
       th_event_set (k_thread k' t) = th_event_set (k_thread k t)"
    "Event_q e \<notin> W \<Longrightarrow> t \<noteq> c \<Longrightarrow> t \<in> set (k_queue k' (Wait (Event_q e))) \<Longrightarrow>
       th_event_info (k_thread k' t) = th_event_info (k_thread k t)"
    "live (stat t k) \<Longrightarrow> live (stat t k')"
    "Sem_q i \<notin> W \<Longrightarrow> k_sem k' i = k_sem k i" "Mutex_q i \<notin> W \<Longrightarrow> k_mutex k' i = k_mutex k i"
    "Event_q i \<notin> W \<Longrightarrow> k_event k' i = k_event k i" "Mb_recv_q i \<notin> W \<Longrightarrow> k_mb k' i = k_mb k i"
    "Mq_recv_q i \<notin> W \<Longrightarrow> k_mq k' i = k_mq k i"
    "k_lock_nest k' = k_lock_nest k" "k_interrupt_nest k' = k_interrupt_nest k"
    "mq_msg_size (k_mq k' i) = mq_msg_size (k_mq k i)"
  using assms unfolding frame_def by blast+

lemma frame_trans [trans]:
  assumes 1: "frame c W k k'" and 2: "frame c W k' k''"
  shows "frame c W k k''"
  unfolding frame_def
proof (intro conjI allI impI)
  fix v :: waitq assume "v \<notin> W"
  then show "set (k_queue k'' (Wait v)) \<subseteq> set (k_queue k (Wait v))"
    using frameD(3) [OF 1] frameD(3) [OF 2] by blast
next
  fix e t assume e: "Event_q e \<notin> W" "t \<noteq> c" "t \<in> set (k_queue k'' (Wait (Event_q e)))"
  then have "t \<in> set (k_queue k' (Wait (Event_q e)))" using frameD(3) [OF 2] by blast
  with e show "th_event_set (k_thread k'' t) = th_event_set (k_thread k t)" "th_event_info (k_thread k'' t) = th_event_info (k_thread k t)"
    by (simp_all add: frameD(4,5) [OF 1] frameD(4,5) [OF 2])
qed (simp_all add: frameD [OF 1] frameD [OF 2])

lemma frame_mono: "frame c W k k' \<Longrightarrow> W \<subseteq> W' \<Longrightarrow> frame c W' k k'"
  unfolding frame_def by blast

section \<open>Thread and timer operations\<close>

lemma live_stat [simp]:
  "live (with_stat RT_THREAD_READY s)" "live (with_stat RT_THREAD_RUNNING s)"
  by simp_all

lemma frame_set_error [simp]: "frame c W k (set_error t e k)"
  by (simp add: frame_def)

lemma frame_insert_thread [simp]: "frame c W k (rt_schedule_insert_thread t k)"
  unfolding frame_def
proof (intro conjI allI impI)
  show "live (stat u (rt_schedule_insert_thread t k))" if "live (stat u k)" for u
    using that insert_thread_fields(12) [of u t k] by (cases "u = t") (metis insert_thread_fields(18) live_simps(1,2), simp)
  show "set (k_queue (rt_schedule_insert_thread t k) (Wait v)) \<subseteq> set (k_queue k (Wait v))" for v
    by (auto simp: rt_schedule_insert_thread_def k_upd_defs Let_def)
  show "k_lock_nest (rt_schedule_insert_thread t k) = k_lock_nest k"
    by (auto simp: rt_schedule_insert_thread_def k_upd_defs Let_def)
qed (simp_all add: rt_schedule_insert_thread_def k_upd_defs Let_def)

lemma frame_remove_thread [simp]: "frame c W k (rt_schedule_remove_thread t k)"
  by (auto simp: frame_def rt_schedule_remove_thread_def k_upd_defs Let_def)

lemma frame_tlist_remove [simp]: "frame c W k (tlist_remove t k)"
  by (auto simp: frame_def tlist_remove_def q_unlink_def)

lemma frame_stop_timer [simp]: "frame c W k (stop_timer m k)"
  by (simp add: frame_def)

lemma frame_suspend_stat [simp]: "frame c W k (rt_thread_set_suspend_state t f k)"
  unfolding frame_def
proof (intro conjI allI impI)
  show "live (stat u (rt_thread_set_suspend_state t f k))" if "live (stat u k)" for u
    using that by (cases "u = t") simp_all
qed (simp_all add: rt_thread_set_suspend_state_def k_upd_defs)

lemma frame_wakeup_func [simp]: "frame c W k (upd_thread t (th_wakeup_func_update f) k)"
  by (simp add: frame_def upd_thread_def)

lemma frame_timer_stop: "rt_timer_stop m k = Some (r, k') \<Longrightarrow> frame c W k k'"
  using rt_timer_stop_eq [of m k] by (cases "is_timer m k") (auto simp: rt_timer_stop_def)

lemma frame_suspend:
  "rt_thread_suspend_with_flag t f k = Some (r, k') \<Longrightarrow> frame c W k k'"
  by (auto simp: rt_thread_suspend_with_flag_def bind_eq_Some_conv Let_def split: if_splits
      intro: frame_trans [OF frame_trans [OF frame_remove_thread frame_suspend_stat] frame_timer_stop])

lemma frame_resume: "rt_thread_resume t k = Some (r, k') \<Longrightarrow> frame c W k k'"
  by (auto simp: rt_thread_resume_def bind_eq_Some_conv Let_def split: if_splits
      intro: frame_trans [OF frame_trans [OF frame_tlist_remove frame_timer_stop]
        frame_trans [OF frame_wakeup_func frame_insert_thread]])

lemma frame_set_priority [simp]: "frame c W k (set_priority t p k)"
  by (simp add: frame_def set_priority_def upd_thread_def)

lemma frame_change_priority:
  "rt_thread_control t (RT_THREAD_CTRL_CHANGE_PRIORITY p) k = Some (r, k') \<Longrightarrow> frame c W k k'"
  by (auto simp: rt_thread_control_def bind_eq_Some_conv Let_def split: if_splits
      intro: frame_trans [OF frame_trans [OF frame_remove_thread frame_set_priority] frame_insert_thread])

section \<open>Wait lists\<close>

lemma frame_list_suspend:
  assumes inv: "kernel_inv n base k" and t: "ready (stat t k) \<or> running (stat t k)"
    and flag: "flag \<in> {RT_IPC_FLAG_FIFO, RT_IPC_FLAG_PRIO}"
    and s: "rt_ipc_list_suspend w t flag sf k = Some (r, k')"
  shows "frame c {w} k k'"
proof -
  have "k' = block_state w flag t sf k \<or> k' = k"
    using ipc_list_suspend_eq [OF inv t flag, of w sf] s by (auto split: if_splits)
  moreover have "frame c {w} k (block_state w flag t sf k)"
    unfolding frame_def
  proof (intro conjI allI impI)
    show "live (stat u (block_state w flag t sf k))" if "live (stat u k)" for u
      using that by (cases "u = t") simp_all
  qed auto
  ultimately show ?thesis by auto
qed

lemma frame_list_resume: "rt_ipc_list_resume w k = Some (r, k') \<Longrightarrow> frame c W k k'"
  by (auto simp: rt_ipc_list_resume_def bind_eq_Some_conv Let_def split: list.splits
      intro: frame_trans [OF frame_set_error frame_resume])

lemma frame_list_resume_all:
  assumes "rt_ipc_list_resume_all w k = Some (r, k')"
  shows "frame c W k k'"
proof -
  have "frame c W k (snd y)" if "rt_ipc_list_resume_all w k = Some y" for y
  proof (rule rt_ipc_list_resume_all.raw_induct [where P = "\<lambda>w k y. frame c W k (snd y)", OF _ that])
    fix f :: "waitq \<Rightarrow> kernel \<Rightarrow> (rt_err_t \<times> kernel) option" and w k y
    assume IH: "\<And>w k y. f w k = Some y \<Longrightarrow> frame c W k (snd y)"
      and e: "(case k_queue k (Wait w) of [] \<Rightarrow> Some (RT_EOK, k)
        | t # x \<Rightarrow> let k = set_error t (- RT_ERROR) k in rt_thread_resume t k \<bind> (\<lambda>(_, k). f w k)) = Some y"
    show "frame c W k (snd y)"
    proof (cases "k_queue k (Wait w)")
      case Nil
      with e show ?thesis by auto
    next
      case (Cons t ts)
      with e obtain r1 k1 where "rt_thread_resume t (set_error t (- RT_ERROR) k) = Some (r1, k1)" "f w k1 = Some y"
        by (auto simp: Let_def bind_eq_Some_conv)
      from frame_trans [OF frame_set_error frame_trans [OF frame_resume [OF this(1)] IH [OF this(2)]]]
      show ?thesis .
    qed
  qed
  with assms show ?thesis by force
qed

lemma frame_timer_control:
  "rt_timer_control m (RT_TIMER_CTRL_SET_TIME x) k = Some (r, k') \<Longrightarrow> frame c W k k'"
  by (auto simp: rt_timer_control_def bind_eq_Some_conv frame_def upd_timer_def)

lemma frame_start_state [simp]: "frame c W k (start_state m k)"
  unfolding frame_def
proof (intro conjI allI impI)
  fix r assume "\<forall>x. r \<noteq> O_timer x"
  then show "obj_flag (k_obj (start_state m k) r) = obj_flag (k_obj k r)"
    by (simp add: start_state_def timer_op_defs Let_def)
qed simp_all

lemma frame_arm_state [simp]: "frame c W k (arm_state t x k)"
proof -
  have "frame c W k (upd_timer (T_thread t) (init_tick_update (\<lambda>_. x)) k)" by (simp add: frame_def upd_timer_def)
  then show ?thesis unfolding arm_state_def by (rule frame_trans) simp
qed

lemma frame_arm:
  assumes "kernel_inv n base k" "suspended (stat t k)" "arm_if_positive t x k = Some k'" "sint x < 0x7fffffff"
  shows "frame c W k k'"
  using assms arm_eq [OF assms(1,2) positive_time, of x] by (auto simp: arm_if_positive_def split: if_splits)

section \<open>Scheduling and the tick\<close>

lemma frame_core:
  assumes "k_core k' = k_core k" "\<And>t. live (stat t k) \<Longrightarrow> live (stat t k')"
    and "\<And>v. set (k_queue k' (Wait v)) \<subseteq> set (k_queue k (Wait v))"
  shows "frame c W k k'"
  using k_core_fields [OF assms(1)] k_core_thread(5,6) [OF assms(1)] assms(2,3) by (simp add: frame_def)

lemma frame_schedule:
  assumes "kernel_inv n base k" "rt_schedule k = Some k'"
  shows "frame c W k k'"
proof (rule frame_core)
  show "k_core k' = k_core k" by (rule rt_schedule_core [OF assms(2)])
  show "live (stat t k')" if "live (stat t k)" for t
    using that rt_schedule_stat(2,3) [OF kernel_invD(1) [OF assms(1)] assms(2), of t] by (simp add: live_def)
  show "set (k_queue k' (Wait v)) \<subseteq> set (k_queue k (Wait v))" for v
    using schedule_inv [OF assms(1)] assms(2) by auto
qed

lemma frame_tick_slice:
  assumes inv: "kernel_inv n base k" and s: "tick_slice k = Some k'"
  shows "frame c W k k'"
proof -
  obtain t where t: "k_current k = Some t" using kernel_invD(2) [OF inv] by (auto simp: cpu_ok_def)
  let ?k1 = "upd_thread t (th_remaining_tick_update (\<lambda>r. r - 1)) (k\<lparr>k_tick := k_tick k + 1\<rparr>)"
  let ?k2 = "upd_thread t (\<lambda>th. th\<lparr>th_remaining_tick := th_init_tick th\<rparr>) ?k1"
  let ?k3 = "set_stat t (stat t ?k2 OR RT_THREAD_STAT_YIELD) ?k2"
  have f1: "frame c W k ?k1" by (simp add: frame_def upd_thread_def)
  have f3: "frame c W k ?k3" by (simp add: frame_def upd_thread_def set_stat_def live_def)
  have i3: "kernel_inv n base ?k3" using inv by (simp add: yield_inv)
  have "k' = ?k1 \<or> rt_schedule ?k3 = Some k'"
    using s t by (auto simp: tick_slice_def rt_thread_self_def Let_def split: if_splits)
  then show ?thesis using f1 frame_trans [OF f3 frame_schedule [OF i3]] by auto
qed

lemma frame_thread_timeout:
  assumes inv: "kernel_inv n base k" and t: "suspended (stat t k)" "T_thread t \<notin> set (k_timer_list k)"
    and r: "rt_thread_timeout t k = Some k'"
  shows "frame c W k k'"
proof -
  have "frame c W k (wake_state t k)"
    unfolding wake_state_def by (rule frame_trans [OF frame_set_error frame_trans [OF frame_tlist_remove frame_insert_thread]])
  moreover have "rt_schedule (wake_state t k) = Some k'"
    using r by (auto simp: rt_thread_timeout_def wake_state_def Let_def bind_eq_Some_conv)
  ultimately show ?thesis using frame_schedule [OF wake_state_inv [OF inv t]] frame_trans by blast
qed

lemma frame_timer_ops [simp]:
  "frame c W k (timer_remove m k)" "frame c W k (clear_activated m k)" "frame c W k (k\<lparr>k_firing := fs\<rparr>)"
  "frame c W k (fire_state m k)"
proof -
  show 1: "frame c W k (timer_remove m k)" "frame c W k (clear_activated m k)" "frame c W k (k\<lparr>k_firing := fs\<rparr>)" for k fs
    by (simp_all add: frame_def timer_remove_def clear_activated_def upd_obj_def)
  have "frame c W k (timer_unlink_fired m k)"
    using 1(1) frame_trans [OF 1(1) 1(2)] by (simp add: timer_unlink_fired_def Let_def)
  then show "frame c W k (fire_state m k)" unfolding fire_state_def using 1(3) frame_trans by blast
qed

lemma frame_rearm:
  assumes r: "rearmable m k" and s: "timer_rearm m k = Some k'"
  shows "frame c W k k'"
proof -
  let ?k1 = "timer_remove m k" and ?k2 = "clear_activated m (timer_remove m k)"
  have f: "frame c W k ?k1" "frame c W k ?k2" by (simp_all add: frame_trans [OF frame_timer_ops(1) frame_timer_ops(2)])
  have so: "\<not> soft m ?k2" using r by (simp add: rearmable_def) (simp add: soft_def)
  have "k' = ?k1 \<or> (\<exists>e. rt_timer_start m ?k2 = Some (e, k'))"
    using s by (auto simp: timer_rearm_def Let_def split: if_splits)
  moreover have "k' = start_state m ?k2" if "rt_timer_start m ?k2 = Some (e, k')" for e
  proof -
    have "is_timer m ?k2" "init_tick (k_timer ?k2 m) < RT_TICK_HALF"
      using that by (auto simp: rt_timer_start_def RT_ASSERT_def timer_op_defs Let_def split: if_splits)
    with timer_start_eq [OF this so] that show ?thesis by simp
  qed
  ultimately show ?thesis using f frame_trans [OF f(2) frame_start_state] by auto
qed

end
