(* ===== verification/Calls.thy ===== *)
theory Calls
  imports Frame
begin

text \<open>
  The kernel calls of a thread, with what each of them guarantees to the rest of the system: it
  returns, no assertion fails, the invariants of the kernel and of its object hold afterwards, and
  the other objects are left alone.
\<close>

section \<open>The invariants of all objects\<close>

text \<open>Every initialised IPC object has a valid mode and satisfies its invariant. The blocks of message queues are treated apart, as their invariant
  depends on which threads are copying.\<close>

definition objs_ok :: "kernel \<Rightarrow> bool" where
  "objs_ok k \<longleftrightarrow>
    (\<forall>s. is_sem s k \<longrightarrow> sem_flag_ok s k \<and> sem_inv s k) \<and>
    (\<forall>m. is_mutex m k \<longrightarrow> mutex_flag_ok m k \<and> mutex_inv m k) \<and>
    (\<forall>e. is_event e k \<longrightarrow> event_flag_ok e k \<and> event_inv e k) \<and>
    (\<forall>m. is_mb m k \<longrightarrow> mb_flag_ok m k \<and> mb_wf (k_mb k m)) \<and>
    (\<forall>m. is_mq m k \<longrightarrow> mq_flag_ok m k)"

lemma objs_okD:
  assumes "objs_ok k"
  shows "is_sem i k \<Longrightarrow> sem_flag_ok i k" "is_sem i k \<Longrightarrow> sem_inv i k"
    "is_mutex i k \<Longrightarrow> mutex_flag_ok i k" "is_mutex i k \<Longrightarrow> mutex_inv i k"
    "is_event i k \<Longrightarrow> event_flag_ok i k" "is_event i k \<Longrightarrow> event_inv i k"
    "is_mb i k \<Longrightarrow> mb_flag_ok i k" "is_mb i k \<Longrightarrow> mb_wf (k_mb k i)"
    "is_mq i k \<Longrightarrow> mq_flag_ok i k"
  using assms by (simp_all add: objs_ok_def)

text \<open>The invariants of the objects a call works on.\<close>

definition own :: "waitq set \<Rightarrow> kernel \<Rightarrow> bool" where
  "own W k \<longleftrightarrow>
    (\<forall>s. Sem_q s \<in> W \<longrightarrow> is_sem s k \<longrightarrow> sem_inv s k) \<and> (\<forall>m. Mutex_q m \<in> W \<longrightarrow> is_mutex m k \<longrightarrow> mutex_inv m k) \<and>
    (\<forall>e. Event_q e \<in> W \<longrightarrow> is_event e k \<longrightarrow> event_inv e k) \<and> (\<forall>m. Mb_recv_q m \<in> W \<longrightarrow> is_mb m k \<longrightarrow> mb_wf (k_mb k m))"

lemma own_empty [simp]: "own {} k"
  by (simp add: own_def)

lemma frame_is:
  assumes "frame c W k k'"
  shows "is_sem i k' = is_sem i k" "is_mutex i k' = is_mutex i k" "is_event i k' = is_event i k"
    "is_mb i k' = is_mb i k" "is_mq i k' = is_mq i k"
    "sem_flag_ok i k' = sem_flag_ok i k" "mutex_flag_ok i k' = mutex_flag_ok i k" "event_flag_ok i k' = event_flag_ok i k"
    "mb_flag_ok i k' = mb_flag_ok i k" "mq_flag_ok i k' = mq_flag_ok i k"
  by (simp_all add: is_sem_def is_mutex_def is_event_def is_mb_def is_mq_def rt_object_get_type_def
      sem_flag_ok_def mutex_flag_ok_def event_flag_ok_def mb_flag_ok_def mq_flag_ok_def
      frameD(1) [OF assms] frameD(2) [OF assms])

text \<open>The step is done by a thread that waits for no event, or by none.\<close>

lemma frame_objs:
  assumes f: "frame c W k k'" and ok: "objs_ok k" and own: "own W k'"
    and c: "\<And>e t. t \<in> set (k_queue k (Wait (Event_q e))) \<Longrightarrow> \<exists>c. t \<noteq> c \<and> frame c W k k'"
  shows "objs_ok k'"
proof -
  have "sem_inv s k'" if "is_sem s k" for s
  proof (cases "Sem_q s \<in> W")
    case False
    with objs_okD(2) [OF ok that] frameD(3,7) [OF f False] show ?thesis by (auto simp: sem_inv_def)
  qed (use own that frame_is [OF f] in \<open>simp add: own_def\<close>)
  moreover have "mutex_inv m k'" if "is_mutex m k" for m
  proof (cases "Mutex_q m \<in> W")
    case False
    with objs_okD(4) [OF ok that] frameD(3,8) [OF f False] frameD(6) [OF f] show ?thesis
      by (auto simp: mutex_inv_def split: option.splits)
  qed (use own that frame_is [OF f] in \<open>simp add: own_def\<close>)
  moreover have "event_inv e k'" if "is_event e k" for e
  proof (cases "Event_q e \<in> W")
    case False
    have "t \<in> set (k_queue k (Wait (Event_q e)))" "th_event_set (k_thread k' t) = th_event_set (k_thread k t)"
      "th_event_info (k_thread k' t) = th_event_info (k_thread k t)" if t: "t \<in> set (k_queue k' (Wait (Event_q e)))" for t
    proof -
      show q: "t \<in> set (k_queue k (Wait (Event_q e)))" using frameD(3) [OF f False] t by blast
      obtain c' where "t \<noteq> c'" "frame c' W k k'" using c [OF q] by blast
      then show "th_event_set (k_thread k' t) = th_event_set (k_thread k t)"
        "th_event_info (k_thread k' t) = th_event_info (k_thread k t)"
        using frameD(4,5) [OF _ False _ t] by blast+
    qed
    with objs_okD(6) [OF ok that] frameD(9) [OF f False] show ?thesis
      by (simp add: event_inv_def)
  qed (use own that frame_is [OF f] in \<open>simp add: own_def\<close>)
  moreover have "mb_wf (k_mb k' m)" if "is_mb m k" for m
    using own that frame_is(4) [OF f] objs_okD(8) [OF ok that] frameD(10) [OF f, of m]
    by (cases "Mb_recv_q m \<in> W") (auto simp: own_def)
  ultimately show ?thesis
    using objs_okD [OF ok] by (simp add: objs_ok_def frame_is [OF f])
qed

section \<open>What a call guarantees\<close>

definition call_ok :: "tid \<Rightarrow> waitq set \<Rightarrow> kernel \<Rightarrow> (('r, 'c) outcome \<times> kernel) option \<Rightarrow> bool" where
  "call_ok c W k res \<longleftrightarrow> (\<exists>r k'. res = Some (r, k') \<and> kernel_ok k' \<and> frame c W k k' \<and> own W k' \<and>
     k_current k' = Some c \<and> (\<not> gives_up r \<longrightarrow> running (stat c k')))"

lemma call_okI:
  "res = Some (r, k') \<Longrightarrow> kernel_ok k' \<Longrightarrow> frame c W k k' \<Longrightarrow> own W k' \<Longrightarrow> k_current k' = Some c \<Longrightarrow>
   (\<not> gives_up r \<Longrightarrow> running (stat c k')) \<Longrightarrow> call_ok c W k res"
  by (auto simp: call_ok_def)

text \<open>Blocking: the suspension fails with nothing changed when a signal is pending, and otherwise the thread
  is parked and its timer armed.\<close>

lemma block_total:
  assumes ok: "kernel_ok k" and c: "can_block c k" and flag: "flag \<in> {RT_IPC_FLAG_FIFO, RT_IPC_FLAG_PRIO}"
    and time: "time \<noteq> 0" "sint time < 0x7fffffff"
  shows "rt_ipc_list_suspend w c flag sf k = Some (- RT_EINTR, k) \<or>
    (\<exists>k2 k'. rt_ipc_list_suspend w c flag sf k = Some (RT_EOK, k2) \<and> arm_if_positive c time k2 = Some k' \<and>
      kernel_ok k' \<and> blocked w flag c k k' \<and> frame c {w} k k' \<and> k_tick k2 = k_tick k)"
proof (cases "lwp_suspend_sigcheck c sf k")
  case True
  have inv: "kernel_inv (half - 1) (k_tick k) k" using ok by (simp add: kernel_ok_def)
  have r: "running (stat c k)" "c \<noteq> idle_thread" using c by (simp_all add: can_block_def)
  obtain k2 k' where k': "rt_ipc_list_suspend w c flag sf k = Some (RT_EOK, k2)" "arm_if_positive c time k2 = Some k'"
      "kernel_ok k'" "blocked w flag c k k'"
    using block_arm [OF ok c flag True, of time w] time by (auto simp: wait_time_def)
  have k2: "k2 = block_state w flag c sf k"
    using ipc_list_suspend_eq [OF inv _ flag, of c w sf] r True k'(1) by simp
  have "frame c {w} k k2" using frame_list_suspend [OF inv _ flag k'(1)] r by simp
  moreover have "frame c {w} k2 k'"
    using frame_arm [OF block_state_inv [OF inv] _ k'(2) [unfolded k2]] r time(2) k2 by simp
  ultimately show ?thesis using k' frame_trans k2 by fastforce
next
  case False
  have inv: "kernel_inv (half - 1) (k_tick k) k" using ok by (simp add: kernel_ok_def)
  show ?thesis
    using ipc_list_suspend_eq [OF inv _ flag, of c w sf] c False by (simp add: can_block_def)
qed

section \<open>Semaphores\<close>

lemma frame_set_sem [simp]: "frame c {Sem_q s} k (set_sem_value s v k)"
  by (simp add: frame_def set_sem_value_def)

lemma own_sem [simp]: "own {Sem_q s} k \<longleftrightarrow> (is_sem s k \<longrightarrow> sem_inv s k)"
  by (auto simp: own_def)

lemma sem_take_call:
  assumes ok: "kernel_ok k" "objs_ok k" and c: "can_block c k" and s: "is_sem s k" and time: "sint time < 0x7fffffff"
  shows "call_ok c {Sem_q s} k (sem_take s time sf k)"
proof -
  have cc: "k_current k = Some c" "running (stat c k)" "k_interrupt_nest k = 0" using c by (simp_all add: can_block_def)
  note inv = objs_okD(1,2) [OF ok(2) s]
  consider (free) "k_sem k s > 0" | (poll) "k_sem k s = 0" "time = 0" | (wait) "k_sem k s = 0" "time \<noteq> 0"
    by (auto simp: word_gt_0)
  then show ?thesis
  proof cases
    case free
    then have "sem_inv s (set_sem_value s (k_sem k s - 1) k)" using inv(2) by (auto simp: sem_inv_def)
    with free s ok(1) cc show ?thesis
      by (intro call_okI [of _ "Return RT_EOK" "set_sem_value s (k_sem k s - 1) k"])
        (simp_all add: sem_take_def kernel_ok_def, simp_all add: set_sem_value_def)
  next
    case poll
    with s ok(1) cc inv show ?thesis
      by (intro call_okI [of _ "Return (- RT_ETIMEOUT)" k]) (simp_all add: sem_take_def)
  next
    case wait
    let ?k = "set_error c (- RT_EINTR) k" and ?f = "obj_flag (k_obj k (O_sem s))"
    have D: "sem_take s time sf k = do {
        (ret, k) \<leftarrow> rt_ipc_list_suspend (Sem_q s) c ?f sf ?k;
        if ret \<noteq> RT_EOK then Some (Return ret, k)
        else do { k \<leftarrow> arm_if_positive c time k; Some (Reschedule K_wait, k) } }"
      using wait s cc by (simp add: sem_take_def RT_DEBUG_IN_THREAD_CONTEXT_def rt_thread_self_def)
    from block_total [of ?k c ?f time "Sem_q s" sf]
    consider "rt_ipc_list_suspend (Sem_q s) c ?f sf ?k = Some (- RT_EINTR, ?k)"
      | k2 k' where "rt_ipc_list_suspend (Sem_q s) c ?f sf ?k = Some (RT_EOK, k2)" "arm_if_positive c time k2 = Some k'"
        "kernel_ok k'" "blocked (Sem_q s) ?f c ?k k'" "frame c {Sem_q s} ?k k'"
      using ok(1) c wait time inv(1) by (auto simp: sem_flag_ok_def)
    then show ?thesis
    proof cases
      case 1
      with D ok(1) cc inv(2) show ?thesis
        by (intro call_okI [of _ "Return (- RT_EINTR)" ?k]) (simp_all add: sem_inv_def)
    next
      case 2
      have "sem_inv s k'" using 2(4) wait(1) by (simp add: blocked_def sem_inv_def)
      with 2 D cc show ?thesis
        by (intro call_okI [of _ "Reschedule K_wait" k'])
          (simp_all add: frame_trans [OF frame_set_error 2(5)] blocked_def)
    qed
  qed
qed

lemma wait_queue_not_current:
  assumes "kernel_ok k" "can_block c k" "k_queue k (Wait w) = t # ts"
  shows "t \<noteq> c" "suspended (stat t k)"
  using wait_queue_suspended [of "half - 1" "k_tick k" k t w] assms
  by (auto simp: kernel_ok_def can_block_def dest: stat_exclusive)

text \<open>Waking the first waiter of a list.\<close>

lemma wake_step:
  assumes ok: "kernel_ok k" and c: "can_block c k" and q: "k_queue k (Wait w) = t # ts"
  shows "\<exists>k'. rt_ipc_list_resume w k = Some (RT_EOK, k') \<and> kernel_ok k' \<and> frame c W k k' \<and> can_block c k' \<and>
    k_queue k' (Wait w) = ts \<and> k_sem k' = k_sem k \<and> k_mutex k' = k_mutex k \<and> k_event k' = k_event k \<and>
    k_mb k' = k_mb k \<and> k_mq k' = k_mq k"
proof -
  have inv: "kernel_inv (half - 1) (k_tick k) k" using ok by (simp add: kernel_ok_def)
  let ?k = "resume_state t (set_error t RT_EOK k)"
  note R = ipc_list_resume_eq [OF inv q]
  have "t \<notin> set ts"
    using sched_okD(1) [OF kernel_invD(1) [OF inv]] q unfolding separate_def by (metis distinct.simps(2))
  then have "k_queue ?k (Wait w) = ts" using q by (simp add: resume_state_wait_queue)
  moreover have "can_block c ?k" using wait_queue_not_current(1) [OF ok c q] c by (simp add: can_block_def)
  ultimately show ?thesis using R frame_list_resume [OF R(1)] by (simp add: kernel_ok_def)
qed

lemma can_blockD: "can_block c k \<Longrightarrow> k_current k = Some c" "can_block c k \<Longrightarrow> running (stat c k)"
  by (simp_all add: can_block_def)

lemma sem_release_call:
  assumes ok: "kernel_ok k" "objs_ok k" and c: "can_block c k" and s: "is_sem s k"
  shows "call_ok c {Sem_q s} k (rt_sem_release s k)"
proof (cases "k_queue k (Wait (Sem_q s))")
  case Nil
  let ?k = "if k_sem k s < RT_SEM_VALUE_MAX then set_sem_value s (k_sem k s + 1) k else k"
  have "sem_inv s ?k" using Nil by (simp add: sem_inv_def)
  with Nil s ok(1) can_blockD [OF c] show ?thesis
    by (intro call_okI [of _ "Return (if k_sem k s < RT_SEM_VALUE_MAX then RT_EOK else - RT_EFULL)" ?k])
      (simp_all add: rt_sem_release_def kernel_ok_def, simp_all add: set_sem_value_def)
next
  case (Cons t ts)
  obtain k' where k': "rt_ipc_list_resume (Sem_q s) k = Some (RT_EOK, k')" "kernel_ok k'" "frame c {Sem_q s} k k'"
      "can_block c k'" "k_sem k' = k_sem k"
    using wake_step [OF ok(1) c Cons, of "{Sem_q s}"] by blast
  have "k_sem k s = 0" using objs_okD(2) [OF ok(2) s] Cons by (simp add: sem_inv_def)
  then have "sem_inv s k'" using k'(5) by (simp add: sem_inv_def)
  with k' s Cons can_blockD [OF k'(4)] show ?thesis
    by (intro call_okI [of _ "Reschedule (K_return RT_EOK)" k']) (simp_all add: rt_sem_release_def)
qed

lemma reset_step:
  assumes ok: "kernel_ok k" and c: "can_block c k"
  shows "\<exists>k'. rt_ipc_list_resume_all w k = Some (RT_EOK, k') \<and> kernel_ok k' \<and> frame c W k k' \<and> can_block c k' \<and>
    all_woken w k k'"
proof -
  obtain k' where k': "rt_ipc_list_resume_all w k = Some (RT_EOK, k')" "kernel_inv (half - 1) (k_tick k) k'" "all_woken w k k'"
    using ipc_resume_all [of "half - 1" "k_tick k" k w] ok unfolding kernel_ok_def by blast
  have "c \<notin> set (k_queue k (Wait w))"
    using running_not_waiting [of "half - 1" "k_tick k" k c w] ok c by (simp add: kernel_ok_def can_block_def)
  then have "can_block c k'" using k'(3) c by (simp add: all_woken_def can_block_def)
  with k' frame_list_resume_all [OF k'(1)] show ?thesis by (auto simp: kernel_ok_def all_woken_def)
qed

lemma sem_reset_call:
  assumes ok: "kernel_ok k" and c: "can_block c k" and s: "is_sem s k"
  shows "call_ok c {Sem_q s} k (rt_sem_control s (RT_IPC_CMD_RESET v) k)"
proof -
  obtain k' where k': "rt_ipc_list_resume_all (Sem_q s) k = Some (RT_EOK, k')" "kernel_ok k'" "frame c {Sem_q s} k k'"
      "can_block c k'" "all_woken (Sem_q s) k k'"
    using reset_step [OF ok c] by blast
  have "sem_inv s (set_sem_value s (ucast v) k')" using k'(5) by (simp add: all_woken_def sem_inv_def)
  then show ?thesis
    using k' s can_blockD [OF k'(4)] frame_trans [OF k'(3) frame_set_sem]
    by (intro call_okI [of _ "Reschedule (K_return RT_EOK)" "set_sem_value s (ucast v) k'"])
      (simp_all add: rt_sem_control_def kernel_ok_def, simp_all add: set_sem_value_def)
qed

section \<open>Mutexes\<close>

lemma frame_upd_mutex [simp]: "frame c {Mutex_q m} k (upd_mutex m f k)"
  by (simp add: frame_def upd_mutex_def)

lemma own_mutex [simp]: "own {Mutex_q m} k \<longleftrightarrow> (is_mutex m k \<longrightarrow> mutex_inv m k)"
  by (auto simp: own_def)

lemma frame_prio_state [simp]: "is_thread t k \<Longrightarrow> frame c W k (prio_state t p k)"
  using frame_change_priority [OF change_priority_eq] by blast

lemma can_block_upd [simp]:
  "can_block c (upd_mutex m f k) = can_block c k" "can_block c (set_sem_value s v k) = can_block c k"
  by (simp_all add: can_block_def) (simp add: set_sem_value_def)

lemma mutex_take_call:
  assumes ok: "kernel_ok k" "objs_ok k" and c: "can_block c k" and m: "is_mutex m k" and time: "sint time < 0x7fffffff"
  shows "call_ok c {Mutex_q m} k (mutex_take m time sf k)"
proof -
  have cc: "k_current k = Some c" "running (stat c k)" "k_interrupt_nest k = 0" using c by (simp_all add: can_block_def)
  note inv = objs_okD(3,4) [OF ok(2) m]
  have ki: "kernel_inv (half - 1) (k_tick k) k" using ok(1) by (simp add: kernel_ok_def)
  have p: "unat (prio c k) < 32" using current_prio [OF ki, of c] cc by simp
  let ?k = "set_error c (- RT_EINTR) k" and ?mx = "k_mutex k m"
  note D = mutex_take_def RT_DEBUG_IN_THREAD_CONTEXT_def rt_thread_self_def
  have fr: "frame c {Mutex_q m} k (upd_mutex m f ?k)" for f by (rule frame_trans [OF frame_set_error frame_upd_mutex])
  consider (free) "mx_owner ?mx = None" | (self) "mx_owner ?mx = Some c"
    | (poll) w where "mx_owner ?mx = Some w" "w \<noteq> c" "time = 0" | (wait) w where "mx_owner ?mx = Some w" "w \<noteq> c" "time \<noteq> 0"
    by (cases "mx_owner ?mx") auto
  then show ?thesis
  proof cases
    case free
    let ?k1 = "upd_mutex m (\<lambda>x. x\<lparr>mx_value := 0, mx_owner := Some c, mx_original_priority := prio c k, mx_hold := 1\<rparr>) ?k"
    have e: "mutex_take m time sf k = Some (Return RT_EOK, ?k1)"
      using free inv(2) m cc by (simp add: D mutex_inv_def upd_mutex_def)
    have "mutex_inv m ?k1" using free inv(2) cc p by (simp add: mutex_inv_def)
    with ok(1) cc fr show ?thesis by (intro call_okI [OF e]) simp_all
  next
    case self
    let ?k1 = "if mx_hold ?mx = RT_MUTEX_HOLD_MAX then ?k else upd_mutex m (\<lambda>x. x\<lparr>mx_hold := mx_hold x + 1\<rparr>) ?k"
    have e: "mutex_take m time sf k = Some (Return (if mx_hold ?mx = RT_MUTEX_HOLD_MAX then - RT_EFULL else RT_EOK), ?k1)"
      using self inv(2) m cc by (simp add: D mutex_inv_def u8_less_max)
    have "mutex_inv m ?k1" using self inv(2) by (simp add: mutex_inv_def u8_Suc_nonzero)
    with ok(1) cc fr show ?thesis by (intro call_okI [OF e]) simp_all
  next
    case poll
    have "mx_value ?mx = 0" using inv(2) poll by (simp add: mutex_inv_def)
    then have e: "mutex_take m time sf k = Some (Return (- RT_ETIMEOUT), set_error c (- RT_ETIMEOUT) ?k)"
      using poll m cc by (simp add: D)
    have "mutex_inv m (set_error c (- RT_ETIMEOUT) ?k)" using poll inv(2) by (simp add: mutex_inv_def)
    with ok(1) cc frame_trans [OF frame_set_error frame_set_error] show ?thesis by (intro call_okI [OF e]) simp_all
  next
    case (wait w)
    let ?k2 = "lend_state c w ?k" and ?f = "obj_flag (k_obj k (O_mutex m))"
    have lw: "live (stat w k)" "mx_value ?mx = 0" "w \<notin> set (k_queue k (Wait (Mutex_q m)))"
      using inv(2) wait by (simp_all add: mutex_inv_def)
    have t: "is_thread w ?k" using inv_is_timer(1) [OF ki lw(1)] by simp
    have D2: "mutex_take m time sf k = do {
        (ret, k) \<leftarrow> rt_ipc_list_suspend (Mutex_q m) c ?f sf ?k2;
        if ret \<noteq> RT_EOK then Some (Return ret, k)
        else do { k \<leftarrow> arm_if_positive c time k; Some (Reschedule K_wait, k) } }"
      using m wait cc lw(2) lend_eq [OF t, of c] by (simp add: D)
    have ok2: "kernel_ok ?k2" using lend_state_inv [of _ _ ?k c w] ki cc by (simp add: kernel_ok_def)
    have c2: "can_block c ?k2" using c wait(2) by (simp add: can_block_def)
    have f2: "frame c {Mutex_q m} k ?k2"
      using frame_trans [OF frame_set_error frame_prio_state [OF t]] by (simp add: lend_state_def)
    have so: "sched_ok {} ?k" using kernel_invD(1) [of _ _ ?k] ki by simp
    note L = lend_state_sched [OF so, where t = c and owner = w]
    have i2: "mutex_inv m ?k2" using inv(2) wait L by (simp add: mutex_inv_def)
    from block_total [OF ok2 c2, of ?f time "Mutex_q m" sf]
    consider "rt_ipc_list_suspend (Mutex_q m) c ?f sf ?k2 = Some (- RT_EINTR, ?k2)"
      | k3 k' where "rt_ipc_list_suspend (Mutex_q m) c ?f sf ?k2 = Some (RT_EOK, k3)" "arm_if_positive c time k3 = Some k'"
        "kernel_ok k'" "blocked (Mutex_q m) ?f c ?k2 k'" "frame c {Mutex_q m} ?k2 k'"
      using wait time inv(1) by (auto simp: mutex_flag_ok_def)
    then show ?thesis
    proof cases
      case 1
      with D2 ok2 can_blockD [OF c2] f2 i2 show ?thesis by (intro call_okI [of _ "Return (- RT_EINTR)" ?k2]) simp_all
    next
      case 2
      have "live (stat w k')" using 2(4) L(1) [of w] lw(1) wait(2) by (simp add: blocked_def)
      then have "mutex_inv m k'" using 2(4) i2 wait L lw by (simp add: blocked_def mutex_inv_def)
      with 2 D2 can_blockD [OF c2] frame_trans [OF f2 2(5)] show ?thesis
        by (intro call_okI [of _ "Reschedule K_wait" k']) (simp_all add: blocked_def)
    qed
  qed
qed


lemma k_current_ops [simp]:
  "k_current (restore_state t p k) = k_current k" "k_current (resume_state t k) = k_current k"
  by simp_all

text \<open>The last release: the priority goes back, then the mutex is handed over.\<close>

lemma mutex_release_last:
  assumes ok: "kernel_ok k" and c: "can_block c k" and m: "is_mutex m k" "mutex_inv m k"
    and last: "mx_owner (k_mutex k m) = Some c" "mx_hold (k_mutex k m) = 1"
    and r: "rt_mutex_release m k = Some (r, k')"
  shows "frame c {Mutex_q m} k k' \<and> can_block c k'"
proof -
  let ?p = "mx_original_priority (k_mutex k m)" and ?k1 = "upd_mutex m (\<lambda>x. x\<lparr>mx_hold := mx_hold x - 1\<rparr>) k"
  let ?k2 = "restore_state c ?p ?k1"
  have ki: "kernel_inv (half - 1) (k_tick k) ?k1" using ok by (simp add: kernel_ok_def)
  have cc: "k_current k = Some c" "running (stat c k)" "k_interrupt_nest k = 0" "c \<noteq> idle_thread"
    using c by (simp_all add: can_block_def)
  have t: "is_thread c ?k1" using inv_is_timer(1) [OF ki, of c] cc by simp
  have p: "unat ?p < 32" using m(2) last by (simp add: mutex_inv_def)
  have ok2: "kernel_ok ?k2" using restore_state_inv [OF ki p] by (simp add: kernel_ok_def)
  have c2: "can_block c ?k2"
    using restore_state_sched(2) [OF kernel_invD(1) [OF ki]] cc by (simp add: can_block_def)
  have f2: "frame c {Mutex_q m} k ?k2"
    using frame_trans [OF frame_upd_mutex frame_prio_state [OF t]] frame_upd_mutex by (simp add: restore_state_def)
  have h: "mutex_hand_over m ?k2 = Some (r, k')"
    using r m(1) cc last restore_eq [OF t, of ?p]
    by (cases "?p = prio c k") (auto simp: rt_mutex_release_def RT_DEBUG_IN_THREAD_CONTEXT_def rt_thread_self_def Let_def)
  show ?thesis
  proof (cases "k_queue ?k2 (Wait (Mutex_q m))")
    case Nil
    with h show ?thesis
      using frame_trans [OF f2 frame_upd_mutex] f2 c2 by (auto simp: mutex_hand_over_def split: if_splits)
  next
    case (Cons u us)
    define k3 where "k3 = upd_mutex m (\<lambda>x. x\<lparr>mx_hold := mx_hold x + 1\<rparr>)
      (upd_mutex m (\<lambda>x. x\<lparr>mx_owner := Some u, mx_original_priority := prio u ?k2\<rparr>) ?k2)"
    have f3: "frame c {Mutex_q m} k k3"
      unfolding k3_def by (rule frame_trans [OF frame_trans [OF f2 frame_upd_mutex] frame_upd_mutex])
    have "kernel_ok k3" "can_block c k3" "k_queue k3 (Wait (Mutex_q m)) = u # us"
      using ok2 c2 Cons by (simp_all add: k3_def)
    from wake_step [OF this, of "{Mutex_q m}"]
    obtain k4 where k4: "rt_ipc_list_resume (Mutex_q m) k3 = Some (RT_EOK, k4)" "frame c {Mutex_q m} k3 k4" "can_block c k4" by blast
    have "k' = k4" using h Cons k4(1) last by (simp add: mutex_hand_over_def k3_def)
    with frame_trans [OF f3 k4(2)] k4(3) show ?thesis by simp
  qed
qed

lemma mutex_release_call:
  assumes ok: "kernel_ok k" "objs_ok k" and c: "can_block c k" and m: "is_mutex m k"
  shows "call_ok c {Mutex_q m} k (rt_mutex_release m k)"
proof -
  note inv = objs_okD(4) [OF ok(2) m]
  obtain r k' where e: "rt_mutex_release m k = Some (r, k')" "kernel_ok k'" "mutex_inv m k'"
    using mutex_release_cases [OF ok(1) m inv c] by blast
  have "frame c {Mutex_q m} k k' \<and> can_block c k'"
  proof (cases "mx_owner (k_mutex k m) = Some c \<and> mx_hold (k_mutex k m) = 1")
    case True
    then show ?thesis using mutex_release_last [OF ok(1) c m inv _ _ e(1)] by blast
  next
    case False
    have "k' = set_error c (- RT_ERROR) k \<or> k' = upd_mutex m (\<lambda>x. x\<lparr>mx_hold := mx_hold x - 1\<rparr>) k"
      using e(1) False m can_blockD [OF c] c
      by (auto simp: rt_mutex_release_def RT_DEBUG_IN_THREAD_CONTEXT_def rt_thread_self_def Let_def can_block_def
          split: if_splits)
    then show ?thesis using c by auto
  qed
  with e can_blockD show ?thesis by (intro call_okI [OF e(1)]) auto
qed

end
