(* ===== verification/Msgcalls.thy ===== *)
theory Msgcalls
  imports Calls
begin

text \<open>
  What the calls on events, mailboxes and message queues, and the calls that give up the processor,
  guarantee to the rest of the system. Every blocking call ends in the same suspension, every call
  that delivers something in the same wake-up.
\<close>

section \<open>Suspension and wake-up\<close>

lemma wait_call:
  assumes ok: "kernel_ok k1" and c: "can_block c k1" and flag: "flag \<in> {RT_IPC_FLAG_FIFO, RT_IPC_FLAG_PRIO}"
    and time: "time \<noteq> 0" "sint time < 0x7fffffff" and f: "frame c W k k1" and w: "w \<in> W" and o1: "own W k1"
    and o2: "\<And>k'. blocked w flag c k1 k' \<Longrightarrow> frame c W k1 k' \<Longrightarrow> own W k'"
  shows "call_ok c W k (do {
      (ret, k2) \<leftarrow> rt_ipc_list_suspend w c flag sf k1;
      if ret \<noteq> RT_EOK then Some (Return (g ret), k2)
      else do { k' \<leftarrow> arm_if_positive c time k2; Some (Reschedule (h k2), k') } })"
proof -
  from block_total [OF ok c flag time, of w sf]
  consider "rt_ipc_list_suspend w c flag sf k1 = Some (- RT_EINTR, k1)"
    | k2 k' where "rt_ipc_list_suspend w c flag sf k1 = Some (RT_EOK, k2)" "arm_if_positive c time k2 = Some k'"
      "kernel_ok k'" "blocked w flag c k1 k'" "frame c {w} k1 k'" by blast
  then show ?thesis
  proof cases
    case 1
    with ok f o1 can_blockD [OF c] show ?thesis by (intro call_okI [of _ "Return (g (- RT_EINTR))" k1]) simp_all
  next
    case 2
    have f2: "frame c W k1 k'" using frame_mono [OF 2(5)] w by simp
    with 2 can_blockD [OF c] frame_trans [OF f f2] o2 [OF 2(4) f2] show ?thesis
      by (intro call_okI [of _ "Reschedule (h k2)" k']) (simp_all add: blocked_def)
  qed
qed

lemma wake_call:
  assumes ok: "kernel_ok k1" and c: "can_block c k1" and f: "frame c W k k1" and o1: "own W k1"
    and o2: "\<And>k'. frame c W k1 k' \<Longrightarrow> k_mb k' = k_mb k1 \<Longrightarrow> k_mq k' = k_mq k1 \<Longrightarrow> own W k'"
  shows "call_ok c W k (if k_queue k1 (Wait w) \<noteq> []
     then do { (_, k') \<leftarrow> rt_ipc_list_resume w k1; Some (Reschedule a, k') } else Some (Return b, k1))"
proof (cases "k_queue k1 (Wait w)")
  case Nil
  with ok f o1 can_blockD [OF c] show ?thesis by (intro call_okI [of _ "Return b" k1]) simp_all
next
  case (Cons t ts)
  obtain k' where k': "rt_ipc_list_resume w k1 = Some (RT_EOK, k')" "kernel_ok k'" "frame c W k1 k'" "can_block c k'"
      "k_mb k' = k_mb k1" "k_mq k' = k_mq k1"
    using wake_step [OF ok c Cons, of W] by blast
  with Cons o2 frame_trans [OF f k'(3)] can_blockD [OF k'(4)] show ?thesis
    by (intro call_okI [of _ "Reschedule a" k']) simp_all
qed

lemma return_call:
  "kernel_ok k' \<Longrightarrow> can_block c k' \<Longrightarrow> frame c W k k' \<Longrightarrow> own W k' \<Longrightarrow> call_ok c W k (Some (r, k'))"
  by (rule call_okI [of _ r k']) (simp_all add: can_blockD)

section \<open>Events\<close>

lemma frame_set_event [simp]: "frame c {Event_q e} k (set_event e v k)"
  by (simp add: frame_def set_event_def)

lemma own_event [simp]: "own {Event_q e} k \<longleftrightarrow> (is_event e k \<longrightarrow> event_inv e k)"
  by (auto simp: own_def)

lemma can_block_set_event [simp]: "can_block c (set_event e v k) = can_block c k"
  by (simp add: can_block_def) (simp add: set_event_def)

lemma frame_fill_info [simp]: "frame c W k (upd_thread c (\<lambda>th. th\<lparr>th_event_set := s, th_event_info := i\<rparr>) k)"
  by (simp add: frame_def upd_thread_def)

lemma frame_event_clear [simp]: "frame c {Event_q e} k (event_clear e t k)"
  by (simp add: event_clear_def)

lemma frame_resume_state:
  assumes "kernel_inv n base k" "suspended (stat t k)"
  shows "frame c W k (resume_state t k)"
  using frame_resume [OF resume_eq [OF assms]] .

lemma frame_serve:
  assumes inv: "kernel_inv n base k" and q: "t \<in> set (k_queue k (Wait (Event_q e)))"
  shows "frame c {Event_q e} k (serve_state e t k)"
proof -
  let ?W = "{Event_q e}"
  define k1 where "k1 = (if th_event_info (k_thread k t) AND RT_EVENT_FLAG_AND \<noteq> 0 then k
    else upd_thread t (th_event_set_update (\<lambda>_. th_event_set (k_thread k t) AND k_event k e)) k)"
  note sep = sched_okD(1) [OF kernel_invD(1) [OF inv]]
  have "t \<notin> set (k_queue k (Wait (Event_q e')))" if "Event_q e' \<notin> ?W" for e'
    using sep q that unfolding separate_def by (metis disjoint_iff qid.inject(2) singletonI)
  then have f1: "frame c ?W k k1"
    unfolding k1_def frame_def by (auto simp: upd_thread_def)
  have i1: "kernel_inv n base (event_clear e t k1)" using inv by (simp add: k1_def)
  have s1: "suspended (stat t (event_clear e t k1))"
    using wait_queue_suspended [OF inv q] by (simp add: k1_def upd_thread_def)
  have "serve_state e t k = set_error t RT_EOK (resume_state t (event_clear e t k1))"
    by (simp add: serve_state_def k1_def)
  then show ?thesis
    using frame_trans [OF frame_trans [OF f1 frame_event_clear] frame_trans [OF frame_resume_state [OF i1 s1] frame_set_error]]
    by simp
qed

lemma frame_event_scan:
  assumes "kernel_inv n base k" "k_queue k (Wait (Event_q e)) = us @ ts"
    and "\<forall>t \<in> set ts. valid_info (th_event_info (k_thread k t))"
    and "event_scan e ts need k = Some (r, k')"
  shows "frame c {Event_q e} k k' \<and> k_current k' = k_current k"
  using assms
proof (induction ts arbitrary: us need k)
  case Nil
  then show ?case by simp
next
  case (Cons t ts)
  have q: "t \<in> set (k_queue k (Wait (Event_q e)))" using Cons.prems(2) by simp
  have d: "distinct (us @ t # ts)"
    using sched_okD(1) [OF kernel_invD(1) [OF Cons.prems(1)]] Cons.prems(2) unfolding separate_def by metis
  note C = event_scan_Cons [OF Cons.prems(1) q, of ts need]
  show ?case
  proof (cases "satisfied (th_event_info (k_thread k t)) (th_event_set (k_thread k t)) (k_event k e)")
    case True
    note F = serve_state_facts [OF Cons.prems(1,2)]
    have "\<forall>u \<in> set ts. valid_info (th_event_info (k_thread (serve_state e t k) u))"
      using Cons.prems(3) F(4) d by (metis list.set_intros(2) distinct_append distinct.simps(2))
    then have "frame c {Event_q e} (serve_state e t k) k' \<and> k_current k' = k_current (serve_state e t k)"
      using Cons.IH [OF F(1,2), of True] C Cons.prems(3,4) True by auto
    moreover have "k_current (serve_state e t k) = k_current k"
      by (simp add: serve_state_def Let_def) (simp add: upd_thread_def)
    ultimately show ?thesis using frame_trans [OF frame_serve [OF Cons.prems(1) q]] by auto
  next
    case False
    with C Cons.prems show ?thesis by (intro Cons.IH [of k "us @ [t]" need]) auto
  qed
qed

lemma event_send_call:
  assumes ok: "kernel_ok k" "objs_ok k" and c: "can_block c k" and e: "is_event e k"
  shows "call_ok c {Event_q e} k (rt_event_send e sset k)"
proof (cases "sset = 0")
  case True
  then show ?thesis
    using e ok objs_okD(6) [OF ok(2) e] c by (simp add: rt_event_send_def return_call)
next
  case False
  let ?k = "set_event e (k_event k e OR sset) k" and ?q = "k_queue k (Wait (Event_q e))"
  note ei = objs_okD(6) [OF ok(2) e]
  have inv: "kernel_inv (half - 1) (k_tick k) ?k" using ok(1) by (simp add: kernel_ok_def)
  obtain r k' vs where s: "event_scan e ?q False ?k = Some (r, k')" "kernel_inv (half - 1) (k_tick k) k'"
      "scanned e [] ?q vs ?k k'"
    using event_scan_ok [OF inv, of e "[]" ?q False] ei by (auto simp: event_inv_def)
  note D = scannedD [OF s(3)]
  have f: "frame c {Event_q e} ?k k'" "k_current k' = k_current k"
    using frame_event_scan [OF inv _ _ s(1), of "[]"] ei by (simp_all add: event_inv_def)
  have "c \<notin> set ?q" using running_not_waiting [of "half - 1" "k_tick k" k c "Event_q e"] ok(1) c
    by (simp add: kernel_ok_def can_block_def)
  then have "k_thread k' c = k_thread k c" using D(5) [of c] by simp
  then have "can_block c k'" using c f(2) frameD(13) [OF f(1)] by (simp add: can_block_def set_event_def)
  moreover have "event_inv e k'"
  proof -
    have "set vs \<subseteq> set ?q" using D(1) by (rule subseq_set)
    moreover have "k_thread k' t = k_thread k t" if "t \<in> set vs" for t using D(5) [of t] that by simp
    ultimately show ?thesis using ei D(2,6) by (auto simp: event_inv_def)
  qed
  moreover have "rt_event_send e sset k = Some (r, k')" using e False s(1) by (simp add: rt_event_send_def)
  moreover have "kernel_ok k'" using s(2) D(3) by (simp add: kernel_ok_def)
  ultimately show ?thesis using frame_trans [OF frame_set_event f(1)] by (simp add: return_call)
qed

lemma event_recv_call:
  assumes ok: "kernel_ok k" "objs_ok k" and c: "can_block c k" and e: "is_event e k" and opt: "valid_info opt"
    and time: "sint timeout < 0x7fffffff"
  shows "call_ok c {Event_q e} k (event_recv e sset opt timeout sf k)"
proof -
  have cc: "k_current k = Some c" "running (stat c k)" "k_interrupt_nest k = 0" using c by (simp_all add: can_block_def)
  note ei = objs_okD(6) [OF ok(2) e]
  note D = event_recv_def RT_DEBUG_IN_THREAD_CONTEXT_def rt_thread_self_def satisfied_recv Let_def
  let ?fill = "\<lambda>s k. upd_thread c (\<lambda>th. th\<lparr>th_event_set := s, th_event_info := opt\<rparr>) k"
  have nc: "c \<notin> set (k_queue k (Wait (Event_q e)))"
    using running_not_waiting [of _ _ k c] ok(1) cc(2) unfolding kernel_ok_def by blast
  have opt': "opt AND RT_EVENT_FLAG_AND \<noteq> 0 \<or> opt AND RT_EVENT_FLAG_OR \<noteq> 0" using opt by (simp add: valid_info_def)
  have others: "k_thread (?fill s (set_error c x (set_error c y k))) t = k_thread k t" "k_thread (set_error c x k) t = k_thread k t"
    if "t \<in> set (k_queue k (Wait (Event_q e)))" for t s x y
    using that nc by (auto simp: upd_thread_def set_error_def)
  consider (bad) "sset = 0" | (now) "sset \<noteq> 0" "satisfied opt sset (k_event k e)"
    | (poll) "sset \<noteq> 0" "\<not> satisfied opt sset (k_event k e)" "timeout = 0"
    | (wait) "sset \<noteq> 0" "\<not> satisfied opt sset (k_event k e)" "timeout \<noteq> 0" by blast
  then show ?thesis
  proof cases
    case bad
    with e cc ok(1) c ei show ?thesis by (simp add: D return_call)
  next
    case now
    let ?k1 = "?fill (k_event k e AND sset) (set_error c RT_EOK (set_error c (- RT_EINTR) k))"
    let ?k = "if opt AND RT_EVENT_FLAG_CLEAR \<noteq> 0 then set_event e (k_event k e AND NOT sset) ?k1 else ?k1"
    have "event_recv e sset opt timeout sf k = Some (Return (RT_EOK, Some (k_event k e AND sset)), ?k)"
      using e opt' cc now by (simp add: D)
    moreover have "event_inv e ?k" by (intro event_inv_shrink [OF ei]) (auto simp: others)
    moreover have "frame c {Event_q e} k ?k1" by (rule frame_trans [OF frame_trans [OF frame_set_error frame_set_error] frame_fill_info])
    ultimately show ?thesis
      using ok(1) c frame_trans [OF _ frame_set_event] by (simp add: return_call)
  next
    case poll
    let ?k = "set_error c (- RT_ETIMEOUT) (set_error c (- RT_EINTR) k)"
    have "event_recv e sset opt timeout sf k = Some (Return (- RT_ETIMEOUT, None), ?k)"
      using e opt' cc poll by (simp add: D)
    moreover have "event_inv e ?k" using nc by (intro event_inv_shrink [OF ei]) (auto simp: set_error_def upd_thread_def)
    ultimately show ?thesis
      using ok(1) c frame_trans [OF frame_set_error frame_set_error] by (simp add: return_call)
  next
    case wait
    let ?k1 = "?fill sset (set_error c (- RT_EINTR) k)" and ?f = "obj_flag (k_obj k (O_event e))"
    have th: "k_thread ?k1 t = k_thread k t" if "t \<noteq> c" for t
      using that by (simp add: upd_thread_def set_error_def)
    have "event_recv e sset opt timeout sf k = (do {
        (ret, k2) \<leftarrow> rt_ipc_list_suspend (Event_q e) c ?f sf ?k1;
        if ret \<noteq> RT_EOK then Some (Return (ret, None), k2)
        else do { k' \<leftarrow> arm_if_positive c timeout k2; Some (Reschedule K_event, k') } })"
      using e opt' cc wait by (simp add: D)
    moreover have "event_inv e ?k1"
      by (rule event_inv_shrink [OF ei], simp, metis th nc, simp)
    moreover have "event_inv e k'" if b: "blocked (Event_q e) ?f c ?k1 k'" for k'
    proof -
      have "k_thread k' t = k_thread k t" if "t \<noteq> c" for t using b th [OF that] that by (simp add: blocked_def)
      then have "k_thread k' t = k_thread k t" if "t \<in> set (k_queue k (Wait (Event_q e)))" for t using that nc by metis
      moreover have "set (k_queue k' (Wait (Event_q e))) = insert c (set (k_queue k (Wait (Event_q e))))"
        "k_event k' e = k_event k e" "th_event_set (k_thread k' c) = sset" "th_event_info (k_thread k' c) = opt"
        using b by (simp_all add: blocked_def)
      ultimately show ?thesis using ei nc wait(2) opt by (auto simp: event_inv_def)
    qed
    moreover have "frame c {Event_q e} k ?k1" by (rule frame_trans [OF frame_set_error frame_fill_info])
    ultimately show ?thesis
      using wait_call [of ?k1 c ?f timeout "{Event_q e}" k "Event_q e"] ok(1) c objs_okD(5) [OF ok(2) e] wait(3) time
      by (simp add: event_flag_ok_def)
  qed
qed

lemma event_reset_call:
  assumes ok: "kernel_ok k" and c: "can_block c k" and e: "is_event e k"
  shows "call_ok c {Event_q e} k (rt_event_control e (RT_IPC_CMD_RESET v) k)"
proof -
  obtain k' where k': "rt_ipc_list_resume_all (Event_q e) k = Some (RT_EOK, k')" "kernel_ok k'" "frame c {Event_q e} k k'"
      "can_block c k'" "all_woken (Event_q e) k k'"
    using reset_step [OF ok c] by blast
  have "event_inv e (set_event e 0 k')" using k'(5) by (simp add: all_woken_def event_inv_def)
  with k' e frame_trans [OF k'(3) frame_set_event] show ?thesis
    by (simp add: rt_event_control_def return_call)
qed

section \<open>Mailboxes\<close>

abbreviation mb_lists :: "nat \<Rightarrow> waitq set" where "mb_lists m \<equiv> {Mb_recv_q m, Mb_send_q m}"

lemma frame_set_mb [simp]: "frame c (mb_lists m) k (set_mb m mb k)"
  by (simp add: frame_def set_mb_def)

lemma own_mb [simp]: "own (mb_lists m) k \<longleftrightarrow> (is_mb m k \<longrightarrow> mb_wf (k_mb k m))"
  by (auto simp: own_def)

lemma can_block_set_mb [simp]: "can_block c (set_mb m mb k) = can_block c k"
  by (simp add: can_block_def) (simp add: set_mb_def)

lemma mb_send_commit_call:
  assumes ok: "kernel_ok k" and c: "can_block c k" and wf: "mb_wf (k_mb k m)"
    and room: "mb_entry (k_mb k m) \<noteq> mb_size (k_mb k m)"
  shows "call_ok c (mb_lists m) k (mb_send_commit m v k)"
proof -
  have "unat (mb_entry (k_mb k m)) < unat (mb_size (k_mb k m))"
    using wf room by (auto simp: mb_wf_def word_unat_eq_iff)
  then have e: "mb_entry (k_mb k m) < RT_MB_ENTRY_MAX" and l: "length (mb_contents (k_mb k m)) < unat (mb_size (k_mb k m))"
    using unat_u16_less [of "mb_size (k_mb k m)"] by (simp_all add: word_less_nat_alt mb_contents_def)
  obtain mb where mb: "mb_put v (k_mb k m) = Some mb" "mb_wf mb" using mb_put_contents [OF wf l] by blast
  then obtain mb0 where mb0: "mb_store v (k_mb k m) = Some mb0" "mb = mb0\<lparr>mb_entry := mb_entry mb0 + 1\<rparr>"
    using room by (auto simp: mb_put_def)
  then have e0: "mb_entry mb0 = mb_entry (k_mb k m)" by (auto simp: mb_store_def split: if_splits)
  let ?k = "set_mb m mb k"
  have "mb_send_commit m v k =
    (if k_queue ?k (Wait (Mb_recv_q m)) \<noteq> []
     then do { (_, k) \<leftarrow> rt_ipc_list_resume (Mb_recv_q m) ?k; Some (Reschedule (K_mb_return RT_EOK None), k) }
     else Some (Return (RT_EOK, None), ?k))"
    using mb0 e0 e by (simp add: mb_send_commit_def)
  moreover have "call_ok c (mb_lists m) k \<dots>" by (rule wake_call) (use ok c mb(2) in simp_all)
  ultimately show ?thesis by simp
qed

lemma mb_recv_commit_call:
  assumes ok: "kernel_ok k" and c: "can_block c k" and wf: "mb_wf (k_mb k m)" and e: "mb_entry (k_mb k m) \<noteq> 0"
  shows "call_ok c (mb_lists m) k (mb_recv_commit m k)"
proof -
  obtain v vs where "mb_contents (k_mb k m) = v # vs"
    using e contents_length [of "k_mb k m"] by (cases "mb_contents (k_mb k m)") (auto simp: word_unat_eq_iff)
  then obtain mb where mb: "mb_get (k_mb k m) = Some (v, mb)" "mb_wf mb" using mb_get_contents [OF wf] by blast
  then have "mb_fetch (k_mb k m) = Some (v, mb)" by (simp add: mb_get_def split: if_splits)
  then have "mb_recv_commit m k =
    (if k_queue (set_mb m mb k) (Wait (Mb_send_q m)) \<noteq> []
     then do { (_, k) \<leftarrow> rt_ipc_list_resume (Mb_send_q m) (set_mb m mb k); Some (Reschedule (K_mb_return RT_EOK (Some v)), k) }
     else Some (Return (RT_EOK, Some v), set_mb m mb k))"
    by (simp add: mb_recv_commit_def)
  moreover have "call_ok c (mb_lists m) k \<dots>" by (rule wake_call) (use ok c mb(2) in simp_all)
  ultimately show ?thesis by simp
qed

lemma mb_loop_call:
  assumes ok: "kernel_ok k" "objs_ok k" and c: "can_block c k" and m: "is_mb m k" and time: "sint timeout < 0x7fffffff"
  shows "call_ok c (mb_lists m) k (mb_send_loop m v timeout d sf k)" (is ?send)
    and "call_ok c (mb_lists m) k (mb_recv_loop m timeout d sf k)" (is ?recv)
proof -
  have cc: "k_current k = Some c" "running (stat c k)" "k_interrupt_nest k = 0" using c by (simp_all add: can_block_def)
  note inv = objs_okD(7,8) [OF ok(2) m]
  let ?k = "set_error c (- RT_EINTR) k" and ?f = "obj_flag (k_obj k (O_mb m))"
  note D = mb_send_loop_def mb_recv_loop_def RT_DEBUG_IN_THREAD_CONTEXT_def rt_thread_self_def Let_def
  have w: "call_ok c (mb_lists m) k (do {
      (ret, k2) \<leftarrow> rt_ipc_list_suspend q c ?f sf ?k;
      if ret \<noteq> RT_EOK then Some (Return (g ret), k2)
      else do { k' \<leftarrow> arm_if_positive c timeout k2; Some (Reschedule (h k2), k') } })"
    if q: "q \<in> mb_lists m" and t: "timeout \<noteq> 0" for q g and h :: "kernel \<Rightarrow> mb_kont"
  proof (rule wait_call [OF _ _ _ t time _ q])
    show "own (mb_lists m) k'" if "blocked q ?f c ?k k'" for k'
      using that inv(2) by (simp add: blocked_def)
  qed (use ok c inv in \<open>simp_all add: mb_flag_ok_def\<close>)
  show ?send
  proof (cases "mb_entry (k_mb k m) = mb_size (k_mb k m)")
    case False
    then show ?thesis using mb_send_commit_call [OF ok(1) c inv(2)] by (simp add: mb_send_loop_def)
  next
    case True
    show ?thesis
    proof (cases "timeout = 0")
      case True
      with \<open>mb_entry _ = _\<close> cc ok(1) c inv(2) show ?thesis by (simp add: D return_call)
    next
      case False
      with \<open>mb_entry _ = _\<close> cc
        w [of "Mb_send_q m" "\<lambda>r. (r, None)" "\<lambda>k. K_mb_send m v timeout (if 0 < sint timeout then rt_tick_get k else d) sf"]
      show ?thesis by (simp add: D cong: if_cong)
    qed
  qed
  show ?recv
  proof (cases "mb_entry (k_mb k m) = 0")
    case False
    then show ?thesis using mb_recv_commit_call [OF ok(1) c inv(2)] by (simp add: mb_recv_loop_def)
  next
    case True
    show ?thesis
    proof (cases "timeout = 0")
      case True
      with \<open>mb_entry _ = _\<close> cc ok(1) c inv(2) frame_trans [OF frame_set_error frame_set_error] show ?thesis
        by (simp add: D return_call)
    next
      case False
      with \<open>mb_entry _ = _\<close> cc
        w [of "Mb_recv_q m" "\<lambda>r. (r, None)" "\<lambda>k. K_mb_recv m timeout (if 0 < sint timeout then rt_tick_get k else d) sf"]
      show ?thesis by (simp add: D cong: if_cong)
    qed
  qed
qed

lemma mb_call:
  assumes ok: "kernel_ok k" "objs_ok k" and c: "can_block c k" and m: "is_mb m k" and time: "sint timeout < 0x7fffffff"
  shows "call_ok c (mb_lists m) k (mb_send_wait m v timeout sf k)"
    and "call_ok c (mb_lists m) k (mb_recv m timeout sf k)"
  using mb_loop_call [OF assms] objs_okD(8) [OF ok(2) m] ok(1) c m
  by (simp_all add: mb_send_wait_def mb_recv_def return_call)

text \<open>The waiting time that is left never grows, if the thread runs again before half the range
  of the counter has gone by.\<close>

definition timely :: "u32 \<Rightarrow> u32 \<Rightarrow> kernel \<Rightarrow> bool" where
  "timely timeout tick_delta k \<longleftrightarrow> (0 < sint timeout \<longrightarrow> rt_tick_get k - tick_delta < 0x80000000)"

lemma timeout_left_bound:
  assumes "sint timeout < 0x7fffffff" "timely timeout d k"
  shows "sint (timeout_left timeout d (rt_tick_get k)) < 0x7fffffff"
proof (cases "0 < sint timeout")
  case True
  let ?e = "rt_tick_get k - d"
  have u: "uint ?e < 0x80000000" using True assms(2) by (simp add: timely_def word_less_alt)
  have "- (2 ^ 31) \<le> uint ?e" by (rule order.trans [OF _ unsigned_greater_eq]) simp
  then have "signed_take_bit 31 (uint ?e) = uint ?e" using u by (intro signed_take_bit_int_eq_self) simp_all
  then have "sint ?e = uint ?e" by (simp add: sint_uint)
  then have e: "0 \<le> sint ?e" "sint ?e < 0x80000000" using u unsigned_greater_eq [of ?e] by (simp_all only:)
  have "sint (timeout - ?e) = sint timeout - sint ?e"
  proof -
    have "signed_take_bit 31 (sint timeout - sint ?e) = sint timeout - sint ?e"
      using True assms(1) e by (intro signed_take_bit_int_eq_self) simp_all
    then show ?thesis by (simp add: sint_word_ariths)
  qed
  with True assms(1) e show ?thesis by (simp add: timeout_left_def Let_def)
qed (use assms in \<open>simp add: timeout_left_def\<close>)

text \<open>The locals of a mailbox call that waits.\<close>

definition mb_kont_ok :: "mb_kont \<Rightarrow> kernel \<Rightarrow> bool" where
  "mb_kont_ok c k \<longleftrightarrow>
    (case c of
       K_mb_return _ _ \<Rightarrow> True
     | K_mb_send m _ timeout _ _ \<Rightarrow> is_mb m k \<and> sint timeout < 0x7fffffff
     | K_mb_recv m timeout _ _ \<Rightarrow> is_mb m k \<and> sint timeout < 0x7fffffff)"

definition mb_kont_timely :: "mb_kont \<Rightarrow> kernel \<Rightarrow> bool" where
  "mb_kont_timely c k \<longleftrightarrow>
    (case c of K_mb_return _ _ \<Rightarrow> True | K_mb_send _ _ timeout d _ \<Rightarrow> timely timeout d k | K_mb_recv _ timeout d _ \<Rightarrow> timely timeout d k)"

definition mb_kont_lists :: "mb_kont \<Rightarrow> waitq set" where
  "mb_kont_lists c = (case c of K_mb_return _ _ \<Rightarrow> {} | K_mb_send m _ _ _ _ \<Rightarrow> mb_lists m | K_mb_recv m _ _ _ \<Rightarrow> mb_lists m)"

lemma mb_kont_call:
  assumes ok: "kernel_ok k" "objs_ok k" and c: "can_block c k" and kont: "mb_kont_ok f k" "mb_kont_timely f k"
  shows "call_ok c (mb_kont_lists f) k (mb_kont_run f c k)"
proof (cases f)
  case (K_mb_return e v)
  with ok(1) c show ?thesis by (simp add: mb_kont_run_def mb_kont_lists_def return_call)
next
  case (K_mb_send m v timeout d sf)
  with kont have m: "is_mb m k" and t: "sint (timeout_left timeout d (rt_tick_get k)) < 0x7fffffff"
    using timeout_left_bound [of timeout d k] by (simp_all add: mb_kont_ok_def mb_kont_timely_def)
  with mb_loop_call(1) [OF ok c m t] K_mb_send ok(1) c objs_okD(8) [OF ok(2) m] show ?thesis
    by (simp add: mb_kont_run_def mb_kont_lists_def return_call)
next
  case (K_mb_recv m timeout d sf)
  with kont have m: "is_mb m k" and t: "sint (timeout_left timeout d (rt_tick_get k)) < 0x7fffffff"
    using timeout_left_bound [of timeout d k] by (simp_all add: mb_kont_ok_def mb_kont_timely_def)
  with mb_loop_call(2) [OF ok c m t] K_mb_recv ok(1) c objs_okD(8) [OF ok(2) m] show ?thesis
    by (simp add: mb_kont_run_def mb_kont_lists_def return_call)
qed

lemma reset_lists_step:
  assumes ok: "kernel_ok k" and c: "can_block c k"
  shows "\<exists>k1 k2. rt_ipc_list_resume_all w1 k = Some (RT_EOK, k1) \<and> rt_ipc_list_resume_all w2 k1 = Some (RT_EOK, k2) \<and>
    kernel_ok k2 \<and> frame c W k k2 \<and> can_block c k2 \<and> k_mb k2 = k_mb k \<and> k_mq k2 = k_mq k"
proof -
  obtain k1 where k1: "rt_ipc_list_resume_all w1 k = Some (RT_EOK, k1)" "kernel_ok k1" "frame c W k k1" "can_block c k1"
      "all_woken w1 k k1"
    using reset_step [OF ok c, of w1 W] by blast
  obtain k2 where "rt_ipc_list_resume_all w2 k1 = Some (RT_EOK, k2)" "kernel_ok k2" "frame c W k1 k2" "can_block c k2"
      "all_woken w2 k1 k2"
    using reset_step [OF k1(2,4), of w2 W] by blast
  with k1 frame_trans [OF k1(3), of k2] show ?thesis by (auto simp: all_woken_def)
qed

lemma mb_reset_call:
  assumes ok: "kernel_ok k" "objs_ok k" and c: "can_block c k" and m: "is_mb m k"
  shows "call_ok c (mb_lists m) k (rt_mb_control m (RT_IPC_CMD_RESET v) k)"
proof -
  obtain k1 k2 where k2: "rt_ipc_list_resume_all (Mb_recv_q m) k = Some (RT_EOK, k1)"
      "rt_ipc_list_resume_all (Mb_send_q m) k1 = Some (RT_EOK, k2)" "kernel_ok k2" "frame c (mb_lists m) k k2"
      "can_block c k2" "k_mb k2 = k_mb k"
    using reset_lists_step [OF ok(1) c, of "Mb_recv_q m" "Mb_send_q m" "mb_lists m"] by blast
  let ?mb = "(k_mb k m)\<lparr>mb_entry := 0, mb_in_offset := 0, mb_out_offset := 0\<rparr>"
  have "mb_wf ?mb" using objs_okD(8) [OF ok(2) m] by (auto simp: mb_wf_def word_gt_0_no word_unat_eq_iff)
  with k2 m frame_trans [OF k2(4) frame_set_mb] show ?thesis
    by (simp add: rt_mb_control_def return_call)
qed

section \<open>Message queues\<close>

abbreviation mq_lists :: "nat \<Rightarrow> waitq set" where "mq_lists m \<equiv> {Mq_recv_q m, Mq_send_q m}"

lemma frame_set_mq [simp]: "mq_msg_size mq = mq_msg_size (k_mq k m) \<Longrightarrow> frame c (mq_lists m) k (set_mq m mq k)"
  by (simp add: frame_def set_mq_def)

lemma own_mq [simp]: "own (mq_lists m) k"
  by (simp add: own_def)

lemma can_block_set_mq [simp]: "can_block c (set_mq m mq k) = can_block c k"
  by (simp add: can_block_def) (simp add: set_mq_def)

text \<open>The blocks a call is copying when it leaves its critical section, as pairs of the queue and the block.\<close>

fun mq_held :: "mq_kont \<Rightarrow> (nat \<times> nat) set" where
  "mq_held (K_mq_link_tail m msg _) = {(m, msg)}"
| "mq_held (K_mq_link_head m msg _) = {(m, msg)}"
| "mq_held (K_mq_put_back m msg _) = {(m, msg)}"
| "mq_held _ = {}"

fun out_held :: "('r, mq_kont) outcome \<Rightarrow> (nat \<times> nat) set" where
  "out_held (Return _) = {}" | "out_held (Reschedule c) = mq_held c" | "out_held (Continue c) = mq_held c"

text \<open>All message queues, when the blocks \<open>H\<close> are being copied.\<close>

definition mqs_ok :: "(nat \<times> nat) set \<Rightarrow> kernel \<Rightarrow> bool" where
  "mqs_ok H k \<longleftrightarrow> (\<forall>m. is_mq m k \<longrightarrow> mq_ok (H `` {m}) (k_mq k m))"

text \<open>What a critical section does to queue \<open>m\<close> while others copy the blocks \<open>H\<close>: the blocks it takes off the lists are new ones.\<close>

definition copies_ok :: "nat \<Rightarrow> (nat \<times> nat) set \<Rightarrow> mq_result \<Rightarrow> bool" where
  "copies_ok m H res \<longleftrightarrow> (\<forall>r k'. res = Some (r, k') \<longrightarrow>
     out_held r \<subseteq> {m} \<times> UNIV \<and> out_held r \<inter> H = {} \<and> mq_ok ((H \<union> out_held r) `` {m}) (k_mq k' m))"

lemma copies_return: "mq_ok (H `` {m}) (k_mq k' m) \<Longrightarrow> out_held r = {} \<Longrightarrow> copies_ok m H (Some (r, k'))"
  by (simp add: copies_ok_def)

lemma copies_take:
  assumes "mq_ok (insert i (H `` {m})) (k_mq k' m)" "i \<notin> H `` {m}" "mq_held c = {(m, i)}"
  shows "copies_ok m H (Some (Continue c, k'))"
proof -
  have "(H \<union> {(m, i)}) `` {m} = insert i (H `` {m})" by auto
  with assms show ?thesis by (auto simp: copies_ok_def)
qed

lemma copies_wait:
  assumes ok: "kernel_ok k1" and c: "can_block c k1" and flag: "flag \<in> {RT_IPC_FLAG_FIFO, RT_IPC_FLAG_PRIO}"
    and time: "time \<noteq> 0" "sint time < 0x7fffffff" and mq: "mq_ok (H `` {m}) (k_mq k1 m)" and h: "\<And>k. mq_held (h k) = {}"
  shows "copies_ok m H (do {
      (ret, k2) \<leftarrow> rt_ipc_list_suspend w c flag sf k1;
      if ret \<noteq> RT_EOK then Some (Return (g ret), k2)
      else do { k' \<leftarrow> arm_if_positive c time k2; Some (Reschedule (h k2), k') } })"
  using block_total [OF ok c flag time, of w sf] mq h by (auto simp: blocked_def intro!: copies_return)

lemma copies_wake:
  assumes ok: "kernel_ok k1" and c: "can_block c k1" and mq: "mq_ok (H `` {m}) (k_mq k1 m)" and a: "mq_held a = {}"
  shows "copies_ok m H (if k_queue k1 (Wait w) \<noteq> []
     then do { (_, k') \<leftarrow> rt_ipc_list_resume w k1; Some (Reschedule a, k') } else Some (Return b, k1))"
proof (cases "k_queue k1 (Wait w)")
  case Nil
  with mq show ?thesis by (simp add: copies_return)
next
  case (Cons t ts)
  with wake_step [OF ok c Cons, of UNIV] mq a show ?thesis by (auto intro!: copies_return)
qed

lemma mq_count_call:
  assumes ok: "kernel_ok k1" and c: "can_block c k1" and f: "frame c (mq_lists m) k k1"
    and e: "mq_entry (k_mq k1 m) < RT_MQ_ENTRY_MAX" and mq: "mq_ok (H `` {m}) ((k_mq k1 m)\<lparr>mq_entry := mq_entry (k_mq k1 m) + 1\<rparr>)"
  shows "call_ok c (mq_lists m) k (mq_count_and_wake m k1)" "copies_ok m H (mq_count_and_wake m k1)"
proof -
  let ?k = "set_mq m ((k_mq k1 m)\<lparr>mq_entry := mq_entry (k_mq k1 m) + 1\<rparr>) k1"
  have r: "mq_count_and_wake m k1 =
    (if k_queue ?k (Wait (Mq_recv_q m)) \<noteq> []
     then do { (_, k) \<leftarrow> rt_ipc_list_resume (Mq_recv_q m) ?k; Some (Reschedule (K_mq_return RT_EOK None), k) }
     else Some (Return (RT_EOK, None), ?k))"
    using e by (simp add: mq_count_and_wake_def)
  show "call_ok c (mq_lists m) k (mq_count_and_wake m k1)"
    unfolding r by (rule wake_call) (use ok c frame_trans [OF f frame_set_mq] in simp_all)
  show "copies_ok m H (mq_count_and_wake m k1)"
    unfolding r by (rule copies_wake) (use ok c mq in simp_all)
qed

text \<open>The second critical sections: the block \<open>i\<close> that was copied goes back on a list.\<close>

lemma mq_link_call:
  assumes ok: "kernel_ok k" and c: "can_block c k" and mq: "mq_ok (insert i (H `` {m})) (k_mq k m)" "i \<notin> H `` {m}"
    and b: "length b \<le> unat (mq_msg_size (k_mq k m))"
  shows "call_ok c (mq_lists m) k (mq_send_link m i b k)" "copies_ok m H (mq_send_link m i b k)"
    "call_ok c (mq_lists m) k (mq_urgent_link m i b k)" "copies_ok m H (mq_urgent_link m i b k)"
proof -
  have X: "insert i (H `` {m}) - {i} = H `` {m}" using mq(2) by auto
  note t = mq_tail_ok [OF mq(1) insertI1 b, unfolded X] and h = mq_head_ok [OF mq(1) insertI1 b, unfolded X]
  have *: "call_ok c (mq_lists m) k (mq_count_and_wake m (set_mq m mq' k)) \<and> copies_ok m H (mq_count_and_wake m (set_mq m mq' k))"
    if "mq_ok (H `` {m}) (mq'\<lparr>mq_entry := mq_entry mq' + 1\<rparr>)" "mq_entry mq' < RT_MQ_ENTRY_MAX" "mq_msg_size mq' = mq_msg_size (k_mq k m)" for mq'
    using mq_count_call [of "set_mq m mq' k" c m k H] that ok c by simp
  show "call_ok c (mq_lists m) k (mq_send_link m i b k)" "copies_ok m H (mq_send_link m i b k)"
    unfolding mq_send_link_def Let_def using * [OF t] by blast+
  show "call_ok c (mq_lists m) k (mq_urgent_link m i b k)" "copies_ok m H (mq_urgent_link m i b k)"
    unfolding mq_urgent_link_def Let_def using * [OF h] by blast+
qed

lemma mq_put_back_call:
  assumes ok: "kernel_ok k" and c: "can_block c k" and mq: "mq_ok (insert i (H `` {m})) (k_mq k m)" "i \<notin> H `` {m}"
  shows "call_ok c (mq_lists m) k (mq_recv_put_back m i sz k)" "copies_ok m H (mq_recv_put_back m i sz k)"
proof -
  have "insert i (H `` {m}) - {i} = H `` {m}" using mq(2) by auto
  with mq_put_back_ok [OF mq(1), of i] have r: "mq_ok (H `` {m}) (mq_release i (k_mq k m))" by simp
  show "call_ok c (mq_lists m) k (mq_recv_put_back m i sz k)"
    unfolding mq_recv_put_back_def Let_def by (rule wake_call) (use ok c in simp_all)
  show "copies_ok m H (mq_recv_put_back m i sz k)"
    unfolding mq_recv_put_back_def Let_def by (rule copies_wake) (use ok c r in simp_all)
qed

text \<open>The first ones.\<close>

lemma mq_send_commit_call:
  assumes ok: "kernel_ok k" and c: "can_block c k" and mq: "mq_ok (H `` {m}) (k_mq k m)" "mq_free (k_mq k m) \<noteq> None"
  shows "call_ok c (mq_lists m) k (mq_send_commit m b k)" "copies_ok m H (mq_send_commit m b k)"
  using mq_alloc_ok [OF mq] ok c by (auto simp: mq_send_commit_def intro!: return_call copies_take)

lemma mq_urgent_call:
  assumes ok: "kernel_ok k" and c: "can_block c k" and m: "is_mq m k" and b: "b \<noteq> []" and mq: "mq_ok (H `` {m}) (k_mq k m)"
  shows "call_ok c (mq_lists m) k (rt_mq_urgent m b k)" "copies_ok m H (rt_mq_urgent m b k)"
proof -
  consider (big) "\<not> length b \<le> unat (mq_msg_size (k_mq k m))" | (full) "length b \<le> unat (mq_msg_size (k_mq k m))" "mq_free (k_mq k m) = None"
    | (room) "length b \<le> unat (mq_msg_size (k_mq k m))" "mq_free (k_mq k m) \<noteq> None" by blast
  then have "call_ok c (mq_lists m) k (rt_mq_urgent m b k) \<and> copies_ok m H (rt_mq_urgent m b k)"
  proof cases
    case room
    with mq_alloc_ok [OF mq room(2)] ok c m b show ?thesis
      by (auto simp: rt_mq_urgent_def intro!: return_call copies_take)
  qed (use ok c m b mq in \<open>auto simp: rt_mq_urgent_def mq_alloc_def intro!: return_call copies_return\<close>)
  then show "call_ok c (mq_lists m) k (rt_mq_urgent m b k)" "copies_ok m H (rt_mq_urgent m b k)" by blast+
qed

lemma mq_recv_commit_call:
  assumes ok: "kernel_ok k" and c: "can_block c k" and mq: "mq_ok (H `` {m}) (k_mq k m)" "mq_entry (k_mq k m) \<noteq> 0"
  shows "call_ok c (mq_lists m) k (mq_recv_commit m sz k)" "copies_ok m H (mq_recv_commit m sz k)"
  using mq_unlink_ok [OF mq] ok c by (auto simp: mq_recv_commit_def intro!: return_call copies_take)

lemma mq_send_loop_call:
  assumes ok: "kernel_ok k" "objs_ok k" and c: "can_block c k" and m: "is_mq m k" "mq_ok (H `` {m}) (k_mq k m)"
    and time: "sint timeout < 0x7fffffff"
  shows "call_ok c (mq_lists m) k (mq_send_loop m b timeout d sf k)" "copies_ok m H (mq_send_loop m b timeout d sf k)"
proof -
  have cc: "k_current k = Some c" "running (stat c k)" "k_interrupt_nest k = 0" using c by (simp_all add: can_block_def)
  let ?k = "set_error c (- RT_EINTR) k" and ?f = "obj_flag (k_obj k (O_mq m))"
  let ?h = "\<lambda>k. K_mq_send m b timeout (if 0 < sint timeout then rt_tick_get k else d) sf"
  have fl: "?f \<in> {RT_IPC_FLAG_FIFO, RT_IPC_FLAG_PRIO}" using objs_okD(9) [OF ok(2) m(1)] by (simp add: mq_flag_ok_def)
  note D = mq_send_loop_def RT_DEBUG_IN_THREAD_CONTEXT_def rt_thread_self_def Let_def
  consider (free) "mq_free (k_mq k m) \<noteq> None" | (poll) "mq_free (k_mq k m) = None" "timeout = 0"
    | (wait) "mq_free (k_mq k m) = None" "timeout \<noteq> 0" by blast
  then have "call_ok c (mq_lists m) k (mq_send_loop m b timeout d sf k) \<and> copies_ok m H (mq_send_loop m b timeout d sf k)"
  proof cases
    case free
    then show ?thesis using mq_send_commit_call [OF ok(1) c m(2)] by (auto simp: mq_send_loop_def)
  next
    case poll
    with cc ok(1) c m(2) show ?thesis by (simp add: D return_call copies_return)
  next
    case wait
    note w = wait_call [of ?k c ?f timeout "mq_lists m" k "Mq_send_q m" sf "\<lambda>r. (r, None)" ?h]
    note p = copies_wait [of ?k c ?f timeout H m ?h "Mq_send_q m" sf "\<lambda>r. (r, None)"]
    show ?thesis using wait cc w p ok(1) c fl time m(2) by (simp add: D cong: if_cong)
  qed
  then show "call_ok c (mq_lists m) k (mq_send_loop m b timeout d sf k)" "copies_ok m H (mq_send_loop m b timeout d sf k)" by blast+
qed

lemma mq_recv_loop_call:
  assumes ok: "kernel_ok k" "objs_ok k" and c: "can_block c k" and m: "is_mq m k" "mq_ok (H `` {m}) (k_mq k m)"
    and time: "sint timeout < 0x7fffffff"
  shows "call_ok c (mq_lists m) k (mq_recv_loop m sz timeout d sf k)" "copies_ok m H (mq_recv_loop m sz timeout d sf k)"
proof -
  have cc: "k_current k = Some c" "running (stat c k)" "k_interrupt_nest k = 0" using c by (simp_all add: can_block_def)
  let ?k = "set_error c (- RT_EINTR) k" and ?f = "obj_flag (k_obj k (O_mq m))"
  let ?h = "\<lambda>k. K_mq_recv m sz timeout (if 0 < sint timeout then rt_tick_get k else d) sf"
  have fl: "?f \<in> {RT_IPC_FLAG_FIFO, RT_IPC_FLAG_PRIO}" using objs_okD(9) [OF ok(2) m(1)] by (simp add: mq_flag_ok_def)
  note D = mq_recv_loop_def RT_DEBUG_IN_THREAD_CONTEXT_def rt_thread_self_def Let_def
  consider (some) "mq_entry (k_mq k m) \<noteq> 0" | (poll) "mq_entry (k_mq k m) = 0" "timeout = 0"
    | (wait) "mq_entry (k_mq k m) = 0" "timeout \<noteq> 0" by blast
  then have "call_ok c (mq_lists m) k (mq_recv_loop m sz timeout d sf k) \<and> copies_ok m H (mq_recv_loop m sz timeout d sf k)"
  proof cases
    case some
    then show ?thesis using mq_recv_commit_call [OF ok(1) c m(2)] by (simp add: mq_recv_loop_def)
  next
    case poll
    with cc ok(1) c m(2) frame_trans [OF frame_set_error frame_set_error] show ?thesis by (simp add: D return_call copies_return)
  next
    case wait
    note w = wait_call [of ?k c ?f timeout "mq_lists m" k "Mq_recv_q m" sf "\<lambda>r. (r, None)" ?h]
    note p = copies_wait [of ?k c ?f timeout H m ?h "Mq_recv_q m" sf "\<lambda>r. (r, None)"]
    show ?thesis using wait cc w p ok(1) c fl time m(2) by (simp add: D cong: if_cong)
  qed
  then show "call_ok c (mq_lists m) k (mq_recv_loop m sz timeout d sf k)" "copies_ok m H (mq_recv_loop m sz timeout d sf k)" by blast+
qed

lemma mq_call:
  assumes ok: "kernel_ok k" "objs_ok k" and c: "can_block c k" and m: "is_mq m k" "mq_ok (H `` {m}) (k_mq k m)"
    and time: "sint timeout < 0x7fffffff"
  shows "b \<noteq> [] \<Longrightarrow> call_ok c (mq_lists m) k (mq_send_wait m b timeout sf k)" "b \<noteq> [] \<Longrightarrow> copies_ok m H (mq_send_wait m b timeout sf k)"
    and "sz \<noteq> 0 \<Longrightarrow> call_ok c (mq_lists m) k (mq_recv m sz timeout sf k)" "sz \<noteq> 0 \<Longrightarrow> copies_ok m H (mq_recv m sz timeout sf k)"
  using mq_send_loop_call [OF assms] mq_recv_loop_call [OF assms] ok(1) c m
  by (simp_all add: mq_send_wait_def mq_recv_def return_call copies_return)

definition mq_kont_ok :: "mq_kont \<Rightarrow> kernel \<Rightarrow> bool" where
  "mq_kont_ok c k \<longleftrightarrow>
    (case c of
       K_mq_return _ _ \<Rightarrow> True
     | K_mq_send m b timeout _ _ \<Rightarrow> is_mq m k \<and> sint timeout < 0x7fffffff \<and> length b \<le> unat (mq_msg_size (k_mq k m))
     | K_mq_recv m _ timeout _ _ \<Rightarrow> is_mq m k \<and> sint timeout < 0x7fffffff
     | K_mq_link_tail m _ b \<Rightarrow> is_mq m k \<and> length b \<le> unat (mq_msg_size (k_mq k m))
     | K_mq_link_head m _ b \<Rightarrow> is_mq m k \<and> length b \<le> unat (mq_msg_size (k_mq k m))
     | K_mq_put_back m _ _ \<Rightarrow> is_mq m k)"

definition mq_kont_timely :: "mq_kont \<Rightarrow> kernel \<Rightarrow> bool" where
  "mq_kont_timely c k \<longleftrightarrow>
    (case c of K_mq_send _ _ timeout d _ \<Rightarrow> timely timeout d k | K_mq_recv _ _ timeout d _ \<Rightarrow> timely timeout d k | _ \<Rightarrow> True)"

definition mq_kont_lists :: "mq_kont \<Rightarrow> waitq set" where
  "mq_kont_lists c =
    (case c of K_mq_return _ _ \<Rightarrow> {} | K_mq_send m _ _ _ _ \<Rightarrow> mq_lists m | K_mq_recv m _ _ _ _ \<Rightarrow> mq_lists m
     | K_mq_link_tail m _ _ \<Rightarrow> mq_lists m | K_mq_link_head m _ _ \<Rightarrow> mq_lists m | K_mq_put_back m _ _ \<Rightarrow> mq_lists m)"

text \<open>Going on with a call on queue \<open>m\<close>.\<close>

fun mq_kont_queue :: "mq_kont \<Rightarrow> nat option" where
  "mq_kont_queue (K_mq_return _ _) = None"
| "mq_kont_queue (K_mq_send m _ _ _ _) = Some m" | "mq_kont_queue (K_mq_recv m _ _ _ _) = Some m"
| "mq_kont_queue (K_mq_link_tail m _ _) = Some m" | "mq_kont_queue (K_mq_link_head m _ _) = Some m"
| "mq_kont_queue (K_mq_put_back m _ _) = Some m"

lemma mq_kont_call:
  assumes ok: "kernel_ok k" "objs_ok k" and c: "can_block c k" and kont: "mq_kont_ok f k" "mq_kont_timely f k"
    and H: "mqs_ok (H \<union> mq_held f) k" "mq_held f \<inter> H = {}"
  shows "call_ok c (mq_kont_lists f) k (mq_kont_run f c k)"
    "mq_kont_queue f = Some m \<Longrightarrow> copies_ok m H (mq_kont_run f c k)"
proof -
  have mq: "mq_ok ((H \<union> mq_held f) `` {m}) (k_mq k m)" if "is_mq m k" for m using H(1) that by (simp add: mqs_ok_def)
  have ins: "insert (m, i) H `` {m} = insert i (H `` {m})" for m i by auto
  have t: "sint (timeout_left timeout d (rt_tick_get k)) < 0x7fffffff" if "timely timeout d k" "sint timeout < 0x7fffffff" for timeout d
    using timeout_left_bound that by blast
  have "call_ok c (mq_kont_lists f) k (mq_kont_run f c k) \<and> (\<forall>m. mq_kont_queue f = Some m \<longrightarrow> copies_ok m H (mq_kont_run f c k))"
  proof (cases f)
    case (K_mq_return e v)
    with ok(1) c show ?thesis by (simp add: mq_kont_run_def mq_kont_lists_def return_call)
  next
    case (K_mq_send m b timeout d sf)
    with kont t [of timeout d] mq [of m] mq_send_loop_call [OF ok c, of m H] ok(1) c show ?thesis
      by (simp add: mq_kont_run_def mq_kont_lists_def mq_kont_ok_def mq_kont_timely_def return_call copies_return)
  next
    case (K_mq_recv m sz timeout d sf)
    with kont t [of timeout d] mq [of m] mq_recv_loop_call [OF ok c, of m H] ok(1) c show ?thesis
      by (simp add: mq_kont_run_def mq_kont_lists_def mq_kont_ok_def mq_kont_timely_def return_call copies_return)
  next
    case (K_mq_link_tail m i b)
    with kont mq [of m] H(2) mq_link_call(1,2) [OF ok(1) c, of i H m b] show ?thesis
      by (simp add: mq_kont_run_def mq_kont_lists_def mq_kont_ok_def ins)
  next
    case (K_mq_link_head m i b)
    with kont mq [of m] H(2) mq_link_call(3,4) [OF ok(1) c, of i H m b] show ?thesis
      by (simp add: mq_kont_run_def mq_kont_lists_def mq_kont_ok_def ins)
  next
    case (K_mq_put_back m i sz)
    with kont mq [of m] H(2) mq_put_back_call [OF ok(1) c, of i H m sz] show ?thesis
      by (simp add: mq_kont_run_def mq_kont_lists_def mq_kont_ok_def ins)
  qed
  then show "call_ok c (mq_kont_lists f) k (mq_kont_run f c k)"
    "mq_kont_queue f = Some m \<Longrightarrow> copies_ok m H (mq_kont_run f c k)" by blast+
qed

lemma mq_reset_call:
  assumes ok: "kernel_ok k" and c: "can_block c k" and m: "is_mq m k" "mq_ok X (k_mq k m)"
  shows "\<exists>k'. rt_mq_control m (RT_IPC_CMD_RESET v) k = Some (Reschedule (K_return RT_EOK), k') \<and>
    call_ok c (mq_lists m) k (rt_mq_control m (RT_IPC_CMD_RESET v) k) \<and> mq_ok X (k_mq k' m)"
proof -
  obtain k1 k2 where k2: "rt_ipc_list_resume_all (Mq_recv_q m) k = Some (RT_EOK, k1)"
      "rt_ipc_list_resume_all (Mq_send_q m) k1 = Some (RT_EOK, k2)" "kernel_ok k2" "frame c (mq_lists m) k k2"
      "can_block c k2" "k_mq k2 = k_mq k"
    using reset_lists_step [OF ok c, of "Mq_recv_q m" "Mq_send_q m" "mq_lists m"] by blast
  obtain qs fs where "mq_repr X qs fs (k_mq k m)" using m(2) by (auto simp: mq_ok_def)
  then obtain mq fs' where mq: "mq_release_all (k_mq k m) = Some mq" "mq_repr X [] fs' (mq\<lparr>mq_entry := 0\<rparr>)"
      "mq_msg_size mq = mq_msg_size (k_mq k m)"
    using mq_release_all_ok [of X qs fs "mq_entry (k_mq k m)" "k_mq k m"] by auto
  have "mq_ok X (mq\<lparr>mq_entry := 0\<rparr>)" using mq(2) by (auto simp: mq_ok_def)
  with k2 m mq frame_trans [OF k2(4) frame_set_mq] show ?thesis
    by (simp add: rt_mq_control_def return_call)
qed

text \<open>All queues after a step that works on queue \<open>m\<close>, or on none.\<close>

lemma mqs_frame: "mqs_ok H k \<Longrightarrow> frame c W k k' \<Longrightarrow> (\<And>m. Mq_recv_q m \<notin> W) \<Longrightarrow> mqs_ok H k'"
  using frameD(11) frame_is(5) unfolding mqs_ok_def by metis

lemma mqs_step:
  assumes "mqs_ok H k" "frame c (mq_lists m) k k'" "mq_ok (H' `` {m}) (k_mq k' m)" "\<And>m'. m' \<noteq> m \<Longrightarrow> H' `` {m'} = H `` {m'}"
  shows "mqs_ok H' k'"
  unfolding mqs_ok_def
proof (intro allI impI)
  fix m' assume "is_mq m' k'"
  then have "is_mq m' k" using frame_is(5) [OF assms(2)] by simp
  then show "mq_ok (H' `` {m'}) (k_mq k' m')"
    using assms(1,3,4) frameD(11) [OF assms(2), of m'] by (cases "m' = m") (simp_all add: mqs_ok_def)
qed

section \<open>Giving up the processor\<close>

lemma frame_suspend_state:
  assumes "kernel_inv n base k" "ready (stat t k) \<or> running (stat t k)" "lwp_suspend_sigcheck t sf k"
  shows "frame c W k (suspend_state t sf k)"
  using frame_suspend [OF suspend_with_flag_eq [OF assms]] .

text \<open>Sleeping: without a pending signal, and for less than half the range of the counter.\<close>

lemma sleep_call:
  assumes ok: "kernel_ok k" and c: "can_block c k" "lwp_suspend_sigcheck c RT_INTERRUPTIBLE k" and t: "tick < RT_TICK_HALF"
  shows "call_ok c {} k (rt_thread_sleep tick k)"
proof -
  note sl = thread_sleep_eq [OF assms]
  have inv: "kernel_inv (half - 1) (k_tick k) k" using ok by (simp add: kernel_ok_def)
  have r: "running (stat c k)" "k_current k = Some c" using c by (simp_all add: can_block_def)
  have "frame c {} k (suspend_state c RT_INTERRUPTIBLE k)" using frame_suspend_state [OF inv _ c(2)] r by simp
  from frame_trans [OF this frame_arm_state] show ?thesis
    by (intro call_okI [OF sl(1) sl(2)]) (use r in simp_all)
qed

definition yield_state :: "tid \<Rightarrow> kernel \<Rightarrow> kernel" where
  "yield_state t k =
    (let k = upd_thread t (\<lambda>th. th\<lparr>th_remaining_tick := th_init_tick th\<rparr>) k in set_stat t (stat t k OR RT_THREAD_STAT_YIELD) k)"

lemma yield_eq: "k_current k = Some c \<Longrightarrow> rt_thread_yield k = map_option (\<lambda>k. (RT_EOK, k)) (rt_schedule (yield_state c k))"
  by (cases "rt_schedule (yield_state c k)") (simp_all add: rt_thread_yield_def yield_state_def rt_thread_self_def Let_def)

lemma yield_state_ok:
  assumes "kernel_inv n base k"
  shows "kernel_inv n base (yield_state t k)" "frame c W k (yield_state t k)" "k_current (yield_state t k) = k_current k"
    "k_tick (yield_state t k) = k_tick k" "k_lock_nest (yield_state t k) = k_lock_nest k"
proof -
  show "kernel_inv n base (yield_state t k)" using yield_inv assms by (simp add: yield_state_def Let_def)
  show "frame c W k (yield_state t k)" by (simp add: frame_def yield_state_def upd_thread_def set_stat_def live_def Let_def)
qed (simp_all add: yield_state_def upd_thread_def set_stat_def Let_def)

end
