(* ===== verification/System.thy ===== *)
theory System
  imports Msgcalls
begin

text \<open>
  The whole system: threads that make kernel calls one after the other, on one processor, with tick
  interrupts at any time between the critical sections. A state is the kernel and, for every
  thread, where it is in its current call. No assertion of the kernel fails in any
  interleaving.
\<close>

section \<open>Threads and their calls\<close>

datatype kont = K_ipc ipc_kont | K_evt event_kont | K_mbox mb_kont | K_msgq mq_kont | K_sleep

text \<open>A thread runs its own code, or is about to call \<open>rt_schedule\<close>, or goes on with a call
  after \<open>rt_schedule\<close> returned.\<close>

datatype pc = User | Resched kont | Cont kont

text \<open>Where a thread is after a critical section: back in its own code, before a call of \<open>rt_schedule\<close>, or
  between two critical sections with interrupts enabled.\<close>

fun goes_on :: "('c \<Rightarrow> kont) \<Rightarrow> ('r, 'c) outcome \<Rightarrow> pc" where
  "goes_on f (Return _) = User" | "goes_on f (Reschedule c) = Resched (f c)" | "goes_on f (Continue c) = Cont (f c)"

datatype call =
    Sem_take nat u32 suspend_flag | Sem_release nat | Sem_reset nat u64
  | Mutex_take nat u32 suspend_flag | Mutex_release nat
  | Event_send nat u32 | Event_recv nat u32 u8 u32 suspend_flag | Event_reset nat u64
  | Mb_send nat u64 u32 suspend_flag | Mb_recv nat u32 suspend_flag | Mb_reset nat u64
  | Mq_send nat "u8 list" u32 suspend_flag | Mq_urgent nat "u8 list" | Mq_recv nat nat u32 suspend_flag
  | Mq_reset nat u64 | Thread_sleep u32

definition ended :: "('c \<Rightarrow> kont) \<Rightarrow> (('r, 'c) outcome \<times> kernel) option \<Rightarrow> (pc \<times> kernel) option" where
  "ended f res = map_option (\<lambda>(r, k). (goes_on f r, k)) res"

text \<open>A call up to the end of its first critical section.\<close>

fun do_call :: "call \<Rightarrow> kernel \<Rightarrow> (pc \<times> kernel) option" where
  "do_call (Sem_take s time sf) k = ended K_ipc (sem_take s time sf k)"
| "do_call (Sem_release s) k = ended K_ipc (rt_sem_release s k)"
| "do_call (Sem_reset s v) k = ended K_ipc (rt_sem_control s (RT_IPC_CMD_RESET v) k)"
| "do_call (Mutex_take m time sf) k = ended K_ipc (mutex_take m time sf k)"
| "do_call (Mutex_release m) k = ended K_ipc (rt_mutex_release m k)"
| "do_call (Event_send e sset) k = ended K_ipc (rt_event_send e sset k)"
| "do_call (Event_recv e sset opt timeout sf) k = ended K_evt (event_recv e sset opt timeout sf k)"
| "do_call (Event_reset e v) k = ended K_ipc (rt_event_control e (RT_IPC_CMD_RESET v) k)"
| "do_call (Mb_send m v timeout sf) k = ended K_mbox (mb_send_wait m v timeout sf k)"
| "do_call (Mb_recv m timeout sf) k = ended K_mbox (mb_recv m timeout sf k)"
| "do_call (Mb_reset m v) k = ended K_ipc (rt_mb_control m (RT_IPC_CMD_RESET v) k)"
| "do_call (Mq_send m b timeout sf) k = ended K_msgq (mq_send_wait m b timeout sf k)"
| "do_call (Mq_urgent m b) k = ended K_msgq (rt_mq_urgent m b k)"
| "do_call (Mq_recv m sz timeout sf) k = ended K_msgq (mq_recv m sz timeout sf k)"
| "do_call (Mq_reset m v) k = ended K_ipc (rt_mq_control m (RT_IPC_CMD_RESET v) k)"
| "do_call (Thread_sleep tick) k = ended (\<lambda>_. K_sleep) (rt_thread_sleep tick k)"

text \<open>The preconditions of the calls: the object exists, the waiting time fits the timer, and the
  arguments are those the assertions of the call ask for.\<close>

fun call_pre :: "tid \<Rightarrow> call \<Rightarrow> kernel \<Rightarrow> bool" where
  "call_pre c (Sem_take s time sf) k \<longleftrightarrow> is_sem s k \<and> sint time < 0x7fffffff"
| "call_pre c (Sem_release s) k \<longleftrightarrow> is_sem s k"
| "call_pre c (Sem_reset s v) k \<longleftrightarrow> is_sem s k"
| "call_pre c (Mutex_take m time sf) k \<longleftrightarrow> is_mutex m k \<and> sint time < 0x7fffffff"
| "call_pre c (Mutex_release m) k \<longleftrightarrow> is_mutex m k"
| "call_pre c (Event_send e sset) k \<longleftrightarrow> is_event e k"
| "call_pre c (Event_recv e sset opt timeout sf) k \<longleftrightarrow> is_event e k \<and> valid_info opt \<and> sint timeout < 0x7fffffff"
| "call_pre c (Event_reset e v) k \<longleftrightarrow> is_event e k"
| "call_pre c (Mb_send m v timeout sf) k \<longleftrightarrow> is_mb m k \<and> sint timeout < 0x7fffffff"
| "call_pre c (Mb_recv m timeout sf) k \<longleftrightarrow> is_mb m k \<and> sint timeout < 0x7fffffff"
| "call_pre c (Mb_reset m v) k \<longleftrightarrow> is_mb m k"
| "call_pre c (Mq_send m b timeout sf) k \<longleftrightarrow> is_mq m k \<and> b \<noteq> [] \<and> sint timeout < 0x7fffffff"
| "call_pre c (Mq_urgent m b) k \<longleftrightarrow> is_mq m k \<and> b \<noteq> []"
| "call_pre c (Mq_recv m sz timeout sf) k \<longleftrightarrow> is_mq m k \<and> sz \<noteq> 0 \<and> sint timeout < 0x7fffffff"
| "call_pre c (Mq_reset m v) k \<longleftrightarrow> is_mq m k"
| "call_pre c (Thread_sleep tick) k \<longleftrightarrow> lwp_suspend_sigcheck c RT_INTERRUPTIBLE k \<and> tick < RT_TICK_HALF"

text \<open>The next critical section of a call.\<close>

fun do_kont :: "kont \<Rightarrow> tid \<Rightarrow> kernel \<Rightarrow> (pc \<times> kernel) option" where
  "do_kont (K_ipc f) c k = Some (User, k)"
| "do_kont (K_evt f) c k = Some (User, k)"
| "do_kont (K_mbox f) c k = ended K_mbox (mb_kont_run f c k)"
| "do_kont (K_msgq f) c k = ended K_msgq (mq_kont_run f c k)"
| "do_kont K_sleep c k = Some (User, snd (sleep_resume c k))"

text \<open>The locals of an unfinished call; a call that goes on does so before half the range of the tick
  counter went by (248 days at 100 ticks per second).\<close>

fun kont_ok :: "kont \<Rightarrow> kernel \<Rightarrow> bool" where
  "kont_ok (K_mbox f) k = mb_kont_ok f k"
| "kont_ok (K_msgq f) k = mq_kont_ok f k"
| "kont_ok _ k = True"

fun kont_timely :: "kont \<Rightarrow> kernel \<Rightarrow> bool" where
  "kont_timely (K_mbox f) k = mb_kont_timely f k"
| "kont_timely (K_msgq f) k = mq_kont_timely f k"
| "kont_timely _ k = True"

section \<open>The steps of the system\<close>

type_synonym sys = "kernel \<times> (tid \<Rightarrow> pc)"

definition after :: "tid \<Rightarrow> (tid \<Rightarrow> pc) \<Rightarrow> (pc \<times> kernel) option \<Rightarrow> sys option" where
  "after c pcs res = map_option (\<lambda>(p, k). (k, pcs(c := p))) res"

text \<open>The interrupt handler of the system tick.\<close>

definition tick_isr :: "callbacks \<Rightarrow> kernel \<Rightarrow> kernel option" where
  "tick_isr cb k = map_option rt_interrupt_leave (rt_tick_increase cb (rt_interrupt_enter k))"

text \<open>The second state is \<open>None\<close> if an assertion fails or a loop does not end. The idle thread makes no
  calls.\<close>

inductive sys_step :: "callbacks \<Rightarrow> sys \<Rightarrow> sys option \<Rightarrow> bool" for cb where
  call: "k_current k = Some c \<Longrightarrow> c \<noteq> idle_thread \<Longrightarrow> pcs c = User \<Longrightarrow> call_pre c a k \<Longrightarrow>
    sys_step cb (k, pcs) (after c pcs (do_call a k))"
| resched: "k_current k = Some c \<Longrightarrow> pcs c = Resched f \<Longrightarrow>
    sys_step cb (k, pcs) (map_option (\<lambda>k'. (k', pcs(c := Cont f))) (rt_schedule k))"
| cont: "k_current k = Some c \<Longrightarrow> pcs c = Cont f \<Longrightarrow> kont_timely f k \<Longrightarrow>
    sys_step cb (k, pcs) (after c pcs (do_kont f c k))"
| yield: "k_current k = Some c \<Longrightarrow> pcs c = User \<Longrightarrow>
    sys_step cb (k, pcs) (map_option (\<lambda>(_, k'). (k', pcs)) (rt_thread_yield k))"
| tick: "sys_step cb (k, pcs) (map_option (\<lambda>k'. (k', pcs)) (tick_isr cb k))"

inductive sys_reach :: "callbacks \<Rightarrow> sys \<Rightarrow> sys \<Rightarrow> bool" for cb where
  start: "sys_reach cb s s"
| more: "sys_reach cb s s' \<Longrightarrow> sys_step cb s' (Some s'') \<Longrightarrow> sys_reach cb s s''"

text \<open>An abstract account of such systems: an invariant under which no step fails.\<close>

locale safe_steps =
  fixes step :: "'s \<Rightarrow> 's option \<Rightarrow> bool" and reach :: "'s \<Rightarrow> 's \<Rightarrow> bool" and ok :: "'s \<Rightarrow> bool"
  assumes safe: "ok s \<Longrightarrow> step s r \<Longrightarrow> \<exists>s'. r = Some s' \<and> ok s'"
    and reach_induct: "reach s s' \<Longrightarrow> P s \<Longrightarrow> (\<And>s1 s2. reach s s1 \<Longrightarrow> P s1 \<Longrightarrow> step s1 (Some s2) \<Longrightarrow> P s2) \<Longrightarrow> P s'"
begin

lemma reach_ok: "reach s s' \<Longrightarrow> ok s \<Longrightarrow> ok s'"
  by (erule reach_induct [where P = ok]) (use safe in fastforce)+

lemma never_fails: "ok s \<Longrightarrow> reach s s' \<Longrightarrow> step s' r \<Longrightarrow> \<exists>s''. r = Some s'' \<and> ok s''"
  using safe reach_ok by blast

end

section \<open>The invariant of the system\<close>

definition pc_ok :: "pc \<Rightarrow> kernel \<Rightarrow> bool" where
  "pc_ok p k \<longleftrightarrow> (case p of User \<Rightarrow> True | Resched f \<Rightarrow> kont_ok f k | Cont f \<Rightarrow> kont_ok f k)"

text \<open>The blocks of message queues that a thread holds while it copies a message: they are on no list of their queue. No two
  threads hold the same block.\<close>

fun kont_held :: "kont \<Rightarrow> (nat \<times> nat) set" where
  "kont_held (K_msgq f) = mq_held f" | "kont_held _ = {}"

fun pc_held :: "pc \<Rightarrow> (nat \<times> nat) set" where
  "pc_held User = {}" | "pc_held (Resched f) = kont_held f" | "pc_held (Cont f) = kont_held f"

definition held :: "tid set \<Rightarrow> (tid \<Rightarrow> pc) \<Rightarrow> (nat \<times> nat) set" where
  "held T pcs = (\<Union>t\<in>T. pc_held (pcs t))"

definition copying :: "(tid \<Rightarrow> pc) \<Rightarrow> kernel \<Rightarrow> bool" where
  "copying pcs k \<longleftrightarrow> mqs_ok (held UNIV pcs) k \<and> (\<forall>t. pc_held (pcs t) \<inter> held (- {t}) pcs = {})"

lemma held_split: "held UNIV pcs = held (- {c}) pcs \<union> pc_held (pcs c)"
  by (auto simp: held_def)

lemma held_others [simp]: "held (- {c}) (pcs(c := p)) = held (- {c}) pcs"
  by (simp add: held_def)

lemma copying_set:
  assumes "copying pcs k" "mqs_ok (held (- {c}) pcs \<union> pc_held p) k'" "pc_held p \<inter> held (- {c}) pcs = {}"
  shows "copying (pcs(c := p)) k'"
proof -
  have "pc_held ((pcs(c := p)) t) \<inter> held (- {t}) (pcs(c := p)) = {}" for t
  proof (cases "t = c")
    case False
    have "pc_held (pcs t) \<inter> held (- {t}) pcs = {}" using assms(1) by (simp add: copying_def)
    moreover have "pc_held (pcs t) \<subseteq> held (- {c}) pcs" using False by (auto simp: held_def)
    moreover have "held (- {t}) (pcs(c := p)) \<subseteq> held (- {t}) pcs \<union> pc_held p" by (auto simp: held_def split: if_splits)
    ultimately show ?thesis using False assms(3) by auto
  qed (use assms(3) in simp)
  with assms(2) show ?thesis by (simp add: copying_def held_split [of "pcs(c := p)" c])
qed

lemma copying_same:
  assumes "copying pcs k" "pc_held p = pc_held (pcs c)"
  shows "copying (pcs(c := p)) k"
  by (rule copying_set [OF assms(1)]) (use assms in \<open>simp_all add: copying_def flip: held_split\<close>)

text \<open>The current thread runs, unless it is about to give up the processor.\<close>

definition on_cpu :: "(tid \<Rightarrow> pc) \<Rightarrow> kernel \<Rightarrow> bool" where
  "on_cpu pcs k \<longleftrightarrow> (\<exists>c. k_current k = Some c \<and> (running (stat c k) \<or> (\<exists>f. pcs c = Resched f)))"

definition threads_ok :: "u8 \<Rightarrow> (tid \<Rightarrow> pc) \<Rightarrow> kernel \<Rightarrow> bool" where
  "threads_ok nest pcs k \<longleftrightarrow> objs_ok k \<and> k_lock_nest k = 0 \<and> k_interrupt_nest k = nest \<and> on_cpu pcs k \<and> (\<forall>t. pc_ok (pcs t) k) \<and> copying pcs k"

definition sys_ok :: "sys \<Rightarrow> bool" where
  "sys_ok s \<longleftrightarrow> (case s of (k, pcs) \<Rightarrow> kernel_ok k \<and> threads_ok 0 pcs k \<and> pcs idle_thread = User)"

lemma frame_pc_ok:
  assumes f: "frame c W k k'" and ok: "pc_ok p k"
  shows "pc_ok p k'"
proof -
  have "kont_ok x k'" if "kont_ok x k" for x
    using that
    by (cases x) (auto simp: mb_kont_ok_def mq_kont_ok_def frame_is [OF f] frameD(14) [OF f] split: mb_kont.splits mq_kont.splits)
  with ok show ?thesis by (cases p) (simp_all add: pc_ok_def)
qed

section \<open>A call keeps the invariant\<close>

text \<open>The wait lists of the object a call works on.\<close>

fun call_lists :: "call \<Rightarrow> waitq set" where
  "call_lists (Sem_take s _ _) = {Sem_q s}" | "call_lists (Sem_release s) = {Sem_q s}" | "call_lists (Sem_reset s _) = {Sem_q s}"
| "call_lists (Mutex_take m _ _) = {Mutex_q m}" | "call_lists (Mutex_release m) = {Mutex_q m}"
| "call_lists (Event_send e _) = {Event_q e}" | "call_lists (Event_recv e _ _ _ _) = {Event_q e}"
| "call_lists (Event_reset e _) = {Event_q e}"
| "call_lists (Mb_send m _ _ _) = mb_lists m" | "call_lists (Mb_recv m _ _) = mb_lists m" | "call_lists (Mb_reset m _) = mb_lists m"
| "call_lists (Mq_send m _ _ _) = mq_lists m" | "call_lists (Mq_urgent m _) = mq_lists m"
| "call_lists (Mq_recv m _ _ _) = mq_lists m" | "call_lists (Mq_reset m _) = mq_lists m" | "call_lists (Thread_sleep _) = {}"

fun kont_lists :: "kont \<Rightarrow> waitq set" where
  "kont_lists (K_mbox f) = mb_kont_lists f" | "kont_lists (K_msgq f) = mq_kont_lists f" | "kont_lists _ = {}"

text \<open>A critical section of thread \<open>c\<close>, while the other threads hold the blocks \<open>H\<close>.\<close>

definition done_ok :: "tid \<Rightarrow> waitq set \<Rightarrow> (nat \<times> nat) set \<Rightarrow> kernel \<Rightarrow> (pc \<times> kernel) option \<Rightarrow> bool" where
  "done_ok c W H k res \<longleftrightarrow> (\<exists>p k'. res = Some (p, k') \<and> kernel_ok k' \<and> frame c W k k' \<and> own W k' \<and> k_current k' = Some c \<and>
     ((\<forall>f. p \<noteq> Resched f) \<longrightarrow> running (stat c k')) \<and> pc_ok p k' \<and> mqs_ok (H \<union> pc_held p) k' \<and> pc_held p \<inter> H = {})"

lemma done_call:
  assumes "call_ok c W k res"
    and "\<And>r k'. res = Some (r, k') \<Longrightarrow> frame c W k k' \<Longrightarrow>
      pc_ok (goes_on g r) k' \<and> mqs_ok (H \<union> pc_held (goes_on g r)) k' \<and> pc_held (goes_on g r) \<inter> H = {}"
  shows "done_ok c W H k (ended g res)"
proof -
  obtain r k' where r: "res = Some (r, k')" "kernel_ok k'" "frame c W k k'" "own W k'" "k_current k' = Some c"
      "\<not> gives_up r \<longrightarrow> running (stat c k')"
    using assms(1) unfolding call_ok_def by blast
  moreover have "(\<forall>f. goes_on g r \<noteq> Resched f) \<longrightarrow> \<not> gives_up r" by (cases r) auto
  ultimately show ?thesis
    using assms(2) [OF r(1,3)] unfolding done_ok_def by (auto simp: ended_def)
qed

text \<open>A call that does not work on a message queue.\<close>

lemma done_plain:
  assumes "call_ok c W k res" "mqs_ok H k" "\<And>m. Mq_recv_q m \<notin> W" "\<And>f. kont_held (g f) = {}"
    and "\<And>r k'. res = Some (r, k') \<Longrightarrow> frame c W k k' \<Longrightarrow> pc_ok (goes_on g r) k'"
  shows "done_ok c W H k (ended g res)"
proof (rule done_call [OF assms(1)])
  fix r k' assume r: "res = Some (r, k')" "frame c W k k'"
  have "pc_held (goes_on g r) = {}" using assms(4) by (cases r) simp_all
  then show "pc_ok (goes_on g r) k' \<and> mqs_ok (H \<union> pc_held (goes_on g r)) k' \<and> pc_held (goes_on g r) \<inter> H = {}"
    using assms(5) [OF r] mqs_frame [OF assms(2) r(2) assms(3)] by simp
qed

lemma pc_ok_trivial: "(\<And>f. kont_ok (g f) k) \<Longrightarrow> pc_ok (goes_on g r) k"
  by (cases r) (simp_all add: pc_ok_def)

lemma done_simple:
  assumes "call_ok c W k res" "mqs_ok H k" "\<And>m. Mq_recv_q m \<notin> W" shows "done_ok c W H k (ended K_ipc res)"
  by (rule done_plain [OF assms]) (simp_all add: pc_ok_trivial)

text \<open>A call on message queue \<open>m\<close>.\<close>

lemma done_copies:
  assumes "call_ok c (mq_lists m) k res" "copies_ok m H res" "mqs_ok H0 k" "\<And>m'. m' \<noteq> m \<Longrightarrow> H0 `` {m'} = H `` {m'}"
    and "\<And>r k'. res = Some (r, k') \<Longrightarrow> frame c (mq_lists m) k k' \<Longrightarrow> pc_ok (goes_on K_msgq r) k'"
  shows "done_ok c (mq_lists m) H k (ended K_msgq res)"
proof (rule done_call [OF assms(1)])
  fix r k' assume r: "res = Some (r, k')" "frame c (mq_lists m) k k'"
  have h: "pc_held (goes_on K_msgq r) = out_held r" by (cases r) simp_all
  have o: "out_held r \<subseteq> {m} \<times> UNIV" "out_held r \<inter> H = {}" "mq_ok ((H \<union> out_held r) `` {m}) (k_mq k' m)"
    using assms(2) r(1) unfolding copies_ok_def by blast+
  have "(H \<union> out_held r) `` {m'} = H0 `` {m'}" if "m' \<noteq> m" for m' using assms(4) [OF that] o(1) that by auto
  then have "mqs_ok (H \<union> out_held r) k'" using mqs_step [OF assms(3) r(2) o(3)] by blast
  then show "pc_ok (goes_on K_msgq r) k' \<and> mqs_ok (H \<union> pc_held (goes_on K_msgq r)) k' \<and> pc_held (goes_on K_msgq r) \<inter> H = {}"
    using assms(5) [OF r] o(2) h by simp
qed

lemma bind_split: "(Option.bind x f = Some y) = (\<exists>z. x = Some z \<and> f z = Some y)"
  by (rule bind_eq_Some_conv)

text \<open>Where the loops stop.\<close>

lemma mb_loop_kont:
  "mb_send_loop m v timeout d sf k = Some (r, k') \<Longrightarrow>
     (\<exists>x. r = Return x) \<or> (\<exists>e x. r = Reschedule (K_mb_return e x)) \<or> (\<exists>d. r = Reschedule (K_mb_send m v timeout d sf))"
  "mb_recv_loop m timeout d sf k = Some (r, k') \<Longrightarrow>
     (\<exists>x. r = Return x) \<or> (\<exists>e x. r = Reschedule (K_mb_return e x)) \<or> (\<exists>d. r = Reschedule (K_mb_recv m timeout d sf))"
  by (auto simp: mb_send_loop_def mb_recv_loop_def mb_send_commit_def mb_recv_commit_def bind_split Let_def split: if_splits)

lemma mq_loop_kont:
  "mq_send_loop m b timeout d sf k = Some (r, k') \<Longrightarrow>
     (\<exists>x. r = Return x) \<or> (\<exists>i. r = Continue (K_mq_link_tail m i b)) \<or> (\<exists>d. r = Reschedule (K_mq_send m b timeout d sf))"
  "mq_recv_loop m sz timeout d sf k = Some (r, k') \<Longrightarrow>
     (\<exists>x. r = Return x) \<or> (\<exists>i. r = Continue (K_mq_put_back m i sz)) \<or> (\<exists>d. r = Reschedule (K_mq_recv m sz timeout d sf))"
  "mq_send_link m i b k = Some (r, k') \<Longrightarrow> (\<exists>x. r = Return x) \<or> (\<exists>e x. r = Reschedule (K_mq_return e x))"
  "mq_urgent_link m i b k = Some (r, k') \<Longrightarrow> (\<exists>x. r = Return x) \<or> (\<exists>e x. r = Reschedule (K_mq_return e x))"
  "mq_recv_put_back m i sz k = Some (r, k') \<Longrightarrow> (\<exists>x. r = Return x) \<or> (\<exists>e x. r = Reschedule (K_mq_return e x))"
  by (auto simp: mq_send_loop_def mq_recv_loop_def mq_send_commit_def mq_recv_commit_def mq_send_link_def mq_urgent_link_def
      mq_recv_put_back_def mq_count_and_wake_def bind_split Let_def split: if_splits)

lemma mb_loop_pc:
  assumes "is_mb m k" "sint timeout < 0x7fffffff" "frame c W k k'"
  shows "mb_send_loop m v timeout d sf k = Some (r, k') \<Longrightarrow> pc_ok (goes_on K_mbox r) k'"
    and "mb_recv_loop m timeout d sf k = Some (r, k') \<Longrightarrow> pc_ok (goes_on K_mbox r) k'"
  using assms mb_loop_kont(1) [of m v timeout d sf k r k'] mb_loop_kont(2) [of m timeout d sf k r k']
  by (auto simp: mb_kont_ok_def pc_ok_def frame_is)

lemma mq_loop_pc:
  assumes "is_mq m k" "sint timeout < 0x7fffffff" "frame c W k k'"
  shows "length b \<le> unat (mq_msg_size (k_mq k m)) \<Longrightarrow> mq_send_loop m b timeout d sf k = Some (r, k') \<Longrightarrow> pc_ok (goes_on K_msgq r) k'"
    and "mq_recv_loop m sz timeout d sf k = Some (r, k') \<Longrightarrow> pc_ok (goes_on K_msgq r) k'"
  using assms mq_loop_kont(1) [of m b timeout d sf k r k'] mq_loop_kont(2) [of m sz timeout d sf k r k']
  by (auto simp: mq_kont_ok_def pc_ok_def frame_is frameD(14))

lemma mb_call_pc:
  assumes "is_mb m k" "sint timeout < 0x7fffffff" "frame c W k k'"
  shows "mb_send_wait m v timeout sf k = Some (r, k') \<Longrightarrow> pc_ok (goes_on K_mbox r) k'"
    and "mb_recv m timeout sf k = Some (r, k') \<Longrightarrow> pc_ok (goes_on K_mbox r) k'"
  using assms mb_loop_pc(1) [OF assms, of v 0 sf r] mb_loop_pc(2) [OF assms, of 0 sf r]
  by (auto simp: mb_send_wait_def mb_recv_def pc_ok_def split: if_splits)

lemma mq_call_pc:
  assumes "is_mq m k" "sint timeout < 0x7fffffff" "frame c W k k'"
  shows "mq_send_wait m b timeout sf k = Some (r, k') \<Longrightarrow> pc_ok (goes_on K_msgq r) k'"
    and "mq_recv m sz timeout sf k = Some (r, k') \<Longrightarrow> pc_ok (goes_on K_msgq r) k'"
  using assms mq_loop_pc(1) [OF assms, of b 0 sf r] mq_loop_pc(2) [OF assms, of sz 0 sf r]
  by (auto simp: mq_send_wait_def mq_recv_def pc_ok_def split: if_splits)

lemma mq_urgent_pc:
  assumes "is_mq m k" "frame c W k k'" "rt_mq_urgent m b k = Some (r, k')"
  shows "pc_ok (goes_on K_msgq r) k'"
  using assms(1,3) frame_is(5) [OF assms(2), of m] frameD(14) [OF assms(2), of m]
  by (auto simp: rt_mq_urgent_def mq_kont_ok_def pc_ok_def split: if_splits option.splits)

lemmas call_lemmas = sem_take_call sem_release_call sem_reset_call mutex_take_call mutex_release_call event_send_call
  event_reset_call mb_reset_call

lemma do_call_ok:
  assumes ok: "kernel_ok k" "objs_ok k" and c: "can_block c k" and pre: "call_pre c a k" and H: "mqs_ok H k"
  shows "done_ok c (call_lists a) H k (do_call a k)"
proof (cases a)
  case (Event_recv e sset opt timeout sf)
  then have "call_ok c {Event_q e} k (event_recv e sset opt timeout sf k)" using event_recv_call [OF ok c] pre by simp
  from done_plain [OF this H, of K_evt] Event_recv show ?thesis by (simp add: pc_ok_trivial)
next
  case (Mb_send m v timeout sf)
  then have "call_ok c (mb_lists m) k (mb_send_wait m v timeout sf k)" using mb_call(1) [OF ok c] pre by simp
  then have "done_ok c (mb_lists m) H k (ended K_mbox (mb_send_wait m v timeout sf k))"
    by (rule done_plain [OF _ H]) (use pre Mb_send in \<open>auto intro: mb_call_pc(1)\<close>)
  with Mb_send show ?thesis by simp
next
  case (Mb_recv m timeout sf)
  then have "call_ok c (mb_lists m) k (mb_recv m timeout sf k)" using mb_call(2) [OF ok c] pre by simp
  then have "done_ok c (mb_lists m) H k (ended K_mbox (mb_recv m timeout sf k))"
    by (rule done_plain [OF _ H]) (use pre Mb_recv in \<open>auto intro: mb_call_pc(2)\<close>)
  with Mb_recv show ?thesis by simp
next
  case (Mq_send m b timeout sf)
  with H pre have "mq_ok (H `` {m}) (k_mq k m)" by (simp add: mqs_ok_def)
  note m = mq_call(1,2) [OF ok c _ this]
  have "done_ok c (mq_lists m) H k (ended K_msgq (mq_send_wait m b timeout sf k))"
    by (rule done_copies [OF m(1) m(2) H]) (use pre Mq_send in \<open>auto intro: mq_call_pc(1)\<close>)
  with Mq_send show ?thesis by simp
next
  case (Mq_recv m sz timeout sf)
  with H pre have "mq_ok (H `` {m}) (k_mq k m)" by (simp add: mqs_ok_def)
  note m = mq_call(3,4) [OF ok c _ this]
  have "done_ok c (mq_lists m) H k (ended K_msgq (mq_recv m sz timeout sf k))"
    by (rule done_copies [OF m(1) m(2) H]) (use pre Mq_recv in \<open>auto intro: mq_call_pc(2)\<close>)
  with Mq_recv show ?thesis by simp
next
  case (Mq_urgent m b)
  with H pre have "mq_ok (H `` {m}) (k_mq k m)" by (simp add: mqs_ok_def)
  note m = mq_urgent_call [OF ok(1) c _ _ this]
  have "done_ok c (mq_lists m) H k (ended K_msgq (rt_mq_urgent m b k))"
    by (rule done_copies [OF m(1) m(2) H]) (use pre Mq_urgent in \<open>auto intro: mq_urgent_pc\<close>)
  with Mq_urgent show ?thesis by simp
next
  case (Mq_reset m v)
  with H pre have m: "is_mq m k" "mq_ok (H `` {m}) (k_mq k m)" by (simp_all add: mqs_ok_def)
  obtain k' where k': "rt_mq_control m (RT_IPC_CMD_RESET v) k = Some (Reschedule (K_return RT_EOK), k')"
      "call_ok c (mq_lists m) k (rt_mq_control m (RT_IPC_CMD_RESET v) k)" "mq_ok (H `` {m}) (k_mq k' m)"
    using mq_reset_call [OF ok(1) c m] by blast
  have "done_ok c (mq_lists m) H k (ended K_ipc (rt_mq_control m (RT_IPC_CMD_RESET v) k))"
    by (rule done_call [OF k'(2)]) (use k' mqs_step [OF H _ k'(3)] in \<open>simp add: pc_ok_def\<close>)
  with Mq_reset show ?thesis by simp
next
  case (Thread_sleep tick)
  then have "call_ok c {} k (rt_thread_sleep tick k)" using sleep_call [OF ok(1) c] pre by simp
  from done_plain [OF this H, of "\<lambda>_. K_sleep"] Thread_sleep show ?thesis by (simp add: pc_ok_trivial)
qed (use pre ok c H in \<open>simp_all add: call_lemmas [THEN done_simple]\<close>)

lemma mb_kont_pc:
  assumes "mb_kont_ok f k" "mb_kont_timely f k" "frame c W k k'" "mb_kont_run f t k = Some (r, k')"
  shows "pc_ok (goes_on K_mbox r) k'"
proof (cases f)
  case (K_mb_send m v timeout d sf)
  have "sint (timeout_left timeout d (rt_tick_get k)) < 0x7fffffff"
    using assms(1,2) K_mb_send timeout_left_bound by (simp add: mb_kont_ok_def mb_kont_timely_def)
  with assms K_mb_send mb_loop_pc(1) [OF _ this assms(3)] show ?thesis
    by (auto simp: mb_kont_run_def mb_kont_ok_def pc_ok_def split: if_splits)
next
  case (K_mb_recv m timeout d sf)
  have "sint (timeout_left timeout d (rt_tick_get k)) < 0x7fffffff"
    using assms(1,2) K_mb_recv timeout_left_bound by (simp add: mb_kont_ok_def mb_kont_timely_def)
  with assms K_mb_recv mb_loop_pc(2) [OF _ this assms(3)] show ?thesis
    by (auto simp: mb_kont_run_def mb_kont_ok_def pc_ok_def split: if_splits)
qed (use assms in \<open>auto simp: mb_kont_run_def pc_ok_def\<close>)

lemma mq_kont_pc:
  assumes "mq_kont_ok f k" "mq_kont_timely f k" "frame c W k k'" "mq_kont_run f t k = Some (r, k')"
  shows "pc_ok (goes_on K_msgq r) k'"
proof (cases f)
  case (K_mq_send m b timeout d sf)
  have "sint (timeout_left timeout d (rt_tick_get k)) < 0x7fffffff"
    using assms(1,2) K_mq_send timeout_left_bound by (simp add: mq_kont_ok_def mq_kont_timely_def)
  with assms K_mq_send mq_loop_pc(1) [OF _ this assms(3)] show ?thesis
    by (auto simp: mq_kont_run_def mq_kont_ok_def pc_ok_def split: if_splits)
next
  case (K_mq_recv m sz timeout d sf)
  have "sint (timeout_left timeout d (rt_tick_get k)) < 0x7fffffff"
    using assms(1,2) K_mq_recv timeout_left_bound by (simp add: mq_kont_ok_def mq_kont_timely_def)
  with assms K_mq_recv mq_loop_pc(2) [OF _ this assms(3)] show ?thesis
    by (auto simp: mq_kont_run_def mq_kont_ok_def pc_ok_def split: if_splits)
qed (use assms in \<open>auto simp: mq_kont_run_def mq_kont_ok_def pc_ok_def dest!: mq_loop_kont(3-5)\<close>)

lemma do_kont_ok:
  assumes ok: "kernel_ok k" "objs_ok k" and c: "can_block c k" and f: "kont_ok f k" "kont_timely f k"
    and H: "mqs_ok (H \<union> kont_held f) k" "kont_held f \<inter> H = {}"
  shows "done_ok c (kont_lists f) H k (do_kont f c k)"
proof (cases f)
  case (K_mbox x)
  have l: "Mq_recv_q m \<notin> mb_kont_lists x" for m by (auto simp: mb_kont_lists_def split: mb_kont.splits)
  have "done_ok c (mb_kont_lists x) H k (ended K_mbox (mb_kont_run x c k))"
    by (rule done_plain [OF mb_kont_call [OF ok c]]) (use f H l K_mbox mb_kont_pc in simp_all)
  with K_mbox show ?thesis by simp
next
  case (K_msgq x)
  note k = mq_kont_call [OF ok c, of x H]
  show ?thesis
  proof (cases "mq_kont_queue x")
    case None
    then obtain e v where x: "x = K_mq_return e v" by (cases x) auto
    with K_msgq H ok(1) can_blockD [OF c] show ?thesis
      by (auto simp: done_ok_def ended_def mq_kont_run_def mq_kont_lists_def pc_ok_def)
  next
    case (Some m)
    then have l: "mq_kont_lists x = mq_lists m" "mq_held x \<subseteq> {m} \<times> UNIV" by (cases x; simp add: mq_kont_lists_def)+
    then have h: "(H \<union> mq_held x) `` {m'} = H `` {m'}" if "m' \<noteq> m" for m' using that by auto
    have "done_ok c (mq_lists m) H k (ended K_msgq (mq_kont_run x c k))"
      by (rule done_copies [OF _ _ _ h]) (use f H K_msgq k l(1) Some mq_kont_pc in simp_all)
    with K_msgq l show ?thesis by simp
  qed
next
  case K_sleep
  have f: "frame c {} k (snd (sleep_resume c k))" by (simp add: sleep_resume_def)
  with K_sleep ok(1) can_blockD [OF c] mqs_frame [OF _ f, of H] H show ?thesis
    unfolding done_ok_def by (simp add: sleep_resume_def pc_ok_def)
qed (use ok(1) can_blockD [OF c] H in \<open>auto simp: done_ok_def pc_ok_def\<close>)

section \<open>The tick keeps the invariant\<close>

lemma threads_any:
  assumes f: "\<And>c. frame c W k k'" and ok: "threads_ok nest pcs k" and own: "own W k'" and cpu: "on_cpu pcs k'"
    and W: "\<And>m. Mq_recv_q m \<notin> W"
  shows "threads_ok nest pcs k'"
proof -
  have "objs_ok k'"
  proof (rule frame_objs [OF f _ own])
    show "\<exists>c. t \<noteq> c \<and> frame c W k k'" for t using f [of "Suc t"] by (intro exI [of _ "Suc t"]) simp
  qed (use ok in \<open>simp_all add: threads_ok_def\<close>)
  moreover have "copying pcs k'" using ok mqs_frame [OF _ f W] by (simp add: threads_ok_def copying_def)
  ultimately show ?thesis using ok cpu frameD(12,13) [OF f] frame_pc_ok [OF f] by (simp add: threads_ok_def)
qed

lemma on_cpu_same:
  "on_cpu pcs k \<Longrightarrow> k_current k' = k_current k \<Longrightarrow> (\<And>t. running (stat t k') = running (stat t k)) \<Longrightarrow> on_cpu pcs k'"
  by (simp add: on_cpu_def)

lemma on_cpu_schedule:
  assumes "kernel_inv n base k" "k_lock_nest k = 0" "rt_schedule k = Some k'"
  shows "on_cpu pcs k'"
  using schedule_inv [OF assms(1)] assms(2,3) by (auto simp: on_cpu_def)

lemma on_cpu_rearm:
  assumes r: "rearmable m k" and s: "timer_rearm m k = Some k'" and c: "on_cpu pcs k"
  shows "on_cpu pcs k'"
proof -
  let ?k2 = "clear_activated m (timer_remove m k)"
  have so: "\<not> soft m ?k2" using r by (simp add: rearmable_def) (simp add: soft_def)
  have "k' = timer_remove m k \<or> (\<exists>e. rt_timer_start m ?k2 = Some (e, k'))"
    using s by (auto simp: timer_rearm_def Let_def split: if_splits)
  moreover have "k' = start_state m ?k2" if "rt_timer_start m ?k2 = Some (e, k')" for e
  proof -
    have "is_timer m ?k2" "init_tick (k_timer ?k2 m) < RT_TICK_HALF"
      using that by (auto simp: rt_timer_start_def RT_ASSERT_def timer_op_defs Let_def split: if_splits)
    with timer_start_eq [OF this so] that show ?thesis by simp
  qed
  ultimately show ?thesis by (auto intro!: on_cpu_same [OF c])
qed

lemma on_cpu_slice:
  assumes inv: "kernel_inv n base k" and l: "k_lock_nest k = 0" and s: "tick_slice k = Some k'" and c: "on_cpu pcs k"
  shows "on_cpu pcs k'"
proof -
  obtain t where t: "k_current k = Some t" using kernel_invD(2) [OF inv] by (auto simp: cpu_ok_def)
  let ?k1 = "upd_thread t (th_remaining_tick_update (\<lambda>r. r - 1)) (k\<lparr>k_tick := k_tick k + 1\<rparr>)"
  let ?k2 = "upd_thread t (\<lambda>th. th\<lparr>th_remaining_tick := th_init_tick th\<rparr>) ?k1"
  let ?k3 = "set_stat t (stat t ?k2 OR RT_THREAD_STAT_YIELD) ?k2"
  have "kernel_inv n base ?k3" using inv by (simp add: yield_inv)
  moreover have "k_lock_nest ?k3 = 0" using l by (simp add: upd_thread_def set_stat_def)
  moreover have "on_cpu pcs ?k1" by (rule on_cpu_same [OF c]) (simp_all add: upd_thread_def)
  moreover have "k' = ?k1 \<or> rt_schedule ?k3 = Some k'"
    using s t by (auto simp: tick_slice_def rt_thread_self_def Let_def split: if_splits)
  ultimately show ?thesis using on_cpu_schedule by blast
qed

lemma on_cpu_timeout:
  assumes inv: "kernel_inv n base k" and t: "suspended (stat t k)" "T_thread t \<notin> set (k_timer_list k)"
    and l: "k_lock_nest k = 0" and r: "rt_thread_timeout t k = Some k'"
  shows "on_cpu pcs k'"
proof (rule on_cpu_schedule [OF wake_state_inv [OF inv t]])
  show "rt_schedule (wake_state t k) = Some k'"
    using r by (auto simp: rt_thread_timeout_def wake_state_def Let_def bind_eq_Some_conv)
  have "frame c {} k (wake_state t k)" for c
    unfolding wake_state_def by (rule frame_trans [OF frame_set_error frame_trans [OF frame_tlist_remove frame_insert_thread]])
  then show "k_lock_nest (wake_state t k) = 0" using l frameD(12) by metis
qed

text \<open>What the timeout functions of user timers have to keep beside the kernel invariant.\<close>

definition client_ok :: "callbacks \<Rightarrow> bool" where
  "client_ok cb \<longleftrightarrow> callbacks_ok cb \<and> (\<forall>f p k k' base nest pcs. kernel_inv half base k \<longrightarrow> k_tick k = base + 1 \<longrightarrow>
     threads_ok nest pcs k \<longrightarrow> cb f p k = Some k' \<longrightarrow> threads_ok nest pcs k')"

lemma threads_firing: "threads_ok nest pcs (k\<lparr>k_firing := fs\<rparr>) = threads_ok nest pcs k"
proof -
  have "threads_ok nest pcs (k\<lparr>k_firing := fs\<rparr>)" if "threads_ok nest pcs k" for k fs
    by (rule threads_any [OF frame_timer_ops(3) that own_empty]) (use that in \<open>simp_all add: threads_ok_def on_cpu_def\<close>)
  from this [of k fs] this [of "k\<lparr>k_firing := fs\<rparr>" "k_firing k"] show ?thesis by auto
qed

lemma tick_clients:
  assumes "client_ok cb" shows "timer_clients cb (threads_ok nest pcs)"
proof
  show "callbacks_ok cb" using assms by (simp add: client_ok_def)
  show "threads_ok nest pcs (k\<lparr>k_firing := fs\<rparr>) = threads_ok nest pcs k" for k fs by (rule threads_firing)
  show "threads_ok nest pcs (fire_state m k)" if "threads_ok nest pcs k" for m k
    by (rule threads_any [OF frame_timer_ops(4) that own_empty]) (use that in \<open>simp_all add: threads_ok_def on_cpu_def\<close>)
  show "threads_ok nest pcs k'" if "rearmable m k" "threads_ok nest pcs k" "timer_rearm m k = Some k'" for m k k'
    by (rule threads_any [OF frame_rearm [OF that(1,3)] that(2) own_empty])
      (use on_cpu_rearm [OF that(1,3)] that(2) in \<open>simp_all add: threads_ok_def\<close>)
  show "threads_ok nest pcs k'" if "kernel_inv n base k" "suspended (stat t k)" "T_thread t \<notin> set (k_timer_list k)"
    "threads_ok nest pcs k" "rt_thread_timeout t k = Some k'" for n base k t k'
    by (rule threads_any [OF frame_thread_timeout [OF that(1-3,5)] that(4) own_empty])
      (use on_cpu_timeout [OF that(1-3) _ that(5)] that(4) in \<open>simp_all add: threads_ok_def\<close>)
  show "threads_ok nest pcs k'" if "kernel_inv half base k" "k_tick k = base + 1" "threads_ok nest pcs k" "cb f p k = Some k'"
    for base k f p k'
    using assms that unfolding client_ok_def by blast
  show "threads_ok nest pcs k'" if "kernel_inv n base k" "threads_ok nest pcs k" "tick_slice k = Some k'" for n base k k'
    by (rule threads_any [OF frame_tick_slice [OF that(1,3)] that(2) own_empty])
      (use on_cpu_slice [OF that(1) _ that(3)] that(2) in \<open>simp_all add: threads_ok_def\<close>)
qed

text \<open>Entering and leaving the interrupt.\<close>

lemma nest_kernel [simp]: "kernel_inv n base (k\<lparr>k_interrupt_nest := x\<rparr>) = kernel_inv n base k"
  "kernel_ok (k\<lparr>k_interrupt_nest := x\<rparr>) = kernel_ok k"
  by (simp_all add: kernel_ok_def)

lemma nest_objs [simp]: "objs_ok (k\<lparr>k_interrupt_nest := x\<rparr>) = objs_ok k"
  by (simp add: objs_ok_def is_sem_def is_mutex_def is_event_def is_mb_def is_mq_def rt_object_get_type_def sem_flag_ok_def
      mutex_flag_ok_def event_flag_ok_def mb_flag_ok_def mq_flag_ok_def sem_inv_def mutex_inv_def event_inv_def
      cong: option.case_cong)

lemma nest_threads [simp]: "threads_ok nest' pcs (k\<lparr>k_interrupt_nest := nest'\<rparr>) = threads_ok (k_interrupt_nest k) pcs k"
proof -
  have "pc_ok p (k\<lparr>k_interrupt_nest := x\<rparr>) = pc_ok p k" for p x
  proof -
    have "kont_ok f (k\<lparr>k_interrupt_nest := x\<rparr>) = kont_ok f k" for f
      by (cases f) (simp_all add: mb_kont_ok_def mq_kont_ok_def is_mb_def is_mq_def rt_object_get_type_def
          split: mb_kont.split mq_kont.split)
    then show ?thesis by (simp add: pc_ok_def split: pc.split)
  qed
  then show ?thesis by (simp add: threads_ok_def on_cpu_def copying_def mqs_ok_def is_mq_def rt_object_get_type_def)
qed

lemma tick_isr_ok:
  assumes cb: "client_ok cb" and ok: "kernel_ok k" "threads_ok nest pcs k"
  shows "\<exists>k'. tick_isr cb k = Some k' \<and> kernel_ok k' \<and> threads_ok nest pcs k' \<and> k_tick k' = k_tick k + 1"
proof -
  have n: "k_interrupt_nest k = nest" using ok(2) by (simp add: threads_ok_def)
  have "kernel_ok (rt_interrupt_enter k)" "threads_ok (nest + 1) pcs (rt_interrupt_enter k)"
    using ok n by (simp_all add: rt_interrupt_enter_def)
  from timer_clients.tick [OF tick_clients [OF cb] this]
  obtain k' where k': "rt_tick_increase cb (rt_interrupt_enter k) = Some k'" "kernel_ok k'" "threads_ok (nest + 1) pcs k'"
      "k_tick k' = k_tick k + 1"
    by (auto simp: rt_interrupt_enter_def)
  have n': "k_interrupt_nest k' = nest + 1" using k'(3) by (simp add: threads_ok_def)
  have "threads_ok nest pcs (k'\<lparr>k_interrupt_nest := nest\<rparr>)" using k'(3) n' by simp
  with k' n' show ?thesis by (simp add: tick_isr_def rt_interrupt_leave_def)
qed

section \<open>Every step keeps the invariant\<close>

lemma sys_ok_block:
  assumes ok: "sys_ok (k, pcs)" and c: "k_current k = Some c" "pcs c = User \<or> (\<exists>f. pcs c = Cont f)" "c \<noteq> idle_thread"
  shows "can_block c k"
  using assms by (auto simp: sys_ok_def threads_ok_def on_cpu_def can_block_def)

lemma done_step:
  assumes ok: "sys_ok (k, pcs)" and c: "can_block c k" "c \<noteq> idle_thread" and d: "done_ok c W (held (- {c}) pcs) k res"
  shows "\<exists>s'. after c pcs res = Some s' \<and> sys_ok s'"
proof -
  obtain p k' where r: "res = Some (p, k')" "kernel_ok k'" "frame c W k k'" "own W k'" "k_current k' = Some c"
      "(\<forall>f. p \<noteq> Resched f) \<longrightarrow> running (stat c k')" "pc_ok p k'" "mqs_ok (held (- {c}) pcs \<union> pc_held p) k'"
      "pc_held p \<inter> held (- {c}) pcs = {}"
    using d unfolding done_ok_def by blast
  have s: "kernel_ok k" "objs_ok k" "k_lock_nest k = 0" "k_interrupt_nest k = 0" "\<forall>t. pc_ok (pcs t) k" "pcs idle_thread = User"
      "copying pcs k"
    using ok by (simp_all add: sys_ok_def threads_ok_def)
  have "c \<notin> set (k_queue k (Wait (Event_q e)))" for e
    using running_not_waiting [of "half - 1" "k_tick k" k c "Event_q e"] s(1) c by (simp add: kernel_ok_def can_block_def)
  then have "objs_ok k'" using frame_objs [OF r(3) s(2) r(4)] r(3) by metis
  moreover have "\<forall>t. pc_ok ((pcs(c := p)) t) k'" using s(5) frame_pc_ok [OF r(3)] r(7) by simp
  moreover have "copying (pcs(c := p)) k'" by (rule copying_set [OF s(7) r(8,9)])
  moreover have "on_cpu (pcs(c := p)) k'" using r(5,6) by (auto simp: on_cpu_def)
  ultimately have "sys_ok (k', pcs(c := p))"
    using s(3,4,6) c r(2) frameD(12,13) [OF r(3)] by (simp add: sys_ok_def threads_ok_def)
  then show ?thesis using r(1) by (simp add: after_def)
qed

lemma sched_step:
  assumes ok: "sys_ok (k, pcs)" and k1: "kernel_inv (half - 1) (k_tick k) k1" "k_tick k1 = k_tick k" "\<And>c. frame c {} k k1"
    and p: "pcs' idle_thread = User" "\<forall>t. pc_ok (pcs' t) k" "copying pcs' k"
  shows "\<exists>k'. rt_schedule k1 = Some k' \<and> sys_ok (k', pcs')"
proof -
  have s: "kernel_ok k" "threads_ok 0 pcs k" using ok by (simp_all add: sys_ok_def)
  have l: "k_lock_nest k1 = 0" using s(2) frameD(12) [OF k1(3)] by (simp add: threads_ok_def)
  obtain k' where k': "rt_schedule k1 = Some k'" "kernel_inv (half - 1) (k_tick k) k'" "k_core k' = k_core k1"
    using schedule_inv [OF k1(1)] by blast
  have f: "frame c {} k k'" for c using frame_trans [OF k1(3) frame_schedule [OF k1(1) k'(1)]] .
  have "k_tick k' = k_tick k" using k_core_fields [OF k'(3)] k1(2) by simp
  then have "kernel_ok k'" using k'(2) by (simp add: kernel_ok_def)
  have "threads_ok 0 pcs k'" by (rule threads_any [OF f s(2) own_empty on_cpu_schedule [OF k1(1) l k'(1)]]) simp
  moreover have "copying pcs' k'" using p(3) mqs_frame [OF _ f] by (simp add: copying_def)
  ultimately have "threads_ok 0 pcs' k'"
    using on_cpu_schedule [OF k1(1) l k'(1)] frame_pc_ok [OF f] p(2) by (simp add: threads_ok_def)
  with \<open>kernel_ok k'\<close> show ?thesis using k'(1) p(1) by (simp add: sys_ok_def)
qed

text \<open>The blocks of the other threads, before a critical section of thread \<open>c\<close>.\<close>

lemma sys_okD:
  assumes "sys_ok (k, pcs)"
  shows "pcs c = User \<Longrightarrow> mqs_ok (held (- {c}) pcs) k"
    "pcs c = Cont f \<Longrightarrow> mqs_ok (held (- {c}) pcs \<union> kont_held f) k \<and> kont_held f \<inter> held (- {c}) pcs = {} \<and> kont_ok f k"
proof -
  have c: "copying pcs k" "pc_ok (pcs c) k" using assms by (simp_all add: sys_ok_def threads_ok_def)
  then have h: "mqs_ok (held (- {c}) pcs \<union> pc_held (pcs c)) k" "pc_held (pcs c) \<inter> held (- {c}) pcs = {}"
    using held_split [of pcs c] by (simp_all add: copying_def)
  then show "pcs c = User \<Longrightarrow> mqs_ok (held (- {c}) pcs) k" by simp
  show "mqs_ok (held (- {c}) pcs \<union> kont_held f) k \<and> kont_held f \<inter> held (- {c}) pcs = {} \<and> kont_ok f k" if "pcs c = Cont f"
    using h c(2) that by (simp add: pc_ok_def)
qed

lemma sys_ok_cont:
  assumes ok: "sys_ok (k, pcs)" and c: "k_current k = Some c" "pcs c = Cont f" "kont_timely f k"
  shows "done_ok c (kont_lists f) (held (- {c}) pcs) k (do_kont f c k)"
proof -
  have k: "kernel_ok k" "objs_ok k" "pcs idle_thread = User" using ok by (simp_all add: sys_ok_def threads_ok_def)
  then have "c \<noteq> idle_thread" using c(2) by (metis pc.distinct(3))
  then have "can_block c k" using sys_ok_block [OF ok c(1)] c(2) by blast
  from do_kont_ok [OF k(1,2) this] sys_okD(2) [OF ok c(2)] c(3) show ?thesis by blast
qed

lemma sys_step_ok:
  assumes cb: "client_ok cb" and ok: "sys_ok s" and st: "sys_step cb s r"
  shows "\<exists>s'. r = Some s' \<and> sys_ok s'"
  using st ok
proof cases
  case (call k c pcs a)
  have b: "can_block c k" using sys_ok_block ok call by blast
  have "done_ok c (call_lists a) (held (- {c}) pcs) k (do_call a k)"
    by (rule do_call_ok) (use sys_okD ok call b in \<open>auto simp: sys_ok_def threads_ok_def\<close>)
  with done_step [OF _ b] ok call show ?thesis by blast
next
  case (resched k c pcs f)
  have p: "kernel_inv (half - 1) (k_tick k) k" "pcs idle_thread = User" "\<forall>t. pc_ok (pcs t) k" "copying pcs k"
    using ok resched by (simp_all add: sys_ok_def kernel_ok_def threads_ok_def)
  have "pc_ok (pcs c) k" using p(3) ..
  then have "pc_ok (Cont f) k" using resched(4) by (simp add: pc_ok_def)
  then have "\<forall>t. pc_ok ((pcs(c := Cont f)) t) k" using p(3) by simp
  moreover have "copying (pcs(c := Cont f)) k" using copying_same [OF p(4)] resched(4) by simp
  moreover have "idle_thread \<noteq> c" using p(2) resched(4) by (metis pc.distinct(1))
  then have "(pcs(c := Cont f)) idle_thread = User" using p(2) by (metis fun_upd_other)
  ultimately obtain k' where "rt_schedule k = Some k'" "sys_ok (k', pcs(c := Cont f))"
    using sched_step [of k pcs k "pcs(c := Cont f)"] ok resched(1) p(1) by auto
  with resched(2) show ?thesis by simp
next
  case (cont k c pcs f)
  note d = sys_ok_cont [of k pcs c f] and b = sys_ok_block [of k pcs c]
  have "pcs idle_thread = User" using ok cont(1) by (simp add: sys_ok_def)
  then have "c \<noteq> idle_thread" using cont(4) by (metis pc.distinct(3))
  with d b done_step [of k pcs c "kont_lists f" "do_kont f c k"] ok cont show ?thesis by blast
next
  case (yield k c pcs)
  have i: "kernel_inv (half - 1) (k_tick k) k" "pcs idle_thread = User" "\<forall>t. pc_ok (pcs t) k" "copying pcs k"
    using ok yield by (simp_all add: sys_ok_def kernel_ok_def threads_ok_def)
  note Y = yield_state_ok [OF i(1)]
  obtain k' where "rt_schedule (yield_state c k) = Some k'" "sys_ok (k', pcs)"
    using sched_step [of k pcs "yield_state c k" pcs] ok yield Y i(2-4) by auto
  with yield yield_eq [OF yield(3)] show ?thesis by simp
next
  case (tick k pcs)
  with ok tick_isr_ok [OF cb, of k 0 pcs] show ?thesis by (auto simp: sys_ok_def)
qed

lemma sys_reach_induct:
  assumes "sys_reach cb s s'" "P s" "\<And>s1 s2. sys_reach cb s s1 \<Longrightarrow> P s1 \<Longrightarrow> sys_step cb s1 (Some s2) \<Longrightarrow> P s2"
  shows "P s'"
  using assms by (induction rule: sys_reach.induct) blast+

lemma sys_safe_steps: "client_ok cb \<Longrightarrow> safe_steps (sys_step cb) (sys_reach cb) sys_ok"
  by unfold_locales (blast intro: sys_step_ok, rule sys_reach_induct)

section \<open>Timeout functions that release semaphores\<close>

text \<open>A timeout function that releases the semaphore its parameter names.\<close>

definition sem_callback :: callbacks where
  "sem_callback f s k =
    (if is_sem s k
     then do {
       (r, k) \<leftarrow> rt_sem_release s k;
       case r of Reschedule _ \<Rightarrow> rt_schedule k | _ \<Rightarrow> Some k
     }
     else Some k)"

lemma sem_wake_state:
  assumes inv: "kernel_inv n base k" and q: "k_queue k (Wait (Sem_q s)) = t # ts" and s: "is_sem s k"
  shows "sem_callback f s k = rt_schedule (resume_state t (set_error t RT_EOK k))"
    "kernel_inv n base (resume_state t (set_error t RT_EOK k))"
  using ipc_list_resume_eq [OF inv q] q s by (simp_all add: sem_callback_def rt_sem_release_def)

lemma resume_timers:
  assumes inv: "kernel_inv n base k"
  shows "set (due (resume_state t k)) \<subseteq> set (due k)" "rearmable m k \<Longrightarrow> rearmable m (resume_state t k)"
    "k_firing (resume_state t k) \<in> {k_firing k, removeAll (T_thread t) (k_firing k)}"
proof -
  note R = resume_state_from [OF inv, of t]
  show "set (due (resume_state t k)) \<subseteq> set (due k)" using R(2) by (auto simp: due_def timer_expired_def)
  have "soft m (resume_state t k) = soft m k" "periodic m (resume_state t k) = periodic m k"
    using R(1) by (auto simp: timers_from_def)
  moreover have "is_timer m (resume_state t k) = is_timer m k" by (simp add: is_timer_def rt_object_get_type_def)
  ultimately show "rearmable m k \<Longrightarrow> rearmable m (resume_state t k)" by (auto simp: rearmable_def split: timer_ref.splits)
  show "k_firing (resume_state t k) \<in> {k_firing k, removeAll (T_thread t) (k_firing k)}"
    by (simp add: resume_state_def rt_schedule_insert_thread_def k_upd_defs Let_def) (simp add: stop_timer_def timer_op_defs tlist_remove_def)
qed

lemma sem_callbacks_ok: "callbacks_ok sem_callback"
  unfolding callbacks_ok_def
proof (intro allI impI, elim conjE exE)
  fix f s :: nat and k base m
  assume inv: "kernel_inv half base k" and t: "k_tick k = base + 1" and m: "k_firing k = [m]"
  let ?ok = "\<lambda>k'. sem_callback f s k = Some k' \<and> kernel_inv half base k' \<and> k_tick k' = k_tick k \<and>
    set (due k') \<subseteq> set (due k) \<and> (k_firing k' = [] \<or> k_firing k' = k_firing k \<and> (\<forall>m. rearmable m k \<longrightarrow> rearmable m k'))"
  show "\<exists>k'. ?ok k'"
  proof (cases "is_sem s k \<and> k_queue k (Wait (Sem_q s)) \<noteq> []")
    case True
    then obtain u us where q: "k_queue k (Wait (Sem_q s)) = u # us" by (auto simp: neq_Nil_conv)
    let ?e = "set_error u RT_EOK k" and ?k = "resume_state u (set_error u RT_EOK k)"
    have w: "sem_callback f s k = rt_schedule ?k" "kernel_inv half base ?k" using sem_wake_state [OF inv q] True by simp_all
    have ie: "kernel_inv half base ?e" using inv by simp
    note R = resume_timers [OF ie, where t = u]
    obtain k' where k': "rt_schedule ?k = Some k'" "kernel_inv half base k'" "k_core k' = k_core ?k"
      using schedule_inv [OF w(2)] by blast
    note C = k_core_fields [OF k'(3)]
    have e: "due ?e = due k" "k_firing ?e = k_firing k" "\<And>m. rearmable m ?e = rearmable m k"
      by (auto simp: due_def timer_expired_def rearmable_def set_error_def upd_thread_def is_timer_def rt_object_get_type_def
          soft_def periodic_def split: timer_ref.splits)
    have c: "due k' = due ?k" "rearmable m' k' = rearmable m' ?k" for m'
      using C by (auto simp: due_def timer_expired_def rearmable_def is_timer_def rt_object_get_type_def
          soft_def periodic_def split: timer_ref.splits)
    have "k_firing k' = [] \<or> k_firing k' = k_firing k" using R(3) C m e(2) by (auto split: if_splits)
    with w(1) k' C c e R(1,2) show ?thesis by (intro exI [of _ k']) auto
  next
    case False
    let ?k = "if is_sem s k \<and> k_sem k s < RT_SEM_VALUE_MAX then set_sem_value s (k_sem k s + 1) k else k"
    have "sem_callback f s k = Some ?k" using False by (auto simp: sem_callback_def rt_sem_release_def)
    moreover have "kernel_inv half base ?k" "due ?k = due k" "k_firing ?k = k_firing k" "k_tick ?k = k_tick k"
      using inv by (simp_all add: due_def timer_expired_def) (simp_all add: set_sem_value_def)
    moreover have "rearmable x ?k = rearmable x k" for x
      by (auto simp: rearmable_def set_sem_value_def is_timer_def rt_object_get_type_def soft_def periodic_def split: timer_ref.splits)
    ultimately show ?thesis by (intro exI [of _ ?k]) simp
  qed
qed

lemma sem_threads_ok:
  assumes inv: "kernel_inv n base k" and ok: "threads_ok nest pcs k" and cb: "sem_callback f s k = Some k'"
  shows "threads_ok nest pcs k'"
proof -
  have c: "on_cpu pcs k" "objs_ok k" "k_lock_nest k = 0" using ok by (simp_all add: threads_ok_def)
  consider (none) "\<not> is_sem s k" | (wake) u us where "is_sem s k" "k_queue k (Wait (Sem_q s)) = u # us"
    | (count) "is_sem s k" "k_queue k (Wait (Sem_q s)) = []" by (cases "k_queue k (Wait (Sem_q s))") auto
  then show ?thesis
  proof cases
    case none
    with cb ok show ?thesis by (simp add: sem_callback_def)
  next
    case (wake u us)
    let ?k = "resume_state u (set_error u RT_EOK k)"
    have w: "rt_schedule ?k = Some k'" "kernel_inv n base ?k" using sem_wake_state [OF inv wake(2,1)] cb by simp_all
    have f1: "frame c {Sem_q s} k ?k" for c
      using frame_list_resume [OF ipc_list_resume_eq(1) [OF inv wake(2)]] .
    then have f: "frame c {Sem_q s} k k'" for c using frame_trans [OF _ frame_schedule [OF w(2,1)]] by blast
    have "k_sem k s = 0" using objs_okD(2) [OF c(2) wake(1)] wake(2) by (simp add: sem_inv_def)
    then have "k_sem k' s = 0" using k_core_fields [OF rt_schedule_core [OF w(1)]] by simp
    then have "own {Sem_q s} k'" by (simp add: sem_inv_def)
    moreover have "k_lock_nest ?k = 0" using c(3) by simp
    ultimately show ?thesis using threads_any [OF f ok] on_cpu_schedule [OF w(2) _ w(1)] by blast
  next
    case count
    let ?k = "if k_sem k s < RT_SEM_VALUE_MAX then set_sem_value s (k_sem k s + 1) k else k"
    have k': "k' = ?k" using cb count by (auto simp: sem_callback_def rt_sem_release_def split: if_splits)
    have "own {Sem_q s} ?k" "on_cpu pcs ?k" "frame c {Sem_q s} k ?k" for c
      using count c(1) by (simp_all add: sem_inv_def on_cpu_def) (simp add: set_sem_value_def)
    with threads_any [of "{Sem_q s}" k ?k, OF _ ok] show ?thesis unfolding k' by blast
  qed
qed

lemma sem_client_ok: "client_ok sem_callback"
  unfolding client_ok_def using sem_callbacks_ok sem_threads_ok by blast

interpretation sem_timers: timer_clients sem_callback "threads_ok nest pcs" for nest pcs
  by (rule tick_clients [OF sem_client_ok])

interpretation sem_system: safe_steps "sys_step sem_callback" "sys_reach sem_callback" sys_ok
  by (rule sys_safe_steps [OF sem_client_ok])

section \<open>Who owns a mutex\<close>

lemma suspend_mutex:
  assumes ok: "kernel_ok k" and c: "can_block c k" and flag: "flag \<in> {RT_IPC_FLAG_FIFO, RT_IPC_FLAG_PRIO}"
    and time: "time \<noteq> 0" "sint time < 0x7fffffff"
    and s: "do { (ret, k2) \<leftarrow> rt_ipc_list_suspend w c flag sf k; if ret \<noteq> RT_EOK then Some (Return ret, k2)
       else do { k' \<leftarrow> arm_if_positive c time k2; Some (Reschedule K_wait, k') } } = Some (r, k')"
  shows "k_mutex k' = k_mutex k"
  using block_total [OF ok c flag time, of w sf] s by (auto simp: blocked_def)

lemma mutex_take_owner:
  assumes ok: "kernel_ok k" "objs_ok k" and c: "can_block c k" and m: "is_mutex m k" and time: "sint time < 0x7fffffff"
    and t: "mx_owner (k_mutex k m) = Some t" and r: "mutex_take m time sf k = Some (r, k')"
  shows "mx_owner (k_mutex k' m) = Some t"
proof -
  note inv = objs_okD(3,4) [OF ok(2) m]
  have cc: "k_current k = Some c" "running (stat c k)" "k_interrupt_nest k = 0" using c by (simp_all add: can_block_def)
  have v: "mx_value (k_mutex k m) = 0" "live (stat t k)" using inv(2) t by (simp_all add: mutex_inv_def)
  note D = mutex_take_def RT_DEBUG_IN_THREAD_CONTEXT_def rt_thread_self_def
  let ?k = "set_error c (- RT_EINTR) k"
  show ?thesis
  proof (cases "t = c \<or> time = 0")
    case True
    with r m cc v t show ?thesis by (auto simp: D Let_def split: if_splits)
  next
    case False
    have ki: "kernel_inv (half - 1) (k_tick k) k" using ok(1) by (simp add: kernel_ok_def)
    have th: "is_thread t ?k" using inv_is_timer(1) [OF ki v(2)] by simp
    let ?k2 = "lend_state c t ?k"
    have "kernel_ok ?k2" using lend_state_inv [of _ _ ?k c t] ki cc by (simp add: kernel_ok_def)
    moreover have "can_block c ?k2" using c False by (simp add: can_block_def)
    moreover have "do { (ret, k2) \<leftarrow> rt_ipc_list_suspend (Mutex_q m) c (obj_flag (k_obj k (O_mutex m))) sf ?k2;
        if ret \<noteq> RT_EOK then Some (Return ret, k2)
        else do { k' \<leftarrow> arm_if_positive c time k2; Some (Reschedule K_wait, k') } } = Some (r, k')"
      using r m cc v t False lend_eq [OF th, of c] by (simp add: D)
    ultimately have "k_mutex k' = k_mutex ?k2"
      using suspend_mutex [of ?k2 c "obj_flag (k_obj k (O_mutex m))" time "Mutex_q m" sf r k'] inv(1) False time
      by (auto simp: mutex_flag_ok_def)
    with t show ?thesis by simp
  qed
qed

lemma after_SomeD: "Some (k', pcs') = after c pcs res \<Longrightarrow> \<exists>f. res = Some (f, k')"
  by (cases res) (auto simp: after_def)

lemma call_owner:
  assumes ok: "kernel_ok k" "objs_ok k" and c: "can_block c k" and m: "is_mutex m k" and pre: "call_pre c a k"
    and H: "mqs_ok H k" and t: "mx_owner (k_mutex k m) = Some t" and r: "do_call a k = Some (f, k')"
  shows "mx_owner (k_mutex k' m) = Some t \<or> c = t \<and> a = Mutex_release m"
proof (cases "Mutex_q m \<in> call_lists a")
  case False
  have "frame c (call_lists a) k k'" using do_call_ok [OF ok c pre H] r by (simp add: done_ok_def)
  from frameD(8) [OF this False] t show ?thesis by simp
next
  case True
  then consider (take) time sf where "a = Mutex_take m time sf" | (release) "a = Mutex_release m"
    by (cases a) auto
  then show ?thesis
  proof cases
    case (take time sf)
    with r obtain r' where "mutex_take m time sf k = Some (r', k')" by (auto simp: ended_def)
    with mutex_take_owner [OF ok c m _ t, of time sf r' k'] take pre show ?thesis by simp
  next
    case release
    with r obtain r' where "rt_mutex_release m k = Some (r', k')" by (auto simp: ended_def)
    with mutex_release_cases [OF ok(1) m objs_okD(4) [OF ok(2) m] c] t release show ?thesis by (cases "c = t") auto
  qed
qed

lemma tick_mutex:
  assumes cb: "callbacks_ok cb" "\<And>f p k k'. cb f p k = Some k' \<Longrightarrow> k_mutex k' = k_mutex k"
    and ok: "kernel_ok k" and t: "tick_isr cb k = Some k'"
  shows "k_mutex k' = k_mutex k"
proof -
  have fr: "k_mutex b = k_mutex a" if "frame idle_thread {} a b" for a b
    using frameD(8) [OF that] by (simp add: fun_eq_iff)
  have cl: "timer_clients cb (\<lambda>x. k_mutex x = k_mutex k)"
  proof
    show "k_mutex k' = k_mutex k" if "kernel_inv n base a" "suspended (stat t a)" "T_thread t \<notin> set (k_timer_list a)"
      "k_mutex a = k_mutex k" "rt_thread_timeout t a = Some k'" for n base a t k'
      using fr [OF frame_thread_timeout [OF that(1-3,5)]] that(4) by simp
    show "k_mutex k' = k_mutex k" if "rearmable m a" "k_mutex a = k_mutex k" "timer_rearm m a = Some k'" for m a k'
      using fr [OF frame_rearm [OF that(1,3)]] that(2) by simp
    show "k_mutex (fire_state m a) = k_mutex k" if "k_mutex a = k_mutex k" for m a
      using fr [OF frame_timer_ops(4)] that by simp
    show "k_mutex k' = k_mutex k" if "kernel_inv n base a" "k_mutex a = k_mutex k" "tick_slice a = Some k'" for n base a k'
      using fr [OF frame_tick_slice [OF that(1,3)]] that(2) by simp
  qed (use cb in simp_all)
  have "kernel_ok (rt_interrupt_enter k)" "k_mutex (rt_interrupt_enter k) = k_mutex k"
    using ok by (simp_all add: rt_interrupt_enter_def)
  from timer_clients.tick [OF cl this] t show ?thesis by (auto simp: tick_isr_def rt_interrupt_leave_def)
qed

section \<open>Properties\<close>

text \<open>A system in which every object is initialised, thread 3 waits for semaphore 0 and thread 2 runs.\<close>

definition sample_sys :: sys where
  "sample_sys =
    ((waiting_kernel (Sem_q 0))\<lparr>
       k_mutex := \<lambda>_. \<lparr>mx_value = 1, mx_original_priority = 0xff, mx_hold = 0, mx_owner = None\<rparr>,
       k_mb := \<lambda>_. \<lparr>mb_msg_pool = [0, 0], mb_size = 2, mb_entry = 0, mb_in_offset = 0, mb_out_offset = 0\<rparr>,
       k_mq := \<lambda>_. mq_build (\<lambda>_. \<lparr>msg_next = None, msg_data = [0, 0, 0, 0, 0, 0, 0, 0]\<rparr>) 8 2\<rparr>,
     (\<lambda>_. User)(3 := Cont (K_ipc K_wait)))"

lemma sample_sys_ok: "sys_ok sample_sys"
proof -
  let ?k = "fst sample_sys" and ?w = "waiting_kernel (Sem_q 0)"
  have m: "mq_wf (mq_build (\<lambda>_. \<lparr>msg_next = None, msg_data = [0, 0, 0, 0, 0, 0, 0, 0]\<rparr>) 8 2)"
    by (rule mq_build_wf) simp
  have sel: "k_thread ?k = k_thread ?w" "k_queue ?k = k_queue ?w" "k_obj ?k = k_obj ?w" "k_sem ?k = k_sem ?w" "k_event ?k = k_event ?w"
    "k_current ?k = Some 2" "k_lock_nest ?k = 0" "k_interrupt_nest ?k = 0"
    by (simp_all add: sample_sys_def)
  have "kernel_ok ?k" using waiting_kernel_ok [of "Sem_q 0"] by (simp add: sample_sys_def kernel_ok_def)
  moreover have "objs_ok ?k"
    unfolding objs_ok_def
  proof (intro conjI allI impI)
    show "mutex_inv x ?k" for x by (simp add: sample_sys_def mutex_inv_def)
    show "mb_wf (k_mb ?k x)" for x by (simp add: sample_sys_def mb_wf_def)
  qed (simp_all add: sel sem_flag_ok_def sem_inv_def mutex_flag_ok_def event_flag_ok_def event_inv_def mb_flag_ok_def mq_flag_ok_def)
  moreover have "on_cpu (snd sample_sys) ?k" by (simp add: on_cpu_def sel)
  moreover have "pc_ok (snd sample_sys t) ?k" for t by (simp add: sample_sys_def pc_ok_def)
  moreover have "copying (snd sample_sys) ?k"
  proof -
    have "pc_held (snd sample_sys t) = {}" for t by (simp add: sample_sys_def)
    moreover have "mq_ok {} (k_mq ?k x)" for x using m by (simp add: sample_sys_def mq_wf_ok)
    ultimately show ?thesis by (simp add: copying_def held_def mqs_ok_def)
  qed
  ultimately have "sys_ok (?k, snd sample_sys)"
    unfolding sys_ok_def threads_ok_def using sel by (simp add: sample_sys_def)
  then show ?thesis by simp
qed

text \<open>C1: No assertion of the kernel ever fails and every kernel call returns. From a state
  in which the invariants of the kernel and of all its objects hold, any number of threads may make calls on semaphores,
  mutexes, events, mailboxes and message queues, sleep and yield, in any interleaving allowed by the
  scheduler, with tick interrupts (and the thread switches they cause) between any two critical sections: between a
  blocking call and its \<open>rt_schedule\<close>, and also while a message is copied into or out of a block that is on no list of its
  queue, since sending, urgent sending and receiving are two critical sections each. In every state that is reached, every
  step succeeds and the invariants hold again. Hypotheses: the timeout functions of user timers keep
  their contract; callers respect the preconditions of the calls (the object exists, a waiting time is below \<open>2^31 - 1\<close>
  ticks, a message is not empty, the options of an event are valid, and a thread that
  calls \<open>rt_thread_sleep\<close> has no pending signal and sleeps for less than \<open>2^31\<close> ticks: with a pending signal the kernel can
  halt, as theory \<open>Ticks\<close> shows); and a thread that waits for a mailbox or a queue continues within \<open>2^31\<close> ticks.\<close>

theorem system_never_fails:
  assumes "client_ok cb" "sys_ok s" "sys_reach cb s s'" "sys_step cb s' r"
  shows "\<exists>s''. r = Some s'' \<and> sys_ok s''"
  using safe_steps.never_fails [OF sys_safe_steps [OF assms(1)] assms(2-4)] .

theorem system_never_fails_witness:
  "\<exists>s''. after 2 (snd sample_sys) (do_call (Sem_release 0) (fst sample_sys)) = Some s'' \<and> sys_ok s''"
proof -
  have "is_sem 0 (fst sample_sys)"
    using waiting_kernel_sel(7) [of "O_sem 0" "Sem_q 0"]
    by (simp add: sample_sys_def is_sem_def rt_object_get_type_def class_of_def)
  then have "sys_step sem_callback (fst sample_sys, snd sample_sys)
      (after 2 (snd sample_sys) (do_call (Sem_release 0) (fst sample_sys)))"
    by (intro sys_step.call) (simp_all add: sample_sys_def)
  then have "sys_step sem_callback sample_sys (after 2 (snd sample_sys) (do_call (Sem_release 0) (fst sample_sys)))" by simp
  from system_never_fails [OF sem_client_ok sample_sys_ok sys_reach.start this] show ?thesis .
qed

text \<open>C2: Mutual exclusion: a thread that owns a mutex keeps it until it calls
  \<open>rt_mutex_release\<close> itself. No call of another thread, no wake-up, no rescheduling and no tick interrupt
  changes the owner, whatever the interleaving.\<close>

theorem mutex_kept_until_release:
  assumes "client_ok cb" "\<And>f p k k'. cb f p k = Some k' \<Longrightarrow> k_mutex k' = k_mutex k"
    and "sys_ok (k, pcs)" "sys_step cb (k, pcs) (Some (k', pcs'))"
    and "is_mutex m k" "mx_owner (k_mutex k m) = Some t" "mx_owner (k_mutex k' m) \<noteq> Some t"
  shows "k_current k = Some t \<and> pcs t = User \<and> (\<exists>f. do_call (Mutex_release m) k = Some (f, k'))"
  using assms(4)
proof cases
  case (call c a)
  have b: "can_block c k" using sys_ok_block [OF assms(3)] call by blast
  obtain f where "do_call a k = Some (f, k')" using after_SomeD [OF call(1)] by blast
  with call_owner [OF _ _ b assms(5) call(5) sys_okD(1) [OF assms(3) call(4)] assms(6), of f k'] assms(3,7) call show ?thesis
    by (auto simp: sys_ok_def threads_ok_def)
next
  case (resched c f)
  then have "rt_schedule k = Some k'" by (cases "rt_schedule k") auto
  with k_core_fields [OF rt_schedule_core] assms(6,7) show ?thesis by metis
next
  case (cont c f)
  obtain r where "do_kont f c k = Some (r, k')" using after_SomeD [OF cont(1)] by blast
  with sys_ok_cont [OF assms(3) cont(2,3)] cont(4) have "frame c (kont_lists f) k k'" by (simp add: done_ok_def)
  moreover have "Mutex_q m \<notin> kont_lists f"
    by (cases f) (auto simp: mb_kont_lists_def mq_kont_lists_def split: mb_kont.splits mq_kont.splits)
  ultimately show ?thesis using frameD(8) assms(6,7) by metis
next
  case (yield c)
  then have "rt_schedule (yield_state c k) = Some k'"
    using yield_eq [OF yield(2)] by (cases "rt_schedule (yield_state c k)") auto
  moreover have "k_mutex (yield_state c k) = k_mutex k" by (simp add: yield_state_def upd_thread_def set_stat_def Let_def)
  ultimately show ?thesis using k_core_fields [OF rt_schedule_core] assms(6,7) by metis
next
  case tick
  then have "tick_isr cb k = Some k'" by (cases "tick_isr cb k") auto
  moreover have "callbacks_ok cb" "kernel_ok k" using assms(1,3) by (simp_all add: client_ok_def sys_ok_def)
  ultimately show ?thesis using tick_mutex [of cb k k'] assms(2,6,7) by metis
qed

text \<open>Thread 2 holds mutex 0 and releases it.\<close>

definition owner_sys :: sys where
  "owner_sys = (upd_mutex 0 (\<lambda>_. \<lparr>mx_value = 0, mx_original_priority = 10, mx_hold = 1, mx_owner = Some 2\<rparr>) (fst sample_sys),
     snd sample_sys)"

lemma owner_sys_ok: "sys_ok owner_sys"
proof -
  let ?j = "fst sample_sys" and ?k = "fst owner_sys"
  have s: "kernel_ok ?j" "objs_ok ?j" "on_cpu (snd sample_sys) ?j" "k_lock_nest ?j = 0" "k_interrupt_nest ?j = 0"
    "copying (snd sample_sys) ?j"
    using sample_sys_ok unfolding sys_ok_def threads_ok_def case_prod_beta by blast+
  have k: "?k = upd_mutex 0 (\<lambda>_. \<lparr>mx_value = 0, mx_original_priority = 10, mx_hold = 1, mx_owner = Some 2\<rparr>) ?j"
    by (simp add: owner_sys_def)
  have f: "frame c {Mutex_q 0} ?j ?k" for c unfolding k by (rule frame_upd_mutex)
  have "stat 2 ?j = 3" "2 \<notin> set (k_queue ?j (Wait (Mutex_q 0)))" by (simp_all add: sample_sys_def)
  then have i: "own {Mutex_q 0} ?k" by (simp add: mutex_inv_def k)
  have "on_cpu (snd sample_sys) ?k" by (rule on_cpu_same [OF s(3)]) (simp_all add: k)
  moreover have "pc_ok (snd sample_sys t) ?j" for t by (simp add: sample_sys_def pc_ok_def)
  ultimately have "threads_ok 0 (snd sample_sys) ?k"
    using s by (intro threads_any [OF f _ i]) (simp_all add: threads_ok_def)
  moreover have "kernel_ok ?k" using s(1) by (simp add: k)
  ultimately have "sys_ok (?k, snd owner_sys)" by (simp add: sys_ok_def owner_sys_def) (simp add: sample_sys_def)
  then show ?thesis by simp
qed

theorem mutex_kept_until_release_witness:
  "\<exists>k' pcs'. sys_step (\<lambda>_ _ k. Some k) owner_sys (Some (k', pcs')) \<and> mx_owner (k_mutex k' 0) = None \<and>
    k_current (fst owner_sys) = Some 2 \<and> snd owner_sys 2 = User"
proof -
  let ?k = "fst owner_sys" and ?p = "snd owner_sys" and ?cb = "(\<lambda>_ _ k. Some k) :: callbacks"
  have ok: "sys_ok (?k, ?p)" using owner_sys_ok by simp
  have cb: "client_ok ?cb" by (auto simp: client_ok_def callbacks_ok_def)
  have o: "mx_owner (k_mutex ?k 0) = Some 2" "mx_hold (k_mutex ?k 0) = 1" "k_current ?k = Some 2" "?p 2 = User"
    "k_queue ?k (Wait (Mutex_q 0)) = []"
    by (simp_all add: owner_sys_def) (simp_all add: sample_sys_def)
  have m: "is_mutex 0 ?k"
    using is_mutex_waiting [of 0 "Sem_q 0"] by (simp add: owner_sys_def sample_sys_def is_mutex_def rt_object_get_type_def)
  have b: "can_block 2 ?k" using sys_ok_block [OF ok o(3)] o(4) by simp
  have inv: "kernel_ok ?k" "mutex_inv 0 ?k" using ok m objs_okD(4) unfolding sys_ok_def threads_ok_def prod.case by blast+
  obtain k' where k': "rt_mutex_release 0 ?k = Some (Return RT_EOK, k')" "mx_owner (k_mutex k' 0) = None"
    using mutex_release_cases [OF inv(1) m inv(2) b] o by auto
  then have "do_call (Mutex_release 0) ?k = Some (User, k')" by (simp add: ended_def)
  then have st: "sys_step ?cb (?k, ?p) (Some (k', ?p(2 := User)))"
    using sys_step.call [of ?k 2 ?p "Mutex_release 0" ?cb] o m by (simp add: after_def)
  with mutex_kept_until_release [OF cb _ ok st m o(1)] k'(2) show ?thesis by auto
qed

end
