(* ===== verification/Ringbuffer.thy ===== *)
theory Ringbuffer
  imports Fifo
begin

text \<open>
  The byte ring buffer of \<^verbatim>\<open>components/drivers/src/ringbuffer.c\<close>, which the serial and pipe
  drivers use. Each index carries a mirror bit; equal indices mean empty in the same mirror and full
  in different mirrors. The pool is the list of its bytes; an access outside it has no result.
\<close>

section \<open>The operations\<close>

record rt_ringbuffer =
  buffer_ptr :: "u8 list"
  read_mirror :: "1 word"
  read_index :: "15 word"
  write_mirror :: "1 word"
  write_index :: "15 word"
  buffer_size :: u16

datatype rt_ringbuffer_state = RT_RINGBUFFER_EMPTY | RT_RINGBUFFER_FULL | RT_RINGBUFFER_HALFFULL

text \<open>The signed \<open>buffer_size\<close> in the integer arithmetic of the code.\<close>

abbreviation rb_size :: "rt_ringbuffer \<Rightarrow> int" where "rb_size rb \<equiv> sint (buffer_size rb)"

text \<open>\<open>memcpy (&buf[i], &src[off], n)\<close>\<close>

definition memcpy :: "int \<Rightarrow> u8 list \<Rightarrow> int \<Rightarrow> int \<Rightarrow> u8 list \<Rightarrow> u8 list option" where
  "memcpy i src off n buf =
    (if 0 \<le> i \<and> 0 \<le> off \<and> 0 \<le> n \<and> off + n \<le> int (length src) \<and> i + n \<le> int (length buf)
     then Some (take (nat i) buf @ take (nat n) (drop (nat off) src) @ drop (nat (i + n)) buf)
     else None)"

definition rt_ringbuffer_status :: "rt_ringbuffer \<Rightarrow> rt_ringbuffer_state" where
  "rt_ringbuffer_status rb =
    (if read_index rb = write_index rb
     then (if read_mirror rb = write_mirror rb then RT_RINGBUFFER_EMPTY else RT_RINGBUFFER_FULL)
     else RT_RINGBUFFER_HALFFULL)"

definition rt_ringbuffer_init :: "u8 list \<Rightarrow> u16 \<Rightarrow> rt_ringbuffer option" where
  "rt_ringbuffer_init pool sz = do {
    RT_ASSERT (sint sz > 0);
    Some \<lparr>buffer_ptr = pool, read_mirror = 0, read_index = 0, write_mirror = 0, write_index = 0,
          buffer_size = sz AND NOT 7\<rparr>
  }"

definition rt_ringbuffer_data_len :: "rt_ringbuffer \<Rightarrow> u64" where
  "rt_ringbuffer_data_len rb =
    (case rt_ringbuffer_status rb of
       RT_RINGBUFFER_EMPTY \<Rightarrow> 0
     | RT_RINGBUFFER_FULL \<Rightarrow> word_of_int (rb_size rb)
     | RT_RINGBUFFER_HALFFULL \<Rightarrow>
         if write_index rb > read_index rb
         then word_of_int (uint (write_index rb) - uint (read_index rb))
         else word_of_int (rb_size rb - (uint (read_index rb) - uint (write_index rb))))"

definition rt_ringbuffer_space_len :: "rt_ringbuffer \<Rightarrow> u64" where
  "rt_ringbuffer_space_len rb = word_of_int (rb_size rb) - rt_ringbuffer_data_len rb"

text \<open>The result is the number of bytes stored and the buffer.\<close>

definition rt_ringbuffer_put :: "u8 list \<Rightarrow> u16 \<Rightarrow> rt_ringbuffer \<Rightarrow> (u64 \<times> rt_ringbuffer) option" where
  "rt_ringbuffer_put ptr len rb =
    (let sz = (ucast (rt_ringbuffer_space_len rb) :: u16)
     in if sz = 0 then Some (0, rb)
        else let len = (if sz < len then sz else len); room = rb_size rb - uint (write_index rb)
        in if room > uint len
           then do {
             buf \<leftarrow> memcpy (uint (write_index rb)) ptr 0 (uint len) (buffer_ptr rb);
             Some (ucast len, rb\<lparr>buffer_ptr := buf, write_index := write_index rb + ucast len\<rparr>)
           }
           else do {
             buf \<leftarrow> memcpy (uint (write_index rb)) ptr 0 room (buffer_ptr rb);
             buf \<leftarrow> memcpy 0 ptr room (uint len - room) buf;
             Some (ucast len, rb\<lparr>buffer_ptr := buf, write_mirror := NOT (write_mirror rb),
                                  write_index := word_of_int (uint len - room)\<rparr>)
           })"

definition rt_ringbuffer_put_force :: "u8 list \<Rightarrow> u16 \<Rightarrow> rt_ringbuffer \<Rightarrow> (u64 \<times> rt_ringbuffer) option" where
  "rt_ringbuffer_put_force ptr len rb =
    (let space_length = (ucast (rt_ringbuffer_space_len rb) :: u16);
         cut = uint len > rb_size rb;
         ptr = (if cut then drop (nat (uint len - rb_size rb)) ptr else ptr);
         len = (if cut then buffer_size rb else len);
         room = rb_size rb - uint (write_index rb)
     in if room > uint len
        then do {
          buf \<leftarrow> memcpy (uint (write_index rb)) ptr 0 (uint len) (buffer_ptr rb);
          let rb = rb\<lparr>buffer_ptr := buf, write_index := write_index rb + ucast len\<rparr>;
          Some (ucast len, if len > space_length then rb\<lparr>read_index := write_index rb\<rparr> else rb)
        }
        else do {
          buf \<leftarrow> memcpy (uint (write_index rb)) ptr 0 room (buffer_ptr rb);
          buf \<leftarrow> memcpy 0 ptr room (uint len - room) buf;
          let rb = rb\<lparr>buffer_ptr := buf, write_mirror := NOT (write_mirror rb), write_index := word_of_int (uint len - room)\<rparr>;
          Some (ucast len, if len > space_length
                then rb\<lparr>read_mirror := NOT (read_mirror rb), read_index := write_index rb\<rparr> else rb)
        })"

text \<open>The result is the number of bytes and the bytes stored in \<open>*ptr\<close>.\<close>

definition rt_ringbuffer_get :: "u16 \<Rightarrow> rt_ringbuffer \<Rightarrow> (u64 \<times> u8 list \<times> rt_ringbuffer) option" where
  "rt_ringbuffer_get len rb =
    (let sz = rt_ringbuffer_data_len rb
     in if sz = 0 then Some (0, [], rb)
        else let len = (if sz < ucast len then ucast sz else len); room = rb_size rb - uint (read_index rb)
        in if room > uint len
           then do {
             out \<leftarrow> memcpy 0 (buffer_ptr rb) (uint (read_index rb)) (uint len) (replicate (unat len) 0);
             Some (ucast len, out, rb\<lparr>read_index := read_index rb + ucast len\<rparr>)
           }
           else do {
             out \<leftarrow> memcpy 0 (buffer_ptr rb) (uint (read_index rb)) room (replicate (unat len) 0);
             out \<leftarrow> memcpy room (buffer_ptr rb) 0 (uint len - room) out;
             Some (ucast len, out, rb\<lparr>read_mirror := NOT (read_mirror rb), read_index := word_of_int (uint len - room)\<rparr>)
           })"

definition rb_store :: "u8 \<Rightarrow> rt_ringbuffer \<Rightarrow> rt_ringbuffer option" where
  "rb_store ch rb =
    (if unat (write_index rb) < length (buffer_ptr rb)
     then Some (rb\<lparr>buffer_ptr := (buffer_ptr rb)[unat (write_index rb) := ch]\<rparr>) else None)"

definition rb_step_write :: "rt_ringbuffer \<Rightarrow> rt_ringbuffer" where
  "rb_step_write rb =
    (if uint (write_index rb) = rb_size rb - 1
     then rb\<lparr>write_mirror := NOT (write_mirror rb), write_index := 0\<rparr>
     else rb\<lparr>write_index := write_index rb + 1\<rparr>)"

definition rt_ringbuffer_putchar :: "u8 \<Rightarrow> rt_ringbuffer \<Rightarrow> (u64 \<times> rt_ringbuffer) option" where
  "rt_ringbuffer_putchar ch rb =
    (if rt_ringbuffer_space_len rb = 0 then Some (0, rb)
     else do { rb \<leftarrow> rb_store ch rb; Some (1, rb_step_write rb) })"

definition rt_ringbuffer_putchar_force :: "u8 \<Rightarrow> rt_ringbuffer \<Rightarrow> (u64 \<times> rt_ringbuffer) option" where
  "rt_ringbuffer_putchar_force ch rb =
    (let old_state = rt_ringbuffer_status rb
     in do {
       rb \<leftarrow> rb_store ch rb;
       if uint (write_index rb) = rb_size rb - 1
       then do {
         let rb = rb\<lparr>write_mirror := NOT (write_mirror rb), write_index := 0\<rparr>;
         Some (1, if old_state = RT_RINGBUFFER_FULL
                  then rb\<lparr>read_mirror := NOT (read_mirror rb), read_index := write_index rb\<rparr> else rb)
       }
       else do {
         let rb = rb\<lparr>write_index := write_index rb + 1\<rparr>;
         Some (1, if old_state = RT_RINGBUFFER_FULL then rb\<lparr>read_index := write_index rb\<rparr> else rb)
       }
     })"

definition rt_ringbuffer_getchar :: "rt_ringbuffer \<Rightarrow> (u64 \<times> u8 option \<times> rt_ringbuffer) option" where
  "rt_ringbuffer_getchar rb =
    (if rt_ringbuffer_data_len rb = 0 then Some (0, None, rb)
     else if unat (read_index rb) < length (buffer_ptr rb)
     then Some (1, Some (buffer_ptr rb ! unat (read_index rb)),
       if uint (read_index rb) = rb_size rb - 1
       then rb\<lparr>read_mirror := NOT (read_mirror rb), read_index := 0\<rparr>
       else rb\<lparr>read_index := read_index rb + 1\<rparr>)
     else None)"

definition rt_ringbuffer_reset :: "rt_ringbuffer \<Rightarrow> rt_ringbuffer" where
  "rt_ringbuffer_reset rb = rb\<lparr>read_mirror := 0, read_index := 0, write_mirror := 0, write_index := 0\<rparr>"

text \<open>\<open>mem\<close> is the memory the allocator gave for the structure, \<open>pool\<close> that for the data.\<close>

definition rt_ringbuffer_create :: "u16 \<Rightarrow> bool \<Rightarrow> u8 list option \<Rightarrow> rt_ringbuffer option option" where
  "rt_ringbuffer_create sz mem pool = do {
    RT_ASSERT (sz > 0);
    let sz = sz AND NOT 7;
    if \<not> mem then Some None
    else (case pool of None \<Rightarrow> Some None | Some pool \<Rightarrow> map_option Some (rt_ringbuffer_init pool sz))
  }"

section \<open>The contents\<close>

definition rb_wf :: "rt_ringbuffer \<Rightarrow> bool" where
  "rb_wf rb \<longleftrightarrow> int (length (buffer_ptr rb)) = rb_size rb \<and>
     uint (read_index rb) < rb_size rb \<and> uint (write_index rb) < rb_size rb \<and>
     (if read_mirror rb = write_mirror rb then read_index rb \<le> write_index rb else write_index rb \<le> read_index rb)"

definition rb_count :: "rt_ringbuffer \<Rightarrow> nat" where
  "rb_count rb = (if read_mirror rb = write_mirror rb then unat (write_index rb) - unat (read_index rb)
     else length (buffer_ptr rb) - (unat (read_index rb) - unat (write_index rb)))"

definition rb_contents :: "rt_ringbuffer \<Rightarrow> u8 list" where
  "rb_contents rb = map (\<lambda>i. buffer_ptr rb ! ((unat (read_index rb) + i) mod length (buffer_ptr rb))) [0..<rb_count rb]"

lemma mirror_cases: "(a :: 1 word) = 0 \<or> a = 1"
proof -
  have "unat a < 2 ^ 1" using unsigned_less [of a] by simp
  then have "unat a = 0 \<or> unat a = 1" by auto
  then show ?thesis by (auto simp: word_unat_eq_iff)
qed

lemma mirror_flip [simp]: "NOT (a :: 1 word) = b \<longleftrightarrow> a \<noteq> b" "b = NOT (a :: 1 word) \<longleftrightarrow> a \<noteq> b"
  using mirror_cases [of a] mirror_cases [of b] by auto

lemma uint_less_int: "uint (x :: 'a::len word) < int n \<longleftrightarrow> unat x < n"
  unfolding uint_nat by (simp only: of_nat_less_iff)

lemma rb_wfD:
  assumes "rb_wf rb"
  shows "rb_size rb = int (length (buffer_ptr rb))" "length (buffer_ptr rb) < 32768" "0 < length (buffer_ptr rb)"
    "unat (read_index rb) < length (buffer_ptr rb)" "unat (write_index rb) < length (buffer_ptr rb)"
    "read_mirror rb = write_mirror rb \<Longrightarrow> unat (read_index rb) \<le> unat (write_index rb)"
    "read_mirror rb \<noteq> write_mirror rb \<Longrightarrow> unat (write_index rb) \<le> unat (read_index rb)"
proof -
  show s: "rb_size rb = int (length (buffer_ptr rb))" using assms by (simp add: rb_wf_def)
  have "sint (buffer_size rb) < 2 ^ 15" using sint_lt [of "buffer_size rb"] by simp
  then show "length (buffer_ptr rb) < 32768" using s by simp
  show r: "unat (read_index rb) < length (buffer_ptr rb)" "unat (write_index rb) < length (buffer_ptr rb)"
    using assms s by (simp_all add: rb_wf_def uint_less_int)
  show "0 < length (buffer_ptr rb)" using r by linarith
  show "read_mirror rb = write_mirror rb \<Longrightarrow> unat (read_index rb) \<le> unat (write_index rb)"
    "read_mirror rb \<noteq> write_mirror rb \<Longrightarrow> unat (write_index rb) \<le> unat (read_index rb)"
    using assms by (simp_all add: rb_wf_def word_le_nat_alt)
qed

lemma rb_count_le: "rb_wf rb \<Longrightarrow> rb_count rb \<le> length (buffer_ptr rb)"
  using rb_wfD [of rb] by (auto simp: rb_count_def)

lemma rb_write_pos:
  assumes "rb_wf rb" shows "unat (write_index rb) = (unat (read_index rb) + rb_count rb) mod length (buffer_ptr rb)"
proof (cases "read_mirror rb = write_mirror rb")
  case True
  with rb_wfD [OF assms] show ?thesis by (simp add: rb_count_def)
next
  case False
  note D = rb_wfD [OF assms]
  have "unat (read_index rb) + rb_count rb = unat (write_index rb) + length (buffer_ptr rb)"
    using False D by (simp add: rb_count_def)
  then show ?thesis using D(5) by simp
qed

lemma data_len_count:
  assumes "rb_wf rb" shows "unat (rt_ringbuffer_data_len rb) = rb_count rb"
proof -
  note D = rb_wfD [OF assms]
  have w: "unat (word_of_int (int n) :: u64) = n" if "n < 32769" for n
    using that by (simp add: unsigned_of_nat take_bit_nat_eq_self_iff)
  let ?r = "unat (read_index rb)" and ?w = "unat (write_index rb)" and ?n = "length (buffer_ptr rb)"
  have u: "uint (read_index rb) = int ?r" "uint (write_index rb) = int ?w" by simp_all
  show ?thesis
  proof (cases "read_index rb = write_index rb")
    case True
    with D w [of ?n] show ?thesis
      by (auto simp: rt_ringbuffer_data_len_def rt_ringbuffer_status_def rb_count_def)
  next
    case False
    then have ne: "?r \<noteq> ?w" by (simp add: word_unat_eq_iff)
    show ?thesis
    proof (cases "read_mirror rb = write_mirror rb")
      case True
      then have l: "?r < ?w" using D(6) ne by simp
      then have "rt_ringbuffer_data_len rb = word_of_int (int (?w - ?r))"
        using False by (simp add: rt_ringbuffer_data_len_def rt_ringbuffer_status_def word_less_nat_alt of_nat_diff)
      with w [of "?w - ?r"] D True show ?thesis by (simp add: rb_count_def)
    next
      case m: False
      then have l: "?w < ?r" using D(7) ne by simp
      then have "rt_ringbuffer_data_len rb = word_of_int (int (?n - (?r - ?w)))"
        using False D(1,4) by (simp add: rt_ringbuffer_data_len_def rt_ringbuffer_status_def word_less_nat_alt of_nat_diff)
      with w [of "?n - (?r - ?w)"] D m show ?thesis by (simp add: rb_count_def)
    qed
  qed
qed

lemma space_len_count:
  assumes "rb_wf rb" shows "unat (rt_ringbuffer_space_len rb) = length (buffer_ptr rb) - rb_count rb"
proof -
  note D = rb_wfD [OF assms] and c = data_len_count [OF assms]
  have n: "unat (word_of_int (rb_size rb) :: u64) = length (buffer_ptr rb)"
    using D(1,2) by (simp add: unsigned_of_nat take_bit_nat_eq_self_iff)
  have "rt_ringbuffer_data_len rb \<le> word_of_int (rb_size rb)"
    using c n rb_count_le [OF assms] by (simp add: word_le_nat_alt)
  then show ?thesis unfolding rt_ringbuffer_space_len_def using c n by (simp add: unat_sub)
qed

section \<open>Writing and reading around the end\<close>

text \<open>\<open>buf'\<close> is \<open>buf\<close> with \<open>xs\<close> stored from position \<open>w\<close> on, around the end.\<close>

definition ring_written :: "nat \<Rightarrow> 'a list \<Rightarrow> 'a list \<Rightarrow> 'a list \<Rightarrow> bool" where
  "ring_written w xs buf buf' \<longleftrightarrow> length buf' = length buf \<and>
     (\<forall>j < length xs. buf' ! ((w + j) mod length buf) = xs ! j) \<and>
     (\<forall>i < length buf. (\<forall>j < length xs. i \<noteq> (w + j) mod length buf) \<longrightarrow> buf' ! i = buf ! i)"

lemma ring_written_flat:
  assumes "w + length xs \<le> length buf"
  shows "ring_written w xs buf (take w buf @ xs @ drop (w + length xs) buf)" (is "ring_written w xs buf ?b")
  unfolding ring_written_def
proof (intro conjI allI impI)
  show "length ?b = length buf" using assms by simp
  show "?b ! ((w + j) mod length buf) = xs ! j" if "j < length xs" for j
    using that assms by (simp add: nth_append)
  show "?b ! i = buf ! i" if i: "i < length buf" and n: "\<forall>j < length xs. i \<noteq> (w + j) mod length buf" for i
  proof -
    have "i < w \<or> w + length xs \<le> i"
    proof (rule ccontr)
      assume "\<not> (i < w \<or> w + length xs \<le> i)"
      then have "i - w < length xs" "i = (w + (i - w)) mod length buf" using i by auto
      with n show False by blast
    qed
    then show ?thesis using i assms by (auto simp: nth_append)
  qed
qed

lemma ring_written_wrap:
  assumes w: "w < length buf" and l: "length ys = length buf - w" "length zs \<le> w"
  shows "ring_written w (ys @ zs) buf (zs @ drop (length zs) (take w buf @ ys))" (is "ring_written w _ buf ?b")
  unfolding ring_written_def
proof (intro conjI allI impI)
  show "length ?b = length buf" using assms by simp
  have m: "(w + j) mod length buf = (if j < length ys then w + j else j - length ys)" if "j < length (ys @ zs)" for j
  proof (cases "j < length ys")
    case True
    with l show ?thesis by simp
  next
    case False
    then have "w + j = (j - length ys) + length buf" "j - length ys < length buf" using that l w by simp_all
    then have "(w + j) mod length buf = j - length ys" by (metis mod_add_self2 mod_less)
    with False show ?thesis by simp
  qed
  show "?b ! ((w + j) mod length buf) = (ys @ zs) ! j" if j: "j < length (ys @ zs)" for j
    unfolding m [OF j] using j l w by (auto simp: nth_append)
  show "?b ! i = buf ! i" if i: "i < length buf" and n: "\<forall>j < length (ys @ zs). i \<noteq> (w + j) mod length buf" for i
  proof -
    have "\<not> w \<le> i"
    proof
      assume "w \<le> i"
      then have j: "i - w < length (ys @ zs)" using i l by simp
      with n have "i \<noteq> (w + (i - w)) mod length buf" by blast
      with m [OF j] \<open>w \<le> i\<close> i l show False by simp
    qed
    moreover have "\<not> i < length zs"
    proof
      assume a: "i < length zs"
      then have j: "length ys + i < length (ys @ zs)" by simp
      with n have "i \<noteq> (w + (length ys + i)) mod length buf" by blast
      with m [OF j] show False by simp
    qed
    ultimately show ?thesis using l w by (auto simp: nth_append)
  qed
qed

lemma rb_contents_append:
  assumes wf: "rb_wf rb" and r: "ring_written (unat (write_index rb)) xs (buffer_ptr rb) (buffer_ptr rb')"
    and same: "read_index rb' = read_index rb" and n: "rb_count rb' = rb_count rb + length xs"
    and room: "rb_count rb + length xs \<le> length (buffer_ptr rb)"
  shows "rb_contents rb' = rb_contents rb @ xs"
proof (rule nth_equalityI)
  let ?r = "unat (read_index rb)" and ?n = "length (buffer_ptr rb)" and ?c = "rb_count rb"
  have l: "length (buffer_ptr rb') = ?n" using r by (simp add: ring_written_def)
  show "length (rb_contents rb') = length (rb_contents rb @ xs)" by (simp add: rb_contents_def n)
  fix i assume "i < length (rb_contents rb')"
  then have i: "i < ?c + length xs" by (simp add: rb_contents_def n)
  then have at: "rb_contents rb' ! i = buffer_ptr rb' ! ((?r + i) mod ?n)" by (simp add: rb_contents_def n same l)
  show "rb_contents rb' ! i = (rb_contents rb @ xs) ! i"
  proof (cases "i < ?c")
    case True
    have "(?r + i) mod ?n \<noteq> (unat (write_index rb) + j) mod ?n" if "j < length xs" for j
    proof
      assume "(?r + i) mod ?n = (unat (write_index rb) + j) mod ?n"
      then have "(?r + i) mod ?n = (?r + (?c + j)) mod ?n" unfolding rb_write_pos [OF wf] by (simp add: mod_simps add.assoc)
      then have "i = ?c + j" using add_mod_inj [of i ?n "?c + j" ?r] that True room by simp
      with True show False by simp
    qed
    then have "buffer_ptr rb' ! ((?r + i) mod ?n) = buffer_ptr rb ! ((?r + i) mod ?n)"
      using r rb_wfD(3) [OF wf] by (simp add: ring_written_def)
    with True at show ?thesis by (simp add: rb_contents_def nth_append)
  next
    case False
    then have "?r + ?c + (i - ?c) = ?r + i" by simp
    then have "(?r + i) mod ?n = (unat (write_index rb) + (i - ?c)) mod ?n"
      unfolding rb_write_pos [OF wf] by (metis mod_add_left_eq)
    then have "rb_contents rb' ! i = buffer_ptr rb' ! ((unat (write_index rb) + (i - ?c)) mod ?n)" using at by simp
    also have "\<dots> = xs ! (i - ?c)"
    proof -
      have "i - ?c < length xs" using False i by simp
      with r show ?thesis unfolding ring_written_def by blast
    qed
    finally show ?thesis using False by (simp add: rb_contents_def nth_append)
  qed
qed

section \<open>Storing\<close>

lemma memcpy_eq:
  assumes "off + n \<le> length src" "i + n \<le> length buf"
  shows "memcpy (int i) src (int off) (int n) buf = Some (take i buf @ take n (drop off src) @ drop (i + n) buf)"
  using assms by (simp add: memcpy_def nat_add_distrib)

lemma memcpy_int:
  assumes "a = int i" "b = int off" "c = int n" "off + n \<le> length src" "i + n \<le> length buf"
  shows "memcpy a src b c buf = Some (take i buf @ take n (drop off src) @ drop (i + n) buf)"
  unfolding assms(1-3) by (rule memcpy_eq [OF assms(4,5)])

lemma index_add:
  fixes w :: "15 word" and len :: u16
  assumes "unat w + unat len < 32768" shows "unat (w + ucast len) = unat w + unat len"
proof -
  have "take_bit 15 (unat len) = unat len" using assms by (intro take_bit_nat_eq_self) simp
  with assms show ?thesis by (simp add: unat_word_ariths unsigned_ucast_eq)
qed

lemma index_of_int: "n < 32768 \<Longrightarrow> unat (word_of_int (int n) :: 15 word) = n"
  by (simp add: unsigned_of_nat take_bit_nat_eq_self_iff)

lemma put_length:
  assumes "rb_wf rb"
  defines "sz \<equiv> ucast (rt_ringbuffer_space_len rb) :: u16"
  shows "unat sz = length (buffer_ptr rb) - rb_count rb"
    "unat (if sz < len then sz else len) = min (unat len) (length (buffer_ptr rb) - rb_count rb)"
proof -
  have "unat (rt_ringbuffer_space_len rb) < 65536"
    using space_len_count [OF assms(1)] rb_wfD(2) [OF assms(1)] by simp
  then show s: "unat sz = length (buffer_ptr rb) - rb_count rb"
    using space_len_count [OF assms(1)] by (simp add: sz_def unsigned_ucast_eq take_bit_nat_eq_self_iff)
  then show "unat (if sz < len then sz else len) = min (unat len) (length (buffer_ptr rb) - rb_count rb)"
    by (auto simp: word_less_nat_alt)
qed

text \<open>The write index after \<open>n\<close> bytes.\<close>

definition advance_write :: "nat \<Rightarrow> u8 list \<Rightarrow> rt_ringbuffer \<Rightarrow> rt_ringbuffer" where
  "advance_write n buf rb =
    (if unat (write_index rb) + n < length (buffer_ptr rb)
     then rb\<lparr>buffer_ptr := buf, write_index := of_nat (unat (write_index rb) + n)\<rparr>
     else rb\<lparr>buffer_ptr := buf, write_mirror := NOT (write_mirror rb),
             write_index := of_nat (unat (write_index rb) + n - length (buffer_ptr rb))\<rparr>)"

lemma advance_write_wf:
  assumes wf: "rb_wf rb" and n: "rb_count rb + n \<le> length (buffer_ptr rb)" and b: "length buf = length (buffer_ptr rb)"
  shows "rb_wf (advance_write n buf rb)" "rb_count (advance_write n buf rb) = rb_count rb + n"
proof -
  note D = rb_wfD [OF wf]
  let ?w = "unat (write_index rb)" and ?N = "length (buffer_ptr rb)" and ?r = "unat (read_index rb)"
  have u: "unat (of_nat m :: 15 word) = m" if "m < ?N" for m
    using that D(2) by (simp add: unsigned_of_nat take_bit_nat_eq_self_iff)
  show "rb_wf (advance_write n buf rb)" "rb_count (advance_write n buf rb) = rb_count rb + n"
  proof (atomize (full), cases "?w + n < ?N")
    case True
    have x: "unat (of_nat (?w + n) :: 15 word) = ?w + n" using u [OF True] .
    show "rb_wf (advance_write n buf rb) \<and> rb_count (advance_write n buf rb) = rb_count rb + n"
      using True D n b wf x by (auto simp: advance_write_def rb_wf_def rb_count_def uint_less_int word_le_nat_alt simp del: of_nat_add split: if_splits)
  next
    case False
    then have l: "?w + n - ?N < ?N" using n D(5) by simp
    have m: "read_mirror rb = write_mirror rb"
    proof (rule ccontr)
      assume "read_mirror rb \<noteq> write_mirror rb"
      with D(4,5,7) n False show False by (simp add: rb_count_def)
    qed
    have x: "unat (of_nat (?w + n - ?N) :: 15 word) = ?w + n - ?N" using u [OF l] .
    show "rb_wf (advance_write n buf rb) \<and> rb_count (advance_write n buf rb) = rb_count rb + n"
      using False D n b wf x m l by (auto simp: advance_write_def rb_wf_def rb_count_def uint_less_int word_le_nat_alt simp del: of_nat_add of_nat_diff split: if_splits)
  qed
qed

text \<open>Both copies of \<open>rt_ringbuffer_put\<close>, for a length that fits.\<close>

lemma put_copies:
  fixes len :: u16
  assumes wf: "rb_wf rb" and n: "rb_count rb + unat len \<le> length (buffer_ptr rb)" and p: "unat len \<le> length ptr"
  defines "room \<equiv> rb_size rb - uint (write_index rb)"
  shows "\<exists>buf. (if room > uint len
      then do {
        buf \<leftarrow> memcpy (uint (write_index rb)) ptr 0 (uint len) (buffer_ptr rb);
        Some (ucast len :: u64, rb\<lparr>buffer_ptr := buf, write_index := write_index rb + ucast len\<rparr>)
      }
      else do {
        buf \<leftarrow> memcpy (uint (write_index rb)) ptr 0 room (buffer_ptr rb);
        buf \<leftarrow> memcpy 0 ptr room (uint len - room) buf;
        Some (ucast len, rb\<lparr>buffer_ptr := buf, write_mirror := NOT (write_mirror rb), write_index := word_of_int (uint len - room)\<rparr>)
      }) = Some (ucast len, advance_write (unat len) buf rb) \<and>
    ring_written (unat (write_index rb)) (take (unat len) ptr) (buffer_ptr rb) buf"
proof -
  note D = rb_wfD [OF wf]
  let ?w = "unat (write_index rb)" and ?N = "length (buffer_ptr rb)" and ?n = "unat len" and ?buf = "buffer_ptr rb"
  have room: "room = int (?N - ?w)" using D(1,5) by (simp add: room_def of_nat_diff)
  have ui: "uint (write_index rb) = int ?w" "uint len = int ?n" by simp_all
  show ?thesis
  proof (cases "?w + ?n < ?N")
    case True
    let ?b = "take ?w ?buf @ take ?n ptr @ drop (?w + ?n) ?buf"
    have "memcpy (int ?w) ptr (int 0) (int ?n) ?buf = Some ?b" using memcpy_eq [of 0 ?n ptr ?w ?buf] True p by simp
    moreover have "room > uint len" using True unfolding room ui by linarith
    moreover have "write_index rb + ucast len = of_nat (?w + ?n)"
      using index_add [of "write_index rb" len] True D(2) by (simp add: word_unat_eq_iff unsigned_of_nat take_bit_nat_eq_self_iff)
    moreover have "ring_written ?w (take ?n ptr) ?buf ?b"
      using ring_written_flat [of ?w "take ?n ptr" ?buf] True p by (simp add: min_absorb2)
    ultimately show ?thesis using True unfolding ui by (intro exI [of _ ?b]) (simp add: advance_write_def)
  next
    case False
    let ?k = "?N - ?w"
    define b1 where "b1 = take ?w ?buf @ take ?k ptr"
    define b2 where "b2 = take (?n - ?k) (drop ?k ptr) @ drop (?n - ?k) b1"
    have k: "?k \<le> ?n" "?n - ?k \<le> ?w" using False n D(5) by simp_all
    have d: "uint len - room = int (?n - ?k)" using k(1) unfolding ui room by linarith
    have e1: "memcpy (uint (write_index rb)) ptr 0 room ?buf = Some b1"
      by (subst memcpy_int [of _ ?w _ 0 _ ?k]) (use k p D(5) in \<open>simp_all add: room b1_def\<close>)
    have e2: "memcpy 0 ptr room (uint len - room) b1 = Some b2"
      by (subst memcpy_int [of _ 0 _ ?k _ "?n - ?k"]) (use k p D(5) d in \<open>simp_all add: room b2_def b1_def\<close>)
    have "take ?n ptr = take ?k ptr @ take (?n - ?k) (drop ?k ptr)"
      using k by (metis le_add_diff_inverse take_add)
    then have r: "ring_written ?w (take ?n ptr) ?buf b2"
      using ring_written_wrap [OF D(5), of "take ?k ptr" "take (?n - ?k) (drop ?k ptr)"] k p
      by (simp add: min_absorb2 b1_def b2_def)
    have "?w + ?n - ?N = ?n - ?k" using k D(5) by simp
    then have "(word_of_int (uint len - room) :: 15 word) = of_nat (?w + ?n - ?N)" unfolding d by (simp only: of_int_of_nat_eq)
    moreover have "\<not> room > uint len" using k unfolding room by (simp add: uint_less_int)
    ultimately show ?thesis using False e1 e2 r by (intro exI [of _ b2]) (simp add: advance_write_def)
  qed
qed

lemma put_ok:
  assumes wf: "rb_wf rb" and p: "unat len \<le> length ptr"
  defines "n \<equiv> min (unat len) (length (buffer_ptr rb) - rb_count rb)"
  shows "\<exists>rb'. rt_ringbuffer_put ptr len rb = Some (of_nat n, rb') \<and> rb_wf rb' \<and> buffer_size rb' = buffer_size rb \<and>
    rb_contents rb' = rb_contents rb @ take n ptr"
proof -
  let ?sz = "ucast (rt_ringbuffer_space_len rb) :: u16"
  let ?l = "if ?sz < len then ?sz else len"
  have l: "unat ?sz = length (buffer_ptr rb) - rb_count rb" "unat ?l = n" using put_length [OF wf] by (simp_all add: n_def)
  show ?thesis
  proof (cases "?sz = 0")
    case True
    then have "n = 0" using l(1) by (simp add: n_def)
    with True wf show ?thesis by (simp add: rt_ringbuffer_put_def)
  next
    case False
    have n: "rb_count rb + unat ?l \<le> length (buffer_ptr rb)" "unat ?l \<le> length ptr"
      using rb_count_le [OF wf] p unfolding l(2) by (simp_all add: n_def)
    obtain buf where b: "rt_ringbuffer_put ptr len rb = Some (ucast ?l, advance_write (unat ?l) buf rb)"
        "ring_written (unat (write_index rb)) (take (unat ?l) ptr) (buffer_ptr rb) buf"
      using put_copies [OF wf n] False by (auto simp: rt_ringbuffer_put_def Let_def)
    have "length buf = length (buffer_ptr rb)" using b(2) by (simp add: ring_written_def)
    note A = advance_write_wf [OF wf n(1) this]
    have "rb_contents (advance_write (unat ?l) buf rb) = rb_contents rb @ take (unat ?l) ptr"
      by (rule rb_contents_append [OF wf]) (use b(2) A(2) n in \<open>simp_all add: advance_write_def\<close>)
    moreover have "(ucast ?l :: u64) = of_nat n" by (metis of_nat_unat l(2))
    ultimately show ?thesis using b(1) A(1) l(2) by (simp add: advance_write_def)
  qed
qed

section \<open>Taking out\<close>

definition advance_read :: "nat \<Rightarrow> rt_ringbuffer \<Rightarrow> rt_ringbuffer" where
  "advance_read n rb =
    (if unat (read_index rb) + n < length (buffer_ptr rb)
     then rb\<lparr>read_index := of_nat (unat (read_index rb) + n)\<rparr>
     else rb\<lparr>read_mirror := NOT (read_mirror rb), read_index := of_nat (unat (read_index rb) + n - length (buffer_ptr rb))\<rparr>)"

lemma advance_read_wf:
  assumes wf: "rb_wf rb" and n: "n \<le> rb_count rb"
  shows "rb_wf (advance_read n rb)" "rb_count (advance_read n rb) = rb_count rb - n"
    "unat (read_index (advance_read n rb)) = (unat (read_index rb) + n) mod length (buffer_ptr rb)"
proof -
  note D = rb_wfD [OF wf]
  let ?r = "unat (read_index rb)" and ?N = "length (buffer_ptr rb)" and ?w = "unat (write_index rb)"
  have u: "unat (of_nat m :: 15 word) = m" if "m < ?N" for m
    using that D(2) by (simp add: unsigned_of_nat take_bit_nat_eq_self_iff)
  show "rb_wf (advance_read n rb)" "rb_count (advance_read n rb) = rb_count rb - n"
    "unat (read_index (advance_read n rb)) = (?r + n) mod ?N"
  proof (atomize (full), cases "?r + n < ?N")
    case True
    have x: "unat (of_nat (?r + n) :: 15 word) = ?r + n" using u [OF True] .
    show "rb_wf (advance_read n rb) \<and> rb_count (advance_read n rb) = rb_count rb - n \<and>
      unat (read_index (advance_read n rb)) = (?r + n) mod ?N"
      using True D n wf x
      by (auto simp: advance_read_def rb_wf_def rb_count_def uint_less_int word_le_nat_alt simp del: of_nat_add split: if_splits)
  next
    case False
    have m: "read_mirror rb \<noteq> write_mirror rb"
    proof
      assume "read_mirror rb = write_mirror rb"
      with D(4,5,6) n False show False by (simp add: rb_count_def)
    qed
    then have l: "?r + n - ?N < ?N" "?r + n - ?N \<le> ?w" using n D(4,5,7) by (simp_all add: rb_count_def)
    have x: "unat (of_nat (?r + n - ?N) :: 15 word) = ?r + n - ?N" using u [OF l(1)] .
    have y: "(?r + n) mod ?N = ?r + n - ?N" using False l(1) by (simp add: mod_if)
    show "rb_wf (advance_read n rb) \<and> rb_count (advance_read n rb) = rb_count rb - n \<and>
      unat (read_index (advance_read n rb)) = (?r + n) mod ?N"
      unfolding y using False D n wf x m l
      by (auto simp: advance_read_def rb_wf_def rb_count_def uint_less_int word_le_nat_alt simp del: of_nat_add of_nat_diff split: if_splits)
  qed
qed

lemma advance_read_contents:
  assumes wf: "rb_wf rb" and n: "n \<le> rb_count rb"
  shows "rb_contents (advance_read n rb) = drop n (rb_contents rb)"
proof (rule nth_equalityI)
  note A = advance_read_wf [OF assms]
  have b: "buffer_ptr (advance_read n rb) = buffer_ptr rb" by (simp add: advance_read_def)
  show "length (rb_contents (advance_read n rb)) = length (drop n (rb_contents rb))" using A(2) by (simp add: rb_contents_def)
  fix i assume "i < length (rb_contents (advance_read n rb))"
  then have i: "i < rb_count rb - n" using A(2) by (simp add: rb_contents_def)
  then have "rb_contents (advance_read n rb) ! i =
      buffer_ptr rb ! (((unat (read_index rb) + n) mod length (buffer_ptr rb) + i) mod length (buffer_ptr rb))"
    using A(2,3) b by (simp add: rb_contents_def)
  also have "\<dots> = buffer_ptr rb ! ((unat (read_index rb) + (n + i)) mod length (buffer_ptr rb))" by (simp add: mod_simps add.assoc)
  also have "\<dots> = drop n (rb_contents rb) ! i"
  proof -
    have "n + i < rb_count rb" using i by simp
    then show ?thesis by (simp add: rb_contents_def)
  qed
  finally show "rb_contents (advance_read n rb) ! i = drop n (rb_contents rb) ! i" .
qed

lemma take_contents:
  assumes wf: "rb_wf rb" and n: "n \<le> rb_count rb"
  shows "take n (rb_contents rb) =
    (let k = length (buffer_ptr rb) - unat (read_index rb)
     in if n < k then take n (drop (unat (read_index rb)) (buffer_ptr rb))
        else drop (unat (read_index rb)) (buffer_ptr rb) @ take (n - k) (buffer_ptr rb))"
proof (rule nth_equalityI)
  note D = rb_wfD [OF wf] and c = rb_count_le [OF wf]
  let ?r = "unat (read_index rb)" and ?N = "length (buffer_ptr rb)"
  show "length (take n (rb_contents rb)) = length (let k = ?N - ?r in if n < k then take n (drop ?r (buffer_ptr rb))
        else drop ?r (buffer_ptr rb) @ take (n - k) (buffer_ptr rb))"
    using n c D(4) by (auto simp: rb_contents_def Let_def)
  fix i assume "i < length (take n (rb_contents rb))"
  then have i: "i < n" "i < rb_count rb" by (simp_all add: rb_contents_def)
  have "take n (rb_contents rb) ! i = buffer_ptr rb ! ((?r + i) mod ?N)" using i by (simp add: rb_contents_def)
  moreover have "(?r + i) mod ?N = (if i < ?N - ?r then ?r + i else i - (?N - ?r))"
  proof (cases "i < ?N - ?r")
    case False
    then have "?r + i = (i - (?N - ?r)) + ?N" "i - (?N - ?r) < ?N" using D(4) i c by simp_all
    then have "(?r + i) mod ?N = i - (?N - ?r)" by (metis mod_add_self2 mod_less)
    with False show ?thesis by simp
  qed simp
  ultimately show "take n (rb_contents rb) ! i = (let k = ?N - ?r in if n < k then take n (drop ?r (buffer_ptr rb))
        else drop ?r (buffer_ptr rb) @ take (n - k) (buffer_ptr rb)) ! i"
    using i n c D(4) by (auto simp: Let_def nth_append)
qed

lemma get_copies:
  fixes len :: u16
  assumes wf: "rb_wf rb" and n: "unat len \<le> rb_count rb"
  defines "room \<equiv> rb_size rb - uint (read_index rb)"
  shows "(if room > uint len
      then do {
        out \<leftarrow> memcpy 0 (buffer_ptr rb) (uint (read_index rb)) (uint len) (replicate (unat len) 0);
        Some (ucast len :: u64, out, rb\<lparr>read_index := read_index rb + ucast len\<rparr>)
      }
      else do {
        out \<leftarrow> memcpy 0 (buffer_ptr rb) (uint (read_index rb)) room (replicate (unat len) 0);
        out \<leftarrow> memcpy room (buffer_ptr rb) 0 (uint len - room) out;
        Some (ucast len, out, rb\<lparr>read_mirror := NOT (read_mirror rb), read_index := word_of_int (uint len - room)\<rparr>)
      }) = Some (ucast len, take (unat len) (rb_contents rb), advance_read (unat len) rb)"
proof -
  note D = rb_wfD [OF wf] and c = rb_count_le [OF wf]
  let ?r = "unat (read_index rb)" and ?N = "length (buffer_ptr rb)" and ?n = "unat len" and ?buf = "buffer_ptr rb"
  let ?k = "?N - ?r"
  have room: "room = int ?k" using D(1,4) by (simp add: room_def of_nat_diff)
  note T = take_contents [OF wf n, unfolded Let_def]
  have ui: "uint (read_index rb) = int ?r" "uint len = int ?n" by simp_all
  show ?thesis
  proof (cases "?n < ?k")
    case True
    have "memcpy 0 ?buf (uint (read_index rb)) (uint len) (replicate ?n 0) = Some (take ?n (drop ?r ?buf))"
      by (subst memcpy_int [of _ 0 _ ?r _ ?n]) (use True in simp_all)
    moreover have "room > uint len" using True uint_less_int [of len ?k] room by metis
    moreover have "read_index rb + ucast len = of_nat (?r + ?n)"
      using index_add [of "read_index rb" len] True D(2) by (simp add: word_unat_eq_iff unsigned_of_nat take_bit_nat_eq_self_iff)
    ultimately show ?thesis using True T by (simp add: advance_read_def)
  next
    case False
    define o1 where "o1 = drop ?r ?buf @ replicate (?n - ?k) (0 :: u8)"
    have d: "uint len - room = int (?n - ?k)" using False unfolding ui room by linarith
    have e1: "memcpy 0 ?buf (uint (read_index rb)) room (replicate ?n 0) = Some o1"
      by (subst memcpy_int [of _ 0 _ ?r _ ?k]) (use False D(4) in \<open>simp_all add: room o1_def\<close>)
    have e2: "memcpy room ?buf 0 (uint len - room) o1 = Some (drop ?r ?buf @ take (?n - ?k) ?buf)"
      by (subst memcpy_int [of _ ?k _ 0 _ "?n - ?k"]) (use False D(4) d n c in \<open>simp_all add: room o1_def\<close>)
    have "?r + ?n - ?N = ?n - ?k" using False D(4) by simp
    then have "(word_of_int (uint len - room) :: 15 word) = of_nat (?r + ?n - ?N)" unfolding d by (simp only: of_int_of_nat_eq)
    moreover have "\<not> room > uint len" using False unfolding room by (simp add: uint_less_int)
    ultimately show ?thesis using False e1 e2 T by (simp add: advance_read_def)
  qed
qed

lemma get_ok:
  fixes len :: u16
  assumes wf: "rb_wf rb"
  defines "n \<equiv> min (unat len) (rb_count rb)"
  shows "\<exists>rb'. rt_ringbuffer_get len rb = Some (of_nat n, take n (rb_contents rb), rb') \<and> rb_wf rb' \<and>
    buffer_size rb' = buffer_size rb \<and> rb_contents rb' = drop n (rb_contents rb)"
proof -
  let ?sz = "rt_ringbuffer_data_len rb"
  let ?l = "if ?sz < ucast len then ucast ?sz else len"
  have c: "unat ?sz = rb_count rb" "rb_count rb < 65536"
    using data_len_count [OF wf] rb_count_le [OF wf] rb_wfD(2) [OF wf] by simp_all
  then have "unat (ucast ?sz :: u16) = rb_count rb" by (simp add: unsigned_ucast_eq take_bit_nat_eq_self_iff)
  moreover have "unat (ucast len :: u64) = unat len"
    using unat_u16_less [of len] by (simp add: unsigned_ucast_eq take_bit_nat_eq_self_iff)
  ultimately have l: "unat ?l = n" using c(1) by (auto simp: n_def word_less_nat_alt)
  show ?thesis
  proof (cases "?sz = 0")
    case True
    then have "n = 0" using c(1) by (simp add: n_def)
    with True wf show ?thesis by (simp add: rt_ringbuffer_get_def)
  next
    case False
    have n: "unat ?l \<le> rb_count rb" unfolding l by (simp add: n_def)
    have "rt_ringbuffer_get len rb = Some (ucast ?l, take (unat ?l) (rb_contents rb), advance_read (unat ?l) rb)"
      using get_copies [OF wf n] False by (simp add: rt_ringbuffer_get_def Let_def)
    moreover have "(ucast ?l :: u64) = of_nat n" by (metis of_nat_unat l)
    ultimately show ?thesis
      using advance_read_wf(1) [OF wf n] advance_read_contents [OF wf n] l by (simp add: advance_read_def)
  qed
qed

section \<open>Single bytes\<close>

text \<open>\<open>rt_ringbuffer_putchar\<close> and \<open>rt_ringbuffer_getchar\<close> as operations that fail when the buffer is full or
  empty.\<close>

definition rb_put1 :: "u8 \<Rightarrow> rt_ringbuffer \<Rightarrow> rt_ringbuffer option" where
  "rb_put1 ch rb = (case rt_ringbuffer_putchar ch rb of Some (n, rb') \<Rightarrow> if n = 1 then Some rb' else None | None \<Rightarrow> None)"

definition rb_get1 :: "rt_ringbuffer \<Rightarrow> (u8 \<times> rt_ringbuffer) option" where
  "rb_get1 rb = (case rt_ringbuffer_getchar rb of Some (n, Some ch, rb') \<Rightarrow> Some (ch, rb') | _ \<Rightarrow> None)"

lemma last_index:
  assumes "uint (x :: 15 word) < int n"
  shows "(uint x = int n - 1) = (unat x + 1 = n)"
proof -
  have "uint x = int (unat x)" by simp
  then have "(uint x = int n - 1) = (int (unat x) + 1 = int n)" by linarith
  also have "\<dots> = (unat x + 1 = n)" by linarith
  finally show ?thesis .
qed

lemma putchar_ok:
  assumes wf: "rb_wf rb" and room: "rb_count rb < length (buffer_ptr rb)"
  shows "\<exists>rb'. rt_ringbuffer_putchar ch rb = Some (1, rb') \<and> rb_wf rb' \<and> rb_contents rb' = rb_contents rb @ [ch] \<and>
    buffer_size rb' = buffer_size rb"
proof -
  note D = rb_wfD [OF wf]
  let ?w = "unat (write_index rb)" and ?N = "length (buffer_ptr rb)"
  let ?b = "(buffer_ptr rb)[?w := ch]"
  have "rt_ringbuffer_space_len rb \<noteq> 0" using space_len_count [OF wf] room by auto
  moreover have "uint (write_index rb) < int ?N" using D(5) by (simp add: uint_less_int)
  then have "uint (write_index rb) = rb_size rb - 1 \<longleftrightarrow> ?w + 1 = ?N" using last_index D(1) by simp
  moreover have "write_index rb + 1 = of_nat (?w + 1)" by simp
  ultimately have e: "rt_ringbuffer_putchar ch rb = Some (1, advance_write 1 ?b rb)"
    using D(5) by (auto simp: rt_ringbuffer_putchar_def rb_store_def rb_step_write_def advance_write_def)
  have A: "rb_wf (advance_write 1 ?b rb)" "rb_count (advance_write 1 ?b rb) = rb_count rb + 1"
    using advance_write_wf [OF wf, of 1 ?b] room by simp_all
  have "ring_written ?w [ch] (buffer_ptr rb) ?b" using D(5) by (auto simp: ring_written_def nth_list_update)
  then have "rb_contents (advance_write 1 ?b rb) = rb_contents rb @ [ch]"
    by (intro rb_contents_append [OF wf]) (use A(2) room in \<open>simp_all add: advance_write_def\<close>)
  with e A(1) show ?thesis by (simp add: advance_write_def)
qed

lemma getchar_ok:
  assumes wf: "rb_wf rb" and c: "rb_contents rb = ch # cs"
  shows "\<exists>rb'. rt_ringbuffer_getchar rb = Some (1, Some ch, rb') \<and> rb_wf rb' \<and> rb_contents rb' = cs \<and>
    buffer_size rb' = buffer_size rb"
proof -
  note D = rb_wfD [OF wf]
  let ?r = "unat (read_index rb)" and ?N = "length (buffer_ptr rb)"
  have n: "1 \<le> rb_count rb" using arg_cong [OF c, of length] by (simp add: rb_contents_def)
  then have "rt_ringbuffer_data_len rb \<noteq> 0" using data_len_count [OF wf] by auto
  moreover have "uint (read_index rb) < int ?N" using D(4) by (simp add: uint_less_int)
  then have "uint (read_index rb) = rb_size rb - 1 \<longleftrightarrow> ?r + 1 = ?N" using last_index D(1) by simp
  moreover have "buffer_ptr rb ! ?r = ch"
  proof -
    have "rb_contents rb ! 0 = buffer_ptr rb ! ((?r + 0) mod ?N)" using n unfolding rb_contents_def by (subst nth_map) simp_all
    then show ?thesis using c D(4) by simp
  qed
  ultimately have "rt_ringbuffer_getchar rb = Some (1, Some ch, advance_read 1 rb)"
    using D(4) by (auto simp: rt_ringbuffer_getchar_def advance_read_def)
  with advance_read_wf(1) [OF wf n] advance_read_contents [OF wf n] c show ?thesis by (simp add: advance_read_def)
qed

lemma rb_contents_length [simp]: "length (rb_contents rb) = rb_count rb"
  by (simp add: rb_contents_def)

interpretation rbq: bounded_fifo rb_wf rb_contents "\<lambda>rb. length (buffer_ptr rb)" rb_put1 rb_get1 "\<lambda>_ _. True"
proof
  fix rb :: rt_ringbuffer and ch cs
  assume wf: "rb_wf rb"
  note N = rb_wfD(1)
  show "length (rb_contents rb) \<le> length (buffer_ptr rb)" using rb_count_le [OF wf] by simp
  show "\<exists>q'. rb_put1 ch rb = Some q' \<and> rb_wf q' \<and> rb_contents q' = rb_contents rb @ [ch] \<and>
      length (buffer_ptr q') = length (buffer_ptr rb) \<and> (\<forall>y::u8. True = True)"
    if room: "length (rb_contents rb) < length (buffer_ptr rb)"
  proof -
    obtain rb' where "rt_ringbuffer_putchar ch rb = Some (1, rb')" "rb_wf rb'" "rb_contents rb' = rb_contents rb @ [ch]"
        "buffer_size rb' = buffer_size rb"
      using putchar_ok [OF wf, of ch] room by auto
    with N [OF wf] N [of rb'] show ?thesis by (simp add: rb_put1_def)
  qed
  show "\<exists>q'. rb_get1 rb = Some (ch, q') \<and> rb_wf q' \<and> rb_contents q' = cs \<and>
      length (buffer_ptr q') = length (buffer_ptr rb) \<and> (\<forall>y::u8. True = True)"
    if c: "rb_contents rb = ch # cs"
  proof -
    obtain rb' where "rt_ringbuffer_getchar rb = Some (1, Some ch, rb')" "rb_wf rb'" "rb_contents rb' = cs"
        "buffer_size rb' = buffer_size rb"
      using getchar_ok [OF wf c] by auto
    with N [OF wf] N [of rb'] show ?thesis by (simp add: rb_get1_def)
  qed
qed

section \<open>Properties\<close>

text \<open>C29: Storing bytes in a ring buffer: as many of the bytes as there is room for are appended to the contents,
  across the end of the pool if need be, their number is returned, no access leaves the pool, and taking any
  number of bytes out afterwards returns the oldest bytes in order and leaves the rest.\<close>

theorem ringbuffer_put_get:
  assumes "rb_wf rb" "unat len \<le> length ptr"
  shows "\<exists>rb'. rt_ringbuffer_put ptr len rb =
      Some (of_nat (min (unat len) (length (buffer_ptr rb) - length (rb_contents rb))), rb') \<and> rb_wf rb' \<and>
    rb_contents rb' = rb_contents rb @ take (min (unat len) (length (buffer_ptr rb) - length (rb_contents rb))) ptr \<and>
    (\<forall>len'. \<exists>rb''. rt_ringbuffer_get len' rb' =
        Some (of_nat (min (unat len') (length (rb_contents rb'))), take (unat len') (rb_contents rb'), rb'') \<and>
      rb_wf rb'' \<and> rb_contents rb'' = drop (unat len') (rb_contents rb'))"
proof -
  obtain rb' where rb': "rt_ringbuffer_put ptr len rb =
      Some (of_nat (min (unat len) (length (buffer_ptr rb) - rb_count rb)), rb')" "rb_wf rb'"
      "rb_contents rb' = rb_contents rb @ take (min (unat len) (length (buffer_ptr rb) - rb_count rb)) ptr"
    using put_ok [OF assms] by blast
  have "\<exists>rb''. rt_ringbuffer_get len' rb' =
        Some (of_nat (min (unat len') (length (rb_contents rb'))), take (unat len') (rb_contents rb'), rb'') \<and>
      rb_wf rb'' \<and> rb_contents rb'' = drop (unat len') (rb_contents rb')" for len'
  proof -
    have "take (min m (rb_count rb')) (rb_contents rb') = take m (rb_contents rb')"
      "drop (min m (rb_count rb')) (rb_contents rb') = drop m (rb_contents rb')" for m
      by (cases "m \<le> rb_count rb'"; simp add: min_def)+
    with get_ok [OF rb'(2), of len'] show ?thesis by auto
  qed
  with rb' show ?thesis unfolding rb_contents_length by (intro exI [of _ rb']) blast
qed

definition sample_rb :: "1 word \<Rightarrow> rt_ringbuffer" where
  "sample_rb m = \<lparr>buffer_ptr = [0, 1, 2, 3, 4, 5, 6, 7], read_mirror = m, read_index = 2, write_mirror = m, write_index = 6,
     buffer_size = 8\<rparr>"

lemma sample_rb_wf: "rb_wf (sample_rb m)" "rb_contents (sample_rb m) = [2, 3, 4, 5]"
proof -
  have "[0..<4] = [0, 1, 2, 3 :: nat]" by (simp add: upt_rec)
  then show "rb_contents (sample_rb m) = [2, 3, 4, 5]" by (simp add: rb_contents_def rb_count_def sample_rb_def)
qed (simp add: rb_wf_def sample_rb_def)

theorem ringbuffer_put_get_witness:
  "\<exists>rb'. rt_ringbuffer_put [9, 8, 7] 3 (sample_rb 0) = Some (3, rb') \<and> rb_contents rb' = [2, 3, 4, 5, 9, 8, 7]"
proof -
  have "rb_count (sample_rb 0) = 4" "length (buffer_ptr (sample_rb 0)) = 8" by (simp_all add: sample_rb_def rb_count_def)
  then show ?thesis
    using ringbuffer_put_get [OF sample_rb_wf(1), of 3 "[9, 8, 7]" 0] sample_rb_wf(2) [of 0] by auto
qed

text \<open>Putting and getting single bytes is first-in first-out: a sequence of bytes that fits comes out behind the old
  contents and in order, and the buffer is empty afterwards.\<close>

theorem ringbuffer_chars_fifo:
  assumes "rb_wf rb" "length (rb_contents rb) + length xs \<le> length (buffer_ptr rb)"
  shows "\<exists>rb1 rb2. put_list rb_put1 xs rb = Some rb1 \<and>
    get_list rb_get1 (length (rb_contents rb) + length xs) rb1 = Some (rb_contents rb @ xs, rb2) \<and>
    rb_wf rb2 \<and> rb_contents rb2 = []"
  using rbq.fifo [OF assms] by auto

theorem ringbuffer_chars_fifo_witness:
  "\<exists>rb1 rb2. put_list rb_put1 [9, 8, 7] (sample_rb 1) = Some rb1 \<and>
    get_list rb_get1 7 rb1 = Some ([2, 3, 4, 5, 9, 8, 7], rb2) \<and> rb_contents rb2 = []"
proof -
  have l: "length [2, 3, 4, 5 :: u8] + length [9, 8, 7 :: u8] = 7" by simp
  have "length (rb_contents (sample_rb 1)) + length [9, 8, 7 :: u8] \<le> length (buffer_ptr (sample_rb 1))"
    unfolding sample_rb_wf(2) by (simp add: sample_rb_def)
  from ringbuffer_chars_fifo [OF sample_rb_wf(1) this] show ?thesis unfolding sample_rb_wf(2) l by auto
qed

text \<open>\<open>rt_ringbuffer_put_force\<close> can lose the whole buffer: when the read and write index are in the same mirror and the
  forced bytes run over the end of the pool and over unread data, it flips the mirror of the read index as well, so
  the indices end equal in the same mirror and the buffer, which holds all the bytes just written, reads as empty.\<close>

theorem put_force_overflow_empties:
  assumes "rb_wf rb" "read_mirror rb = write_mirror rb" "unat len \<le> length (buffer_ptr rb)" "length ptr = unat len"
    and "length (buffer_ptr rb) \<le> unat (write_index rb) + unat len"
    and "length (buffer_ptr rb) - length (rb_contents rb) < unat len"
  shows "\<exists>rb'. rt_ringbuffer_put_force ptr len rb = Some (ucast len, rb') \<and> rt_ringbuffer_status rb' = RT_RINGBUFFER_EMPTY \<and>
    rb_contents rb' = []"
proof -
  note D = rb_wfD [OF assms(1)]
  let ?w = "unat (write_index rb)" and ?N = "length (buffer_ptr rb)" and ?n = "unat len" and ?buf = "buffer_ptr rb"
  let ?room = "rb_size rb - uint (write_index rb)" and ?k = "?N - ?w"
  define b1 where "b1 = take ?w ?buf @ take ?k ptr"
  define b2 where "b2 = take (?n - ?k) (drop ?k ptr) @ drop (?n - ?k) b1"
  have ui: "uint (write_index rb) = int ?w" "uint len = int ?n" by simp_all
  have room: "?room = int ?k" using D(1,5) by (simp add: of_nat_diff)
  have k: "?k \<le> ?n" "?n - ?k \<le> ?N" using assms(3,5) D(5) by simp_all
  have d: "uint len - ?room = int (?n - ?k)" using k(1) unfolding room unfolding ui by linarith
  have e1: "memcpy (uint (write_index rb)) ptr 0 ?room ?buf = Some b1"
    unfolding room by (subst memcpy_int [of _ ?w _ 0 _ ?k]) (use k assms(4) D(5) in \<open>simp_all add: b1_def\<close>)
  have e2: "memcpy 0 ptr ?room (uint len - ?room) b1 = Some b2"
    unfolding d unfolding room by (subst memcpy_int [of _ 0 _ ?k _ "?n - ?k"]) (use k assms(4) D(5) in \<open>simp_all add: b2_def b1_def\<close>)
  have nr: "\<not> ?room > uint len" using k unfolding room by (simp add: uint_less_int)
  have cut: "\<not> uint len > rb_size rb" using assms(3) D(1) unfolding ui by linarith
  have sp: "len > (ucast (rt_ringbuffer_space_len rb) :: u16)"
    using put_length(1) [OF assms(1)] assms(6) by (simp add: word_less_nat_alt)
  let ?rb = "rb\<lparr>buffer_ptr := b2, write_mirror := NOT (write_mirror rb), write_index := word_of_int (uint len - ?room),
    read_mirror := NOT (read_mirror rb), read_index := word_of_int (uint len - ?room)\<rparr>"
  have "rt_ringbuffer_put_force ptr len rb = Some (ucast len, ?rb)"
    using e1 e2 nr cut sp by (simp add: rt_ringbuffer_put_force_def Let_def)
  then show ?thesis using assms(2) by (intro exI [of _ ?rb]) (simp add: rt_ringbuffer_status_def rb_contents_def rb_count_def)
qed

theorem put_force_overflow_empties_witness:
  "\<exists>rb'. rt_ringbuffer_put_force [11, 12, 13, 14, 15, 16] 6 (sample_rb 0) = Some (6, rb') \<and> rb_contents rb' = []"
proof -
  have "rb_count (sample_rb 0) = 4" by (simp add: sample_rb_def rb_count_def)
  then show ?thesis
    using put_force_overflow_empties [OF sample_rb_wf(1), of 0 6 "[11, 12, 13, 14, 15, 16]"]
    by (auto simp: sample_rb_def)
qed

end
