(* ===== verification/Kstring.thy ===== *)
theory Kstring
  imports Prelude
begin

text \<open>
  The memory and string services of \<^verbatim>\<open>src/kservice.c\<close>. Memory gives the byte at an address; an address without a byte is not
  mapped, and an access to it never returns (\<^const>\<open>None\<close>). A \<^verbatim>\<open>char\<close> is unsigned, as the RISC-V calling convention has it.
\<close>

section \<open>Bytes and words in memory\<close>

type_synonym bytes = "nat \<Rightarrow> u8 option"

definition put_byte :: "nat \<Rightarrow> u8 \<Rightarrow> bytes \<Rightarrow> bytes option" where
  "put_byte a v m = (if m a = None then None else Some (m(a \<mapsto> v)))"

definition copy_byte :: "nat \<Rightarrow> nat \<Rightarrow> bytes \<Rightarrow> bytes option" where
  "copy_byte d s m = do { v \<leftarrow> m s; put_byte d v m }"

text \<open>A long is its eight bytes, the lowest first.\<close>

definition put_long :: "nat \<Rightarrow> u64 \<Rightarrow> bytes \<Rightarrow> bytes option" where
  "put_long a w m = fold (\<lambda>k r. Option.bind r (put_byte (a + k) (ucast (drop_bit (8 * k) w)))) [0..<8] (Some m)"

definition get_long :: "nat \<Rightarrow> bytes \<Rightarrow> u64 option" where
  "get_long a m = fold (\<lambda>k r. Option.bind r (\<lambda>w. map_option (\<lambda>v. w OR push_bit (8 * k) (ucast v)) (m (a + k)))) [0..<8] (Some 0)"

section \<open>Setting and copying memory\<close>

text \<open>The last loop of \<open>rt_memset\<close>, and the one over words.\<close>

fun set_bytes :: "nat \<Rightarrow> u8 \<Rightarrow> nat \<Rightarrow> bytes \<Rightarrow> bytes option" where
  "set_bytes p d 0 m = Some m"
| "set_bytes p d (Suc count) m = do { m \<leftarrow> put_byte p d m; set_bytes (p + 1) d count m }"

definition set_buffer :: "u8 \<Rightarrow> u64" where
  "set_buffer d = fold (\<lambda>_ buffer. push_bit 8 buffer OR ucast d) [0..<8] 0"

fun set_longs :: "nat \<Rightarrow> u64 \<Rightarrow> nat \<Rightarrow> bytes \<Rightarrow> (nat \<times> nat \<times> bytes) option" where
  "set_longs p buffer count m =
    (if count \<ge> 8 then do { m \<leftarrow> put_long p buffer m; set_longs (p + 8) buffer (count - 8) m } else Some (p, count, m))"

fun set_blocks :: "nat \<Rightarrow> u64 \<Rightarrow> nat \<Rightarrow> bytes \<Rightarrow> (nat \<times> nat \<times> bytes) option" where
  "set_blocks p buffer count m =
    (if count \<ge> 32 then do {
       m \<leftarrow> put_long p buffer m;
       m \<leftarrow> put_long (p + 8) buffer m;
       m \<leftarrow> put_long (p + 16) buffer m;
       m \<leftarrow> put_long (p + 24) buffer m;
       set_blocks (p + 32) buffer (count - 32) m
     } else Some (p, count, m))"

declare set_longs.simps [simp del] set_blocks.simps [simp del]

definition rt_memset :: "nat \<Rightarrow> int \<Rightarrow> u64 \<Rightarrow> bytes \<Rightarrow> bytes option" where
  "rt_memset s c count m =
    (let d = word_of_int c :: u8; n = unat count in
     if \<not> n < 8 \<and> 8 dvd s then do {
       (p, n, m) \<leftarrow> set_blocks s (set_buffer d) n m;
       (p, n, m) \<leftarrow> set_longs p (set_buffer d) n m;
       set_bytes p d n m
     } else set_bytes s d n m)"

text \<open>\<open>len\<close> is an \<open>int\<close>; the comparisons with a size convert it to an unsigned long.\<close>

definition copy_long :: "nat \<Rightarrow> nat \<Rightarrow> bytes \<Rightarrow> bytes option" where
  "copy_long d s m = do { w \<leftarrow> get_long s m; put_long d w m }"

partial_function (option) copy_blocks :: "nat \<Rightarrow> nat \<Rightarrow> u32 \<Rightarrow> bytes \<Rightarrow> (nat \<times> nat \<times> u32 \<times> bytes) option" where
  "copy_blocks d s len m =
    (if (scast len :: u64) \<ge> 32
     then Option.bind (copy_long d s m) (\<lambda>m.
          Option.bind (copy_long (d + 8) (s + 8) m) (\<lambda>m.
          Option.bind (copy_long (d + 16) (s + 16) m) (\<lambda>m.
          Option.bind (copy_long (d + 24) (s + 24) m) (\<lambda>m.
          copy_blocks (d + 32) (s + 32) (len - 32) m))))
     else Some (d, s, len, m))"

partial_function (option) copy_longs :: "nat \<Rightarrow> nat \<Rightarrow> u32 \<Rightarrow> bytes \<Rightarrow> (nat \<times> nat \<times> u32 \<times> bytes) option" where
  "copy_longs d s len m =
    (if (scast len :: u64) \<ge> 8
     then Option.bind (copy_long d s m) (\<lambda>m. copy_longs (d + 8) (s + 8) (len - 8) m)
     else Some (d, s, len, m))"

partial_function (option) copy_bytes :: "nat \<Rightarrow> nat \<Rightarrow> u32 \<Rightarrow> bytes \<Rightarrow> bytes option" where
  "copy_bytes d s len m =
    (if len = 0 then Some m else Option.bind (copy_byte d s m) (\<lambda>m. copy_bytes (d + 1) (s + 1) (len - 1) m))"

definition rt_memcpy :: "nat \<Rightarrow> nat \<Rightarrow> u64 \<Rightarrow> bytes \<Rightarrow> bytes option" where
  "rt_memcpy dst src count m =
    (let len = ucast count :: u32 in
     if \<not> (scast len :: u64) < 32 \<and> 8 dvd src \<and> 8 dvd dst then do {
       (d, s, len, m) \<leftarrow> copy_blocks dst src len m;
       (d, s, len, m) \<leftarrow> copy_longs d s len m;
       copy_bytes d s len m
     } else copy_bytes dst src len m)"

text \<open>The two loops of \<open>rt_memmove\<close>: down from the ends, and up.\<close>

fun move_down :: "nat \<Rightarrow> nat \<Rightarrow> nat \<Rightarrow> bytes \<Rightarrow> bytes option" where
  "move_down tmp s 0 m = Some m"
| "move_down tmp s (Suc n) m = do { m \<leftarrow> copy_byte (tmp - 1) (s - 1) m; move_down (tmp - 1) (s - 1) n m }"

fun move_up :: "nat \<Rightarrow> nat \<Rightarrow> nat \<Rightarrow> bytes \<Rightarrow> bytes option" where
  "move_up tmp s 0 m = Some m"
| "move_up tmp s (Suc n) m = do { m \<leftarrow> copy_byte tmp s m; move_up (tmp + 1) (s + 1) n m }"

definition rt_memmove :: "nat \<Rightarrow> nat \<Rightarrow> u64 \<Rightarrow> bytes \<Rightarrow> bytes option" where
  "rt_memmove dest s n m =
    (if s < dest \<and> dest < s + unat n then move_down (dest + unat n) (s + unat n) (unat n) m
     else move_up dest s (unat n) m)"

section \<open>Comparing and scanning\<close>

fun memcmp_loop :: "nat \<Rightarrow> nat \<Rightarrow> nat \<Rightarrow> bytes \<Rightarrow> int option" where
  "memcmp_loop su1 su2 0 m = Some 0"
| "memcmp_loop su1 su2 (Suc count) m = do {
    a \<leftarrow> m su1;
    b \<leftarrow> m su2;
    let res = uint a - uint b;
    if res \<noteq> 0 then Some res else memcmp_loop (su1 + 1) (su2 + 1) count m
  }"

definition rt_memcmp :: "nat \<Rightarrow> nat \<Rightarrow> u64 \<Rightarrow> bytes \<Rightarrow> int option" where
  "rt_memcmp cs ct count m = memcmp_loop cs ct (unat count) m"

partial_function (option) strlen_loop :: "nat \<Rightarrow> nat \<Rightarrow> bytes \<Rightarrow> nat option" where
  "strlen_loop s sc m = Option.bind (m sc) (\<lambda>c. if c \<noteq> 0 then strlen_loop s (sc + 1) m else Some (sc - s))"

definition rt_strlen :: "nat \<Rightarrow> bytes \<Rightarrow> u64 option" where
  "rt_strlen s m = map_option word_of_nat (strlen_loop s s m)"

partial_function (option) strnlen_loop :: "nat \<Rightarrow> u64 \<Rightarrow> nat \<Rightarrow> bytes \<Rightarrow> nat option" where
  "strnlen_loop s maxlen sc m =
    Option.bind (m sc) (\<lambda>c. if c \<noteq> 0 \<and> sc - s < unat maxlen then strnlen_loop s maxlen (sc + 1) m else Some (sc - s))"

definition rt_strnlen :: "nat \<Rightarrow> u64 \<Rightarrow> bytes \<Rightarrow> u64 option" where
  "rt_strnlen s maxlen m = map_option word_of_nat (strnlen_loop s maxlen s m)"

partial_function (option) rt_strcmp :: "nat \<Rightarrow> nat \<Rightarrow> bytes \<Rightarrow> int option" where
  "rt_strcmp cs ct m =
    Option.bind (m cs) (\<lambda>a. if a \<noteq> 0
      then Option.bind (m ct) (\<lambda>b. if a = b then rt_strcmp (cs + 1) (ct + 1) m else Some (uint a - uint b))
      else Option.bind (m ct) (\<lambda>b. Some (uint a - uint b)))"

text \<open>The difference is kept in a signed char.\<close>

fun strncmp_loop :: "nat \<Rightarrow> nat \<Rightarrow> nat \<Rightarrow> int \<Rightarrow> bytes \<Rightarrow> int option" where
  "strncmp_loop cs ct 0 res m = Some res"
| "strncmp_loop cs ct (Suc count) res m = do {
    a \<leftarrow> m cs;
    b \<leftarrow> m ct;
    let res = sint (word_of_int (uint a - uint b) :: u8);
    if res \<noteq> 0 \<or> a = 0 then Some res else strncmp_loop (cs + 1) (ct + 1) count res m
  }"

definition rt_strncmp :: "nat \<Rightarrow> nat \<Rightarrow> u64 \<Rightarrow> bytes \<Rightarrow> int option" where
  "rt_strncmp cs ct count m = strncmp_loop cs ct (unat count) 0 m"

definition lower_case :: "int \<Rightarrow> int" where
  "lower_case c = (if c \<ge> 65 \<and> c \<le> 90 then c + (97 - 65) else c)"

partial_function (option) rt_strcasecmp :: "nat \<Rightarrow> nat \<Rightarrow> bytes \<Rightarrow> int option" where
  "rt_strcasecmp a b m =
    Option.bind (m a) (\<lambda>ca. Option.bind (m b) (\<lambda>cb.
      let ca = lower_case (uint ca); cb = lower_case (uint cb)
      in if ca = cb \<and> ca \<noteq> 0 then rt_strcasecmp (a + 1) (b + 1) m else Some (ca - cb)))"

text \<open>The loop of \<open>rt_strncpy\<close> with \<open>n\<close> characters to go; the rest is padded with zeros.\<close>

fun strncpy_loop :: "nat \<Rightarrow> nat \<Rightarrow> nat \<Rightarrow> bytes \<Rightarrow> bytes option" where
  "strncpy_loop d s 0 m = Some m"
| "strncpy_loop d s (Suc n) m = do {
    c \<leftarrow> m s;
    m \<leftarrow> put_byte d c m;
    if c = 0 then set_bytes (d + 1) 0 n m else strncpy_loop (d + 1) (s + 1) n m
  }"

definition rt_strncpy :: "nat \<Rightarrow> nat \<Rightarrow> u64 \<Rightarrow> bytes \<Rightarrow> bytes option" where
  "rt_strncpy dst src n m = strncpy_loop dst src (unat n) m"

text \<open>The loop of \<open>rt_strstr\<close>; both lengths are kept in an \<open>int\<close>.\<close>

function strstr_loop :: "nat \<Rightarrow> nat \<Rightarrow> int \<Rightarrow> int \<Rightarrow> bytes \<Rightarrow> nat option option" where
  "strstr_loop s1 s2 l1 l2 m =
    (if l1 \<ge> l2 then do {
       r \<leftarrow> rt_memcmp s1 s2 (word_of_int l2) m;
       if r = 0 then Some (Some s1) else strstr_loop (s1 + 1) s2 (l1 - 1) l2 m
     } else Some None)"
  by pat_completeness auto
termination by (relation "measure (\<lambda>(s1, s2, l1, l2, m). nat (l1 - l2 + 1))") auto

declare strstr_loop.simps [simp del]

definition rt_strstr :: "nat \<Rightarrow> nat \<Rightarrow> bytes \<Rightarrow> nat option option" where
  "rt_strstr s1 s2 m = do {
    n2 \<leftarrow> rt_strlen s2 m;
    let l2 = sint (ucast n2 :: u32);
    if l2 = 0 then Some (Some s1)
    else do {
      n1 \<leftarrow> rt_strlen s1 m;
      strstr_loop s1 s2 (sint (ucast n1 :: u32)) l2 m
    }
  }"

section \<open>Memory as a whole\<close>

definition mapped :: "bytes \<Rightarrow> nat \<Rightarrow> nat \<Rightarrow> bool" where
  "mapped m a n \<longleftrightarrow> (\<forall>x. a \<le> x \<longrightarrow> x < a + n \<longrightarrow> m x \<noteq> None)"

text \<open>The effect of filling and of copying an area.\<close>

definition filled :: "nat \<Rightarrow> nat \<Rightarrow> (nat \<Rightarrow> u8) \<Rightarrow> bytes \<Rightarrow> bytes" where
  "filled a n f m = (\<lambda>x. if a \<le> x \<and> x < a + n then Some (f (x - a)) else m x)"

definition copied :: "nat \<Rightarrow> nat \<Rightarrow> nat \<Rightarrow> bytes \<Rightarrow> bytes" where
  "copied d s n m = (\<lambda>x. if d \<le> x \<and> x < d + n then m (x - d + s) else m x)"

lemma mapped_mono: "mapped m a n \<Longrightarrow> a \<le> b \<Longrightarrow> b + k \<le> a + n \<Longrightarrow> mapped m b k"
  by (simp add: mapped_def)

lemma mapped_at: "mapped m a n \<Longrightarrow> a \<le> x \<Longrightarrow> x < a + n \<Longrightarrow> \<exists>v. m x = Some v"
  by (auto simp: mapped_def)

lemma mapped_filled: "mapped m b k \<Longrightarrow> mapped (filled a n f m) b k"
  by (auto simp: mapped_def filled_def)

lemma mapped_copied: "mapped m b k \<Longrightarrow> mapped m s n \<Longrightarrow> mapped (copied d s n m) b k"
  by (auto simp: mapped_def copied_def)

lemma filled_0 [simp]: "filled a 0 f m = m"
  by (auto simp: filled_def fun_eq_iff)

lemma copied_0 [simp]: "copied d s 0 m = m"
  by (auto simp: copied_def fun_eq_iff)

lemma put_byte_filled: "mapped m a 1 \<Longrightarrow> put_byte a v m = Some (filled a 1 (\<lambda>_. v) m)"
  by (auto simp: put_byte_def mapped_def filled_def fun_eq_iff)

lemma filled_append:
  assumes "\<And>i. i < n \<Longrightarrow> h i = f i" "\<And>i. i < k \<Longrightarrow> h (n + i) = g i"
  shows "filled (a + n) k g (filled a n f m) = filled a (n + k) h m"
proof (rule ext)
  fix x
  consider "x < a" | "a \<le> x" "x < a + n" | i where "x = a + n + i" "i < k" | "a + n + k \<le> x"
    by (metis add_less_cancel_left le_iff_add not_le)
  then show "filled (a + n) k g (filled a n f m) x = filled a (n + k) h m x"
    by cases (simp_all add: filled_def assms)
qed

lemma copied_append:
  assumes "d \<le> s \<or> s + k + n \<le> d"
  shows "copied (d + k) (s + k) n (copied d s k m) = copied d s (k + n) m"
proof (rule ext)
  fix x
  consider "x < d" | "d \<le> x" "x < d + k" | "d + k \<le> x" "x < d + k + n" | "d + k + n \<le> x" by linarith
  then show "copied (d + k) (s + k) n (copied d s k m) x = copied d s (k + n) m x"
  proof cases
    case 3
    then obtain i where i: "x = d + k + i" "i < n" by (metis add_less_cancel_left le_iff_add)
    then have "\<not> (d \<le> k + i + s \<and> k + i + s < d + k)" using assms by linarith
    with i show ?thesis by (auto simp: copied_def ac_simps)
  qed (simp_all add: copied_def)
qed

lemma copy_byte_copied:
  assumes "mapped m d 1" "mapped m s 1"
  shows "copy_byte d s m = Some (copied d s 1 m)"
proof -
  obtain v where "m s = Some v" using mapped_at [OF assms(2), of s] by auto
  moreover have "m d \<noteq> None" using assms(1) by (auto simp: mapped_def)
  ultimately show ?thesis by (auto simp: copy_byte_def put_byte_def copied_def fun_eq_iff)
qed

lemma put_long_filled:
  assumes "mapped m a 8"
  shows "put_long a w m = Some (filled a 8 (\<lambda>i. ucast (drop_bit (8 * i) w)) m)"
proof -
  have "fold (\<lambda>k r. Option.bind r (put_byte (a + k) (ucast (drop_bit (8 * k) w)))) [0..<n] (Some m) =
      Some (filled a n (\<lambda>i. ucast (drop_bit (8 * i) w)) m)" if "n \<le> 8" for n
    using that
  proof (induction n)
    case (Suc n)
    have "mapped (filled a n (\<lambda>i. ucast (drop_bit (8 * i) w)) m) (a + n) 1"
      using mapped_filled mapped_mono [OF assms, of "a + n" 1] Suc.prems by simp
    from put_byte_filled [OF this] Suc filled_append [of n "\<lambda>i. ucast (drop_bit (8 * i) w)" "\<lambda>i. ucast (drop_bit (8 * i) w)" 1]
    show ?case by simp
  qed simp
  then show ?thesis by (simp add: put_long_def)
qed

lemma get_long_bits:
  assumes "mapped m a 8"
  shows "\<exists>w. get_long a m = Some w \<and> (\<forall>i < 8. m (a + i) = Some (ucast (drop_bit (8 * i) w)))"
proof -
  have "\<exists>w. fold (\<lambda>k r. Option.bind r (\<lambda>w. map_option (\<lambda>v. w OR push_bit (8 * k) (ucast v)) (m (a + k)))) [0..<n] (Some (0 :: u64)) = Some w \<and>
      (\<forall>j. bit w j \<longleftrightarrow> j < 8 * n \<and> bit (the (m (a + j div 8))) (j mod 8))" if "n \<le> 8" for n
    using that
  proof (induction n)
    case (Suc n)
    then obtain w where w: "fold (\<lambda>k r. Option.bind r (\<lambda>w. map_option (\<lambda>v. w OR push_bit (8 * k) (ucast v)) (m (a + k)))) [0..<n] (Some (0 :: u64)) = Some w"
      "\<And>j. bit w j \<longleftrightarrow> j < 8 * n \<and> bit (the (m (a + j div 8))) (j mod 8)" by auto
    obtain v where v: "m (a + n) = Some v" using mapped_at [OF assms, of "a + n"] Suc.prems by auto
    have "bit (w OR push_bit (8 * n) (ucast v)) j \<longleftrightarrow> j < 8 * Suc n \<and> bit (the (m (a + j div 8))) (j mod 8)" for j
    proof (cases "8 * n \<le> j \<and> j < 8 * Suc n")
      case True
      then have div: "j div 8 = n" by (simp add: div_nat_eqI)
      moreover have "j mod 8 = j - 8 * n" using minus_div_mult_eq_mod [of j 8] div by (simp add: mult.commute)
      ultimately show ?thesis using True Suc.prems v by (auto simp: bit_simps w(2))
    next
      case False
      then have "\<not> bit (push_bit (8 * n) (ucast v) :: u64) j" by (auto simp: bit_simps dest: bit_imp_le_length)
      with False show ?thesis by (auto simp: bit_or_iff w(2))
    qed
    with w(1) v show ?case by simp
  qed simp
  from this [of 8] obtain w where w: "get_long a m = Some w" "\<And>j. bit w j \<longleftrightarrow> j < 64 \<and> bit (the (m (a + j div 8))) (j mod 8)"
    by (auto simp: get_long_def)
  have "m (a + i) = Some (ucast (drop_bit (8 * i) w))" if i: "i < 8" for i
  proof -
    obtain v where v: "m (a + i) = Some v" using mapped_at [OF assms, of "a + i"] i by auto
    have "v = ucast (drop_bit (8 * i) w)"
      by (rule bit_word_eqI) (use i v in \<open>auto simp: bit_simps w(2)\<close>)
    with v show ?thesis by simp
  qed
  with w(1) show ?thesis by blast
qed

lemma copy_long_copied:
  assumes "mapped m d 8" "mapped m s 8"
  shows "copy_long d s m = Some (copied d s 8 m)"
proof -
  from get_long_bits [OF assms(2)] obtain w where w: "get_long s m = Some w" "\<And>i. i < 8 \<Longrightarrow> m (s + i) = Some (ucast (drop_bit (8 * i) w))" by blast
  have "filled d 8 (\<lambda>i. ucast (drop_bit (8 * i) w)) m x = copied d s 8 m x" for x
    using w(2) [of "x - d"] by (auto simp: filled_def copied_def add.commute)
  then have "filled d 8 (\<lambda>i. ucast (drop_bit (8 * i) w)) m = copied d s 8 m" by (rule ext)
  then show ?thesis using w(1) put_long_filled [OF assms(1)] by (simp add: copy_long_def)
qed

section \<open>The loops\<close>

text \<open>Filling in parts with one value is filling the whole.\<close>

lemma filled_const_append: "filled (a + n) k (\<lambda>_. v) (filled a n (\<lambda>_. v) m) = filled a (n + k) (\<lambda>_. v) m"
  by (rule filled_append) simp_all

lemma filled_upto_cong: "(\<And>i. i < n \<Longrightarrow> f i = g i) \<Longrightarrow> filled a n f m = filled a n g m"
  by (auto simp: filled_def fun_eq_iff)

lemma set_bytes_filled: "mapped m p n \<Longrightarrow> set_bytes p d n m = Some (filled p n (\<lambda>_. d) m)"
proof (induction n arbitrary: p m)
  case (Suc n)
  have "mapped (filled p 1 (\<lambda>_. d) m) (p + 1) n"
    using mapped_filled mapped_mono [OF Suc.prems, of "p + 1" n] by simp
  with Suc.IH put_byte_filled [OF mapped_mono [OF Suc.prems, of p 1]] filled_const_append [of p 1 n] show ?case
    by simp
qed simp

text \<open>Every byte of the buffer is the character.\<close>

lemma set_buffer_bits: "bit (set_buffer d) j \<longleftrightarrow> j < 64 \<and> bit d (j mod 8)"
proof -
  have "bit (fold (\<lambda>_ buffer. push_bit 8 buffer OR ucast d) [0..<k] (0 :: u64)) j \<longleftrightarrow> j < 64 \<and> j < 8 * k \<and> bit d (j mod 8)" for k
  proof (induction k arbitrary: j)
    case (Suc k)
    have "bit d j \<longleftrightarrow> j < 8 \<and> bit d (j mod 8)" using bit_imp_le_length [of d j] by (cases "j < 8") auto
    moreover have "8 \<le> j \<Longrightarrow> (j - 8) mod 8 = j mod 8" by (simp add: le_mod_geq)
    ultimately show ?case by (auto simp: bit_simps Suc)
  qed simp
  from this [of 8] show ?thesis by (auto simp: set_buffer_def)
qed

lemma set_buffer_byte: "i < 8 \<Longrightarrow> ucast (drop_bit (8 * i) (set_buffer d)) = d"
  by (rule bit_word_eqI) (auto simp: bit_simps set_buffer_bits)

lemma put_long_buffer: "mapped m a 8 \<Longrightarrow> put_long a (set_buffer d) m = Some (filled a 8 (\<lambda>_. d) m)"
  using filled_upto_cong [of 8 "\<lambda>i. ucast (drop_bit (8 * i) (set_buffer d))" "\<lambda>_. d"] by (simp add: put_long_filled set_buffer_byte)

lemma set_longs_filled:
  "mapped m p n \<Longrightarrow> set_longs p (set_buffer d) n m = Some (p + 8 * (n div 8), n mod 8, filled p (8 * (n div 8)) (\<lambda>_. d) m)"
proof (induction n arbitrary: p m rule: less_induct)
  case (less n)
  show ?case
  proof (cases "n \<ge> 8")
    case True
    have m: "mapped (filled p 8 (\<lambda>_. d) m) (p + 8) (n - 8)"
      using mapped_filled mapped_mono [OF less.prems, of "p + 8" "n - 8"] True by simp
    have "n div 8 = Suc ((n - 8) div 8)" "n mod 8 = (n - 8) mod 8" using True by (simp_all add: le_div_geq le_mod_geq)
    with less.IH [OF _ m] put_long_buffer [OF mapped_mono [OF less.prems, of p 8]] True filled_const_append [of p 8 "8 * ((n - 8) div 8)"]
    show ?thesis by (subst set_longs.simps) simp
  qed (subst set_longs.simps, simp)
qed

lemma put_four_longs:
  assumes "mapped m p 32"
  shows "do { m \<leftarrow> put_long p (set_buffer d) m; m \<leftarrow> put_long (p + 8) (set_buffer d) m; m \<leftarrow> put_long (p + 16) (set_buffer d) m;
    m \<leftarrow> put_long (p + 24) (set_buffer d) m; f m } = f (filled p 32 (\<lambda>_. d) m)"
proof -
  have "mapped (filled p n (\<lambda>_. d) m) (p + k) 8" if "k \<le> 24" for n k
    using mapped_filled mapped_mono [OF assms, of "p + k" 8] that by simp
  then show ?thesis
    using put_long_buffer [OF mapped_mono [OF assms, of p 8]] filled_const_append [of p 8 8] filled_const_append [of p 16 8]
      filled_const_append [of p 24 8] by (simp add: put_long_buffer)
qed

lemma set_blocks_filled:
  "mapped m p n \<Longrightarrow> set_blocks p (set_buffer d) n m = Some (p + 32 * (n div 32), n mod 32, filled p (32 * (n div 32)) (\<lambda>_. d) m)"
proof (induction n arbitrary: p m rule: less_induct)
  case (less n)
  show ?case
  proof (cases "n \<ge> 32")
    case True
    have m: "mapped (filled p 32 (\<lambda>_. d) m) (p + 32) (n - 32)"
      using mapped_filled mapped_mono [OF less.prems, of "p + 32" "n - 32"] True by simp
    have "n div 32 = Suc ((n - 32) div 32)" "n mod 32 = (n - 32) mod 32" using True by (simp_all add: le_div_geq le_mod_geq)
    with less.IH [OF _ m] True filled_const_append [of p 32 "32 * ((n - 32) div 32)"]
    show ?thesis by (subst set_blocks.simps) (simp add: put_four_longs [OF mapped_mono [OF less.prems, of p 32]])
  qed (subst set_blocks.simps, simp)
qed

lemma memset_filled: "mapped m s (unat n) \<Longrightarrow> rt_memset s c n m = Some (filled s (unat n) (\<lambda>_. word_of_int c) m)"
proof -
  assume m: "mapped m s (unat n)"
  define k where "k = unat n"
  have "mapped (filled s (32 * (k div 32)) (\<lambda>_. word_of_int c) m) (s + 32 * (k div 32)) (k mod 32)"
    using mapped_filled mapped_mono [OF m, of "s + 32 * (k div 32)" "k mod 32"] by (simp add: k_def)
  moreover have "mapped (filled s j (\<lambda>_. word_of_int c) m) (s + (32 * (k div 32) + 8 * (k mod 32 div 8))) (k mod 32 mod 8)" for j
    using mapped_filled mapped_mono [OF m, of "s + (32 * (k div 32) + 8 * (k mod 32 div 8))" "k mod 32 mod 8"] by (simp add: k_def)
  moreover have "32 * (k div 32) + (8 * (k mod 32 div 8) + k mod 32 mod 8) = k" by simp
  ultimately show ?thesis using m
    by (simp add: rt_memset_def Let_def set_bytes_filled set_blocks_filled set_longs_filled filled_const_append add.assoc flip: k_def)
qed

text \<open>A count below \<^verbatim>\<open>2^31\<close> is the same as an \<open>int\<close> and as an unsigned long.\<close>

lemma scast_small:
  assumes "n < 2 ^ 31"
  shows "scast (word_of_nat n :: u32) = (word_of_nat n :: u64)" "unat (scast (word_of_nat n :: u32) :: u64) = n"
proof -
  have "sint (word_of_nat n :: u32) = int n" using assms by (simp add: signed_of_nat signed_take_bit_int_eq_self)
  then show "scast (word_of_nat n :: u32) = (word_of_nat n :: u64)" by (metis of_int_sint of_int_of_nat_eq)
  then show "unat (scast (word_of_nat n :: u32) :: u64) = n" using assms by (simp add: unsigned_of_nat take_bit_nat_eq_self)
qed

lemma len_down: "k \<le> n \<Longrightarrow> word_of_nat n - word_of_nat k = (word_of_nat (n - k) :: u32)"
  by (simp add: of_nat_diff)

text \<open>The areas of a copy that goes up: the destination does not run into the source.\<close>

definition ahead :: "nat \<Rightarrow> nat \<Rightarrow> nat \<Rightarrow> bool" where
  "ahead d s n \<longleftrightarrow> d \<le> s \<or> s + n \<le> d"

lemma copied_step: "ahead d s (k + n) \<Longrightarrow> copied (d + k) (s + k) n (copied d s k m) = copied d s (k + n) m"
  by (rule copied_append) (auto simp: ahead_def)

lemma copy_rest:
  assumes "mapped m d n" "mapped m s n" "ahead d s n" "k \<le> n"
  shows "mapped (copied d s k m) (d + k) (n - k)" "mapped (copied d s k m) (s + k) (n - k)" "ahead (d + k) (s + k) (n - k)"
    "copied (d + k) (s + k) (n - k) (copied d s k m) = copied d s n m"
proof -
  have s: "mapped m s k" by (rule mapped_mono [OF assms(2)]) (use assms in simp_all)
  show "mapped (copied d s k m) (d + k) (n - k)" "mapped (copied d s k m) (s + k) (n - k)"
    by (rule mapped_copied [OF mapped_mono [OF assms(1)] s], use assms in simp_all)
      (rule mapped_copied [OF mapped_mono [OF assms(2)] s], use assms in simp_all)
  show "ahead (d + k) (s + k) (n - k)" using assms by (auto simp: ahead_def)
  show "copied (d + k) (s + k) (n - k) (copied d s k m) = copied d s n m"
    using copied_step [of d s k "n - k" m] assms by simp
qed

lemma copy_bytes_copied:
  "mapped m d n \<Longrightarrow> mapped m s n \<Longrightarrow> ahead d s n \<Longrightarrow> n < 2 ^ 31 \<Longrightarrow> copy_bytes d s (word_of_nat n) m = Some (copied d s n m)"
proof (induction n arbitrary: d s m)
  case (Suc n)
  have "(word_of_nat (Suc n) :: u32) \<noteq> 0" using Suc.prems by (simp add: word_of_nat_eq_0_iff nat_dvd_not_less del: of_nat_Suc)
  moreover have "copy_byte d s m = Some (copied d s 1 m)"
    by (rule copy_byte_copied) (use Suc.prems in \<open>auto elim: mapped_mono\<close>)
  moreover note copy_rest [OF Suc.prems(1-3), of 1]
  ultimately show ?case using Suc.IH [of "copied d s 1 m" "d + 1" "s + 1"] Suc.prems(4)
    by (subst copy_bytes.simps) simp
qed (simp add: copy_bytes.simps)

lemma copy_long_at:
  assumes "mapped m d n" "mapped m s n" "ahead d s n" "k + 8 \<le> n"
  shows "copy_long (d + k) (s + k) (copied d s k m) = Some (copied d s (k + 8) m)"
proof -
  note r = copy_rest [OF assms(1-3), of k]
  have "copy_long (d + k) (s + k) (copied d s k m) = Some (copied (d + k) (s + k) 8 (copied d s k m))"
    by (rule copy_long_copied) (use r assms in \<open>auto elim: mapped_mono\<close>)
  moreover have "ahead d s (k + 8)" using assms by (auto simp: ahead_def)
  ultimately show ?thesis by (simp add: copied_step)
qed

lemma copy_longs_copied:
  "mapped m d n \<Longrightarrow> mapped m s n \<Longrightarrow> ahead d s n \<Longrightarrow> n < 2 ^ 31 \<Longrightarrow>
    copy_longs d s (word_of_nat n) m = Some (d + 8 * (n div 8), s + 8 * (n div 8), word_of_nat (n mod 8), copied d s (8 * (n div 8)) m)"
proof (induction n arbitrary: d s m rule: less_induct)
  case (less n)
  have len: "scast (word_of_nat n :: u32) \<ge> (8 :: u64) \<longleftrightarrow> 8 \<le> n" using scast_small(2) [OF less.prems(4)] by (simp add: word_le_nat_alt)
  show ?case
  proof (cases "n \<ge> 8")
    case True
    note r = copy_rest [OF less.prems(1-3) True]
    have "n div 8 = Suc ((n - 8) div 8)" "n mod 8 = (n - 8) mod 8" using True by (simp_all add: le_div_geq le_mod_geq)
    moreover have "ahead d s (8 + 8 * ((n - 8) div 8))" using less.prems(3) True by (auto simp: ahead_def)
    moreover have "(word_of_nat n - 8 :: u32) = word_of_nat (n - 8)" using len_down [OF True] by simp
    moreover note less.IH [OF _ r(1-3)] copy_long_at [OF less.prems(1-3), of 0] copied_step [of d s 8 "8 * ((n - 8) div 8)" m]
    ultimately show ?thesis using less.prems(4) True by (subst copy_longs.simps) (simp add: len)
  next
    case False
    then show ?thesis by (subst copy_longs.simps) (simp add: len)
  qed
qed

lemma copy_blocks_copied:
  "mapped m d n \<Longrightarrow> mapped m s n \<Longrightarrow> ahead d s n \<Longrightarrow> n < 2 ^ 31 \<Longrightarrow>
    copy_blocks d s (word_of_nat n) m = Some (d + 32 * (n div 32), s + 32 * (n div 32), word_of_nat (n mod 32), copied d s (32 * (n div 32)) m)"
proof (induction n arbitrary: d s m rule: less_induct)
  case (less n)
  have len: "scast (word_of_nat n :: u32) \<ge> (32 :: u64) \<longleftrightarrow> 32 \<le> n" using scast_small(2) [OF less.prems(4)] by (simp add: word_le_nat_alt)
  show ?case
  proof (cases "n \<ge> 32")
    case True
    note r = copy_rest [OF less.prems(1-3) True]
    have "n div 32 = Suc ((n - 32) div 32)" "n mod 32 = (n - 32) mod 32" using True by (simp_all add: le_div_geq le_mod_geq)
    moreover have "ahead d s (32 + 32 * ((n - 32) div 32))" using less.prems(3) True by (auto simp: ahead_def)
    moreover have "(word_of_nat n - 32 :: u32) = word_of_nat (n - 32)" using len_down [OF True] by simp
    moreover note less.IH [OF _ r(1-3)] copy_long_at [OF less.prems(1-3), of 0] copy_long_at [OF less.prems(1-3), of 8]
      copy_long_at [OF less.prems(1-3), of 16] copy_long_at [OF less.prems(1-3), of 24] copied_step [of d s 32 "32 * ((n - 32) div 32)" m]
    ultimately show ?thesis using less.prems(4) True by (subst copy_blocks.simps) (simp add: len)
  next
    case False
    then show ?thesis by (subst copy_blocks.simps) (simp add: len)
  qed
qed

lemma memcpy_copied:
  assumes "mapped m d (unat n)" "mapped m s (unat n)" "ahead d s (unat n)" "unat n < 2 ^ 31"
  shows "rt_memcpy d s n m = Some (copied d s (unat n) m)"
proof -
  define k where "k = unat n"
  have n: "ucast n = (word_of_nat k :: u32)" by (simp add: k_def)
  note a = assms [folded k_def]
  note r = copy_rest [OF a(1-3), of "32 * (k div 32)"]
  have e: "k - 32 * (k div 32) = k mod 32" by (simp add: minus_mult_div_eq_mod)
  note r' = copy_rest [OF r(1-3), of "8 * (k mod 32 div 8)", unfolded e]
  have e': "k mod 32 - 8 * (k mod 32 div 8) = k mod 32 mod 8" by (simp only: minus_mult_div_eq_mod)
  have small: "k mod 32 < 2 ^ 31" "k mod 32 mod 8 < 2 ^ 31" 
    by (rule less_trans [of _ 32], simp_all)
  note blocks = copy_blocks_copied [OF a]
    copy_longs_copied [OF r(1-3) [simplified e] small(1)]
    copy_bytes_copied [OF r'(1-3) [simplified e'] small(2)]
  show ?thesis
    using blocks copy_bytes_copied [OF a] r(4) r'(4)
    by (simp add: rt_memcpy_def Let_def n e e' flip: k_def)
qed

lemma move_up_copied:
  "mapped m d n \<Longrightarrow> mapped m s n \<Longrightarrow> ahead d s n \<Longrightarrow> move_up d s n m = Some (copied d s n m)"
proof (induction n arbitrary: d s m)
  case (Suc n)
  have "copy_byte d s m = Some (copied d s 1 m)"
    by (rule copy_byte_copied) (use Suc.prems in \<open>auto elim: mapped_mono\<close>)
  with copy_rest [OF Suc.prems(1-3), of 1] Suc.IH [of "copied d s 1 m" "d + 1" "s + 1"] show ?case by simp
qed simp

text \<open>Going down, the destination may lie above the start of the source.\<close>

lemma copied_last:
  assumes "s \<le> d"
  shows "copied d s n (copied (d + n) (s + n) 1 m) = copied d s (Suc n) m"
proof (rule ext)
  fix x
  consider "x < d" | i where "x = d + i" "i < n" | "x = d + n" | "d + Suc n \<le> x"
    by (metis add_less_cancel_left le_iff_add not_le less_Suc_eq add_Suc_right)
  then show "copied d s n (copied (d + n) (s + n) 1 m) x = copied d s (Suc n) m x"
    by cases (use assms in \<open>auto simp: copied_def ac_simps\<close>)
qed

lemma move_down_copied:
  "mapped m d n \<Longrightarrow> mapped m s n \<Longrightarrow> s \<le> d \<Longrightarrow> move_down (d + n) (s + n) n m = Some (copied d s n m)"
proof (induction n arbitrary: m)
  case (Suc n)
  have "copy_byte (d + n) (s + n) m = Some (copied (d + n) (s + n) 1 m)"
    by (rule copy_byte_copied) (use Suc.prems in \<open>auto elim: mapped_mono\<close>)
  moreover have "mapped (copied (d + n) (s + n) 1 m) d n" "mapped (copied (d + n) (s + n) 1 m) s n"
    by (rule mapped_copied; use Suc.prems in \<open>auto elim: mapped_mono\<close>)+
  ultimately show ?case using Suc.IH copied_last [OF Suc.prems(3), of n m] Suc.prems(3) by simp
qed simp

lemma memmove_copied:
  assumes "mapped m d (unat n)" "mapped m s (unat n)"
  shows "rt_memmove d s n m = Some (copied d s (unat n) m)"
  using assms move_down_copied [OF assms] move_up_copied [OF assms] by (auto simp: rt_memmove_def ahead_def not_less)

section \<open>Strings\<close>

text \<open>The bytes of an area, and of a string up to its zero.\<close>

fun chars :: "bytes \<Rightarrow> nat \<Rightarrow> u8 list \<Rightarrow> bool" where
  "chars m a [] \<longleftrightarrow> True"
| "chars m a (x # xs) \<longleftrightarrow> m a = Some x \<and> chars m (a + 1) xs"

definition cstring :: "bytes \<Rightarrow> nat \<Rightarrow> u8 list \<Rightarrow> bool" where
  "cstring m a xs \<longleftrightarrow> chars m a (xs @ [0]) \<and> 0 \<notin> set xs"

text \<open>Byte by byte, the first difference decides.\<close>

definition before :: "u8 list \<Rightarrow> u8 list \<Rightarrow> bool" where
  "before xs ys \<longleftrightarrow> (xs, ys) \<in> lexord {(a, b). a < b}"

definition ordered :: "int \<Rightarrow> u8 list \<Rightarrow> u8 list \<Rightarrow> bool" where
  "ordered r xs ys \<longleftrightarrow> (r = 0 \<longleftrightarrow> xs = ys) \<and> (r < 0 \<longleftrightarrow> before xs ys)"

lemma uint_eq [simp]: "uint x = uint y \<longleftrightarrow> x = (y :: u8)"
  by (simp add: word_uint_eq_iff)

lemma uint_pos [simp]: "x \<noteq> 0 \<Longrightarrow> 0 < uint (x :: u8)"
  using uint_eq [of x 0] uint_ge_0 [of x] by (simp add: less_le del: uint_eq)

lemma ordered_simps [simp]:
  "ordered r [] []  \<longleftrightarrow> r = 0"
  "ordered r [] (y # ys) \<longleftrightarrow> r < 0"
  "ordered r (x # xs) [] \<longleftrightarrow> r > 0"
  "ordered r (x # xs) (x # ys) \<longleftrightarrow> ordered r xs ys"
  by (auto simp: ordered_def before_def)

lemma ordered_differ [simp]: "x \<noteq> y \<Longrightarrow> ordered (uint x - uint y) (x # xs) (y # ys)"
  by (auto simp: ordered_def before_def word_less_def)

lemma chars_append: "chars m a (xs @ ys) \<longleftrightarrow> chars m a xs \<and> chars m (a + length xs) ys"
  by (induction xs arbitrary: a) (auto simp: ac_simps)

lemma cstring_simps [simp]:
  "cstring m a [] \<longleftrightarrow> m a = Some 0"
  "cstring m a (x # xs) \<longleftrightarrow> m a = Some x \<and> x \<noteq> 0 \<and> cstring m (a + 1) xs"
  by (auto simp: cstring_def)

lemma memcmp_ordered:
  "chars m a xs \<Longrightarrow> chars m b ys \<Longrightarrow> length xs = length ys \<Longrightarrow> \<exists>r. memcmp_loop a b (length xs) m = Some r \<and> ordered r xs ys"
proof (induction xs arbitrary: ys a b)
  case (Cons x xs)
  then obtain y zs where "ys = y # zs" by (cases ys) auto
  with Cons show ?case by auto
qed simp

lemma strcmp_ordered: "cstring m a xs \<Longrightarrow> cstring m b ys \<Longrightarrow> \<exists>r. rt_strcmp a b m = Some r \<and> ordered r xs ys"
proof (induction xs arbitrary: ys a b)
  case Nil
  then show ?case by (cases ys) (auto simp: rt_strcmp.simps [of a b])
next
  case (Cons x xs)
  show ?case
  proof (cases ys)
    case Nil
    with Cons.prems show ?thesis by (auto simp: rt_strcmp.simps [of a b])
  next
    case (Cons y zs)
    with Cons.prems Cons.IH [of "a + 1" "b + 1" zs] show ?thesis by (cases "x = y") (auto simp: rt_strcmp.simps [of a b])
  qed
qed

lemma strlen_length: "cstring m a xs \<Longrightarrow> s \<le> a \<Longrightarrow> strlen_loop s a m = Some (a + length xs - s)"
  by (induction xs arbitrary: a) (auto simp: strlen_loop.simps [of s])

lemma strnlen_min:
  "cstring m a xs \<Longrightarrow> s \<le> a \<Longrightarrow> a - s \<le> unat n \<Longrightarrow> strnlen_loop s n a m = Some (min (unat n) (a + length xs - s))"
proof (induction xs arbitrary: a)
  case (Cons x xs)
  then show ?case using Cons.IH [of "a + 1"] by (cases "a - s < unat n") (auto simp: strnlen_loop.simps [of s n a] min_def)
qed (auto simp: strnlen_loop.simps [of s n])

text \<open>Where \<open>ys\<close> occurs first in \<open>xs\<close>.\<close>

fun first_match :: "u8 list \<Rightarrow> u8 list \<Rightarrow> nat option" where
  "first_match ys [] = (if ys = [] then Some 0 else None)"
| "first_match ys (x # xs) = (if take (length ys) (x # xs) = ys then Some 0 else map_option Suc (first_match ys xs))"

lemma first_match_None: "first_match ys xs = None \<Longrightarrow> xs \<noteq> pre @ ys @ suf"
proof (induction xs arbitrary: pre)
  case (Cons x xs)
  then show ?case by (cases pre) (auto split: if_splits)
qed (auto split: if_splits)

lemma first_match_Some:
  "first_match ys xs = Some i \<Longrightarrow> (\<exists>pre suf. xs = pre @ ys @ suf \<and> i = length pre) \<and> (\<forall>pre suf. xs = pre @ ys @ suf \<longrightarrow> i \<le> length pre)"
proof (induction xs arbitrary: i)
  case (Cons x xs)
  show ?case
  proof (cases "take (length ys) (x # xs) = ys")
    case True
    then have "x # xs = [] @ ys @ drop (length ys) (x # xs)" by (metis append_Nil append_take_drop_id)
    then have "\<exists>pre suf. x # xs = pre @ ys @ suf \<and> 0 = length pre" by (metis list.size(3))
    moreover have "i = 0" using Cons.prems True by simp
    ultimately show ?thesis by simp
  next
    case False
    with Cons.prems obtain j where j: "first_match ys xs = Some j" "i = Suc j" by auto
    from Cons.IH [OF j(1)] obtain pre suf where "xs = pre @ ys @ suf" "j = length pre" by blast
    then have "x # xs = (x # pre) @ ys @ suf \<and> i = length (x # pre)" using j by simp
    moreover have "i \<le> length pre'" if "x # xs = pre' @ ys @ suf'" for pre' suf'
    proof (cases pre')
      case Nil
      with that have "take (length ys) (x # xs) = ys" by (metis append_Nil append_eq_conv_conj)
      with False show ?thesis by simp
    next
      case (Cons a p)
      with that Cons.IH [OF j(1)] j show ?thesis by simp
    qed
    ultimately show ?thesis by blast
  qed
qed (auto split: if_splits)

lemma first_match_short: "length xs < length ys \<Longrightarrow> first_match ys xs = None"
  by (induction xs) (auto simp: take_all_iff)

lemma chars_take: "chars m a xs \<Longrightarrow> chars m a (take k xs)"
  by (metis append_take_drop_id chars_append)

lemma unat_length: "k < 2 ^ 31 \<Longrightarrow> unat (word_of_nat k :: u64) = k"
  by (simp add: unsigned_of_nat take_bit_nat_eq_self)

lemma memcmp_equal:
  assumes "chars m a xs" "chars m b ys" "length xs = length ys" "length ys < 2 ^ 31"
  shows "\<exists>r. rt_memcmp a b (word_of_nat (length ys)) m = Some r \<and> (r = 0 \<longleftrightarrow> xs = ys)"
  using memcmp_ordered [OF assms(1-3)] assms(3,4) by (auto simp: rt_memcmp_def unat_length ordered_def)

lemma strstr_loop_match:
  "chars m s1 xs \<Longrightarrow> chars m s2 ys \<Longrightarrow> ys \<noteq> [] \<Longrightarrow> length ys < 2 ^ 31 \<Longrightarrow>
    strstr_loop s1 s2 (int (length xs)) (int (length ys)) m = Some (map_option (\<lambda>i. s1 + i) (first_match ys xs))"
proof (induction xs arbitrary: s1)
  case Nil
  then show ?case by (simp add: strstr_loop.simps)
next
  case (Cons x xs)
  show ?case
  proof (cases "length ys \<le> length (x # xs)")
    case True
    from memcmp_equal [of m s1 "take (length ys) (x # xs)" s2 ys] chars_take [OF Cons.prems(1), of "length ys"] Cons.prems True
    obtain r where r: "rt_memcmp s1 s2 (word_of_nat (length ys)) m = Some r" "r = 0 \<longleftrightarrow> take (length ys) (x # xs) = ys" by auto
    with True Cons.prems Cons.IH [of "s1 + 1"] show ?thesis
      by (subst strstr_loop.simps) (auto simp: option.map_comp comp_def)
  next
    case False
    then show ?thesis by (subst strstr_loop.simps) (simp add: first_match_short del: first_match.simps)
  qed
qed

lemma strlen_int:
  assumes "cstring m s xs" "length xs < 2 ^ 31"
  shows "\<exists>n. rt_strlen s m = Some n \<and> sint (ucast n :: u32) = int (length xs)"
proof -
  have "(ucast (word_of_nat (length xs) :: u64) :: u32) = word_of_nat (length xs)"
    by (subst of_nat_unat [symmetric]) (simp only: unat_length [OF assms(2)])
  then show ?thesis using assms strlen_length [OF assms(1), of s]
    by (simp add: rt_strlen_def signed_of_nat signed_take_bit_int_eq_self)
qed

lemma strstr_match:
  assumes "cstring m s1 xs" "cstring m s2 ys" "length xs < 2 ^ 31" "length ys < 2 ^ 31"
  shows "rt_strstr s1 s2 m = Some (map_option (\<lambda>i. s1 + i) (first_match ys xs))"
proof (cases "ys = []")
  case True
  then have "first_match ys xs = Some 0" by (cases xs) simp_all
  with True strlen_int [OF assms(2,4)] show ?thesis by (auto simp: rt_strstr_def)
next
  case False
  have "chars m s1 xs" "chars m s2 ys" using assms by (simp_all add: cstring_def chars_append)
  with False strstr_loop_match strlen_int [OF assms(2,4)] strlen_int [OF assms(1,3)] assms(4) show ?thesis
    by (auto simp: rt_strstr_def)
qed

text \<open>Copying a string pads it with zeros, and leaves the zero out when the string is too long.\<close>

definition padded :: "u8 list \<Rightarrow> nat \<Rightarrow> u8" where
  "padded xs i = (if i < length xs then xs ! i else 0)"

lemma chars_filled: "chars m s xs \<Longrightarrow> a + n \<le> s \<or> s + length xs \<le> a \<Longrightarrow> chars (filled a n f m) s xs"
  by (induction xs arbitrary: s) (auto simp: filled_def)

lemma strncpy_padded:
  "cstring m s xs \<Longrightarrow> mapped m d n \<Longrightarrow> d + n \<le> s \<or> s + length xs + 1 \<le> d \<Longrightarrow> strncpy_loop d s n m = Some (filled d n (padded xs) m)"
proof (induction n arbitrary: d s xs m)
  case (Suc n)
  have put: "put_byte d c m = Some (filled d 1 (\<lambda>_. c) m)" for c
    by (rule put_byte_filled) (use Suc.prems in \<open>auto elim: mapped_mono\<close>)
  have rest: "mapped (filled d 1 (\<lambda>_. c) m) (d + 1) n" for c
    by (rule mapped_filled) (use Suc.prems in \<open>auto elim: mapped_mono\<close>)
  show ?case
  proof (cases xs)
    case Nil
    have "filled (d + 1) n (\<lambda>_. 0) (filled d 1 (\<lambda>_. 0) m) = filled d (1 + n) (padded xs) m"
      by (rule filled_append) (simp_all add: padded_def Nil)
    with Suc.prems Nil put rest show ?thesis by (simp add: set_bytes_filled)
  next
    case (Cons x ys)
    have "cstring (filled d 1 (\<lambda>_. x) m) (s + 1) ys"
      using Suc.prems Cons chars_filled [of m "s + 1" "ys @ [0]" d 1] by (auto simp: cstring_def)
    moreover have "filled (d + 1) n (padded ys) (filled d 1 (\<lambda>_. x) m) = filled d (1 + n) (padded xs) m"
      by (rule filled_append) (simp_all add: padded_def Cons)
    ultimately show ?thesis using Suc.prems Cons put rest Suc.IH [of "filled d 1 (\<lambda>_. x) m" "s + 1" ys "d + 1"] by auto
  qed
qed simp

text \<open>Letters compare as their lower case.\<close>

definition lower :: "u8 \<Rightarrow> u8" where
  "lower c = (if 65 \<le> c \<and> c \<le> 90 then c + 32 else c)"

lemma lower_case_uint: "lower_case (uint c) = uint (lower c)"
proof (cases "65 \<le> c \<and> c \<le> 90")
  case True
  then have "65 \<le> uint c" "uint c \<le> 90" by (simp_all add: word_le_def)
  moreover from this have "uint (c + 32) = uint c + 32" by (simp add: uint_word_ariths)
  ultimately show ?thesis using True by (simp add: lower_case_def lower_def)
next
  case False
  then have "\<not> (65 \<le> uint c \<and> uint c \<le> 90)" by (simp add: word_le_def)
  with False show ?thesis by (simp add: lower_case_def lower_def)
qed

lemma lower_0 [simp]: "lower c = 0 \<longleftrightarrow> c = 0"
proof -
  have "c + 32 \<noteq> 0" if "65 \<le> c" "c \<le> 90"
  proof
    assume "c + 32 = 0"
    then have "c = - 32" by (simp add: eq_neg_iff_add_eq_0)
    with that show False by simp
  qed
  then show ?thesis by (auto simp: lower_def)
qed

lemma lower_uint_0 [simp]: "lower 0 = 0" "uint (lower c) = 0 \<longleftrightarrow> c = 0"
  using uint_eq [of "lower c" 0] by (simp_all del: uint_eq)

lemma strcasecmp_ordered:
  "cstring m a xs \<Longrightarrow> cstring m b ys \<Longrightarrow> \<exists>r. rt_strcasecmp a b m = Some r \<and> ordered r (map lower xs) (map lower ys)"
proof (induction xs arbitrary: ys a b)
  case Nil
  then show ?case by (cases ys) (auto simp: rt_strcasecmp.simps [of a b] lower_case_uint Let_def)
next
  case (Cons x xs)
  show ?case
  proof (cases ys)
    case Nil
    with Cons.prems show ?thesis by (auto simp: rt_strcasecmp.simps [of a b] lower_case_uint Let_def)
  next
    case (Cons y zs)
    with Cons.prems Cons.IH [of "a + 1" "b + 1" zs] show ?thesis
      by (cases "lower x = lower y") (auto simp: rt_strcasecmp.simps [of a b] lower_case_uint Let_def)
  qed
qed

section \<open>What the services promise\<close>

text \<open>
  Filling stores the character in every byte of the area and in no other, whatever the alignment and the length.
\<close>

theorem memset_correct:
  assumes "mapped m s (unat n)"
  shows "\<exists>m'. rt_memset s c n m = Some m' \<and> (\<forall>i < unat n. m' (s + i) = Some (word_of_int c)) \<and>
    (\<forall>x. x < s \<or> s + unat n \<le> x \<longrightarrow> m' x = m x)"
  using memset_filled [OF assms, of c] by (simp add: filled_def)

text \<open>C33: \<open>rt_memmove\<close> moves the bytes of the source as they were before the call to the destination, also where the areas overlap, and
  changes nothing else. \<open>rt_memcpy\<close> returns the same memory by its blocks of four longs, longs and bytes, provided the destination does not
  start inside the source and the count is below \<^verbatim>\<open>2^31\<close>.
\<close>

theorem memory_copies:
  assumes "mapped m d (unat n)" "mapped m s (unat n)"
  shows "\<exists>m'. rt_memmove d s n m = Some m' \<and>
    ((d \<le> s \<or> s + unat n \<le> d) \<and> unat n < 2 ^ 31 \<longrightarrow> rt_memcpy d s n m = Some m') \<and>
    (\<forall>i < unat n. m' (d + i) = m (s + i)) \<and> (\<forall>x. x < d \<or> d + unat n \<le> x \<longrightarrow> m' x = m x)"
  using memmove_copied [OF assms] memcpy_copied [OF assms] by (auto simp: copied_def ahead_def add.commute)

text \<open>
  \<open>rt_memcpy\<close> keeps the count in an \<open>int\<close>: of \<^verbatim>\<open>2^32\<close> bytes it copies none.
\<close>

theorem memcpy_count_truncated: "rt_memcpy d s 0x100000000 m = Some m"
  by (simp add: rt_memcpy_def copy_bytes.simps)

text \<open>C34: \<open>rt_memcmp\<close> of two areas with the same number of bytes, of any value, and \<open>rt_strcmp\<close> of two strings return zero just for
  equal ones, and a negative value just when the first differing byte is the smaller one (or the first string ends there): the order
  of the bytes as unsigned characters. \<open>rt_strcasecmp\<close> does so with the letters in lower case.
\<close>

theorem strings_compare:
  assumes "cstring m a xs" "cstring m b ys" "chars m c us" "chars m d vs" "length us = length vs" "length us < 2 ^ 64"
  shows "(\<exists>r. rt_memcmp c d (word_of_nat (length us)) m = Some r \<and>
      (r = 0 \<longleftrightarrow> us = vs) \<and> (r < 0 \<longleftrightarrow> (us, vs) \<in> lexord {(x, y). x < y})) \<and>
    (\<exists>r. rt_strcmp a b m = Some r \<and> (r = 0 \<longleftrightarrow> xs = ys) \<and> (r < 0 \<longleftrightarrow> (xs, ys) \<in> lexord {(x, y). x < y})) \<and>
    (\<exists>r. rt_strcasecmp a b m = Some r \<and> (r = 0 \<longleftrightarrow> map lower xs = map lower ys) \<and>
      (r < 0 \<longleftrightarrow> (map lower xs, map lower ys) \<in> lexord {(x, y). x < y}))"
proof (intro conjI)
  have "unat (word_of_nat (length us) :: u64) = length us" using assms(6) by (simp add: unat_of_nat)
  then show "\<exists>r. rt_memcmp c d (word_of_nat (length us)) m = Some r \<and>
      (r = 0 \<longleftrightarrow> us = vs) \<and> (r < 0 \<longleftrightarrow> (us, vs) \<in> lexord {(x, y). x < y})"
    using memcmp_ordered [OF assms(3-5)] by (auto simp: rt_memcmp_def ordered_def before_def)
  show "\<exists>r. rt_strcmp a b m = Some r \<and> (r = 0 \<longleftrightarrow> xs = ys) \<and> (r < 0 \<longleftrightarrow> (xs, ys) \<in> lexord {(x, y). x < y})"
    using strcmp_ordered [OF assms(1,2)] by (auto simp: ordered_def before_def)
  show "\<exists>r. rt_strcasecmp a b m = Some r \<and> (r = 0 \<longleftrightarrow> map lower xs = map lower ys) \<and>
      (r < 0 \<longleftrightarrow> (map lower xs, map lower ys) \<in> lexord {(x, y). x < y})"
    using strcasecmp_ordered [OF assms(1,2)] by (simp add: ordered_def before_def)
qed

text \<open>
  \<open>rt_strlen\<close> counts the characters before the zero, \<open>rt_strnlen\<close> at most \<open>maxlen\<close> of them, and \<open>rt_strncpy\<close> fills its destination with the
  string, cut off or padded with zeros.
\<close>

theorem string_lengths:
  assumes "cstring m s xs" "length xs < 2 ^ 31"
  shows "rt_strlen s m = Some (word_of_nat (length xs))"
    and "rt_strnlen s n m = Some (word_of_nat (min (unat n) (length xs)))"
    and "mapped m d (unat n) \<Longrightarrow> d + unat n \<le> s \<or> s + length xs + 1 \<le> d \<Longrightarrow>
      \<exists>m'. rt_strncpy d s n m = Some m' \<and> (\<forall>i < unat n. m' (d + i) = Some (if i < length xs then xs ! i else 0))"
proof -
  show "rt_strlen s m = Some (word_of_nat (length xs))" using strlen_length [OF assms(1), of s] by (simp add: rt_strlen_def)
  show "rt_strnlen s n m = Some (word_of_nat (min (unat n) (length xs)))"
    using strnlen_min [OF assms(1), of s n] by (simp add: rt_strnlen_def)
  show "\<exists>m'. rt_strncpy d s n m = Some m' \<and> (\<forall>i < unat n. m' (d + i) = Some (if i < length xs then xs ! i else 0))"
    if "mapped m d (unat n)" "d + unat n \<le> s \<or> s + length xs + 1 \<le> d"
    using strncpy_padded [OF assms(1) that] by (simp add: rt_strncpy_def filled_def padded_def)
qed

text \<open>\<open>rt_strstr\<close> returns the address of the first occurrence of the second string in the first, and no address just when there is none.
\<close>

theorem strstr_finds_first:
  assumes "cstring m s1 xs" "cstring m s2 ys" "length xs < 2 ^ 31" "length ys < 2 ^ 31"
  shows "case rt_strstr s1 s2 m of
      None \<Rightarrow> False
    | Some None \<Rightarrow> (\<forall>pre suf. xs \<noteq> pre @ ys @ suf)
    | Some (Some p) \<Rightarrow> (\<exists>pre suf. xs = pre @ ys @ suf \<and> p = s1 + length pre \<and>
        (\<forall>pre' suf'. xs = pre' @ ys @ suf' \<longrightarrow> length pre \<le> length pre'))"
proof (cases "first_match ys xs")
  case None
  with strstr_match [OF assms] first_match_None [of ys xs] show ?thesis by simp
next
  case (Some i)
  with strstr_match [OF assms] first_match_Some [of ys xs i] show ?thesis by auto
qed

lemma sint_above:
  assumes "128 \<le> z" "z < 256"
  shows "sint (word_of_int z :: u8) = z - 256"
proof -
  have "(word_of_int z :: u8) = word_of_int (z - 256)" by simp
  then show ?thesis using assms by (simp add: signed_of_int signed_take_bit_int_eq_self del: of_int_diff)
qed

text \<open>
  \<open>rt_strncmp\<close> keeps the difference of two characters in a signed char: where \<open>rt_strcmp\<close> puts the first string after the second because
  its differing character is larger by 128 or more, \<open>rt_strncmp\<close> puts it before.
\<close>

theorem strncmp_wrong_sign:
  assumes "m a = Some x" "m b = Some y" "x \<noteq> 0" "uint x - uint y \<ge> 128" "0 < unat n"
  shows "\<exists>r. rt_strcmp a b m = Some r \<and> r > 0" "\<exists>r. rt_strncmp a b n m = Some r \<and> r < 0"
proof -
  have "x \<noteq> y" using assms(4) by auto
  then show "\<exists>r. rt_strcmp a b m = Some r \<and> r > 0" using assms by (auto simp: rt_strcmp.simps [of a b])
  obtain k where k: "unat n = Suc k" using assms(5) gr0_implies_Suc by blast
  have "uint x < 256" "0 \<le> uint y" using uint_lt2p [of x] by simp_all
  then have "sint (word_of_int (uint x - uint y) :: u8) = uint x - uint y - 256"
    using assms(4) by (intro sint_above) linarith+
  moreover have "uint x - uint y - 256 < 0" using \<open>uint x < 256\<close> \<open>0 \<le> uint y\<close> by linarith
  ultimately show "\<exists>r. rt_strncmp a b n m = Some r \<and> r < 0" using assms by (simp add: rt_strncmp_def k Let_def del: of_int_diff)
qed

text \<open>
  \<open>rt_strnlen\<close> tests the character before it tests the length: it reads the byte at \<open>s + maxlen\<close>, and where that byte is not mapped it
  does not return.
\<close>

theorem strnlen_reads_past:
  assumes "chars m s xs" "0 \<notin> set xs" "m (s + length xs) = None" "length xs < 2 ^ 31"
  shows "rt_strnlen s (word_of_nat (length xs)) m = None"
proof -
  have "strnlen_loop s n a m = None" if "chars m a ys" "0 \<notin> set ys" "m (a + length ys) = None" "a + length ys = s + unat n" "s \<le> a" for ys a and n :: u64
    using that
  proof (induction ys arbitrary: a)
    case (Cons y ys)
    then have "a - s < unat n" by auto
    with Cons show ?case by (subst strnlen_loop.simps) auto
  qed (simp add: strnlen_loop.simps)
  from this [of s xs "word_of_nat (length xs)"] show ?thesis using assms by (simp add: rt_strnlen_def unat_length)
qed

section \<open>Instances\<close>

text \<open>The strings \<^verbatim>\<open>"Hello"\<close> at 0, \<^verbatim>\<open>"llo"\<close> at 6 and \<^verbatim>\<open>"hallo"\<close> at 10; the rest of the memory is zero.\<close>

definition sample_text :: bytes where
  "sample_text x = Some (if x < 15 then [72, 101, 108, 108, 111, 0, 108, 108, 111, 0, 104, 97, 108, 108, 111] ! x else 0)"

lemma sample_strings:
  "cstring sample_text 0 [72, 101, 108, 108, 111]" "cstring sample_text 6 [108, 108, 111]" "cstring sample_text 10 [104, 97, 108, 108, 111]"
  by (simp_all add: sample_text_def)

lemma sample_mapped_text: "mapped sample_text a n"
  by (simp add: mapped_def sample_text_def)

lemma memset_correct_witness: "\<exists>m'. rt_memset 8 97 50 sample_text = Some m' \<and> m' 57 = Some 97 \<and> m' 0 = Some 72"
proof -
  from memset_correct [where s = 8 and n = 50 and c = 97, OF sample_mapped_text] obtain m' where
    m: "rt_memset 8 97 50 sample_text = Some m'" "\<And>i. i < 50 \<Longrightarrow> m' (8 + i) = Some 97" "\<And>x. x < 8 \<Longrightarrow> m' x = sample_text x"
    by auto
  with m(2) [of 49] m(3) [of 0] show ?thesis by (simp add: sample_text_def)
qed

lemma memory_copies_witness:
  "(\<exists>m'. rt_memmove 8 0 40 sample_text = Some m' \<and> m' 8 = Some 72 \<and> m' 0 = Some 72) \<and>
   (\<exists>m'. rt_memcpy 40 0 40 sample_text = Some m' \<and> m' 40 = Some 72)"
proof
  from memory_copies [where d = 8 and s = 0 and n = 40, OF sample_mapped_text sample_mapped_text] obtain m' where
    "rt_memmove 8 0 40 sample_text = Some m'" "\<forall>i < 40. m' (8 + i) = sample_text i" "\<forall>x. x < 8 \<longrightarrow> m' x = sample_text x" by auto
  then show "\<exists>m'. rt_memmove 8 0 40 sample_text = Some m' \<and> m' 8 = Some 72 \<and> m' 0 = Some 72"
    by (auto simp: sample_text_def dest: spec [of _ 0])
  from memory_copies [where d = 40 and s = 0 and n = 40, OF sample_mapped_text sample_mapped_text] obtain m' where
    "rt_memcpy 40 0 40 sample_text = Some m'" "\<forall>i < 40. m' (40 + i) = sample_text i" by auto
  then show "\<exists>m'. rt_memcpy 40 0 40 sample_text = Some m' \<and> m' 40 = Some 72"
    by (auto simp: sample_text_def dest: spec [of _ 0])
qed

lemma strings_compare_witness:
  "(\<exists>r. rt_memcmp 4 8 3 sample_text = Some r \<and> \<not> r < 0 \<and> r \<noteq> 0) \<and>
   (\<exists>r. rt_strcmp 0 10 sample_text = Some r \<and> r < 0) \<and> (\<exists>r. rt_strcasecmp 0 10 sample_text = Some r \<and> \<not> r < 0 \<and> r \<noteq> 0)"
proof -
  have "chars sample_text 4 [111, 0, 108]" "chars sample_text 8 [111, 0, 104]" by (simp_all add: sample_text_def)
  from strings_compare [OF sample_strings(1,3) this] show ?thesis by (auto simp: lower_def)
qed

lemma string_lengths_witness:
  "rt_strlen 0 sample_text = Some 5" "rt_strnlen 0 3 sample_text = Some 3"
  "\<exists>m'. rt_strncpy 20 0 8 sample_text = Some m' \<and> m' 20 = Some 72 \<and> m' 27 = Some 0"
proof -
  note s = string_lengths [OF sample_strings(1)]
  show "rt_strlen 0 sample_text = Some 5" "rt_strnlen 0 3 sample_text = Some 3" using s(1) s(2) [of 3] by simp_all
  from s(3) [where d = 20 and n = 8, OF _ sample_mapped_text] obtain m' where
    m: "rt_strncpy 20 0 8 sample_text = Some m'" "\<And>i. i < 8 \<Longrightarrow> m' (20 + i) = Some (if i < 5 then [72, 101, 108, 108, 111] ! i else 0)"
    by auto
  with m(2) [of 0] m(2) [of 7] show "\<exists>m'. rt_strncpy 20 0 8 sample_text = Some m' \<and> m' 20 = Some 72 \<and> m' 27 = Some 0" by simp
qed

lemma strstr_finds_first_witness: "rt_strstr 0 6 sample_text \<noteq> None \<and> rt_strstr 0 6 sample_text \<noteq> Some None"
proof -
  have "[72, 101, 108, 108, 111] = [72, 101] @ [108, 108, 111] @ ([] :: u8 list)" by simp
  then have "\<not> (\<forall>pre suf. [72, 101, 108, 108, 111] \<noteq> pre @ [108, 108, 111] @ (suf :: u8 list))" by blast
  then show ?thesis using strstr_finds_first [OF sample_strings(1,2)]
    by (cases "rt_strstr 0 6 sample_text"; cases "the (rt_strstr 0 6 sample_text)") simp_all
qed

lemma strncmp_wrong_sign_witness:
  "\<exists>r. rt_strcmp 0 1 ((\<lambda>x. Some 0)(0 \<mapsto> 200)) = Some r \<and> r > 0" "\<exists>r. rt_strncmp 0 1 1 ((\<lambda>x. Some 0)(0 \<mapsto> 200)) = Some r \<and> r < 0"
  using strncmp_wrong_sign [of "(\<lambda>x. Some 0)(0 \<mapsto> 200)" 0 200 1 0 1] by simp_all

lemma strnlen_reads_past_witness: "rt_strnlen 0 2 (\<lambda>x. if x < 2 then Some 97 else None) = None"
  using strnlen_reads_past [of "\<lambda>x. if x < 2 then Some 97 else None" 0 "[97, 97]"] by simp

end

