(* ===== verification/Memory.thy ===== *)
theory Memory
  imports Object Kstring
begin

text \<open>
  The heap of \<^verbatim>\<open>src/mem.c\<close>: a list of blocks that covers the heap, each with a header; neighbouring
  free blocks are joined and \<open>lfree\<close> is the lowest free block. Offsets are counted from \<open>heap_ptr\<close>, and
  a header is found by its offset. The memory of the heap is typed: 32 bytes are a header from the moment one is written there
  until its block is joined with the block before it. To read or write a header at a place that holds none, inside the heap or
  outside of it, or to copy bytes over a header, has no result. The functions hold the semaphore \<open>heap_sem\<close> while they work on the
  list: each is one step here.
\<close>

section \<open>Headers and the heap\<close>

abbreviation HEAP_MAGIC :: u16 where "HEAP_MAGIC \<equiv> 0x1ea0"
abbreviation SIZEOF_STRUCT_MEM :: nat where "SIZEOF_STRUCT_MEM \<equiv> 32"
abbreviation MIN_SIZE :: nat where "MIN_SIZE \<equiv> 24"
abbreviation MIN_SIZE_ALIGNED :: nat where "MIN_SIZE_ALIGNED \<equiv> 24"

record heap_mem =
  hm_magic :: u16
  hm_used :: u16
  hm_next :: nat
  hm_prev :: nat
  hm_thread :: string

text \<open>The static variables of the file; \<open>heap_heads\<close> are the offsets of the headers, \<open>heap_mems\<close> the
  headers themselves and \<open>heap_data\<close> the bytes in between.\<close>

record heap =
  heap_ptr :: nat
  heap_end :: nat
  lfree :: nat
  mem_size_aligned :: nat
  used_mem :: nat
  max_mem :: nat
  heap_heads :: "nat set"
  heap_mems :: "nat \<Rightarrow> heap_mem"
  heap_data :: "nat \<Rightarrow> u8"

text \<open>Subtraction of \<open>rt_size_t\<close> values.\<close>

definition sub64 :: "nat \<Rightarrow> nat \<Rightarrow> nat" where
  "sub64 a b = (a + 2 ^ 64 - b) mod 2 ^ 64"

lemma sub64_le [simp]: "b \<le> a \<Longrightarrow> a < 2 ^ 64 \<Longrightarrow> sub64 a b = a - b"
proof -
  assume a: "b \<le> a" "a < 2 ^ 64"
  then have "a + 2 ^ 64 - b = (a - b) + 2 ^ 64" by simp
  then have "sub64 a b = (a - b) mod 2 ^ 64" unfolding sub64_def by (simp only: mod_add_self2)
  also have "\<dots> = a - b" by (rule mod_less) (use a in simp)
  finally show ?thesis .
qed

definition upd_mem :: "nat \<Rightarrow> (heap_mem \<Rightarrow> heap_mem) \<Rightarrow> heap \<Rightarrow> heap" where
  "upd_mem p f h = h\<lparr>heap_mems := (heap_mems h)(p := f (heap_mems h p))\<rparr>"

abbreviation mem_used :: "heap \<Rightarrow> nat \<Rightarrow> bool" where "mem_used h p \<equiv> hm_used (heap_mems h p) \<noteq> 0"
abbreviation mem_next :: "heap \<Rightarrow> nat \<Rightarrow> nat" where "mem_next h p \<equiv> hm_next (heap_mems h p)"
abbreviation mem_prev :: "heap \<Rightarrow> nat \<Rightarrow> nat" where "mem_prev h p \<equiv> hm_prev (heap_mems h p)"

text \<open>Read a header, change it, and write a new one over the bytes of a block.\<close>

definition header :: "nat \<Rightarrow> heap \<Rightarrow> heap_mem option" where
  "header p h = (if p \<in> heap_heads h then Some (heap_mems h p) else None)"

definition set_mem :: "nat \<Rightarrow> (heap_mem \<Rightarrow> heap_mem) \<Rightarrow> heap \<Rightarrow> heap option" where
  "set_mem p f h = (if p \<in> heap_heads h then Some (upd_mem p f h) else None)"

definition new_mem :: "nat \<Rightarrow> (heap_mem \<Rightarrow> heap_mem) \<Rightarrow> heap \<Rightarrow> heap option" where
  "new_mem p f h = (if p + SIZEOF_STRUCT_MEM \<le> heap_end h then Some (upd_mem p f (h\<lparr>heap_heads := insert p (heap_heads h)\<rparr>)) else None)"

text \<open>The header at \<open>p\<close> becomes part of the block before it.\<close>

definition drop_mem :: "nat \<Rightarrow> heap \<Rightarrow> heap" where
  "drop_mem p h = h\<lparr>heap_heads := heap_heads h - {p}\<rparr>"

definition rt_mem_setname :: "string \<Rightarrow> heap_mem \<Rightarrow> heap_mem" where
  "rt_mem_setname name m =
    (let name = takeWhile (\<lambda>c. c \<noteq> CHR 0x00) (take 8 name)
     in m\<lparr>hm_thread := name @ replicate (8 - length name) (CHR '' '')\<rparr>)"

section \<open>The operations\<close>

definition plug_forward :: "nat \<Rightarrow> heap \<Rightarrow> heap option" where
  "plug_forward mem h = do {
    m \<leftarrow> header mem h;
    let nmem = hm_next m;
    if mem = nmem then Some h
    else do {
      n \<leftarrow> header nmem h;
      if hm_used n = 0 \<and> nmem \<noteq> heap_end h
      then do {
        let h = (if lfree h = nmem then h\<lparr>lfree := mem\<rparr> else h);
        h \<leftarrow> set_mem mem (hm_next_update (\<lambda>_. hm_next n)) h;
        h \<leftarrow> set_mem (hm_next n) (hm_prev_update (\<lambda>_. mem)) h;
        Some (drop_mem nmem h)
      }
      else Some h
    }
  }"

definition plug_backward :: "nat \<Rightarrow> heap \<Rightarrow> heap option" where
  "plug_backward mem h = do {
    m \<leftarrow> header mem h;
    let pmem = hm_prev m;
    p \<leftarrow> header pmem h;
    if pmem \<noteq> mem \<and> hm_used p = 0
    then do {
      let h = (if lfree h = mem then h\<lparr>lfree := pmem\<rparr> else h);
      h \<leftarrow> set_mem pmem (hm_next_update (\<lambda>_. hm_next m)) h;
      h \<leftarrow> set_mem (hm_next m) (hm_prev_update (\<lambda>_. pmem)) h;
      Some (drop_mem mem h)
    }
    else Some h
  }"

definition plug_holes :: "nat \<Rightarrow> heap \<Rightarrow> heap option" where
  "plug_holes mem h = do {
    RT_ASSERT (mem < heap_end h);
    m \<leftarrow> header mem h;
    RT_ASSERT (hm_used m = 0);
    h \<leftarrow> plug_forward mem h;
    plug_backward mem h
  }"

text \<open>An invalid range is only reported: the heap is unchanged.\<close>

definition rt_system_heap_init :: "u64 \<Rightarrow> u64 \<Rightarrow> heap \<Rightarrow> kernel \<Rightarrow> heap option" where
  "rt_system_heap_init begin_addr end_addr h k = do {
    let begin_align = RT_ALIGN begin_addr 8;
    let end_align = end_addr AND NOT 7;
    RT_DEBUG_NOT_IN_INTERRUPT k;
    if end_align > 64 \<and> end_align - 64 \<ge> begin_align
    then do {
      let sz = unat (end_align - begin_align - 64);
      let e = sz + SIZEOF_STRUCT_MEM;
      let h = h\<lparr>heap_ptr := unat begin_align, mem_size_aligned := sz\<rparr>;
      let h = upd_mem 0 (\<lambda>m. rt_mem_setname ''INIT'' (m\<lparr>hm_magic := HEAP_MAGIC, hm_next := e, hm_prev := 0, hm_used := 0\<rparr>)) h;
      let h = h\<lparr>heap_end := e, heap_heads := {0, e}\<rparr>;
      let h = upd_mem e (\<lambda>m. rt_mem_setname ''INIT'' (m\<lparr>hm_magic := HEAP_MAGIC, hm_used := 1, hm_next := e, hm_prev := e\<rparr>)) h;
      Some (h\<lparr>lfree := 0\<rparr>)
    }
    else Some h
  }"

text \<open>The loop of \<open>rt_malloc\<close> that looks for a block.\<close>

partial_function (option) malloc_find :: "heap \<Rightarrow> nat \<Rightarrow> nat \<Rightarrow> nat option option" where
  "malloc_find h sz ptr =
    (if ptr < sub64 (mem_size_aligned h) sz
     then Option.bind (header ptr h) (\<lambda>mem.
       if hm_used mem = 0 \<and> sub64 (hm_next mem) (ptr + SIZEOF_STRUCT_MEM) \<ge> sz then Some (Some ptr)
       else malloc_find h sz (hm_next mem))
     else Some None)"

partial_function (option) lfree_find :: "heap \<Rightarrow> nat \<Rightarrow> nat option" where
  "lfree_find h l =
    Option.bind (header l h) (\<lambda>m. if hm_used m \<noteq> 0 \<and> l \<noteq> heap_end h then lfree_find h (hm_next m) else Some l)"

definition count_used :: "nat \<Rightarrow> heap \<Rightarrow> heap" where
  "count_used n h =
    (let h = h\<lparr>used_mem := (used_mem h + n) mod 2 ^ 64\<rparr>
     in if max_mem h < used_mem h then h\<lparr>max_mem := used_mem h\<rparr> else h)"

text \<open>Put the remainder of a block into a block of its own.\<close>

definition split_block :: "nat \<Rightarrow> nat \<Rightarrow> heap \<Rightarrow> heap option" where
  "split_block ptr ptr2 h = do {
    mem \<leftarrow> header ptr h;
    h \<leftarrow> new_mem ptr2 (\<lambda>m. rt_mem_setname ''    '' (m\<lparr>hm_magic := HEAP_MAGIC, hm_used := 0,
                           hm_next := hm_next mem, hm_prev := ptr\<rparr>)) h;
    h \<leftarrow> set_mem ptr (hm_next_update (\<lambda>_. ptr2)) h;
    mem2 \<leftarrow> header ptr2 h;
    if hm_next mem2 \<noteq> mem_size_aligned h + SIZEOF_STRUCT_MEM
    then set_mem (hm_next mem2) (hm_prev_update (\<lambda>_. ptr2)) h
    else Some h
  }"

definition self_name :: "kernel \<Rightarrow> string" where
  "self_name k = (case k_current k of Some t \<Rightarrow> obj_name (k_obj k (O_thread t)) | None \<Rightarrow> ''NONE'')"

definition malloc_take :: "nat \<Rightarrow> nat \<Rightarrow> heap \<Rightarrow> kernel \<Rightarrow> (nat \<times> heap) option" where
  "malloc_take sz ptr h k = do {
    mem \<leftarrow> header ptr h;
    h \<leftarrow> (if sub64 (hm_next mem) (ptr + SIZEOF_STRUCT_MEM) \<ge> sz + SIZEOF_STRUCT_MEM + MIN_SIZE_ALIGNED
         then do {
           h \<leftarrow> split_block ptr (ptr + SIZEOF_STRUCT_MEM + sz) h;
           h \<leftarrow> set_mem ptr (hm_used_update (\<lambda>_. 1)) h;
           Some (count_used (sz + SIZEOF_STRUCT_MEM) h)
         }
         else do {
           h \<leftarrow> set_mem ptr (hm_used_update (\<lambda>_. 1)) h;
           Some (count_used (sub64 (hm_next mem) ptr) h)
         });
    h \<leftarrow> set_mem ptr (\<lambda>m. rt_mem_setname (self_name k) (m\<lparr>hm_magic := HEAP_MAGIC\<rparr>)) h;
    h \<leftarrow> (if ptr = lfree h
         then do {
           l \<leftarrow> lfree_find h (lfree h);
           m \<leftarrow> header l h;
           RT_ASSERT (l = heap_end h \<or> hm_used m = 0);
           Some (h\<lparr>lfree := l\<rparr>)
         }
         else Some h);
    RT_ASSERT (heap_ptr h + ptr + SIZEOF_STRUCT_MEM + sz \<le> heap_ptr h + heap_end h);
    RT_ASSERT ((heap_ptr h + ptr + SIZEOF_STRUCT_MEM) mod 8 = 0);
    RT_ASSERT ((heap_ptr h + ptr) mod 8 = 0);
    Some (heap_ptr h + ptr + SIZEOF_STRUCT_MEM, h)
  }"

text \<open>The result 0 is \<open>RT_NULL\<close>.\<close>

definition rt_malloc :: "u64 \<Rightarrow> heap \<Rightarrow> kernel \<Rightarrow> (nat \<times> heap) option" where
  "rt_malloc size_arg h k =
    (if size_arg = 0 then Some (0, h)
     else do {
       RT_DEBUG_NOT_IN_INTERRUPT k;
       let sz = unat (RT_ALIGN size_arg 8);
       if sz > mem_size_aligned h then Some (0, h)
       else do {
         let sz = (if sz < MIN_SIZE_ALIGNED then MIN_SIZE_ALIGNED else sz);
         found \<leftarrow> malloc_find h sz (lfree h);
         case found of None \<Rightarrow> Some (0, h) | Some ptr \<Rightarrow> malloc_take sz ptr h k
       }
     })"

text \<open>A header below the heap is not part of it: the access has no result.\<close>

definition rt_free :: "nat \<Rightarrow> heap \<Rightarrow> kernel \<Rightarrow> heap option" where
  "rt_free rmem h k =
    (if rmem = 0 then Some h
     else do {
       RT_DEBUG_NOT_IN_INTERRUPT k;
       RT_ASSERT (rmem mod 8 = 0);
       RT_ASSERT (heap_ptr h \<le> rmem \<and> rmem < heap_ptr h + heap_end h);
       if rmem < heap_ptr h + SIZEOF_STRUCT_MEM then None
       else do {
         let mem = rmem - SIZEOF_STRUCT_MEM - heap_ptr h;
         m \<leftarrow> header mem h;
         RT_ASSERT (hm_used m \<noteq> 0);
         RT_ASSERT (hm_magic m = HEAP_MAGIC);
         h \<leftarrow> set_mem mem (\<lambda>m. rt_mem_setname ''    '' (m\<lparr>hm_used := 0, hm_magic := HEAP_MAGIC\<rparr>)) h;
         let h = (if mem < lfree h then h\<lparr>lfree := mem\<rparr> else h);
         let h = h\<lparr>used_mem := sub64 (used_mem h) (sub64 (hm_next m) mem)\<rparr>;
         plug_holes mem h
       }
     })"

text \<open>The bytes of the heap that belong to no header, and \<open>rt_memcpy\<close> and \<open>rt_memset\<close> of \<^verbatim>\<open>kservice.c\<close> on them.\<close>

definition heap_bytes :: "heap \<Rightarrow> bytes" where
  "heap_bytes h a =
    (if heap_ptr h \<le> a \<and> a < heap_ptr h + heap_end h \<and>
        (\<forall>p \<in> heap_heads h. a < heap_ptr h + p \<or> heap_ptr h + p + SIZEOF_STRUCT_MEM \<le> a)
     then Some (heap_data h a) else None)"

definition put_bytes :: "bytes \<Rightarrow> heap \<Rightarrow> heap" where
  "put_bytes m h = h\<lparr>heap_data := \<lambda>a. case m a of Some b \<Rightarrow> b | None \<Rightarrow> heap_data h a\<rparr>"

definition copy_data :: "nat \<Rightarrow> nat \<Rightarrow> nat \<Rightarrow> heap \<Rightarrow> heap option" where
  "copy_data dst src n h = map_option (\<lambda>m. put_bytes m h) (rt_memcpy dst src (of_nat n) (heap_bytes h))"

definition zero_data :: "nat \<Rightarrow> u64 \<Rightarrow> heap \<Rightarrow> heap option" where
  "zero_data dst n h = map_option (\<lambda>m. put_bytes m h) (rt_memset dst 0 n (heap_bytes h))"

definition rt_realloc :: "nat \<Rightarrow> u64 \<Rightarrow> heap \<Rightarrow> kernel \<Rightarrow> (nat \<times> heap) option" where
  "rt_realloc rmem newsize_arg h k = do {
    RT_DEBUG_NOT_IN_INTERRUPT k;
    let newsize_w = RT_ALIGN newsize_arg 8;
    let newsize = unat newsize_w;
    if newsize > mem_size_aligned h then Some (0, h)
    else if newsize = 0 then map_option (\<lambda>h. (0, h)) (rt_free rmem h k)
    else if rmem = 0 then rt_malloc newsize_w h k
    else if rmem < heap_ptr h \<or> rmem \<ge> heap_ptr h + heap_end h then Some (rmem, h)
    else if rmem < heap_ptr h + SIZEOF_STRUCT_MEM then None
    else do {
      let ptr = rmem - SIZEOF_STRUCT_MEM - heap_ptr h;
      mem \<leftarrow> header ptr h;
      let sz = sub64 (sub64 (hm_next mem) ptr) SIZEOF_STRUCT_MEM;
      if sz = newsize then Some (rmem, h)
      else if newsize + SIZEOF_STRUCT_MEM + MIN_SIZE < sz
      then do {
        let h = h\<lparr>used_mem := sub64 (used_mem h) (sz - newsize)\<rparr>;
        let ptr2 = ptr + SIZEOF_STRUCT_MEM + newsize;
        h \<leftarrow> split_block ptr ptr2 h;
        let h = (if ptr2 < lfree h then h\<lparr>lfree := ptr2\<rparr> else h);
        h \<leftarrow> plug_holes ptr2 h;
        Some (rmem, h)
      }
      else do {
        (nmem, h) \<leftarrow> rt_malloc newsize_w h k;
        if nmem \<noteq> 0
        then do {
          h \<leftarrow> copy_data nmem rmem (if sz < newsize then sz else newsize) h;
          h \<leftarrow> rt_free rmem h k;
          Some (nmem, h)
        }
        else Some (nmem, h)
      }
    }
  }"

definition rt_calloc :: "u64 \<Rightarrow> u64 \<Rightarrow> heap \<Rightarrow> kernel \<Rightarrow> (nat \<times> heap) option" where
  "rt_calloc count sz h k = do {
    (p, h) \<leftarrow> rt_malloc (count * sz) h k;
    h \<leftarrow> (if p \<noteq> 0 then zero_data p (count * sz) h else Some h);
    Some (p, h)
  }"

text \<open>The three results, truncated to 32 bits.\<close>

definition rt_memory_info :: "heap \<Rightarrow> u32 \<times> u32 \<times> u32" where
  "rt_memory_info h = (of_nat (mem_size_aligned h), of_nat (used_mem h), of_nat (max_mem h))"

text \<open>The walk of \<open>memcheck\<close> over all headers: whether it finds a damaged one.\<close>

partial_function (option) memcheck_walk :: "heap \<Rightarrow> nat \<Rightarrow> bool option" where
  "memcheck_walk h mem =
    (if mem = heap_end h then Some False
     else if sint (of_nat mem :: u32) < 0 \<or> sint (of_nat mem :: u32) > sint (of_nat (mem_size_aligned h) :: u32)
     then Some True
     else Option.bind (header mem h) (\<lambda>m.
       if hm_magic m \<noteq> HEAP_MAGIC \<or> (hm_used m \<noteq> 0 \<and> hm_used m \<noteq> 1) then Some True
       else memcheck_walk h (hm_next m)))"

definition memcheck :: "heap \<Rightarrow> bool option" where
  "memcheck h = memcheck_walk h 0"


section \<open>The block list\<close>

text \<open>\<open>path ms x bs y\<close>: the \<open>next\<close> fields lead from \<open>x\<close> through the blocks \<open>bs\<close> to \<open>y\<close>, each block has room for
  its header and starts on a multiple of 8.\<close>

type_synonym mems = "nat \<Rightarrow> heap_mem"

fun path :: "mems \<Rightarrow> nat \<Rightarrow> nat list \<Rightarrow> nat \<Rightarrow> bool" where
  "path ms x [] y \<longleftrightarrow> x = y"
| "path ms x (b # bs) y \<longleftrightarrow> b = x \<and> 8 dvd x \<and> x + SIZEOF_STRUCT_MEM \<le> hm_next (ms x) \<and> path ms (hm_next (ms x)) bs y"

fun prevs :: "mems \<Rightarrow> nat \<Rightarrow> nat list \<Rightarrow> bool" where
  "prevs ms l [] \<longleftrightarrow> True"
| "prevs ms l (b # bs) \<longleftrightarrow> hm_prev (ms b) = l \<and> prevs ms b bs"

abbreviation blk_used :: "mems \<Rightarrow> nat \<Rightarrow> bool" where "blk_used ms p \<equiv> hm_used (ms p) \<noteq> 0"
abbreviation blk_free :: "mems \<Rightarrow> nat \<Rightarrow> bool" where "blk_free ms p \<equiv> hm_used (ms p) = 0"

definition coalesced :: "mems \<Rightarrow> nat list \<Rightarrow> bool" where
  "coalesced ms bs = successively (\<lambda>a b. blk_used ms a \<or> blk_used ms b) bs"

definition first_free :: "mems \<Rightarrow> nat list \<Rightarrow> nat \<Rightarrow> nat" where
  "first_free ms bs e = hd (filter (blk_free ms) bs @ [e])"

definition used_sum :: "mems \<Rightarrow> nat list \<Rightarrow> nat" where
  "used_sum ms bs = sum_list (map (\<lambda>p. hm_next (ms p) - p) (filter (blk_used ms) bs))"

definition heap_shape :: "heap \<Rightarrow> nat list \<Rightarrow> bool" where
  "heap_shape h bs \<longleftrightarrow> path (heap_mems h) 0 bs (heap_end h) \<and> prevs (heap_mems h) 0 bs \<and>
    list_all (\<lambda>p. hm_magic (heap_mems h p) = HEAP_MAGIC \<and> hm_used (heap_mems h p) \<in> {0, 1}) bs \<and>
    mem_used h (heap_end h) \<and> heap_end h = mem_size_aligned h + SIZEOF_STRUCT_MEM \<and> 8 dvd heap_ptr h \<and> 8 dvd heap_end h \<and>
    heap_ptr h + heap_end h + SIZEOF_STRUCT_MEM \<le> 2 ^ 64 \<and> heap_heads h = insert (heap_end h) (set bs)"

text \<open>A block in use has room for data.\<close>

definition roomy :: "mems \<Rightarrow> nat list \<Rightarrow> bool" where
  "roomy ms bs = list_all (\<lambda>p. p + SIZEOF_STRUCT_MEM < hm_next (ms p)) (filter (blk_used ms) bs)"

text \<open>The invariant: no two neighbouring blocks are free, \<open>lfree\<close> is the lowest free block, and the statistics
  count the blocks in use with their headers.\<close>

definition heap_inv :: "heap \<Rightarrow> nat list \<Rightarrow> bool" where
  "heap_inv h bs \<longleftrightarrow> heap_shape h bs \<and> coalesced (heap_mems h) bs \<and> roomy (heap_mems h) bs \<and>
    lfree h = first_free (heap_mems h) bs (heap_end h) \<and>
    used_mem h = used_sum (heap_mems h) bs \<and> used_mem h \<le> max_mem h"

text \<open>The memory areas in use: address and length.\<close>

definition areas :: "heap \<Rightarrow> nat list \<Rightarrow> (nat \<times> nat) set" where
  "areas h bs = (\<lambda>p. (heap_ptr h + p + SIZEOF_STRUCT_MEM, mem_next h p - p - SIZEOF_STRUCT_MEM)) ` {p \<in> set bs. mem_used h p}"

lemma path_append: "path ms x (as @ bs) y \<longleftrightarrow> (\<exists>z. path ms x as z \<and> path ms z bs y)"
  by (induction as arbitrary: x) auto

lemma prevs_append: "prevs ms l (as @ bs) \<longleftrightarrow> prevs ms l as \<and> prevs ms (last (l # as)) bs"
  by (induction as arbitrary: l) auto

lemma path_range: "path ms x bs y \<Longrightarrow> x \<le> y \<and> (\<forall>p \<in> set bs. x \<le> p \<and> p + SIZEOF_STRUCT_MEM \<le> hm_next (ms p) \<and> hm_next (ms p) \<le> y \<and> 8 dvd p)"
  by (induction bs arbitrary: x) fastforce+

lemma coalesced_simps [simp]:
  "coalesced ms []" "coalesced ms [a]"
  "coalesced ms (a # b # bs) \<longleftrightarrow> (blk_used ms a \<or> blk_used ms b) \<and> coalesced ms (b # bs)"
  by (simp_all add: coalesced_def)

lemma coalesced_append:
  "coalesced ms (as @ p # bs) \<longleftrightarrow> coalesced ms as \<and> coalesced ms (p # bs) \<and> (as = [] \<or> blk_used ms (last as) \<or> blk_used ms p)"
  by (auto simp: coalesced_def successively_append_iff)

lemma used_sum_simps [simp]:
  "used_sum ms [] = 0" "used_sum ms (p # bs) = (if blk_used ms p then hm_next (ms p) - p else 0) + used_sum ms bs"
  "used_sum ms (as @ bs) = used_sum ms as + used_sum ms bs"
  by (simp_all add: used_sum_def)

lemma used_sum_upper: "path ms x bs y \<Longrightarrow> used_sum ms bs \<le> y - x"
proof (induction bs arbitrary: x)
  case (Cons b bs)
  then have "used_sum ms bs \<le> y - hm_next (ms x)" "hm_next (ms x) \<le> y" "x + 32 \<le> hm_next (ms x)" "b = x"
    using path_range [of ms "hm_next (ms x)" bs y] by auto
  then show ?case by simp linarith
qed simp

lemma first_free_simps:
  "first_free ms [] e = e" "first_free ms (p # bs) e = (if blk_free ms p then p else first_free ms bs e)"
  by (simp_all add: first_free_def)

lemma first_free_append: "first_free ms (as @ bs) e = first_free ms as (first_free ms bs e)"
  by (induction as) (simp_all add: first_free_simps)

lemma first_free_in: "first_free ms bs e \<in> insert e (set bs)"
  by (induction bs) (auto simp: first_free_simps)

lemma first_free_none: "first_free ms bs e = e \<Longrightarrow> e \<notin> set bs \<Longrightarrow> list_all (blk_used ms) bs"
  by (induction bs) (auto simp: first_free_simps split: if_splits)

lemma first_free_change: "first_free ms bs e \<noteq> e \<Longrightarrow> first_free ms bs e' = first_free ms bs e"
  by (induction bs) (auto simp: first_free_simps split: if_splits)

text \<open>A block within the list: what is before it and behind it.\<close>

lemma heap_shape_parts:
  assumes "heap_shape h bs"
  shows "path (heap_mems h) 0 bs (heap_end h)" "prevs (heap_mems h) 0 bs" "mem_used h (heap_end h)"
    "\<And>p. p \<in> set bs \<Longrightarrow> hm_magic (heap_mems h p) = HEAP_MAGIC" "\<And>p. p \<in> set bs \<Longrightarrow> hm_used (heap_mems h p) \<in> {0, 1}"
    "heap_end h = mem_size_aligned h + SIZEOF_STRUCT_MEM" "8 dvd heap_ptr h" "8 dvd heap_end h"
    "heap_ptr h + heap_end h + SIZEOF_STRUCT_MEM \<le> 2 ^ 64" "heap_heads h = insert (heap_end h) (set bs)"
  using assms unfolding heap_shape_def list_all_iff by blast+

lemma header_of [simp]: "p \<in> heap_heads h \<Longrightarrow> header p h = Some (heap_mems h p)" "p \<in> heap_heads h \<Longrightarrow> set_mem p f h = Some (upd_mem p f h)"
  by (simp_all add: header_def set_mem_def)

lemma upd_mem_fields [simp]:
  "heap_heads (upd_mem p f h) = heap_heads h" "heap_end (upd_mem p f h) = heap_end h" "heap_ptr (upd_mem p f h) = heap_ptr h"
  "mem_size_aligned (upd_mem p f h) = mem_size_aligned h" "heap_data (upd_mem p f h) = heap_data h" "lfree (upd_mem p f h) = lfree h"
  by (simp_all add: upd_mem_def)

lemma heap_shapeD:
  assumes "heap_shape h (xs @ p # ys)"
  shows "path (heap_mems h) 0 xs p" "8 dvd p" "p + SIZEOF_STRUCT_MEM \<le> mem_next h p"
    "path (heap_mems h) (mem_next h p) ys (heap_end h)" "p \<notin> set xs" "p \<notin> set ys" "mem_next h p \<le> heap_end h"
    "\<forall>x \<in> set xs. x < p" "\<forall>y \<in> set ys. mem_next h p \<le> y \<and> y < heap_end h"
    "p < heap_end h" "heap_end h \<notin> set xs" "heap_end h \<notin> set ys" "heap_end h < 2 ^ 64"
    "ys = [] \<longleftrightarrow> mem_next h p = heap_end h"
    "\<And>y zs. ys = y # zs \<Longrightarrow> y = mem_next h p"
proof -
  from assms show P: "path (heap_mems h) 0 xs p" "8 dvd p" "p + SIZEOF_STRUCT_MEM \<le> mem_next h p"
    "path (heap_mems h) (mem_next h p) ys (heap_end h)" by (auto simp: heap_shape_def path_append)
  from path_range [OF P(1)] show x: "\<forall>x \<in> set xs. x < p" by fastforce
  from path_range [OF P(4)] show y: "mem_next h p \<le> heap_end h" "\<forall>y \<in> set ys. mem_next h p \<le> y \<and> y < heap_end h" by fastforce+
  from P(3) y(1) show pe: "p < heap_end h" by simp
  with x show "p \<notin> set xs" "heap_end h \<notin> set xs" by fastforce+
  from y P(3) show "p \<notin> set ys" "heap_end h \<notin> set ys" by fastforce+
  from assms show "heap_end h < 2 ^ 64" by (simp add: heap_shape_def)
  show "y = mem_next h p" if "ys = y # zs" for y zs using P(4) that by simp
  show "ys = [] \<longleftrightarrow> mem_next h p = heap_end h" using P(4) y(2) by (cases ys) auto
qed

lemma first_free_cong: "(\<And>q. q \<in> set bs \<Longrightarrow> hm_used (ms' q) = hm_used (ms q)) \<Longrightarrow> first_free ms' bs e = first_free ms bs e"
  by (induction bs) (simp_all add: first_free_simps)

lemma used_sum_cong:
  "(\<And>q. q \<in> set bs \<Longrightarrow> hm_used (ms' q) = hm_used (ms q) \<and> hm_next (ms' q) = hm_next (ms q)) \<Longrightarrow> used_sum ms' bs = used_sum ms bs"
  by (induction bs) simp_all

lemma roomy_simps [simp]:
  "roomy ms []" "roomy ms (p # bs) \<longleftrightarrow> (blk_used ms p \<longrightarrow> p + SIZEOF_STRUCT_MEM < hm_next (ms p)) \<and> roomy ms bs"
  "roomy ms (as @ bs) \<longleftrightarrow> roomy ms as \<and> roomy ms bs"
  by (auto simp: roomy_def)

lemma roomy_cong:
  "(\<And>q. q \<in> set bs \<Longrightarrow> hm_used (ms' q) = hm_used (ms q) \<and> hm_next (ms' q) = hm_next (ms q)) \<Longrightarrow> roomy ms' bs = roomy ms bs"
  by (induction bs) simp_all

lemma coalesced_cong: "(\<And>q. q \<in> set bs \<Longrightarrow> hm_used (ms' q) = hm_used (ms q)) \<Longrightarrow> coalesced ms' bs = coalesced ms bs"
  unfolding coalesced_def by (rule successively_cong) auto

lemma path_cong: "(\<And>q. q \<in> set bs \<Longrightarrow> hm_next (ms' q) = hm_next (ms q)) \<Longrightarrow> path ms' x bs y \<longleftrightarrow> path ms x bs y"
  by (induction bs arbitrary: x) auto

lemma prevs_cong: "(\<And>q. q \<in> set bs \<Longrightarrow> hm_prev (ms' q) = hm_prev (ms q)) \<Longrightarrow> prevs ms' l bs \<longleftrightarrow> prevs ms l bs"
  by (induction bs arbitrary: l) auto

section \<open>Allocation\<close>

definition fits :: "heap \<Rightarrow> nat \<Rightarrow> nat \<Rightarrow> bool" where
  "fits h sz p \<longleftrightarrow> \<not> mem_used h p \<and> p + SIZEOF_STRUCT_MEM + sz \<le> mem_next h p \<and> p + sz < mem_size_aligned h"

lemma find_head: "P x \<Longrightarrow> List.find P (x # xs) = Some x" "\<not> P x \<Longrightarrow> List.find P (x # xs) = List.find P xs"
  by simp_all

lemma find_none: "(\<And>x. x \<in> set xs \<Longrightarrow> \<not> P x) \<Longrightarrow> List.find P xs = None"
  by (induction xs) auto

text \<open>The search ends at the latest at the end of the heap, and takes the first block that fits.\<close>

lemma malloc_find_ok:
  assumes "path (heap_mems h) p bs (mem_size_aligned h + SIZEOF_STRUCT_MEM)" "sz \<le> mem_size_aligned h"
    and "mem_size_aligned h + SIZEOF_STRUCT_MEM < 2 ^ 64" "set bs \<subseteq> heap_heads h"
  shows "malloc_find h sz p = Some (List.find (fits h sz) bs)"
  using assms(1,4)
proof (induction bs arbitrary: p)
  case Nil
  then have "\<not> p < sub64 (mem_size_aligned h) sz" using assms(2,3) by simp
  then show ?case by (subst malloc_find.simps) simp
next
  case (Cons b bs)
  let ?n = "mem_next h p"
  have P: "b = p" "p + 32 \<le> ?n" "path (heap_mems h) ?n bs (mem_size_aligned h + 32)" "p \<in> heap_heads h" using Cons.prems by auto
  have n: "?n \<le> mem_size_aligned h + 32" using path_range [OF P(3)] by blast
  have s: "sub64 (mem_size_aligned h) sz = mem_size_aligned h - sz" "sub64 ?n (p + 32) = ?n - (p + 32)"
    using assms(2,3) P(2) n by simp_all
  show ?case
  proof (cases "p < mem_size_aligned h - sz")
    case True
    then have "p + sz < mem_size_aligned h" by simp
    with P(1,2) have "fits h sz b \<longleftrightarrow> \<not> mem_used h p \<and> ?n - (p + 32) \<ge> sz" by (auto simp: fits_def)
    with Cons.IH [OF P(3)] Cons.prems(2) True P(1,4) show ?thesis by (subst malloc_find.simps) (simp add: s)
  next
    case False
    then have p: "mem_size_aligned h \<le> p + sz" by simp
    have "\<not> fits h sz q" if "q \<in> set (b # bs)" for q
    proof -
      have "p \<le> q" using that P(1,2) path_range [OF P(3)] by fastforce
      with p show ?thesis by (simp add: fits_def)
    qed
    then have "List.find (fits h sz) (b # bs) = None" by (rule find_none)
    moreover have "malloc_find h sz p = Some None" using False by (subst malloc_find.simps) (simp add: s)
    ultimately show ?thesis by simp
  qed
qed

text \<open>The search starts at the lowest free block; the blocks before it are in use.\<close>

lemma path_first_free:
  assumes "path ms x bs e"
  shows "\<exists>as cs. bs = as @ cs \<and> path ms (first_free ms bs e) cs e \<and> list_all (blk_used ms) as"
  using assms
proof (induction bs arbitrary: x)
  case (Cons b bs)
  show ?case
  proof (cases "blk_free ms b")
    case True
    with Cons.prems show ?thesis by (intro exI [of _ "[]"] exI [of _ "b # bs"]) (simp add: first_free_simps)
  next
    case False
    from Cons.IH [of "hm_next (ms x)"] Cons.prems obtain as cs where
      "bs = as @ cs" "path ms (first_free ms bs e) cs e" "list_all (blk_used ms) as" by auto
    with False show ?thesis by (intro exI [of _ "b # as"] exI [of _ cs]) (simp add: first_free_simps)
  qed
qed (simp add: first_free_simps)

lemma malloc_search:
  assumes "heap_inv h bs" "sz \<le> mem_size_aligned h"
  shows "malloc_find h sz (lfree h) = Some (List.find (fits h sz) bs)"
proof -
  from assms(1) have I: "path (heap_mems h) 0 bs (heap_end h)" "lfree h = first_free (heap_mems h) bs (heap_end h)"
    "heap_end h = mem_size_aligned h + SIZEOF_STRUCT_MEM" "heap_end h < 2 ^ 64" by (auto simp: heap_inv_def heap_shape_def)
  from path_first_free [OF I(1)] obtain as cs where
    c: "bs = as @ cs" "path (heap_mems h) (lfree h) cs (heap_end h)" "list_all (blk_used (heap_mems h)) as" by (auto simp: I)
  have "List.find (fits h sz) bs = List.find (fits h sz) cs"
    using c(3) unfolding c(1) by (induction as) (simp_all add: fits_def)
  moreover have "set cs \<subseteq> heap_heads h" using heap_shape_parts(10) [of h bs] assms(1) c(1) by (auto simp: heap_inv_def)
  ultimately show ?thesis using malloc_find_ok [of h "lfree h" cs sz] c(2) I assms(2) by simp
qed

lemma lfree_find_ok:
  "path (heap_mems h) x bs (heap_end h) \<Longrightarrow> heap_end h \<notin> set bs \<Longrightarrow> insert (heap_end h) (set bs) \<subseteq> heap_heads h \<Longrightarrow>
    lfree_find h x = Some (first_free (heap_mems h) bs (heap_end h))"
proof (induction bs arbitrary: x)
  case Nil
  then show ?case by (subst lfree_find.simps) (simp add: first_free_simps)
next
  case (Cons b bs)
  then show ?case by (subst lfree_find.simps) (auto simp: first_free_simps)
qed

section \<open>Splitting, joining and marking blocks\<close>

lemma path_sorted: "path ms x bs y \<Longrightarrow> sorted_wrt (<) bs"
proof (induction bs arbitrary: x)
  case (Cons b bs)
  then show ?case using path_range [of ms "hm_next (ms x)" bs y] by fastforce
qed simp

lemma prevs_first:
  assumes "prevs ms l ys" "path ms x ys e" "\<And>y zs. ys = y # zs \<Longrightarrow> hm_prev (ms' y) = l'"
    and "\<And>q. q \<in> set ys \<Longrightarrow> q \<noteq> x \<Longrightarrow> hm_prev (ms' q) = hm_prev (ms q)"
  shows "prevs ms' l' ys"
proof (cases ys)
  case (Cons y zs)
  with assms(2) path_sorted [OF assms(2)] have "y = x" "\<forall>q \<in> set zs. q \<noteq> x" by auto
  then have "prevs ms' y zs \<longleftrightarrow> prevs ms y zs" using assms(4) Cons by (intro prevs_cong) auto
  with assms(1,3) Cons show ?thesis by auto
qed simp

lemma heap_fields:
  "h' = h\<lparr>heap_mems := ms, heap_heads := hs\<rparr> \<Longrightarrow> heap_end h' = heap_end h \<and> mem_size_aligned h' = mem_size_aligned h \<and> heap_ptr h' = heap_ptr h \<and>
    lfree h' = lfree h \<and> used_mem h' = used_mem h \<and> max_mem h' = max_mem h \<and> heap_data h' = heap_data h"
  by simp

lemma heap_shapeI:
  assumes "heap_shape h as" "h' = h\<lparr>heap_mems := ms, heap_heads := insert (heap_end h) (set bs)\<rparr>" "path ms 0 bs (heap_end h)" "prevs ms 0 bs" "blk_used ms (heap_end h)"
    and "\<And>q. q \<in> set bs \<Longrightarrow> hm_magic (ms q) = HEAP_MAGIC \<and> hm_used (ms q) \<in> {0, 1}"
  shows "heap_shape h' bs"
  using assms unfolding heap_shape_def list_all_iff by auto

text \<open>The heap after a block was split.\<close>

definition cut_block :: "nat \<Rightarrow> nat \<Rightarrow> heap \<Rightarrow> heap" where
  "cut_block ptr ptr2 h =
    (let h = upd_mem ptr2 (\<lambda>m. rt_mem_setname ''    '' (m\<lparr>hm_magic := HEAP_MAGIC, hm_used := 0,
                                 hm_next := mem_next h ptr, hm_prev := ptr\<rparr>)) (h\<lparr>heap_heads := insert ptr2 (heap_heads h)\<rparr>);
         h = upd_mem ptr (hm_next_update (\<lambda>_. ptr2)) h
     in if mem_next h ptr2 \<noteq> mem_size_aligned h + SIZEOF_STRUCT_MEM
        then upd_mem (mem_next h ptr2) (hm_prev_update (\<lambda>_. ptr2)) h else h)"

lemma split_block_eq:
  assumes S: "heap_shape h (xs @ p # ys)" and p2: "p + SIZEOF_STRUCT_MEM \<le> p2" "p2 + SIZEOF_STRUCT_MEM \<le> mem_next h p"
  shows "split_block p p2 h = Some (cut_block p p2 h)"
proof -
  note D = heap_shapeD [OF S] and H = heap_shape_parts [OF S]
  have "p \<in> heap_heads h" "p2 + SIZEOF_STRUCT_MEM \<le> heap_end h" using H(10) D(7) p2(2) by auto
  moreover have "mem_next h p \<in> heap_heads h" using H(10) D(14,15) by (cases ys) auto
  ultimately show ?thesis using p2
    by (simp add: split_block_def cut_block_def new_mem_def Let_def) (simp add: upd_mem_def rt_mem_setname_def Let_def)
qed

lemma split_block_ok:
  assumes S: "heap_shape h (xs @ p # ys)" and p2: "p + SIZEOF_STRUCT_MEM \<le> p2" "p2 + SIZEOF_STRUCT_MEM \<le> mem_next h p" "8 dvd p2"
  defines "h' \<equiv> cut_block p p2 h"
  shows "heap_shape h' (xs @ p # p2 # ys)" "mem_next h' p = p2" "mem_next h' p2 = mem_next h p" "\<not> mem_used h' p2"
    "\<And>q. q \<noteq> p2 \<Longrightarrow> hm_used (heap_mems h' q) = hm_used (heap_mems h q)"
    "\<And>q. q \<noteq> p \<Longrightarrow> q \<noteq> p2 \<Longrightarrow> mem_next h' q = mem_next h q"
    "h' = h\<lparr>heap_mems := heap_mems h', heap_heads := insert (heap_end h) (set (xs @ p # p2 # ys))\<rparr>"
proof -
  note D = heap_shapeD [OF S]
  have E: "heap_end h = mem_size_aligned h + SIZEOF_STRUCT_MEM" using S by (simp add: heap_shape_def)
  show n: "mem_next h' p = p2" "mem_next h' p2 = mem_next h p" "\<not> mem_used h' p2"
    and u: "\<And>q. q \<noteq> p2 \<Longrightarrow> hm_used (heap_mems h' q) = hm_used (heap_mems h q)"
    and o: "\<And>q. q \<noteq> p \<Longrightarrow> q \<noteq> p2 \<Longrightarrow> mem_next h' q = mem_next h q"
    and g: "h' = h\<lparr>heap_mems := heap_mems h', heap_heads := insert (heap_end h) (set (xs @ p # p2 # ys))\<rparr>"
    using p2 heap_shape_parts(10) [OF S] by (auto simp: h'_def cut_block_def upd_mem_def Let_def rt_mem_setname_def insert_commute)
  have v: "hm_prev (heap_mems h' p2) = p" "mem_next h p \<noteq> heap_end h \<Longrightarrow> hm_prev (heap_mems h' (mem_next h p)) = p2"
    "\<And>q. q \<noteq> p2 \<Longrightarrow> q \<noteq> mem_next h p \<Longrightarrow> hm_prev (heap_mems h' q) = hm_prev (heap_mems h q)"
    "\<And>q. q \<noteq> p2 \<Longrightarrow> hm_magic (heap_mems h' q) = hm_magic (heap_mems h q)" "hm_magic (heap_mems h' p2) = HEAP_MAGIC"
    using p2 unfolding E by (auto simp: h'_def cut_block_def upd_mem_def Let_def rt_mem_setname_def)
  have x: "q \<noteq> p2 \<and> q \<noteq> p \<and> q \<noteq> mem_next h p" if "q \<in> set xs" for q using that D(3,8) p2 by fastforce
  have y: "q \<noteq> p2 \<and> q \<noteq> p" if "q \<in> set ys" for q using that D(3,9) p2 by fastforce
  have "path (heap_mems h') 0 xs p" using D(1) x o by (subst path_cong [of _ _ "heap_mems h"]) auto
  moreover have "path (heap_mems h') (mem_next h p) ys (heap_end h)"
    using D(4) y o by (subst path_cong [of _ _ "heap_mems h"]) auto
  ultimately have pa: "path (heap_mems h') 0 (xs @ p # p2 # ys) (heap_end h)"
    using p2 D(2) n by (auto simp: path_append)
  from S have P: "prevs (heap_mems h) 0 xs" "hm_prev (heap_mems h p) = last (0 # xs)" "prevs (heap_mems h) p ys"
    by (auto simp: heap_shape_def prevs_append)
  have "prevs (heap_mems h') 0 xs" using P(1) v(3) x by (subst prevs_cong [of _ _ "heap_mems h"]) auto
  moreover have "prevs (heap_mems h') p2 ys"
    by (rule prevs_first [OF P(3) D(4)]) (use D(14,15) v(2,3) y in auto)
  ultimately have pr: "prevs (heap_mems h') 0 (xs @ p # p2 # ys)"
    using P(2) v(1,3) p2 D(3) by (auto simp: prevs_append)
  have m: "hm_magic (heap_mems h' q) = HEAP_MAGIC \<and> hm_used (heap_mems h' q) \<in> {0, 1}" if "q \<in> set (xs @ p # p2 # ys)" for q
    using S that u v(4,5) n(3) by (cases "q = p2") (auto simp: heap_shape_def list_all_iff)
  have "mem_used h' (heap_end h)" using u [of "heap_end h"] p2 D(7) S by (auto simp: heap_shape_def)
  then show "heap_shape h' (xs @ p # p2 # ys)" by (rule heap_shapeI [OF S g pa pr]) (rule m)
qed

text \<open>Joining a block with its successor.\<close>

definition join_blocks :: "nat \<Rightarrow> nat \<Rightarrow> heap \<Rightarrow> heap" where
  "join_blocks p q h = drop_mem q (upd_mem (mem_next h q) (hm_prev_update (\<lambda>_. p)) (upd_mem p (hm_next_update (\<lambda>_. mem_next h q)) h))"

lemma join_blocks_ok:
  assumes S: "heap_shape h (xs @ p # q # ys)"
  defines "h' \<equiv> join_blocks p q h"
  shows "heap_shape h' (xs @ p # ys)" "mem_next h' p = mem_next h q"
    "\<And>r. hm_used (heap_mems h' r) = hm_used (heap_mems h r)" "\<And>r. r \<noteq> p \<Longrightarrow> mem_next h' r = mem_next h r"
    "h' = h\<lparr>heap_mems := heap_mems h', heap_heads := insert (heap_end h) (set (xs @ p # ys))\<rparr>"
proof -
  note D = heap_shapeD [OF S] and Q = heap_shapeD [of h "xs @ [p]" q ys, simplified, OF S]
  have q: "q = mem_next h p" using D(15) by simp
  show n: "mem_next h' p = mem_next h q" and u: "\<And>r. hm_used (heap_mems h' r) = hm_used (heap_mems h r)"
    and o: "\<And>r. r \<noteq> p \<Longrightarrow> mem_next h' r = mem_next h r"     by (auto simp: h'_def join_blocks_def drop_mem_def upd_mem_def)
  have "heap_heads h' = insert (heap_end h) (set (xs @ p # ys))"
    using heap_shape_parts(10) [OF S] D(5,6) Q(5,6,10) by (auto simp: h'_def join_blocks_def drop_mem_def)
  then show g: "h' = h\<lparr>heap_mems := heap_mems h', heap_heads := insert (heap_end h) (set (xs @ p # ys))\<rparr>"
    by (simp add: h'_def join_blocks_def drop_mem_def upd_mem_def)
  have v: "hm_prev (heap_mems h' (mem_next h q)) = p"
    "\<And>r. r \<noteq> mem_next h q \<Longrightarrow> hm_prev (heap_mems h' r) = hm_prev (heap_mems h r)"
    "\<And>r. hm_magic (heap_mems h' r) = hm_magic (heap_mems h r)"
    by (auto simp: h'_def join_blocks_def drop_mem_def upd_mem_def)
  have "r \<noteq> p" if "r \<in> set xs \<or> r \<in> set ys" for r using that D(5,6) by auto
  note o' = o [OF this]
  have "path (heap_mems h') 0 xs p" using D(1) o' by (subst path_cong [of _ _ "heap_mems h"]) auto
  moreover have "path (heap_mems h') (mem_next h q) ys (heap_end h)"
    using Q(4) o' by (subst path_cong [of _ _ "heap_mems h"]) auto
  ultimately have pa: "path (heap_mems h') 0 (xs @ p # ys) (heap_end h)"
    using D(2,3) Q(3) n unfolding q by (auto simp: path_append)
  from S have P: "prevs (heap_mems h) 0 xs" "hm_prev (heap_mems h p) = last (0 # xs)" "prevs (heap_mems h) q ys"
    by (auto simp: heap_shape_def prevs_append)
  have "prevs (heap_mems h') 0 xs" using P(1) v(2) D(3,8) Q(3) unfolding q by (subst prevs_cong [of _ _ "heap_mems h"]) auto
  moreover have "prevs (heap_mems h') p ys" by (rule prevs_first [OF P(3) Q(4)]) (use Q(15) v(1,2) in auto)
  ultimately have pr: "prevs (heap_mems h') 0 (xs @ p # ys)"
    using P(2) v(2) [of p] D(3) Q(3) unfolding q by (auto simp: prevs_append)
  have "mem_used h' (heap_end h)" using u S by (auto simp: heap_shape_def)
  then show "heap_shape h' (xs @ p # ys)"
    by (rule heap_shapeI [OF S g pa pr]) (use S u v(3) in \<open>auto simp: heap_shape_def list_all_iff\<close>)
qed

text \<open>Marking a block as used or free.\<close>

lemma mark_ok:
  assumes S: "heap_shape h bs" and f: "hm_magic (f (heap_mems h p)) = HEAP_MAGIC" "hm_used (f (heap_mems h p)) \<in> {0, 1}"
    "hm_next (f (heap_mems h p)) = mem_next h p" "hm_prev (f (heap_mems h p)) = mem_prev h p" and p: "p \<noteq> heap_end h"
  shows "heap_shape (upd_mem p f h) bs"
proof (rule heap_shapeI [OF S])
  let ?ms = "(heap_mems h)(p := f (heap_mems h p))"
  show "upd_mem p f h = h\<lparr>heap_mems := ?ms, heap_heads := insert (heap_end h) (set bs)\<rparr>"
    using heap_shape_parts(10) [OF S] by (simp add: upd_mem_def)
  have "path ?ms 0 bs (heap_end h) = path (heap_mems h) 0 bs (heap_end h)" by (rule path_cong) (simp add: f)
  with heap_shape_parts(1) [OF S] show "path ?ms 0 bs (heap_end h)" by blast
  have "prevs ?ms 0 bs = prevs (heap_mems h) 0 bs" by (rule prevs_cong) (simp add: f)
  with heap_shape_parts(2) [OF S] show "prevs ?ms 0 bs" by blast
  from heap_shape_parts(3) [OF S] p show "blk_used ?ms (heap_end h)" by simp
  show "hm_magic (?ms q) = HEAP_MAGIC \<and> hm_used (?ms q) \<in> {0, 1}" if "q \<in> set bs" for q
    using heap_shape_parts(4,5) [OF S that] f(1,2) by auto
qed

text \<open>A state with the shape, where the block \<open>p\<close> has been taken out of the free blocks.\<close>

definition taken :: "nat \<Rightarrow> nat \<Rightarrow> heap \<Rightarrow> kernel \<Rightarrow> heap" where
  "taken n p h k = upd_mem p (\<lambda>m. rt_mem_setname (self_name k) (m\<lparr>hm_magic := HEAP_MAGIC\<rparr>))
     (count_used n (upd_mem p (hm_used_update (\<lambda>_. 1)) h))"

lemma taken_mems:
  "heap_mems (taken n p h k) q = (if q = p then rt_mem_setname (self_name k) (heap_mems h p\<lparr>hm_used := 1, hm_magic := HEAP_MAGIC\<rparr>)
     else heap_mems h q)"
  by (simp add: taken_def upd_mem_def count_used_def Let_def)

lemma setname_fields [simp]:
  "hm_used (rt_mem_setname n m) = hm_used m" "hm_next (rt_mem_setname n m) = hm_next m"
  "hm_prev (rt_mem_setname n m) = hm_prev m" "hm_magic (rt_mem_setname n m) = hm_magic m"
  by (simp_all add: rt_mem_setname_def Let_def)

lemma taken_fields [simp]:
  "heap_end (taken n p h k) = heap_end h" "heap_ptr (taken n p h k) = heap_ptr h" "lfree (taken n p h k) = lfree h"
  "mem_size_aligned (taken n p h k) = mem_size_aligned h" "heap_data (taken n p h k) = heap_data h"
  "heap_heads (taken n p h k) = heap_heads h"
  by (simp_all add: taken_def upd_mem_def count_used_def Let_def)

lemma shape_stats: "heap_shape (count_used n h) bs = heap_shape h bs" "heap_shape (h\<lparr>lfree := l\<rparr>) bs = heap_shape h bs"
    "heap_shape (h\<lparr>used_mem := u\<rparr>) bs = heap_shape h bs"
  by (simp_all add: heap_shape_def count_used_def Let_def)

lemma taken_shape:
  assumes "heap_shape h (xs @ p # ys)"
  shows "heap_shape (taken n p h k) (xs @ p # ys)"
proof -
  have p: "p \<noteq> heap_end h" using heap_shapeD(10) [OF assms] by simp
  have "heap_shape (count_used n (upd_mem p (hm_used_update (\<lambda>_. 1)) h)) (xs @ p # ys)" (is "heap_shape ?h _")
    unfolding shape_stats by (rule mark_ok [OF assms]) (use assms p in \<open>auto simp: heap_shape_def\<close>)
  then show ?thesis unfolding taken_def
    by (rule mark_ok) (use p in \<open>auto simp: upd_mem_def count_used_def Let_def\<close>)
qed

lemma taken_inv:
  fixes k :: kernel
  assumes S: "heap_shape h (xs @ p # ys)" and free: "\<not> mem_used h p" and l: "lfree h = first_free (heap_mems h) (xs @ p # ys) (heap_end h)"
    and C: "coalesced (heap_mems h) xs" "coalesced (heap_mems h) ys" and n: "n = mem_next h p - p"
    and u: "used_mem h = used_sum (heap_mems h) (xs @ p # ys)" "used_mem h \<le> max_mem h"
    and fi: "roomy (heap_mems h) (xs @ p # ys)" "p + SIZEOF_STRUCT_MEM < mem_next h p"
  defines "h' \<equiv> taken n p h k"
  shows "heap_inv (h'\<lparr>lfree := if p = lfree h then first_free (heap_mems h') (p # ys) (heap_end h) else lfree h\<rparr>) (xs @ p # ys)"
proof -
  note D = heap_shapeD [OF S]
  let ?ms = "heap_mems h" and ?ms' = "heap_mems h'"
  have same: "?ms' q = ?ms q" if "q \<in> set xs \<union> set ys" for q using that D(5,6) by (auto simp: h'_def taken_mems)
  have up: "hm_used (?ms' p) = 1" "hm_next (?ms' p) = hm_next (?ms p)" by (simp_all add: h'_def taken_mems)
  have "coalesced ?ms' xs" "coalesced ?ms' ys"
    using C same by (subst coalesced_cong [of _ _ ?ms]; simp)+
  then have co: "coalesced ?ms' (xs @ p # ys)" using up by (cases ys) (auto simp: coalesced_append)
  have us: "used_sum ?ms' xs = used_sum ?ms xs" "used_sum ?ms' ys = used_sum ?ms ys"
    using same by (auto intro!: used_sum_cong)
  have f: "first_free ?ms' xs e = first_free ?ms xs e" for e using same by (intro first_free_cong) auto
  have fl: "roomy ?ms' (xs @ p # ys)"
    using fi up roomy_cong [of xs ?ms' ?ms] roomy_cong [of ys ?ms' ?ms] same by simp
  have lf: "(if p = lfree h then first_free ?ms' (p # ys) (heap_end h) else lfree h) = first_free ?ms' (xs @ p # ys) (heap_end h)"
  proof (cases "first_free ?ms xs p = p")
    case True
    then have "list_all (blk_used ?ms) xs" using first_free_none D(5) by blast
    then have "first_free ?ms xs e = e" for e by (induction xs) (simp_all add: first_free_simps)
    then show ?thesis using free l f by (simp add: first_free_append first_free_simps)
  next
    case False
    have "lfree h = first_free ?ms xs p" using free l by (simp add: first_free_append first_free_simps)
    also have "\<dots> = first_free ?ms' (xs @ p # ys) (heap_end h)" unfolding first_free_append f by (rule first_free_change [OF False, symmetric])
    finally show ?thesis using False free l by (simp add: first_free_append first_free_simps)
  qed
  have "used_sum ?ms (xs @ p # ys) + n \<le> heap_end h"
    using used_sum_upper [OF heap_shape_parts(1) [OF taken_shape [OF S]], of n k] us up n free by (simp add: h'_def)
  then have "(used_mem h + n) mod 2 ^ 64 = used_mem h + n" unfolding u(1) using D(13) by (intro mod_less) simp
  then have st: "used_mem h' = used_sum ?ms' (xs @ p # ys)" "used_mem h' \<le> max_mem h'"
    using us up n free u by (simp_all add: h'_def taken_def upd_mem_def count_used_def Let_def)
  show ?thesis unfolding heap_inv_def lf using taken_shape [OF S] co st fl by (simp add: shape_stats h'_def)
qed

lemma areas_simps:
  "areas h [] = {}"
  "areas h (p # bs) = (if mem_used h p then {(heap_ptr h + p + SIZEOF_STRUCT_MEM, mem_next h p - p - SIZEOF_STRUCT_MEM)} else {}) \<union> areas h bs"
  "areas h (as @ bs) = areas h as \<union> areas h bs"
  by (auto simp: areas_def)

lemma areas_cong:
  "(\<And>q. q \<in> set bs \<Longrightarrow> hm_used (heap_mems h' q) = hm_used (heap_mems h q) \<and> mem_next h' q = mem_next h q) \<Longrightarrow>
    heap_ptr h' = heap_ptr h \<Longrightarrow> areas h' bs = areas h bs"
  by (auto simp: areas_def image_iff)

lemma first_free_free: "first_free ms bs e = e \<or> blk_free ms (first_free ms bs e)"
  by (induction bs) (auto simp: first_free_simps)

lemma heap_invD:
  assumes "heap_inv h bs"
  shows "heap_shape h bs" "coalesced (heap_mems h) bs" "lfree h = first_free (heap_mems h) bs (heap_end h)"
    "used_mem h = used_sum (heap_mems h) bs" "used_mem h \<le> max_mem h" "roomy (heap_mems h) bs"
  using assms by (simp_all add: heap_inv_def)

text \<open>Taking the block \<open>p\<close>, from the shape of the heap after the split, if there was one.\<close>

definition finish_take :: "nat \<Rightarrow> nat \<Rightarrow> nat \<Rightarrow> heap \<Rightarrow> kernel \<Rightarrow> (nat \<times> heap) option" where
  "finish_take sz n p h k = do {
    let h = taken n p h k;
    h \<leftarrow> (if p = lfree h
         then do {
           l \<leftarrow> lfree_find h (lfree h);
           m \<leftarrow> header l h;
           RT_ASSERT (l = heap_end h \<or> hm_used m = 0);
           Some (h\<lparr>lfree := l\<rparr>)
         }
         else Some h);
    RT_ASSERT (heap_ptr h + p + SIZEOF_STRUCT_MEM + sz \<le> heap_ptr h + heap_end h);
    RT_ASSERT ((heap_ptr h + p + SIZEOF_STRUCT_MEM) mod 8 = 0);
    RT_ASSERT ((heap_ptr h + p) mod 8 = 0);
    Some (heap_ptr h + p + SIZEOF_STRUCT_MEM, h)
  }"

lemma count_used_fields [simp]: "heap_heads (count_used n h) = heap_heads h"
  by (simp add: count_used_def Let_def)

lemma malloc_take_finish:
  assumes S: "heap_shape h (xs @ p # ys)" and c: "sz + SIZEOF_STRUCT_MEM + MIN_SIZE_ALIGNED \<le> sub64 (mem_next h p) (p + SIZEOF_STRUCT_MEM)
      \<Longrightarrow> p + SIZEOF_STRUCT_MEM + sz + SIZEOF_STRUCT_MEM \<le> mem_next h p"
  shows "malloc_take sz p h k =
    (if sub64 (mem_next h p) (p + SIZEOF_STRUCT_MEM) \<ge> sz + SIZEOF_STRUCT_MEM + MIN_SIZE_ALIGNED
     then finish_take sz (sz + SIZEOF_STRUCT_MEM) p (cut_block p (p + SIZEOF_STRUCT_MEM + sz) h) k
     else finish_take sz (sub64 (mem_next h p) p) p h k)"
proof -
  have p: "p \<in> heap_heads h" using heap_shape_parts(10) [OF S] by simp
  have "p \<in> heap_heads (cut_block p q h)" for q using p by (simp add: cut_block_def Let_def)
  with p split_block_eq [OF S _ c] show ?thesis by (simp add: malloc_take_def finish_take_def taken_def Let_def)
qed

lemma finish_take_ok:
  assumes S: "heap_shape h (xs @ p # ys)" and free: "\<not> mem_used h p" and l: "lfree h = first_free (heap_mems h) (xs @ p # ys) (heap_end h)"
    and C: "coalesced (heap_mems h) xs" "coalesced (heap_mems h) ys" and n: "n = mem_next h p - p" and sz: "p + SIZEOF_STRUCT_MEM + sz \<le> mem_next h p"
    and u: "used_mem h = used_sum (heap_mems h) (xs @ p # ys)" "used_mem h \<le> max_mem h"
    and fi: "roomy (heap_mems h) (xs @ p # ys)" "0 < sz"
  shows "\<exists>h'. finish_take sz n p h k = Some (heap_ptr h + p + SIZEOF_STRUCT_MEM, h') \<and> heap_inv h' (xs @ p # ys) \<and>
    areas h' (xs @ p # ys) = insert (heap_ptr h + p + SIZEOF_STRUCT_MEM, mem_next h p - p - SIZEOF_STRUCT_MEM) (areas h (xs @ p # ys)) \<and>
    heap_ptr h' = heap_ptr h \<and> mem_size_aligned h' = mem_size_aligned h \<and> heap_data h' = heap_data h"
proof -
  note D = heap_shapeD [OF S] and H = heap_shape_parts [OF S]
  let ?t = "taken n p h k"
  let ?h = "?t\<lparr>lfree := if p = lfree h then first_free (heap_mems ?t) (p # ys) (heap_end h) else lfree h\<rparr>"
  have "path (heap_mems ?t) p (p # ys) (heap_end ?t)" using heap_shapeD(2,3,4) [OF taken_shape [OF S, of n k]] by simp
  then have "lfree_find ?t p = Some (first_free (heap_mems ?t) (p # ys) (heap_end h))"
    using lfree_find_ok [of ?t p "p # ys"] D(10,12) H(10) by auto
  moreover have "first_free (heap_mems ?t) (p # ys) (heap_end h) \<in> heap_heads ?t"
    using first_free_in [of "heap_mems ?t" "p # ys" "heap_end h"] H(10) by auto
  moreover have "first_free (heap_mems ?t) (p # ys) (heap_end h) = heap_end h \<or> \<not> mem_used ?t (first_free (heap_mems ?t) (p # ys) (heap_end h))"
    using first_free_free by blast
  moreover have "(heap_ptr h + p) mod 8 = 0" "(heap_ptr h + p + SIZEOF_STRUCT_MEM) mod 8 = 0"
    using D(2) H(7) by (auto elim!: dvdE)
  moreover have "heap_ptr h + p + SIZEOF_STRUCT_MEM + sz \<le> heap_ptr h + heap_end h" using D(7) sz by simp
  ultimately have "finish_take sz n p h k = Some (heap_ptr h + p + SIZEOF_STRUCT_MEM, ?h)"
    unfolding finish_take_def Let_def by auto
  moreover have "heap_inv ?h (xs @ p # ys)" by (rule taken_inv [OF S free l C n u fi(1)]) (use sz fi(2) in simp)
  moreover have "areas ?h xs = areas h xs" "areas ?h ys = areas h ys"
    by (rule areas_cong; use D(5,6) in \<open>auto simp: taken_mems\<close>)+
  then have "areas ?h (xs @ p # ys) = insert (heap_ptr h + p + SIZEOF_STRUCT_MEM, mem_next h p - p - SIZEOF_STRUCT_MEM) (areas h (xs @ p # ys))"
    using free by (simp add: areas_simps taken_mems)
  ultimately show ?thesis by (intro exI [of _ ?h]) simp
qed

lemma malloc_take_ok:
  assumes I: "heap_inv h (xs @ p # ys)" and free: "\<not> mem_used h p" and sz: "p + SIZEOF_STRUCT_MEM + sz \<le> mem_next h p" "8 dvd sz" "0 < sz"
  shows "\<exists>h' bs' n. malloc_take sz p h k = Some (heap_ptr h + p + SIZEOF_STRUCT_MEM, h') \<and> heap_inv h' bs' \<and>
    areas h' bs' = insert (heap_ptr h + p + SIZEOF_STRUCT_MEM, n) (areas h (xs @ p # ys)) \<and> sz \<le> n \<and> n < sz + SIZEOF_STRUCT_MEM + MIN_SIZE_ALIGNED \<and>
    heap_ptr h' = heap_ptr h \<and> mem_size_aligned h' = mem_size_aligned h \<and> heap_data h' = heap_data h"
proof -
  note H = heap_invD [OF I] and D = heap_shapeD [OF heap_invD(1) [OF I]]
  from H(2) have C: "coalesced (heap_mems h) xs" "coalesced (heap_mems h) (p # ys)" by (simp_all add: coalesced_append)
  then have Cy: "coalesced (heap_mems h) ys" by (cases ys) auto
  have s: "sub64 (mem_next h p) (p + SIZEOF_STRUCT_MEM) = mem_next h p - (p + SIZEOF_STRUCT_MEM)" "sub64 (mem_next h p) p = mem_next h p - p"
    using D(3,7,13) by simp_all
  show ?thesis
  proof (cases "sub64 (mem_next h p) (p + SIZEOF_STRUCT_MEM) \<ge> sz + SIZEOF_STRUCT_MEM + MIN_SIZE_ALIGNED")
    case False
    from False have "malloc_take sz p h k = finish_take sz (sub64 (mem_next h p) p) p h k" by (simp add: malloc_take_finish [OF H(1)])
    moreover have "sz \<le> mem_next h p - p - SIZEOF_STRUCT_MEM" "mem_next h p - p - SIZEOF_STRUCT_MEM < sz + SIZEOF_STRUCT_MEM + MIN_SIZE_ALIGNED"
      using sz(1) False s(1) by simp_all
    ultimately show ?thesis using finish_take_ok [OF H(1) free H(3) C(1) Cy s(2) sz(1) H(4,5,6) sz(3), of k] by fastforce
  next
    case True
    define p2 where "p2 = p + SIZEOF_STRUCT_MEM + sz"
    define g where "g = cut_block p p2 h"
    have p2: "p + SIZEOF_STRUCT_MEM \<le> p2" "p2 + SIZEOF_STRUCT_MEM \<le> mem_next h p" "8 dvd p2"
      using True sz(2) D(2) unfolding s p2_def by (auto elim!: dvdE)
    note P = split_block_ok [OF H(1) p2, folded g_def]
    note F = heap_fields [OF P(7)]
    have x: "q \<noteq> p2 \<and> q \<noteq> p" if "q \<in> set xs \<union> set ys" for q using that D(3,5,6,8,9) p2 by fastforce
    have f: "first_free (heap_mems g) (xs @ p # p2 # ys) (heap_end h) = first_free (heap_mems h) (xs @ p # ys) (heap_end h)"
      using first_free_cong [of xs "heap_mems g" "heap_mems h"] x P(5) free p2(1) by (simp add: first_free_append first_free_simps)
    have c1: "coalesced (heap_mems g) xs" using C(1) x P(5) by (subst coalesced_cong [of _ _ "heap_mems h"]) auto
    have c2: "coalesced (heap_mems g) (p2 # ys)"
    proof (cases ys)
      case (Cons y zs)
      have "coalesced (heap_mems g) ys = coalesced (heap_mems h) ys" using x P(5) by (intro coalesced_cong) auto
      moreover have "blk_used (heap_mems h) y" using C(2) free Cons by simp
      ultimately show ?thesis using Cy Cons P(5) [of y] x [of y] by simp
    qed simp
    have us: "used_sum (heap_mems g) (xs @ p # p2 # ys) = used_sum (heap_mems h) (xs @ p # ys)"
      using used_sum_cong [of xs "heap_mems g" "heap_mems h"] used_sum_cong [of ys "heap_mems g" "heap_mems h"]
        x P(4,5,6) free p2(1) by simp
    have fi: "roomy (heap_mems g) (xs @ p # p2 # ys)"
      using roomy_cong [of xs "heap_mems g" "heap_mems h"] roomy_cong [of ys "heap_mems g" "heap_mems h"]
        x P(4,5,6) free p2(1) H(6) by simp
    have ar: "areas g (xs @ p # p2 # ys) = areas h (xs @ p # ys)"
      using areas_cong [of xs g h] areas_cong [of ys g h] x P(4,5,6) F free p2(1) by (simp add: areas_simps)
    have n: "sz + SIZEOF_STRUCT_MEM = mem_next g p - p" "p + SIZEOF_STRUCT_MEM + sz \<le> mem_next g p" using P(2) by (simp_all add: p2_def)
    have fr: "\<not> mem_used g p" using P(5) [of p] p2(1) free by simp
    have st: "lfree g = first_free (heap_mems g) (xs @ p # p2 # ys) (heap_end g)"
      "used_mem g = used_sum (heap_mems g) (xs @ p # p2 # ys)" "used_mem g \<le> max_mem g"
      unfolding us using f F H(3,4,5) by simp_all
    have "malloc_take sz p h k = finish_take sz (sz + SIZEOF_STRUCT_MEM) p g k"
      using True p2(2) by (simp add: malloc_take_finish [OF H(1)] g_def p2_def)
    with finish_take_ok [OF P(1) fr st(1) c1 c2 n st(2,3) fi sz(3), of k] obtain h' where
      "malloc_take sz p h k = Some (heap_ptr g + p + SIZEOF_STRUCT_MEM, h')" "heap_inv h' (xs @ p # p2 # ys)"
      "areas h' (xs @ p # p2 # ys) = insert (heap_ptr g + p + SIZEOF_STRUCT_MEM, mem_next g p - p - SIZEOF_STRUCT_MEM) (areas h (xs @ p # ys))"
      "heap_ptr h' = heap_ptr g" "mem_size_aligned h' = mem_size_aligned g" "heap_data h' = heap_data g"
      unfolding ar by auto
    moreover have "mem_next g p - p - SIZEOF_STRUCT_MEM = sz" using P(2) by (simp add: p2_def)
    ultimately show ?thesis using sz(1) F by (intro exI [of _ h'] exI [of _ "xs @ p # p2 # ys"] exI [of _ sz]) simp
  qed
qed

section \<open>The blocks of a heap\<close>

text \<open>The list of blocks read off the heap; every block takes at least one address, so the end of the heap is fuel enough.\<close>

fun walk :: "nat \<Rightarrow> heap \<Rightarrow> nat \<Rightarrow> nat list" where
  "walk 0 h p = []"
| "walk (Suc f) h p = (if heap_end h \<le> p then [] else p # walk f h (mem_next h p))"

definition heap_blocks :: "heap \<Rightarrow> nat list" where
  "heap_blocks h = walk (heap_end h) h 0"

definition heap_ok :: "heap \<Rightarrow> bool" where
  "heap_ok h \<longleftrightarrow> heap_inv h (heap_blocks h) \<and> MIN_SIZE_ALIGNED \<le> mem_size_aligned h"

definition live :: "heap \<Rightarrow> (nat \<times> nat) set" where
  "live h = areas h (heap_blocks h)"

lemma walk_path: "path (heap_mems h) x bs (heap_end h) \<Longrightarrow> heap_end h - x \<le> f \<Longrightarrow> walk f h x = bs"
proof (induction bs arbitrary: x f)
  case Nil
  then show ?case by (cases f) auto
next
  case (Cons b bs)
  then have "x + 32 \<le> mem_next h x" "mem_next h x \<le> heap_end h"
    using path_range [of "heap_mems h" "mem_next h x" bs "heap_end h"] by auto
  with Cons show ?case by (cases f) auto
qed

lemma heap_blocks_eq: "heap_inv h bs \<Longrightarrow> heap_blocks h = bs"
  unfolding heap_blocks_def by (rule walk_path) (simp_all add: heap_inv_def heap_shape_parts)

lemma heap_okI: "heap_inv h bs \<Longrightarrow> MIN_SIZE_ALIGNED \<le> mem_size_aligned h \<Longrightarrow> heap_ok h"
  using heap_blocks_eq by (simp add: heap_ok_def)

lemma live_eq: "heap_inv h bs \<Longrightarrow> live h = areas h bs"
  by (simp add: live_def heap_blocks_eq)

lemma live_block:
  assumes "heap_ok h" "(a, n) \<in> live h"
  obtains xs p ys where "heap_inv h (xs @ p # ys)" "mem_used h p" "a = heap_ptr h + p + SIZEOF_STRUCT_MEM"
    "n = mem_next h p - p - SIZEOF_STRUCT_MEM" "live h = areas h (xs @ p # ys)"
proof -
  from assms(1) have I: "heap_inv h (heap_blocks h)" by (simp add: heap_ok_def)
  from assms(2) obtain p where p: "p \<in> set (heap_blocks h)" "mem_used h p" "a = heap_ptr h + p + SIZEOF_STRUCT_MEM"
    "n = mem_next h p - p - SIZEOF_STRUCT_MEM" by (auto simp: live_def areas_def)
  from p(1) obtain xs ys where "heap_blocks h = xs @ p # ys" by (auto simp: in_set_conv_decomp)
  with I p that show thesis by (auto simp: live_def)
qed

lemma live_disjoint:
  assumes "heap_ok h" "(a, n) \<in> live h" "(b, m) \<in> live h" "(a, n) \<noteq> (b, m)"
  shows "a + n \<le> b \<or> b + m \<le> a"
proof -
  from assms(1,2) obtain xs p ys where p: "heap_inv h (xs @ p # ys)" "a = heap_ptr h + p + SIZEOF_STRUCT_MEM"
    "n = mem_next h p - p - SIZEOF_STRUCT_MEM" "live h = areas h (xs @ p # ys)" by (rule live_block) auto
  note D = heap_shapeD [OF heap_invD(1) [OF p(1)]]
  from assms(3) p(4) obtain q where q: "q \<in> set (xs @ p # ys)" "b = heap_ptr h + q + SIZEOF_STRUCT_MEM"
    "m = mem_next h q - q - SIZEOF_STRUCT_MEM" by (auto simp: areas_def)
  from assms(4) p q have "q \<in> set xs \<or> q \<in> set ys" by auto
  then show ?thesis
  proof
    assume "q \<in> set xs"
    with path_range [OF D(1)] have "mem_next h q \<le> p" "q + SIZEOF_STRUCT_MEM \<le> mem_next h q" by blast+
    with p q show ?thesis by simp
  next
    assume "q \<in> set ys"
    with D(3,9) have "mem_next h p \<le> q" "p + SIZEOF_STRUCT_MEM \<le> mem_next h p" by blast+
    with p q show ?thesis by simp
  qed
qed

lemma live_inside:
  assumes "heap_ok h" "(a, n) \<in> live h"
  shows "8 dvd a" "heap_ptr h + SIZEOF_STRUCT_MEM \<le> a" "a + n \<le> heap_ptr h + heap_end h"
proof -
  from assms obtain xs p ys where p: "heap_inv h (xs @ p # ys)" "a = heap_ptr h + p + SIZEOF_STRUCT_MEM"
    "n = mem_next h p - p - SIZEOF_STRUCT_MEM" by (rule live_block) auto
  note D = heap_shapeD [OF heap_invD(1) [OF p(1)]] and H = heap_shape_parts [OF heap_invD(1) [OF p(1)]]
  show "8 dvd a" using D(2) H(7) p(2) by (auto elim!: dvdE)
  show "heap_ptr h + SIZEOF_STRUCT_MEM \<le> a" "a + n \<le> heap_ptr h + heap_end h" using p D(3,7) by simp_all
qed

section \<open>Requests\<close>

lemma and_not7: "unat (x AND NOT 7 :: u64) = unat x div 8 * 8"
  using unat_and_not_mask [of x 3] by (simp add: mask_eq_exp_minus_1)

lemma unat_RT_ALIGN: "unat (RT_ALIGN s 8) = (unat s + 7) mod 2 ^ 64 div 8 * 8"
proof -
  have "unat (s + 7) = (unat s + 7) mod 2 ^ 64" by (simp add: unat_word_ariths)
  moreover have "s + 8 - 1 = s + 7" "8 - 1 = (7 :: u64)" by simp_all
  ultimately show ?thesis unfolding RT_ALIGN_def by (simp only: and_not7)
qed

definition request_size :: "u64 \<Rightarrow> nat" where
  "request_size s = max MIN_SIZE_ALIGNED (unat (RT_ALIGN s 8))"

lemma request_size_dvd: "8 dvd request_size s"
  by (simp add: request_size_def unat_RT_ALIGN max_def)

lemma request_size_pos: "0 < request_size s"
  by (simp add: request_size_def)

lemma request_size_ge: "unat s + 7 < 2 ^ 64 \<Longrightarrow> unat s \<le> request_size s"
  by (simp add: request_size_def unat_RT_ALIGN)

lemma rt_malloc_search:
  assumes "heap_ok h" "k_interrupt_nest k = 0" "s \<noteq> 0"
  shows "rt_malloc s h k = (case List.find (fits h (request_size s)) (heap_blocks h) of None \<Rightarrow> Some (0, h)
    | Some p \<Rightarrow> malloc_take (request_size s) p h k)"
proof -
  have I: "heap_inv h (heap_blocks h)" and M: "MIN_SIZE_ALIGNED \<le> mem_size_aligned h" using assms(1) by (simp_all add: heap_ok_def)
  show ?thesis
  proof (cases "unat (RT_ALIGN s 8) > mem_size_aligned h")
    case True
    then have "\<not> fits h (request_size s) p" for p by (auto simp: fits_def request_size_def)
    then have "List.find (fits h (request_size s)) (heap_blocks h) = None" by (intro find_none) simp
    with True assms(2,3) show ?thesis by (simp add: rt_malloc_def RT_DEBUG_NOT_IN_INTERRUPT_def)
  next
    case False
    with M have le: "request_size s \<le> mem_size_aligned h" by (simp add: request_size_def)
    have "(if unat (RT_ALIGN s 8) < MIN_SIZE_ALIGNED then MIN_SIZE_ALIGNED else unat (RT_ALIGN s 8)) = request_size s"
      by (simp add: request_size_def)
    with False malloc_search [OF I le] assms(2,3) show ?thesis
      by (simp add: rt_malloc_def RT_DEBUG_NOT_IN_INTERRUPT_def Let_def split: option.split)
  qed
qed

lemma malloc_ok:
  assumes "heap_ok h" "k_interrupt_nest k = 0" "s \<noteq> 0"
  shows "\<exists>a h'. rt_malloc s h k = Some (a, h') \<and> heap_ok h' \<and> heap_data h' = heap_data h \<and> heap_ptr h' = heap_ptr h \<and> heap_end h' = heap_end h \<and>
    (if \<exists>p \<in> set (heap_blocks h). fits h (request_size s) p
     then a \<noteq> 0 \<and> (\<exists>n. request_size s \<le> n \<and> n < request_size s + 56 \<and> live h' = insert (a, n) (live h) \<and> (a, n) \<notin> live h)
     else a = 0 \<and> h' = h)"
proof (cases "List.find (fits h (request_size s)) (heap_blocks h)")
  case None
  then have "\<not> (\<exists>p \<in> set (heap_blocks h). fits h (request_size s) p)" by (simp add: find_None_iff)
  with None assms show ?thesis by (simp add: rt_malloc_search)
next
  case (Some p)
  then have p: "p \<in> set (heap_blocks h)" "fits h (request_size s) p" by (auto simp: find_Some_iff)
  from p(1) obtain xs ys where bs: "heap_blocks h = xs @ p # ys" by (auto simp: in_set_conv_decomp)
  have I: "heap_inv h (xs @ p # ys)" and M: "MIN_SIZE_ALIGNED \<le> mem_size_aligned h" using assms(1) by (simp_all add: heap_ok_def bs)
  from p(2) have f: "\<not> mem_used h p" "p + SIZEOF_STRUCT_MEM + request_size s \<le> mem_next h p" by (simp_all add: fits_def)
  from malloc_take_ok [OF I f request_size_dvd request_size_pos, of k] obtain h' bs' n where
    t: "malloc_take (request_size s) p h k = Some (heap_ptr h + p + SIZEOF_STRUCT_MEM, h')" "heap_inv h' bs'"
      "areas h' bs' = insert (heap_ptr h + p + SIZEOF_STRUCT_MEM, n) (areas h (xs @ p # ys))" "request_size s \<le> n"
      "heap_ptr h' = heap_ptr h" "mem_size_aligned h' = mem_size_aligned h" "heap_data h' = heap_data h" "n < request_size s + 56" by auto
  have "(heap_ptr h + p + SIZEOF_STRUCT_MEM, n) \<notin> live h" using f(1) by (auto simp: live_def areas_def)
  moreover have "heap_end h' = heap_end h"
    using heap_shape_parts(6) [OF heap_invD(1) [OF t(2)]] heap_shape_parts(6) [OF heap_invD(1) [OF I]] t(6) by simp
  moreover have "rt_malloc s h k = Some (heap_ptr h + p + SIZEOF_STRUCT_MEM, h')"
    using t(1) assms Some by (simp add: rt_malloc_search)
  moreover have "\<exists>p \<in> set (heap_blocks h). fits h (request_size s) p" using p by blast
  ultimately show ?thesis using t(2-) M heap_okI [OF t(2)] live_eq [OF t(2)] live_eq [OF I] by auto
qed

section \<open>Release\<close>

text \<open>A free block \<open>p\<close> whose neighbours may be free too; everywhere else the heap is joined.\<close>

lemma plug_forward_ok:
  assumes S: "heap_shape h (xs @ p # ys)" and free: "\<not> mem_used h p" and l: "lfree h = first_free (heap_mems h) (xs @ p # ys) (heap_end h)"
    and C: "coalesced (heap_mems h) ys"
  shows "\<exists>h' ys' ms' hs. plug_forward p h = Some h' \<and> h' = h\<lparr>heap_mems := ms', heap_heads := hs\<rparr> \<and> heap_shape h' (xs @ p # ys') \<and>
    coalesced ms' (p # ys') \<and> set ys' \<subseteq> set ys \<and> filter (blk_used ms') ys' = filter (blk_used (heap_mems h)) ys \<and>
    (\<forall>q. hm_used (ms' q) = hm_used (heap_mems h q)) \<and> (\<forall>q. q \<noteq> p \<longrightarrow> hm_next (ms' q) = mem_next h q)"
proof -
  note D = heap_shapeD [OF S]
  have ne: "p \<noteq> mem_next h p" using D(3) by simp
  have hd: "p \<in> heap_heads h" "mem_next h p \<in> heap_heads h" using heap_shape_parts(10) [OF S] D(14,15) by (cases ys; auto)+
  show ?thesis
  proof (cases "\<not> mem_used h (mem_next h p) \<and> mem_next h p \<noteq> heap_end h")
    case False
    then have "plug_forward p h = Some h" using hd by (auto simp: plug_forward_def Let_def)
    moreover have "coalesced (heap_mems h) (p # ys)"
    proof (cases ys)
      case (Cons y zs)
      with D(14,15) False have "mem_used h y" by auto
      with C Cons show ?thesis by simp
    qed simp
    ultimately show ?thesis using S by (intro exI [of _ h] exI [of _ ys] exI [of _ "heap_mems h"] exI [of _ "heap_heads h"]) simp
  next
    case True
    define q where "q = mem_next h p"
    from True D(14,15) obtain zs where ys: "ys = q # zs" unfolding q_def by (cases ys) auto
    have q: "\<not> mem_used h q" "q \<noteq> heap_end h" "q \<noteq> p" using True ne by (auto simp: q_def)
    have lq: "lfree h \<noteq> q"
    proof
      assume "lfree h = q"
      moreover have "lfree h = first_free (heap_mems h) xs p" using l free by (simp add: first_free_append first_free_simps)
      moreover have "first_free (heap_mems h) xs p \<in> insert p (set xs)" by (rule first_free_in)
      ultimately show False using D(3,8) by (auto simp: q_def)
    qed
    note Q = heap_shapeD [of h "xs @ [p]" q zs, simplified, OF S [unfolded ys]]
    have "mem_next h q \<in> heap_heads h" using heap_shape_parts(10) [OF S] Q(14,15) by (cases zs) (auto simp: ys)
    then have e: "plug_forward p h = Some (join_blocks p q h)"
      using q lq hd by (simp add: plug_forward_def join_blocks_def Let_def q_def [symmetric])
    note J = join_blocks_ok [OF S [unfolded ys]]
    have "coalesced (heap_mems (join_blocks p q h)) (p # zs)"
    proof (cases zs)
      case (Cons z ws)
      with C q have "mem_used h z" "coalesced (heap_mems h) zs" by (simp_all add: ys)
      moreover have "coalesced (heap_mems (join_blocks p q h)) zs = coalesced (heap_mems h) zs" using J(3) by (intro coalesced_cong) simp
      ultimately show ?thesis using Cons J(3) by simp
    qed simp
    with J q e show ?thesis
      by (intro exI [of _ "join_blocks p q h"] exI [of _ zs] exI [of _ "heap_mems (join_blocks p q h)"] exI [of _ "insert (heap_end h) (set (xs @ p # zs))"])
        (auto simp: ys)
  qed
qed

lemma plug_backward_ok:
  assumes S: "heap_shape h (xs @ p # ys)" and free: "\<not> mem_used h p" and l: "lfree h = first_free (heap_mems h) (xs @ p # ys) (heap_end h)"
    and C: "coalesced (heap_mems h) xs" "coalesced (heap_mems h) (p # ys)"
  shows "\<exists>h' zs ms' hs. plug_backward p h = Some h' \<and> h' = h\<lparr>heap_mems := ms', heap_heads := hs\<rparr> \<and> heap_shape h' zs \<and> coalesced ms' zs \<and>
    filter (blk_used ms') zs = filter (blk_used (heap_mems h)) (xs @ p # ys) \<and> lfree h = first_free ms' zs (heap_end h) \<and>
    (\<forall>q. hm_used (ms' q) = hm_used (heap_mems h q)) \<and> (\<forall>q. mem_used h q \<longrightarrow> hm_next (ms' q) = mem_next h q)"
proof -
  note D = heap_shapeD [OF S]
  have pv: "mem_prev h p = last (0 # xs)" using heap_shape_parts(2) [OF S] by (simp add: prevs_append)
  have p0: "xs = [] \<Longrightarrow> p = 0" using D(1) by simp
  have "mem_next h p = heap_end h \<or> mem_next h p \<in> set ys" using D(14,15) by (cases ys) auto
  then have hd: "p \<in> heap_heads h" "mem_prev h p \<in> heap_heads h" "mem_next h p \<in> heap_heads h"
    using heap_shape_parts(10) [OF S] pv p0 by auto
  show ?thesis
  proof (cases "xs = [] \<or> mem_used h (last xs)")
    case True
    have "plug_backward p h = Some h"
    proof (cases "xs = []")
      case True
      with D(1) pv have "mem_prev h p = p" by simp
      then show ?thesis using hd by (simp add: plug_backward_def)
    next
      case False
      with True pv hd show ?thesis by (simp add: plug_backward_def)
    qed
    moreover have "coalesced (heap_mems h) (xs @ p # ys)" using C True by (auto simp: coalesced_append)
    ultimately show ?thesis using S l by (intro exI [of _ h] exI [of _ "xs @ p # ys"] exI [of _ "heap_mems h"] exI [of _ "heap_heads h"]) simp
  next
    case False
    then obtain ws r where xs: "xs = ws @ [r]" and r: "\<not> mem_used h r" by (metis append_butlast_last_id)
    have rp: "r \<noteq> p" using D(5) by (auto simp: xs)
    have l': "lfree h = first_free (heap_mems h) ws r" using l r by (simp add: xs first_free_append first_free_simps)
    have "lfree h \<noteq> p" using first_free_in [of "heap_mems h" ws r] D(5) by (auto simp: l' xs)
    then have e: "plug_backward p h = Some (join_blocks r p h)"
      using pv r rp hd by (simp add: plug_backward_def join_blocks_def Let_def xs)
    have "heap_shape h (ws @ r # p # ys)" using S by (simp add: xs)
    note J = join_blocks_ok [OF this]
    let ?ms = "heap_mems (join_blocks r p h)"
    have "coalesced ?ms (ws @ r # ys) = coalesced (heap_mems h) (ws @ r # ys)" using J(3) by (intro coalesced_cong) simp
    moreover have "coalesced (heap_mems h) (ws @ r # ys)" using C r free by (cases ys) (auto simp: xs coalesced_append)
    moreover have "first_free ?ms ws r = first_free (heap_mems h) ws r" using J(3) by (intro first_free_cong) simp
    moreover have "mem_next (join_blocks r p h) q = mem_next h q" if "mem_used h q" for q using J(4) [of q] r that by auto
    ultimately show ?thesis using J(1,3,5) r free l' e
      by (intro exI [of _ "join_blocks r p h"] exI [of _ "ws @ r # ys"] exI [of _ ?ms] exI [of _ "insert (heap_end h) (set (ws @ r # ys))"])
        (auto simp: xs first_free_append first_free_simps)
  qed
qed

lemma used_same:
  assumes "filter (blk_used (heap_mems h')) bs' = filter (blk_used (heap_mems h)) bs"
    and "\<And>q. q \<in> set bs \<Longrightarrow> mem_used h q \<Longrightarrow> mem_next h' q = mem_next h q" "heap_ptr h' = heap_ptr h"
  shows "used_sum (heap_mems h') bs' = used_sum (heap_mems h) bs" "areas h' bs' = areas h bs"
    "roomy (heap_mems h') bs' = roomy (heap_mems h) bs"
proof -
  show "used_sum (heap_mems h') bs' = used_sum (heap_mems h) bs"
    unfolding used_sum_def assms(1) using assms(2) by (auto intro!: arg_cong [of _ _ sum_list])
  show "roomy (heap_mems h') bs' = roomy (heap_mems h) bs"
    unfolding roomy_def assms(1) using assms(2) by (auto simp: list_all_iff)
  have "{p \<in> set bs'. mem_used h' p} = {p \<in> set bs. mem_used h p}"
    using arg_cong [OF assms(1), of set] by simp
  then show "areas h' bs' = areas h bs" unfolding areas_def using assms(2,3) by (intro image_cong) auto
qed

lemma plug_holes_ok:
  assumes S: "heap_shape h (xs @ p # ys)" and free: "\<not> mem_used h p" and l: "lfree h = first_free (heap_mems h) (xs @ p # ys) (heap_end h)"
    and C: "coalesced (heap_mems h) xs" "coalesced (heap_mems h) ys"
    and u: "used_mem h = used_sum (heap_mems h) (xs @ p # ys)" "used_mem h \<le> max_mem h"
    and fi: "roomy (heap_mems h) (xs @ p # ys)"
  shows "\<exists>h' bs'. plug_holes p h = Some h' \<and> heap_inv h' bs' \<and> areas h' bs' = areas h (xs @ p # ys) \<and> heap_ptr h' = heap_ptr h \<and>
    heap_end h' = heap_end h \<and> mem_size_aligned h' = mem_size_aligned h \<and> heap_data h' = heap_data h \<and> \<not> mem_used h' p"
proof -
  note D = heap_shapeD [OF S]
  obtain h1 ys' ms1 hs1 where f: "h1 = h\<lparr>heap_mems := ms1, heap_heads := hs1\<rparr>" "heap_shape h1 (xs @ p # ys')" "coalesced ms1 (p # ys')"
      "filter (blk_used ms1) ys' = filter (blk_used (heap_mems h)) ys"
      "\<And>q. hm_used (ms1 q) = hm_used (heap_mems h q)" "\<And>q. q \<noteq> p \<Longrightarrow> hm_next (ms1 q) = mem_next h q" "plug_forward p h = Some h1"
    using plug_forward_ok [OF S free l C(2)] by auto
  have fr: "\<not> mem_used h1 p" using f(1,5) free by simp
  have x: "first_free ms1 xs e = first_free (heap_mems h) xs e" for e using f(5) by (intro first_free_cong) simp
  have l1: "lfree h1 = first_free (heap_mems h1) (xs @ p # ys') (heap_end h1)"
    using l f(1,5) free x by (simp add: first_free_append first_free_simps)
  have c1: "coalesced (heap_mems h1) xs" using C(1) f(1,5) by (subst coalesced_cong [of _ _ "heap_mems h"]) auto
  have c2: "coalesced (heap_mems h1) (p # ys')" using f(1,3) by simp
  obtain h' zs ms2 hs2 where b: "h' = h1\<lparr>heap_mems := ms2, heap_heads := hs2\<rparr>" "heap_shape h' zs" "coalesced ms2 zs"
      "filter (blk_used ms2) zs = filter (blk_used (heap_mems h1)) (xs @ p # ys')"
      "lfree h1 = first_free ms2 zs (heap_end h1)" "\<And>q. hm_used (ms2 q) = hm_used (heap_mems h1 q)"
      "\<And>q. mem_used h1 q \<Longrightarrow> hm_next (ms2 q) = mem_next h1 q" "plug_backward p h1 = Some h'"
    using plug_backward_ok [OF f(2) fr l1 c1 c2] by auto
  have g: "h' = h\<lparr>heap_mems := ms2, heap_heads := hs2\<rparr>" using b(1) f(1) by simp
  have us: "hm_used (ms2 q) = hm_used (heap_mems h q)" for q using b(6) f(1,5) by simp
  have nx: "hm_next (ms2 q) = mem_next h q" if "mem_used h q" for q
    using b(7) [of q] f(1,5,6) that free by (cases "q = p") auto
  have fl: "filter (blk_used (heap_mems h')) zs = filter (blk_used (heap_mems h)) (xs @ p # ys)"
    using b(4) f(1,4,5) free by (simp add: g us)
  note U = used_same [OF fl]
  have nx': "mem_next h' q = mem_next h q" if "mem_used h q" for q using nx that by (simp add: g)
  have pt: "heap_ptr h' = heap_ptr h" by (simp add: g)
  have "p \<in> heap_heads h" using heap_shape_parts(10) [OF S] by simp
  then have "plug_holes p h = Some h'" using D(10) free f(7) b(8) by (simp add: plug_holes_def)
  moreover have "heap_inv h' zs" unfolding heap_inv_def
    using b(2,3,5) f(1) u U(1) [OF nx' pt] U(3) [OF nx' pt] fi by (simp add: g)
  ultimately show ?thesis using U(2) [OF nx' pt] us free by (intro exI [of _ h'] exI [of _ zs]) (simp add: g)
qed

text \<open>When \<open>p\<close> becomes free, the lowest free block is \<open>p\<close> or what it was.\<close>

lemma first_free_new:
  assumes "\<forall>x \<in> set xs. x < p" "p < e'"
  shows "first_free ms xs p = (if p < first_free ms xs e' then p else first_free ms xs e')"
proof (cases "first_free ms xs p = p")
  case True
  then have "list_all (blk_used ms) xs" using first_free_none assms(1) by blast
  then have "first_free ms xs e = e" for e by (induction xs) (simp_all add: first_free_simps)
  then show ?thesis using assms(2) by simp
next
  case False
  then have "first_free ms xs p < p" using first_free_in [of ms xs p] assms(1) by auto
  moreover have "first_free ms xs e' = first_free ms xs p" by (rule first_free_change [OF False])
  ultimately show ?thesis by simp
qed

text \<open>The heap after \<open>rt_free\<close> has marked the block, before neighbours are joined.\<close>

definition released :: "nat \<Rightarrow> heap \<Rightarrow> heap" where
  "released p h =
    (let h = upd_mem p (\<lambda>m. rt_mem_setname ''    '' (m\<lparr>hm_used := 0, hm_magic := HEAP_MAGIC\<rparr>)) h;
         h = (if p < lfree h then h\<lparr>lfree := p\<rparr> else h)
     in h\<lparr>used_mem := sub64 (used_mem h) (sub64 (mem_next h p) p)\<rparr>)"

lemma released_fields [simp]:
  "heap_mems (released p h) = (heap_mems h)(p := rt_mem_setname ''    '' (heap_mems h p\<lparr>hm_used := 0, hm_magic := HEAP_MAGIC\<rparr>))"
  "heap_end (released p h) = heap_end h" "heap_ptr (released p h) = heap_ptr h" "mem_size_aligned (released p h) = mem_size_aligned h"
  "max_mem (released p h) = max_mem h" "heap_data (released p h) = heap_data h"
  "heap_heads (released p h) = heap_heads h"
  "lfree (released p h) = (if p < lfree h then p else lfree h)"
  "used_mem (released p h) = sub64 (used_mem h) (sub64 (mem_next h p) p)"
  by (simp_all add: released_def upd_mem_def Let_def)

lemma released_ok:
  assumes I: "heap_inv h (xs @ p # ys)" and used: "mem_used h p"
  defines "g \<equiv> released p h"
  shows "heap_shape g (xs @ p # ys)" "lfree g = first_free (heap_mems g) (xs @ p # ys) (heap_end g)"
    "coalesced (heap_mems g) xs" "coalesced (heap_mems g) ys" "used_mem g = used_sum (heap_mems g) (xs @ p # ys)" "used_mem g \<le> max_mem g"
    "roomy (heap_mems g) (xs @ p # ys)"
    "areas g (xs @ p # ys) = areas h (xs @ p # ys) - {(heap_ptr h + p + SIZEOF_STRUCT_MEM, mem_next h p - p - SIZEOF_STRUCT_MEM)}"
proof -
  note H = heap_invD [OF I] and D = heap_shapeD [OF heap_invD(1) [OF I]]
  have "heap_shape (upd_mem p (\<lambda>m. rt_mem_setname ''    '' (m\<lparr>hm_used := 0, hm_magic := HEAP_MAGIC\<rparr>)) h) (xs @ p # ys)"
    by (rule mark_ok [OF H(1)]) (use D(10) in auto)
  then show "heap_shape g (xs @ p # ys)" by (simp add: g_def released_def Let_def shape_stats)
  have same: "heap_mems g q = heap_mems h q" if "q \<in> set xs \<union> set ys" for q using that D(5,6) by (auto simp: g_def)
  have x: "first_free (heap_mems g) xs e = first_free (heap_mems h) xs e" for e using same by (intro first_free_cong) auto
  have "p < first_free (heap_mems h) ys (heap_end h)"
    using first_free_in [of "heap_mems h" ys "heap_end h"] D(3,9,10) by auto
  from first_free_new [OF D(8) this, of "heap_mems h"]
  show "lfree g = first_free (heap_mems g) (xs @ p # ys) (heap_end g)"
    using H(3) used x by (simp add: g_def first_free_append first_free_simps)
  have "coalesced (heap_mems h) xs" "coalesced (heap_mems h) ys"
    using H(2) by (cases ys; simp add: coalesced_append)+
  then show "coalesced (heap_mems g) xs" "coalesced (heap_mems g) ys"
    using same by (subst coalesced_cong [of _ _ "heap_mems h"]; simp)+
  have us: "used_sum (heap_mems g) xs = used_sum (heap_mems h) xs" "used_sum (heap_mems g) ys = used_sum (heap_mems h) ys"
    using same by (auto intro!: used_sum_cong)
  show "roomy (heap_mems g) (xs @ p # ys)"
    using roomy_cong [of xs "heap_mems g" "heap_mems h"] roomy_cong [of ys "heap_mems g" "heap_mems h"] same H(6) by (simp add: g_def)
  have tot: "used_mem h = used_sum (heap_mems h) xs + (mem_next h p - p) + used_sum (heap_mems h) ys" using H(4) used by simp
  have "used_mem h \<le> heap_end h" using used_sum_upper [OF heap_shape_parts(1) [OF H(1)]] H(4) by simp
  then have "used_mem g = used_mem h - (mem_next h p - p)" using D(3,7,13) tot by (simp add: g_def)
  then show "used_mem g = used_sum (heap_mems g) (xs @ p # ys)" "used_mem g \<le> max_mem g"
    using tot us H(5) by (simp_all add: g_def)
  have "areas g xs = areas h xs" "areas g ys = areas h ys" using same by (auto intro!: areas_cong simp: g_def)
  moreover have "(heap_ptr h + p + SIZEOF_STRUCT_MEM, mem_next h p - p - SIZEOF_STRUCT_MEM) \<notin> areas h xs \<union> areas h ys"
    using D(5,6) by (auto simp: areas_def)
  ultimately show "areas g (xs @ p # ys) = areas h (xs @ p # ys) - {(heap_ptr h + p + SIZEOF_STRUCT_MEM, mem_next h p - p - SIZEOF_STRUCT_MEM)}"
    using used by (auto simp: areas_simps g_def)
qed

lemma free_ok:
  assumes ok: "heap_ok h" "k_interrupt_nest k = 0" and a: "(a, n) \<in> live h"
  shows "\<exists>h'. rt_free a h k = Some h' \<and> heap_ok h' \<and> live h' = live h - {(a, n)} \<and> heap_data h' = heap_data h \<and>
    heap_ptr h' = heap_ptr h \<and> heap_end h' = heap_end h \<and> \<not> mem_used h' (a - SIZEOF_STRUCT_MEM - heap_ptr h)"
proof -
  from ok(1) a obtain xs p ys where p: "heap_inv h (xs @ p # ys)" "mem_used h p" "a = heap_ptr h + p + SIZEOF_STRUCT_MEM"
    "n = mem_next h p - p - SIZEOF_STRUCT_MEM" "live h = areas h (xs @ p # ys)" by (rule live_block)
  note D = heap_shapeD [OF heap_invD(1) [OF p(1)]] and E = heap_shape_parts [OF heap_invD(1) [OF p(1)]]
  note R = released_ok [OF p(1,2)]
  have "\<not> mem_used (released p h) p" by simp
  from plug_holes_ok [OF R(1) this R(2,3,4,5,6,7)] obtain h' bs' where
    q: "plug_holes p (released p h) = Some h'" "heap_inv h' bs'" "areas h' bs' = areas (released p h) (xs @ p # ys)"
      "heap_ptr h' = heap_ptr h" "heap_end h' = heap_end h" "mem_size_aligned h' = mem_size_aligned h" "heap_data h' = heap_data h"
      "\<not> mem_used h' p" by auto
  have "a mod 8 = 0" using live_inside(1) [OF ok(1) a] by simp
  moreover have "p + SIZEOF_STRUCT_MEM < heap_end h" using heap_invD(6) [OF p(1)] D(7) p(2) by simp
  moreover have "p \<in> heap_heads h" using E(10) by simp
  ultimately have "rt_free a h k = Some h'"
    using p(2,3) ok(2) E(4) q(1)
    by (simp add: rt_free_def RT_DEBUG_NOT_IN_INTERRUPT_def released_def Let_def) (auto simp: upd_mem_def)
  then show ?thesis using q p ok(1) R(8) heap_okI [OF q(2)] live_eq [OF q(2)] by (auto simp: heap_ok_def)
qed

section \<open>Initialisation, resizing\<close>

lemma init_result:
  assumes "k_interrupt_nest k = 0" "unat b + 7 < 2 ^ 64"
    and sz: "(unat b + 7) div 8 * 8 + 2 * SIZEOF_STRUCT_MEM + d = unat e div 8 * 8" "0 < d"
  shows "\<exists>h'. rt_system_heap_init b e h k = Some h' \<and> heap_ptr h' = (unat b + 7) div 8 * 8 \<and> mem_size_aligned h' = d \<and>
    heap_end h' = d + 32 \<and> lfree h' = 0 \<and> used_mem h' = used_mem h \<and> heap_heads h' = {0, d + 32} \<and>
    hm_magic (heap_mems h' 0) = HEAP_MAGIC \<and> hm_used (heap_mems h' 0) = 0 \<and> mem_next h' 0 = d + 32 \<and> mem_prev h' 0 = 0 \<and>
    hm_used (heap_mems h' (d + 32)) = 1 \<and> mem_next h' (d + 32) = d + 32"
proof -
  define B where "B = RT_ALIGN b 8"
  define E where "E = e AND NOT 7"
  have ba: "unat B = (unat b + 7) div 8 * 8" using assms(2) by (simp add: B_def unat_RT_ALIGN)
  have E8: "e AND - 8 = E" by (simp add: E_def)
  have ea: "unat E = unat e div 8 * 8" unfolding E_def by (rule and_not7)
  have le: "unat B + 64 + d = unat E" using sz ba ea by simp
  have gt: "E > 64" using le sz(2) by (simp add: word_less_nat_alt)
  then have s64: "unat (E - 64) = unat E - 64" by (subst unat_sub) (simp_all add: word_le_nat_alt word_less_nat_alt)
  then have c: "E - 64 \<ge> B" using le by (simp add: word_le_nat_alt)
  then have "unat ((E - 64) - B) = d" by (subst unat_sub) (use s64 le in simp_all)
  then have sub: "unat (E - B - 64) = d" by (simp add: algebra_simps)
  show ?thesis
    using assms(1) gt c sub ba
    by (simp add: rt_system_heap_init_def RT_DEBUG_NOT_IN_INTERRUPT_def upd_mem_def Let_def B_def [symmetric] E8)
qed

lemma init_ok:
  assumes "k_interrupt_nest k = 0" "used_mem h = 0" "unat b + 7 < 2 ^ 64"
    and sz: "(unat b + 7) div 8 * 8 + 2 * SIZEOF_STRUCT_MEM + MIN_SIZE_ALIGNED \<le> unat e div 8 * 8"
  shows "\<exists>h'. rt_system_heap_init b e h k = Some h' \<and> heap_ok h' \<and> live h' = {} \<and> heap_ptr h' = (unat b + 7) div 8 * 8 \<and>
    heap_ptr h' + mem_size_aligned h' + 2 * SIZEOF_STRUCT_MEM = unat e div 8 * 8"
proof -
  define B where "B = (unat b + 7) div 8 * 8"
  define M where "M = unat e div 8 * 8 - B - 64"
  have M: "B + 64 + M = unat e div 8 * 8" "24 \<le> M" using sz by (simp_all add: M_def B_def)
  have "8 dvd M" unfolding M_def B_def by (intro dvd_diff_nat dvd_triv_right) simp
  then have d: "8 dvd M + 32" "8 dvd B" by (simp_all add: B_def)
  have e: "B + 64 + M < 2 ^ 64" using M(1) unsigned_less [of e, where ?'a = nat] by simp
  obtain h' where h': "rt_system_heap_init b e h k = Some h'" "heap_ptr h' = B" "mem_size_aligned h' = M" "heap_end h' = M + 32"
      "lfree h' = 0" "used_mem h' = 0" "heap_heads h' = {0, M + 32}" "hm_magic (heap_mems h' 0) = HEAP_MAGIC"
      "hm_used (heap_mems h' 0) = 0" "mem_next h' 0 = M + 32" "mem_prev h' 0 = 0" "hm_used (heap_mems h' (M + 32)) = 1"
    using init_result [OF assms(1,3), of M e h] M assms(2) by (auto simp: B_def)
  have I: "heap_inv h' [0]" using d e h' by (auto simp: heap_inv_def heap_shape_def first_free_simps)
  have "heap_ok h'" by (rule heap_okI [OF I]) (use h' M in simp)
  moreover have "live h' = {}" using live_eq [OF I] h' by (simp add: areas_simps)
  ultimately show ?thesis using h' M(1) by (auto simp: B_def)
qed

lemma data_irrelevant [simp]:
  "heap_inv (h\<lparr>heap_data := d\<rparr>) bs = heap_inv h bs" "areas (h\<lparr>heap_data := d\<rparr>) bs = areas h bs"
  "walk f (h\<lparr>heap_data := d\<rparr>) p = walk f h p" "heap_blocks (h\<lparr>heap_data := d\<rparr>) = heap_blocks h"
  "heap_ok (h\<lparr>heap_data := d\<rparr>) = heap_ok h" "live (h\<lparr>heap_data := d\<rparr>) = live h"
proof -
  show w: "walk f (h\<lparr>heap_data := d\<rparr>) p = walk f h p" for f p by (induction f arbitrary: p) simp_all
  show "heap_inv (h\<lparr>heap_data := d\<rparr>) bs = heap_inv h bs" "areas (h\<lparr>heap_data := d\<rparr>) bs = areas h bs" for bs
    by (simp_all add: heap_inv_def heap_shape_def areas_def)
  with w show "heap_blocks (h\<lparr>heap_data := d\<rparr>) = heap_blocks h" "heap_ok (h\<lparr>heap_data := d\<rparr>) = heap_ok h" "live (h\<lparr>heap_data := d\<rparr>) = live h"
    by (simp_all add: heap_blocks_def heap_ok_def live_def)
qed

text \<open>Cutting the end off a block in use.\<close>

lemma shrink_ok:
  assumes I: "heap_inv h (xs @ p # ys)" and used: "mem_used h p" and c: "0 < c" "8 dvd c" "p + 2 * SIZEOF_STRUCT_MEM + c \<le> mem_next h p"
  defines "p2 \<equiv> p + SIZEOF_STRUCT_MEM + c"
  defines "g \<equiv> cut_block p p2 (h\<lparr>used_mem := sub64 (used_mem h) (mem_next h p - p - SIZEOF_STRUCT_MEM - c)\<rparr>)"
  defines "g' \<equiv> (if p2 < lfree g then g\<lparr>lfree := p2\<rparr> else g)"
  shows "\<exists>h' bs'. plug_holes p2 g' = Some h' \<and> heap_inv h' bs' \<and> heap_data h' = heap_data h \<and> mem_size_aligned h' = mem_size_aligned h \<and>
    heap_ptr h' = heap_ptr h \<and> heap_end h' = heap_end h \<and>
    areas h' bs' = insert (heap_ptr h + p + SIZEOF_STRUCT_MEM, c)
      (areas h (xs @ p # ys) - {(heap_ptr h + p + SIZEOF_STRUCT_MEM, mem_next h p - p - SIZEOF_STRUCT_MEM)})"
proof -
  define h0 where "h0 = h\<lparr>used_mem := sub64 (used_mem h) (mem_next h p - p - SIZEOF_STRUCT_MEM - c)\<rparr>"
  note H = heap_invD [OF I] and D = heap_shapeD [OF heap_invD(1) [OF I]]
  have S: "heap_shape h0 (xs @ p # ys)" using H(1) by (simp add: h0_def shape_stats)
  have p2: "p + SIZEOF_STRUCT_MEM \<le> p2" "p2 + SIZEOF_STRUCT_MEM \<le> mem_next h0 p" "8 dvd p2"
    using c D(2) by (auto simp: p2_def h0_def elim!: dvdE)
  note P = split_block_ok [OF S p2, unfolded h0_def, folded g_def]
  note F = heap_fields [OF P(7)]
  have m: "heap_mems g' = heap_mems g" "heap_ptr g' = heap_ptr g" by (simp_all add: g'_def)
  have x: "q \<noteq> p2 \<and> q \<noteq> p" if "q \<in> set xs \<union> set ys" for q using that D(3,5,6,8,9) p2 by (fastforce simp: h0_def)
  have pu: "mem_used g p" "hm_used (heap_mems g p) = hm_used (heap_mems h p)" using P(5) [of p] p2(1) used by auto
  have un: "hm_used (heap_mems g q) = hm_used (heap_mems h q) \<and> mem_next g q = mem_next h q" if "q \<in> set xs \<union> set ys" for q
    using x [OF that] P(5,6) by simp
  have S': "heap_shape g' ((xs @ [p]) @ p2 # ys)" using P(1) by (simp add: g'_def shape_stats)
  have fr: "\<not> mem_used g' p2" using P(4) by (simp add: m)
  have fx: "first_free (heap_mems g) xs e = first_free (heap_mems h) xs e" "first_free (heap_mems g) ys e = first_free (heap_mems h) ys e" for e
    using un by (auto intro!: first_free_cong)
  have yp: "p2 < first_free (heap_mems h) ys (heap_end h)"
    using first_free_in [of "heap_mems h" ys "heap_end h"] D(7,9) p2 by (auto simp: h0_def)
  have xp: "\<forall>x \<in> set xs. x < p2" using D(8) p2(1) by fastforce
  have l: "lfree g' = first_free (heap_mems g') ((xs @ [p]) @ p2 # ys) (heap_end g')"
    using first_free_new [OF xp yp, of "heap_mems h"] H(3) used pu fx fr F P(4)
    by (simp add: g'_def first_free_append first_free_simps)
  have "coalesced (heap_mems h) (xs @ [p])" "coalesced (heap_mems h) ys"
    using H(2) by (cases ys; simp add: coalesced_append)+
  then have co: "coalesced (heap_mems g') (xs @ [p])" "coalesced (heap_mems g') ys"
    unfolding m using un pu by (subst coalesced_cong [of _ _ "heap_mems h"]; auto)+
  have us: "used_sum (heap_mems g) xs = used_sum (heap_mems h) xs" "used_sum (heap_mems g) ys = used_sum (heap_mems h) ys"
    using un by (auto intro!: used_sum_cong)
  have tot: "used_mem h = used_sum (heap_mems h) xs + (mem_next h p - p) + used_sum (heap_mems h) ys" using H(4) used by simp
  have "used_mem h \<le> heap_end h" using used_sum_upper [OF heap_shape_parts(1) [OF H(1)]] H(4) by simp
  then have "used_mem g' = used_mem h - (mem_next h p - p - SIZEOF_STRUCT_MEM - c)" using D(13) tot F by (simp add: g'_def)
  then have st: "used_mem g' = used_sum (heap_mems g') ((xs @ [p]) @ p2 # ys)" "used_mem g' \<le> max_mem g'"
    using tot us H(5) F pu P(2,4) c by (simp_all add: m p2_def g'_def)
  have fi: "roomy (heap_mems g') ((xs @ [p]) @ p2 # ys)"
    using roomy_cong [of xs "heap_mems g" "heap_mems h"] roomy_cong [of ys "heap_mems g" "heap_mems h"] un H(6) P(2,4) c(1)
    by (simp add: m p2_def)
  have "areas g' xs = areas h xs" "areas g' ys = areas h ys" using un F by (auto intro!: areas_cong simp: m)
  moreover have "(heap_ptr h + p + SIZEOF_STRUCT_MEM, mem_next h p - p - SIZEOF_STRUCT_MEM) \<notin> areas h xs \<union> areas h ys"
    using D(5,6) by (auto simp: areas_def)
  ultimately have "areas g' ((xs @ [p]) @ p2 # ys) = insert (heap_ptr h + p + SIZEOF_STRUCT_MEM, c)
      (areas h (xs @ p # ys) - {(heap_ptr h + p + SIZEOF_STRUCT_MEM, mem_next h p - p - SIZEOF_STRUCT_MEM)})"
    using used pu P(2,4) F by (auto simp: areas_simps m p2_def)
  with plug_holes_ok [OF S' fr l co st fi] F show ?thesis by (auto simp: g'_def)
qed

text \<open>The bytes of an area in use belong to no header.\<close>

lemma live_mapped:
  assumes "heap_ok h" "(a, n) \<in> live h"
  shows "mapped (heap_bytes h) a n"
proof -
  from assms obtain xs p ys where p: "heap_inv h (xs @ p # ys)" "mem_used h p" "a = heap_ptr h + p + SIZEOF_STRUCT_MEM"
    "n = mem_next h p - p - SIZEOF_STRUCT_MEM" by (rule live_block)
  note D = heap_shapeD [OF heap_invD(1) [OF p(1)]] and E = heap_shape_parts [OF heap_invD(1) [OF p(1)]]
  have "heap_bytes h x = Some (heap_data h x)" if x: "a \<le> x" "x < a + n" for x
  proof -
    have "x < heap_ptr h + mem_next h p" using x p(3,4) D(3) by simp
    moreover have "q \<le> p \<or> mem_next h p \<le> q" if "q \<in> heap_heads h" for q
    proof -
      from that E(10) have "q = heap_end h \<or> q \<in> set xs \<or> q = p \<or> q \<in> set ys" by auto
      then show ?thesis using D(7,8,9) by (auto intro: less_imp_le)
    qed
    ultimately show ?thesis using x(1) p(3) D(7) by (fastforce simp: heap_bytes_def)
  qed
  then show ?thesis by (auto simp: mapped_def)
qed

lemma copy_data_ok:
  assumes ok: "heap_ok h" and l: "(d, k) \<in> live h" "(s, m) \<in> live h" "(d, k) \<noteq> (s, m)" and n: "n \<le> k" "n \<le> m" "n < 2 ^ 31"
  shows "copy_data d s n h = Some (h\<lparr>heap_data := \<lambda>x. if d \<le> x \<and> x < d + n then heap_data h (x - d + s) else heap_data h x\<rparr>)"
proof -
  have u: "unat (of_nat n :: u64) = n" using n(3) by (simp add: unat_of_nat)
  have M: "mapped (heap_bytes h) d n" "mapped (heap_bytes h) s n"
    using live_mapped [OF ok l(1)] live_mapped [OF ok l(2)] n(1,2) mapped_mono by (meson add_le_mono le_refl)+
  moreover have "ahead d s n" using live_disjoint [OF ok l] n(1,2) by (auto simp: ahead_def)
  ultimately have "rt_memcpy d s (of_nat n) (heap_bytes h) = Some (copied d s n (heap_bytes h))"
    using memcpy_copied [of "heap_bytes h" d "of_nat n" s] n(3) unfolding u by blast
  moreover have "heap_bytes h (x - d + s) = Some (heap_data h (x - d + s))" if "d \<le> x" "x < d + n" for x
  proof -
    have "s \<le> x - d + s" "x - d + s < s + n" using that by simp_all
    from mapped_at [OF M(2) this] show ?thesis by (auto simp: heap_bytes_def split: if_splits)
  qed
  then have "(case copied d s n (heap_bytes h) x of Some b \<Rightarrow> b | None \<Rightarrow> heap_data h x) =
      (if d \<le> x \<and> x < d + n then heap_data h (x - d + s) else heap_data h x)" for x
    by (auto simp: copied_def heap_bytes_def)
  ultimately show ?thesis by (simp add: copy_data_def put_bytes_def)
qed

lemma zero_data_ok:
  assumes "heap_ok h" "(d, k) \<in> live h" "unat n \<le> k"
  shows "zero_data d n h = Some (h\<lparr>heap_data := \<lambda>x. if d \<le> x \<and> x < d + unat n then 0 else heap_data h x\<rparr>)"
proof -
  have "mapped (heap_bytes h) d (unat n)" using live_mapped [OF assms(1,2)] assms(3) mapped_mono by (meson add_le_mono le_refl)
  from memset_filled [OF this, of 0] have "rt_memset d 0 n (heap_bytes h) = Some (Kstring.filled d (unat n) (\<lambda>_. 0) (heap_bytes h))" by simp
  moreover have "(case Kstring.filled d (unat n) (\<lambda>_. 0) (heap_bytes h) x of Some b \<Rightarrow> b | None \<Rightarrow> heap_data h x) =
      (if d \<le> x \<and> x < d + unat n then 0 else heap_data h x)" for x
    by (auto simp: Kstring.filled_def heap_bytes_def)
  ultimately show ?thesis by (simp add: zero_data_def put_bytes_def)
qed

text \<open>What \<open>rt_realloc\<close> promises when the area has a new place: the bytes that fit move with it, all other areas keep theirs.\<close>

definition moved :: "nat \<Rightarrow> nat \<Rightarrow> nat \<Rightarrow> nat \<Rightarrow> heap \<Rightarrow> heap \<Rightarrow> bool" where
  "moved a n a' c h h' \<longleftrightarrow> (\<exists>n'. c \<le> n' \<and> live h' = insert (a', n') (live h - {(a, n)})) \<and>
    (\<forall>i < min c n. heap_data h' (a' + i) = heap_data h (a + i)) \<and>
    (\<forall>(b, m) \<in> live h - {(a, n)}. \<forall>i < m. heap_data h' (b + i) = heap_data h (b + i))"

lemma request_size_align: "unat (RT_ALIGN s 8) + 7 < 2 ^ 64 \<Longrightarrow> unat (RT_ALIGN s 8) \<le> request_size (RT_ALIGN s 8)"
  by (rule request_size_ge)

lemma realloc_by_copy:
  assumes ok: "heap_ok h" "k_interrupt_nest k = 0" and a: "(a, n) \<in> live h" and c: "w \<noteq> 0" "unat w \<le> request_size w"
    and small: "min (unat w) n < 2 ^ 31"
  shows "\<exists>a' h'. (do {
      (nmem, h) \<leftarrow> rt_malloc w h k;
      if nmem \<noteq> 0 then do {
        h \<leftarrow> copy_data nmem a (if n < unat w then n else unat w) h;
        h \<leftarrow> rt_free a h k;
        Some (nmem, h)
      } else Some (nmem, h) }) = Some (a', h') \<and> heap_ok h' \<and> heap_ptr h' = heap_ptr h \<and> heap_end h' = heap_end h \<and>
    (if a' = 0 then h' = h else moved a n a' (unat w) h h')"
proof -
  obtain a' h1 where m: "rt_malloc w h k = Some (a', h1)" "heap_ok h1" "heap_data h1 = heap_data h"
      "a' = 0 \<and> h1 = h \<or> a' \<noteq> 0 \<and> (\<exists>n'. request_size w \<le> n' \<and> live h1 = insert (a', n') (live h) \<and> (a', n') \<notin> live h)"
      "heap_ptr h1 = heap_ptr h" "heap_end h1 = heap_end h"
    using malloc_ok [OF ok c(1)] by (auto split: if_splits)
  show ?thesis
  proof (cases "a' = 0")
    case True
    with m ok(1) show ?thesis by simp
  next
    case False
    with m(4) obtain n' where n: "request_size w \<le> n'" "live h1 = insert (a', n') (live h)" "(a', n') \<notin> live h" by auto
    define l where "l = (if n < unat w then n else unat w)"
    define h2 where "h2 = h1\<lparr>heap_data := \<lambda>x. if a' \<le> x \<and> x < a' + l then heap_data h1 (x - a' + a) else heap_data h1 x\<rparr>"
    have l: "l \<le> n'" "l \<le> n" "l < 2 ^ 31" "l = min (unat w) n" using n(1) c(2) small by (auto simp: l_def)
    have h2: "heap_ok h2" "live h2 = live h1" "heap_ptr h2 = heap_ptr h1" "heap_end h2 = heap_end h1" using m(2) by (simp_all add: h2_def)
    have "(a', n') \<in> live h1" "(a, n) \<in> live h1" "(a', n') \<noteq> (a, n)" using n a by auto
    from copy_data_ok [OF m(2) this l(1-3)] have cp: "copy_data a' a l h1 = Some h2" by (simp add: h2_def)
    have d2: "heap_data h2 x = (if a' \<le> x \<and> x < a' + min n (unat w) then heap_data h (x - a' + a) else heap_data h x)" for x
      by (auto simp: h2_def m(3) l(4))
    have "(a, n) \<in> live h2" using a h2 n by simp
    from free_ok [OF h2(1) ok(2) this] obtain h' where
      f: "rt_free a h2 k = Some h'" "heap_ok h'" "live h' = live h2 - {(a, n)}" "heap_data h' = heap_data h2"
        "heap_ptr h' = heap_ptr h2" "heap_end h' = heap_end h2" by auto
    have dis: "a' + n' \<le> b \<or> b + l \<le> a'" if "(b, l) \<in> live h" for b l
      using live_disjoint [OF m(2), of a' n' b l] n that by auto
    have "heap_data h' (a' + i) = heap_data h (a + i)" if "i < min (unat w) n" for i
      using that by (simp add: f d2 add.commute)
    moreover have "heap_data h' (b + i) = heap_data h (b + i)" if "(b, l) \<in> live h" "i < l" for b l i
      using dis [OF that(1)] that(2) n(1) c(2) by (auto simp: f d2)
    moreover have "live h' = insert (a', n') (live h - {(a, n)})" using f(3) h2 n a by auto
    moreover have "unat w \<le> n'" using n(1) c(2) by simp
    ultimately have "moved a n a' (unat w) h h'" unfolding moved_def by blast
    moreover have "heap_ptr h' = heap_ptr h" "heap_end h' = heap_end h" using f(5,6) h2(3,4) m(5,6) by simp_all
    ultimately show ?thesis using False m(1) f(1,2) cp by (simp add: l_def)
  qed
qed

lemma moved_same: "(a, n) \<in> live h \<Longrightarrow> c \<le> n \<Longrightarrow> moved a n a c h h"
  unfolding moved_def by (auto intro: exI [of _ n])

lemma realloc_ok:
  fixes s :: u64
  assumes ok: "heap_ok h" "k_interrupt_nest k = 0" and a: "(a, n) \<in> live h" and small: "min (unat (RT_ALIGN s 8)) n < 2 ^ 31"
  defines "c \<equiv> unat (RT_ALIGN s 8)"
  shows "\<exists>a' h'. rt_realloc a s h k = Some (a', h') \<and> heap_ok h' \<and> heap_ptr h' = heap_ptr h \<and> heap_end h' = heap_end h \<and>
    (if c = 0 then a' = 0 \<and> live h' = live h - {(a, n)} else if a' = 0 then h' = h else moved a n a' c h h')"
proof -
  from ok(1) a obtain xs p ys where p: "heap_inv h (xs @ p # ys)" "mem_used h p" "a = heap_ptr h + p + SIZEOF_STRUCT_MEM"
    "n = mem_next h p - p - SIZEOF_STRUCT_MEM" "live h = areas h (xs @ p # ys)" by (rule live_block)
  note D = heap_shapeD [OF heap_invD(1) [OF p(1)]] and E = heap_shape_parts [OF heap_invD(1) [OF p(1)]]
  have M: "MIN_SIZE_ALIGNED \<le> mem_size_aligned h" using ok(1) by (simp add: heap_ok_def)
  have n0: "p + SIZEOF_STRUCT_MEM < mem_next h p" using heap_invD(6) [OF p(1)] p(2) by simp
  have sz: "sub64 (sub64 (mem_next h p) p) SIZEOF_STRUCT_MEM = n" using D(3,7,13) p(4) by simp
  have rng: "\<not> (a < heap_ptr h \<or> a \<ge> heap_ptr h + heap_end h)" "\<not> a < heap_ptr h + SIZEOF_STRUCT_MEM" "a \<noteq> 0"
      "a - SIZEOF_STRUCT_MEM - heap_ptr h = p" using p(3) n0 D(7) by auto
  have c8: "8 dvd c" by (simp add: c_def unat_RT_ALIGN)
  have ph: "p \<in> heap_heads h" using E(10) by simp
  consider "c > mem_size_aligned h" | "c = 0" | "c \<le> mem_size_aligned h" "c \<noteq> 0" "n = c" |
    "c \<le> mem_size_aligned h" "c \<noteq> 0" "c + SIZEOF_STRUCT_MEM + MIN_SIZE < n" |
    "c \<le> mem_size_aligned h" "c \<noteq> 0" "n \<noteq> c" "\<not> c + SIZEOF_STRUCT_MEM + MIN_SIZE < n" by linarith
  then show ?thesis
  proof cases
    case 1
    then show ?thesis using ok M by (simp add: rt_realloc_def RT_DEBUG_NOT_IN_INTERRUPT_def c_def [symmetric])
  next
    case 2
    then show ?thesis using free_ok [OF ok a] ok(2) by (auto simp: rt_realloc_def RT_DEBUG_NOT_IN_INTERRUPT_def c_def [symmetric])
  next
    case 3
    have "rt_realloc a s h k = Some (a, h)"
      using 3 ok(2) rng sz ph by (simp add: rt_realloc_def RT_DEBUG_NOT_IN_INTERRUPT_def c_def [symmetric] Let_def)
    with 3 ok(1) rng(3) moved_same [OF a] show ?thesis by simp
  next
    case 4
    then have c0: "0 < c" by simp
    have "p + 2 * SIZEOF_STRUCT_MEM + c \<le> mem_next h p" using 4 p(4) by simp
    from shrink_ok [OF p(1,2) c0 c8 this] obtain h' bs' where
      h': "plug_holes (p + SIZEOF_STRUCT_MEM + c)
         (let h = cut_block p (p + SIZEOF_STRUCT_MEM + c) (h\<lparr>used_mem := sub64 (used_mem h) (n - c)\<rparr>)
          in if p + SIZEOF_STRUCT_MEM + c < lfree h then h\<lparr>lfree := p + SIZEOF_STRUCT_MEM + c\<rparr> else h) = Some h'"
        "heap_inv h' bs'" "heap_data h' = heap_data h" "mem_size_aligned h' = mem_size_aligned h" "areas h' bs' = insert (a, c) (live h - {(a, n)})"
        "heap_ptr h' = heap_ptr h" "heap_end h' = heap_end h"
      unfolding p(3,4,5) Let_def by blast
    have "heap_shape (h\<lparr>used_mem := u\<rparr>) (xs @ p # ys)" for u using heap_invD(1) [OF p(1)] by (simp add: shape_stats)
    note sp = split_block_eq [OF this, of "p + SIZEOF_STRUCT_MEM + c"]
    have "rt_realloc a s h k = Some (a, h')"
      using 4 ok(2) rng sz ph h'(1) p(4) sp by (simp add: rt_realloc_def RT_DEBUG_NOT_IN_INTERRUPT_def c_def [symmetric] Let_def)
    moreover have "moved a n a c h h'" unfolding moved_def using h'(3,5) live_eq [OF h'(2)] by auto
    ultimately show ?thesis using 4 rng(3) heap_okI [OF h'(2)] h'(4,6,7) M by simp
  next
    case 5
    have "unat (RT_ALIGN s 8) + 7 < 2 ^ 64" using 5(1) E(6,9) by (simp add: c_def)
    note R = request_size_align [OF this]
    have "RT_ALIGN s 8 \<noteq> 0" using 5(2) by (auto simp: c_def)
    note Q = realloc_by_copy [OF ok a this R small]
    have "rt_realloc a s h k = (do {
      (nmem, h) \<leftarrow> rt_malloc (RT_ALIGN s 8) h k;
      if nmem \<noteq> 0 then do {
        h \<leftarrow> copy_data nmem a (if n < unat (RT_ALIGN s 8) then n else unat (RT_ALIGN s 8)) h;
        h \<leftarrow> rt_free a h k;
        Some (nmem, h)
      } else Some (nmem, h) })"
      using 5 [unfolded c_def] ok(2) rng sz ph by (simp add: rt_realloc_def RT_DEBUG_NOT_IN_INTERRUPT_def Let_def cong: if_cong)
    with Q 5(2) show ?thesis unfolding c_def by presburger
  qed
qed

section \<open>The allocator as an interface\<close>

text \<open>A client that frees and resizes only areas it was given.\<close>

inductive session :: "('s \<Rightarrow> (nat \<times> nat) set) \<Rightarrow> (u64 \<Rightarrow> 's \<Rightarrow> (nat \<times> 's) option) \<Rightarrow> (nat \<Rightarrow> 's \<Rightarrow> 's option) \<Rightarrow>
    (nat \<Rightarrow> u64 \<Rightarrow> 's \<Rightarrow> (nat \<times> 's) option) \<Rightarrow> 's \<Rightarrow> 's \<Rightarrow> bool" for areas_of alloc release resize s where
  start: "session areas_of alloc release resize s s"
| alloc: "session areas_of alloc release resize s s1 \<Longrightarrow> alloc r s1 = Some (a, s2) \<Longrightarrow> session areas_of alloc release resize s s2"
| release: "session areas_of alloc release resize s s1 \<Longrightarrow> (a, n) \<in> areas_of s1 \<Longrightarrow> release a s1 = Some s2 \<Longrightarrow>
    session areas_of alloc release resize s s2"
| resize: "session areas_of alloc release resize s s1 \<Longrightarrow> (a, n) \<in> areas_of s1 \<Longrightarrow> resize a r s1 = Some (a', s2) \<Longrightarrow>
    session areas_of alloc release resize s s2"

locale allocator =
  fixes ok :: "'s \<Rightarrow> bool" and areas_of :: "'s \<Rightarrow> (nat \<times> nat) set" and alloc :: "u64 \<Rightarrow> 's \<Rightarrow> (nat \<times> 's) option"
    and release :: "nat \<Rightarrow> 's \<Rightarrow> 's option" and resize :: "nat \<Rightarrow> u64 \<Rightarrow> 's \<Rightarrow> (nat \<times> 's) option"
  assumes alloc_law: "ok s \<Longrightarrow> \<exists>a s'. alloc r s = Some (a, s') \<and> ok s' \<and>
      (a = 0 \<and> s' = s \<or> a \<noteq> 0 \<and> (\<exists>n. (a, n) \<notin> areas_of s \<and> areas_of s' = insert (a, n) (areas_of s)))"
    and release_law: "ok s \<Longrightarrow> (a, n) \<in> areas_of s \<Longrightarrow> \<exists>s'. release a s = Some s' \<and> ok s' \<and> areas_of s' = areas_of s - {(a, n)}"
    and resize_law: "ok s \<Longrightarrow> (a, n) \<in> areas_of s \<Longrightarrow> \<exists>a' s'. resize a r s = Some (a', s') \<and> ok s'"
begin

lemma session_ok: "session areas_of alloc release resize s s' \<Longrightarrow> ok s \<Longrightarrow> ok s'"
proof (induction rule: session.induct)
  case (alloc s1 r a s2)
  with alloc_law [of s1 r] show ?case by auto
next
  case (release s1 a n s2)
  with release_law [of s1 a n] show ?case by auto
next
  case (resize s1 a n r a' s2)
  with resize_law [of s1 a n r] show ?case by auto
qed

lemma session_total:
  assumes "session areas_of alloc release resize s s'" "ok s"
  shows "alloc r s' \<noteq> None" "(a, n) \<in> areas_of s' \<Longrightarrow> release a s' \<noteq> None" "(a, n) \<in> areas_of s' \<Longrightarrow> resize a r s' \<noteq> None"
  using session_ok [OF assms] alloc_law [of s' r] release_law [of s' a n] resize_law [of s' a n r] by auto

lemma alloc_release:
  assumes "ok s" "alloc r s = Some (a, s')" "a \<noteq> 0"
  shows "\<exists>s''. release a s' = Some s'' \<and> ok s'' \<and> areas_of s'' = areas_of s"
proof -
  from alloc_law [OF assms(1), of r] assms(2,3) obtain n where n: "ok s'" "(a, n) \<notin> areas_of s" "areas_of s' = insert (a, n) (areas_of s)"
    by auto
  with release_law [of s' a n] show ?thesis by auto
qed

end

text \<open>The system heap is an allocator, if it is smaller than 2 gigabytes and the calls are made outside of interrupt handlers.\<close>

definition in_thread :: "kernel \<Rightarrow> kernel" where
  "in_thread k = k\<lparr>k_interrupt_nest := 0\<rparr>"

lemma in_thread_id [simp]: "k_interrupt_nest k = 0 \<Longrightarrow> in_thread k = k" "k_interrupt_nest (in_thread k) = 0"
  by (simp_all add: in_thread_def)

definition heap_at :: "nat \<Rightarrow> nat \<Rightarrow> heap \<Rightarrow> bool" where
  "heap_at b e h \<longleftrightarrow> heap_ok h \<and> heap_ptr h = b \<and> heap_end h = e \<and> e < 2 ^ 31"

interpretation sysheap: allocator "heap_at b e" live "\<lambda>s h. rt_malloc s h (in_thread k)" "\<lambda>a h. rt_free a h (in_thread k)"
    "\<lambda>a s h. rt_realloc a s h (in_thread k)" for b e k
proof unfold_locales
  fix h s assume h: "heap_at b e h"
  show "\<exists>a h'. rt_malloc s h (in_thread k) = Some (a, h') \<and> heap_at b e h' \<and>
    (a = 0 \<and> h' = h \<or> a \<noteq> 0 \<and> (\<exists>n. (a, n) \<notin> live h \<and> live h' = insert (a, n) (live h)))"
  proof (cases "s = 0")
    case True
    with h show ?thesis by (simp add: rt_malloc_def)
  next
    case False
    from malloc_ok [OF _ in_thread_id(2) False, of h k] h show ?thesis
      unfolding heap_at_def by (auto split: if_splits)
  qed
next
  fix h a n assume "heap_at b e h" "(a, n) \<in> live h"
  then show "\<exists>h'. rt_free a h (in_thread k) = Some h' \<and> heap_at b e h' \<and> live h' = live h - {(a, n)}"
    using free_ok [of h "in_thread k" a n] by (auto simp: heap_at_def)
next
  fix h a n s assume h: "heap_at b e h" "(a, n) \<in> live h"
  then have "min (unat (RT_ALIGN s 8)) n < 2 ^ 31" using live_inside(2,3) [of h a n] by (auto simp: heap_at_def)
  with h realloc_ok [of h "in_thread k" a n s] show "\<exists>a' h'. rt_realloc a s h (in_thread k) = Some (a', h') \<and> heap_at b e h'"
    by (auto simp: heap_at_def)
qed

text \<open>The consistency check of the shell accepts every heap that satisfies the invariant.\<close>

lemma memcheck_walk_ok:
  assumes "path (heap_mems h) x bs (heap_end h)" "heap_end h = mem_size_aligned h + SIZEOF_STRUCT_MEM" "heap_end h < 2 ^ 31"
    and "\<And>p. p \<in> set bs \<Longrightarrow> p \<in> heap_heads h \<and> hm_magic (heap_mems h p) = HEAP_MAGIC \<and> hm_used (heap_mems h p) \<in> {0, 1}"
  shows "memcheck_walk h x = Some False"
  using assms(1,4)
proof (induction bs arbitrary: x)
  case Nil
  then show ?case by (subst memcheck_walk.simps) simp
next
  case (Cons b bs)
  then have P: "b = x" "x + 32 \<le> mem_next h x" "path (heap_mems h) (mem_next h x) bs (heap_end h)" by auto
  have x: "x \<le> mem_size_aligned h" "x < heap_end h" using P(2) path_range [OF P(3)] assms(2) by auto
  have i: "sint (of_nat n :: u32) = int n" if "n < 2 ^ 31" for n
    using that by (simp add: sint_uint signed_take_bit_int_eq_self uint_nat unat_of_nat)
  have "memcheck_walk h (mem_next h x) = Some False" using Cons.IH P(3) Cons.prems(2) by simp
  with Cons.prems(2) [of x] P(1) x assms(2,3) show ?case by (subst memcheck_walk.simps) (auto simp: i)
qed

lemma memcheck_ok: "heap_ok h \<Longrightarrow> heap_end h < 2 ^ 31 \<Longrightarrow> memcheck h = Some False"
  unfolding memcheck_def using heap_shape_parts [of h "heap_blocks h"]
  by (intro memcheck_walk_ok [of _ _ "heap_blocks h"]) (auto simp: heap_ok_def heap_inv_def)

section \<open>Properties\<close>

text \<open>C5: A heap that \<open>rt_system_heap_init\<close> set up over at least 88 bytes (what is left of the range after aligning both ends to 8) and less
  than 2 gigabytes serves every sequence of \<open>rt_malloc\<close>, \<open>rt_free\<close> and \<open>rt_realloc\<close> calls outside of interrupts
  that frees and resizes only areas in use: every call returns, no call fails an assertion, reads or writes a header at a place that
  holds none, or copies over a header, and at every moment the areas in use are aligned to 8 bytes, lie inside the range given and do not overlap. On a heap with 8 or
  16 bytes of data the search of \<open>rt_malloc\<close> does not end, and \<open>rt_realloc\<close> cannot copy \<open>2^31\<close> bytes, so both bounds are needed.\<close>

theorem heap_session:
  assumes "k_interrupt_nest k = 0" "used_mem h = 0" "unat b + 7 < 2 ^ 64"
    and "(unat b + 7) div 8 * 8 + 88 \<le> unat e div 8 * 8" "unat e < unat b + 2 ^ 31"
  shows "\<exists>h1. rt_system_heap_init b e h k = Some h1 \<and> live h1 = {} \<and>
    (\<forall>h2. session live (\<lambda>s h. rt_malloc s h k) (\<lambda>a h. rt_free a h k) (\<lambda>a s h. rt_realloc a s h k) h1 h2 \<longrightarrow>
      (\<forall>s. rt_malloc s h2 k \<noteq> None) \<and>
      (\<forall>(a, n) \<in> live h2. rt_free a h2 k \<noteq> None \<and> (\<forall>s. rt_realloc a s h2 k \<noteq> None) \<and>
         8 dvd a \<and> unat b \<le> a \<and> a + n \<le> unat e \<and>
         (\<forall>(a', n') \<in> live h2. (a', n') \<noteq> (a, n) \<longrightarrow> a + n \<le> a' \<or> a' + n' \<le> a)))"
proof -
  let ?B = "(unat b + 7) div 8 * 8"
  from init_ok [OF assms(1-3), of e] assms(4) obtain h1 where
    i: "rt_system_heap_init b e h k = Some h1" "heap_ok h1" "live h1 = {}" "heap_ptr h1 = ?B"
      "heap_ptr h1 + mem_size_aligned h1 + 64 = unat e div 8 * 8" by auto
  have "heap_end h1 = mem_size_aligned h1 + 32" using i(2) heap_shape_parts(6) by (auto simp: heap_ok_def heap_inv_def)
  then have B: "unat b \<le> heap_ptr h1" "heap_ptr h1 + heap_end h1 \<le> unat e" using i(4,5) by linarith+
  have at: "heap_at (heap_ptr h1) (heap_end h1) h1" using i(2) B assms(5) by (simp add: heap_at_def)
  have k: "in_thread k = k" using assms(1) by simp
  note S = sysheap.session_ok [where k = k, unfolded k, OF _ at] sysheap.session_total [where k = k, unfolded k, OF _ at]
  show ?thesis
  proof (intro exI [of _ h1] conjI allI impI)
    fix h2 s assume r: "session live (\<lambda>s h. rt_malloc s h k) (\<lambda>a h. rt_free a h k) (\<lambda>a s h. rt_realloc a s h k) h1 h2"
    show "rt_malloc s h2 k \<noteq> None" by (rule S(2) [OF r])
    from S(1) [OF r] have h2: "heap_ok h2" "heap_ptr h2 = heap_ptr h1" "heap_end h2 = heap_end h1" by (simp_all add: heap_at_def)
    have "rt_free a h2 k \<noteq> None \<and> (\<forall>s. rt_realloc a s h2 k \<noteq> None) \<and> 8 dvd a \<and> unat b \<le> a \<and> a + n \<le> unat e \<and>
         (\<forall>(a', n') \<in> live h2. (a', n') \<noteq> (a, n) \<longrightarrow> a + n \<le> a' \<or> a' + n' \<le> a)" if l: "(a, n) \<in> live h2" for a n
      using S(3,4) [OF r l] live_inside [OF h2(1) l] live_disjoint [OF h2(1) l] B h2 by auto
    then show "\<forall>(a, n) \<in> live h2. rt_free a h2 k \<noteq> None \<and> (\<forall>s. rt_realloc a s h2 k \<noteq> None) \<and>
         8 dvd a \<and> unat b \<le> a \<and> a + n \<le> unat e \<and>
         (\<forall>(a', n') \<in> live h2. (a', n') \<noteq> (a, n) \<longrightarrow> a + n \<le> a' \<or> a' + n' \<le> a)" by blast
  qed (use i in simp_all)
qed

definition mem0 :: heap_mem where
  "mem0 = \<lparr>hm_magic = 0, hm_used = 0, hm_next = 0, hm_prev = 0, hm_thread = []\<rparr>"

definition heap0 :: heap where
  "heap0 = \<lparr>heap_ptr = 0, heap_end = 0, lfree = 0, mem_size_aligned = 0, used_mem = 0, max_mem = 0,
     heap_heads = {}, heap_mems = (\<lambda>_. mem0), heap_data = (\<lambda>_. 0)\<rparr>"

theorem heap_session_witness:
  "\<exists>h1. rt_system_heap_init 0x1001 0x1101 heap0 kernel0 = Some h1 \<and> live h1 = {} \<and> rt_malloc 10 h1 kernel0 \<noteq> None"
proof -
  have "k_interrupt_nest kernel0 = 0" "used_mem heap0 = 0" by (simp_all add: kernel0_def heap0_def)
  from heap_session [OF this, of "0x1001" "0x1101"] session.start show ?thesis by fastforce
qed

text \<open>C30: A request of \<open>rt_malloc\<close> for \<open>s\<close> bytes (not 0, and less than \<open>2^64 - 7\<close>, so that rounding does not wrap) is rounded up to a multiple of 8 bytes and
  to at least 24. If a free block has room for the rounded size, and its offset plus the rounded size is less than the size of the
  data part of the heap (the loop condition; the exact rest at the very end is left out), the result is a new area that is at
  least as long as the rounded size and less than 56 bytes longer, overlaps no area in use, and all
  other areas and their data stay as they are. Otherwise the result is null and the heap is unchanged.\<close>

theorem malloc_correct:
  assumes "heap_ok h" "k_interrupt_nest k = 0" "0 < unat s" "unat s + 7 < 2 ^ 64"
  shows "\<exists>a h'. rt_malloc s h k = Some (a, h') \<and> heap_ok h' \<and> heap_data h' = heap_data h \<and>
    (if \<exists>p \<in> set (heap_blocks h). \<not> mem_used h p \<and> p + 32 + max 24 ((unat s + 7) div 8 * 8) \<le> mem_next h p \<and>
        p + max 24 ((unat s + 7) div 8 * 8) < mem_size_aligned h
     then a \<noteq> 0 \<and> (\<exists>n. max 24 ((unat s + 7) div 8 * 8) \<le> n \<and> n < max 24 ((unat s + 7) div 8 * 8) + 56 \<and>
       live h' = insert (a, n) (live h) \<and> (\<forall>(b, m) \<in> live h. a + n \<le> b \<or> b + m \<le> a))
     else a = 0 \<and> h' = h)"
proof -
  have s: "s \<noteq> 0" using assms(3) by auto
  have sz: "request_size s = max 24 ((unat s + 7) div 8 * 8)" using assms(4) by (simp add: request_size_def unat_RT_ALIGN)
  have dis: "a + n \<le> b \<or> b + m \<le> a"
    if "heap_ok h'" "live h' = insert (a, n) (live h)" "(a, n) \<notin> live h" "(b, m) \<in> live h" for a b n m h'
    using live_disjoint [OF that(1), of a n b m] that by auto
  obtain a h' where m: "rt_malloc s h k = Some (a, h')" "heap_ok h'" "heap_data h' = heap_data h"
    "if \<exists>p \<in> set (heap_blocks h). fits h (request_size s) p
     then a \<noteq> 0 \<and> (\<exists>n. request_size s \<le> n \<and> n < request_size s + 56 \<and> live h' = insert (a, n) (live h) \<and> (a, n) \<notin> live h)
     else a = 0 \<and> h' = h" using malloc_ok [OF assms(1,2) s] by blast
  show ?thesis
  proof (cases "\<exists>p \<in> set (heap_blocks h). fits h (request_size s) p")
    case True
    with m(4) obtain n where n: "a \<noteq> 0" "request_size s \<le> n" "live h' = insert (a, n) (live h)" "(a, n) \<notin> live h" "n < request_size s + 56"
      by auto
    have "\<forall>(b, m) \<in> live h. a + n \<le> b \<or> b + m \<le> a" using dis [OF m(2) n(3,4)] by blast
    then show ?thesis using True m(1-3) n unfolding fits_def sz by (auto intro!: exI [of _ n])
  next
    case False
    with m show ?thesis unfolding fits_def sz by auto
  qed
qed

text \<open>A heap of 192 bytes at address 4096 with one area of 40 bytes in use.\<close>

definition sample_heap :: heap where
  "sample_heap = \<lparr>heap_ptr = 4096, heap_end = 224, lfree = 72, mem_size_aligned = 192, used_mem = 72, max_mem = 72, heap_heads = {0, 72, 224},
     heap_mems = (\<lambda>_. mem0)(0 := \<lparr>hm_magic = HEAP_MAGIC, hm_used = 1, hm_next = 72, hm_prev = 0, hm_thread = []\<rparr>,
       72 := \<lparr>hm_magic = HEAP_MAGIC, hm_used = 0, hm_next = 224, hm_prev = 0, hm_thread = []\<rparr>,
       224 := \<lparr>hm_magic = HEAP_MAGIC, hm_used = 1, hm_next = 224, hm_prev = 224, hm_thread = []\<rparr>), heap_data = (\<lambda>a. of_nat a)\<rparr>"

lemma sample_heap_inv: "heap_inv sample_heap [0, 72]"
  by (auto simp: heap_inv_def heap_shape_def sample_heap_def first_free_simps)

lemma sample_heap_ok: "heap_ok sample_heap" "heap_blocks sample_heap = [0, 72]" "live sample_heap = {(4128, 40)}"
proof -
  show "heap_ok sample_heap" by (rule heap_okI [OF sample_heap_inv]) (simp add: sample_heap_def)
  show "heap_blocks sample_heap = [0, 72]" by (rule heap_blocks_eq [OF sample_heap_inv])
  show "live sample_heap = {(4128, 40)}"
    unfolding live_eq [OF sample_heap_inv] by (simp add: areas_simps sample_heap_def)
qed

lemma kernel0_thread: "k_interrupt_nest kernel0 = 0"
  by (simp add: kernel0_def)

theorem malloc_correct_witness:
  "\<exists>a h' n. rt_malloc 50 sample_heap kernel0 = Some (a, h') \<and> a \<noteq> 0 \<and> 56 \<le> n \<and> n < 112 \<and> live h' = {(a, n), (4128, 40)}"
proof -
  have "\<exists>p \<in> set (heap_blocks sample_heap). \<not> mem_used sample_heap p \<and> p + 32 + max 24 ((unat (50 :: u64) + 7) div 8 * 8) \<le> mem_next sample_heap p \<and>
        p + max 24 ((unat (50 :: u64) + 7) div 8 * 8) < mem_size_aligned sample_heap"
    unfolding sample_heap_ok(2) by (simp add: sample_heap_def)
  with malloc_correct [OF sample_heap_ok(1) kernel0_thread, of 50] show ?thesis unfolding sample_heap_ok(3) by auto
qed

text \<open>Freeing what \<open>rt_malloc\<close> returned brings back the areas in use from before the allocation, and the heap is joined
  again and its statistics are right.\<close>

theorem malloc_free_roundtrip:
  assumes "heap_ok h" "k_interrupt_nest k = 0" "rt_malloc s h k = Some (a, h')" "a \<noteq> 0"
  shows "\<exists>h''. rt_free a h' k = Some h'' \<and> heap_ok h'' \<and> live h'' = live h"
proof -
  have "s \<noteq> 0" using assms(3,4) by (auto simp: rt_malloc_def)
  with malloc_ok [OF assms(1,2), of s] assms(3,4) obtain n where n: "heap_ok h'" "live h' = insert (a, n) (live h)" "(a, n) \<notin> live h"
    by (auto split: if_splits)
  with free_ok [OF n(1) assms(2), of a n] show ?thesis by auto
qed

theorem malloc_free_roundtrip_witness:
  "\<exists>a h' h''. rt_malloc 50 sample_heap kernel0 = Some (a, h') \<and> rt_free a h' kernel0 = Some h'' \<and> live h'' = {(4128, 40)}"
proof -
  have "\<exists>p \<in> set (heap_blocks sample_heap). fits sample_heap (request_size 50) p"
    unfolding sample_heap_ok(2) by (simp add: sample_heap_def fits_def request_size_def unat_RT_ALIGN)
  then obtain a h' where "rt_malloc 50 sample_heap kernel0 = Some (a, h')" "a \<noteq> 0"
    using malloc_ok [OF sample_heap_ok(1) kernel0_thread, of 50] by auto
  with malloc_free_roundtrip [OF sample_heap_ok(1) kernel0_thread this] show ?thesis unfolding sample_heap_ok(3) by auto
qed

text \<open>C31: \<open>rt_realloc\<close> of an area in use, when the new size or the old one is below \<open>2^31\<close> bytes (\<open>rt_memcpy\<close> keeps the count in an
  \<open>int\<close>): a size that is rounded up to 0 frees the area and returns null; otherwise the result is null
  and nothing has changed, or the area has at least the new size, at its old place or at a new one, its first bytes, copied
  by the words and bytes of \<open>rt_memcpy\<close>, are those of the old area, and the bytes of all other areas are as before.\<close>

theorem realloc_keeps_data:
  assumes "heap_ok h" "k_interrupt_nest k = 0" "(a, n) \<in> live h" "min (unat (RT_ALIGN s 8)) n < 2 ^ 31"
  shows "\<exists>a' h'. rt_realloc a s h k = Some (a', h') \<and> heap_ok h' \<and>
    (if unat (RT_ALIGN s 8) = 0 then a' = 0 \<and> live h' = live h - {(a, n)}
     else if a' = 0 then h' = h
     else (\<exists>n' \<ge> unat (RT_ALIGN s 8). live h' = insert (a', n') (live h - {(a, n)})) \<and>
       (\<forall>i < min (unat (RT_ALIGN s 8)) n. heap_data h' (a' + i) = heap_data h (a + i)) \<and>
       (\<forall>(b, m) \<in> live h - {(a, n)}. \<forall>i < m. heap_data h' (b + i) = heap_data h (b + i)))"
  using realloc_ok [OF assms] unfolding moved_def by blast

theorem realloc_keeps_data_witness:
  "\<exists>a' h'. rt_realloc 4128 64 sample_heap kernel0 = Some (a', h') \<and>
    (a' = 0 \<or> (\<forall>i < 40. heap_data h' (a' + i) = heap_data sample_heap (4128 + i)))"
proof -
  have "(4128, 40) \<in> live sample_heap" "unat (RT_ALIGN 64 8) = 64" by (simp_all add: sample_heap_ok(3) unat_RT_ALIGN)
  with realloc_keeps_data [OF sample_heap_ok(1) kernel0_thread, of 4128 40 64] show ?thesis by (auto split: if_splits)
qed

text \<open>A heap with 8 or 16 bytes of data: \<open>rt_malloc\<close> raises the size to 24 after it compared it with the size of the heap, the
  difference in the loop condition wraps around, and the search stays at the header at the end of the heap, which is its own successor.\<close>

lemma malloc_find_stuck:
  assumes "e < sub64 (mem_size_aligned h) sz" "header e h = Some m" "hm_used m \<noteq> 0" "hm_next m = e"
  shows "malloc_find h sz e = None"
proof -
  have "(h', sz', e') \<noteq> (h, sz, e)" if "malloc_find h' sz' e' = Some y" for h' sz' e' y
    using that
  proof (rule malloc_find.raw_induct [rotated])
    fix f h1 sz1 e1 y1
    assume f: "\<And>h' sz' e' y. f h' sz' e' = Some y \<Longrightarrow> (h', sz', e') \<noteq> (h, sz, e)"
      and "(if e1 < sub64 (mem_size_aligned h1) sz1
         then Option.bind (header e1 h1) (\<lambda>mem. if hm_used mem = 0 \<and> sz1 \<le> sub64 (hm_next mem) (e1 + SIZEOF_STRUCT_MEM) then Some (Some e1)
              else f h1 sz1 (hm_next mem)) else Some None) = Some y1"
    with assms f [of h sz e] show "(h1, sz1, e1) \<noteq> (h, sz, e)" by auto
  qed
  then show ?thesis by (cases "malloc_find h sz e") auto
qed

theorem malloc_small_heap_hangs:
  assumes "k_interrupt_nest k = 0" "unat b + 7 < 2 ^ 64" "unat e div 8 * 8 = (unat b + 7) div 8 * 8 + 64 + d" "d \<in> {8, 16}"
  shows "\<exists>h'. rt_system_heap_init b e h k = Some h' \<and> malloc_find h' 24 (heap_end h') = None \<and> rt_malloc 8 h' k = None"
proof -
  from init_result [OF assms(1,2), of d e h] assms(3,4) obtain h' where
    i: "rt_system_heap_init b e h k = Some h'" "mem_size_aligned h' = d" "heap_end h' = d + 32" "lfree h' = 0" "heap_heads h' = {0, d + 32}"
      "hm_used (heap_mems h' 0) = 0" "mem_next h' 0 = d + 32" "hm_used (heap_mems h' (d + 32)) = 1" "mem_next h' (d + 32) = d + 32"
    by auto
  have w: "d + 32 < sub64 d 24" "sub64 (d + 32) 32 < 24" using assms(4) by (auto simp: sub64_def)
  have stuck: "malloc_find h' 24 (d + 32) = None" by (rule malloc_find_stuck [of _ _ _ "heap_mems h' (d + 32)"]) (use i w in simp_all)
  have "malloc_find h' 24 0 = malloc_find h' 24 (d + 32)" using i w by (subst malloc_find.simps) auto
  with stuck have "rt_malloc 8 h' k = None"
    using i assms(1,4) by (auto simp: rt_malloc_def RT_DEBUG_NOT_IN_INTERRUPT_def Let_def RT_ALIGN_def)
  with i stuck show ?thesis by auto
qed

text \<open>\<open>rt_calloc\<close> multiplies without looking for overflow: when the product of count and size does not fit into 64 bits, but
  what is left of it is not 0 and fits into the heap, the call returns an area that is smaller than the memory asked for.\<close>

theorem calloc_overflow:
  assumes "heap_ok h" "k_interrupt_nest k = 0" "2 ^ 64 \<le> unat cnt * unat sz" "cnt * sz \<noteq> 0" "unat (cnt * sz) + 7 < 2 ^ 64"
    and "\<exists>p \<in> set (heap_blocks h). fits h (request_size (cnt * sz)) p"
  shows "\<exists>a h' n. rt_calloc cnt sz h k = Some (a, h') \<and> a \<noteq> 0 \<and> live h' = insert (a, n) (live h) \<and> n < unat cnt * unat sz"
proof -
  from malloc_ok [OF assms(1,2,4)] assms(6) obtain a h' n where
    m: "rt_malloc (cnt * sz) h k = Some (a, h')" "heap_ok h'" "a \<noteq> 0" "live h' = insert (a, n) (live h)" "request_size (cnt * sz) \<le> n" by auto
  have "unat (cnt * sz) \<le> n" using request_size_ge [OF assms(5)] m(5) by simp
  with zero_data_ok [OF m(2), of a n "cnt * sz"] m(4) obtain d where z: "zero_data a (cnt * sz) h' = Some (h'\<lparr>heap_data := d\<rparr>)" by auto
  from live_inside(3) [OF m(2), of a n] m(4) have "a + n \<le> heap_ptr h' + heap_end h'" by simp
  moreover have "heap_ptr h' + heap_end h' < 2 ^ 64" using m(2) heap_shape_parts(9) [of h'] by (fastforce simp: heap_ok_def heap_inv_def)
  ultimately have "n < unat cnt * unat sz" using assms(3) by linarith
  with m z show ?thesis by (auto simp: rt_calloc_def intro!: exI [of _ n])
qed

theorem calloc_overflow_witness:
  "\<exists>a h' n. rt_calloc 0x4000000000000001 8 sample_heap kernel0 = Some (a, h') \<and> a \<noteq> 0 \<and> n < 0x4000000000000001 * 8 \<and>
    live h' = {(a, n), (4128, 40)}"
proof -
  have "\<exists>p \<in> set (heap_blocks sample_heap). fits sample_heap (request_size (0x4000000000000001 * 8)) p"
    unfolding sample_heap_ok(2) by (simp add: sample_heap_def fits_def request_size_def unat_RT_ALIGN)
  with calloc_overflow [OF sample_heap_ok(1) kernel0_thread, of "0x4000000000000001" 8] show ?thesis unfolding sample_heap_ok(3) by auto
qed

end

