(* ===== verification/Bitscan.thy ===== *)
theory Bitscan
  imports Prelude
begin

text \<open>
  The bit scans of \<^verbatim>\<open>components/lwp/page.c\<close>: leading and trailing zeros of a 64-bit number without a
  machine instruction, and the number of pages that hold a given size.
\<close>

section \<open>Bit scans\<close>

abbreviation ARCH_ADDRESS_WIDTH_BITS :: nat where "ARCH_ADDRESS_WIDTH_BITS \<equiv> 64"
abbreviation ARCH_PAGE_SHIFT :: nat where "ARCH_PAGE_SHIFT \<equiv> 12"
abbreviation ARCH_PAGE_SIZE :: nat where "ARCH_PAGE_SIZE \<equiv> 4096"
abbreviation ARCH_PAGE_LIST_SIZE :: nat where "ARCH_PAGE_LIST_SIZE \<equiv> 52"

definition clz_smear :: "u64 \<Rightarrow> u64" where
  "clz_smear n =
    (let n = n OR drop_bit 1 n; n = n OR drop_bit 2 n; n = n OR drop_bit 4 n;
         n = n OR drop_bit 8 n; n = n OR drop_bit 16 n
     in n OR drop_bit 32 n)"

definition clz_count :: "u64 \<Rightarrow> u64" where
  "clz_count n =
    (let n = (n AND 0x5555555555555555) + (drop_bit 1 n AND 0x5555555555555555);
         n = (n AND 0x3333333333333333) + (drop_bit 2 n AND 0x3333333333333333);
         n = (n AND 0x0707070707070707) + (drop_bit 4 n AND 0x0707070707070707);
         n = (n AND 0x000f000f000f000f) + (drop_bit 8 n AND 0x000f000f000f000f);
         n = (n AND 0x0000001f0000001f) + (drop_bit 16 n AND 0x0000001f0000001f)
     in (n AND 0x000000000000003f) + (drop_bit 32 n AND 0x000000000000003f))"

definition rt_clz :: "u64 \<Rightarrow> int" where
  "rt_clz n = 64 - uint (clz_count (clz_smear n))"

definition rt_ctz :: "u64 \<Rightarrow> int" where
  "rt_ctz n = (if n \<noteq> 0 then 64 - (rt_clz (n XOR (n - 1)) + 1) else 64)"

text \<open>For the size 0 the shift by -1 has no defined result.\<close>

definition rt_page_bits :: "u64 \<Rightarrow> int option" where
  "rt_page_bits sz =
    (let b = 64 - rt_clz sz - 1
     in if b < 0 then None
        else let b = (if sz XOR push_bit (nat b) 1 \<noteq> 0 then b + 1 else b); b = b - int ARCH_PAGE_SHIFT
             in Some (if b < 0 then 0 else b))"

section \<open>The bit scans are right\<close>

lemma smear_step:
  fixes n m :: u64
  assumes "\<And>i. bit m i \<longleftrightarrow> (\<exists>d < w. bit n (i + d))"
  shows "bit (m OR drop_bit w m) i \<longleftrightarrow> (\<exists>d < 2 * w. bit n (i + d))"
proof -
  have "bit (m OR drop_bit w m) i \<longleftrightarrow> (\<exists>d < w. bit n (i + d)) \<or> (\<exists>d < w. bit n (w + i + d))"
    by (simp add: bit_simps assms add.commute add.left_commute)
  also have "\<dots> \<longleftrightarrow> (\<exists>d < 2 * w. bit n (i + d))"
  proof (intro iffI)
    assume "\<exists>d < 2 * w. bit n (i + d)"
    then obtain d where d: "d < 2 * w" "bit n (i + d)" by blast
    show "(\<exists>d < w. bit n (i + d)) \<or> (\<exists>d < w. bit n (w + i + d))"
    proof (cases "d < w")
      case False
      then have "d - w < w" "w + i + (d - w) = i + d" using d by simp_all
      with d show ?thesis by metis
    qed (use d in blast)
  next
    assume "(\<exists>d < w. bit n (i + d)) \<or> (\<exists>d < w. bit n (w + i + d))"
    then show "\<exists>d < 2 * w. bit n (i + d)"
    proof
      assume "\<exists>d < w. bit n (w + i + d)"
      then obtain d where "d < w" "bit n (w + i + d)" by blast
      then show ?thesis by (intro exI [of _ "w + d"]) (simp add: ac_simps)
    qed (force intro: less_le_trans)
  qed
  finally show ?thesis .
qed

lemma bit_clz_smear: "bit (clz_smear n) i \<longleftrightarrow> (\<exists>d < 64. bit n (i + d))"
proof -
  note S = smear_step [where n = n]
  have "bit n i \<longleftrightarrow> (\<exists>d < 1. bit n (i + d))" for i by simp
  note s1 = S [OF this, simplified]
  note s2 = S [of _ 2, OF s1, simplified]
  note s4 = S [of _ 4, OF s2, simplified]
  note s8 = S [of _ 8, OF s4, simplified]
  note s16 = S [of _ 16, OF s8, simplified]
  show ?thesis unfolding clz_smear_def Let_def using S [of _ 32, OF s16] by simp
qed

text \<open>\<open>top t n\<close>: bit \<open>t\<close> is the highest bit of \<open>n\<close>.\<close>

lemma bit_unat_iff: "bit (n :: u64) i \<longleftrightarrow> odd (unat n div 2 ^ i)"
proof -
  have "bit n i \<longleftrightarrow> bit (unat n) i" by (simp add: bit_unsigned_iff)
  then show ?thesis by (simp add: bit_iff_odd)
qed

lemma smear_mask:
  assumes "2 ^ t \<le> unat n" "unat n < 2 ^ (t + 1)"
  shows "clz_smear n = mask (t + 1)"
proof (rule bit_eqI)
  have "unat n div 2 ^ t = 1" using assms by (intro div_nat_eqI) simp_all
  then have t: "bit n t" by (simp add: bit_unat_iff)
  then have t64: "t < 64" by (auto dest: bit_imp_le_length)
  have up: "j \<le> t" if "bit n j" for j
  proof (rule ccontr)
    assume "\<not> j \<le> t"
    then have "(2 :: nat) ^ (t + 1) \<le> 2 ^ j" by (intro power_increasing) simp_all
    with assms have "unat n div 2 ^ j = 0" by simp
    with that show False by (simp add: bit_unat_iff)
  qed
  fix i assume "possible_bit TYPE(u64) i"
  then have "i < 64" by simp
  have "(\<exists>d < 64. bit n (i + d)) \<longleftrightarrow> i \<le> t"
  proof
    assume "i \<le> t"
    then show "\<exists>d < 64. bit n (i + d)" using t t64 by (intro exI [of _ "t - i"]) simp
  qed (use up in fastforce)
  then show "bit (clz_smear n) i \<longleftrightarrow> bit (mask (t + 1) :: u64) i"
    using \<open>i < 64\<close> by (simp add: bit_clz_smear bit_mask_iff less_Suc_eq_le)
qed

lemma clz_count_masks: "list_all (\<lambda>k. clz_count (mask k) = of_nat k) [0..<65]"
  by (simp add: upt_rec clz_count_def mask_eq_exp_minus_1)

lemma rt_clz_top:
  assumes "2 ^ t \<le> unat n" "unat n < 2 ^ (t + 1)"
  shows "rt_clz n = 63 - int t"
proof -
  have "unat n < 2 ^ 64" using unsigned_less [of n, where ?'a = nat] by simp
  with assms(1) have "(2 :: nat) ^ t < 2 ^ 64" by linarith
  then have t: "t < 64" by (simp only: power_strict_increasing_iff)
  then have "t + 1 \<in> set [0..<65]" unfolding set_upt by simp
  with clz_count_masks have "clz_count (mask (t + 1)) = of_nat (t + 1)" unfolding list_all_iff by blast
  moreover have "(2 :: nat) ^ 6 < 2 ^ 64" by simp
  then have "t + 1 < 2 ^ 64" using t by simp
  then have "uint (of_nat (t + 1) :: u64) = int (t + 1)" unfolding unsigned_of_nat by (subst take_bit_nat_eq_self) simp_all
  ultimately show ?thesis unfolding rt_clz_def smear_mask [OF assms] by simp
qed

lemma rt_clz_zero: "rt_clz 0 = 64"
  by (simp add: rt_clz_def clz_smear_def clz_count_def)

lemma xor_pred:
  fixes q z :: nat
  shows "(2 ^ z * (2 * q + 1)) XOR (2 ^ z * (2 * q + 1) - 1) = (mask (z + 1) :: nat)"
proof (rule bit_eqI)
  fix i
  have a: "2 ^ z * (2 * q + 1) = push_bit z (2 * q + 1)" by (simp add: push_bit_eq_mult mult.commute)
  have "2 ^ z * (2 * q + 1) - 1 = push_bit z (2 * q) + mask z"
    by (simp add: push_bit_eq_mult mask_eq_exp_minus_1 algebra_simps)
  also have "\<dots> = push_bit z (2 * q) OR mask z"
    by (rule disjunctive_add_eq_or) (auto simp: bit_eq_iff bit_simps)
  finally have e: "2 ^ z * (2 * q + 1) - 1 = push_bit z (2 * q) OR mask z" .
  show "bit ((2 ^ z * (2 * q + 1)) XOR (2 ^ z * (2 * q + 1) - 1)) i \<longleftrightarrow> bit (mask (z + 1) :: nat) i"
  proof (cases "i \<le> z")
    case True
    then show ?thesis unfolding e unfolding a by (cases "i = z") (auto simp: bit_simps bit_0)
  next
    case False
    then obtain j where j: "i = z + Suc j" by (metis add_Suc_right less_imp_Suc_add not_le)
    have "bit (2 * q + 1) (Suc j) \<longleftrightarrow> bit (2 * q) (Suc j)" by (simp add: bit_Suc)
    then show ?thesis unfolding e unfolding a j bit_xor_iff bit_or_iff bit_push_bit_iff bit_mask_iff by simp
  qed
qed

lemma rt_ctz_low:
  assumes "unat n = 2 ^ z * (2 * q + 1)"
  shows "rt_ctz n = int z"
proof -
  have n: "n \<noteq> 0" using assms by auto
  then have "1 \<le> n" by (simp add: word_le_nat_alt unat_gt_0 Suc_le_eq)
  then have "unat (n - 1) = unat n - 1" by (simp add: unat_sub)
  then have "unat (n XOR (n - 1)) = unat n XOR (unat n - 1)" by (simp add: unsigned_xor_eq)
  also have "\<dots> = mask (z + 1)" unfolding assms by (rule xor_pred)
  finally have "unat (n XOR (n - 1)) = 2 ^ (z + 1) - 1" by (simp add: mask_eq_exp_minus_1)
  then have "rt_clz (n XOR (n - 1)) = 63 - int z" by (intro rt_clz_top) simp_all
  with n show ?thesis by (simp add: rt_ctz_def)
qed


lemma top_bit: "0 < (m :: nat) \<Longrightarrow> \<exists>t. 2 ^ t \<le> m \<and> m < 2 ^ (t + 1)"
  using ex_power_ivl1 [of 2 m] by auto

section \<open>Properties\<close>

lemma page_bits_ok:
  assumes "sz \<noteq> 0"
  shows "\<exists>b. rt_page_bits sz = Some (int b) \<and> unat sz \<le> 2 ^ (b + 12) \<and> (b = 0 \<or> 2 ^ (b + 11) < unat sz)"
proof -
  from assms have "0 < unat sz" by (simp add: unat_gt_0)
  then obtain t where t: "2 ^ t \<le> unat sz" "unat sz < 2 ^ (t + 1)" using top_bit by blast
  have clz: "rt_clz sz = 63 - int t" by (rule rt_clz_top [OF t])
  have lt: "(2 :: nat) ^ t < 2 ^ 64" using t(1) unsigned_less [of sz, where ?'a = nat] by simp
  then have p: "unat (push_bit t 1 :: u64) = 2 ^ t"
    unfolding unsigned_push_bit_eq by (subst take_bit_nat_eq_self) (simp_all add: push_bit_eq_mult)
  have eq: "sz XOR push_bit t 1 = 0 \<longleftrightarrow> unat sz = 2 ^ t"
  proof -
    have "sz XOR push_bit t 1 = 0 \<longleftrightarrow> sz = push_bit t 1" unfolding bit_eq_iff bit_xor_iff by simp
    then show ?thesis using p by (simp add: word_unat_eq_iff)
  qed
  have mono: "(2 :: nat) ^ a \<le> 2 ^ b" if "a \<le> b" for a b :: nat using that by simp
  define u where "u = (if unat sz = 2 ^ t then t else t + 1)"
  have u: "unat sz \<le> 2 ^ u" "u = 0 \<or> 2 ^ (u - 1) < unat sz"
  proof -
    show "unat sz \<le> 2 ^ u" using t(2) by (cases "unat sz = 2 ^ t") (simp_all add: u_def)
    show "u = 0 \<or> 2 ^ (u - 1) < unat sz"
    proof (cases "unat sz = 2 ^ t")
      case True
      then show ?thesis by (cases t) (simp_all add: u_def)
    next
      case False
      with t(1) have "2 ^ t < unat sz" by linarith
      with False show ?thesis by (simp add: u_def)
    qed
  qed
  show ?thesis
  proof (intro exI [of _ "u - 12"] conjI)
    show "rt_page_bits sz = Some (int (u - 12))"
      using eq by (auto simp: rt_page_bits_def clz Let_def u_def)
    show "unat sz \<le> 2 ^ (u - 12 + 12)" using u(1) mono [of u "u - 12 + 12"] by linarith
    show "u - 12 = 0 \<or> 2 ^ (u - 12 + 11) < unat sz" using u(2) by (cases "u \<le> 12") (auto simp: Suc_diff_le)
  qed
qed

text \<open>C35: \<open>rt_page_bits\<close> gives the exponent of the smallest group of pages that holds a size: the group is large enough, and no
  smaller one is.\<close>

theorem page_bits_smallest:
  assumes "sz \<noteq> 0"
  shows "\<exists>b. rt_page_bits sz = Some (int b) \<and> unat sz \<le> 2 ^ (b + 12) \<and> (b = 0 \<or> 2 ^ (b + 11) < unat sz)"
  using assms by (rule page_bits_ok)

theorem page_bits_smallest_witness:
  "\<exists>b. rt_page_bits 8193 = Some (int b) \<and> 8193 \<le> (2 :: nat) ^ (b + 12) \<and> (b = 0 \<or> 2 ^ (b + 11) < (8193 :: nat))"
  using page_bits_smallest [of 8193] by simp

end
