(* ===== verification/Page.thy ===== *)
theory Page
  imports Bitscan "HOL-Library.Signed_Division"
begin

text \<open>
  The page allocator of \<^verbatim>\<open>components/lwp/page.c\<close>: a buddy allocator over groups of \<open>2 ^ n\<close> pages of
  4096 bytes. A page is named by its index in the array \<open>page_start\<close>; the free groups of one size are a
  doubly linked list through the \<open>struct page\<close> of their first page. The functions run with interrupts off.
\<close>

section \<open>Pages and their lists\<close>

record page =
  pg_next :: "nat option"
  pg_pre :: "nat option"
  pg_size_bits :: nat
  pg_ref_cnt :: int

text \<open>The static variables: the address of the first page, the number of pages, the \<open>struct page\<close> array and
  the heads of the lists.\<close>

record pages =
  page_addr :: nat
  page_nr :: nat
  page_mem :: "nat \<Rightarrow> page"
  page_list :: "nat \<Rightarrow> nat option"

definition upd_page :: "nat \<Rightarrow> (page \<Rightarrow> page) \<Rightarrow> pages \<Rightarrow> pages" where
  "upd_page i f ps = ps\<lparr>page_mem := (page_mem ps)(i := f (page_mem ps i))\<rparr>"

definition addr_to_page :: "pages \<Rightarrow> nat \<Rightarrow> nat option" where
  "addr_to_page ps addr =
    (if addr < page_addr ps then None
     else let off = (addr - page_addr ps) div ARCH_PAGE_SIZE
          in if off \<ge> page_nr ps then None else Some off)"

definition page_to_addr :: "pages \<Rightarrow> nat option \<Rightarrow> nat" where
  "page_to_addr ps p = (case p of None \<Rightarrow> 0 | Some i \<Rightarrow> page_addr ps + i * ARCH_PAGE_SIZE)"

definition buddy_get :: "pages \<Rightarrow> nat \<Rightarrow> nat \<Rightarrow> nat option" where
  "buddy_get ps p size_bits = addr_to_page ps (page_to_addr ps (Some p) XOR 2 ^ (size_bits + ARCH_PAGE_SHIFT))"

definition page_remove :: "nat \<Rightarrow> nat \<Rightarrow> pages \<Rightarrow> pages" where
  "page_remove p size_bits ps =
    (let ps = (case pg_pre (page_mem ps p) of
                 Some q \<Rightarrow> upd_page q (pg_next_update (\<lambda>_. pg_next (page_mem ps p))) ps
               | None \<Rightarrow> ps\<lparr>page_list := (page_list ps)(size_bits := pg_next (page_mem ps p))\<rparr>);
         ps = (case pg_next (page_mem ps p) of
                 Some q \<Rightarrow> upd_page q (pg_pre_update (\<lambda>_. pg_pre (page_mem ps p))) ps | None \<Rightarrow> ps)
     in upd_page p (pg_size_bits_update (\<lambda>_. ARCH_ADDRESS_WIDTH_BITS)) ps)"

text \<open>An index outside of \<open>page_list\<close> has no result.\<close>

definition page_insert :: "nat \<Rightarrow> nat \<Rightarrow> pages \<Rightarrow> pages option" where
  "page_insert p size_bits ps =
    (if size_bits < ARCH_PAGE_LIST_SIZE
     then let ps = upd_page p (pg_next_update (\<lambda>_. page_list ps size_bits)) ps;
              ps = (case pg_next (page_mem ps p) of
                      Some q \<Rightarrow> upd_page q (pg_pre_update (\<lambda>_. Some p)) ps | None \<Rightarrow> ps);
              ps = upd_page p (pg_pre_update (\<lambda>_. None)) ps;
              ps = ps\<lparr>page_list := (page_list ps)(size_bits := Some p)\<rparr>
          in Some (upd_page p (pg_size_bits_update (\<lambda>_. size_bits)) ps)
     else None)"

text \<open>The first page of the group of \<open>2 ^ size_bits\<close> pages, as \<open>_pages_ref_inc\<close> and \<open>_pages_ref_get\<close> find it.\<close>

definition group_head :: "nat \<Rightarrow> nat \<Rightarrow> nat" where
  "group_head idx size_bits = idx - idx mod 2 ^ size_bits"

definition pages_ref_inc :: "nat option \<Rightarrow> nat \<Rightarrow> pages \<Rightarrow> pages" where
  "pages_ref_inc p size_bits ps =
    (case p of None \<Rightarrow> ps
     | Some idx \<Rightarrow> if idx \<ge> page_nr ps then ps
                   else upd_page (group_head idx size_bits) (pg_ref_cnt_update (\<lambda>r. r + 1)) ps)"

definition pages_ref_get :: "nat option \<Rightarrow> nat \<Rightarrow> pages \<Rightarrow> int" where
  "pages_ref_get p size_bits ps =
    (case p of None \<Rightarrow> 0
     | Some idx \<Rightarrow> if idx \<ge> page_nr ps then 0 else pg_ref_cnt (page_mem ps (group_head idx size_bits)))"

text \<open>The loop of \<open>_pages_free\<close>: join with free buddies.\<close>

function pages_merge :: "nat \<Rightarrow> nat \<Rightarrow> pages \<Rightarrow> nat \<times> nat \<times> pages" where
  "pages_merge p level ps =
    (if level < ARCH_PAGE_LIST_SIZE
     then case buddy_get ps p level of
            Some buddy \<Rightarrow>
              if pg_size_bits (page_mem ps buddy) = level
              then pages_merge (if p < buddy then p else buddy) (level + 1) (page_remove buddy level ps)
              else (p, level, ps)
          | None \<Rightarrow> (p, level, ps)
     else (p, level, ps))"
  by pat_completeness auto
termination by (relation "measure (\<lambda>(p, level, ps). ARCH_PAGE_LIST_SIZE - level)") auto

definition pages_free :: "nat \<Rightarrow> nat \<Rightarrow> pages \<Rightarrow> (int \<times> pages) option" where
  "pages_free p size_bits ps = do {
    RT_ASSERT (pg_ref_cnt (page_mem ps p) > 0);
    RT_ASSERT (pg_size_bits (page_mem ps p) = ARCH_ADDRESS_WIDTH_BITS);
    let ps = upd_page p (pg_ref_cnt_update (\<lambda>r. r - 1)) ps;
    if pg_ref_cnt (page_mem ps p) \<noteq> 0 then Some (0, ps)
    else (case pages_merge p size_bits ps of
            (p, level, ps) \<Rightarrow> map_option (Pair 1) (page_insert p level ps))
  }"

text \<open>The loop of \<open>_pages_alloc\<close>, \<open>d\<close> levels above the size wanted: keep the upper half, free the lower one.
  A missing buddy would be dereferenced.\<close>

fun pages_split :: "nat \<Rightarrow> nat \<Rightarrow> nat \<Rightarrow> pages \<Rightarrow> (nat \<times> pages) option" where
  "pages_split p size_bits 0 ps = Some (p, ps)"
| "pages_split p size_bits (Suc d) ps = do {
    ps \<leftarrow> page_insert p (size_bits + d) ps;
    p \<leftarrow> buddy_get ps p (size_bits + d);
    pages_split p size_bits d ps
  }"

text \<open>The code does not check \<open>size_bits\<close>: above 51 it reads behind the array \<open>page_list\<close>, which has no result here.\<close>

definition pages_alloc :: "nat \<Rightarrow> pages \<Rightarrow> (nat option \<times> pages) option" where
  "pages_alloc size_bits ps =
    (if size_bits \<ge> ARCH_PAGE_LIST_SIZE then None
     else let finish = (\<lambda>p ps. (Some p, upd_page p (\<lambda>x. x\<lparr>pg_size_bits := ARCH_ADDRESS_WIDTH_BITS, pg_ref_cnt := 1\<rparr>) ps))
     in case page_list ps size_bits of
          Some p \<Rightarrow> Some (finish p (page_remove p size_bits ps))
        | None \<Rightarrow>
            (case List.find (\<lambda>level. page_list ps level \<noteq> None) [size_bits + 1..<ARCH_PAGE_LIST_SIZE] of
               None \<Rightarrow> Some (None, ps)
             | Some level \<Rightarrow> do {
                 p \<leftarrow> page_list ps level;
                 let ps = page_remove p level ps;
                 (p, ps) \<leftarrow> pages_split p size_bits (level - size_bits) ps;
                 Some (finish p ps)
               }))"

definition rt_page_ref_get :: "nat \<Rightarrow> nat \<Rightarrow> pages \<Rightarrow> int" where
  "rt_page_ref_get addr size_bits ps = pages_ref_get (addr_to_page ps addr) size_bits ps"

definition rt_page_ref_inc :: "nat \<Rightarrow> nat \<Rightarrow> pages \<Rightarrow> pages" where
  "rt_page_ref_inc addr size_bits ps = pages_ref_inc (addr_to_page ps addr) size_bits ps"

definition rt_pages_alloc :: "nat \<Rightarrow> pages \<Rightarrow> (nat \<times> pages) option" where
  "rt_pages_alloc size_bits ps = do {
    (p, ps) \<leftarrow> pages_alloc size_bits ps;
    Some (page_to_addr ps p, ps)
  }"

definition rt_pages_free :: "nat \<Rightarrow> nat \<Rightarrow> pages \<Rightarrow> (int \<times> pages) option" where
  "rt_pages_free addr size_bits ps =
    (case addr_to_page ps addr of Some p \<Rightarrow> pages_free p size_bits ps | None \<Rightarrow> Some (0, ps))"

text \<open>Counting the pages of a list, and of all lists.\<close>

partial_function (option) count_list :: "pages \<Rightarrow> nat \<Rightarrow> nat option \<Rightarrow> nat option" where
  "count_list ps level p =
    (case p of None \<Rightarrow> Some 0
     | Some i \<Rightarrow> Option.bind (count_list ps level (pg_next (page_mem ps i))) (\<lambda>n. Some (2 ^ level + n)))"

fun count_free :: "pages \<Rightarrow> nat list \<Rightarrow> nat option" where
  "count_free ps [] = Some 0"
| "count_free ps (l # ls) = do { m \<leftarrow> count_list ps l (page_list ps l); n \<leftarrow> count_free ps ls; Some (m + n) }"

definition rt_page_get_info :: "pages \<Rightarrow> (nat \<times> nat) option" where
  "rt_page_get_info ps = map_option (Pair (page_nr ps)) (count_free ps [0..<ARCH_PAGE_LIST_SIZE])"

text \<open>The loop of \<open>rt_page_init\<close> over the pages from \<open>start\<close> to \<open>end\<close>.\<close>

partial_function (option) page_init_loop :: "u64 \<Rightarrow> u64 \<Rightarrow> pages \<Rightarrow> pages option" where
  "page_init_loop s e ps =
    (if s = e then Some ps
     else let size_bits = 64 - 1 - rt_clz (e - s); align_bits = rt_ctz s;
              size_bits = (if align_bits < size_bits then align_bits else size_bits)
     in Option.bind (addr_to_page ps (unat s)) (\<lambda>p.
        Option.bind (pages_free p (nat (size_bits - int ARCH_PAGE_SHIFT))
          (upd_page p (\<lambda>x. x\<lparr>pg_size_bits := ARCH_ADDRESS_WIDTH_BITS, pg_ref_cnt := 1\<rparr>) ps)) (\<lambda>(_, ps).
        page_init_loop (s + push_bit (nat size_bits) 1) e ps)))"

definition rt_page_init :: "u64 \<Rightarrow> u64 \<Rightarrow> pages \<Rightarrow> pages option" where
  "rt_page_init start ending ps = do {
    let start = (start + 4095) AND NOT 4095;
    let ending = ending AND NOT 4095;
    let nr = 4096 div 24;
    let total = sint (ucast (drop_bit 12 (ending - start)) :: 32 word);
    let mnr = (total + nr) sdiv (nr + 1);
    RT_ASSERT (mnr < total);
    let start = start + word_of_int (mnr * 4096);
    page_init_loop start ending
      (ps\<lparr>page_addr := unat start, page_nr := unat (drop_bit 12 (ending - start)), page_list := (\<lambda>_. None)\<rparr>)
  }"

declare pages_merge.simps [simp del]

section \<open>Tilings\<close>

text \<open>A group is its first page and its size exponent. Groups are aligned to their size, counted from page \<open>b\<close> of the address
  space, they do not overlap, and they cover the first \<open>n\<close> pages.\<close>

definition tiling :: "nat \<Rightarrow> nat \<Rightarrow> (nat \<times> nat) set \<Rightarrow> bool" where
  "tiling b n G \<longleftrightarrow> (\<forall>(i, l) \<in> G. i + 2 ^ l \<le> n \<and> 2 ^ l dvd b + i) \<and>
    (\<forall>(i, l) \<in> G. \<forall>(j, m) \<in> G. (i, l) \<noteq> (j, m) \<longrightarrow> i + 2 ^ l \<le> j \<or> j + 2 ^ m \<le> i) \<and>
    (\<forall>x < n. \<exists>(i, l) \<in> G. i \<le> x \<and> x < i + 2 ^ l)"

lemma tilingD:
  assumes "tiling b n G"
  shows "(i, l) \<in> G \<Longrightarrow> i + 2 ^ l \<le> n" "(i, l) \<in> G \<Longrightarrow> 2 ^ l dvd b + i"
    "(i, l) \<in> G \<Longrightarrow> (j, m) \<in> G \<Longrightarrow> (i, l) \<noteq> (j, m) \<Longrightarrow> i + 2 ^ l \<le> j \<or> j + 2 ^ m \<le> i"
    "x < n \<Longrightarrow> \<exists>i l. (i, l) \<in> G \<and> i \<le> x \<and> x < i + 2 ^ l"
  using assms unfolding tiling_def by fast+

lemma tiling_head: "tiling b n G \<Longrightarrow> (i, l) \<in> G \<Longrightarrow> (i, m) \<in> G \<Longrightarrow> l = m"
  using tilingD(3) [of b n G i l i m] by (metis add_le_same_cancel1 le_zero_eq power_not_zero prod.inject zero_neq_numeral)

lemma dvd_pow_le: "l \<le> m \<Longrightarrow> (2 :: nat) ^ m dvd x \<Longrightarrow> 2 ^ l dvd x"
  by (meson dvd_trans le_imp_power_dvd)

text \<open>The buddy of the group \<open>(p, l)\<close> is the other half of the group of twice the size.\<close>

definition lower_half :: "nat \<Rightarrow> nat \<Rightarrow> nat \<Rightarrow> bool" where
  "lower_half b p l \<longleftrightarrow> 2 ^ Suc l dvd b + p"

definition buddies :: "nat \<Rightarrow> nat \<Rightarrow> nat \<Rightarrow> nat \<Rightarrow> bool" where
  "buddies b l p j \<longleftrightarrow> (lower_half b p l \<and> j = p + 2 ^ l) \<or> (\<not> lower_half b p l \<and> p = j + 2 ^ l)"

lemma aligned_apart:
  assumes "(2 :: nat) ^ m dvd x" "2 ^ m dvd y" "x < y"
  shows "x + 2 ^ m \<le> y"
proof -
  have "2 ^ m dvd y - x" using assms by (intro dvd_diff_nat)
  then have "2 ^ m \<le> y - x" using assms(3) by (intro dvd_imp_le) simp_all
  with assms(3) show ?thesis by linarith
qed

lemma buddies_align:
  assumes "2 ^ l dvd b + p" "buddies b l p j"
  shows "2 ^ l dvd b + j" "2 ^ Suc l dvd b + min p j" "p \<noteq> j" "lower_half b p l \<longleftrightarrow> p < j"
    "max p j = min p j + 2 ^ l"
proof -
  from assms show l: "2 ^ l dvd b + j"
    by (auto simp: buddies_def lower_half_def simp flip: add.assoc dest: dvd_add_right_iff [THEN iffD1])
  show "p \<noteq> j" "lower_half b p l \<longleftrightarrow> p < j" "max p j = min p j + 2 ^ l" using assms(2) by (auto simp: buddies_def)
  show "2 ^ Suc l dvd b + min p j"
  proof (cases "lower_half b p l")
    case True
    with assms(2) show ?thesis by (simp add: buddies_def lower_half_def)
  next
    case False
    then have p: "p = j + 2 ^ l" using assms(2) by (simp add: buddies_def)
    from assms(1) obtain q where q: "b + p = 2 ^ l * q" by auto
    have "odd q" using False q by (auto simp: lower_half_def elim!: evenE)
    then obtain r where "q = 2 * r + 1" by (elim oddE)
    with q p have "b + j = 2 ^ Suc l * r" by (simp add: algebra_simps)
    then show ?thesis using p by simp
  qed
qed

text \<open>A buddy inside the tiled range is the first page of a group, and of no larger one.\<close>

lemma tiling_buddy_head:
  assumes T: "tiling b n G" and p: "(p, l) \<in> G" and j: "buddies b l p j" "j < n"
  shows "\<exists>m \<le> l. (j, m) \<in> G"
proof -
  note B = buddies_align [OF tilingD(2) [OF T p] j(1)]
  obtain i m where i: "(i, m) \<in> G" "i \<le> j" "j < i + 2 ^ m" using tilingD(4) [OF T j(2)] by blast
  have ne: "(i, m) \<noteq> (p, l)"
  proof
    assume "(i, m) = (p, l)"
    with i j(1) show False by (auto simp: buddies_def)
  qed
  have ml: "m \<le> l"
  proof (rule ccontr)
    assume "\<not> m \<le> l"
    then have m: "Suc l \<le> m" by simp
    have d: "2 ^ Suc l dvd b + i" using dvd_pow_le [OF m tilingD(2) [OF T i(1)]] .
    have s: "(2 :: nat) ^ Suc l dvd 2 ^ m" using m by (rule le_imp_power_dvd)
    have e: "2 ^ Suc l dvd b + (i + 2 ^ m)" using dvd_add [OF d s] by (simp add: add.assoc)
    have "i \<le> min p j"
    proof (rule ccontr)
      assume "\<not> i \<le> min p j"
      then have "b + min p j < b + i" by linarith
      from aligned_apart [OF B(2) d this] have "min p j + 2 ^ Suc l \<le> i" by simp
      moreover have "j \<le> min p j + 2 ^ l" using B(5) by linarith
      moreover have "(0 :: nat) < 2 ^ l" by simp
      ultimately show False using i(2) unfolding power_Suc by linarith
    qed
    moreover have "max p j < i + 2 ^ m"
    proof (rule ccontr)
      assume "\<not> max p j < i + 2 ^ m"
      have "b + min p j < b + (i + 2 ^ m)" using i(3) by simp
      from aligned_apart [OF B(2) e this] have "min p j + 2 ^ Suc l \<le> i + 2 ^ m" by simp
      moreover have "(0 :: nat) < 2 ^ l" by simp
      ultimately show False using \<open>\<not> max p j < i + 2 ^ m\<close> B(5) unfolding power_Suc by linarith
    qed
    ultimately have "i \<le> p" "p < i + 2 ^ m" by simp_all
    moreover have "(0 :: nat) < 2 ^ l" by simp
    ultimately show False using tilingD(3) [OF T i(1) p ne] by linarith
  qed
  have "i = j"
  proof (rule ccontr)
    assume "i \<noteq> j"
    with i(2) have "b + i < b + j" by simp
    from aligned_apart [OF tilingD(2) [OF T i(1)] dvd_pow_le [OF ml B(1)] this] i(3) show False by simp
  qed
  with i(1) ml show ?thesis by blast
qed

lemma tiling_join:
  assumes T: "tiling b n G" and p: "(p, l) \<in> G" "(j, l) \<in> G" "buddies b l p j"
  shows "tiling b n (insert (min p j, Suc l) (G - {(p, l), (j, l)}))"
proof -
  note B = buddies_align [OF tilingD(2) [OF T p(1)] p(3)]
  have mx: "(max p j, l) \<in> G" "(min p j, l) \<in> G" using p by (simp_all add: max_def min_def)
  have up: "min p j + 2 ^ Suc l = max p j + 2 ^ l" using B(5) by simp
  have ap: "i + 2 ^ m \<le> min p j \<or> min p j + 2 ^ Suc l \<le> i" if "(i, m) \<in> G - {(p, l), (j, l)}" for i m
  proof -
    have "(i, m) \<noteq> (max p j, l)" "(i, m) \<noteq> (min p j, l)" "(i, m) \<in> G" using that by (auto simp: max_def min_def)
    with tilingD(3) [OF T _ mx(1)] tilingD(3) [OF T _ mx(2)] have
      "i + 2 ^ m \<le> max p j \<or> max p j + 2 ^ l \<le> i" "i + 2 ^ m \<le> min p j \<or> min p j + 2 ^ l \<le> i" by blast+
    moreover have "(0 :: nat) < 2 ^ m" by simp
    ultimately show ?thesis using B(5) up by linarith
  qed
  show ?thesis unfolding tiling_def
  proof (intro conjI)
    show "\<forall>(i, m) \<in> insert (min p j, Suc l) (G - {(p, l), (j, l)}). i + 2 ^ m \<le> n \<and> 2 ^ m dvd b + i"
      using tilingD(1,2) [OF T] tilingD(1) [OF T mx(1)] B(2) up by auto
    show "\<forall>(i, m) \<in> insert (min p j, Suc l) (G - {(p, l), (j, l)}). \<forall>(i', m') \<in> insert (min p j, Suc l) (G - {(p, l), (j, l)}).
        (i, m) \<noteq> (i', m') \<longrightarrow> i + 2 ^ m \<le> i' \<or> i' + 2 ^ m' \<le> i"
      using ap tilingD(3) [OF T] by fast
    show "\<forall>x < n. \<exists>(i, m) \<in> insert (min p j, Suc l) (G - {(p, l), (j, l)}). i \<le> x \<and> x < i + 2 ^ m"
    proof (intro allI impI)
      fix x assume "x < n"
      then obtain i m where i: "(i, m) \<in> G" "i \<le> x" "x < i + 2 ^ m" using tilingD(4) [OF T] by blast
      show "\<exists>(i, m) \<in> insert (min p j, Suc l) (G - {(p, l), (j, l)}). i \<le> x \<and> x < i + 2 ^ m"
      proof (cases "(i, m) \<in> {(p, l), (j, l)}")
        case True
        then have "min p j \<le> x \<and> x < min p j + 2 ^ Suc l" using i(2,3) up B(5) by auto
        then show ?thesis by blast
      next
        case False
        with i show ?thesis by blast
      qed
    qed
  qed
qed

lemma tiling_split:
  assumes T: "tiling b n G" and p: "(p, Suc l) \<in> G"
  shows "tiling b n (G - {(p, Suc l)} \<union> {(p, l), (p + 2 ^ l, l)})"
proof -
  have d: "2 ^ Suc l dvd b + p" using tilingD(2) [OF T p] .
  then have al: "2 ^ l dvd b + p" "2 ^ l dvd b + (p + 2 ^ l)"
    using dvd_pow_le [of l "Suc l"] by (simp_all flip: add.assoc)
  have ap: "i + 2 ^ m \<le> p \<or> p + 2 ^ Suc l \<le> i" if "(i, m) \<in> G - {(p, Suc l)}" for i m
    using tilingD(3) [OF T _ p] that by blast
  show ?thesis unfolding tiling_def
  proof (intro conjI)
    show "\<forall>(i, m) \<in> G - {(p, Suc l)} \<union> {(p, l), (p + 2 ^ l, l)}. i + 2 ^ m \<le> n \<and> 2 ^ m dvd b + i"
      using tilingD(1,2) [OF T] tilingD(1) [OF T p] al by auto
    show "\<forall>(i, m) \<in> G - {(p, Suc l)} \<union> {(p, l), (p + 2 ^ l, l)}. \<forall>(i', m') \<in> G - {(p, Suc l)} \<union> {(p, l), (p + 2 ^ l, l)}.
        (i, m) \<noteq> (i', m') \<longrightarrow> i + 2 ^ m \<le> i' \<or> i' + 2 ^ m' \<le> i"
      using ap tilingD(3) [OF T] by (auto; fastforce)
    show "\<forall>x < n. \<exists>(i, m) \<in> G - {(p, Suc l)} \<union> {(p, l), (p + 2 ^ l, l)}. i \<le> x \<and> x < i + 2 ^ m"
    proof (intro allI impI)
      fix x assume "x < n"
      then obtain i m where i: "(i, m) \<in> G" "i \<le> x" "x < i + 2 ^ m" using tilingD(4) [OF T] by blast
      show "\<exists>(i, m) \<in> G - {(p, Suc l)} \<union> {(p, l), (p + 2 ^ l, l)}. i \<le> x \<and> x < i + 2 ^ m"
      proof (cases "(i, m) = (p, Suc l)")
        case True
        with i show ?thesis by (cases "x < p + 2 ^ l") auto
      next
        case False
        with i show ?thesis by blast
      qed
    qed
  qed
qed

lemma tiling_extend:
  assumes T: "tiling b n G" and l: "2 ^ l dvd b + n"
  shows "tiling b (n + 2 ^ l) (insert (n, l) G)"
  unfolding tiling_def
proof (intro conjI)
  show "\<forall>(i, m) \<in> insert (n, l) G. i + 2 ^ m \<le> n + 2 ^ l \<and> 2 ^ m dvd b + i"
    using tilingD(1,2) [OF T] l by fastforce
  show "\<forall>(i, m) \<in> insert (n, l) G. \<forall>(j, k) \<in> insert (n, l) G. (i, m) \<noteq> (j, k) \<longrightarrow> i + 2 ^ m \<le> j \<or> j + 2 ^ k \<le> i"
    using tilingD(1) [OF T] tilingD(3) [OF T] by blast
  show "\<forall>x < n + 2 ^ l. \<exists>(i, m) \<in> insert (n, l) G. i \<le> x \<and> x < i + 2 ^ m"
    using tilingD(4) [OF T] by (metis (no_types, lifting) case_prodI insert_iff not_less)
qed

section \<open>The linked lists\<close>

fun dlist :: "(nat \<Rightarrow> page) \<Rightarrow> nat option \<Rightarrow> nat option \<Rightarrow> nat list \<Rightarrow> bool" where
  "dlist m pre h [] \<longleftrightarrow> h = None"
| "dlist m pre h (x # xs) \<longleftrightarrow> h = Some x \<and> pg_pre (m x) = pre \<and> dlist m (Some x) (pg_next (m x)) xs"

lemma dlist_cong:
  "(\<And>x. x \<in> set xs \<Longrightarrow> pg_pre (m' x) = pg_pre (m x) \<and> pg_next (m' x) = pg_next (m x)) \<Longrightarrow> dlist m' pre h xs = dlist m pre h xs"
  by (induction xs arbitrary: pre h) auto

definition last_opt :: "nat option \<Rightarrow> nat list \<Rightarrow> nat option" where
  "last_opt pre xs = (if xs = [] then pre else Some (last xs))"

lemma last_opt_simps [simp]: "last_opt pre [] = pre" "last_opt pre (x # xs) = last_opt (Some x) xs"
  by (simp_all add: last_opt_def)

lemma dlist_split:
  "dlist m pre h (us @ x # vs) \<Longrightarrow> pg_pre (m x) = last_opt pre us \<and> dlist m (Some x) (pg_next (m x)) vs"
  by (induction us arbitrary: pre h) auto

lemma dlist_cut:
  assumes "dlist m pre h (us @ x # vs)" "distinct (us @ x # vs)"
    and "\<And>y. y \<in> set us \<Longrightarrow> pg_pre (m' y) = pg_pre (m y)"
    and "\<And>y. y \<in> set us \<Longrightarrow> y \<noteq> last us \<Longrightarrow> pg_next (m' y) = pg_next (m y)"
    and "us \<noteq> [] \<Longrightarrow> pg_next (m' (last us)) = pg_next (m x)"
    and "\<And>y. y \<in> set vs \<Longrightarrow> pg_next (m' y) = pg_next (m y)"
    and "\<And>y. y \<in> set (tl vs) \<Longrightarrow> pg_pre (m' y) = pg_pre (m y)"
    and "vs \<noteq> [] \<Longrightarrow> pg_pre (m' (hd vs)) = last_opt pre us"
    and "h' = (if us = [] then pg_next (m x) else h)"
  shows "dlist m' pre h' (us @ vs)"
  using assms
proof (induction us arbitrary: pre h h')
  case Nil
  show ?case
  proof (cases vs)
    case (Cons y ws)
    have "dlist m' (Some y) (pg_next (m y)) ws = dlist m (Some y) (pg_next (m y)) ws"
      using Nil.prems(6,7) Cons by (intro dlist_cong) auto
    with Nil.prems Cons show ?thesis by auto
  qed (use Nil in auto)
next
  case (Cons u us)
  have "dlist m' (Some u) (if us = [] then pg_next (m x) else pg_next (m u)) (us @ vs)"
    by (rule Cons.IH [of "Some u" "pg_next (m u)"]) (use Cons.prems in \<open>auto split: if_splits\<close>)
  moreover have "(if us = [] then pg_next (m x) else pg_next (m u)) = pg_next (m' u)"
  proof (cases "us = []")
    case False
    with Cons.prems(2) have "u \<noteq> last us" using last_in_set [of us] by auto
    with False Cons.prems(4) [of u] show ?thesis by simp
  qed (use Cons.prems(5) in simp)
  ultimately show ?case using Cons.prems by simp
qed

lemma upd_page_simps [simp]:
  "page_mem (upd_page i f ps) = (page_mem ps)(i := f (page_mem ps i))" "page_list (upd_page i f ps) = page_list ps"
  "page_addr (upd_page i f ps) = page_addr ps" "page_nr (upd_page i f ps) = page_nr ps"
  by (simp_all add: upd_page_def)

lemma page_remove_fields:
  "page_addr (page_remove x l ps) = page_addr ps" "page_nr (page_remove x l ps) = page_nr ps"
  "pg_size_bits (page_mem (page_remove x l ps) i) = (if i = x then ARCH_ADDRESS_WIDTH_BITS else pg_size_bits (page_mem ps i))"
  "pg_ref_cnt (page_mem (page_remove x l ps) i) = pg_ref_cnt (page_mem ps i)"
  by (simp_all add: page_remove_def Let_def split: option.split)

lemma page_insert_fields:
  assumes "page_insert x l ps = Some ps'"
  shows "page_addr ps' = page_addr ps" "page_nr ps' = page_nr ps"
    "pg_size_bits (page_mem ps' i) = (if i = x then l else pg_size_bits (page_mem ps i))"
    "pg_ref_cnt (page_mem ps' i) = pg_ref_cnt (page_mem ps i)"
  using assms by (auto simp: page_insert_def Let_def split: option.splits if_splits)

text \<open>The free lists: \<open>fl l\<close> are the first pages of the free groups of size \<open>2 ^ l\<close>.\<close>

definition lists_ok :: "(nat \<Rightarrow> page) \<Rightarrow> (nat \<Rightarrow> nat option) \<Rightarrow> (nat \<Rightarrow> nat list) \<Rightarrow> bool" where
  "lists_ok m pl fl \<longleftrightarrow> (\<forall>l < ARCH_PAGE_LIST_SIZE. dlist m None (pl l) (fl l) \<and> distinct (fl l)) \<and>
    (\<forall>l \<ge> ARCH_PAGE_LIST_SIZE. fl l = []) \<and> (\<forall>l. \<forall>i \<in> set (fl l). pg_size_bits (m i) = l)"

lemma lists_okD:
  assumes "lists_ok m pl fl"
  shows "l < ARCH_PAGE_LIST_SIZE \<Longrightarrow> dlist m None (pl l) (fl l)" "distinct (fl l)" "i \<in> set (fl l) \<Longrightarrow> pg_size_bits (m i) = l"
    "i \<in> set (fl l) \<Longrightarrow> l < ARCH_PAGE_LIST_SIZE"
proof -
  show "l < ARCH_PAGE_LIST_SIZE \<Longrightarrow> dlist m None (pl l) (fl l)" "i \<in> set (fl l) \<Longrightarrow> pg_size_bits (m i) = l"
    using assms by (simp_all add: lists_ok_def)
  show "i \<in> set (fl l) \<Longrightarrow> l < ARCH_PAGE_LIST_SIZE" using assms unfolding lists_ok_def by (metis empty_iff empty_set not_less)
  show "distinct (fl l)" using assms unfolding lists_ok_def by (cases "l < ARCH_PAGE_LIST_SIZE") auto
qed

lemma page_remove_links:
  assumes "pg_pre (page_mem ps x) \<noteq> Some x" "pg_next (page_mem ps x) \<noteq> Some x"
  shows "pg_pre (page_mem (page_remove x l ps) y) = (if pg_next (page_mem ps x) = Some y then pg_pre (page_mem ps x) else pg_pre (page_mem ps y))"
    "pg_next (page_mem (page_remove x l ps) y) = (if pg_pre (page_mem ps x) = Some y then pg_next (page_mem ps x) else pg_next (page_mem ps y))"
    "page_list (page_remove x l ps) = (if pg_pre (page_mem ps x) = None then (page_list ps)(l := pg_next (page_mem ps x)) else page_list ps)"
  using assms by (auto simp: page_remove_def Let_def split: option.split)

lemma remove1_split: "distinct (us @ x # vs) \<Longrightarrow> remove1 x (us @ x # vs) = us @ vs"
  by (simp add: remove1_append)

lemma lists_remove:
  assumes L: "lists_ok (page_mem ps) (page_list ps) fl" and x: "x \<in> set (fl l)"
  shows "lists_ok (page_mem (page_remove x l ps)) (page_list (page_remove x l ps)) (fl(l := remove1 x (fl l)))"
proof -
  let ?m = "page_mem ps" and ?m' = "page_mem (page_remove x l ps)"
  have l52: "l < ARCH_PAGE_LIST_SIZE" using lists_okD(4) [OF L x] .
  from x obtain us vs where fl: "fl l = us @ x # vs" by (auto simp: in_set_conv_decomp)
  have dist: "distinct (us @ x # vs)" using lists_okD(2) [OF L, of l] by (simp add: fl)
  have D: "dlist ?m None (page_list ps l) (us @ x # vs)" using lists_okD(1) [OF L l52] by (simp add: fl)
  from dlist_split [OF D] have pre: "pg_pre (?m x) = last_opt None us" and nx: "dlist ?m (Some x) (pg_next (?m x)) vs" by auto
  have pre1: "pg_pre (?m x) = (if us = [] then None else Some (last us))" using pre by (simp add: last_opt_def)
  have nx1: "pg_next (?m x) = (if vs = [] then None else Some (hd vs))" using nx by (cases vs) auto
  have ne: "pg_pre (?m x) \<noteq> Some x" "pg_next (?m x) \<noteq> Some x" using dist last_in_set [of us] hd_in_set [of vs] by (auto simp: pre1 nx1)
  note R = page_remove_links [OF ne]
  have lv: "us \<noteq> [] \<Longrightarrow> last us \<notin> set vs" using dist last_in_set [of us] by (auto simp: disjoint_iff)
  have own: "dlist ?m' None (page_list (page_remove x l ps) l) (us @ vs)"
  proof (rule dlist_cut [OF D dist])
    show "pg_pre (?m' y) = pg_pre (?m y)" if "y \<in> set us" for y using that dist hd_in_set [of vs] by (auto simp: R nx1)
    show "pg_next (?m' y) = pg_next (?m y)" if "y \<in> set us" "y \<noteq> last us" for y using that by (auto simp: R pre1)
    show "pg_next (?m' (last us)) = pg_next (?m x)" if "us \<noteq> []" using that by (simp add: R pre1)
    show "pg_next (?m' y) = pg_next (?m y)" if "y \<in> set vs" for y using that lv by (auto simp: R pre1)
    show "pg_pre (?m' y) = pg_pre (?m y)" if "y \<in> set (tl vs)" for y using that dist by (cases vs) (auto simp: R nx1)
    show "pg_pre (?m' (hd vs)) = last_opt None us" if "vs \<noteq> []" using that by (simp add: R nx1 pre)
    show "page_list (page_remove x l ps) l = (if us = [] then pg_next (?m x) else page_list ps l)" by (simp add: R pre1)
  qed
  have other: "dlist ?m' None (page_list (page_remove x l ps) k) (fl k)" if k: "k < ARCH_PAGE_LIST_SIZE" "k \<noteq> l" for k
  proof -
    have "set (fl k) \<inter> set (fl l) = {}" using lists_okD(3) [OF L] k(2) by blast
    then have "y \<notin> set us" "y \<notin> set vs" if "y \<in> set (fl k)" for y using that by (auto simp: fl)
    then have "pg_pre (?m x) \<noteq> Some y" "pg_next (?m x) \<noteq> Some y" if "y \<in> set (fl k)" for y
      using that by (auto simp: pre1 nx1 split: if_splits) (use last_in_set hd_in_set in blast)+
    then have "dlist ?m' None (page_list ps k) (fl k) = dlist ?m None (page_list ps k) (fl k)"
      by (intro dlist_cong) (simp add: R)
    with lists_okD(1) [OF L k(1)] k(2) show ?thesis by (simp add: R)
  qed
  have sz: "pg_size_bits (?m' i) = k" if "i \<in> set ((fl(l := remove1 x (fl l))) k)" for i k
  proof -
    have "i \<in> set (fl k)" using that by (auto simp: fl remove1_split [OF dist] split: if_splits)
    moreover have "i \<noteq> x"
    proof
      assume "i = x"
      with calculation x lists_okD(3) [OF L] have "k = l" by metis
      with \<open>i = x\<close> that dist show False by (simp add: fl remove1_split [OF dist])
    qed
    ultimately show ?thesis using lists_okD(3) [OF L] by (simp add: page_remove_fields)
  qed
  show ?thesis unfolding lists_ok_def
  proof (intro conjI allI impI ballI)
    fix k assume "k < ARCH_PAGE_LIST_SIZE"
    then show "dlist ?m' None (page_list (page_remove x l ps) k) ((fl(l := remove1 x (fl l))) k)"
      using own other by (cases "k = l") (auto simp: fl remove1_split [OF dist])
    show "distinct ((fl(l := remove1 x (fl l))) k)" using lists_okD(2) [OF L] by (simp add: distinct_remove1)
  next
    fix k assume "ARCH_PAGE_LIST_SIZE \<le> k"
    then show "(fl(l := remove1 x (fl l))) k = []" using L l52 by (auto simp: lists_ok_def)
  qed (use sz in blast)
qed

lemma lists_insert:
  assumes L: "lists_ok (page_mem ps) (page_list ps) fl" and x: "\<And>k. x \<notin> set (fl k)" and l: "l < ARCH_PAGE_LIST_SIZE"
  shows "\<exists>ps'. page_insert x l ps = Some ps' \<and> lists_ok (page_mem ps') (page_list ps') (fl(l := x # fl l))"
proof -
  let ?m = "page_mem ps"
  obtain ps' where i: "page_insert x l ps = Some ps'" using l by (auto simp: page_insert_def Let_def)
  have D: "dlist ?m None (page_list ps l) (fl l)" using lists_okD(1) [OF L l] .
  have h: "page_list ps l = (if fl l = [] then None else Some (hd (fl l)))" using D by (cases "fl l") auto
  have hx: "page_list ps l \<noteq> Some x" using x [of l] hd_in_set [of "fl l"] by (auto simp: h)
  have P: "pg_next (page_mem ps' y) = (if y = x then page_list ps l else pg_next (?m y))"
      "pg_pre (page_mem ps' y) = (if y = x then None else if page_list ps l = Some y then Some x else pg_pre (?m y))"
      "page_list ps' = (page_list ps)(l := Some x)" for y
    using i l hx by (auto simp: page_insert_def Let_def split: option.splits)
  have own: "dlist (page_mem ps') (Some x) (page_list ps l) (fl l)"
  proof (cases "fl l")
    case (Cons y ys)
    have "distinct (fl l)" using lists_okD(2) [OF L] .
    then have "dlist (page_mem ps') (Some y) (pg_next (?m y)) ys = dlist ?m (Some y) (pg_next (?m y)) ys"
      using x [of l] Cons h by (intro dlist_cong) (auto simp: P)
    with D Cons x [of l] show ?thesis by (auto simp: P)
  qed (use h in simp)
  have other: "dlist (page_mem ps') None (page_list ps k) (fl k)" if k: "k < ARCH_PAGE_LIST_SIZE" "k \<noteq> l" for k
  proof -
    have "set (fl k) \<inter> set (fl l) = {}" using lists_okD(3) [OF L] k(2) by blast
    then have "page_list ps l \<noteq> Some y" "y \<noteq> x" if "y \<in> set (fl k)" for y using that x [of k] hd_in_set [of "fl l"] by (auto simp: h)
    then have "dlist (page_mem ps') None (page_list ps k) (fl k) = dlist ?m None (page_list ps k) (fl k)"
      by (intro dlist_cong) (auto simp: P)
    with lists_okD(1) [OF L k(1)] show ?thesis by simp
  qed
  have sz: "pg_size_bits (page_mem ps' j) = k" if "j \<in> set ((fl(l := x # fl l)) k)" for j k
    using that lists_okD(3) [OF L, of j k] x [of k] by (auto simp: page_insert_fields(3) [OF i] split: if_splits)
  have "lists_ok (page_mem ps') (page_list ps') (fl(l := x # fl l))" unfolding lists_ok_def
  proof (intro conjI allI impI ballI)
    fix k assume "k < ARCH_PAGE_LIST_SIZE"
    then show "dlist (page_mem ps') None (page_list ps' k) ((fl(l := x # fl l)) k)"
      using own other by (cases "k = l") (auto simp: P)
    show "distinct ((fl(l := x # fl l)) k)" using lists_okD(2) [OF L] x by simp
  next
    fix k assume "ARCH_PAGE_LIST_SIZE \<le> k"
    then show "(fl(l := x # fl l)) k = []" using L l by (auto simp: lists_ok_def)
  qed (use sz in blast)
  with i show ?thesis by blast
qed

section \<open>The state of the allocator\<close>

definition free_groups :: "(nat \<Rightarrow> nat list) \<Rightarrow> (nat \<times> nat) set" where
  "free_groups fl = {(i, l). i \<in> set (fl l)}"

abbreviation page_base :: "pages \<Rightarrow> nat" where "page_base ps \<equiv> page_addr ps div ARCH_PAGE_SIZE"

text \<open>\<open>A\<close> are the groups in use, \<open>W\<close> the groups an operation is just working on.\<close>

definition pages_shape :: "nat \<Rightarrow> pages \<Rightarrow> (nat \<Rightarrow> nat list) \<Rightarrow> (nat \<times> nat) set \<Rightarrow> (nat \<times> nat) set \<Rightarrow> bool" where
  "pages_shape n ps fl A W \<longleftrightarrow> 0 < page_addr ps \<and> ARCH_PAGE_SIZE dvd page_addr ps \<and>
    page_addr ps + page_nr ps * ARCH_PAGE_SIZE \<le> 2 ^ 64 \<and> n \<le> page_nr ps \<and>
    lists_ok (page_mem ps) (page_list ps) fl \<and> (\<forall>(i, l) \<in> A. pg_size_bits (page_mem ps i) = ARCH_ADDRESS_WIDTH_BITS) \<and>
    tiling (page_base ps) n (free_groups fl \<union> A \<union> W) \<and> A \<inter> W = {} \<and> free_groups fl \<inter> (A \<union> W) = {}"

lemma pages_shapeD:
  assumes "pages_shape n ps fl A W"
  shows "0 < page_addr ps" "ARCH_PAGE_SIZE dvd page_addr ps" "page_addr ps + page_nr ps * ARCH_PAGE_SIZE \<le> 2 ^ 64" "n \<le> page_nr ps"
    "lists_ok (page_mem ps) (page_list ps) fl" "(i, l) \<in> A \<Longrightarrow> pg_size_bits (page_mem ps i) = ARCH_ADDRESS_WIDTH_BITS"
    "tiling (page_base ps) n (free_groups fl \<union> A \<union> W)" "A \<inter> W = {}" "free_groups fl \<inter> (A \<union> W) = {}"
  using assms unfolding pages_shape_def by fast+

lemma shape_group:
  assumes S: "pages_shape n ps fl A W" and g: "(p, l) \<in> free_groups fl \<union> A \<union> W"
  shows "l < ARCH_PAGE_LIST_SIZE" "p < n" "2 ^ l dvd page_base ps + p" "p + 2 ^ l \<le> n"
proof -
  note D = pages_shapeD [OF S]
  show d: "2 ^ l dvd page_base ps + p" "p + 2 ^ l \<le> n" using tilingD(1,2) [OF D(7) g] by auto
  then show "p < n" by (metis add_lessD1 le_eq_less_or_eq less_add_same_cancel1 order_less_le_trans zero_less_numeral zero_less_power)
  have "2 ^ l \<le> page_nr ps" using d(2) D(4) by linarith
  moreover have "page_nr ps * 4096 < 2 ^ 64" using D(1,3) by linarith
  then have "page_nr ps < 2 ^ 52" by simp
  ultimately have "(2 :: nat) ^ l < 2 ^ 52" by linarith
  then show "l < ARCH_PAGE_LIST_SIZE" by (simp only: power_strict_increasing_iff)
qed

lemma shape_remove:
  assumes S: "pages_shape n ps fl A W" and j: "j \<in> set (fl l)"
  shows "pages_shape n (page_remove j l ps) (fl(l := remove1 j (fl l))) A (insert (j, l) W)"
proof -
  note D = pages_shapeD [OF S]
  have d: "distinct (fl l)" using lists_okD(2) [OF D(5)] .
  have F: "free_groups (fl(l := remove1 j (fl l))) = free_groups fl - {(j, l)}"
    using d by (auto simp: free_groups_def split: if_splits)
  have jl: "(j, l) \<in> free_groups fl" using j by (simp add: free_groups_def)
  then have U: "free_groups fl - {(j, l)} \<union> A \<union> insert (j, l) W = free_groups fl \<union> A \<union> W" by auto
  have "(i, m) \<in> A \<Longrightarrow> i \<noteq> j \<or> pg_size_bits (page_mem ps i) = ARCH_ADDRESS_WIDTH_BITS" for i m using D(6) by blast
  then show ?thesis unfolding pages_shape_def F page_remove_fields U
    using D jl lists_remove [OF D(5) j] by (auto simp: disjoint_iff)
qed

lemma shape_insert:
  assumes S: "pages_shape n ps fl A W" and p: "(p, l) \<in> W"
  shows "\<exists>ps'. page_insert p l ps = Some ps' \<and> pages_shape n ps' (fl(l := p # fl l)) A (W - {(p, l)})"
proof -
  note D = pages_shapeD [OF S]
  have g: "(p, l) \<in> free_groups fl \<union> A \<union> W" using p by simp
  have "p \<notin> set (fl k)" for k
  proof
    assume "p \<in> set (fl k)"
    then have k: "(p, k) \<in> free_groups fl" by (simp add: free_groups_def)
    then have "k = l" using tiling_head [OF D(7), of p k l] g by blast
    with k p D(9) show False by blast
  qed
  from lists_insert [OF D(5) this shape_group(1) [OF S g]] obtain ps' where
    i: "page_insert p l ps = Some ps'" "lists_ok (page_mem ps') (page_list ps') (fl(l := p # fl l))" by blast
  note I = page_insert_fields [OF i(1)]
  have F: "free_groups (fl(l := p # fl l)) = insert (p, l) (free_groups fl)" by (auto simp: free_groups_def split: if_splits)
  have U: "insert (p, l) (free_groups fl) \<union> A \<union> (W - {(p, l)}) = free_groups fl \<union> A \<union> W" using p by auto
  have "i \<noteq> p" if "(i, m) \<in> A" for i m
  proof
    assume "i = p"
    then have "m = l" using tiling_head [OF D(7), of p m l] that g by blast
    with \<open>i = p\<close> that p D(8) show False by blast
  qed
  then have "pages_shape n ps' (fl(l := p # fl l)) A (W - {(p, l)})"
    unfolding pages_shape_def F U I using D p i(2) by (auto simp: disjoint_iff)
  with i(1) show ?thesis by blast
qed

lemma shape_regroup:
  assumes "pages_shape n ps fl A W" "tiling (page_base ps) n (free_groups fl \<union> A \<union> W')" "A \<inter> W' = {}" "free_groups fl \<inter> W' = {}"
  shows "pages_shape n ps fl A W'"
  using assms unfolding pages_shape_def by (simp add: Int_Un_distrib)

lemma shape_join:
  assumes S: "pages_shape n ps fl A W" and p: "(p, l) \<in> W" "(j, l) \<in> W" "buddies (page_base ps) l p j"
  shows "pages_shape n ps fl A (insert (min p j, Suc l) (W - {(p, l), (j, l)}))"
proof -
  note D = pages_shapeD [OF S]
  let ?G = "free_groups fl \<union> A \<union> W"
  have T: "tiling (page_base ps) n (insert (min p j, Suc l) (?G - {(p, l), (j, l)}))"
    using p by (intro tiling_join [OF D(7)]) auto
  have "(min p j, Suc l) \<notin> ?G"
  proof
    assume "(min p j, Suc l) \<in> ?G"
    moreover have "(min p j, l) \<in> ?G" using p by (auto simp: min_def)
    ultimately have "Suc l = l" by (rule tiling_head [OF D(7)])
    then show False by simp
  qed
  then have d: "A \<inter> insert (min p j, Suc l) (W - {(p, l), (j, l)}) = {}" "free_groups fl \<inter> insert (min p j, Suc l) (W - {(p, l), (j, l)}) = {}"
    using D(8,9) by blast+
  have "insert (min p j, Suc l) (?G - {(p, l), (j, l)}) = free_groups fl \<union> A \<union> insert (min p j, Suc l) (W - {(p, l), (j, l)})"
    using p D(8,9) by auto
  with T show ?thesis by (intro shape_regroup [OF S _ d]) simp
qed

lemma shape_split:
  assumes S: "pages_shape n ps fl A W" and p: "(p, Suc l) \<in> W"
  shows "pages_shape n ps fl A (W - {(p, Suc l)} \<union> {(p, l), (p + 2 ^ l, l)})"
proof -
  note D = pages_shapeD [OF S]
  let ?G = "free_groups fl \<union> A \<union> W"
  have pg: "(p, Suc l) \<in> ?G" using p by simp
  have T: "tiling (page_base ps) n (?G - {(p, Suc l)} \<union> {(p, l), (p + 2 ^ l, l)})" by (rule tiling_split [OF D(7) pg])
  have "(p, l) \<notin> ?G" using tiling_head [OF D(7) pg, of l] by auto
  moreover have "(p + 2 ^ l, l) \<notin> ?G" using tilingD(3) [OF D(7) pg, of "p + 2 ^ l" l] by auto
  moreover have "?G - {(p, Suc l)} \<union> {(p, l), (p + 2 ^ l, l)} = free_groups fl \<union> A \<union> (W - {(p, Suc l)} \<union> {(p, l), (p + 2 ^ l, l)})"
    using p D(8,9) by auto
  ultimately show ?thesis using T D(8,9) by (intro shape_regroup [OF S]) auto
qed

lemma shape_cong:
  assumes S: "pages_shape n ps fl A W" and f: "\<And>x. pg_next (f x) = pg_next x" "\<And>x. pg_pre (f x) = pg_pre x"
    and p: "(p, l) \<in> A \<union> W" and A: "A' \<union> W' = A \<union> W" "A' \<inter> W' = {}"
    and sz: "\<And>i m. (i, m) \<in> A' \<Longrightarrow> pg_size_bits ((page_mem (upd_page p f ps)) i) = ARCH_ADDRESS_WIDTH_BITS"
  shows "pages_shape n (upd_page p f ps) fl A' W'"
proof -
  note D = pages_shapeD [OF S]
  have np: "p \<notin> set (fl k)" for k
  proof
    assume "p \<in> set (fl k)"
    then have k: "(p, k) \<in> free_groups fl" by (simp add: free_groups_def)
    then have "k = l" using tiling_head [OF D(7), of p k l] p by blast
    with k p D(9) show False by blast
  qed
  have "dlist ((page_mem ps)(p := f (page_mem ps p))) None h (fl k) = dlist (page_mem ps) None h (fl k)" for h k
    by (rule dlist_cong) (simp add: f)
  moreover have "pg_size_bits (((page_mem ps)(p := f (page_mem ps p))) i) = pg_size_bits (page_mem ps i)" if "i \<in> set (fl k)" for i k
    using that np by auto
  ultimately have "lists_ok (page_mem (upd_page p f ps)) (page_list (upd_page p f ps)) fl"
    using D(5) unfolding lists_ok_def by simp
  moreover have "free_groups fl \<union> A' \<union> W' = free_groups fl \<union> A \<union> W" using A(1) by blast
  ultimately show ?thesis using D A sz unfolding pages_shape_def by auto
qed

section \<open>Buddies\<close>

lemma xor_one: "(q :: nat) XOR 1 = (if even q then q + 1 else q - 1)"
  unfolding xor_one_eq by simp

lemma xor_pow:
  assumes "(2 :: nat) ^ l dvd x"
  shows "x XOR 2 ^ l = (if 2 ^ Suc l dvd x then x + 2 ^ l else x - 2 ^ l)"
proof -
  from assms obtain q where q: "x = push_bit l q" by (metis dvdE mult.commute push_bit_eq_mult)
  have "x XOR 2 ^ l = push_bit l q XOR push_bit l 1" by (simp add: q push_bit_eq_mult)
  also have "\<dots> = push_bit l (q XOR 1)" by (simp only: push_bit_xor)
  also have "\<dots> = push_bit l (if even q then q + 1 else q - 1)" by (simp only: xor_one)
  finally show ?thesis by (auto simp: q push_bit_eq_mult algebra_simps diff_mult_distrib)
qed

lemma buddy_get_eq:
  assumes S: "pages_shape n ps fl A W" and p: "2 ^ l dvd page_base ps + p" "p < page_nr ps"
  shows "buddy_get ps p l = (if lower_half (page_base ps) p l then if p + 2 ^ l < page_nr ps then Some (p + 2 ^ l) else None
    else if 2 ^ l \<le> p then Some (p - 2 ^ l) else None)"
proof -
  note D = pages_shapeD [OF S]
  let ?b = "page_base ps"
  have b: "page_addr ps = ?b * 4096" using D(2) by simp
  have "page_to_addr ps (Some p) = push_bit 12 (?b + p)" using b by (simp add: page_to_addr_def push_bit_eq_mult)
  moreover have "2 ^ (l + 12) = push_bit 12 ((2 :: nat) ^ l)" by (simp add: push_bit_eq_mult power_add)
  ultimately have "page_to_addr ps (Some p) XOR 2 ^ (l + 12) = push_bit 12 (?b + p) XOR push_bit 12 (2 ^ l)" by (simp only:)
  also have "\<dots> = push_bit 12 ((?b + p) XOR 2 ^ l)" by (simp only: push_bit_xor)
  also have "\<dots> = 4096 * (if lower_half ?b p l then ?b + p + 2 ^ l else ?b + p - 2 ^ l)"
    unfolding xor_pow [OF p(1)] lower_half_def by (simp add: push_bit_eq_mult)
  finally have e: "buddy_get ps p l = addr_to_page ps (4096 * (if lower_half ?b p l then ?b + p + 2 ^ l else ?b + p - 2 ^ l))"
    by (simp add: buddy_get_def)
  have a: "addr_to_page ps (4096 * (?b + x)) = (if x < page_nr ps then Some x else None)" for x
  proof -
    have "4096 * (?b + x) = page_addr ps + 4096 * x" using b by simp
    then show ?thesis by (simp add: addr_to_page_def)
  qed
  show ?thesis
  proof (cases "lower_half ?b p l")
    case True
    then have "buddy_get ps p l = addr_to_page ps (4096 * (?b + (p + 2 ^ l)))" using e by (simp only: if_True add.assoc)
    with True a show ?thesis by (simp only: if_True)
  next
    case False
    show ?thesis
    proof (cases "2 ^ l \<le> p")
      case True
      then have "?b + p - 2 ^ l = ?b + (p - 2 ^ l)" by simp
      then have "buddy_get ps p l = addr_to_page ps (4096 * (?b + (p - 2 ^ l)))" using e False by (simp only: if_False)
      moreover have "p - 2 ^ l < page_nr ps" using p(2) by simp
      ultimately show ?thesis using False True a by (simp only: if_True if_False)
    next
      case small: False
      have "4096 * (?b + p - 2 ^ l) < page_addr ps" using small b D(1) by linarith
      then show ?thesis using False small e by (simp add: addr_to_page_def)
    qed
  qed
qed

lemma buddy_get_Some:
  assumes "pages_shape n ps fl A W" "2 ^ l dvd page_base ps + p" "p < page_nr ps"
  shows "buddy_get ps p l = Some j \<longleftrightarrow> buddies (page_base ps) l p j \<and> j < page_nr ps"
  using assms(3) by (auto simp: buddy_get_eq [OF assms] buddies_def)

lemma buddies_sym:
  assumes "2 ^ l dvd b + p" "buddies b l p j"
  shows "buddies b l j p"
proof (cases "lower_half b p l")
  case True
  then have j: "j = p + 2 ^ l" using assms(2) by (simp add: buddies_def)
  have "\<not> lower_half b j l"
  proof
    assume "lower_half b j l"
    then have "2 ^ Suc l dvd b + p + 2 ^ l" by (simp add: lower_half_def j add.assoc)
    moreover have "2 ^ Suc l dvd b + p" using True by (simp add: lower_half_def)
    ultimately have "(2 :: nat) ^ Suc l dvd 2 ^ l" by (simp only: dvd_add_right_iff)
    then have "(2 :: nat) ^ Suc l \<le> 2 ^ l" by (rule dvd_imp_le) simp
    then show False by simp
  qed
  then show ?thesis using j by (simp add: buddies_def)
next
  case False
  then have "p = j + 2 ^ l" using assms(2) by (simp add: buddies_def)
  moreover have "lower_half b j l" using buddies_align(2) [OF assms] calculation by (simp add: lower_half_def min_def)
  ultimately show ?thesis by (simp add: buddies_def)
qed

text \<open>No two free groups are buddies.\<close>

definition joined :: "nat \<Rightarrow> (nat \<Rightarrow> nat list) \<Rightarrow> bool" where
  "joined b fl \<longleftrightarrow> (\<forall>l i j. i \<in> set (fl l) \<longrightarrow> buddies b l i j \<longrightarrow> j \<notin> set (fl l))"

lemma joined_remove: "joined b fl \<Longrightarrow> joined b (fl(l := remove1 x (fl l)))"
  unfolding joined_def by (auto split: if_splits dest: notin_set_remove1 set_remove1_subset [THEN subsetD])

lemma joined_insert:
  assumes "joined b fl" "2 ^ l dvd b + x" "\<And>j. buddies b l x j \<Longrightarrow> j \<notin> set (fl l)"
    "\<And>i. i \<in> set (fl l) \<Longrightarrow> 2 ^ l dvd b + i"
  shows "joined b (fl(l := x # fl l))"
proof -
  have "\<not> buddies b l x x" using buddies_align(3) [OF assms(2)] by blast
  moreover have "\<not> buddies b l i x" if "i \<in> set (fl l)" for i
    using assms(3) [of i] buddies_sym [OF assms(4) [OF that]] that by blast
  ultimately show ?thesis using assms(1,3) unfolding joined_def by auto
qed

section \<open>Release\<close>

text \<open>The pages from \<open>n\<close> on are not in the allocator yet; their \<open>size_bits\<close> must not look like that of a free group.\<close>

definition untouched :: "nat \<Rightarrow> pages \<Rightarrow> bool" where
  "untouched n ps \<longleftrightarrow> (\<forall>x. n \<le> x \<longrightarrow> x < page_nr ps \<longrightarrow> pg_size_bits (page_mem ps x) = 0 \<or> ARCH_PAGE_LIST_SIZE \<le> pg_size_bits (page_mem ps x))"

definition same_but_lists :: "nat \<Rightarrow> pages \<Rightarrow> pages \<Rightarrow> bool" where
  "same_but_lists n ps ps' \<longleftrightarrow> page_addr ps' = page_addr ps \<and> page_nr ps' = page_nr ps \<and>
    (\<forall>x. pg_ref_cnt (page_mem ps' x) = pg_ref_cnt (page_mem ps x)) \<and>
    (\<forall>x \<ge> n. pg_size_bits (page_mem ps' x) = pg_size_bits (page_mem ps x))"

lemma same_but_lists_trans: "same_but_lists n a b \<Longrightarrow> same_but_lists n b c \<Longrightarrow> same_but_lists n a c"
  by (simp add: same_but_lists_def)

lemma free_buddy:
  assumes S: "pages_shape n ps fl A {(p, l)}" and U: "untouched n ps"
    and j: "buddies (page_base ps) l p j" "j < page_nr ps" "pg_size_bits (page_mem ps j) = l" "l = 0 \<Longrightarrow> j < n"
  shows "j \<in> set (fl l)" "j < n"
proof -
  note D = pages_shapeD [OF S]
  have g: "(p, l) \<in> free_groups fl \<union> A \<union> {(p, l)}" by simp
  show jn: "j < n"
  proof (rule ccontr)
    assume "\<not> j < n"
    then have "n \<le> j" by simp
    then have "pg_size_bits (page_mem ps j) = 0 \<or> ARCH_PAGE_LIST_SIZE \<le> pg_size_bits (page_mem ps j)"
      using U j(2) unfolding untouched_def by (elim allE [of _ j]) simp
    then have "l = 0 \<or> ARCH_PAGE_LIST_SIZE \<le> l" unfolding j(3) .
    then have "l = 0" using shape_group(1) [OF S g] by linarith
    with \<open>\<not> j < n\<close> j(4) show False by blast
  qed
  from tiling_buddy_head [OF D(7) g j(1) jn] obtain m where m: "(j, m) \<in> free_groups fl \<union> A \<union> {(p, l)}" by blast
  have "j \<noteq> p" using buddies_align(3) [OF shape_group(3) [OF S g] j(1)] by simp
  with m consider "j \<in> set (fl m)" | "(j, m) \<in> A" by (auto simp: free_groups_def)
  then show "j \<in> set (fl l)"
  proof cases
    case 1
    with lists_okD(3) [OF D(5)] j(3) show ?thesis by auto
  next
    case 2
    with D(6) j(3) shape_group(1) [OF S g] show ?thesis by auto
  qed
qed

lemma merge_ok:
  assumes "pages_shape n ps fl A {(p, l)}" "joined (page_base ps) fl" "untouched n ps"
    and "l = 0 \<Longrightarrow> (\<And>j. buddies (page_base ps) l p j \<Longrightarrow> j < page_nr ps \<Longrightarrow> j < n)"
  shows "\<exists>p' l' ps' fl'. pages_merge p l ps = (p', l', ps') \<and> pages_shape n ps' fl' A {(p', l')} \<and> joined (page_base ps') fl' \<and>
    (\<forall>j. buddies (page_base ps) l' p' j \<longrightarrow> j \<notin> set (fl' l')) \<and> same_but_lists n ps ps'"
  using assms
proof (induction p l ps arbitrary: fl rule: pages_merge.induct)
  case (1 p l ps)
  note S = "1.prems"(1) and D = pages_shapeD [OF "1.prems"(1)]
  have g: "(p, l) \<in> free_groups fl \<union> A \<union> {(p, l)}" by simp
  note G = shape_group [OF S g]
  have pn: "p < page_nr ps" using G(2) D(4) by simp
  note B = buddy_get_Some [OF S G(3) pn]
  show ?case
  proof (cases "\<exists>j. buddy_get ps p l = Some j \<and> pg_size_bits (page_mem ps j) = l")
    case True
    then obtain j where j: "buddy_get ps p l = Some j" "pg_size_bits (page_mem ps j) = l" by blast
    have b: "buddies (page_base ps) l p j" "j < page_nr ps" using B j(1) by auto
    note F = free_buddy [OF S "1.prems"(3) b j(2) "1.prems"(4) [OF _ b], simplified]
    define ps1 where "ps1 = page_remove j l ps"
    have "pages_shape n ps1 (fl(l := remove1 j (fl l))) A {(j, l), (p, l)}"
      using shape_remove [OF S F(1)] by (simp add: ps1_def)
    from shape_join [OF this, of p l j] b(1)
    have S1: "pages_shape n ps1 (fl(l := remove1 j (fl l))) A {(min p j, l + 1)}"
      by (simp add: ps1_def page_remove_fields insert_commute)
    have sb: "same_but_lists n ps ps1" using F(2) by (auto simp: same_but_lists_def ps1_def page_remove_fields)
    then have U1: "untouched n ps1" using "1.prems"(3) by (simp add: untouched_def same_but_lists_def)
    have J1: "joined (page_base ps1) (fl(l := remove1 j (fl l)))"
      using joined_remove [OF "1.prems"(2)] by (simp add: ps1_def page_remove_fields)
    have m: "(if p < j then p else j) = min p j" by simp
    have z: "ja < n" if "l + 1 = 0" "buddies (page_base ps1) (l + 1) (min p j) ja" "ja < page_nr ps1" for ja using that by simp
    obtain p' l' ps' fl' where
      r: "pages_merge (min p j) (l + 1) ps1 = (p', l', ps')" "pages_shape n ps' fl' A {(p', l')}" "joined (page_base ps') fl'"
        "\<forall>j. buddies (page_base ps1) l' p' j \<longrightarrow> j \<notin> set (fl' l')" "same_but_lists n ps1 ps'"
      using "1.IH" [OF G(1) j(1) j(2), unfolded m, folded ps1_def, OF S1 J1 U1 z] by blast
    have "pages_merge p l ps = (p', l', ps')"
      using r(1) j G(1) by (subst pages_merge.simps) (cases "p < j"; cases "p = j"; simp add: ps1_def min_def)
    moreover have "page_base ps1 = page_base ps" using sb by (simp add: same_but_lists_def)
    ultimately show ?thesis using r(2-) same_but_lists_trans [OF sb r(5)] by auto
  next
    case False
    then have "pages_merge p l ps = (p, l, ps)" by (subst pages_merge.simps) (auto split: option.split)
    moreover have "j \<notin> set (fl l)" if "buddies (page_base ps) l p j" for j
    proof
      assume j: "j \<in> set (fl l)"
      then have "j < page_nr ps" using shape_group(2) [OF S, of j l] D(4) by (auto simp: free_groups_def)
      with that B have "buddy_get ps p l = Some j" by blast
      with False lists_okD(3) [OF D(5) j] show False by blast
    qed
    ultimately show ?thesis using "1.prems" by (auto simp: same_but_lists_def)
  qed
qed

text \<open>Putting a group back into the free lists.\<close>

lemma put_back:
  assumes S: "pages_shape n ps fl A {(p, l)}" and J: "joined (page_base ps) fl" and U: "untouched n ps"
    and z: "l = 0 \<Longrightarrow> (\<And>j. buddies (page_base ps) l p j \<Longrightarrow> j < page_nr ps \<Longrightarrow> j < n)"
  shows "\<exists>ps' fl'. (case pages_merge p l ps of (p, level, ps) \<Rightarrow> map_option (Pair 1) (page_insert p level ps)) = Some (1 :: int, ps') \<and>
    pages_shape n ps' fl' A {} \<and> joined (page_base ps') fl' \<and> same_but_lists n ps ps'"
proof -
  from merge_ok [OF S J U z] obtain p' l' ps1 fl1 where
    m: "pages_merge p l ps = (p', l', ps1)" "pages_shape n ps1 fl1 A {(p', l')}" "joined (page_base ps1) fl1"
      "\<And>j. buddies (page_base ps) l' p' j \<Longrightarrow> j \<notin> set (fl1 l')" "same_but_lists n ps ps1" by blast
  have g: "(p', l') \<in> free_groups fl1 \<union> A \<union> {(p', l')}" by simp
  note G = shape_group [OF m(2) g]
  from shape_insert [OF m(2), of p' l'] obtain ps2 where
    i: "page_insert p' l' ps1 = Some ps2" "pages_shape n ps2 (fl1(l' := p' # fl1 l')) A {}" by auto
  note I = page_insert_fields [OF i(1)]
  have b: "page_base ps2 = page_base ps1" "page_base ps1 = page_base ps" using I(1) m(5) by (simp_all add: same_but_lists_def)
  have "joined (page_base ps1) (fl1(l' := p' # fl1 l'))"
    by (rule joined_insert [OF m(3) G(3)])
      (use m(4) b(2) shape_group(3) [OF m(2)] in \<open>auto simp: free_groups_def\<close>)
  moreover have "same_but_lists n ps1 ps2" using G(2) by (auto simp: same_but_lists_def I)
  ultimately show ?thesis using m(1) i same_but_lists_trans [OF m(5)] b
    by (intro exI [of _ ps2] exI [of _ "fl1(l' := p' # fl1 l')"]) simp
qed

text \<open>The allocator with the groups \<open>A\<close> in use.\<close>

definition pages_ok :: "pages \<Rightarrow> (nat \<times> nat) set \<Rightarrow> bool" where
  "pages_ok ps A \<longleftrightarrow> (\<exists>fl. pages_shape (page_nr ps) ps fl A {} \<and> joined (page_base ps) fl) \<and>
    (\<forall>(i, l) \<in> A. 0 < pg_ref_cnt (page_mem ps i))"

lemma untouched_all [simp]: "untouched (page_nr ps) ps"
  by (simp add: untouched_def)

lemma free_last:
  assumes ok: "pages_ok ps A" and p: "(p, l) \<in> A" and r: "pg_ref_cnt (page_mem ps p) = 1"
  shows "\<exists>ps'. pages_free p l ps = Some (1, ps') \<and> pages_ok ps' (A - {(p, l)}) \<and>
    page_addr ps' = page_addr ps \<and> page_nr ps' = page_nr ps \<and>
    (\<forall>x. x \<noteq> p \<longrightarrow> pg_ref_cnt (page_mem ps' x) = pg_ref_cnt (page_mem ps x))"
proof -
  from ok obtain fl where S: "pages_shape (page_nr ps) ps fl A {}" and J: "joined (page_base ps) fl"
    and R: "\<And>i m. (i, m) \<in> A \<Longrightarrow> 0 < pg_ref_cnt (page_mem ps i)" unfolding pages_ok_def by blast
  note D = pages_shapeD [OF S]
  define ps1 where "ps1 = upd_page p (pg_ref_cnt_update (\<lambda>r. r - 1)) ps"
  have S1: "pages_shape (page_nr ps) ps1 fl (A - {(p, l)}) {(p, l)}"
    unfolding ps1_def by (rule shape_cong [OF S, of _ p l]) (use p D(6) in auto)
  have f1: "page_base ps1 = page_base ps" "page_nr ps1 = page_nr ps" "page_addr ps1 = page_addr ps" by (simp_all add: ps1_def)
  from put_back [OF S1] J f1 untouched_all [of ps1] obtain ps' fl' where
    q: "(case pages_merge p l ps1 of (p, level, ps) \<Rightarrow> map_option (Pair 1) (page_insert p level ps)) = Some (1 :: int, ps')"
      "pages_shape (page_nr ps) ps' fl' (A - {(p, l)}) {}" "joined (page_base ps') fl'" "same_but_lists (page_nr ps) ps1 ps'" by auto
  have "pages_free p l ps = Some (1, ps')"
    using r q(1) D(6) [OF p] by (simp add: pages_free_def Let_def ps1_def)
  moreover have "0 < pg_ref_cnt (page_mem ps' i)" if "(i, m) \<in> A - {(p, l)}" for i m
  proof -
    have "i \<noteq> p" using that p tiling_head [OF D(7), of p m l] by auto
    then show ?thesis using R [of i m] that q(4) by (simp add: same_but_lists_def ps1_def)
  qed
  moreover have "pg_ref_cnt (page_mem ps' x) = pg_ref_cnt (page_mem ps x)" if "x \<noteq> p" for x
    using that q(4) by (simp add: same_but_lists_def ps1_def)
  ultimately show ?thesis using q(2,3,4) f1 by (auto simp: pages_ok_def same_but_lists_def)
qed

lemma free_shared:
  assumes ok: "pages_ok ps A" and p: "(p, l) \<in> A" and r: "1 < pg_ref_cnt (page_mem ps p)"
  shows "\<exists>ps'. pages_free p l ps = Some (0, ps') \<and> pages_ok ps' A \<and> pg_ref_cnt (page_mem ps' p) = pg_ref_cnt (page_mem ps p) - 1 \<and>
    page_addr ps' = page_addr ps \<and> page_nr ps' = page_nr ps"
proof -
  from ok obtain fl where S: "pages_shape (page_nr ps) ps fl A {}" and J: "joined (page_base ps) fl"
    and R: "\<And>i m. (i, m) \<in> A \<Longrightarrow> 0 < pg_ref_cnt (page_mem ps i)" unfolding pages_ok_def by blast
  note D = pages_shapeD [OF S]
  define ps1 where "ps1 = upd_page p (pg_ref_cnt_update (\<lambda>r. r - 1)) ps"
  have "pages_shape (page_nr ps) ps1 fl A {}"
    unfolding ps1_def by (rule shape_cong [OF S, of _ p l]) (use p D(6) in auto)
  moreover have "pages_free p l ps = Some (0, ps1)" using r D(6) [OF p] by (simp add: pages_free_def Let_def ps1_def)
  ultimately show ?thesis using R J r by (auto simp: pages_ok_def ps1_def)
qed

section \<open>Allocation\<close>

lemma split_ok:
  assumes "pages_shape (page_nr ps) ps fl A {(p, sb + d)}" "joined (page_base ps) fl"
  shows "\<exists>q ps' fl'. pages_split p sb d ps = Some (q, ps') \<and> pages_shape (page_nr ps) ps' fl' A {(q, sb)} \<and> joined (page_base ps') fl' \<and>
    page_addr ps' = page_addr ps \<and> page_nr ps' = page_nr ps \<and> (\<forall>x. pg_ref_cnt (page_mem ps' x) = pg_ref_cnt (page_mem ps x)) \<and>
    length (fl' 0) \<le> length (fl 0) + (if sb = 0 \<and> 0 < d then 1 else 0)"
  using assms
proof (induction d arbitrary: p ps fl)
  case (Suc d)
  let ?k = "sb + d" and ?q = "p + 2 ^ (sb + d)"
  note D = pages_shapeD [OF Suc.prems(1)]
  have "(p, sb + Suc d) \<in> free_groups fl \<union> A \<union> {(p, sb + Suc d)}" by simp
  note G = shape_group [OF Suc.prems(1) this]
  have "pages_shape (page_nr ps) ps fl A ({(p, Suc ?k)} - {(p, Suc ?k)} \<union> {(p, ?k), (?q, ?k)})"
    using Suc.prems(1) by (intro shape_split) simp_all
  then have S1: "pages_shape (page_nr ps) ps fl A {(p, ?k), (?q, ?k)}" by simp
  from shape_insert [OF S1, of p ?k] obtain ps1 where
    i: "page_insert p ?k ps = Some ps1" "pages_shape (page_nr ps) ps1 (fl(?k := p # fl ?k)) A ({(p, ?k), (?q, ?k)} - {(p, ?k)})" by auto
  note I = page_insert_fields [OF i(1)]
  have "{(p, ?k), (?q, ?k)} - {(p, ?k)} = {(?q, ?k)}" by auto
  with i(2) have S2: "pages_shape (page_nr ps1) ps1 (fl(?k := p # fl ?k)) A {(?q, ?k)}" by (simp only: I)
  have lh: "lower_half (page_base ps) p ?k" using G(3) by (simp add: lower_half_def)
  have al: "2 ^ ?k dvd page_base ps + p" using dvd_pow_le [of ?k "sb + Suc d"] G(3) by simp
  have "?q \<notin> set (fl ?k)" using pages_shapeD(9) [OF S1] by (auto simp: free_groups_def)
  then have "joined (page_base ps) (fl(?k := p # fl ?k))"
    using lh shape_group(3) [OF Suc.prems(1)]
    by (intro joined_insert [OF Suc.prems(2) al]) (auto simp: buddies_def free_groups_def)
  then have J2: "joined (page_base ps1) (fl(?k := p # fl ?k))" by (simp add: I)
  have "(0 :: nat) < 2 ^ ?k" by simp
  moreover have "p + 2 * 2 ^ ?k \<le> page_nr ps" using G(4) by simp
  ultimately have qn: "?q < page_nr ps" by linarith
  have "buddy_get ps1 p ?k = Some ?q"
    using buddy_get_Some [OF S2, of ?k p ?q] al G(2) lh qn by (simp add: I buddies_def)
  moreover have "length ((fl(?k := p # fl ?k)) 0) + (if sb = 0 \<and> 0 < d then 1 else 0) = length (fl 0) + (if sb = 0 then 1 else 0)"
    by simp
  ultimately show ?case using Suc.IH [OF S2 J2] i(1) by (fastforce simp: I simp del: fun_upd_apply)
qed auto

lemma take_ok:
  assumes S: "pages_shape (page_nr ps) ps fl A {(p, l)}" and J: "joined (page_base ps) fl"
    and R: "\<And>i m. (i, m) \<in> A \<Longrightarrow> 0 < pg_ref_cnt (page_mem ps i)"
  shows "pages_ok (upd_page p (\<lambda>x. x\<lparr>pg_size_bits := ARCH_ADDRESS_WIDTH_BITS, pg_ref_cnt := 1\<rparr>) ps) (insert (p, l) A)" (is "pages_ok ?ps _")
    and "pages_shape (page_nr ps) (upd_page p (\<lambda>x. x\<lparr>pg_size_bits := ARCH_ADDRESS_WIDTH_BITS, pg_ref_cnt := 1\<rparr>) ps) fl (insert (p, l) A) {}"
proof -
  note D = pages_shapeD [OF S]
  show "pages_shape (page_nr ps) ?ps fl (insert (p, l) A) {}"
    by (rule shape_cong [OF S, of _ p l]) (use D(6) in auto)
  then show "pages_ok ?ps (insert (p, l) A)" using J R unfolding pages_ok_def by auto
qed

lemma list_head:
  assumes "pages_shape n ps fl A W" "l < ARCH_PAGE_LIST_SIZE"
  shows "page_list ps l = (if fl l = [] then None else Some (hd (fl l)))"
  using lists_okD(1) [OF pages_shapeD(5) [OF assms(1)] assms(2)] by (cases "fl l") auto

lemma count_list_ok: "dlist (page_mem ps) pre h xs \<Longrightarrow> count_list ps l h = Some (2 ^ l * length xs)"
proof (induction xs arbitrary: pre h)
  case Nil
  then show ?case by (subst count_list.simps) simp
next
  case (Cons x xs)
  then have "count_list ps l (pg_next (page_mem ps x)) = Some (2 ^ l * length xs)" by auto
  with Cons.prems show ?case by (subst count_list.simps) simp
qed

text \<open>The free groups of a single page.\<close>

definition singles :: "pages \<Rightarrow> nat" where
  "singles ps = the (count_list ps 0 (page_list ps 0))"

lemma singles_eq: "pages_shape n ps fl A W \<Longrightarrow> singles ps = length (fl 0)"
  using count_list_ok [OF lists_okD(1) [OF pages_shapeD(5)], of n ps fl A W 0 0] by (simp add: singles_def)

lemma alloc_ok:
  assumes ok: "pages_ok ps A" and sb: "sb < ARCH_PAGE_LIST_SIZE"
  shows "if \<exists>l < ARCH_PAGE_LIST_SIZE. sb \<le> l \<and> page_list ps l \<noteq> None
    then \<exists>p ps'. pages_alloc sb ps = Some (Some p, ps') \<and> (p, sb) \<notin> A \<and> pages_ok ps' (insert (p, sb) A) \<and>
      pg_ref_cnt (page_mem ps' p) = 1 \<and> page_addr ps' = page_addr ps \<and> page_nr ps' = page_nr ps \<and>
      (\<forall>x. x \<noteq> p \<longrightarrow> pg_ref_cnt (page_mem ps' x) = pg_ref_cnt (page_mem ps x)) \<and> singles ps' \<le> (if sb = 0 then max 1 (singles ps) else singles ps)
    else pages_alloc sb ps = Some (None, ps)"
proof -
  from ok obtain fl where S: "pages_shape (page_nr ps) ps fl A {}" and J: "joined (page_base ps) fl"
    and R: "\<And>i m. (i, m) \<in> A \<Longrightarrow> 0 < pg_ref_cnt (page_mem ps i)" unfolding pages_ok_def by blast
  let ?f = "\<lambda>x. x\<lparr>pg_size_bits := ARCH_ADDRESS_WIDTH_BITS, pg_ref_cnt := 1\<rparr>"
  have got: "\<exists>q ps'. pages_split p sb (l - sb) (page_remove p l ps) = Some (q, ps') \<and> (q, sb) \<notin> A \<and>
      pages_ok (upd_page q ?f ps') (insert (q, sb) A) \<and> page_addr ps' = page_addr ps \<and> page_nr ps' = page_nr ps \<and>
      (\<forall>x. pg_ref_cnt (page_mem ps' x) = pg_ref_cnt (page_mem ps x)) \<and>
      singles (upd_page q ?f ps') \<le> singles ps + (if sb = 0 \<and> sb < l then 1 else 0)"
    if l: "l < ARCH_PAGE_LIST_SIZE" "sb \<le> l" "page_list ps l = Some p" for p l
  proof -
    define ps1 where "ps1 = page_remove p l ps"
    have p: "p \<in> set (fl l)" using list_head [OF S l(1)] l(3) by (auto split: if_splits)
    have "pages_shape (page_nr ps) ps1 (fl(l := remove1 p (fl l))) A {(p, l)}" unfolding ps1_def by (rule shape_remove [OF S p])
    then have S1: "pages_shape (page_nr ps1) ps1 (fl(l := remove1 p (fl l))) A {(p, sb + (l - sb))}"
      using l(2) by (simp add: ps1_def page_remove_fields)
    have J1: "joined (page_base ps1) (fl(l := remove1 p (fl l)))" using joined_remove [OF J] by (simp add: ps1_def page_remove_fields)
    from split_ok [OF S1 J1] obtain q ps2 fl2 where
      s: "pages_split p sb (l - sb) ps1 = Some (q, ps2)" "pages_shape (page_nr ps1) ps2 fl2 A {(q, sb)}" "joined (page_base ps2) fl2"
        "page_addr ps2 = page_addr ps1" "page_nr ps2 = page_nr ps1" "\<And>x. pg_ref_cnt (page_mem ps2 x) = pg_ref_cnt (page_mem ps1 x)"
        "length (fl2 0) \<le> length ((fl(l := remove1 p (fl l))) 0) + (if sb = 0 \<and> 0 < l - sb then 1 else 0)" by blast
    have S2: "pages_shape (page_nr ps2) ps2 fl2 A {(q, sb)}" and R2: "\<And>i m. (i, m) \<in> A \<Longrightarrow> 0 < pg_ref_cnt (page_mem ps2 i)"
      using s(2,5,6) R by (simp_all add: ps1_def page_remove_fields)
    have ok2: "pages_ok (upd_page q ?f ps2) (insert (q, sb) A)" "pages_shape (page_nr ps2) (upd_page q ?f ps2) fl2 (insert (q, sb) A) {}"
      by (rule take_ok [OF S2 s(3)], erule R2)+
    have "length ((fl(l := remove1 p (fl l))) 0) \<le> length (fl 0)" by (auto simp: length_remove1)
    then have "singles (upd_page q ?f ps2) \<le> singles ps + (if sb = 0 \<and> sb < l then 1 else 0)"
      using s(7) singles_eq [OF ok2(2)] singles_eq [OF S] by (auto split: if_splits)
    moreover have "(q, sb) \<notin> A" using pages_shapeD(8) [OF s(2)] by simp
    ultimately show ?thesis using ok2(1) s(1,4,5,6) by (auto simp: ps1_def page_remove_fields)
  qed
  show ?thesis
  proof (cases "page_list ps sb")
    case (Some p)
    with got [OF sb _ Some] have "pages_ok (upd_page p ?f (page_remove p sb ps)) (insert (p, sb) A)" "(p, sb) \<notin> A"
      "singles (upd_page p ?f (page_remove p sb ps)) \<le> singles ps" by auto
    moreover have "pages_alloc sb ps = Some (Some p, upd_page p ?f (page_remove p sb ps))"
      using Some sb by (simp add: pages_alloc_def Let_def)
    ultimately show ?thesis using Some sb by (auto simp: page_remove_fields)
  next
    case None
    show ?thesis
    proof (cases "List.find (\<lambda>l. page_list ps l \<noteq> None) [sb + 1..<ARCH_PAGE_LIST_SIZE]")
      case none: None
      then have "\<not> (\<exists>l < ARCH_PAGE_LIST_SIZE. sb \<le> l \<and> page_list ps l \<noteq> None)"
        using None by (auto simp: find_None_iff le_less Suc_le_eq)
      with none None sb show ?thesis by (auto simp: pages_alloc_def Let_def)
    next
      case (Some l)
      then have l: "l < ARCH_PAGE_LIST_SIZE" "sb \<le> l" "page_list ps l \<noteq> None" by (auto simp: find_Some_iff nth_append)
      then obtain p where p: "page_list ps l = Some p" by blast
      have "singles ps = 0" if "sb = 0" using singles_eq [OF S] list_head [OF S sb] None that by (simp split: if_splits)
      then have "singles ps + (if sb = 0 \<and> sb < l then 1 else 0) \<le> (if sb = 0 then max 1 (singles ps) else singles ps)" by auto
      with got [OF l(1,2) p] obtain q ps2 where
        "pages_split p sb (l - sb) (page_remove p l ps) = Some (q, ps2)" "(q, sb) \<notin> A" "pages_ok (upd_page q ?f ps2) (insert (q, sb) A)"
        "page_addr ps2 = page_addr ps" "page_nr ps2 = page_nr ps" "\<And>x. pg_ref_cnt (page_mem ps2 x) = pg_ref_cnt (page_mem ps x)"
        "singles (upd_page q ?f ps2) \<le> (if sb = 0 then max 1 (singles ps) else singles ps)" using order_trans by blast
      with Some None sb p l show ?thesis by (auto simp: pages_alloc_def Let_def simp del: One_nat_def)
    qed
  qed
qed

section \<open>Initialisation\<close>

lemma shape_extend:
  assumes S: "pages_shape n ps fl A {}" and l: "2 ^ l dvd page_base ps + n" "n + 2 ^ l \<le> page_nr ps"
  shows "pages_shape (n + 2 ^ l) ps fl A {(n, l)}"
proof -
  note D = pages_shapeD [OF S]
  have lt: "i < n" if "(i, m) \<in> free_groups fl \<union> A" for i m using shape_group(2) [OF S, of i m] that by blast
  have "tiling (page_base ps) (n + 2 ^ l) (insert (n, l) (free_groups fl \<union> A \<union> {}))" by (rule tiling_extend [OF D(7) l(1)])
  moreover have "insert (n, l) (free_groups fl \<union> A \<union> {}) = free_groups fl \<union> A \<union> {(n, l)}" by auto
  moreover have "(n, l) \<notin> free_groups fl \<union> A" using lt [of n l] by auto
  ultimately show ?thesis using D l(2) unfolding pages_shape_def by auto
qed

lemma init_step:
  assumes S: "pages_shape n ps fl {} {}" and J: "joined (page_base ps) fl" and U: "untouched n ps"
    and l: "2 ^ l dvd page_base ps + n" "n + 2 ^ l \<le> page_nr ps" "l = 0 \<Longrightarrow> 2 dvd page_base ps + n \<Longrightarrow> page_nr ps = n + 1"
  shows "\<exists>ps' fl'. pages_free n l (upd_page n (\<lambda>x. x\<lparr>pg_size_bits := ARCH_ADDRESS_WIDTH_BITS, pg_ref_cnt := 1\<rparr>) ps) = Some (1, ps') \<and>
    pages_shape (n + 2 ^ l) ps' fl' {} {} \<and> joined (page_base ps') fl' \<and> untouched (n + 2 ^ l) ps' \<and>
    page_addr ps' = page_addr ps \<and> page_nr ps' = page_nr ps"
proof -
  let ?f = "\<lambda>x. x\<lparr>pg_size_bits := ARCH_ADDRESS_WIDTH_BITS, pg_ref_cnt := 0 :: int\<rparr>"
  define ps1 where "ps1 = upd_page n ?f ps"
  have S1: "pages_shape (n + 2 ^ l) ps1 fl {} {(n, l)}"
    unfolding ps1_def by (rule shape_cong [OF shape_extend [OF S l(1,2)], of _ n l]) auto
  have f: "page_base ps1 = page_base ps" "page_nr ps1 = page_nr ps" "page_addr ps1 = page_addr ps" by (simp_all add: ps1_def)
  have U1: "untouched (n + 2 ^ l) ps1" using U by (auto simp: untouched_def ps1_def)
  have z: "j < n + 2 ^ l" if "l = 0" "buddies (page_base ps1) l n j" "j < page_nr ps1" for j
  proof (cases "2 dvd page_base ps + n")
    case True
    with that l(3) f show ?thesis by auto
  next
    case False
    with that f show ?thesis by (auto simp: buddies_def lower_half_def)
  qed
  from put_back [OF S1 _ U1 z] J f obtain ps' fl' where
    q: "(case pages_merge n l ps1 of (p, level, ps) \<Rightarrow> map_option (Pair 1) (page_insert p level ps)) = Some (1 :: int, ps')"
      "pages_shape (n + 2 ^ l) ps' fl' {} {}" "joined (page_base ps') fl'" "same_but_lists (n + 2 ^ l) ps1 ps'" by auto
  have "upd_page n (pg_ref_cnt_update (\<lambda>r. r - 1)) (upd_page n (\<lambda>x. x\<lparr>pg_size_bits := ARCH_ADDRESS_WIDTH_BITS, pg_ref_cnt := 1\<rparr>) ps) = ps1"
    by (simp add: ps1_def upd_page_def comp_def)
  then have "pages_free n l (upd_page n (\<lambda>x. x\<lparr>pg_size_bits := ARCH_ADDRESS_WIDTH_BITS, pg_ref_cnt := 1\<rparr>) ps) = Some (1, ps')"
    using q(1) by (simp add: pages_free_def Let_def) (simp add: ps1_def)
  moreover have "untouched (n + 2 ^ l) ps'" using U1 q(4) by (simp add: untouched_def same_but_lists_def)
  ultimately show ?thesis using q f by (auto simp: same_but_lists_def)
qed

lemma low_bit: "0 < (m :: nat) \<Longrightarrow> \<exists>z q. m = 2 ^ z * (2 * q + 1)"
proof (induction m rule: less_induct)
  case (less m)
  show ?case
  proof (cases "odd m")
    case True
    then obtain q where "m = 2 * q + 1" by (elim oddE) simp
    then show ?thesis by (intro exI [of _ 0] exI [of _ q]) simp
  next
    case False
    then obtain h where h: "m = 2 * h" by (auto elim: evenE)
    with less obtain z q where "h = 2 ^ z * (2 * q + 1)" by fastforce
    with h show ?thesis by (intro exI [of _ "Suc z"] exI [of _ q]) simp
  qed
qed

lemma chunk_size:
  assumes s: "unat s = 4096 * (b + n)" "0 < b + n" and e: "unat e = 4096 * (b + N)" and n: "n < N"
  defines "t \<equiv> 64 - 1 - rt_clz (e - s)" and "c \<equiv> (if rt_ctz s < 64 - 1 - rt_clz (e - s) then rt_ctz s else 64 - 1 - rt_clz (e - s))"
  shows "\<exists>l. c = int (l + 12) \<and> 2 ^ l dvd b + n \<and> n + 2 ^ l \<le> N \<and> (l = 0 \<longrightarrow> 2 dvd b + n \<longrightarrow> N = n + 1) \<and>
    unat (s + push_bit (l + 12) 1) = 4096 * (b + (n + 2 ^ l))"
proof -
  have "s \<le> e" using s e n by (simp add: word_le_nat_alt)
  then have rem: "unat (e - s) = 4096 * (N - n)" using s e n by (simp add: unat_sub diff_mult_distrib2 [symmetric])
  have "0 < N - n" using n by simp
  then obtain u where u: "2 ^ u \<le> N - n" "N - n < 2 ^ (u + 1)" using top_bit by blast
  have "2 ^ (u + 12) \<le> unat (e - s)" "unat (e - s) < 2 ^ (u + 12 + 1)" using u rem by (simp_all add: power_add)
  from rt_clz_top [OF this] have t: "64 - 1 - rt_clz (e - s) = int (u + 12)" by simp
  obtain z q where z: "b + n = 2 ^ z * (2 * q + 1)" using low_bit [OF s(2)] by blast
  then have "unat s = 2 ^ (z + 12) * (2 * q + 1)" using s(1) by (simp add: power_add)
  from rt_ctz_low [OF this] have zz: "rt_ctz s = int (z + 12)" by simp
  define l where "l = min u z"
  have c: "c = int (l + 12)" unfolding c_def t zz l_def by (simp add: min_def)
  have dv: "2 ^ l dvd b + n" unfolding z l_def by (intro dvd_mult2 le_imp_power_dvd) simp
  have "(2 :: nat) ^ l \<le> 2 ^ u" by (simp add: l_def)
  then have fit: "n + 2 ^ l \<le> N" using u(1) n by linarith
  have "N = n + 1" if "l = 0" "2 dvd b + n"
  proof -
    have "z \<noteq> 0"
    proof
      assume "z = 0"
      then have "odd (b + n)" using z by simp
      with that(2) show False by blast
    qed
    then have "u = 0" using that(1) by (simp add: l_def min_def split: if_splits)
    with u show ?thesis by simp
  qed
  moreover have "unat (s + push_bit (l + 12) 1) = 4096 * (b + (n + 2 ^ l))"
  proof -
    have "4096 * (b + N) < 2 ^ 64" using unsigned_less [of e, where ?'a = nat] unfolding e by simp
    moreover have "4096 * (b + (n + 2 ^ l)) \<le> 4096 * (b + N)" using fit by simp
    ultimately have lt: "4096 * (b + (n + 2 ^ l)) < 2 ^ 64" by linarith
    have "(2 :: nat) ^ (l + 12) \<le> 4096 * (b + (n + 2 ^ l))" by (simp add: power_add)
    then have "(2 :: nat) ^ (l + 12) < 2 ^ 64" using lt by (rule le_less_trans)
    then have p: "unat (push_bit (l + 12) 1 :: u64) = 2 ^ (l + 12)"
      unfolding unsigned_push_bit_eq by (subst take_bit_nat_eq_self) (simp_all add: push_bit_eq_mult)
    have "unat s + unat (push_bit (l + 12) 1 :: u64) = 4096 * (b + (n + 2 ^ l))"
      unfolding p s(1) by (simp add: power_add)
    then show ?thesis using lt by (simp add: unat_word_ariths)
  qed
  ultimately show ?thesis using c dv fit by blast
qed

lemma init_loop_ok:
  assumes "pages_shape n ps fl {} {}" "joined (page_base ps) fl" "untouched n ps"
    and "unat s = ARCH_PAGE_SIZE * (page_base ps + n)" "unat e = ARCH_PAGE_SIZE * (page_base ps + page_nr ps)"
  shows "\<exists>ps'. page_init_loop s e ps = Some ps' \<and> pages_ok ps' {} \<and> page_addr ps' = page_addr ps \<and> page_nr ps' = page_nr ps"
  using assms
proof (induction "page_nr ps - n" arbitrary: n ps fl s rule: less_induct)
  case less
  note S = less.prems(1) and D = pages_shapeD [OF less.prems(1)]
  show ?case
  proof (cases "n = page_nr ps")
    case True
    then have "s = e" using less.prems(4,5) by (simp add: word_unat_eq_iff)
    then have "page_init_loop s e ps = Some ps" by (subst page_init_loop.simps) simp
    with True less.prems(1,2) show ?thesis by (auto simp: pages_ok_def)
  next
    case False
    then have n: "n < page_nr ps" using D(4) by simp
    then have ne: "s \<noteq> e" using less.prems(4,5) by auto
    have b: "page_addr ps = ARCH_PAGE_SIZE * page_base ps" using D(2) by simp
    then have "0 < page_base ps + n" using D(1) by simp
    from chunk_size [OF less.prems(4) this less.prems(5) n] obtain l where
      l: "(if rt_ctz s < 64 - 1 - rt_clz (e - s) then rt_ctz s else 64 - 1 - rt_clz (e - s)) = int (l + 12)"
        "2 ^ l dvd page_base ps + n" "n + 2 ^ l \<le> page_nr ps" "l = 0 \<Longrightarrow> 2 dvd page_base ps + n \<Longrightarrow> page_nr ps = n + 1"
        "unat (s + push_bit (l + 12) 1) = ARCH_PAGE_SIZE * (page_base ps + (n + 2 ^ l))" by blast
    from init_step [OF S less.prems(2,3) l(2,3,4)] obtain ps1 fl1 where
      f: "pages_free n l (upd_page n (\<lambda>x. x\<lparr>pg_size_bits := ARCH_ADDRESS_WIDTH_BITS, pg_ref_cnt := 1\<rparr>) ps) = Some (1, ps1)"
        "pages_shape (n + 2 ^ l) ps1 fl1 {} {}" "joined (page_base ps1) fl1" "untouched (n + 2 ^ l) ps1"
        "page_addr ps1 = page_addr ps" "page_nr ps1 = page_nr ps" by blast
    have "page_nr ps1 - (n + 2 ^ l) < page_nr ps - n" using n f(6) by (simp add: diff_less_mono2)
    from less.hyps [OF this f(2,3,4)] l(5) less.prems(5) f(5,6) obtain ps' where
      r: "page_init_loop (s + push_bit (l + 12) 1) e ps1 = Some ps'" "pages_ok ps' {}" "page_addr ps' = page_addr ps" "page_nr ps' = page_nr ps" by auto
    have "addr_to_page ps (unat s) = Some n"
      using less.prems(4) n b by (simp add: addr_to_page_def)
    then have "page_init_loop s e ps = Some ps'"
      using ne f(1) r(1) by (subst page_init_loop.simps) (unfold Let_def l(1) nat_int, simp)
    with r show ?thesis by blast
  qed
qed

lemma page_down: "unat (x AND NOT 4095 :: u64) = ARCH_PAGE_SIZE * (unat x div ARCH_PAGE_SIZE)"
  using unat_and_not_mask [of x 12] by (simp add: mask_eq_exp_minus_1 mult.commute)

text \<open>The pages that hold the \<open>struct page\<close> array, and the pages left.\<close>

lemma page_init_ok:
  assumes s: "unat start + 4095 < 2 ^ 64" and S: "Sp = (unat start + 4095) div ARCH_PAGE_SIZE" and E: "Ep = unat e div ARCH_PAGE_SIZE"
    and T: "Sp + 2 \<le> Ep" "Ep - Sp < 2 ^ 31" and z: "\<And>x. pg_size_bits (page_mem ps x) = 0"
  defines "M \<equiv> (Ep - Sp + 170) div 171"
  shows "\<exists>ps'. rt_page_init start e ps = Some ps' \<and> pages_ok ps' {} \<and>
    page_addr ps' = ARCH_PAGE_SIZE * (Sp + M) \<and> page_nr ps' = Ep - Sp - M"
proof -
  define T' where "T' = Ep - Sp"
  define s1 where "s1 = (start + 4095) AND NOT 4095"
  define e1 where "e1 = e AND NOT 4095"
  define s2 where "s2 = s1 + word_of_int (int M * 4096)"
  have u1: "unat s1 = 4096 * Sp" unfolding s1_def page_down S using s by (simp add: unat_word_ariths)
  have u2: "unat e1 = 4096 * Ep" unfolding e1_def page_down E ..
  have e64: "4096 * Ep < 2 ^ 64" using unsigned_less [of e1, where ?'a = nat] unfolding u2 by simp
  have M: "1 \<le> M" "M < T'" using T(1) by (auto simp: M_def T'_def)
  have "s1 \<le> e1" using u1 u2 T(1) by (simp add: word_le_nat_alt)
  then have d: "unat (e1 - s1) = 4096 * T'" using u1 u2 T(1) by (simp add: unat_sub T'_def diff_mult_distrib2 [symmetric])
  then have d12: "unat (drop_bit 12 (e1 - s1)) = T'" unfolding unat_drop_bit_eq by (simp add: drop_bit_eq_div)
  have tot: "sint (ucast (drop_bit 12 (e1 - s1)) :: 32 word) = int T'"
  proof -
    have "unat (ucast (drop_bit 12 (e1 - s1)) :: 32 word) = take_bit 32 T'" unfolding unsigned_ucast_eq d12 by simp
    also have "\<dots> = T'" using T(2) by (intro take_bit_nat_eq_self) (simp add: T'_def)
    finally have "unat (ucast (drop_bit 12 (e1 - s1)) :: 32 word) = T'" .
    then have w: "uint (ucast (drop_bit 12 (e1 - s1)) :: 32 word) = int T'" by (subst uint_nat) (simp only:)
    have "int T' < 2 ^ 31" using T(2) by (simp add: T'_def)
    then show ?thesis unfolding sint_uint w by (intro signed_take_bit_int_eq_self) simp_all
  qed
  have mnr: "(int T' + 4096 div 24) sdiv (4096 div 24 + 1) = int M"
    by (simp add: signed_divide_int_def M_def T'_def of_nat_div)
  have "unat (word_of_int (int M * 4096) :: u64) = 4096 * M"
  proof -
    have "4096 * M < 2 ^ 64" using M(2) T'_def e64 by linarith
    then have "unat (of_nat (4096 * M) :: u64) = 4096 * M" unfolding unsigned_of_nat by (subst take_bit_nat_eq_self) simp_all
    then show ?thesis by (simp add: mult.commute)
  qed
  moreover have "4096 * (Sp + M) \<le> 4096 * Ep" using M(2) T(1) by (simp add: T'_def)
  ultimately have us2: "unat s2 = 4096 * (Sp + M)" using e64 by (simp add: s2_def unat_word_ariths u1)
  then have "s2 \<le> e1" using u2 \<open>4096 * (Sp + M) \<le> 4096 * Ep\<close> by (simp add: word_le_nat_alt)
  then have "unat (e1 - s2) = 4096 * (Ep - (Sp + M))" using us2 u2 by (simp add: unat_sub diff_mult_distrib2)
  then have nr: "unat (drop_bit 12 (e1 - s2)) = Ep - Sp - M" unfolding unat_drop_bit_eq by (simp add: drop_bit_eq_div)
  define ps1 where "ps1 = ps\<lparr>page_addr := unat s2, page_nr := unat (drop_bit 12 (e1 - s2)), page_list := (\<lambda>_. None)\<rparr>"
  have i: "rt_page_init start e ps = page_init_loop s2 e1 ps1"
    unfolding rt_page_init_def Let_def s1_def [symmetric] e1_def [symmetric] tot mnr
    using M(2) by (simp add: s2_def ps1_def)
  have f: "page_base ps1 = Sp + M" "page_nr ps1 = Ep - Sp - M" "page_addr ps1 = 4096 * (Sp + M)" using us2 nr by (simp_all add: ps1_def)
  have nn: "Sp + M + (Ep - Sp - M) = Ep" using M(2) T(1) by (simp add: T'_def)
  have "4096 * (Sp + M) + (Ep - Sp - M) * 4096 = 4096 * Ep" using nn by (metis distrib_left mult.commute)
  then have "pages_shape 0 ps1 (\<lambda>_. []) {} {}"
    using M(1) e64 f unfolding pages_shape_def by (simp add: lists_ok_def tiling_def free_groups_def ps1_def)
  moreover have "joined (page_base ps1) (\<lambda>_. [])" by (simp add: joined_def)
  moreover have "untouched 0 ps1" using z by (simp add: untouched_def ps1_def)
  moreover have "unat s2 = 4096 * (page_base ps1 + 0)" "unat e1 = 4096 * (page_base ps1 + page_nr ps1)"
    unfolding f(1,2) us2 u2 nn by simp_all
  ultimately show ?thesis unfolding i using init_loop_ok [of 0 ps1 "\<lambda>_. []" s2 e1] f by simp
qed

section \<open>Counting\<close>

lemma tiling_sum:
  assumes T: "tiling b n G"
  shows "finite G" "(\<Sum>(i, l) \<in> G. 2 ^ l) = n"
proof -
  have "l < n" if "(i, l) \<in> G" for i l
    using tilingD(1) [OF T that] less_exp [of l] by linarith
  moreover have "i < n" if "(i, l) \<in> G" for i l
  proof -
    have "(0 :: nat) < 2 ^ l" by simp
    then show ?thesis using tilingD(1) [OF T that] by linarith
  qed
  ultimately have "G \<subseteq> {0..<n} \<times> {0..<n}" by auto
  then show fin: "finite G" by (rule finite_subset) simp
  have dis: "{fst g..<fst g + 2 ^ snd g} \<inter> {fst g'..<fst g' + 2 ^ snd g'} = {}" if "g \<in> G" "g' \<in> G" "g \<noteq> g'" for g g'
    using tilingD(3) [OF T, of "fst g" "snd g" "fst g'" "snd g'"] that by auto
  have "(\<Union>g \<in> G. {fst g..<fst g + 2 ^ snd g}) = {0..<n}"
  proof
    show "(\<Union>g \<in> G. {fst g..<fst g + 2 ^ snd g}) \<subseteq> {0..<n}" using tilingD(1) [OF T] by fastforce
    show "{0..<n} \<subseteq> (\<Union>g \<in> G. {fst g..<fst g + 2 ^ snd g})" using tilingD(4) [OF T] by fastforce
  qed
  then have "n = card (\<Union>g \<in> G. {fst g..<fst g + 2 ^ snd g})" by simp
  also have "\<dots> = (\<Sum>g \<in> G. card {fst g..<fst g + 2 ^ snd g})" by (rule card_UN_disjoint) (use fin dis in auto)
  also have "\<dots> = (\<Sum>(i, l) \<in> G. 2 ^ l)" by (simp add: case_prod_beta)
  finally show "(\<Sum>(i, l) \<in> G. 2 ^ l) = n" by simp
qed

lemma count_free_ok:
  assumes "lists_ok (page_mem ps) (page_list ps) fl" "\<forall>l \<in> set ls. l < ARCH_PAGE_LIST_SIZE"
  shows "count_free ps ls = Some (sum_list (map (\<lambda>l. 2 ^ l * length (fl l)) ls))"
  using assms(2) by (induction ls) (auto simp: count_list_ok [OF lists_okD(1) [OF assms(1)]])

lemma free_sum:
  assumes L: "lists_ok m pl fl"
  shows "(\<Sum>(i, l) \<in> free_groups fl. 2 ^ l) = sum_list (map (\<lambda>l. 2 ^ l * length (fl l)) [0..<ARCH_PAGE_LIST_SIZE])"
proof -
  have "free_groups fl = (\<lambda>(l, i). (i, l)) ` (SIGMA l : {0..<ARCH_PAGE_LIST_SIZE}. set (fl l))"
    using lists_okD(4) [OF L] by (force simp: free_groups_def)
  then have "(\<Sum>(i, l) \<in> free_groups fl. 2 ^ l) = (\<Sum>(l, i) \<in> (SIGMA l : {0..<ARCH_PAGE_LIST_SIZE}. set (fl l)). (2 :: nat) ^ l)"
    by (simp only:) (subst sum.reindex, auto simp: inj_on_def case_prod_beta)
  also have "\<dots> = (\<Sum>l = 0..<ARCH_PAGE_LIST_SIZE. \<Sum>i \<in> set (fl l). 2 ^ l)"
    by (rule sum.Sigma [symmetric]) auto
  also have "\<dots> = (\<Sum>l = 0..<ARCH_PAGE_LIST_SIZE. 2 ^ l * length (fl l))"
    using lists_okD(2) [OF L] by (simp add: distinct_card mult.commute)
  also have "\<dots> = sum_list (map (\<lambda>l. 2 ^ l * length (fl l)) [0..<ARCH_PAGE_LIST_SIZE])"
    by (simp only: interv_sum_list_conv_sum_set_nat set_upt)
  finally show ?thesis .
qed

lemma ref_shape:
  assumes S: "pages_shape n ps fl A W"
  shows "pages_shape n (upd_page q (pg_ref_cnt_update f) ps) fl A W"
proof -
  note D = pages_shapeD [OF S]
  have "dlist ((page_mem ps)(q := pg_ref_cnt_update f (page_mem ps q))) None h (fl k) = dlist (page_mem ps) None h (fl k)" for h k
    by (rule dlist_cong) simp
  then have "lists_ok (page_mem (upd_page q (pg_ref_cnt_update f) ps)) (page_list (upd_page q (pg_ref_cnt_update f) ps)) fl"
    using D(5) unfolding lists_ok_def by auto
  with D show ?thesis unfolding pages_shape_def by auto
qed

lemma ref_ok:
  assumes "pages_ok ps A" "\<And>r. 0 < r \<Longrightarrow> 0 < f r"
  shows "pages_ok (upd_page q (pg_ref_cnt_update f) ps) A"
  using assms ref_shape unfolding pages_ok_def by fastforce

section \<open>Properties\<close>

lemma ok_group:
  assumes "pages_ok ps A" "(p, l) \<in> A"
  shows "2 ^ l * ARCH_PAGE_SIZE dvd page_addr ps + ARCH_PAGE_SIZE * p" "p + 2 ^ l \<le> page_nr ps" "p < page_nr ps" "0 < page_addr ps"
proof -
  from assms(1) obtain fl where S: "pages_shape (page_nr ps) ps fl A {}" unfolding pages_ok_def by blast
  note D = pages_shapeD [OF S] and G = shape_group [OF S, of p l]
  show "p + 2 ^ l \<le> page_nr ps" "p < page_nr ps" "0 < page_addr ps" using G D(1) assms(2) by auto
  have "page_addr ps + ARCH_PAGE_SIZE * p = (page_base ps + p) * ARCH_PAGE_SIZE" using D(2) by simp
  moreover have "2 ^ l * ARCH_PAGE_SIZE dvd (page_base ps + p) * ARCH_PAGE_SIZE" using G(3) assms(2) by (intro mult_dvd_mono) auto
  ultimately show "2 ^ l * ARCH_PAGE_SIZE dvd page_addr ps + ARCH_PAGE_SIZE * p" by (simp only:)
qed

lemma ok_apart:
  assumes "pages_ok ps A" "(p, l) \<in> A" "(i, m) \<in> A" "(i, m) \<noteq> (p, l)"
  shows "p + 2 ^ l \<le> i \<or> i + 2 ^ m \<le> p"
proof -
  from assms(1) obtain fl where S: "pages_shape (page_nr ps) ps fl A {}" unfolding pages_ok_def by blast
  from tilingD(3) [OF pages_shapeD(7) [OF S], of p l i m] assms show ?thesis by blast
qed

lemma addr_group: "pages_ok ps A \<Longrightarrow> (p, l) \<in> A \<Longrightarrow> addr_to_page ps (page_addr ps + ARCH_PAGE_SIZE * p) = Some p"
  using ok_group(3) [of ps A p l] by (simp add: addr_to_page_def)

text \<open>C14: Allocating \<open>2 ^ size_bits\<close> pages: if a list holds a large enough group, the result is a group inside the managed range, aligned
  to its own size, that overlaps no group in use, with reference count 1; otherwise it is null and nothing changes. The
  loops over the lists and over the halves end, and no null pointer is followed.\<close>

theorem pages_alloc_correct:
  assumes "pages_ok ps A" "sb < 52"
  shows "if \<exists>l < 52. sb \<le> l \<and> page_list ps l \<noteq> None
    then \<exists>p ps'. rt_pages_alloc sb ps = Some (page_addr ps + 4096 * p, ps') \<and> pages_ok ps' (insert (p, sb) A) \<and>
      2 ^ sb * 4096 dvd page_addr ps + 4096 * p \<and> p + 2 ^ sb \<le> page_nr ps \<and>
      (\<forall>(i, l) \<in> A. p + 2 ^ sb \<le> i \<or> i + 2 ^ l \<le> p) \<and> pg_ref_cnt (page_mem ps' p) = 1
    else rt_pages_alloc sb ps = Some (0, ps)"
proof (cases "\<exists>l < 52. sb \<le> l \<and> page_list ps l \<noteq> None")
  case True
  with alloc_ok [OF assms] obtain p ps' where
    p: "pages_alloc sb ps = Some (Some p, ps')" "(p, sb) \<notin> A" "pages_ok ps' (insert (p, sb) A)" "pg_ref_cnt (page_mem ps' p) = 1"
      "page_addr ps' = page_addr ps" "page_nr ps' = page_nr ps" by auto
  have "p + 2 ^ sb \<le> i \<or> i + 2 ^ l \<le> p" if "(i, l) \<in> A" for i l
    using ok_apart [OF p(3), of p sb i l] that p(2) by auto
  moreover have "rt_pages_alloc sb ps = Some (page_addr ps + 4096 * p, ps')"
    using p(1,5) by (simp add: rt_pages_alloc_def page_to_addr_def mult.commute)
  ultimately show ?thesis using True p ok_group(1,2) [OF p(3), of p sb] by auto
next
  case False
  with alloc_ok [OF assms] have "pages_alloc sb ps = Some (None, ps)" by auto
  with False show ?thesis by (auto simp: rt_pages_alloc_def page_to_addr_def)
qed

text \<open>Three pages from address 4096 on: the first is free, the other two are a group in use.\<close>

definition sample_pages :: pages where
  "sample_pages = \<lparr>page_addr = 4096, page_nr = 3,
     page_mem = (\<lambda>_. \<lparr>pg_next = None, pg_pre = None, pg_size_bits = 64, pg_ref_cnt = 0\<rparr>)
       (0 := \<lparr>pg_next = None, pg_pre = None, pg_size_bits = 0, pg_ref_cnt = 0\<rparr>,
        1 := \<lparr>pg_next = None, pg_pre = None, pg_size_bits = 64, pg_ref_cnt = 1\<rparr>),
     page_list = [0 \<mapsto> 0]\<rparr>"

lemma sample_pages_ok: "pages_ok sample_pages {(1, 1)}"
proof -
  let ?fl = "(\<lambda>_. [])(0 := [0]) :: nat \<Rightarrow> nat list"
  have F: "free_groups ?fl = {(0, 0)}" by (auto simp: free_groups_def split: if_splits)
  have "lists_ok (page_mem sample_pages) (page_list sample_pages) ?fl" by (auto simp: lists_ok_def sample_pages_def)
  moreover have "tiling 1 3 {(0, 0), (1, 1)}" by (auto simp: tiling_def)
  ultimately have "pages_shape 3 sample_pages ?fl {(1, 1)} {}"
    unfolding pages_shape_def F by (auto simp: sample_pages_def insert_commute)
  moreover have "joined 1 ?fl" by (auto simp: joined_def buddies_def split: if_splits)
  ultimately show ?thesis unfolding pages_ok_def by (intro conjI exI [of _ ?fl]) (simp_all add: sample_pages_def)
qed

theorem pages_alloc_correct_witness:
  "\<exists>p ps'. rt_pages_alloc 0 sample_pages = Some (4096 + 4096 * p, ps') \<and> pages_ok ps' {(p, 0), (1, 1)} \<and> p < 3"
proof -
  have "page_list sample_pages 0 \<noteq> None" "page_addr sample_pages = 4096" "page_nr sample_pages = 3" by (simp_all add: sample_pages_def)
  moreover have "\<exists>l < 52. 0 \<le> l \<and> page_list sample_pages l \<noteq> None" using calculation(1) by (intro exI [of _ 0]) simp
  ultimately show ?thesis using pages_alloc_correct [OF sample_pages_ok, of 0] by auto
qed

text \<open>C15: Releasing a group in use: while it is referenced more than once only its reference count goes down; the last release joins
  it with every free buddy, up to the largest group possible, and the other groups in use are left alone.\<close>

theorem pages_free_correct:
  assumes "pages_ok ps A" "(p, l) \<in> A"
  shows "\<exists>r ps'. rt_pages_free (page_addr ps + 4096 * p) l ps = Some (r, ps') \<and>
    (if pg_ref_cnt (page_mem ps p) = 1 then r = 1 \<and> pages_ok ps' (A - {(p, l)})
     else r = 0 \<and> pages_ok ps' A \<and> pg_ref_cnt (page_mem ps' p) = pg_ref_cnt (page_mem ps p) - 1)"
proof -
  have "0 < pg_ref_cnt (page_mem ps p)" using assms unfolding pages_ok_def by blast
  then consider "pg_ref_cnt (page_mem ps p) = 1" | "1 < pg_ref_cnt (page_mem ps p)" by linarith
  then show ?thesis
  proof cases
    case 1
    with free_last [OF assms] addr_group [OF assms] show ?thesis by (auto simp: rt_pages_free_def)
  next
    case 2
    with free_shared [OF assms] addr_group [OF assms] show ?thesis by (auto simp: rt_pages_free_def)
  qed
qed

theorem pages_free_correct_witness:
  "\<exists>ps'. rt_pages_free 8192 1 sample_pages = Some (1, ps') \<and> pages_ok ps' {}"
  using pages_free_correct [OF sample_pages_ok, of 1 1] by (auto simp: sample_pages_def)

text \<open>C16: \<open>rt_page_init\<close> on a range of at least two whole pages: the pages behind the \<open>struct page\<close> array are all free and joined, and the
  array fits into the pages left out for it, provided that the memory of the array is zero when the function is called.\<close>

theorem page_init_correct:
  assumes "unat start + 4095 < 2 ^ 64" "(unat start + 4095) div 4096 + 2 \<le> unat e div 4096"
    and "unat e div 4096 - (unat start + 4095) div 4096 < 2 ^ 31" "\<And>x. pg_size_bits (page_mem ps x) = 0"
  shows "\<exists>ps' m. rt_page_init start e ps = Some ps' \<and> pages_ok ps' {} \<and> page_addr ps' = 4096 * ((unat start + 4095) div 4096 + m) \<and>
    24 * page_nr ps' \<le> 4096 * m \<and> page_addr ps' + 4096 * page_nr ps' = 4096 * (unat e div 4096)"
proof -
  define S where "S = (unat start + 4095) div 4096"
  define E where "E = unat e div 4096"
  define m where "m = (E - S + 170) div 171"
  from page_init_ok [OF assms(1) S_def E_def _ _ assms(4)] assms(2,3) obtain ps' where
    i: "rt_page_init start e ps = Some ps'" "pages_ok ps' {}" "page_addr ps' = 4096 * (S + m)" "page_nr ps' = E - S - m"
    unfolding S_def [symmetric] E_def [symmetric] m_def by blast
  have "E - S \<le> 171 * m" using mult_div_mod_eq [of 171 "E - S + 170"] unfolding m_def by linarith
  then have fit: "24 * (E - S - m) \<le> 4096 * m" by simp
  have "m \<le> E - S" using assms(2) unfolding m_def S_def [symmetric] E_def [symmetric] by auto
  moreover have "S \<le> E" using assms(2) unfolding S_def E_def by linarith
  ultimately have "S + m + (E - S - m) = E" by simp
  then have "4096 * (S + m) + 4096 * (E - S - m) = 4096 * E" by (metis distrib_left)
  with i fit show ?thesis unfolding S_def [symmetric] E_def [symmetric] by (intro exI [of _ ps'] exI [of _ m]) simp
qed

theorem page_init_correct_witness:
  "\<exists>ps'. rt_page_init 0x100000 0x200000 (sample_pages\<lparr>page_mem := \<lambda>_. \<lparr>pg_next = None, pg_pre = None, pg_size_bits = 0, pg_ref_cnt = 0\<rparr>\<rparr>) = Some ps' \<and>
    pages_ok ps' {}"
  using page_init_correct [of "0x100000" "0x200000" "sample_pages\<lparr>page_mem := \<lambda>_. \<lparr>pg_next = None, pg_pre = None, pg_size_bits = 0, pg_ref_cnt = 0\<rparr>\<rparr>"]
  by auto

text \<open>The statistics are exact: \<open>rt_page_get_info\<close> ends and reports the number of pages and, as free, all pages that are not in a
  group in use.\<close>

theorem page_info_exact:
  assumes "pages_ok ps A"
  shows "\<exists>f. rt_page_get_info ps = Some (page_nr ps, f) \<and> f + (\<Sum>(i, l) \<in> A. 2 ^ l) = page_nr ps"
proof -
  from assms obtain fl where S: "pages_shape (page_nr ps) ps fl A {}" unfolding pages_ok_def by blast
  note D = pages_shapeD [OF S]
  note T = tiling_sum [OF D(7)]
  have c: "count_free ps [0..<ARCH_PAGE_LIST_SIZE] = Some (\<Sum>(i, l) \<in> free_groups fl. 2 ^ l)"
    unfolding free_sum [OF D(5)] by (rule count_free_ok [OF D(5)]) simp
  have "(\<Sum>(i, l) \<in> free_groups fl \<union> A. (2 :: nat) ^ l) = (\<Sum>(i, l) \<in> free_groups fl. 2 ^ l) + (\<Sum>(i, l) \<in> A. 2 ^ l)"
    by (rule sum.union_disjoint) (use T(1) D(9) in auto)
  with T(2) c show ?thesis by (simp add: rt_page_get_info_def)
qed

theorem page_info_exact_witness: "rt_page_get_info sample_pages = Some (3, 1)"
  using page_info_exact [OF sample_pages_ok] by (simp add: sample_pages_def)

text \<open>\<open>rt_page_ref_inc\<close> looks for the first page of a group by rounding the page index, but groups are aligned by address. For a group
  whose index is a multiple of its size the count goes up and a release keeps the group; for any other group the count of another page
  goes up, and the next release frees the group although it is referenced twice.\<close>

theorem ref_inc_wrong_page:
  assumes "pages_ok ps A" "(p, l) \<in> A" "pg_ref_cnt (page_mem ps p) = 1"
  shows "\<exists>ps'. rt_pages_free (page_addr ps + 4096 * p) l (rt_page_ref_inc (page_addr ps + 4096 * p) l ps) =
      Some (if 2 ^ l dvd p then 0 else 1, ps') \<and> pages_ok ps' (if 2 ^ l dvd p then A else A - {(p, l)})"
proof -
  define ps1 where "ps1 = upd_page (group_head p l) (pg_ref_cnt_update (\<lambda>r. r + 1)) ps"
  have inc: "rt_page_ref_inc (page_addr ps + 4096 * p) l ps = ps1"
    using addr_group [OF assms(1,2)] ok_group(3) [OF assms(1,2)] by (simp add: rt_page_ref_inc_def pages_ref_inc_def ps1_def)
  have ok1: "pages_ok ps1 A" unfolding ps1_def by (rule ref_ok [OF assms(1)]) simp
  have f: "page_addr ps1 = page_addr ps" by (simp add: ps1_def)
  have ad: "addr_to_page ps1 (page_addr ps + 4096 * p) = Some p" using addr_group [OF ok1 assms(2)] by (simp add: f)
  show ?thesis
  proof (cases "2 ^ l dvd p")
    case True
    then have "group_head p l = p" by (simp add: group_head_def)
    then have "1 < pg_ref_cnt (page_mem ps1 p)" using assms(3) by (simp add: ps1_def)
    with free_shared [OF ok1 assms(2)] True ad inc show ?thesis by (auto simp: rt_pages_free_def)
  next
    case False
    then have "0 < p mod 2 ^ l" by (simp add: dvd_eq_mod_eq_0)
    then have "group_head p l \<noteq> p" using mod_less_eq_dividend [of p "2 ^ l"] unfolding group_head_def by linarith
    then have "pg_ref_cnt (page_mem ps1 p) = 1" using assms(3) by (simp add: ps1_def)
    with free_last [OF ok1 assms(2)] False ad inc show ?thesis by (auto simp: rt_pages_free_def)
  qed
qed

theorem ref_inc_wrong_page_witness:
  "\<exists>ps'. rt_pages_free 8192 1 (rt_page_ref_inc 8192 1 sample_pages) = Some (1, ps') \<and> pages_ok ps' {}"
  using ref_inc_wrong_page [OF sample_pages_ok, of 1 1] by (auto simp: sample_pages_def)

section \<open>The allocator as its clients see it\<close>

text \<open>The pages that are left in free groups of two or more pages.\<close>

definition room :: "pages \<Rightarrow> nat" where
  "room ps = the (count_free ps [1..<ARCH_PAGE_LIST_SIZE])"

lemma room_eq:
  assumes "pages_ok ps A"
  shows "finite A" "room ps + singles ps + (\<Sum>(i, l) \<in> A. 2 ^ l) = page_nr ps"
proof -
  from assms obtain fl where S: "pages_shape (page_nr ps) ps fl A {}" unfolding pages_ok_def by blast
  note D = pages_shapeD [OF S]
  note T = tiling_sum [OF D(7)]
  show "finite A" using T(1) by simp
  have "[0..<ARCH_PAGE_LIST_SIZE] = 0 # [1..<ARCH_PAGE_LIST_SIZE]" by (simp add: upt_rec)
  then have "(\<Sum>(i, l) \<in> free_groups fl. 2 ^ l) = singles ps + room ps"
    using free_sum [OF D(5)] count_free_ok [OF D(5), of "[1..<ARCH_PAGE_LIST_SIZE]"] singles_eq [OF S] by (simp add: room_def)
  moreover have "(\<Sum>(i, l) \<in> free_groups fl \<union> A. (2 :: nat) ^ l) = (\<Sum>(i, l) \<in> free_groups fl. 2 ^ l) + (\<Sum>(i, l) \<in> A. 2 ^ l)"
    by (rule sum.union_disjoint) (use T(1) D(9) in auto)
  ultimately show "room ps + singles ps + (\<Sum>(i, l) \<in> A. 2 ^ l) = page_nr ps" using T(2) by simp
qed

lemma room_none:
  assumes "pages_ok ps A" "\<And>l. 0 < l \<Longrightarrow> l < ARCH_PAGE_LIST_SIZE \<Longrightarrow> page_list ps l = None"
  shows "room ps = 0"
proof -
  from assms(1) obtain fl where S: "pages_shape (page_nr ps) ps fl A {}" unfolding pages_ok_def by blast
  have "fl l = []" if "l \<in> set [1..<ARCH_PAGE_LIST_SIZE]" for l
    using that list_head [OF S, of l] assms(2) [of l] by (auto split: if_splits)
  then have "sum_list (map (\<lambda>l. 2 ^ l * length (fl l)) [1..<ARCH_PAGE_LIST_SIZE]) = 0" by (simp add: sum_list_eq_0_iff)
  then show ?thesis using count_free_ok [OF pages_shapeD(5) [OF S], of "[1..<ARCH_PAGE_LIST_SIZE]"] by (simp add: room_def)
qed

text \<open>A client holds groups of pages, named by address and size exponent. It relies on the laws below: an allocation of one or two
  pages gives a group that nobody holds, and fails only when no group of two pages is left.\<close>

locale page_source =
  fixes alloc :: "nat \<Rightarrow> 's \<Rightarrow> (nat \<times> 's) option" and free :: "nat \<Rightarrow> nat \<Rightarrow> 's \<Rightarrow> (int \<times> 's) option"
    and holds :: "'s \<Rightarrow> (nat \<times> nat) set \<Rightarrow> bool" and left :: "'s \<Rightarrow> nat"
    and pool :: "'s \<Rightarrow> nat set"
  assumes alloc_law: "holds s U \<Longrightarrow> sb \<le> 1 \<Longrightarrow> \<exists>a s'. alloc sb s = Some (a, s') \<and> pool s' = pool s \<and>
      (a = 0 \<and> s' = s \<and> left s = 0 \<or> (a, sb) \<notin> U \<and> holds s' (insert (a, sb) U) \<and> left s \<le> left s' + 2)"
    and free_law: "holds s U \<Longrightarrow> (a, sb) \<in> U \<Longrightarrow> \<exists>s'. free a sb s = Some (1, s') \<and> pool s' = pool s \<and> holds s' (U - {(a, sb)})"
    and group_law: "holds s U \<Longrightarrow> (a, sb) \<in> U \<Longrightarrow> 0 < a \<and> 4096 dvd a \<and> a + 2 ^ sb * 4096 \<le> 2 ^ 56 \<and> {a..<a + 2 ^ sb * 4096} \<subseteq> pool s"
    and apart_law: "holds s U \<Longrightarrow> (a, sb) \<in> U \<Longrightarrow> (b, m) \<in> U \<Longrightarrow> (a, sb) \<noteq> (b, m) \<Longrightarrow> a + 2 ^ sb * 4096 \<le> b \<or> b + 2 ^ m * 4096 \<le> a"
begin

text \<open>With room for it, an allocation succeeds and the group overlaps no group held.\<close>

lemma alloc_room:
  assumes "holds s U" "sb \<le> 1" "0 < left s"
  shows "\<exists>a s'. alloc sb s = Some (a, s') \<and> pool s' = pool s \<and> 0 < a \<and> (a, sb) \<notin> U \<and> holds s' (insert (a, sb) U) \<and> left s \<le> left s' + 2 \<and>
    (\<forall>(b, m) \<in> U. a + 2 ^ sb * 4096 \<le> b \<or> b + 2 ^ m * 4096 \<le> a)"
proof -
  from alloc_law [OF assms(1,2)] assms(3) obtain a s' where
    a: "alloc sb s = Some (a, s')" "(a, sb) \<notin> U" "holds s' (insert (a, sb) U)" "left s \<le> left s' + 2" "pool s' = pool s" by auto
  have "a + 2 ^ sb * 4096 \<le> b \<or> b + 2 ^ m * 4096 \<le> a" if "(b, m) \<in> U" for b m
    using apart_law [OF a(3), of a sb b m] that a(2) by auto
  with a group_law [OF a(3), of a sb] show ?thesis by auto
qed

text \<open>Two different groups held have different addresses.\<close>

lemma same_address: "holds s U \<Longrightarrow> (a, sb) \<in> U \<Longrightarrow> (a, m) \<in> U \<Longrightarrow> sb = m"
  using apart_law [of s U a sb a m] by auto

end

definition page_pool :: "pages \<Rightarrow> nat set" where
  "page_pool ps = {page_addr ps..<page_addr ps + 4096 * page_nr ps}"

definition page_holds :: "pages \<Rightarrow> (nat \<times> nat) set \<Rightarrow> bool" where
  "page_holds ps U \<longleftrightarrow> page_addr ps + 4096 * page_nr ps \<le> 2 ^ 56 \<and>
    (\<exists>A. pages_ok ps A \<and> (\<forall>(a, l) \<in> U. \<exists>p. a = page_addr ps + 4096 * p \<and> (p, l) \<in> A \<and> pg_ref_cnt (page_mem ps p) = 1))"

lemma page_holdsE:
  assumes "page_holds ps U"
  obtains A where "page_addr ps + 4096 * page_nr ps \<le> 2 ^ 56" "pages_ok ps A"
    "\<And>a l. (a, l) \<in> U \<Longrightarrow> \<exists>p. a = page_addr ps + 4096 * p \<and> (p, l) \<in> A \<and> pg_ref_cnt (page_mem ps p) = 1"
  using assms unfolding page_holds_def by fast

lemma page_alloc_group:
  assumes "page_holds ps U" and sb: "sb < ARCH_PAGE_LIST_SIZE"
  shows "\<exists>a ps'. rt_pages_alloc sb ps = Some (a, ps') \<and> page_pool ps' = page_pool ps \<and>
      (a = 0 \<and> ps' = ps \<and> (sb \<le> 1 \<longrightarrow> room ps = 0) \<or>
       (a, sb) \<notin> U \<and> page_holds ps' (insert (a, sb) U) \<and> room ps \<le> room ps' + max 2 (2 ^ sb))"
proof -
  from assms(1) obtain A where H: "page_addr ps + 4096 * page_nr ps \<le> 2 ^ 56" "pages_ok ps A"
    "\<And>a l. (a, l) \<in> U \<Longrightarrow> \<exists>p. a = page_addr ps + 4096 * p \<and> (p, l) \<in> A \<and> pg_ref_cnt (page_mem ps p) = 1" by (rule page_holdsE) (rule that)
  show ?thesis
  proof (cases "\<exists>l < ARCH_PAGE_LIST_SIZE. sb \<le> l \<and> page_list ps l \<noteq> None")
    case False
    have "room ps = 0" if "sb \<le> 1"
    proof (rule room_none [OF H(2)])
      fix l assume "0 < l" "l < ARCH_PAGE_LIST_SIZE"
      with False that show "page_list ps l = None" by auto
    qed
    moreover have "rt_pages_alloc sb ps = Some (0, ps)" using alloc_ok [OF H(2) sb] False by (auto simp: rt_pages_alloc_def page_to_addr_def)
    ultimately show ?thesis by auto
  next
    case True
    with alloc_ok [OF H(2) sb] obtain p ps' where
      p: "pages_alloc sb ps = Some (Some p, ps')" "(p, sb) \<notin> A" "pages_ok ps' (insert (p, sb) A)" "pg_ref_cnt (page_mem ps' p) = 1"
        "page_addr ps' = page_addr ps" "page_nr ps' = page_nr ps" "\<And>x. x \<noteq> p \<Longrightarrow> pg_ref_cnt (page_mem ps' x) = pg_ref_cnt (page_mem ps x)"
        "singles ps' \<le> (if sb = 0 then max 1 (singles ps) else singles ps)" by (auto simp del: One_nat_def)
    have ne: "i \<noteq> p" if "(i, l) \<in> A" for i l
      using ok_apart [OF p(3), of p sb i l] that p(2) by (cases "l = sb") auto
    have "(page_addr ps + 4096 * p, sb) \<notin> U" using H(3) p(2) by fastforce
    moreover have "page_holds ps' (insert (page_addr ps + 4096 * p, sb) U)"
      unfolding page_holds_def using H(1) p(3-7) ne H(3) by (intro conjI exI [of _ "insert (p, sb) A"]) (simp, simp, fastforce)
    moreover have "room ps \<le> room ps' + max 2 (2 ^ sb)"
    proof -
      have f: "finite A" by (rule room_eq [OF H(2)])
      have "(\<Sum>(i, l) \<in> insert (p, sb) A. (2 :: nat) ^ l) = 2 ^ sb + (\<Sum>(i, l) \<in> A. 2 ^ l)" using p(2) f by simp
      then show ?thesis using room_eq(2) [OF H(2)] room_eq(2) [OF p(3)] p(6,8) by (auto split: if_splits)
    qed
    moreover have "rt_pages_alloc sb ps = Some (page_addr ps + 4096 * p, ps')"
      using p(1,5) by (simp add: rt_pages_alloc_def page_to_addr_def mult.commute)
    moreover have "page_pool ps' = page_pool ps" by (simp add: page_pool_def p(5,6))
    ultimately show ?thesis by blast
  qed
qed

lemma page_alloc_law:
  assumes "page_holds ps U" "sb \<le> 1"
  shows "\<exists>a ps'. rt_pages_alloc sb ps = Some (a, ps') \<and> page_pool ps' = page_pool ps \<and>
      (a = 0 \<and> ps' = ps \<and> room ps = 0 \<or> (a, sb) \<notin> U \<and> page_holds ps' (insert (a, sb) U) \<and> room ps \<le> room ps' + 2)"
proof -
  have "max 2 (2 ^ sb) = (2 :: nat)" using assms(2) by (cases sb) auto
  with page_alloc_group [OF assms(1), of sb] assms(2) show ?thesis by auto
qed

lemma page_free_law:
  assumes "page_holds ps U" "(a, sb) \<in> U"
  shows "\<exists>ps'. rt_pages_free a sb ps = Some (1, ps') \<and> page_pool ps' = page_pool ps \<and> page_holds ps' (U - {(a, sb)})"
proof -
  from assms(1) obtain A where H: "page_addr ps + 4096 * page_nr ps \<le> 2 ^ 56" "pages_ok ps A"
    "\<And>a l. (a, l) \<in> U \<Longrightarrow> \<exists>p. a = page_addr ps + 4096 * p \<and> (p, l) \<in> A \<and> pg_ref_cnt (page_mem ps p) = 1" by (rule page_holdsE) (rule that)
  from H(3) [OF assms(2)] obtain p where p: "a = page_addr ps + 4096 * p" "(p, sb) \<in> A" "pg_ref_cnt (page_mem ps p) = 1" by blast
  from free_last [OF H(2) p(2,3)] obtain ps' where
    f: "pages_free p sb ps = Some (1, ps')" "pages_ok ps' (A - {(p, sb)})" "page_addr ps' = page_addr ps" "page_nr ps' = page_nr ps"
      "\<And>x. x \<noteq> p \<Longrightarrow> pg_ref_cnt (page_mem ps' x) = pg_ref_cnt (page_mem ps x)" by blast
  have ne: "i \<noteq> p \<or> l = sb" if "(i, l) \<in> A" for i l
    using ok_apart [OF H(2) p(2), of i l] that by (cases "l = sb") auto
  have "\<exists>q. b = page_addr ps + 4096 * q \<and> (q, l) \<in> A - {(p, sb)} \<and> pg_ref_cnt (page_mem ps' q) = 1" if "(b, l) \<in> U - {(a, sb)}" for b l
  proof -
    from H(3) [of b l] that obtain q where q: "b = page_addr ps + 4096 * q" "(q, l) \<in> A" "pg_ref_cnt (page_mem ps q) = 1" by blast
    moreover have "q \<noteq> p" using that ne [OF q(2)] q(1) p(1) by auto
    ultimately show ?thesis using f(5) by auto
  qed
  then have "page_holds ps' (U - {(a, sb)})"
    unfolding page_holds_def f(3,4) using H(1) f(2) by (intro conjI exI [of _ "A - {(p, sb)}"]) auto
  with f(1) p(1) addr_group [OF H(2) p(2)] show ?thesis by (auto simp: rt_pages_free_def page_pool_def f(3,4))
qed

interpretation pg: page_source rt_pages_alloc rt_pages_free page_holds room page_pool
proof
  fix ps U and a sb b m :: nat
  assume "page_holds ps U"
  then obtain A where H: "page_addr ps + 4096 * page_nr ps \<le> 2 ^ 56" "pages_ok ps A"
    "\<And>a l. (a, l) \<in> U \<Longrightarrow> \<exists>p. a = page_addr ps + 4096 * p \<and> (p, l) \<in> A \<and> pg_ref_cnt (page_mem ps p) = 1" by (rule page_holdsE) (rule that)
  assume "(a, sb) \<in> U"
  from H(3) [OF this] obtain p where p: "a = page_addr ps + 4096 * p" "(p, sb) \<in> A" by blast
  note G = ok_group [OF H(2) p(2)]
  have "4096 * (p + 2 ^ sb) \<le> 4096 * page_nr ps" using G(2) by simp
  then have "a + 2 ^ sb * 4096 \<le> 2 ^ 56" using H(1) p(1) by simp
  moreover have "4096 dvd a" using G(1) p(1) dvd_mult_right by auto
  moreover have "{a..<a + 2 ^ sb * 4096} \<subseteq> page_pool ps"
    using \<open>4096 * (p + 2 ^ sb) \<le> 4096 * page_nr ps\<close> p(1) by (auto simp: page_pool_def)
  ultimately show "0 < a \<and> 4096 dvd a \<and> a + 2 ^ sb * 4096 \<le> 2 ^ 56 \<and> {a..<a + 2 ^ sb * 4096} \<subseteq> page_pool ps" using G(4) p(1) by auto
  assume "(b, m) \<in> U" "(a, sb) \<noteq> (b, m)"
  from H(3) [OF this(1)] obtain q where q: "b = page_addr ps + 4096 * q" "(q, m) \<in> A" by blast
  have "p + 2 ^ sb \<le> q \<or> q + 2 ^ m \<le> p" using ok_apart [OF H(2) p(2) q(2)] \<open>(a, sb) \<noteq> (b, m)\<close> p(1) q(1) by auto
  then have "4096 * (p + 2 ^ sb) \<le> 4096 * q \<or> 4096 * (q + 2 ^ m) \<le> 4096 * p" using mult_le_mono2 by blast
  then show "a + 2 ^ sb * 4096 \<le> b \<or> b + 2 ^ m * 4096 \<le> a" using p(1) q(1) by auto
qed (fact page_alloc_law page_free_law)+

section \<open>Exactly the groups in use\<close>

text \<open>\<open>U\<close> and \<open>G\<close> are all the groups in use: every other page is free. The groups of \<open>G\<close> have one user. In contrast to
  \<open>page_holds\<close>, a group that is not given back does not fit here.\<close>

definition page_exact :: "pages \<Rightarrow> (nat \<times> nat) set \<Rightarrow> (nat \<times> nat) set \<Rightarrow> bool" where
  "page_exact ps U G \<longleftrightarrow> page_addr ps + 4096 * page_nr ps \<le> 2 ^ 56 \<and> U \<inter> G = {} \<and>
    (\<exists>A. pages_ok ps A \<and> (\<lambda>(p, l). (page_addr ps + 4096 * p, l)) ` A = U \<union> G \<and>
      (\<forall>(p, l) \<in> A. (page_addr ps + 4096 * p, l) \<in> G \<longrightarrow> pg_ref_cnt (page_mem ps p) = 1))"

lemma page_exactE:
  assumes "page_exact ps U G"
  obtains A where "page_addr ps + 4096 * page_nr ps \<le> 2 ^ 56" "U \<inter> G = {}" "pages_ok ps A"
    "(\<lambda>(p, l). (page_addr ps + 4096 * p, l)) ` A = U \<union> G"
    "\<And>p l. (p, l) \<in> A \<Longrightarrow> (page_addr ps + 4096 * p, l) \<in> G \<Longrightarrow> pg_ref_cnt (page_mem ps p) = 1"
proof -
  from assms obtain A where "page_addr ps + 4096 * page_nr ps \<le> 2 ^ 56" "U \<inter> G = {}" "pages_ok ps A"
    "(\<lambda>(p, l). (page_addr ps + 4096 * p, l)) ` A = U \<union> G"
    "\<forall>(p, l) \<in> A. (page_addr ps + 4096 * p, l) \<in> G \<longrightarrow> pg_ref_cnt (page_mem ps p) = 1"
    unfolding page_exact_def by (elim conjE exE)
  then show thesis by (intro that) auto
qed

lemma exact_group:
  assumes "(\<lambda>(p, l). (page_addr ps + 4096 * p, l)) ` A = V"
  shows "(page_addr ps + 4096 * p, l) \<in> V \<longleftrightarrow> (p, l) \<in> A" "(a, l) \<in> V \<Longrightarrow> \<exists>p. a = page_addr ps + 4096 * p \<and> (p, l) \<in> A"
  unfolding assms [symmetric] by auto

lemma exact_holds: "page_exact ps U G \<Longrightarrow> page_holds ps G"
proof (erule page_exactE)
  fix A
  assume a: "page_addr ps + 4096 * page_nr ps \<le> 2 ^ 56" "pages_ok ps A" "(\<lambda>(p, l). (page_addr ps + 4096 * p, l)) ` A = U \<union> G"
    "\<And>p l. (p, l) \<in> A \<Longrightarrow> (page_addr ps + 4096 * p, l) \<in> G \<Longrightarrow> pg_ref_cnt (page_mem ps p) = 1"
  have "\<exists>p. b = page_addr ps + 4096 * p \<and> (p, l) \<in> A \<and> pg_ref_cnt (page_mem ps p) = 1" if "(b, l) \<in> G" for b l
    using exact_group(2) [OF a(3), of b l] a(4) that by blast
  with a(1,2) show ?thesis unfolding page_holds_def by blast
qed

lemma exact_alloc:
  assumes e: "page_exact ps U G" and sb: "sb < ARCH_PAGE_LIST_SIZE"
  shows "rt_pages_alloc sb ps = Some (0, ps) \<or> (\<exists>a ps'. rt_pages_alloc sb ps = Some (a, ps') \<and> 0 < a \<and> a < 2 ^ 56 \<and>
    page_exact ps' U (insert (a, sb) G) \<and> (\<forall>m. (a, m) \<notin> U \<union> G))"
proof -
  from e obtain A where A: "page_addr ps + 4096 * page_nr ps \<le> 2 ^ 56" "U \<inter> G = {}" "pages_ok ps A"
    "(\<lambda>(p, l). (page_addr ps + 4096 * p, l)) ` A = U \<union> G"
    "\<And>p l. (p, l) \<in> A \<Longrightarrow> (page_addr ps + 4096 * p, l) \<in> G \<Longrightarrow> pg_ref_cnt (page_mem ps p) = 1" by (rule page_exactE) (rule that)
  show ?thesis
  proof (cases "\<exists>l < ARCH_PAGE_LIST_SIZE. sb \<le> l \<and> page_list ps l \<noteq> None")
    case False
    then have "rt_pages_alloc sb ps = Some (0, ps)" using alloc_ok [OF A(3) sb] by (auto simp: rt_pages_alloc_def page_to_addr_def)
    then show ?thesis ..
  next
    case True
    with alloc_ok [OF A(3) sb] obtain p ps' where
      p: "pages_alloc sb ps = Some (Some p, ps')" "(p, sb) \<notin> A" "pages_ok ps' (insert (p, sb) A)" "pg_ref_cnt (page_mem ps' p) = 1"
        "page_addr ps' = page_addr ps" "page_nr ps' = page_nr ps" "\<And>x. x \<noteq> p \<Longrightarrow> pg_ref_cnt (page_mem ps' x) = pg_ref_cnt (page_mem ps x)"
      by (auto simp del: One_nat_def)
    let ?a = "page_addr ps + 4096 * p"
    have ne: "i \<noteq> p" if "(i, l) \<in> A" for i l
      using ok_apart [OF p(3), of p sb i l] that p(2) by (cases "l = sb") auto
    have new: "(?a, m) \<notin> U \<union> G" for m using exact_group(1) [OF A(4)] ne by blast
    have "page_exact ps' U (insert (?a, sb) G)"
      unfolding page_exact_def p(5,6)
    proof (intro conjI exI [of _ "insert (p, sb) A"])
      show "U \<inter> insert (?a, sb) G = {}" using A(2) new [of sb] by auto
      show "(\<lambda>(p, l). (page_addr ps + 4096 * p, l)) ` insert (p, sb) A = U \<union> insert (?a, sb) G" using A(4) by simp
      show "\<forall>(i, l) \<in> insert (p, sb) A. (page_addr ps + 4096 * i, l) \<in> insert (?a, sb) G \<longrightarrow> pg_ref_cnt (page_mem ps' i) = 1"
        using p(4,7) A(5) ne by auto
    qed (use A(1) p(3) in simp_all)
    moreover have "rt_pages_alloc sb ps = Some (?a, ps')"
      using p(1,5) by (simp add: rt_pages_alloc_def page_to_addr_def mult.commute)
    moreover have "0 < ?a" "?a < 2 ^ 56" using ok_group(3,4) [OF p(3), of p sb] A(1) p(5,6) by auto
    ultimately show ?thesis using new by blast
  qed
qed

lemma exact_free:
  assumes e: "page_exact ps U G" and a: "(a, sb) \<in> G"
  shows "\<exists>ps'. rt_pages_free a sb ps = Some (1, ps') \<and> page_exact ps' U (G - {(a, sb)})"
proof -
  from e obtain A where A: "page_addr ps + 4096 * page_nr ps \<le> 2 ^ 56" "U \<inter> G = {}" "pages_ok ps A"
    "(\<lambda>(p, l). (page_addr ps + 4096 * p, l)) ` A = U \<union> G"
    "\<And>p l. (p, l) \<in> A \<Longrightarrow> (page_addr ps + 4096 * p, l) \<in> G \<Longrightarrow> pg_ref_cnt (page_mem ps p) = 1" by (rule page_exactE) (rule that)
  from exact_group(2) [OF A(4), of a sb] a obtain p where p: "a = page_addr ps + 4096 * p" "(p, sb) \<in> A" by blast
  from free_last [OF A(3) p(2) A(5) [OF p(2)]] a p(1) obtain ps' where
    f: "pages_free p sb ps = Some (1, ps')" "pages_ok ps' (A - {(p, sb)})" "page_addr ps' = page_addr ps" "page_nr ps' = page_nr ps"
      "\<And>x. x \<noteq> p \<Longrightarrow> pg_ref_cnt (page_mem ps' x) = pg_ref_cnt (page_mem ps x)" by blast
  have ne: "i \<noteq> p" if "(i, l) \<in> A - {(p, sb)}" for i l
    using ok_apart [OF A(3) p(2), of i l] that by (cases "l = sb") auto
  have "page_exact ps' U (G - {(a, sb)})"
    unfolding page_exact_def f(3,4)
  proof (intro conjI exI [of _ "A - {(p, sb)}"])
    have "(\<lambda>(p, l). (page_addr ps + 4096 * p, l)) ` (A - {(p, sb)}) = U \<union> G - {(a, sb)}"
      unfolding A(4) [symmetric] p(1) by auto
    then show "(\<lambda>(p, l). (page_addr ps + 4096 * p, l)) ` (A - {(p, sb)}) = U \<union> (G - {(a, sb)})" using A(2) a by auto
    have "pg_ref_cnt (page_mem ps' i) = 1" if "(i, l) \<in> A - {(p, sb)}" "(page_addr ps + 4096 * i, l) \<in> G - {(a, sb)}" for i l
      using f(5) [OF ne [OF that(1)]] A(5) [of i l] that by simp
    then show "\<forall>(i, l) \<in> A - {(p, sb)}. (page_addr ps + 4096 * i, l) \<in> G - {(a, sb)} \<longrightarrow> pg_ref_cnt (page_mem ps' i) = 1" by blast
  qed (use A(1,2) f(2) in auto)
  moreover have "rt_pages_free a sb ps = Some (1, ps')" using f(1) p(1) addr_group [OF A(3) p(2)] by (simp add: rt_pages_free_def)
  ultimately show ?thesis by blast
qed

end
