(* ===== verification/Mmu.thy ===== *)
theory Mmu
  imports Page
begin

text \<open>
  The page tables of \<^verbatim>\<open>libcpu/risc-v/t-head/c906/mmu.c\<close>: Sv39 tables of three levels in the memory of the kernel.
  A table of level 2 or 3 is a group of two pages from the page allocator: the page of the 512 entries and a page whose first
  word counts the entries in use. The public functions run with interrupts off. Cache maintenance and the invalidation of the
  translation buffer do not change the tables and are left out.
\<close>

section \<open>Entries and addresses\<close>

abbreviation MMU_PAGE_SIZE :: u64 where "MMU_PAGE_SIZE \<equiv> 4096"
abbreviation PAGE_OFFSET_MASK :: u64 where "PAGE_OFFSET_MASK \<equiv> mask 12"
abbreviation PTE_V :: u64 where "PTE_V \<equiv> 1"
abbreviation PAGE_ATTR_RWX :: u64 where "PAGE_ATTR_RWX \<equiv> 0xE"

text \<open>A leaf is readable, writable, executable, open to the user, valid, global, accessed and dirty; the entry of a next table is
  valid, global, accessed and dirty; both are shareable, bufferable and cacheable (bits 60 to 62).\<close>

definition PAGE_DEFAULT_ATTR_LEAF :: u64 where "PAGE_DEFAULT_ATTR_LEAF = 0x70000000000000FF"
definition PAGE_DEFAULT_ATTR_NEXT :: u64 where "PAGE_DEFAULT_ATTR_NEXT = 0x70000000000000E1"

definition PARTBIT :: "u64 \<Rightarrow> nat \<Rightarrow> nat \<Rightarrow> u64" where
  "PARTBIT v start_bit len = drop_bit start_bit v AND mask len"

definition UMASKVALUE :: "u64 \<Rightarrow> u64 \<Rightarrow> u64" where "UMASKVALUE v m = v AND NOT m"

definition GET_PF_ID :: "u64 \<Rightarrow> u64" where "GET_PF_ID addr = drop_bit 12 addr"
definition GET_PF_OFFSET :: "u64 \<Rightarrow> u64" where "GET_PF_OFFSET addr = addr AND PAGE_OFFSET_MASK"
definition GET_L1 :: "u64 \<Rightarrow> u64" where "GET_L1 addr = PARTBIT addr 30 9"
definition GET_L2 :: "u64 \<Rightarrow> u64" where "GET_L2 addr = PARTBIT addr 21 9"
definition GET_L3 :: "u64 \<Rightarrow> u64" where "GET_L3 addr = PARTBIT addr 12 9"
definition GET_PADDR :: "u64 \<Rightarrow> u64" where "GET_PADDR pte = push_bit 12 (PARTBIT pte 10 46)"
definition VPN_TO_PPN :: "u64 \<Rightarrow> u64 \<Rightarrow> u64" where "VPN_TO_PPN vaddr off = vaddr + off"
definition PPN_TO_VPN :: "u64 \<Rightarrow> u64 \<Rightarrow> u64" where "PPN_TO_VPN paddr off = paddr - off"
definition COMBINEVADDR :: "u64 \<Rightarrow> u64 \<Rightarrow> u64 \<Rightarrow> u64" where
  "COMBINEVADDR l1_off l2_off l3_off = push_bit 30 l1_off OR push_bit 21 l2_off OR push_bit 12 l3_off"
definition COMBINEPTE :: "u64 \<Rightarrow> u64 \<Rightarrow> u64" where "COMBINEPTE paddr attr = push_bit 10 (drop_bit 12 paddr) OR attr"
definition PTE_USED :: "u64 \<Rightarrow> bool" where "PTE_USED pte \<longleftrightarrow> pte AND PTE_V \<noteq> 0"
definition PAGE_IS_LEAF :: "u64 \<Rightarrow> bool" where "PAGE_IS_LEAF pte \<longleftrightarrow> pte AND PAGE_ATTR_RWX \<noteq> 0"

section \<open>State\<close>

record rt_mmu_info =
  vtable :: u64
  vstart :: u64
  vend :: u64
  pv_off :: u64

text \<open>Memory is read and written in 64-bit words; \<open>mm_mem\<close> gives the word at an address. With it the state holds the page
  allocator, the current table and the register \<open>satp\<close>.\<close>

record mmu_state =
  mm_mem :: "u64 \<Rightarrow> u64"
  mm_pages :: pages
  current_mmu_table :: u64
  mm_satp :: u64

definition entry_at :: "u64 \<Rightarrow> u64 \<Rightarrow> u64" where "entry_at table off = table + 8 * off"

definition store :: "u64 \<Rightarrow> u64 \<Rightarrow> mmu_state \<Rightarrow> mmu_state" where
  "store a v st = st\<lparr>mm_mem := (mm_mem st)(a := v)\<rparr>"

text \<open>\<open>rt_memset\<close> of a whole number of words to zero.\<close>

definition memset_zero :: "u64 \<Rightarrow> u64 \<Rightarrow> mmu_state \<Rightarrow> mmu_state" where
  "memset_zero a n st = st\<lparr>mm_mem := (\<lambda>x. if x - a < n then 0 else mm_mem st x)\<rparr>"

definition alloc_pages :: "nat \<Rightarrow> mmu_state \<Rightarrow> (u64 \<times> mmu_state) option" where
  "alloc_pages sb st = map_option (\<lambda>(a, ps). (word_of_nat a, st\<lparr>mm_pages := ps\<rparr>)) (rt_pages_alloc sb (mm_pages st))"

definition free_pages :: "u64 \<Rightarrow> nat \<Rightarrow> mmu_state \<Rightarrow> mmu_state option" where
  "free_pages a sb st = map_option (\<lambda>(_, ps). st\<lparr>mm_pages := ps\<rparr>) (rt_pages_free (unat a) sb (mm_pages st))"

section \<open>Operations\<close>

definition mmu_table_get :: "mmu_state \<Rightarrow> u64" where "mmu_table_get st = current_mmu_table st"

definition mmu_set_pagetable :: "u64 \<Rightarrow> mmu_state \<Rightarrow> mmu_state option" where
  "mmu_set_pagetable addr st = do {
    RT_ASSERT (addr AND mask 12 = 0);
    RT_ASSERT (addr AND NOT (mask 56) = 0);
    Some (st\<lparr>mm_satp := push_bit 60 8 OR drop_bit 12 addr\<rparr>)
  }"

definition switch_mmu :: "u64 \<Rightarrow> mmu_state \<Rightarrow> mmu_state option" where
  "switch_mmu table st = do {
    let st = st\<lparr>current_mmu_table := table\<rparr>;
    RT_ASSERT (table AND mask 12 = 0);
    mmu_set_pagetable table st
  }"

text \<open>\<open>upto_words a b\<close> are the offsets \<open>a, \<dots>, b\<close> of a loop \<open>for (i = a; i <= b; i++)\<close> with \<open>b\<close> below the largest word.\<close>

definition upto_words :: "u64 \<Rightarrow> u64 \<Rightarrow> u64 list" where
  "upto_words a b = map word_of_nat [unat a..<Suc (unat b)]"

text \<open>The structure is a parameter and a result; null pointers for it or the table give \<open>-1\<close> at once.\<close>

definition rt_hw_mmu_map_init :: "rt_mmu_info option \<Rightarrow> u64 \<Rightarrow> u64 \<Rightarrow> u64 \<Rightarrow> u64 \<Rightarrow> mmu_state \<Rightarrow> int \<times> rt_mmu_info option" where
  "rt_hw_mmu_map_init mi v_address sz vt off st =
    (case mi of None \<Rightarrow> (-1, None) | Some info \<Rightarrow>
     if vt = 0 then (-1, mi)
     else let va_s = v_address; va_e = v_address + sz - 1
     in if va_e < va_s then (-1, mi)
     else let va_s = GET_L1 va_s; va_e = GET_L1 va_e
     in if va_s = 0 then (-1, mi)
     else if \<exists>l1_off \<in> set (upto_words va_s va_e). mm_mem st (entry_at vt l1_off) \<noteq> 0 then (0, mi)
     else (0, Some \<lparr>vtable = vt, vstart = va_s, vend = va_e, pv_off = off\<rparr>))"

fun kernel_map_loop :: "rt_mmu_info \<Rightarrow> u64 list \<Rightarrow> u64 \<Rightarrow> mmu_state \<Rightarrow> mmu_state" where
  "kernel_map_loop mi [] paddr_start st = st"
| "kernel_map_loop mi (i # is) paddr_start st =
    kernel_map_loop mi is (paddr_start + push_bit 30 1)
      (store (entry_at (vtable mi) i) (COMBINEPTE paddr_start 0x70000000000000EF) st)"

definition rt_hw_mmu_kernel_map_init :: "rt_mmu_info \<Rightarrow> u64 \<Rightarrow> u64 \<Rightarrow> mmu_state \<Rightarrow> mmu_state" where
  "rt_hw_mmu_kernel_map_init mi vaddr_start sz st =
    kernel_map_loop mi (upto_words (GET_L1 vaddr_start) (GET_L1 (vaddr_start + sz - 1)))
      (UMASKVALUE (VPN_TO_PPN vaddr_start (pv_off mi)) PAGE_OFFSET_MASK) st"

text \<open>The three nested loops of \<open>find_vaddr\<close>: \<open>n\<close> free pages were seen up to here, from \<open>f\<close> on. \<open>Inl\<close> is the early return.\<close>

fun find_l3 :: "u64 \<Rightarrow> u64 \<Rightarrow> u64 \<Rightarrow> u64 \<Rightarrow> u64 list \<Rightarrow> u64 \<times> u64 \<Rightarrow> mmu_state \<Rightarrow> (u64 + u64 \<times> u64) option" where
  "find_l3 pages l1_off l2_off mmu_l3 [] (n, f) st = Some (Inr (n, f))"
| "find_l3 pages l1_off l2_off mmu_l3 (l3_off # ls) (n, f) st =
    (let pte = mm_mem st (entry_at mmu_l3 l3_off) in
     if PTE_USED pte then do {
       RT_ASSERT (PAGE_IS_LEAF pte);
       find_l3 pages l1_off l2_off mmu_l3 ls (0, f) st
     } else let f = (if n = 0 then COMBINEVADDR l1_off l2_off l3_off else f); n = n + 1
       in if n \<ge> pages then Some (Inl f) else find_l3 pages l1_off l2_off mmu_l3 ls (n, f) st)"

fun find_l2 :: "u64 \<Rightarrow> u64 \<Rightarrow> u64 \<Rightarrow> u64 \<Rightarrow> u64 list \<Rightarrow> u64 \<times> u64 \<Rightarrow> mmu_state \<Rightarrow> (u64 + u64 \<times> u64) option" where
  "find_l2 pages off l1_off mmu_l2 [] (n, f) st = Some (Inr (n, f))"
| "find_l2 pages off l1_off mmu_l2 (l2_off # ls) (n, f) st =
    (let pte = mm_mem st (entry_at mmu_l2 l2_off) in
     if PTE_USED pte then do {
       RT_ASSERT (\<not> PAGE_IS_LEAF pte);
       r \<leftarrow> find_l3 pages l1_off l2_off (PPN_TO_VPN (GET_PADDR pte) off) (upto_words 0 511) (n, f) st;
       case r of Inl v \<Rightarrow> Some (Inl v) | Inr nf \<Rightarrow> find_l2 pages off l1_off mmu_l2 ls nf st
     } else let f = (if n = 0 then COMBINEVADDR l1_off l2_off 0 else f); n = n + 512
       in if n \<ge> pages then Some (Inl f) else find_l2 pages off l1_off mmu_l2 ls (n, f) st)"

fun find_l1 :: "u64 \<Rightarrow> rt_mmu_info \<Rightarrow> u64 list \<Rightarrow> u64 \<times> u64 \<Rightarrow> mmu_state \<Rightarrow> (u64 + u64 \<times> u64) option" where
  "find_l1 pages mi [] (n, f) st = Some (Inr (n, f))"
| "find_l1 pages mi (l1_off # ls) (n, f) st =
    (let pte = mm_mem st (entry_at (vtable mi) l1_off) in
     if PTE_USED pte then do {
       RT_ASSERT (\<not> PAGE_IS_LEAF pte);
       r \<leftarrow> find_l2 pages (pv_off mi) l1_off (PPN_TO_VPN (GET_PADDR pte) (pv_off mi)) (upto_words 0 511) (n, f) st;
       case r of Inl v \<Rightarrow> Some (Inl v) | Inr nf \<Rightarrow> find_l1 pages mi ls nf st
     } else let f = (if n = 0 then COMBINEVADDR l1_off 0 0 else f); n = n + 512
       in if n \<ge> pages then Some (Inl f) else find_l1 pages mi ls (n, f) st)"

definition find_vaddr :: "rt_mmu_info \<Rightarrow> u64 \<Rightarrow> mmu_state \<Rightarrow> u64 option" where
  "find_vaddr mi pages st =
    (if pages = 0 then Some 0
     else do {
       r \<leftarrow> find_l1 pages mi (upto_words (vstart mi) (vend mi)) (0, COMBINEVADDR 0 0 0) st;
       Some (case r of Inl v \<Rightarrow> v | Inr _ \<Rightarrow> 0)
     })"

text \<open>Is the page of \<open>va\<close> free? One round of the loop of \<open>check_vaddr\<close>.\<close>

definition vaddr_free :: "rt_mmu_info \<Rightarrow> u64 \<Rightarrow> mmu_state \<Rightarrow> bool option" where
  "vaddr_free mi loop_va st =
    (let pte1 = mm_mem st (entry_at (vtable mi) (GET_L1 loop_va)) in
     if \<not> PTE_USED pte1 then Some True
     else do {
       RT_ASSERT (\<not> PAGE_IS_LEAF pte1);
       let pte2 = mm_mem st (entry_at (PPN_TO_VPN (GET_PADDR pte1) (pv_off mi)) (GET_L2 loop_va));
       if \<not> PTE_USED pte2 then Some True
       else do {
         RT_ASSERT (\<not> PAGE_IS_LEAF pte2);
         let pte3 = mm_mem st (entry_at (PPN_TO_VPN (GET_PADDR pte2) (pv_off mi)) (GET_L3 loop_va));
         if \<not> PTE_USED pte3 then Some True
         else do { RT_ASSERT (PAGE_IS_LEAF pte3); Some False }
       }
     })"

fun check_loop :: "rt_mmu_info \<Rightarrow> u64 \<Rightarrow> nat \<Rightarrow> mmu_state \<Rightarrow> int option" where
  "check_loop mi loop_va 0 st = Some 0"
| "check_loop mi loop_va (Suc pages) st = do {
    b \<leftarrow> vaddr_free mi loop_va st;
    if b then check_loop mi (loop_va + MMU_PAGE_SIZE) pages st else Some (-1)
  }"

definition check_vaddr :: "rt_mmu_info \<Rightarrow> u64 \<Rightarrow> u64 \<Rightarrow> mmu_state \<Rightarrow> int option" where
  "check_vaddr mi va pages st =
    (if pages = 0 then Some (-1) else check_loop mi (UMASKVALUE va PAGE_OFFSET_MASK) (unat pages) st)"

text \<open>One round of \<open>__rt_hw_mmu_unmap\<close>: the entry is cleared, and an empty table is given back.\<close>

definition unmap_page :: "rt_mmu_info \<Rightarrow> u64 \<Rightarrow> mmu_state \<Rightarrow> mmu_state option" where
  "unmap_page mi loop_va st = do {
    let l1_off = GET_L1 loop_va;
    RT_ASSERT (l1_off \<ge> vstart mi \<and> l1_off \<le> vend mi);
    let mmu_l1 = entry_at (vtable mi) l1_off;
    RT_ASSERT (PTE_USED (mm_mem st mmu_l1));
    RT_ASSERT (\<not> PAGE_IS_LEAF (mm_mem st mmu_l1));
    let table2 = PPN_TO_VPN (GET_PADDR (mm_mem st mmu_l1)) (pv_off mi);
    let mmu_l2 = entry_at table2 (GET_L2 loop_va);
    RT_ASSERT (PTE_USED (mm_mem st mmu_l2));
    RT_ASSERT (\<not> PAGE_IS_LEAF (mm_mem st mmu_l2));
    let table3 = PPN_TO_VPN (GET_PADDR (mm_mem st mmu_l2)) (pv_off mi);
    let mmu_l3 = entry_at table3 (GET_L3 loop_va);
    RT_ASSERT (PTE_USED (mm_mem st mmu_l3));
    RT_ASSERT (PAGE_IS_LEAF (mm_mem st mmu_l3));
    let st = store mmu_l3 0 st;
    let ref_cnt = entry_at table3 512;
    let st = store ref_cnt (mm_mem st ref_cnt - 1) st;
    if mm_mem st ref_cnt \<noteq> 0 then Some st
    else do {
      st \<leftarrow> free_pages table3 1 st;
      let st = store mmu_l2 0 st;
      let ref_cnt = entry_at table2 512;
      let st = store ref_cnt (mm_mem st ref_cnt - 1) st;
      if mm_mem st ref_cnt \<noteq> 0 then Some st
      else do {
        st \<leftarrow> free_pages table2 1 st;
        Some (store mmu_l1 0 st)
      }
    }
  }"

fun unmap_loop :: "rt_mmu_info \<Rightarrow> u64 \<Rightarrow> nat \<Rightarrow> mmu_state \<Rightarrow> mmu_state option" where
  "unmap_loop mi loop_va 0 st = Some st"
| "unmap_loop mi loop_va (Suc npages) st = do {
    st \<leftarrow> unmap_page mi loop_va st;
    unmap_loop mi (loop_va + MMU_PAGE_SIZE) npages st
  }"

definition hw_mmu_unmap :: "rt_mmu_info \<Rightarrow> u64 \<Rightarrow> nat \<Rightarrow> mmu_state \<Rightarrow> mmu_state option" where
  "hw_mmu_unmap mi v_addr npages st = unmap_loop mi (UMASKVALUE v_addr PAGE_OFFSET_MASK) npages st"

text \<open>The next table behind the entry at \<open>e\<close>, allocated when the entry is not used; \<open>cnt\<close> is the reference count of the table that
  holds the entry (level 1 has none). No table means that the allocator is out of memory.\<close>

definition next_table :: "rt_mmu_info \<Rightarrow> u64 \<Rightarrow> u64 option \<Rightarrow> mmu_state \<Rightarrow> (u64 option \<times> mmu_state) option" where
  "next_table mi e cnt st =
    (if PTE_USED (mm_mem st e) then do {
       RT_ASSERT (\<not> PAGE_IS_LEAF (mm_mem st e));
       Some (Some (PPN_TO_VPN (GET_PADDR (mm_mem st e)) (pv_off mi)), st)
     } else do {
       (table, st) \<leftarrow> alloc_pages 1 st;
       if table = 0 then Some (None, st)
       else let st = memset_zero table (MMU_PAGE_SIZE * 2) st;
                st = store e (COMBINEPTE (VPN_TO_PPN table (pv_off mi)) PAGE_DEFAULT_ATTR_NEXT) st;
                st = (case cnt of None \<Rightarrow> st | Some ref_cnt \<Rightarrow> store ref_cnt (mm_mem st ref_cnt + 1) st)
            in Some (Some table, st)
     })"

text \<open>One round of \<open>__rt_hw_mmu_map\<close>; \<open>False\<close> when there is no memory for a table.\<close>

definition map_page :: "rt_mmu_info \<Rightarrow> u64 \<Rightarrow> u64 \<Rightarrow> mmu_state \<Rightarrow> (bool \<times> mmu_state) option" where
  "map_page mi loop_va loop_pa st = do {
    (t2, st) \<leftarrow> next_table mi (entry_at (vtable mi) (GET_L1 loop_va)) None st;
    case t2 of None \<Rightarrow> Some (False, st) | Some mmu_l2 \<Rightarrow> do {
      (t3, st) \<leftarrow> next_table mi (entry_at mmu_l2 (GET_L2 loop_va)) (Some (entry_at mmu_l2 512)) st;
      case t3 of None \<Rightarrow> Some (False, st) | Some mmu_l3 \<Rightarrow> do {
        let e = entry_at mmu_l3 (GET_L3 loop_va);
        RT_ASSERT (\<not> PTE_USED (mm_mem st e));
        let ref_cnt = entry_at mmu_l3 512;
        let st = store ref_cnt (mm_mem st ref_cnt + 1) st;
        Some (True, store e (COMBINEPTE loop_pa PAGE_DEFAULT_ATTR_LEAF) st)
      }
    }
  }"

text \<open>The loop of \<open>__rt_hw_mmu_map\<close>: \<open>v_addr\<close> is the first address, which the error path starts from, with the number of pages that
  are still to be mapped. The attributes in the call are not used.\<close>

fun map_loop :: "rt_mmu_info \<Rightarrow> u64 \<Rightarrow> u64 \<Rightarrow> u64 \<Rightarrow> nat \<Rightarrow> mmu_state \<Rightarrow> (int \<times> mmu_state) option" where
  "map_loop mi v_addr loop_va loop_pa 0 st = Some (0, st)"
| "map_loop mi v_addr loop_va loop_pa (Suc npages) st = do {
    (ok, st) \<leftarrow> map_page mi loop_va loop_pa st;
    if ok then map_loop mi v_addr (loop_va + MMU_PAGE_SIZE) (loop_pa + MMU_PAGE_SIZE) npages st
    else do { st \<leftarrow> hw_mmu_unmap mi v_addr npages st; Some (-1, st) }
  }"

definition hw_mmu_map :: "rt_mmu_info \<Rightarrow> u64 \<Rightarrow> u64 \<Rightarrow> nat \<Rightarrow> u64 \<Rightarrow> mmu_state \<Rightarrow> (int \<times> mmu_state) option" where
  "hw_mmu_map mi v_addr p_addr npages attr st =
    map_loop mi v_addr (UMASKVALUE v_addr PAGE_OFFSET_MASK) (UMASKVALUE p_addr PAGE_OFFSET_MASK) npages st"

definition rt_hw_mmu_map :: "rt_mmu_info \<Rightarrow> u64 \<Rightarrow> u64 \<Rightarrow> u64 \<Rightarrow> u64 \<Rightarrow> mmu_state \<Rightarrow> (u64 \<times> mmu_state) option" where
  "rt_hw_mmu_map mi v_addr p_addr sz attr st =
    (if sz = 0 then Some (0, st)
     else let pages = GET_PF_ID (p_addr + sz - 1) - GET_PF_ID p_addr + 1 in
     if v_addr \<noteq> 0 \<and> GET_PF_OFFSET v_addr \<noteq> GET_PF_OFFSET p_addr then Some (0, st)
     else do {
       vaddr \<leftarrow> (if v_addr \<noteq> 0
                 then do { r \<leftarrow> check_vaddr mi (UMASKVALUE v_addr PAGE_OFFSET_MASK) pages st;
                           Some (if r \<noteq> 0 then 0 else UMASKVALUE v_addr PAGE_OFFSET_MASK) }
                 else find_vaddr mi pages st);
       if vaddr = 0 then Some (0, st)
       else do {
         (ret, st) \<leftarrow> hw_mmu_map mi vaddr p_addr (unat pages) attr st;
         Some (if ret = 0 then vaddr OR GET_PF_OFFSET p_addr else 0, st)
       }
     })"

definition rt_hw_mmu_v2p :: "rt_mmu_info \<Rightarrow> u64 \<Rightarrow> mmu_state \<Rightarrow> u64 option" where
  "rt_hw_mmu_v2p mi v_addr st =
    (let pte1 = mm_mem st (entry_at (vtable mi) (GET_L1 v_addr)) in
     if \<not> PTE_USED pte1 then Some 0
     else do {
       RT_ASSERT (\<not> PAGE_IS_LEAF pte1);
       let pte2 = mm_mem st (entry_at (PPN_TO_VPN (GET_PADDR pte1) (pv_off mi)) (GET_L2 v_addr));
       if \<not> PTE_USED pte2 then Some 0
       else do {
         RT_ASSERT (\<not> PAGE_IS_LEAF pte2);
         let pte3 = mm_mem st (entry_at (PPN_TO_VPN (GET_PADDR pte2) (pv_off mi)) (GET_L3 v_addr));
         if \<not> PTE_USED pte3 then Some 0
         else do { RT_ASSERT (PAGE_IS_LEAF pte3); Some (GET_PADDR pte3 OR GET_PF_OFFSET v_addr) }
       }
     })"

text \<open>The error path of \<open>__rt_hw_mmu_map_auto\<close>: give back the pages behind the first \<open>n\<close> addresses.\<close>

fun free_mapped :: "rt_mmu_info \<Rightarrow> u64 \<Rightarrow> nat \<Rightarrow> mmu_state \<Rightarrow> mmu_state option" where
  "free_mapped mi va 0 st = Some st"
| "free_mapped mi va (Suc n) st = do {
    pa \<leftarrow> rt_hw_mmu_v2p mi va st;
    st \<leftarrow> (if pa \<noteq> 0 then free_pages (PPN_TO_VPN pa (pv_off mi)) 0 st else Some st);
    free_mapped mi (va + MMU_PAGE_SIZE) n st
  }"

fun map_auto_loop :: "rt_mmu_info \<Rightarrow> u64 \<Rightarrow> u64 \<Rightarrow> u64 \<Rightarrow> nat \<Rightarrow> mmu_state \<Rightarrow> (int \<times> mmu_state) option" where
  "map_auto_loop mi v_addr attr loop_va 0 st = Some (0, st)"
| "map_auto_loop mi v_addr attr loop_va (Suc npages) st = do {
    (loop_pa, st) \<leftarrow> alloc_pages 0 st;
    (ret, st) \<leftarrow> (if loop_pa = 0 then Some (-1, st) else hw_mmu_map mi loop_va loop_pa 1 attr st);
    if ret < 0 then do {
      st \<leftarrow> free_mapped mi (UMASKVALUE v_addr PAGE_OFFSET_MASK) npages st;
      st \<leftarrow> hw_mmu_unmap mi v_addr npages st;
      Some (-1, st)
    } else map_auto_loop mi v_addr attr (loop_va + MMU_PAGE_SIZE) npages st
  }"

definition rt_hw_mmu_map_auto :: "rt_mmu_info \<Rightarrow> u64 \<Rightarrow> u64 \<Rightarrow> u64 \<Rightarrow> mmu_state \<Rightarrow> (u64 \<times> mmu_state) option" where
  "rt_hw_mmu_map_auto mi v_addr sz attr st =
    (if sz = 0 then Some (0, st)
     else let offset = GET_PF_OFFSET v_addr;
              pages = drop_bit 12 (sz + (offset + MMU_PAGE_SIZE - 1)) in do {
       vaddr \<leftarrow> (if v_addr \<noteq> 0
                 then do { r \<leftarrow> check_vaddr mi (UMASKVALUE v_addr PAGE_OFFSET_MASK) pages st;
                           Some (if r \<noteq> 0 then 0 else UMASKVALUE v_addr PAGE_OFFSET_MASK) }
                 else find_vaddr mi pages st);
       if vaddr = 0 then Some (0, st)
       else do {
         (ret, st) \<leftarrow> map_auto_loop mi vaddr attr (UMASKVALUE vaddr PAGE_OFFSET_MASK) (unat pages) st;
         Some (if ret = 0 then vaddr OR offset else 0, st)
       }
     })"

definition rt_hw_mmu_unmap :: "rt_mmu_info \<Rightarrow> u64 \<Rightarrow> u64 \<Rightarrow> mmu_state \<Rightarrow> mmu_state option" where
  "rt_hw_mmu_unmap mi v_addr sz st =
    (let pages = drop_bit 12 (v_addr + sz - 1) - drop_bit 12 v_addr + 1
     in hw_mmu_unmap mi v_addr (unat pages) st)"

section \<open>Bits of entries and addresses\<close>

lemma PTE_USED_bit: "PTE_USED pte \<longleftrightarrow> bit pte 0"
  unfolding PTE_USED_def and_one_eq by (simp add: bit_0 odd_iff_mod_2_eq_one)

lemma PAGE_IS_LEAF_bit: "PAGE_IS_LEAF pte \<longleftrightarrow> bit pte 1 \<or> bit pte 2 \<or> bit pte 3"
proof -
  have "(0xE :: u64) = push_bit 1 (mask 3)" by (simp add: mask_numeral)
  moreover have "bit (push_bit 1 (mask 3) :: u64) n \<longleftrightarrow> n = 1 \<or> n = 2 \<or> n = 3" for n unfolding bit_push_bit_iff bit_mask_iff by auto
  ultimately have b: "bit (0xE :: u64) n \<longleftrightarrow> n = 1 \<or> n = 2 \<or> n = 3" for n by (simp only:)
  show ?thesis unfolding PAGE_IS_LEAF_def word_eq_0_iff_bits bit_and_iff b
    by (auto intro: exI [of _ 1] exI [of _ 2] exI [of _ 3])
qed

lemma pte_kinds [simp]:
  "PTE_USED (COMBINEPTE x PAGE_DEFAULT_ATTR_NEXT)" "\<not> PAGE_IS_LEAF (COMBINEPTE x PAGE_DEFAULT_ATTR_NEXT)"
  "PTE_USED (COMBINEPTE x PAGE_DEFAULT_ATTR_LEAF)" "PAGE_IS_LEAF (COMBINEPTE x PAGE_DEFAULT_ATTR_LEAF)"
  "\<not> PTE_USED 0"
  by (simp_all add: PTE_USED_bit PAGE_IS_LEAF_bit COMBINEPTE_def PAGE_DEFAULT_ATTR_NEXT_def PAGE_DEFAULT_ATTR_LEAF_def bit_simps)

lemma unat_PARTBIT: "unat (PARTBIT v s n) = unat v div 2 ^ s mod 2 ^ n"
  unfolding PARTBIT_def take_bit_eq_mask [symmetric] unsigned_take_bit_eq
  unfolding take_bit_eq_mod unat_drop_bit_eq by (simp only: drop_bit_eq_div)

lemma attr_clear:
  assumes "attr \<in> {PAGE_DEFAULT_ATTR_NEXT, PAGE_DEFAULT_ATTR_LEAF}" "10 \<le> n" "n < 56"
  shows "\<not> bit attr n"
proof -
  have "attr AND push_bit 10 (mask 46) = 0"
    using assms(1) by (auto simp: PAGE_DEFAULT_ATTR_NEXT_def PAGE_DEFAULT_ATTR_LEAF_def mask_numeral)
  then have "\<not> bit (attr AND push_bit 10 (mask 46)) n" by (simp only: bit_0_eq bot_apply bot_bool_def not_False_eq_True)
  then show ?thesis using assms(2,3) by (auto simp: bit_simps)
qed

lemma GET_PADDR_COMBINEPTE:
  assumes "4096 dvd a" "a < 2 ^ 56" "attr \<in> {PAGE_DEFAULT_ATTR_NEXT, PAGE_DEFAULT_ATTR_LEAF}"
  shows "GET_PADDR (COMBINEPTE (word_of_nat a) attr) = word_of_nat a"
proof (rule bit_word_eqI)
  fix n assume n: "n < LENGTH(64)"
  define q where "q = a div 4096"
  have "a = push_bit 12 (take_bit 44 q)" using assms(1,2) by (auto simp: push_bit_eq_mult take_bit_eq_mod q_def)
  then have a: "bit a m \<longleftrightarrow> 12 \<le> m \<and> m < 56 \<and> bit q (m - 12)" for m by (auto simp: bit_push_bit_iff_nat bit_take_bit_iff)
  show "bit (GET_PADDR (COMBINEPTE (word_of_nat a) attr)) n = bit (word_of_nat a :: u64) n"
    using n attr_clear [OF assms(3), of "n - 2"] a [of n]
    by (auto simp: GET_PADDR_def PARTBIT_def COMBINEPTE_def bit_simps)
qed

lemma unat_u64 [simp]: "x < 2 ^ 64 \<Longrightarrow> unat (word_of_nat x :: u64) = x"
  by (simp add: unat_of_nat)

lemma u64_of_nat_inj: "x < 2 ^ 64 \<Longrightarrow> y < 2 ^ 64 \<Longrightarrow> (word_of_nat x :: u64) = word_of_nat y \<longleftrightarrow> x = y"
  using unat_u64 by metis

section \<open>The tables in memory\<close>

text \<open>A table is named by the path of entries that leads to it: \<open>[]\<close> is the root, \<open>[i]\<close> the table of level 2 behind entry \<open>i\<close> of the
  root, \<open>[i, j]\<close> the table of level 3 behind entry \<open>j\<close> of that. The directory \<open>tab\<close> gives the addresses of the tables.\<close>

type_synonym directory = "nat list \<Rightarrow> nat option"

definition contents :: "mmu_state \<Rightarrow> directory \<Rightarrow> nat list \<Rightarrow> nat \<Rightarrow> u64" where
  "contents st tab k i = mm_mem st (word_of_nat (the (tab k) + 8 * i))"

definition entry_ok :: "rt_mmu_info \<Rightarrow> nat list \<Rightarrow> nat \<Rightarrow> bool" where
  "entry_ok mi k i \<longleftrightarrow> i < 512 \<and> (k = [] \<longrightarrow> unat (vstart mi) \<le> i \<and> i \<le> unat (vend mi))"

definition used_set :: "(nat \<Rightarrow> u64) \<Rightarrow> nat set" where
  "used_set c = {i. i < 512 \<and> PTE_USED (c i)}"

text \<open>Entries of the first two levels lead to the tables of the directory, those of the last level are leaves, and the word behind the
  entries counts the ones in use.\<close>

definition table_ok :: "rt_mmu_info \<Rightarrow> directory \<Rightarrow> nat list \<Rightarrow> (nat \<Rightarrow> u64) \<Rightarrow> bool" where
  "table_ok mi tab k c \<longleftrightarrow>
    (if length k < 2
     then \<forall>i. entry_ok mi k i \<longrightarrow> (tab (k @ [i]) = None \<longrightarrow> \<not> PTE_USED (c i)) \<and>
            (\<forall>b. tab (k @ [i]) = Some b \<longrightarrow> c i = COMBINEPTE (word_of_nat b) PAGE_DEFAULT_ATTR_NEXT)
     else \<forall>i < 512. PTE_USED (c i) \<longrightarrow> PAGE_IS_LEAF (c i)) \<and>
    (k \<noteq> [] \<longrightarrow> c 512 = word_of_nat (card (used_set c)))"

definition tables_ok :: "rt_mmu_info \<Rightarrow> directory \<Rightarrow> (nat list \<Rightarrow> nat \<Rightarrow> u64) \<Rightarrow> bool" where
  "tables_ok mi tab c \<longleftrightarrow> (\<forall>k \<in> dom tab. table_ok mi tab k (c k))"

definition directory_ok :: "rt_mmu_info \<Rightarrow> directory \<Rightarrow> bool" where
  "directory_ok mi tab \<longleftrightarrow> tab [] = Some (unat (vtable mi)) \<and> (\<forall>k \<in> dom tab. length k \<le> 2) \<and>
    (\<forall>k i. k @ [i] \<in> dom tab \<longrightarrow> k \<in> dom tab \<and> entry_ok mi k i) \<and> inj_on tab (dom tab)"

text \<open>The groups of pages that hold the tables below the root.\<close>

definition table_groups :: "directory \<Rightarrow> (nat \<times> nat) set" where
  "table_groups tab = {(a, 1) |a k. k \<noteq> [] \<and> tab k = Some a}"

text \<open>The root is a page the caller holds or lies outside of the managed pages; \<open>U\<close> are other groups in use.\<close>

definition mmu_ok :: "rt_mmu_info \<Rightarrow> mmu_state \<Rightarrow> directory \<Rightarrow> (nat \<times> nat) set \<Rightarrow> bool" where
  "mmu_ok mi st tab U \<longleftrightarrow> pv_off mi = 0 \<and> unat (vend mi) < 512 \<and> 0 < unat (vtable mi) \<and> unat (vtable mi) + 4096 \<le> 2 ^ 56 \<and>
    4096 dvd unat (vtable mi) \<and>
    ((unat (vtable mi), 0) \<in> U \<or> {unat (vtable mi)..<unat (vtable mi) + 4096} \<inter> page_pool (mm_pages st) = {}) \<and>
    directory_ok mi tab \<and> page_holds (mm_pages st) (U \<union> table_groups tab) \<and> U \<inter> table_groups tab = {} \<and>
    tables_ok mi tab (contents st tab)"

lemma mmu_okD:
  assumes "mmu_ok mi st tab U"
  shows "pv_off mi = 0" "unat (vend mi) < 512" "0 < unat (vtable mi)" "unat (vtable mi) + 4096 \<le> 2 ^ 56" "4096 dvd unat (vtable mi)"
    "(unat (vtable mi), 0) \<in> U \<or> {unat (vtable mi)..<unat (vtable mi) + 4096} \<inter> page_pool (mm_pages st) = {}"
    "directory_ok mi tab" "page_holds (mm_pages st) (U \<union> table_groups tab)" "U \<inter> table_groups tab = {}"
    "tables_ok mi tab (contents st tab)"
  using assms unfolding mmu_ok_def by simp_all

abbreviation table_width :: "nat list \<Rightarrow> nat" where "table_width k \<equiv> if k = [] then 512 else 1024"

text \<open>The tables do not overlap.\<close>

lemma table_bounds:
  assumes ok: "mmu_ok mi st tab U" and a: "tab k = Some a"
  shows "0 < a" "4096 dvd a" "a + 8 * table_width k \<le> 2 ^ 56"
proof -
  note D = mmu_okD [OF ok]
  have "0 < a \<and> 4096 dvd a \<and> a + 8 * table_width k \<le> 2 ^ 56"
  proof (cases "k = []")
    case True
    then show ?thesis using a D(3,4,5,7) by (auto simp: directory_ok_def)
  next
    case False
    then have "(a, 1) \<in> U \<union> table_groups tab" using a by (auto simp: table_groups_def)
    from pg.group_law [OF D(8) this] False show ?thesis by auto
  qed
  then show "0 < a" "4096 dvd a" "a + 8 * table_width k \<le> 2 ^ 56" by auto
qed

lemma tables_apart:
  assumes ok: "mmu_ok mi st tab U" and a: "tab k = Some a" and b: "tab k' = Some b" and ne: "k \<noteq> k'"
  shows "a + 8 * table_width k \<le> b \<or> b + 8 * table_width k' \<le> a"
proof -
  note D = mmu_okD [OF ok]
  have t: "(x, 1) \<in> U \<union> table_groups tab" if "tab j = Some x" "j \<noteq> []" for x j
    using that by (auto simp: table_groups_def)
  have root: "unat (vtable mi) + 4096 \<le> x \<or> x + 8192 \<le> unat (vtable mi)" if x: "tab j = Some x" "j \<noteq> []" for x j
  proof (rule disjE [OF D(6)])
    assume "(unat (vtable mi), 0) \<in> U"
    then have "(unat (vtable mi), 0) \<in> U \<union> table_groups tab" by simp
    from pg.apart_law [OF D(8) this t [OF x]] show ?thesis by simp
  next
    assume e: "{unat (vtable mi)..<unat (vtable mi) + 4096} \<inter> page_pool (mm_pages st) = {}"
    have s: "{x..<x + 8192} \<subseteq> page_pool (mm_pages st)" using pg.group_law [OF D(8) t [OF x]] by simp
    show ?thesis
    proof (rule ccontr)
      assume "\<not> ?thesis"
      then have "max x (unat (vtable mi)) \<in> {unat (vtable mi)..<unat (vtable mi) + 4096} \<inter> {x..<x + 8192}" by auto
      with e s show False by blast
    qed
  qed
  have r: "tab [] = Some (unat (vtable mi))" "inj_on tab (dom tab)" using D(7) by (auto simp: directory_ok_def)
  consider "k = []" | "k' = []" | "k \<noteq> []" "k' \<noteq> []" by blast
  then show ?thesis
  proof cases
    case 3
    have "a \<noteq> b" using inj_onD [OF r(2), of k k'] a b ne by auto
    with pg.apart_law [OF D(8) t [OF a 3(1)] t [OF b 3(2)]] 3 show ?thesis by auto
  qed (use root [OF a] root [OF b] a b r ne in auto)
qed

lemma slots_apart:
  assumes ok: "mmu_ok mi st tab U" and a: "tab k = Some a" "i < table_width k" and b: "tab k' = Some b" "j < table_width k'"
  shows "(word_of_nat (a + 8 * i) :: u64) = word_of_nat (b + 8 * j) \<longleftrightarrow> k = k' \<and> i = j"
proof -
  have "a + 8 * i < 2 ^ 64" "b + 8 * j < 2 ^ 64"
    using table_bounds(3) [OF ok a(1)] table_bounds(3) [OF ok b(1)] a(2) b(2) by simp_all
  then have "(word_of_nat (a + 8 * i) :: u64) = word_of_nat (b + 8 * j) \<longleftrightarrow> a + 8 * i = b + 8 * j"
    by (rule u64_of_nat_inj)
  also have "\<dots> \<longleftrightarrow> k = k' \<and> i = j"
    using tables_apart [OF ok a(1) b(1)] a b by (cases "k = k'") auto
  finally show ?thesis .
qed

section \<open>Changing entries\<close>

text \<open>Only the entries and the count of the tables matter.\<close>

definition same_slots :: "directory \<Rightarrow> (nat list \<Rightarrow> nat \<Rightarrow> u64) \<Rightarrow> (nat list \<Rightarrow> nat \<Rightarrow> u64) \<Rightarrow> bool" where
  "same_slots tab c c' \<longleftrightarrow> (\<forall>k \<in> dom tab. \<forall>i < table_width k. c k i = c' k i)"

lemma same_slots_trans: "same_slots tab c c' \<Longrightarrow> same_slots tab c' c'' \<Longrightarrow> same_slots tab c c''"
  by (simp add: same_slots_def)

lemma same_slotsD: "same_slots tab c c' \<Longrightarrow> k \<in> dom tab \<Longrightarrow> i < 512 \<Longrightarrow> c k i = c' k i"
  by (simp add: same_slots_def)

lemma used_set_cong: "(\<And>i. i < 512 \<Longrightarrow> c i = c' i) \<Longrightarrow> used_set c = used_set c'"
  by (auto simp: used_set_def)

lemma table_ok_cong:
  assumes "\<And>i. i < 512 \<Longrightarrow> c i = c' i" "k \<noteq> [] \<Longrightarrow> c 512 = c' 512" "table_ok mi tab k c"
  shows "table_ok mi tab k c'"
proof -
  have "used_set c = used_set c'" by (rule used_set_cong) (rule assms(1))
  then show ?thesis using assms unfolding table_ok_def entry_ok_def by (auto split: if_splits)
qed

lemma tables_ok_cong: "same_slots tab c c' \<Longrightarrow> tables_ok mi tab c \<Longrightarrow> tables_ok mi tab c'"
  unfolding tables_ok_def
proof
  fix k assume "same_slots tab c c'" "\<forall>k \<in> dom tab. table_ok mi tab k (c k)" "k \<in> dom tab"
  then show "table_ok mi tab k (c' k)" by (intro table_ok_cong [of "c k" "c' k"]) (auto simp: same_slots_def)
qed

lemma finite_used [simp]: "finite (used_set c)"
  by (simp add: used_set_def)

lemma card_used_le: "card (used_set c) \<le> 512"
proof -
  have "used_set c \<subseteq> {0..<512}" by (auto simp: used_set_def)
  from card_mono [OF _ this] show ?thesis by simp
qed

lemma used_set_upd:
  "used_set (c(512 := x)) = used_set c"
  "i < 512 \<Longrightarrow> used_set (c(i := x)) = (if PTE_USED x then insert i (used_set c) else used_set c - {i})"
  by (auto simp: used_set_def)

text \<open>The two changes of an entry with its count.\<close>

lemma count_up:
  assumes "i < 512" "\<not> PTE_USED (c i)" "PTE_USED x" "c 512 = word_of_nat (card (used_set c))"
  shows "c 512 + 1 = word_of_nat (card (used_set (c(i := x, 512 := c 512 + 1))))"
proof -
  have "card (used_set (c(i := x))) = Suc (card (used_set c))" using assms by (simp add: used_set_upd) (simp add: used_set_def)
  then show ?thesis using assms(4) by (simp add: used_set_upd(1))
qed

lemma count_down:
  assumes "i < 512" "PTE_USED (c i)" "c 512 = word_of_nat (card (used_set c))"
  shows "c 512 - 1 = word_of_nat (card (used_set (c(i := 0, 512 := c 512 - 1))))"
    and "c 512 - 1 = 0 \<longleftrightarrow> used_set (c(i := 0)) = {}"
proof -
  have "i \<in> used_set c" using assms by (simp add: used_set_def)
  then have "Suc (card (used_set (c(i := 0)))) = card (used_set c)"
    using assms(1) card_Suc_Diff1 [of "used_set c" i] by (simp add: used_set_upd)
  then have e: "c 512 - 1 = word_of_nat (card (used_set (c(i := 0))))" using assms(3) by (metis add_diff_cancel_left' of_nat_Suc)
  then show "c 512 - 1 = word_of_nat (card (used_set (c(i := 0, 512 := c 512 - 1))))" by (simp add: used_set_upd(1))
  have "card (used_set (c(i := 0))) < 2 ^ 64" using card_used_le [of "c(i := 0)"] by simp
  then show "c 512 - 1 = 0 \<longleftrightarrow> used_set (c(i := 0)) = {}" unfolding e using u64_of_nat_inj [of _ 0] by simp
qed

lemma table_okD:
  assumes "table_ok mi tab k c"
  shows "length k < 2 \<Longrightarrow> entry_ok mi k i \<Longrightarrow> tab (k @ [i]) = None \<Longrightarrow> \<not> PTE_USED (c i)"
    "length k < 2 \<Longrightarrow> entry_ok mi k i \<Longrightarrow> tab (k @ [i]) = Some b \<Longrightarrow> c i = COMBINEPTE (word_of_nat b) PAGE_DEFAULT_ATTR_NEXT"
    "length k = 2 \<Longrightarrow> i < 512 \<Longrightarrow> PTE_USED (c i) \<Longrightarrow> PAGE_IS_LEAF (c i)"
    "k \<noteq> [] \<Longrightarrow> c 512 = word_of_nat (card (used_set c))"
  using assms unfolding table_ok_def by (auto split: if_splits)

lemma tables_ok_upd:
  assumes "tables_ok mi tab c" "table_ok mi tab k x"
  shows "tables_ok mi tab (c(k := x))"
  using assms by (simp add: tables_ok_def)

lemma leaf_set:
  assumes ok: "table_ok mi tab k c" and k: "length k = 2" "i < 512" "\<not> PTE_USED (c i)" and p: "PTE_USED p" "PAGE_IS_LEAF p"
  shows "table_ok mi tab k (c(i := p, 512 := c 512 + 1))"
proof -
  have "k \<noteq> []" using k(1) by auto
  from count_up [of i c p, OF k(2,3) p(1) table_okD(4) [OF ok this]] show ?thesis
    using ok k p by (auto simp: table_ok_def)
qed

lemma leaf_clear:
  assumes ok: "table_ok mi tab k c" and k: "length k = 2" "i < 512" "PTE_USED (c i)"
  shows "table_ok mi tab k (c(i := 0, 512 := c 512 - 1))"
proof -
  have "k \<noteq> []" using k(1) by auto
  from count_down(1) [of i c, OF k(2,3) table_okD(4) [OF ok this]] show ?thesis
    using ok k by (auto simp: table_ok_def)
qed

text \<open>A new table behind entry \<open>i\<close> of table \<open>k\<close>, and its removal.\<close>

definition bump :: "nat list \<Rightarrow> u64 \<Rightarrow> (nat \<Rightarrow> u64) \<Rightarrow> nat \<Rightarrow> u64" where
  "bump k d c = (if k = [] then c else c(512 := c 512 + d))"

lemma entry_link:
  assumes ok: "table_ok mi tab k c" and k: "length k < 2" "entry_ok mi k i" "tab (k @ [i]) = None"
  shows "table_ok mi (tab(k @ [i] \<mapsto> b)) k (bump k 1 (c(i := COMBINEPTE (word_of_nat b) PAGE_DEFAULT_ATTR_NEXT)))"
proof -
  have i: "i < 512" using k(2) by (simp add: entry_ok_def)
  have u: "\<not> PTE_USED (c i)" by (rule table_okD(1) [OF ok k])
  have "c 512 + 1 = word_of_nat (card (used_set (c(i := COMBINEPTE (word_of_nat b) PAGE_DEFAULT_ATTR_NEXT, 512 := c 512 + 1))))" if "k \<noteq> []"
    using count_up [of i c, OF i u _ table_okD(4) [OF ok that]] by simp
  then show ?thesis using ok k(1) i by (auto simp: table_ok_def bump_def entry_ok_def)
qed

lemma entry_unlink:
  assumes ok: "table_ok mi tab k c" and k: "length k < 2" "entry_ok mi k i" "tab (k @ [i]) = Some b"
  shows "table_ok mi (tab(k @ [i] := None)) k (bump k (-1) (c(i := 0)))"
proof -
  have i: "i < 512" using k(2) by (simp add: entry_ok_def)
  have u: "PTE_USED (c i)" using table_okD(2) [OF ok k] by simp
  have "c 512 - 1 = word_of_nat (card (used_set (c(i := 0, 512 := c 512 - 1))))" if "k \<noteq> []"
    using count_down(1) [of i c, OF i u table_okD(4) [OF ok that]] by simp
  then show ?thesis using ok k(1) i by (auto simp: table_ok_def bump_def entry_ok_def)
qed

lemma table_other: "table_ok mi tab k' c \<Longrightarrow> k' \<noteq> k \<Longrightarrow> table_ok mi (tab(k @ [i] := x)) k' c"
  by (auto simp: table_ok_def)

lemma table_fresh: "(\<And>i. tab (k @ [i]) = None) \<Longrightarrow> table_ok mi tab k (\<lambda>_. 0)"
  by (auto simp: table_ok_def used_set_def)

section \<open>Steps on the state\<close>

text \<open>What the tables say about page \<open>v\<close>: the leaf entry for it, if there is one.\<close>

definition lookup :: "directory \<Rightarrow> (nat list \<Rightarrow> nat \<Rightarrow> u64) \<Rightarrow> nat \<Rightarrow> u64 option" where
  "lookup tab c v = (let k = [v div 2 ^ 18, v div 512 mod 512]; p = c k (v mod 512)
    in if k \<in> dom tab \<and> PTE_USED p then Some p else None)"

lemma lookup_cong: "same_slots tab c c' \<Longrightarrow> lookup tab c = lookup tab c'"
proof (rule ext)
  fix v :: nat assume S: "same_slots tab c c'"
  let ?k = "[v div 2 ^ 18, v div 512 mod 512]"
  have "c ?k (v mod 512) = c' ?k (v mod 512)" if "?k \<in> dom tab" by (rule same_slotsD [OF S that]) simp
  then show "lookup tab c v = lookup tab c' v" unfolding lookup_def Let_def by (simp cong: conj_cong)
qed

lemma page_path:
  fixes v w :: nat
  shows "v = w \<longleftrightarrow> v div 2 ^ 18 = w div 2 ^ 18 \<and> v div 512 mod 512 = w div 512 mod 512 \<and> v mod 512 = w mod 512"
proof -
  have "x = x div 2 ^ 18 * 262144 + x div 512 mod 512 * 512 + x mod 512" for x :: nat
  proof -
    have "x div 512 div 512 = x div 2 ^ 18" by (simp flip: div_mult2_eq)
    with div_mult_mod_eq [of "x div 512" 512] div_mult_mod_eq [of x 512] show ?thesis by linarith
  qed
  then show ?thesis by metis
qed

lemma lookup_leaf:
  assumes "[v div 2 ^ 18, v div 512 mod 512] \<in> dom tab"
  shows "lookup tab (c([v div 2 ^ 18, v div 512 mod 512] := (c [v div 2 ^ 18, v div 512 mod 512])(v mod 512 := x, 512 := y))) =
    (lookup tab c)(v := if PTE_USED x then Some x else None)"
proof (rule ext)
  fix w :: nat
  have "w mod 512 \<noteq> 512" using mod_less_divisor [of 512 w] by linarith
  then show "lookup tab (c([v div 2 ^ 18, v div 512 mod 512] := (c [v div 2 ^ 18, v div 512 mod 512])(v mod 512 := x, 512 := y))) w =
    ((lookup tab c)(v := if PTE_USED x then Some x else None)) w"
    using assms page_path [of v w] by (auto simp: lookup_def Let_def)
qed

lemma store_simps [simp]:
  "mm_pages (store x v st) = mm_pages st" "mm_mem (store x v st) x = v" "contents (st\<lparr>mm_pages := ps\<rparr>) = contents st"
  by (simp_all add: store_def contents_def fun_eq_iff)

lemma contents_at: "tab k = Some a \<Longrightarrow> contents st tab k i = mm_mem st (word_of_nat (a + 8 * i))"
  by (simp add: contents_def)

lemma contents_store:
  assumes ok: "mmu_ok mi st tab U" and k: "tab k = Some a" "i < table_width k"
  shows "same_slots tab (contents (store (word_of_nat (a + 8 * i)) v st0) tab) ((contents st0 tab)(k := (contents st0 tab k)(i := v)))"
  unfolding same_slots_def
proof (intro ballI allI impI)
  fix k' j assume j: "k' \<in> dom tab" "j < table_width k'"
  then obtain b where b: "tab k' = Some b" by blast
  note A = slots_apart [OF ok b j(2) k(1,2)]
  have ba: "b = a" if "k' = k" using that b k(1) by simp
  show "contents (store (word_of_nat (a + 8 * i)) v st0) tab k' j = ((contents st0 tab)(k := (contents st0 tab k)(i := v))) k' j"
    using A ba by (cases "k' = k") (simp_all add: store_def contents_def b k(1) del: of_nat_add of_nat_mult)
qed

text \<open>Two stores into one table.\<close>

lemma same_slots_upd: "same_slots tab c c' \<Longrightarrow> k \<in> dom tab \<Longrightarrow> i < table_width k \<Longrightarrow> same_slots tab (c(k := (c k)(i := v))) (c'(k := (c' k)(i := v)))"
  unfolding same_slots_def by (metis fun_upd_apply)

lemma contents_store2:
  assumes ok: "mmu_ok mi st tab U" and k: "tab k = Some a" "i < table_width k" "j < table_width k"
  shows "same_slots tab (contents (store (word_of_nat (a + 8 * j)) w (store (word_of_nat (a + 8 * i)) v st0)) tab)
    ((contents st0 tab)(k := (contents st0 tab k)(i := v, j := w)))"
proof -
  have "k \<in> dom tab" using k(1) by blast
  from same_slots_trans [OF contents_store [OF ok k(1,3)] same_slots_upd [OF contents_store [OF ok k(1,2)] this k(3)]]
  show ?thesis by simp
qed

text \<open>The tables change, the rest stays.\<close>

lemma mmu_ok_mem:
  assumes "mmu_ok mi st tab U" "mm_pages st' = mm_pages st" "same_slots tab (contents st' tab) c" "tables_ok mi tab c"
  shows "mmu_ok mi st' tab U"
proof -
  have "same_slots tab c (contents st' tab)" using assms(3) by (simp add: same_slots_def)
  with tables_ok_cong assms(4) have "tables_ok mi tab (contents st' tab)" by blast
  with assms(1,2) show ?thesis by (simp add: mmu_ok_def)
qed

text \<open>Pages from and to the allocator: they belong to the caller's groups.\<close>

lemma mmu_alloc:
  assumes ok: "mmu_ok mi st tab U" and sb: "sb \<le> 1" and r: "0 < room (mm_pages st)"
  shows "\<exists>b ps. alloc_pages sb st = Some (word_of_nat b, st\<lparr>mm_pages := ps\<rparr>) \<and> (b, sb) \<notin> U \<union> table_groups tab \<and>
    mmu_ok mi (st\<lparr>mm_pages := ps\<rparr>) tab (insert (b, sb) U) \<and> room (mm_pages st) \<le> room ps + 2 \<and> 0 < b \<and> b + 2 ^ sb * 4096 \<le> 2 ^ 56 \<and> 4096 dvd b"
proof -
  note D = mmu_okD [OF ok]
  from pg.alloc_room [OF D(8) sb r] obtain b ps where
    b: "rt_pages_alloc sb (mm_pages st) = Some (b, ps)" "page_pool ps = page_pool (mm_pages st)" "(b, sb) \<notin> U \<union> table_groups tab"
      "page_holds ps (insert (b, sb) (U \<union> table_groups tab))" "room (mm_pages st) \<le> room ps + 2" by blast
  have "mmu_ok mi (st\<lparr>mm_pages := ps\<rparr>) tab (insert (b, sb) U)"
    using ok b(2,3,4) by (auto simp: mmu_ok_def)
  moreover have "alloc_pages sb st = Some (word_of_nat b, st\<lparr>mm_pages := ps\<rparr>)" by (simp add: alloc_pages_def b(1))
  ultimately show ?thesis using b(3,5) pg.group_law [OF b(4), of b sb] by auto
qed

lemma mmu_free:
  assumes ok: "mmu_ok mi st tab (insert (b, 1) U)" and b: "(b, 1) \<notin> U"
  shows "\<exists>ps. free_pages (word_of_nat b) 1 st = Some (st\<lparr>mm_pages := ps\<rparr>) \<and> mmu_ok mi (st\<lparr>mm_pages := ps\<rparr>) tab U"
proof -
  note D = mmu_okD [OF ok]
  have "b < 2 ^ 64" using pg.group_law [OF D(8), of b 1] by simp
  moreover from pg.free_law [OF D(8), of b 1] obtain ps where
    f: "rt_pages_free b 1 (mm_pages st) = Some (1, ps)" "page_pool ps = page_pool (mm_pages st)"
      "page_holds ps (insert (b, 1) U \<union> table_groups tab - {(b, 1)})" by auto
  moreover have "insert (b, 1) U \<union> table_groups tab - {(b, 1)} = U \<union> table_groups tab" using b D(9) by auto
  ultimately show ?thesis using ok by (intro exI [of _ ps]) (auto simp: free_pages_def mmu_ok_def)
qed

lemma memset_zero_at:
  assumes "b + 8192 \<le> 2 ^ 64" "x < 2 ^ 64"
  shows "mm_mem (memset_zero (word_of_nat b) 8192 st) (word_of_nat x) = (if b \<le> x \<and> x < b + 8192 then 0 else mm_mem st (word_of_nat x))"
proof -
  have "unat (word_of_nat x - word_of_nat b :: u64) = (if b \<le> x then x - b else x + 2 ^ 64 - b)"
    using assms unat_sub_if' [of "word_of_nat x :: u64" "word_of_nat b"] by simp
  then have "(word_of_nat x - word_of_nat b :: u64) < 8192 \<longleftrightarrow> b \<le> x \<and> x < b + 8192"
    using assms by (auto simp: word_less_nat_alt)
  then show ?thesis by (simp add: memset_zero_def)
qed

lemma held_apart:
  assumes ok: "mmu_ok mi st tab (insert (b, 1) U)" and a: "tab k = Some a"
  shows "a + 8 * table_width k \<le> b \<or> b + 8192 \<le> a"
proof (cases "k = []")
  case True
  note D = mmu_okD [OF ok]
  from True have a': "a = unat (vtable mi)" using a D(7) by (simp add: directory_ok_def)
  show ?thesis
  proof (rule disjE [OF D(6)])
    assume "(unat (vtable mi), 0) \<in> insert (b, 1) U"
    then have "(a, 0) \<in> insert (b, 1) U \<union> table_groups tab" by (simp add: a')
    from pg.apart_law [OF D(8) this, of b 1] True show ?thesis by simp
  next
    assume e: "{unat (vtable mi)..<unat (vtable mi) + 4096} \<inter> page_pool (mm_pages st) = {}"
    have s: "{b..<b + 8192} \<subseteq> page_pool (mm_pages st)" using pg.group_law [OF D(8), of b 1] by simp
    show ?thesis
    proof (rule ccontr)
      assume "\<not> ?thesis"
      then have "max b a \<in> {a..<a + 4096} \<inter> {b..<b + 8192}" using True by auto
      with e s a' show False by blast
    qed
  qed
next
  case False
  note D = mmu_okD [OF ok]
  from False have t: "(a, 1) \<in> table_groups tab" using a by (auto simp: table_groups_def)
  then have "a \<noteq> b" using D(9) by blast
  with pg.apart_law [OF D(8), of a 1 b 1] t False show ?thesis by simp
qed

lemma mmu_zero:
  assumes ok: "mmu_ok mi st tab (insert (b, 1) U)"
  shows "mmu_ok mi (memset_zero (word_of_nat b) 8192 st) tab (insert (b, 1) U)"
    "same_slots tab (contents (memset_zero (word_of_nat b) 8192 st) tab) (contents st tab)"
    "i < 1024 \<Longrightarrow> mm_mem (memset_zero (word_of_nat b) 8192 st) (word_of_nat (b + 8 * i)) = 0"
proof -
  note D = mmu_okD [OF ok]
  have B: "b + 8192 \<le> 2 ^ 56" using pg.group_law [OF D(8), of b 1] by simp
  have "contents (memset_zero (word_of_nat b) 8192 st) tab k j = contents st tab k j" if kj: "k \<in> dom tab" "j < table_width k" for k j
  proof -
    from kj(1) obtain a where a: "tab k = Some a" by blast
    note T = table_bounds [OF ok a]
    note apart = held_apart [OF ok a]
    have "a + 8 * j < 2 ^ 64" using T(3) kj(2) by simp
    from memset_zero_at [OF _ this, of b st] B apart kj(2) show ?thesis by (auto simp: contents_def a simp del: of_nat_add of_nat_mult)
  qed
  then show S: "same_slots tab (contents (memset_zero (word_of_nat b) 8192 st) tab) (contents st tab)" by (simp add: same_slots_def)
  show "mmu_ok mi (memset_zero (word_of_nat b) 8192 st) tab (insert (b, 1) U)"
    by (rule mmu_ok_mem [OF ok _ S D(10)]) (simp add: memset_zero_def)
  show "mm_mem (memset_zero (word_of_nat b) 8192 st) (word_of_nat (b + 8 * i)) = 0" if "i < 1024"
    using memset_zero_at [of b "b + 8 * i" st] B that by (simp del: of_nat_add of_nat_mult)
qed

text \<open>The entry and the count of table \<open>k\<close> (the root has no count) change together.\<close>

definition put_entry :: "nat list \<Rightarrow> nat \<Rightarrow> nat \<Rightarrow> u64 \<Rightarrow> u64 \<Rightarrow> mmu_state \<Rightarrow> mmu_state" where
  "put_entry k a i p d st =
    (let st = store (word_of_nat (a + 8 * i)) p st; cnt = word_of_nat (a + 8 * 512)
     in if k = [] then st else store cnt (mm_mem st cnt + d) st)"

lemma put_entry_pages [simp]: "mm_pages (put_entry k a i p d st) = mm_pages st"
  by (simp add: put_entry_def Let_def)

lemma put_entry_slots:
  assumes ok: "mmu_ok mi st tab U" and k: "tab k = Some a" "i < 512"
  shows "same_slots tab (contents (put_entry k a i p d st) tab) ((contents st tab)(k := bump k d ((contents st tab k)(i := p))))"
proof (cases "k = []")
  case True
  then show ?thesis using contents_store [OF ok k(1), of i p st] k(2) by (simp add: put_entry_def bump_def del: of_nat_add of_nat_mult)
next
  case False
  define st1 where "st1 = store (word_of_nat (a + 8 * i)) p st"
  have S1: "same_slots tab (contents st1 tab) ((contents st tab)(k := (contents st tab k)(i := p)))"
    unfolding st1_def by (rule contents_store [OF ok k(1)]) (use k(2) False in simp)
  have kd: "k \<in> dom tab" using k(1) by blast
  have "contents st1 tab k 512 = contents st tab k 512"
    using S1 kd False k(2) by (auto simp: same_slots_def)
  then have "mm_mem st1 (word_of_nat (a + 8 * 512)) = contents st tab k 512" unfolding contents_at [of tab k a st1, OF k(1)] .
  then have "put_entry k a i p d st = store (word_of_nat (a + 8 * 512)) (contents st tab k 512 + d) st1"
    using False by (simp add: put_entry_def st1_def Let_def del: of_nat_add of_nat_mult)
  then have "same_slots tab (contents (put_entry k a i p d st) tab)
      ((contents st tab)(k := (contents st tab k)(i := p, 512 := contents st tab k 512 + d)))"
    unfolding st1_def using contents_store2 [OF ok k(1), of i 512 "contents st tab k 512 + d" p st] k(2) False by simp
  then show ?thesis using False k(2) by (simp add: bump_def)
qed

lemma put_entry_other:
  assumes "i < 512" "a + 8 * table_width k \<le> b \<or> b + 8192 \<le> a" "a + 8 * table_width k \<le> 2 ^ 64" "b + 8192 \<le> 2 ^ 64" "j < 1024"
  shows "mm_mem (put_entry k a i p d st) (word_of_nat (b + 8 * j)) = mm_mem st (word_of_nat (b + 8 * j))"
proof -
  have "(word_of_nat (b + 8 * j) :: u64) \<noteq> word_of_nat (a + 8 * m)" if "m < table_width k" for m
    using assms that u64_of_nat_inj [of "b + 8 * j" "a + 8 * m"] by (auto split: if_splits)
  from this [of i] this [of 512] assms(1) show ?thesis
    by (auto simp: put_entry_def store_def Let_def simp del: of_nat_add of_nat_mult)
qed

lemma table_groups_upd:
  "k \<noteq> [] \<Longrightarrow> tab k = None \<Longrightarrow> table_groups (tab(k \<mapsto> b)) = insert (b, 1) (table_groups tab)"
  "k \<noteq> [] \<Longrightarrow> tab k = Some b \<Longrightarrow> inj_on tab (dom tab) \<Longrightarrow> table_groups (tab(k := None)) = table_groups tab - {(b, 1)}"
proof -
  assume "k \<noteq> []" "tab k = None"
  then show "table_groups (tab(k \<mapsto> b)) = insert (b, 1) (table_groups tab)" by (auto simp: table_groups_def) (metis option.distinct(1))
next
  assume k: "k \<noteq> []" "tab k = Some b" and i: "inj_on tab (dom tab)"
  have e: "(tab(k := None)) j = Some x \<longleftrightarrow> tab j = Some x \<and> x \<noteq> b" for j x
    using inj_onD [OF i, of j k] k(2) by (cases "j = k") (auto simp: dom_def)
  show "table_groups (tab(k := None)) = table_groups tab - {(b, 1)}" 
    by (auto simp: table_groups_def e simp del: fun_upd_apply)
qed

lemma directory_add:
  assumes "directory_ok mi tab" "k \<in> dom tab" "length k < 2" "entry_ok mi k i" "tab (k @ [i]) = None" "b \<notin> ran tab"
  shows "directory_ok mi (tab(k @ [i] \<mapsto> b))"
proof -
  have "inj_on (tab(k @ [i] \<mapsto> b)) (dom (tab(k @ [i] \<mapsto> b)))"
    using assms(1,5,6) by (auto simp: directory_ok_def inj_on_def ran_def dom_def)
  then show ?thesis using assms by (auto simp: directory_ok_def)
qed

lemma directory_drop:
  assumes "directory_ok mi tab" "\<And>j. tab (k @ [i, j]) = None"
  shows "directory_ok mi (tab(k @ [i] := None))"
proof -
  have "tab j \<noteq> tab j' \<or> j = j'" if "j \<in> dom tab" "j' \<in> dom tab" for j j' using assms(1) that by (auto simp: directory_ok_def inj_on_def)
  then have "inj_on (tab(k @ [i] := None)) (dom (tab(k @ [i] := None)))" by (auto simp: inj_on_def split: if_splits)
  moreover have "k' \<in> dom (tab(k @ [i] := None)) \<and> entry_ok mi k' j" if "k' @ [j] \<in> dom (tab(k @ [i] := None))" for k' j
  proof -
    have d: "k' @ [j] \<in> dom tab" using that by (auto split: if_splits)
    then have "k' \<in> dom tab \<and> entry_ok mi k' j" using assms(1) unfolding directory_ok_def by blast
    moreover have "k' \<noteq> k @ [i]" using assms(2) [of j] d by auto
    ultimately show ?thesis by simp
  qed
  moreover have "(tab(k @ [i] := None)) [] = Some (unat (vtable mi))" "\<forall>k' \<in> dom (tab(k @ [i] := None)). length k' \<le> 2"
    using assms(1) by (simp_all add: directory_ok_def)
  ultimately show ?thesis unfolding directory_ok_def by blast
qed

lemma mmu_link:
  assumes ok: "mmu_ok mi st tab (insert (b, 1) U)" and b: "(b, 1) \<notin> U" and k: "tab k = Some a" "length k < 2" "entry_ok mi k i" "tab (k @ [i]) = None"
    and z: "\<And>j. j < 1024 \<Longrightarrow> mm_mem st (word_of_nat (b + 8 * j)) = 0"
  defines "tab' \<equiv> tab(k @ [i] \<mapsto> b)" and "st' \<equiv> put_entry k a i (COMBINEPTE (word_of_nat b) PAGE_DEFAULT_ATTR_NEXT) 1 st"
  shows "mmu_ok mi st' tab' U" "lookup tab' (contents st' tab') = lookup tab (contents st tab)"
proof -
  note D = mmu_okD [OF ok]
  have i: "i < 512" using k(3) by (simp add: entry_ok_def)
  have kd: "k \<in> dom tab" using k(1) by blast
  have B: "b + 8192 \<le> 2 ^ 56" "0 < b" using pg.group_law [OF D(8), of b 1] by simp_all
  define c where "c = (contents st tab)(k := bump k 1 ((contents st tab k)(i := COMBINEPTE (word_of_nat b) PAGE_DEFAULT_ATTR_NEXT)))"
  have S0: "same_slots tab (contents st' tab) c" unfolding st'_def c_def by (rule put_entry_slots [OF ok k(1) i])
  have z': "mm_mem st' (word_of_nat (b + 8 * j)) = 0" if "j < 1024" for j
    unfolding st'_def using put_entry_other [OF i held_apart [OF ok k(1)] _ _ that] z [OF that] table_bounds(3) [OF ok k(1)] B by simp
  have S: "same_slots tab' (contents st' tab') (c(k @ [i] := \<lambda>_. 0))"
    using S0 z' k(4) by (auto simp: same_slots_def tab'_def contents_def simp del: of_nat_add of_nat_mult)
  have dn: "tab (k @ [i] @ [j]) = None" for j
    using D(7) k(4) by (metis append_assoc directory_ok_def domIff)
  have T: "tables_ok mi tab' (c(k @ [i] := \<lambda>_. 0))" unfolding tables_ok_def
  proof
    fix k' assume k': "k' \<in> dom tab'"
    consider "k' = k @ [i]" | "k' = k" | "k' \<in> dom tab" "k' \<noteq> k" "k' \<noteq> k @ [i]" using k' by (auto simp: tab'_def split: if_splits)
    then show "table_ok mi tab' k' ((c(k @ [i] := \<lambda>_. 0)) k')"
    proof cases
      case 1
      then show ?thesis using table_fresh [of tab' "k @ [i]"] dn by (simp add: tab'_def)
    next
      case 2
      have "table_ok mi tab k (contents st tab k)" using D(10) kd by (simp add: tables_ok_def)
      from entry_link [OF this k(2,3,4)] 2 show ?thesis by (simp add: c_def tab'_def)
    next
      case 3
      then have "table_ok mi tab k' (c k')" using D(10) by (simp add: tables_ok_def c_def)
      with table_other 3 show ?thesis by (simp add: tab'_def)
    qed
  qed
  have "b \<notin> ran tab"
  proof
    assume "b \<in> ran tab"
    then obtain j where "tab j = Some b" by (auto simp: ran_def)
    from held_apart [OF ok this] show False by (simp split: if_splits)
  qed
  then have dir: "directory_ok mi tab'" unfolding tab'_def by (rule directory_add [OF D(7) kd k(2-4)])
  have "tables_ok mi tab' (contents st' tab')" by (rule tables_ok_cong [OF _ T]) (use S in \<open>simp add: same_slots_def\<close>)
  moreover have "table_groups tab' = insert (b, 1) (table_groups tab)" unfolding tab'_def by (rule table_groups_upd) (use k(4) in auto)
  then have "insert (b, 1) U \<union> table_groups tab = U \<union> table_groups tab'" "U \<inter> table_groups tab' = {}" using b D(9) by auto
  moreover have "mm_pages st' = mm_pages st" by (simp add: st'_def)
  ultimately show "mmu_ok mi st' tab' U" using D(1-6,8) dir unfolding mmu_ok_def by simp
  have "lookup tab' (c(k @ [i] := \<lambda>_. 0)) v = lookup tab (contents st tab) v" for v
    using k(2,4) by (auto simp: lookup_def Let_def tab'_def c_def)
  then show "lookup tab' (contents st' tab') = lookup tab (contents st tab)" using lookup_cong [OF S] by auto
qed

lemma mmu_unlink:
  assumes ok: "mmu_ok mi st tab U" and k: "tab k = Some a" "length k < 2" "tab (k @ [i]) = Some b" and e: "used_set (contents st tab (k @ [i])) = {}"
  defines "tab' \<equiv> tab(k @ [i] := None)" and "st' \<equiv> put_entry k a i 0 (-1) st"
  shows "mmu_ok mi st' tab' (insert (b, 1) U)" "(b, 1) \<notin> U" "lookup tab' (contents st' tab') = lookup tab (contents st tab)"
proof -
  note D = mmu_okD [OF ok]
  have ent: "entry_ok mi k i" using D(7) k(3) unfolding directory_ok_def by blast
  then have i: "i < 512" by (simp add: entry_ok_def)
  have kd: "k \<in> dom tab" "k @ [i] \<in> dom tab" using k by blast+
  define c where "c = (contents st tab)(k := bump k (-1) ((contents st tab k)(i := 0)))"
  have S0: "same_slots tab (contents st' tab) c" unfolding st'_def c_def by (rule put_entry_slots [OF ok k(1) i])
  have S: "same_slots tab' (contents st' tab') c" using S0 by (auto simp: same_slots_def tab'_def contents_def)
  have dn: "tab (k @ [i, j]) = None" for j
  proof (rule ccontr)
    assume "tab (k @ [i, j]) \<noteq> None"
    then obtain x where x: "tab ((k @ [i]) @ [j]) = Some x" by auto
    then have en: "entry_ok mi (k @ [i]) j" and "length ((k @ [i]) @ [j]) \<le> 2" using D(7) unfolding directory_ok_def by blast+
    moreover have "table_ok mi tab (k @ [i]) (contents st tab (k @ [i]))" using D(10) kd(2) unfolding tables_ok_def by blast
    ultimately have "PTE_USED (contents st tab (k @ [i]) j)" using table_okD(2) [of mi tab "k @ [i]" "contents st tab (k @ [i])", OF _ _ en x] by simp
    then show False using e en by (auto simp: used_set_def entry_ok_def)
  qed
  have T: "tables_ok mi tab' c" unfolding tables_ok_def
  proof
    fix k' assume "k' \<in> dom tab'"
    then have k': "k' \<in> dom tab" by (auto simp: tab'_def split: if_splits)
    then have t: "table_ok mi tab k' (contents st tab k')" using D(10) by (simp add: tables_ok_def)
    show "table_ok mi tab' k' (c k')"
    proof (cases "k' = k")
      case True
      then show ?thesis using entry_unlink [OF t _ _ , of i b] k(2,3) ent by (simp add: c_def tab'_def)
    next
      case False
      then show ?thesis using table_other [OF t] by (simp add: c_def tab'_def)
    qed
  qed
  have "tables_ok mi tab' (contents st' tab')" by (rule tables_ok_cong [OF _ T]) (use S in \<open>simp add: same_slots_def\<close>)
  moreover have inj: "inj_on tab (dom tab)" using D(7) by (simp add: directory_ok_def)
  have "table_groups tab' = table_groups tab - {(b, 1)}" unfolding tab'_def by (rule table_groups_upd(2)) (use k(3) inj in auto)
  moreover have m: "(b, 1) \<in> table_groups tab" using k(3) by (auto simp: table_groups_def)
  ultimately have "insert (b, 1) U \<union> table_groups tab' = U \<union> table_groups tab" "insert (b, 1) U \<inter> table_groups tab' = {}"
    "tables_ok mi tab' (contents st' tab')" using D(9) by auto
  moreover have "mm_pages st' = mm_pages st" by (simp add: st'_def)
  moreover have "directory_ok mi tab'" unfolding tab'_def by (rule directory_drop [OF D(7) dn])
  moreover have "(unat (vtable mi), 0) \<in> insert (b, 1) U \<or> {unat (vtable mi)..<unat (vtable mi) + 4096} \<inter> page_pool (mm_pages st) = {}"
    using D(6) by blast
  ultimately show "mmu_ok mi st' tab' (insert (b, 1) U)" using D(1-5,8) unfolding mmu_ok_def by simp
  show "(b, 1) \<notin> U" using D(9) m by blast
  have "lookup tab' c v = lookup tab (contents st tab) v" for v
  proof (cases "[v div 2 ^ 18, v div 512 mod 512] = k @ [i]")
    case True
    then have "\<not> PTE_USED (contents st tab [v div 2 ^ 18, v div 512 mod 512] (v mod 512))" using e by (auto simp: used_set_def)
    then show ?thesis using True by (simp add: lookup_def Let_def tab'_def)
  next
    case False
    moreover have "[v div 2 ^ 18, v div 512 mod 512] \<noteq> k" using k(2) by auto
    ultimately show ?thesis by (simp add: lookup_def Let_def tab'_def c_def)
  qed
  then show "lookup tab' (contents st' tab') = lookup tab (contents st tab)" using lookup_cong [OF S] by auto
qed

lemma mmu_leaf:
  assumes ok: "mmu_ok mi st tab U" and k: "tab [v div 2 ^ 18, v div 512 mod 512] = Some a"
    and p: "p = 0 \<and> d = -1 \<and> lookup tab (contents st tab) v \<noteq> None \<or> PTE_USED p \<and> PAGE_IS_LEAF p \<and> d = 1 \<and> lookup tab (contents st tab) v = None"
  defines "st' \<equiv> put_entry [v div 2 ^ 18, v div 512 mod 512] a (v mod 512) p d st"
  shows "mmu_ok mi st' tab U" "lookup tab (contents st' tab) = (lookup tab (contents st tab))(v := if PTE_USED p then Some p else None)"
proof -
  let ?k = "[v div 2 ^ 18, v div 512 mod 512]" and ?c = "contents st tab"
  have kd: "?k \<in> dom tab" using k by blast
  have m: "v mod 512 < 512" by simp
  have S: "same_slots tab (contents st' tab) (?c(?k := (?c ?k)(v mod 512 := p, 512 := ?c ?k 512 + d)))"
    unfolding st'_def using put_entry_slots [OF ok k m, of p d] m by (simp add: bump_def)
  have t: "table_ok mi tab ?k (?c ?k)" using mmu_okD(10) [OF ok] kd unfolding tables_ok_def by blast
  have u: "PTE_USED (?c ?k (v mod 512)) \<longleftrightarrow> lookup tab ?c v \<noteq> None" using k by (auto simp: lookup_def Let_def)
  have "table_ok mi tab ?k ((?c ?k)(v mod 512 := p, 512 := ?c ?k 512 + d))"
    using p leaf_clear [OF t _ m] leaf_set [OF t _ m] u by auto
  then have "tables_ok mi tab (?c(?k := (?c ?k)(v mod 512 := p, 512 := ?c ?k 512 + d)))"
    by (rule tables_ok_upd [OF mmu_okD(10) [OF ok]])
  then show "mmu_ok mi st' tab U" by (intro mmu_ok_mem [OF ok _ S]) (simp add: st'_def)
  show "lookup tab (contents st' tab) = (lookup tab ?c)(v := if PTE_USED p then Some p else None)"
    unfolding lookup_cong [OF S] by (rule lookup_leaf [OF kd])
qed

section \<open>One page\<close>

lemma entry_at_nat [simp]: "entry_at (word_of_nat a) (word_of_nat i) = word_of_nat (a + 8 * i)"
  by (simp add: entry_at_def)

lemma entry_at_512 [simp]: "entry_at (word_of_nat a) 512 = word_of_nat (a + 8 * 512)"
  by (simp add: entry_at_def)

lemma word_of_unat: "(w :: u64) = word_of_nat (unat w)"
  by simp

text \<open>The pages that a table structure manages.\<close>

definition managed :: "rt_mmu_info \<Rightarrow> nat \<Rightarrow> bool" where
  "managed mi v \<longleftrightarrow> unat (vstart mi) \<le> v div 2 ^ 18 \<and> v div 2 ^ 18 \<le> unat (vend mi)"

lemma GET_L_page:
  assumes "mmu_ok mi st tab U" "managed mi (unat va div 4096)"
  shows "GET_L1 va = word_of_nat (unat va div 4096 div 2 ^ 18)" "GET_L2 va = word_of_nat (unat va div 4096 div 512 mod 512)"
    "GET_L3 va = word_of_nat (unat va div 4096 mod 512)"
proof -
  have l: "unat va div 4096 div 2 ^ 18 < 512" using assms mmu_okD(2) [OF assms(1)] by (auto simp: managed_def)
  have "unat (GET_L1 va) = unat va div 4096 div 2 ^ 18"
    unfolding GET_L1_def unat_PARTBIT using l by (simp flip: div_mult2_eq)
  then show "GET_L1 va = word_of_nat (unat va div 4096 div 2 ^ 18)" by (metis word_of_unat)
  have "unat (GET_L2 va) = unat va div 4096 div 512 mod 512" unfolding GET_L2_def unat_PARTBIT by (simp flip: div_mult2_eq)
  then show "GET_L2 va = word_of_nat (unat va div 4096 div 512 mod 512)" by (metis word_of_unat)
  have "unat (GET_L3 va) = unat va div 4096 mod 512" unfolding GET_L3_def unat_PARTBIT by simp
  then show "GET_L3 va = word_of_nat (unat va div 4096 mod 512)" by (metis word_of_unat)
qed

lemma entry_next:
  assumes ok: "mmu_ok mi st tab U" and k: "tab k = Some a" "length k < 2" "tab (k @ [i]) = Some b"
  shows "mm_mem st (word_of_nat (a + 8 * i)) = COMBINEPTE (word_of_nat b) PAGE_DEFAULT_ATTR_NEXT"
    "PPN_TO_VPN (GET_PADDR (mm_mem st (word_of_nat (a + 8 * i)))) (pv_off mi) = word_of_nat b"
proof -
  note D = mmu_okD [OF ok]
  have "entry_ok mi k i" using D(7) k(3) unfolding directory_ok_def by blast
  moreover have "table_ok mi tab k (contents st tab k)" using D(10) k(1) unfolding tables_ok_def by blast
  ultimately show e: "mm_mem st (word_of_nat (a + 8 * i)) = COMBINEPTE (word_of_nat b) PAGE_DEFAULT_ATTR_NEXT"
    using table_okD(2) [of mi tab k "contents st tab k" i b] k(2,3) unfolding contents_at [of tab k a, OF k(1)] by blast
  have "b < 2 ^ 56" using table_bounds(1,3) [OF ok k(3)] by simp
  from GET_PADDR_COMBINEPTE [OF table_bounds(2) [OF ok k(3)] this] show
    "PPN_TO_VPN (GET_PADDR (mm_mem st (word_of_nat (a + 8 * i)))) (pv_off mi) = word_of_nat b"
    unfolding e by (simp add: PPN_TO_VPN_def D(1))
qed

lemma entry_none:
  assumes ok: "mmu_ok mi st tab U" and k: "tab k = Some a" "length k < 2" "entry_ok mi k i" "tab (k @ [i]) = None"
  shows "\<not> PTE_USED (mm_mem st (word_of_nat (a + 8 * i)))"
proof -
  have "table_ok mi tab k (contents st tab k)" using mmu_okD(10) [OF ok] k(1) unfolding tables_ok_def by blast
  from table_okD(1) [OF this k(2-4)] show ?thesis unfolding contents_at [of tab k a, OF k(1)] .
qed

lemma next_table_ok:
  assumes ok: "mmu_ok mi st tab U" and k: "tab k = Some a" "length k < 2" "entry_ok mi k i" and r: "0 < room (mm_pages st)"
  shows "\<exists>b st' tab'. next_table mi (word_of_nat (a + 8 * i)) (if k = [] then None else Some (word_of_nat (a + 8 * 512))) st =
      Some (Some (word_of_nat b), st') \<and> mmu_ok mi st' tab' U \<and> tab' (k @ [i]) = Some b \<and> tab \<subseteq>\<^sub>m tab' \<and>
      lookup tab' (contents st' tab') = lookup tab (contents st tab) \<and> room (mm_pages st) \<le> room (mm_pages st') + 2"
proof (cases "tab (k @ [i])")
  case (Some b)
  note E = entry_next [OF ok k(1,2) Some]
  have "next_table mi (word_of_nat (a + 8 * i)) (if k = [] then None else Some (word_of_nat (a + 8 * 512))) st = Some (Some (word_of_nat b), st)"
    unfolding next_table_def E(2) unfolding E(1) by (simp add: RT_ASSERT_def)
  with ok Some show ?thesis by (intro exI [of _ b] exI [of _ st] exI [of _ tab]) simp
next
  case None
  from mmu_alloc [OF ok _ r, of 1] obtain b ps where
    b: "alloc_pages 1 st = Some (word_of_nat b, st\<lparr>mm_pages := ps\<rparr>)" "(b, 1) \<notin> U \<union> table_groups tab"
      "mmu_ok mi (st\<lparr>mm_pages := ps\<rparr>) tab (insert (b, 1) U)" "room (mm_pages st) \<le> room ps + 2" "0 < b" "b + 8192 \<le> 2 ^ 56" by auto
  define st1 where "st1 = memset_zero (word_of_nat b) 8192 (st\<lparr>mm_pages := ps\<rparr>)"
  note Z = mmu_zero [OF b(3), folded st1_def]
  have bn: "(word_of_nat b :: u64) \<noteq> 0" using u64_of_nat_inj [of b 0] b(5,6) by simp
  have "next_table mi (word_of_nat (a + 8 * i)) (if k = [] then None else Some (word_of_nat (a + 8 * 512))) st =
      Some (Some (word_of_nat b), put_entry k a i (COMBINEPTE (word_of_nat b) PAGE_DEFAULT_ATTR_NEXT) 1 st1)"
    using entry_none [OF ok k None] bn mmu_okD(1) [OF ok]
    by (simp add: next_table_def b(1) st1_def put_entry_def Let_def VPN_TO_PPN_def del: of_nat_add of_nat_mult One_nat_def)
  moreover note L = mmu_link [OF Z(1) _ k None Z(3)]
  have "lookup tab (contents st1 tab) = lookup tab (contents st tab)" using lookup_cong [OF Z(2)] by simp
  then have "lookup (tab(k @ [i] \<mapsto> b)) (contents (put_entry k a i (COMBINEPTE (word_of_nat b) PAGE_DEFAULT_ATTR_NEXT) 1 st1) (tab(k @ [i] \<mapsto> b))) =
      lookup tab (contents st tab)" using L(2) b(2) by simp
  moreover have "tab \<subseteq>\<^sub>m tab(k @ [i] \<mapsto> b)" using None by (auto simp: map_le_def)
  moreover have "room (mm_pages st) \<le> room (mm_pages (put_entry k a i (COMBINEPTE (word_of_nat b) PAGE_DEFAULT_ATTR_NEXT) 1 st1)) + 2"
    using b(4) by (simp add: st1_def memset_zero_def)
  ultimately show ?thesis using L(1) b(2)
    by (intro exI [of _ b] exI [of _ "put_entry k a i (COMBINEPTE (word_of_nat b) PAGE_DEFAULT_ATTR_NEXT) 1 st1"] exI [of _ "tab(k @ [i] \<mapsto> b)"]) simp
qed

abbreviation views :: "mmu_state \<Rightarrow> directory \<Rightarrow> nat \<Rightarrow> u64 option" where
  "views st tab \<equiv> lookup tab (contents st tab)"

lemma views_at:
  assumes "tab [v div 2 ^ 18, v div 512 mod 512] = Some a"
  shows "views st tab v = (if PTE_USED (mm_mem st (word_of_nat (a + 8 * (v mod 512)))) then Some (mm_mem st (word_of_nat (a + 8 * (v mod 512)))) else None)"
proof -
  have "[v div 2 ^ 18, v div 512 mod 512] \<in> dom tab" using assms by blast
  then show ?thesis unfolding lookup_def Let_def contents_def assms option.sel by simp
qed

lemma views_none: "tab [v div 2 ^ 18, v div 512 mod 512] = None \<Longrightarrow> views st tab v = None"
  by (simp add: lookup_def Let_def domIff)

lemma root_table:
  assumes "mmu_ok mi st tab U"
  shows "tab [] = Some (unat (vtable mi))" "entry_at (vtable mi) (word_of_nat i) = word_of_nat (unat (vtable mi) + 8 * i)"
  using mmu_okD(7) [OF assms] by (simp_all add: directory_ok_def entry_at_def)

lemma managed_entry: "mmu_ok mi st tab U \<Longrightarrow> managed mi v \<Longrightarrow> entry_ok mi [] (v div 2 ^ 18)"
  using mmu_okD(2) [of mi st tab U] by (simp add: managed_def entry_ok_def)

lemma map_page_ok:
  assumes ok: "mmu_ok mi st tab U" and v: "managed mi (unat va div 4096)" "views st tab (unat va div 4096) = None" and r: "4 \<le> room (mm_pages st)"
  shows "\<exists>st' tab'. map_page mi va pa st = Some (True, st') \<and> mmu_ok mi st' tab' U \<and>
    views st' tab' = (views st tab)(unat va div 4096 \<mapsto> COMBINEPTE pa PAGE_DEFAULT_ATTR_LEAF) \<and> room (mm_pages st) \<le> room (mm_pages st') + 4"
proof -
  define w where "w = unat va div 4096"
  note G = GET_L_page [OF ok v(1), folded w_def] and R = root_table [OF ok]
  from next_table_ok [OF ok R(1) _ managed_entry [OF ok v(1)]] r obtain t2 st1 tab1 where
    n1: "next_table mi (word_of_nat (unat (vtable mi) + 8 * (w div 2 ^ 18))) None st = Some (Some (word_of_nat t2), st1)" "mmu_ok mi st1 tab1 U"
      "tab1 [w div 2 ^ 18] = Some t2" "views st1 tab1 = views st tab" "room (mm_pages st) \<le> room (mm_pages st1) + 2"
    unfolding w_def by (auto simp del: of_nat_add of_nat_mult)
  have en: "entry_ok mi [w div 2 ^ 18] (w div 512 mod 512)" by (simp add: entry_ok_def)
  have r1: "0 < room (mm_pages st1)" using n1(5) r by linarith
  from next_table_ok [OF n1(2,3) _ en r1] obtain t3 st2 tab2 where
    n2: "next_table mi (word_of_nat (t2 + 8 * (w div 512 mod 512))) (Some (word_of_nat (t2 + 8 * 512))) st1 = Some (Some (word_of_nat t3), st2)"
      "mmu_ok mi st2 tab2 U" "tab2 [w div 2 ^ 18, w div 512 mod 512] = Some t3" "views st2 tab2 = views st1 tab1"
      "room (mm_pages st1) \<le> room (mm_pages st2) + 2"
    by (auto simp del: of_nat_add of_nat_mult)
  have none: "views st2 tab2 w = None" using n1(4) n2(4) v(2) by (simp add: w_def)
  define p where "p = COMBINEPTE pa PAGE_DEFAULT_ATTR_LEAF"
  define st3 where "st3 = put_entry [w div 2 ^ 18, w div 512 mod 512] t3 (w mod 512) p 1 st2"
  have L: "mmu_ok mi st3 tab2 U" "views st3 tab2 = (views st2 tab2)(w \<mapsto> p)"
    using mmu_leaf [OF n2(2,3), of p 1] none by (simp_all add: st3_def p_def)
  have u: "\<not> PTE_USED (mm_mem st2 (word_of_nat (t3 + 8 * (w mod 512))))"
    using none views_at [of tab2 w t3 st2, OF n2(3)] by (simp split: if_splits)
  have ne: "(word_of_nat (t3 + 8 * 512) :: u64) \<noteq> word_of_nat (t3 + 8 * (w mod 512))"
    using slots_apart [OF n2(2,3) _ n2(3), of 512 "w mod 512"] mod_less_divisor [of 512 w] by auto
  have "store (word_of_nat (t3 + 8 * (w mod 512))) p (store (word_of_nat (t3 + 8 * 512)) (mm_mem st2 (word_of_nat (t3 + 8 * 512)) + 1) st2) = st3"
    using ne by (simp add: st3_def put_entry_def store_def Let_def fun_upd_twist del: of_nat_add of_nat_mult)
  then have "map_page mi va pa st = Some (True, st3)"
    using n1(1) n2(1) u
    by (simp add: map_page_def G R(2) p_def RT_ASSERT_def del: of_nat_add of_nat_mult)
  with L n1(4,5) n2(4,5) show ?thesis unfolding p_def w_def [symmetric] by (intro exI [of _ st3] exI [of _ tab2]) (simp add: st3_def)
qed

text \<open>A page that is not mapped misses a table or an entry; the walk down the tables finds out which.\<close>

lemma walk_cases:
  assumes ok: "mmu_ok mi st tab U" and v: "managed mi (unat va div 4096)"
  defines "w \<equiv> unat va div 4096"
  defines "pte1 \<equiv> mm_mem st (entry_at (vtable mi) (GET_L1 va))"
  defines "pte2 \<equiv> mm_mem st (entry_at (PPN_TO_VPN (GET_PADDR pte1) (pv_off mi)) (GET_L2 va))"
  defines "pte3 \<equiv> mm_mem st (entry_at (PPN_TO_VPN (GET_PADDR pte2) (pv_off mi)) (GET_L3 va))"
  obtains "\<not> PTE_USED pte1" "views st tab w = None"
  | "PTE_USED pte1" "\<not> PAGE_IS_LEAF pte1" "\<not> PTE_USED pte2" "views st tab w = None"
  | "PTE_USED pte1" "\<not> PAGE_IS_LEAF pte1" "PTE_USED pte2" "\<not> PAGE_IS_LEAF pte2" "\<not> PTE_USED pte3" "views st tab w = None"
  | a2 a3 where "PTE_USED pte1" "\<not> PAGE_IS_LEAF pte1" "PTE_USED pte2" "\<not> PAGE_IS_LEAF pte2" "PTE_USED pte3" "PAGE_IS_LEAF pte3"
      "views st tab w = Some pte3" "tab [w div 2 ^ 18] = Some a2" "tab [w div 2 ^ 18, w div 512 mod 512] = Some a3"
      "PPN_TO_VPN (GET_PADDR pte1) (pv_off mi) = word_of_nat a2" "PPN_TO_VPN (GET_PADDR pte2) (pv_off mi) = word_of_nat a3"
proof -
  note G = GET_L_page [OF ok v, folded w_def] and R = root_table [OF ok] and D = mmu_okD [OF ok]
  have e1: "entry_ok mi [] (w div 2 ^ 18)" using managed_entry [OF ok v] by (simp add: w_def)
  have p1: "pte1 = mm_mem st (word_of_nat (unat (vtable mi) + 8 * (w div 2 ^ 18)))" by (simp only: pte1_def G(1) R(2))
  show thesis
  proof (cases "tab [w div 2 ^ 18]")
    case None
    have "\<not> PTE_USED pte1" unfolding p1 by (rule entry_none [OF ok R(1) _ e1]) (simp_all add: None [simplified])
    moreover have "tab [w div 2 ^ 18, w div 512 mod 512] = None"
    proof (rule ccontr)
      assume "tab [w div 2 ^ 18, w div 512 mod 512] \<noteq> None"
      then have "[w div 2 ^ 18] @ [w div 512 mod 512] \<in> dom tab" by (simp add: domIff)
      then have "[w div 2 ^ 18] \<in> dom tab" using D(7) unfolding directory_ok_def by blast
      with None show False by blast
    qed
    then have "views st tab w = None" by (rule views_none)
    ultimately show thesis by (rule that(1))
  next
    case (Some a2)
    have "tab ([] @ [w div 2 ^ 18]) = Some a2" using Some by simp
    note E1 = entry_next [OF ok R(1) _ this, folded p1, simplified]
    have k1: "PTE_USED pte1" "\<not> PAGE_IS_LEAF pte1" unfolding E1(1) by simp_all
    have e2: "entry_ok mi [w div 2 ^ 18] (w div 512 mod 512)" by (simp add: entry_ok_def)
    have p2: "pte2 = mm_mem st (word_of_nat (a2 + 8 * (w div 512 mod 512)))" by (simp only: pte2_def E1(2) G(2) entry_at_nat)
    show thesis
    proof (cases "tab [w div 2 ^ 18, w div 512 mod 512]")
      case None
      have "\<not> PTE_USED pte2" unfolding p2 by (rule entry_none [OF ok Some _ e2]) (use None in simp_all)
      with k1 views_none [of tab w st, OF None] show thesis by (intro that(2))
    next
      case a3: (Some a3)
      have "tab ([w div 2 ^ 18] @ [w div 512 mod 512]) = Some a3" using a3 by simp
      note E2 = entry_next [OF ok Some _ this, folded p2, simplified]
      have k2: "PTE_USED pte2" "\<not> PAGE_IS_LEAF pte2" unfolding E2(1) by simp_all
      have p3: "pte3 = mm_mem st (word_of_nat (a3 + 8 * (w mod 512)))" by (simp only: pte3_def E2(2) G(3) entry_at_nat)
      note V = views_at [of tab w a3 st, OF a3, folded p3]
      show thesis
      proof (cases "PTE_USED pte3")
        case False
        with k1 k2 V show thesis by (intro that(3)) simp_all
      next
        case True
        have "table_ok mi tab [w div 2 ^ 18, w div 512 mod 512] (contents st tab [w div 2 ^ 18, w div 512 mod 512])"
          using D(10) a3 unfolding tables_ok_def by blast
        from table_okD(3) [OF this, of "w mod 512"] True have "PAGE_IS_LEAF pte3"
          unfolding p3 contents_def a3 option.sel by simp
        with k1 k2 True V Some a3 E1(2) E2(2) show thesis by (intro that(4)) simp_all
      qed
    qed
  qed
qed

lemma v2p_ok:
  assumes ok: "mmu_ok mi st tab U" and v: "managed mi (unat va div 4096)"
  shows "rt_hw_mmu_v2p mi va st = Some (case views st tab (unat va div 4096) of None \<Rightarrow> 0 | Some p \<Rightarrow> GET_PADDR p OR GET_PF_OFFSET va)"
  using walk_cases [OF ok v] by cases (simp_all add: rt_hw_mmu_v2p_def Let_def)

lemma vaddr_free_ok:
  assumes ok: "mmu_ok mi st tab U" and v: "managed mi (unat va div 4096)"
  shows "vaddr_free mi va st = Some (views st tab (unat va div 4096) = None)"
  using walk_cases [OF ok v] by cases (simp_all add: vaddr_free_def Let_def)

lemma put_entry_frame: "put_entry k a i p d (st\<lparr>mm_pages := ps\<rparr>) = (put_entry k a i p d st)\<lparr>mm_pages := ps\<rparr>"
  by (simp add: put_entry_def store_def Let_def)

lemma free_pages_cong: "mm_pages st = mm_pages st' \<Longrightarrow> free_pages a sb st = Some (st\<lparr>mm_pages := ps\<rparr>) \<longleftrightarrow> free_pages a sb st' = Some (st'\<lparr>mm_pages := ps\<rparr>)"
  by (auto simp: free_pages_def dest: arg_cong [where f = mm_pages])

text \<open>An empty table goes back to the allocator.\<close>

lemma drop_table:
  assumes ok: "mmu_ok mi st tab U" and k: "tab k = Some a" "length k < 2" "tab (k @ [i]) = Some b" and e: "used_set (contents st tab (k @ [i])) = {}"
  shows "\<exists>st0. free_pages (word_of_nat b) 1 st = Some st0 \<and> mm_mem st0 = mm_mem st \<and>
    mmu_ok mi (put_entry k a i 0 (-1) st0) (tab(k @ [i] := None)) U \<and>
    views (put_entry k a i 0 (-1) st0) (tab(k @ [i] := None)) = views st tab"
proof -
  note L = mmu_unlink [OF ok k e]
  from mmu_free [OF L(1,2)] obtain ps where
    f: "free_pages (word_of_nat b) 1 (put_entry k a i 0 (-1) st) = Some ((put_entry k a i 0 (-1) st)\<lparr>mm_pages := ps\<rparr>)"
      "mmu_ok mi ((put_entry k a i 0 (-1) st)\<lparr>mm_pages := ps\<rparr>) (tab(k @ [i] := None)) U" by blast
  have "free_pages (word_of_nat b) 1 st = Some (st\<lparr>mm_pages := ps\<rparr>)"
    using f(1) free_pages_cong [of "put_entry k a i 0 (-1) st" st] by simp
  then show ?thesis using f(2) L(3) by (intro exI [of _ "st\<lparr>mm_pages := ps\<rparr>"]) (simp add: put_entry_frame)
qed

lemma count_zero:
  assumes ok: "mmu_ok mi st tab U" and k: "tab k = Some a" "k \<noteq> []"
  shows "mm_mem st (word_of_nat (a + 8 * 512)) = 0 \<longleftrightarrow> used_set (contents st tab k) = {}"
proof -
  have "table_ok mi tab k (contents st tab k)" using mmu_okD(10) [OF ok] k(1) unfolding tables_ok_def by blast
  from table_okD(4) [OF this k(2)] have "mm_mem st (word_of_nat (a + 8 * 512)) = word_of_nat (card (used_set (contents st tab k)))"
    unfolding contents_at [of tab k a st 512, OF k(1)] .
  moreover have "card (used_set (contents st tab k)) < 2 ^ 64" using card_used_le [of "contents st tab k"] by simp
  ultimately show ?thesis using u64_of_nat_inj [of "card (used_set (contents st tab k))" 0] by simp
qed

lemma unmap_page_ok:
  assumes ok: "mmu_ok mi st tab U" and v: "managed mi (unat va div 4096)" "views st tab (unat va div 4096) \<noteq> None"
  shows "\<exists>st' tab'. unmap_page mi va st = Some st' \<and> mmu_ok mi st' tab' U \<and> views st' tab' = (views st tab)(unat va div 4096 := None)"
proof -
  define w where "w = unat va div 4096"
  note G = GET_L_page [OF ok v(1), folded w_def] and R = root_table [OF ok]
  have "unat (GET_L1 va) = w div 2 ^ 18" using managed_entry [OF ok v(1), folded w_def] unfolding G(1) by (simp add: entry_ok_def)
  then have rng: "vstart mi \<le> GET_L1 va" "GET_L1 va \<le> vend mi"
    using v(1) by (auto simp: managed_def word_le_nat_alt w_def)
  define pte1 where "pte1 = mm_mem st (entry_at (vtable mi) (GET_L1 va))"
  define pte2 where "pte2 = mm_mem st (entry_at (PPN_TO_VPN (GET_PADDR pte1) (pv_off mi)) (GET_L2 va))"
  define pte3 where "pte3 = mm_mem st (entry_at (PPN_TO_VPN (GET_PADDR pte2) (pv_off mi)) (GET_L3 va))"
  show ?thesis
  proof (cases rule: walk_cases [OF ok v(1), folded pte1_def, folded pte2_def, folded pte3_def, folded w_def])
    case (4 a2 a3)
    note u = 4(1-6) and t = 4(8,9) and p = 4(10,11)
    define st1 where "st1 = put_entry [w div 2 ^ 18, w div 512 mod 512] a3 (w mod 512) 0 (-1) st"
    have L: "mmu_ok mi st1 tab U" "views st1 tab = (views st tab)(w := None)"
      using mmu_leaf [OF ok t(2), of 0 "-1"] v(2) by (simp_all add: st1_def w_def)
    note C1 = count_zero [OF L(1) t(2)]
    define st2 where "st2 = (\<lambda>st0. put_entry [w div 2 ^ 18] a2 (w div 512 mod 512) 0 (-1) st0)"
    have q: "mm_mem st (entry_at (word_of_nat a2) (GET_L2 va)) = pte2" "mm_mem st (entry_at (word_of_nat a3) (GET_L3 va)) = pte3"
      by (simp only: pte2_def p(1), simp only: pte3_def p(2))
    have step: "unmap_page mi va st =
      (if mm_mem st1 (word_of_nat (a3 + 8 * 512)) \<noteq> 0 then Some st1
       else Option.bind (free_pages (word_of_nat a3) 1 st1) (\<lambda>st0.
         if mm_mem (st2 st0) (word_of_nat (a2 + 8 * 512)) \<noteq> 0 then Some (st2 st0)
         else map_option (put_entry [] (unat (vtable mi)) (w div 2 ^ 18) 0 (-1)) (free_pages (word_of_nat a2) 1 (st2 st0))))"
      unfolding unmap_page_def Let_def pte1_def [symmetric] p q
      using u rng
      by (simp add: G R(2)
          st1_def st2_def put_entry_def Let_def map_conv_bind_option comp_def del: of_nat_add of_nat_mult One_nat_def cong: if_cong)
    show ?thesis
    proof (cases "used_set (contents st1 tab [w div 2 ^ 18, w div 512 mod 512]) = {}")
      case False
      then show ?thesis using step C1 L by (auto simp: w_def)
    next
      case True
      define tab1 where "tab1 = tab([w div 2 ^ 18, w div 512 mod 512] := None)"
      have "tab ([w div 2 ^ 18] @ [w div 512 mod 512]) = Some a3" using t(2) by simp
      from drop_table [OF L(1) t(1) _ this] True obtain st0 where
        f: "free_pages (word_of_nat a3) 1 st1 = Some st0" "mmu_ok mi (st2 st0) tab1 U"
          "views (st2 st0) tab1 = views st1 tab" by (auto simp: st2_def tab1_def)
      have t1: "tab1 [w div 2 ^ 18] = Some a2" using t(1) by (simp add: tab1_def)
      note C2 = count_zero [OF f(2) t1]
      show ?thesis
      proof (cases "used_set (contents (st2 st0) tab1 [w div 2 ^ 18]) = {}")
        case False
        then show ?thesis using step C1 C2 True f L(2) by (intro exI [of _ "st2 st0"] exI [of _ tab1]) (auto simp: w_def)
      next
        case e2: True
        have t0: "tab1 ([] @ [w div 2 ^ 18]) = Some a2" using t1 by simp
        have e2': "used_set (contents (st2 st0) tab1 ([] @ [w div 2 ^ 18])) = {}" using e2 by simp
        from drop_table [OF f(2) root_table(1) [OF f(2)] _ t0 e2'] obtain st3 where
          g: "free_pages (word_of_nat a2) 1 (st2 st0) = Some st3"
            "mmu_ok mi (put_entry [] (unat (vtable mi)) (w div 2 ^ 18) 0 (-1) st3) (tab1([] @ [w div 2 ^ 18] := None)) U"
            "views (put_entry [] (unat (vtable mi)) (w div 2 ^ 18) 0 (-1) st3) (tab1([] @ [w div 2 ^ 18] := None)) = views (st2 st0) tab1"
          by (metis length_0_conv zero_less_numeral)
        have "unmap_page mi va st = Some (put_entry [] (unat (vtable mi)) (w div 2 ^ 18) 0 (-1) st3)"
          using step C1 C2 True e2 f(1) g(1) by simp
        then show ?thesis using g(2,3) f(3) L(2) by (auto simp: w_def)
      qed
    qed
  qed (use v(2) in \<open>simp_all add: w_def\<close>)
qed

section \<open>Ranges of pages\<close>

text \<open>The first address of page \<open>v\<close>.\<close>

definition page_va :: "nat \<Rightarrow> u64" where
  "page_va v = word_of_nat (4096 * v)"

lemma managed_va:
  assumes "mmu_ok mi st tab U" "managed mi v"
  shows "v < 2 ^ 27" "unat (page_va v) = 4096 * v" "unat (page_va v) div 4096 = v"
proof -
  have "v div 2 ^ 18 < 512" using assms mmu_okD(2) [OF assms(1)] by (auto simp: managed_def)
  then show v: "v < 2 ^ 27" by (simp add: div_less_iff_less_mult)
  then show "unat (page_va v) = 4096 * v" unfolding page_va_def by (intro unat_u64) simp
  then show "unat (page_va v) div 4096 = v" by simp
qed

lemma page_va_Suc [simp]: "page_va v + 4096 = page_va (Suc v)"
  by (simp add: page_va_def)

lemma page_va_mask [simp]: "UMASKVALUE (page_va v) PAGE_OFFSET_MASK = page_va v"
proof -
  have "4096 dvd 4096 * v mod 2 ^ 64" by (rule dvd_mod) simp_all
  then have "2 ^ 12 dvd unat (page_va v)" unfolding page_va_def unat_of_nat by simp
  then have "unat (page_va v AND NOT (mask 12)) = unat (page_va v)" unfolding unat_and_not_mask by (rule dvd_div_mult_self)
  then show ?thesis by (simp only: UMASKVALUE_def word_unat_eq_iff)
qed

lemma map_loop_ok:
  assumes "mmu_ok mi st tab U" "\<And>j. j < n \<Longrightarrow> managed mi (v + j) \<and> views st tab (v + j) = None" "4 * n \<le> room (mm_pages st)"
  shows "\<exists>st' tab'. map_loop mi va (page_va v) pa n st = Some (0, st') \<and> mmu_ok mi st' tab' U \<and>
    views st' tab' = (\<lambda>x. if v \<le> x \<and> x < v + n then Some (COMBINEPTE (pa + page_va (x - v)) PAGE_DEFAULT_ATTR_LEAF) else views st tab x) \<and>
    room (mm_pages st) \<le> room (mm_pages st') + 4 * n"
  using assms
proof (induction n arbitrary: st tab v pa)
  case 0
  then show ?case by (intro exI [of _ st] exI [of _ tab]) (auto simp: fun_eq_iff)
next
  case (Suc n)
  have v: "managed mi v" "views st tab v = None" using Suc.prems(2) [of 0] by simp_all
  note V = managed_va [OF Suc.prems(1) v(1)]
  from map_page_ok [OF Suc.prems(1), of "page_va v" pa, unfolded V(3), OF v] Suc.prems(3) obtain st1 tab1 where
    m: "map_page mi (page_va v) pa st = Some (True, st1)" "mmu_ok mi st1 tab1 U"
      "views st1 tab1 = (views st tab)(v \<mapsto> COMBINEPTE pa PAGE_DEFAULT_ATTR_LEAF)" "room (mm_pages st) \<le> room (mm_pages st1) + 4" by auto
  have "managed mi (Suc v + j) \<and> views st1 tab1 (Suc v + j) = None" if "j < n" for j
    using Suc.prems(2) [of "Suc j"] that m(3) by simp
  moreover have "4 * n \<le> room (mm_pages st1)" using m(4) Suc.prems(3) by simp
  ultimately obtain st' tab' where
    r: "map_loop mi va (page_va (Suc v)) (pa + 4096) n st1 = Some (0, st')" "mmu_ok mi st' tab' U"
      "views st' tab' = (\<lambda>x. if Suc v \<le> x \<and> x < Suc v + n then Some (COMBINEPTE (pa + 4096 + page_va (x - Suc v)) PAGE_DEFAULT_ATTR_LEAF)
        else views st1 tab1 x)" "room (mm_pages st1) \<le> room (mm_pages st') + 4 * n"
    using Suc.IH [OF m(2)] by blast
  have "pa + 4096 + page_va (x - Suc v) = pa + page_va (x - v)" if "Suc v \<le> x" for x
    using that page_va_Suc [of "x - Suc v"] by (simp add: Suc_diff_Suc Suc_diff_le add.assoc add.commute)
  moreover have "page_va 0 = 0" by (simp add: page_va_def)
  ultimately have "views st' tab' = (\<lambda>x. if v \<le> x \<and> x < v + Suc n then Some (COMBINEPTE (pa + page_va (x - v)) PAGE_DEFAULT_ATTR_LEAF) else views st tab x)"
    unfolding r(3) m(3) by (auto simp: fun_eq_iff add.assoc)
  with r m show ?case by (intro exI [of _ st'] exI [of _ tab']) simp
qed

lemma unmap_loop_ok:
  assumes "mmu_ok mi st tab U" "\<And>j. j < n \<Longrightarrow> managed mi (v + j) \<and> views st tab (v + j) \<noteq> None"
  shows "\<exists>st' tab'. unmap_loop mi (page_va v) n st = Some st' \<and> mmu_ok mi st' tab' U \<and>
    views st' tab' = (\<lambda>x. if v \<le> x \<and> x < v + n then None else views st tab x)"
  using assms
proof (induction n arbitrary: st tab v)
  case 0
  then show ?case by (intro exI [of _ st] exI [of _ tab]) (auto simp: fun_eq_iff)
next
  case (Suc n)
  have v: "managed mi v" "views st tab v \<noteq> None" using Suc.prems(2) [of 0] by simp_all
  note V = managed_va [OF Suc.prems(1) v(1)]
  from unmap_page_ok [OF Suc.prems(1), of "page_va v", unfolded V(3), OF v] obtain st1 tab1 where
    m: "unmap_page mi (page_va v) st = Some st1" "mmu_ok mi st1 tab1 U" "views st1 tab1 = (views st tab)(v := None)" by auto
  have "managed mi (Suc v + j) \<and> views st1 tab1 (Suc v + j) \<noteq> None" if "j < n" for j
    using Suc.prems(2) [of "Suc j"] that m(3) by simp
  then obtain st' tab' where
    r: "unmap_loop mi (page_va (Suc v)) n st1 = Some st'" "mmu_ok mi st' tab' U"
      "views st' tab' = (\<lambda>x. if Suc v \<le> x \<and> x < Suc v + n then None else views st1 tab1 x)"
    using Suc.IH [OF m(2)] by blast
  then show ?case using m by (intro exI [of _ st'] exI [of _ tab']) (auto simp: fun_eq_iff)
qed

lemma check_loop_ok:
  assumes "mmu_ok mi st tab U" "\<And>j. j < n \<Longrightarrow> managed mi (v + j)"
  shows "check_loop mi (page_va v) n st = Some (if \<forall>j < n. views st tab (v + j) = None then 0 else -1)"
  using assms(2)
proof (induction n arbitrary: v)
  case (Suc n)
  have v: "managed mi v" using Suc.prems [of 0] by simp
  have f: "vaddr_free mi (page_va v) st = Some (views st tab v = None)"
    using vaddr_free_ok [OF assms(1), of "page_va v"] managed_va(3) [OF assms(1) v] v by simp
  have "managed mi (Suc v + j)" if "j < n" for j using Suc.prems [of "Suc j"] that by simp
  from Suc.IH [OF this] f show ?case by (simp add: All_less_Suc2)
qed simp

section \<open>Mapping a range\<close>

text \<open>An address is its page and its offset.\<close>

lemma va_split: "UMASKVALUE va PAGE_OFFSET_MASK = page_va (unat va div 4096)"
proof -
  have "unat (va AND NOT (mask 12)) = 4096 * (unat va div 4096)" unfolding unat_and_not_mask by simp
  then show ?thesis unfolding UMASKVALUE_def page_va_def by (metis word_of_unat)
qed

lemma unat_PF_OFFSET: "unat (GET_PF_OFFSET va) = unat va mod 4096"
  unfolding GET_PF_OFFSET_def take_bit_eq_mask [symmetric] unsigned_take_bit_eq by (simp add: take_bit_eq_mod)

lemma page_or_offset: "page_va p OR GET_PF_OFFSET va = page_va p + GET_PF_OFFSET va"
proof (rule disjunctive_add_eq_or [symmetric])
  have "page_va p = push_bit 12 (word_of_nat p)" by (simp add: page_va_def push_bit_eq_mult)
  then show "page_va p AND GET_PF_OFFSET va = 0" by (auto simp: bit_eq_iff bit_simps GET_PF_OFFSET_def)
qed

lemma va_join: "page_va (unat va div 4096) OR GET_PF_OFFSET va = va"
proof -
  have "unat (page_va (unat va div 4096)) = 4096 * (unat va div 4096)" using unsigned_less [of va, where 'a = nat]
    unfolding page_va_def by (intro unat_u64) simp
  then have "page_va (unat va div 4096) + GET_PF_OFFSET va = word_of_nat (4096 * (unat va div 4096) + unat va mod 4096)"
    using unat_PF_OFFSET [of va] by (metis of_nat_add word_of_unat)
  then show ?thesis unfolding page_or_offset by simp
qed

text \<open>What a leaf for physical page \<open>p\<close> translates an address to.\<close>

lemma leaf_translates:
  assumes "p < 2 ^ 44"
  shows "GET_PADDR (COMBINEPTE (page_va p) PAGE_DEFAULT_ATTR_LEAF) OR GET_PF_OFFSET va = word_of_nat (4096 * p + unat va mod 4096)"
proof -
  have a: "GET_PADDR (COMBINEPTE (page_va p) PAGE_DEFAULT_ATTR_LEAF) = page_va p"
    unfolding page_va_def using assms by (intro GET_PADDR_COMBINEPTE) simp_all
  have o: "GET_PF_OFFSET va = word_of_nat (unat va mod 4096)" using unat_PF_OFFSET [of va] by (metis word_of_unat)
  show ?thesis unfolding a page_or_offset unfolding o by (simp add: page_va_def)
qed

text \<open>The pages of the area of \<open>sz\<close> bytes from \<open>pa\<close> on.\<close>

definition area_pages :: "u64 \<Rightarrow> u64 \<Rightarrow> nat" where
  "area_pages pa sz = (unat pa + unat sz - 1) div 4096 - unat pa div 4096 + 1"

lemma area_pages_word:
  assumes "sz \<noteq> 0" "unat pa + unat sz \<le> 2 ^ 64"
  shows "unat (drop_bit 12 (pa + sz - 1) - drop_bit 12 pa + 1) = area_pages pa sz"
proof -
  have s: "0 < unat sz" using assms(1) by (simp add: unat_gt_0)
  then have "unat pa + unat sz - 1 < 2 ^ 64" using assms(2) by linarith
  then have e: "unat (pa + sz - 1) = unat pa + unat sz - 1"
    by (metis (no_types, lifting) Nat.add_diff_assoc One_nat_def Suc_leI add.commute s unat_u64 of_nat_1 of_nat_add of_nat_diff word_of_unat le_add1 le_add2 le_trans)
  have d: "unat (drop_bit 12 x) = unat x div 4096" for x :: u64 unfolding unat_drop_bit_eq by (simp add: drop_bit_eq_div)
  have le: "unat pa div 4096 \<le> (unat pa + unat sz - 1) div 4096" using s by (intro div_le_mono) linarith
  then have "unat (drop_bit 12 (pa + sz - 1) - drop_bit 12 pa) = (unat pa + unat sz - 1) div 4096 - unat pa div 4096"
    using d [of "pa + sz - 1"] d [of pa] e by (subst unat_sub) (simp_all add: word_le_nat_alt)
  moreover have "(unat pa + unat sz - 1) div 4096 < 2 ^ 52" using assms(2) s by (simp add: div_less_iff_less_mult)
  then have "(unat pa + unat sz - 1) div 4096 - unat pa div 4096 + 1 < 2 ^ 64"
    using diff_le_self [of "(unat pa + unat sz - 1) div 4096" "unat pa div 4096"] by (simp del: diff_le_self)
  ultimately show ?thesis unfolding area_pages_def unat_word_ariths(1) by simp
qed

lemma hw_mmu_map_ok:
  assumes ok: "mmu_ok mi st tab U" and j: "\<And>j. j < n \<Longrightarrow> managed mi (v + j) \<and> views st tab (v + j) = None"
    and r: "4 * n \<le> room (mm_pages st)" and p: "p + n \<le> 2 ^ 44" "unat pa div 4096 = p"
  shows "\<exists>st' tab'. hw_mmu_map mi (page_va v) pa n attr st = Some (0, st') \<and> mmu_ok mi st' tab' U \<and>
    views st' tab' = (\<lambda>x. if v \<le> x \<and> x < v + n then Some (COMBINEPTE (page_va (p + (x - v))) PAGE_DEFAULT_ATTR_LEAF) else views st tab x) \<and>
    room (mm_pages st) \<le> room (mm_pages st') + 4 * n"
proof -
  have a: "page_va p + page_va d = page_va (p + d)" for d by (simp add: page_va_def distrib_left)
  from map_loop_ok [OF ok j r, of "page_va v" "page_va p"] show ?thesis
    unfolding hw_mmu_map_def va_split [of pa] p(2) by (simp add: a cong: if_cong)
qed

lemma area_pages_eq: "sz \<noteq> 0 \<Longrightarrow> area_pages pa sz = (unat pa mod 4096 + unat sz - 1) div 4096 + 1"
proof -
  assume "sz \<noteq> 0"
  then have "0 < unat sz" by (simp add: unat_gt_0)
  then have "unat pa + unat sz - 1 = unat pa div 4096 * 4096 + (unat pa mod 4096 + unat sz - 1)" using div_mult_mod_eq [of "unat pa" 4096] by linarith
  then have "(unat pa + unat sz - 1) div 4096 = unat pa div 4096 + (unat pa mod 4096 + unat sz - 1) div 4096" by simp
  then show ?thesis by (simp add: area_pages_def)
qed

text \<open>The translation of an address in a managed page, from its page.\<close>

lemma v2p_mapped:
  assumes ok: "mmu_ok mi st tab U" and w: "managed mi (unat w div 4096)"
    and x: "views st tab (unat w div 4096) = Some (COMBINEPTE (page_va p) PAGE_DEFAULT_ATTR_LEAF)" "p < 2 ^ 44"
  shows "rt_hw_mmu_v2p mi w st = Some (page_va p + (w - page_va (unat w div 4096)))"
proof -
  have "w - page_va (unat w div 4096) = GET_PF_OFFSET w" using va_join [of w] page_or_offset [of "unat w div 4096" w] by (metis add_diff_cancel_left')
  moreover have "GET_PF_OFFSET w = word_of_nat (unat w mod 4096)" using unat_PF_OFFSET [of w] by (metis word_of_unat)
  ultimately show ?thesis using v2p_ok [OF ok w] leaf_translates [OF x(2), of w] x(1) by (simp add: page_va_def)
qed

lemma v2p_group:
  assumes ok: "mmu_ok mi st tab U" and w: "managed mi (unat w div 4096)"
    and x: "views st tab (unat w div 4096) = Some (COMBINEPTE (word_of_nat b) PAGE_DEFAULT_ATTR_LEAF)" "4096 dvd b" "b < 2 ^ 56"
  shows "rt_hw_mmu_v2p mi w st = Some (word_of_nat (b + unat w mod 4096))"
proof -
  have "word_of_nat b = page_va (b div 4096)" by (simp only: page_va_def dvd_mult_div_cancel [OF x(2)])
  moreover have "b div 4096 < 2 ^ 44" using x(3) less_mult_imp_div_less [of b "2 ^ 44" 4096] by simp
  ultimately have "GET_PADDR (COMBINEPTE (word_of_nat b) PAGE_DEFAULT_ATTR_LEAF) OR GET_PF_OFFSET w = word_of_nat (b + unat w mod 4096)"
    using leaf_translates [of "b div 4096" w] unfolding dvd_mult_div_cancel [OF x(2)] by (simp only:)
  then show ?thesis using v2p_ok [OF ok w] by (simp add: x(1))
qed

lemma map_at:
  assumes ok: "mmu_ok mi st tab U" and n: "n = area_pages pa sz" "sz \<noteq> 0" "unat pa + unat sz \<le> 2 ^ 56"
    and v: "v \<noteq> 0" "\<And>j. j < n \<Longrightarrow> managed mi (v + j) \<and> views st tab (v + j) = None" and r: "4 * n \<le> room (mm_pages st)"
  shows "\<exists>st' tab'. hw_mmu_map mi (page_va v) pa (unat (GET_PF_ID (pa + sz - 1) - GET_PF_ID pa + 1)) attr st = Some (0, st') \<and> mmu_ok mi st' tab' U \<and>
    views st' tab' = (\<lambda>x. if v \<le> x \<and> x < v + n then Some (COMBINEPTE (page_va (unat pa div 4096 + (x - v))) PAGE_DEFAULT_ATTR_LEAF) else views st tab x) \<and>
    room (mm_pages st) \<le> room (mm_pages st') + 4 * n \<and> page_va v \<noteq> 0 \<and>
    (\<forall>w. managed mi (unat w div 4096) \<longrightarrow> rt_hw_mmu_v2p mi w st' =
       (if v \<le> unat w div 4096 \<and> unat w div 4096 < v + n then Some (page_va (unat pa div 4096) + (w - page_va v)) else rt_hw_mmu_v2p mi w st))"
proof -
  have s: "0 < unat sz" using n(2) by (simp add: unat_gt_0)
  have "unat (GET_PF_ID (pa + sz - 1) - GET_PF_ID pa + 1) = n"
    unfolding GET_PF_ID_def n(1) by (rule area_pages_word) (use n(2,3) in simp_all)
  moreover have pn: "unat pa div 4096 + n \<le> 2 ^ 44"
  proof -
    have "(unat pa + unat sz - 1) div 4096 < 2 ^ 44" using n(3) s by (simp add: div_less_iff_less_mult)
    moreover have "unat pa div 4096 \<le> (unat pa + unat sz - 1) div 4096" using s by (intro div_le_mono) linarith
    ultimately show ?thesis unfolding n(1) area_pages_def by linarith
  qed
  moreover from hw_mmu_map_ok [OF ok v(2) r pn refl, of attr] obtain st' tab' where
    m: "hw_mmu_map mi (page_va v) pa n attr st = Some (0, st')" "mmu_ok mi st' tab' U"
      "views st' tab' = (\<lambda>x. if v \<le> x \<and> x < v + n then Some (COMBINEPTE (page_va (unat pa div 4096 + (x - v))) PAGE_DEFAULT_ATTR_LEAF) else views st tab x)"
      "room (mm_pages st) \<le> room (mm_pages st') + 4 * n" by blast
  have n0: "0 < n" unfolding n(1) area_pages_def by simp
  have "page_va v \<noteq> 0" using managed_va(2) [OF ok, of v] v(2) [OF n0] v(1) by fastforce
  moreover have "rt_hw_mmu_v2p mi w st' =
      (if v \<le> unat w div 4096 \<and> unat w div 4096 < v + n then Some (page_va (unat pa div 4096) + (w - page_va v)) else rt_hw_mmu_v2p mi w st)"
    if w: "managed mi (unat w div 4096)" for w
  proof (cases "v \<le> unat w div 4096 \<and> unat w div 4096 < v + n")
    case True
    then have lt: "unat pa div 4096 + (unat w div 4096 - v) < 2 ^ 44" using pn by linarith
    have "page_va (unat pa div 4096 + (unat w div 4096 - v)) = page_va (unat pa div 4096) + (page_va (unat w div 4096) - page_va v)"
      using True by (simp add: page_va_def of_nat_diff right_diff_distrib distrib_left)
    with v2p_mapped [OF m(2) w _ lt] True show ?thesis by (simp add: m(3))
  next
    case False
    then show ?thesis unfolding v2p_ok [OF ok w] v2p_ok [OF m(2) w] m(3) by auto
  qed
  ultimately show ?thesis using m by (intro exI [of _ st'] exI [of _ tab']) simp
qed

lemma rt_map_chosen:
  assumes "mmu_ok mi st tab U" "sz \<noteq> 0" "unat pa + unat sz \<le> 2 ^ 56" "4096 \<le> unat va"
    and "\<And>j. j < area_pages pa sz \<Longrightarrow> managed mi (unat va div 4096 + j)" "4 * area_pages pa sz \<le> room (mm_pages st)"
  shows "if unat va mod 4096 \<noteq> unat pa mod 4096 \<or> (\<exists>j < area_pages pa sz. views st tab (unat va div 4096 + j) \<noteq> None)
    then rt_hw_mmu_map mi va pa sz attr st = Some (0, st)
    else \<exists>st' tab'. rt_hw_mmu_map mi va pa sz attr st = Some (va, st') \<and> mmu_ok mi st' tab' U \<and>
      views st' tab' = (\<lambda>x. if unat va div 4096 \<le> x \<and> x < unat va div 4096 + area_pages pa sz
        then Some (COMBINEPTE (page_va (unat pa div 4096 + (x - unat va div 4096))) PAGE_DEFAULT_ATTR_LEAF) else views st tab x) \<and>
      (\<forall>w. managed mi (unat w div 4096) \<longrightarrow> rt_hw_mmu_v2p mi w st' =
        (if unat va div 4096 \<le> unat w div 4096 \<and> unat w div 4096 < unat va div 4096 + area_pages pa sz then Some (pa + (w - va))
         else rt_hw_mmu_v2p mi w st))"
proof -
  define v where "v = unat va div 4096"
  define n where "n = area_pages pa sz"
  have s: "0 < unat sz" using assms(2) by (simp add: unat_gt_0)
  have wn: "unat (GET_PF_ID (pa + sz - 1) - GET_PF_ID pa + 1) = n"
    unfolding GET_PF_ID_def n_def by (rule area_pages_word) (use assms(2,3) in simp_all)
  have n0: "0 < n" by (simp add: n_def area_pages_def)
  have ne: "va \<noteq> 0" "GET_PF_ID (pa + sz - 1) - GET_PF_ID pa + 1 \<noteq> 0" using assms(4) wn n0 by auto
  have off: "GET_PF_OFFSET va \<noteq> GET_PF_OFFSET pa \<longleftrightarrow> unat va mod 4096 \<noteq> unat pa mod 4096"
    unfolding word_unat_eq_iff unat_PF_OFFSET ..
  have v0: "v \<noteq> 0" using assms(4) by (simp add: v_def)
  have mg: "\<And>j. j < n \<Longrightarrow> managed mi (v + j)" using assms(5) by (simp add: v_def n_def)
  have chk: "check_vaddr mi (page_va v) (GET_PF_ID (pa + sz - 1) - GET_PF_ID pa + 1) st = Some (if \<forall>j < n. views st tab (v + j) = None then 0 else -1)"
    using check_loop_ok [OF assms(1) mg] ne(2) by (simp add: check_vaddr_def wn)
  show ?thesis
  proof (cases "unat va mod 4096 \<noteq> unat pa mod 4096 \<or> (\<exists>j < n. views st tab (v + j) \<noteq> None)")
    case True
    then show ?thesis using assms(2) ne off chk unfolding rt_hw_mmu_map_def va_split [of va] v_def [symmetric] n_def [symmetric]
      by (auto simp: Let_def)
  next
    case False
    then have fr: "\<And>j. j < n \<Longrightarrow> managed mi (v + j) \<and> views st tab (v + j) = None" using mg by blast
    from map_at [OF assms(1) n_def assms(2,3) v0 fr] assms(6) obtain st' tab' where
      m: "hw_mmu_map mi (page_va v) pa (unat (GET_PF_ID (pa + sz - 1) - GET_PF_ID pa + 1)) attr st = Some (0, st')" "mmu_ok mi st' tab' U" "page_va v \<noteq> 0"
        "\<And>w. managed mi (unat w div 4096) \<Longrightarrow> rt_hw_mmu_v2p mi w st' =
          (if v \<le> unat w div 4096 \<and> unat w div 4096 < v + n then Some (page_va (unat pa div 4096) + (w - page_va v)) else rt_hw_mmu_v2p mi w st)"
        "views st' tab' = (\<lambda>x. if v \<le> x \<and> x < v + n then Some (COMBINEPTE (page_va (unat pa div 4096 + (x - v))) PAGE_DEFAULT_ATTR_LEAF) else views st tab x)"
      unfolding n_def by blast
    have o: "GET_PF_OFFSET pa = GET_PF_OFFSET va" using off False by metis
    have va: "va = page_va v + GET_PF_OFFSET va" using va_join [of va] page_or_offset [of v va] by (simp add: v_def)
    have pa: "pa = page_va (unat pa div 4096) + GET_PF_OFFSET va" using va_join [of pa] page_or_offset [of "unat pa div 4096" pa] o by simp
    have "page_va (unat pa div 4096) + (w - page_va v) = pa + (w - va)" for w
      by (subst (2) pa, subst va) (simp add: algebra_simps)
    moreover have "page_va v OR GET_PF_OFFSET pa = va" using va_join [of va] o by (simp add: v_def)
    then have "rt_hw_mmu_map mi va pa sz attr st = Some (va, st')"
      using assms(2) ne o chk fr m(1,3) unfolding rt_hw_mmu_map_def va_split [of va] v_def [symmetric]
      by (simp add: Let_def)
    ultimately show ?thesis using False m(2,4,5) unfolding v_def [symmetric] n_def [symmetric] by auto
  qed
qed

text \<open>C6: Mapping a physical area at a chosen address of the managed range: when the offsets in the page differ or a page is mapped
  already, nothing happens and the result is null; otherwise, with memory for the tables, the result is the address, every address of
  the mapped pages translates to its physical counterpart, and the translation of every other managed address is what it was.\<close>

theorem mmu_map_correct:
  assumes "mmu_ok mi st tab U" "sz \<noteq> 0" "unat pa + unat sz \<le> 2 ^ 56" "4096 \<le> unat va"
    and "\<And>j. j < area_pages pa sz \<Longrightarrow> managed mi (unat va div 4096 + j)" "4 * area_pages pa sz \<le> room (mm_pages st)"
  shows "if unat va mod 4096 \<noteq> unat pa mod 4096 \<or> (\<exists>j < area_pages pa sz. views st tab (unat va div 4096 + j) \<noteq> None)
    then rt_hw_mmu_map mi va pa sz attr st = Some (0, st)
    else \<exists>st' tab'. rt_hw_mmu_map mi va pa sz attr st = Some (va, st') \<and> mmu_ok mi st' tab' U \<and>
      (\<forall>w. managed mi (unat w div 4096) \<longrightarrow> rt_hw_mmu_v2p mi w st' =
        (if unat va div 4096 \<le> unat w div 4096 \<and> unat w div 4096 < unat va div 4096 + area_pages pa sz then Some (pa + (w - va))
         else rt_hw_mmu_v2p mi w st))"
  using rt_map_chosen [OF assms, of attr] by (auto split: if_splits)

text \<open>Removing the mapping of an area.\<close>

lemma rt_unmap_ok:
  assumes ok: "mmu_ok mi st tab U" and s: "sz \<noteq> 0" "unat va + unat sz \<le> 2 ^ 64"
    and m: "\<And>j. j < area_pages va sz \<Longrightarrow> managed mi (unat va div 4096 + j) \<and> views st tab (unat va div 4096 + j) \<noteq> None"
  shows "\<exists>st' tab'. rt_hw_mmu_unmap mi va sz st = Some st' \<and> mmu_ok mi st' tab' U \<and>
    views st' tab' = (\<lambda>x. if unat va div 4096 \<le> x \<and> x < unat va div 4096 + area_pages va sz then None else views st tab x)"
  using unmap_loop_ok [OF ok m] unfolding rt_hw_mmu_unmap_def hw_mmu_unmap_def Let_def area_pages_word [OF s] va_split .

text \<open>Unmapping an area whose pages are all mapped: its addresses translate to null, the translation of every other managed address
  stays, and the tables that became empty are given back to the page allocator, so that the other groups in use stay what they were.\<close>

theorem mmu_unmap_correct:
  assumes "mmu_ok mi st tab U" "sz \<noteq> 0" "unat va + unat sz \<le> 2 ^ 64"
    and "\<And>j. j < area_pages va sz \<Longrightarrow> managed mi (unat va div 4096 + j) \<and> views st tab (unat va div 4096 + j) \<noteq> None"
  shows "\<exists>st' tab'. rt_hw_mmu_unmap mi va sz st = Some st' \<and> mmu_ok mi st' tab' U \<and>
    (\<forall>w. managed mi (unat w div 4096) \<longrightarrow> rt_hw_mmu_v2p mi w st' =
      (if unat va div 4096 \<le> unat w div 4096 \<and> unat w div 4096 < unat va div 4096 + area_pages va sz then Some 0 else rt_hw_mmu_v2p mi w st))"
proof -
  from rt_unmap_ok [OF assms] obtain st' tab' where
    u: "rt_hw_mmu_unmap mi va sz st = Some st'" "mmu_ok mi st' tab' U"
      "views st' tab' = (\<lambda>x. if unat va div 4096 \<le> x \<and> x < unat va div 4096 + area_pages va sz then None else views st tab x)" by blast
  have "rt_hw_mmu_v2p mi w st' =
      (if unat va div 4096 \<le> unat w div 4096 \<and> unat w div 4096 < unat va div 4096 + area_pages va sz then Some 0 else rt_hw_mmu_v2p mi w st)"
    if w: "managed mi (unat w div 4096)" for w
    unfolding v2p_ok [OF assms(1) w] v2p_ok [OF u(2) w] u(3) by simp
  with u show ?thesis by blast
qed

text \<open>C7: Mapping an area (not empty, below physical address \<open>2^56\<close>) at a free place (not in page 0) with the page offset of the physical address, all of whose pages are managed, and unmapping it again succeeds
  while at least four pages are free for every page of the area (without memory for the tables the same call halts), and it
  brings back the translation of every managed address.\<close>

theorem mmu_map_unmap:
  assumes "mmu_ok mi st tab U" "sz \<noteq> 0" "unat pa + unat sz \<le> 2 ^ 56" "4096 \<le> unat va" "unat va mod 4096 = unat pa mod 4096"
    and "\<And>j. j < area_pages pa sz \<Longrightarrow> managed mi (unat va div 4096 + j) \<and> views st tab (unat va div 4096 + j) = None"
    and "4 * area_pages pa sz \<le> room (mm_pages st)"
  shows "\<exists>st1 st2 tab2. rt_hw_mmu_map mi va pa sz attr st = Some (va, st1) \<and> rt_hw_mmu_unmap mi va sz st1 = Some st2 \<and> mmu_ok mi st2 tab2 U \<and>
    (\<forall>w. managed mi (unat w div 4096) \<longrightarrow> rt_hw_mmu_v2p mi w st2 = rt_hw_mmu_v2p mi w st)"
proof -
  have n: "area_pages va sz = area_pages pa sz" using area_pages_eq [OF assms(2)] assms(5) by simp
  have nd: "\<not> (unat va mod 4096 \<noteq> unat pa mod 4096 \<or> (\<exists>j < area_pages pa sz. views st tab (unat va div 4096 + j) \<noteq> None))"
    using assms(5,6) by simp
  from rt_map_chosen [OF assms(1-4) conjunct1 [OF assms(6)] assms(7), of attr, unfolded if_not_P [OF nd]] obtain st1 tab1 where
    m: "rt_hw_mmu_map mi va pa sz attr st = Some (va, st1)" "mmu_ok mi st1 tab1 U"
      "views st1 tab1 = (\<lambda>x. if unat va div 4096 \<le> x \<and> x < unat va div 4096 + area_pages pa sz
        then Some (COMBINEPTE (page_va (unat pa div 4096 + (x - unat va div 4096))) PAGE_DEFAULT_ATTR_LEAF) else views st tab x)" by blast
  have "managed mi (unat va div 4096)" using assms(6) [of 0] by (simp add: area_pages_def)
  from managed_va(1) [OF assms(1) this] have "unat va < 2 ^ 39" by (simp add: div_less_iff_less_mult)
  moreover have "unat sz \<le> 2 ^ 56" using assms(3) by linarith
  ultimately have "unat va + unat sz \<le> 2 ^ 64" by simp
  from rt_unmap_ok [OF m(2) assms(2) this, unfolded n] assms(6) m(3) obtain st2 tab2 where
    u: "rt_hw_mmu_unmap mi va sz st1 = Some st2" "mmu_ok mi st2 tab2 U"
      "views st2 tab2 = (\<lambda>x. if unat va div 4096 \<le> x \<and> x < unat va div 4096 + area_pages pa sz then None else views st1 tab1 x)" by auto
  have "views st tab x = None" if "unat va div 4096 \<le> x" "x < unat va div 4096 + area_pages pa sz" for x
    using assms(6) [of "x - unat va div 4096"] that by simp
  then have "views st2 tab2 = views st tab" unfolding u(3) m(3) by (auto simp: fun_eq_iff)
  then have "rt_hw_mmu_v2p mi w st2 = rt_hw_mmu_v2p mi w st" if "managed mi (unat w div 4096)" for w
    using v2p_ok [OF assms(1) that] v2p_ok [OF u(2) that] by simp
  with m u show ?thesis by blast
qed

section \<open>Finding a free range\<close>

lemma path_parts:
  assumes "l2 < 512" "l3 < (512 :: nat)"
  shows "((l1 * 512 + l2) * 512 + l3) div 2 ^ 18 = l1" "((l1 * 512 + l2) * 512 + l3) div 512 mod 512 = l2" "((l1 * 512 + l2) * 512 + l3) mod 512 = l3"
proof -
  have d: "((l1 * 512 + l2) * 512 + l3) div 512 = l1 * 512 + l2" using assms by simp
  then have "((l1 * 512 + l2) * 512 + l3) div 512 div 512 = l1" using assms by simp
  then show "((l1 * 512 + l2) * 512 + l3) div 2 ^ 18 = l1" by (simp flip: div_mult2_eq)
  show "((l1 * 512 + l2) * 512 + l3) div 512 mod 512 = l2" unfolding d using assms by simp
  have "(q * 512 + l3) mod 512 = l3" for q using assms by simp
  then show "((l1 * 512 + l2) * 512 + l3) mod 512 = l3" .
qed

lemma COMBINEVADDR_page:
  assumes "l2 < 512" "l3 < 512"
  shows "COMBINEVADDR (word_of_nat l1) (word_of_nat l2) (word_of_nat l3) = page_va ((l1 * 512 + l2) * 512 + l3)"
proof -
  have b: "n < 9" if "bit (word_of_nat x :: u64) n" "x < 512" for x n
  proof -
    have "take_bit 9 x = x" using that(2) by (simp add: take_bit_eq_mod)
    moreover have "bit x n" using that(1) by (simp add: bit_simps)
    ultimately show ?thesis by (metis bit_take_bit_iff)
  qed
  have "push_bit 21 (word_of_nat l2) OR push_bit 12 (word_of_nat l3) = (push_bit 21 (word_of_nat l2) + push_bit 12 (word_of_nat l3) :: u64)"
    by (rule disjunctive_add_eq_or [symmetric]) (use b [OF _ assms(2)] in \<open>fastforce simp: bit_eq_iff bit_simps\<close>)
  moreover have "push_bit 30 (word_of_nat l1) OR (push_bit 21 (word_of_nat l2) OR push_bit 12 (word_of_nat l3)) =
      (push_bit 30 (word_of_nat l1) + (push_bit 21 (word_of_nat l2) OR push_bit 12 (word_of_nat l3)) :: u64)"
    by (rule disjunctive_add_eq_or [symmetric])
      (use b [OF _ assms(1)] b [OF _ assms(2)] in \<open>fastforce simp: bit_eq_iff bit_simps\<close>)
  ultimately show ?thesis
    unfolding COMBINEVADDR_def page_va_def or.assoc by (simp add: push_bit_eq_mult algebra_simps)
qed

text \<open>The pages seen up to page \<open>c\<close> end in a run of at least \<open>n\<close> free ones from \<open>f\<close> on; the search ends with a run that is long enough.\<close>

definition free_run :: "(nat \<Rightarrow> u64 option) \<Rightarrow> nat \<Rightarrow> nat \<Rightarrow> u64 \<times> u64 \<Rightarrow> bool" where
  "free_run V v0 c nf \<longleftrightarrow> c < 2 ^ 28 \<and> (fst nf \<noteq> 0 \<longrightarrow>
    (\<exists>s. snd nf = page_va s \<and> v0 \<le> s \<and> s + unat (fst nf) \<le> c \<and> (\<forall>x. s \<le> x \<and> x < c \<longrightarrow> V x = None)))"

definition found :: "(nat \<Rightarrow> u64 option) \<Rightarrow> nat \<Rightarrow> nat \<Rightarrow> u64 \<Rightarrow> u64 \<Rightarrow> bool" where
  "found V v0 e pages f \<longleftrightarrow> (\<exists>s. f = page_va s \<and> v0 \<le> s \<and> s + unat pages \<le> e \<and> (\<forall>x. s \<le> x \<and> x < s + unat pages \<longrightarrow> V x = None))"

abbreviation search_ok :: "(nat \<Rightarrow> u64 option) \<Rightarrow> nat \<Rightarrow> nat \<Rightarrow> u64 \<Rightarrow> u64 + u64 \<times> u64 \<Rightarrow> bool" where
  "search_ok V v0 e pages r \<equiv> (case r of Inl f \<Rightarrow> found V v0 e pages f | Inr nf \<Rightarrow> free_run V v0 e nf)"

lemma found_mono: "found V v0 e pages f \<Longrightarrow> e \<le> e' \<Longrightarrow> found V v0 e' pages f"
  unfolding found_def using le_trans by blast

lemma run_extend:
  assumes r: "free_run V v0 c (n, f)" and d: "\<And>x. c \<le> x \<Longrightarrow> x < c + d \<Longrightarrow> V x = None" "unat k \<le> d" "c + d < 2 ^ 28" "v0 \<le> c" "0 < unat k"
  defines "f' \<equiv> (if n = 0 then page_va c else f)"
  shows "free_run V v0 (c + d) (n + k, f')" "n + k \<ge> pages \<Longrightarrow> found V v0 (c + d) pages f'"
proof -
  obtain s where s: "f' = page_va s" "v0 \<le> s" "s + unat n \<le> c" "\<And>x. s \<le> x \<Longrightarrow> x < c \<Longrightarrow> V x = None"
    using r d(4) by (cases "n = 0") (auto simp: free_run_def f'_def)
  have u: "unat (n + k) = unat n + unat k" using s(3) d(2,3) by (subst unat_word_ariths) simp
  have free: "V x = None" if "s \<le> x" "x < c + d" for x using that s(4) d(1) by (cases "x < c") auto
  show "free_run V v0 (c + d) (n + k, f')" unfolding free_run_def
    using s u d free by (auto intro!: exI [of _ s])
  show "found V v0 (c + d) pages f'" if "n + k \<ge> pages" unfolding found_def
    using s u d that free by (intro exI [of _ s]) (auto simp: word_le_nat_alt)
qed

lemma find_l3_ok:
  assumes ok: "mmu_ok mi st tab U" and t: "tab [l1, l2] = Some a" and l: "l1 < 512" "l2 < 512" "i \<le> 512"
    and r: "free_run (views st tab) v0 ((l1 * 512 + l2) * 512 + i) nf" "v0 \<le> (l1 * 512 + l2) * 512"
  shows "\<exists>r. find_l3 pages (word_of_nat l1) (word_of_nat l2) (word_of_nat a) (map word_of_nat [i..<512]) nf st = Some r \<and>
    search_ok (views st tab) v0 ((l1 * 512 + l2) * 512 + 512) pages r"
  using l(3) r(1)
proof (induction i arbitrary: nf rule: inc_induct)
  case base
  then show ?case by (cases nf) auto
next
  case (step i)
  obtain n f where nf: "nf = (n, f)" by (cases nf)
  let ?b = "(l1 * 512 + l2) * 512"
  note P = path_parts [OF l(2) step.hyps(2), of l1]
  have "tab [(?b + i) div 2 ^ 18, (?b + i) div 512 mod 512] = Some a" unfolding P t ..
  note V = views_at [of tab "?b + i" a st, OF this, unfolded P]
  have bnd: "?b + 512 < 2 ^ 28" using l by simp
  have ui: "[i..<512] = i # [Suc i..<512]" using step.hyps(2) by (simp add: upt_conv_Cons)
  show ?case
  proof (cases "PTE_USED (mm_mem st (word_of_nat (a + 8 * i)))")
    case True
    have "table_ok mi tab [l1, l2] (contents st tab [l1, l2])" using mmu_okD(10) [OF ok] t unfolding tables_ok_def by blast
    from table_okD(3) [OF this, of i] True step.hyps(2) have "PAGE_IS_LEAF (mm_mem st (word_of_nat (a + 8 * i)))"
      by (simp add: contents_def t)
    moreover have "free_run (views st tab) v0 (?b + Suc i) (0, f)" using bnd step.hyps(2) by (simp add: free_run_def)
    ultimately show ?thesis using step.IH True unfolding ui nf by (simp del: of_nat_add of_nat_mult)
  next
    case False
    have free: "views st tab x = None" if "?b + i \<le> x" "x < ?b + i + 1" for x using that V False by (metis add.right_neutral add_Suc_right le_antisym less_Suc_eq_le plus_1_eq_Suc add.commute)
    note E = run_extend [OF step.prems [unfolded nf], where d = 1 and k = 1, OF free]
    have C: "COMBINEVADDR (word_of_nat l1) (word_of_nat l2) (word_of_nat i) = page_va (?b + i)" by (rule COMBINEVADDR_page [OF l(2) step.hyps(2)])
    have E1: "free_run (views st tab) v0 (?b + Suc i) (n + 1, if n = 0 then page_va (?b + i) else f)"
      using E(1) bnd step.hyps(2) r(2) by (simp del: split_paired_All)
    show ?thesis
    proof (cases "pages \<le> n + 1")
      case True
      have "found (views st tab) v0 (?b + i + 1) pages (if n = 0 then page_va (?b + i) else f)"
        using E(2) [OF _ _ _ _ _ _ True] free bnd step.hyps(2) r(2) by simp
      then have "found (views st tab) v0 (?b + 512) pages (if n = 0 then page_va (?b + i) else f)"
        by (rule found_mono) (use step.hyps(2) in simp)
      with False True show ?thesis unfolding ui nf by (simp add: C Let_def del: of_nat_add of_nat_mult cong: if_cong)
    next
      case F: False
      with False step.IH [OF E1] show ?thesis unfolding ui nf by (simp add: C Let_def del: of_nat_add of_nat_mult cong: if_cong)
    qed
  qed
qed

lemma no_table:
  assumes "mmu_ok mi st tab U" "tab [l1] = None"
  shows "tab [l1, l2] = None"
proof (rule ccontr)
  assume "tab [l1, l2] \<noteq> None"
  then have "[l1] @ [l2] \<in> dom tab" by (simp add: domIff)
  then have "[l1] \<in> dom tab" using mmu_okD(7) [OF assms(1)] unfolding directory_ok_def by blast
  with assms(2) show False by blast
qed

lemma upto_words_0: "upto_words 0 511 = map word_of_nat [0..<512]"
  by (simp add: upto_words_def del: upt_Suc)

lemma find_l2_ok:
  assumes ok: "mmu_ok mi st tab U" and t: "tab [l1] = Some a" and l: "l1 < 512" "i \<le> 512"
    and r: "free_run (views st tab) v0 ((l1 * 512 + i) * 512) nf" "v0 \<le> l1 * 512 * 512"
  shows "\<exists>r. find_l2 pages (pv_off mi) (word_of_nat l1) (word_of_nat a) (map word_of_nat [i..<512]) nf st = Some r \<and>
    search_ok (views st tab) v0 ((l1 * 512 + 512) * 512) pages r"
  using l(2) r(1)
proof (induction i arbitrary: nf rule: inc_induct)
  case base
  then show ?case by (cases nf) auto
next
  case (step i)
  obtain n f where nf: "nf = (n, f)" by (cases nf)
  let ?b = "(l1 * 512 + i) * 512"
  have e: "entry_ok mi [l1] i" using step.hyps(2) by (simp add: entry_ok_def)
  have bnd: "(l1 * 512 + 512) * 512 < 2 ^ 28" using l by simp
  have next_b: "(l1 * 512 + Suc i) * 512 = ?b + 512" by simp
  have lim: "?b + 512 \<le> (l1 * 512 + 512) * 512" using step.hyps(2) by simp
  have ui: "[i..<512] = i # [Suc i..<512]" using step.hyps(2) by (simp add: upt_conv_Cons)
  show ?case
  proof (cases "tab [l1, i]")
    case (Some b)
    then have t2: "tab ([l1] @ [i]) = Some b" by simp
    note E = entry_next [OF ok t _ t2, simplified]
    from find_l3_ok [OF ok Some l(1) step.hyps(2), of 0 v0 nf pages] step.prems r(2) obtain r1 where
      r1: "find_l3 pages (word_of_nat l1) (word_of_nat i) (word_of_nat b) (upto_words 0 511) nf st = Some r1"
        "search_ok (views st tab) v0 (?b + 512) pages r1" unfolding upto_words_0 by auto
    have u: "PTE_USED (mm_mem st (word_of_nat (a + 8 * i)))" "\<not> PAGE_IS_LEAF (mm_mem st (word_of_nat (a + 8 * i)))"
      using E(1) by simp_all
    show ?thesis
    proof (cases r1)
      case (Inl v)
      then have "found (views st tab) v0 ((l1 * 512 + 512) * 512) pages v" using r1(2) found_mono [OF _ lim] by simp
      with Inl r1(1) u E(2) show ?thesis unfolding ui nf by (simp add: Let_def)
    next
      case (Inr nf')
      then have "free_run (views st tab) v0 ((l1 * 512 + Suc i) * 512) nf'" using r1(2) by (simp only: next_b sum.case)
      from step.IH [OF this] Inr r1(1) u E(2) show ?thesis unfolding ui nf by (simp add: Let_def)
    qed
  next
    case None
    then have "tab ([l1] @ [i]) = None" by simp
    note u = entry_none [OF ok t _ e this, simplified]
    have free: "views st tab x = None" if "?b \<le> x" "x < ?b + 512" for x
    proof (rule views_none)
      have "x = ?b + (x - ?b)" "x - ?b < 512" using that by linarith+
      then have "[x div 2 ^ 18, x div 512 mod 512] = [l1, i]" using path_parts(1,2) [OF step.hyps(2), of "x - ?b" l1] by simp
      then show "tab [x div 2 ^ 18, x div 512 mod 512] = None" using None by (simp only:)
    qed
    note R = run_extend [OF step.prems [unfolded nf], where d = 512 and k = 512, OF free]
    have C: "COMBINEVADDR (word_of_nat l1) (word_of_nat i) 0 = page_va ?b" using COMBINEVADDR_page [OF step.hyps(2), of 0 l1] by simp
    have R1: "free_run (views st tab) v0 ((l1 * 512 + Suc i) * 512) (n + 512, if n = 0 then page_va ?b else f)"
      unfolding next_b using R(1) bnd lim r(2) by simp
    show ?thesis
    proof (cases "pages \<le> n + 512")
      case True
      have "found (views st tab) v0 (?b + 512) pages (if n = 0 then page_va ?b else f)"
        using R(2) [OF _ _ _ _ _ _ True] free bnd lim r(2) by simp
      from found_mono [OF this lim] u True show ?thesis unfolding ui nf
        by (simp add: C Let_def cong: if_cong)
    next
      case False
      with u step.IH [OF R1] show ?thesis unfolding ui nf by (simp add: C Let_def cong: if_cong)
    qed
  qed
qed

lemma find_l1_ok:
  assumes ok: "mmu_ok mi st tab U" and l: "i \<le> Suc (unat (vend mi))" "unat (vstart mi) \<le> i"
    and r: "free_run (views st tab) v0 (i * 512 * 512) nf" "v0 = unat (vstart mi) * 512 * 512"
  shows "\<exists>r. find_l1 pages mi (map word_of_nat [i..<Suc (unat (vend mi))]) nf st = Some r \<and>
    search_ok (views st tab) v0 (Suc (unat (vend mi)) * 512 * 512) pages r"
  using l r(1)
proof (induction i arbitrary: nf rule: inc_induct)
  case base
  then show ?case by (cases nf) auto
next
  case (step i)
  obtain n f where nf: "nf = (n, f)" by (cases nf)
  let ?b = "i * 512 * 512" and ?e = "Suc (unat (vend mi)) * 512 * 512"
  have e: "entry_ok mi [] i" and i: "i < 512" using step.hyps step.prems(1) mmu_okD(2) [OF ok] by (simp_all add: entry_ok_def)
  have bnd: "?e < 2 ^ 28" using mmu_okD(2) [OF ok] by simp
  have next_b: "Suc i * 512 * 512 = ?b + 512 * 512" "(i * 512 + 512) * 512 = Suc i * 512 * 512" by simp_all
  have lim: "Suc i * 512 * 512 \<le> ?e" using step.hyps(2) by simp
  have v0: "v0 \<le> ?b" using step.prems(1) r(2) by simp
  have ui: "[i..<Suc (unat (vend mi))] = i # [Suc i..<Suc (unat (vend mi))]" using step.hyps(2) by (simp add: upt_conv_Cons del: upt_Suc)
  have vs: "unat (vstart mi) \<le> Suc i" using step.prems(1) by simp
  note R0 = root_table [OF ok]
  show ?case
  proof (cases "tab [i]")
    case (Some b)
    then have t2: "tab ([] @ [i]) = Some b" by simp
    note E = entry_next [OF ok R0(1) _ t2, simplified]
    from find_l2_ok [OF ok Some i, of 0 v0 nf pages] step.prems v0 obtain r1 where
      r1: "find_l2 pages (pv_off mi) (word_of_nat i) (word_of_nat b) (upto_words 0 511) nf st = Some r1"
        "search_ok (views st tab) v0 ((i * 512 + 512) * 512) pages r1" unfolding upto_words_0 by auto
    have u: "PTE_USED (mm_mem st (entry_at (vtable mi) (word_of_nat i)))" "\<not> PAGE_IS_LEAF (mm_mem st (entry_at (vtable mi) (word_of_nat i)))"
      "PPN_TO_VPN (GET_PADDR (mm_mem st (entry_at (vtable mi) (word_of_nat i)))) (pv_off mi) = word_of_nat b"
      using E unfolding R0(2) by simp_all
    show ?thesis
    proof (cases r1)
      case (Inl v)
      then have "found (views st tab) v0 ?e pages v" using r1(2) found_mono [OF _ lim] unfolding next_b(2) by simp
      with Inl r1(1) u show ?thesis unfolding ui nf by (simp add: Let_def)
    next
      case (Inr nf')
      then have "free_run (views st tab) v0 (Suc i * 512 * 512) nf'" using r1(2) by (simp only: next_b(2) sum.case)
      from step.IH [OF vs this] Inr r1(1) u show ?thesis unfolding ui nf by (simp add: Let_def)
    qed
  next
    case None
    then have "tab ([] @ [i]) = None" by simp
    note u = entry_none [OF ok R0(1) _ e this, simplified, folded R0(2) [simplified]]
    have free: "views st tab x = None" if "?b \<le> x" "x < ?b + 512 * 512" for x
    proof (rule views_none)
      have "x div 2 ^ 18 = i" using that by (intro div_nat_eqI) simp_all
      then show "tab [x div 2 ^ 18, x div 512 mod 512] = None" using no_table [OF ok None] by (simp only:)
    qed
    note R = run_extend [OF step.prems(2) [unfolded nf], where d = "512 * 512" and k = 512, OF free]
    have C: "COMBINEVADDR (word_of_nat i) 0 0 = page_va ?b" using COMBINEVADDR_page [of 0 0 i] by simp
    have R1: "free_run (views st tab) v0 (Suc i * 512 * 512) (n + 512, if n = 0 then page_va ?b else f)"
      unfolding next_b using R(1) bnd lim v0 by simp
    show ?thesis
    proof (cases "pages \<le> n + 512")
      case True
      have "found (views st tab) v0 (?b + 512 * 512) pages (if n = 0 then page_va ?b else f)"
        using R(2) [OF _ _ _ _ _ _ True] free bnd lim v0 by simp
      from found_mono [OF this lim [unfolded next_b(1)]] u True show ?thesis unfolding ui nf
        by (simp add: C Let_def cong: if_cong)
    next
      case False
      with u step.IH [OF vs R1] show ?thesis unfolding ui nf by (simp add: C Let_def cong: if_cong)
    qed
  qed
qed

lemma find_vaddr_ok:
  assumes ok: "mmu_ok mi st tab U" and p: "pages \<noteq> 0" and v: "unat (vstart mi) \<le> Suc (unat (vend mi))"
  shows "\<exists>f. find_vaddr mi pages st = Some f \<and> (f = 0 \<or> (\<exists>s. f = page_va s \<and>
    (\<forall>j < unat pages. managed mi (s + j) \<and> views st tab (s + j) = None)))"
proof -
  let ?v0 = "unat (vstart mi) * 512 * 512"
  have "free_run (views st tab) ?v0 ?v0 (0, COMBINEVADDR 0 0 0)" using v mmu_okD(2) [OF ok] by (simp add: free_run_def)
  from find_l1_ok [OF ok v le_refl this refl, of pages] obtain r where
    r: "find_l1 pages mi (upto_words (vstart mi) (vend mi)) (0, COMBINEVADDR 0 0 0) st = Some r"
      "search_ok (views st tab) ?v0 (Suc (unat (vend mi)) * 512 * 512) pages r" unfolding upto_words_def by blast
  show ?thesis
  proof (cases r)
    case (Inl f)
    with r(2) obtain s where s: "f = page_va s" "?v0 \<le> s" "s + unat pages \<le> Suc (unat (vend mi)) * 512 * 512"
      "\<forall>x. s \<le> x \<and> x < s + unat pages \<longrightarrow> views st tab x = None" by (auto simp: found_def)
    have "managed mi (s + j) \<and> views st tab (s + j) = None" if "j < unat pages" for j
    proof
      have "unat (vstart mi) * 2 ^ 18 \<le> s + j" "s + j < Suc (unat (vend mi)) * 2 ^ 18" using s(2,3) that by simp_all
      then have "unat (vstart mi) \<le> (s + j) div 2 ^ 18" "(s + j) div 2 ^ 18 < Suc (unat (vend mi))"
        by (simp_all only: less_eq_div_iff_mult_less_eq div_less_iff_less_mult zero_less_power zero_less_numeral)
      then show "managed mi (s + j)" by (simp add: managed_def)
      show "views st tab (s + j) = None" using s(4) that by simp
    qed
    with Inl r(1) s(1) p show ?thesis unfolding find_vaddr_def by auto
  next
    case (Inr nf)
    with r(1) p show ?thesis unfolding find_vaddr_def by simp
  qed
qed

text \<open>Mapping a physical area at no particular address (null): the result is null and nothing changes, or it is an address with the offset
  of the area whose pages are all managed and were all free; its pages then translate to the area, and every other translation stays.\<close>

theorem mmu_map_anywhere:
  assumes ok: "mmu_ok mi st tab U" and a: "sz \<noteq> 0" "unat pa + unat sz \<le> 2 ^ 56" and v: "unat (vstart mi) \<le> Suc (unat (vend mi))"
    and r: "4 * area_pages pa sz \<le> room (mm_pages st)"
  shows "\<exists>va st'. rt_hw_mmu_map mi 0 pa sz attr st = Some (va, st') \<and> (va = 0 \<and> st' = st \<or>
    unat va mod 4096 = unat pa mod 4096 \<and>
    (\<forall>j < area_pages pa sz. managed mi (unat va div 4096 + j) \<and> views st tab (unat va div 4096 + j) = None) \<and>
    (\<exists>tab'. mmu_ok mi st' tab' U) \<and>
    (\<forall>w. managed mi (unat w div 4096) \<longrightarrow> rt_hw_mmu_v2p mi w st' =
      (if unat va div 4096 \<le> unat w div 4096 \<and> unat w div 4096 < unat va div 4096 + area_pages pa sz then Some (pa + (w - va))
       else rt_hw_mmu_v2p mi w st)))"
proof -
  let ?n = "GET_PF_ID (pa + sz - 1) - GET_PF_ID pa + 1"
  have wn: "unat ?n = area_pages pa sz"
    unfolding GET_PF_ID_def by (rule area_pages_word) (use a in simp_all)
  then have n0: "?n \<noteq> 0" by (auto simp: area_pages_def)
  from find_vaddr_ok [OF ok n0 v] obtain f where
    f: "find_vaddr mi ?n st = Some f" "f = 0 \<or> (\<exists>s. f = page_va s \<and>
      (\<forall>j < area_pages pa sz. managed mi (s + j) \<and> views st tab (s + j) = None))" unfolding wn by blast
  show ?thesis
  proof (cases "f = 0")
    case True
    with f(1) a(1) have "rt_hw_mmu_map mi 0 pa sz attr st = Some (0, st)" by (simp add: rt_hw_mmu_map_def Let_def)
    then show ?thesis by blast
  next
    case False
    with f(2) obtain s where s: "f = page_va s" "\<And>j. j < area_pages pa sz \<Longrightarrow> managed mi (s + j) \<and> views st tab (s + j) = None" by blast
    have s0: "s \<noteq> 0" using False s(1) by (cases "s = 0") (simp_all add: page_va_def)
    from map_at [OF ok refl a s0 s(2) r, of attr] obtain st' tab' where
      m: "hw_mmu_map mi (page_va s) pa (unat ?n) attr st = Some (0, st')" "mmu_ok mi st' tab' U"
        "\<And>w. managed mi (unat w div 4096) \<Longrightarrow> rt_hw_mmu_v2p mi w st' =
          (if s \<le> unat w div 4096 \<and> unat w div 4096 < s + area_pages pa sz then Some (page_va (unat pa div 4096) + (w - page_va s)) else rt_hw_mmu_v2p mi w st)"
      by blast
    define va where "va = page_va s OR GET_PF_OFFSET pa"
    have va: "va = page_va s + GET_PF_OFFSET pa" by (simp only: va_def page_or_offset)
    have pa: "pa = page_va (unat pa div 4096) + GET_PF_OFFSET pa" using va_join [of pa] page_or_offset [of "unat pa div 4096" pa] by simp
    have "0 < area_pages pa sz" by (simp add: area_pages_def)
    from s(2) [OF this] have S: "unat (page_va s) = 4096 * s" "s < 2 ^ 27" using managed_va [OF ok, of s] by simp_all
    have "unat va = 4096 * s + unat pa mod 4096"
      unfolding va using S by (subst unat_word_ariths) (simp add: unat_PF_OFFSET)
    then have V: "unat va div 4096 = s" "unat va mod 4096 = unat pa mod 4096" by simp_all
    have "page_va (unat pa div 4096) + (w - page_va s) = pa + (w - va)" for w
      by (subst (2) pa, subst va) (simp add: algebra_simps)
    moreover have "rt_hw_mmu_map mi 0 pa sz attr st = Some (va, st')"
      using a(1) f(1) False m(1) by (simp add: rt_hw_mmu_map_def Let_def s(1) va_def)
    ultimately show ?thesis using m(2,3) s(2) V by (intro exI [of _ va] exI [of _ st']) auto
  qed
qed

text \<open>\<open>find_vaddr\<close> counts 512 pages for an unused entry of the first level, which stands for 512 times 512: with one such entry in the
  managed range a request for more than 512 pages finds no address although all 262144 pages are free.\<close>

theorem find_vaddr_undercounts:
  assumes "mmu_ok mi st tab U" "vstart mi = vend mi" "tab [unat (vstart mi)] = None" "512 < unat pages"
  shows "find_vaddr mi pages st = Some 0 \<and> (\<forall>x. managed mi x \<longrightarrow> views st tab x = None)"
proof
  let ?i = "unat (vstart mi)"
  have e: "entry_ok mi [] ?i" using mmu_okD(2) [OF assms(1)] assms(2) by (simp add: entry_ok_def)
  have "tab ([] @ [?i]) = None" using assms(3) by simp
  from entry_none [OF assms(1) root_table(1) [OF assms(1)] _ e this]
  have u: "\<not> PTE_USED (mm_mem st (entry_at (vtable mi) (vstart mi)))" using root_table(2) [OF assms(1), of ?i] by simp
  have "upto_words (vstart mi) (vend mi) = [vstart mi]" using assms(2) by (simp add: upto_words_def)
  moreover have "\<not> pages \<le> 512" "pages \<noteq> 0" using assms(4) by (auto simp: word_le_nat_alt)
  ultimately show "find_vaddr mi pages st = Some 0" using u by (simp add: find_vaddr_def Let_def)
  show "\<forall>x. managed mi x \<longrightarrow> views st tab x = None"
    using no_table [OF assms(1,3)] assms(2) views_none [of tab _ st] by (auto simp: managed_def dest: le_antisym)
qed

section \<open>Mapping fresh pages, and running out of memory\<close>

lemma map_auto_loop_ok:
  assumes "mmu_ok mi st tab U" "\<And>j. j < n \<Longrightarrow> managed mi (v + j) \<and> views st tab (v + j) = None" "6 * n \<le> room (mm_pages st)"
  shows "\<exists>st' tab' bs. map_auto_loop mi va attr (page_va v) n st = Some (0, st') \<and> length bs = n \<and> distinct bs \<and>
    (\<forall>b \<in> set bs. (b, 0) \<notin> U \<and> 4096 dvd b \<and> b < 2 ^ 56) \<and> mmu_ok mi st' tab' (U \<union> (\<lambda>b. (b, 0)) ` set bs) \<and>
    views st' tab' = (\<lambda>x. if v \<le> x \<and> x < v + n then Some (COMBINEPTE (word_of_nat (bs ! (x - v))) PAGE_DEFAULT_ATTR_LEAF) else views st tab x)"
  using assms
proof (induction n arbitrary: st tab v U)
  case 0
  then show ?case by (intro exI [of _ st] exI [of _ tab] exI [of _ "[]"]) (auto simp: fun_eq_iff)
next
  case (Suc n)
  have v: "managed mi v" "views st tab v = None" using Suc.prems(2) [of 0] by simp_all
  from mmu_alloc [OF Suc.prems(1), of 0] Suc.prems(3) obtain b ps where
    b: "alloc_pages 0 st = Some (word_of_nat b, st\<lparr>mm_pages := ps\<rparr>)" "(b, 0) \<notin> U \<union> table_groups tab"
      "mmu_ok mi (st\<lparr>mm_pages := ps\<rparr>) tab (insert (b, 0) U)" "room (mm_pages st) \<le> room ps + 2" "0 < b" "b + 4096 \<le> 2 ^ 56" "4096 dvd b" by auto
  define st1 where "st1 = st\<lparr>mm_pages := ps\<rparr>"
  have bn: "(word_of_nat b :: u64) \<noteq> 0" using u64_of_nat_inj [of b 0] b(5,6) by simp
  have ub: "unat (word_of_nat b :: u64) div 4096 = b div 4096" using b(6) by (subst unat_u64) simp_all
  have pb: "page_va (b div 4096) = word_of_nat b" using b(7) by (simp only: page_va_def dvd_mult_div_cancel)
  have r1: "4 * 1 \<le> room (mm_pages st1)" using b(4) Suc.prems(3) by (simp add: st1_def)
  have f1: "managed mi (v + j) \<and> views st1 tab (v + j) = None" if "j < 1" for j using v that by (simp add: st1_def)
  have p1: "b div 4096 + 1 \<le> 2 ^ 44" using b(6) less_mult_imp_div_less [of b "2 ^ 44" 4096] by simp
  from hw_mmu_map_ok [OF b(3) [folded st1_def] f1 r1 p1 ub, of attr] obtain st2 tab2 where
    m: "hw_mmu_map mi (page_va v) (word_of_nat b) 1 attr st1 = Some (0, st2)" "mmu_ok mi st2 tab2 (insert (b, 0) U)"
      "views st2 tab2 = (\<lambda>x. if v \<le> x \<and> x < v + 1 then Some (COMBINEPTE (page_va (b div 4096 + (x - v))) PAGE_DEFAULT_ATTR_LEAF) else views st1 tab x)"
      "room (mm_pages st1) \<le> room (mm_pages st2) + 4 * 1" by blast
  have m3: "views st2 tab2 = (views st tab)(v \<mapsto> COMBINEPTE (word_of_nat b) PAGE_DEFAULT_ATTR_LEAF)"
    unfolding m(3) by (auto simp: fun_eq_iff pb st1_def)
  have "managed mi (Suc v + j) \<and> views st2 tab2 (Suc v + j) = None" if "j < n" for j
    using Suc.prems(2) [of "Suc j"] that m3 by simp
  moreover have "6 * n \<le> room (mm_pages st2)" using m(4) b(4) Suc.prems(3) by (simp add: st1_def)
  ultimately obtain st' tab' bs where
    r: "map_auto_loop mi va attr (page_va (Suc v)) n st2 = Some (0, st')" "length bs = n" "distinct bs"
      "\<forall>c \<in> set bs. (c, 0) \<notin> insert (b, 0) U \<and> 4096 dvd c \<and> c < 2 ^ 56" "mmu_ok mi st' tab' (insert (b, 0) U \<union> (\<lambda>b. (b, 0)) ` set bs)"
      "views st' tab' = (\<lambda>x. if Suc v \<le> x \<and> x < Suc v + n then Some (COMBINEPTE (word_of_nat (bs ! (x - Suc v))) PAGE_DEFAULT_ATTR_LEAF)
        else views st2 tab2 x)"
    using Suc.IH [OF m(2)] by blast
  have "map_auto_loop mi va attr (page_va v) (Suc n) st = Some (0, st')"
    using b(1) bn m(1) r(1) by (simp add: st1_def)
  moreover have "views st' tab' = (\<lambda>x. if v \<le> x \<and> x < v + Suc n then Some (COMBINEPTE (word_of_nat ((b # bs) ! (x - v))) PAGE_DEFAULT_ATTR_LEAF) else views st tab x)"
    unfolding r(6) m3
  proof (rule ext)
    fix x
    consider "x = v" | "Suc v \<le> x" "x < Suc v + n" | "x < v \<or> Suc v + n \<le> x" by linarith
    then show "(if Suc v \<le> x \<and> x < Suc v + n then Some (COMBINEPTE (word_of_nat (bs ! (x - Suc v))) PAGE_DEFAULT_ATTR_LEAF)
        else ((views st tab)(v \<mapsto> COMBINEPTE (word_of_nat b) PAGE_DEFAULT_ATTR_LEAF)) x) =
      (if v \<le> x \<and> x < v + Suc n then Some (COMBINEPTE (word_of_nat ((b # bs) ! (x - v))) PAGE_DEFAULT_ATTR_LEAF) else views st tab x)"
    proof cases
      case 2
      then have "x - v = Suc (x - Suc v)" by simp
      with 2 show ?thesis by simp
    qed auto
  qed
  moreover have "insert (b, 0) U \<union> (\<lambda>b. (b, 0)) ` set bs = U \<union> (\<lambda>b. (b, 0)) ` set (b # bs)" by auto
  ultimately show ?case using r(2-5) b(2,6,7) by (intro exI [of _ st'] exI [of _ tab'] exI [of _ "b # bs"]) auto
qed

text \<open>C8: Mapping fresh memory at a chosen address: when a page of the range is mapped already nothing happens and the result is null; otherwise,
  with enough free memory, every page of the range translates to a page of its own that nobody held before and that the caller now holds.\<close>

theorem mmu_map_auto_correct:
  assumes ok: "mmu_ok mi st tab U" and s: "sz \<noteq> 0" "unat sz \<le> 2 ^ 56" and v: "4096 \<le> unat va"
    and n: "n = (unat va mod 4096 + unat sz + 4095) div 4096" "\<And>j. j < n \<Longrightarrow> managed mi (unat va div 4096 + j)" "6 * n \<le> room (mm_pages st)"
  shows "if \<exists>j < n. views st tab (unat va div 4096 + j) \<noteq> None then rt_hw_mmu_map_auto mi va sz attr st = Some (0, st)
    else \<exists>st' tab' bs. rt_hw_mmu_map_auto mi va sz attr st = Some (va, st') \<and> length bs = n \<and> distinct bs \<and> (\<forall>b \<in> set bs. (b, 0) \<notin> U) \<and>
      mmu_ok mi st' tab' (U \<union> (\<lambda>b. (b, 0)) ` set bs) \<and>
      (\<forall>w. managed mi (unat w div 4096) \<longrightarrow> rt_hw_mmu_v2p mi w st' =
        (if unat va div 4096 \<le> unat w div 4096 \<and> unat w div 4096 < unat va div 4096 + n
         then Some (word_of_nat (bs ! (unat w div 4096 - unat va div 4096) + unat w mod 4096)) else rt_hw_mmu_v2p mi w st))"
proof -
  define u where "u = unat va div 4096"
  let ?pages = "drop_bit 12 (sz + (GET_PF_OFFSET va + 4096 - 1))"
  have s0: "0 < unat sz" using s(1) by (simp add: unat_gt_0)
  have m: "unat va mod 4096 < 4096" by simp
  have "unat (sz + (GET_PF_OFFSET va + 4095)) = unat va mod 4096 + unat sz + 4095"
    using s(2) m unat_PF_OFFSET [of va] by (simp add: unat_word_ariths)
  then have e: "unat (sz + (GET_PF_OFFSET va + 4096 - 1)) = unat va mod 4096 + unat sz + 4095" by (simp add: add_diff_eq [symmetric])
  have wn: "unat ?pages = n" unfolding unat_drop_bit_eq e n(1) by (simp add: drop_bit_eq_div)
  have n0: "0 < n" unfolding n(1) using s0 by (simp add: div_greater_zero_iff)
  then have pn: "?pages \<noteq> 0" using wn by (metis unat_0 less_irrefl)
  have va0: "va \<noteq> 0" and u0: "u \<noteq> 0" using v by (auto simp: u_def)
  have mg: "\<And>j. j < n \<Longrightarrow> managed mi (u + j)" using n(2) by (simp add: u_def)
  have pv: "page_va u \<noteq> 0" using managed_va(2) [OF ok, of u] mg [OF n0] u0 by fastforce
  have chk: "check_vaddr mi (page_va u) ?pages st = Some (if \<forall>j < n. views st tab (u + j) = None then 0 else -1)"
    using check_loop_ok [OF ok mg] pn by (simp only: check_vaddr_def wn page_va_mask if_False)
  show ?thesis
  proof (cases "\<exists>j < n. views st tab (u + j) \<noteq> None")
    case True
    then show ?thesis using chk s(1) va0 unfolding rt_hw_mmu_map_auto_def va_split [of va] u_def [symmetric] by (auto simp: Let_def)
  next
    case False
    then have fr: "\<And>j. j < n \<Longrightarrow> managed mi (u + j) \<and> views st tab (u + j) = None" using mg by blast
    from map_auto_loop_ok [OF ok fr n(3), of "page_va u" attr] obtain st' tab' bs where
      a: "map_auto_loop mi (page_va u) attr (page_va u) n st = Some (0, st')" "length bs = n" "distinct bs"
        "\<forall>b \<in> set bs. (b, 0) \<notin> U \<and> 4096 dvd b \<and> b < 2 ^ 56" "mmu_ok mi st' tab' (U \<union> (\<lambda>b. (b, 0)) ` set bs)"
        "views st' tab' = (\<lambda>x. if u \<le> x \<and> x < u + n then Some (COMBINEPTE (word_of_nat (bs ! (x - u))) PAGE_DEFAULT_ATTR_LEAF) else views st tab x)"
      by blast
    have "rt_hw_mmu_map_auto mi va sz attr st = Some (va, st')"
      using chk False s(1) va0 pv a(1) va_join [of va] unfolding rt_hw_mmu_map_auto_def va_split [of va] u_def [symmetric]
      by (simp add: Let_def wn [simplified] page_va_mask)
    moreover have "rt_hw_mmu_v2p mi w st' = (if u \<le> unat w div 4096 \<and> unat w div 4096 < u + n
         then Some (word_of_nat (bs ! (unat w div 4096 - u) + unat w mod 4096)) else rt_hw_mmu_v2p mi w st)"
      if w: "managed mi (unat w div 4096)" for w
    proof (cases "u \<le> unat w div 4096 \<and> unat w div 4096 < u + n")
      case True
      then have "bs ! (unat w div 4096 - u) \<in> set bs" using a(2) by (intro nth_mem) linarith
      then show ?thesis using v2p_group [OF a(5) w, of "bs ! (unat w div 4096 - u)"] a(4) True by (simp add: a(6))
    next
      case False
      then show ?thesis unfolding v2p_ok [OF ok w] v2p_ok [OF a(5) w] a(6) by auto
    qed
    ultimately show ?thesis using False a(2-5) unfolding u_def [symmetric] by (intro iffD2 [OF if_not_P]) blast+
  qed
qed

text \<open>C32: When there is no memory for the first table, a request for a single page fails properly, with null; for more pages the error path
  unmaps the pages that were not mapped yet instead of the ones that were, and halts in an assertion.\<close>

theorem map_oom_halts:
  assumes ok: "mmu_ok mi st tab U" and oom: "rt_pages_alloc 1 (mm_pages st) = Some (0, mm_pages st)"
    and a: "sz \<noteq> 0" "unat pa + unat sz \<le> 2 ^ 56" "4096 \<le> unat va" "unat va mod 4096 = unat pa mod 4096"
    and v: "\<And>j. j < area_pages pa sz \<Longrightarrow> managed mi (unat va div 4096 + j) \<and> views st tab (unat va div 4096 + j) = None"
    and t: "tab [unat va div 4096 div 2 ^ 18] = None"
  shows "rt_hw_mmu_map mi va pa sz attr st = (if area_pages pa sz = 1 then Some (0, st) else None)"
proof -
  define u where "u = unat va div 4096"
  define n where "n = area_pages pa sz"
  have wn: "unat (GET_PF_ID (pa + sz - 1) - GET_PF_ID pa + 1) = n"
    unfolding GET_PF_ID_def n_def by (rule area_pages_word) (use a in simp_all)
  have n0: "0 < n" by (simp add: n_def area_pages_def)
  have fr: "\<And>j. j < n \<Longrightarrow> managed mi (u + j) \<and> views st tab (u + j) = None" using v by (simp add: u_def n_def)
  have u: "managed mi u" using fr [OF n0] by simp
  note V = managed_va [OF ok u]
  have u0: "u \<noteq> 0" "va \<noteq> 0" using a(3) by (auto simp: u_def)
  have pn: "GET_PF_ID (pa + sz - 1) - GET_PF_ID pa + 1 \<noteq> 0" using wn n0 by (metis unat_0 less_irrefl)
  have pv: "page_va u \<noteq> 0" using V(2) u0(1) by fastforce
  have chk: "check_vaddr mi (page_va u) (GET_PF_ID (pa + sz - 1) - GET_PF_ID pa + 1) st = Some 0"
    using check_loop_ok [OF ok conjunct1 [OF fr]] fr pn by (simp add: check_vaddr_def wn)
  have off: "GET_PF_OFFSET va = GET_PF_OFFSET pa" unfolding word_unat_eq_iff unat_PF_OFFSET by (rule a(4))
  have G: "GET_L1 (page_va u) = word_of_nat (u div 2 ^ 18)" using GET_L_page(1) [OF ok, of "page_va u"] u unfolding V(3) by simp
  have "tab ([] @ [u div 2 ^ 18]) = None" using t by (simp add: u_def)
  from entry_none [OF ok root_table(1) [OF ok] _ managed_entry [OF ok u] this]
  have ue: "\<not> PTE_USED (mm_mem st (entry_at (vtable mi) (GET_L1 (page_va u))))" unfolding G root_table(2) [OF ok] by simp
  have "alloc_pages 1 st = Some (0, st)" by (simp only: alloc_pages_def oom option.map(2)) simp
  then have mp: "map_page mi (page_va u) pa' st = Some (False, st)" for pa' using ue by (simp add: map_page_def next_table_def)
  have up: "unmap_page mi (page_va u) st = None" using ue by (auto simp: unmap_page_def Let_def RT_ASSERT_def)
  obtain m where m: "n = Suc m" using n0 by (cases n) auto
  have "hw_mmu_map mi (page_va u) pa n attr st = (if m = 0 then Some (-1, st) else None)"
    using mp up unfolding hw_mmu_map_def m by (cases m) (simp_all add: hw_mmu_unmap_def)
  then show ?thesis using a(1) u0 pv chk off wn m unfolding rt_hw_mmu_map_def va_split [of va] u_def [symmetric] n_def [symmetric]
    by (simp add: Let_def)
qed

section \<open>Initialisation\<close>

lemma mmu_empty:
  assumes "pv_off mi = 0" "unat (vend mi) < 512" "0 < unat (vtable mi)" "unat (vtable mi) + 4096 \<le> 2 ^ 56" "4096 dvd unat (vtable mi)"
    and "(unat (vtable mi), 0) \<in> U \<or> {unat (vtable mi)..<unat (vtable mi) + 4096} \<inter> page_pool (mm_pages st) = {}" "page_holds (mm_pages st) U"
    and "\<And>i. unat (vstart mi) \<le> i \<Longrightarrow> i \<le> unat (vend mi) \<Longrightarrow> mm_mem st (word_of_nat (unat (vtable mi) + 8 * i)) = 0"
  shows "mmu_ok mi st [[] \<mapsto> unat (vtable mi)] U"
proof -
  have "table_groups [[] \<mapsto> unat (vtable mi)] = {}" by (auto simp: table_groups_def)
  moreover have "directory_ok mi [[] \<mapsto> unat (vtable mi)]" by (auto simp: directory_ok_def)
  moreover have "table_ok mi [[] \<mapsto> unat (vtable mi)] [] (contents st [[] \<mapsto> unat (vtable mi)] [])"
    using assms(8) by (auto simp: table_ok_def contents_def entry_ok_def)
  then have "tables_ok mi [[] \<mapsto> unat (vtable mi)] (contents st [[] \<mapsto> unat (vtable mi)])" by (simp add: tables_ok_def)
  ultimately show ?thesis using assms(1-7) by (simp add: mmu_ok_def)
qed

text \<open>C13: \<open>rt_hw_mmu_map_init\<close> over a range of the address space above the first gigabyte whose entries of the root table are zero: the
  structure manages exactly the gigabytes that the range touches, its tables are well-formed, and no address in it is mapped.\<close>

theorem mmu_map_init_correct:
  assumes "sz \<noteq> 0" "2 ^ 30 \<le> unat va" "unat va + unat sz \<le> 2 ^ 39"
    and "vt \<noteq> 0" "unat vt + 4096 \<le> 2 ^ 56" "4096 dvd unat vt"
    and "(unat vt, 0) \<in> U \<or> {unat vt..<unat vt + 4096} \<inter> page_pool (mm_pages st) = {}" "page_holds (mm_pages st) U"
    and "\<And>i. unat va div 2 ^ 30 \<le> i \<Longrightarrow> i \<le> (unat va + unat sz - 1) div 2 ^ 30 \<Longrightarrow> mm_mem st (word_of_nat (unat vt + 8 * i)) = 0"
  shows "\<exists>mi'. rt_hw_mmu_map_init (Some mi) va sz vt 0 st = (0, Some mi') \<and> mmu_ok mi' st [[] \<mapsto> unat vt] U \<and>
    (\<forall>x. managed mi' x \<longleftrightarrow> unat va div 2 ^ 30 \<le> x div 2 ^ 18 \<and> x div 2 ^ 18 \<le> (unat va + unat sz - 1) div 2 ^ 30) \<and>
    (\<forall>w. managed mi' (unat w div 4096) \<longrightarrow> rt_hw_mmu_v2p mi' w st = Some 0)"
proof -
  have s: "0 < unat sz" using assms(1) by (simp add: unat_gt_0)
  then have "unat va + unat sz - 1 < 2 ^ 64" using assms(3) by simp
  moreover have "va + sz - 1 = word_of_nat (unat va + unat sz - 1)" using s by (simp add: of_nat_diff Suc_le_eq)
  ultimately have e: "unat (va + sz - 1) = unat va + unat sz - 1" by (simp only: unat_u64)
  have lt: "(unat va + unat sz - 1) div 2 ^ 30 < 512" "unat va div 2 ^ 30 < 512"
    using assms(3) s by (simp_all add: div_less_iff_less_mult)
  then have l: "unat (GET_L1 va) = unat va div 2 ^ 30" "unat (GET_L1 (va + sz - 1)) = (unat va + unat sz - 1) div 2 ^ 30"
    unfolding GET_L1_def unat_PARTBIT e by simp_all
  have nw: "\<not> va + sz - 1 < va" using s by (simp add: word_less_nat_alt e)
  have "1 \<le> unat va div 2 ^ 30" using div_le_mono [OF assms(2), of "2 ^ 30"] by simp
  then have n0: "GET_L1 va \<noteq> 0" using l(1) by (auto simp: word_unat_eq_iff)
  have z: "mm_mem st (entry_at vt l1) = 0" if "l1 \<in> set (upto_words (GET_L1 va) (GET_L1 (va + sz - 1)))" for l1
    using that assms(9) by (auto simp: upto_words_def l entry_at_def)
  define mi' where "mi' = \<lparr>vtable = vt, vstart = GET_L1 va, vend = GET_L1 (va + sz - 1), pv_off = 0\<rparr>"
  have i: "rt_hw_mmu_map_init (Some mi) va sz vt 0 st = (0, Some mi')"
    using assms(4) nw n0 z by (auto simp: rt_hw_mmu_map_init_def Let_def mi'_def)
  have ok: "mmu_ok mi' st [[] \<mapsto> unat vt] U"
    using mmu_empty [of mi' U st] assms(4-9) lt l by (simp add: mi'_def unat_gt_0)
  have "rt_hw_mmu_v2p mi' w st = Some 0" if "managed mi' (unat w div 4096)" for w
    using v2p_ok [OF ok that] by (simp add: lookup_def Let_def)
  with i ok show ?thesis by (intro exI [of _ mi']) (simp add: managed_def mi'_def l)
qed

section \<open>A concrete state\<close>

text \<open>Four gigabytes from \<open>0x100000000\<close> on, an empty root table at \<open>0x1000\<close>, and the pages of the allocator as given.\<close>

definition sample_mi :: rt_mmu_info where
  "sample_mi = \<lparr>vtable = 0x1000, vstart = 4, vend = 7, pv_off = 0\<rparr>"

definition sample_st :: "pages \<Rightarrow> mmu_state" where
  "sample_st ps = \<lparr>mm_mem = (\<lambda>_. 0), mm_pages = ps, current_mmu_table = 0, mm_satp = 0\<rparr>"

definition free_pool :: pages where
  "free_pool = \<lparr>page_addr = 65536, page_nr = 16,
     page_mem = (\<lambda>_. \<lparr>pg_next = None, pg_pre = None, pg_size_bits = 4, pg_ref_cnt = 0\<rparr>), page_list = [4 \<mapsto> 0]\<rparr>"

definition no_pool :: pages where
  "no_pool = \<lparr>page_addr = 65536, page_nr = 0,
     page_mem = (\<lambda>_. \<lparr>pg_next = None, pg_pre = None, pg_size_bits = 64, pg_ref_cnt = 0\<rparr>), page_list = (\<lambda>_. None)\<rparr>"

lemma free_pool_ok: "pages_ok free_pool {}"
proof -
  let ?fl = "(\<lambda>_. [])(4 := [0]) :: nat \<Rightarrow> nat list"
  have F: "free_groups ?fl = {(0, 4)}" by (auto simp: free_groups_def split: if_splits)
  have "lists_ok (page_mem free_pool) (page_list free_pool) ?fl" by (auto simp: lists_ok_def free_pool_def)
  moreover have "tiling 16 16 {(0, 4)}" by (auto simp: tiling_def)
  ultimately have "pages_shape 16 free_pool ?fl {} {}" unfolding pages_shape_def F by (auto simp: free_pool_def)
  moreover have "joined 16 ?fl" by (auto simp: joined_def buddies_def split: if_splits)
  ultimately show ?thesis unfolding pages_ok_def by (intro conjI exI [of _ ?fl]) (simp_all add: free_pool_def)
qed

lemma no_pool_ok: "pages_ok no_pool {}"
proof -
  let ?fl = "(\<lambda>_. []) :: nat \<Rightarrow> nat list"
  have F: "free_groups ?fl = {}" by (auto simp: free_groups_def)
  have "lists_ok (page_mem no_pool) (page_list no_pool) ?fl" by (auto simp: lists_ok_def no_pool_def)
  moreover have "tiling 16 0 {}" by (auto simp: tiling_def)
  ultimately have "pages_shape 0 no_pool ?fl {} {}" unfolding pages_shape_def F by (auto simp: no_pool_def)
  moreover have "joined 16 ?fl" by (auto simp: joined_def buddies_def)
  ultimately show ?thesis unfolding pages_ok_def by (intro conjI exI [of _ ?fl]) (simp_all add: no_pool_def)
qed

lemma pool_holds: "page_holds free_pool {}" "page_holds no_pool {}"
  using free_pool_ok no_pool_ok by (auto simp: page_holds_def) (auto simp: free_pool_def no_pool_def)

lemma free_pool_room: "room free_pool = 16"
proof -
  have "singles free_pool = 0" by (simp add: singles_def free_pool_def count_list.simps)
  with room_eq(2) [OF free_pool_ok] show ?thesis by (simp add: free_pool_def)
qed

lemma mmu_sample_ok: "mmu_ok sample_mi (sample_st free_pool) [[] \<mapsto> 4096] {}" "mmu_ok sample_mi (sample_st no_pool) [[] \<mapsto> 4096] {}"
  using mmu_empty [of sample_mi "{}" "sample_st free_pool"] mmu_empty [of sample_mi "{}" "sample_st no_pool"] pool_holds
  by (simp_all add: sample_mi_def sample_st_def page_pool_def free_pool_def no_pool_def)

lemma sample_unmapped: "views (sample_st ps) [[] \<mapsto> 4096] x = None"
  by (simp add: lookup_def Let_def)

lemma sample_managed: "managed sample_mi x \<longleftrightarrow> 4 \<le> x div 2 ^ 18 \<and> x div 2 ^ 18 \<le> 7"
  by (simp add: managed_def sample_mi_def)

section \<open>Witnesses\<close>

lemma sample_area: "area_pages 0x80000800 0x1000 = 2" "unat (0x100000800 :: u64) div 4096 = 1048576"
  by (simp_all add: area_pages_def)

lemma sample_range: "j < 2 \<Longrightarrow> managed sample_mi (1048576 + j)"
  by (simp add: sample_managed less_2_cases_iff)  (auto simp: div_nat_eqI)

lemma sample_room: "room (mm_pages (sample_st free_pool)) = 16"
  by (simp add: sample_st_def free_pool_room)

theorem mmu_map_correct_witness:
  "\<exists>st'. rt_hw_mmu_map sample_mi 0x100000800 0x80000800 0x1000 0 (sample_st free_pool) = Some (0x100000800, st') \<and>
    rt_hw_mmu_v2p sample_mi 0x100001234 st' = Some 0x80001234"
proof -
  have m: "managed sample_mi (unat (0x100000800 :: u64) div 4096 + j)" if "j < area_pages 0x80000800 0x1000" for j
    using sample_range [of j] that by (simp only: sample_area)
  from mmu_map_correct [OF mmu_sample_ok(1), of "0x1000" "0x80000800" "0x100000800" 0, OF _ _ _ m]
  obtain st' where s: "rt_hw_mmu_map sample_mi 0x100000800 0x80000800 0x1000 0 (sample_st free_pool) = Some (0x100000800, st')"
    "\<And>w. managed sample_mi (unat w div 4096) \<Longrightarrow> rt_hw_mmu_v2p sample_mi w st' =
        (if unat (0x100000800 :: u64) div 4096 \<le> unat w div 4096 \<and> unat w div 4096 < unat (0x100000800 :: u64) div 4096 + area_pages 0x80000800 0x1000
         then Some (0x80000800 + (w - 0x100000800)) else rt_hw_mmu_v2p sample_mi w (sample_st free_pool))"
    by (auto simp: sample_area sample_unmapped sample_room)
  have "managed sample_mi (unat (0x100001234 :: u64) div 4096)" by (simp add: sample_managed)
  from s(2) [OF this] have "rt_hw_mmu_v2p sample_mi 0x100001234 st' = Some 0x80001234" by (simp add: sample_area)
  with s(1) show ?thesis by blast
qed

theorem mmu_map_unmap_witness:
  "\<exists>st1 st2. rt_hw_mmu_map sample_mi 0x100000800 0x80000800 0x1000 0 (sample_st free_pool) = Some (0x100000800, st1) \<and>
    rt_hw_mmu_unmap sample_mi 0x100000800 0x1000 st1 = Some st2"
proof -
  have "managed sample_mi (unat (0x100000800 :: u64) div 4096 + j) \<and> views (sample_st free_pool) [[] \<mapsto> 4096] (unat (0x100000800 :: u64) div 4096 + j) = None"
    if "j < area_pages 0x80000800 0x1000" for j
    using sample_range [of j] that by (simp only: sample_area sample_unmapped)
  from mmu_map_unmap [OF mmu_sample_ok(1), of "0x1000" "0x80000800" "0x100000800" 0, OF _ _ _ _ this] show ?thesis
    by (auto simp: sample_area sample_room)
qed

text \<open>A state with one mapping, to unmap.\<close>

lemma sample_mapped:
  "\<exists>st1 tab1. rt_hw_mmu_map sample_mi 0x100000800 0x80000800 0x1000 0 (sample_st free_pool) = Some (0x100000800, st1) \<and> mmu_ok sample_mi st1 tab1 {} \<and>
    (\<forall>j < 2. views st1 tab1 (1048576 + j) \<noteq> None)"
proof -
  have m: "managed sample_mi (unat (0x100000800 :: u64) div 4096 + j)" if "j < area_pages 0x80000800 0x1000" for j
    using sample_range [of j] that by (simp only: sample_area)
  from rt_map_chosen [OF mmu_sample_ok(1), of "0x1000" "0x80000800" "0x100000800" 0, OF _ _ _ m] obtain st1 tab1 where
    s: "rt_hw_mmu_map sample_mi 0x100000800 0x80000800 0x1000 0 (sample_st free_pool) = Some (0x100000800, st1)" "mmu_ok sample_mi st1 tab1 {}"
      "views st1 tab1 = (\<lambda>x. if 1048576 \<le> x \<and> x < 1048578 then Some (COMBINEPTE (page_va (unat (0x80000800 :: u64) div 4096 +
        (x - unat (0x100000800 :: u64) div 4096))) PAGE_DEFAULT_ATTR_LEAF) else views (sample_st free_pool) [[] \<mapsto> 4096] x)"
    by (auto simp: sample_area sample_unmapped sample_room)
  have "\<forall>j < 2. views st1 tab1 (1048576 + j) \<noteq> None" unfolding s(3) by simp
  with s(1,2) show ?thesis by blast
qed

theorem mmu_unmap_correct_witness:
  "\<exists>st1 st2. rt_hw_mmu_map sample_mi 0x100000800 0x80000800 0x1000 0 (sample_st free_pool) = Some (0x100000800, st1) \<and>
    rt_hw_mmu_unmap sample_mi 0x100000800 0x1000 st1 = Some st2 \<and> rt_hw_mmu_v2p sample_mi 0x100001234 st2 = Some 0"
proof -
  from sample_mapped obtain st1 tab1 where
    s: "rt_hw_mmu_map sample_mi 0x100000800 0x80000800 0x1000 0 (sample_st free_pool) = Some (0x100000800, st1)" "mmu_ok sample_mi st1 tab1 {}"
      "\<And>j. j < 2 \<Longrightarrow> views st1 tab1 (1048576 + j) \<noteq> None" by blast
  have a: "area_pages 0x100000800 0x1000 = 2" by (simp add: area_pages_def)
  have "managed sample_mi (unat (0x100000800 :: u64) div 4096 + j) \<and> views st1 tab1 (unat (0x100000800 :: u64) div 4096 + j) \<noteq> None"
    if "j < area_pages 0x100000800 0x1000" for j
    using sample_range [of j] s(3) [of j] that by (simp only: a sample_area not_False_eq_True)
  from mmu_unmap_correct [OF s(2), of "0x1000" "0x100000800", OF _ _ this] obtain st2 where
    u: "rt_hw_mmu_unmap sample_mi 0x100000800 0x1000 st1 = Some st2"
      "\<And>w. managed sample_mi (unat w div 4096) \<Longrightarrow> rt_hw_mmu_v2p sample_mi w st2 =
        (if unat (0x100000800 :: u64) div 4096 \<le> unat w div 4096 \<and> unat w div 4096 < unat (0x100000800 :: u64) div 4096 + area_pages 0x100000800 0x1000
         then Some 0 else rt_hw_mmu_v2p sample_mi w st1)" by auto
  have "managed sample_mi (unat (0x100001234 :: u64) div 4096)" by (simp add: sample_managed)
  from u(2) [OF this] s(1) u(1) show ?thesis by (auto simp: a)
qed

theorem mmu_map_anywhere_witness:
  "\<exists>va st'. rt_hw_mmu_map sample_mi 0 0x80000800 0x1000 0 (sample_st free_pool) = Some (va, st')"
  using mmu_map_anywhere [OF mmu_sample_ok(1), of "0x1000" "0x80000800" 0] by (auto simp: sample_area sample_room sample_mi_def)

theorem find_vaddr_undercounts_witness:
  "find_vaddr (sample_mi\<lparr>vend := 4\<rparr>) 513 (sample_st free_pool) = Some 0"
proof -
  have "mmu_ok (sample_mi\<lparr>vend := 4\<rparr>) (sample_st free_pool) [[] \<mapsto> 4096] {}"
    using mmu_empty [of "sample_mi\<lparr>vend := 4\<rparr>" "{}" "sample_st free_pool"] pool_holds
    by (simp add: sample_mi_def sample_st_def page_pool_def free_pool_def)
  from find_vaddr_undercounts [OF this, of 513] show ?thesis by (simp add: sample_mi_def)
qed

theorem mmu_map_auto_correct_witness:
  "\<exists>st' b. rt_hw_mmu_map_auto sample_mi 0x100000000 0x1000 0 (sample_st free_pool) = Some (0x100000000, st') \<and>
    rt_hw_mmu_v2p sample_mi 0x100000234 st' = Some (word_of_nat (b + 0x234))"
proof -
  have n: "(1 :: nat) = (unat (0x100000000 :: u64) mod 4096 + unat (0x1000 :: u64) + 4095) div 4096" by simp
  have "managed sample_mi (unat (0x100000000 :: u64) div 4096 + j)" if "j < 1" for j using that by (simp add: sample_managed)
  from mmu_map_auto_correct [OF mmu_sample_ok(1) _ _ _ n this, of 0]
  obtain st' bs where s: "rt_hw_mmu_map_auto sample_mi 0x100000000 0x1000 0 (sample_st free_pool) = Some (0x100000000, st')"
    "\<And>w. managed sample_mi (unat w div 4096) \<Longrightarrow> rt_hw_mmu_v2p sample_mi w st' =
        (if unat (0x100000000 :: u64) div 4096 \<le> unat w div 4096 \<and> unat w div 4096 < unat (0x100000000 :: u64) div 4096 + 1
         then Some (word_of_nat (bs ! (unat w div 4096 - unat (0x100000000 :: u64) div 4096) + unat w mod 4096))
         else rt_hw_mmu_v2p sample_mi w (sample_st free_pool))"
    by (auto simp: sample_unmapped sample_room)
  have "managed sample_mi (unat (0x100000234 :: u64) div 4096)" by (simp add: sample_managed)
  from s(2) [OF this] have "rt_hw_mmu_v2p sample_mi 0x100000234 st' = Some (word_of_nat (bs ! 0 + 0x234))" by simp
  with s(1) show ?thesis by blast
qed

theorem map_oom_halts_witness:
  "rt_hw_mmu_map sample_mi 0x100000800 0x80000800 0x1000 0 (sample_st no_pool) = None"
proof -
  have f: "List.find (\<lambda>level. page_list no_pool level \<noteq> None) xs = None" for xs by (simp add: no_pool_def find_None_iff)
  have "rt_pages_alloc 1 (mm_pages (sample_st no_pool)) = Some (0, mm_pages (sample_st no_pool))"
    using f by (simp add: rt_pages_alloc_def pages_alloc_def sample_st_def Let_def page_to_addr_def) (simp add: no_pool_def)
  moreover have "managed sample_mi (unat (0x100000800 :: u64) div 4096 + j) \<and> views (sample_st no_pool) [[] \<mapsto> 4096] (unat (0x100000800 :: u64) div 4096 + j) = None"
    if "j < area_pages 0x80000800 0x1000" for j
    using sample_range [of j] that by (simp only: sample_area sample_unmapped)
  ultimately show ?thesis using map_oom_halts [OF mmu_sample_ok(2), of "0x1000" "0x80000800" "0x100000800" 0] by (simp add: sample_area)
qed

theorem mmu_map_init_correct_witness:
  "\<exists>mi'. rt_hw_mmu_map_init (Some sample_mi) 0x100000000 0x100000000 0x1000 0 (sample_st free_pool) = (0, Some mi') \<and>
    rt_hw_mmu_v2p mi' 0x100001234 (sample_st free_pool) = Some 0"
proof -
  from mmu_map_init_correct [of "0x100000000" "0x100000000" "0x1000" "{}" "sample_st free_pool" sample_mi]
  obtain mi' where m: "rt_hw_mmu_map_init (Some sample_mi) 0x100000000 0x100000000 0x1000 0 (sample_st free_pool) = (0, Some mi')"
    "\<And>x. managed mi' x \<longleftrightarrow> 4 \<le> x div 2 ^ 18 \<and> x div 2 ^ 18 \<le> 7"
    "\<And>w. managed mi' (unat w div 4096) \<Longrightarrow> rt_hw_mmu_v2p mi' w (sample_st free_pool) = Some 0"
    using pool_holds(1) by (auto simp: sample_st_def page_pool_def free_pool_def)
  have "managed mi' (unat (0x100001234 :: u64) div 4096)" unfolding m(2) by simp
  from m(3) [OF this] m(1) show ?thesis by blast
qed

end

