(* ===== verification/Avl.thy ===== *)
theory Avl
  imports Prelude "HOL-Library.Tree"
begin

text \<open>
  The balanced search trees of \<^verbatim>\<open>components/lwp/lwp_avl.c\<close>, in which a process keeps its memory areas. The nodes are linked by
  pointers and carry their height. An operation walks down from the root, keeps the places it passed (the pointers to the pointers) on a
  stack of 32 entries, and goes back along that stack to restore the balance.
\<close>

section \<open>Nodes and places\<close>

text \<open>A node is named by a number. The tree pointer \<open>*ptree\<close> is part of the state.\<close>

record lwp_avl_struct =
  avl_root :: "nat option"
  avl_left :: "nat \<Rightarrow> nat option"
  avl_right :: "nat \<Rightarrow> nat option"
  avl_height :: "nat \<Rightarrow> int"
  avl_key :: "nat \<Rightarrow> u64"

abbreviation avl_maxheight :: nat where "avl_maxheight \<equiv> 32"

definition heightof :: "lwp_avl_struct \<Rightarrow> nat option \<Rightarrow> int" where
  "heightof h tree = (case tree of None \<Rightarrow> 0 | Some n \<Rightarrow> avl_height h n)"

datatype place = Tree_ptr | Left_ptr nat | Right_ptr nat

fun deref :: "place \<Rightarrow> lwp_avl_struct \<Rightarrow> nat option" where
  "deref Tree_ptr h = avl_root h"
| "deref (Left_ptr n) h = avl_left h n"
| "deref (Right_ptr n) h = avl_right h n"

definition set_left :: "nat \<Rightarrow> nat option \<Rightarrow> lwp_avl_struct \<Rightarrow> lwp_avl_struct" where
  "set_left n p h = h\<lparr>avl_left := (avl_left h)(n := p)\<rparr>"

definition set_right :: "nat \<Rightarrow> nat option \<Rightarrow> lwp_avl_struct \<Rightarrow> lwp_avl_struct" where
  "set_right n p h = h\<lparr>avl_right := (avl_right h)(n := p)\<rparr>"

definition set_height :: "nat \<Rightarrow> int \<Rightarrow> lwp_avl_struct \<Rightarrow> lwp_avl_struct" where
  "set_height n x h = h\<lparr>avl_height := (avl_height h)(n := x)\<rparr>"

fun assign :: "place \<Rightarrow> nat option \<Rightarrow> lwp_avl_struct \<Rightarrow> lwp_avl_struct" where
  "assign Tree_ptr p h = h\<lparr>avl_root := p\<rparr>"
| "assign (Left_ptr n) p h = set_left n p h"
| "assign (Right_ptr n) p h = set_right n p h"

section \<open>Restoring the balance\<close>

text \<open>One round of \<open>lwp_avl_rebalance\<close>; the flag says that the loop is left. The two rotations to the right, the two to the left, and
  the new height of a node in balance.\<close>

definition rotate_right :: "place \<Rightarrow> nat \<Rightarrow> nat \<Rightarrow> int \<Rightarrow> lwp_avl_struct \<Rightarrow> lwp_avl_struct option" where
  "rotate_right nodeplace node nodeleft heightleft h =
    (let nodeleftleft = avl_left h nodeleft; nodeleftright = avl_right h nodeleft; heightleftright = heightof h nodeleftright in
     if heightof h nodeleftleft \<ge> heightleftright then
       (let h = set_left node nodeleftright h;
            h = set_right nodeleft (Some node) h;
            h = set_height node (1 + heightleftright) h;
            h = set_height nodeleft (1 + (1 + heightleftright)) h
        in Some (assign nodeplace (Some nodeleft) h))
     else do {
       nodeleftright \<leftarrow> nodeleftright;
       let h = set_right nodeleft (avl_left h nodeleftright) h;
       let h = set_left node (avl_right h nodeleftright) h;
       let h = set_left nodeleftright (Some nodeleft) h;
       let h = set_right nodeleftright (Some node) h;
       let h = set_height node heightleftright h;
       let h = set_height nodeleft heightleftright h;
       let h = set_height nodeleftright heightleft h;
       Some (assign nodeplace (Some nodeleftright) h)
     })"

definition rotate_left :: "place \<Rightarrow> nat \<Rightarrow> nat \<Rightarrow> int \<Rightarrow> lwp_avl_struct \<Rightarrow> lwp_avl_struct option" where
  "rotate_left nodeplace node noderight heightright h =
    (let noderightright = avl_right h noderight; noderightleft = avl_left h noderight; heightrightleft = heightof h noderightleft in
     if heightof h noderightright \<ge> heightrightleft then
       (let h = set_right node noderightleft h;
            h = set_left noderight (Some node) h;
            h = set_height node (1 + heightrightleft) h;
            h = set_height noderight (1 + (1 + heightrightleft)) h
        in Some (assign nodeplace (Some noderight) h))
     else do {
       noderightleft \<leftarrow> noderightleft;
       let h = set_left noderight (avl_right h noderightleft) h;
       let h = set_right node (avl_left h noderightleft) h;
       let h = set_right noderightleft (Some noderight) h;
       let h = set_left noderightleft (Some node) h;
       let h = set_height node heightrightleft h;
       let h = set_height noderight heightrightleft h;
       let h = set_height noderightleft heightright h;
       Some (assign nodeplace (Some noderightleft) h)
     })"

definition rebalance_at :: "place \<Rightarrow> lwp_avl_struct \<Rightarrow> (bool \<times> lwp_avl_struct) option" where
  "rebalance_at nodeplace h = do {
    node \<leftarrow> deref nodeplace h;
    let nodeleft = avl_left h node;
    let noderight = avl_right h node;
    let heightleft = heightof h nodeleft;
    let heightright = heightof h noderight;
    if heightright + 1 < heightleft then do {
      nodeleft \<leftarrow> nodeleft;
      h \<leftarrow> rotate_right nodeplace node nodeleft heightleft h;
      Some (False, h)
    } else if heightleft + 1 < heightright then do {
      noderight \<leftarrow> noderight;
      h \<leftarrow> rotate_left nodeplace node noderight heightright h;
      Some (False, h)
    } else
      (let height' = (if heightleft < heightright then heightright else heightleft) + 1 in
       if height' = avl_height h node then Some (True, h) else Some (False, set_height node height' h))
  }"

text \<open>The stack is a list of places, the last one pushed first.\<close>

fun lwp_avl_rebalance :: "place list \<Rightarrow> lwp_avl_struct \<Rightarrow> lwp_avl_struct option" where
  "lwp_avl_rebalance [] h = Some h"
| "lwp_avl_rebalance (nodeplace # stack) h = do {
    (stop, h) \<leftarrow> rebalance_at nodeplace h;
    if stop then Some h else lwp_avl_rebalance stack h
  }"

section \<open>Insertion and removal\<close>

text \<open>A push onto the full stack would write behind it.\<close>

definition push :: "place \<Rightarrow> place list \<Rightarrow> place list option" where
  "push pl stack = (if length stack < avl_maxheight then Some (pl # stack) else None)"

partial_function (option) insert_walk :: "u64 \<Rightarrow> place \<Rightarrow> place list \<Rightarrow> lwp_avl_struct \<Rightarrow> (place \<times> place list) option" where
  "insert_walk key nodeplace stack h =
    (case deref nodeplace h of
       None \<Rightarrow> Some (nodeplace, stack)
     | Some node \<Rightarrow> Option.bind (push nodeplace stack) (\<lambda>stack.
         insert_walk key (if key < avl_key h node then Left_ptr node else Right_ptr node) stack h))"

definition lwp_avl_insert :: "nat \<Rightarrow> lwp_avl_struct \<Rightarrow> lwp_avl_struct option" where
  "lwp_avl_insert new_node h = do {
    (nodeplace, stack) \<leftarrow> insert_walk (avl_key h new_node) Tree_ptr [] h;
    let h = set_left new_node None h;
    let h = set_right new_node None h;
    let h = set_height new_node 1 h;
    let h = assign nodeplace (Some new_node) h;
    lwp_avl_rebalance stack h
  }"

text \<open>The first loop of \<open>lwp_avl_remove\<close>: the places down to a node with the key, or nothing if there is none.\<close>

partial_function (option) remove_walk :: "u64 \<Rightarrow> place \<Rightarrow> place list \<Rightarrow> lwp_avl_struct \<Rightarrow> (place \<times> place list) option option" where
  "remove_walk key nodeplace stack h =
    (case deref nodeplace h of
       None \<Rightarrow> Some None
     | Some node \<Rightarrow> Option.bind (push nodeplace stack) (\<lambda>stack.
         if key = avl_key h node then Some (Some (nodeplace, stack))
         else remove_walk key (if key < avl_key h node then Left_ptr node else Right_ptr node) stack h))"

text \<open>The second loop: the last node of the left subtree.\<close>

partial_function (option) last_walk :: "place \<Rightarrow> place list \<Rightarrow> lwp_avl_struct \<Rightarrow> (place \<times> nat \<times> place list) option" where
  "last_walk nodeplace stack h =
    Option.bind (deref nodeplace h) (\<lambda>node.
      if avl_right h node = None then Some (nodeplace, node, stack)
      else Option.bind (push nodeplace stack) (\<lambda>stack. last_walk (Right_ptr node) stack h))"

text \<open>Writing slot \<open>i\<close> of the stack array, which may be the one behind the last that is in use.\<close>

definition set_slot :: "nat \<Rightarrow> place \<Rightarrow> place list \<Rightarrow> place list option" where
  "set_slot i pl stack = (if i < avl_maxheight then Some (rev ((rev stack)[i := pl])) else None)"

definition lwp_avl_remove :: "nat \<Rightarrow> lwp_avl_struct \<Rightarrow> lwp_avl_struct option" where
  "lwp_avl_remove node_to_delete h = do {
    found \<leftarrow> remove_walk (avl_key h node_to_delete) Tree_ptr [] h;
    case found of
      None \<Rightarrow> Some h
    | Some (nodeplace_to_delete, stack) \<Rightarrow>
        if avl_left h node_to_delete = None then
          lwp_avl_rebalance (tl stack) (assign nodeplace_to_delete (avl_right h node_to_delete) h)
        else do {
          (nodeplace, node, stack') \<leftarrow> last_walk (Left_ptr node_to_delete) stack h;
          let h = assign nodeplace (avl_left h node) h;
          let h = set_left node (avl_left h node_to_delete) h;
          let h = set_right node (avl_right h node_to_delete) h;
          let h = set_height node (avl_height h node_to_delete) h;
          let h = assign nodeplace_to_delete (Some node) h;
          stack' \<leftarrow> set_slot (length stack) (Left_ptr node) stack';
          lwp_avl_rebalance stack' h
        }
  }"

section \<open>Lookup and traversal\<close>

partial_function (option) lwp_avl_find :: "u64 \<Rightarrow> nat option \<Rightarrow> lwp_avl_struct \<Rightarrow> nat option option" where
  "lwp_avl_find key ptree h =
    (case ptree of
       None \<Rightarrow> Some None
     | Some node \<Rightarrow>
         if key = avl_key h node then Some (Some node)
         else lwp_avl_find key (if key < avl_key h node then avl_left h node else avl_right h node) h)"

text \<open>The visiting function is the parameter \<open>f\<close>: its result, and what becomes of the state it works on.\<close>

partial_function (option) lwp_avl_traversal ::
    "nat option \<Rightarrow> (nat \<Rightarrow> 's \<Rightarrow> (int \<times> 's) option) \<Rightarrow> lwp_avl_struct \<Rightarrow> 's \<Rightarrow> (int \<times> 's) option" where
  "lwp_avl_traversal ptree f h s =
    (case ptree of
       None \<Rightarrow> Some (0, s)
     | Some node \<Rightarrow>
         Option.bind (if avl_left h node = None then Some (0, s) else lwp_avl_traversal (avl_left h node) f h s) (\<lambda>(ret, s).
           if ret \<noteq> 0 then Some (ret, s)
           else Option.bind (f node s) (\<lambda>(ret, s).
             if ret \<noteq> 0 then Some (ret, s)
             else if avl_right h node = None then Some (ret, s) else lwp_avl_traversal (avl_right h node) f h s)))"

partial_function (option) lwp_map_find_first :: "nat option \<Rightarrow> lwp_avl_struct \<Rightarrow> nat option option" where
  "lwp_map_find_first ptree h =
    (case ptree of
       None \<Rightarrow> Some None
     | Some node \<Rightarrow> if avl_left h node = None then Some (Some node) else lwp_map_find_first (avl_left h node) h)"

section \<open>Trees in memory\<close>

fun tree_at :: "lwp_avl_struct \<Rightarrow> nat option \<Rightarrow> nat tree \<Rightarrow> bool" where
  "tree_at h p Leaf \<longleftrightarrow> p = None"
| "tree_at h p (Node l n r) \<longleftrightarrow> p = Some n \<and> tree_at h (avl_left h n) l \<and> tree_at h (avl_right h n) r"

text \<open>Balance, with the right heights in the nodes.\<close>

fun bal :: "lwp_avl_struct \<Rightarrow> nat tree \<Rightarrow> bool" where
  "bal h Leaf \<longleftrightarrow> True"
| "bal h (Node l n r) \<longleftrightarrow> bal h l \<and> bal h r \<and> avl_height h n = int (height (Node l n r)) \<and>
    height l \<le> height r + 1 \<and> height r \<le> height l + 1"

text \<open>A tree with a hole: the frames from the hole up to the root, each with the side of the hole, the node and the other subtree.\<close>

type_synonym frames = "(bool \<times> nat \<times> nat tree) list"

fun plug :: "frames \<Rightarrow> nat tree \<Rightarrow> nat tree" where
  "plug [] t = t"
| "plug ((True, n, s) # c) t = plug c (Node t n s)"
| "plug ((False, n, s) # c) t = plug c (Node s n t)"

fun before :: "frames \<Rightarrow> nat list" where
  "before [] = []"
| "before ((True, n, s) # c) = before c"
| "before ((False, n, s) # c) = before c @ inorder s @ [n]"

fun behind :: "frames \<Rightarrow> nat list" where
  "behind [] = []"
| "behind ((True, n, s) # c) = n # inorder s @ behind c"
| "behind ((False, n, s) # c) = behind c"

fun place_of :: "frames \<Rightarrow> place" where
  "place_of [] = Tree_ptr"
| "place_of ((True, n, s) # c) = Left_ptr n"
| "place_of ((False, n, s) # c) = Right_ptr n"

fun stack_of :: "frames \<Rightarrow> place list" where
  "stack_of [] = []"
| "stack_of (f # c) = place_of c # stack_of c"

fun frames_at :: "lwp_avl_struct \<Rightarrow> frames \<Rightarrow> bool" where
  "frames_at h [] \<longleftrightarrow> True"
| "frames_at h ((d, n, s) # c) \<longleftrightarrow> deref (place_of c) h = Some n \<and>
    tree_at h (if d then avl_right h n else avl_left h n) s \<and> frames_at h c"

text \<open>The frames are in balance around a hole of height \<open>k\<close>.\<close>

fun frames_bal :: "lwp_avl_struct \<Rightarrow> frames \<Rightarrow> nat \<Rightarrow> bool" where
  "frames_bal h [] k \<longleftrightarrow> True"
| "frames_bal h ((d, n, s) # c) k \<longleftrightarrow> bal h s \<and> k \<le> height s + 1 \<and> height s \<le> k + 1 \<and>
    avl_height h n = int (Suc (max k (height s))) \<and> frames_bal h c (Suc (max k (height s)))"

lemma inorder_plug [simp]: "inorder (plug c t) = before c @ inorder t @ behind c"
  by (induction c t rule: plug.induct) simp_all

lemma length_stack_of [simp]: "length (stack_of c) = length c"
  by (induction c) simp_all

lemma tree_at_plug: "tree_at h (avl_root h) (plug c t) \<longleftrightarrow> tree_at h (deref (place_of c) h) t \<and> frames_at h c"
  by (induction c t rule: plug.induct) auto

lemma bal_plug: "bal h (plug c t) \<longleftrightarrow> bal h t \<and> frames_bal h c (height t)"
  by (induction c t rule: plug.induct) (auto simp: max.commute)

lemma heightof_root: "tree_at h p t \<Longrightarrow> bal h t \<Longrightarrow> heightof h p = int (height t)"
  by (cases t) (auto simp: heightof_def)

lemma tree_at_None [simp]: "tree_at h None t \<longleftrightarrow> t = Leaf"
  by (cases t) auto

text \<open>Changes at other nodes.\<close>

lemma tree_at_cong:
  "(\<And>n. n \<in> set_tree t \<Longrightarrow> avl_left h' n = avl_left h n \<and> avl_right h' n = avl_right h n) \<Longrightarrow> tree_at h' p t = tree_at h p t"
  by (induction t arbitrary: p) auto

lemma bal_cong: "(\<And>n. n \<in> set_tree t \<Longrightarrow> avl_height h' n = avl_height h n) \<Longrightarrow> bal h' t = bal h t"
  by (induction t) auto

text \<open>The change keeps what hangs on the frames; the pointer to the hole may change.\<close>

definition frames_nodes :: "frames \<Rightarrow> nat set" where
  "frames_nodes c = set (before c) \<union> set (behind c)"

lemma frames_nodes_simps [simp]:
  "frames_nodes [] = {}"
  "frames_nodes ((d, n, s) # c) = insert n (set_tree s \<union> frames_nodes c)"
  by (cases d; auto simp: frames_nodes_def)+

definition place_node :: "place \<Rightarrow> nat set" where
  "place_node pl = (case pl of Tree_ptr \<Rightarrow> {} | Left_ptr n \<Rightarrow> {n} | Right_ptr n \<Rightarrow> {n})"

lemma place_node_simps [simp]: "place_node Tree_ptr = {}" "place_node (Left_ptr n) = {n}" "place_node (Right_ptr n) = {n}"
  by (simp_all add: place_node_def)

text \<open>Everything outside the nodes \<open>N\<close> and the place is as before.\<close>

definition same_outside :: "nat set \<Rightarrow> place \<Rightarrow> lwp_avl_struct \<Rightarrow> lwp_avl_struct \<Rightarrow> bool" where
  "same_outside N pl h h' \<longleftrightarrow> avl_key h' = avl_key h \<and>
    (\<forall>n. n \<notin> N \<longrightarrow> avl_height h' n = avl_height h n) \<and>
    (\<forall>q. q \<noteq> pl \<and> place_node q \<inter> N = {} \<longrightarrow> deref q h' = deref q h)"

lemma same_outsideD:
  assumes "same_outside N pl h h'"
  shows "avl_key h' = avl_key h" "n \<notin> N \<Longrightarrow> avl_height h' n = avl_height h n"
    "Tree_ptr \<noteq> pl \<Longrightarrow> avl_root h' = avl_root h"
    "n \<notin> N \<Longrightarrow> Left_ptr n \<noteq> pl \<Longrightarrow> avl_left h' n = avl_left h n"
    "n \<notin> N \<Longrightarrow> Right_ptr n \<noteq> pl \<Longrightarrow> avl_right h' n = avl_right h n"
  using assms by (auto simp: same_outside_def dest: spec [of _ "Left_ptr n"] spec [of _ "Right_ptr n"] spec [of _ Tree_ptr])

lemma deref_same: "same_outside N pl h h' \<Longrightarrow> q \<noteq> pl \<Longrightarrow> place_node q \<inter> N = {} \<Longrightarrow> deref q h' = deref q h"
  by (simp add: same_outside_def)

lemma place_of_node: "place_node (place_of c) \<subseteq> frames_nodes c"
  by (cases c rule: place_of.cases) auto

lemma tree_at_same:
  assumes "same_outside N pl h h'" "set_tree t \<inter> N = {}" "set_tree t \<inter> place_node pl = {}"
  shows "tree_at h' p t = tree_at h p t" "bal h' t = bal h t"
proof -
  have "avl_left h' n = avl_left h n \<and> avl_right h' n = avl_right h n" "avl_height h' n = avl_height h n" if "n \<in> set_tree t" for n
    using same_outsideD [OF assms(1)] that assms(2,3) by (cases pl; auto)+
  then show "tree_at h' p t = tree_at h p t" "bal h' t = bal h t" using tree_at_cong [of t h' h p] bal_cong [of t h' h] by blast+
qed

text \<open>A place that no frame needs.\<close>

fun clear :: "place \<Rightarrow> frames \<Rightarrow> bool" where
  "clear pl [] \<longleftrightarrow> True"
| "clear pl ((d, n, s) # c) \<longleftrightarrow> pl \<noteq> place_of c \<and> pl \<noteq> (if d then Right_ptr n else Left_ptr n) \<and>
    set_tree s \<inter> place_node pl = {} \<and> clear pl c"

lemma clear_other: "place_node pl \<inter> frames_nodes c = {} \<Longrightarrow> place_node pl \<noteq> {} \<Longrightarrow> clear pl c"
proof (induction c)
  case (Cons f c)
  obtain d n s where f: "f = (d, n, s)" by (cases f)
  have "pl \<noteq> place_of c" using Cons.prems place_of_node [of c] f by auto
  then show ?case using Cons f by auto
qed simp

lemma distinct_frames:
  "distinct (before ((d, n, s) # c) @ behind ((d, n, s) # c)) \<longleftrightarrow>
    n \<notin> set_tree s \<and> n \<notin> frames_nodes c \<and> distinct (inorder s) \<and> set_tree s \<inter> frames_nodes c = {} \<and> distinct (before c @ behind c)"
  by (cases d) (auto simp: frames_nodes_def)

lemma clear_hole: "distinct (before c @ behind c) \<Longrightarrow> clear (place_of c) c"
proof (cases c)
  case (Cons f e)
  assume d: "distinct (before c @ behind c)"
  obtain b n s where f: "f = (b, n, s)" by (cases f)
  from d have n: "n \<notin> set_tree s" "n \<notin> frames_nodes e" unfolding Cons f distinct_frames by simp_all
  have p: "place_node (place_of c) = {n}" "place_of c = (if b then Left_ptr n else Right_ptr n)" by (cases b; simp add: Cons f)+
  have "place_of c \<noteq> place_of e" using p n place_of_node [of e] by auto
  with n p clear_other [of "place_of c" e] show ?thesis by (auto simp: Cons f)
qed simp

text \<open>The frames when only nodes below the hole and the pointer to the hole change.\<close>

lemma frames_clear:
  assumes "same_outside N pl h h'" "frames_nodes c \<inter> N = {}" "clear pl c"
  shows "frames_at h' c = frames_at h c" "frames_bal h' c k = frames_bal h c k"
proof -
  have "frames_at h' c = frames_at h c \<and> (\<forall>k. frames_bal h' c k = frames_bal h c k)"
    using assms(2,3)
  proof (induction c)
    case (Cons f c)
    obtain d n s where f: "f = (d, n, s)" by (cases f)
    have "deref (place_of c) h' = deref (place_of c) h"
      by (rule deref_same [OF assms(1)]) (use place_of_node [of c] Cons.prems in \<open>auto simp: f\<close>)
    moreover have N: "n \<notin> N" "set_tree s \<inter> N = {}" "frames_nodes c \<inter> N = {}" and pl: "set_tree s \<inter> place_node pl = {}" "clear pl c"
      using Cons.prems by (auto simp: f)
    moreover have "(if d then avl_right h' n else avl_left h' n) = (if d then avl_right h n else avl_left h n)"
      using Cons.prems N(1) same_outsideD(4,5) [OF assms(1), of n] by (auto simp: f split: if_splits)
    ultimately show ?case
      using Cons.IH same_outsideD(2) [OF assms(1)] tree_at_same [OF assms(1) N(2) pl(1)] by (simp add: f)
  qed simp
  then show "frames_at h' c = frames_at h c" "frames_bal h' c k = frames_bal h c k" by blast+
qed

lemmas frames_same = frames_clear [OF _ _ clear_hole]

section \<open>The rotations\<close>

lemmas set_defs = set_left_def set_right_def set_height_def

lemma same_outside_mono: "same_outside N pl h h' \<Longrightarrow> N \<subseteq> M \<Longrightarrow> same_outside M pl h h'"
  unfolding same_outside_def by blast

lemma same_outside_refl [simp]: "same_outside N pl h h"
  by (simp add: same_outside_def)

text \<open>One round does what it should at a node with the subtrees \<open>l\<close> and \<open>r\<close>.\<close>

definition rebalanced :: "place \<Rightarrow> nat tree \<Rightarrow> nat \<Rightarrow> nat tree \<Rightarrow> lwp_avl_struct \<Rightarrow> lwp_avl_struct \<Rightarrow> nat tree \<Rightarrow> bool" where
  "rebalanced pl l n r h h' t \<longleftrightarrow> tree_at h' (deref pl h') t \<and> bal h' t \<and> inorder t = inorder l @ n # inorder r \<and>
    same_outside (insert n (set_tree l \<union> set_tree r)) pl h h'"

text \<open>The node and its subtrees stand below the place.\<close>

definition below :: "place \<Rightarrow> nat tree \<Rightarrow> nat \<Rightarrow> nat tree \<Rightarrow> lwp_avl_struct \<Rightarrow> bool" where
  "below pl l n r h \<longleftrightarrow> tree_at h (avl_left h n) l \<and> tree_at h (avl_right h n) r \<and> bal h l \<and> bal h r \<and>
    distinct (inorder l @ n # inorder r) \<and> place_node pl \<inter> insert n (set_tree l \<union> set_tree r) = {}"

lemma rotate_right_ok:
  assumes b: "below pl l n r h" and hl: "height l = height r + 2"
  shows "\<exists>m h' t. avl_left h n = Some m \<and> rotate_right pl n m (int (height l)) h = Some h' \<and> rebalanced pl l n r h h' t \<and>
    (height t = height l \<or> height t = height l + 1)"
proof -
  obtain ll m lr where l: "l = Node ll m lr" using hl by (cases l) auto
  have at: "avl_left h n = Some m" "tree_at h (avl_left h m) ll" "tree_at h (avl_right h m) lr" "tree_at h (avl_right h n) r"
    and bals: "bal h ll" "bal h lr" "bal h r" "height ll \<le> height lr + 1" "height lr \<le> height ll + 1"
    using b by (simp_all add: below_def l)
  have pl: "place_node pl \<inter> insert n (set_tree l \<union> set_tree r) = {}" using b by (simp add: below_def)
  have d: "distinct (inorder l @ n # inorder r)" using b by (simp add: below_def)
  note hs = heightof_root [OF at(2) bals(1)] heightof_root [OF at(3) bals(2)]
  show ?thesis
  proof (cases "height ll \<ge> height lr")
    case True
    define h' where "h' = assign pl (Some m) (set_height m (1 + (1 + int (height lr))) (set_height n (1 + int (height lr))
      (set_right m (Some n) (set_left n (avl_right h m) h))))"
    have rot: "rotate_right pl n m (int (height l)) h = Some h'" using True hs by (simp add: rotate_right_def h'_def Let_def)
    have nm: "n \<noteq> m" and p: "pl \<noteq> Left_ptr n" "pl \<noteq> Right_ptr n" "pl \<noteq> Left_ptr m" "pl \<noteq> Right_ptr m"
      using d pl by (auto simp: l)
    have same: "same_outside {n, m} pl h h'"
      unfolding same_outside_def
    proof (intro conjI allI impI)
      fix q assume "q \<noteq> pl \<and> place_node q \<inter> {n, m} = {}"
      then show "deref q h' = deref q h" by (cases pl; cases q) (simp_all add: h'_def set_defs)
    qed (cases pl; simp add: h'_def set_defs)+
    have disj: "set_tree s \<inter> {n, m} = {}" "set_tree s \<inter> place_node pl = {}" if "s \<in> {ll, lr, r}" for s
      using that pl d by (auto simp: l)
    have keep: "tree_at h' x s = tree_at h x s" "bal h' s = bal h s" if "s \<in> {ll, lr, r}" for x s
      using tree_at_same [OF same disj [OF that]] by blast+
    have f: "deref pl h' = Some m" "avl_left h' n = avl_right h m" "avl_right h' n = avl_right h n" "avl_left h' m = avl_left h m"
      "avl_right h' m = Some n" "avl_height h' n = 1 + int (height lr)" "avl_height h' m = 2 + int (height lr)"
      using nm p by (cases pl; simp add: h'_def set_defs)+
    have "rebalanced pl l n r h h' (Node ll m (Node lr n r))"
      using at bals True hl nm same_outside_mono [OF same, of "insert n (set_tree l \<union> set_tree r)"]
      by (auto simp: rebalanced_def f keep l max_def)
    moreover have "height (Node ll m (Node lr n r)) = height l \<or> height (Node ll m (Node lr n r)) = height l + 1"
      using bals True hl by (auto simp: l max_def)
    ultimately show ?thesis using at(1) rot by blast
  next
    case False
    then obtain a q c where lr: "lr = Node a q c" by (cases lr) auto
    have atq: "avl_right h m = Some q" "tree_at h (avl_left h q) a" "tree_at h (avl_right h q) c"
      and balq: "bal h a" "bal h c" "height a \<le> height c + 1" "height c \<le> height a + 1"
      using at(3) bals(2) by (simp_all add: lr)
    define h' where "h' = assign pl (Some q) (set_height q (int (height l)) (set_height m (int (height lr)) (set_height n (int (height lr))
      (set_right q (Some n) (set_left q (Some m) (set_left n (avl_right h q) (set_right m (avl_left h q) h)))))))"
    have nm: "n \<noteq> m" "n \<noteq> q" "m \<noteq> q"
      and p: "pl \<noteq> Left_ptr n" "pl \<noteq> Right_ptr n" "pl \<noteq> Left_ptr m" "pl \<noteq> Right_ptr m" "pl \<noteq> Left_ptr q" "pl \<noteq> Right_ptr q"
      using d pl by (auto simp: l lr)
    have rot: "rotate_right pl n m (int (height l)) h = Some h'" using False hs nm by (simp add: rotate_right_def h'_def Let_def atq set_defs)
    have same: "same_outside {n, m, q} pl h h'"
      unfolding same_outside_def
    proof (intro conjI allI impI)
      fix x assume "x \<noteq> pl \<and> place_node x \<inter> {n, m, q} = {}"
      then show "deref x h' = deref x h" by (cases pl; cases x) (simp_all add: h'_def set_defs)
    qed (cases pl; simp add: h'_def set_defs)+
    have disj: "set_tree s \<inter> {n, m, q} = {}" "set_tree s \<inter> place_node pl = {}" if "s \<in> {ll, a, c, r}" for s
      using that pl d by (auto simp: l lr)
    have keep: "tree_at h' x s = tree_at h x s" "bal h' s = bal h s" if "s \<in> {ll, a, c, r}" for x s
      using tree_at_same [OF same disj [OF that]] by blast+
    have f: "deref pl h' = Some q" "avl_left h' n = avl_right h q" "avl_right h' n = avl_right h n" "avl_left h' m = avl_left h m"
      "avl_right h' m = avl_left h q" "avl_left h' q = Some m" "avl_right h' q = Some n"
      "avl_height h' n = int (height lr)" "avl_height h' m = int (height lr)" "avl_height h' q = int (height l)"
      using nm p by (cases pl; simp add: h'_def set_defs)+
    have "height lr = height ll + 1" "height ll = height r" using False bals(4,5) hl by (simp_all add: l max_def)
    then have hq: "int (height lr) = 1 + int (height r)" "height ll = height r" "height a \<le> height r" "height c \<le> height r"
      "height r \<le> height a + 1" "height r \<le> height c + 1" "height a = height r \<or> height c = height r"
      using balq(3,4) by (auto simp: lr max_def split: if_splits)
    have "rebalanced pl l n r h h' (Node (Node ll m a) q (Node c n r))"
      using at(2,4) bals(1,3) atq balq(1,2) hq hl nm same_outside_mono [OF same, of "insert n (set_tree l \<union> set_tree r)"]
      by (auto simp: rebalanced_def f keep l lr max_def)
    moreover have "height (Node (Node ll m a) q (Node c n r)) = height l"
      using hq hl by (auto simp: max_def)
    ultimately show ?thesis using at(1) rot by blast
  qed
qed

text \<open>The rotations to the left are those to the right in the mirror.\<close>

definition flip :: "lwp_avl_struct \<Rightarrow> lwp_avl_struct" where
  "flip h = h\<lparr>avl_left := avl_right h, avl_right := avl_left h\<rparr>"

fun flip_place :: "place \<Rightarrow> place" where
  "flip_place Tree_ptr = Tree_ptr"
| "flip_place (Left_ptr n) = Right_ptr n"
| "flip_place (Right_ptr n) = Left_ptr n"

lemma flip_simps [simp]:
  "avl_left (flip h) = avl_right h" "avl_right (flip h) = avl_left h" "avl_height (flip h) = avl_height h" "avl_key (flip h) = avl_key h"
  "avl_root (flip h) = avl_root h" "flip (flip h) = h" "heightof (flip h) p = heightof h p"
  "flip (set_left n p h) = set_right n p (flip h)" "flip (set_right n p h) = set_left n p (flip h)"
  "flip (set_height n x h) = set_height n x (flip h)" "flip_place (flip_place pl) = pl" "place_node (flip_place pl) = place_node pl"
  by (simp_all add: flip_def set_defs heightof_def split: option.splits) (cases pl; simp)+

lemma flip_deref [simp]: "deref (flip_place pl) (flip h) = deref pl h" "flip (assign pl p h) = assign (flip_place pl) p (flip h)"
  by (cases pl; simp add: flip_def set_defs)+

lemma flip_tree [simp]: "tree_at (flip h) p (mirror t) = tree_at h p t" "bal (flip h) (mirror t) = bal h t" "set_tree (mirror t) = set_tree t"
proof -
  show "tree_at (flip h) p (mirror t) = tree_at h p t" by (induction t arbitrary: p) auto
  show "bal (flip h) (mirror t) = bal h t" by (induction t) (auto simp: max.commute)
  show "set_tree (mirror t) = set_tree t" by (induction t) auto
qed

lemma rotate_flip: "rotate_left pl n m x h = map_option flip (rotate_right (flip_place pl) n m x (flip h))"
  by (cases "avl_left h m") (simp_all add: rotate_left_def rotate_right_def Let_def, simp add: flip_def set_defs)

lemma same_outside_flip: "same_outside N pl h h' \<Longrightarrow> same_outside N (flip_place pl) (flip h) (flip h')"
  unfolding same_outside_def
proof (elim conjE, intro conjI allI impI)
  fix q assume s: "\<forall>q. q \<noteq> pl \<and> place_node q \<inter> N = {} \<longrightarrow> deref q h' = deref q h" and q: "q \<noteq> flip_place pl \<and> place_node q \<inter> N = {}"
  have "deref (flip_place q) h' = deref (flip_place q) h" using s q by (metis flip_simps(11,12))
  then show "deref q (flip h') = deref q (flip h)" by (metis flip_simps(11) flip_deref(1))
qed simp_all

lemma below_flip: "below pl l n r h \<Longrightarrow> below (flip_place pl) (mirror r) n (mirror l) (flip h)"
  by (auto simp: below_def inorder_mirror)

lemma rebalanced_flip:
  assumes "rebalanced pl l n r h h' t"
  shows "rebalanced (flip_place pl) (mirror r) n (mirror l) (flip h) (flip h') (mirror t)"
  using assms same_outside_flip [of _ pl h h'] by (auto simp: rebalanced_def inorder_mirror Un_commute)

lemma rotate_left_ok:
  assumes b: "below pl l n r h" and hr: "height r = height l + 2"
  shows "\<exists>m h' t. avl_right h n = Some m \<and> rotate_left pl n m (int (height r)) h = Some h' \<and> rebalanced pl l n r h h' t \<and>
    (height t = height r \<or> height t = height r + 1)"
proof -
  from rotate_right_ok [OF below_flip [OF b]] hr obtain m h' t where
    r: "avl_right h n = Some m" "rotate_right (flip_place pl) n m (int (height r)) (flip h) = Some h'"
    "rebalanced (flip_place pl) (mirror r) n (mirror l) (flip h) h' t" "height t = height r \<or> height t = height r + 1" by auto
  have "rebalanced pl l n r h (flip h') (mirror t)" using rebalanced_flip [OF r(3)] by simp
  with r show ?thesis by (auto simp: rotate_flip)
qed

lemma rebalance_at_ok:
  assumes b: "below pl l n r h" and n: "deref pl h = Some n" and d: "height l \<le> height r + 2" "height r \<le> height l + 2"
    and k: "avl_height h n = int k" "k \<le> Suc (Suc (max (height l) (height r)))" "max (height l) (height r) \<le> k"
      "height l = height r + 2 \<or> height r = height l + 2 \<longrightarrow> k \<le> Suc (max (height l) (height r))"
  shows "(rebalance_at pl h = Some (True, h) \<and> bal h (Node l n r) \<and> height (Node l n r) = k) \<or>
    (\<exists>h' t. rebalance_at pl h = Some (False, h') \<and> rebalanced pl l n r h h' t \<and> height t \<le> k + 1 \<and> k \<le> height t + 1)"
proof -
  have at: "tree_at h (avl_left h n) l" "tree_at h (avl_right h n) r" "bal h l" "bal h r" using b by (simp_all add: below_def)
  note hs = heightof_root [OF at(1,3)] heightof_root [OF at(2,4)]
  consider "height l = height r + 2" | "height r = height l + 2" | "height l \<le> height r + 1" "height r \<le> height l + 1" using d by linarith
  then show ?thesis
  proof cases
    case 1
    from rotate_right_ok [OF b 1] obtain m h' t where "avl_left h n = Some m" "rotate_right pl n m (int (height l)) h = Some h'"
      "rebalanced pl l n r h h' t" "height t = height l \<or> height t = height l + 1" by blast
    then show ?thesis using 1 n hs k by (auto simp: rebalance_at_def Let_def)
  next
    case 2
    from rotate_left_ok [OF b 2] obtain m h' t where "avl_right h n = Some m" "rotate_left pl n m (int (height r)) h = Some h'"
      "rebalanced pl l n r h h' t" "height t = height r \<or> height t = height r + 1" by blast
    then show ?thesis using 2 n hs k by (auto simp: rebalance_at_def Let_def)
  next
    case 3
    define k' where "k' = Suc (max (height l) (height r))"
    have r: "rebalance_at pl h = (if k' = k then Some (True, h) else Some (False, set_height n (int k') h))"
      using 3 n hs k(1) by (auto simp: rebalance_at_def Let_def k'_def max_def ac_simps)
    show ?thesis
    proof (cases "k' = k")
      case True
      then show ?thesis using r at 3 k by (simp add: k'_def)
    next
      case False
      define h' where "h' = set_height n (int k') h"
      have same: "same_outside {n} pl h h'" unfolding same_outside_def
      proof (intro conjI allI impI)
        fix q show "deref q h' = deref q h" by (cases q) (simp_all add: h'_def set_defs)
      qed (simp_all add: h'_def set_defs)
      have disj: "set_tree s \<inter> {n} = {}" "set_tree s \<inter> place_node pl = {}" if "s \<in> {l, r}" for s
        using that b by (auto simp: below_def)
      have keep: "tree_at h' x s = tree_at h x s" "bal h' s = bal h s" if "s \<in> {l, r}" for x s
        using tree_at_same [OF same disj [OF that]] by blast+
      have "deref pl h' = Some n" using n by (cases pl) (simp_all add: h'_def set_defs)
      then have "rebalanced pl l n r h h' (Node l n r)"
        using at 3 same_outside_mono [OF same, of "insert n (set_tree l \<union> set_tree r)"]
        by (simp add: rebalanced_def keep) (simp add: h'_def set_defs k'_def)
      with False r k show ?thesis by (auto simp: h'_def k'_def)
    qed
  qed
qed

lemma rebalance_ok:
  assumes "tree_at h (deref (place_of c) h) t" "frames_at h c" "distinct (before c @ inorder t @ behind c)" "bal h t"
    "frames_bal h c k" "height t \<le> k + 1" "k \<le> height t + 1"
  shows "\<exists>h' t'. lwp_avl_rebalance (stack_of c) h = Some h' \<and> tree_at h' (avl_root h') t' \<and> bal h' t' \<and>
    inorder t' = before c @ inorder t @ behind c \<and> avl_key h' = avl_key h"
  using assms
proof (induction c arbitrary: h t k)
  case Nil
  then show ?case by auto
next
  case (Cons f c)
  obtain d n s where f: "f = (d, n, s)" by (cases f)
  define l r where lr: "l = (if d then t else s)" "r = (if d then s else t)"
  define K where "K = Suc (max k (height s))"
  have s: "deref (place_of c) h = Some n" "tree_at h (if d then avl_right h n else avl_left h n) s" "frames_at h c"
    "bal h s" "avl_height h n = int K" "k \<le> height s + 1" "height s \<le> k + 1" "frames_bal h c K"
    using Cons.prems(2,5) by (simp_all add: f K_def)
  have d: "distinct (before c @ (inorder l @ n # inorder r) @ behind c)" using Cons.prems(3) by (cases d) (simp_all add: f lr)
  have ord: "before (f # c) @ inorder t @ behind (f # c) = before c @ (inorder l @ n # inorder r) @ behind c" by (cases d) (simp_all add: f lr)
  have pl: "frames_nodes c \<inter> insert n (set_tree l \<union> set_tree r) = {}" using d by (auto simp: frames_nodes_def)
  have b: "below (place_of c) l n r h"
    using s(2,4) Cons.prems(1,4) d pl place_of_node [of c] by (cases d) (auto simp: below_def f lr)
  have h: "height l \<le> height r + 2" "height r \<le> height l + 2" "K \<le> Suc (Suc (max (height l) (height r)))" "max (height l) (height r) \<le> K"
    "height l = height r + 2 \<or> height r = height l + 2 \<longrightarrow> K \<le> Suc (max (height l) (height r))"
    using s(6,7) Cons.prems(6,7) by (cases d; auto simp: lr K_def)+
  have dc: "distinct (before c @ behind c)" using d by auto
  from rebalance_at_ok [OF b s(1) h(1,2) s(5) h(3,4,5)] show ?case
  proof (elim disjE conjE exE)
    assume stop: "rebalance_at (place_of c) h = Some (True, h)" "bal h (Node l n r)" "height (Node l n r) = K"
    have "bal h (plug c (Node l n r))" using bal_plug [of h c "Node l n r"] stop(2,3) s(8) by simp
    moreover have "tree_at h (avl_root h) (plug c (Node l n r))" using b s(1,3) by (simp add: tree_at_plug below_def)
    ultimately show ?thesis using stop(1) ord by (auto simp: f)
  next
    fix h' t'
    assume r: "rebalance_at (place_of c) h = Some (False, h')" "rebalanced (place_of c) l n r h h' t'" "height t' \<le> K + 1" "K \<le> height t' + 1"
    have t': "tree_at h' (deref (place_of c) h') t'" "bal h' t'" "inorder t' = inorder l @ n # inorder r"
      and same: "same_outside (insert n (set_tree l \<union> set_tree r)) (place_of c) h h'"
      using r(2) by (simp_all add: rebalanced_def)
    have "frames_at h' c" "frames_bal h' c K" using frames_same [OF same pl dc] s(3,8) by simp_all
    moreover have "distinct (before c @ inorder t' @ behind c)" using d t'(3) by simp
    ultimately obtain h2 t2 where "lwp_avl_rebalance (stack_of c) h' = Some h2" "tree_at h2 (avl_root h2) t2" "bal h2 t2"
      "inorder t2 = before c @ inorder t' @ behind c" "avl_key h2 = avl_key h'"
      using Cons.IH [OF t'(1) _ _ t'(2) _ r(3,4)] by blast
    then show ?thesis using r(1) t'(3) ord same_outsideD(1) [OF same] by (auto simp: f)
  qed
qed

section \<open>Search trees\<close>

text \<open>The tree in memory: balanced, in the order of the keys, each key once.\<close>

definition ascending :: "lwp_avl_struct \<Rightarrow> nat list \<Rightarrow> bool" where
  "ascending h ns \<longleftrightarrow> sorted_wrt (<) (map (avl_key h) ns)"

definition avl_at :: "lwp_avl_struct \<Rightarrow> nat tree \<Rightarrow> bool" where
  "avl_at h t \<longleftrightarrow> tree_at h (avl_root h) t \<and> bal h t \<and> ascending h (inorder t)"

lemma ascending_append:
  "ascending h (xs @ ys) \<longleftrightarrow> ascending h xs \<and> ascending h ys \<and> (\<forall>x\<in>set xs. \<forall>y\<in>set ys. avl_key h x < avl_key h y)"
  by (simp add: ascending_def sorted_wrt_append)

lemma ascending_Cons: "ascending h (x # ys) \<longleftrightarrow> ascending h ys \<and> (\<forall>y\<in>set ys. avl_key h x < avl_key h y)"
  by (simp add: ascending_def) blast

lemma ascending_Nil [simp]: "ascending h []"
  by (simp add: ascending_def)

lemma ascending_distinct: "ascending h ns \<Longrightarrow> distinct ns"
  by (induction ns) (auto simp: ascending_Cons)

lemma ascending_key: "avl_key h' = avl_key h \<Longrightarrow> ascending h' ns = ascending h ns"
  by (simp add: ascending_def)

text \<open>The fewest nodes of a balanced tree of a height; height 33, too high for the stack, takes more than nine million.\<close>

fun fewest :: "nat \<Rightarrow> nat \<times> nat" where
  "fewest 0 = (0, 1)"
| "fewest (Suc n) = (case fewest n of (a, b) \<Rightarrow> (b, a + b + 1))"

lemma fewest_numeral: "fewest (numeral k) = (case fewest (pred_numeral k) of (a, b) \<Rightarrow> (b, a + b + 1))"
  "fewest (Suc 0) = (1, 2)"
  by (simp_all add: numeral_eq_Suc)

lemma fewest_snd: "snd (fewest n) = fst (fewest (Suc n))"
  by (cases "fewest n") simp

lemma fewest_step: "fst (fewest (Suc (Suc n))) = fst (fewest n) + fst (fewest (Suc n)) + 1"
  by (cases "fewest n") simp

lemma fewest_Suc: "fst (fewest n) \<le> fst (fewest (Suc n))"
proof (induction n rule: less_induct)
  case (less n)
  show ?case
  proof (cases n)
    case (Suc m)
    then show ?thesis by (simp only: fewest_step)
  qed simp
qed

lemma fewest_mono: "n \<le> m \<Longrightarrow> fst (fewest n) \<le> fst (fewest m)"
  by (rule lift_Suc_mono_le [of "\<lambda>n. fst (fewest n)"]) (rule fewest_Suc)

lemma fewest_size: "bal h t \<Longrightarrow> fst (fewest (height t)) \<le> size t"
proof (induction t)
  case (Node l n r)
  have hs: "height l \<le> height r + 1" "height r \<le> height l + 1" using Node.prems by simp_all
  obtain m where m: "max (height l) (height r) = Suc m \<or> (height l = 0 \<and> height r = 0)" by (cases "max (height l) (height r)") auto
  show ?case
  proof (cases "max (height l) (height r)")
    case (Suc m)
    have "(Suc m \<le> height l \<and> m \<le> height r) \<or> (Suc m \<le> height r \<and> m \<le> height l)" using Suc hs by (auto simp: max_def split: if_splits)
    then have "fst (fewest m) + fst (fewest (Suc m)) \<le> fst (fewest (height l)) + fst (fewest (height r))"
      using fewest_mono [of "Suc m" "height l"] fewest_mono [of m "height r"] fewest_mono [of "Suc m" "height r"] fewest_mono [of m "height l"]
      by linarith
    with Node Suc show ?thesis by (simp add: fewest_step del: fewest.simps)
  qed simp
qed simp

lemma avl_low:
  assumes "bal h t" "size t < 9000000"
  shows "height t \<le> avl_maxheight"
proof (rule ccontr)
  assume "\<not> height t \<le> avl_maxheight"
  then have "fst (fewest 33) \<le> size t" using fewest_mono [of 33 "height t"] fewest_size [OF assms(1)] by simp
  moreover have "fst (fewest 33) = 9227464" by (simp add: fewest_numeral del: fewest.simps(2))
  ultimately show False using assms(2) by simp
qed

section \<open>Walking down\<close>

lemma insert_walk_ok:
  "tree_at h (deref (place_of c) h) t \<Longrightarrow> length c + height t \<le> avl_maxheight \<Longrightarrow> ascending h (inorder t) \<Longrightarrow>
    key \<notin> avl_key h ` set_tree t \<Longrightarrow>
    \<exists>c'. insert_walk key (place_of c) (stack_of c) h = Some (place_of c', stack_of c') \<and> plug c' Leaf = plug c t \<and>
      (\<exists>xs ys. before c' = before c @ xs \<and> behind c' = ys @ behind c \<and> inorder t = xs @ ys \<and>
        (\<forall>x\<in>set xs. avl_key h x < key) \<and> (\<forall>y\<in>set ys. key < avl_key h y))"
proof (induction t arbitrary: c)
  case Leaf
  then show ?case by (subst insert_walk.simps) (auto intro!: exI [of _ c])
next
  case (Node l n r)
  have at: "deref (place_of c) h = Some n" "tree_at h (avl_left h n) l" "tree_at h (avl_right h n) r" using Node.prems(1) by simp_all
  have asc: "ascending h (inorder l)" "ascending h (inorder r)" "\<And>x. x \<in> set_tree l \<Longrightarrow> avl_key h x < avl_key h n"
    "\<And>y. y \<in> set_tree r \<Longrightarrow> avl_key h n < avl_key h y"
    using Node.prems(3) by (auto simp: ascending_append ascending_Cons)
  have push: "push (place_of c) (stack_of c) = Some (place_of c # stack_of c)" using Node.prems(2) by (simp add: push_def)
  have key: "key \<noteq> avl_key h n" using Node.prems(4) by auto
  show ?case
  proof (cases "key < avl_key h n")
    case True
    let ?c = "(True, n, r) # c"
    have walk: "insert_walk key (place_of c) (stack_of c) h = insert_walk key (place_of ?c) (stack_of ?c) h"
      using True at push by (subst insert_walk.simps) simp
    have "\<exists>c'. insert_walk key (place_of ?c) (stack_of ?c) h = Some (place_of c', stack_of c') \<and> plug c' Leaf = plug ?c l \<and>
      (\<exists>xs ys. before c' = before ?c @ xs \<and> behind c' = ys @ behind ?c \<and> inorder l = xs @ ys \<and>
        (\<forall>x\<in>set xs. avl_key h x < key) \<and> (\<forall>y\<in>set ys. key < avl_key h y))"
      by (rule Node.IH(1)) (use at asc Node.prems in auto)
    then obtain c' xs ys where c': "insert_walk key (place_of ?c) (stack_of ?c) h = Some (place_of c', stack_of c')" "plug c' Leaf = plug ?c l"
      "before c' = before ?c @ xs" "behind c' = ys @ behind ?c" "inorder l = xs @ ys"
      "\<forall>x\<in>set xs. avl_key h x < key" "\<forall>y\<in>set ys. key < avl_key h y" by blast
    have "\<forall>y\<in>set (ys @ n # inorder r). key < avl_key h y" using c'(7) True asc(4) by (auto intro: less_trans)
    with c' walk show ?thesis by (intro exI [of _ c'] conjI exI [of _ xs] exI [of _ "ys @ n # inorder r"]) auto
  next
    case False
    let ?c = "(False, n, l) # c"
    have walk: "insert_walk key (place_of c) (stack_of c) h = insert_walk key (place_of ?c) (stack_of ?c) h"
      using False at push by (subst insert_walk.simps) simp
    have "\<exists>c'. insert_walk key (place_of ?c) (stack_of ?c) h = Some (place_of c', stack_of c') \<and> plug c' Leaf = plug ?c r \<and>
      (\<exists>xs ys. before c' = before ?c @ xs \<and> behind c' = ys @ behind ?c \<and> inorder r = xs @ ys \<and>
        (\<forall>x\<in>set xs. avl_key h x < key) \<and> (\<forall>y\<in>set ys. key < avl_key h y))"
      by (rule Node.IH(2)) (use at asc Node.prems in auto)
    then obtain c' xs ys where c': "insert_walk key (place_of ?c) (stack_of ?c) h = Some (place_of c', stack_of c')" "plug c' Leaf = plug ?c r"
      "before c' = before ?c @ xs" "behind c' = ys @ behind ?c" "inorder r = xs @ ys"
      "\<forall>x\<in>set xs. avl_key h x < key" "\<forall>y\<in>set ys. key < avl_key h y" by blast
    have "avl_key h n < key" using False key by simp
    then have "\<forall>x\<in>set (inorder l @ n # xs). avl_key h x < key" using c'(6) asc(3) by (auto intro: less_trans)
    with c' walk show ?thesis by (intro exI [of _ c'] conjI exI [of _ "inorder l @ n # xs"] exI [of _ ys]) auto
  qed
qed

lemma remove_walk_ok:
  "tree_at h (deref (place_of c) h) t \<Longrightarrow> length c + height t \<le> avl_maxheight \<Longrightarrow> ascending h (inorder t) \<Longrightarrow>
    (if avl_key h m \<in> avl_key h ` set_tree t
     then \<exists>c' l n r. remove_walk (avl_key h m) (place_of c) (stack_of c) h = Some (Some (place_of c', place_of c' # stack_of c')) \<and>
       avl_key h n = avl_key h m \<and> plug c' (Node l n r) = plug c t \<and> length c' + height (Node l n r) \<le> avl_maxheight
     else remove_walk (avl_key h m) (place_of c) (stack_of c) h = Some None)"
proof (induction t arbitrary: c)
  case Leaf
  then show ?case by (subst remove_walk.simps) simp
next
  case (Node l n r)
  have at: "deref (place_of c) h = Some n" "tree_at h (avl_left h n) l" "tree_at h (avl_right h n) r" using Node.prems(1) by simp_all
  have asc: "ascending h (inorder l)" "ascending h (inorder r)" "\<And>x. x \<in> set_tree l \<Longrightarrow> avl_key h x < avl_key h n"
    "\<And>y. y \<in> set_tree r \<Longrightarrow> avl_key h n < avl_key h y"
    using Node.prems(3) by (auto simp: ascending_append ascending_Cons)
  have push: "push (place_of c) (stack_of c) = Some (place_of c # stack_of c)" using Node.prems(2) by (simp add: push_def)
  consider "avl_key h m = avl_key h n" | "avl_key h m < avl_key h n" | "avl_key h n < avl_key h m" by (rule linorder_cases [of "avl_key h m" "avl_key h n"])
  then show ?case
  proof cases
    case 1
    then have "remove_walk (avl_key h m) (place_of c) (stack_of c) h = Some (Some (place_of c, place_of c # stack_of c))"
      using at push by (subst remove_walk.simps) simp
    with 1 Node.prems(2) show ?thesis by auto
  next
    case 2
    let ?c = "(True, n, r) # c"
    have walk: "remove_walk (avl_key h m) (place_of c) (stack_of c) h = remove_walk (avl_key h m) (place_of ?c) (stack_of ?c) h"
      using 2 at push by (subst remove_walk.simps) auto
    have "avl_key h m \<in> avl_key h ` set_tree (Node l n r) \<longleftrightarrow> avl_key h m \<in> avl_key h ` set_tree l"
      using 2 asc(4) by (auto dest: less_asym less_trans)
    moreover have "tree_at h (deref (place_of ?c) h) l" "length ?c + height l \<le> avl_maxheight" using at Node.prems by simp_all
    moreover note Node.IH(1) [OF this asc(1)]
    ultimately show ?thesis unfolding walk by (simp only: plug.simps) 
  next
    case 3
    let ?c = "(False, n, l) # c"
    have walk: "remove_walk (avl_key h m) (place_of c) (stack_of c) h = remove_walk (avl_key h m) (place_of ?c) (stack_of ?c) h"
      using 3 at push by (subst remove_walk.simps) auto
    have "avl_key h m \<in> avl_key h ` set_tree (Node l n r) \<longleftrightarrow> avl_key h m \<in> avl_key h ` set_tree r"
      using 3 asc(3) by (auto dest: less_asym less_trans)
    moreover have "tree_at h (deref (place_of ?c) h) r" "length ?c + height r \<le> avl_maxheight" using at Node.prems by simp_all
    moreover note Node.IH(2) [OF this asc(2)]
    ultimately show ?thesis unfolding walk by (simp only: plug.simps)
  qed
qed

text \<open>Down the right side to the last node; the frames in between have the hole on the right.\<close>

lemma last_walk_ok:
  "tree_at h (deref (place_of c) h) t \<Longrightarrow> t \<noteq> Leaf \<Longrightarrow> length c + height t \<le> Suc avl_maxheight \<Longrightarrow>
    \<exists>d l n. last_walk (place_of c) (stack_of c) h = Some (place_of (d @ c), n, stack_of (d @ c)) \<and> plug d (Node l n Leaf) = t \<and>
      behind d = [] \<and> (\<forall>f\<in>set d. \<not> fst f)"
proof (induction t arbitrary: c)
  case (Node l n r)
  have at: "deref (place_of c) h = Some n" "tree_at h (avl_right h n) r" using Node.prems(1) by simp_all
  show ?case
  proof (cases "r = Leaf")
    case True
    then have "last_walk (place_of c) (stack_of c) h = Some (place_of c, n, stack_of c)" using at by (subst last_walk.simps) simp
    with True show ?thesis by (intro exI [of _ "[]"] exI [of _ l] exI [of _ n]) simp
  next
    case False
    then have r: "avl_right h n \<noteq> None" using at(2) by (cases r) auto
    let ?c = "(False, n, l) # c"
    have "push (place_of c) (stack_of c) = Some (place_of c # stack_of c)" using Node.prems(3) False by (cases r) (simp_all add: push_def)
    then have walk: "last_walk (place_of c) (stack_of c) h = last_walk (place_of ?c) (stack_of ?c) h"
      using r at by (subst last_walk.simps) auto
    have "length ?c + height r \<le> Suc avl_maxheight" using Node.prems(3) by simp
    moreover have "tree_at h (deref (place_of ?c) h) r" using at(2) by simp
    ultimately obtain d l' n' where
      d: "last_walk (place_of ?c) (stack_of ?c) h = Some (place_of (d @ ?c), n', stack_of (d @ ?c))" "plug d (Node l' n' Leaf) = r"
        "behind d = []" "\<forall>f\<in>set d. \<not> fst f"
      using Node.IH(2) [of ?c] False by blast
    have p: "plug (e @ [(False, n, l)]) u = Node l n (plug e u)" for e u by (induction e u rule: plug.induct) simp_all
    have q: "behind (e @ [(False, n, l)]) = behind e" for e by (induction e rule: behind.induct) simp_all
    show ?thesis using walk d by (intro exI [of _ "d @ [(False, n, l)]"] exI [of _ l'] exI [of _ n']) (auto simp: p q)
  qed
qed simp

section \<open>Insertion and removal keep the tree\<close>

lemma set_plug: "set_tree (plug c t) = frames_nodes c \<union> set_tree t"
  by (auto simp: frames_nodes_def simp flip: set_inorder)

lemma avl_insert_ok:
  assumes a: "avl_at h t" and n: "n \<notin> set_tree t" and key: "avl_key h n \<notin> avl_key h ` set_tree t" and sz: "size t < 9000000"
  shows "\<exists>h' t'. lwp_avl_insert n h = Some h' \<and> avl_at h' t' \<and> set_tree t' = insert n (set_tree t) \<and> avl_key h' = avl_key h"
proof -
  have t: "tree_at h (avl_root h) t" "bal h t" "ascending h (inorder t)" using a by (simp_all add: avl_at_def)
  have "tree_at h (deref (place_of []) h) t" "length [] + height t \<le> avl_maxheight" using t(1) avl_low [OF t(2) sz] by simp_all
  from insert_walk_ok [OF this t(3) key] obtain c where
    c: "insert_walk (avl_key h n) Tree_ptr [] h = Some (place_of c, stack_of c)" "plug c Leaf = t" "inorder t = before c @ behind c"
      "\<forall>x\<in>set (before c). avl_key h x < avl_key h n" "\<forall>y\<in>set (behind c). avl_key h n < avl_key h y"
    by auto
  define h1 where "h1 = assign (place_of c) (Some n) (set_height n 1 (set_right n None (set_left n None h)))"
  have fr: "frames_at h c" "frames_bal h c 0" using t(1,2) tree_at_plug [of h c Leaf] bal_plug [of h c Leaf] c(2) by simp_all
  have fn: "frames_nodes c = set_tree t" using set_plug [of c Leaf] c(2) by simp
  have dist: "distinct (before c @ behind c)" using ascending_distinct [OF t(3)] c(3) by simp
  have np: "place_of c \<noteq> Left_ptr n" "place_of c \<noteq> Right_ptr n" using place_of_node [of c] fn n by auto
  have same: "same_outside {n} (place_of c) h h1" unfolding same_outside_def
  proof (intro conjI allI impI)
    fix q assume "q \<noteq> place_of c \<and> place_node q \<inter> {n} = {}"
    then show "deref q h1 = deref q h" by (cases "place_of c"; cases q) (simp_all add: h1_def set_defs)
  qed (cases "place_of c"; simp add: h1_def set_defs)+
  have node: "deref (place_of c) h1 = Some n" "avl_left h1 n = None" "avl_right h1 n = None" "avl_height h1 n = 1"
    using np by (cases "place_of c"; simp add: h1_def set_defs)+
  have new: "tree_at h1 (deref (place_of c) h1) (Node Leaf n Leaf)" "bal h1 (Node Leaf n Leaf)" using node by simp_all
  have "frames_at h1 c" "frames_bal h1 c 0" using frames_same [OF same _ dist] fr fn n by simp_all
  moreover have "distinct (before c @ inorder (Node Leaf n Leaf) @ behind c)" using dist n fn by (auto simp: frames_nodes_def)
  ultimately obtain h2 t2 where r: "lwp_avl_rebalance (stack_of c) h1 = Some h2" "tree_at h2 (avl_root h2) t2" "bal h2 t2"
    "inorder t2 = before c @ [n] @ behind c" "avl_key h2 = avl_key h1"
    using rebalance_ok [OF new(1) _ _ new(2)] by fastforce
  have "ascending h (inorder t2)" using t(3) c(3,4,5) by (auto simp: r(4) ascending_append ascending_Cons intro: less_trans)
  then have "avl_at h2 t2" using r same_outsideD(1) [OF same] ascending_key [of h2 h] by (simp add: avl_at_def)
  moreover have "set_tree t2 = insert n (set_tree t)" using arg_cong [OF r(4), of set] arg_cong [OF c(3), of set] by auto
  moreover have "lwp_avl_insert n h = Some h2" using r(1) c(1) by (simp add: lwp_avl_insert_def Let_def h1_def)
  ultimately show ?thesis using r(5) same_outsideD(1) [OF same] by auto
qed

text \<open>Finishing a removal: the hole takes what is left of the tree below.\<close>

lemma remove_rebalance:
  assumes "tree_at h (deref (place_of c) h) t" "frames_at h c" "bal h t" "frames_bal h c k" "height t \<le> k + 1" "k \<le> height t + 1"
    "ascending h (before c @ inorder t @ behind c)"
  shows "\<exists>h' t'. lwp_avl_rebalance (stack_of c) h = Some h' \<and> avl_at h' t' \<and> set_tree t' = frames_nodes c \<union> set_tree t \<and>
    avl_key h' = avl_key h"
proof -
  from rebalance_ok [OF assms(1,2) ascending_distinct [OF assms(7)] assms(3-6)] obtain h' t' where
    r: "lwp_avl_rebalance (stack_of c) h = Some h'" "tree_at h' (avl_root h') t'" "bal h' t'"
      "inorder t' = before c @ inorder t @ behind c" "avl_key h' = avl_key h" by blast
  have "set_tree t' = frames_nodes c \<union> set_tree t" using arg_cong [OF r(4), of set] by (auto simp: frames_nodes_def)
  with r assms(7) ascending_key [OF r(5)] show ?thesis by (auto simp: avl_at_def)
qed

lemma ascending_drop: "ascending h (xs @ ys @ zs) \<Longrightarrow> ascending h (xs @ zs)"
  by (auto simp: ascending_append)

lemma stack_slot: "rev ((rev (stack_of (d @ (True, n, r) # c)))[Suc (length c) := Left_ptr m]) = stack_of (d @ (True, m, r) # c)"
proof (induction d)
  case (Cons f d)
  show ?case
  proof (cases d)
    case Nil
    then show ?thesis by (simp add: nth_append list_update_append)
  next
    case (Cons g e)
    have "place_of (d @ (True, n, r) # c) = place_of (d @ (True, m, r) # c)" using Cons by (cases g; cases "fst g") auto
    moreover have "Suc (length c) < length (rev (stack_of (d @ (True, n, r) # c)))" using Cons by simp
    ultimately show ?thesis using Cons.IH by (simp add: list_update_append1 del: length_rev length_stack_of)
  qed
qed (simp add: list_update_beyond)

lemma plug_append [simp]: "plug (d @ c) t = plug c (plug d t)"
  by (induction d t rule: plug.induct) auto

lemma frames_nodes_append [simp]: "frames_nodes (d @ c) = frames_nodes d \<union> frames_nodes c"
  by (induction d) auto

lemma ascending_cut: "ascending h (xs @ n # ys) \<Longrightarrow> ascending h (xs @ ys)"
  by (auto simp: ascending_append ascending_Cons)

text \<open>The frames around a hole far below, when a node in between is exchanged for one with the same height.\<close>

lemma frames_bal_cong: "(\<And>x. x \<in> frames_nodes c \<Longrightarrow> avl_height h' x = avl_height h x) \<Longrightarrow> frames_bal h' c k = frames_bal h c k"
proof (induction c arbitrary: k)
  case (Cons f c)
  obtain b n s where f: "f = (b, n, s)" by (cases f)
  have "bal h' s = bal h s" by (rule bal_cong) (use Cons.prems in \<open>auto simp: f\<close>)
  with Cons show ?case by (simp add: f)
qed simp

lemma frames_bal_exchange:
  assumes "\<And>x. x \<in> frames_nodes d \<union> set_tree r \<union> frames_nodes c \<Longrightarrow> avl_height h' x = avl_height h x" "avl_height h' m = avl_height h n"
  shows "frames_bal h' (d @ (b, m, r) # c) k = frames_bal h (d @ (b, n, r) # c) k"
  using assms
proof (induction d arbitrary: k)
  case Nil
  have "frames_bal h' c k = frames_bal h c k" for k by (rule frames_bal_cong) (use Nil.prems(1) in auto)
  moreover have "bal h' r = bal h r" by (rule bal_cong) (use Nil.prems(1) in auto)
  ultimately show ?case using Nil.prems(2) by simp
next
  case (Cons f d)
  obtain b n s where f: "f = (b, n, s)" by (cases f)
  have "bal h' s = bal h s" by (rule bal_cong) (use Cons.prems(1) in \<open>auto simp: f\<close>)
  with Cons show ?case by (simp add: f)
qed

text \<open>The heap of \<open>lwp_avl_remove\<close> in the second case: the last node \<open>m\<close> of the left subtree leaves the place \<open>q\<close> and stands for \<open>n\<close>.\<close>

definition exchanged :: "place \<Rightarrow> place \<Rightarrow> nat \<Rightarrow> nat \<Rightarrow> lwp_avl_struct \<Rightarrow> lwp_avl_struct" where
  "exchanged pl q n m h =
    (let h = assign q (avl_left h m) h;
         h = set_left m (avl_left h n) h;
         h = set_right m (avl_right h n) h;
         h = set_height m (avl_height h n) h
     in assign pl (Some m) h)"

lemma exchanged_fields:
  assumes "n \<noteq> m" "place_node pl \<inter> {n, m} = {}" "pl \<noteq> q" "m \<notin> place_node q" "q \<noteq> Right_ptr n" "q \<noteq> Tree_ptr"
  shows "deref pl (exchanged pl q n m h) = Some m" "avl_right (exchanged pl q n m h) m = avl_right h n"
    "avl_height (exchanged pl q n m h) = (avl_height h)(m := avl_height h n)" "avl_key (exchanged pl q n m h) = avl_key h"
    "deref q (exchanged pl q n m h) = avl_left h m"
    "avl_left (exchanged pl q n m h) m = (if q = Left_ptr n then avl_left h m else avl_left h n)"
    "x \<noteq> pl \<Longrightarrow> x \<noteq> q \<Longrightarrow> m \<notin> place_node x \<Longrightarrow> deref x (exchanged pl q n m h) = deref x h"
proof -
  show "deref pl (exchanged pl q n m h) = Some m" "avl_right (exchanged pl q n m h) m = avl_right h n"
    "avl_height (exchanged pl q n m h) = (avl_height h)(m := avl_height h n)" "avl_key (exchanged pl q n m h) = avl_key h"
    "deref q (exchanged pl q n m h) = avl_left h m"
    "avl_left (exchanged pl q n m h) m = (if q = Left_ptr n then avl_left h m else avl_left h n)"
    using assms by (cases pl; cases q; simp add: exchanged_def Let_def set_defs)+
  show "deref x (exchanged pl q n m h) = deref x h" if "x \<noteq> pl" "x \<noteq> q" "m \<notin> place_node x"
    using that assms by (cases pl; cases q; cases x) (simp_all add: exchanged_def Let_def set_defs)
qed

text \<open>The left subtree without its last node.\<close>

lemma exchanged_left:
  assumes l: "tree_at h (avl_left h n) (plug d (Node ll m Leaf))" and d: "behind d = []" "\<forall>f\<in>set d. \<not> fst f"
    and dist: "distinct (before d @ inorder ll @ [m])" and n: "n \<notin> frames_nodes d \<union> set_tree ll" "n \<noteq> m"
    and pl: "place_node pl \<inter> ({n, m} \<union> frames_nodes d \<union> set_tree ll) = {}"
    and q: "q = (if d = [] then Left_ptr n else place_of d)"
  shows "tree_at (exchanged pl q n m h) (avl_left (exchanged pl q n m h) m) (plug d ll)"
proof -
  define h' where "h' = exchanged pl q n m h"
  define g g' where "g = h\<lparr>avl_root := avl_left h n\<rparr>" and "g' = h'\<lparr>avl_root := avl_left h' m\<rparr>"
  have any: "tree_at (x\<lparr>avl_root := p\<rparr>) r u = tree_at x r u" for x p r u by (rule tree_at_cong) simp
  have dn: "d = [] \<or> (\<exists>p s e. d = (False, p, s) # e)" using d(2) by (cases d) auto
  have qq: "pl \<noteq> q" "m \<notin> place_node q" "q \<noteq> Right_ptr n" "q \<noteq> Tree_ptr"
    using dn q pl n dist place_of_node [of d] by (auto simp: frames_nodes_def d(1))
  note ef = exchanged_fields [where h = h, OF n(2) _ qq, folded h'_def]
  have pl2: "place_node pl \<inter> {n, m} = {}" using pl by auto
  have t: "tree_at g (deref (place_of d) g) (Node ll m Leaf)" "frames_at g d"
    using l tree_at_plug [of g d "Node ll m Leaf"] by (simp_all add: g_def any)
  have same: "same_outside ({n, m} \<union> place_node pl) (place_of d) g g'"
    unfolding same_outside_def
  proof (intro conjI allI impI)
    fix x assume x: "x \<noteq> place_of d \<and> place_node x \<inter> ({n, m} \<union> place_node pl) = {}"
    show "deref x g' = deref x g"
    proof (cases x)
      case Tree_ptr
      then have "d \<noteq> []" using x by auto
      then show ?thesis using Tree_ptr ef(6) [OF pl2] q dn by (auto simp: g_def g'_def)
    next
      case (Left_ptr i)
      then have "x \<noteq> pl" "x \<noteq> q" "m \<notin> place_node x" using x q by (auto split: if_splits)
      then show ?thesis using ef(7) [OF pl2, of x] Left_ptr by (simp add: g_def g'_def)
    next
      case (Right_ptr i)
      then have "x \<noteq> pl" "x \<noteq> q" "m \<notin> place_node x" using x q by (auto split: if_splits)
      then show ?thesis using ef(7) [OF pl2, of x] Right_ptr by (simp add: g_def g'_def)
    qed
  qed (simp_all add: g_def g'_def ef(3,4) [OF pl2])
  have fd: "frames_nodes d \<inter> ({n, m} \<union> place_node pl) = {}" using n pl dist by (auto simp: frames_nodes_def d(1))
  have "frames_at g' d" using frames_same(1) [OF same fd] t(2) dist by (simp add: d(1))
  moreover have "set_tree ll \<inter> ({n, m} \<union> place_node pl) = {}" using n pl dist by auto
  moreover have "set_tree ll \<inter> place_node (place_of d) = {}" using place_of_node [of d] dist by (auto simp: frames_nodes_def d(1))
  ultimately have "tree_at g' (avl_left h m) ll" using tree_at_same(1) [OF same] t(1) by (simp add: g_def)
  moreover have "deref (place_of d) g' = avl_left h m"
    using dn ef(5,6) [OF pl2] q by (auto simp: g'_def)
  ultimately have "tree_at g' (avl_root g') (plug d ll)" using \<open>frames_at g' d\<close> by (simp add: tree_at_plug)
  then show ?thesis by (simp add: g'_def any h'_def)
qed

text \<open>The second case of the removal.\<close>

lemma remove_inner:
  assumes t: "tree_at h (avl_root h) (plug c (Node (plug d (Node ll m Leaf)) n r))" "bal h (plug c (Node (plug d (Node ll m Leaf)) n r))"
      "ascending h (inorder (plug c (Node (plug d (Node ll m Leaf)) n r)))"
    and d: "behind d = []" "\<forall>f\<in>set d. \<not> fst f"
    and q: "q = (if d = [] then Left_ptr n else place_of d)"
  shows "\<exists>h' t'. lwp_avl_rebalance (stack_of (d @ (True, m, r) # c)) (exchanged (place_of c) q n m h) = Some h' \<and> avl_at h' t' \<and>
    set_tree t' = set_tree (plug c (Node (plug d (Node ll m Leaf)) n r)) - {n} \<and> avl_key h' = avl_key h"
proof -
  define h1 where "h1 = exchanged (place_of c) q n m h"
  have ord: "inorder (plug c (Node (plug d (Node ll m Leaf)) n r)) = before c @ (before d @ inorder ll @ [m]) @ n # inorder r @ behind c"
    by (simp add: d(1))
  have dist: "distinct (before c @ (before d @ inorder ll @ [m]) @ n # inorder r @ behind c)"
    using ascending_distinct [OF t(3)] by (simp only: ord)
  have dn: "frames_nodes d = set (before d)" "frames_nodes c = set (before c) \<union> set (behind c)" by (simp_all add: frames_nodes_def d(1))
  have at: "deref (place_of c) h = Some n" "tree_at h (avl_left h n) (plug d (Node ll m Leaf))" "tree_at h (avl_right h n) r" "frames_at h c"
    using t(1) by (simp_all add: tree_at_plug)
  have pl: "place_node (place_of c) \<inter> ({n, m} \<union> set (before d) \<union> set_tree ll \<union> set_tree r) = {}"
    using place_of_node [of c] dist by (auto simp: dn)
  have qd: "d = [] \<or> (\<exists>p s e. d = (False, p, s) # e)" using d(2) by (cases d) auto
  have qq: "place_of c \<noteq> q" "m \<notin> place_node q" "q \<noteq> Right_ptr n" "q \<noteq> Tree_ptr" and qn: "place_node q \<subseteq> insert n (set (before d))"
    using qd q pl dist place_of_node [of d] by (auto simp: dn)
  have nm: "n \<noteq> m" "place_node (place_of c) \<inter> {n, m} = {}" using dist pl by auto
  note ef = exchanged_fields [where h = h, OF nm qq, folded h1_def]
  define N where "N = insert n (insert m (set (before d)))"
  have same: "same_outside N (place_of c) h h1"
    unfolding same_outside_def
  proof (intro conjI allI impI)
    fix x assume x: "x \<noteq> place_of c \<and> place_node x \<inter> N = {}"
    have "x \<noteq> q" using x qn qq(4) by (cases x) (auto simp: N_def)
    with x show "deref x h1 = deref x h" using ef(7) [of x] by (auto simp: N_def)
  qed (simp_all add: ef(3,4) N_def)
  have cN: "frames_nodes c \<inter> N = {}" "distinct (before c @ behind c)" using dist by (auto simp: N_def dn)
  have rN: "set_tree r \<inter> N = {}" "set_tree r \<inter> place_node (place_of c) = {}" using dist pl by (auto simp: N_def)
  have left: "tree_at h1 (avl_left h1 m) (plug d ll)"
    unfolding h1_def by (rule exchanged_left [OF at(2) d _ _ _ _ q]) (use dist pl in \<open>auto simp: dn\<close>)
  have "tree_at h1 (deref (place_of c) h1) (Node (plug d ll) m r)"
    using left tree_at_same(1) [OF same rN] at(3) by (simp add: ef(1,2))
  moreover have "frames_at h1 c" using frames_same(1) [OF same cN] at(4) by simp
  ultimately have "tree_at h1 (avl_root h1) (plug c (Node (plug d ll) m r))" by (simp only: tree_at_plug simp_thms)
  then have "tree_at h1 (avl_root h1) (plug (d @ (True, m, r) # c) ll)" by (simp only: plug_append plug.simps)
  then have hole: "tree_at h1 (deref (place_of (d @ (True, m, r) # c)) h1) ll" "frames_at h1 (d @ (True, m, r) # c)"
    unfolding tree_at_plug by simp_all
  have b: "bal h (Node ll m Leaf)" "frames_bal h (d @ (True, n, r) # c) (height (Node ll m Leaf))"
    using t(2) bal_plug [of h "d @ (True, n, r) # c" "Node ll m Leaf"] by simp_all
  have hts: "avl_height h1 x = avl_height h x" if "x \<noteq> m" for x using ef(3) that by simp
  have bl: "bal h1 ll = bal h ll" by (rule bal_cong, rule hts) (use dist in auto)
  have "m \<notin> frames_nodes d \<union> set_tree r \<union> frames_nodes c" using dist by (auto simp: dn)
  then have "avl_height h1 x = avl_height h x" if "x \<in> frames_nodes d \<union> set_tree r \<union> frames_nodes c" for x
    using hts [of x] that by blast
  moreover have "avl_height h1 m = avl_height h n" using ef(3) by simp
  ultimately have "frames_bal h1 (d @ (True, m, r) # c) (height (Node ll m Leaf))"
    using b(2) frames_bal_exchange [of d r c h1 h m n True] by blast
  moreover have "bal h1 ll" using b(1) bl by simp
  moreover have "before (d @ (True, m, r) # c) @ inorder ll @ behind (d @ (True, m, r) # c) = before c @ (before d @ inorder ll) @ m # inorder r @ behind c"
    using inorder_plug [of "d @ (True, m, r) # c" ll] by (simp add: d(1))
  moreover have "ascending h1 (before c @ (before d @ inorder ll) @ m # inorder r @ behind c)"
    using t(3) unfolding ord ascending_key [OF ef(4)] by (auto simp: ascending_append ascending_Cons)
  ultimately obtain h' t' where r: "lwp_avl_rebalance (stack_of (d @ (True, m, r) # c)) h1 = Some h'" "avl_at h' t'"
    "set_tree t' = frames_nodes (d @ (True, m, r) # c) \<union> set_tree ll" "avl_key h' = avl_key h1"
    using remove_rebalance [OF hole, of "height (Node ll m Leaf)"] by auto
  have "set_tree t' = set_tree (plug c (Node (plug d (Node ll m Leaf)) n r)) - {n}"
    using r(3) dist by (auto simp: set_plug dn)
  with r ef(4) show ?thesis by (auto simp: h1_def)
qed

lemma ascending_inj: "ascending h ns \<Longrightarrow> a \<in> set ns \<Longrightarrow> b \<in> set ns \<Longrightarrow> avl_key h a = avl_key h b \<Longrightarrow> a = b"
  by (auto simp: ascending_def strict_sorted_iff distinct_map inj_on_def)

lemma avl_remove_ok:
  assumes a: "avl_at h t" and n: "n \<in> set_tree t" and sz: "size t < 9000000"
  shows "\<exists>h' t'. lwp_avl_remove n h = Some h' \<and> avl_at h' t' \<and> set_tree t' = set_tree t - {n} \<and> avl_key h' = avl_key h"
proof -
  have t: "tree_at h (avl_root h) t" "bal h t" "ascending h (inorder t)" using a by (simp_all add: avl_at_def)
  have "tree_at h (deref (place_of []) h) t" "length [] + height t \<le> avl_maxheight" using t(1) avl_low [OF t(2) sz] by simp_all
  from remove_walk_ok [OF this t(3), of n] n obtain c l n' r where
    w: "remove_walk (avl_key h n) Tree_ptr [] h = Some (Some (place_of c, place_of c # stack_of c))" "avl_key h n' = avl_key h n"
      "plug c (Node l n' r) = t" "length c + height (Node l n' r) \<le> avl_maxheight" by auto
  have "n' \<in> set_tree t" using w(3) set_plug [of c "Node l n' r"] by auto
  then have n': "n' = n" using ascending_inj [OF t(3), of n' n] n w(2) by simp
  have ord: "inorder t = before c @ (inorder l @ n # inorder r) @ behind c" by (simp add: n' flip: w(3))
  have at: "deref (place_of c) h = Some n" "tree_at h (avl_left h n) l" "tree_at h (avl_right h n) r" "frames_at h c"
    using t(1) w(3) n' tree_at_plug [of h c "Node l n' r"] by simp_all
  have dist: "distinct (before c @ (inorder l @ n # inorder r) @ behind c)" using ascending_distinct [OF t(3)] ord by simp
  show ?thesis
  proof (cases "l = Leaf")
    case True
    define h1 where "h1 = assign (place_of c) (avl_right h n) h"
    have same: "same_outside {} (place_of c) h h1" unfolding same_outside_def
    proof (intro conjI allI impI)
      fix q assume "q \<noteq> place_of c \<and> place_node q \<inter> {} = {}"
      then show "deref q h1 = deref q h" by (cases "place_of c"; cases q) (simp_all add: h1_def set_defs)
    qed (cases "place_of c"; simp add: h1_def set_defs)+
    have pr: "set_tree r \<inter> place_node (place_of c) = {}" using place_of_node [of c] dist by (auto simp: frames_nodes_def)
    have b: "bal h (Node l n r)" "frames_bal h c (height (Node l n r))" using t(2) w(3) n' bal_plug [of h c "Node l n r"] by simp_all
    have "deref (place_of c) h1 = avl_right h n" by (cases "place_of c") (simp_all add: h1_def set_defs)
    then have "tree_at h1 (deref (place_of c) h1) r" "bal h1 r" using tree_at_same [OF same _ pr] at(3) b(1) by simp_all
    moreover have "frames_at h1 c" "frames_bal h1 c (height (Node l n r))" using frames_same [OF same] dist at(4) b(2) by auto
    moreover have "ascending h1 (before c @ inorder r @ behind c)"
      using t(3) unfolding ord True ascending_key [OF same_outsideD(1) [OF same]] by (auto simp: ascending_append ascending_Cons)
    ultimately obtain h' t' where r: "lwp_avl_rebalance (stack_of c) h1 = Some h'" "avl_at h' t'" "set_tree t' = frames_nodes c \<union> set_tree r"
      "avl_key h' = avl_key h1"
      using remove_rebalance [of h1 c r "height (Node l n r)"] True by auto
    have "set_tree t' = set_tree t - {n}" using r(3) dist w(3) n' True by (auto simp: set_plug frames_nodes_def simp flip: w(3))
    moreover have "lwp_avl_remove n h = Some h'" using w(1) at(2) True r(1) by (simp add: lwp_avl_remove_def h1_def)
    ultimately show ?thesis using r same_outsideD(1) [OF same] by auto
  next
    case False
    let ?c = "(True, n, r) # c"
    have "tree_at h (deref (place_of ?c) h) l" "length ?c + height l \<le> Suc avl_maxheight" using at(2) w(4) by simp_all
    from last_walk_ok [OF this(1) False this(2)] obtain d ll m where
      d: "last_walk (place_of ?c) (stack_of ?c) h = Some (place_of (d @ ?c), m, stack_of (d @ ?c))" "plug d (Node ll m Leaf) = l"
        "behind d = []" "\<forall>f\<in>set d. \<not> fst f" by blast
    have p: "place_of (d @ ?c) = (if d = [] then Left_ptr n else place_of d)" by (cases d rule: place_of.cases) auto
    have pt: "plug c (Node (plug d (Node ll m Leaf)) n r) = t" using w(3) n' d(2) by simp
    from remove_inner [of h c d ll m n r, OF _ _ _ d(3,4) p, unfolded pt, OF t] obtain h' t' where
      r: "lwp_avl_rebalance (stack_of (d @ (True, m, r) # c)) (exchanged (place_of c) (place_of (d @ ?c)) n m h) = Some h'" "avl_at h' t'"
        "set_tree t' = set_tree t - {n}" "avl_key h' = avl_key h"
      by blast
    have nl: "avl_left h n \<noteq> None" using at(2) False by (cases l) auto
    have slot: "set_slot (Suc (length c)) (Left_ptr m) (stack_of (d @ ?c)) = Some (stack_of (d @ (True, m, r) # c))"
      using w(4) False stack_slot [of d n r c m] by (cases l) (auto simp: set_slot_def)
    have "lwp_avl_remove n h = Some h'"
      using w(1) nl d(1) slot r(1) by (auto simp: lwp_avl_remove_def exchanged_def Let_def)
    with r show ?thesis by blast
  qed
qed

lemma avl_remove_absent:
  assumes a: "avl_at h t" and n: "avl_key h n \<notin> avl_key h ` set_tree t" and sz: "size t < 9000000"
  shows "lwp_avl_remove n h = Some h"
proof -
  have t: "tree_at h (avl_root h) t" "bal h t" "ascending h (inorder t)" using a by (simp_all add: avl_at_def)
  have "tree_at h (deref (place_of []) h) t" "length [] + height t \<le> avl_maxheight" using t(1) avl_low [OF t(2) sz] by simp_all
  from remove_walk_ok [OF this t(3), of n] n show ?thesis by (simp add: lwp_avl_remove_def)
qed

section \<open>Lookup and traversal\<close>

lemma find_ok:
  "tree_at h p t \<Longrightarrow> ascending h (inorder t) \<Longrightarrow>
    \<exists>r. lwp_avl_find key p h = Some r \<and> (\<forall>n. r = Some n \<longleftrightarrow> n \<in> set_tree t \<and> avl_key h n = key)"
proof (induction t arbitrary: p)
  case Leaf
  then show ?case by (simp add: lwp_avl_find.simps)
next
  case (Node l n r)
  have at: "p = Some n" "tree_at h (avl_left h n) l" "tree_at h (avl_right h n) r" using Node.prems(1) by simp_all
  have asc: "ascending h (inorder l)" "ascending h (inorder r)" "\<And>x. x \<in> set_tree l \<Longrightarrow> avl_key h x < avl_key h n"
    "\<And>y. y \<in> set_tree r \<Longrightarrow> avl_key h n < avl_key h y"
    using Node.prems(2) by (auto simp: ascending_append ascending_Cons)
  consider "key = avl_key h n" | "key < avl_key h n" | "avl_key h n < key" by (rule linorder_cases [of key "avl_key h n"])
  then show ?case
  proof cases
    case 1
    have "x = n" if "x \<in> set_tree (Node l n r)" "avl_key h x = avl_key h n" for x using that asc(3,4) by fastforce
    then show ?thesis using 1 at by (subst lwp_avl_find.simps) auto
  next
    case 2
    with Node.IH(1) [OF at(2) asc(1)] at asc(4) show ?thesis by (subst lwp_avl_find.simps) fastforce
  next
    case 3
    with Node.IH(2) [OF at(3) asc(2)] at asc(3) show ?thesis by (subst lwp_avl_find.simps) fastforce
  qed
qed

text \<open>The traversal visits the nodes in the order of their keys, and stops at the first result that is not zero.\<close>

fun visit :: "(nat \<Rightarrow> 's \<Rightarrow> (int \<times> 's) option) \<Rightarrow> nat list \<Rightarrow> 's \<Rightarrow> (int \<times> 's) option" where
  "visit f [] s = Some (0, s)"
| "visit f (n # ns) s = do { (ret, s) \<leftarrow> f n s; if ret \<noteq> 0 then Some (ret, s) else visit f ns s }"

lemma visit_append: "visit f (xs @ ys) s = do { (ret, s) \<leftarrow> visit f xs s; if ret \<noteq> 0 then Some (ret, s) else visit f ys s }"
  by (induction xs arbitrary: s) (auto split: bind_splits)

lemma traversal_visit: "tree_at h p t \<Longrightarrow> lwp_avl_traversal p f h s = visit f (inorder t) s"
proof (induction t arbitrary: p s)
  case Leaf
  then show ?case by (simp add: lwp_avl_traversal.simps)
next
  case (Node l n r)
  have at: "p = Some n" "tree_at h (avl_left h n) l" "tree_at h (avl_right h n) r" using Node.prems(1) by simp_all
  have ends: "(if avl_left h n = None then Some (0, s) else lwp_avl_traversal (avl_left h n) f h s) = visit f (inorder l) s"
    "(if avl_right h n = None then Some (0, s) else lwp_avl_traversal (avl_right h n) f h s) = visit f (inorder r) s" for s
    using at(2,3) Node.IH by auto
  have "lwp_avl_traversal p f h s = Option.bind (visit f (inorder l) s) (\<lambda>(ret, s).
      if ret \<noteq> 0 then Some (ret, s)
      else Option.bind (f n s) (\<lambda>(ret, s). if ret \<noteq> 0 then Some (ret, s) else
        (if avl_right h n = None then Some (0, s) else lwp_avl_traversal (avl_right h n) f h s)))"
    unfolding ends(1) [symmetric] using at(1) by (subst lwp_avl_traversal.simps) (auto intro!: Option.bind_cong split: if_splits)
  then show ?case unfolding ends(2) by (simp add: visit_append cong: if_cong)
qed

lemma first_ok: "tree_at h p t \<Longrightarrow> lwp_map_find_first p h = Some (case inorder t of [] \<Rightarrow> None | n # _ \<Rightarrow> Some n)"
proof (induction t arbitrary: p)
  case Leaf
  then show ?case by (simp add: lwp_map_find_first.simps)
next
  case (Node l n r)
  show ?case
  proof (cases "inorder l")
    case Nil
    then have "l = Leaf" by simp
    with Node.prems show ?thesis by (simp add: lwp_map_find_first.simps)
  next
    case (Cons m ms)
    then have "avl_left h n \<noteq> None" using Node.prems by (cases l) auto
    with Node.prems Node.IH(1) [of "avl_left h n"] Cons show ?thesis by (auto simp: lwp_map_find_first.simps [of "Some n"])
  qed
qed

section \<open>The contract of an index\<close>

text \<open>What the users of the trees rely on: a set of nodes with different keys, found by key.\<close>

locale node_index =
  fixes holds :: "'s \<Rightarrow> nat set \<Rightarrow> bool" and keys :: "'s \<Rightarrow> nat \<Rightarrow> u64" and room :: nat
    and search :: "u64 \<Rightarrow> 's \<Rightarrow> nat option option" and link :: "nat \<Rightarrow> 's \<Rightarrow> 's option" and unlink :: "nat \<Rightarrow> 's \<Rightarrow> 's option"
  assumes search_law: "holds s N \<Longrightarrow> \<exists>r. search k s = Some r \<and> (\<forall>n. r = Some n \<longleftrightarrow> n \<in> N \<and> keys s n = k)"
    and link_law: "holds s N \<Longrightarrow> n \<notin> N \<Longrightarrow> keys s n \<notin> keys s ` N \<Longrightarrow> Suc (card N) < room \<Longrightarrow>
      \<exists>s'. link n s = Some s' \<and> holds s' (insert n N) \<and> keys s' = keys s"
    and unlink_law: "holds s N \<Longrightarrow> n \<in> N \<Longrightarrow> \<exists>s'. unlink n s = Some s' \<and> holds s' (N - {n}) \<and> keys s' = keys s"
begin

lemma link_search:
  assumes "holds s N" "n \<notin> N" "keys s n \<notin> keys s ` N" "Suc (card N) < room"
  shows "\<exists>s'. link n s = Some s' \<and> holds s' (insert n N) \<and> keys s' = keys s \<and>
    search k s' = (if k = keys s n then Some (Some n) else search k s)"
proof -
  obtain s' where s': "link n s = Some s'" "holds s' (insert n N)" "keys s' = keys s" using link_law [OF assms] by blast
  from search_law [OF s'(2), of k] obtain r' where r': "search k s' = Some r'" "\<And>m. r' = Some m \<longleftrightarrow> m \<in> insert n N \<and> keys s m = k"
    using s'(3) by auto
  from search_law [OF assms(1), of k] obtain r where r: "search k s = Some r" "\<And>m. r = Some m \<longleftrightarrow> m \<in> N \<and> keys s m = k" by blast
  have "r' = (if k = keys s n then Some n else r)"
  proof (cases "k = keys s n")
    case False
    have "r' = Some m \<longleftrightarrow> r = Some m" for m using r(2) r'(2) False by auto
    with False show ?thesis by (metis option.exhaust)
  qed (use r'(2) [of n] in simp)
  with s' r r' show ?thesis by auto
qed

lemma unlink_search:
  assumes "holds s N" "n \<in> N" "inj_on (keys s) N"
  shows "\<exists>s'. unlink n s = Some s' \<and> holds s' (N - {n}) \<and> keys s' = keys s \<and>
    search k s' = (if k = keys s n then Some None else search k s)"
proof -
  obtain s' where s': "unlink n s = Some s'" "holds s' (N - {n})" "keys s' = keys s" using unlink_law [OF assms(1,2)] by blast
  from search_law [OF s'(2), of k] obtain r' where r': "search k s' = Some r'" "\<And>m. r' = Some m \<longleftrightarrow> m \<in> N - {n} \<and> keys s m = k"
    using s'(3) by auto
  from search_law [OF assms(1), of k] obtain r where r: "search k s = Some r" "\<And>m. r = Some m \<longleftrightarrow> m \<in> N \<and> keys s m = k" by blast
  have "r' = (if k = keys s n then None else r)"
  proof (cases "k = keys s n")
    case True
    have "r' \<noteq> Some m" for m using r'(2) [of m] True assms(2,3) by (auto dest: inj_onD)
    with True show ?thesis by (cases r') auto
  next
    case False
    have "r' = Some m \<longleftrightarrow> r = Some m" for m using r(2) r'(2) False by auto
    with False show ?thesis by (metis option.exhaust)
  qed
  with s' r r' show ?thesis by auto
qed

end

abbreviation avl_room :: nat where "avl_room \<equiv> 9000000"

definition avl_holds :: "lwp_avl_struct \<Rightarrow> nat set \<Rightarrow> bool" where
  "avl_holds h N \<longleftrightarrow> (\<exists>t. avl_at h t \<and> set_tree t = N \<and> size t < avl_room)"

text \<open>The fields of a node outside the tree do not matter.\<close>

definition set_key :: "nat \<Rightarrow> u64 \<Rightarrow> lwp_avl_struct \<Rightarrow> lwp_avl_struct" where
  "set_key n k h = h\<lparr>avl_key := (avl_key h)(n := k)\<rparr>"

lemma avl_holds_cong:
  assumes "avl_root h' = avl_root h"
    and "\<And>n. n \<in> N \<Longrightarrow> avl_left h' n = avl_left h n \<and> avl_right h' n = avl_right h n \<and> avl_height h' n = avl_height h n \<and> avl_key h' n = avl_key h n"
  shows "avl_holds h' N \<longleftrightarrow> avl_holds h N"
proof -
  have "avl_at h' t \<longleftrightarrow> avl_at h t" if "set_tree t = N" for t
  proof -
    have "tree_at h' (avl_root h) t = tree_at h (avl_root h) t" "bal h' t = bal h t"
      using assms(2) that by (auto intro!: tree_at_cong bal_cong)
    moreover have "map (avl_key h') (inorder t) = map (avl_key h) (inorder t)" using assms(2) that by simp
    ultimately show ?thesis by (simp only: avl_at_def ascending_def assms(1))
  qed
  then show ?thesis by (auto simp: avl_holds_def)
qed

lemma avl_holds_finite: "avl_holds h N \<Longrightarrow> finite N"
  by (auto simp: avl_holds_def)

lemma avl_holds_set_key: "n \<notin> N \<Longrightarrow> avl_holds (set_key n k h) N \<longleftrightarrow> avl_holds h N"
  by (rule avl_holds_cong) (auto simp: set_key_def)

lemma avl_card: "avl_at h t \<Longrightarrow> card (set_tree t) = size t"
  using distinct_card [of "inorder t"] ascending_distinct [of h "inorder t"] by (simp add: avl_at_def)

lemma avl_inj: "avl_holds h N \<Longrightarrow> inj_on (avl_key h) N"
  using ascending_inj by (fastforce simp: avl_holds_def avl_at_def inj_on_def)

interpretation avl: node_index avl_holds avl_key avl_room "\<lambda>k h. lwp_avl_find k (avl_root h) h" lwp_avl_insert lwp_avl_remove
proof
  fix s N k assume "avl_holds s N"
  then show "\<exists>r. lwp_avl_find k (avl_root s) s = Some r \<and> (\<forall>n. r = Some n \<longleftrightarrow> n \<in> N \<and> avl_key s n = k)"
    using find_ok by (auto simp: avl_holds_def avl_at_def)
next
  fix s N n assume h: "avl_holds s N" "n \<notin> N" "avl_key s n \<notin> avl_key s ` N" "Suc (card N) < avl_room"
  then obtain t where t: "avl_at s t" "set_tree t = N" "size t < avl_room" by (auto simp: avl_holds_def)
  with h avl_insert_ok [OF t(1), of n] obtain s' t' where
    r: "lwp_avl_insert n s = Some s'" "avl_at s' t'" "set_tree t' = insert n N" "avl_key s' = avl_key s" by auto
  have "finite N" using t(2) finite_set_tree by blast
  then have "size t' < avl_room" using avl_card [OF r(2)] r(3) h(2,4) by simp
  with r show "\<exists>s'. lwp_avl_insert n s = Some s' \<and> avl_holds s' (insert n N) \<and> avl_key s' = avl_key s" by (auto simp: avl_holds_def)
next
  fix s N n assume h: "avl_holds s N" "n \<in> N"
  then obtain t where t: "avl_at s t" "set_tree t = N" "size t < avl_room" by (auto simp: avl_holds_def)
  with h avl_remove_ok [OF t(1), of n] obtain s' t' where
    r: "lwp_avl_remove n s = Some s'" "avl_at s' t'" "set_tree t' = N - {n}" "avl_key s' = avl_key s" by auto
  have "finite N" using t(2) finite_set_tree by blast
  then have "size t' < avl_room" using avl_card [OF r(2)] avl_card [OF t(1)] r(3) t(2,3) card_Diff1_le [of N n] by simp
  with r show "\<exists>s'. lwp_avl_remove n s = Some s' \<and> avl_holds s' (N - {n}) \<and> avl_key s' = avl_key s" by (auto simp: avl_holds_def)
qed

section \<open>What the trees promise\<close>

text \<open>C9: Inserting a node with a new key into a balanced search tree of fewer than nine million nodes: the walk fits the stack of 32
  places, the result is a balanced search tree with that node in addition, and every key is found as before, the new one at the new node.\<close>

theorem avl_insert_correct:
  assumes "avl_at h t" "n \<notin> set_tree t" "avl_key h n \<notin> avl_key h ` set_tree t" "Suc (size t) < 9000000"
  shows "\<exists>h' t'. lwp_avl_insert n h = Some h' \<and> avl_at h' t' \<and> set_tree t' = insert n (set_tree t) \<and> avl_key h' = avl_key h \<and>
    (\<forall>k. lwp_avl_find k (avl_root h') h' = (if k = avl_key h n then Some (Some n) else lwp_avl_find k (avl_root h) h))"
proof -
  have hs: "avl_holds h (set_tree t)" using assms by (auto simp: avl_holds_def)
  have c: "Suc (card (set_tree t)) < avl_room" using avl_card [OF assms(1)] assms(4) by simp
  obtain h' t' where h': "lwp_avl_insert n h = Some h'" "avl_at h' t'" "set_tree t' = insert n (set_tree t)" "avl_key h' = avl_key h"
    using avl_insert_ok [OF assms(1-3)] assms(4) by auto
  moreover have "lwp_avl_find k (avl_root h') h' = (if k = avl_key h n then Some (Some n) else lwp_avl_find k (avl_root h) h)" for k
    using avl.link_search [OF hs assms(2,3) c, of k] h'(1) by auto
  ultimately show ?thesis by blast
qed

text \<open>C10: Removing a node from a balanced search tree of fewer than nine million nodes: the result is a balanced search tree of the other nodes, the removed key is found no
  more and every other key as before.\<close>

theorem avl_remove_correct:
  assumes "avl_at h t" "n \<in> set_tree t" "size t < 9000000"
  shows "\<exists>h' t'. lwp_avl_remove n h = Some h' \<and> avl_at h' t' \<and> set_tree t' = set_tree t - {n} \<and> avl_key h' = avl_key h \<and>
    (\<forall>k. lwp_avl_find k (avl_root h') h' = (if k = avl_key h n then Some None else lwp_avl_find k (avl_root h) h))"
proof -
  have hs: "avl_holds h (set_tree t)" using assms by (auto simp: avl_holds_def)
  obtain h' t' where h': "lwp_avl_remove n h = Some h'" "avl_at h' t'" "set_tree t' = set_tree t - {n}" "avl_key h' = avl_key h"
    using avl_remove_ok [OF assms] by blast
  moreover have "lwp_avl_find k (avl_root h') h' = (if k = avl_key h n then Some None else lwp_avl_find k (avl_root h) h)" for k
    using avl.unlink_search [OF hs assms(2) avl_inj [OF hs], of k] h'(1) by auto
  ultimately show ?thesis by blast
qed

text \<open>Nodes 1 and 2 with the keys 1 and 2; node 3 with the key 3 is not linked. Inserting it turns the tree.\<close>

definition sample_avl :: lwp_avl_struct where
  "sample_avl = \<lparr>avl_root = Some 1, avl_left = \<lambda>_. None, avl_right = (\<lambda>_. None)(1 := Some 2), avl_height = (\<lambda>_. 1)(1 := 2),
    avl_key = word_of_nat\<rparr>"

lemma sample_avl_at: "avl_at sample_avl (Node Leaf 1 (Node Leaf 2 Leaf))"
  by (simp add: avl_at_def sample_avl_def ascending_def)

lemma avl_insert_correct_witness:
  "\<exists>h'. lwp_avl_insert 3 sample_avl = Some h' \<and> lwp_avl_find 3 (avl_root h') h' = Some (Some 3)"
  using avl_insert_correct [OF sample_avl_at, of 3] by (auto simp: sample_avl_def)

lemma avl_remove_correct_witness:
  "\<exists>h'. lwp_avl_remove 1 sample_avl = Some h' \<and> lwp_avl_find 1 (avl_root h') h' = Some None"
  using avl_remove_correct [OF sample_avl_at, of 1] by (auto simp: sample_avl_def)

end

