(* ===== verification/Shm.thy ===== *)
theory Shm
  imports Mmu Avl
begin

text \<open>
  Shared memory between processes, \<^verbatim>\<open>components/lwp/lwp_shm.c\<close>: an array of 64 entries with a list of free ones, and two search
  trees over the entries in use, by key and by physical address. An entry owns a group of pages. The functions run under \<open>rt_mm_lock\<close>.
\<close>

section \<open>The operations\<close>

record lwp_shm_struct =
  shm_addr :: u64
  shm_size :: u64
  shm_ref :: int
  shm_key :: u64

text \<open>One block of the heap holds the two nodes of an entry: the node of the tree by key has a number, the node of the tree by address the next
  one. \<open>shm_data\<close> is the entry a node belongs to.\<close>

record shm =
  shm_tree_key :: lwp_avl_struct
  shm_tree_pa :: lwp_avl_struct
  shm_free_list :: int
  shm_id_used :: int
  shm_ary :: "nat \<Rightarrow> lwp_shm_struct"
  shm_data :: "nat \<Rightarrow> nat"

abbreviation RT_LWP_SHM_MAX_NR :: int where "RT_LWP_SHM_MAX_NR \<equiv> 64"

definition upd_shm :: "int \<Rightarrow> (lwp_shm_struct \<Rightarrow> lwp_shm_struct) \<Rightarrow> shm \<Rightarrow> shm" where
  "upd_shm sid f s = s\<lparr>shm_ary := (shm_ary s)(nat sid := f (shm_ary s (nat sid)))\<rparr>"

definition shm_id_alloc :: "shm \<Rightarrow> int \<times> shm" where
  "shm_id_alloc s =
    (if shm_free_list s \<noteq> -1
     then let sid = shm_free_list s in (sid, s\<lparr>shm_free_list := sint (ucast (shm_addr (shm_ary s (nat sid))) :: u32)\<rparr>)
     else if shm_id_used s < RT_LWP_SHM_MAX_NR then (shm_id_used s, s\<lparr>shm_id_used := shm_id_used s + 1\<rparr>)
     else (-1, s))"

definition shm_id_free :: "int \<Rightarrow> shm \<Rightarrow> shm" where
  "shm_id_free sid s = (upd_shm sid (\<lambda>p. p\<lparr>shm_addr := word_of_int (shm_free_list s)\<rparr>) s)\<lparr>shm_free_list := sid\<rparr>"

definition find_key :: "u64 \<Rightarrow> shm \<Rightarrow> nat option option" where
  "find_key key s = lwp_avl_find key (avl_root (shm_tree_key s)) (shm_tree_key s)"

definition find_pa :: "u64 \<Rightarrow> shm \<Rightarrow> nat option option" where
  "find_pa pa s = lwp_avl_find pa (avl_root (shm_tree_pa s)) (shm_tree_pa s)"

text \<open>The entry \<open>sid\<close> with its pages at \<open>a\<close>, linked into both trees.\<close>

definition shm_link :: "nat \<Rightarrow> int \<Rightarrow> shm \<Rightarrow> shm option" where
  "shm_link node_key sid s =
    (let p = shm_ary s (nat sid) in do {
       tk \<leftarrow> lwp_avl_insert node_key (set_key node_key (shm_key p) (shm_tree_key s));
       let s = s\<lparr>shm_data := (shm_data s)(node_key := nat sid), shm_tree_key := tk\<rparr>;
       tp \<leftarrow> lwp_avl_insert (node_key + 1) (set_key (node_key + 1) (shm_addr p) (shm_tree_pa s));
       Some (s\<lparr>shm_data := (shm_data s)(node_key + 1 := nat sid), shm_tree_pa := tp\<rparr>)
     })"

text \<open>\<open>mem\<close> is what \<open>rt_malloc\<close> returned for the nodes.\<close>

definition lwp_shmget :: "u64 \<Rightarrow> u64 \<Rightarrow> bool \<Rightarrow> nat option \<Rightarrow> shm \<Rightarrow> mmu_state \<Rightarrow> (int \<times> shm \<times> mmu_state) option" where
  "lwp_shmget key sz create mem s st = do {
    node_key \<leftarrow> find_key key s;
    case node_key of
      Some n \<Rightarrow> Some (int (shm_data s n), s, st)
    | None \<Rightarrow>
        if \<not> create then Some (-1, s, st)
        else if sz = 0 then Some (-1, s, st)
        else let (sid, s) = shm_id_alloc s in
          if sid = -1 then Some (-1, s, st)
          else do {
            bit \<leftarrow> rt_page_bits sz;
            (page_addr, st) \<leftarrow> alloc_pages (nat bit) st;
            if page_addr = 0 then Some (-1, shm_id_free sid s, st)
            else
              let s = upd_shm sid (\<lambda>_. \<lparr>shm_addr = page_addr, shm_size = push_bit (nat bit + 12) 1, shm_ref = 0, shm_key = key\<rparr>) s in
              case mem of
                None \<Rightarrow> do { st \<leftarrow> free_pages page_addr (nat bit) st; Some (-1, shm_id_free sid s, st) }
              | Some n \<Rightarrow> do { s \<leftarrow> shm_link n sid s; Some (sid, s, st) }
          }
  }"

definition shm_id_to_node :: "int \<Rightarrow> shm \<Rightarrow> nat option option" where
  "shm_id_to_node sid s =
    (if sid < 0 \<or> sid \<ge> RT_LWP_SHM_MAX_NR then Some None
     else do {
       node_key \<leftarrow> find_key (shm_key (shm_ary s (nat sid))) s;
       case node_key of
         None \<Rightarrow> Some None
       | Some n \<Rightarrow> if shm_data s n \<noteq> nat sid then Some None else Some (Some n)
     })"

definition lwp_shmrm :: "int \<Rightarrow> shm \<Rightarrow> mmu_state \<Rightarrow> (int \<times> shm \<times> mmu_state) option" where
  "lwp_shmrm sid s st = do {
    node_key \<leftarrow> shm_id_to_node sid s;
    case node_key of
      None \<Rightarrow> Some (-1, s, st)
    | Some n \<Rightarrow>
        let p = shm_ary s (shm_data s n) in
        if shm_ref p \<noteq> 0 then Some (0, s, st)
        else do {
          bit \<leftarrow> rt_page_bits (shm_size p);
          st \<leftarrow> free_pages (shm_addr p) (nat bit) st;
          tk \<leftarrow> lwp_avl_remove n (shm_tree_key s);
          tp \<leftarrow> lwp_avl_remove (n + 1) (shm_tree_pa s);
          Some (0, shm_id_free sid (s\<lparr>shm_tree_key := tk, shm_tree_pa := tp\<rparr>), st)
        }
  }"

text \<open>The entry mapped at an address of a process, if there is one.\<close>

definition lwp_shm_struct_get :: "rt_mmu_info \<Rightarrow> u64 \<Rightarrow> shm \<Rightarrow> mmu_state \<Rightarrow> nat option option" where
  "lwp_shm_struct_get mi shm_vaddr s st = do {
    pa \<leftarrow> rt_hw_mmu_v2p mi shm_vaddr st;
    node_pa \<leftarrow> find_pa pa s;
    Some (map_option (shm_data s) node_pa)
  }"

definition lwp_shm_ref_inc :: "rt_mmu_info \<Rightarrow> u64 \<Rightarrow> shm \<Rightarrow> mmu_state \<Rightarrow> (int \<times> shm) option" where
  "lwp_shm_ref_inc mi shm_vaddr s st = do {
    p \<leftarrow> lwp_shm_struct_get mi shm_vaddr s st;
    case p of
      Some i \<Rightarrow>
        let s = upd_shm (int i) (\<lambda>p. p\<lparr>shm_ref := shm_ref p + 1\<rparr>) s in Some (shm_ref (shm_ary s i), s)
    | None \<Rightarrow> Some (-1, s)
  }"

definition lwp_shm_ref_dec :: "rt_mmu_info \<Rightarrow> u64 \<Rightarrow> shm \<Rightarrow> mmu_state \<Rightarrow> (int \<times> shm) option" where
  "lwp_shm_ref_dec mi shm_vaddr s st = do {
    p \<leftarrow> lwp_shm_struct_get mi shm_vaddr s st;
    case p of
      Some i \<Rightarrow>
        if shm_ref (shm_ary s i) > 0
        then let s = upd_shm (int i) (\<lambda>p. p\<lparr>shm_ref := shm_ref p - 1\<rparr>) s in Some (shm_ref (shm_ary s i), s)
        else Some (-1, s)
    | None \<Rightarrow> Some (-1, s)
  }"

definition lwp_shminfo :: "int \<Rightarrow> shm \<Rightarrow> u64 option" where
  "lwp_shminfo sid s = do {
    node_key \<leftarrow> shm_id_to_node sid s;
    case node_key of None \<Rightarrow> Some 0 | Some n \<Rightarrow> Some (shm_addr (shm_ary s (shm_data s n)))
  }"

section \<open>The state of the array\<close>

text \<open>The list of free entries through their addresses; an entry outside the trees and the list is in transit (\<open>T\<close>).\<close>

fun free_chain :: "(nat \<Rightarrow> lwp_shm_struct) \<Rightarrow> int \<Rightarrow> int list \<Rightarrow> bool" where
  "free_chain ary x [] \<longleftrightarrow> x = -1"
| "free_chain ary x (i # fs) \<longleftrightarrow> x = i \<and> 0 \<le> i \<and> free_chain ary (sint (ucast (shm_addr (ary (nat i))) :: u32)) fs"

definition shm_bits :: "lwp_shm_struct \<Rightarrow> nat" where
  "shm_bits p = nat (the (rt_page_bits (shm_size p)))"

definition shm_group :: "lwp_shm_struct \<Rightarrow> nat \<times> nat" where
  "shm_group p = (unat (shm_addr p), shm_bits p)"

definition entry_fits :: "lwp_shm_struct \<Rightarrow> bool" where
  "entry_fits p \<longleftrightarrow> shm_bits p < 52 \<and> shm_size p = push_bit (shm_bits p + 12) 1 \<and> rt_page_bits (shm_size p) = Some (int (shm_bits p)) \<and>
    0 \<le> shm_ref p"

definition node_ok :: "shm \<Rightarrow> nat \<Rightarrow> bool" where
  "node_ok s n \<longleftrightarrow> (let p = shm_ary s (shm_data s n) in entry_fits p \<and> shm_data s (Suc n) = shm_data s n \<and>
    avl_key (shm_tree_key s) n = shm_key p \<and> avl_key (shm_tree_pa s) (Suc n) = shm_addr p)"

definition ids_of :: "shm \<Rightarrow> nat set \<Rightarrow> int set" where
  "ids_of s K = (\<lambda>n. int (shm_data s n)) ` K"

definition shm_ok :: "shm \<Rightarrow> nat set \<Rightarrow> int set \<Rightarrow> bool" where
  "shm_ok s K T \<longleftrightarrow> avl_holds (shm_tree_key s) K \<and> avl_holds (shm_tree_pa s) (Suc ` K) \<and> K \<inter> Suc ` K = {} \<and>
    inj_on (shm_data s) K \<and> (\<forall>n\<in>K. node_ok s n) \<and> 0 \<le> shm_id_used s \<and> shm_id_used s \<le> RT_LWP_SHM_MAX_NR \<and>
    (\<exists>fl. free_chain (shm_ary s) (shm_free_list s) fl \<and> distinct fl \<and> set fl \<inter> ids_of s K = {} \<and> set fl \<inter> T = {} \<and>
      ids_of s K \<inter> T = {} \<and> ids_of s K \<union> set fl \<union> T = {0..<shm_id_used s})"

text \<open>The entries by their sid: what a user of the module sees.\<close>

definition shm_entries :: "shm \<Rightarrow> nat set \<Rightarrow> int \<Rightarrow> lwp_shm_struct option" where
  "shm_entries s K = (\<lambda>sid. if sid \<in> ids_of s K then Some (shm_ary s (nat sid)) else None)"

definition shm_groups :: "shm \<Rightarrow> nat set \<Rightarrow> (nat \<times> nat) set" where
  "shm_groups s K = (\<lambda>n. shm_group (shm_ary s (shm_data s n))) ` K"

text \<open>The whole state: the groups of pages in use are exactly those of the entries, with one user each, and the groups \<open>U\<close> of
  others; all other pages are free.\<close>

definition shm_state_ok :: "shm \<Rightarrow> mmu_state \<Rightarrow> nat set \<Rightarrow> (nat \<times> nat) set \<Rightarrow> bool" where
  "shm_state_ok s st K U \<longleftrightarrow> shm_ok s K {} \<and> page_exact (mm_pages st) U (shm_groups s K)"

lemma shm_okD:
  assumes "shm_ok s K T"
  shows "avl_holds (shm_tree_key s) K" "avl_holds (shm_tree_pa s) (Suc ` K)" "K \<inter> Suc ` K = {}" "inj_on (shm_data s) K"
    "n \<in> K \<Longrightarrow> node_ok s n" "0 \<le> shm_id_used s" "shm_id_used s \<le> RT_LWP_SHM_MAX_NR" "ids_of s K \<inter> T = {}"
    "sid \<in> ids_of s K \<union> T \<Longrightarrow> 0 \<le> sid \<and> sid < RT_LWP_SHM_MAX_NR"
proof -
  from assms obtain fl where fl: "ids_of s K \<union> set fl \<union> T = {0..<shm_id_used s}" unfolding shm_ok_def by blast
  show u: "shm_id_used s \<le> RT_LWP_SHM_MAX_NR" using assms unfolding shm_ok_def by blast
  show "0 \<le> sid \<and> sid < RT_LWP_SHM_MAX_NR" if "sid \<in> ids_of s K \<union> T"
  proof -
    have "sid \<in> {0..<shm_id_used s}" using fl that by blast
    with u show ?thesis by simp
  qed
qed (use assms in \<open>unfold shm_ok_def, blast\<close>)+

lemma shm_card: "shm_ok s K T \<Longrightarrow> finite K \<and> card K \<le> 64"
proof -
  assume ok: "shm_ok s K T"
  have f: "finite K" using shm_okD(1) [OF ok] avl_holds_finite by blast
  have "ids_of s K \<subseteq> {0..<64}" using shm_okD(9) [OF ok] by auto
  then have "card (ids_of s K) \<le> 64" using card_mono [of "{0..<64 :: int}"] by fastforce
  moreover have "card (ids_of s K) = card K"
    unfolding ids_of_def by (rule card_image) (use shm_okD(4) [OF ok] in \<open>auto simp: inj_on_def\<close>)
  ultimately show ?thesis using f by simp
qed

lemma free_chain_cong: "(\<And>i. i \<in> set fl \<Longrightarrow> ary' (nat i) = ary (nat i)) \<Longrightarrow> free_chain ary' x fl = free_chain ary x fl"
  by (induction fl arbitrary: x) auto

text \<open>A small sid survives as an address.\<close>

lemma id_as_addr:
  assumes "-1 \<le> x" "x < 64"
  shows "sint (ucast (word_of_int x :: u64) :: u32) = x"
proof -
  have "(ucast (word_of_int x :: u64) :: u32) = word_of_int x" by (simp add: unsigned_of_int word_of_int_eq_iff)
  then show ?thesis using assms by (simp add: signed_of_int signed_take_bit_int_eq_self)
qed

lemma entries_upd: "sid \<notin> ids_of s K \<Longrightarrow> 0 \<le> sid \<Longrightarrow> shm_entries (upd_shm sid f s) K = shm_entries s K"
  by (auto simp: shm_entries_def ids_of_def upd_shm_def fun_eq_iff image_iff)

text \<open>Changing an entry in transit.\<close>

lemma shm_ok_upd:
  assumes ok: "shm_ok s K T" and sid: "sid \<in> T"
  shows "shm_ok (upd_shm sid f s) K T"
proof -
  have d: "sid \<notin> ids_of s K" "0 \<le> sid" using shm_okD(8,9) [OF ok] sid by auto
  have data: "shm_data s n \<noteq> nat sid" if "n \<in> K" for n using d that by (auto simp: ids_of_def image_iff)
  obtain fl where fl: "free_chain (shm_ary s) (shm_free_list s) fl" "distinct fl" "set fl \<inter> ids_of s K = {}" "set fl \<inter> T = {}"
    "ids_of s K \<inter> T = {}" "ids_of s K \<union> set fl \<union> T = {0..<shm_id_used s}" using ok unfolding shm_ok_def by blast
  have "free_chain (shm_ary (upd_shm sid f s)) (shm_free_list s) fl = free_chain (shm_ary s) (shm_free_list s) fl"
  proof (rule free_chain_cong)
    fix i assume "i \<in> set fl"
    then have "i \<noteq> sid" "0 \<le> i" using fl(4,6) sid by (auto simp: set_eq_iff)
    then show "shm_ary (upd_shm sid f s) (nat i) = shm_ary s (nat i)" using d(2) by (simp add: upd_shm_def nat_eq_iff2)
  qed
  moreover have "ids_of (upd_shm sid f s) K = ids_of s K" by (simp add: ids_of_def upd_shm_def)
  moreover have "node_ok (upd_shm sid f s) n" if "n \<in> K" for n
    using shm_okD(5) [OF ok that] data [OF that] by (simp add: node_ok_def upd_shm_def)
  ultimately show ?thesis
    using shm_okD(1-4,6,7) [OF ok] fl unfolding shm_ok_def by (simp add: upd_shm_def) blast
qed

text \<open>Another list of free entries.\<close>

lemma shm_ok_free:
  assumes ok: "shm_ok s K T" and "free_chain (shm_ary s) x fl" "distinct fl" "set fl \<inter> ids_of s K = {}" "set fl \<inter> T' = {}"
    "ids_of s K \<inter> T' = {}" "ids_of s K \<union> set fl \<union> T' = {0..<u}" "0 \<le> u" "u \<le> RT_LWP_SHM_MAX_NR"
  shows "shm_ok (s\<lparr>shm_free_list := x, shm_id_used := u\<rparr>) K T'" "shm_entries (s\<lparr>shm_free_list := x, shm_id_used := u\<rparr>) K = shm_entries s K"
proof -
  let ?s = "s\<lparr>shm_free_list := x, shm_id_used := u\<rparr>"
  have same: "ids_of ?s K = ids_of s K" "\<And>n. node_ok ?s n = node_ok s n" by (simp_all add: ids_of_def node_ok_def)
  show "shm_ok ?s K T'"
    unfolding shm_ok_def same
  proof (intro conjI)
    show "\<exists>fl. free_chain (shm_ary ?s) (shm_free_list ?s) fl \<and> distinct fl \<and> set fl \<inter> ids_of s K = {} \<and> set fl \<inter> T' = {} \<and>
        ids_of s K \<inter> T' = {} \<and> ids_of s K \<union> set fl \<union> T' = {0..<shm_id_used ?s}"
      using assms(2-7) by (intro exI [of _ fl]) simp
    show "\<forall>n\<in>K. node_ok s n" using shm_okD(5) [OF ok] by blast
  qed (use shm_okD(1-4) [OF ok] assms(8,9) in simp_all)
  show "shm_entries ?s K = shm_entries s K" unfolding shm_entries_def same by (simp add: fun_eq_iff)
qed

text \<open>Taking an entry and giving it back.\<close>

lemma shm_id_alloc_ok:
  assumes ok: "shm_ok s K {}"
  shows "shm_id_alloc s = (-1, s) \<and> ids_of s K = {0..<64} \<or> (\<exists>sid s'. shm_id_alloc s = (sid, s') \<and> 0 \<le> sid \<and> sid < 64 \<and> shm_ok s' K {sid} \<and>
    shm_entries s' K = shm_entries s K \<and> shm_ary s' = shm_ary s \<and> shm_data s' = shm_data s \<and>
    shm_tree_key s' = shm_tree_key s \<and> shm_tree_pa s' = shm_tree_pa s)"
proof -
  obtain fl where fl: "free_chain (shm_ary s) (shm_free_list s) fl" "distinct fl" "set fl \<inter> ids_of s K = {}"
    "ids_of s K \<union> set fl = {0..<shm_id_used s}" using ok unfolding shm_ok_def by auto
  show ?thesis
  proof (cases fl)
    case (Cons i fs)
    define x where "x = sint (ucast (shm_addr (shm_ary s (nat i))) :: u32)"
    have i: "shm_free_list s = i" "0 \<le> i" "i \<in> {0..<shm_id_used s}" "free_chain (shm_ary s) x fs" using fl(1,4) Cons by (auto simp: x_def)
    have "set fs \<inter> ids_of s K = {}" "set fs \<inter> {i} = {}" "ids_of s K \<inter> {i} = {}" "ids_of s K \<union> set fs \<union> {i} = {0..<shm_id_used s}" "distinct fs"
      using fl(2,3,4) Cons by auto
    note f = shm_ok_free [OF ok i(4) this(5,1-4) shm_okD(6,7) [OF ok]]
    have "shm_id_alloc s = (i, s\<lparr>shm_free_list := x, shm_id_used := shm_id_used s\<rparr>)" using i by (simp add: shm_id_alloc_def x_def Let_def)
    then show ?thesis using f i(2,3) shm_okD(7) [OF ok] by auto
  next
    case Nil
    then have e: "shm_free_list s = -1" "free_chain (shm_ary s) (-1) []" using fl(1) by simp_all
    show ?thesis
    proof (cases "shm_id_used s < RT_LWP_SHM_MAX_NR")
      case True
      have "ids_of s K \<inter> {shm_id_used s} = {}" "ids_of s K \<union> set [] \<union> {shm_id_used s} = {0..<shm_id_used s + 1}"
        using fl(4) Nil shm_okD(6) [OF ok] by auto
      note f = shm_ok_free [OF ok e(2) _ _ _ this]
      have "shm_id_alloc s = (shm_id_used s, s\<lparr>shm_free_list := -1, shm_id_used := shm_id_used s + 1\<rparr>)"
        using e True by (simp add: shm_id_alloc_def)
      then show ?thesis using f shm_okD(6) [OF ok] True by auto
    next
      case False
      then show ?thesis using e fl(4) Nil shm_okD(7) [OF ok] by (simp add: shm_id_alloc_def)
    qed
  qed
qed

lemma shm_id_free_ok:
  assumes ok: "shm_ok s K {sid}"
  shows "shm_ok (shm_id_free sid s) K {}" "shm_entries (shm_id_free sid s) K = shm_entries s K"
proof -
  have sid: "0 \<le> sid" "sid < 64" "sid \<notin> ids_of s K" using shm_okD(8,9) [OF ok] by auto
  obtain fl where fl: "free_chain (shm_ary s) (shm_free_list s) fl" "distinct fl" "set fl \<inter> ids_of s K = {}" "sid \<notin> set fl"
    "ids_of s K \<union> set fl \<union> {sid} = {0..<shm_id_used s}" using ok unfolding shm_ok_def by auto
  define s1 where "s1 = upd_shm sid (\<lambda>p. p\<lparr>shm_addr := word_of_int (shm_free_list s)\<rparr>) s"
  have ok1: "shm_ok s1 K {sid}" unfolding s1_def by (rule shm_ok_upd [OF ok]) simp
  have f: "-1 \<le> shm_free_list s" "shm_free_list s < 64"
  proof -
    have "fl = [] \<longrightarrow> shm_free_list s = -1" "fl \<noteq> [] \<longrightarrow> shm_free_list s \<in> set fl" using fl(1) by (cases fl; simp)+
    moreover have "set fl \<subseteq> {0..<shm_id_used s}" using fl(5) by blast
    then have "set fl \<subseteq> {0..<64}" using shm_okD(7) [OF ok] by auto
    ultimately show "-1 \<le> shm_free_list s" "shm_free_list s < 64" by (cases "fl = []"; auto)+
  qed
  have "free_chain (shm_ary s1) (shm_free_list s) fl = free_chain (shm_ary s) (shm_free_list s) fl"
  proof (rule free_chain_cong)
    fix i assume "i \<in> set fl"
    then have "i \<noteq> sid" "0 \<le> i" using fl(4,5) by (auto simp: set_eq_iff)
    then show "shm_ary s1 (nat i) = shm_ary s (nat i)" using sid(1) by (simp add: s1_def upd_shm_def nat_eq_iff2)
  qed
  then have chain: "free_chain (shm_ary s1) sid (sid # fl)" using fl(1) sid(1) id_as_addr [OF f] by (simp add: s1_def upd_shm_def)
  have e: "shm_id_free sid s = s1\<lparr>shm_free_list := sid, shm_id_used := shm_id_used s\<rparr>" by (simp add: shm_id_free_def s1_def upd_shm_def)
  have ids: "ids_of s1 K = ids_of s K" by (simp add: s1_def upd_shm_def ids_of_def)
  have "distinct (sid # fl)" "set (sid # fl) \<inter> ids_of s1 K = {}" "set (sid # fl) \<inter> {} = {}" "ids_of s1 K \<inter> {} = {}"
    "ids_of s1 K \<union> set (sid # fl) \<union> {} = {0..<shm_id_used s}" using fl sid unfolding ids by auto
  note f = shm_ok_free [OF ok1 chain this shm_okD(6,7) [OF ok]]
  show "shm_ok (shm_id_free sid s) K {}" using f(1) e by simp
  show "shm_entries (shm_id_free sid s) K = shm_entries s K" using f(2) e entries_upd [OF sid(3,1)] by (simp add: s1_def)
qed

section \<open>Entries in the trees\<close>

lemma node_keys:
  assumes "shm_ok s K T" "n \<in> K"
  shows "avl_key (shm_tree_key s) n = shm_key (shm_ary s (shm_data s n))" "avl_key (shm_tree_pa s) (Suc n) = shm_addr (shm_ary s (shm_data s n))"
    "shm_data s (Suc n) = shm_data s n" "entry_fits (shm_ary s (shm_data s n))" "shm_data s n < 64"
proof -
  have "int (shm_data s n) \<in> ids_of s K \<union> T" using assms(2) by (auto simp: ids_of_def)
  from shm_okD(9) [OF assms(1) this] show "shm_data s n < 64" by simp
qed (use shm_okD(5) [OF assms] in \<open>simp_all add: node_ok_def Let_def\<close>)

lemma find_key_ok:
  assumes "shm_ok s K T"
  shows "\<exists>r. find_key key s = Some r \<and> (\<forall>n. r = Some n \<longleftrightarrow> n \<in> K \<and> shm_key (shm_ary s (shm_data s n)) = key)"
  using avl.search_law [OF shm_okD(1) [OF assms], of key] node_keys(1) [OF assms] by (auto simp: find_key_def)

lemma find_pa_ok:
  assumes "shm_ok s K T"
  shows "\<exists>r. find_pa pa s = Some r \<and> (\<forall>n. r = Some n \<longleftrightarrow> (\<exists>m \<in> K. n = Suc m \<and> shm_addr (shm_ary s (shm_data s m)) = pa))"
proof -
  from avl.search_law [OF shm_okD(2) [OF assms], of pa] obtain r where
    r: "find_pa pa s = Some r" "\<And>n. r = Some n \<longleftrightarrow> n \<in> Suc ` K \<and> avl_key (shm_tree_pa s) n = pa" by (auto simp: find_pa_def)
  have "n \<in> Suc ` K \<and> avl_key (shm_tree_pa s) n = pa \<longleftrightarrow> (\<exists>m \<in> K. n = Suc m \<and> shm_addr (shm_ary s (shm_data s m)) = pa)" for n
    using node_keys(2) [OF assms] by auto
  with r show ?thesis by auto
qed

text \<open>The node of an sid in use.\<close>

lemma shm_id_to_node_ok:
  assumes ok: "shm_ok s K {}"
  shows "\<exists>r. shm_id_to_node sid s = Some r \<and> (\<forall>n. r = Some n \<longleftrightarrow> n \<in> K \<and> int (shm_data s n) = sid)"
proof (cases "sid < 0 \<or> sid \<ge> RT_LWP_SHM_MAX_NR")
  case True
  then show ?thesis using node_keys(5) [OF ok] by (fastforce simp: shm_id_to_node_def)
next
  case False
  define key where "key = shm_key (shm_ary s (nat sid))"
  from find_key_ok [OF ok, of key] obtain r where
    r: "find_key key s = Some r" "\<And>n. r = Some n \<longleftrightarrow> n \<in> K \<and> shm_key (shm_ary s (shm_data s n)) = key" by blast
  show ?thesis
  proof (cases r)
    case None
    have "\<not> (n \<in> K \<and> int (shm_data s n) = sid)" for n using r(2) [of n] None by (auto simp: key_def)
    with None False r(1) show ?thesis by (auto simp: shm_id_to_node_def key_def)
  next
    case (Some m)
    have m: "m \<in> K" "shm_key (shm_ary s (shm_data s m)) = key" using r(2) [of m] Some by simp_all
    have u: "n = m" if "n \<in> K" "int (shm_data s n) = sid" for n
      using r(2) [of n] that Some by (auto simp: key_def)
    have "shm_id_to_node sid s = Some (if shm_data s m \<noteq> nat sid then None else Some m)"
      using Some False r(1) by (simp add: shm_id_to_node_def key_def)
    moreover have "int (shm_data s m) = sid \<longleftrightarrow> shm_data s m = nat sid" using False by auto
    ultimately show ?thesis using u m(1) by (intro exI [of _ "if shm_data s m \<noteq> nat sid then None else Some m"]) (metis option.distinct(1) option.inject)
  qed
qed

text \<open>Linking the entry in transit.\<close>

lemma shm_link_ok:
  assumes ok: "shm_ok s K {sid}" and n: "n \<notin> K" "Suc n \<notin> K" "n \<notin> Suc ` K" and fits: "entry_fits (shm_ary s (nat sid))"
    and key: "\<And>m. m \<in> K \<Longrightarrow> shm_key (shm_ary s (shm_data s m)) \<noteq> shm_key (shm_ary s (nat sid))"
    and addr: "\<And>m. m \<in> K \<Longrightarrow> shm_addr (shm_ary s (shm_data s m)) \<noteq> shm_addr (shm_ary s (nat sid))"
  shows "\<exists>s'. shm_link n sid s = Some s' \<and> shm_ok s' (insert n K) {} \<and> shm_ary s' = shm_ary s \<and> shm_data s' n = nat sid \<and>
    (\<forall>m \<in> K. shm_data s' m = shm_data s m)"
proof -
  define p where "p = shm_ary s (nat sid)"
  have sid: "0 \<le> sid" "sid \<notin> ids_of s K" using shm_okD(8,9) [OF ok] by auto
  have c: "Suc (card K) < avl_room" "Suc (card (Suc ` K)) < avl_room" using shm_card [OF ok] by (simp_all add: card_image)
  have h1: "avl_holds (set_key n (shm_key p) (shm_tree_key s)) K" using shm_okD(1) [OF ok] n(1) by (simp add: avl_holds_set_key)
  have k1: "avl_key (set_key n (shm_key p) (shm_tree_key s)) n \<notin> avl_key (set_key n (shm_key p) (shm_tree_key s)) ` K"
  proof -
    have "avl_key (set_key n (shm_key p) (shm_tree_key s)) m \<noteq> avl_key (set_key n (shm_key p) (shm_tree_key s)) n" if "m \<in> K" for m
      using that key [OF that] n(1) node_keys(1) [OF ok that] by (auto simp: set_key_def p_def)
    then show ?thesis by (metis imageE)
  qed
  from avl.link_law [OF h1 n(1) k1 c(1)] obtain tk where
    tk: "lwp_avl_insert n (set_key n (shm_key p) (shm_tree_key s)) = Some tk" "avl_holds tk (insert n K)"
      "avl_key tk = avl_key (set_key n (shm_key p) (shm_tree_key s))" by blast
  have sn: "Suc n \<notin> Suc ` K" using n(1) by auto
  have h2: "avl_holds (set_key (Suc n) (shm_addr p) (shm_tree_pa s)) (Suc ` K)" using shm_okD(2) [OF ok] sn by (simp add: avl_holds_set_key)
  define H where "H = set_key (Suc n) (shm_addr p) (shm_tree_pa s)"
  have "avl_key H (Suc n) \<noteq> avl_key H (Suc m)" if "m \<in> K" for m
    using that addr [OF that, symmetric] n(1) node_keys(2) [OF ok that] by (auto simp: set_key_def p_def H_def)
  then have k2: "avl_key H (Suc n) \<notin> avl_key H ` (Suc ` K)" by (simp add: image_iff)
  from avl.link_law [OF h2 [folded H_def] sn k2 c(2), unfolded H_def] obtain tp where
    tp: "lwp_avl_insert (Suc n) (set_key (Suc n) (shm_addr p) (shm_tree_pa s)) = Some tp" "avl_holds tp (insert (Suc n) (Suc ` K))"
      "avl_key tp = avl_key (set_key (Suc n) (shm_addr p) (shm_tree_pa s))" by blast
  have keys: "avl_key tk = (avl_key (shm_tree_key s))(n := shm_key p)" "avl_key tp = (avl_key (shm_tree_pa s))(Suc n := shm_addr p)"
    using tk(3) tp(3) by (simp_all add: set_key_def)
  define s' where "s' = s\<lparr>shm_tree_key := tk, shm_tree_pa := tp, shm_data := (shm_data s)(n := nat sid, Suc n := nat sid)\<rparr>"
  have link: "shm_link n sid s = Some s'" using tk(1) tp(1) by (simp add: shm_link_def Let_def s'_def p_def)
  have data: "shm_data s' m = shm_data s m" "shm_data s' (Suc m) = shm_data s (Suc m)" if "m \<in> K" for m
    using that n by (auto simp: s'_def)
  have ids: "ids_of s' (insert n K) = insert sid (ids_of s K)" using data sid(1) by (simp add: ids_of_def) (simp add: s'_def)
  have inj: "inj_on (shm_data s') (insert n K)"
  proof -
    have "inj_on (shm_data s') K" using shm_okD(4) [OF ok] data(1) by (simp add: inj_on_def)
    moreover have "shm_data s m \<noteq> nat sid" if "m \<in> K" for m using sid that by (auto simp: ids_of_def image_iff)
    then have "shm_data s' n \<notin> shm_data s' ` K" using data(1) by (fastforce simp: s'_def)
    ultimately show ?thesis using n(1) by simp
  qed
  have node: "node_ok s' m" if "m \<in> insert n K" for m
  proof (cases "m = n")
    case True
    then show ?thesis using fits by (simp add: node_ok_def s'_def keys p_def)
  next
    case False
    then have m: "m \<in> K" using that by simp
    then show ?thesis using node_keys [OF ok m] data [OF m] False n by (auto simp: node_ok_def Let_def) (auto simp: s'_def keys)
  qed
  have "shm_ok s' (insert n K) {}"
    unfolding shm_ok_def ids
  proof (intro conjI)
    show "avl_holds (shm_tree_key s') (insert n K)" "avl_holds (shm_tree_pa s') (Suc ` insert n K)" using tk(2) tp(2) by (simp_all add: s'_def)
    show "insert n K \<inter> Suc ` insert n K = {}" using shm_okD(3) [OF ok] n by auto
    show "inj_on (shm_data s') (insert n K)" by (rule inj)
    show "\<forall>m\<in>insert n K. node_ok s' m" using node by blast
    show "0 \<le> shm_id_used s'" "shm_id_used s' \<le> RT_LWP_SHM_MAX_NR" using shm_okD(6,7) [OF ok] by (simp_all add: s'_def)
    show "\<exists>fl. free_chain (shm_ary s') (shm_free_list s') fl \<and> distinct fl \<and> set fl \<inter> insert sid (ids_of s K) = {} \<and> set fl \<inter> {} = {} \<and>
        insert sid (ids_of s K) \<inter> {} = {} \<and> insert sid (ids_of s K) \<union> set fl \<union> {} = {0..<shm_id_used s'}"
      using ok unfolding shm_ok_def by (auto simp: s'_def)
  qed
  with link data(1) show ?thesis by (auto simp: s'_def)
qed

text \<open>Unlinking an entry leaves it in transit.\<close>

lemma shm_unlink_ok:
  assumes ok: "shm_ok s K {}" and n: "n \<in> K"
  shows "\<exists>tk tp. lwp_avl_remove n (shm_tree_key s) = Some tk \<and> lwp_avl_remove (Suc n) (shm_tree_pa s) = Some tp \<and>
    shm_ok (s\<lparr>shm_tree_key := tk, shm_tree_pa := tp\<rparr>) (K - {n}) {int (shm_data s n)}"
proof -
  from avl.unlink_law [OF shm_okD(1) [OF ok] n] obtain tk where
    tk: "lwp_avl_remove n (shm_tree_key s) = Some tk" "avl_holds tk (K - {n})" "avl_key tk = avl_key (shm_tree_key s)" by blast
  have sn: "Suc n \<in> Suc ` K" using n by simp
  from avl.unlink_law [OF shm_okD(2) [OF ok] sn] obtain tp where
    tp: "lwp_avl_remove (Suc n) (shm_tree_pa s) = Some tp" "avl_holds tp (Suc ` K - {Suc n})" "avl_key tp = avl_key (shm_tree_pa s)" by blast
  define s' where "s' = s\<lparr>shm_tree_key := tk, shm_tree_pa := tp\<rparr>"
  have K: "Suc ` K - {Suc n} = Suc ` (K - {n})" by auto
  have ids: "ids_of s K = insert (int (shm_data s n)) (ids_of s' (K - {n}))" "int (shm_data s n) \<notin> ids_of s' (K - {n})"
    using n shm_okD(4) [OF ok] by (auto simp: ids_of_def s'_def inj_on_def)
  have node: "node_ok s' m = node_ok s m" for m by (simp add: node_ok_def s'_def tk(3) tp(3))
  have "shm_ok s' (K - {n}) {int (shm_data s n)}"
    unfolding shm_ok_def node
  proof (intro conjI)
    show "avl_holds (shm_tree_key s') (K - {n})" "avl_holds (shm_tree_pa s') (Suc ` (K - {n}))" using tk(2) tp(2) K by (simp_all add: s'_def)
    show "(K - {n}) \<inter> Suc ` (K - {n}) = {}" using shm_okD(3) [OF ok] by auto
    show "inj_on (shm_data s') (K - {n})" using shm_okD(4) [OF ok] by (simp add: s'_def inj_on_diff)
    show "\<forall>m\<in>K - {n}. node_ok s m" using shm_okD(5) [OF ok] by blast
    show "0 \<le> shm_id_used s'" "shm_id_used s' \<le> RT_LWP_SHM_MAX_NR" using shm_okD(6,7) [OF ok] by (simp_all add: s'_def)
    show "\<exists>fl. free_chain (shm_ary s') (shm_free_list s') fl \<and> distinct fl \<and> set fl \<inter> ids_of s' (K - {n}) = {} \<and>
        set fl \<inter> {int (shm_data s n)} = {} \<and> ids_of s' (K - {n}) \<inter> {int (shm_data s n)} = {} \<and>
        ids_of s' (K - {n}) \<union> set fl \<union> {int (shm_data s n)} = {0..<shm_id_used s'}"
      using ok ids unfolding shm_ok_def by (auto simp: s'_def)
  qed
  with tk(1) tp(1) show ?thesis by (simp add: s'_def)
qed

section \<open>Pages of an entry\<close>

lemma unat_power: "b < 52 \<Longrightarrow> unat (push_bit (b + 12) 1 :: u64) = 2 ^ (b + 12)"
proof -
  assume "b < 52"
  then have "(2 :: nat) ^ (b + 12) < 2 ^ 64" by (intro power_strict_increasing) simp_all
  then show ?thesis unfolding unsigned_push_bit_eq by (subst take_bit_nat_eq_self) (simp_all add: push_bit_eq_mult)
qed

lemma page_bits_power: "b < 52 \<Longrightarrow> rt_page_bits (push_bit (b + 12) 1) = Some (int b)"
proof -
  assume b: "b < 52"
  have u: "unat (push_bit (b + 12) 1 :: u64) = 2 ^ (b + 12)" by (rule unat_power [OF b])
  then have "(push_bit (b + 12) 1 :: u64) \<noteq> 0" by (metis power_not_zero unsigned_0 zero_neq_numeral)
  from page_bits_ok [OF this] obtain c where
    c: "rt_page_bits (push_bit (b + 12) 1) = Some (int c)" "(2 :: nat) ^ (b + 12) \<le> 2 ^ (c + 12)" "c = 0 \<or> (2 :: nat) ^ (c + 11) < 2 ^ (b + 12)"
    unfolding u by blast
  have "b \<le> c" using power_le_imp_le_exp [OF _ c(2)] by simp
  moreover have "c \<le> b" using c(3) power_less_imp_less_exp [of "2 :: nat" "c + 11" "b + 12"] by auto
  ultimately show ?thesis using c(1) by simp
qed

lemma page_bits_small:
  assumes "sz \<noteq> 0" "unat sz \<le> 2 ^ 63"
  shows "\<exists>b. rt_page_bits sz = Some (int b) \<and> b < 52 \<and> unat sz \<le> 2 ^ (b + 12)"
proof -
  from page_bits_ok [OF assms(1)] obtain b where b: "rt_page_bits sz = Some (int b)" "unat sz \<le> 2 ^ (b + 12)" "b = 0 \<or> 2 ^ (b + 11) < unat sz" by blast
  have "b < 52"
  proof (rule ccontr)
    assume "\<not> b < 52"
    then have "(2 :: nat) ^ 63 \<le> 2 ^ (b + 11)" by (intro power_increasing) simp_all
    with b(3) assms(2) \<open>\<not> b < 52\<close> show False by simp
  qed
  with b show ?thesis by blast
qed

text \<open>Groups of pages for an entry.\<close>

lemma alloc_group:
  assumes h: "page_exact (mm_pages st) U G" and b: "b < 52"
  shows "(alloc_pages b st = Some (0, st) \<and> rt_pages_alloc b (mm_pages st) = Some (0, mm_pages st)) \<or>
    (\<exists>a st'. alloc_pages b st = Some (a, st') \<and> a \<noteq> 0 \<and> page_exact (mm_pages st') U (insert (unat a, b) G) \<and> (\<forall>m. (unat a, m) \<notin> U \<union> G))"
  using exact_alloc [OF h b]
proof (elim disjE exE conjE)
  assume "rt_pages_alloc b (mm_pages st) = Some (0, mm_pages st)"
  then show ?thesis by (simp add: alloc_pages_def)
next
  fix a ps'
  assume a: "rt_pages_alloc b (mm_pages st) = Some (a, ps')" "0 < a" "a < 2 ^ 56" "page_exact ps' U (insert (a, b) G)" "\<forall>m. (a, m) \<notin> U \<union> G"
  then have u: "unat (word_of_nat a :: u64) = a" by (simp add: unsigned_of_nat take_bit_nat_eq_self)
  then have "(word_of_nat a :: u64) \<noteq> 0" using a(2) by auto
  with a u show ?thesis by (intro disjI2 exI [of _ "word_of_nat a"] exI [of _ "st\<lparr>mm_pages := ps'\<rparr>"]) (simp add: alloc_pages_def)
qed

lemma free_group:
  assumes "page_exact (mm_pages st) U G" "(unat a, b) \<in> G"
  shows "\<exists>st'. free_pages a b st = Some st' \<and> page_exact (mm_pages st') U (G - {(unat a, b)})"
  using exact_free [OF assms] by (auto simp: free_pages_def)

section \<open>What the functions promise\<close>

lemma groups_same: "(\<And>m. m \<in> K \<Longrightarrow> shm_ary s' (shm_data s' m) = shm_ary s (shm_data s m)) \<Longrightarrow> shm_groups s' K = shm_groups s K"
  by (auto simp: shm_groups_def)

lemma entries_groups: "shm_groups s K = shm_group ` {p. \<exists>i. shm_entries s K i = Some p}"
  by (auto simp: shm_groups_def shm_entries_def ids_of_def image_iff) (metis nat_int)

lemma entry_of_key:
  assumes ok: "shm_ok s K T"
  shows "(\<exists>i p. shm_entries s K i = Some p \<and> shm_key p = key) \<longleftrightarrow> (\<exists>m \<in> K. shm_key (shm_ary s (shm_data s m)) = key)"
  by (auto simp: shm_entries_def ids_of_def image_iff) (metis nat_int)

lemma shmget_ok:
  assumes ok: "shm_state_ok s st K U" and n: "\<And>n. mem = Some n \<Longrightarrow> n \<notin> K \<and> Suc n \<notin> K \<and> n \<notin> Suc ` K" and sz: "unat sz \<le> 2 ^ 63"
  shows "\<exists>r s' st'. lwp_shmget key sz create mem s st = Some (r, s', st') \<and>
    (if \<exists>i p. shm_entries s K i = Some p \<and> shm_key p = key
     then s' = s \<and> st' = st \<and> (\<exists>p. shm_entries s K r = Some p \<and> shm_key p = key)
     else if r = -1
     then shm_state_ok s' st' K U \<and> shm_entries s' K = shm_entries s K \<and>
       (\<not> create \<or> sz = 0 \<or> mem = None \<or> card K = 64 \<or>
        (\<exists>b. rt_page_bits sz = Some (int b) \<and> rt_pages_alloc b (mm_pages st) = Some (0, mm_pages st)))
     else shm_state_ok s' st' (insert (the mem) K) U \<and> shm_entries s K r = None \<and> 0 \<le> r \<and> r < 64 \<and>
       (\<exists>p. shm_key p = key \<and> shm_ref p = 0 \<and> sz \<le> shm_size p \<and> shm_entries s' (insert (the mem) K) = (shm_entries s K)(r \<mapsto> p)))"
proof -
  have ok1: "shm_ok s K {}" and hold: "page_exact (mm_pages st) U (shm_groups s K)"
    using ok by (simp_all add: shm_state_ok_def)
  from find_key_ok [OF ok1, of key] obtain r where
    r: "find_key key s = Some r" "\<And>m. r = Some m \<longleftrightarrow> m \<in> K \<and> shm_key (shm_ary s (shm_data s m)) = key" by blast
  note ek = entry_of_key [OF ok1, of key]
  show ?thesis
  proof (cases r)
    case (Some m)
    then have m: "m \<in> K" "shm_key (shm_ary s (shm_data s m)) = key" using r(2) [of m] by simp_all
    then have "shm_entries s K (int (shm_data s m)) = Some (shm_ary s (shm_data s m))" by (simp add: shm_entries_def ids_of_def)
    with Some m r(1) ek show ?thesis by (auto simp: lwp_shmget_def)
  next
    case None
    have new: "\<not> (\<exists>i p. shm_entries s K i = Some p \<and> shm_key p = key)" and nk: "\<And>m. m \<in> K \<Longrightarrow> shm_key (shm_ary s (shm_data s m)) \<noteq> key"
      using r(2) None ek by auto
    show ?thesis
    proof (cases "create \<and> sz \<noteq> 0")
      case False
      with None r(1) new ok show ?thesis by (auto simp: lwp_shmget_def)
    next
      case cs: True
      from shm_id_alloc_ok [OF ok1] show ?thesis
      proof (elim disjE conjE exE)
        assume full: "shm_id_alloc s = (-1, s)" "ids_of s K = {0..<64}"
        have "card (ids_of s K) = card K"
          unfolding ids_of_def by (rule card_image) (use shm_okD(4) [OF ok1] in \<open>auto simp: inj_on_def\<close>)
        with full None r(1) new ok cs show ?thesis by (auto simp: lwp_shmget_def)
      next
        fix sid s1
        assume a: "shm_id_alloc s = (sid, s1)" "0 \<le> sid" "sid < 64" "shm_ok s1 K {sid}" "shm_entries s1 K = shm_entries s K"
          "shm_ary s1 = shm_ary s" "shm_data s1 = shm_data s" "shm_tree_key s1 = shm_tree_key s" "shm_tree_pa s1 = shm_tree_pa s"
        from page_bits_small [of sz] cs sz obtain b where b: "rt_page_bits sz = Some (int b)" "b < 52" "unat sz \<le> 2 ^ (b + 12)" by blast
        have gs: "shm_groups s1 K = shm_groups s K" by (rule groups_same) (simp add: a)
        have start: "lwp_shmget key sz create mem s st =
            Option.bind (alloc_pages b st) (\<lambda>(page_addr, st). if page_addr = 0 then Some (-1, shm_id_free sid s1, st)
              else let s = upd_shm sid (\<lambda>_. \<lparr>shm_addr = page_addr, shm_size = push_bit (b + 12) 1, shm_ref = 0, shm_key = key\<rparr>) s1 in
              case mem of
                None \<Rightarrow> do { st \<leftarrow> free_pages page_addr b st; Some (-1, shm_id_free sid s, st) }
              | Some n \<Rightarrow> do { s \<leftarrow> shm_link n sid s; Some (sid, s, st) })"
          using None r(1) cs a(1,2) b(1) by (simp add: lwp_shmget_def Let_def cong: option.case_cong if_cong)
        have sn: "sid \<notin> ids_of s K" using shm_okD(8) [OF a(4)] a(7) by (auto simp: ids_of_def)
        have given_back: "shm_state_ok (shm_id_free sid x) st' K U" "shm_entries (shm_id_free sid x) K = shm_entries s K"
          if "shm_ok x K {sid}" "shm_entries x K = shm_entries s K" "page_exact (mm_pages st') U (shm_groups s K)" for x st'
        proof -
          show e: "shm_entries (shm_id_free sid x) K = shm_entries s K" using shm_id_free_ok(2) [OF that(1)] that(2) by simp
          have "shm_groups (shm_id_free sid x) K = shm_groups s K" unfolding entries_groups e ..
          then show "shm_state_ok (shm_id_free sid x) st' K U" using shm_id_free_ok(1) [OF that(1)] that(3) by (simp add: shm_state_ok_def)
        qed
        from alloc_group [OF hold b(2)] show ?thesis
        proof (elim disjE conjE exE)
          assume z: "alloc_pages b st = Some (0, st)" "rt_pages_alloc b (mm_pages st) = Some (0, mm_pages st)"
          with start given_back [OF a(4,5) hold] new b(1) show ?thesis by auto
        next
          fix pa st1
          assume p: "alloc_pages b st = Some (pa, st1)" "pa \<noteq> 0"
            "page_exact (mm_pages st1) U (insert (unat pa, b) (shm_groups s K))" "\<forall>m. (unat pa, m) \<notin> U \<union> shm_groups s K"
          define p where "p = \<lparr>shm_addr = pa, shm_size = push_bit (b + 12) 1, shm_ref = 0, shm_key = key\<rparr>"
          define s2 where "s2 = upd_shm sid (\<lambda>_. p) s1"
          have fits: "entry_fits p" "shm_group p = (unat pa, b)"
            using page_bits_power [OF b(2)] b(2) by (simp_all add: entry_fits_def shm_bits_def shm_group_def p_def)
          have ok2: "shm_ok s2 K {sid}" unfolding s2_def by (rule shm_ok_upd [OF a(4)]) simp
          have e2: "shm_entries s2 K = shm_entries s K" unfolding s2_def using entries_upd [of sid s1 K] sn a(2,5,7) by (simp add: ids_of_def)
          have ary: "shm_ary s2 (nat sid) = p" "\<And>m. m \<in> K \<Longrightarrow> shm_ary s2 (shm_data s2 m) = shm_ary s (shm_data s m)" "shm_data s2 = shm_data s"
            using sn a(2) by (auto simp: s2_def upd_shm_def a(6,7) ids_of_def image_iff)
          show ?thesis
          proof (cases mem)
            case None
            from free_group [OF p(3), of pa b] obtain st2 where f: "free_pages pa b st1 = Some st2"
              "page_exact (mm_pages st2) U (insert (unat pa, b) (shm_groups s K) - {(unat pa, b)})" by auto
            have "insert (unat pa, b) (shm_groups s K) - {(unat pa, b)} = shm_groups s K" using p(4) by auto
            with f have h2: "page_exact (mm_pages st2) U (shm_groups s K)" by simp
            have "lwp_shmget key sz create mem s st = Some (-1, shm_id_free sid s2, st2)"
              unfolding start using p(1,2) f(1) None by (simp add: s2_def p_def)
            with given_back [OF ok2 e2 h2] new None show ?thesis by auto
          next
            case (Some n)
            have nn: "n \<notin> K" "Suc n \<notin> K" "n \<notin> Suc ` K" using assms(2) [OF Some] by simp_all
            have k: "shm_key (shm_ary s2 (shm_data s2 m)) \<noteq> shm_key (shm_ary s2 (nat sid))" if "m \<in> K" for m
              using nk [OF that] ary that by (simp add: p_def)
            have ad: "shm_addr (shm_ary s2 (shm_data s2 m)) \<noteq> shm_addr (shm_ary s2 (nat sid))" if "m \<in> K" for m
            proof
              assume "shm_addr (shm_ary s2 (shm_data s2 m)) = shm_addr (shm_ary s2 (nat sid))"
              then have "shm_group (shm_ary s (shm_data s m)) = (unat pa, shm_bits (shm_ary s (shm_data s m)))"
                using ary that by (simp add: shm_group_def p_def)
              moreover have "shm_group (shm_ary s (shm_data s m)) \<in> shm_groups s K" using that by (simp add: shm_groups_def)
              ultimately show False using p(4) by auto
            qed
            from shm_link_ok [OF ok2 nn _ k ad] fits(1) ary(1) obtain s3 where
              l: "shm_link n sid s2 = Some s3" "shm_ok s3 (insert n K) {}" "shm_ary s3 = shm_ary s2" "shm_data s3 n = nat sid"
                "\<And>m. m \<in> K \<Longrightarrow> shm_data s3 m = shm_data s2 m" by auto
            have ret: "lwp_shmget key sz create mem s st = Some (sid, s3, st1)"
              unfolding start using p(1,2) l(1) Some by (simp add: s2_def p_def)
            have ids: "ids_of s3 (insert n K) = insert sid (ids_of s K)" using l(4,5) ary(3) a(2) by (simp add: ids_of_def)
            have ent: "shm_entries s3 (insert n K) = (shm_entries s K)(sid \<mapsto> p)"
            proof (rule ext)
              fix i
              have "shm_ary s3 (nat i) = shm_ary s (nat i)" if "i \<noteq> sid" "i \<in> ids_of s K"
                using that a(2) by (auto simp: l(3) s2_def upd_shm_def a(6) ids_of_def nat_eq_iff2)
              then show "shm_entries s3 (insert n K) i = ((shm_entries s K)(sid \<mapsto> p)) i"
                using ary(1) by (auto simp: shm_entries_def ids l(3))
            qed
            have gr: "shm_groups s3 (insert n K) = insert (unat pa, b) (shm_groups s K)"
            proof -
              have "shm_groups s3 K = shm_groups s K" by (rule groups_same) (simp add: l(3,5) ary(2))
              moreover have "shm_groups s3 (insert n K) = insert (shm_group p) (shm_groups s3 K)" by (simp add: shm_groups_def l(3,4) ary(1))
              ultimately show ?thesis by (simp add: fits(2))
            qed
            have "shm_state_ok s3 st1 (insert n K) U" using l(2) p(3) by (simp add: shm_state_ok_def gr)
            moreover have "sz \<le> shm_size p" using b(3) unat_power [OF b(2)] by (simp add: p_def word_le_nat_alt)
            moreover have "shm_entries s K sid = None" using sn by (simp add: shm_entries_def)
            moreover have "shm_key p = key" "shm_ref p = 0" by (simp_all add: p_def)
            ultimately show ?thesis using ret ent new a(2,3) Some
              by (intro exI [of _ sid] exI [of _ s3] exI [of _ st1]) auto
          qed
        qed
      qed
    qed
  qed
qed

lemma image_remove: "(\<And>m. m \<in> K \<Longrightarrow> m \<noteq> n \<Longrightarrow> f m \<noteq> f n) \<Longrightarrow> f ` (K - {n}) = f ` K - {f n}"
proof (rule equalityI; rule subsetI)
  fix y assume "\<And>m. m \<in> K \<Longrightarrow> m \<noteq> n \<Longrightarrow> f m \<noteq> f n" "y \<in> f ` (K - {n})"
  then show "y \<in> f ` K - {f n}" by (elim imageE) simp
next
  fix y assume "y \<in> f ` K - {f n}"
  then show "y \<in> f ` (K - {n})" by (elim DiffE imageE) (auto intro!: imageI)
qed

lemma shmrm_ok:
  assumes ok: "shm_state_ok s st K U"
  shows "case shm_entries s K sid of
      None \<Rightarrow> lwp_shmrm sid s st = Some (-1, s, st)
    | Some p \<Rightarrow> if shm_ref p \<noteq> 0 then lwp_shmrm sid s st = Some (0, s, st)
        else \<exists>s' st' n. n \<in> K \<and> lwp_shmrm sid s st = Some (0, s', st') \<and> shm_state_ok s' st' (K - {n}) U \<and>
          shm_entries s' (K - {n}) = (shm_entries s K)(sid := None)"
proof -
  have ok1: "shm_ok s K {}" and hold: "page_exact (mm_pages st) U (shm_groups s K)"
    using ok by (simp_all add: shm_state_ok_def)
  from shm_id_to_node_ok [OF ok1, of sid] obtain r where
    r: "shm_id_to_node sid s = Some r" "\<And>n. r = Some n \<longleftrightarrow> n \<in> K \<and> int (shm_data s n) = sid" by blast
  show ?thesis
  proof (cases r)
    case None
    have "sid \<notin> ids_of s K" using r(2) None by (auto simp: ids_of_def)
    with None r(1) show ?thesis by (simp add: shm_entries_def lwp_shmrm_def)
  next
    case (Some n)
    have n: "n \<in> K" "int (shm_data s n) = sid" using r(2) [of n] Some by simp_all
    define p where "p = shm_ary s (shm_data s n)"
    have ent: "shm_entries s K sid = Some p" using n by (auto simp: shm_entries_def ids_of_def p_def)
    show ?thesis
    proof (cases "shm_ref p = 0")
      case False
      with Some r(1) ent show ?thesis by (simp add: lwp_shmrm_def p_def)
    next
      case True
      have fits: "rt_page_bits (shm_size p) = Some (int (shm_bits p))" using node_keys(4) [OF ok1 n(1)] unfolding entry_fits_def p_def by blast
      have gp: "shm_group p \<in> shm_groups s K" using n(1) by (simp add: shm_groups_def p_def)
      then have "(unat (shm_addr p), shm_bits p) \<in> shm_groups s K" by (simp add: shm_group_def)
      from free_group [OF hold this] obtain st1 where
        f: "free_pages (shm_addr p) (shm_bits p) st = Some st1" "page_exact (mm_pages st1) U (shm_groups s K - {shm_group p})"
        by (auto simp: shm_group_def)
      from shm_unlink_ok [OF ok1 n(1)] obtain tk tp where
        u: "lwp_avl_remove n (shm_tree_key s) = Some tk" "lwp_avl_remove (Suc n) (shm_tree_pa s) = Some tp"
          "shm_ok (s\<lparr>shm_tree_key := tk, shm_tree_pa := tp\<rparr>) (K - {n}) {sid}" unfolding n(2) by blast
      define s1 where "s1 = s\<lparr>shm_tree_key := tk, shm_tree_pa := tp\<rparr>"
      have rm: "lwp_shmrm sid s st = Some (0, shm_id_free sid s1, st1)"
        using Some r(1) True fits f(1) u(1,2) by (simp add: lwp_shmrm_def p_def s1_def)
      have ids: "ids_of s1 (K - {n}) = ids_of s K - {sid}"
        using n shm_okD(4) [OF ok1] by (auto simp: ids_of_def s1_def inj_on_def)
      have "shm_entries s1 (K - {n}) = (shm_entries s K)(sid := None)"
        unfolding shm_entries_def ids by (auto simp: s1_def fun_eq_iff)
      then have ent': "shm_entries (shm_id_free sid s1) (K - {n}) = (shm_entries s K)(sid := None)"
        using shm_id_free_ok(2) [OF u(3)] by (simp add: s1_def)
      have apart: "shm_group (shm_ary s (shm_data s m)) \<noteq> shm_group p" if "m \<in> K" "m \<noteq> n" for m
      proof
        assume e: "shm_group (shm_ary s (shm_data s m)) = shm_group p"
        then have "shm_addr (shm_ary s (shm_data s m)) = shm_addr p" by (simp add: shm_group_def word_unat_eq_iff)
        moreover obtain q where "\<And>x. q = Some x \<longleftrightarrow> (\<exists>m \<in> K. x = Suc m \<and> shm_addr (shm_ary s (shm_data s m)) = shm_addr p)"
          using find_pa_ok [OF ok1, of "shm_addr p"] by blast
        ultimately have "q = Some (Suc m)" "q = Some (Suc n)" using that(1) n(1) by (blast, auto simp: p_def)
        with that show False by simp
      qed
      have "shm_groups (shm_id_free sid s1) (K - {n}) = shm_groups s K - {shm_group p}"
      proof -
        have "shm_groups (shm_id_free sid s1) (K - {n}) = shm_groups s1 (K - {n})"
          unfolding entries_groups using shm_id_free_ok(2) [OF u(3)] by (simp add: s1_def)
        also have "\<dots> = (\<lambda>m. shm_group (shm_ary s (shm_data s m))) ` (K - {n})" by (simp add: shm_groups_def s1_def)
        also have "\<dots> = shm_groups s K - {shm_group p}"
          unfolding shm_groups_def p_def by (rule image_remove) (rule apart [unfolded p_def])
        finally show ?thesis .
      qed
      then have "shm_state_ok (shm_id_free sid s1) st1 (K - {n}) U"
        using shm_id_free_ok(1) [OF u(3)] f(2) by (simp add: shm_state_ok_def s1_def)
      with rm ent' n(1) ent True show ?thesis by auto
    qed
  qed
qed

text \<open>Counting the processes that use an entry.\<close>

lemma struct_get_ok:
  assumes ok: "shm_ok s K {}" and pa: "rt_hw_mmu_v2p mi va st = Some pa"
  shows "\<exists>r. lwp_shm_struct_get mi va s st = Some r \<and>
    (\<forall>i. r = Some i \<longleftrightarrow> (\<exists>m \<in> K. i = shm_data s m \<and> shm_addr (shm_ary s i) = pa))"
proof -
  from find_pa_ok [OF ok, of pa] obtain r where
    r: "find_pa pa s = Some r" "\<And>n. r = Some n \<longleftrightarrow> (\<exists>m \<in> K. n = Suc m \<and> shm_addr (shm_ary s (shm_data s m)) = pa)" by blast
  show ?thesis
  proof (cases r)
    case None
    then have "\<not> (\<exists>m \<in> K. i = shm_data s m \<and> shm_addr (shm_ary s i) = pa)" for i using r(2) by blast
    then show ?thesis using None r(1) pa by (simp add: lwp_shm_struct_get_def)
  next
    case (Some n)
    then obtain m where m: "m \<in> K" "n = Suc m" "shm_addr (shm_ary s (shm_data s m)) = pa" using r(2) [of n] by auto
    have u: "m' = m" if "m' \<in> K" "shm_addr (shm_ary s (shm_data s m')) = pa" for m'
    proof -
      have "r = Some (Suc m')" using r(2) [of "Suc m'"] that by blast
      with Some m(2) show ?thesis by simp
    qed
    have "lwp_shm_struct_get mi va s st = Some (Some (shm_data s m))"
      using Some r(1) pa m node_keys(3) [OF ok m(1)] by (simp add: lwp_shm_struct_get_def)
    moreover have "Some (shm_data s m) = Some i \<longleftrightarrow> (\<exists>m' \<in> K. i = shm_data s m' \<and> shm_addr (shm_ary s i) = pa)" for i
      using u m(1,3) by blast
    ultimately show ?thesis by blast
  qed
qed

lemma shm_ok_ref:
  assumes ok: "shm_ok s K {}" and m: "m \<in> K" "i = shm_data s m" and x: "0 \<le> x"
  shows "shm_ok (upd_shm (int i) (\<lambda>p. p\<lparr>shm_ref := x\<rparr>) s) K {}" (is "shm_ok ?s K {}")
    and "shm_entries (upd_shm (int i) (\<lambda>p. p\<lparr>shm_ref := x\<rparr>) s) K = (shm_entries s K)(int i \<mapsto> (shm_ary s i)\<lparr>shm_ref := x\<rparr>)"
    and "shm_groups (upd_shm (int i) (\<lambda>p. p\<lparr>shm_ref := x\<rparr>) s) K = shm_groups s K"
proof -
  have ids: "ids_of ?s K = ids_of s K" by (simp add: ids_of_def upd_shm_def)
  have "node_ok ?s n = node_ok s n" if "n \<in> K" for n
    using node_keys(4) [OF ok that] x by (auto simp: node_ok_def Let_def upd_shm_def entry_fits_def shm_bits_def)
  moreover have "free_chain (shm_ary ?s) y fl = free_chain (shm_ary s) y fl" for y fl
    by (induction fl arbitrary: y) (auto simp: upd_shm_def)
  ultimately show "shm_ok ?s K {}" using ok unfolding shm_ok_def ids by (simp add: upd_shm_def)
  have "int i \<in> ids_of s K" using m by (simp add: ids_of_def)
  then show "shm_entries ?s K = (shm_entries s K)(int i \<mapsto> (shm_ary s i)\<lparr>shm_ref := x\<rparr>)"
    unfolding shm_entries_def ids by (auto simp: upd_shm_def fun_eq_iff ids_of_def)
  show "shm_groups ?s K = shm_groups s K" by (auto simp: shm_groups_def upd_shm_def shm_group_def shm_bits_def)
qed

text \<open>The read out of bounds on a huge size.\<close>

lemma page_bits_huge: "2 ^ 63 < unat sz \<Longrightarrow> rt_page_bits sz = Some 52"
proof -
  assume s: "2 ^ 63 < unat sz"
  then have "sz \<noteq> 0" by auto
  from page_bits_ok [OF this] obtain b where b: "rt_page_bits sz = Some (int b)" "unat sz \<le> 2 ^ (b + 12)" "b = 0 \<or> 2 ^ (b + 11) < unat sz" by blast
  have "(2 :: nat) ^ 63 < 2 ^ (b + 12)" using s b(2) by linarith
  then have "63 < b + 12" using power_less_imp_less_exp [of "2 :: nat" 63 "b + 12"] by simp
  moreover have "b < 53"
  proof (rule ccontr)
    assume "\<not> b < 53"
    then have "(2 :: nat) ^ 64 \<le> 2 ^ (b + 11)" by (intro power_increasing) simp_all
    with b(3) \<open>\<not> b < 53\<close> show False using unsigned_less [of sz, where ?'a = nat] by simp
  qed
  ultimately have "b = 52" by simp
  with b(1) show ?thesis by simp
qed

text \<open>C11: \<open>lwp_shmget\<close>: a key in use gives the entry it belongs to and changes nothing. Otherwise a new entry is made: an id that was
  not in use, with the key, no users, and a group of pages of its own that holds the size; no other entry changes. The call fails, and
  then leaves the entries as they were, only if it was not to create an entry, the size is zero, the entries or the
  pages are used up, or there is no memory for the nodes. The invariant says that the groups of pages in use are exactly those of
  the entries and the groups \<open>U\<close> of others and that every other page is free, so a failing call has given back the
  pages it took. Sizes are at most \<open>2^63\<close>.\<close>

theorem shmget_correct:
  assumes "shm_state_ok s st K U" "\<And>n. mem = Some n \<Longrightarrow> n \<notin> K \<and> Suc n \<notin> K \<and> n \<notin> Suc ` K" "unat sz \<le> 2 ^ 63"
  shows "\<exists>r s' st'. lwp_shmget key sz create mem s st = Some (r, s', st') \<and>
    (if \<exists>i p. shm_entries s K i = Some p \<and> shm_key p = key
     then s' = s \<and> st' = st \<and> (\<exists>p. shm_entries s K r = Some p \<and> shm_key p = key)
     else if r = -1
     then shm_state_ok s' st' K U \<and> shm_entries s' K = shm_entries s K \<and>
       (\<not> create \<or> sz = 0 \<or> mem = None \<or> card K = 64 \<or>
        (\<exists>b. rt_page_bits sz = Some (int b) \<and> rt_pages_alloc b (mm_pages st) = Some (0, mm_pages st)))
     else shm_state_ok s' st' (insert (the mem) K) U \<and> shm_entries s K r = None \<and> 0 \<le> r \<and> r < 64 \<and>
       (\<exists>p. shm_key p = key \<and> shm_ref p = 0 \<and> sz \<le> shm_size p \<and> shm_entries s' (insert (the mem) K) = (shm_entries s K)(r \<mapsto> p)))"
  using assms by (rule shmget_ok)

text \<open>C12: \<open>lwp_shmrm\<close>: an id that is not in use gives an error, an entry that is still used stays; an entry without users is
  removed, no other entry changes, and its pages go back to the page allocator: the groups in use are then exactly those of the
  other entries and the groups \<open>U\<close> of others, and every other page is free.\<close>

theorem shmrm_correct:
  assumes "shm_state_ok s st K U"
  shows "case shm_entries s K sid of
      None \<Rightarrow> lwp_shmrm sid s st = Some (-1, s, st)
    | Some p \<Rightarrow> if shm_ref p \<noteq> 0 then lwp_shmrm sid s st = Some (0, s, st)
        else \<exists>s' st' n. n \<in> K \<and> lwp_shmrm sid s st = Some (0, s', st') \<and> shm_state_ok s' st' (K - {n}) U \<and>
          shm_entries s' (K - {n}) = (shm_entries s K)(sid := None)"
  using assms by (rule shmrm_ok)

text \<open>Counting users by an address of a process: the entry whose pages start at the physical address it is mapped to is counted up or down
  (not below zero) and the new count returned; an address that belongs to no entry gives -1.\<close>

theorem shm_ref_correct:
  assumes ok: "shm_state_ok s st K U" and pa: "rt_hw_mmu_v2p mi va st = Some pa"
  shows "(\<exists>i p s1 r s2. shm_entries s K i = Some p \<and> shm_addr p = pa \<and>
        lwp_shm_ref_inc mi va s st = Some (shm_ref p + 1, s1) \<and> shm_state_ok s1 st K U \<and>
        shm_entries s1 K = (shm_entries s K)(i \<mapsto> p\<lparr>shm_ref := shm_ref p + 1\<rparr>) \<and>
        lwp_shm_ref_dec mi va s st = Some (r, s2) \<and> shm_state_ok s2 st K U \<and>
        (if shm_ref p = 0 then r = -1 \<and> s2 = s else r = shm_ref p - 1 \<and> shm_entries s2 K = (shm_entries s K)(i \<mapsto> p\<lparr>shm_ref := r\<rparr>))) \<or>
    (\<forall>i p. shm_entries s K i = Some p \<longrightarrow> shm_addr p \<noteq> pa) \<and> lwp_shm_ref_inc mi va s st = Some (-1, s) \<and> lwp_shm_ref_dec mi va s st = Some (-1, s)"
proof -
  have ok1: "shm_ok s K {}" using ok by (simp add: shm_state_ok_def)
  from struct_get_ok [OF ok1 pa] obtain r where
    r: "lwp_shm_struct_get mi va s st = Some r" "\<And>i. r = Some i \<longleftrightarrow> (\<exists>m \<in> K. i = shm_data s m \<and> shm_addr (shm_ary s i) = pa)" by blast
  show ?thesis
  proof (cases r)
    case None
    have "shm_addr p \<noteq> pa" if "shm_entries s K i = Some p" for i p
    proof -
      from that obtain n where n: "n \<in> K" "p = shm_ary s (shm_data s n)" by (auto simp: shm_entries_def ids_of_def split: if_splits)
      have "\<not> (\<exists>m \<in> K. shm_data s n = shm_data s m \<and> shm_addr (shm_ary s (shm_data s n)) = pa)"
        using r(2) [of "shm_data s n"] None by blast
      with n show ?thesis by blast
    qed
    with None r(1) show ?thesis by (simp add: lwp_shm_ref_inc_def lwp_shm_ref_dec_def)
  next
    case (Some i)
    then obtain m where m: "m \<in> K" "i = shm_data s m" "shm_addr (shm_ary s i) = pa" using r(2) [of i] by blast
    define p where "p = shm_ary s i"
    have ent: "shm_entries s K (int i) = Some p" using m by (simp add: shm_entries_def ids_of_def p_def)
    have x: "0 \<le> shm_ref p" using node_keys(4) [OF ok1 m(1)] m(2) by (simp add: entry_fits_def p_def)
    have st: "shm_state_ok (upd_shm (int i) (\<lambda>p. p\<lparr>shm_ref := y\<rparr>) s) st K U" if "0 \<le> y" for y
      using ok shm_ok_ref [OF ok1 m(1,2) that] by (simp add: shm_state_ok_def)
    have upd: "upd_shm (int i) (\<lambda>p. p\<lparr>shm_ref := shm_ref p + d\<rparr>) s = upd_shm (int i) (\<lambda>p. p\<lparr>shm_ref := shm_ref (shm_ary s i) + d\<rparr>) s" for d
      by (simp add: upd_shm_def)
    have inc: "lwp_shm_ref_inc mi va s st = Some (shm_ref p + 1, upd_shm (int i) (\<lambda>q. q\<lparr>shm_ref := shm_ref p + 1\<rparr>) s)"
      using Some r(1) upd [of 1] by (simp add: lwp_shm_ref_inc_def Let_def p_def) (simp add: upd_shm_def)
    have dec: "lwp_shm_ref_dec mi va s st = (if shm_ref p = 0 then Some (-1, s)
        else Some (shm_ref p - 1, upd_shm (int i) (\<lambda>q. q\<lparr>shm_ref := shm_ref p - 1\<rparr>) s))"
      using Some r(1) x upd [of "-1"] by (simp add: lwp_shm_ref_dec_def Let_def p_def) (auto simp: upd_shm_def)
    show ?thesis
    proof (cases "shm_ref p = 0")
      case True
      with inc dec ent m(3) st [of "shm_ref p + 1"] ok shm_ok_ref(2) [OF ok1 m(1,2), of "shm_ref p + 1"] show ?thesis
        by (intro disjI1 exI [of _ "int i"] exI [of _ p]) (auto simp: p_def)
    next
      case False
      with inc dec ent m(3) x st [of "shm_ref p + 1"] st [of "shm_ref p - 1"] shm_ok_ref(2) [OF ok1 m(1,2), of "shm_ref p + 1"]
        shm_ok_ref(2) [OF ok1 m(1,2), of "shm_ref p - 1"] show ?thesis
        by (intro disjI1 exI [of _ "int i"] exI [of _ p]) (auto simp: p_def)
    qed
  qed
qed

text \<open>A request for more than \<open>2^63\<close> bytes, which a process can make, has 52 as its number of page bits when there is a free entry: the
  page allocator, which does not check it, reads behind its array of 52 lists. The model has no result then.\<close>

theorem shmget_huge_reads_past:
  assumes "shm_state_ok s st K U" "\<And>i p. shm_entries s K i = Some p \<Longrightarrow> shm_key p \<noteq> key" "ids_of s K \<noteq> {0..<64}" "2 ^ 63 < unat sz"
  shows "lwp_shmget key sz True mem s st = None"
proof -
  have ok: "shm_ok s K {}" using assms(1) by (simp add: shm_state_ok_def)
  have nk: "\<not> (\<exists>m \<in> K. shm_key (shm_ary s (shm_data s m)) = key)" using entry_of_key [OF ok, of key] assms(2) by blast
  from find_key_ok [OF ok, of key] nk have f: "find_key key s = Some None" by (metis option.exhaust)
  have z: "sz \<noteq> 0" using assms(4) by auto
  from shm_id_alloc_ok [OF ok] assms(3) obtain sid s1 where "shm_id_alloc s = (sid, s1)" "0 \<le> sid" by blast
  then show ?thesis using f z page_bits_huge [OF assms(4)]
    by (simp add: lwp_shmget_def alloc_pages_def rt_pages_alloc_def pages_alloc_def)
qed

section \<open>Instances\<close>

definition sample_shm :: shm where
  "sample_shm = \<lparr>shm_tree_key = \<lparr>avl_root = None, avl_left = \<lambda>_. None, avl_right = \<lambda>_. None, avl_height = \<lambda>_. 0, avl_key = \<lambda>_. 0\<rparr>,
    shm_tree_pa = \<lparr>avl_root = None, avl_left = \<lambda>_. None, avl_right = \<lambda>_. None, avl_height = \<lambda>_. 0, avl_key = \<lambda>_. 0\<rparr>,
    shm_free_list = -1, shm_id_used = 0, shm_ary = \<lambda>_. \<lparr>shm_addr = 0, shm_size = 0, shm_ref = 0, shm_key = 0\<rparr>, shm_data = \<lambda>_. 0\<rparr>"

lemma sample_shm_ok: "shm_state_ok sample_shm (sample_st free_pool) {} {}" "shm_entries sample_shm {} i = None"
proof -
  have "avl_holds (shm_tree_key sample_shm) {}" "avl_holds (shm_tree_pa sample_shm) {}"
    by (auto simp: avl_holds_def avl_at_def sample_shm_def intro!: exI [of _ Leaf])
  moreover have "free_chain (shm_ary sample_shm) (shm_free_list sample_shm) []" by (simp add: sample_shm_def)
  ultimately have "shm_ok sample_shm {} {}" unfolding shm_ok_def by (auto simp: ids_of_def sample_shm_def)
  then show "shm_state_ok sample_shm (sample_st free_pool) {} {}"
    using free_pool_ok pool_holds(1) by (simp add: shm_state_ok_def shm_groups_def sample_st_def page_exact_def page_holds_def)
  show "shm_entries sample_shm {} i = None" by (simp add: shm_entries_def ids_of_def)
qed

lemma sample_shmget:
  "\<exists>r s' st' p. lwp_shmget 7 8192 True (Some 0) sample_shm (sample_st free_pool) = Some (r, s', st') \<and> shm_state_ok s' st' {0} {} \<and>
    shm_entries s' {0} r = Some p \<and> shm_ref p = 0"
proof -
  have bits: "rt_page_bits 8192 = Some 1" using page_bits_power [of 1] by simp
  have "rt_pages_alloc 1 free_pool \<noteq> Some (0, free_pool)"
    using pg.alloc_room [OF pool_holds(1), of 1] free_pool_room by auto
  then show ?thesis
    using shmget_ok [OF sample_shm_ok(1), of "Some 0" 8192 7 True] bits by (auto simp: sample_shm_ok(2) sample_st_def split: if_splits)
qed

text \<open>A group of two pages for the key 7, removed again.\<close>

theorem shmget_correct_witness:
  "\<exists>r s' st' p. lwp_shmget 7 8192 True (Some 0) sample_shm (sample_st free_pool) = Some (r, s', st') \<and>
    shm_entries s' {0} r = Some p \<and> shm_key p = 7 \<and> 8192 \<le> shm_size p"
proof -
  from sample_shmget obtain r s' st' p where
    g: "lwp_shmget 7 8192 True (Some 0) sample_shm (sample_st free_pool) = Some (r, s', st')" "shm_entries s' {0} r = Some p" by blast
  then have "r \<noteq> -1" by (auto simp: shm_entries_def ids_of_def split: if_splits)
  with g shmget_correct [OF sample_shm_ok(1), of "Some 0" 8192 7 True] show ?thesis by (auto simp: sample_shm_ok(2) split: if_splits)
qed

theorem shmrm_correct_witness:
  "\<exists>r s1 st1 s2 st2. lwp_shmget 7 8192 True (Some 0) sample_shm (sample_st free_pool) = Some (r, s1, st1) \<and>
    lwp_shmrm r s1 st1 = Some (0, s2, st2) \<and> shm_entries s2 {} r = None"
proof -
  from sample_shmget obtain r s' st' p where
    g: "lwp_shmget 7 8192 True (Some 0) sample_shm (sample_st free_pool) = Some (r, s', st')" "shm_state_ok s' st' {0} {}"
      "shm_entries s' {0} r = Some p" "shm_ref p = 0" by blast
  from shmrm_correct [OF g(2), of r] g(3,4) obtain s2 st2 where
    "lwp_shmrm r s' st' = Some (0, s2, st2)" "shm_entries s2 {} = (shm_entries s' {0})(r := None)" by auto
  with g(1) show ?thesis by auto
qed

end

