(* ===== verification/Spec2Isabelle.thy ===== *)
theory Spec2Isabelle
  imports System Ringbuffer Memory Kstring Shm
begin

text \<open>
  The kernel of RT-Thread Smart on the Allwinner F133 (\<^verbatim>\<open>src/rt-smart\<close> and \<^verbatim>\<open>src/f133\<close>), in the configuration of
  \<^verbatim>\<open>f133/rtconfig.h\<close>: one CPU with 64-bit words, 32 priorities, 100 ticks per second, assertions on, user processes with page tables.

  \<^bold>\<open>The program.\<close> Threads are scheduled by priority, round robin within one priority (\<^verbatim>\<open>src/scheduler.c\<close>). A thread gives up the processor
  when it waits for an object of \<^verbatim>\<open>src/ipc.c\<close>, sleeps (\<^verbatim>\<open>src/thread.c\<close>) or uses up its time slice. The tick interrupt
  (\<^verbatim>\<open>src/clock.c\<close>) counts the time slice and fires the timers that are due (\<^verbatim>\<open>src/timer.c\<close>); the timer of a thread ends its
  sleep or its wait. All these parts work on one set of structures with intrusive lists (\<^verbatim>\<open>include/rtdef.h\<close>,
  \<^verbatim>\<open>include/rtservice.h\<close>). Below them are the memory managers: the heap (\<^verbatim>\<open>src/mem.c\<close>), the page allocator
  (\<^verbatim>\<open>components/lwp/page.c\<close>), and the page tables (\<^verbatim>\<open>libcpu/risc-v/t-head/c906/mmu.c\<close>), which take their tables and the
  memory they map from the page allocator. Shared memory (\<^verbatim>\<open>components/lwp/lwp_shm.c\<close>) keeps its entries in two search trees
  (\<^verbatim>\<open>lwp_avl.c\<close>) and takes its pages from the same allocator.

  \<^bold>\<open>Conventions.\<close> C integers are words of their width. A call that never returns, because \<^verbatim>\<open>RT_ASSERT\<close> fails (its handler spins), because an
  access leaves the modelled memory, or because a loop does not end, is \<^const>\<open>None\<close>; a property that a call returns is stated as such. A pointer
  to a structure is a name of the object (or its address or offset where the code computes with it), and the structures are maps from the names. A call
  that disables interrupts runs to their release in one step; where a call gives up the processor it ends in \<open>Reschedule\<close> with a
  continuation that holds its local variables, and where it only enables interrupts between two critical sections, as the message queues do
  while a message is copied, it ends in \<open>Continue\<close>; the system of the theory \<open>System\<close> runs the continuation when the thread is scheduled again, or goes on.

  \<^bold>\<open>Theories.\<close>
    \<^item> \<open>Prelude\<close>: integer types, error codes, assertions, shared lemmas. \<open>Kservice\<close>: \<^verbatim>\<open>__rt_ffs\<close> and its table.
      \<open>Rtlist\<close>: the circular lists on a heap of link fields, with the contract \<open>link_queues\<close> by which the kernel model works on
      abstract lists.
    \<^item> \<open>Kernel\<close>: the structures and global variables in one record. \<open>Object\<close>, \<open>Timer\<close>, \<open>Scheduler\<close>,
      \<open>Thread\<close>, \<open>Clock\<close>: the operations of \<^verbatim>\<open>object.c\<close>, \<^verbatim>\<open>timer.c\<close>, \<^verbatim>\<open>scheduler.c\<close>,
      \<^verbatim>\<open>thread.c\<close> with the dead-thread list of \<^verbatim>\<open>idle.c\<close>, and \<^verbatim>\<open>clock.c\<close>, \<^verbatim>\<open>irq.c\<close>. The function of a user's timer
      is a parameter (\<open>cb\<close>); its contract is the locale \<open>timer_clients\<close>, interpreted for a function that releases a semaphore.
    \<^item> \<open>Invariant\<close>: the invariant \<open>kernel_inv\<close> of the kernel at rest, and that each operation of the thread layer keeps it.
      \<open>Ticks\<close>: the tick interrupt, and that it keeps the invariant and wakes sleepers on time.
    \<^item> \<open>Ipc\<close>: wait lists. \<open>Sem\<close>, \<open>Mutex\<close>, \<open>Event\<close>, \<open>Mailbox\<close>, \<open>Msgqueue\<close>: the objects of \<^verbatim>\<open>ipc.c\<close>, each
      with its operations, its invariant and its behaviour on every branch. \<open>Fifo\<close> is the contract of a bounded queue (locale
      \<open>bounded_fifo\<close>), interpreted for the mailbox ring, the message queue and the ring buffer. \<open>Sample\<close> has the concrete kernel of the
      witnesses.
    \<^item> \<open>Frame\<close>, \<open>Calls\<close>, \<open>Msgcalls\<close>, \<open>System\<close>: what each call leaves alone and guarantees to the rest, and the system of
      threads in any interleaving with tick interrupts: no assertion fails and every call and interrupt returns. The invariant of a message queue
      has the set of blocks that are on no list because a thread is copying them (\<open>mq_ok\<close>, \<open>held\<close>).
    \<^item> \<open>Ringbuffer\<close>: \<^verbatim>\<open>components/drivers/src/ringbuffer.c\<close>. \<open>Memory\<close>: \<^verbatim>\<open>src/mem.c\<close> on typed
      memory (a header is read only where one was written), with the locale \<open>allocator\<close>; data is copied with \<^verbatim>\<open>rt_memcpy\<close> of \<open>Kstring\<close>. \<open>Bitscan\<close>, \<open>Page\<close>: \<^verbatim>\<open>components/lwp/page.c\<close>, with the locale \<open>page_source\<close>. \<open>Mmu\<close>:
      \<^verbatim>\<open>mmu.c\<close> and the macros of its headers, on pages from a \<open>page_source\<close>. \<open>Kstring\<close>: the memory and string routines of
      \<^verbatim>\<open>src/kservice.c\<close>.
    \<^item> \<open>Avl\<close>: \<^verbatim>\<open>components/lwp/lwp_avl.c\<close>, balanced search trees linked by pointers, with the locale \<open>node_index\<close> for its
      users. \<open>Shm\<close>: \<^verbatim>\<open>lwp_shm.c\<close>, the entries of shared memory; what \<^verbatim>\<open>rt_malloc\<close> returns for the nodes is a parameter (\<open>mem\<close>).

  \<^bold>\<open>What the lemmas show.\<close> Scheduling: the highest ready priority runs, equal priorities take turns, the lock defers a switch. System: from any
  state that satisfies the invariant no interleaving of calls and ticks fails an assertion, and a mutex stays with its owner until it is
  released. IPC: every call refines its abstract object (a counter, an owner with priority inheritance, a set of flags, a bounded queue). Time: a sleeping
  thread is ready after exactly its ticks. Memory: areas handed out by the heap are disjoint, inside the heap and keep their data; groups of pages are
  aligned, disjoint and joined again; the page tables translate what was mapped and nothing else changes; search trees stay balanced and find what
  was inserted; shared memory takes and gives back exactly its own pages.

  \<^bold>\<open>Bounds.\<close> Waiting times are below \<^verbatim>\<open>RT_TICK_MAX / 2\<close> (the assertion of \<^verbatim>\<open>rt_timer_start\<close>), or forever; a thread that was
  preempted in the middle of a call on a mailbox or a message queue goes on within \<^verbatim>\<open>2^31\<close> ticks, 248 days (\<open>timely\<close>). The heap walk of
  \<open>Memory\<close> has the heap's end as its fuel, each block being at least its header. The pages that become the \<^verbatim>\<open>struct page\<close> array hold
  zeros before \<^verbatim>\<open>rt_page_init\<close>. The page tables lie in memory mapped with \<^verbatim>\<open>PV_OFFSET\<close> 0, below \<^verbatim>\<open>2^56\<close>; four free pages for
  each page to map (six where the memory is fresh) are enough room, two tables of two pages each and the page itself. \<open>heap_sem\<close> and the disabled interrupts
  make each call of the memory managers one step. The heap has at least 88 and less than \<^verbatim>\<open>2^31\<close> bytes. The stack of 32 places in
  \<^verbatim>\<open>lwp_avl.c\<close> is enough for nine million nodes; sizes of shared memory are at most \<^verbatim>\<open>2^63\<close>. In \<open>Kstring\<close> counts of \<^verbatim>\<open>rt_memcpy\<close> and lengths of strings are below \<^verbatim>\<open>2^31\<close>.

  \<^bold>\<open>Not modelled.\<close> Formatted output, the console and the devices (I/O), \<^verbatim>\<open>rt_malloc_align\<close>; the list commands of the shell, which print; the
  context switch, interrupt entry and start-up in assembly; the caches, the translation buffer, the interrupt controller and the timer of the CPU (hardware);
  multiprocessor code, memory pools of \<^verbatim>\<open>memheap.c\<close> and \<^verbatim>\<open>slab.c\<close>, POSIX-style signals of \<^verbatim>\<open>signal.c\<close> (not
  in this configuration); the attaching of shared memory to a process
  (\<^verbatim>\<open>lwp_shmat\<close>, \<^verbatim>\<open>lwp_shmdt\<close>); processes, channels and system calls (\<^verbatim>\<open>components/lwp\<close>) other than the parts named above; drivers, file systems, the C library, the
  network stack and the vendor's hardware layer (\<^verbatim>\<open>f133/libraries\<close>, \<^verbatim>\<open>d1-allwinner-nezha\<close>), which is other people's code or talks to hardware.
\<close>

end
